(* ===== verification/Prelude.thy ===== *)
theory Prelude
  imports Main "HOL-Library.Word"
begin

text \<open>
  Shared vocabulary of the development.

  \<^item> Exceptions are values: \<open>pyerr\<close> lists the exception classes the modelled code raises, and a
    computation that may raise returns \<open>pyerr + 'a\<close> (\<open>Inl\<close> the exception, \<open>Inr\<close> the result).
    \<open>rbind\<close> sequences two such computations and \<open>rmap_list\<close> runs one over a list from left to
    right, stopping at the first exception, as a Python loop does.
  \<^item> A Python \<open>dict\<close> (and \<open>collections.OrderedDict\<close>) is an association list with distinct keys in
    insertion order. \<open>dget\<close>, \<open>dset\<close>, \<open>ddel\<close> are lookup, assignment (which keeps the position of an
    existing key) and deletion. The locale \<open>odict\<close> is the interface the other theories rely on;
    it is interpreted on these functions at the end of the theory.
  \<^item> Strings are \<open>string\<close>s: one \<open>char\<close> per code point below 256, so \<open>length\<close> is Python's \<open>len\<close>.
    Bytes are \<open>8 word\<close> lists.
\<close>

subsection \<open>Exceptions and results\<close>

datatype pyerr =
    KeyError
  | IndexError
  | ValueError
  | AssertionError
  | TypeError
  | AttributeError
  | NotImplementedError
  | RuntimeError
  | RecursionError
  | ZeroDivisionError
  | OverflowError
  | RemoteException
  | PyeeException
  | UserException nat
  | CancelledError

text \<open>\<open>asyncio.CancelledError\<close> is a \<open>BaseException\<close> that \<open>except Exception\<close> does not catch.\<close>

definition is_exception :: "pyerr \<Rightarrow> bool" where
  "is_exception e \<longleftrightarrow> e \<noteq> CancelledError"

type_synonym 'a res = "pyerr + 'a"

named_theorems res_simps

primrec rbind :: "'a res \<Rightarrow> ('a \<Rightarrow> 'b res) \<Rightarrow> 'b res" where
  "rbind (Inl e) f = Inl e"
| "rbind (Inr x) f = f x"

lemma rbind_cong [fundef_cong]:
  "r = s \<Longrightarrow> (\<And>x. s = Inr x \<Longrightarrow> f x = g x) \<Longrightarrow> rbind r f = rbind s g"
  by (cases s) auto

lemma rbind_Inr_iff [res_simps]:
  "rbind r f = Inr y \<longleftrightarrow> (\<exists>x. r = Inr x \<and> f x = Inr y)"
  by (cases r) auto

lemma rbind_Inl_iff [res_simps]:
  "rbind r f = Inl e \<longleftrightarrow> r = Inl e \<or> (\<exists>x. r = Inr x \<and> f x = Inl e)"
  by (cases r) auto

lemma rbind_assoc: "rbind (rbind r f) g = rbind r (\<lambda>x. rbind (f x) g)"
  by (cases r) auto

definition rassert :: "bool \<Rightarrow> unit res" where
  "rassert b = (if b then Inr () else Inl AssertionError)"

lemma rassert_simps [simp]:
  "rassert True = Inr ()" "rassert False = Inl AssertionError"
  "rassert b = Inr u \<longleftrightarrow> b" "rassert b = Inl e \<longleftrightarrow> \<not> b \<and> e = AssertionError"
  by (auto simp: rassert_def)

primrec of_opt :: "pyerr \<Rightarrow> 'a option \<Rightarrow> 'a res" where
  "of_opt e None = Inl e"
| "of_opt e (Some x) = Inr x"

lemma of_opt_Inr [simp]: "of_opt e r = Inr x \<longleftrightarrow> r = Some x"
  by (cases r) auto

fun rmap_list :: "('a \<Rightarrow> 'b res) \<Rightarrow> 'a list \<Rightarrow> 'b list res" where
  "rmap_list f [] = Inr []"
| "rmap_list f (x # xs) = rbind (f x) (\<lambda>y. rbind (rmap_list f xs) (\<lambda>ys. Inr (y # ys)))"

lemma rmap_list_cong [fundef_cong]:
  "xs = ys \<Longrightarrow> (\<And>x. x \<in> set ys \<Longrightarrow> f x = g x) \<Longrightarrow> rmap_list f xs = rmap_list g ys"
  by (induction ys arbitrary: xs) auto

lemma rmap_list_total:
  "(\<And>x. x \<in> set xs \<Longrightarrow> f x = Inr (g x)) \<Longrightarrow> rmap_list f xs = Inr (map g xs)"
  by (induction xs) auto

lemma rmap_list_length: "rmap_list f xs = Inr ys \<Longrightarrow> length ys = length xs"
  by (induction xs arbitrary: ys) (auto simp: res_simps)

lemma rmap_list_nth:
  "rmap_list f xs = Inr ys \<Longrightarrow> i < length xs \<Longrightarrow> f (xs ! i) = Inr (ys ! i)"
  by (induction xs arbitrary: ys i) (auto simp: res_simps nth_Cons split: nat.splits)

fun rfold :: "('a \<Rightarrow> 's \<Rightarrow> 's res) \<Rightarrow> 'a list \<Rightarrow> 's \<Rightarrow> 's res" where
  "rfold f [] s = Inr s"
| "rfold f (x # xs) s = rbind (f x s) (rfold f xs)"

lemma rfold_append: "rfold f (xs @ ys) s = rbind (rfold f xs s) (rfold f ys)"
proof (induction xs arbitrary: s)
  case (Cons x xs)
  have "rfold f ((x # xs) @ ys) s = rbind (f x s) (\<lambda>t. rfold f (xs @ ys) t)"
    by simp
  then show ?case
    by (simp only: Cons.IH rfold.simps rbind_assoc)
qed simp

lemma rfold_invariant:
  assumes "rfold f xs s = Inr t" and "P s"
    and "\<And>x s t. x \<in> set xs \<Longrightarrow> P s \<Longrightarrow> f x s = Inr t \<Longrightarrow> P t"
  shows "P t"
  using assms
proof (induction xs arbitrary: s)
  case (Cons x xs)
  from Cons.prems(1) obtain u where u: "f x s = Inr u" "rfold f xs u = Inr t"
    by (auto simp: res_simps)
  have pu: "P u"
    using Cons.prems(3)[OF _ Cons.prems(2) u(1)] by simp
  show ?case
  proof (rule Cons.IH[OF u(2) pu])
    fix y s t
    assume "y \<in> set xs" "P s" "f y s = Inr t"
    then show "P t"
      using Cons.prems(3)[of y s t] by simp
  qed
qed simp

lemma rfold_establishes:
  assumes "rfold f xs s = Inr t" and "x \<in> set xs" and "\<And>s t. f x s = Inr t \<Longrightarrow> P t"
    and "\<And>y s t. y \<in> set xs \<Longrightarrow> P s \<Longrightarrow> f y s = Inr t \<Longrightarrow> P t"
  shows "P t"
  using assms
proof (induction xs arbitrary: s)
  case (Cons y ys)
  from Cons.prems(1) obtain u where u: "f y s = Inr u" "rfold f ys u = Inr t" by (auto simp: res_simps)
  show ?case
  proof (cases "x \<in> set ys")
    case True
    with Cons.IH[OF u(2)] Cons.prems(3,4) show ?thesis by (meson list.set_intros(2))
  next
    case False
    with Cons.prems(2,3) u(1) have "P u" by auto
    with u(2) show ?thesis
      by (rule rfold_invariant) (use Cons.prems(4) in \<open>auto intro: list.set_intros(2)\<close>)
  qed
qed simp

lemma rfold_items: "rfold (\<lambda>(h, es). rfold f es) d s = rfold f (concat (map snd d)) s"
  by (induction d arbitrary: s) (auto simp: rfold_append intro!: rbind_cong)

lemma rfold_weighted:
  assumes step: "\<And>x s n. x \<in> set xs \<Longrightarrow> P n s \<Longrightarrow>
      (\<exists>s'. f x s = Inr s' \<and> P (n + w x) s' \<and> Q x s' \<and> R s s') \<or> (f x s = Inl ValueError \<and> N \<le> n + w x)"
    and refl: "\<And>s. R s s" and trans: "\<And>s t u. R s t \<Longrightarrow> R t u \<Longrightarrow> R s u"
    and stable: "\<And>x s t. Q x s \<Longrightarrow> R s t \<Longrightarrow> Q x t" and start: "P n s"
  shows "(\<exists>s'. rfold f xs s = Inr s' \<and> P (n + sum_list (map w xs)) s' \<and> (\<forall>x \<in> set xs. Q x s') \<and> R s s') \<or>
    (rfold f xs s = Inl ValueError \<and> N \<le> n + (sum_list (map w xs) :: nat))"
  using step start
proof (induction xs arbitrary: n s)
  case (Cons x xs)
  from Cons.prems(1)[of x n s] Cons.prems(2) show ?case
  proof (elim disjE exE conjE meta_impE; simp)
    fix s1
    assume s1: "f x s = Inr s1" "P (n + w x) s1" "Q x s1" "R s s1"
    from Cons.IH[OF Cons.prems(1) s1(2)] show "(\<exists>s'. rfold f xs s1 = Inr s' \<and> P (n + (w x + sum_list (map w xs))) s' \<and>
        Q x s' \<and> (\<forall>x \<in> set xs. Q x s') \<and> R s s') \<or>
        (rfold f xs s1 = Inl ValueError \<and> N \<le> n + (w x + sum_list (map w xs)))"
      using stable[OF s1(3)] trans[OF s1(4)] by (auto simp: add.assoc)
  qed
qed (use refl in auto)

lemma rfold_counted:
  assumes step: "\<And>x s n. x \<in> set xs \<Longrightarrow> P n s \<Longrightarrow>
      (\<exists>s'. f x s = Inr s' \<and> P (Suc n) s' \<and> Q x s' \<and> R s s') \<or> (f x s = Inl ValueError \<and> N \<le> n)"
    and refl: "\<And>s. R s s" and trans: "\<And>s t u. R s t \<Longrightarrow> R t u \<Longrightarrow> R s u"
    and stable: "\<And>x s t. Q x s \<Longrightarrow> R s t \<Longrightarrow> Q x t" and start: "P n s"
  shows "(\<exists>s'. rfold f xs s = Inr s' \<and> P (n + length xs) s' \<and> (\<forall>x \<in> set xs. Q x s') \<and> R s s') \<or>
    (rfold f xs s = Inl ValueError \<and> N \<le> n + length xs)"
proof -
  have "(\<exists>s'. f x s = Inr s' \<and> P (n + 1) s' \<and> Q x s' \<and> R s s') \<or> (f x s = Inl ValueError \<and> N \<le> n + 1)"
    if "x \<in> set xs" "P n s" for x s n
    using step[OF that] by auto
  from rfold_weighted[of xs P f "\<lambda>_. 1" Q R N, OF this refl trans stable start] show ?thesis
    by (simp add: sum_list_triv)
qed

text \<open>
  Stateful code that may raise keeps the state changes made before the exception: it is a function
  from the state to the outcome and the final state. \<open>abind\<close> sequences two such actions.
\<close>

type_synonym ('s, 'a) act = "'s \<Rightarrow> 'a res \<times> 's"

definition abind :: "('s, 'a) act \<Rightarrow> ('a \<Rightarrow> ('s, 'b) act) \<Rightarrow> ('s, 'b) act" where
  "abind m f s = (case m s of (Inl e, s') \<Rightarrow> (Inl e, s') | (Inr x, s') \<Rightarrow> f x s')"

definition aret :: "'a \<Rightarrow> ('s, 'a) act" where
  "aret x s = (Inr x, s)"

definition araise :: "pyerr \<Rightarrow> ('s, 'a) act" where
  "araise e s = (Inl e, s)"

fun afor :: "('x \<Rightarrow> ('s, unit) act) \<Rightarrow> 'x list \<Rightarrow> ('s, unit) act" where
  "afor f [] s = (Inr (), s)"
| "afor f (x # xs) s = (case f x s of (Inl e, s') \<Rightarrow> (Inl e, s') | (Inr _, s') \<Rightarrow> afor f xs s')"

named_theorems act_simps

lemmas [act_simps] = abind_def aret_def araise_def

text \<open>\<open>keeps P m\<close>: whatever the outcome of \<open>m\<close>, it keeps \<open>P\<close>.\<close>

definition keeps :: "('s \<Rightarrow> bool) \<Rightarrow> ('s, 'a) act \<Rightarrow> bool" where
  "keeps P m \<longleftrightarrow> (\<forall>s. P s \<longrightarrow> P (snd (m s)))"

lemma keepsI: "(\<And>s. P s \<Longrightarrow> P (snd (m s))) \<Longrightarrow> keeps P m"
  by (simp add: keeps_def)

lemma keepsD: "keeps P m \<Longrightarrow> P s \<Longrightarrow> P (snd (m s))"
  by (simp add: keeps_def)

lemma keeps_abind:
  assumes "keeps P m" and "\<And>x. keeps P (f x)"
  shows "keeps P (abind m f)"
proof (rule keepsI)
  fix s
  assume "P s"
  then have "P (snd (m s))" by (rule keepsD[OF assms(1)])
  then show "P (snd (abind m f s))"
    using assms(2) by (auto simp: abind_def keeps_def split: prod.splits sum.splits)
qed

lemma keeps_aret [simp]: "keeps P (aret x)" "keeps P (araise e)"
  by (simp_all add: keeps_def act_simps)

lemma keeps_afor:
  assumes "\<And>x. keeps P (f x)"
  shows "keeps P (afor f xs)"
proof (rule keepsI)
  fix s
  assume "P s"
  then show "P (snd (afor f xs s))"
  proof (induction xs arbitrary: s)
    case (Cons x xs)
    have "P (snd (f x s))" using keepsD[OF assms Cons.prems] .
    then show ?case using Cons.IH by (auto split: sum.splits prod.splits)
  qed simp
qed

lemma afor_invariant:
  assumes "afor f xs s = (Inr u, t)" and "P s"
    and "\<And>x s t. x \<in> set xs \<Longrightarrow> P s \<Longrightarrow> f x s = (Inr (), t) \<Longrightarrow> P t"
  shows "P t"
  using assms
proof (induction xs arbitrary: s)
  case (Cons x xs)
  from Cons.prems(1) obtain s' where s': "f x s = (Inr (), s')" "afor f xs s' = (Inr u, t)"
    by (auto split: prod.splits sum.splits)
  have "P s'" using Cons.prems(3)[OF _ Cons.prems(2) s'(1)] by simp
  with s'(2) show ?case
    using Cons.IH[of s'] Cons.prems(3) by (metis list.set_intros(2))
qed simp

lemma abind_Inr:
  "abind m f s = (Inr x, t) \<longleftrightarrow> (\<exists>y s'. m s = (Inr y, s') \<and> f y s' = (Inr x, t))"
  by (auto simp: abind_def split: prod.splits sum.splits)

lemma abind_step: "m s = (Inr y, s') \<Longrightarrow> abind m f s = f y s'"
  by (simp add: abind_def)

subsection \<open>Slices and buffers\<close>

text \<open>\<open>xs[i:j]\<close> for bounds that are not negative: bounds beyond the end are clipped.\<close>

definition slice :: "'a list \<Rightarrow> nat \<Rightarrow> nat \<Rightarrow> 'a list" where
  "slice xs i j = take (j - i) (drop i xs)"

named_theorems buf_simps

lemma length_slice [simp]: "length (slice xs i j) = min (j - i) (length xs - i)"
  by (simp add: slice_def min.commute)

lemma slice_append_drop:
  "i \<le> j \<Longrightarrow> slice xs i j @ drop j xs = drop i xs"
  by (simp add: slice_def) (metis append_take_drop_id drop_drop le_add_diff_inverse2)

lemma slice_join: "i \<le> j \<Longrightarrow> j \<le> k \<Longrightarrow> slice xs i j @ slice xs j k = slice xs i k"
  using take_add[of "j - i" "k - j" "drop i xs"] by (simp add: slice_def)

lemma slice_full [simp]: "length xs \<le> n \<Longrightarrow> slice xs 0 n = xs"
  by (simp add: slice_def)

lemma slice_empty [simp]: "slice xs i i = []" "slice [] i j = []"
  by (simp_all add: slice_def)

lemma slice_append_left [simp]: "slice (xs @ ys) 0 (length xs) = xs"
  by (simp add: slice_def)

lemma slice_append_right [buf_simps]:
  "slice (xs @ ys) (length xs + i) (length xs + j) = slice ys i j"
  by (simp add: slice_def)

lemma slice_append_mid [buf_simps]:
  "slice (xs @ ys @ zs) (length xs) (length xs + length ys) = ys"
  by (simp add: slice_def)

text \<open>
  \<open>xs[a:b]\<close> for any integer bounds: a negative bound counts from the end, and every bound is
  clipped to the list.
\<close>

definition clip_index :: "nat \<Rightarrow> int \<Rightarrow> nat" where
  "clip_index n i = (if i < 0 then nat (i + int n) else min (nat i) n)"

definition pyslice :: "'a list \<Rightarrow> int \<Rightarrow> int \<Rightarrow> 'a list" where
  "pyslice xs a b = slice xs (clip_index (length xs) a) (clip_index (length xs) b)"

lemma pyslice_nat: "pyslice xs (int i) (int j) = slice xs i j"
  by (cases "i \<le> length xs") (simp_all add: pyslice_def clip_index_def slice_def min_def)

text \<open>\<open>xs[i]\<close>: a negative index counts from the end; outside the list it raises.\<close>

definition pyindex :: "'a list \<Rightarrow> int \<Rightarrow> 'a res" where
  "pyindex xs i = (let n = int (length xs); j = (if i < 0 then i + n else i)
     in if 0 \<le> j \<and> j < n then Inr (xs ! nat j) else Inl IndexError)"

lemma pyindex_nat [simp]: "i < length xs \<Longrightarrow> pyindex xs (int i) = Inr (xs ! i)"
  by (simp add: pyindex_def)

text \<open>
  \<open>blit buf start data\<close> is the buffer after writing \<open>data\<close> at \<open>start\<close>; it is used where the code's
  own size checks make the written range lie inside the buffer.
\<close>

definition blit :: "'a list \<Rightarrow> nat \<Rightarrow> 'a list \<Rightarrow> 'a list" where
  "blit buf start data = take start buf @ data @ drop (start + length data) buf"

lemma length_blit [simp]:
  "start + length data \<le> length buf \<Longrightarrow> length (blit buf start data) = length buf"
  by (simp add: blit_def)

lemma slice_blit_same:
  "start + length data \<le> length buf \<Longrightarrow> slice (blit buf start data) start (start + length data) = data"
  by (simp add: blit_def slice_def)

lemma take_blit:
  "n \<le> start \<Longrightarrow> start \<le> length buf \<Longrightarrow> take n (blit buf start data) = take n buf"
  by (simp add: blit_def min_def)

lemma slice_take: "j \<le> n \<Longrightarrow> slice (take n xs) i j = slice xs i j"
  by (cases "i \<le> j") (simp_all add: slice_def drop_take min_def)

lemma slice_blit_before:
  assumes "j \<le> start" and "start \<le> length buf"
  shows "slice (blit buf start data) i j = slice buf i j"
proof -
  have "slice (blit buf start data) i j = slice (take start (blit buf start data)) i j"
    using assms by (simp add: slice_take)
  also have "\<dots> = slice (take start buf) i j"
    using assms by (simp add: take_blit)
  also have "\<dots> = slice buf i j"
    using assms by (simp add: slice_take)
  finally show ?thesis .
qed

lemma drop_blit:
  "start + length data \<le> n \<Longrightarrow> start + length data \<le> length buf \<Longrightarrow>
   drop n (blit buf start data) = drop n buf"
  by (simp add: blit_def)

lemma slice_blit_after:
  "start + length data \<le> i \<Longrightarrow> start + length data \<le> length buf \<Longrightarrow>
   slice (blit buf start data) i j = slice buf i j"
  by (simp add: slice_def drop_blit)

subsection \<open>Insertion-ordered dictionaries\<close>

type_synonym ('k, 'v) dict = "('k \<times> 'v) list"

definition dget :: "('k, 'v) dict \<Rightarrow> 'k \<Rightarrow> 'v option" where
  "dget m k = map_of m k"

fun dset :: "'k \<Rightarrow> 'v \<Rightarrow> ('k, 'v) dict \<Rightarrow> ('k, 'v) dict" where
  "dset k v [] = [(k, v)]"
| "dset k v ((k', v') # m) = (if k' = k then (k, v) # m else (k', v') # dset k v m)"

definition ddel :: "'k \<Rightarrow> ('k, 'v) dict \<Rightarrow> ('k, 'v) dict" where
  "ddel k m = filter (\<lambda>p. fst p \<noteq> k) m"

definition dkeys :: "('k, 'v) dict \<Rightarrow> 'k list" where
  "dkeys m = map fst m"

definition dvals :: "('k, 'v) dict \<Rightarrow> 'v list" where
  "dvals m = map snd m"

definition dmem :: "'k \<Rightarrow> ('k, 'v) dict \<Rightarrow> bool" where
  "dmem k m \<longleftrightarrow> k \<in> set (dkeys m)"

definition dict_ok :: "('k, 'v) dict \<Rightarrow> bool" where
  "dict_ok m \<longleftrightarrow> distinct (dkeys m)"

definition dupdate :: "('k, 'v) dict \<Rightarrow> ('k, 'v) dict \<Rightarrow> ('k, 'v) dict" where
  "dupdate m n = fold (\<lambda>(k, v). dset k v) n m"

named_theorems dict_simps

lemma dget_Nil [simp]: "dget [] k = None"
  by (simp add: dget_def)

lemma dget_Cons [simp]: "dget ((k', v) # m) k = (if k = k' then Some v else dget m k)"
  by (simp add: dget_def)

lemma dget_dset [simp]: "dget (dset k v m) j = (if j = k then Some v else dget m j)"
  by (induction k v m rule: dset.induct) auto

lemma dget_ddel [simp]: "dget (ddel k m) j = (if j = k then None else dget m j)"
  by (induction m) (auto simp: ddel_def)

lemma dkeys_Nil [simp]: "dkeys [] = []"
  by (simp add: dkeys_def)

lemma dkeys_Cons [simp]: "dkeys ((k, v) # m) = k # dkeys m"
  by (simp add: dkeys_def)

lemma dkeys_dset [dict_simps]:
  "dkeys (dset k v m) = (if k \<in> set (dkeys m) then dkeys m else dkeys m @ [k])"
  by (induction k v m rule: dset.induct) auto

lemma dkeys_ddel [dict_simps]: "dkeys (ddel k m) = filter (\<lambda>j. j \<noteq> k) (dkeys m)"
  by (induction m) (auto simp: ddel_def)

lemma dget_None_iff: "dget m k = None \<longleftrightarrow> k \<notin> set (dkeys m)"
  by (simp add: dget_def dkeys_def map_of_eq_None_iff)

lemma dget_Some_mem: "dget m k = Some v \<Longrightarrow> k \<in> set (dkeys m)"
  using dget_None_iff[of m k] by auto

lemma dmem_dget: "dmem k m \<longleftrightarrow> dget m k \<noteq> None"
  by (simp add: dmem_def dget_None_iff)

lemma dmem_simps [simp]:
  "\<not> dmem k []" "dmem k ((j, v) # m) \<longleftrightarrow> k = j \<or> dmem k m"
  by (auto simp: dmem_def)

lemma dmem_dset [simp]: "dmem j (dset k v m) \<longleftrightarrow> j = k \<or> dmem j m"
  by (auto simp: dmem_dget)

lemma dmem_ddel [simp]: "dmem j (ddel k m) \<longleftrightarrow> j \<noteq> k \<and> dmem j m"
  by (auto simp: dmem_dget)

lemma dict_ok_Nil [simp]: "dict_ok []"
  by (simp add: dict_ok_def)

lemma dict_ok_single [simp]: "dict_ok [p]"
  by (cases p) (simp add: dict_ok_def)

lemma dict_ok_dset [simp]: "dict_ok m \<Longrightarrow> dict_ok (dset k v m)"
  by (auto simp: dict_ok_def dict_simps)

lemma dict_ok_ddel [simp]: "dict_ok m \<Longrightarrow> dict_ok (ddel k m)"
  by (auto simp: dict_ok_def dict_simps)

lemma dict_items: "dict_ok d \<Longrightarrow> (k, v) \<in> set d \<longleftrightarrow> dget d k = Some v"
  by (simp add: dict_ok_def dget_def dkeys_def)

lemma dset_not_mem: "k \<notin> set (dkeys m) \<Longrightarrow> dset k v m = m @ [(k, v)]"
  by (induction k v m rule: dset.induct) auto

text \<open>
  The interface of an insertion-ordered map: lookup, assignment and deletion by key, and the key
  list. The laws are those the Python language reference documents for \<open>dict\<close>.
\<close>

locale odict =
  fixes get :: "'m \<Rightarrow> 'k \<Rightarrow> 'v option"
    and put :: "'k \<Rightarrow> 'v \<Rightarrow> 'm \<Rightarrow> 'm"
    and del :: "'k \<Rightarrow> 'm \<Rightarrow> 'm"
    and keys :: "'m \<Rightarrow> 'k list"
    and inv :: "'m \<Rightarrow> bool"
  assumes get_put: "get (put k v m) j = (if j = k then Some v else get m j)"
    and get_del: "get (del k m) j = (if j = k then None else get m j)"
    and keys_put: "keys (put k v m) = (if k \<in> set (keys m) then keys m else keys m @ [k])"
    and keys_del: "keys (del k m) = filter (\<lambda>j. j \<noteq> k) (keys m)"
    and get_keys: "get m k = None \<longleftrightarrow> k \<notin> set (keys m)"
    and inv_put: "inv m \<Longrightarrow> inv (put k v m)"
    and inv_del: "inv m \<Longrightarrow> inv (del k m)"
    and inv_keys: "inv m \<Longrightarrow> distinct (keys m)"
begin

lemma put_all_get:
  "get (fold (\<lambda>(k, v). put k v) kvs m) j =
   (case map_of (rev kvs) j of None \<Rightarrow> get m j | Some v \<Rightarrow> Some v)"
  by (induction kvs arbitrary: m) (auto simp: get_put map_add_def split: option.splits)

lemma del_all_get:
  "get (fold del ks m) j = (if j \<in> set ks then None else get m j)"
  by (induction ks arbitrary: m) (auto simp: get_del)

lemma inv_put_all: "inv m \<Longrightarrow> inv (fold (\<lambda>(k, v). put k v) kvs m)"
  by (induction kvs arbitrary: m) (auto simp: inv_put)

lemma inv_del_all: "inv m \<Longrightarrow> inv (fold del ks m)"
  by (induction ks arbitrary: m) (auto simp: inv_del)

lemma del_put_fresh: "k \<notin> set (keys m) \<Longrightarrow> keys (del k (put k v m)) = keys m"
  by (auto simp: keys_put keys_del filter_id_conv)

end

interpretation pydict: odict dget dset ddel dkeys dict_ok
  by unfold_locales (auto simp: dict_simps dget_None_iff dict_ok_def)

end
