(* ===== verification/TreeId.thy ===== *)
theory TreeId
  imports Prelude
begin

text \<open>
  \<open>core/tree_id.py\<close>: the tree identifiers of the UI framework. An identifier is a list of parts,
  encoded as one string: the decimal lengths of the parts joined by a dot, a bar, and the parts
  joined by a splitter. The lengths make the decoding independent of the characters of the parts,
  which may contain the bar, the dot and the splitter. The theory models the string
  functions of Python the code uses (\<open>str\<close> of a length, \<open>int\<close> of a string, \<open>find\<close>, \<open>split\<close>,
  \<open>join\<close>), the constructor with its assertions, and every method. Its lemmas: decoding inverts
  encoding, the encoding is injective, and the prefix operations compute the longest common prefix.
\<close>

subsection \<open>Python string functions\<close>

text \<open>\<open>str(n)\<close> of a natural number.\<close>

definition digit_char :: "nat \<Rightarrow> char" where
  "digit_char d = char_of (48 + d)"

fun nat_str :: "nat \<Rightarrow> string" where
  "nat_str n = (if n < 10 then [digit_char n] else nat_str (n div 10) @ [digit_char (n mod 10)])"

declare nat_str.simps [simp del]

text \<open>
  \<open>int(s)\<close>: white space around an optional sign and decimal digits, with single underscores
  between digits; anything else is a \<open>ValueError\<close>.
\<close>

definition is_space :: "char \<Rightarrow> bool" where
  "is_space c \<longleftrightarrow> of_char c \<in> {9, 10, 11, 12, 13, 28, 29, 30, 31, 32, 133, 160 :: nat}"

definition py_strip :: "string \<Rightarrow> string" where
  "py_strip s = rev (dropWhile is_space (rev (dropWhile is_space s)))"

definition digit_val :: "char \<Rightarrow> nat option" where
  "digit_val c = (let n = of_char c in if 48 \<le> n \<and> n < 58 then Some (n - 48) else None)"

fun digits_val :: "nat \<Rightarrow> bool \<Rightarrow> string \<Rightarrow> nat option" where
  "digits_val acc after_digit [] = (if after_digit then Some acc else None)"
| "digits_val acc after_digit (c # cs) =
     (case digit_val c of
        Some d \<Rightarrow> digits_val (10 * acc + d) True cs
      | None \<Rightarrow> if c = CHR ''_'' \<and> after_digit then digits_val acc False cs else None)"

definition py_int :: "string \<Rightarrow> int res" where
  "py_int s = (case py_strip s of
       [] \<Rightarrow> Inl ValueError
     | c # cs \<Rightarrow>
         if c = CHR ''-'' then of_opt ValueError (map_option (\<lambda>n. - int n) (digits_val 0 False cs))
         else if c = CHR ''+'' then of_opt ValueError (map_option int (digits_val 0 False cs))
         else of_opt ValueError (map_option int (digits_val 0 False (c # cs))))"

text \<open>\<open>s.find(c)\<close>, \<open>s.split(c)\<close> and \<open>sep.join(parts)\<close> for a one-character \<open>c\<close>.\<close>

fun find_char :: "char \<Rightarrow> string \<Rightarrow> nat option" where
  "find_char c [] = None"
| "find_char c (x # xs) = (if x = c then Some 0 else map_option Suc (find_char c xs))"

fun split_on :: "char \<Rightarrow> string \<Rightarrow> string list" where
  "split_on c [] = [[]]"
| "split_on c (x # xs) =
     (if x = c then [] # split_on c xs
      else case split_on c xs of [] \<Rightarrow> [[x]] | y # ys \<Rightarrow> (x # y) # ys)"

fun join :: "string \<Rightarrow> string list \<Rightarrow> string" where
  "join sep [] = []"
| "join sep [p] = p"
| "join sep (p # q # ps) = p @ sep @ join sep (q # ps)"

subsection \<open>The identifier\<close>

datatype tid_class = ClsTreeId | ClsForComp | ClsForTree

record tree_id =
  tid_class :: tid_class
  uid_encoded :: string
  tid_parts :: "string list"
  splitter_length :: int

fun cut_parts :: "string \<Rightarrow> int \<Rightarrow> int \<Rightarrow> int list \<Rightarrow> string list" where
  "cut_parts uid_part sl start [] = []"
| "cut_parts uid_part sl start (l # ls) =
     pyslice uid_part start (start + l) # cut_parts uid_part sl (start + l + sl) ls"

definition tree_id_init :: "tid_class \<Rightarrow> string \<Rightarrow> int \<Rightarrow> tree_id res" where
  "tree_id_init cls uid sl = (case find_char (CHR ''|'') uid of
       None \<Rightarrow> if length uid = 0
               then Inr \<lparr>tid_class = cls, uid_encoded = uid, tid_parts = cut_parts [] sl 0 [],
                         splitter_length = sl\<rparr>
               else Inl AssertionError
     | Some i \<Rightarrow>
         let length_part = slice uid 0 i; uid_part = drop (i + 1) uid in
         rbind (rmap_list py_int (split_on (CHR ''.'') length_part)) (\<lambda>lengths.
           if sum_list lengths = int (length uid_part) - sl * (int (length lengths) - 1)
           then Inr \<lparr>tid_class = cls, uid_encoded = uid,
                     tid_parts = cut_parts uid_part sl 0 lengths, splitter_length = sl\<rparr>
           else Inl AssertionError))"

definition encode_parts :: "string list \<Rightarrow> string \<Rightarrow> string" where
  "encode_parts parts splitter =
     join ''.'' (map (\<lambda>p. nat_str (length p)) parts) @ ''|'' @ join splitter parts"

definition from_parts :: "tid_class \<Rightarrow> string list \<Rightarrow> string \<Rightarrow> tree_id res" where
  "from_parts cls parts splitter =
     (if length parts = 0 then tree_id_init cls '''' (int (length splitter))
      else tree_id_init cls (encode_parts parts splitter) (int (length splitter)))"

definition tid_empty :: "tree_id \<Rightarrow> bool" where
  "tid_empty t \<longleftrightarrow> length (uid_encoded t) = 0"

definition set_parts_inplace :: "tree_id \<Rightarrow> string list \<Rightarrow> string \<Rightarrow> tree_id" where
  "set_parts_inplace t parts splitter =
     t\<lparr>tid_parts := parts, uid_encoded := encode_parts parts splitter\<rparr>"

definition tid_length :: "tree_id \<Rightarrow> nat" where
  "tid_length t = length (tid_parts t)"

definition append_part :: "tree_id \<Rightarrow> string \<Rightarrow> string \<Rightarrow> tree_id res" where
  "append_part t part splitter = from_parts (tid_class t) (tid_parts t @ [part]) splitter"

definition extend_parts :: "tree_id \<Rightarrow> string list \<Rightarrow> string \<Rightarrow> tree_id res" where
  "extend_parts t parts splitter = from_parts (tid_class t) (tid_parts t @ parts) splitter"

definition tid_pop :: "tree_id \<Rightarrow> tree_id res" where
  "tid_pop t = from_parts (tid_class t) (butlast (tid_parts t)) ''.''"

definition tid_eq :: "tree_id \<Rightarrow> tree_id \<Rightarrow> bool" where
  "tid_eq t o' \<longleftrightarrow> uid_encoded t = uid_encoded o'"

definition tid_ne :: "tree_id \<Rightarrow> tree_id \<Rightarrow> bool" where
  "tid_ne t o' \<longleftrightarrow> \<not> tid_eq t o'"

datatype tid_or_str = IsStr string | IsTid tree_id

definition tid_add :: "tree_id \<Rightarrow> tid_or_str \<Rightarrow> tree_id res" where
  "tid_add t other = (case other of
       IsStr s \<Rightarrow> from_parts (tid_class t) (tid_parts t @ [s]) ''.''
     | IsTid u \<Rightarrow> from_parts (tid_class t) (tid_parts t @ tid_parts u) ''.'')"

text \<open>\<open>validate\<close> is a class method, but it names the base class.\<close>

definition tid_validate :: "tid_or_str \<Rightarrow> tree_id res" where
  "tid_validate v = (case v of IsStr s \<Rightarrow> tree_id_init ClsTreeId s 1 | IsTid t \<Rightarrow> Inr t)"

fun parts_start :: "string list \<Rightarrow> string list \<Rightarrow> bool" where
  "parts_start ps [] = True"
| "parts_start [] (q # qs) = False"
| "parts_start (p # ps) (q # qs) = (if p \<noteq> q then False else parts_start ps qs)"

definition startswith :: "tree_id \<Rightarrow> tree_id \<Rightarrow> bool" where
  "startswith t other = (if length (tid_parts t) < length (tid_parts other) then False
     else parts_start (tid_parts t) (tid_parts other))"

text \<open>The \<open>while\<close> loop of both common-prefix methods, from index \<open>i\<close>.\<close>

function prefix_loop :: "string list \<Rightarrow> string list \<Rightarrow> nat \<Rightarrow> nat" where
  "prefix_loop ps qs i =
     (if i < length ps \<and> i < length qs \<and> ps ! i = qs ! i then prefix_loop ps qs (Suc i) else i)"
  by pat_completeness auto
termination
  by (relation "measure (\<lambda>(ps, qs, i). length ps - i)") auto

declare prefix_loop.simps [simp del]

definition common_prefix_index :: "tree_id \<Rightarrow> tree_id \<Rightarrow> nat" where
  "common_prefix_index t other = prefix_loop (tid_parts t) (tid_parts other) 0"

definition common_prefix :: "tree_id \<Rightarrow> tree_id \<Rightarrow> tree_id res" where
  "common_prefix t other =
     from_parts (tid_class t) (take (prefix_loop (tid_parts t) (tid_parts other) 0) (tid_parts t)) ''.''"

definition tid_copy :: "tree_id \<Rightarrow> tree_id res" where
  "tid_copy t = tree_id_init (tid_class t) (uid_encoded t) (splitter_length t)"

text \<open>The overrides of \<open>UniqueTreeIdForTree\<close>: they build that class whatever \<open>self\<close> is.\<close>

definition tree_from_parts :: "string list \<Rightarrow> string \<Rightarrow> tree_id res" where
  "tree_from_parts parts splitter =
     (if length parts = 0 then tree_id_init ClsForTree '''' (int (length splitter))
      else tree_id_init ClsForTree (encode_parts parts splitter) (int (length splitter)))"

definition tree_append_part :: "tree_id \<Rightarrow> string \<Rightarrow> string \<Rightarrow> tree_id res" where
  "tree_append_part t part splitter = tree_from_parts (tid_parts t @ [part]) splitter"

definition tree_extend_parts :: "tree_id \<Rightarrow> string list \<Rightarrow> string \<Rightarrow> tree_id res" where
  "tree_extend_parts t parts splitter = tree_from_parts (tid_parts t @ parts) splitter"

definition tree_pop :: "tree_id \<Rightarrow> tree_id res" where
  "tree_pop t = tree_from_parts (butlast (tid_parts t)) ''.''"

definition tree_add :: "tree_id \<Rightarrow> tid_or_str \<Rightarrow> tree_id res" where
  "tree_add t other = (case other of
       IsStr s \<Rightarrow> tree_from_parts (tid_parts t @ [s]) ''.''
     | IsTid u \<Rightarrow> tree_from_parts (tid_parts t @ tid_parts u) ''.'')"

definition tree_copy :: "tree_id \<Rightarrow> tree_id res" where
  "tree_copy t = tree_id_init ClsForTree (uid_encoded t) (splitter_length t)"

subsection \<open>Decimal numerals\<close>

lemma digit_val_char: "d < 10 \<Longrightarrow> digit_val (digit_char d) = Some d"
  by (simp add: digit_val_def digit_char_def Let_def)

lemma nat_str_nonempty: "nat_str n \<noteq> []"
  by (subst nat_str.simps) simp

lemma nat_str_digits: "c \<in> set (nat_str n) \<Longrightarrow> \<exists>d<10. c = digit_char d"
proof (induction n rule: nat_str.induct)
  case (1 n)
  show ?case
  proof (cases "n < 10")
    case True
    with "1.prems" show ?thesis by (subst (asm) nat_str.simps) auto
  next
    case False
    then have "c \<in> set (nat_str (n div 10)) \<or> c = digit_char (n mod 10)"
      using "1.prems" by (subst (asm) nat_str.simps) auto
    with "1.IH" False show ?thesis by (auto intro: exI[of _ "n mod 10"])
  qed
qed

lemma digit_char_plain:
  assumes "d < 10"
  shows "\<not> is_space (digit_char d)" "digit_char d \<noteq> CHR ''.''" "digit_char d \<noteq> CHR ''|''"
    "digit_char d \<noteq> CHR ''-''" "digit_char d \<noteq> CHR ''+''"
proof -
  have code: "of_char (digit_char d) = 48 + d"
    using assms by (simp add: digit_char_def)
  show "\<not> is_space (digit_char d)"
    using assms by (simp add: is_space_def code)
  have ne: "of_char c = 48 + d" if "digit_char d = c" for c
    using code that by simp
  show "digit_char d \<noteq> CHR ''.''" "digit_char d \<noteq> CHR ''|''"
    "digit_char d \<noteq> CHR ''-''" "digit_char d \<noteq> CHR ''+''"
    using assms by (auto dest!: ne)
qed

lemma digits_val_nat_str:
  "digits_val acc b (nat_str n @ rest) = digits_val (acc * 10 ^ length (nat_str n) + n) True rest"
proof (induction n arbitrary: rest rule: nat_str.induct)
  case (1 n)
  show ?case
  proof (cases "n < 10")
    case True
    then have "nat_str n = [digit_char n]" by (subst nat_str.simps) simp
    with True show ?thesis by (simp add: digit_val_char mult.commute)
  next
    case False
    then have unf: "nat_str n = nat_str (n div 10) @ [digit_char (n mod 10)]"
      by (subst nat_str.simps) simp
    have "digits_val acc b (nat_str n @ rest)
        = digits_val acc b (nat_str (n div 10) @ digit_char (n mod 10) # rest)"
      by (simp add: unf)
    also have "\<dots> = digits_val (10 * (acc * 10 ^ length (nat_str (n div 10)) + n div 10) + n mod 10)
        True rest"
      using False by (simp add: "1.IH" digit_val_char)
    also have "10 * (acc * 10 ^ length (nat_str (n div 10)) + n div 10) + n mod 10
        = acc * 10 ^ length (nat_str n) + n"
      by (simp add: unf algebra_simps)
    finally show ?thesis .
  qed
qed

lemma py_strip_plain: "(\<And>c. c \<in> set s \<Longrightarrow> \<not> is_space c) \<Longrightarrow> py_strip s = s"
proof -
  assume plain: "\<And>c. c \<in> set s \<Longrightarrow> \<not> is_space c"
  then have "dropWhile is_space s = s" by (cases s) auto
  moreover from plain have "dropWhile is_space (rev s) = rev s" by (cases "rev s") auto
  ultimately show ?thesis by (simp add: py_strip_def)
qed

lemma py_int_nat_str [simp]: "py_int (nat_str n) = Inr (int n)"
proof -
  have strip: "py_strip (nat_str n) = nat_str n"
    by (rule py_strip_plain) (auto dest!: nat_str_digits simp: digit_char_plain)
  obtain c cs where cs: "nat_str n = c # cs"
    using nat_str_nonempty[of n] by (cases "nat_str n") auto
  then have "c \<in> set (nat_str n)" by simp
  then obtain d where "d < 10" "c = digit_char d" using nat_str_digits by blast
  then have "c \<noteq> CHR ''-''" "c \<noteq> CHR ''+''" by (simp_all add: digit_char_plain)
  moreover have "digits_val 0 False (c # cs) = Some n"
    using digits_val_nat_str[of 0 False n "[]"] by (simp add: cs)
  ultimately show ?thesis
    using strip cs by (simp add: py_int_def)
qed

subsection \<open>Joining, splitting and cutting\<close>

lemma split_on_append:
  "c \<notin> set p \<Longrightarrow> split_on c (p @ c # s) = p # split_on c s"
  by (induction p) auto

lemma split_on_plain: "c \<notin> set p \<Longrightarrow> split_on c p = [p]"
  by (induction p) auto

lemma split_on_join:
  "ps \<noteq> [] \<Longrightarrow> (\<And>p. p \<in> set ps \<Longrightarrow> c \<notin> set p) \<Longrightarrow> split_on c (join [c] ps) = ps"
  by (induction "[c]" ps rule: join.induct) (auto simp: split_on_append split_on_plain)

lemma set_join: "set (join sep ps) \<subseteq> set sep \<union> (\<Union>p \<in> set ps. set p)"
  by (induction sep ps rule: join.induct) auto

lemma find_char_append: "c \<notin> set xs \<Longrightarrow> find_char c (xs @ c # ys) = Some (length xs)"
  by (induction xs) auto

lemma length_join:
  "ps \<noteq> [] \<Longrightarrow> length (join sep ps) = sum_list (map length ps) + length sep * (length ps - 1)"
  by (induction sep ps rule: join.induct) (auto simp: algebra_simps)

lemma cut_parts_join:
  "cut_parts (pre @ join sep ps) (int (length sep)) (int (length pre)) (map (\<lambda>p. int (length p)) ps) = ps"
proof (induction sep ps arbitrary: pre rule: join.induct)
  case (2 sep p)
  have "pyslice (pre @ p) (int (length pre)) (int (length pre) + int (length p)) = p"
    using pyslice_nat[of "pre @ p" "length pre" "length pre + length p"]
    by (simp add: slice_def)
  then show ?case by simp
next
  case (3 sep p q ps)
  have "pyslice (pre @ p @ sep @ join sep (q # ps)) (int (length pre))
      (int (length pre) + int (length p)) = p"
    using pyslice_nat[of "pre @ p @ sep @ join sep (q # ps)" "length pre" "length pre + length p"]
    by (simp add: slice_def)
  with "3.IH"[of "pre @ p @ sep"] show ?case by (simp add: algebra_simps)
qed simp

subsection \<open>Decoding inverts encoding\<close>

lemma length_digits_plain:
  assumes "c \<in> {CHR ''.'', CHR ''|''}"
  shows "c \<notin> set (nat_str n)"
proof
  assume "c \<in> set (nat_str n)"
  then obtain d where "d < 10" "c = digit_char d" using nat_str_digits by blast
  then show False using assms digit_char_plain(2,3) by auto
qed

lemma decode_encode:
  assumes "parts \<noteq> []"
  shows "tree_id_init cls (encode_parts parts splitter) (int (length splitter)) =
    Inr \<lparr>tid_class = cls, uid_encoded = encode_parts parts splitter, tid_parts = parts,
         splitter_length = int (length splitter)\<rparr>"
proof -
  let ?ls = "map (\<lambda>p. nat_str (length p)) parts"
  let ?lp = "join ''.'' ?ls"
  let ?body = "join splitter parts"
  have bar: "CHR ''|'' \<notin> set ?lp"
  proof
    assume "CHR ''|'' \<in> set ?lp"
    then have "CHR ''|'' \<in> {CHR ''.''} \<union> (\<Union>p \<in> set ?ls. set p)"
      using set_join[of "''.''" ?ls] by auto
    then show False using length_digits_plain[of "CHR ''|''"] by auto
  qed
  have enc: "encode_parts parts splitter = ?lp @ CHR ''|'' # ?body"
    by (simp add: encode_parts_def)
  have split: "split_on (CHR ''.'') ?lp = ?ls"
    using assms length_digits_plain by (intro split_on_join) auto
  have ints: "rmap_list py_int ?ls = Inr (map (\<lambda>p. int (length p)) parts)"
    by (induction parts) auto
  have cut: "cut_parts ?body (int (length splitter)) 0 (map (\<lambda>p. int (length p)) parts) = parts"
    using cut_parts_join[of "[]" splitter parts] by simp
  have "int (length ?body) = int (sum_list (map length parts)) + int (length splitter) * int (length parts - 1)"
    using length_join[OF assms, of splitter] by simp
  moreover have "int (sum_list (map length parts)) = sum_list (map (\<lambda>p. int (length p)) parts)"
    by (induction parts) auto
  moreover have "int (length parts - 1) = int (length parts) - 1"
    using assms by (cases parts) auto
  ultimately have sum: "sum_list (map (\<lambda>p. int (length p)) parts)
      = int (length ?body) - int (length splitter) * (int (length parts) - 1)"
    by simp
  show ?thesis
    by (simp add: tree_id_init_def enc find_char_append[OF bar] split ints cut sum Let_def)
qed

lemma decode_empty:
  "tree_id_init cls [] sl =
    Inr \<lparr>tid_class = cls, uid_encoded = [], tid_parts = [], splitter_length = sl\<rparr>"
  by (simp add: tree_id_init_def)

lemma from_parts_ok:
  "from_parts cls parts s =
     Inr \<lparr>tid_class = cls, uid_encoded = (if parts = [] then [] else encode_parts parts s),
          tid_parts = parts, splitter_length = int (length s)\<rparr>"
  by (cases "parts = []") (simp_all add: from_parts_def decode_encode decode_empty)

lemma tree_from_parts_eq: "tree_from_parts parts s = from_parts ClsForTree parts s"
  by (simp add: tree_from_parts_def from_parts_def)

lemmas tid_ops = append_part_def extend_parts_def tid_pop_def tid_add_def common_prefix_def
  tree_append_part_def tree_extend_parts_def tree_pop_def tree_add_def tree_from_parts_eq from_parts_ok

lemma encode_parts_nonempty: "encode_parts parts s \<noteq> []"
  by (simp add: encode_parts_def)

lemma encode_parts_inj:
  assumes "parts \<noteq> []" and "qs \<noteq> []"
  shows "encode_parts parts s = encode_parts qs s \<longleftrightarrow> parts = qs"
proof
  assume eq: "encode_parts parts s = encode_parts qs s"
  have "tree_id_init ClsTreeId (encode_parts qs s) (int (length s)) =
      Inr \<lparr>tid_class = ClsTreeId, uid_encoded = encode_parts qs s, tid_parts = parts,
           splitter_length = int (length s)\<rparr>"
    using decode_encode[OF assms(1), of ClsTreeId s] by (simp only: eq)
  with decode_encode[OF assms(2), of ClsTreeId s] show "parts = qs" by simp
qed simp

text \<open>
  An encoding read back with another splitter length: the length check of the constructor
  rejects it as soon as there are two parts.
\<close>

lemma decode_other_splitter:
  assumes "2 \<le> length parts" and "sl \<noteq> int (length s)"
  shows "tree_id_init cls (encode_parts parts s) sl = Inl AssertionError"
proof -
  let ?ls = "map (\<lambda>p. nat_str (length p)) parts"
  let ?lp = "join ''.'' ?ls"
  have ne: "parts \<noteq> []" using assms by auto
  have bar: "CHR ''|'' \<notin> set ?lp"
  proof
    assume "CHR ''|'' \<in> set ?lp"
    then have "CHR ''|'' \<in> {CHR ''.''} \<union> (\<Union>p \<in> set ?ls. set p)"
      using set_join[of "''.''" ?ls] by auto
    then show False using length_digits_plain[of "CHR ''|''"] by auto
  qed
  have enc: "encode_parts parts s = ?lp @ CHR ''|'' # join s parts"
    by (simp add: encode_parts_def)
  have split: "split_on (CHR ''.'') ?lp = ?ls"
    using ne length_digits_plain by (intro split_on_join) auto
  have ints: "rmap_list py_int ?ls = Inr (map (\<lambda>p. int (length p)) parts)"
    by (induction parts) auto
  have "int (length (join s parts)) = int (sum_list (map length parts)) + int (length s) * int (length parts - 1)"
    using length_join[OF ne, of s] by simp
  moreover have "int (sum_list (map length parts)) = sum_list (map (\<lambda>p. int (length p)) parts)"
    by (induction parts) auto
  moreover have "int (length parts - 1) = int (length parts) - 1"
    using ne by (cases parts) auto
  moreover have "int (length parts) - 1 \<noteq> 0"
    using assms(1) by simp
  ultimately have "sum_list (map (\<lambda>p. int (length p)) parts)
      \<noteq> int (length (join s parts)) - sl * (int (length parts) - 1)"
    using assms(2) by simp
  then show ?thesis
    by (simp add: tree_id_init_def enc find_char_append[OF bar] split ints Let_def)
qed

subsection \<open>Prefixes\<close>

lemma parts_start_iff: "parts_start ps qs \<longleftrightarrow> take (length qs) ps = qs"
  by (induction ps qs rule: parts_start.induct) auto

lemma prefix_loop_spec:
  assumes "take i ps = take i qs" and "i \<le> length ps" and "i \<le> length qs"
  shows "i \<le> prefix_loop ps qs i \<and> prefix_loop ps qs i \<le> length ps \<and> prefix_loop ps qs i \<le> length qs
    \<and> take (prefix_loop ps qs i) ps = take (prefix_loop ps qs i) qs
    \<and> (prefix_loop ps qs i < length ps \<longrightarrow> prefix_loop ps qs i < length qs \<longrightarrow>
       ps ! prefix_loop ps qs i \<noteq> qs ! prefix_loop ps qs i)"
  using assms
proof (induction ps qs i rule: prefix_loop.induct)
  case (1 ps qs i)
  show ?case
  proof (cases "i < length ps \<and> i < length qs \<and> ps ! i = qs ! i")
    case True
    then have "take (Suc i) ps = take (Suc i) qs"
      using "1.prems" by (simp add: take_Suc_conv_app_nth)
    moreover have eq: "prefix_loop ps qs i = prefix_loop ps qs (Suc i)"
      using True by (subst prefix_loop.simps) simp
    ultimately show ?thesis
      using "1.IH"[OF True] True by (simp add: eq)
  next
    case False
    then have "prefix_loop ps qs i = i" by (subst prefix_loop.simps) auto
    with False "1.prems" show ?thesis by auto
  qed
qed

lemma prefix_loop_take:
  assumes "j \<le> length ps" "j \<le> length qs" "take j ps = take j qs"
  shows "j \<le> prefix_loop ps qs 0"
proof (rule ccontr)
  let ?k = "prefix_loop ps qs 0"
  assume "\<not> j \<le> ?k"
  then have k: "?k < j" by simp
  then have "ps ! ?k \<noteq> qs ! ?k"
    using prefix_loop_spec[of 0 ps qs] assms by auto
  moreover have "take j ps ! ?k = take j qs ! ?k" using assms by simp
  ultimately show False using k by simp
qed

lemma startswith_iff:
  "startswith t u \<longleftrightarrow> (\<exists>rest. tid_parts t = tid_parts u @ rest)"
proof
  assume "startswith t u"
  then have "take (length (tid_parts u)) (tid_parts t) = tid_parts u"
    by (auto simp: startswith_def parts_start_iff split: if_splits)
  then show "\<exists>rest. tid_parts t = tid_parts u @ rest"
    by (metis append_take_drop_id)
qed (auto simp: startswith_def parts_start_iff)

lemma startswith_common_prefix:
  "startswith t u \<longleftrightarrow> common_prefix_index t u = length (tid_parts u)"
proof
  assume "startswith t u"
  then obtain rest where "tid_parts t = tid_parts u @ rest" by (auto simp: startswith_iff)
  then have "length (tid_parts u) \<le> common_prefix_index t u"
    unfolding common_prefix_index_def by (intro prefix_loop_take) auto
  then show "common_prefix_index t u = length (tid_parts u)"
    using prefix_loop_spec[of 0 "tid_parts t" "tid_parts u"]
    by (simp add: common_prefix_index_def)
next
  assume "common_prefix_index t u = length (tid_parts u)"
  then have "take (length (tid_parts u)) (tid_parts t) = tid_parts u"
    using prefix_loop_spec[of 0 "tid_parts t" "tid_parts u"]
    by (simp add: common_prefix_index_def)
  then show "startswith t u"
    by (metis append_take_drop_id startswith_iff)
qed

subsection \<open>The properties of the identifiers\<close>

text \<open>
  C35: Decoding inverts encoding: for every list of parts and every splitter, whatever characters
  they contain, the constructor accepts the encoding, returns those parts, and a copy (which
  decodes the string again) is the same identifier.
\<close>

theorem tree_id_roundtrip:
  "\<exists>t. from_parts cls parts splitter = Inr t \<and> tid_class t = cls \<and> tid_parts t = parts \<and>
       tid_copy t = Inr t"
  by (cases "parts = []")
    (simp_all add: from_parts_ok tid_copy_def decode_encode decode_empty)

text \<open>
  Equality of identifiers (which compares the encoded strings) is equality of the part lists,
  for identifiers built with the same splitter.
\<close>

lemma tree_id_eq_parts:
  assumes "from_parts c ps s = Inr t" and "from_parts d qs s = Inr u"
  shows "tid_eq t u \<longleftrightarrow> ps = qs"
  using assms encode_parts_inj[of ps qs s] encode_parts_nonempty[of ps s] encode_parts_nonempty[of qs s]
  by (auto simp: from_parts_ok tid_eq_def split: if_splits)

lemma tree_id_eq_parts_witness:
  "tid_eq \<lparr>tid_class = ClsForComp, uid_encoded = ''1.2|a.bc'', tid_parts = [''a'', ''bc''], splitter_length = 1\<rparr>
          \<lparr>tid_class = ClsForTree, uid_encoded = ''2.1|ab.c'', tid_parts = [''ab'', ''c''], splitter_length = 1\<rparr>
   \<longleftrightarrow> [''a'', ''bc''] = [''ab'', ''c'']"
proof -
  have "from_parts ClsForComp [''a'', ''bc''] ''.'' = Inr \<lparr>tid_class = ClsForComp,
      uid_encoded = ''1.2|a.bc'', tid_parts = [''a'', ''bc''], splitter_length = 1\<rparr>"
    by code_simp
  moreover have "from_parts ClsForTree [''ab'', ''c''] ''.'' = Inr \<lparr>tid_class = ClsForTree,
      uid_encoded = ''2.1|ab.c'', tid_parts = [''ab'', ''c''], splitter_length = 1\<rparr>"
    by code_simp
  ultimately show ?thesis by (rule tree_id_eq_parts)
qed

text \<open>
  Re-validating the string of an identifier (as pydantic does on a field received as a string)
  always gives the base class, and works exactly for splitters of length one: with two parts or
  more and any other splitter the constructor's assertion fails.
\<close>

lemma tree_id_validate_string:
  assumes "from_parts cls parts s = Inr t" and "2 \<le> length parts"
  shows "tid_validate (IsStr (uid_encoded t)) =
    (if length s = 1 then Inr (t\<lparr>tid_class := ClsTreeId\<rparr>) else Inl AssertionError)"
proof -
  have ne: "parts \<noteq> []" and t: "t = \<lparr>tid_class = cls, uid_encoded = encode_parts parts s,
      tid_parts = parts, splitter_length = int (length s)\<rparr>"
    using assms by (auto simp: from_parts_ok)
  show ?thesis
    using decode_encode[OF ne, of ClsTreeId s] decode_other_splitter[OF assms(2), of 1 s]
    by (auto simp: tid_validate_def t)
qed

lemma tree_id_validate_string_witness:
  "tid_validate (IsStr ''1.1|a::b'') = Inl AssertionError"
proof -
  have "from_parts ClsForTree [''a'', ''b''] ''::'' = Inr \<lparr>tid_class = ClsForTree,
      uid_encoded = ''1.1|a::b'', tid_parts = [''a'', ''b''], splitter_length = 2\<rparr>"
    by code_simp
  from tree_id_validate_string[OF this] show ?thesis by simp
qed

text \<open>
  The prefix operations agree with the mathematical prefix: \<open>startswith\<close> holds exactly for a
  prefix of the parts, exactly when the common-prefix index is the length of the other
  identifier, and \<open>common_prefix\<close> is the longest list of parts that starts both.
\<close>

lemma tree_id_prefix:
  "(startswith t u \<longleftrightarrow> (\<exists>rest. tid_parts t = tid_parts u @ rest)) \<and>
   (startswith t u \<longleftrightarrow> common_prefix_index t u = length (tid_parts u)) \<and>
   (\<exists>p. common_prefix t u = Inr p \<and> startswith t p \<and> startswith u p \<and>
      (\<forall>q. startswith t q \<and> startswith u q \<longrightarrow> startswith p q))"
proof -
  let ?k = "prefix_loop (tid_parts t) (tid_parts u) 0"
  obtain p where p: "common_prefix t u = Inr p" "tid_parts p = take ?k (tid_parts t)"
    by (simp add: common_prefix_def from_parts_ok)
  have spec: "take ?k (tid_parts t) = take ?k (tid_parts u)"
    using prefix_loop_spec[of 0 "tid_parts t" "tid_parts u"] by simp
  have "startswith t p"
    by (auto simp: startswith_iff p(2) intro: append_take_drop_id[symmetric])
  moreover have "startswith u p"
    by (auto simp: startswith_iff p(2) spec intro: append_take_drop_id[symmetric])
  moreover have "startswith p q" if "startswith t q \<and> startswith u q" for q
  proof -
    from that obtain r r' where r: "tid_parts t = tid_parts q @ r" "tid_parts u = tid_parts q @ r'"
      by (auto simp: startswith_iff)
    then have "length (tid_parts q) \<le> ?k"
      by (intro prefix_loop_take) auto
    then have "tid_parts p = tid_parts q @ take (?k - length (tid_parts q)) r"
      by (simp add: p(2) r)
    then show ?thesis by (auto simp: startswith_iff)
  qed
  ultimately show ?thesis
    using p(1) startswith_iff[of t u] startswith_common_prefix[of t u] by blast
qed

lemma tree_id_prefix_witness:
  "\<exists>p. common_prefix \<lparr>tid_class = ClsForComp, uid_encoded = ''1.1|a.b'', tid_parts = [''a'', ''b''], splitter_length = 1\<rparr>
          \<lparr>tid_class = ClsForComp, uid_encoded = ''1.1|a.c'', tid_parts = [''a'', ''c''], splitter_length = 1\<rparr> = Inr p"
  using tree_id_prefix[of "\<lparr>tid_class = ClsForComp, uid_encoded = ''1.1|a.b'', tid_parts = [''a'', ''b''], splitter_length = 1\<rparr>"
      "\<lparr>tid_class = ClsForComp, uid_encoded = ''1.1|a.c'', tid_parts = [''a'', ''c''], splitter_length = 1\<rparr>"]
  by blast

text \<open>
  Setting an identifier's parts to the empty list in place writes the string of a single bar,
  which the constructor refuses: the identifier can then no longer be copied (while the same
  parts given to \<open>from_parts\<close> encode as the empty string).
\<close>

lemma set_parts_inplace_empty:
  "tid_copy (set_parts_inplace t [] s) = Inl ValueError \<and>
   (\<exists>u. from_parts (tid_class t) [] s = Inr u \<and> tid_copy u = Inr u)"
  by (simp add: tid_copy_def set_parts_inplace_def encode_parts_def tree_id_init_def Let_def
      from_parts_ok py_int_def py_strip_def)

end
