(* ===== verification/EventEmitter.thy ===== *)
theory EventEmitter
  imports Prelude
begin

text \<open>
  \<open>core/event_emitter/\<close>: the event emitters the servers and stores publish their changes with.
  \<open>base.py\<close> (class \<open>EventEmitter\<close>), \<open>aio.py\<close> (\<open>AsyncIOEventEmitter\<close>), \<open>single.py\<close>
  (\<open>SingleAsyncEventEmitter\<close>) and \<open>call_server.py\<close> (\<open>SimpleRPCHandler\<close>).

  User callbacks are a parameter \<open>call\<close>: a function of the callback, its arguments and the whole
  world (the emitter itself and everything else), because a callback may register and remove
  listeners and emit again. A call returns a plain value, a coroutine or a future. Awaiting a
  coroutine is the parameter \<open>await\<close>, which may change the world as any interleaved task would,
  and \<open>ensure_future\<close> is the event loop's.
\<close>

subsection \<open>State\<close>

text \<open>
  \<open>_events\<close> maps an event to an \<open>OrderedDict\<close> from the key callable to the callable that runs:
  the callable itself, or the closure \<open>g\<close> that \<open>once\<close> makes.
\<close>

datatype ('ev, 'f) hval = Direct 'f | OnceG 'ev 'f

record ('ev, 'f) emitter =
  events :: "('ev, ('f, ('ev, 'f) hval) dict) dict"
  exc_event_handlers :: "('f, 'f) dict"
  waiting :: "nat set"

datatype 'c ret = RetValue | RetCoro 'c | RetFuture nat

type_synonym ('ev, 'f, 'w) eworld = "('ev, 'f) emitter \<times> 'w"
type_synonym ('ev, 'f, 'w, 'a, 'c) ecall = "'f \<Rightarrow> 'a list \<Rightarrow> (('ev, 'f, 'w) eworld, 'c ret) act"
type_synonym ('ev, 'f, 'w, 'c) eawait = "'c \<Rightarrow> (('ev, 'f, 'w) eworld, unit) act"

definition emitter_init :: "('ev, 'f) emitter" where
  "emitter_init = \<lparr>events = [], exc_event_handlers = [], waiting = {}\<rparr>"

definition handlers_of :: "('ev, 'f) emitter \<Rightarrow> 'ev \<Rightarrow> ('f, ('ev, 'f) hval) dict" where
  "handlers_of em ev = (case dget (events em) ev of None \<Rightarrow> [] | Some d \<Rightarrow> d)"

subsection \<open>Registration\<close>

definition add_event_handler :: "'ev \<Rightarrow> 'f \<Rightarrow> ('ev, 'f) hval \<Rightarrow> ('ev, 'f) emitter \<Rightarrow> ('ev, 'f) emitter" where
  "add_event_handler ev k v em =
     (let em = (if dmem ev (events em) then em else em\<lparr>events := dset ev [] (events em)\<rparr>)
      in em\<lparr>events := dset ev (dset k v (handlers_of em ev)) (events em)\<rparr>)"

definition add_exception_event_handler :: "'f \<Rightarrow> 'f \<Rightarrow> ('ev, 'f) emitter \<Rightarrow> ('ev, 'f) emitter" where
  "add_exception_event_handler k v em =
     em\<lparr>exc_event_handlers := dset k v (exc_event_handlers em)\<rparr>"

definition add_listener :: "'ev \<Rightarrow> 'f \<Rightarrow> 'f option \<Rightarrow> ('ev, 'f) emitter \<Rightarrow> 'f \<times> ('ev, 'f) emitter" where
  "add_listener ev f f_key em =
     (f, add_event_handler ev (case f_key of None \<Rightarrow> f | Some k \<Rightarrow> k) (Direct f) em)"

text \<open>The decorator that \<open>listens_to\<close> returns, applied to \<open>f\<close>.\<close>

definition listens_to :: "'ev \<Rightarrow> 'f \<Rightarrow> 'f option \<Rightarrow> ('ev, 'f) emitter \<Rightarrow> 'f \<times> ('ev, 'f) emitter" where
  "listens_to ev = (\<lambda>f f_key em.
     (f, add_event_handler ev (case f_key of None \<Rightarrow> f | Some k \<Rightarrow> k) (Direct f) em))"

text \<open>\<open>on\<close> with a callable registers it; without one it returns the decorator.\<close>

datatype ('ev, 'f) on_result =
    Registered 'f "('ev, 'f) emitter"
  | Decorator "'f \<Rightarrow> 'f option \<Rightarrow> ('ev, 'f) emitter \<Rightarrow> 'f \<times> ('ev, 'f) emitter"

definition emitter_on :: "'ev \<Rightarrow> 'f option \<Rightarrow> 'f option \<Rightarrow> ('ev, 'f) emitter \<Rightarrow> ('ev, 'f) on_result" where
  "emitter_on ev f f_key em = (case f of
       None \<Rightarrow> Decorator (listens_to ev)
     | Some g \<Rightarrow> (case add_listener ev g f_key em of (r, em') \<Rightarrow> Registered r em'))"

definition listens_to_exception :: "'f \<Rightarrow> ('ev, 'f) emitter \<Rightarrow> 'f \<times> ('ev, 'f) emitter" where
  "listens_to_exception = (\<lambda>f em. (f, add_exception_event_handler f f em))"

definition add_exception_listener :: "'f \<Rightarrow> ('ev, 'f) emitter \<Rightarrow> 'f \<times> ('ev, 'f) emitter" where
  "add_exception_listener f em = (f, add_exception_event_handler f f em)"

text \<open>\<open>once\<close>: the key is the callable, the value the closure that removes it before calling it.\<close>

definition emitter_once :: "'ev \<Rightarrow> 'f \<Rightarrow> ('ev, 'f) emitter \<Rightarrow> 'f \<times> ('ev, 'f) emitter" where
  "emitter_once ev f em = (f, add_event_handler ev f (OnceG ev f) em)"

definition has_event_handlers :: "'ev \<Rightarrow> ('ev, 'f) emitter \<Rightarrow> bool" where
  "has_event_handlers ev em = (if dmem ev (events em) then handlers_of em ev \<noteq> [] else False)"

definition event_names :: "('ev, 'f) emitter \<Rightarrow> 'ev set" where
  "event_names em = set (dkeys (events em))"

definition listeners :: "'ev \<Rightarrow> ('ev, 'f) emitter \<Rightarrow> 'f list" where
  "listeners ev em = dkeys (handlers_of em ev)"

definition remove_listener_raw :: "'ev \<Rightarrow> 'f \<Rightarrow> ('ev, 'f) emitter \<Rightarrow> ('ev, 'f) emitter res" where
  "remove_listener_raw ev f em = (case dget (events em) ev of
       None \<Rightarrow> Inl KeyError
     | Some d \<Rightarrow> if \<not> dmem f d then Inl KeyError
                 else let d' = ddel f d in
                   Inr (em\<lparr>events := (if length d' = 0 then ddel ev (events em)
                                       else dset ev d' (events em))\<rparr>))"

definition remove_listener :: "'ev \<Rightarrow> 'f \<Rightarrow> ('ev, 'f) emitter \<Rightarrow> ('ev, 'f) emitter res" where
  "remove_listener ev f em = remove_listener_raw ev f em"

definition remove_all_listeners :: "'ev option \<Rightarrow> ('ev, 'f) emitter \<Rightarrow> ('ev, 'f) emitter" where
  "remove_all_listeners ev em = (case ev of
       Some e \<Rightarrow> em\<lparr>events := dset e [] (events em)\<rparr>
     | None \<Rightarrow> em\<lparr>events := []\<rparr>)"

subsection \<open>Emission\<close>

text \<open>Calling a registered value: \<open>g\<close> checks under the lock that it is still registered.\<close>

fun call_value :: "('ev, 'f, 'w, 'a, 'c) ecall \<Rightarrow> ('ev, 'f) hval \<Rightarrow> 'a list \<Rightarrow>
    (('ev, 'f, 'w) eworld, 'c ret) act" where
  "call_value call (Direct f) args w = call f args w"
| "call_value call (OnceG ev f) args (em, w) =
     (if dmem ev (events em) \<and> dmem f (handlers_of em ev)
      then (case remove_listener_raw ev f em of
              Inl e \<Rightarrow> (Inl e, (em, w))
            | Inr em' \<Rightarrow> call f args (em', w))
      else (Inr RetValue, (em, w)))"

definition emit_run :: "('ev, 'f, 'w, 'a, 'c) ecall \<Rightarrow> ('ev, 'f) hval \<Rightarrow> 'a list \<Rightarrow>
    (('ev, 'f, 'w) eworld, unit) act" where
  "emit_run call f args = abind (call_value call f args) (\<lambda>_. aret ())"

definition emit_run_async :: "('ev, 'f, 'w, 'a, 'c) ecall \<Rightarrow> ('ev, 'f, 'w, 'c) eawait \<Rightarrow>
    ('ev, 'f) hval \<Rightarrow> 'a list \<Rightarrow> (('ev, 'f, 'w) eworld, unit) act" where
  "emit_run_async call await f args = abind (call_value call f args) (\<lambda>r. case r of
       RetCoro c \<Rightarrow> await c
     | _ \<Rightarrow> aret ())"

text \<open>
  \<open>_call_handlers\<close>: the handlers are listed under the lock and run one after the other. The
  method that runs one handler is a parameter, because \<open>aio.py\<close> overrides it.
\<close>

definition call_handlers :: "(('ev, 'f) hval \<Rightarrow> 'a list \<Rightarrow> (('ev, 'f, 'w) eworld, unit) act) \<Rightarrow>
    'ev \<Rightarrow> 'a list \<Rightarrow> (('ev, 'f, 'w) eworld, bool) act" where
  "call_handlers run ev args w =
     (let funcs = dvals (handlers_of (fst w) ev) in
      abind (afor (\<lambda>f. run f args) funcs) (\<lambda>_. aret (funcs \<noteq> [])) w)"

text \<open>
  \<open>event == "error"\<close> is the parameter \<open>is_error\<close>; \<open>as_exc\<close> tells whether a value is an
  exception object, and which.
\<close>

definition emit_handle_potential_error :: "('ev \<Rightarrow> bool) \<Rightarrow> ('a \<Rightarrow> pyerr option) \<Rightarrow> 'ev \<Rightarrow> 'a option \<Rightarrow> unit res" where
  "emit_handle_potential_error is_error as_exc ev error =
     (if is_error ev
      then (case error of
              None \<Rightarrow> Inl PyeeException
            | Some a \<Rightarrow> (case as_exc a of Some e \<Rightarrow> Inl e | None \<Rightarrow> Inl PyeeException))
      else Inr ())"

definition emit :: "(('ev, 'f) hval \<Rightarrow> 'a list \<Rightarrow> (('ev, 'f, 'w) eworld, unit) act) \<Rightarrow>
    ('ev \<Rightarrow> bool) \<Rightarrow> ('a \<Rightarrow> pyerr option) \<Rightarrow> 'ev \<Rightarrow> 'a list \<Rightarrow> (('ev, 'f, 'w) eworld, bool) act" where
  "emit run is_error as_exc ev args = abind (call_handlers run ev args) (\<lambda>handled w.
     if \<not> handled
     then (case emit_handle_potential_error is_error as_exc ev
             (if args \<noteq> [] then Some (hd args) else None) of
             Inl e \<Rightarrow> (Inl e, w) | Inr _ \<Rightarrow> (Inr handled, w))
     else (Inr handled, w))"

text \<open>Exception events: one argument, the exception; unhandled ones are printed, not raised.\<close>

definition emit_exc_run :: "('f \<Rightarrow> pyerr \<Rightarrow> (('ev, 'f, 'w) eworld, 'c ret) act) \<Rightarrow> 'f \<Rightarrow> pyerr \<Rightarrow>
    (('ev, 'f, 'w) eworld, unit) act" where
  "emit_exc_run call f arg = abind (call f arg) (\<lambda>_. aret ())"

definition call_exc_handlers :: "('f \<Rightarrow> pyerr \<Rightarrow> (('ev, 'f, 'w) eworld, unit) act) \<Rightarrow> pyerr \<Rightarrow>
    (('ev, 'f, 'w) eworld, bool) act" where
  "call_exc_handlers run_exc arg w =
     (let funcs = dvals (exc_event_handlers (fst w)) in
      if funcs = [] then (Inr False, w)
      else abind (afor (\<lambda>f. run_exc f arg) funcs) (\<lambda>_. aret True) w)"

definition emit_exception :: "('f \<Rightarrow> pyerr \<Rightarrow> (('ev, 'f, 'w) eworld, unit) act) \<Rightarrow> pyerr \<Rightarrow>
    (('ev, 'f, 'w) eworld, bool) act" where
  "emit_exception run_exc arg = call_exc_handlers run_exc arg"

subsection \<open>\<open>AsyncIOEventEmitter\<close>\<close>

definition aio_emit_exc_run :: "('f \<Rightarrow> pyerr \<Rightarrow> (('ev, 'f, 'w) eworld, 'c ret) act) \<Rightarrow>
    ('c \<Rightarrow> ('ev, 'f, 'w) eworld \<Rightarrow> nat \<times> ('ev, 'f, 'w) eworld) \<Rightarrow> 'f \<Rightarrow> pyerr \<Rightarrow>
    (('ev, 'f, 'w) eworld, unit) act" where
  "aio_emit_exc_run call ensure_future f arg = abind (call f arg) (\<lambda>r w. case r of
       RetCoro c \<Rightarrow> (Inr (), snd (ensure_future c w))
     | _ \<Rightarrow> (Inr (), w))"

definition add_waiting :: "nat \<Rightarrow> ('ev, 'f, 'w) eworld \<Rightarrow> ('ev, 'f, 'w) eworld" where
  "add_waiting u w = ((fst w)\<lparr>waiting := insert u (waiting (fst w))\<rparr>, snd w)"

definition aio_emit_run :: "('ev, 'f, 'w, 'a, 'c) ecall \<Rightarrow>
    ('c \<Rightarrow> ('ev, 'f, 'w) eworld \<Rightarrow> nat \<times> ('ev, 'f, 'w) eworld) \<Rightarrow>
    ('f \<Rightarrow> pyerr \<Rightarrow> (('ev, 'f, 'w) eworld, unit) act) \<Rightarrow> ('ev, 'f) hval \<Rightarrow> 'a list \<Rightarrow>
    (('ev, 'f, 'w) eworld, unit) act" where
  "aio_emit_run call ensure_future run_exc f args w = (case call_value call f args w of
       (Inl e, w') \<Rightarrow> if is_exception e then abind (emit_exception run_exc e) (\<lambda>_. aret ()) w'
                       else (Inl e, w')
     | (Inr RetValue, w') \<Rightarrow> (Inr (), w')
     | (Inr (RetCoro c), w') \<Rightarrow> (case ensure_future c w' of (u, w'') \<Rightarrow> (Inr (), add_waiting u w''))
     | (Inr (RetFuture u), w') \<Rightarrow> (Inr (), add_waiting u w'))"

text \<open>The done callback of a future that \<open>aio_emit_run\<close> put into \<open>_waiting\<close>.\<close>

datatype fut_outcome = FutCancelled | FutRaised pyerr | FutDone

definition aio_done_callback :: "('f \<Rightarrow> pyerr \<Rightarrow> (('ev, 'f, 'w) eworld, unit) act) \<Rightarrow> nat \<Rightarrow>
    fut_outcome \<Rightarrow> (('ev, 'f, 'w) eworld, unit) act" where
  "aio_done_callback run_exc u out w =
     (if u \<notin> waiting (fst w) then (Inl KeyError, w)
      else let w = ((fst w)\<lparr>waiting := waiting (fst w) - {u}\<rparr>, snd w) in
        (case out of
           FutCancelled \<Rightarrow> (Inr (), w)
         | FutRaised e \<Rightarrow> abind (emit_exception run_exc e) (\<lambda>_. aret ()) w
         | FutDone \<Rightarrow> (Inr (), w)))"

definition aio_emit_run_async :: "('ev, 'f, 'w, 'a, 'c) ecall \<Rightarrow> ('ev, 'f, 'w, 'c) eawait \<Rightarrow>
    ('f \<Rightarrow> pyerr \<Rightarrow> (('ev, 'f, 'w) eworld, unit) act) \<Rightarrow> ('ev, 'f) hval \<Rightarrow> 'a list \<Rightarrow>
    (('ev, 'f, 'w) eworld, unit) act" where
  "aio_emit_run_async call await run_exc f args w =
     (case abind (call_value call f args) (\<lambda>r. case r of RetCoro c \<Rightarrow> await c | _ \<Rightarrow> aret ()) w of
        (Inl e, w') \<Rightarrow> abind (emit_exception run_exc e) (\<lambda>_. aret ()) w'
      | (Inr _, w') \<Rightarrow> (Inr (), w'))"

subsection \<open>\<open>SingleAsyncEventEmitter\<close>\<close>

text \<open>One dict from the callable to the callable and its \<open>once\<close> flag.\<close>

type_synonym ('f, 'w) sworld = "('f, bool) dict \<times> 'w"

definition single_on :: "'f \<Rightarrow> ('f, bool) dict \<Rightarrow> ('f, bool) dict" where
  "single_on f hs = dset f False hs"

definition single_once :: "'f \<Rightarrow> ('f, bool) dict \<Rightarrow> ('f, bool) dict" where
  "single_once f hs = dset f True hs"

definition single_off :: "'f \<Rightarrow> ('f, bool) dict \<Rightarrow> ('f, bool) dict res" where
  "single_off f hs = (if dmem f hs then Inr (ddel f hs) else Inl KeyError)"

definition single_is_empty :: "('f, bool) dict \<Rightarrow> bool" where
  "single_is_empty hs \<longleftrightarrow> hs = []"

text \<open>
  The loop iterates over the live dict: when its size differs from the size at the start of the
  loop, the next step raises \<open>RuntimeError\<close>. (When a callback deletes one key and adds another,
  Python leaves the visited entries unspecified; the loop then visits the remaining keys that are
  still present.) The result is the list of handlers to remove.
\<close>

fun single_loop :: "('f \<Rightarrow> (('f, 'w) sworld, 'c ret) act) \<Rightarrow> ('c \<Rightarrow> (('f, 'w) sworld, unit) act) \<Rightarrow>
    nat \<Rightarrow> 'f list \<Rightarrow> 'f list \<Rightarrow> (('f, 'w) sworld, 'f list) act" where
  "single_loop call await n [] rem w =
     (if length (fst w) \<noteq> n then (Inl RuntimeError, w) else (Inr rem, w))"
| "single_loop call await n (k # ks) rem w =
     (if length (fst w) \<noteq> n then (Inl RuntimeError, w)
      else case dget (fst w) k of
        None \<Rightarrow> single_loop call await n ks rem w
      | Some once \<Rightarrow> (case call k w of
            (Inl e, w') \<Rightarrow> (Inl e, w')
          | (Inr r, w') \<Rightarrow>
              let rem = (if once then rem @ [k] else rem) in
              (case r of
                 RetCoro c \<Rightarrow> (case await c w' of
                     (Inl e, w'') \<Rightarrow> (Inl e, w'')
                   | (Inr _, w'') \<Rightarrow> single_loop call await n ks rem w'')
               | _ \<Rightarrow> single_loop call await n ks rem w')))"

definition single_emit_async :: "('f \<Rightarrow> (('f, 'w) sworld, 'c ret) act) \<Rightarrow>
    ('c \<Rightarrow> (('f, 'w) sworld, unit) act) \<Rightarrow> (('f, 'w) sworld, unit) act" where
  "single_emit_async call await w =
     (if fst w = [] then (Inr (), w)
      else abind (single_loop call await (length (fst w)) (dkeys (fst w)) [])
        (afor (\<lambda>f w. case single_off f (fst w) of
           Inl e \<Rightarrow> (Inl e, w) | Inr hs \<Rightarrow> (Inr (), (hs, snd w)))) w)"

subsection \<open>\<open>SimpleRPCHandler\<close>\<close>

text \<open>One handler per event, called for its return value; \<open>loop\<close> selects the event loop.\<close>

record ('f, 'l) handler_item =
  item_type :: string
  handler :: 'f
  item_once :: bool
  item_loop :: "'l option"

type_synonym ('f, 'l) rpc_handlers = "(string, ('f, 'l) handler_item) dict"

definition rpc_on :: "string \<Rightarrow> 'f \<Rightarrow> bool \<Rightarrow> bool \<Rightarrow> 'l option \<Rightarrow> ('f, 'l) rpc_handlers \<Rightarrow>
    ('f, 'l) rpc_handlers res" where
  "rpc_on ev f force_replace once loop hs =
     (if \<not> force_replace \<and> dmem ev hs then Inl AssertionError
      else Inr (dset ev \<lparr>item_type = ev, handler = f, item_once = once, item_loop = loop\<rparr> hs))"

definition rpc_once :: "string \<Rightarrow> 'f \<Rightarrow> bool \<Rightarrow> 'l option \<Rightarrow> ('f, 'l) rpc_handlers \<Rightarrow>
    ('f, 'l) rpc_handlers res" where
  "rpc_once ev f force_replace loop hs = rpc_on ev f force_replace True loop hs"

definition rpc_off :: "string \<Rightarrow> ('f, 'l) rpc_handlers \<Rightarrow> ('f, 'l) handler_item option \<times> ('f, 'l) rpc_handlers" where
  "rpc_off ev hs = (dget hs ev, ddel ev hs)"

definition rpc_has_event_handler :: "string \<Rightarrow> ('f, 'l) rpc_handlers \<Rightarrow> bool" where
  "rpc_has_event_handler ev hs = dmem ev hs"

definition rpc_get_event_handler :: "string \<Rightarrow> ('f, 'l) rpc_handlers \<Rightarrow> ('f, 'l) handler_item res" where
  "rpc_get_event_handler ev hs = of_opt KeyError (dget hs ev)"

text \<open>
  The handler returns a value or a coroutine; a coroutine runs to its end on the given loop or on
  the current one (parameter \<open>run_coro\<close>).
\<close>

datatype ('c, 'v) rpc_ret = RpcValue 'v | RpcCoro 'c

definition rpc_call_event :: "('f \<Rightarrow> (('f, 'l) rpc_handlers \<times> 'w, ('c, 'v) rpc_ret) act) \<Rightarrow>
    ('l option \<Rightarrow> 'c \<Rightarrow> (('f, 'l) rpc_handlers \<times> 'w, 'v) act) \<Rightarrow> string \<Rightarrow>
    (('f, 'l) rpc_handlers \<times> 'w, 'v) act" where
  "rpc_call_event call run_coro ev w = (case dget (fst w) ev of
       None \<Rightarrow> (Inl AssertionError, w)
     | Some item \<Rightarrow>
         let w = (if item_once item then (ddel ev (fst w), snd w) else w) in
         abind (call (handler item)) (\<lambda>res. case res of
             RpcValue v \<Rightarrow> aret v
           | RpcCoro c \<Rightarrow> run_coro (item_loop item) c) w)"

subsection \<open>Well-formed emitters\<close>

text \<open>
  The invariant: events and keys are distinct, and a once-closure stored under an event and a key
  is the closure of exactly that event and key.
\<close>

definition emitter_wf :: "('ev, 'f) emitter \<Rightarrow> bool" where
  "emitter_wf em \<longleftrightarrow> dict_ok (events em) \<and> dict_ok (exc_event_handlers em) \<and>
     (\<forall>ev d. dget (events em) ev = Some d \<longrightarrow> dict_ok d \<and>
        (\<forall>k ev' f. dget d k = Some (OnceG ev' f) \<longrightarrow> ev' = ev \<and> f = k))"

lemma emitter_wf_init: "emitter_wf emitter_init"
  by (simp add: emitter_wf_def emitter_init_def)

lemma handlers_of_some: "dget (events em) ev = Some d \<Longrightarrow> handlers_of em ev = d"
  by (simp add: handlers_of_def)

lemma emitter_wf_handlers:
  assumes "emitter_wf em"
  shows "dict_ok (handlers_of em ev)"
    and "dget (handlers_of em ev) k = Some (OnceG ev' f) \<Longrightarrow> ev' = ev \<and> f = k"
  using assms by (auto simp: emitter_wf_def handlers_of_def split: option.splits)

lemma handlers_of_add:
  "handlers_of (add_event_handler ev k v em) e =
     (if e = ev then dset k v (handlers_of em ev) else handlers_of em e)"
  by (auto simp: add_event_handler_def handlers_of_def Let_def dmem_dget split: option.splits)

lemma emitter_wf_add:
  assumes "emitter_wf em" and "\<And>ev' f. v = OnceG ev' f \<Longrightarrow> ev' = ev \<and> f = k"
  shows "emitter_wf (add_event_handler ev k v em)"
  using assms emitter_wf_handlers[OF assms(1), of ev]
  by (auto simp: emitter_wf_def add_event_handler_def Let_def handlers_of_def dmem_dget
      split: option.splits if_splits)

lemma emitter_wf_listen [intro]:
  "emitter_wf em \<Longrightarrow> emitter_wf (snd (add_listener ev f f_key em))"
  "emitter_wf em \<Longrightarrow> emitter_wf (snd (listens_to ev f f_key em))"
  "emitter_wf em \<Longrightarrow> emitter_wf (snd (emitter_once ev f em))"
  by (auto simp: add_listener_def listens_to_def emitter_once_def intro: emitter_wf_add)

lemma emitter_wf_add_exc [intro]:
  "emitter_wf em \<Longrightarrow> emitter_wf (snd (add_exception_listener f em))"
  by (simp add: add_exception_listener_def add_exception_event_handler_def emitter_wf_def)

lemma emitter_wf_remove:
  assumes "emitter_wf em" and "remove_listener_raw ev f em = Inr em'"
  shows "emitter_wf em'"
  using assms
  by (auto simp: emitter_wf_def remove_listener_raw_def Let_def split: option.splits if_splits)

lemma emitter_wf_remove_all: "emitter_wf em \<Longrightarrow> emitter_wf (remove_all_listeners ev em)"
  by (auto simp: emitter_wf_def remove_all_listeners_def split: option.splits if_splits)

abbreviation wf_world :: "('ev, 'f, 'w) eworld \<Rightarrow> bool" where
  "wf_world w \<equiv> emitter_wf (fst w)"

lemma keeps_wf_call_value:
  fixes call :: "('ev, 'f, 'w, 'a, 'c) ecall"
  assumes call: "\<And>f args. keeps wf_world (call f args)"
  shows "keeps wf_world (call_value call h args)"
proof (rule keepsI)
  fix w :: "('ev, 'f, 'w) eworld"
  assume wf: "wf_world w"
  show "wf_world (snd (call_value call h args w))"
  proof (cases h)
    case (Direct f)
    then show ?thesis using keepsD[OF call wf] by simp
  next
    case (OnceG ev f)
    obtain em v where w: "w = (em, v)" by (cases w)
    have "wf_world (snd (call f args (em', v)))" if "remove_listener_raw ev f em = Inr em'" for em'
      using emitter_wf_remove[OF _ that] wf keepsD[OF call, of "(em', v)"] by (simp add: w)
    then show ?thesis
      using wf by (auto simp: OnceG w split: sum.splits)
  qed
qed

lemma keeps_wf_emit_run:
  "(\<And>f args. keeps wf_world (call f args)) \<Longrightarrow> keeps wf_world (emit_run call h args)"
  unfolding emit_run_def by (intro keeps_abind keeps_wf_call_value) simp_all

lemma keeps_wf_emit_run_async:
  "(\<And>f args. keeps wf_world (call f args)) \<Longrightarrow> (\<And>c. keeps wf_world (await c)) \<Longrightarrow>
   keeps wf_world (emit_run_async call await h args)"
  unfolding emit_run_async_def
  by (intro keeps_abind keeps_wf_call_value) (auto split: ret.splits)

lemma snd_call_handlers:
  "snd (call_handlers run ev args w) = snd (afor (\<lambda>f. run f args) (dvals (handlers_of (fst w) ev)) w)"
  by (auto simp: call_handlers_def act_simps Let_def split: prod.splits sum.splits)

lemma snd_emit: "snd (emit run is_error as_exc ev args w) = snd (call_handlers run ev args w)"
  by (simp add: emit_def act_simps split: prod.splits sum.splits)

lemma keeps_emit:
  assumes "\<And>h args. keeps P (run h args)"
  shows "keeps P (emit run is_error as_exc ev args)"
  using keepsD[OF keeps_afor, of P "\<lambda>f. run f args"] assms
  by (intro keepsI) (simp add: snd_emit snd_call_handlers)

subsection \<open>Delivery\<close>

text \<open>What an emission leaves behind: the registrations of the event without the once-closures.\<close>

fun is_once :: "('ev, 'f) hval \<Rightarrow> bool" where
  "is_once (Direct f) = False"
| "is_once (OnceG ev f) = True"

fun callee :: "('ev, 'f) hval \<Rightarrow> 'f" where
  "callee (Direct f) = f"
| "callee (OnceG ev f) = f"

definition keep_direct :: "('f, ('ev, 'f) hval) dict \<Rightarrow> ('f, ('ev, 'f) hval) dict" where
  "keep_direct d = filter (\<lambda>p. \<not> is_once (snd p)) d"

definition drop_once :: "'ev \<Rightarrow> ('ev, 'f) emitter \<Rightarrow> ('ev, 'f) emitter" where
  "drop_once ev em =
     (let d = handlers_of em ev; d' = keep_direct d in
      if d' = d then em
      else em\<lparr>events := (if d' = [] then ddel ev (events em) else dset ev d' (events em))\<rparr>)"

lemma dset_same: "dget m k = Some v \<Longrightarrow> dset k v m = m"
  by (induction k v m rule: dset.induct) auto

lemma dset_dset [simp]: "dset k v (dset k u m) = dset k v m"
  by (induction k u m rule: dset.induct) auto

lemma ddel_dset [simp]: "ddel k (dset k u m) = ddel k m"
  by (induction k u m rule: dset.induct) (auto simp: ddel_def)

lemma dget_middle:
  "dict_ok (xs @ (k, v) # ys) \<Longrightarrow> dget (xs @ (k, v) # ys) k = Some v"
  by (induction xs) (auto simp: dict_ok_def dkeys_def)

lemma ddel_middle:
  "dict_ok (xs @ (k, v) # ys) \<Longrightarrow> ddel k (xs @ (k, v) # ys) = xs @ ys"
  by (induction xs) (auto simp: dict_ok_def dkeys_def ddel_def filter_id_conv)

lemma remove_listener_middle:
  assumes "dget (events em) ev = Some (xs @ (f, v) # ys)" and "dict_ok (xs @ (f, v) # ys)"
  shows "remove_listener_raw ev f em =
    Inr (em\<lparr>events := (if xs @ ys = [] then ddel ev (events em) else dset ev (xs @ ys) (events em))\<rparr>)"
  using assms by (simp add: remove_listener_raw_def Let_def ddel_middle dmem_dget dget_middle)

lemma dict_ok_keep:
  "dict_ok (keep_direct xs @ (k, v) # ys) \<Longrightarrow> dict_ok (keep_direct xs @ ys)"
  by (auto simp: dict_ok_def dkeys_def)

text \<open>
  The state of the run after the handlers \<open>xs\<close> have been called and \<open>ys\<close> are left: the event
  holds the direct handlers of \<open>xs\<close> and all of \<open>ys\<close>.
\<close>

definition run_state :: "'ev \<Rightarrow> ('f, ('ev, 'f) hval) dict \<Rightarrow> ('ev, 'f) emitter \<Rightarrow> ('ev, 'f) emitter" where
  "run_state ev d em =
     (if dget (events em) ev = Some d then em
      else em\<lparr>events := (if d = [] then ddel ev (events em) else dset ev d (events em))\<rparr>)"

lemma handlers_of_run_state: "d \<noteq> [] \<Longrightarrow> dget (events (run_state ev d em)) ev = Some d"
  by (simp add: run_state_def)

lemma run_state_middle:
  assumes "dict_ok (xs @ (f, v) # ys)" and "dget (events em) ev = Some d0" and "length xs + length ys < length d0"
  shows "remove_listener_raw ev f (run_state ev (xs @ (f, v) # ys) em) = Inr (run_state ev (xs @ ys) em)"
proof -
  have "dget (events (run_state ev (xs @ (f, v) # ys) em)) ev = Some (xs @ (f, v) # ys)"
    by (rule handlers_of_run_state) simp
  from remove_listener_middle[OF this assms(1)] show ?thesis
    using assms(2,3) by (auto simp: run_state_def)
qed

lemma call_value_logs:
  assumes logs: "\<And>f args em l. call f args (em, l) = (Inr RetValue, (em, l @ [(f, args)]))"
    and ok: "dict_ok (xs @ (k, v) # ys)"
    and own: "\<And>ev' f. v = OnceG ev' f \<Longrightarrow> ev' = ev \<and> f = k"
    and em: "dget (events em) ev = Some d0" "length xs + length ys < length d0"
  shows "call_value call v args (run_state ev (xs @ (k, v) # ys) em, l) =
    (Inr RetValue, (run_state ev (xs @ (if is_once v then [] else [(k, v)]) @ ys) em, l @ [(callee v, args)]))"
proof (cases v)
  case (Direct f)
  then show ?thesis by (simp add: logs)
next
  case (OnceG ev' f)
  with own have v: "v = OnceG ev k" "f = k" by auto
  have get: "dget (events (run_state ev (xs @ (k, v) # ys) em)) ev = Some (xs @ (k, v) # ys)"
    by (rule handlers_of_run_state) simp
  then have "dmem ev (events (run_state ev (xs @ (k, v) # ys) em))"
    "dmem k (handlers_of (run_state ev (xs @ (k, v) # ys) em) ev)"
    using ok by (simp_all add: dmem_dget handlers_of_some dget_middle)
  then show ?thesis
    using run_state_middle[OF ok em] by (simp add: v(1) logs)
qed

lemma afor_logs:
  assumes logs: "\<And>f args em l. call f args (em, l) = (Inr RetValue, (em, l @ [(f, args)]))"
    and "dict_ok (keep_direct xs @ ys)"
    and own: "\<And>k ev' f. (k, OnceG ev' f) \<in> set ys \<Longrightarrow> ev' = ev \<and> f = k"
    and em: "dget (events em) ev = Some d0" "length xs + length ys = length d0"
  shows "afor (\<lambda>f. emit_run call f args) (map snd ys) (run_state ev (keep_direct xs @ ys) em, l) =
    (Inr (), (run_state ev (keep_direct (xs @ ys)) em, l @ map (\<lambda>p. (callee (snd p), args)) ys))"
  using assms(2,3) em(2)
proof (induction ys arbitrary: xs l)
  case Nil
  then show ?case by simp
next
  case (Cons p ys)
  obtain k v where p: "p = (k, v)" by (cases p)
  have kd: "keep_direct (xs @ [p]) @ ys = keep_direct xs @ (if is_once v then [] else [(k, v)]) @ ys"
    by (simp add: keep_direct_def p)
  have le: "length (keep_direct xs) \<le> length xs" by (simp add: keep_direct_def)
  have step: "call_value call v args (run_state ev (keep_direct xs @ (k, v) # ys) em, l) =
    (Inr RetValue, (run_state ev (keep_direct (xs @ [p]) @ ys) em, l @ [(callee v, args)]))"
    unfolding kd
    by (rule call_value_logs[OF logs, where ?d0.0 = d0])
      (use Cons.prems em(1) le in \<open>auto simp: p\<close>)
  have ok: "dict_ok (keep_direct (xs @ [p]) @ ys)"
    unfolding kd using Cons.prems(1) dict_ok_keep[of xs k v ys] by (simp add: p)
  then have run: "emit_run call v args (run_state ev (keep_direct xs @ (k, v) # ys) em, l) =
    (Inr (), (run_state ev (keep_direct (xs @ [p]) @ ys) em, l @ [(callee v, args)]))"
    using step by (simp add: emit_run_def act_simps)
  have own': "ev' = ev \<and> f = k" if "(k, OnceG ev' f) \<in> set ys" for k ev' f
    using Cons.prems(2)[of k ev' f] that by simp
  have len: "length (xs @ [p]) + length ys = length d0"
    using Cons.prems(3) by simp
  show ?case
    using Cons.IH[OF ok own' len, of "l @ [(callee v, args)]"] by (simp add: p run)
qed

text \<open>One emission with callbacks that log and return: exactly the registered ones, in order.\<close>

lemma call_handlers_logs:
  fixes call :: "('ev, 'f, ('f \<times> 'a list) list, 'a, 'c) ecall"
  assumes logs: "\<And>f args em l. call f args (em, l) = (Inr RetValue, (em, l @ [(f, args)]))"
    and wf: "emitter_wf em"
  shows "call_handlers (emit_run call) ev args (em, l) =
    (Inr (listeners ev em \<noteq> []),
     (drop_once ev em, l @ map (\<lambda>h. (callee h, args)) (dvals (handlers_of em ev))))"
proof (cases "dget (events em) ev")
  case None
  then have "handlers_of em ev = []" by (simp add: handlers_of_def)
  then show ?thesis
    by (simp add: call_handlers_def dvals_def listeners_def act_simps drop_once_def keep_direct_def)
next
  case (Some d)
  then have d: "handlers_of em ev = d" by (simp add: handlers_of_def)
  have ok: "dict_ok d" using emitter_wf_handlers(1)[OF wf, of ev] by (simp add: d)
  have own: "ev' = ev \<and> f = k" if "(k, OnceG ev' f) \<in> set d" for k ev' f
  proof -
    have "dget d k = Some (OnceG ev' f)"
      using that ok by (simp add: dget_def dict_ok_def dkeys_def)
    then show ?thesis using emitter_wf_handlers(2)[OF wf, of ev k ev' f] by (simp add: d)
  qed
  have start: "run_state ev d em = em" by (simp add: run_state_def Some)
  have "afor (\<lambda>f. emit_run call f args) (map snd d) (em, l) =
      (Inr (), (run_state ev (keep_direct d) em, l @ map (\<lambda>p. (callee (snd p), args)) d))"
    using afor_logs[of call "[]" d ev em d args l, OF logs _ own Some] ok
    by (simp add: keep_direct_def start)
  moreover have "run_state ev (keep_direct d) em = drop_once ev em"
    by (auto simp: run_state_def drop_once_def d Some Let_def)
  ultimately show ?thesis
    by (simp add: call_handlers_def dvals_def d listeners_def dkeys_def act_simps comp_def)
qed

lemma handlers_of_drop_once:
  "handlers_of (drop_once ev em) e = (if e = ev then keep_direct (handlers_of em ev) else handlers_of em e)"
  by (auto simp: drop_once_def Let_def handlers_of_def split: option.splits)

lemma emit_eq:
  "emit run is_error as_exc ev args w = (case call_handlers run ev args w of
     (Inl e, w') \<Rightarrow> (Inl e, w')
   | (Inr True, w') \<Rightarrow> (Inr True, w')
   | (Inr False, w') \<Rightarrow>
       (case emit_handle_potential_error is_error as_exc ev (if args \<noteq> [] then Some (hd args) else None) of
          Inl e \<Rightarrow> (Inl e, w') | Inr _ \<Rightarrow> (Inr False, w')))"
  by (auto simp: emit_def act_simps split: prod.splits sum.splits bool.splits)

subsection \<open>Isolation in the asyncio emitter\<close>

text \<open>
  \<open>aio_emit_run_async\<close> never raises when the exception handlers do not: every exception of a
  callback or of its coroutine goes to \<open>emit_exception\<close>.
\<close>

lemma emit_exception_ok:
  assumes "\<And>f e w. \<exists>w'. run_exc f e w = (Inr (), w')"
  shows "\<exists>b w'. emit_exception run_exc e w = (Inr b, w')"
proof -
  have "\<exists>w'. afor (\<lambda>f. run_exc f e) fs w = (Inr (), w')" for fs w
  proof (induction fs arbitrary: w)
    case (Cons f fs)
    obtain w1 where "run_exc f e w = (Inr (), w1)" using assms by blast
    then show ?case using Cons.IH[of w1] by simp
  qed simp
  then obtain w' where "afor (\<lambda>f. run_exc f e) (dvals (exc_event_handlers (fst w))) w = (Inr (), w')"
    by blast
  then show ?thesis
    by (auto simp: emit_exception_def call_exc_handlers_def act_simps Let_def
        split: prod.splits sum.splits)
qed

lemma aio_emit_run_async_ok:
  assumes "\<And>f e w. \<exists>w'. run_exc f e w = (Inr (), w')"
  shows "\<exists>w'. aio_emit_run_async call await run_exc h args w = (Inr (), w')"
proof -
  obtain r w' where step: "abind (call_value call h args)
      (\<lambda>r. case r of RetCoro c \<Rightarrow> await c | _ \<Rightarrow> aret ()) w = (r, w')"
    using prod.exhaust by blast
  show ?thesis
  proof (cases r)
    case (Inl e)
    obtain b w2 where "emit_exception run_exc e w' = (Inr b, w2)"
      using emit_exception_ok[of run_exc, OF assms] by blast
    with step Inl show ?thesis
      by (simp add: aio_emit_run_async_def) (simp add: act_simps)
  next
    case (Inr u)
    with step show ?thesis by (simp add: aio_emit_run_async_def)
  qed
qed

lemma afor_ok:
  assumes "\<And>x w. \<exists>w'. f x w = (Inr (), w')"
  shows "\<exists>w'. afor f xs w = (Inr (), w')"
proof (induction xs arbitrary: w)
  case (Cons x xs)
  obtain w1 where "f x w = (Inr (), w1)" using assms by blast
  then show ?case using Cons.IH[of w1] by simp
qed simp

lemma call_handlers_ok:
  assumes "\<And>h args w. \<exists>w'. run h args w = (Inr (), w')"
  shows "\<exists>w'. call_handlers run ev args w = (Inr (listeners ev (fst w) \<noteq> []), w')"
proof -
  obtain w' where "afor (\<lambda>f. run f args) (dvals (handlers_of (fst w) ev)) w = (Inr (), w')"
    using afor_ok[of "\<lambda>f. run f args", OF assms] by blast
  then show ?thesis
    by (simp add: call_handlers_def act_simps Let_def listeners_def dkeys_def dvals_def)
qed

subsection \<open>The single emitter\<close>

lemma single_loop_pure:
  assumes call: "\<And>k w. fst (snd (call k w)) = fst w" and await: "\<And>c w. fst (snd (await c w)) = fst w"
    and "set ks \<subseteq> set (dkeys (fst w))"
    and "single_loop call await (length (fst w)) ks rem w = (r, w')"
  shows "fst w' = fst w \<and> (\<forall>rem'. r = Inr rem' \<longrightarrow> rem' = rem @ filter (\<lambda>k. dget (fst w) k = Some True) ks)"
  using assms(3,4)
proof (induction ks arbitrary: rem w)
  case Nil
  then show ?case by auto
next
  case (Cons k ks)
  from Cons.prems(1) obtain once where once: "dget (fst w) k = Some once"
    by (cases "dget (fst w) k") (auto simp: dget_None_iff)
  obtain r1 w1 where c: "call k w = (r1, w1)" by (cases "call k w")
  have w1: "fst w1 = fst w" using call[of k w] by (simp add: c)
  show ?case
  proof (cases r1)
    case (Inl e)
    with Cons.prems once c w1 show ?thesis by auto
  next
    case (Inr v)
    define rem1 where "rem1 = (if once then rem @ [k] else rem)"
    show ?thesis
    proof (cases v)
      case (RetCoro co)
      obtain r2 w2 where a: "await co w1 = (r2, w2)" by (cases "await co w1")
      have w2: "fst w2 = fst w" using await[of co w1] by (simp add: a w1)
      show ?thesis
      proof (cases r2)
        case (Inl e)
        with Cons.prems once c Inr RetCoro a w2 show ?thesis by auto
      next
        case r2: (Inr u)
        with Cons.prems once c Inr RetCoro a have "single_loop call await (length (fst w2)) ks rem1 w2 = (r, w')"
          by (simp add: rem1_def w2)
        from Cons.IH[OF _ this] Cons.prems(1) once show ?thesis by (cases once) (simp_all add: w2 rem1_def)
      qed
    next
      case RetValue
      with Cons.prems once c Inr have "single_loop call await (length (fst w1)) ks rem1 w1 = (r, w')"
        by (simp add: rem1_def w1)
      from Cons.IH[OF _ this] Cons.prems(1) once show ?thesis by (cases once) (simp_all add: w1 rem1_def)
    next
      case (RetFuture u)
      with Cons.prems once c Inr have "single_loop call await (length (fst w1)) ks rem1 w1 = (r, w')"
        by (simp add: rem1_def w1)
      from Cons.IH[OF _ this] Cons.prems(1) once show ?thesis by (cases once) (simp_all add: w1 rem1_def)
    qed
  qed
qed

lemma ddel_single: "ddel k [(k, v)] = []"
  by (simp add: ddel_def)

lemma single_remove_all:
  assumes "distinct ks" and "set ks \<subseteq> set (dkeys hs)"
  shows "afor (\<lambda>f w. case single_off f (fst w) of Inl e \<Rightarrow> (Inl e, w) | Inr hs \<Rightarrow> (Inr (), (hs, snd w)))
           ks (hs, v) = (Inr (), (filter (\<lambda>p. fst p \<notin> set ks) hs, v))"
  using assms
proof (induction ks arbitrary: hs)
  case (Cons k ks)
  have "set ks \<subseteq> set (dkeys (ddel k hs))" using Cons.prems by (auto simp: dkeys_ddel)
  from Cons.IH[OF _ this] Cons.prems show ?case
    by (simp add: single_off_def dmem_def) (auto simp: ddel_def intro: filter_cong)
qed simp

lemma dget_filter_value:
  "dict_ok hs \<Longrightarrow> filter (\<lambda>p. dget hs (fst p) \<noteq> Some True) hs = filter (\<lambda>p. \<not> snd p) hs"
  by (rule filter_cong) (auto simp: dget_def dict_ok_def dkeys_def dest: eq_key_imp_eq_value)

lemma single_emit_outcome:
  assumes "dict_ok (fst w)"
    and "\<And>k w. fst (snd (call k w)) = fst w" and "\<And>c w. fst (snd (await c w)) = fst w"
  shows "case single_emit_async call await w of
      (Inl e, w') \<Rightarrow> fst w' = fst w
    | (Inr _, w') \<Rightarrow> fst w' = filter (\<lambda>p. \<not> snd p) (fst w)"
proof (cases "fst w = []")
  case True
  then show ?thesis by (simp add: single_emit_async_def)
next
  case False
  obtain r w1 where l: "single_loop call await (length (fst w)) (dkeys (fst w)) [] w = (r, w1)"
    using prod.exhaust by blast
  note pure = single_loop_pure[of call await, OF assms(2,3) subset_refl l]
  show ?thesis
  proof (cases r)
    case (Inl e)
    with l False pure show ?thesis by (simp add: single_emit_async_def abind_def)
  next
    case (Inr rem)
    obtain hs v where w1: "w1 = (hs, v)" by (cases w1)
    have hs: "hs = fst w" and rem: "rem = filter (\<lambda>k. dget hs k = Some True) (dkeys hs)"
      using pure Inr by (auto simp: w1)
    have rm: "distinct rem" "set rem \<subseteq> set (dkeys hs)" "dict_ok hs"
      using assms(1) by (auto simp: rem hs dict_ok_def)
    have "filter (\<lambda>p. fst p \<notin> set rem) hs = filter (\<lambda>p. dget hs (fst p) \<noteq> Some True) hs"
      by (rule filter_cong) (auto simp: rem dkeys_def)
    then show ?thesis
      using single_remove_all[OF rm(1,2), of v] l Inr False dget_filter_value[OF rm(3)]
      by (simp add: single_emit_async_def abind_def w1 hs)
  qed
qed

subsection \<open>Properties\<close>

text \<open>
  emitting keeps the emitter well formed, whatever the callbacks do to it, as long as each
  callback keeps it well formed, and whether they return or raise.
\<close>

lemma emit_keeps_wf:
  assumes "\<And>f args. keeps wf_world (call f args)" and "wf_world w"
  shows "wf_world (snd (emit (emit_run call) is_error as_exc ev args w))"
  using keepsD[OF keeps_emit, of wf_world "emit_run call" w] keeps_wf_emit_run[of call, OF assms(1)] assms(2)
  by blast

lemma emit_keeps_wf_witness:
  "wf_world (snd (emit (emit_run (\<lambda>f args w. (if f then (Inl ValueError, w) else
        (Inr (RetValue :: unit ret), (snd (emitter_once ''b'' True (fst w)), snd w)))))
      (\<lambda>e. e = ''error'') (\<lambda>_. None) ''a'' [1::nat] (snd (emitter_once ''a'' False emitter_init), ())))"
  by (rule emit_keeps_wf) (auto simp: keeps_def emitter_wf_init)





text \<open>
  \<open>remove_listener\<close> of the last handler of an event removes the event from \<open>event_names\<close>,
  but \<open>remove_all_listeners(event)\<close> leaves it there (and adds an event that was never registered).
\<close>

lemma removal_event_names:
  "(dget (events em) ev = Some [(f, v)] \<longrightarrow>
     (\<exists>em'. remove_listener ev f em = Inr em' \<and> ev \<notin> event_names em'))
   \<and> ev \<in> event_names (remove_all_listeners (Some ev) em)
   \<and> listeners ev (remove_all_listeners (Some ev) em) = []"
  by (auto simp: remove_listener_def remove_listener_raw_def event_names_def ddel_single
      remove_all_listeners_def dict_simps listeners_def handlers_of_def Let_def)

lemma removal_event_names_witness:
  "\<exists>em'. remove_listener ''a'' (1::nat) (snd (add_listener ''a'' 1 None emitter_init)) = Inr em' \<and>
     ''a'' \<notin> event_names em'"
  using removal_event_names[of "snd (add_listener ''a'' (1::nat) None emitter_init)" "''a''" 1 "Direct 1"]
  by (simp add: add_listener_def add_event_handler_def emitter_init_def handlers_of_def)

text \<open>
  With callbacks that leave the registrations alone, \<open>SingleAsyncEventEmitter.emit_async\<close>
  removes every \<open>once\<close> handler when all callbacks return, and no handler at all when one of them
  raises: the \<open>once\<close> handlers that already ran stay registered and run again next time.
\<close>

lemma single_emit_once_removed:
  assumes "dict_ok (fst w)"
    and "\<And>k w. fst (snd (call k w)) = fst w" and "\<And>c w. fst (snd (await c w)) = fst w"
  shows "case single_emit_async call await w of
      (Inl e, w') \<Rightarrow> fst w' = fst w
    | (Inr _, w') \<Rightarrow> fst w' = filter (\<lambda>p. \<not> snd p) (fst w)"
  using single_emit_outcome[of w call await, OF assms] .

lemma single_emit_once_removed_witness:
  "single_emit_async (\<lambda>k w. if k = 2 then (Inl ValueError, w) else (Inr RetValue, (fst w, k # snd w)))
     (\<lambda>c :: unit. aret ()) ([(1 :: nat, True), (2, False)], []) =
     (Inl ValueError, ([(1, True), (2, False)], [1])) \<and>
   fst (snd (single_emit_async (\<lambda>k w. (Inr RetValue, (fst w, k # snd w)))
     (\<lambda>c :: unit. aret ()) ([(1 :: nat, True), (2, False)], []))) = [(2, False)]"
proof -
  have "case single_emit_async (\<lambda>k w. (Inr RetValue, (fst w, k # snd w)))
     (\<lambda>c :: unit. aret ()) ([(1 :: nat, True), (2, False)], []) of
      (Inl e, w') \<Rightarrow> fst w' = [(1, True), (2, False)]
    | (Inr _, w') \<Rightarrow> fst w' = [(2, False)]"
    using single_emit_once_removed[of "([(1 :: nat, True), (2, False)], [])"
        "\<lambda>k w. (Inr RetValue, (fst w, k # snd w))" "\<lambda>c :: unit. aret ()"]
    by (simp add: dict_ok_def aret_def cong: prod.case_cong sum.case_cong)
  then show ?thesis
    by (simp add: single_emit_async_def abind_def single_off_def aret_def ddel_def)
qed

end
