(* ===== verification/Containers.thy ===== *)
theory Containers
  imports TreeId
begin

text \<open>
  The small containers under \<open>utils/\<close>: \<open>uniquename.py\<close> (\<open>UniqueNamePool\<close>, the allocator of
  component and node names) and \<open>containers/dict_proxy.py\<close> (\<open>DictProxy\<close>). A pool is a set of names
  and a bound on the search; the generator of candidates is the code's \<open>range\<close>. The lemmas: the
  candidates are distinct and differ from the requested name, so a name is found unless the pool
  has at least \<open>max_count\<close> names.
\<close>

subsection \<open>Unique names\<close>

text \<open>\<open>str(i)\<close> of any integer, as \<open>"_{}".format(i)\<close> prints it.\<close>

definition int_str :: "int \<Rightarrow> string" where
  "int_str i = (if i < 0 then CHR ''-'' # nat_str (nat (- i)) else nat_str (nat i))"

definition name_stem :: "string \<Rightarrow> string \<times> int" where
  "name_stem name =
     (if CHR ''_'' \<in> set name \<and> hd name \<noteq> CHR ''_''
      then (let parts = split_on (CHR ''_'') name in
        case py_int (last parts) of
          Inr tail \<Rightarrow> (join ''_'' (butlast parts), tail)
        | Inl e \<Rightarrow> (name, 0))
      else (name, 0))"

definition candidate :: "string \<Rightarrow> int \<Rightarrow> string" where
  "candidate stem i = stem @ ''_'' @ int_str i"

definition make_unique_name :: "string set \<Rightarrow> string \<Rightarrow> int \<Rightarrow> (string \<times> string set) res" where
  "make_unique_name unique_set name max_count =
     (if name \<notin> unique_set then Inr (name, insert name unique_set)
      else case name_stem name of (stem, tail) \<Rightarrow>
        (case find (\<lambda>n. n \<notin> unique_set) (map (candidate stem) [tail + 1..tail + max_count - 1]) of
           Some n \<Rightarrow> Inr (n, insert n unique_set)
         | None \<Rightarrow> Inl ValueError))"

record name_pool =
  max_count :: int
  unique_set :: "string set"

definition pool_init :: "int \<Rightarrow> string set option \<Rightarrow> name_pool" where
  "pool_init m init_set = \<lparr>max_count = m, unique_set = (case init_set of None \<Rightarrow> {} | Some s \<Rightarrow> s)\<rparr>"

definition pool_call :: "string \<Rightarrow> name_pool \<Rightarrow> (string \<times> name_pool) res" where
  "pool_call name p = rbind (make_unique_name (unique_set p) name (max_count p))
     (\<lambda>(n, s). Inr (n, p\<lparr>unique_set := s\<rparr>))"

definition pool_contains :: "string \<Rightarrow> name_pool \<Rightarrow> bool" where
  "pool_contains key p \<longleftrightarrow> key \<in> unique_set p"

definition pool_pop :: "string \<Rightarrow> name_pool \<Rightarrow> name_pool res" where
  "pool_pop key p = (if key \<in> unique_set p then Inr (p\<lparr>unique_set := unique_set p - {key}\<rparr>) else Inl KeyError)"

definition pool_pop_if_exists :: "string \<Rightarrow> name_pool \<Rightarrow> name_pool" where
  "pool_pop_if_exists key p =
     (if key \<in> unique_set p then p\<lparr>unique_set := unique_set p - {key}\<rparr> else p)"

definition pool_clear :: "name_pool \<Rightarrow> name_pool" where
  "pool_clear p = p\<lparr>unique_set := {}\<rparr>"

definition pool_copy :: "name_pool \<Rightarrow> name_pool" where
  "pool_copy p = pool_init (max_count p) (Some (unique_set p))"

text \<open>Several allocations in a row.\<close>

fun pool_calls :: "string list \<Rightarrow> name_pool \<Rightarrow> (string list \<times> name_pool) res" where
  "pool_calls [] p = Inr ([], p)"
| "pool_calls (n # ns) p = rbind (pool_call n p) (\<lambda>(m, p'). rbind (pool_calls ns p') (\<lambda>(ms, p''). Inr (m # ms, p'')))"

subsection \<open>The dict proxy\<close>

text \<open>\<open>DictProxy\<close> forwards to one dict; \<open>copy\<close> returns the plain dict and hashing always raises.\<close>

record ('k, 'v) dict_proxy =
  proxied :: "('k, 'v) dict"

definition proxy_init :: "('k, 'v) dict_proxy" where
  "proxy_init = \<lparr>proxied = []\<rparr>"

definition proxy_set_internal :: "('k, 'v) dict \<Rightarrow> ('k, 'v) dict_proxy \<Rightarrow> ('k, 'v) dict_proxy" where
  "proxy_set_internal other p = p\<lparr>proxied := other\<rparr>"

definition proxy_getitem :: "'k \<Rightarrow> ('k, 'v) dict_proxy \<Rightarrow> 'v res" where
  "proxy_getitem k p = of_opt KeyError (dget (proxied p) k)"

definition proxy_iter :: "('k, 'v) dict_proxy \<Rightarrow> 'k list" where
  "proxy_iter p = dkeys (proxied p)"

definition proxy_len :: "('k, 'v) dict_proxy \<Rightarrow> nat" where
  "proxy_len p = length (proxied p)"

definition proxy_contains :: "'k \<Rightarrow> ('k, 'v) dict_proxy \<Rightarrow> bool" where
  "proxy_contains k p = dmem k (proxied p)"

definition proxy_setitem :: "'k \<Rightarrow> 'v \<Rightarrow> ('k, 'v) dict_proxy \<Rightarrow> ('k, 'v) dict_proxy" where
  "proxy_setitem k v p = p\<lparr>proxied := dset k v (proxied p)\<rparr>"

definition proxy_delitem :: "'k \<Rightarrow> ('k, 'v) dict_proxy \<Rightarrow> ('k, 'v) dict_proxy res" where
  "proxy_delitem k p = (if dmem k (proxied p) then Inr (p\<lparr>proxied := ddel k (proxied p)\<rparr>) else Inl KeyError)"

definition proxy_get :: "'k \<Rightarrow> 'v option \<Rightarrow> ('k, 'v) dict_proxy \<Rightarrow> 'v option" where
  "proxy_get k dv p = (case dget (proxied p) k of Some v \<Rightarrow> Some v | None \<Rightarrow> dv)"

definition proxy_pop :: "'k \<Rightarrow> 'v option \<Rightarrow> ('k, 'v) dict_proxy \<Rightarrow> 'v option \<times> ('k, 'v) dict_proxy" where
  "proxy_pop k dv p =
     ((case dget (proxied p) k of Some v \<Rightarrow> Some v | None \<Rightarrow> dv), p\<lparr>proxied := ddel k (proxied p)\<rparr>)"

definition proxy_clear :: "('k, 'v) dict_proxy \<Rightarrow> ('k, 'v) dict_proxy" where
  "proxy_clear p = p\<lparr>proxied := []\<rparr>"

definition proxy_update :: "('k, 'v) dict \<Rightarrow> ('k, 'v) dict_proxy \<Rightarrow> ('k, 'v) dict_proxy" where
  "proxy_update other p = p\<lparr>proxied := dupdate (proxied p) other\<rparr>"

definition proxy_copy :: "('k, 'v) dict_proxy \<Rightarrow> ('k, 'v) dict" where
  "proxy_copy p = proxied p"

definition proxy_bool :: "('k, 'v) dict_proxy \<Rightarrow> bool" where
  "proxy_bool p \<longleftrightarrow> proxied p \<noteq> []"

definition proxy_hash :: "('k, 'v) dict_proxy \<Rightarrow> int res" where
  "proxy_hash p = Inl TypeError"

subsection \<open>Candidates\<close>

lemma digits_val_minus: "py_int (CHR ''-'' # nat_str n) = Inr (- int n)"
proof -
  have "py_strip (CHR ''-'' # nat_str n) = CHR ''-'' # nat_str n"
  proof (rule py_strip_plain)
    fix c
    assume "c \<in> set (CHR ''-'' # nat_str n)"
    then consider "c = CHR ''-''" | d where "d < 10" "c = digit_char d"
      using nat_str_digits[of c n] by auto
    then show "\<not> is_space c" by cases (simp add: is_space_def, simp add: digit_char_plain)
  qed
  then show ?thesis
    using digits_val_nat_str[of 0 False n "[]"] by (simp add: py_int_def)
qed

lemma py_int_int_str: "py_int (int_str i) = Inr i"
  by (simp add: int_str_def digits_val_minus)

lemma int_str_inj: "int_str i = int_str j \<longleftrightarrow> i = j"
  by (metis py_int_int_str sum.inject(2))

lemma candidate_inj: "candidate s i = candidate s j \<longleftrightarrow> i = j"
  by (simp add: candidate_def int_str_inj)

lemma distinct_candidates: "distinct (map (candidate s) xs) = distinct xs"
  by (simp add: distinct_map inj_on_def candidate_inj)

lemma join_split: "join [c] (split_on c s) = s"
proof (induction s rule: split_on.induct)
  case (2 c x xs)
  have "split_on c xs \<noteq> []" by (induction xs) (auto split: list.splits)
  then show ?case using 2 by (cases "split_on c xs"; cases "tl (split_on c xs)") auto
qed simp

lemma split_on_nonempty: "split_on c s \<noteq> []"
  by (induction s) (auto split: list.splits)

lemma join_snoc: "ps \<noteq> [] \<Longrightarrow> join s (ps @ [q]) = join s ps @ s @ q"
  by (induction s ps rule: join.induct) auto

lemma length_split_on: "c \<in> set s \<Longrightarrow> 2 \<le> length (split_on c s)"
proof (induction s)
  case (Cons x xs)
  have ne: "split_on c xs \<noteq> []" by (rule split_on_nonempty)
  show ?case
  proof (cases "x = c")
    case True
    then show ?thesis using ne by (cases "split_on c xs") simp_all
  next
    case False
    then have "2 \<le> length (split_on c xs)" using Cons by simp
    then show ?thesis using False by (cases "split_on c xs") simp_all
  qed
qed simp

text \<open>The requested name is not one of its own candidates.\<close>

lemma name_not_candidate:
  assumes "name_stem name = (stem, tail)" and "tail < i"
  shows "candidate stem i \<noteq> name"
proof (cases "CHR ''_'' \<in> set name \<and> hd name \<noteq> CHR ''_'' \<and> (\<exists>t. py_int (last (split_on (CHR ''_'') name)) = Inr t)")
  case True
  let ?ps = "split_on (CHR ''_'') name"
  obtain t where t: "py_int (last ?ps) = Inr t" using True by blast
  then have st: "stem = join ''_'' (butlast ?ps)" "tail = t"
    using assms(1) True by (simp_all add: name_stem_def Let_def)
  have len: "2 \<le> length ?ps" using True by (intro length_split_on) simp
  then have "0 < length (butlast ?ps)" by simp
  then have ne: "butlast ?ps \<noteq> []" "?ps \<noteq> []" by (simp_all only: length_greater_0_conv split_on_nonempty not_False_eq_True)
  have "name = join ''_'' (butlast ?ps @ [last ?ps])" using ne(2) by (simp add: join_split)
  then have name: "name = stem @ ''_'' @ last ?ps" using join_snoc[OF ne(1), of "''_''" "last ?ps"] st(1) by simp
  have "last ?ps \<noteq> int_str i"
    using t py_int_int_str[of i] assms(2) st(2) by auto
  then show ?thesis unfolding name[symmetric] candidate_def by (metis append_Cons append_Nil name same_append_eq)
next
  case False
  then have "stem = name" using assms(1) by (auto simp: name_stem_def Let_def split: if_splits sum.splits)
  then show ?thesis by (simp add: candidate_def)
qed

lemma make_unique_result:
  assumes "make_unique_name S name m = Inr (n, S')"
  shows "n \<notin> S" and "S' = insert n S" and "name \<notin> S \<Longrightarrow> n = name"
    and "name \<in> S \<Longrightarrow> \<exists>i. n = candidate (fst (name_stem name)) i \<and> snd (name_stem name) < i \<and>
      i < snd (name_stem name) + m \<and> (\<forall>j. snd (name_stem name) < j \<and> j < i \<longrightarrow> candidate (fst (name_stem name)) j \<in> S)"
proof -
  obtain stem tail where st: "name_stem name = (stem, tail)" by (cases "name_stem name")
  show "n \<notin> S" "S' = insert n S" "name \<notin> S \<Longrightarrow> n = name"
    using assms by (auto simp: make_unique_name_def st find_Some_iff split: if_splits option.splits)
  assume "name \<in> S"
  then have f: "find (\<lambda>n. n \<notin> S) (map (candidate stem) [tail + 1..tail + m - 1]) = Some n"
    using assms by (auto simp: make_unique_name_def st split: option.splits)
  then obtain k where k: "k < length [tail + 1..tail + m - 1]" "n = candidate stem ([tail + 1..tail + m - 1] ! k)"
    "\<forall>j<k. candidate stem ([tail + 1..tail + m - 1] ! j) \<in> S"
    by (auto simp: find_Some_iff)
  have nth: "[tail + 1..tail + m - 1] ! j = tail + 1 + int j" if "j < nat (m - 1)" for j
    using that by (simp add: nth_upto)
  have kl: "k < nat (m - 1)" using k(1) by simp
  have "candidate stem j \<in> S" if "tail < j" "j < tail + 1 + int k" for j
  proof -
    have "nat (j - tail - 1) < k" using that by linarith
    moreover from this have "[tail + 1..tail + m - 1] ! nat (j - tail - 1) = j"
      using nth[of "nat (j - tail - 1)"] kl that by linarith
    ultimately show ?thesis using k(3) by metis
  qed
  then show "\<exists>i. n = candidate (fst (name_stem name)) i \<and> snd (name_stem name) < i \<and>
      i < snd (name_stem name) + m \<and> (\<forall>j. snd (name_stem name) < j \<and> j < i \<longrightarrow> candidate (fst (name_stem name)) j \<in> S)"
    using k(2) nth[OF kl] kl by (intro exI[of _ "tail + 1 + int k"]) (auto simp: st)
qed

lemma make_unique_fails:
  assumes "make_unique_name S name m = Inl e" and "finite S" and "0 < m"
  shows "m \<le> int (card S)"
proof -
  obtain stem tail where st: "name_stem name = (stem, tail)" by (cases "name_stem name")
  have name: "name \<in> S" and "find (\<lambda>n. n \<notin> S) (map (candidate stem) [tail + 1..tail + m - 1]) = None"
    using assms(1) by (auto simp: make_unique_name_def st split: if_splits option.splits)
  then have sub: "candidate stem ` {tail + 1..tail + m - 1} \<subseteq> S" by (auto simp: find_None_iff)
  have inj: "inj_on (candidate stem) {tail + 1..tail + m - 1}" by (auto simp: inj_on_def candidate_inj)
  have "name \<notin> candidate stem ` {tail + 1..tail + m - 1}"
  proof
    assume "name \<in> candidate stem ` {tail + 1..tail + m - 1}"
    then obtain x where "x \<in> {tail + 1..tail + m - 1}" "name = candidate stem x" by blast
    moreover from this have "tail < x" by simp
    ultimately have "tail < x" "name = candidate stem x" by simp_all
    then show False using name_not_candidate[OF st, of x] by simp
  qed
  then have "card (candidate stem ` {tail + 1..tail + m - 1}) < card S"
    using sub name assms(2) by (intro psubset_card_mono) auto
  then have "nat (m - 1) < card S" using inj by (simp add: card_image)
  then show ?thesis using assms(3) by linarith
qed

lemma pool_call_outcome:
  assumes "finite (unique_set p)" and "0 < max_count p"
  shows "(\<exists>m p'. pool_call n p = Inr (m, p') \<and> m \<notin> unique_set p \<and> unique_set p' = insert m (unique_set p) \<and>
      max_count p' = max_count p) \<or> (pool_call n p = Inl ValueError \<and> max_count p \<le> int (card (unique_set p)))"
proof (cases "make_unique_name (unique_set p) n (max_count p)")
  case (Inl e)
  then have "e = ValueError" by (auto simp: make_unique_name_def split: if_splits prod.splits option.splits)
  with Inl make_unique_fails[OF Inl assms] show ?thesis by (simp add: pool_call_def)
next
  case (Inr r)
  then obtain m S where "make_unique_name (unique_set p) n (max_count p) = Inr (m, S)" by (cases r) auto
  with make_unique_result(1,2)[OF this] show ?thesis by (simp add: pool_call_def)
qed

lemma pool_call_cases:
  assumes "finite (unique_set p)" and "max_count p = 10000"
  obtains m p' where "pool_call n p = Inr (m, p')" "m \<notin> unique_set p" "unique_set p' = insert m (unique_set p)"
      "max_count p' = 10000" "finite (unique_set p')" "card (unique_set p') = Suc (card (unique_set p))"
  | "pool_call n p = Inl ValueError" "10000 \<le> card (unique_set p)"
  using pool_call_outcome[of p n] assms by fastforce

subsection \<open>Properties\<close>

text \<open>
  C36: a pool never hands out a name twice: the results of any sequence of allocations are distinct,
  new, and all in the pool afterwards; and an allocation fails only when the pool already holds at
  least \<open>max_count\<close> names.
\<close>

theorem unique_name_pool:
  assumes "finite (unique_set p)" and "0 < max_count p"
  shows "case pool_calls ns p of
      Inl e \<Rightarrow> e = ValueError \<and> max_count p < int (card (unique_set p) + length ns)
    | Inr (ms, p') \<Rightarrow> length ms = length ns \<and> distinct ms \<and> set ms \<inter> unique_set p = {} \<and>
        unique_set p' = unique_set p \<union> set ms \<and> max_count p' = max_count p"
  using assms
proof (induction ns arbitrary: p)
  case (Cons n ns)
  show ?case
  proof (cases "pool_call n p")
    case (Inl e)
    then have f: "make_unique_name (unique_set p) n (max_count p) = Inl e"
      by (auto simp: pool_call_def res_simps)
    then have "e = ValueError" by (auto simp: make_unique_name_def split: if_splits prod.splits option.splits)
    then show ?thesis
      using Inl make_unique_fails[OF f Cons.prems] by simp
  next
    case (Inr r)
    obtain m p1 where r: "r = (m, p1)" by (cases r)
    then obtain S where S: "make_unique_name (unique_set p) n (max_count p) = Inr (m, S)" "p1 = p\<lparr>unique_set := S\<rparr>"
      using Inr by (auto simp: pool_call_def res_simps)
    note u = make_unique_result(1,2)[OF S(1)]
    have p1: "unique_set p1 = insert m (unique_set p)" "max_count p1 = max_count p"
      using u by (simp_all add: S(2))
    have "finite (unique_set p1)" "0 < max_count p1" using Cons.prems by (simp_all add: p1)
    note ih = Cons.IH[OF this, unfolded p1]
    show ?thesis
      using ih u Cons.prems(1) by (auto simp: Inr r split: sum.splits)
  qed
qed simp

theorem unique_name_pool_witness:
  "pool_calls [''a'', ''a'', ''a_1''] (pool_init 10 None) =
     Inr ([''a'', ''a_1'', ''a_2''], \<lparr>max_count = 10, unique_set = {''a_2'', ''a_1'', ''a''}\<rparr>) \<and>
   distinct [''a'', ''a_1'', ''a_2'']"
proof -
  have "pool_calls [''a'', ''a'', ''a_1''] (pool_init 10 None) =
     Inr ([''a'', ''a_1'', ''a_2''], \<lparr>max_count = 10, unique_set = {''a_2'', ''a_1'', ''a''}\<rparr>)"
    by code_simp
  with unique_name_pool[of "pool_init 10 None" "[''a'', ''a'', ''a_1'']"] show ?thesis
    by (simp add: pool_init_def)
qed

end
