(* ===== verification/CoreIO_Data.thy ===== *)
theory CoreIO_Data
  imports Prelude TreeId
begin

text \<open>
  \<open>core/core_io.py\<close>, first part: the values that travel (numpy arrays, bytes, \<open>JSArrayBuffer\<close> and
  the Python containers around them), the dtype tables and the protobuf form of one buffer.

  An \<open>ndarray\<close> is its dtype, shape and the bytes of its elements in C order; \<open>nd_contig\<close> is the
  flag \<open>C_CONTIGUOUS\<close>, and \<open>nd_last_contig\<close> tells whether the last axis alone is contiguous, which is
  what \<open>view(np.uint8)\<close> asks for. The machine is little endian, so numpy names the native order \<open>=\<close> and gives
  one-byte types the order \<open>|\<close>. The protobuf messages are records with the fields of
  \<open>protos/*.proto\<close>; an unset field has protobuf's default (0, empty).
\<close>

type_synonym bytes = "8 word list"

subsection \<open>Numpy arrays\<close>

datatype np_type = Float64 | Float32 | Float16 | UInt64 | UInt32 | UInt16 | UInt8
  | Int64 | Int32 | Int16 | Int8 | Bool8 | OtherType string nat

datatype byteorder = Native | LittleOrder | BigOrder | NotApplicable

record np_dtype =
  dtp :: np_type
  dorder :: byteorder

fun type_size :: "np_type \<Rightarrow> nat" where
  "type_size Float64 = 8" | "type_size Float32 = 4" | "type_size Float16 = 2"
| "type_size UInt64 = 8" | "type_size UInt32 = 4" | "type_size UInt16 = 2" | "type_size UInt8 = 1"
| "type_size Int64 = 8" | "type_size Int32 = 4" | "type_size Int16 = 2" | "type_size Int8 = 1"
| "type_size Bool8 = 1" | "type_size (OtherType s n) = n"

definition itemsize :: "np_dtype \<Rightarrow> nat" where
  "itemsize dt = type_size (dtp dt)"

text \<open>\<open>np.dtype(np.float32)\<close> and so on: the dtype in native order.\<close>

definition native_dtype :: "np_type \<Rightarrow> np_dtype" where
  "native_dtype t = \<lparr>dtp = t, dorder = (if type_size t = 1 then NotApplicable else Native)\<rparr>"

definition newbyteorder :: "np_dtype \<Rightarrow> byteorder \<Rightarrow> np_dtype" where
  "newbyteorder dt bo =
     (if itemsize dt = 1 then dt
      else case bo of
        Native \<Rightarrow> dt\<lparr>dorder := Native\<rparr>
      | LittleOrder \<Rightarrow> dt\<lparr>dorder := Native\<rparr>
      | BigOrder \<Rightarrow> dt\<lparr>dorder := BigOrder\<rparr>
      | NotApplicable \<Rightarrow> dt)"

record ndarray =
  nd_dtype :: np_dtype
  nd_shape :: "nat list"
  nd_data :: bytes
  nd_contig :: bool
  nd_last_contig :: bool

definition nd_nbytes :: "ndarray \<Rightarrow> nat" where
  "nd_nbytes a = length (nd_data a)"

definition ndarray_ok :: "ndarray \<Rightarrow> bool" where
  "ndarray_ok a \<longleftrightarrow> nd_nbytes a = prod_list (nd_shape a) * itemsize (nd_dtype a) \<and>
     (nd_contig a \<longrightarrow> nd_last_contig a)"

definition ascontiguous :: "ndarray \<Rightarrow> ndarray" where
  "ascontiguous a = a\<lparr>nd_contig := True, nd_last_contig := True\<rparr>"

text \<open>\<open>a.view(np.uint8)\<close>, flattened: it raises when the item size changes and \<open>a\<close> is 0-d or its last
  axis is not contiguous.\<close>

definition np_view_u8 :: "ndarray \<Rightarrow> bytes res" where
  "np_view_u8 a = (if itemsize (nd_dtype a) = 1 \<or> (nd_shape a \<noteq> [] \<and> nd_last_contig a)
     then Inr (nd_data a) else Inl ValueError)"

text \<open>\<open>np.frombuffer(data, dtype).reshape(shape)\<close>\<close>

definition np_frombuffer :: "bytes \<Rightarrow> np_dtype \<Rightarrow> nat list \<Rightarrow> ndarray res" where
  "np_frombuffer data dt shape =
     (if itemsize dt \<noteq> 0 \<and> length data mod itemsize dt = 0 \<and> length data div itemsize dt = prod_list shape
      then Inr \<lparr>nd_dtype = dt, nd_shape = shape, nd_data = data, nd_contig = True,
       nd_last_contig = True\<rparr>
      else Inl ValueError)"

lemma np_frombuffer_ok:
  "itemsize dt \<noteq> 0 \<Longrightarrow> length data = prod_list shape * itemsize dt \<Longrightarrow>
   np_frombuffer data dt shape = Inr \<lparr>nd_dtype = dt, nd_shape = shape, nd_data = data, nd_contig = True,
       nd_last_contig = True\<rparr>"
  by (simp add: np_frombuffer_def)

subsection \<open>Buffers and Python values\<close>

text \<open>What \<open>object_classes\<close> names by default: arrays, bytes and \<open>JSArrayBuffer\<close> (data, dtype code).\<close>

datatype buf = NdArr ndarray | Bytes bytes | JSBuf bytes nat

datatype pykey = KStr string | KInt int

datatype pyval = PNone | PBool bool | PInt int | PFloat "64 word" | PStr string
  | PList "pyval list" | PTuple "pyval list" | PDict "(pykey \<times> pyval) list"
  | PBuf buf
  | PSpecial pyval int
  | PTreeId tree_id
  | PPlaceholder int nat int pyval

definition BYTES_JSONARRAY_CODE :: nat where "BYTES_JSONARRAY_CODE = 100"
definition BYTES_SKELETON_CODE :: nat where "BYTES_SKELETON_CODE = 101"
definition BYTES_JSONARRAY_ARRAYBUFFER_CODE :: nat where "BYTES_JSONARRAY_ARRAYBUFFER_CODE = 102"

definition jsbuf_init :: "bytes \<Rightarrow> bool \<Rightarrow> buf" where
  "jsbuf_init data to_uint8array =
     JSBuf data (if to_uint8array then BYTES_JSONARRAY_CODE else BYTES_JSONARRAY_ARRAYBUFFER_CODE)"

definition byte_size :: "pyval \<Rightarrow> nat res" where
  "byte_size v = (case v of
       PBuf (NdArr a) \<Rightarrow> Inr (nd_nbytes a)
     | PBuf (Bytes b) \<Rightarrow> Inr (length b)
     | PBuf (JSBuf b c) \<Rightarrow> Inr (length b)
     | _ \<Rightarrow> Inl NotImplementedError)"

subsection \<open>Flags\<close>

definition FLAG_ARRAY :: int where "FLAG_ARRAY = 1"
definition FLAG_JSON_ONLY :: int where "FLAG_JSON_ONLY = 2"
definition FLAG_FREEZE :: int where "FLAG_FREEZE = 4"
definition NEED_SCAN :: int where "NEED_SCAN = 1"

definition json_index_key :: string where "json_index_key = ''__jsonarray_index''"

unbundle bit_operations_syntax

definition has_flag :: "int \<Rightarrow> int \<Rightarrow> bool" where
  "has_flag flag b \<longleftrightarrow> flag AND b \<noteq> 0"

definition set_flag :: "int \<Rightarrow> int \<Rightarrow> int" where
  "set_flag flag b = flag OR b"

definition special_from_option :: "pyval \<Rightarrow> bool \<Rightarrow> bool \<Rightarrow> pyval" where
  "special_from_option data is_json_only need_freeze =
     (let flag = 0;
          flag = (if is_json_only then set_flag flag FLAG_JSON_ONLY else flag);
          flag = (if need_freeze then set_flag flag FLAG_FREEZE else flag)
      in PSpecial data flag)"

fun replace_data :: "pyval \<Rightarrow> pyval \<Rightarrow> pyval" where
  "replace_data (PSpecial d f) new = PSpecial new f"
| "replace_data v new = v"

text \<open>\<open>Placeholder.__add__\<close>, \<open>__eq__\<close>: the data field is not compared.\<close>

fun placeholder_add :: "pyval \<Rightarrow> pyval \<Rightarrow> pyval res" where
  "placeholder_add (PPlaceholder i n f d) (PPlaceholder j m g e) =
     (if i = j then Inr (PPlaceholder i (n + m) f d) else Inl AssertionError)"
| "placeholder_add _ _ = Inl AttributeError"

fun placeholder_eq :: "pyval \<Rightarrow> pyval \<Rightarrow> bool res" where
  "placeholder_eq (PPlaceholder i n f d) (PPlaceholder j m g e) = Inr (i = j \<and> n = m \<and> f = g)"
| "placeholder_eq _ _ = Inl AttributeError"

subsection \<open>Protobuf buffers\<close>

datatype pb_type = PbFloat64 | PbFloat32 | PbFloat16 | PbUInt64 | PbUInt32 | PbUInt16 | PbUInt8
  | PbInt64 | PbInt32 | PbInt16 | PbInt8 | PbBool | PbCustomBytes | PbBase64

datatype pb_order = PbLittleEndian | PbBigEndian | PbNative | PbNa

record pb_dtype =
  pb_type :: pb_type
  pb_order :: pb_order

record pb_ndarray =
  pb_shape :: "nat list"
  pb_dtype :: pb_dtype
  pb_data :: bytes

text \<open>
  The tables are keyed by native dtypes: a dtype in another byte order is not equal to any key.
\<close>

fun type_to_pb :: "np_type \<Rightarrow> pb_type option" where
  "type_to_pb UInt64 = Some PbUInt64" | "type_to_pb UInt32 = Some PbUInt32"
| "type_to_pb UInt16 = Some PbUInt16" | "type_to_pb UInt8 = Some PbUInt8"
| "type_to_pb Int64 = Some PbInt64" | "type_to_pb Int32 = Some PbInt32"
| "type_to_pb Int16 = Some PbInt16" | "type_to_pb Int8 = Some PbInt8"
| "type_to_pb Float64 = Some PbFloat64" | "type_to_pb Float32 = Some PbFloat32"
| "type_to_pb Float16 = Some PbFloat16" | "type_to_pb Bool8 = None"
| "type_to_pb (OtherType s n) = None"

definition npdtype_to_pb :: "np_dtype \<Rightarrow> pb_type res" where
  "npdtype_to_pb dt = (if dt = native_dtype (dtp dt) then of_opt KeyError (type_to_pb (dtp dt)) else Inl KeyError)"

fun inv_npdtype_to_pb :: "pb_type \<Rightarrow> np_dtype res" where
  "inv_npdtype_to_pb PbUInt64 = Inr (native_dtype UInt64)"
| "inv_npdtype_to_pb PbUInt32 = Inr (native_dtype UInt32)"
| "inv_npdtype_to_pb PbUInt16 = Inr (native_dtype UInt16)"
| "inv_npdtype_to_pb PbUInt8 = Inr (native_dtype UInt8)"
| "inv_npdtype_to_pb PbInt64 = Inr (native_dtype Int64)"
| "inv_npdtype_to_pb PbInt32 = Inr (native_dtype Int32)"
| "inv_npdtype_to_pb PbInt16 = Inr (native_dtype Int16)"
| "inv_npdtype_to_pb PbInt8 = Inr (native_dtype Int8)"
| "inv_npdtype_to_pb PbFloat64 = Inr (native_dtype Float64)"
| "inv_npdtype_to_pb PbFloat32 = Inr (native_dtype Float32)"
| "inv_npdtype_to_pb PbFloat16 = Inr (native_dtype Float16)"
| "inv_npdtype_to_pb _ = Inl KeyError"

definition npdtype_to_jsonarray :: "np_dtype \<Rightarrow> nat res" where
  "npdtype_to_jsonarray dt =
     (if dt = native_dtype (dtp dt)
      then (case dtp dt of
          Bool8 \<Rightarrow> Inr 5 | Float16 \<Rightarrow> Inr 7 | Float32 \<Rightarrow> Inr 0 | Float64 \<Rightarrow> Inr 4
        | Int8 \<Rightarrow> Inr 3 | Int16 \<Rightarrow> Inr 2 | Int32 \<Rightarrow> Inr 1 | Int64 \<Rightarrow> Inr 8
        | UInt8 \<Rightarrow> Inr 6 | UInt16 \<Rightarrow> Inr 9 | UInt32 \<Rightarrow> Inr 10 | UInt64 \<Rightarrow> Inr 11
        | OtherType s n \<Rightarrow> Inl KeyError)
      else Inl KeyError)"

definition inv_npdtype_to_jsonarray :: "nat \<Rightarrow> np_dtype res" where
  "inv_npdtype_to_jsonarray c =
     (if c = 5 then Inr (native_dtype Bool8) else if c = 7 then Inr (native_dtype Float16)
      else if c = 0 then Inr (native_dtype Float32) else if c = 4 then Inr (native_dtype Float64)
      else if c = 3 then Inr (native_dtype Int8) else if c = 2 then Inr (native_dtype Int16)
      else if c = 1 then Inr (native_dtype Int32) else if c = 8 then Inr (native_dtype Int64)
      else if c = 6 then Inr (native_dtype UInt8) else if c = 9 then Inr (native_dtype UInt16)
      else if c = 10 then Inr (native_dtype UInt32) else if c = 11 then Inr (native_dtype UInt64)
      else Inl KeyError)"

fun order_to_pb :: "byteorder \<Rightarrow> pb_order" where
  "order_to_pb Native = PbNative" | "order_to_pb LittleOrder = PbLittleEndian"
| "order_to_pb BigOrder = PbBigEndian" | "order_to_pb NotApplicable = PbNa"

fun inv_order_to_pb :: "pb_order \<Rightarrow> byteorder" where
  "inv_order_to_pb PbNative = Native" | "inv_order_to_pb PbLittleEndian = LittleOrder"
| "inv_order_to_pb PbBigEndian = BigOrder" | "inv_order_to_pb PbNa = NotApplicable"

definition bytes2pb :: "bytes \<Rightarrow> bool \<Rightarrow> pb_ndarray" where
  "bytes2pb data send_data =
     (let pb = \<lparr>pb_shape = [length data],
                pb_dtype = \<lparr>pb_type = PbCustomBytes, pb_order = PbLittleEndian\<rparr>, pb_data = []\<rparr>
      in if send_data then pb\<lparr>pb_data := data\<rparr> else pb)"

definition array2pb :: "ndarray \<Rightarrow> bool \<Rightarrow> pb_ndarray res" where
  "array2pb array send_data =
     (let array = (if length (nd_shape array) > 0 \<and> send_data
                   then (if \<not> nd_contig array then ascontiguous array else array) else array) in
      rbind (npdtype_to_pb (nd_dtype array)) (\<lambda>dtype.
      let order = order_to_pb (dorder (nd_dtype array));
          pb = \<lparr>pb_shape = nd_shape array, pb_dtype = \<lparr>pb_type = dtype, pb_order = order\<rparr>, pb_data = []\<rparr>
      in Inr (if send_data then pb\<lparr>pb_data := nd_data array\<rparr> else pb)))"

definition pb2data :: "pb_ndarray \<Rightarrow> buf res" where
  "pb2data b =
     (if pb_type (pb_dtype b) = PbCustomBytes then Inr (Bytes (pb_data b))
      else if pb_type (pb_dtype b) = PbBase64 then Inr (jsbuf_init (pb_data b) False)
      else let byte_order = inv_order_to_pb (pb_order (pb_dtype b)) in
        rbind (inv_npdtype_to_pb (pb_type (pb_dtype b))) (\<lambda>dt.
        rbind (np_frombuffer (pb_data b) (newbyteorder dt byte_order) (pb_shape b)) (\<lambda>a. Inr (NdArr a))))"

definition pb2meta :: "pb_ndarray \<Rightarrow> (nat list \<times> np_dtype) res" where
  "pb2meta b =
     (if pb_type (pb_dtype b) = PbCustomBytes then Inr (pb_shape b, native_dtype UInt8)
      else let byte_order = inv_order_to_pb (pb_order (pb_dtype b)) in
        rbind (inv_npdtype_to_pb (pb_type (pb_dtype b))) (\<lambda>dt.
        Inr (pb_shape b, newbyteorder dt byte_order)))"

definition data2pb :: "pyval \<Rightarrow> bool \<Rightarrow> pb_ndarray res" where
  "data2pb v send_data = (case v of
       PBuf (NdArr a) \<Rightarrow> array2pb a send_data
     | PBuf (Bytes b) \<Rightarrow> Inr (bytes2pb b send_data)
     | PBuf (JSBuf b c) \<Rightarrow> Inr (bytes2pb b send_data)
     | _ \<Rightarrow> Inl NotImplementedError)"

subsection \<open>The tables invert each other\<close>

lemma type_size_pos: "type_to_pb t = Some p \<Longrightarrow> 0 < type_size t"
  by (cases t) auto

lemma inv_type_to_pb:
  "type_to_pb t = Some p \<Longrightarrow> inv_npdtype_to_pb p = Inr (native_dtype t)"
  by (cases t) auto

lemma npdtype_to_pb_iff:
  "npdtype_to_pb dt = Inr p \<longleftrightarrow> dt = native_dtype (dtp dt) \<and> type_to_pb (dtp dt) = Some p"
  by (auto simp: npdtype_to_pb_def)

lemma newbyteorder_native:
  "newbyteorder (native_dtype t) (dorder (native_dtype t)) = native_dtype t"
  by (simp add: newbyteorder_def native_dtype_def itemsize_def)

lemma inv_order_order [simp]: "inv_order_to_pb (order_to_pb bo) = bo"
  by (cases bo) auto

lemma npdtype_pb_roundtrip:
  assumes "npdtype_to_pb dt = Inr p"
  shows "rbind (inv_npdtype_to_pb p) (\<lambda>d. Inr (newbyteorder d (inv_order_to_pb (order_to_pb (dorder dt))))) = Inr dt"
    and "0 < itemsize dt" and "p \<noteq> PbCustomBytes" and "p \<noteq> PbBase64"
proof -
  from assms have dt: "dt = native_dtype (dtp dt)" and t: "type_to_pb (dtp dt) = Some p"
    by (simp_all add: npdtype_to_pb_iff)
  show "rbind (inv_npdtype_to_pb p) (\<lambda>d. Inr (newbyteorder d (inv_order_to_pb (order_to_pb (dorder dt))))) = Inr dt"
    using dt by (simp add: inv_type_to_pb[OF t]) (metis newbyteorder_native)
  show "0 < itemsize dt" using type_size_pos[OF t] by (simp add: itemsize_def)
  show "p \<noteq> PbCustomBytes" "p \<noteq> PbBase64"
    using t by (cases "dtp dt"; auto)+
qed

lemma inv_npdtype_pb:
  assumes "npdtype_to_pb dt = Inr p"
  obtains d where "inv_npdtype_to_pb p = Inr d" and "newbyteorder d (dorder dt) = dt"
  using npdtype_pb_roundtrip(1)[OF assms] by (auto simp: res_simps)

lemma jsonarray_roundtrip:
  "npdtype_to_jsonarray dt = Inr c \<Longrightarrow> inv_npdtype_to_jsonarray c = Inr dt \<and> 0 < itemsize dt \<and> c < 100"
  by (cases "dtp dt")
    (auto simp: npdtype_to_jsonarray_def inv_npdtype_to_jsonarray_def itemsize_def split: if_splits)

text \<open>What the receiver gets for one buffer: arrays are contiguous, \<open>JSArrayBuffer\<close> turns into bytes.\<close>

fun recv_buf :: "buf \<Rightarrow> buf" where
  "recv_buf (NdArr a) = NdArr (ascontiguous a)"
| "recv_buf (Bytes b) = Bytes b"
| "recv_buf (JSBuf b c) = Bytes b"

fun buf_ok :: "buf \<Rightarrow> bool" where
  "buf_ok (NdArr a) \<longleftrightarrow> ndarray_ok a"
| "buf_ok _ \<longleftrightarrow> True"

lemma pb2data_data2pb:
  assumes "data2pb (PBuf b) True = Inr pb" and "buf_ok b"
  shows "pb2data pb = Inr (recv_buf b)"
proof (cases b)
  case (NdArr a)
  then obtain p where p: "npdtype_to_pb (nd_dtype a) = Inr p"
    and pb: "pb = \<lparr>pb_shape = nd_shape a, pb_dtype = \<lparr>pb_type = p, pb_order = order_to_pb (dorder (nd_dtype a))\<rparr>,
        pb_data = nd_data a\<rparr>"
    using assms(1) by (auto simp: data2pb_def array2pb_def ascontiguous_def Let_def res_simps split: if_splits)
  obtain d where d: "inv_npdtype_to_pb p = Inr d" "newbyteorder d (dorder (nd_dtype a)) = nd_dtype a"
    using inv_npdtype_pb[OF p] .
  have "np_frombuffer (nd_data a) (nd_dtype a) (nd_shape a) = Inr (ascontiguous a)"
    using assms(2) npdtype_pb_roundtrip(2)[OF p]
    by (simp add: NdArr ndarray_ok_def nd_nbytes_def np_frombuffer_ok ascontiguous_def)
  then show ?thesis
    using npdtype_pb_roundtrip(3,4)[OF p] d by (simp add: pb2data_def pb NdArr)
next
  case (Bytes x)
  then show ?thesis using assms(1) by (auto simp: data2pb_def bytes2pb_def pb2data_def)
next
  case (JSBuf x c)
  then show ?thesis using assms(1) by (auto simp: data2pb_def bytes2pb_def pb2data_def)
qed

subsection \<open>Number of chunks\<close>

definition div_up :: "nat \<Rightarrow> nat \<Rightarrow> nat" where
  "div_up a b = (a + b - 1) div b"

lemma div_up_bounds:
  assumes "0 < b"
  shows "a \<le> div_up a b * b" and "k < div_up a b \<Longrightarrow> k * b < a"
proof -
  have eq: "div_up a b * b = (a + b - 1) - (a + b - 1) mod b"
    by (simp add: div_up_def minus_mod_eq_div_mult)
  have "(a + b - 1) mod b < b" using assms by simp
  then show "a \<le> div_up a b * b" using eq assms by linarith
  show "k * b < a" if "k < div_up a b"
  proof -
    have "Suc k * b \<le> div_up a b * b" using that by (intro mult_le_mono1) simp
    also have "\<dots> \<le> a + b - 1" using eq by simp
    finally show ?thesis using assms by simp
  qed
qed

lemma less_div_up_iff: "0 < b \<Longrightarrow> k < div_up a b \<longleftrightarrow> k * b < a"
proof
  assume "0 < b" "k < div_up a b"
  then show "k * b < a" by (rule div_up_bounds(2))
next
  assume b: "0 < b" and lt: "k * b < a"
  have "a \<le> div_up a b * b" using b by (rule div_up_bounds(1))
  with lt have "k * b < div_up a b * b" by linarith
  then show "k < div_up a b" by simp
qed

end
