(* ===== verification/CoreIO_Tree.thy ===== *)
theory CoreIO_Tree
  imports CoreIO_Data
begin

text \<open>
  \<open>core/core_io.py\<close>, second part: taking the buffers out of a Python value and putting them back
  (\<open>_extract_arrays_from_data\<close>, \<open>_put_arrays_to_data\<close> and their callers).

  The skeleton is the value with every buffer replaced by a reference: a \<open>Placeholder\<close> when
  \<open>json_index\<close> is empty, else the dict \<open>{json_index: [index, 1]}\<close>. \<open>object_classes\<close> is a
  predicate. Two things are outside the model: the recursion limit, and subscripting a numpy array
  found in a skeleton (it has none: extraction takes them out; the model raises there).
\<close>

subsection \<open>Extraction\<close>

record extract_ctx =
  ec_arrays :: "pyval list"
  ec_flags :: int

definition extract_ctx_init :: extract_ctx where
  "extract_ctx_init = \<lparr>ec_arrays = [], ec_flags = 0\<rparr>"

fun default_classes :: "pyval \<Rightarrow> bool" where
  "default_classes (PBuf b) = True"
| "default_classes _ = False"

text \<open>The reference to the array \<open>e\<close>, which is appended to the context's arrays.\<close>

definition array_ref :: "string \<Rightarrow> pyval \<Rightarrow> extract_ctx \<Rightarrow> (pyval \<times> extract_ctx) res" where
  "array_ref ji e ctx =
     (let n = int (length (ec_arrays ctx)); ctx' = ctx\<lparr>ec_arrays := ec_arrays ctx @ [e]\<rparr> in
      if ji \<noteq> [] then Inr (PDict [(KStr ji, PList [PInt n, PInt 1])], ctx')
      else rbind (byte_size e) (\<lambda>b. Inr (PPlaceholder n b FLAG_ARRAY PNone, ctx')))"

definition special_ref :: "string \<Rightarrow> pyval \<Rightarrow> int \<Rightarrow> extract_ctx \<Rightarrow> (pyval \<times> extract_ctx) res" where
  "special_ref ji data flag ctx =
     Inr (if ji \<noteq> [] then PDict [(KStr ji, PList [data, PInt flag])] else PPlaceholder 0 0 flag data,
          ctx\<lparr>ec_flags := set_flag (ec_flags ctx) NEED_SCAN\<rparr>)"

fun extract_uid :: "(pyval \<Rightarrow> bool) \<Rightarrow> string \<Rightarrow> pyval \<Rightarrow> extract_ctx \<Rightarrow> (pyval \<times> extract_ctx) res"
  and extract_uid_list :: "(pyval \<Rightarrow> bool) \<Rightarrow> string \<Rightarrow> pyval list \<Rightarrow> extract_ctx \<Rightarrow> (pyval list \<times> extract_ctx) res"
  and extract_uid_items :: "(pyval \<Rightarrow> bool) \<Rightarrow> string \<Rightarrow> (pykey \<times> pyval) list \<Rightarrow> extract_ctx \<Rightarrow>
      ((pykey \<times> pyval) list \<times> extract_ctx) res" where
  "extract_uid cls ji (PList es) ctx = rbind (extract_uid_list cls ji es ctx) (\<lambda>(s, c). Inr (PList s, c))"
| "extract_uid cls ji (PTuple es) ctx = rbind (extract_uid_list cls ji es ctx) (\<lambda>(s, c). Inr (PTuple s, c))"
| "extract_uid cls ji (PDict m) ctx = rbind (extract_uid_items cls ji m ctx) (\<lambda>(s, c). Inr (PDict s, c))"
| "extract_uid cls ji (PSpecial d f) ctx = special_ref ji d f ctx"
| "extract_uid cls ji (PTreeId t) ctx = Inr (PStr (uid_encoded t), ctx)"
| "extract_uid cls ji v ctx = (if cls v then array_ref ji v ctx else Inr (v, ctx))"
| "extract_uid_list cls ji [] ctx = Inr ([], ctx)"
| "extract_uid_list cls ji (e # es) ctx =
     rbind (if cls e then array_ref ji e ctx else extract_uid cls ji e ctx) (\<lambda>(s, c).
     rbind (extract_uid_list cls ji es c) (\<lambda>(ss, c'). Inr (s # ss, c')))"
| "extract_uid_items cls ji [] ctx = Inr ([], ctx)"
| "extract_uid_items cls ji ((k, v) # m) ctx =
     rbind (if cls v then array_ref ji v ctx else extract_uid cls ji v ctx) (\<lambda>(s, c).
     rbind (extract_uid_items cls ji m c) (\<lambda>(ss, c'). Inr ((k, s) # ss, c')))"

fun extract_no_uid :: "(pyval \<Rightarrow> bool) \<Rightarrow> string \<Rightarrow> pyval \<Rightarrow> extract_ctx \<Rightarrow> (pyval \<times> extract_ctx) res"
  and extract_no_uid_list :: "(pyval \<Rightarrow> bool) \<Rightarrow> string \<Rightarrow> pyval list \<Rightarrow> extract_ctx \<Rightarrow> (pyval list \<times> extract_ctx) res"
  and extract_no_uid_items :: "(pyval \<Rightarrow> bool) \<Rightarrow> string \<Rightarrow> (pykey \<times> pyval) list \<Rightarrow> extract_ctx \<Rightarrow>
      ((pykey \<times> pyval) list \<times> extract_ctx) res" where
  "extract_no_uid cls ji (PList es) ctx = rbind (extract_no_uid_list cls ji es ctx) (\<lambda>(s, c). Inr (PList s, c))"
| "extract_no_uid cls ji (PTuple es) ctx = rbind (extract_no_uid_list cls ji es ctx) (\<lambda>(s, c). Inr (PTuple s, c))"
| "extract_no_uid cls ji (PDict m) ctx = rbind (extract_no_uid_items cls ji m ctx) (\<lambda>(s, c). Inr (PDict s, c))"
| "extract_no_uid cls ji (PSpecial d f) ctx = special_ref ji d f ctx"
| "extract_no_uid cls ji v ctx = (if cls v then array_ref ji v ctx else Inr (v, ctx))"
| "extract_no_uid_list cls ji [] ctx = Inr ([], ctx)"
| "extract_no_uid_list cls ji (e # es) ctx =
     rbind (if cls e then array_ref ji e ctx else extract_no_uid cls ji e ctx) (\<lambda>(s, c).
     rbind (extract_no_uid_list cls ji es c) (\<lambda>(ss, c'). Inr (s # ss, c')))"
| "extract_no_uid_items cls ji [] ctx = Inr ([], ctx)"
| "extract_no_uid_items cls ji ((k, v) # m) ctx =
     rbind (if cls v then array_ref ji v ctx else extract_no_uid cls ji v ctx) (\<lambda>(s, c).
     rbind (extract_no_uid_items cls ji m c) (\<lambda>(ss, c'). Inr ((k, s) # ss, c')))"

definition extract_object_from_data :: "pyval \<Rightarrow> (pyval \<Rightarrow> bool) \<Rightarrow> (pyval list \<times> pyval) res" where
  "extract_object_from_data data cls =
     rbind (extract_uid cls json_index_key data extract_ctx_init) (\<lambda>(sk, ctx). Inr (ec_arrays ctx, sk))"

text \<open>
  \<open>optree\<close> is a third-party package: when it is installed the code flattens the value with it,
  replaces the leaves and rebuilds it. \<open>opt = Some (flatten, unflatten)\<close> stands for it.
\<close>

type_synonym 't optree = "((pyval \<Rightarrow> pyval list \<times> 't) \<times> ('t \<Rightarrow> pyval list \<Rightarrow> pyval)) option"

abbreviation no_optree :: "unit optree" where
  "no_optree \<equiv> None"

fun optree_vars :: "(pyval \<Rightarrow> bool) \<Rightarrow> string \<Rightarrow> bool \<Rightarrow> pyval list \<Rightarrow> extract_ctx \<Rightarrow> (pyval list \<times> extract_ctx) res" where
  "optree_vars cls ji uid [] ctx = Inr ([], ctx)"
| "optree_vars cls ji uid (v # vs) ctx =
     rbind (if cls v then array_ref ji v ctx
            else case v of
              PSpecial d f \<Rightarrow> special_ref ji d f ctx
            | PTreeId t \<Rightarrow> Inr (if uid then PStr (uid_encoded t) else v, ctx)
            | _ \<Rightarrow> Inr (v, ctx)) (\<lambda>(s, c).
     rbind (optree_vars cls ji uid vs c) (\<lambda>(ss, c'). Inr (s # ss, c')))"

definition extract_arrays_from_data :: "'t optree \<Rightarrow> pyval \<Rightarrow> (pyval \<Rightarrow> bool) \<Rightarrow> string \<Rightarrow> bool \<Rightarrow>
    extract_ctx option \<Rightarrow> (pyval list \<times> pyval \<times> extract_ctx) res" where
  "extract_arrays_from_data opt data cls ji handle_uid external_ctx =
     (let ctx = (case external_ctx of None \<Rightarrow> extract_ctx_init | Some c \<Rightarrow> c) in
      rbind (case opt of
          Some (flatten, unflatten) \<Rightarrow>
            (case flatten data of (variables, structure) \<Rightarrow>
              rbind (optree_vars cls ji handle_uid variables ctx) (\<lambda>(vs, c). Inr (unflatten structure vs, c)))
        | None \<Rightarrow> if handle_uid then extract_uid cls ji data ctx else extract_no_uid cls ji data ctx)
      (\<lambda>(sk, c). let c' = (if ec_arrays c \<noteq> [] then c\<lparr>ec_flags := set_flag (ec_flags c) NEED_SCAN\<rparr> else c)
        in Inr (ec_arrays c', sk, c')))"

subsection \<open>Putting the arrays back\<close>

text \<open>\<open>v[i]\<close> for an integer literal, and a value used as an integer.\<close>

fun subscript :: "pyval \<Rightarrow> int \<Rightarrow> pyval res" where
  "subscript (PList es) i = pyindex es i"
| "subscript (PTuple es) i = pyindex es i"
| "subscript (PStr s) i = rbind (pyindex s i) (\<lambda>c. Inr (PStr [c]))"
| "subscript (PDict m) i = of_opt KeyError (dget m (KInt i))"
| "subscript (PBuf (Bytes b)) i = rbind (pyindex b i) (\<lambda>c. Inr (PInt (uint c)))"
| "subscript _ i = Inl TypeError"

fun as_int :: "pyval \<Rightarrow> int res" where
  "as_int (PInt n) = Inr n"
| "as_int (PBool b) = Inr (of_bool b)"
| "as_int _ = Inl TypeError"

fun is_json_index :: "string \<Rightarrow> pyval \<Rightarrow> bool" where
  "is_json_index ji (PDict m) = dmem (KStr ji) m"
| "is_json_index ji _ = False"

fun dict_items :: "pyval \<Rightarrow> (pykey \<times> pyval) list" where
  "dict_items (PDict m) = m"
| "dict_items _ = []"

definition dict_entry :: "string \<Rightarrow> pyval \<Rightarrow> pyval" where
  "dict_entry ji v = (case dget (dict_items v) (KStr ji) of Some r \<Rightarrow> r | None \<Rightarrow> PNone)"

lemma pyindex_mem: "pyindex xs i = Inr x \<Longrightarrow> x \<in> set xs"
  by (auto simp: pyindex_def Let_def split: if_splits)

lemma subscript_size: "subscript v i = Inr x \<Longrightarrow> size x \<le> size v"
proof (induction v i rule: subscript.induct)
  case (1 es i)
  then have "x \<in> set es" by (auto dest: pyindex_mem)
  then show ?case using size_list_estimation'[of x es "size x" size] by simp
next
  case (2 es i)
  then have "x \<in> set es" by (auto dest: pyindex_mem)
  then show ?case using size_list_estimation'[of x es "size x" size] by simp
next
  case (4 m i)
  then have "(KInt i, x) \<in> set m" by (auto simp: dget_def dest: map_of_SomeD)
  then show ?case
    using size_list_estimation'[of "(KInt i, x)" m "size x" "size_prod (\<lambda>_. 0) size"] by simp
qed (auto simp: res_simps)

lemma dict_entry_size:
  assumes "is_json_index ji v"
  shows "size (dict_entry ji v) < size v"
proof -
  obtain m where v: "v = PDict m" using assms by (cases v) auto
  then obtain r where "dget m (KStr ji) = Some r" using assms by (auto simp: dmem_dget)
  then have r: "(KStr ji, r) \<in> set m" "dict_entry ji v = r"
    by (auto simp: dget_def dict_entry_def v dest: map_of_SomeD)
  then show ?thesis
    using size_list_estimation'[of "(KStr ji, r)" m "size r" "size_prod (\<lambda>_. 0) size"] by (simp add: v)
qed

lemma dict_entry_size':
  "dmem (KStr ji) m \<Longrightarrow> size (dict_entry ji (PDict m)) < Suc (size_list (size_prod (\<lambda>_. 0) size) m)"
  using dict_entry_size[of ji "PDict m"] by simp

text \<open>
  \<open>put_elem\<close> is the body of the two loops (over a list and over a dict), which treat an element
  that is a reference; \<open>put_arrays\<close> is the whole function. At the top level a reference in dict
  form is a mapping like any other: the code's \<open>is_json_index\<close> test in the last branch comes after
  the mapping test and never succeeds.
\<close>

function (sequential) put_arrays :: "pyval list \<Rightarrow> string \<Rightarrow> pyval \<Rightarrow> pyval res"
  and put_elem :: "pyval list \<Rightarrow> string \<Rightarrow> pyval \<Rightarrow> pyval res"
  and put_list :: "pyval list \<Rightarrow> string \<Rightarrow> pyval list \<Rightarrow> pyval list res"
  and put_items :: "pyval list \<Rightarrow> string \<Rightarrow> (pykey \<times> pyval) list \<Rightarrow> (pykey \<times> pyval) list res" where
  "put_arrays arrs ji (PList es) = rbind (put_list arrs ji es) (\<lambda>xs. Inr (PList xs))"
| "put_arrays arrs ji (PTuple es) = rbind (put_list arrs ji es) (\<lambda>xs. Inr (PTuple xs))"
| "put_arrays arrs ji (PDict m) = rbind (put_items arrs ji m) (\<lambda>xs. Inr (PDict xs))"
| "put_arrays arrs ji (PPlaceholder i n f d) =
     (if has_flag f FLAG_ARRAY then pyindex arrs i
      else if has_flag f FLAG_FREEZE \<or> has_flag f FLAG_JSON_ONLY then Inr (PSpecial d f)
      else Inr d)"
| "put_arrays arrs ji v = Inr v"
| "put_elem arrs ji (PPlaceholder i n f d) =
     (if has_flag f FLAG_ARRAY then pyindex arrs i
      else if has_flag f FLAG_FREEZE \<or> has_flag f FLAG_JSON_ONLY then Inr (PSpecial d f)
      else put_arrays arrs ji d)"
| "put_elem arrs ji e =
     (if is_json_index ji e
      then (let r = dict_entry ji e in
        rbind (rbind (subscript r 1) as_int) (\<lambda>flag.
        if has_flag flag FLAG_ARRAY then rbind (rbind (subscript r 0) as_int) (pyindex arrs)
        else if has_flag flag FLAG_FREEZE \<or> has_flag flag FLAG_JSON_ONLY
        then rbind (subscript r 0) (\<lambda>d. Inr (PSpecial d flag))
        else rbind (subscript r 0) (\<lambda>d. put_arrays arrs ji d)))
      else put_arrays arrs ji e)"
| "put_list arrs ji [] = Inr []"
| "put_list arrs ji (e # es) =
     rbind (put_elem arrs ji e) (\<lambda>x. rbind (put_list arrs ji es) (\<lambda>xs. Inr (x # xs)))"
| "put_items arrs ji [] = Inr []"
| "put_items arrs ji ((k, v) # m) =
     rbind (put_elem arrs ji v) (\<lambda>x. rbind (put_items arrs ji m) (\<lambda>xs. Inr ((k, x) # xs)))"
  by pat_completeness auto
termination
proof (relation "measure (\<lambda>t. case t of
      Inl (Inl (_, _, v)) \<Rightarrow> 2 * size v
    | Inl (Inr (_, _, v)) \<Rightarrow> 2 * size v + 1
    | Inr (Inl (_, _, es)) \<Rightarrow> 2 * size_list size es
    | Inr (Inr (_, _, m)) \<Rightarrow> 2 * size_list (size_prod (\<lambda>_. 0) size) m)", goal_cases)
qed (auto dest!: subscript_size dict_entry_size')

subsection \<open>What extraction computes\<close>

text \<open>
  Reference functions: the buffers of a value in traversal order, its skeleton when the next array
  has index \<open>n\<close>, whether it holds a \<open>JsonSpecialData\<close>, and the value with its buffers changed.
\<close>

fun bufs :: "pyval \<Rightarrow> pyval list" and bufs_list :: "pyval list \<Rightarrow> pyval list"
  and bufs_items :: "(pykey \<times> pyval) list \<Rightarrow> pyval list" where
  "bufs (PList es) = bufs_list es"
| "bufs (PTuple es) = bufs_list es"
| "bufs (PDict m) = bufs_items m"
| "bufs (PBuf b) = [PBuf b]"
| "bufs v = []"
| "bufs_list [] = []"
| "bufs_list (e # es) = bufs e @ bufs_list es"
| "bufs_items [] = []"
| "bufs_items ((k, v) # m) = bufs v @ bufs_items m"

fun has_special :: "pyval \<Rightarrow> bool" and has_special_list :: "pyval list \<Rightarrow> bool"
  and has_special_items :: "(pykey \<times> pyval) list \<Rightarrow> bool" where
  "has_special (PList es) = has_special_list es"
| "has_special (PTuple es) = has_special_list es"
| "has_special (PDict m) = has_special_items m"
| "has_special (PSpecial d f) = True"
| "has_special v = False"
| "has_special_list [] = False"
| "has_special_list (e # es) = (has_special e \<or> has_special_list es)"
| "has_special_items [] = False"
| "has_special_items ((k, v) # m) = (has_special v \<or> has_special_items m)"

fun buf_ref :: "string \<Rightarrow> nat \<Rightarrow> buf \<Rightarrow> pyval" where
  "buf_ref ji n b = (if ji \<noteq> [] then PDict [(KStr ji, PList [PInt (int n), PInt 1])]
     else PPlaceholder (int n) (case b of NdArr a \<Rightarrow> nd_nbytes a | Bytes x \<Rightarrow> length x | JSBuf x c \<Rightarrow> length x)
       FLAG_ARRAY PNone)"

fun skel :: "string \<Rightarrow> nat \<Rightarrow> pyval \<Rightarrow> pyval" and skel_list :: "string \<Rightarrow> nat \<Rightarrow> pyval list \<Rightarrow> pyval list"
  and skel_items :: "string \<Rightarrow> nat \<Rightarrow> (pykey \<times> pyval) list \<Rightarrow> (pykey \<times> pyval) list" where
  "skel ji n (PList es) = PList (skel_list ji n es)"
| "skel ji n (PTuple es) = PTuple (skel_list ji n es)"
| "skel ji n (PDict m) = PDict (skel_items ji n m)"
| "skel ji n (PBuf b) = buf_ref ji n b"
| "skel ji n (PSpecial d f) =
     (if ji \<noteq> [] then PDict [(KStr ji, PList [d, PInt f])] else PPlaceholder 0 0 f d)"
| "skel ji n v = v"
| "skel_list ji n [] = []"
| "skel_list ji n (e # es) = skel ji n e # skel_list ji (n + length (bufs e)) es"
| "skel_items ji n [] = []"
| "skel_items ji n ((k, v) # m) = (k, skel ji n v) # skel_items ji (n + length (bufs v)) m"

fun map_leaf :: "(pyval \<Rightarrow> pyval) \<Rightarrow> pyval \<Rightarrow> pyval" and map_leaf_list :: "(pyval \<Rightarrow> pyval) \<Rightarrow> pyval list \<Rightarrow> pyval list"
  and map_leaf_items :: "(pyval \<Rightarrow> pyval) \<Rightarrow> (pykey \<times> pyval) list \<Rightarrow> (pykey \<times> pyval) list" where
  "map_leaf f (PList es) = PList (map_leaf_list f es)"
| "map_leaf f (PTuple es) = PTuple (map_leaf_list f es)"
| "map_leaf f (PDict m) = PDict (map_leaf_items f m)"
| "map_leaf f (PBuf b) = f (PBuf b)"
| "map_leaf f v = v"
| "map_leaf_list f [] = []"
| "map_leaf_list f (e # es) = map_leaf f e # map_leaf_list f es"
| "map_leaf_items f [] = []"
| "map_leaf_items f ((k, v) # m) = (k, map_leaf f v) # map_leaf_items f m"

text \<open>
  Plain user data for the key \<open>ji\<close>: no internal \<open>Placeholder\<close>, no dict that uses \<open>ji\<close> itself as a
  key, and special data with the flag \<open>FREEZE\<close> or \<open>JSON_ONLY\<close> and not \<open>ARRAY\<close>.
\<close>

fun plain :: "string \<Rightarrow> pyval \<Rightarrow> bool" and plain_list :: "string \<Rightarrow> pyval list \<Rightarrow> bool"
  and plain_items :: "string \<Rightarrow> (pykey \<times> pyval) list \<Rightarrow> bool" where
  "plain ji (PList es) = plain_list ji es"
| "plain ji (PTuple es) = plain_list ji es"
| "plain ji (PDict m) = (dict_ok m \<and> plain_items ji m)"
| "plain ji (PPlaceholder i n f d) = False"
| "plain ji (PSpecial d f) =
     (\<not> has_flag f FLAG_ARRAY \<and> (has_flag f FLAG_FREEZE \<or> has_flag f FLAG_JSON_ONLY))"
| "plain ji v = True"
| "plain_list ji [] = True"
| "plain_list ji (e # es) = (plain ji e \<and> plain_list ji es)"
| "plain_items ji [] = True"
| "plain_items ji ((k, v) # m) = (k \<noteq> KStr ji \<and> plain ji v \<and> plain_items ji m)"

definition mark :: "bool \<Rightarrow> extract_ctx \<Rightarrow> pyval list \<Rightarrow> extract_ctx" where
  "mark b ctx xs = \<lparr>ec_arrays = ec_arrays ctx @ xs,
     ec_flags = (if b then set_flag (ec_flags ctx) NEED_SCAN else ec_flags ctx)\<rparr>"

lemma set_flag_idem [simp]: "set_flag (set_flag f b) b = set_flag f b"
  by (simp add: set_flag_def or.assoc)

lemma set_flag_neq [simp]: "set_flag f NEED_SCAN \<noteq> 0"
  by (simp add: set_flag_def NEED_SCAN_def or_eq_0_iff)

lemma mark_mark [simp]: "mark b (mark c ctx xs) ys = mark (b \<or> c) ctx (xs @ ys)"
  by (auto simp: mark_def)

lemma mark_nothing [simp]: "mark False ctx [] = ctx"
  by (simp add: mark_def)

lemma length_mark [simp]: "length (ec_arrays (mark b ctx xs)) = length (ec_arrays ctx) + length xs"
  by (simp add: mark_def)

lemma array_ref_buf: "array_ref ji (PBuf b) ctx = Inr (buf_ref ji (length (ec_arrays ctx)) b, mark False ctx [PBuf b])"
  by (cases b) (simp_all add: array_ref_def byte_size_def mark_def)

lemma special_ref_eq: "special_ref ji d f ctx = Inr (skel ji n (PSpecial d f), mark True ctx [])"
  by (simp add: special_ref_def mark_def)

lemma extract_no_uid_elem:
  "(if default_classes e then array_ref ji e ctx else extract_no_uid default_classes ji e ctx) =
   extract_no_uid default_classes ji e ctx"
  by (cases e) auto

lemma extract_no_uid_buf:
  "extract_no_uid default_classes ji (PBuf b) ctx =
     Inr (buf_ref ji (length (ec_arrays ctx)) b, mark False ctx [PBuf b])"
  by (simp add: array_ref_buf)

lemma extract_no_uid_eq:
  "cls = default_classes \<Longrightarrow> extract_no_uid cls ji d ctx =
     Inr (skel ji (length (ec_arrays ctx)) d, mark (has_special d) ctx (bufs d))"
  "cls = default_classes \<Longrightarrow> extract_no_uid_list cls ji es ctx =
     Inr (skel_list ji (length (ec_arrays ctx)) es, mark (has_special_list es) ctx (bufs_list es))"
  "cls = default_classes \<Longrightarrow> extract_no_uid_items cls ji m ctx =
     Inr (skel_items ji (length (ec_arrays ctx)) m, mark (has_special_items m) ctx (bufs_items m))"
proof (induction cls ji d ctx and cls ji es ctx and cls ji m ctx
    rule: extract_no_uid_extract_no_uid_list_extract_no_uid_items.induct)
  case (4 cls ji d f ctx)
  show ?case by (simp add: special_ref_eq[where n = "length (ec_arrays ctx)"])
next
  case (7 cls ji e es ctx)
  have "extract_no_uid default_classes ji e ctx =
      Inr (skel ji (length (ec_arrays ctx)) e, mark (has_special e) ctx (bufs e))"
    using 7(1,3) by (cases e) (simp_all add: array_ref_buf del: buf_ref.simps)
  moreover from this have "extract_no_uid_list cls ji es (mark (has_special e) ctx (bufs e)) =
      Inr (skel_list ji (length (ec_arrays ctx) + length (bufs e)) es,
           mark (has_special e \<or> has_special_list es) ctx (bufs e @ bufs_list es))"
    using 7(2)[OF _ refl 7(3), unfolded 7(3) extract_no_uid_elem, of "skel ji (length (ec_arrays ctx)) e" "mark (has_special e) ctx (bufs e)"]
    by (simp add: 7(3) extract_no_uid_elem disj_commute)
  ultimately show ?case by (simp add: 7(3) extract_no_uid_elem)
next
  case (9 cls ji k v m ctx)
  have "extract_no_uid default_classes ji v ctx =
      Inr (skel ji (length (ec_arrays ctx)) v, mark (has_special v) ctx (bufs v))"
    using 9(1,3) by (cases v) (simp_all add: array_ref_buf del: buf_ref.simps)
  moreover from this have "extract_no_uid_items cls ji m (mark (has_special v) ctx (bufs v)) =
      Inr (skel_items ji (length (ec_arrays ctx) + length (bufs v)) m,
           mark (has_special v \<or> has_special_items m) ctx (bufs v @ bufs_items m))"
    using 9(2)[OF _ refl 9(3), unfolded 9(3) extract_no_uid_elem, of "skel ji (length (ec_arrays ctx)) v" "mark (has_special v) ctx (bufs v)"]
    by (simp add: 9(3) extract_no_uid_elem disj_commute)
  ultimately show ?case by (simp add: 9(3) extract_no_uid_elem)
qed (auto simp: array_ref_buf extract_no_uid_elem simp del: buf_ref.simps)

text \<open>With the tree ids turned into their strings first, both extractions are the same.\<close>

fun uid_strings :: "pyval \<Rightarrow> pyval" and uid_strings_list :: "pyval list \<Rightarrow> pyval list"
  and uid_strings_items :: "(pykey \<times> pyval) list \<Rightarrow> (pykey \<times> pyval) list" where
  "uid_strings (PList es) = PList (uid_strings_list es)"
| "uid_strings (PTuple es) = PTuple (uid_strings_list es)"
| "uid_strings (PDict m) = PDict (uid_strings_items m)"
| "uid_strings (PTreeId t) = PStr (uid_encoded t)"
| "uid_strings v = v"
| "uid_strings_list [] = []"
| "uid_strings_list (e # es) = uid_strings e # uid_strings_list es"
| "uid_strings_items [] = []"
| "uid_strings_items ((k, v) # m) = (k, uid_strings v) # uid_strings_items m"

lemma default_classes_uid [simp]: "default_classes (uid_strings v) = default_classes v"
  by (cases v) auto

lemma uid_strings_buf: "default_classes v \<Longrightarrow> uid_strings v = v"
  by (cases v) auto

lemma extract_uid_eq:
  "cls = default_classes \<Longrightarrow> extract_uid cls ji d ctx = extract_no_uid cls ji (uid_strings d) ctx"
  "cls = default_classes \<Longrightarrow> extract_uid_list cls ji es ctx = extract_no_uid_list cls ji (uid_strings_list es) ctx"
  "cls = default_classes \<Longrightarrow> extract_uid_items cls ji m ctx = extract_no_uid_items cls ji (uid_strings_items m) ctx"
proof (induction cls ji d ctx and cls ji es ctx and cls ji m ctx
    rule: extract_uid_extract_uid_list_extract_uid_items.induct)
qed (auto intro!: rbind_cong simp: uid_strings_buf split: if_splits)

subsection \<open>Putting back what was extracted\<close>

lemma has_flag_array [simp]: "has_flag 1 FLAG_ARRAY" "has_flag FLAG_ARRAY FLAG_ARRAY"
  by (simp_all add: has_flag_def FLAG_ARRAY_def)

lemma pyindex_middle: "pyindex (pre @ x # post) (int (length pre)) = Inr x"
  by (simp add: pyindex_def)

lemma pyindex_literal [simp]: "pyindex (x # xs) 0 = Inr x" "pyindex (x # y # xs) 1 = Inr y"
  by (simp_all add: pyindex_def)

lemma put_buf_ref:
  assumes "ji \<noteq> [] \<Longrightarrow> k = ji"
  shows "put_elem (pre @ x # post) k (buf_ref ji (length pre) b) = Inr x"
  using assms by (auto simp: dict_entry_def pyindex_middle)

lemma put_special_ref:
  assumes "ji \<noteq> [] \<Longrightarrow> k = ji" and "plain k (PSpecial d f)"
  shows "put_elem arrs k (skel ji n (PSpecial d f)) = Inr (PSpecial d f)"
  using assms by (auto simp: dict_entry_def)

lemma dmem_skel_items: "plain_items k m \<Longrightarrow> \<not> dmem (KStr k) (skel_items ji n m)"
  by (induction m arbitrary: n rule: induct_list012) (auto simp: dmem_def)

lemma put_skel:
  "(ji \<noteq> [] \<Longrightarrow> k = ji) \<Longrightarrow> plain k d \<Longrightarrow> n = length pre \<Longrightarrow>
     put_elem (pre @ map f (bufs d) @ post) k (skel ji n d) = Inr (map_leaf f d)"
  "(ji \<noteq> [] \<Longrightarrow> k = ji) \<Longrightarrow> plain_list k es \<Longrightarrow> n = length pre \<Longrightarrow>
     put_list (pre @ map f (bufs_list es) @ post) k (skel_list ji n es) = Inr (map_leaf_list f es)"
  "(ji \<noteq> [] \<Longrightarrow> k = ji) \<Longrightarrow> plain_items k m \<Longrightarrow> n = length pre \<Longrightarrow>
     put_items (pre @ map f (bufs_items m) @ post) k (skel_items ji n m) = Inr (map_leaf_items f m)"
proof (induction ji n d and ji n es and ji n m arbitrary: pre post and pre post and pre post
    rule: skel_skel_list_skel_items.induct)
  case (4 ji n b)
  then show ?case using put_buf_ref[of ji k pre "f (PBuf b)" post b] by (simp del: buf_ref.simps)
next
  case (5 ji n d f')
  then show ?case using put_special_ref[of ji k d f'] by (simp del: skel.simps)
next
  case (3 ji n m)
  then show ?case using dmem_skel_items[of k m ji n] by (simp add: dmem_def)
next
  case (8 ji n e es)
  from 8(1)[of pre "map f (bufs_list es) @ post"] 8(2)[of "pre @ map f (bufs e)" post] 8(3-)
  show ?case by simp
next
  case (10 ji n k' v m)
  from 10(1)[of pre "map f (bufs_items m) @ post"] 10(2)[of "pre @ map f (bufs v)" post] 10(3-)
  show ?case by simp
qed simp_all

text \<open>JSON has no tuples: \<open>json.loads (json.dumps x)\<close> is \<open>x\<close> with its tuples turned into lists.\<close>

fun untuple :: "pyval \<Rightarrow> pyval" and untuple_list :: "pyval list \<Rightarrow> pyval list"
  and untuple_items :: "(pykey \<times> pyval) list \<Rightarrow> (pykey \<times> pyval) list" where
  "untuple (PList es) = PList (untuple_list es)"
| "untuple (PTuple es) = PList (untuple_list es)"
| "untuple (PDict m) = PDict (untuple_items m)"
| "untuple (PSpecial d f) = PSpecial (untuple d) f"
| "untuple v = v"
| "untuple_list [] = []"
| "untuple_list (e # es) = untuple e # untuple_list es"
| "untuple_items [] = []"
| "untuple_items ((k, v) # m) = (k, untuple v) # untuple_items m"

lemma untuple_list_map: "untuple_list es = map untuple es"
  by (induction es) auto

lemma untuple_items_map: "untuple_items m = map (\<lambda>(k, v). (k, untuple v)) m"
  by (induction m) auto

lemma dkeys_untuple [simp]: "dkeys (untuple_items m) = dkeys m"
  by (induction m) auto

lemma dict_ok_untuple [simp]: "dict_ok (untuple_items m) = dict_ok m"
  by (simp add: dict_ok_def)

lemma has_special_untuple:
  "has_special (untuple d) = has_special d"
  "has_special_list (untuple_list es) = has_special_list es"
  "has_special_items (untuple_items m) = has_special_items m"
  by (induction d and es and m rule: has_special_has_special_list_has_special_items.induct) auto

lemma bufs_untuple [simp]:
  "bufs (untuple d) = bufs d" "bufs_list (untuple_list es) = bufs_list es"
  "bufs_items (untuple_items m) = bufs_items m"
  by (induction d and es and m rule: bufs_bufs_list_bufs_items.induct) auto

lemma untuple_skel:
  "ji \<noteq> [] \<Longrightarrow> untuple (skel ji n d) = skel ji n (untuple d)"
  "ji \<noteq> [] \<Longrightarrow> untuple_list (skel_list ji n es) = skel_list ji n (untuple_list es)"
  "ji \<noteq> [] \<Longrightarrow> untuple_items (skel_items ji n m) = skel_items ji n (untuple_items m)"
  by (induction ji n d and ji n es and ji n m rule: skel_skel_list_skel_items.induct) auto

lemma plain_untuple:
  "plain ji d \<Longrightarrow> plain ji (untuple d)" "plain_list ji es \<Longrightarrow> plain_list ji (untuple_list es)"
  "plain_items ji m \<Longrightarrow> plain_items ji (untuple_items m)"
  by (induction ji d and ji es and ji m rule: plain_plain_list_plain_items.induct) auto

text \<open>At the top level, a reference in dict form is not recognised; everything else is.\<close>

fun bare_ref :: "pyval \<Rightarrow> bool" where
  "bare_ref (PBuf b) = True"
| "bare_ref (PSpecial d f) = True"
| "bare_ref _ = False"

lemma put_arrays_skel:
  assumes "ji \<noteq> [] \<Longrightarrow> k = ji" and "ji \<noteq> [] \<Longrightarrow> \<not> bare_ref d" and "plain k d"
  shows "put_arrays arrs k (skel ji n d) = put_elem arrs k (skel ji n d)"
proof (cases d)
  case (PDict m)
  then show ?thesis using dmem_skel_items[of k m ji n] assms(3) by (simp add: dmem_def)
qed (use assms in auto)

lemma put_arrays_extracted:
  assumes "ji \<noteq> [] \<Longrightarrow> k = ji" and "ji \<noteq> [] \<Longrightarrow> \<not> bare_ref d" and "plain k d"
  shows "put_arrays (map f (bufs d)) k (skel ji 0 d) = Inr (map_leaf f d)"
  using put_skel(1)[of ji k d 0 "[]" f "[]"] put_arrays_skel[of ji k d] assms by simp

lemma map_leaf_id:
  "map_leaf (\<lambda>x. x) d = d" "map_leaf_list (\<lambda>x. x) es = es" "map_leaf_items (\<lambda>x. x) m = m"
proof -
  have "f = (\<lambda>x. x) \<Longrightarrow> map_leaf f d = d" "f = (\<lambda>x. x) \<Longrightarrow> map_leaf_list f es = es"
    "f = (\<lambda>x. x) \<Longrightarrow> map_leaf_items f m = m" for f
    by (induction f d and f es and f m rule: map_leaf_map_leaf_list_map_leaf_items.induct) auto
  then show "map_leaf (\<lambda>x. x) d = d" "map_leaf_list (\<lambda>x. x) es = es" "map_leaf_items (\<lambda>x. x) m = m"
    by auto
qed

lemma skel_no_bufs:
  "bufs d = [] \<Longrightarrow> \<not> has_special d \<Longrightarrow> skel ji n d = d"
  "bufs_list es = [] \<Longrightarrow> \<not> has_special_list es \<Longrightarrow> skel_list ji n es = es"
  "bufs_items m = [] \<Longrightarrow> \<not> has_special_items m \<Longrightarrow> skel_items ji n m = m"
  by (induction ji n d and ji n es and ji n m rule: skel_skel_list_skel_items.induct) auto

lemma bufs_uid [simp]:
  "bufs (uid_strings d) = bufs d" "bufs_list (uid_strings_list es) = bufs_list es"
  "bufs_items (uid_strings_items m) = bufs_items m"
  by (induction d and es and m rule: bufs_bufs_list_bufs_items.induct) auto

lemma has_special_uid [simp]:
  "has_special (uid_strings d) = has_special d"
  "has_special_list (uid_strings_list es) = has_special_list es"
  "has_special_items (uid_strings_items m) = has_special_items m"
  by (induction d and es and m rule: has_special_has_special_list_has_special_items.induct) auto

text \<open>The value the skeleton stands for: the data, with tree ids as strings when they are handled.\<close>

definition sent_value :: "bool \<Rightarrow> pyval \<Rightarrow> pyval" where
  "sent_value uid d = (if uid then uid_strings d else d)"

lemma extract_arrays_eq:
  "extract_arrays_from_data no_optree d default_classes ji uid None =
     Inr (bufs d, skel ji 0 (sent_value uid d),
       \<lparr>ec_arrays = bufs d,
        ec_flags = (if has_special d \<or> bufs d \<noteq> [] then NEED_SCAN else 0)\<rparr>)"
  by (auto simp: extract_arrays_from_data_def Let_def extract_uid_eq extract_no_uid_eq sent_value_def
      extract_ctx_init_def mark_def set_flag_def NEED_SCAN_def)

subsection \<open>Properties\<close>

text \<open>
  C17: putting the extracted arrays back into the skeleton gives the data again, for placeholders
  and for dict references, for any nesting of lists, tuples and dicts. With dict references the
  data must not be a bare buffer or special value.
\<close>

theorem extract_put_roundtrip:
  assumes "plain k (sent_value uid d)" and "ji \<noteq> [] \<longrightarrow> k = ji \<and> \<not> bare_ref d"
  shows "rbind (extract_arrays_from_data no_optree d default_classes ji uid None)
           (\<lambda>(arrays, skeleton, ctx). put_arrays arrays k skeleton) = Inr (sent_value uid d)"
proof -
  have "bufs d = bufs (sent_value uid d)" by (simp add: sent_value_def)
  moreover have "bare_ref (sent_value uid d) = bare_ref d" by (cases d) (auto simp: sent_value_def)
  ultimately show ?thesis
    using put_arrays_extracted[of ji k "sent_value uid d" "\<lambda>x. x"] assms
    by (simp add: extract_arrays_eq map_leaf_id del: bufs_uid)
qed

theorem extract_put_roundtrip_witness:
  "rbind (extract_arrays_from_data no_optree
      (PDict [(KStr ''a'', PTuple [PBuf (Bytes [1, 2]), PInt 5]), (KStr ''b'', PBuf (JSBuf [] 102)),
              (KStr ''c'', PList [PSpecial PNone 4])])
      default_classes json_index_key True None)
    (\<lambda>(arrays, skeleton, ctx). put_arrays arrays json_index_key skeleton) =
   Inr (PDict [(KStr ''a'', PTuple [PBuf (Bytes [1, 2]), PInt 5]), (KStr ''b'', PBuf (JSBuf [] 102)),
              (KStr ''c'', PList [PSpecial PNone 4])])"
  using extract_put_roundtrip[of json_index_key True "PDict [(KStr ''a'', PTuple [PBuf (Bytes [1, 2]), PInt 5]),
      (KStr ''b'', PBuf (JSBuf [] 102)), (KStr ''c'', PList [PSpecial PNone 4])]" json_index_key]
  by (simp add: sent_value_def json_index_key_def dict_ok_def has_flag_def FLAG_ARRAY_def FLAG_FREEZE_def)

text \<open>
  The context's flag \<open>NEED_SCAN\<close> is set exactly when the data holds a buffer or special data; a
  receiver that sees it unset may use the skeleton as it is.
\<close>

lemma need_scan_exact:
  "case extract_arrays_from_data no_optree d default_classes ji uid None of
     Inl e \<Rightarrow> False
   | Inr (arrays, skeleton, ctx) \<Rightarrow>
       arrays = bufs d \<and> (has_flag (ec_flags ctx) NEED_SCAN = (bufs d \<noteq> [] \<or> has_special d)) \<and>
       (has_flag (ec_flags ctx) NEED_SCAN \<or> skeleton = sent_value uid d)"
  by (auto simp: extract_arrays_eq has_flag_def NEED_SCAN_def sent_value_def skel_no_bufs)

lemma need_scan_exact_witness:
  "case extract_arrays_from_data no_optree (PList [PInt 1, PBuf (Bytes [7])]) default_classes json_index_key False None of
     Inl e \<Rightarrow> False
   | Inr (arrays, skeleton, ctx) \<Rightarrow> arrays = [PBuf (Bytes [7])] \<and> has_flag (ec_flags ctx) NEED_SCAN"
  using need_scan_exact[where d = "PList [PInt 1, PBuf (Bytes [7])]" and ji = json_index_key and uid = False]
  by (simp split: sum.splits prod.splits)

text \<open>
  A bare array sent with dict references (\<open>JsonArray\<close>, \<open>MessagePackArray\<close>) does not come back:
  whatever the arrays are, the receiver gets the reference dict itself.
\<close>

lemma bare_array_not_restored:
  assumes "ji \<noteq> []"
  shows "rbind (extract_arrays_from_data no_optree (PBuf b) default_classes ji uid None)
           (\<lambda>(arrays, skeleton, ctx). put_arrays arrays ji skeleton) =
         Inr (PDict [(KStr ji, PList [PInt 0, PInt 1])])"
  using assms by (simp add: extract_arrays_eq sent_value_def)

lemma bare_array_not_restored_witness:
  "rbind (extract_arrays_from_data no_optree (PBuf (Bytes [7])) default_classes json_index_key False None)
     (\<lambda>(arrays, skeleton, ctx). put_arrays arrays json_index_key skeleton) =
   Inr (PDict [(KStr json_index_key, PList [PInt 0, PInt 1])])"
  by (rule bare_array_not_restored) (simp add: json_index_key_def)

end
