(* ===== verification/CoreIO_Pb.thy ===== *)
theory CoreIO_Pb
  imports CoreIO_Tree
begin

text \<open>
  \<open>core/core_io.py\<close>, third part: whole messages. \<open>data_to_pb\<close>/\<open>data_from_pb\<close> (unary calls),
  \<open>data_to_json\<close>/\<open>data_from_json\<close>, \<open>data_to_pb_shmem\<close>/\<open>data_from_pb_shmem\<close> (shared memory),
  \<open>dumps\<close>/\<open>loads\<close> (one buffer) and \<open>dumps_arraybuf\<close>/\<open>loads_arraybuf\<close>.

  The serialisers (\<open>json\<close>, \<open>msgpack\<close>, \<open>pickle\<close>) and protobuf's wire format are parameters: a
  \<open>codec\<close> has an encoder and a decoder per library. JSON text is ASCII, so it is a byte list.
\<close>

subsection \<open>Serialisers\<close>

datatype lib = JsonLib | MsgpackLib | PickleLib

record codec =
  enc :: "lib \<Rightarrow> pyval \<Rightarrow> bytes res"
  dec :: "lib \<Rightarrow> bytes \<Rightarrow> pyval res"

definition encode_mask :: int where "encode_mask = 255"
definition encode_array_mask :: int where "encode_array_mask = 240"
definition method_json_array :: int where "method_json_array = 16"

definition method_lib :: "int \<Rightarrow> lib res" where
  "method_lib m = (if m = 1 \<or> m = 16 then Inr JsonLib
     else if m = 3 \<or> m = 48 then Inr MsgpackLib
     else if m = 2 \<or> m = 32 then Inr PickleLib
     else Inl KeyError)"

definition method_dump :: "codec \<Rightarrow> int \<Rightarrow> pyval \<Rightarrow> bytes res" where
  "method_dump c m x = rbind (method_lib m) (\<lambda>l. enc c l x)"

definition method_load :: "codec \<Rightarrow> int \<Rightarrow> bytes \<Rightarrow> pyval res" where
  "method_load c m x = rbind (method_lib m) (\<lambda>l. dec c l x)"

definition dumps_method :: "codec \<Rightarrow> pyval \<Rightarrow> int \<Rightarrow> bytes res" where
  "dumps_method c x m = method_dump c (m AND encode_mask) x"

definition loads_method :: "codec \<Rightarrow> bytes \<Rightarrow> int \<Rightarrow> pyval res" where
  "loads_method c x m = method_load c (m AND encode_mask) x"

definition enable_json_index :: "int \<Rightarrow> bool" where
  "enable_json_index m \<longleftrightarrow> m = 16 \<or> m = 48"

text \<open>A decoded buffer used as bytes: \<open>loads\<close> also accepts an array's buffer.\<close>

fun buf_bytes :: "buf \<Rightarrow> bytes" where
  "buf_bytes (NdArr a) = nd_data a"
| "buf_bytes (Bytes b) = b"
| "buf_bytes (JSBuf b c) = b"

subsection \<open>Unary calls\<close>

definition data_to_pb :: "codec \<Rightarrow> 't optree \<Rightarrow> pyval \<Rightarrow> int \<Rightarrow> pb_ndarray list res" where
  "data_to_pb c opt data method =
     (let method = method AND encode_mask in
      if method AND encode_array_mask \<noteq> 0
      then rbind (extract_arrays_from_data opt data default_classes
               (if enable_json_index method then json_index_key else []) False None) (\<lambda>(arrays, skeleton, _).
           rbind (method_dump c method skeleton) (\<lambda>b.
           rmap_list (\<lambda>a. data2pb a True) (arrays @ [PBuf (Bytes b)])))
      else rbind (method_dump c method data) (\<lambda>b.
           rbind (data2pb (PBuf (Bytes b)) True) (\<lambda>p. Inr [p])))"

definition data_from_pb :: "codec \<Rightarrow> pb_ndarray list \<Rightarrow> int \<Rightarrow> pyval res" where
  "data_from_pb c bs method =
     (let method = method AND encode_mask in
      if method AND encode_array_mask \<noteq> 0
      then rbind (rmap_list pb2data bs) (\<lambda>results_raw.
           if results_raw = [] then Inl IndexError
           else rbind (method_load c method (buf_bytes (last results_raw))) (\<lambda>skeleton.
             put_arrays (map PBuf (butlast results_raw))
               (if enable_json_index method then json_index_key else []) skeleton))
      else rbind (rmap_list pb2data bs) (\<lambda>results_raw.
           if results_raw = [] then Inl IndexError
           else method_load c method (buf_bytes (last results_raw))))"

definition data_to_json :: "codec \<Rightarrow> 't optree \<Rightarrow> pyval \<Rightarrow> int \<Rightarrow> (pb_ndarray list \<times> bytes) res" where
  "data_to_json c opt data method =
     (let method = method AND encode_mask in
      rbind (if method = method_json_array
             then rbind (extract_arrays_from_data opt data default_classes json_index_key False None)
                    (\<lambda>(arrays, decoupled, _). rbind (rmap_list (\<lambda>a. data2pb a True) arrays) (\<lambda>as. Inr (as, decoupled)))
             else Inr ([], data))
      (\<lambda>(arrays, decoupled). rbind (enc c JsonLib decoupled) (\<lambda>s. Inr (arrays, s))))"

definition data_from_json :: "codec \<Rightarrow> pb_ndarray list \<Rightarrow> bytes \<Rightarrow> int \<Rightarrow> pyval res" where
  "data_from_json c bs data method =
     rbind (rmap_list pb2data bs) (\<lambda>arrays.
     rbind (dec c JsonLib data) (\<lambda>skeleton.
     if method AND encode_mask = method_json_array
     then put_arrays (map PBuf arrays) json_index_key skeleton else Inr skeleton))"

subsection \<open>Arrays in a shared buffer\<close>

definition align_offset :: "nat \<Rightarrow> int \<Rightarrow> nat" where
  "align_offset offset n = (if n \<le> 0 then offset else nat (n * ((int offset + n - 1) div n)))"

text \<open>
  Writing to a slice of the buffer: through a memoryview both sides must have the same length;
  numpy also repeats a single byte over the slice. A slice is clipped to the buffer.
\<close>

definition view_assign :: "bytes \<Rightarrow> nat \<Rightarrow> bytes \<Rightarrow> bytes res" where
  "view_assign mem start data =
     (if length (slice mem start (start + length data)) = length data
      then Inr (if data = [] then mem else blit mem start data) else Inl ValueError)"

definition np_assign :: "bytes \<Rightarrow> nat \<Rightarrow> bytes \<Rightarrow> bytes res" where
  "np_assign mem start data =
     (let n = length (slice mem start (start + length data)) in
      if n = length data then Inr (if data = [] then mem else blit mem start data)
      else if length data = 1 then Inr mem
      else Inl ValueError)"

text \<open>What is copied for one array; \<open>True\<close> marks bytes objects, which never use the numpy copy.\<close>

definition shm_source :: "pyval \<Rightarrow> (bool \<times> bytes) res" where
  "shm_source v = (case v of
       PBuf (Bytes b) \<Rightarrow> Inr (True, b)
     | PBuf (JSBuf b c) \<Rightarrow> Inr (True, b)
     | PBuf (NdArr a) \<Rightarrow> rbind (np_view_u8 a) (\<lambda>d. Inr (False, d))
     | _ \<Rightarrow> Inl AttributeError)"

fun shm_write :: "bool \<Rightarrow> int \<Rightarrow> (bool \<times> bytes) list \<Rightarrow> nat \<Rightarrow> (bytes, nat) act" where
  "shm_write mt al [] start mem = (Inr start, mem)"
| "shm_write mt al ((is_bytes, d) # ds) start mem =
     (let start = align_offset start al in
      case (if \<not> is_bytes \<and> mt then np_assign mem start d else view_assign mem start d) of
        Inl e \<Rightarrow> (Inl e, mem)
      | Inr mem' \<Rightarrow> shm_write mt al ds (start + length d) mem')"

text \<open>
  \<open>data_to_pb_shmem\<close>: the size check adds up the array sizes and the skeleton without the alignment
  gaps. For a non-contiguous array the code replaces the list entry by a contiguous copy but
  copies from a view of the original. \<open>skb\<close> is the pickled skeleton.
\<close>

definition shm_body :: "bool \<Rightarrow> int \<Rightarrow> pyval list \<Rightarrow> bytes \<Rightarrow> pb_ndarray list \<Rightarrow> (bytes, pb_ndarray list) act" where
  "shm_body mt al arrays skb pbs mem =
     (case rmap_list shm_source arrays of
        Inl e \<Rightarrow> (Inl e, mem)
      | Inr srcs \<Rightarrow>
          if sum_list (map (length \<circ> snd) srcs) + length skb > length mem then (Inl ValueError, mem)
          else abind (shm_write mt al srcs 0) (\<lambda>start mem'.
            case np_assign mem' start skb of
              Inl e \<Rightarrow> (Inl e, mem')
            | Inr mem'' \<Rightarrow> (Inr pbs, mem'')) mem)"

definition data_to_pb_shmem :: "codec \<Rightarrow> 't optree \<Rightarrow> pyval \<Rightarrow> bool \<Rightarrow> int \<Rightarrow> (bytes, pb_ndarray list) act" where
  "data_to_pb_shmem c opt data multi_thread align_nbit mem =
     (case rbind (extract_arrays_from_data opt data default_classes [] False None) (\<lambda>(arrays, skeleton, _).
           rbind (enc c PickleLib skeleton) (\<lambda>skb.
           rbind (rmap_list (\<lambda>a. data2pb a False) (arrays @ [PBuf (Bytes skb)])) (\<lambda>pbs.
           Inr (arrays, skb, pbs)))) of
        Inl e \<Rightarrow> (Inl e, mem)
      | Inr (arrays, skb, pbs) \<Rightarrow> shm_body multi_thread align_nbit arrays skb pbs mem)"

text \<open>Reading back: every meta has a dtype (\<open>pb2meta\<close> gives bytes the dtype \<open>uint8\<close>).\<close>

fun shm_read :: "(nat list \<times> np_dtype \<Rightarrow> nat res) \<Rightarrow> int \<Rightarrow> bytes \<Rightarrow> (nat list \<times> np_dtype) list \<Rightarrow> nat \<Rightarrow>
    (pyval list \<times> nat) res" where
  "shm_read len al mem [] start = Inr ([], start)"
| "shm_read len al mem ((shape, dt) # ms) start =
     (let start = align_offset start al in
      rbind (len (shape, dt)) (\<lambda>n.
      rbind (np_frombuffer (slice mem start (start + n)) dt shape) (\<lambda>a.
      rbind (shm_read len al mem ms (start + n)) (\<lambda>(as, e). Inr (PBuf (NdArr a) # as, e)))))"

definition prod_len :: "nat list \<times> np_dtype \<Rightarrow> nat res" where
  "prod_len m = Inr (prod_list (fst m) * itemsize (snd m))"

text \<open>\<open>functools.reduce\<close> without an initial value raises on an empty shape.\<close>

definition reduce_len :: "nat list \<times> np_dtype \<Rightarrow> nat res" where
  "reduce_len m = (if fst m = [] then Inl TypeError else Inr (prod_list (fst m) * itemsize (snd m)))"

definition data_from_pb_shmem :: "codec \<Rightarrow> pb_ndarray list \<Rightarrow> bytes \<Rightarrow> int \<Rightarrow> pyval res" where
  "data_from_pb_shmem c bs mem align_nbit =
     rbind (rmap_list pb2meta bs) (\<lambda>metas.
     if metas = [] then Inl IndexError else
     rbind (shm_read prod_len align_nbit mem (butlast metas) 0) (\<lambda>(arrays, start).
     rbind (pyindex (fst (last metas)) 0) (\<lambda>n.
     rbind (dec c PickleLib (slice mem start (start + n))) (\<lambda>skeleton.
     put_arrays arrays json_index_key skeleton))))"

subsection \<open>One buffer: \<open>dumps\<close> and \<open>loads\<close>\<close>

text \<open>64-bit little-endian integers (\<open>np.array(n, dtype=np.int64).tobytes()\<close>).\<close>

fun le_bytes :: "nat \<Rightarrow> nat \<Rightarrow> bytes" where
  "le_bytes 0 n = []"
| "le_bytes (Suc k) n = word_of_nat n # le_bytes k (n div 256)"

fun le_nat :: "bytes \<Rightarrow> nat" where
  "le_nat [] = 0"
| "le_nat (b # bs) = unat b + 256 * le_nat bs"

text \<open>\<open>dumps\<close> copies from a contiguous array, so only a 0-d array with items wider than a byte raises.\<close>

definition dumps_source :: "pyval \<Rightarrow> (bool \<times> bytes) res" where
  "dumps_source v = (case v of
       PBuf (NdArr a) \<Rightarrow> shm_source (PBuf (NdArr (if \<not> nd_contig a then ascontiguous a else a)))
     | _ \<Rightarrow> shm_source v)"

record wire =
  ser_arrays :: "pb_ndarray list \<Rightarrow> bytes"
  parse_arrays :: "bytes \<Rightarrow> pb_ndarray list res"

definition dumps_layout :: "nat \<Rightarrow> nat \<Rightarrow> bytes \<Rightarrow> bytes \<Rightarrow> bytes" where
  "dumps_layout content_end meta_end pb_bytes buffer =
     blit (blit (blit buffer 0 (le_bytes 8 content_end)) 8 (le_bytes 8 meta_end)) content_end pb_bytes"

definition dumps :: "codec \<Rightarrow> wire \<Rightarrow> (nat \<Rightarrow> bytes) \<Rightarrow> 't optree \<Rightarrow> pyval \<Rightarrow> bool \<Rightarrow> bytes option \<Rightarrow> bytes res" where
  "dumps c w np_empty opt obj multi_thread buffer =
     rbind (extract_arrays_from_data opt obj default_classes [] False None) (\<lambda>(arrays, skeleton, _).
     rbind (enc c PickleLib skeleton) (\<lambda>skb.
     rbind (rmap_list (\<lambda>a. data2pb a False) (arrays @ [PBuf (Bytes skb)])) (\<lambda>pbs.
     let pb_bytes = ser_arrays w pbs in
     rbind (rmap_list dumps_source arrays) (\<lambda>srcs.
     let sum_array = sum_list (map (length \<circ> snd) srcs);
         total = sum_array + length skb + length pb_bytes in
     rbind (case buffer of
         None \<Rightarrow> Inr (np_empty (total + 16))
       | Some b \<Rightarrow> rbind (rassert (length b \<ge> total + 16)) (\<lambda>_. Inr b)) (\<lambda>buffer.
     let content_end = 16 + sum_array + length skb;
         meta_end = content_end + length pb_bytes;
         buffer = dumps_layout content_end meta_end pb_bytes buffer;
         shared = slice buffer 16 content_end in
     (case shm_write multi_thread 0 srcs 0 shared of
        (Inl e, _) \<Rightarrow> Inl e
      | (Inr start, shared) \<Rightarrow> rbind (np_assign shared start skb) (\<lambda>shared.
          Inr (blit buffer 16 shared))))))))"

definition loads :: "codec \<Rightarrow> wire \<Rightarrow> bytes \<Rightarrow> pyval res" where
  "loads c w binary =
     (let content_end = le_nat (slice binary 0 8);
          meta_end = le_nat (slice binary 8 16);
          shared = drop 16 binary in
      rbind (parse_arrays w (slice binary content_end meta_end)) (\<lambda>pbs.
      rbind (rmap_list pb2meta pbs) (\<lambda>metas.
      if metas = [] then Inl IndexError else
      rbind (shm_read reduce_len 0 shared (butlast metas) 0) (\<lambda>(arrays, start).
      rbind (pyindex (fst (last metas)) 0) (\<lambda>n.
      rbind (dec c PickleLib (slice shared start (start + n))) (\<lambda>skeleton.
      put_arrays arrays json_index_key skeleton))))))"

definition dumps_arraybuf :: "codec \<Rightarrow> (pb_ndarray list \<Rightarrow> bytes \<Rightarrow> bytes) \<Rightarrow> 't optree \<Rightarrow> pyval \<Rightarrow> bytes res" where
  "dumps_arraybuf c ser opt obj =
     rbind (extract_arrays_from_data opt obj default_classes json_index_key False None) (\<lambda>(arrays, skeleton, _).
     rbind (rmap_list (\<lambda>a. data2pb a True) arrays) (\<lambda>pbs.
     rbind (enc c JsonLib skeleton) (\<lambda>s. Inr (ser pbs s))))"

definition loads_arraybuf :: "codec \<Rightarrow> (bytes \<Rightarrow> (pb_ndarray list \<times> bytes) res) \<Rightarrow> bytes \<Rightarrow> pyval res" where
  "loads_arraybuf c parse binary =
     rbind (parse binary) (\<lambda>(pbs, data).
     rbind (dec c JsonLib data) (\<lambda>skeleton.
     rbind (rmap_list pb2data pbs) (\<lambda>arrays.
     put_arrays (map PBuf arrays) json_index_key skeleton)))"

subsection \<open>Unary calls: what the receiver gets\<close>

definition norm_lib :: "lib \<Rightarrow> pyval \<Rightarrow> pyval" where
  "norm_lib l = (if l = PickleLib then (\<lambda>x. x) else untuple)"

text \<open>
  The serialiser \<open>l\<close> restores the value \<open>sk\<close>, tuples aside: what \<open>pickle\<close>, \<open>json\<close> and \<open>msgpack\<close>
  document for values of their domain.
\<close>

definition codec_inverts :: "codec \<Rightarrow> lib \<Rightarrow> pyval \<Rightarrow> bool" where
  "codec_inverts c l sk \<longleftrightarrow> (case enc c l sk of Inl e \<Rightarrow> False | Inr b \<Rightarrow> dec c l b = Inr (norm_lib l sk))"

lemma codec_invertsE:
  assumes "codec_inverts c l sk"
  obtains b where "enc c l sk = Inr b" and "dec c l b = Inr (norm_lib l sk)"
  using assms by (auto simp: codec_inverts_def split: sum.splits)

fun sendable :: "buf \<Rightarrow> bool" where
  "sendable (NdArr a) \<longleftrightarrow> ndarray_ok a \<and> \<not> isl (npdtype_to_pb (nd_dtype a))"
| "sendable b \<longleftrightarrow> True"

definition all_bufs :: "(buf \<Rightarrow> bool) \<Rightarrow> pyval \<Rightarrow> bool" where
  "all_bufs P d \<longleftrightarrow> list_all (\<lambda>v. case v of PBuf b \<Rightarrow> P b | _ \<Rightarrow> False) (bufs d)"

fun on_buf :: "(buf \<Rightarrow> buf) \<Rightarrow> pyval \<Rightarrow> pyval" where
  "on_buf f (PBuf b) = PBuf (f b)"
| "on_buf f v = v"

lemma bufs_PBuf:
  "v \<in> set (bufs d) \<Longrightarrow> \<exists>b. v = PBuf b" "v \<in> set (bufs_list es) \<Longrightarrow> \<exists>b. v = PBuf b"
  "v \<in> set (bufs_items m) \<Longrightarrow> \<exists>b. v = PBuf b"
  by (induction d and es and m rule: bufs_bufs_list_bufs_items.induct) auto

lemma all_bufsD:
  assumes "all_bufs P d" and "v \<in> set (bufs d)"
  obtains b where "v = PBuf b" and "P b"
  using assms bufs_PBuf(1)[of v d] by (fastforce simp: all_bufs_def list_all_iff)

lemma untuple_map_leaf:
  "untuple (map_leaf (on_buf f) d) = map_leaf (on_buf f) (untuple d)"
  "untuple_list (map_leaf_list (on_buf f) es) = map_leaf_list (on_buf f) (untuple_list es)"
  "untuple_items (map_leaf_items (on_buf f) m) = map_leaf_items (on_buf f) (untuple_items m)"
  by (induction d and es and m rule: bufs_bufs_list_bufs_items.induct) auto

lemma norm_map_leaf: "norm_lib l (map_leaf (on_buf f) d) = map_leaf (on_buf f) (norm_lib l d)"
  by (simp add: norm_lib_def untuple_map_leaf)

lemma isr_ex: "\<not> isl r \<longleftrightarrow> (\<exists>x. r = Inr x)"
  by (cases r) auto

lemma data2pb_sendable:
  assumes "sendable b"
  shows "\<exists>p. data2pb (PBuf b) True = Inr p \<and> pb2data p = Inr (recv_buf b)"
proof -
  have "\<exists>p. data2pb (PBuf b) True = Inr p"
    using assms by (cases b) (auto simp: data2pb_def array2pb_def isr_ex Let_def ascontiguous_def)
  moreover have "buf_ok b" using assms by (cases b) auto
  ultimately show ?thesis using pb2data_data2pb[of b] by blast
qed

lemma rmap_list_append:
  "rmap_list f (xs @ ys) = rbind (rmap_list f xs) (\<lambda>as. rbind (rmap_list f ys) (\<lambda>bs. Inr (as @ bs)))"
proof (induction xs)
  case Nil
  show ?case by (cases "rmap_list f ys") auto
qed (simp add: rbind_assoc)

lemma data2pb_list:
  assumes "\<And>v. v \<in> set vs \<Longrightarrow> \<exists>b. v = PBuf b \<and> sendable b"
  shows "\<exists>ps. rmap_list (\<lambda>a. data2pb a True) vs = Inr ps \<and>
    (\<exists>rs. rmap_list pb2data ps = Inr rs \<and> map PBuf rs = map (on_buf recv_buf) vs)"
  using assms
proof (induction vs)
  case (Cons v vs)
  obtain b where b: "v = PBuf b" "sendable b" using Cons.prems by auto
  obtain p where "data2pb (PBuf b) True = Inr p" "pb2data p = Inr (recv_buf b)"
    using data2pb_sendable[OF b(2)] by blast
  then show ?case using Cons b by auto
qed simp

text \<open>The three array methods and their flag for dict references.\<close>

definition array_method :: "int \<Rightarrow> lib \<Rightarrow> string \<Rightarrow> bool" where
  "array_method m l ji \<longleftrightarrow> m AND encode_mask = (case l of JsonLib \<Rightarrow> 16 | MsgpackLib \<Rightarrow> 48 | PickleLib \<Rightarrow> 32) \<and>
     ji = (if l = PickleLib then [] else json_index_key)"

lemma array_methodD:
  assumes "array_method m l ji"
  shows "method_lib (m AND encode_mask) = Inr l" and "(m AND encode_mask) AND encode_array_mask \<noteq> 0"
    and "(if enable_json_index (m AND encode_mask) then json_index_key else []) = ji"
  using assms by (auto simp: array_method_def enable_json_index_def encode_array_mask_def method_lib_def
      split: lib.splits)

lemma norm_skel:
  assumes "array_method m l ji"
  shows "norm_lib l (skel ji 0 d) = skel ji 0 (norm_lib l d)"
  using assms by (auto simp: norm_lib_def array_method_def untuple_skel json_index_key_def)

lemma plain_norm: "plain k d \<Longrightarrow> plain k (norm_lib l d)"
  by (simp add: norm_lib_def plain_untuple)

lemma bufs_norm [simp]: "bufs (norm_lib l d) = bufs d"
  by (simp add: norm_lib_def)

lemma bare_ref_norm [simp]: "bare_ref (norm_lib l d) = bare_ref d"
  by (cases d) (auto simp: norm_lib_def)

lemma extract_default:
  "extract_arrays_from_data no_optree d default_classes ji False None =
     Inr (bufs d, skel ji 0 d, \<lparr>ec_arrays = bufs d,
        ec_flags = (if has_special d \<or> bufs d \<noteq> [] then NEED_SCAN else 0)\<rparr>)"
  by (simp add: extract_arrays_eq sent_value_def)

lemma put_norm:
  assumes "array_method m l ji" and "plain ji d" and "ji \<noteq> [] \<Longrightarrow> \<not> bare_ref d"
  shows "put_arrays (map (on_buf f) (bufs d)) ji (norm_lib l (skel ji 0 d)) =
    Inr (norm_lib l (map_leaf (on_buf f) d))"
  using put_arrays_extracted[of ji ji "norm_lib l d" "on_buf f"] plain_norm[OF assms(2)] assms(3)
  by (simp add: norm_skel[OF assms(1)] norm_map_leaf)

lemma data_pb_ok:
  assumes m: "array_method m l ji" and plain: "plain ji d" and bare: "ji \<noteq> [] \<Longrightarrow> \<not> bare_ref d"
    and bufs: "all_bufs sendable d" and codec: "codec_inverts c l (skel ji 0 d)"
  shows "\<exists>pbs. data_to_pb c no_optree d m = Inr pbs \<and>
    data_from_pb c pbs m = Inr (norm_lib l (map_leaf (on_buf recv_buf) d))"
proof -
  note M = array_methodD[OF m]
  obtain b where b: "enc c l (skel ji 0 d) = Inr b" "dec c l b = Inr (norm_lib l (skel ji 0 d))"
    using codec by (rule codec_invertsE)
  obtain ps rs where ps: "rmap_list (\<lambda>a. data2pb a True) (bufs d) = Inr ps"
    and rs: "rmap_list pb2data ps = Inr rs" "map PBuf rs = map (on_buf recv_buf) (bufs d)"
    using data2pb_list[of "bufs d"] all_bufsD[OF bufs] by metis
  obtain p where p: "data2pb (PBuf (Bytes b)) True = Inr p" "pb2data p = Inr (Bytes b)"
    using data2pb_sendable[of "Bytes b"] by auto
  have "data_to_pb c no_optree d m = Inr (ps @ [p])"
    by (simp add: data_to_pb_def Let_def M extract_default method_dump_def b rmap_list_append ps p)
  moreover have "data_from_pb c (ps @ [p]) m = Inr (norm_lib l (map_leaf (on_buf recv_buf) d))"
    using put_norm[OF m plain bare, of recv_buf]
    by (simp add: data_from_pb_def Let_def M method_load_def b rmap_list_append rs p)
  ultimately show ?thesis by blast
qed

subsection \<open>The layout of a shared buffer\<close>

text \<open>Where the blocks end, and the slices at their places, with every start aligned to \<open>al\<close>.\<close>

fun layout_end :: "int \<Rightarrow> nat \<Rightarrow> nat list \<Rightarrow> nat" where
  "layout_end al start [] = start"
| "layout_end al start (n # ns) = layout_end al (align_offset start al + n) ns"

fun layout_slices :: "int \<Rightarrow> bytes \<Rightarrow> nat \<Rightarrow> nat list \<Rightarrow> bytes list" where
  "layout_slices al mem start [] = []"
| "layout_slices al mem start (n # ns) =
     (let start = align_offset start al in
      slice mem start (start + n) # layout_slices al mem (start + n) ns)"

lemma align_offset_ge: "start \<le> align_offset start al"
proof (cases "al \<le> 0")
  case False
  have "al * ((int start + al - 1) div al) = int start + al - 1 - (int start + al - 1) mod al"
    by (simp add: minus_mod_eq_mult_div)
  moreover have "(int start + al - 1) mod al < al" using False by simp
  ultimately have "int start \<le> al * ((int start + al - 1) div al)" by linarith
  then show ?thesis using False by (simp add: align_offset_def)
qed (simp add: align_offset_def)

lemma align_offset_aligned: "0 < al \<Longrightarrow> int (align_offset start al) mod al = 0"
proof -
  assume al: "0 < al"
  then have "0 \<le> al * ((int start + al - 1) div al)"
    by (simp add: pos_imp_zdiv_nonneg_iff)
  then show ?thesis using al by (simp add: align_offset_def)
qed

lemma align_offset_lt: "0 < al \<Longrightarrow> int (align_offset start al) < int start + al"
proof -
  assume al: "0 < al"
  have eq: "al * ((int start + al - 1) div al) = int start + al - 1 - (int start + al - 1) mod al"
    by (simp add: minus_mod_eq_mult_div)
  have "0 \<le> (int start + al - 1) mod al" using al by simp
  then have "al * ((int start + al - 1) div al) < int start + al"
    unfolding eq by linarith
  then show ?thesis using al by (simp add: align_offset_def)
qed

lemma align_offset_0 [simp]: "align_offset start 0 = start"
  by (simp add: align_offset_def)

lemma layout_end_ge: "start + sum_list ns \<le> layout_end al start ns"
proof (induction ns arbitrary: start)
  case (Cons n ns)
  have "start + n \<le> align_offset start al + n" using align_offset_ge by simp
  with Cons.IH[of "align_offset start al + n"] show ?case by simp
qed simp

lemma layout_end_0: "layout_end 0 start ns = start + sum_list ns"
  by (induction ns arbitrary: start) auto

lemma view_assign_fits:
  "start + length d \<le> length mem \<Longrightarrow> view_assign mem start d = Inr (blit mem start d)"
  by (auto simp: view_assign_def blit_def)

lemma np_assign_fits:
  "start + length d \<le> length mem \<Longrightarrow> np_assign mem start d = Inr (blit mem start d)"
  by (auto simp: np_assign_def blit_def Let_def)

lemma assign_length:
  "view_assign mem start d = Inr mem' \<Longrightarrow> length mem' = length mem"
  "np_assign mem start d = Inr mem' \<Longrightarrow> length mem' = length mem"
  by (auto simp: view_assign_def np_assign_def Let_def blit_def min_def split: if_splits)

lemma shm_write_result:
  assumes "shm_write mt al ds start mem = (r, mem')"
  shows "length mem' = length mem \<and> (\<forall>e. r = Inr e \<longrightarrow> e = layout_end al start (map (length \<circ> snd) ds))"
  using assms
proof (induction ds arbitrary: start mem)
  case (Cons d ds)
  obtain b x where d: "d = (b, x)" by (cases d)
  show ?case
  proof (cases "if \<not> b \<and> mt then np_assign mem (align_offset start al) x
      else view_assign mem (align_offset start al) x")
    case (Inl e)
    with Cons.prems show ?thesis by (auto simp: d Let_def)
  next
    case (Inr m1)
    then have "length m1 = length mem" by (auto split: if_splits dest: assign_length)
    moreover have "shm_write mt al ds (align_offset start al + length x) m1 = (r, mem')"
      using Cons.prems Inr by (simp add: d Let_def)
    ultimately show ?thesis using Cons.IH[of "align_offset start al + length x" m1] by (simp add: d comp_def)
  qed
qed auto

lemma shm_write_fits:
  assumes "layout_end al start (map (length \<circ> snd) ds) \<le> length mem"
  shows "\<exists>mem'. shm_write mt al ds start mem = (Inr (layout_end al start (map (length \<circ> snd) ds)), mem') \<and>
    length mem' = length mem \<and> layout_slices al mem' start (map (length \<circ> snd) ds) = map snd ds \<and>
    (\<forall>i j. j \<le> start \<longrightarrow> slice mem' i j = slice mem i j)"
  using assms
proof (induction ds arbitrary: start mem)
  case (Cons d ds)
  obtain b x where d: "d = (b, x)" by (cases d)
  define s where "s = align_offset start al"
  define m1 where "m1 = blit mem s x"
  have le: "s + length x \<le> length mem"
    using Cons.prems layout_end_ge[of "s + length x" "map (length \<circ> snd) ds" al]
    by (simp add: d s_def comp_def)
  have m1: "length m1 = length mem" using le by (simp add: m1_def)
  have step: "shm_write mt al (d # ds) start mem = shm_write mt al ds (s + length x) m1"
    using le by (simp add: d Let_def view_assign_fits np_assign_fits flip: s_def m1_def)
  have "layout_end al (s + length x) (map (length \<circ> snd) ds) \<le> length m1"
    using Cons.prems by (simp add: d m1 s_def comp_def)
  from Cons.IH[OF this] obtain mem' where
    w: "shm_write mt al ds (s + length x) m1 = (Inr (layout_end al (s + length x) (map (length \<circ> snd) ds)), mem')"
    and len: "length mem' = length m1"
    and sl: "layout_slices al mem' (s + length x) (map (length \<circ> snd) ds) = map snd ds"
    and pre: "\<forall>i j. j \<le> s + length x \<longrightarrow> slice mem' i j = slice m1 i j"
    by blast
  have "slice mem' s (s + length x) = x"
    using pre slice_blit_same[OF le] by (simp add: m1_def)
  moreover have "\<forall>i j. j \<le> start \<longrightarrow> slice mem' i j = slice mem i j"
  proof (intro allI impI)
    fix i j
    assume "j \<le> start"
    then have j: "j \<le> s" using align_offset_ge[of start al] by (simp add: s_def)
    then show "slice mem' i j = slice mem i j"
      using pre le by (simp add: m1_def slice_blit_before)
  qed
  ultimately show ?case
    using w len sl m1 step by (simp add: d Let_def comp_def flip: s_def)
qed simp

text \<open>Reading the blocks back is reading the slices.\<close>

definition meta_ok :: "(nat list \<times> np_dtype \<Rightarrow> nat res) \<Rightarrow> nat list \<times> np_dtype \<Rightarrow> nat \<Rightarrow> bool" where
  "meta_ok len m n \<longleftrightarrow> len m = Inr n \<and> 0 < itemsize (snd m) \<and> n = prod_list (fst m) * itemsize (snd m)"

definition read_array :: "nat list \<times> np_dtype \<Rightarrow> bytes \<Rightarrow> pyval" where
  "read_array m d = PBuf (NdArr \<lparr>nd_dtype = snd m, nd_shape = fst m, nd_data = d, nd_contig = True,
     nd_last_contig = True\<rparr>)"

lemma shm_read_layout:
  assumes "list_all2 (meta_ok len) ms ns" and "layout_end al start ns \<le> length mem"
  shows "shm_read len al mem ms start =
    Inr (map2 read_array ms (layout_slices al mem start ns), layout_end al start ns)"
  using assms
proof (induction ms ns arbitrary: start rule: list_all2_induct)
  case (Cons m ms n ns)
  obtain shape dt where m: "m = (shape, dt)" by (cases m)
  define s where "s = align_offset start al"
  have le: "s + n \<le> length mem"
    using Cons.prems layout_end_ge[of "s + n" ns al] by (simp add: s_def)
  have "np_frombuffer (slice mem s (s + n)) dt shape =
      Inr \<lparr>nd_dtype = dt, nd_shape = shape, nd_data = slice mem s (s + n), nd_contig = True, nd_last_contig = True\<rparr>"
    using Cons.hyps(1) le by (intro np_frombuffer_ok) (auto simp: meta_ok_def m)
  then show ?case
    using Cons.IH[of "s + n"] Cons.prems Cons.hyps(1)
    by (simp add: m Let_def meta_ok_def read_array_def flip: s_def)
qed simp

text \<open>What comes back from shared memory: bytes come back as \<open>uint8\<close> arrays.\<close>

definition u8_array :: "bytes \<Rightarrow> buf" where
  "u8_array b = NdArr \<lparr>nd_dtype = native_dtype UInt8, nd_shape = [length b], nd_data = b,
     nd_contig = True, nd_last_contig = True\<rparr>"

fun shm_recv :: "buf \<Rightarrow> buf" where
  "shm_recv (NdArr a) = NdArr (ascontiguous a)"
| "shm_recv (Bytes b) = u8_array b"
| "shm_recv (JSBuf b c) = u8_array b"

definition block_ok :: "(pyval \<Rightarrow> (bool \<times> bytes) res) \<Rightarrow> (nat list \<times> np_dtype \<Rightarrow> nat res) \<Rightarrow> pyval \<Rightarrow>
    pb_ndarray \<Rightarrow> bool \<times> bytes \<Rightarrow> nat list \<times> np_dtype \<Rightarrow> bool" where
  "block_ok source len v p src m \<longleftrightarrow> data2pb v False = Inr p \<and> source v = Inr src \<and> pb2meta p = Inr m \<and>
     meta_ok len m (length (snd src)) \<and> read_array m (snd src) = on_buf shm_recv v"

lemma pb2meta_array:
  assumes "array2pb a False = Inr p"
  shows "pb2meta p = Inr (nd_shape a, nd_dtype a) \<and> 0 < itemsize (nd_dtype a)"
proof -
  from assms obtain t where t: "npdtype_to_pb (nd_dtype a) = Inr t"
    and p: "p = \<lparr>pb_shape = nd_shape a, pb_dtype = \<lparr>pb_type = t, pb_order = order_to_pb (dorder (nd_dtype a))\<rparr>, pb_data = []\<rparr>"
    by (auto simp: array2pb_def Let_def res_simps split: if_splits)
  obtain d where "inv_npdtype_to_pb t = Inr d" "newbyteorder d (dorder (nd_dtype a)) = nd_dtype a"
    using inv_npdtype_pb[OF t] .
  then show ?thesis using npdtype_pb_roundtrip(2,3)[OF t] by (simp add: pb2meta_def p)
qed

lemma block_bytes:
  assumes "len ([length b], native_dtype UInt8) = Inr (length b)"
  shows "\<exists>p m. block_ok shm_source len (PBuf (Bytes b)) p (True, b) m"
    and "\<exists>p m. block_ok shm_source len (PBuf (JSBuf b c)) p (True, b) m"
  using assms
  by (auto simp: block_ok_def data2pb_def bytes2pb_def shm_source_def pb2meta_def meta_ok_def
      read_array_def itemsize_def native_dtype_def u8_array_def)

lemma block_array:
  assumes "sendable (NdArr a)" and "source (PBuf (NdArr a)) = Inr (b, nd_data a)"
    and "len (nd_shape a, nd_dtype a) = Inr (prod_list (nd_shape a) * itemsize (nd_dtype a))"
  shows "\<exists>p m. block_ok source len (PBuf (NdArr a)) p (b, nd_data a) m"
proof -
  obtain p where p: "array2pb a False = Inr p"
    using assms(1) by (auto simp: array2pb_def Let_def isr_ex)
  note m = pb2meta_array[OF p]
  have "length (nd_data a) = prod_list (nd_shape a) * itemsize (nd_dtype a)"
    using assms(1) by (simp add: ndarray_ok_def nd_nbytes_def)
  with p m assms(2,3) show ?thesis
    by (auto simp: block_ok_def data2pb_def meta_ok_def read_array_def ascontiguous_def)
qed

lemma blocks_ok:
  assumes "\<And>v. v \<in> set vs \<Longrightarrow> \<exists>p s m. block_ok source len v p s m"
  shows "\<exists>ps ss ms. rmap_list (\<lambda>a. data2pb a False) vs = Inr ps \<and> rmap_list source vs = Inr ss \<and>
     rmap_list pb2meta ps = Inr ms \<and> list_all2 (meta_ok len) ms (map (length \<circ> snd) ss) \<and>
     map2 read_array ms (map snd ss) = map (on_buf shm_recv) vs"
  using assms
proof (induction vs)
  case (Cons v vs)
  obtain p s m where "block_ok source len v p s m" using Cons.prems by fastforce
  with Cons show ?case by (auto simp: block_ok_def)
qed simp

fun shm_viewable :: "buf \<Rightarrow> bool" where
  "shm_viewable (NdArr a) \<longleftrightarrow> \<not> isl (np_view_u8 a)"
| "shm_viewable b \<longleftrightarrow> True"

lemma shm_blocks:
  assumes "all_bufs sendable d" and "all_bufs shm_viewable d" and "v \<in> set (bufs d)"
  shows "\<exists>p s m. block_ok shm_source prod_len v p s m"
proof -
  obtain b where v: "v = PBuf b" "sendable b" by (rule all_bufsD[OF assms(1,3)])
  obtain b' where "v = PBuf b'" "shm_viewable b'" by (rule all_bufsD[OF assms(2,3)])
  with v have b: "sendable b" "shm_viewable b" by simp_all
  show ?thesis
  proof (cases b)
    case (NdArr a)
    have "shm_source (PBuf (NdArr a)) = Inr (False, nd_data a)"
      using b(2) by (auto simp: NdArr shm_source_def np_view_u8_def split: if_splits)
    from block_array[of a shm_source False prod_len, OF _ this] b(1) show ?thesis
      unfolding v(1) NdArr by (simp add: prod_len_def) blast
  next
    case (Bytes x)
    show ?thesis
      using block_bytes(1)[of prod_len x] unfolding v(1) Bytes
      by (simp add: prod_len_def itemsize_def native_dtype_def) blast
  next
    case (JSBuf x c)
    show ?thesis
      using block_bytes(2)[of prod_len x c] unfolding v(1) JSBuf
      by (simp add: prod_len_def itemsize_def native_dtype_def) blast
  qed
qed

lemma pb2meta_skeleton: "pb2meta (bytes2pb b False) = Inr ([length b], native_dtype UInt8)"
  by (simp add: pb2meta_def bytes2pb_def)

lemma data2pb_skeleton: "data2pb (PBuf (Bytes b)) False = Inr (bytes2pb b False)"
  by (simp add: data2pb_def)

lemma plain_index:
  assumes "plain json_index_key d"
  shows "put_arrays (map (on_buf f) (bufs d)) json_index_key (skel [] 0 d) = Inr (map_leaf (on_buf f) d)"
  using put_arrays_extracted[of "[]" json_index_key d "on_buf f"] assms by simp

text \<open>The sizes of the blocks of \<open>d\<close>, and where the skeleton starts.\<close>

definition block_sizes :: "pyval \<Rightarrow> nat list" where
  "block_sizes d = map (\<lambda>v. case byte_size v of Inr n \<Rightarrow> n | Inl e \<Rightarrow> 0) (bufs d)"

lemma shm_source_size: "shm_source v = Inr s \<Longrightarrow> byte_size v = Inr (length (snd s))"
  by (auto simp: shm_source_def byte_size_def np_view_u8_def nd_nbytes_def res_simps
      split: pyval.splits buf.splits if_splits)

lemma sizes_of_sources:
  "rmap_list shm_source vs = Inr ss \<Longrightarrow>
   map (\<lambda>v. case byte_size v of Inr n \<Rightarrow> n | Inl e \<Rightarrow> 0) vs = map (length \<circ> snd) ss"
  by (induction vs arbitrary: ss) (auto simp: res_simps dest: shm_source_size)

lemma shm_prepare:
  assumes "all_bufs sendable d" and "all_bufs shm_viewable d" and "enc c PickleLib (skel [] 0 d) = Inr skb"
  obtains ps ss ms where
    "data_to_pb_shmem c no_optree d mt al mem = shm_body mt al (bufs d) skb (ps @ [bytes2pb skb False]) mem"
    and "rmap_list shm_source (bufs d) = Inr ss" and "map (length \<circ> snd) ss = block_sizes d"
    and "rmap_list pb2meta (ps @ [bytes2pb skb False]) = Inr (ms @ [([length skb], native_dtype UInt8)])"
    and "list_all2 (meta_ok prod_len) ms (block_sizes d)"
    and "map2 read_array ms (map snd ss) = map (on_buf shm_recv) (bufs d)"
proof -
  obtain ps ss ms where
    b: "rmap_list (\<lambda>a. data2pb a False) (bufs d) = Inr ps" "rmap_list shm_source (bufs d) = Inr ss"
     "rmap_list pb2meta ps = Inr ms" "list_all2 (meta_ok prod_len) ms (map (length \<circ> snd) ss)"
     "map2 read_array ms (map snd ss) = map (on_buf shm_recv) (bufs d)"
    using blocks_ok[of "bufs d" shm_source prod_len] shm_blocks[OF assms(1,2)] by blast
  have sz: "map (length \<circ> snd) ss = block_sizes d"
    using sizes_of_sources[OF b(2)] by (simp add: block_sizes_def)
  show thesis
    using b assms(3) sz
    by (intro that[of ps ss ms])
      (simp_all add: data_to_pb_shmem_def extract_default rmap_list_append data2pb_skeleton pb2meta_skeleton)
qed

lemma shm_result:
  assumes "all_bufs sendable d" and "all_bufs shm_viewable d"
    and codec: "enc c PickleLib (skel [] 0 d) = Inr skb" "dec c PickleLib skb = Inr (skel [] 0 d)"
    and plain: "plain json_index_key d"
    and fits: "layout_end al 0 (block_sizes d) + length skb \<le> length mem"
  shows "\<exists>pbs mem'. data_to_pb_shmem c no_optree d mt al mem = (Inr pbs, mem') \<and> length mem' = length mem \<and>
    data_from_pb_shmem c pbs mem' al = Inr (map_leaf (on_buf shm_recv) d)"
proof -
  let ?e = "layout_end al 0 (block_sizes d)"
  obtain ps ss ms where to: "data_to_pb_shmem c no_optree d mt al mem = shm_body mt al (bufs d) skb (ps @ [bytes2pb skb False]) mem"
    and ss: "rmap_list shm_source (bufs d) = Inr ss" "map (length \<circ> snd) ss = block_sizes d"
    and ms: "rmap_list pb2meta (ps @ [bytes2pb skb False]) = Inr (ms @ [([length skb], native_dtype UInt8)])"
      "list_all2 (meta_ok prod_len) ms (block_sizes d)"
    and arr: "map2 read_array ms (map snd ss) = map (on_buf shm_recv) (bufs d)"
    by (rule shm_prepare[OF assms(1,2) codec(1), of mt al mem])
  obtain mem1 where w: "shm_write mt al ss 0 mem = (Inr ?e, mem1)" and len: "length mem1 = length mem"
    and sl: "layout_slices al mem1 0 (block_sizes d) = map snd ss"
    using shm_write_fits[of al 0 ss mem mt] fits by (auto simp: ss(2))
  define mem2 where "mem2 = blit mem1 ?e skb"
  have small: "sum_list (map (length \<circ> snd) ss) + length skb \<le> length mem"
    using fits layout_end_ge[of 0 "block_sizes d" al] by (simp add: ss(2))
  have np: "np_assign mem1 ?e skb = Inr mem2"
    using fits by (simp add: np_assign_fits len mem2_def)
  have res: "data_to_pb_shmem c no_optree d mt al mem = (Inr (ps @ [bytes2pb skb False]), mem2)"
    using small by (simp add: to shm_body_def ss(1) w np act_simps)
  have len2: "length mem2 = length mem" using fits by (simp add: mem2_def len)
  have keep: "layout_slices al mem2 st ns = layout_slices al mem1 st ns"
    if "layout_end al st ns \<le> ?e" for st ns
    using that
  proof (induction ns arbitrary: st)
    case (Cons n ns)
    have "align_offset st al + n \<le> ?e"
      using Cons.prems layout_end_ge[of "align_offset st al + n" ns al] by simp
    then have "slice mem2 (align_offset st al) (align_offset st al + n) =
        slice mem1 (align_offset st al) (align_offset st al + n)"
      unfolding mem2_def using fits by (intro slice_blit_before) (simp_all add: len)
    then show ?case using Cons by (simp add: Let_def)
  qed simp
  have "shm_read prod_len al mem2 ms 0 = Inr (map (on_buf shm_recv) (bufs d), ?e)"
    using shm_read_layout[OF ms(2), of al 0 mem2] fits arr by (simp add: keep sl len2)
  moreover have "slice mem2 ?e (?e + length skb) = skb"
    unfolding mem2_def using fits by (intro slice_blit_same) (simp add: len)
  ultimately show ?thesis
    using res len2 codec(2) plain_index[OF plain]
    by (simp add: data_from_pb_shmem_def ms(1))
qed

lemma shm_success_iff:
  assumes "all_bufs sendable d" and "all_bufs shm_viewable d"
    and "enc c PickleLib (skel [] 0 d) = Inr skb" and "2 \<le> length skb"
  shows "(\<exists>pbs mem'. data_to_pb_shmem c no_optree d mt al mem = (Inr pbs, mem')) \<longleftrightarrow>
    layout_end al 0 (block_sizes d) + length skb \<le> length mem"
proof -
  obtain ps ss ms where to: "data_to_pb_shmem c no_optree d mt al mem = shm_body mt al (bufs d) skb (ps @ [bytes2pb skb False]) mem"
    and ss: "rmap_list shm_source (bufs d) = Inr ss" "map (length \<circ> snd) ss = block_sizes d"
    by (rule shm_prepare[OF assms(1-3), of mt al mem])
  have small: "layout_end al 0 (block_sizes d) + length skb \<le> length mem \<Longrightarrow>
    sum_list (block_sizes d) + length skb \<le> length mem"
    using layout_end_ge[of 0 "block_sizes d" al] by simp
  obtain r mem1 where w: "shm_write mt al ss 0 mem = (r, mem1)" by (cases "shm_write mt al ss 0 mem")
  note wr = shm_write_result[OF w, unfolded ss(2)]
  show ?thesis
  proof (cases r)
    case (Inl e)
    then have "\<not> layout_end al 0 (block_sizes d) \<le> length mem"
      using shm_write_fits[of al 0 ss mem mt] w by (auto simp: ss(2))
    then show ?thesis using Inl by (simp add: to shm_body_def ss w act_simps)
  next
    case (Inr en)
    then have en: "en = layout_end al 0 (block_sizes d)" using wr by simp
    have "(\<exists>m. np_assign mem1 en skb = Inr m) \<longleftrightarrow> en + length skb \<le> length mem"
      using wr assms(4) by (auto simp: np_assign_def Let_def min_def)
    then show ?thesis
      using Inr small
      by (cases "np_assign mem1 en skb") (auto simp: to shm_body_def ss w act_simps en)
  qed
qed

subsection \<open>\<open>dumps\<close> and \<open>loads\<close> invert each other\<close>

lemma length_le_bytes [simp]: "length (le_bytes k n) = k"
  by (induction k arbitrary: n) auto

lemma le_nat_le_bytes: "n < 256 ^ k \<Longrightarrow> le_nat (le_bytes k n) = n"
proof (induction k arbitrary: n)
  case (Suc k)
  have "n div 256 < 256 ^ k" using Suc.prems by (simp add: less_mult_imp_div_less mult.commute)
  then have "le_nat (le_bytes k (n div 256)) = n div 256" by (rule Suc.IH)
  moreover have "unat (word_of_nat n :: 8 word) = n mod 256" by (simp add: unat_of_nat)
  ultimately show ?case by simp
qed simp

fun dumps_viewable :: "buf \<Rightarrow> bool" where
  "dumps_viewable (NdArr a) \<longleftrightarrow> nd_shape a \<noteq> []"
| "dumps_viewable b \<longleftrightarrow> True"

lemma dumps_blocks:
  assumes "all_bufs sendable d" and "all_bufs dumps_viewable d" and "v \<in> set (bufs d)"
  shows "\<exists>p s m. block_ok dumps_source reduce_len v p s m"
proof -
  obtain b where v: "v = PBuf b" "sendable b" by (rule all_bufsD[OF assms(1,3)])
  obtain b' where "v = PBuf b'" "dumps_viewable b'" by (rule all_bufsD[OF assms(2,3)])
  with v have b: "sendable b" "dumps_viewable b" by simp_all
  have same: "dumps_source (PBuf (Bytes x)) = shm_source (PBuf (Bytes x))"
    "dumps_source (PBuf (JSBuf x c)) = shm_source (PBuf (JSBuf x c))" for x c
    by (simp_all add: dumps_source_def)
  show ?thesis
  proof (cases b)
    case (NdArr a)
    have "dumps_source (PBuf (NdArr a)) = Inr (False, nd_data a)"
      using b by (auto simp: NdArr dumps_source_def shm_source_def np_view_u8_def ascontiguous_def ndarray_ok_def)
    moreover have "reduce_len (nd_shape a, nd_dtype a) = Inr (prod_list (nd_shape a) * itemsize (nd_dtype a))"
      using b(2) by (simp add: NdArr reduce_len_def)
    ultimately show ?thesis
      using block_array[of a dumps_source False reduce_len] b(1) unfolding v(1) NdArr by blast
  next
    case (Bytes x)
    then show ?thesis
      using block_bytes(1)[of reduce_len x] unfolding v(1) Bytes
      by (simp add: reduce_len_def itemsize_def native_dtype_def block_ok_def same) blast
  next
    case (JSBuf x c)
    then show ?thesis
      using block_bytes(2)[of reduce_len x c] unfolding v(1) JSBuf
      by (simp add: reduce_len_def itemsize_def native_dtype_def block_ok_def same) blast
  qed
qed

lemma layout_slices_append:
  "layout_end al st ns \<le> length s \<Longrightarrow> layout_slices al (s @ r) st ns = layout_slices al s st ns"
proof (induction ns arbitrary: st)
  case (Cons n ns)
  have "align_offset st al + n \<le> length s"
    using Cons.prems layout_end_ge[of "align_offset st al + n" ns al] by simp
  with Cons show ?case by (simp add: Let_def slice_def)
qed simp

text \<open>The header written by \<open>dumps\<close>, read by \<open>loads\<close>.\<close>

lemma dumps_layout_slices:
  fixes buffer :: bytes and pb :: bytes
  assumes "16 \<le> ce" and "ce + length pb \<le> length buffer" and "length sh = ce - 16"
    and "ce + length pb < 256 ^ 8"
  defines "bin \<equiv> blit (dumps_layout ce (ce + length pb) pb buffer) 16 sh"
  shows "le_nat (slice bin 0 8) = ce" and "le_nat (slice bin 8 16) = ce + length pb"
    and "slice bin ce (ce + length pb) = pb" and "drop 16 bin = sh @ drop ce bin"
proof -
  define b1 where "b1 = blit buffer 0 (le_bytes 8 ce)"
  define b2 where "b2 = blit b1 8 (le_bytes 8 (ce + length pb))"
  define b3 where "b3 = blit b2 ce pb"
  have l1: "length b1 = length buffer" using assms(1,2) by (simp add: b1_def)
  have l2: "length b2 = length buffer" using assms(1,2) by (simp add: b2_def l1)
  have l3: "length b3 = length buffer" using assms(2) by (simp add: b3_def l2)
  have bin: "bin = blit b3 16 sh" by (simp add: bin_def dumps_layout_def b1_def b2_def b3_def)
  have "slice bin 0 8 = slice b3 0 8" unfolding bin using assms(1,2) by (intro slice_blit_before) (simp_all add: l3)
  also have "\<dots> = slice b2 0 8" unfolding b3_def using assms(1,2) by (intro slice_blit_before) (simp_all add: l2)
  also have "\<dots> = slice b1 0 8" unfolding b2_def using assms(1,2) by (intro slice_blit_before) (simp_all add: l1)
  also have "\<dots> = le_bytes 8 ce"
    unfolding b1_def using slice_blit_same[of 0 "le_bytes 8 ce" buffer] assms(1,2) by simp
  finally show "le_nat (slice bin 0 8) = ce" using assms(4) by (simp add: le_nat_le_bytes)
  have "slice bin 8 16 = slice b3 8 16" unfolding bin using assms(1,2) by (intro slice_blit_before) (simp_all add: l3)
  also have "\<dots> = slice b2 8 16" unfolding b3_def using assms(1,2) by (intro slice_blit_before) (simp_all add: l2)
  also have "\<dots> = le_bytes 8 (ce + length pb)"
    unfolding b2_def using slice_blit_same[of 8 "le_bytes 8 (ce + length pb)" b1] assms(1,2) by (simp add: l1)
  finally show "le_nat (slice bin 8 16) = ce + length pb" using assms(4) by (simp add: le_nat_le_bytes)
  have "slice bin ce (ce + length pb) = slice b3 ce (ce + length pb)"
    unfolding bin using assms(1-3) by (intro slice_blit_after) (simp_all add: l3)
  also have "\<dots> = pb" unfolding b3_def using assms(2) by (intro slice_blit_same) (simp add: l2)
  finally show "slice bin ce (ce + length pb) = pb" .
  show "drop 16 bin = sh @ drop ce bin"
    using assms(1-3) by (simp add: bin blit_def l3)
qed

definition dumps_need :: "codec \<Rightarrow> wire \<Rightarrow> pyval \<Rightarrow> nat" where
  "dumps_need c w d =
     (case rbind (enc c PickleLib (skel [] 0 d)) (\<lambda>skb.
           rbind (rmap_list (\<lambda>a. data2pb a False) (bufs d @ [PBuf (Bytes skb)])) (\<lambda>pbs.
           Inr (16 + sum_list (block_sizes d) + length skb + length (ser_arrays w pbs)))) of
        Inr n \<Rightarrow> n | Inl e \<Rightarrow> 0)"

lemma dumps_source_size: "dumps_source v = Inr s \<Longrightarrow> byte_size v = Inr (length (snd s))"
  by (auto simp: dumps_source_def byte_size_def shm_source_def np_view_u8_def nd_nbytes_def ascontiguous_def
      res_simps split: pyval.splits buf.splits if_splits)

lemma sizes_of_dumps_sources:
  "rmap_list dumps_source vs = Inr ss \<Longrightarrow>
   map (\<lambda>v. case byte_size v of Inr n \<Rightarrow> n | Inl e \<Rightarrow> 0) vs = map (length \<circ> snd) ss"
  by (induction vs arbitrary: ss) (auto simp: res_simps dest: dumps_source_size)

lemma dumps_result:
  assumes "all_bufs sendable d" and "all_bufs dumps_viewable d" and plain: "plain json_index_key d"
    and codec: "enc c PickleLib (skel [] 0 d) = Inr skb" "dec c PickleLib skb = Inr (skel [] 0 d)"
    and sent: "rmap_list (\<lambda>a. data2pb a False) (bufs d @ [PBuf (Bytes skb)]) = Inr pbs"
    and wire: "parse_arrays w (ser_arrays w pbs) = Inr pbs"
    and buffer: "case buffer of None \<Rightarrow> length (np_empty (dumps_need c w d)) = dumps_need c w d
      | Some b \<Rightarrow> dumps_need c w d \<le> length b"
    and bound: "dumps_need c w d < 256 ^ 8"
  shows "\<exists>bin. dumps c w np_empty no_optree d mt buffer = Inr bin \<and>
    loads c w bin = Inr (map_leaf (on_buf shm_recv) d)"
proof -
  obtain ps ss ms where
    b: "rmap_list (\<lambda>a. data2pb a False) (bufs d) = Inr ps" "rmap_list dumps_source (bufs d) = Inr ss"
     "rmap_list pb2meta ps = Inr ms" "list_all2 (meta_ok reduce_len) ms (map (length \<circ> snd) ss)"
     "map2 read_array ms (map snd ss) = map (on_buf shm_recv) (bufs d)"
    using blocks_ok[of "bufs d" dumps_source reduce_len] dumps_blocks[OF assms(1,2)] by blast
  have sz: "map (length \<circ> snd) ss = block_sizes d"
    using sizes_of_dumps_sources[OF b(2)] by (simp add: block_sizes_def)
  have pbs_def: "pbs = ps @ [bytes2pb skb False]"
    using sent by (simp add: rmap_list_append b data2pb_skeleton)
  define pb where "pb = ser_arrays w pbs"
  define s where "s = sum_list (block_sizes d)"
  define ce where "ce = 16 + s + length skb"
  have need: "dumps_need c w d = ce + length pb"
    by (simp add: dumps_need_def codec rmap_list_append b data2pb_skeleton ce_def s_def pb_def pbs_def)
  define buf0 where "buf0 = (case buffer of None \<Rightarrow> np_empty (ce + length pb) | Some b \<Rightarrow> b)"
  have buf0: "ce + length pb \<le> length buf0"
    using buffer by (auto simp: buf0_def need split: option.splits)
  define lay where "lay = dumps_layout ce (ce + length pb) pb buf0"
  define sh0 where "sh0 = slice lay 16 ce"
  have lay: "length lay = length buf0"
    using buf0 by (simp add: lay_def dumps_layout_def ce_def)
  have sh0: "length sh0 = s + length skb" using buf0 by (simp add: sh0_def lay ce_def)
  have le: "layout_end 0 0 (block_sizes d) = s" by (simp add: layout_end_0 s_def)
  obtain sh1 where w1: "shm_write mt 0 ss 0 sh0 = (Inr s, sh1)" and l1: "length sh1 = length sh0"
    and sl: "layout_slices 0 sh1 0 (block_sizes d) = map snd ss"
    using shm_write_fits[of 0 0 ss sh0 mt] by (auto simp: le sh0 sz)
  define sh2 where "sh2 = blit sh1 s skb"
  have np: "np_assign sh1 s skb = Inr sh2" by (simp add: np_assign_fits l1 sh0 sh2_def)
  have l2: "length sh2 = ce - 16" by (simp add: sh2_def l1 sh0 ce_def)
  define bin where "bin = blit lay 16 sh2"
  have sumE: "sum_list (map (length \<circ> snd) ss) = s" by (simp add: sz s_def)
  have ceE: "16 + s + length skb = ce" "Suc (Suc (Suc 0)) = 3" by (simp_all add: ce_def)
  have pbE: "ser_arrays w (ps @ [bytes2pb skb False]) = pb" by (simp add: pb_def pbs_def)
  have alloc: "(case buffer of None \<Rightarrow> Inr (np_empty (s + length skb + length pb + 16))
       | Some b \<Rightarrow> rbind (rassert (s + length skb + length pb + 16 \<le> length b)) (\<lambda>_. Inr b)) = Inr buf0"
    using buffer by (cases buffer) (simp_all add: buf0_def need ce_def ac_simps)
  have ok: "dumps c w np_empty no_optree d mt buffer = Inr bin"
    using sumE ceE pbE alloc w1 np
    by (simp add: dumps_def extract_default codec(1) rmap_list_append b(1,2) data2pb_skeleton Let_def bin_def
        cong: option.case_cong prod.case_cong sum.case_cong flip: lay_def sh0_def)
  note rd = dumps_layout_slices[of ce pb buf0 sh2, OF _ buf0 l2, folded lay_def bin_def]
  have rd1: "le_nat (slice bin 0 8) = ce" "le_nat (slice bin 8 16) = ce + length pb"
    "slice bin ce (ce + length pb) = pb" "drop 16 bin = sh2 @ drop ce bin"
    using rd bound by (simp_all add: need ce_def bin_def)
  have keep: "layout_slices 0 sh2 st ns = layout_slices 0 sh1 st ns" if "layout_end 0 st ns \<le> s" for st ns
    using that
  proof (induction ns arbitrary: st)
    case (Cons n ns)
    have "st + n \<le> s" using Cons.prems layout_end_ge[of "st + n" ns 0] by simp
    then have "slice sh2 st (st + n) = slice sh1 st (st + n)"
      unfolding sh2_def by (intro slice_blit_before) (simp_all add: l1 sh0)
    then show ?case using Cons by simp
  qed simp
  have ms: "rmap_list pb2meta pbs = Inr (ms @ [([length skb], native_dtype UInt8)])"
    by (simp add: pbs_def rmap_list_append b pb2meta_skeleton)
  have "layout_slices 0 (sh2 @ drop ce bin) 0 (block_sizes d) = map snd ss"
    using layout_slices_append[of 0 0 "block_sizes d" sh2] le keep[of 0 "block_sizes d"] sl
    by (simp add: l2 ce_def sz)
  then have "shm_read reduce_len 0 (drop 16 bin) ms 0 = Inr (map (on_buf shm_recv) (bufs d), s)"
    using shm_read_layout[OF b(4), of 0 0 "drop 16 bin"] b(5) le
    by (simp add: rd1(4) sz l2 ce_def)
  moreover have "slice (drop 16 bin) s (s + length skb) = skb"
    using slice_blit_same[of s skb sh1] by (simp add: rd1(4) sh2_def slice_def l1 sh0)
  moreover have "parse_arrays w (slice bin ce (ce + length pb)) = Inr pbs"
    unfolding rd1(3) unfolding pb_def by (rule wire)
  ultimately have "loads c w bin = Inr (map_leaf (on_buf shm_recv) d)"
    using plain_index[OF plain, of shm_recv]
    by (simp add: loads_def Let_def rd1(1,2) ms codec(2))
  with ok show ?thesis by blast
qed

subsection \<open>Properties\<close>

text \<open>
  A serialiser for the witnesses: it knows one skeleton and its encoding \<open>[1, 2]\<close>.
\<close>

definition one_codec :: "pyval \<Rightarrow> codec" where
  "one_codec sk = \<lparr>enc = (\<lambda>l x. if x = sk then Inr [1, 2] else Inl ValueError),
     dec = (\<lambda>l b. if b = [1, 2] then Inr (norm_lib l sk) else Inl ValueError)\<rparr>"

definition sample :: pyval where
  "sample = PDict [(KStr ''x'', PBuf (NdArr \<lparr>nd_dtype = native_dtype Int16, nd_shape = [2],
      nd_data = [1, 0, 2, 0], nd_contig = False, nd_last_contig = True\<rparr>)),
    (KStr ''y'', PTuple [PBuf (Bytes [9]), PInt 3])]"

lemma sample_ok:
  "plain json_index_key sample" "plain [] sample" "all_bufs sendable sample" "all_bufs shm_viewable sample"
  "all_bufs dumps_viewable sample" "\<not> bare_ref sample" "block_sizes sample = [4, 1]"
  by (simp_all add: sample_def json_index_key_def dict_ok_def all_bufs_def ndarray_ok_def nd_nbytes_def
      itemsize_def native_dtype_def npdtype_to_pb_def np_view_u8_def block_sizes_def byte_size_def)

text \<open>
  C1: a value sent by \<open>data_to_pb\<close> with one of the three array methods is what \<open>data_from_pb\<close>
  returns (arrays contiguous, \<open>JSArrayBuffer\<close> as bytes, and tuples as lists for JSON and
  msgpack), when the serialiser restores the skeleton, the arrays have a supported dtype, the data
  does not use the reference key, and, for JSON and msgpack, it is not a bare buffer.
\<close>

theorem data_pb_roundtrip:
  assumes "array_method m l ji" and "plain ji d" and "ji \<noteq> [] \<longrightarrow> \<not> bare_ref d"
    and "all_bufs sendable d" and "codec_inverts c l (skel ji 0 d)"
  shows "rbind (data_to_pb c no_optree d m) (\<lambda>pbs. data_from_pb c pbs m) =
    Inr (norm_lib l (map_leaf (on_buf recv_buf) d))"
  using data_pb_ok[of m l ji d c] assms by auto

theorem data_pb_roundtrip_witness:
  "rbind (data_to_pb (one_codec (skel json_index_key 0 sample)) no_optree sample 16)
     (\<lambda>pbs. data_from_pb (one_codec (skel json_index_key 0 sample)) pbs 16) =
   Inr (norm_lib JsonLib (map_leaf (on_buf recv_buf) sample))"
  by (rule data_pb_roundtrip[where ji = json_index_key])
    (simp_all add: sample_ok array_method_def encode_mask_def codec_inverts_def one_codec_def)

text \<open>
  With \<open>PickleArray\<close> the empty string is the reference key of the decoder, so a value whose
  inner dict has the key \<open>""\<close> is decoded as something else although \<open>pickle\<close> restored it.
\<close>

lemma pickle_empty_key_lost:
  assumes "codec_inverts c PickleLib (PList [PDict [(KStr [], PList [PInt n, PInt 2])]])"
  shows "rbind (data_to_pb c no_optree (PList [PDict [(KStr [], PList [PInt n, PInt 2])]]) 32)
     (\<lambda>pbs. data_from_pb c pbs 32) = Inr (PList [PSpecial (PInt n) 2])"
proof -
  let ?d = "PList [PDict [(KStr [], PList [PInt n, PInt 2])]]"
  obtain b where b: "enc c PickleLib ?d = Inr b" "dec c PickleLib b = Inr ?d"
    using codec_invertsE[OF assms] by (auto simp: norm_lib_def)
  have m: "(32 :: int) AND encode_mask = 32" "(32 :: int) AND encode_array_mask \<noteq> 0"
    by (simp_all add: encode_mask_def encode_array_mask_def)
  have p: "pb2data (bytes2pb b True) = Inr (Bytes b)" by (simp add: pb2data_def bytes2pb_def)
  show ?thesis
    by (simp add: data_to_pb_def data_from_pb_def Let_def m enable_json_index_def extract_default method_dump_def
        method_load_def method_lib_def b data2pb_def p dict_entry_def has_flag_def FLAG_ARRAY_def
        FLAG_FREEZE_def FLAG_JSON_ONLY_def)
qed

lemma pickle_empty_key_lost_witness:
  "rbind (data_to_pb (one_codec (PList [PDict [(KStr [], PList [PInt 5, PInt 2])]])) no_optree
      (PList [PDict [(KStr [], PList [PInt 5, PInt 2])]]) 32)
     (\<lambda>pbs. data_from_pb (one_codec (PList [PDict [(KStr [], PList [PInt 5, PInt 2])]])) pbs 32) =
   Inr (PList [PSpecial (PInt 5) 2])"
  by (rule pickle_empty_key_lost) (simp add: codec_inverts_def one_codec_def norm_lib_def)



text \<open>
  writing to shared memory succeeds exactly when the aligned layout fits. The code's own size
  check compares the sum without alignment gaps, so it accepts buffers on which the copy then raises.
\<close>

lemma shm_write_succeeds_iff:
  assumes "all_bufs sendable d" and "all_bufs shm_viewable d"
    and "enc c PickleLib (skel [] 0 d) = Inr skb" and "2 \<le> length skb"
  shows "(\<exists>pbs mem'. data_to_pb_shmem c no_optree d mt al mem = (Inr pbs, mem')) \<longleftrightarrow>
    layout_end al 0 (block_sizes d) + length skb \<le> length mem"
  using shm_success_iff[of d c skb mt al mem] assms by blast

lemma shm_write_succeeds_iff_witness:
  "\<not> (\<exists>pbs mem'. data_to_pb_shmem (one_codec (skel [] 0 sample)) no_optree sample False 8 (replicate 10 0) = (Inr pbs, mem'))
   \<and> sum_list (block_sizes sample) + length [1 :: 8 word, 2] \<le> length (replicate 10 (0 :: 8 word))"
  using shm_write_succeeds_iff[of sample "one_codec (skel [] 0 sample)" "[1, 2]" False 8 "replicate 10 0"]
  by (simp add: sample_ok one_codec_def norm_lib_def align_offset_def)


definition sample_pbs :: "pb_ndarray list" where
  "sample_pbs = [\<lparr>pb_shape = [2], pb_dtype = \<lparr>pb_type = PbInt16, pb_order = PbNative\<rparr>, pb_data = []\<rparr>,
     bytes2pb [9] False, bytes2pb [1, 2] False]"

lemma sample_sent:
  "rmap_list (\<lambda>a. data2pb a False) (bufs sample @ [PBuf (Bytes [1, 2])]) = Inr sample_pbs"
  by (simp add: sample_def sample_pbs_def data2pb_def array2pb_def npdtype_to_pb_def native_dtype_def bytes2pb_def)


end
