(* ===== verification/CoreIO_Stream.thy ===== *)
theory CoreIO_Stream
  imports CoreIO_Pb
begin

text \<open>
  \<open>core/core_io.py\<close>, fourth part: the chunked streams of the streaming calls
  (\<open>to_protobuf_stream_gen\<close> and \<open>FromBufferStream\<close>).

  A message is one \<open>RemoteCallStream\<close>. The sender is a generator: \<open>stream_gen\<close> returns the messages
  it yields and how it ends. The receiver is a state machine fed message by message. Its attributes
  \<open>current_is_np_arr\<close> and \<open>accum_buf_length\<close> do not exist before the first chunk 0 or \<open>clear\<close>
  (\<open>fs_is_np = None\<close>). The content of \<open>np.empty\<close> is the parameter \<open>np_empty\<close>.
\<close>

subsection \<open>Sending\<close>

record stream_msg =
  m_num_chunk :: int
  m_chunk_id :: int
  m_num_args :: int
  m_arg_id :: int
  m_flags :: int
  m_dtype :: pb_dtype
  m_data :: bytes
  m_func_key :: string
  m_shape :: "nat list"
  m_exception :: bytes

definition bytes_dtype :: "pb_type \<Rightarrow> pb_dtype" where
  "bytes_dtype t = \<lparr>pb_type = t, pb_order = PbLittleEndian\<rparr>"

definition stream_chunks :: "nat \<Rightarrow> nat \<Rightarrow> nat \<Rightarrow> pb_dtype \<Rightarrow> string \<Rightarrow> int \<Rightarrow> nat list \<Rightarrow> nat \<Rightarrow> bytes \<Rightarrow> stream_msg list" where
  "stream_chunks num_chunk num_args arg_idx dt func_key flags shape chunk_size data =
     map (\<lambda>i. \<lparr>m_num_chunk = int num_chunk, m_chunk_id = int i, m_num_args = int num_args,
         m_arg_id = int arg_idx, m_flags = flags, m_dtype = dt,
         m_data = slice data (i * chunk_size) ((i + 1) * chunk_size), m_func_key = func_key,
         m_shape = (if i = 0 then shape else []), m_exception = []\<rparr>) [0..<num_chunk]"

text \<open>The dtype, shape and length of one argument, then its bytes.\<close>

definition stream_head :: "pyval \<Rightarrow> (pb_dtype \<times> nat list \<times> nat) res" where
  "stream_head arg = (case arg of
       PBuf (NdArr a) \<Rightarrow>
         let order = order_to_pb (dorder (nd_dtype a)) in
         rbind (npdtype_to_pb (nd_dtype a)) (\<lambda>t.
         Inr (\<lparr>pb_type = t, pb_order = order\<rparr>, nd_shape a, nd_nbytes a))
     | PBuf (Bytes b) \<Rightarrow> Inr (bytes_dtype PbCustomBytes, [], length b)
     | PBuf (JSBuf b c) \<Rightarrow> Inr (bytes_dtype PbBase64, [], length b)
     | _ \<Rightarrow> Inl NotImplementedError)"

definition stream_source :: "pyval \<Rightarrow> bytes res" where
  "stream_source arg = (case arg of
       PBuf (NdArr a) \<Rightarrow> np_view_u8 (if \<not> nd_contig a then ascontiguous a else a)
     | PBuf (Bytes b) \<Rightarrow> Inr b
     | PBuf (JSBuf b c) \<Rightarrow> Inr b
     | _ \<Rightarrow> Inl NotImplementedError)"

definition stream_arg :: "nat \<Rightarrow> string \<Rightarrow> int \<Rightarrow> nat \<Rightarrow> nat \<Rightarrow> pyval \<Rightarrow> stream_msg list res" where
  "stream_arg num_args func_key flags chunk_size arg_idx arg =
     rbind (stream_head arg) (\<lambda>(dt, shape, len).
     if chunk_size = 0 then Inl ZeroDivisionError else
     let num_chunk = div_up len chunk_size;
         num_chunk = (if num_chunk = 0 then 1 else num_chunk) in
     rbind (stream_source arg) (\<lambda>data.
     Inr (stream_chunks num_chunk num_args arg_idx dt func_key flags shape chunk_size data)))"

fun stream_args :: "nat \<Rightarrow> string \<Rightarrow> int \<Rightarrow> nat \<Rightarrow> nat \<Rightarrow> pyval list \<Rightarrow> stream_msg list \<times> unit res" where
  "stream_args num_args func_key flags chunk_size idx [] = ([], Inr ())"
| "stream_args num_args func_key flags chunk_size idx (arg # args) =
     (case stream_arg num_args func_key flags chunk_size idx arg of
        Inl e \<Rightarrow> ([], Inl e)
      | Inr ms \<Rightarrow> (case stream_args num_args func_key flags chunk_size (Suc idx) args of
          (ms', r) \<Rightarrow> (ms @ ms', r)))"

text \<open>\<open>arg_ids[-1] = -1\<close> raises on an empty list.\<close>

definition stream_gen :: "pyval list \<Rightarrow> string \<Rightarrow> int \<Rightarrow> nat \<Rightarrow> stream_msg list \<times> unit res" where
  "stream_gen data_list func_key flags chunk_size =
     (if data_list = [] then ([], Inl IndexError)
      else stream_args (length data_list) func_key flags chunk_size 0 data_list)"

definition to_protobuf_stream :: "pyval list \<Rightarrow> string \<Rightarrow> int \<Rightarrow> nat \<Rightarrow> stream_msg list res" where
  "to_protobuf_stream data_list func_key flags chunk_size =
     (case stream_gen data_list func_key flags chunk_size of
        (ms, Inl e) \<Rightarrow> Inl e | (ms, Inr _) \<Rightarrow> Inr ms)"

subsection \<open>Receiving\<close>

record from_stream =
  fs_num_args :: int
  fs_buf_length :: int
  fs_accum :: int
  fs_shape :: "nat list option"
  fs_dtype :: "pb_dtype option"
  fs_is_np :: "bool option"
  fs_func_key :: "string option"
  fs_datas :: "bytes list"
  fs_args :: "pyval list"

definition fs_init :: from_stream where
  "fs_init = \<lparr>fs_num_args = -1, fs_buf_length = -1, fs_accum = 0, fs_shape = None, fs_dtype = None,
     fs_is_np = None, fs_func_key = None, fs_datas = [], fs_args = []\<rparr>"

definition fs_clear :: "from_stream \<Rightarrow> from_stream" where
  "fs_clear s = s\<lparr>fs_num_args := -1, fs_buf_length := -1, fs_accum := -1, fs_shape := None,
     fs_dtype := None, fs_is_np := Some False, fs_func_key := None, fs_datas := [], fs_args := []\<rparr>"

definition fs_begin :: "stream_msg \<Rightarrow> from_stream \<Rightarrow> from_stream" where
  "fs_begin b s =
     (let s = (if m_arg_id b = 0 then s\<lparr>fs_num_args := m_num_args b\<rparr> else s) in
      if m_chunk_id b = 0
      then s\<lparr>fs_shape := Some (m_shape b), fs_buf_length := m_num_chunk b, fs_dtype := Some (m_dtype b),
             fs_func_key := Some (m_func_key b),
             fs_is_np := Some (pb_type (m_dtype b) \<noteq> PbCustomBytes \<and> pb_type (m_dtype b) \<noteq> PbBase64),
             fs_datas := [], fs_accum := 0\<rparr>
      else s)"

text \<open>Chunk 0 of an array allocates it; every chunk is copied to its place.\<close>

definition fs_alloc :: "(nat \<Rightarrow> bytes) \<Rightarrow> stream_msg \<Rightarrow> from_stream \<Rightarrow> from_stream res" where
  "fs_alloc np_empty b s =
     (if m_chunk_id b = 0
      then (case (fs_dtype s, fs_shape s) of
          (Some cd, Some shape) \<Rightarrow>
            let byte_order = inv_order_to_pb (pb_order cd) in
            rbind (inv_npdtype_to_pb (pb_type cd)) (\<lambda>dt.
            let dt = newbyteorder dt byte_order in
            Inr (s\<lparr>fs_args := fs_args s @ [PBuf (NdArr \<lparr>nd_dtype = dt, nd_shape = shape,
              nd_data = np_empty (prod_list shape * itemsize dt), nd_contig = True, nd_last_contig = True\<rparr>)]\<rparr>))
        | _ \<Rightarrow> Inl AssertionError)
      else Inr s)"

definition fs_store :: "(nat \<Rightarrow> bytes) \<Rightarrow> bool \<Rightarrow> stream_msg \<Rightarrow> (from_stream, unit) act" where
  "fs_store np_empty is_np b s =
     (if is_np
      then (case fs_alloc np_empty b s of
          Inl e \<Rightarrow> (Inl e, s)
        | Inr s \<Rightarrow>
            (if fs_args s = [] then (Inl IndexError, s)
             else case last (fs_args s) of
               PBuf (NdArr a) \<Rightarrow>
                 (case np_assign (nd_data a) (nat (fs_accum s)) (m_data b) of
                    Inl e \<Rightarrow> (Inl e, s)
                  | Inr d \<Rightarrow> (Inr (), s\<lparr>fs_args := butlast (fs_args s) @ [PBuf (NdArr (a\<lparr>nd_data := d\<rparr>))]\<rparr>))
             | _ \<Rightarrow> (Inl AttributeError, s)))
      else (Inr (), s\<lparr>fs_datas := fs_datas s @ [m_data b]\<rparr>))"

definition fs_single :: "from_stream \<Rightarrow> pb_ndarray" where
  "fs_single s = \<lparr>pb_shape = (case fs_shape s of None \<Rightarrow> [] | Some sh \<Rightarrow> sh),
     pb_dtype = (case fs_dtype s of None \<Rightarrow> \<lparr>pb_type = PbFloat64, pb_order = PbLittleEndian\<rparr> | Some d \<Rightarrow> d),
     pb_data = concat (fs_datas s)\<rparr>"

definition fs_finish :: "bool \<Rightarrow> stream_msg \<Rightarrow> (from_stream, (pyval list \<times> string option) option) act" where
  "fs_finish is_np b s =
     (if m_chunk_id b = m_num_chunk b - 1
      then (case (if is_np then Inr s
                  else if fs_datas s = [] then Inl AssertionError
                  else rbind (pb2data (fs_single s)) (\<lambda>v. Inr (s\<lparr>fs_args := fs_args s @ [PBuf v]\<rparr>))) of
          Inl e \<Rightarrow> (Inl e, s)
        | Inr s \<Rightarrow>
            let s = s\<lparr>fs_datas := [], fs_accum := 0, fs_is_np := Some False\<rparr> in
            if m_arg_id b = m_num_args b - 1
            then (if fs_args s = [] then (Inl AssertionError, s)
                  else (Inr (Some (fs_args s, fs_func_key s)), s\<lparr>fs_args := []\<rparr>))
            else (Inr None, s\<lparr>fs_accum := fs_accum s + int (length (m_data b))\<rparr>))
      else (Inr None, s\<lparr>fs_accum := fs_accum s + int (length (m_data b))\<rparr>))"

definition fs_call :: "(nat \<Rightarrow> bytes) \<Rightarrow> stream_msg \<Rightarrow> (from_stream, (pyval list \<times> string option) option) act" where
  "fs_call np_empty b s =
     (let s = fs_begin b s in
      case fs_is_np s of
        None \<Rightarrow> (Inl AttributeError, s)
      | Some is_np \<Rightarrow> abind (fs_store np_empty is_np b) (\<lambda>_. fs_finish is_np b) s)"

text \<open>\<open>generator\<close>: the values it yields with their last message, and how it ends.\<close>

definition check_remote_exception :: "codec \<Rightarrow> bytes \<Rightarrow> unit res" where
  "check_remote_exception c exc =
     (if exc = [] then Inr ()
      else rbind (dec c JsonLib exc) (\<lambda>v.
        case v of
          PDict m \<Rightarrow> if dmem (KStr ''detail'') m then Inl RemoteException else Inl KeyError
        | _ \<Rightarrow> Inl TypeError))"

definition stream_value :: "codec \<Rightarrow> pyval list \<Rightarrow> int \<Rightarrow> pyval res" where
  "stream_value c incoming flags =
     (case last incoming of
        PBuf b \<Rightarrow> rbind (loads_method c (buf_bytes b) flags) (\<lambda>skeleton.
          put_arrays (butlast incoming) json_index_key skeleton)
      | _ \<Rightarrow> Inl TypeError)"

fun generator :: "codec \<Rightarrow> (nat \<Rightarrow> bytes) \<Rightarrow> stream_msg list \<Rightarrow> from_stream \<Rightarrow>
    (stream_msg \<times> pyval) list \<times> unit res \<times> from_stream" where
  "generator c np_empty [] s = ([], Inr (), s)"
| "generator c np_empty (b # bs) s =
     (case check_remote_exception c (m_exception b) of
        Inl e \<Rightarrow> ([], Inl e, s)
      | Inr _ \<Rightarrow> (case fs_call np_empty b s of
          (Inl e, s) \<Rightarrow> ([], Inl e, s)
        | (Inr None, s) \<Rightarrow> generator c np_empty bs s
        | (Inr (Some (incoming, _)), s) \<Rightarrow>
            let s = fs_clear s in
            (case stream_value c incoming (m_flags b) of
               Inl e \<Rightarrow> ([], Inl e, s)
             | Inr v \<Rightarrow> (case generator c np_empty bs s of (ys, r) \<Rightarrow> ((b, v) # ys, r)))))"

text \<open>\<open>generator_async\<close> is the same loop over an async iterator; the state belongs to the object.\<close>

definition generator_async :: "codec \<Rightarrow> (nat \<Rightarrow> bytes) \<Rightarrow> stream_msg list \<Rightarrow> from_stream \<Rightarrow>
    (stream_msg \<times> pyval) list \<times> unit res \<times> from_stream" where
  "generator_async c np_empty bs s = generator c np_empty bs s"

text \<open>
  The callers: the client sends each request of \<open>chunked_stream_remote_call\<close> as one transfer, the
  server answers with one, and \<open>_extract_chunked_data\<close> takes the first request of a stream.
\<close>

fun chunked_sender :: "codec \<Rightarrow> 't optree \<Rightarrow> string \<Rightarrow> int \<Rightarrow> nat \<Rightarrow> pyval list \<Rightarrow> stream_msg list \<times> unit res" where
  "chunked_sender c opt key flags chunk_size [] = ([], Inr ())"
| "chunked_sender c opt key flags chunk_size (data # datas) =
     (case rbind (extract_arrays_from_data opt data default_classes [] False None) (\<lambda>(arrays, skeleton, _).
           rbind (dumps_method c skeleton flags) (\<lambda>b. Inr (arrays @ [PBuf (Bytes b)]))) of
        Inl e \<Rightarrow> ([], Inl e)
      | Inr to_send \<Rightarrow> (case stream_gen to_send key flags chunk_size of
          (ms, Inl e) \<Rightarrow> (ms, Inl e)
        | (ms, Inr _) \<Rightarrow> (case chunked_sender c opt key flags chunk_size datas of (ms', r) \<Rightarrow> (ms @ ms', r))))"

definition return_chunked_sender :: "codec \<Rightarrow> 't optree \<Rightarrow> string \<Rightarrow> stream_msg \<Rightarrow> pyval \<Rightarrow> stream_msg list \<times> unit res" where
  "return_chunked_sender c opt key req v = chunked_sender c opt key (m_flags req) (256 * 1024) [PList [v]]"

definition extract_chunked_data :: "codec \<Rightarrow> (nat \<Rightarrow> bytes) \<Rightarrow> stream_msg list \<Rightarrow> (string \<times> stream_msg \<times> pyval) res" where
  "extract_chunked_data c np_empty ms =
     (case generator c np_empty ms fs_init of
        ((req, v) # _, _) \<Rightarrow> if v = PNone then Inl AssertionError else Inr (m_func_key req, req, v)
      | ([], Inl e, _) \<Rightarrow> Inl e
      | ([], Inr _, _) \<Rightarrow> Inl AssertionError)"

subsection \<open>Feeding the chunks of one argument\<close>

text \<open>
  One transfer: the argument's bytes \<open>tr_data\<close> in chunks of \<open>tr_size\<close>, the memory \<open>tr_garbage\<close> that
  \<open>np.empty\<close> returns for it, and the arguments received before it.
\<close>

record transfer =
  tr_np :: bool
  tr_size :: nat
  tr_data :: bytes
  tr_garbage :: bytes
  tr_pb :: pb_dtype
  tr_dtype :: np_dtype
  tr_shape :: "nat list"
  tr_key :: string
  tr_done :: "pyval list"

definition tr_num :: "transfer \<Rightarrow> nat" where
  "tr_num t = (if div_up (length (tr_data t)) (tr_size t) = 0 then 1 else div_up (length (tr_data t)) (tr_size t))"

definition tr_array :: "transfer \<Rightarrow> bytes \<Rightarrow> pyval" where
  "tr_array t d = PBuf (NdArr \<lparr>nd_dtype = tr_dtype t, nd_shape = tr_shape t, nd_data = d, nd_contig = True,
     nd_last_contig = True\<rparr>)"

definition tr_partial :: "transfer \<Rightarrow> nat \<Rightarrow> bytes" where
  "tr_partial t k = take (k * tr_size t) (tr_data t) @ drop (k * tr_size t) (tr_garbage t)"

definition tr_value :: "transfer \<Rightarrow> pyval" where
  "tr_value t = (if tr_np t then tr_array t (tr_data t)
     else PBuf (if pb_type (tr_pb t) = PbCustomBytes then Bytes (tr_data t) else jsbuf_init (tr_data t) False))"

definition tr_msg :: "transfer \<Rightarrow> nat \<Rightarrow> nat \<Rightarrow> int \<Rightarrow> nat \<Rightarrow> stream_msg" where
  "tr_msg t n idx flags k = \<lparr>m_num_chunk = int (tr_num t), m_chunk_id = int k, m_num_args = int n,
     m_arg_id = int idx, m_flags = flags, m_dtype = tr_pb t,
     m_data = slice (tr_data t) (k * tr_size t) ((k + 1) * tr_size t), m_func_key = tr_key t,
     m_shape = (if k = 0 then tr_shape t else []), m_exception = []\<rparr>"

definition tr_ok :: "(nat \<Rightarrow> bytes) \<Rightarrow> transfer \<Rightarrow> bool" where
  "tr_ok np_empty t \<longleftrightarrow> 0 < tr_size t \<and>
     tr_np t = (pb_type (tr_pb t) \<noteq> PbCustomBytes \<and> pb_type (tr_pb t) \<noteq> PbBase64) \<and>
     (tr_np t \<longrightarrow> length (tr_garbage t) = length (tr_data t) \<and>
        rbind (inv_npdtype_to_pb (pb_type (tr_pb t)))
          (\<lambda>d. Inr (newbyteorder d (inv_order_to_pb (pb_order (tr_pb t))))) = Inr (tr_dtype t) \<and>
        np_empty (prod_list (tr_shape t) * itemsize (tr_dtype t)) = tr_garbage t)"

definition tr_common :: "transfer \<Rightarrow> nat \<Rightarrow> from_stream \<Rightarrow> bool" where
  "tr_common t k s \<longleftrightarrow> fs_is_np s = Some (tr_np t) \<and> fs_accum s = int (k * tr_size t) \<and>
     fs_dtype s = Some (tr_pb t) \<and> fs_shape s = Some (tr_shape t) \<and> fs_func_key s = Some (tr_key t)"

definition tr_before :: "transfer \<Rightarrow> nat \<Rightarrow> from_stream \<Rightarrow> bool" where
  "tr_before t k s \<longleftrightarrow> tr_common t k s \<and>
     (if tr_np t then fs_args s = tr_done t @ (if k = 0 then [] else [tr_array t (tr_partial t k)])
      else fs_args s = tr_done t \<and> concat (fs_datas s) = take (k * tr_size t) (tr_data t))"

definition tr_after :: "transfer \<Rightarrow> nat \<Rightarrow> from_stream \<Rightarrow> bool" where
  "tr_after t k s \<longleftrightarrow> tr_common t k s \<and>
     (if tr_np t then fs_args s = tr_done t @ [tr_array t (tr_partial t (Suc k))]
      else fs_args s = tr_done t \<and> fs_datas s \<noteq> [] \<and>
        concat (fs_datas s) = take (Suc k * tr_size t) (tr_data t))"

lemma tr_num_bounds:
  assumes "0 < tr_size t"
  shows "0 < tr_num t" and "length (tr_data t) \<le> tr_num t * tr_size t"
    and "k < tr_num t \<Longrightarrow> k * tr_size t \<le> length (tr_data t)"
    and "Suc k < tr_num t \<Longrightarrow> Suc k * tr_size t \<le> length (tr_data t)"
proof -
  note b = div_up_bounds(1)[OF assms, of "length (tr_data t)"]
    div_up_bounds(2)[OF assms, where a = "length (tr_data t)"]
  show "0 < tr_num t" by (simp add: tr_num_def)
  show "length (tr_data t) \<le> tr_num t * tr_size t" using b(1) by (auto simp: tr_num_def)
  show "k * tr_size t \<le> length (tr_data t)" if "k < tr_num t"
    using b(2)[where k = k] that by (auto simp: tr_num_def split: if_splits)
  show "Suc k * tr_size t \<le> length (tr_data t)" if "Suc k < tr_num t"
    using b(2)[where k = "Suc k"] that by (auto simp: tr_num_def split: if_splits)
qed

lemma np_assign_partial:
  assumes "length (tr_garbage t) = length (tr_data t)" and "k * tr_size t \<le> length (tr_data t)"
  shows "np_assign (tr_partial t k) (k * tr_size t) (slice (tr_data t) (k * tr_size t) ((k + 1) * tr_size t)) =
    Inr (tr_partial t (Suc k))"
proof -
  let ?a = "k * tr_size t" and ?c = "tr_size t" and ?d = "tr_data t" and ?g = "tr_garbage t"
  define x where "x = slice ?d ?a (?a + ?c)"
  have len: "length (tr_partial t k) = length ?d" using assms by (simp add: tr_partial_def)
  have x: "length x = min ?c (length ?d - ?a)" by (simp add: x_def)
  have "?a + length x \<le> length (tr_partial t k)" using assms(2) x len by simp
  then have "np_assign (tr_partial t k) ?a x = Inr (blit (tr_partial t k) ?a x)" by (rule np_assign_fits)
  moreover have "blit (tr_partial t k) ?a x = tr_partial t (Suc k)"
  proof -
    have "take (?a + ?c) ?d = take ?a ?d @ x" by (simp add: x_def slice_def take_add)
    moreover have "drop (?a + length x) (tr_partial t k) = drop (?a + ?c) ?g"
      using assms x by (auto simp: tr_partial_def min_def)
    moreover have "take ?a (tr_partial t k) = take ?a ?d" using assms by (simp add: tr_partial_def)
    ultimately show ?thesis by (simp add: blit_def tr_partial_def add.commute)
  qed
  ultimately show ?thesis by (simp add: x_def add.commute)
qed

lemma fs_begin_first:
  assumes "tr_ok np_empty t" and "fs_args s = tr_done t"
  shows "tr_before t 0 (fs_begin (tr_msg t n idx fl 0) s)"
  using assms by (auto simp: tr_before_def tr_common_def fs_begin_def tr_msg_def tr_ok_def Let_def)

lemma fs_begin_later:
  assumes "tr_before t k s" and "0 < k"
  shows "tr_before t k (fs_begin (tr_msg t n idx fl k) s)"
  using assms by (auto simp: tr_before_def tr_common_def fs_begin_def tr_msg_def Let_def)

lemma fs_store_step:
  assumes ok: "tr_ok np_empty t" and s: "tr_before t k s" and k: "k < tr_num t"
  shows "\<exists>s'. fs_store np_empty (tr_np t) (tr_msg t n idx fl k) s = (Inr (), s') \<and> tr_after t k s'"
proof (cases "tr_np t")
  case False
  have "take (Suc k * tr_size t) (tr_data t) =
      take (k * tr_size t) (tr_data t) @ slice (tr_data t) (k * tr_size t) (Suc k * tr_size t)"
    using take_add[of "k * tr_size t" "tr_size t" "tr_data t"] by (simp add: slice_def add.commute)
  then show ?thesis
    using False s by (auto simp: fs_store_def tr_before_def tr_after_def tr_common_def tr_msg_def)
next
  case True
  obtain d0 where d0: "inv_npdtype_to_pb (pb_type (tr_pb t)) = Inr d0"
    "newbyteorder d0 (inv_order_to_pb (pb_order (tr_pb t))) = tr_dtype t"
    using ok True by (auto simp: tr_ok_def res_simps)
  have g: "np_empty (prod_list (tr_shape t) * itemsize (tr_dtype t)) = tr_garbage t"
    "length (tr_garbage t) = length (tr_data t)" "0 < tr_size t"
    using ok True by (auto simp: tr_ok_def)
  have "\<exists>s1. fs_alloc np_empty (tr_msg t n idx fl k) s = Inr s1 \<and> tr_common t k s1 \<and>
      fs_args s1 = tr_done t @ [tr_array t (tr_partial t k)]"
  proof (cases k)
    case 0
    then show ?thesis
      using s True by (auto simp: fs_alloc_def tr_before_def tr_common_def tr_msg_def d0 g tr_array_def
          tr_partial_def Let_def)
  next
    case (Suc j)
    then show ?thesis
      using s True by (auto simp: fs_alloc_def tr_before_def tr_common_def tr_msg_def)
  qed
  then obtain s1 where s1: "fs_alloc np_empty (tr_msg t n idx fl k) s = Inr s1" "tr_common t k s1"
    "fs_args s1 = tr_done t @ [tr_array t (tr_partial t k)]"
    by blast
  have "np_assign (tr_partial t k) (nat (fs_accum s1)) (m_data (tr_msg t n idx fl k)) = Inr (tr_partial t (Suc k))"
    using np_assign_partial[OF g(2) tr_num_bounds(3)[OF g(3) k]] s1(2)
    by (simp add: tr_msg_def tr_common_def nat_mult_distrib)
  then show ?thesis
    using s1 True by (simp add: fs_store_def tr_array_def tr_after_def tr_common_def)
qed

lemma fs_finish_middle:
  assumes "tr_ok np_empty t" and "tr_after t k s" and "Suc k < tr_num t"
  shows "\<exists>s'. fs_finish (tr_np t) (tr_msg t n idx fl k) s = (Inr None, s') \<and> tr_before t (Suc k) s'"
proof -
  have "Suc k * tr_size t \<le> length (tr_data t)"
    using tr_num_bounds(4)[of t k] assms by (simp add: tr_ok_def)
  then have "length (m_data (tr_msg t n idx fl k)) = tr_size t"
    by (simp add: tr_msg_def)
  then show ?thesis
    using assms(2,3) by (auto simp: fs_finish_def tr_after_def tr_before_def tr_common_def tr_msg_def
        algebra_simps)
qed

lemma fs_finish_last:
  assumes ok: "tr_ok np_empty t" and s: "tr_after t k s" and k: "Suc k = tr_num t"
  shows "\<exists>s'. fs_finish (tr_np t) (tr_msg t n idx fl k) s =
      (Inr (if Suc idx = n then Some (tr_done t @ [tr_value t], Some (tr_key t)) else None), s') \<and>
    fs_args s' = (if Suc idx = n then [] else tr_done t @ [tr_value t])"
proof -
  have le: "length (tr_data t) \<le> Suc k * tr_size t"
    using tr_num_bounds(2)[of t] ok k by (simp add: tr_ok_def)
  have last: "m_chunk_id (tr_msg t n idx fl k) = m_num_chunk (tr_msg t n idx fl k) - 1"
    using k by (simp add: tr_msg_def flip: k)
  have arg: "(m_arg_id (tr_msg t n idx fl k) = m_num_args (tr_msg t n idx fl k) - 1) = (Suc idx = n)"
    by (auto simp: tr_msg_def)
  show ?thesis
  proof (cases "tr_np t")
    case True
    have "length (tr_garbage t) \<le> Suc k * tr_size t" using ok True le by (simp add: tr_ok_def)
    then have "tr_partial t (Suc k) = tr_data t"
      unfolding tr_partial_def using le by simp
    then show ?thesis
      using s True last arg by (simp add: fs_finish_def tr_after_def tr_common_def tr_value_def Let_def)
  next
    case False
    have "concat (fs_datas s) = tr_data t" using s False le by (simp add: tr_after_def)
    then have "pb2data (fs_single s) = Inr (if pb_type (tr_pb t) = PbCustomBytes then Bytes (tr_data t)
        else jsbuf_init (tr_data t) False)"
      using ok s False by (auto simp: pb2data_def fs_single_def tr_after_def tr_common_def tr_ok_def)
    then show ?thesis
      using s False last arg by (simp add: fs_finish_def tr_after_def tr_common_def tr_value_def Let_def)
  qed
qed

lemma fs_call_step:
  assumes "tr_ok np_empty t" and "tr_before t k (fs_begin (tr_msg t n idx fl k) s)" and "k < tr_num t"
  obtains s1 where "tr_after t k s1"
    and "fs_call np_empty (tr_msg t n idx fl k) s = fs_finish (tr_np t) (tr_msg t n idx fl k) s1"
proof -
  obtain s1 where s1: "fs_store np_empty (tr_np t) (tr_msg t n idx fl k) (fs_begin (tr_msg t n idx fl k) s) = (Inr (), s1)"
    "tr_after t k s1"
    using fs_store_step[OF assms] by blast
  have "fs_is_np (fs_begin (tr_msg t n idx fl k) s) = Some (tr_np t)"
    using assms(2) by (simp add: tr_before_def tr_common_def)
  with s1 show thesis by (intro that[of s1]) (simp_all add: fs_call_def act_simps)
qed

text \<open>What the generator does with the result of its last message.\<close>

definition gen_result :: "codec \<Rightarrow> (nat \<Rightarrow> bytes) \<Rightarrow> stream_msg \<Rightarrow> pyval list \<Rightarrow> stream_msg list \<Rightarrow> from_stream \<Rightarrow>
    (stream_msg \<times> pyval) list \<times> unit res \<times> from_stream" where
  "gen_result c np_empty b incoming bs s =
     (case stream_value c incoming (m_flags b) of
        Inl e \<Rightarrow> ([], Inl e, fs_clear s)
      | Inr v \<Rightarrow> (case generator c np_empty bs (fs_clear s) of (ys, r) \<Rightarrow> ((b, v) # ys, r)))"

lemma check_no_exception [simp]: "check_remote_exception c (m_exception (tr_msg t n idx fl k)) = Inr ()"
  by (simp add: check_remote_exception_def tr_msg_def)

lemma gen_chunks:
  assumes ok: "tr_ok np_empty t" and "k < tr_num t" and "tr_before t k (fs_begin (tr_msg t n idx fl k) s)"
  shows "\<exists>s'. (Suc idx = n \<longrightarrow> generator c np_empty (map (tr_msg t n idx fl) [k..<tr_num t] @ rest) s =
        gen_result c np_empty (tr_msg t n idx fl (tr_num t - 1)) (tr_done t @ [tr_value t]) rest s') \<and>
    (Suc idx \<noteq> n \<longrightarrow> generator c np_empty (map (tr_msg t n idx fl) [k..<tr_num t] @ rest) s =
        generator c np_empty rest s' \<and> fs_args s' = tr_done t @ [tr_value t])"
  using assms(2,3)
proof (induction "tr_num t - k" arbitrary: k s)
  case (Suc m)
  obtain s1 where s1: "tr_after t k s1"
    and call: "fs_call np_empty (tr_msg t n idx fl k) s = fs_finish (tr_np t) (tr_msg t n idx fl k) s1"
    by (rule fs_call_step[OF ok Suc.prems(2,1)])
  have upt: "[k..<tr_num t] = k # [Suc k..<tr_num t]" using Suc.prems(1) by (simp add: upt_conv_Cons)
  show ?case
  proof (cases "Suc k < tr_num t")
    case True
    obtain s2 where s2: "fs_finish (tr_np t) (tr_msg t n idx fl k) s1 = (Inr None, s2)" "tr_before t (Suc k) s2"
      using fs_finish_middle[OF ok s1 True] by blast
    have "tr_before t (Suc k) (fs_begin (tr_msg t n idx fl (Suc k)) s2)"
      by (rule fs_begin_later[OF s2(2)]) simp
    from Suc.hyps(1)[OF _ True this] Suc.hyps(2) show ?thesis
      by (simp add: upt call s2(1))
  next
    case False
    then have k: "Suc k = tr_num t" using Suc.prems(1) by simp
    obtain s2 where s2: "fs_finish (tr_np t) (tr_msg t n idx fl k) s1 =
        (Inr (if Suc idx = n then Some (tr_done t @ [tr_value t], Some (tr_key t)) else None), s2)"
      "fs_args s2 = (if Suc idx = n then [] else tr_done t @ [tr_value t])"
      using fs_finish_last[OF ok s1 k] by blast
    show ?thesis
      by (rule exI[of _ s2]) (use k s2 in \<open>simp add: upt call gen_result_def Let_def flip: k\<close>)
  qed
qed simp

fun stream_recv :: "buf \<Rightarrow> buf" where
  "stream_recv (NdArr a) = NdArr (ascontiguous a)"
| "stream_recv (Bytes b) = Bytes b"
| "stream_recv (JSBuf b c) = jsbuf_init b False"

fun streamable :: "buf \<Rightarrow> bool" where
  "streamable (NdArr a) \<longleftrightarrow> sendable (NdArr a) \<and> (itemsize (nd_dtype a) = 1 \<or> nd_shape a \<noteq> [])"
| "streamable b \<longleftrightarrow> True"

lemma stream_arg_transfer:
  assumes "streamable b" and "0 < cs" and "\<And>n. length (np_empty n) = n"
  shows "\<exists>t. tr_ok np_empty t \<and> tr_done t = done \<and> tr_value t = PBuf (stream_recv b) \<and>
    stream_arg n fk fl cs idx (PBuf b) = Inr (map (tr_msg t n idx fl) [0..<tr_num t])"
proof (cases b)
  case (NdArr a)
  obtain p where p: "npdtype_to_pb (nd_dtype a) = Inr p"
    using assms(1) by (auto simp: NdArr isr_ex)
  note r = npdtype_pb_roundtrip[OF p]
  have nb: "length (nd_data a) = prod_list (nd_shape a) * itemsize (nd_dtype a)"
    using assms(1) by (simp add: NdArr ndarray_ok_def nd_nbytes_def)
  have "nd_contig a \<longrightarrow> nd_last_contig a" using assms(1) by (simp add: NdArr ndarray_ok_def)
  then have src: "stream_source (PBuf (NdArr a)) = Inr (nd_data a)"
    using assms(1) by (auto simp: NdArr stream_source_def np_view_u8_def ascontiguous_def)
  let ?t = "\<lparr>tr_np = True, tr_size = cs, tr_data = nd_data a, tr_garbage = np_empty (length (nd_data a)),
    tr_pb = \<lparr>pb_type = p, pb_order = order_to_pb (dorder (nd_dtype a))\<rparr>, tr_dtype = nd_dtype a,
    tr_shape = nd_shape a, tr_key = fk, tr_done = done\<rparr>"
  have "tr_ok np_empty ?t"
    using assms(2,3) r nb by (simp add: tr_ok_def)
  moreover have "tr_value ?t = PBuf (stream_recv b)"
    by (simp add: tr_value_def tr_array_def NdArr ascontiguous_def)
  moreover have "stream_arg n fk fl cs idx (PBuf b) = Inr (map (tr_msg ?t n idx fl) [0..<tr_num ?t])"
    using assms(2) by (simp add: stream_arg_def stream_head_def NdArr p src stream_chunks_def tr_msg_def
        tr_num_def nd_nbytes_def Let_def)
  ultimately show ?thesis by (intro exI[of _ ?t]) simp
next
  case (Bytes x)
  let ?t = "\<lparr>tr_np = False, tr_size = cs, tr_data = x, tr_garbage = [], tr_pb = bytes_dtype PbCustomBytes,
    tr_dtype = native_dtype UInt8, tr_shape = [], tr_key = fk, tr_done = done\<rparr>"
  show ?thesis
    using assms(2) by (intro exI[of _ ?t]) (simp add: tr_ok_def bytes_dtype_def tr_value_def Bytes stream_arg_def
        stream_head_def stream_source_def stream_chunks_def tr_msg_def tr_num_def Let_def)
next
  case (JSBuf x c)
  let ?t = "\<lparr>tr_np = False, tr_size = cs, tr_data = x, tr_garbage = [], tr_pb = bytes_dtype PbBase64,
    tr_dtype = native_dtype UInt8, tr_shape = [], tr_key = fk, tr_done = done\<rparr>"
  show ?thesis
    using assms(2) by (intro exI[of _ ?t]) (simp add: tr_ok_def bytes_dtype_def tr_value_def JSBuf stream_arg_def
        stream_head_def stream_source_def stream_chunks_def tr_msg_def tr_num_def Let_def)
qed

lemma gen_args:
  assumes bs: "\<And>b. b \<in> set args \<Longrightarrow> streamable b" and cs: "0 < cs" and np: "\<And>n. length (np_empty n) = n"
    and "args \<noteq> []" and "idx + length args = n" and "fs_args s = prev"
  shows "\<exists>ms lastm s'. stream_args n fk fl cs idx (map PBuf args) = (ms, Inr ()) \<and> m_flags lastm = fl \<and>
    generator c np_empty (ms @ rest) s =
      gen_result c np_empty lastm (prev @ map (PBuf \<circ> stream_recv) args) rest s'"
  using bs assms(4-)
proof (induction args arbitrary: idx s prev)
  case (Cons b args)
  obtain t where t: "tr_ok np_empty t" "tr_done t = prev" "tr_value t = PBuf (stream_recv b)"
    "stream_arg n fk fl cs idx (PBuf b) = Inr (map (tr_msg t n idx fl) [0..<tr_num t])"
    using stream_arg_transfer[OF _ cs np, of b prev n fk fl idx] Cons.prems(1)[of b] by auto
  have num: "0 < tr_num t" using t(1) tr_num_bounds(1)[of t] by (simp add: tr_ok_def)
  have start: "tr_before t 0 (fs_begin (tr_msg t n idx fl 0) s)"
    by (rule fs_begin_first[OF t(1)]) (simp add: t Cons.prems)
  note chunks = gen_chunks[OF t(1) num start, of c]
  show ?case
  proof (cases args)
    case Nil
    then have "Suc idx = n" using Cons.prems(3) by simp
    then obtain s' where "generator c np_empty (map (tr_msg t n idx fl) [0..<tr_num t] @ rest) s =
        gen_result c np_empty (tr_msg t n idx fl (tr_num t - 1)) (prev @ [PBuf (stream_recv b)]) rest s'"
      using chunks[of rest] t by auto
    then show ?thesis
      by (intro exI[of _ "map (tr_msg t n idx fl) [0..<tr_num t]"] exI[of _ "tr_msg t n idx fl (tr_num t - 1)"] exI[of _ s'])
        (simp add: Nil t(4) tr_msg_def)
  next
    case (Cons b' args')
    then have idx: "Suc idx \<noteq> n" using Cons.prems(3) by simp
    have step: "\<exists>s1. generator c np_empty (map (tr_msg t n idx fl) [0..<tr_num t] @ r) s = generator c np_empty r s1 \<and>
        fs_args s1 = prev @ [PBuf (stream_recv b)]" for r
      using chunks[of r] idx t by auto
    have ih: "\<exists>ms lastm s'. stream_args n fk fl cs (Suc idx) (map PBuf args) = (ms, Inr ()) \<and> m_flags lastm = fl \<and>
      generator c np_empty (ms @ rest) s1 =
        gen_result c np_empty lastm ((prev @ [PBuf (stream_recv b)]) @ map (PBuf \<circ> stream_recv) args) rest s'"
      if "fs_args s1 = prev @ [PBuf (stream_recv b)]" for s1
      using Cons Cons.prems that by (intro Cons.IH) auto
    obtain ms where ms: "stream_args n fk fl cs (Suc idx) (map PBuf args) = (ms, Inr ())"
      using ih step[of "[]"] by blast
    obtain s1 where s1: "generator c np_empty (map (tr_msg t n idx fl) [0..<tr_num t] @ ms @ rest) s =
        generator c np_empty (ms @ rest) s1" "fs_args s1 = prev @ [PBuf (stream_recv b)]"
      using step[of "ms @ rest"] by blast
    obtain lastm s' where "m_flags lastm = fl" "generator c np_empty (ms @ rest) s1 =
        gen_result c np_empty lastm ((prev @ [PBuf (stream_recv b)]) @ map (PBuf \<circ> stream_recv) args) rest s'"
      using ih[OF s1(2)] ms by auto
    then show ?thesis
      using s1(1) by (intro exI[of _ "map (tr_msg t n idx fl) [0..<tr_num t] @ ms"] exI[of _ lastm] exI[of _ s'])
        (simp add: t(4) ms comp_def)
  qed
qed simp

lemma fs_args_clear [simp]: "fs_args (fs_clear s) = []"
  by (simp add: fs_clear_def)

text \<open>One request through the stream, with \<open>rest\<close> after it.\<close>

lemma gen_request:
  assumes d: "plain json_index_key d" "all_bufs streamable d" and cs: "0 < cs" and np: "\<And>n. length (np_empty n) = n"
    and codec: "dumps_method c (skel [] 0 d) flags = Inr b" "loads_method c b flags = Inr (skel [] 0 d)"
    and s: "fs_args s = []"
  shows "\<exists>ms lastm s'. stream_gen (bufs d @ [PBuf (Bytes b)]) key flags cs = (ms, Inr ()) \<and> m_flags lastm = flags \<and>
    fs_args s' = [] \<and>
    generator c np_empty (ms @ rest) s =
      (case generator c np_empty rest s' of (ys, r) \<Rightarrow> ((lastm, map_leaf (on_buf stream_recv) d) # ys, r))"
proof -
  obtain args where args: "bufs d = map PBuf args" "\<And>b. b \<in> set args \<Longrightarrow> streamable b"
  proof -
    define args where "args = map (\<lambda>v. case v of PBuf b \<Rightarrow> b | _ \<Rightarrow> Bytes []) (bufs d)"
    have "bufs d = map PBuf args"
      unfolding args_def map_map comp_def
      by (rule map_idI[symmetric]) (auto dest!: bufs_PBuf(1)[of _ d])
    moreover have "streamable b" if mem: "b \<in> set args" for b
    proof -
      obtain v where v: "v \<in> set (bufs d)" "b = (case v of PBuf b \<Rightarrow> b | _ \<Rightarrow> Bytes [])"
        using mem by (auto simp: args_def)
      obtain b' where "v = PBuf b'" "streamable b'" by (rule all_bufsD[OF d(2) v(1)])
      with v show ?thesis by simp
    qed
    ultimately show thesis by (rule that)
  qed
  have sendall: "\<And>x. x \<in> set (args @ [Bytes b]) \<Longrightarrow> streamable x" using args(2) by auto
  obtain ms lastm s' where ms: "stream_args (Suc (length args)) key flags cs 0 (map PBuf (args @ [Bytes b])) = (ms, Inr ())"
    and last: "m_flags lastm = flags"
    and gen: "generator c np_empty (ms @ rest) s =
        gen_result c np_empty lastm ([] @ map (PBuf \<circ> stream_recv) (args @ [Bytes b])) rest s'"
    using gen_args[OF sendall cs np, where args = "args @ [Bytes b]" and idx = 0 and n = "Suc (length args)" and s = s and prev = "[]" and rest = rest and c = c
        and fk = key and fl = flags] s by auto
  have "map (PBuf \<circ> stream_recv) args = map (on_buf stream_recv) (bufs d)"
    by (simp add: args(1))
  then have val: "stream_value c ([] @ map (PBuf \<circ> stream_recv) (args @ [Bytes b])) flags =
      Inr (map_leaf (on_buf stream_recv) d)"
    using plain_index[OF d(1), of stream_recv] by (simp add: stream_value_def codec(2))
  have "stream_gen (bufs d @ [PBuf (Bytes b)]) key flags cs = (ms, Inr ())"
    using ms by (simp add: stream_gen_def args(1))
  moreover have "generator c np_empty (ms @ rest) s =
      (case generator c np_empty rest (fs_clear s') of (ys, r) \<Rightarrow> ((lastm, map_leaf (on_buf stream_recv) d) # ys, r))"
    unfolding gen gen_result_def last val by simp
  ultimately show ?thesis
    using last by (intro exI[of _ ms] exI[of _ lastm] exI[of _ "fs_clear s'"]) simp
qed

definition flag_codec_inverts :: "codec \<Rightarrow> int \<Rightarrow> pyval \<Rightarrow> bool" where
  "flag_codec_inverts c flags sk \<longleftrightarrow>
     (case dumps_method c sk flags of Inl e \<Rightarrow> False | Inr b \<Rightarrow> loads_method c b flags = Inr sk)"

lemma chunked_requests:
  assumes "\<And>d. d \<in> set ds \<Longrightarrow> plain json_index_key d \<and> all_bufs streamable d \<and> flag_codec_inverts c flags (skel [] 0 d)"
    and cs: "0 < cs" and np: "\<And>n. length (np_empty n) = n" and "fs_args s = []"
  shows "\<exists>ms ys s'. chunked_sender c no_optree key flags cs ds = (ms, Inr ()) \<and>
    generator c np_empty ms s = (ys, Inr (), s') \<and> map snd ys = map (map_leaf (on_buf stream_recv)) ds"
  using assms(1,4)
proof (induction ds arbitrary: s)
  case (Cons d ds)
  obtain b where codec: "dumps_method c (skel [] 0 d) flags = Inr b" "loads_method c b flags = Inr (skel [] 0 d)"
    using Cons.prems(1)[of d] by (auto simp: flag_codec_inverts_def split: sum.splits)
  have d: "plain json_index_key d" "all_bufs streamable d" using Cons.prems(1)[of d] by simp_all
  obtain ms2 where ms2: "chunked_sender c no_optree key flags cs ds = (ms2, Inr ())"
    using Cons.IH[of fs_init] Cons.prems(1) by (auto simp: fs_init_def)
  obtain ms lastm s' where r: "stream_gen (bufs d @ [PBuf (Bytes b)]) key flags cs = (ms, Inr ())"
    "fs_args s' = []" "generator c np_empty (ms @ ms2) s =
      (case generator c np_empty ms2 s' of (ys, r) \<Rightarrow> ((lastm, map_leaf (on_buf stream_recv) d) # ys, r))"
    using gen_request[OF d cs np codec Cons.prems(2), of key ms2] by blast
  obtain ys s'' where "generator c np_empty ms2 s' = (ys, Inr (), s'')"
    "map snd ys = map (map_leaf (on_buf stream_recv)) ds"
    using Cons.IH[OF _ r(2)] Cons.prems(1) ms2 by auto
  then show ?case
    using r by (simp add: extract_default codec(1) ms2)
qed simp

subsection \<open>Properties\<close>

text \<open>
  C15: however the requests of a streaming call are cut into chunks, the receiver's generator yields
  exactly the values sent, in order, and ends without an exception: for every chunk size, every
  number of requests and every mix of arrays (of at least one dimension, or one-byte items),
  bytes and \<open>JSArrayBuffer\<close>s, with fresh memory of any content.
\<close>

theorem chunked_stream_roundtrip:
  assumes "\<forall>d\<in>set ds. plain json_index_key d \<and> all_bufs streamable d \<and> flag_codec_inverts c flags (skel [] 0 d)"
    and "0 < chunk_size" and "\<And>n. length (np_empty n) = n"
  shows "\<exists>ms ys s. chunked_sender c no_optree key flags chunk_size ds = (ms, Inr ()) \<and>
    generator c np_empty ms fs_init = (ys, Inr (), s) \<and> map snd ys = map (map_leaf (on_buf stream_recv)) ds"
  using chunked_requests[of ds c flags chunk_size np_empty fs_init key] assms by (auto simp: fs_init_def)

theorem chunked_stream_roundtrip_witness:
  "\<exists>ms ys s. chunked_sender (one_codec (skel [] 0 sample)) no_optree ''f'' 32 3 [sample, sample] = (ms, Inr ()) \<and>
    generator (one_codec (skel [] 0 sample)) (\<lambda>n. replicate n 7) ms fs_init = (ys, Inr (), s) \<and>
    map snd ys = map (map_leaf (on_buf stream_recv)) [sample, sample]"
proof -
  have "all_bufs streamable sample"
    using sample_ok(3) by (simp add: sample_def all_bufs_def)
  moreover have "(32 :: int) AND encode_mask = 32" by (simp add: encode_mask_def)
  ultimately show ?thesis
    by (intro chunked_stream_roundtrip)
      (simp_all add: sample_ok flag_codec_inverts_def dumps_method_def loads_method_def method_dump_def
        method_load_def method_lib_def one_codec_def norm_lib_def)
qed

text \<open>
  An array of no dimension whose items are wider than a byte cannot be streamed: the sender
  raises \<open>ValueError\<close> before it yields a message of it, whatever the chunk size.
\<close>

lemma zero_dim_not_streamable:
  assumes "npdtype_to_pb (nd_dtype a) = Inr t" and "nd_shape a = []" and "itemsize (nd_dtype a) \<noteq> 1"
    and "0 < chunk_size"
  shows "stream_gen (PBuf (NdArr a) # args) key flags chunk_size = ([], Inl ValueError)"
  using assms by (simp add: stream_gen_def stream_arg_def stream_head_def stream_source_def np_view_u8_def
      ascontiguous_def)

lemma zero_dim_not_streamable_witness:
  "stream_gen [PBuf (NdArr \<lparr>nd_dtype = native_dtype Float32, nd_shape = [], nd_data = [0, 0, 0, 0], nd_contig = True,
     nd_last_contig = True\<rparr>)] ''f'' 32 1024 = ([], Inl ValueError)"
  by (rule zero_dim_not_streamable[where t = PbFloat32])
    (simp_all add: npdtype_to_pb_def native_dtype_def itemsize_def)

end
