(* ===== verification/CoreIO_Socket.thy ===== *)
theory CoreIO_Socket
  imports CoreIO_Pb
begin

text \<open>
  \<open>core/core_io.py\<close>, last part: websocket messages. \<open>SocketMessageEncoder\<close> turns a value into one
  binary message or into a header message and chunks; \<open>TensoRPCHeader\<close>, \<open>parse_message_chunks\<close> and
  \<open>parse_array_of_chunked_message\<close> are the receiving side.

  \<open>wsdef_pb2.Header\<close> is the record of \<open>protos/wsdef.proto\<close>; its wire form is the parameter \<open>hdr\<close>
  (\<open>ByteSize()\<close> is the length of \<open>SerializeToString()\<close>). The two \<open>while\<close> loops are partial functions:
  \<open>None\<close> is a loop that does not end.
\<close>

subsection \<open>Message types and headers\<close>

datatype msg_type = Subscribe | UnSubscribe | RPC | Event | Chunk | QueryServiceIds | Notification
  | EventChunk | HeaderChunk | Ping | Pong | ResetLargeDataClient | EventError | RPCError | UserError
  | SubscribeError | OnConnectError | ErrorMask

fun msg_value :: "msg_type \<Rightarrow> 8 word" where
  "msg_value Subscribe = 0x01" | "msg_value UnSubscribe = 0x02" | "msg_value RPC = 0x03"
| "msg_value Event = 0x04" | "msg_value Chunk = 0x05" | "msg_value QueryServiceIds = 0x06"
| "msg_value Notification = 0x07" | "msg_value EventChunk = 0x08" | "msg_value HeaderChunk = 0x09"
| "msg_value Ping = 0x0a" | "msg_value Pong = 0x0b" | "msg_value ResetLargeDataClient = 0x0c"
| "msg_value EventError = 0x10" | "msg_value RPCError = 0x20" | "msg_value UserError = 0x30"
| "msg_value SubscribeError = 0x40" | "msg_value OnConnectError = 0x50" | "msg_value ErrorMask = 0xF0"

definition all_msg_types :: "msg_type list" where
  "all_msg_types = [Subscribe, UnSubscribe, RPC, Event, Chunk, QueryServiceIds, Notification, EventChunk,
     HeaderChunk, Ping, Pong, ResetLargeDataClient, EventError, RPCError, UserError, SubscribeError,
     OnConnectError, ErrorMask]"

definition msg_of_value :: "8 word \<Rightarrow> msg_type res" where
  "msg_of_value v = (case find (\<lambda>t. msg_value t = v) all_msg_types of None \<Rightarrow> Inl ValueError | Some t \<Rightarrow> Inr t)"

record header =
  service_id :: nat
  chunk_index :: nat
  rpc_id :: nat
  hdata :: bytes
  service_key :: string
  dynamic_key :: string

record header_wire =
  hser :: "header \<Rightarrow> bytes"
  hparse :: "bytes \<Rightarrow> header res"

definition encode_protobuf_uint :: "int \<Rightarrow> int res" where
  "encode_protobuf_uint val = rbind (rassert (0 \<le> val)) (\<lambda>_. Inr (val + 1))"

definition decode_protobuf_uint :: "int \<Rightarrow> int" where
  "decode_protobuf_uint val = val - 1"

definition json_only_encode :: "codec \<Rightarrow> header_wire \<Rightarrow> pyval \<Rightarrow> msg_type \<Rightarrow> header \<Rightarrow> bytes res" where
  "json_only_encode c w data type req =
     rbind (enc c JsonLib data) (\<lambda>js.
     let req = req\<lparr>hdata := js\<rparr>; n = length (hser w req) in
     Inr (msg_value type # le_bytes 4 n @ hser w req))"

subsection \<open>The encoder\<close>

record encoder =
  en_arrays :: "pyval list"
  en_skeleton :: pyval
  en_flags :: int
  en_total :: nat
  en_meta :: "(nat \<times> nat list) list"
  en_ser :: bytes

definition meta_val :: "nat \<times> nat list \<Rightarrow> pyval" where
  "meta_val m = PTuple [PInt (int (fst m)), PList (map (\<lambda>n. PInt (int n)) (snd m))]"

definition get_skeleton :: "int \<Rightarrow> (nat \<times> nat list) list \<Rightarrow> pyval \<Rightarrow> pyval" where
  "get_skeleton flags meta skeleton = PList [PInt flags, PList (map meta_val meta), skeleton]"

definition arr_meta :: "pyval \<Rightarrow> (nat \<times> nat \<times> nat list) res" where
  "arr_meta v = (case v of
       PBuf (NdArr a) \<Rightarrow> rbind (npdtype_to_jsonarray (nd_dtype a)) (\<lambda>c. Inr (nd_nbytes a, c, nd_shape a))
     | PBuf (JSBuf b c) \<Rightarrow> Inr (length b, c, [length b])
     | PBuf (Bytes b) \<Rightarrow> Inr (length b, BYTES_JSONARRAY_CODE, [length b])
     | _ \<Rightarrow> Inl TypeError)"

definition encoder_init :: "codec \<Rightarrow> 't optree \<Rightarrow> pyval \<Rightarrow> nat \<Rightarrow> encoder res" where
  "encoder_init c opt data skeleton_size_limit =
     rbind (extract_arrays_from_data opt data default_classes json_index_key True (Some extract_ctx_init))
       (\<lambda>(arrays, skeleton, ctx).
     rbind (rmap_list arr_meta arrays) (\<lambda>ms.
     let total = sum_list (map fst ms); meta = map snd ms in
     rbind (enc c JsonLib (get_skeleton (ec_flags ctx) meta skeleton)) (\<lambda>ser.
     if length ser > skeleton_size_limit
     then rbind (enc c MsgpackLib skeleton) (\<lambda>pack.
          let meta = meta @ [(BYTES_SKELETON_CODE, [length pack])] in
          rbind (enc c JsonLib (get_skeleton (ec_flags ctx) meta (PDict []))) (\<lambda>ser.
          Inr \<lparr>en_arrays = arrays @ [PBuf (Bytes pack)], en_skeleton = PDict [], en_flags = ec_flags ctx,
               en_total = total + length pack, en_meta = meta, en_ser = ser\<rparr>))
     else Inr \<lparr>en_arrays = arrays, en_skeleton = skeleton, en_flags = ec_flags ctx, en_total = total,
               en_meta = meta, en_ser = ser\<rparr>)))"

text \<open>\<open>arr.reshape(-1).view(np.uint8)\<close> always works: \<open>reshape\<close> copies a non-contiguous array.\<close>

fun arr_bytes :: "pyval \<Rightarrow> bytes" where
  "arr_bytes (PBuf b) = buf_bytes b"
| "arr_bytes v = []"

subsection \<open>Chunks\<close>

text \<open>The chunk being filled, and the loop's variables.\<close>

record fill_state =
  fi_chunk :: bytes
  fi_start :: nat
  fi_remain :: int
  fi_remain_msg :: int
  fi_idx :: nat
  fi_out :: "bytes list"

record fill_cfg =
  fc_type :: "8 word"
  fc_hlen :: nat
  fc_header :: "nat \<Rightarrow> bytes"
  fc_size :: nat
  fc_num :: nat

definition new_chunk :: "fill_cfg \<Rightarrow> nat \<Rightarrow> nat \<Rightarrow> bytes" where
  "new_chunk cf n idx =
     blit (blit (blit (replicate n 0) 0 [fc_type cf]) 1 (le_bytes 4 (fc_hlen cf))) 5 (fc_header cf idx)"

definition fill_step :: "fill_cfg \<Rightarrow> bytes \<Rightarrow> fill_state \<Rightarrow> fill_state" where
  "fill_step cf part s =
     (let chunk = blit (fi_chunk s) (fi_start s) part;
          start = fi_start s + length part;
          remain = fi_remain s - int (length part)
      in if remain = 0
         then (let idx = fi_idx s + 1; out = fi_out s @ [chunk] in
               if idx \<noteq> fc_num cf
               then (let rm = fi_remain_msg s - int (fc_size cf);
                         n = nat (min rm (int (fc_size cf)))
                     in s\<lparr>fi_chunk := new_chunk cf n idx, fi_start := fc_hlen cf + 5,
                          fi_remain := int n - int (fc_hlen cf) - 5, fi_remain_msg := rm, fi_idx := idx,
                          fi_out := out\<rparr>)
               else s\<lparr>fi_chunk := chunk, fi_start := start, fi_remain := remain, fi_idx := idx, fi_out := out\<rparr>)
         else s\<lparr>fi_chunk := chunk, fi_start := start, fi_remain := remain\<rparr>)"

partial_function (option) fill_loop :: "fill_cfg \<Rightarrow> bytes \<Rightarrow> nat \<Rightarrow> int \<Rightarrow> fill_state \<Rightarrow> fill_state option" where
  "fill_loop cf mv arr_start sz s =
     (if sz \<le> 0 then Some s
      else let ser_size = min sz (fi_remain s) in
        fill_loop cf mv (arr_start + nat ser_size) (sz - ser_size)
          (fill_step cf (slice mv arr_start (arr_start + nat ser_size)) s))"

fun fill_arrays :: "fill_cfg \<Rightarrow> bytes list \<Rightarrow> fill_state \<Rightarrow> fill_state option" where
  "fill_arrays cf [] s = Some s"
| "fill_arrays cf (d # ds) s =
     (case fill_loop cf d 0 (int (length d)) s of None \<Rightarrow> None | Some s' \<Rightarrow> fill_arrays cf ds s')"

definition fill_cfg_of :: "header_wire \<Rightarrow> msg_type \<Rightarrow> header \<Rightarrow> nat \<Rightarrow> nat \<Rightarrow> fill_cfg" where
  "fill_cfg_of w type ch chunk_size num =
     \<lparr>fc_type = msg_value (if type = Event then EventChunk else Chunk), fc_hlen = length (hser w ch),
      fc_header = (\<lambda>i. hser w (ch\<lparr>chunk_index := i + 1\<rparr>)), fc_size = chunk_size, fc_num = num\<rparr>"

definition chunk_header_of :: "header \<Rightarrow> header" where
  "chunk_header_of req = \<lparr>service_id = service_id req + 1, chunk_index = 1, rpc_id = rpc_id req + 1,
     hdata = [], service_key = [], dynamic_key = []\<rparr>"

text \<open>\<open>get_message_chunks\<close>: the messages it yields, and the exception that ends it, if any.\<close>

definition get_message_chunks :: "header_wire \<Rightarrow> encoder \<Rightarrow> msg_type \<Rightarrow> header \<Rightarrow> nat \<Rightarrow>
    (bytes list \<times> unit res) option" where
  "get_message_chunks w en type req chunk_size =
     (let req = req\<lparr>hdata := en_ser en\<rparr>;
          req_msg_size = length (hser w req);
          final_size = 5 + req_msg_size + en_total en in
      if final_size < chunk_size
      then Some ([msg_value type # le_bytes 4 req_msg_size @ hser w req @ concat (map arr_bytes (en_arrays en))], Inr ())
      else if \<not> req_msg_size + 5 \<le> chunk_size then Some ([], Inl AssertionError)
      else (let chunk_header = chunk_header_of req;
               header_msg_size = length (hser w chunk_header) in
        if \<not> chunk_size > header_msg_size + 5 then Some ([], Inl AssertionError)
        else (let chunk_size_for_arr = chunk_size - header_msg_size - 5;
                  num_chunks = div_up (en_total en) chunk_size_for_arr;
                  req = req\<lparr>chunk_index := num_chunks\<rparr>;
                  head = msg_value type # le_bytes 4 (length (hser w req)) @ hser w req;
                  cf = fill_cfg_of w type chunk_header chunk_size num_chunks;
                  remain_msg = int (num_chunks * (header_msg_size + 5) + en_total en);
                  s = \<lparr>fi_chunk = new_chunk cf chunk_size 0, fi_start = header_msg_size + 5,
                       fi_remain = min remain_msg (int chunk_size) - int header_msg_size - 5,
                       fi_remain_msg = remain_msg, fi_idx = 0, fi_out = []\<rparr>
              in map_option (\<lambda>s. (head # fi_out s, Inr ())) (fill_arrays cf (map arr_bytes (en_arrays en)) s))))"

subsection \<open>Receiving\<close>

definition le_int32 :: "bytes \<Rightarrow> int res" where
  "le_int32 b = (if length b = 4 then Inr (if le_nat b < 2 ^ 31 then int (le_nat b) else int (le_nat b) - 2 ^ 32)
     else Inl ValueError)"

record rpc_header =
  rh_length :: int
  rh_type :: msg_type
  rh_req :: header

text \<open>\<open>np.frombuffer(binary[1:5], np.int32)[0]\<close>: an empty slice has no element 0.\<close>

definition read_len :: "bytes \<Rightarrow> int res" where
  "read_len binary = (let b = slice binary 1 5 in if b = [] then Inl IndexError else le_int32 b)"

definition tensorpc_header :: "header_wire \<Rightarrow> bytes \<Rightarrow> rpc_header res" where
  "tensorpc_header w binary =
     rbind (read_len binary) (\<lambda>n.
     rbind (hparse w (pyslice binary 5 (n + 5))) (\<lambda>req.
     rbind (pyindex binary 0) (\<lambda>t.
     rbind (msg_of_value t) (\<lambda>t.
     Inr \<lparr>rh_length = n, rh_type = t, rh_req = req\<rparr>))))"

text \<open>Iterating over a decoded JSON value, and unpacking it into two names.\<close>

fun iter_items :: "pyval \<Rightarrow> pyval list res" where
  "iter_items (PList xs) = Inr xs"
| "iter_items (PTuple xs) = Inr xs"
| "iter_items (PStr s) = Inr (map (\<lambda>c. PStr [c]) s)"
| "iter_items (PDict m) = Inr (map (\<lambda>(k, v). case k of KStr s \<Rightarrow> PStr s | KInt i \<Rightarrow> PInt i) m)"
| "iter_items _ = Inl TypeError"

definition unpack2 :: "pyval \<Rightarrow> (pyval \<times> pyval) res" where
  "unpack2 v = rbind (iter_items v) (\<lambda>xs. case xs of [a, b] \<Rightarrow> Inr (a, b) | _ \<Rightarrow> Inl ValueError)"

definition as_dim :: "pyval \<Rightarrow> nat res" where
  "as_dim v = rbind (as_int v) (\<lambda>i. if i < 0 then Inl ValueError else Inr (nat i))"

text \<open>One entry of the array metadata: the dtype code and the shape.\<close>

definition read_meta :: "pyval \<Rightarrow> (nat \<times> nat list) res" where
  "read_meta v = rbind (unpack2 v) (\<lambda>(c, sh).
     rbind (as_dim c) (\<lambda>c. rbind (iter_items sh) (\<lambda>dims. rbind (rmap_list as_dim dims) (\<lambda>dims. Inr (c, dims)))))"

definition is_bytes_code :: "nat \<Rightarrow> bool" where
  "is_bytes_code c \<longleftrightarrow> c = BYTES_JSONARRAY_CODE \<or> c = BYTES_JSONARRAY_ARRAYBUFFER_CODE"

text \<open>The dtype and byte size of an entry: \<open>shape[0]\<close> raises for a 0-d array.\<close>

definition meta_size :: "nat \<times> nat list \<Rightarrow> (np_dtype \<times> nat) res" where
  "meta_size m =
     (if is_bytes_code (fst m)
      then rbind (pyindex (snd m) 0) (\<lambda>n. Inr (native_dtype UInt8, n))
      else rbind (inv_npdtype_to_jsonarray (fst m)) (\<lambda>dt.
           rbind (pyindex (snd m) 0) (\<lambda>n.
           Inr (dt, fold (\<lambda>s n. n * s) (tl (snd m)) (n * itemsize dt)))))"

definition meta_value :: "nat \<times> nat list \<Rightarrow> np_dtype \<Rightarrow> bytes \<Rightarrow> pyval res" where
  "meta_value m dt d =
     (if is_bytes_code (fst m) then Inr (PBuf (Bytes d))
      else rbind (np_frombuffer d dt (snd m)) (\<lambda>a. Inr (PBuf (NdArr a))))"

text \<open>Reading from the chunks: the current chunk, where in it, and how much of it is left.\<close>

record read_state =
  rd_chunk :: bytes
  rd_start :: nat
  rd_left :: int
  rd_idx :: nat

definition open_chunk :: "bytes \<Rightarrow> nat \<Rightarrow> read_state res" where
  "open_chunk ck i = rbind (read_len ck) (\<lambda>n.
     Inr \<lparr>rd_chunk = ck, rd_start = nat (5 + n), rd_left = int (length ck) - 5 - n, rd_idx = i\<rparr>)"

definition next_chunk :: "bytes list \<Rightarrow> read_state \<Rightarrow> read_state res" where
  "next_chunk chunks s =
     (if rd_left s = 0 \<and> rd_idx s \<noteq> length chunks - 1
      then rbind (of_opt IndexError (if rd_idx s + 1 < length chunks then Some (chunks ! (rd_idx s + 1)) else None))
             (\<lambda>ck. open_chunk ck (rd_idx s + 1))
      else Inr s)"

partial_function (option) read_loop :: "bytes list \<Rightarrow> int \<Rightarrow> bytes \<Rightarrow> read_state \<Rightarrow>
    (bytes \<times> read_state) res option" where
  "read_loop chunks sz acc s =
     (if sz \<le> 0 then Some (Inr (acc, s))
      else let ser_size = min sz (rd_left s);
               part = slice (rd_chunk s) (rd_start s) (rd_start s + nat ser_size)
      in if length part \<noteq> nat ser_size then Some (Inl ValueError)
         else (case next_chunk chunks (s\<lparr>rd_left := rd_left s - ser_size, rd_start := rd_start s + nat ser_size\<rparr>) of
             Inl e \<Rightarrow> Some (Inl e)
           | Inr s' \<Rightarrow> read_loop chunks (sz - ser_size) (acc @ part) s'))"

fun read_arrays :: "bytes list \<Rightarrow> (nat \<times> nat list) list \<Rightarrow> read_state \<Rightarrow> pyval list res option" where
  "read_arrays chunks [] s = Some (Inr [])"
| "read_arrays chunks (m # ms) s =
     (case meta_size m of
        Inl e \<Rightarrow> Some (Inl e)
      | Inr (dt, n) \<Rightarrow>
          (case read_loop chunks (int n) [] s of
             None \<Rightarrow> None
           | Some (Inl e) \<Rightarrow> Some (Inl e)
           | Some (Inr (d, s')) \<Rightarrow>
               (case meta_value m dt d of
                  Inl e \<Rightarrow> Some (Inl e)
                | Inr v \<Rightarrow> map_option (\<lambda>r. rbind r (\<lambda>vs. Inr (v # vs))) (read_arrays chunks ms s'))))"

definition chunk_arrays :: "bytes list \<Rightarrow> pyval \<Rightarrow> pyval list res option" where
  "chunk_arrays chunks meta =
     (case chunks of [] \<Rightarrow> Some (Inl IndexError)
      | ck # _ \<Rightarrow> (case open_chunk ck 0 of
          Inl e \<Rightarrow> Some (Inl e)
        | Inr s \<Rightarrow> (case rbind (iter_items meta) (rmap_list read_meta) of
            Inl e \<Rightarrow> Some (Inl e)
          | Inr ms \<Rightarrow> read_arrays chunks ms s)))"

definition parse_array_of_chunked_message :: "codec \<Rightarrow> header \<Rightarrow> bytes list \<Rightarrow> pyval res option" where
  "parse_array_of_chunked_message c req chunks =
     (if \<not> chunk_index req > 0 then Some (Inl AssertionError)
      else case rbind (dec c JsonLib (hdata req)) unpack2 of
        Inl e \<Rightarrow> Some (Inl e)
      | Inr (meta, skeleton) \<Rightarrow>
          if chunk_index req \<noteq> length chunks then Some (Inl AssertionError)
          else map_option (\<lambda>r. rbind r (\<lambda>arrs. put_arrays arrs json_index_key skeleton)) (chunk_arrays chunks meta))"

fun plain_arrays :: "bytes \<Rightarrow> (nat \<times> nat list) list \<Rightarrow> nat \<Rightarrow> pyval list res" where
  "plain_arrays d [] start = Inr []"
| "plain_arrays d (m # ms) start =
     rbind (meta_size m) (\<lambda>(dt, n).
     rbind (meta_value m dt (slice d start (start + n))) (\<lambda>v.
     rbind (plain_arrays d ms (start + n)) (\<lambda>vs. Inr (v # vs))))"

definition parse_message_chunks :: "codec \<Rightarrow> rpc_header \<Rightarrow> bytes list \<Rightarrow> pyval res option" where
  "parse_message_chunks c h chunks =
     (case rbind (dec c JsonLib (hdata (rh_req h))) unpack2 of
        Inl e \<Rightarrow> Some (Inl e)
      | Inr (meta, skeleton) \<Rightarrow>
          if chunk_index (rh_req h) = 0
          then (case chunks of [] \<Rightarrow> Some (Inl IndexError)
            | ck # _ \<Rightarrow> Some (
                let d = pyslice ck (rh_length h + 5) (int (length ck)) in
                rbind (rbind (iter_items meta) (rmap_list read_meta)) (\<lambda>ms.
                rbind (plain_arrays d ms 0) (\<lambda>arrs. put_arrays arrs json_index_key skeleton))))
          else parse_array_of_chunked_message c (rh_req h) chunks)"

subsection \<open>What the chunks hold\<close>

text \<open>
  The payload \<open>p\<close> (all array bytes) is cut into pieces of \<open>cap\<close> bytes. Chunk 0 is allocated with the
  full chunk size, so when it is the only one it ends with zeros.
\<close>

definition chunk_head :: "fill_cfg \<Rightarrow> nat \<Rightarrow> bytes" where
  "chunk_head cf i = fc_type cf # le_bytes 4 (fc_hlen cf) @ fc_header cf i"

definition chunk_cap :: "fill_cfg \<Rightarrow> nat" where
  "chunk_cap cf = fc_size cf - fc_hlen cf - 5"

definition piece :: "fill_cfg \<Rightarrow> bytes \<Rightarrow> nat \<Rightarrow> bytes" where
  "piece cf p i = slice p (i * chunk_cap cf) ((i + 1) * chunk_cap cf)"

definition full_chunk :: "fill_cfg \<Rightarrow> bytes \<Rightarrow> nat \<Rightarrow> bytes" where
  "full_chunk cf p i = chunk_head cf i @ piece cf p i @
     (if i = 0 then replicate (chunk_cap cf - length (piece cf p i)) 0 else [])"

definition cfg_ok :: "fill_cfg \<Rightarrow> bytes \<Rightarrow> bool" where
  "cfg_ok cf p \<longleftrightarrow> fc_hlen cf + 5 < fc_size cf \<and> (\<forall>i. length (fc_header cf i) = fc_hlen cf) \<and>
     fc_num cf = div_up (length p) (chunk_cap cf)"

definition fill_inv :: "fill_cfg \<Rightarrow> bytes \<Rightarrow> nat \<Rightarrow> nat \<Rightarrow> fill_state \<Rightarrow> bool" where
  "fill_inv cf p i r s \<longleftrightarrow> fi_idx s = i \<and> fi_start s = fc_hlen cf + 5 + r \<and> r < length (piece cf p i) \<and>
     fi_remain s = int (length (piece cf p i)) - int r \<and>
     fi_remain_msg s = int (fc_num cf * (fc_hlen cf + 5) + length p) - int (i * fc_size cf) \<and>
     fi_chunk s = chunk_head cf i @ take r (piece cf p i) @
       replicate ((if i = 0 then chunk_cap cf else length (piece cf p i)) - r) 0 \<and>
     fi_out s = map (full_chunk cf p) [0..<i]"

lemma length_chunk_head: "cfg_ok cf p \<Longrightarrow> length (chunk_head cf i) = fc_hlen cf + 5"
  by (simp add: chunk_head_def cfg_ok_def)

lemma length_piece: "length (piece cf p i) = min (chunk_cap cf) (length p - i * chunk_cap cf)"
  by (simp add: piece_def)

lemma new_chunk_eq:
  assumes "cfg_ok cf p" and "fc_hlen cf + 5 \<le> n"
  shows "new_chunk cf n i = chunk_head cf i @ replicate (n - (fc_hlen cf + 5)) 0"
proof -
  have h: "length (fc_header cf i) = fc_hlen cf" using assms(1) by (simp add: cfg_ok_def)
  define m where "m = n - (fc_hlen cf + 5)"
  have "n = 1 + (4 + (fc_hlen cf + m))" using assms(2) by (simp add: m_def)
  then have z: "replicate n (0 :: 8 word) = replicate 1 0 @ replicate 4 0 @ replicate (fc_hlen cf) 0 @ replicate m 0"
    by (simp only: replicate_add)
  show ?thesis
    unfolding new_chunk_def z m_def[symmetric] by (simp add: blit_def chunk_head_def h drop_Cons')
qed

lemma cap_pos: "cfg_ok cf p \<Longrightarrow> 0 < chunk_cap cf"
  by (simp add: cfg_ok_def chunk_cap_def)

lemma fc_size_eq: "cfg_ok cf p \<Longrightarrow> fc_size cf = fc_hlen cf + 5 + chunk_cap cf"
  by (simp add: cfg_ok_def chunk_cap_def)

lemma piece_nonempty: "cfg_ok cf p \<Longrightarrow> 0 < length (piece cf p i) \<longleftrightarrow> i < fc_num cf"
  using less_div_up_iff[OF cap_pos, of cf p i "length p"] cap_pos[of cf p]
  by (auto simp: length_piece cfg_ok_def)

lemma piece_full: "cfg_ok cf p \<Longrightarrow> Suc i < fc_num cf \<Longrightarrow> length (piece cf p i) = chunk_cap cf"
  using less_div_up_iff[OF cap_pos, of cf p "Suc i" "length p"]
  by (auto simp: length_piece cfg_ok_def min_def)

lemma blit_middle:
  "length hs = a \<Longrightarrow> length part \<le> length zs \<Longrightarrow>
   blit (hs @ zs) a part = hs @ part @ drop (length part) zs"
  by (simp add: blit_def)

lemma fill_step_inv:
  assumes ok: "cfg_ok cf p" and inv: "fill_inv cf p i r s" and k: "0 < k" "r + k \<le> length (piece cf p i)"
  defines "s' \<equiv> fill_step cf (slice (piece cf p i) r (r + k)) s"
  shows "if r + k < length (piece cf p i) then fill_inv cf p i (r + k) s'
    else if Suc i < fc_num cf then fill_inv cf p (Suc i) 0 s'
    else fi_out s' = map (full_chunk cf p) [0..<fc_num cf]"
proof -
  let ?h = "fc_hlen cf" and ?c = "chunk_cap cf" and ?L = "length (piece cf p i)"
  define part where "part = slice (piece cf p i) r (r + k)"
  define Z where "Z = (if i = 0 then ?c else ?L)"
  have part: "length part = k" using k by (simp add: part_def)
  have Lc: "?L \<le> ?c" by (simp add: length_piece)
  have LZ: "?L \<le> Z" using Lc by (cases "i = 0") (simp_all add: Z_def)
  have head: "length (chunk_head cf i @ take r (piece cf p i)) = ?h + 5 + r"
    using inv by (simp add: length_chunk_head[OF ok] fill_inv_def)
  have tk: "take (r + k) (piece cf p i) = take r (piece cf p i) @ part"
    by (simp add: part_def slice_def take_add)
  have chunk: "blit (fi_chunk s) (fi_start s) part =
      chunk_head cf i @ take (r + k) (piece cf p i) @ replicate (Z - (r + k)) 0"
  proof -
    have "fi_chunk s = (chunk_head cf i @ take r (piece cf p i)) @ replicate (Z - r) 0"
      using inv by (simp add: fill_inv_def Z_def)
    moreover have "fi_start s = ?h + 5 + r" using inv by (simp add: fill_inv_def)
    moreover have "length part \<le> length (replicate (Z - r) (0 :: 8 word))"
      using part k LZ by simp
    ultimately show ?thesis
      using blit_middle[OF head, of part "replicate (Z - r) 0"] by (simp add: part tk)
  qed
  have s': "s' = fill_step cf part s" by (simp add: s'_def part_def)
  have rem: "fi_remain s - int (length part) = int ?L - int (r + k)"
    using inv by (simp add: fill_inv_def part)
  show ?thesis
  proof (cases "r + k < ?L")
    case True
    then show ?thesis
      using inv rem chunk by (simp add: s' fill_step_def Let_def fill_inv_def part Z_def)
  next
    case False
    then have rk: "r + k = ?L" using k by simp
    then have full: "blit (fi_chunk s) (fi_start s) part = full_chunk cf p i"
      using chunk by (simp add: full_chunk_def Z_def)
    have out: "fi_out s @ [full_chunk cf p i] = map (full_chunk cf p) [0..<Suc i]"
      using inv by (simp add: fill_inv_def)
    have i: "i < fc_num cf" using piece_nonempty[OF ok, of i] rk k by auto
    show ?thesis
    proof (cases "Suc i < fc_num cf")
      case last: True
      have L: "?L = ?c" by (rule piece_full[OF ok last])
      define rm where "rm = fi_remain_msg s - int (fc_size cf)"
      define n where "n = nat (min rm (int (fc_size cf)))"
      have lt: "Suc i * ?c < length p" and num: "length p \<le> fc_num cf * ?c"
        using last less_div_up_iff[OF cap_pos[OF ok], of "Suc i" "length p"] div_up_bounds(1)[OF cap_pos[OF ok], of "length p"] ok
        by (simp_all add: cfg_ok_def)
      have rm: "rm = int (fc_num cf * (?h + 5) + length p) - int (Suc i * fc_size cf)"
        using inv by (simp add: rm_def fill_inv_def algebra_simps)
      have rm2: "rm = int ((fc_num cf - Suc i) * (?h + 5)) + int (length p - Suc i * ?c)"
      proof -
        obtain a where a: "fc_num cf = Suc i + a" using last by (metis less_imp_add_positive)
        obtain b where b: "length p = Suc i * ?c + b" using lt by (metis less_imp_add_positive)
        show ?thesis unfolding rm fc_size_eq[OF ok] a b by (simp add: algebra_simps)
      qed
      have n: "n = ?h + 5 + length (piece cf p (Suc i))"
      proof (cases "Suc (Suc i) < fc_num cf")
        case True
        then have "1 * (?h + 5) \<le> (fc_num cf - Suc i) * (?h + 5)" by (intro mult_le_mono1) simp
        moreover have "?c \<le> length p - Suc i * ?c"
          using less_div_up_iff[OF cap_pos[OF ok], of "Suc (Suc i)" "length p"] True ok
          by (simp add: cfg_ok_def)
        ultimately have "1 * (?h + 5) + ?c \<le> (fc_num cf - Suc i) * (?h + 5) + (length p - Suc i * ?c)"
          by (rule add_mono)
        then have "int (fc_size cf) \<le> rm"
          unfolding rm2 fc_size_eq[OF ok] by (simp only: of_nat_add[symmetric] of_nat_le_iff mult_1)
        then show ?thesis using piece_full[OF ok True] by (simp add: n_def fc_size_eq[OF ok])
      next
        case False
        then have one: "fc_num cf - Suc i = 1" and num': "fc_num cf = Suc (Suc i)" using last by simp_all
        have "length p - Suc i * ?c \<le> ?c" using num by (simp add: num')
        then show ?thesis
          unfolding n_def rm2 one fc_size_eq[OF ok] by (simp add: length_piece)
      qed
      have pos: "0 < length (piece cf p (Suc i))" using piece_nonempty[OF ok] last by simp
      have "new_chunk cf n (Suc i) = chunk_head cf (Suc i) @ replicate (length (piece cf p (Suc i))) 0"
        using new_chunk_eq[OF ok, of n "Suc i"] n by simp
      moreover have "s' = s\<lparr>fi_chunk := new_chunk cf n (Suc i), fi_start := ?h + 5,
          fi_remain := int n - int ?h - 5, fi_remain_msg := rm, fi_idx := Suc i,
          fi_out := map (full_chunk cf p) [0..<Suc i]\<rparr>"
      proof -
        have "fi_remain s - int (length part) = 0" using rem rk by simp
        moreover have "fi_idx s = i" using inv by (simp add: fill_inv_def)
        moreover have "Suc i \<noteq> fc_num cf" using last by simp
        ultimately show ?thesis
          unfolding s' fill_step_def Let_def full out n_def rm_def by simp
      qed
      ultimately have "fill_inv cf p (Suc i) 0 s'"
        using pos rm by (simp add: fill_inv_def n)
      then show ?thesis using rk last by simp
    next
      case False
      then have "fc_num cf = Suc i" using i by simp
      then show ?thesis
        using inv rem rk full out by (simp add: s' fill_step_def Let_def fill_inv_def)
    qed
  qed
qed

text \<open>The same with the position \<open>q\<close> in the payload.\<close>

definition fill_at :: "fill_cfg \<Rightarrow> bytes \<Rightarrow> nat \<Rightarrow> fill_state \<Rightarrow> bool" where
  "fill_at cf p q s \<longleftrightarrow>
     (if q < length p then fill_inv cf p (q div chunk_cap cf) (q mod chunk_cap cf) s
      else fi_out s = map (full_chunk cf p) [0..<fc_num cf])"

lemma position_facts:
  assumes ok: "cfg_ok cf p" and q: "q < length p"
  defines "i \<equiv> q div chunk_cap cf" and "r \<equiv> q mod chunk_cap cf"
  shows "q = i * chunk_cap cf + r" and "r < chunk_cap cf" and "i < fc_num cf" and "r < length (piece cf p i)"
    and "length p - q \<ge> length (piece cf p i) - r"
    and "\<not> Suc i < fc_num cf \<Longrightarrow> length (piece cf p i) - r = length p - q"
    and "r + k \<le> length (piece cf p i) \<Longrightarrow> slice (piece cf p i) r (r + k) = slice p q (q + k)"
proof -
  let ?c = "chunk_cap cf"
  note c = cap_pos[OF ok]
  show q': "q = i * ?c + r" by (simp add: i_def r_def)
  show rc: "r < ?c" using c by (simp add: r_def)
  have lt: "i * ?c < length p" using q q' by linarith
  show "i < fc_num cf" using less_div_up_iff[OF c, of i "length p"] lt ok by (simp add: cfg_ok_def)
  show "r < length (piece cf p i)" using rc q q' by (simp add: length_piece)
  show "length p - q \<ge> length (piece cf p i) - r" using q' by (simp add: length_piece)
  show "length (piece cf p i) - r = length p - q" if "\<not> Suc i < fc_num cf"
  proof -
    have "length p \<le> Suc i * ?c"
      using that less_div_up_iff[OF c, of "Suc i" "length p"] ok by (auto simp: cfg_ok_def)
    then show ?thesis using q' by (simp add: length_piece)
  qed
  show "slice (piece cf p i) r (r + k) = slice p q (q + k)" if "r + k \<le> length (piece cf p i)"
  proof -
    have "r + k \<le> ?c" using that by (simp add: length_piece)
    then have "k \<le> ?c - r" by linarith
    then show ?thesis using q' by (simp add: piece_def slice_def drop_take add.commute)
  qed
qed

lemma position_next:
  assumes ok: "cfg_ok cf p" and q: "q < length p"
    and k: "q mod chunk_cap cf + k \<le> length (piece cf p (q div chunk_cap cf))"
  shows "if q mod chunk_cap cf + k < length (piece cf p (q div chunk_cap cf))
    then q + k < length p \<and> (q + k) div chunk_cap cf = q div chunk_cap cf \<and>
      (q + k) mod chunk_cap cf = q mod chunk_cap cf + k
    else if Suc (q div chunk_cap cf) < fc_num cf
    then q + k < length p \<and> (q + k) div chunk_cap cf = Suc (q div chunk_cap cf) \<and> (q + k) mod chunk_cap cf = 0
    else q + k = length p"
proof -
  let ?c = "chunk_cap cf"
  define i where "i = q div ?c"
  define r where "r = q mod ?c"
  note pf = position_facts[OF ok q, folded i_def r_def]
  have L: "length (piece cf p i) \<le> ?c" by (simp add: length_piece)
  show ?thesis
  proof (cases "r + k < length (piece cf p i)")
    case True
    then have "q + k < length p" "(q + k) div ?c = i" "(q + k) mod ?c = r + k"
      using pf(1,5) L by (simp_all add: add.assoc div_mult_self3)
    then show ?thesis using True by (simp add: i_def r_def)
  next
    case False
    then have rk: "r + k = length (piece cf p i)" using k by (simp add: i_def r_def)
    show ?thesis
    proof (cases "Suc i < fc_num cf")
      case True
      then have "r + k = ?c" using piece_full[OF ok True] rk by simp
      then have q2: "q + k = Suc i * ?c" using pf(1) by simp
      moreover have "Suc i * ?c < length p"
        using less_div_up_iff[OF cap_pos[OF ok], of "Suc i" "length p"] True ok by (simp add: cfg_ok_def)
      ultimately have "q + k < length p" by (simp only:)
      moreover have "(q + k) div ?c = Suc i" "(q + k) mod ?c = 0"
        unfolding q2 using cap_pos[OF ok] by (simp_all del: mult_Suc)
      ultimately show ?thesis using True False by (simp flip: i_def r_def)
    next
      case last: False
      have "q + k = length p" using pf(6)[OF last] rk q pf(4) by linarith
      then show ?thesis using last False by (simp flip: i_def r_def)
    qed
  qed
qed

lemma fill_step_at:
  assumes ok: "cfg_ok cf p" and at: "fill_at cf p q s" and q: "q < length p"
    and k: "0 < k" "int k \<le> fi_remain s"
  shows "fill_at cf p (q + k) (fill_step cf (slice p q (q + k)) s)"
proof -
  let ?i = "q div chunk_cap cf" and ?r = "q mod chunk_cap cf"
  have inv: "fill_inv cf p ?i ?r s" using at q by (simp add: fill_at_def)
  then have le: "?r + k \<le> length (piece cf p ?i)" using k(2) by (simp add: fill_inv_def)
  note st = fill_step_inv[OF ok inv k(1) le, unfolded position_facts(7)[OF ok q le]]
  note nx = position_next[OF ok q le]
  show ?thesis
    using st nx by (auto simp: fill_at_def split: if_splits)
qed

lemma fill_at_remain:
  assumes "cfg_ok cf p" and "fill_at cf p q s" and "q < length p"
  shows "0 < fi_remain s"
  using assms by (auto simp: fill_at_def fill_inv_def)

lemma slice_split: "slice xs a (a + n) = slice ys b (b + n) \<Longrightarrow> k \<le> n \<Longrightarrow>
   slice xs a (a + k) = slice ys b (b + k) \<and> slice xs (a + k) (a + n) = slice ys (b + k) (b + n)"
proof -
  assume eq: "slice xs a (a + n) = slice ys b (b + n)" and k: "k \<le> n"
  have "take k (slice xs a (a + n)) = take k (slice ys b (b + n))" using eq by simp
  then have "slice xs a (a + k) = slice ys b (b + k)" using k by (simp add: slice_def min_def)
  then show ?thesis using eq slice_join[of a "a + k" "a + n" xs] slice_join[of b "b + k" "b + n" ys] k
    by (metis append_same_eq same_append_eq add_le_cancel_left le_add1)
qed

lemma fill_loop_at:
  assumes ok: "cfg_ok cf p"
  shows "fill_at cf p q s \<Longrightarrow> q + n \<le> length p \<Longrightarrow> slice mv a (a + n) = slice p q (q + n) \<Longrightarrow>
    \<exists>s'. fill_loop cf mv a (int n) s = Some s' \<and> fill_at cf p (q + n) s'"
proof (induction n arbitrary: a q s rule: less_induct)
  case (less n)
  show ?case
  proof (cases "n = 0")
    case True
    then show ?thesis using less.prems by (simp add: fill_loop.simps)
  next
    case False
    then have q: "q < length p" using less.prems(2) by simp
    define k where "k = nat (min (int n) (fi_remain s))"
    have rem: "0 < fi_remain s" by (rule fill_at_remain[OF ok less.prems(1) q])
    have k: "0 < k" "k \<le> n" "int k \<le> fi_remain s" "min (int n) (fi_remain s) = int k"
      using False rem by (auto simp: k_def)
    have parts: "slice mv a (a + k) = slice p q (q + k)" "slice mv (a + k) (a + n) = slice p (q + k) (q + n)"
      using slice_split[OF less.prems(3) k(2)] by simp_all
    define s1 where "s1 = fill_step cf (slice p q (q + k)) s"
    have at: "fill_at cf p (q + k) s1"
      unfolding s1_def by (rule fill_step_at[OF ok less.prems(1) q k(1,3)])
    have step: "fill_loop cf mv a (int n) s = fill_loop cf mv (a + k) (int (n - k)) s1"
      using False k(2) by (subst fill_loop.simps) (simp add: Let_def k(4) parts(1) s1_def of_nat_diff)
    have "n - k < n" "q + k + (n - k) \<le> length p" "slice mv (a + k) (a + k + (n - k)) = slice p (q + k) (q + k + (n - k))"
      using k less.prems(2) parts(2) by simp_all
    from less.IH[OF this(1) at this(2,3)] show ?thesis
      using k(2) by (simp add: step)
  qed
qed

lemma fill_arrays_at:
  assumes ok: "cfg_ok cf p"
  shows "fill_at cf p q s \<Longrightarrow> drop q p = concat ds \<Longrightarrow> q \<le> length p \<Longrightarrow>
    \<exists>s'. fill_arrays cf ds s = Some s' \<and> fi_out s' = map (full_chunk cf p) [0..<fc_num cf]"
proof (induction ds arbitrary: q s)
  case Nil
  then show ?case by (simp add: fill_at_def)
next
  case (Cons d ds)
  have len: "q + length d \<le> length p" using arg_cong[OF Cons.prems(2), of length] Cons.prems(3) by simp
  have sl: "slice d 0 (0 + length d) = slice p q (q + length d)"
    using Cons.prems(2) by (simp add: slice_def)
  obtain s' where s': "fill_loop cf d 0 (int (length d)) s = Some s'" "fill_at cf p (q + length d) s'"
    using fill_loop_at[OF ok Cons.prems(1) len sl] by blast
  have "drop (q + length d) p = concat ds"
    using arg_cong[OF Cons.prems(2), of "drop (length d)"] by (simp add: add.commute)
  from Cons.IH[OF s'(2) this len] show ?case by (simp add: s'(1))
qed

subsection \<open>Reading the chunks back\<close>

definition chunk_len :: "fill_cfg \<Rightarrow> bytes \<Rightarrow> nat \<Rightarrow> nat" where
  "chunk_len cf p i = (if i = 0 then chunk_cap cf else length (piece cf p i))"

definition read_at :: "fill_cfg \<Rightarrow> bytes \<Rightarrow> nat \<Rightarrow> read_state \<Rightarrow> bool" where
  "read_at cf p q s \<longleftrightarrow> (q < length p \<longrightarrow>
     (let i = q div chunk_cap cf; r = q mod chunk_cap cf in
      rd_chunk s = full_chunk cf p i \<and> rd_start s = fc_hlen cf + 5 + r \<and>
      rd_left s = int (chunk_len cf p i) - int r \<and> rd_idx s = i))"

lemma le_int32_le_bytes: "n < 2 ^ 31 \<Longrightarrow> le_int32 (le_bytes 4 n) = Inr (int n)"
  by (simp add: le_int32_def le_nat_le_bytes)

lemma length_full_chunk:
  "cfg_ok cf p \<Longrightarrow> length (full_chunk cf p i) = fc_hlen cf + 5 + chunk_len cf p i"
  by (auto simp: full_chunk_def length_chunk_head chunk_len_def length_piece)

lemma read_len_full_chunk:
  assumes "fc_hlen cf < 2 ^ 31"
  shows "read_len (full_chunk cf p i) = Inr (int (fc_hlen cf))"
proof -
  have "slice (full_chunk cf p i) 1 5 = le_bytes 4 (fc_hlen cf)"
    by (simp add: full_chunk_def chunk_head_def slice_def)
  moreover have "le_bytes 4 (fc_hlen cf) \<noteq> []"
    using length_le_bytes[of 4 "fc_hlen cf"] by (metis list.size(3) zero_neq_numeral)
  ultimately show ?thesis using le_int32_le_bytes[OF assms] by (simp add: read_len_def)
qed

lemma open_full_chunk:
  assumes "cfg_ok cf p" and "fc_hlen cf < 2 ^ 31" and "i < fc_num cf" and "q = i * chunk_cap cf"
  shows "\<exists>s. open_chunk (full_chunk cf p i) i = Inr s \<and> read_at cf p q s"
  using assms cap_pos[OF assms(1)]
  by (auto simp: open_chunk_def read_len_full_chunk read_at_def length_full_chunk nat_add_distrib)

lemma slice_full_chunk:
  assumes ok: "cfg_ok cf p" and "r + k \<le> length (piece cf p i)"
  shows "slice (full_chunk cf p i) (fc_hlen cf + 5 + r) (fc_hlen cf + 5 + r + k) = slice (piece cf p i) r (r + k)"
  using assms(2) length_chunk_head[OF ok, of i] by (simp add: full_chunk_def slice_def)

lemma read_loop_at:
  assumes ok: "cfg_ok cf p" and h: "fc_hlen cf < 2 ^ 31"
  shows "read_at cf p q s \<Longrightarrow> q + n \<le> length p \<Longrightarrow>
    \<exists>s'. read_loop (map (full_chunk cf p) [0..<fc_num cf]) (int n) acc s = Some (Inr (acc @ slice p q (q + n), s')) \<and>
      read_at cf p (q + n) s'"
proof (induction n arbitrary: acc q s rule: less_induct)
  case (less n)
  let ?cs = "map (full_chunk cf p) [0..<fc_num cf]"
  show ?case
  proof (cases "n = 0")
    case True
    then show ?thesis using less.prems by (simp add: read_loop.simps)
  next
    case False
    then have q: "q < length p" using less.prems(2) by simp
    define i where "i = q div chunk_cap cf"
    define r where "r = q mod chunk_cap cf"
    note pf = position_facts[OF ok q, folded i_def r_def]
    have s: "rd_chunk s = full_chunk cf p i" "rd_start s = fc_hlen cf + 5 + r"
      "rd_left s = int (chunk_len cf p i) - int r" "rd_idx s = i"
      using less.prems(1) q by (simp_all add: read_at_def Let_def i_def r_def)
    have LZ: "length (piece cf p i) \<le> chunk_len cf p i" by (simp add: chunk_len_def length_piece)
    define k where "k = min n (length (piece cf p i) - r)"
    have k: "0 < k" "k \<le> n" "r + k \<le> length (piece cf p i)" using False pf(4) by (auto simp: k_def)
    have ser: "min (int n) (rd_left s) = int k"
    proof (cases "Suc i < fc_num cf")
      case True
      then have "chunk_len cf p i = length (piece cf p i)"
        using piece_full[OF ok True] by (simp add: chunk_len_def)
      then show ?thesis using s(3) pf(4) by (simp add: k_def of_nat_diff)
    next
      case last: False
      then have "n \<le> length (piece cf p i) - r" using pf(6) less.prems(2) by simp
      then show ?thesis using s(3) LZ pf(4) by (simp add: k_def)
    qed
    have part: "slice (rd_chunk s) (rd_start s) (rd_start s + k) = slice p q (q + k)"
      using slice_full_chunk[OF ok k(3)] pf(7)[OF k(3)] by (simp add: s)
    have plen: "length (slice p q (q + k)) = k"
      using less.prems(2) k(2) by simp
    have lp: "min k (length (rd_chunk s) - rd_start s) = k"
      using arg_cong[OF part, of length] plen by simp
    define s1 where "s1 = s\<lparr>rd_left := rd_left s - int k, rd_start := rd_start s + k\<rparr>"
    note nx = position_next[OF ok q, of k, folded i_def r_def, OF k(3)]
    have "\<exists>s2. next_chunk ?cs s1 = Inr s2 \<and> read_at cf p (q + k) s2"
    proof (cases "r + k < length (piece cf p i)")
      case True
      then have "rd_left s1 \<noteq> 0" using s(3) LZ by (simp add: s1_def)
      moreover have "read_at cf p (q + k) s1"
        using nx True s by (simp add: read_at_def Let_def s1_def)
      ultimately show ?thesis by (simp add: next_chunk_def)
    next
      case False
      then have rk: "r + k = length (piece cf p i)" using k(3) by simp
      show ?thesis
      proof (cases "Suc i < fc_num cf")
        case True
        then have "chunk_len cf p i = length (piece cf p i)"
          using piece_full[OF ok True] by (simp add: chunk_len_def)
        then have left: "rd_left s1 = 0" using s(3) rk by (simp add: s1_def)
        have q2: "q + k = Suc i * chunk_cap cf"
          using pf(1) rk piece_full[OF ok True] by simp
        obtain s2 where "open_chunk (full_chunk cf p (Suc i)) (Suc i) = Inr s2" "read_at cf p (q + k) s2"
          using open_full_chunk[OF ok h True q2] by blast
        moreover have "i \<noteq> fc_num cf - Suc 0" using True by linarith
        ultimately show ?thesis using left True s(4) by (simp add: next_chunk_def s1_def)
      next
        case last: False
        then have "q + k = length p" "i = fc_num cf - Suc 0" using nx False pf(3) by simp_all
        then show ?thesis using s(4) by (simp add: next_chunk_def s1_def read_at_def)
      qed
    qed
    then obtain s2 where s2: "next_chunk ?cs s1 = Inr s2" "read_at cf p (q + k) s2" by blast
    have step: "read_loop ?cs (int n) acc s = read_loop ?cs (int (n - k)) (acc @ slice p q (q + k)) s2"
      using False k(2) s2(1)
      by (subst read_loop.simps) (simp add: Let_def ser part lp s1_def of_nat_diff)
    have "n - k < n" "q + k + (n - k) \<le> length p" using k less.prems(2) by simp_all
    from less.IH[OF this(1) s2(2) this(2), of "acc @ slice p q (q + k)"] show ?thesis
      using k(2) by (simp add: step slice_join[of q "q + k" "q + n" p])
  qed
qed

lemma read_arrays_at:
  assumes ok: "cfg_ok cf p" and h: "fc_hlen cf < 2 ^ 31"
  shows "read_at cf p q s \<Longrightarrow> rmap_list meta_size ms = Inr ns \<Longrightarrow> q + sum_list (map snd ns) \<le> length p \<Longrightarrow>
    read_arrays (map (full_chunk cf p) [0..<fc_num cf]) ms s = Some (plain_arrays p ms q)"
proof (induction ms arbitrary: q s ns)
  case (Cons m ms)
  obtain dt n ns' where m: "meta_size m = Inr (dt, n)" "rmap_list meta_size ms = Inr ns'" "ns = (dt, n) # ns'"
    using Cons.prems(2) by (auto simp: res_simps)
  have le: "q + n \<le> length p" using Cons.prems(3) m(3) by simp
  obtain s' where s': "read_loop (map (full_chunk cf p) [0..<fc_num cf]) (int n) [] s =
      Some (Inr (slice p q (q + n), s'))" "read_at cf p (q + n) s'"
    using read_loop_at[OF ok h Cons.prems(1) le, of "[]"] by auto
  have "read_arrays (map (full_chunk cf p) [0..<fc_num cf]) ms s' = Some (plain_arrays p ms (q + n))"
    using Cons.IH[OF s'(2) m(2)] Cons.prems(3) m(3) by (simp add: add.assoc)
  then show ?case
    using m(1) s'(1) by (cases "meta_value m dt (slice p q (q + n))") simp_all
qed simp

text \<open>The payload with its metadata gives the arrays back.\<close>

fun socket_ok :: "buf \<Rightarrow> bool" where
  "socket_ok (NdArr a) \<longleftrightarrow> ndarray_ok a \<and> nd_shape a \<noteq> [] \<and> \<not> isl (npdtype_to_jsonarray (nd_dtype a))"
| "socket_ok (Bytes b) \<longleftrightarrow> True"
| "socket_ok (JSBuf b c) \<longleftrightarrow> is_bytes_code c"

lemma fold_times: "fold (\<lambda>s n. n * s) xs (k :: nat) = k * prod_list xs"
  by (induction xs arbitrary: k) (simp_all add: ac_simps)

lemma fold_times': "fold (*) xs (k :: nat) = k * prod_list xs"
  by (induction xs arbitrary: k) (simp_all add: ac_simps)

lemma meta_size_array:
  assumes "socket_ok (NdArr a)" and "arr_meta (PBuf (NdArr a)) = Inr (n, m)"
  shows "meta_size m = Inr (nd_dtype a, n) \<and> n = length (nd_data a) \<and>
    meta_value m (nd_dtype a) (nd_data a) = Inr (PBuf (NdArr (ascontiguous a)))"
proof -
  obtain c where c: "npdtype_to_jsonarray (nd_dtype a) = Inr c" "m = (c, nd_shape a)" "n = length (nd_data a)"
    using assms(2) by (auto simp: arr_meta_def res_simps nd_nbytes_def)
  note r = jsonarray_roundtrip[OF c(1)]
  obtain d ds where sh: "nd_shape a = d # ds" using assms(1) by (cases "nd_shape a") auto
  have len: "length (nd_data a) = prod_list (nd_shape a) * itemsize (nd_dtype a)"
    using assms(1) by (simp add: ndarray_ok_def nd_nbytes_def)
  have nb: "\<not> is_bytes_code c"
    using r by (auto simp: is_bytes_code_def BYTES_JSONARRAY_CODE_def BYTES_JSONARRAY_ARRAYBUFFER_CODE_def)
  have "np_frombuffer (nd_data a) (nd_dtype a) (nd_shape a) = Inr (ascontiguous a)"
    using len r by (simp add: np_frombuffer_ok ascontiguous_def)
  then show ?thesis
    using c nb r len by (simp add: meta_size_def meta_value_def sh fold_times' pyindex_def ac_simps)
qed

lemma meta_size_bytes:
  assumes "is_bytes_code c"
  shows "meta_size (c, [n]) = Inr (native_dtype UInt8, n)" and "meta_value (c, [n]) dt d = Inr (PBuf (Bytes d))"
  using assms by (simp_all add: meta_size_def meta_value_def)

lemma meta_size_buf:
  assumes "socket_ok b" and "arr_meta (PBuf b) = Inr (n, m)"
  shows "\<exists>dt. meta_size m = Inr (dt, n) \<and> n = length (arr_bytes (PBuf b)) \<and>
    meta_value m dt (arr_bytes (PBuf b)) = Inr (PBuf (recv_buf b))"
proof (cases b)
  case (NdArr a)
  with assms meta_size_array[of a n m] show ?thesis by auto
next
  case (Bytes x)
  then show ?thesis
    using assms by (auto simp: arr_meta_def meta_size_bytes is_bytes_code_def)
next
  case (JSBuf x c)
  then show ?thesis using assms by (auto simp: arr_meta_def meta_size_bytes)
qed

lemma payload_arrays:
  assumes "\<And>v. v \<in> set vs \<Longrightarrow> \<exists>b. v = PBuf b \<and> socket_ok b" and "rmap_list arr_meta vs = Inr ms"
  shows "\<exists>ns. rmap_list meta_size (map snd ms) = Inr ns \<and> sum_list (map snd ns) = length (concat (map arr_bytes vs)) \<and>
    sum_list (map fst ms) = length (concat (map arr_bytes vs)) \<and>
    plain_arrays (pre @ concat (map arr_bytes vs) @ post) (map snd ms) (length pre) = Inr (map (on_buf recv_buf) vs)"
  using assms
proof (induction vs arbitrary: ms pre)
  case (Cons v vs)
  obtain b where b: "v = PBuf b" "socket_ok b" using Cons.prems(1) by auto
  obtain n m ms' where ms: "arr_meta (PBuf b) = Inr (n, m)" "rmap_list arr_meta vs = Inr ms'" "ms = (n, m) # ms'"
    using Cons.prems(2) b(1) by (auto simp: res_simps)
  obtain dt where dt: "meta_size m = Inr (dt, n)" "n = length (arr_bytes (PBuf b))"
    "meta_value m dt (arr_bytes (PBuf b)) = Inr (PBuf (recv_buf b))"
    using meta_size_buf[OF b(2) ms(1)] by blast
  obtain ns where ns: "rmap_list meta_size (map snd ms') = Inr ns"
    "sum_list (map snd ns) = length (concat (map arr_bytes vs))"
    "sum_list (map fst ms') = length (concat (map arr_bytes vs))"
    "plain_arrays ((pre @ arr_bytes (PBuf b)) @ concat (map arr_bytes vs) @ post) (map snd ms')
       (length (pre @ arr_bytes (PBuf b))) = Inr (map (on_buf recv_buf) vs)"
    using Cons.IH[OF _ ms(2), of "pre @ arr_bytes (PBuf b)"] Cons.prems(1) by auto
  have "slice (pre @ arr_bytes (PBuf b) @ concat (map arr_bytes vs) @ post) (length pre) (length pre + n) = arr_bytes (PBuf b)"
    using slice_append_mid[of pre "arr_bytes (PBuf b)" "concat (map arr_bytes vs) @ post"] by (simp add: dt(2))
  then show ?case
    using dt(1,3) ns by (simp add: ms(3) b(1) dt(2) del: arr_bytes.simps)
qed simp

lemma read_meta_val [simp]: "read_meta (untuple (meta_val m)) = Inr m"
proof -
  have "rmap_list as_dim (untuple_list (map (\<lambda>n. PInt (int n)) ds)) = Inr ds" for ds
    by (induction ds) (simp_all add: as_dim_def)
  then show ?thesis by (simp add: read_meta_def meta_val_def unpack2_def as_dim_def)
qed

lemma read_metas: "rbind (iter_items (untuple (PList (map meta_val ms)))) (rmap_list read_meta) = Inr ms"
  by (induction ms) simp_all

lemma encoder_not_oversize:
  assumes "encoder_init c no_optree d limit = Inr en" and "en_arrays en = bufs d"
  obtains ms where "rmap_list arr_meta (bufs d) = Inr ms" and "en_meta en = map snd ms"
    and "en_total en = sum_list (map fst ms)"
proof -
  have ext: "extract_arrays_from_data no_optree d default_classes json_index_key True (Some extract_ctx_init) =
      extract_arrays_from_data no_optree d default_classes json_index_key True None"
    by (simp add: extract_arrays_from_data_def)
  show thesis
    using assms that by (auto simp: encoder_init_def ext extract_arrays_eq res_simps Let_def split: if_splits)
qed

lemma all_bufs_list: "all_bufs P d \<Longrightarrow> v \<in> set (bufs d) \<Longrightarrow> \<exists>b. v = PBuf b \<and> P b"
  using all_bufsD by metis

text \<open>The chunk header's size does not depend on the chunk index: its fields are fixed-width and not zero.\<close>

definition fixed_header :: "header_wire \<Rightarrow> header \<Rightarrow> bool" where
  "fixed_header w req \<longleftrightarrow>
     (let ch = chunk_header_of req
      in (\<forall>i. length (hser w (ch\<lparr>chunk_index := i\<rparr>)) = length (hser w ch)) \<and> length (hser w ch) < 2 ^ 31)"

definition chunk_header_size :: "header_wire \<Rightarrow> header \<Rightarrow> nat" where
  "chunk_header_size w req = length (hser w (chunk_header_of req))"

lemma chunk_header_of_data [simp]: "chunk_header_of (req\<lparr>hdata := x\<rparr>) = chunk_header_of req"
  by (simp add: chunk_header_of_def)

lemma chunks_ok:
  assumes en: "en_total en = length p" "p = concat (map arr_bytes (en_arrays en))"
    and big: "chunk_size \<le> 5 + length (hser w (req\<lparr>hdata := en_ser en\<rparr>)) + en_total en"
    and fits: "length (hser w (req\<lparr>hdata := en_ser en\<rparr>)) + 5 \<le> chunk_size"
      "chunk_header_size w req + 5 < chunk_size"
    and fixed: "fixed_header w req" and pos: "0 < en_total en"
  shows "\<exists>head cf. cfg_ok cf p \<and> fc_size cf = chunk_size \<and> fc_hlen cf < 2 ^ 31 \<and> 0 < fc_num cf \<and>
    get_message_chunks w en type req chunk_size = Some (head # map (full_chunk cf p) [0..<fc_num cf], Inr ())"
proof -
  define ch where "ch = chunk_header_of req"
  define h where "h = length (hser w ch)"
  define num where "num = div_up (en_total en) (chunk_size - h - 5)"
  define cf where "cf = fill_cfg_of w type ch chunk_size num"
  have hs: "h + 5 < chunk_size" using fits(2) by (simp add: chunk_header_size_def h_def ch_def)
  have cap: "chunk_cap cf = chunk_size - h - 5" by (simp add: chunk_cap_def cf_def fill_cfg_of_def h_def)
  have ok: "cfg_ok cf p"
    using fixed hs by (simp add: cfg_ok_def cap) (simp add: cf_def fill_cfg_of_def fixed_header_def Let_def
        num_def en(1) h_def ch_def)
  have num: "fc_num cf = num" by (simp add: cf_def fill_cfg_of_def)
  have num0: "0 < num"
    using less_div_up_iff[OF cap_pos[OF ok], of 0 "length p"] pos en(1) by (simp add: num_def cap)
  define rm where "rm = int (num * (h + 5) + en_total en)"
  define s0 where "s0 = \<lparr>fi_chunk = new_chunk cf chunk_size 0, fi_start = h + 5,
    fi_remain = min rm (int chunk_size) - int h - 5, fi_remain_msg = rm, fi_idx = 0, fi_out = []\<rparr>"
  have hl: "fc_hlen cf = h" "fc_size cf = chunk_size" by (simp_all add: cf_def fill_cfg_of_def h_def)
  have L0: "length (piece cf p 0) = min (chunk_cap cf) (length p)" by (simp add: length_piece)
  have remain: "min rm (int chunk_size) - int h - 5 = int (length (piece cf p 0))"
  proof (cases "Suc 0 < num")
    case True
    have "chunk_cap cf < length p"
      using less_div_up_iff[OF cap_pos[OF ok], of 1 "length p"] True en(1) by (simp add: num_def cap)
    moreover have "1 * (h + 5) \<le> num * (h + 5)" using num0 by (intro mult_le_mono1) simp
    ultimately have "1 * (h + 5) + chunk_cap cf \<le> num * (h + 5) + en_total en"
      unfolding en(1) by (intro add_mono) simp_all
    moreover have "1 * (h + 5) + chunk_cap cf = chunk_size" using cap hs by simp
    ultimately have "chunk_size \<le> num * (h + 5) + en_total en" by (simp only:)
    then have "int chunk_size \<le> rm" unfolding rm_def by (simp only: of_nat_le_iff)
    then show ?thesis using \<open>chunk_cap cf < length p\<close> hs by (simp add: L0 cap of_nat_diff)
  next
    case False
    then have one: "num = 1" using num0 by simp
    have "length p \<le> chunk_cap cf"
      using div_up_bounds(1)[OF cap_pos[OF ok], of "length p"] one en(1) by (simp add: num_def cap)
    then show ?thesis using hs one by (simp add: L0 cap rm_def en(1))
  qed
  have new: "new_chunk cf chunk_size 0 = chunk_head cf 0 @ replicate (chunk_cap cf) 0"
    using new_chunk_eq[OF ok, of chunk_size 0] hs by (simp add: hl cap)
  have "0 < length p" using pos en(1) by simp
  then have "fill_at cf p 0 s0"
    using remain new cap_pos[OF ok] piece_nonempty[OF ok, of 0] num0 num
    by (simp add: fill_at_def fill_inv_def s0_def hl rm_def en(1))
  from fill_arrays_at[OF ok this, of "map arr_bytes (en_arrays en)"] en(2)
  obtain s1 where s1: "fill_arrays cf (map arr_bytes (en_arrays en)) s0 = Some s1"
    "fi_out s1 = map (full_chunk cf p) [0..<num]"
    by (auto simp: num)
  have "\<exists>head. get_message_chunks w en type req chunk_size = Some (head # map (full_chunk cf p) [0..<num], Inr ())"
    unfolding get_message_chunks_def Let_def chunk_header_of_data ch_def[symmetric] h_def[symmetric]
      num_def[symmetric] cf_def[symmetric]
    using big fits(1) hs s1(1) unfolding s0_def rm_def by (simp add: s1(2))
  then obtain head where "get_message_chunks w en type req chunk_size =
      Some (head # map (full_chunk cf p) [0..<num], Inr ())" by blast
  moreover have "fc_hlen cf < 2 ^ 31" using fixed by (simp add: fixed_header_def Let_def hl h_def ch_def)
  ultimately show ?thesis
    using ok num num0 hl by (intro exI[of _ head] exI[of _ cf]) simp
qed

subsection \<open>Properties\<close>


definition demo_wire :: header_wire where
  "demo_wire = \<lparr>hser = (\<lambda>h. [of_nat (chunk_index h)]), hparse = (\<lambda>b. Inl ValueError)\<rparr>"

definition demo_codec :: codec where
  "demo_codec = \<lparr>enc = (\<lambda>l x. Inr [1]), dec = (\<lambda>l b. Inl ValueError)\<rparr>"

definition demo_encoder :: encoder where
  "demo_encoder = \<lparr>en_arrays = bufs sample, en_skeleton = skel json_index_key 0 sample, en_flags = 1,
     en_total = 5, en_meta = [(2, [2]), (100, [1])], en_ser = [1]\<rparr>"

lemma demo_encoder_init: "encoder_init demo_codec no_optree sample 10 = Inr demo_encoder"
proof -
  have ext: "extract_arrays_from_data no_optree sample default_classes json_index_key True (Some extract_ctx_init) =
      extract_arrays_from_data no_optree sample default_classes json_index_key True None"
    by (simp add: extract_arrays_from_data_def)
  have uid: "uid_strings sample = sample" by (simp add: sample_def)
  show ?thesis
    by (simp add: encoder_init_def ext extract_arrays_eq sent_value_def uid demo_encoder_def demo_codec_def)
      (simp add: sample_def arr_meta_def npdtype_to_jsonarray_def native_dtype_def nd_nbytes_def
        BYTES_JSONARRAY_CODE_def NEED_SCAN_def)
qed


text \<open>
  The encoder's header text is a list of three (flags, metadata, skeleton), but the parsers
  unpack two, so a message of \<open>SocketMessageEncoder\<close> is never parsed: both raise \<open>ValueError\<close>.
\<close>

lemma encoder_header_not_parsed:
  assumes "dec c JsonLib (hdata (rh_req h)) = Inr (untuple (get_skeleton flags meta skeleton))"
    and "0 < chunk_index (rh_req h)"
  shows "parse_message_chunks c h chunks = Some (Inl ValueError) \<and>
    parse_message_chunks c (h\<lparr>rh_req := (rh_req h)\<lparr>chunk_index := 0\<rparr>\<rparr>) chunks = Some (Inl ValueError) \<and>
    parse_array_of_chunked_message c (rh_req h) chunks = Some (Inl ValueError)"
  using assms by (simp add: parse_message_chunks_def parse_array_of_chunked_message_def get_skeleton_def unpack2_def)

lemma encoder_header_not_parsed_witness:
  "parse_array_of_chunked_message
     \<lparr>enc = (\<lambda>l x. Inr []), dec = (\<lambda>l b. Inr (untuple (get_skeleton 1 [(6, [2])] (PList [PInt 1]))))\<rparr>
     \<lparr>service_id = 0, chunk_index = 1, rpc_id = 0, hdata = [], service_key = [], dynamic_key = []\<rparr> [[5]] =
   Some (Inl ValueError)"
  using encoder_header_not_parsed[where h = "\<lparr>rh_length = 0, rh_type = RPC, rh_req =
      \<lparr>service_id = 0, chunk_index = 1, rpc_id = 0, hdata = [], service_key = [], dynamic_key = []\<rparr>\<rparr>"
      and c = "\<lparr>enc = (\<lambda>l x. Inr []), dec = (\<lambda>l b. Inr (untuple (get_skeleton 1 [(6, [2])] (PList [PInt 1]))))\<rparr>"
      and chunks = "[[5]]"]
  by (simp del: untuple.simps)

end
