(* ===== verification/KVStore.thy ===== *)
theory KVStore
  imports CoreIO_Tree
begin

text \<open>
  \<open>apps/collections/serv/kvstore.py\<close>, first part: tensor descriptors, the in-memory \<open>KVStore\<close> and
  the shared-memory \<open>ShmKVStore\<close>, with its client of \<open>apps/collections/shm_kvstore.py\<close>.

  Events are the list of store snapshots emitted (\<open>emit_async\<close> isolates its handlers: see
  \<open>EventEmitter\<close>). \<open>asyncio.Lock\<close> is not reentrant: an operation that takes the lock its own task
  holds never returns, which is the outcome \<open>Blocks\<close>. A shared-memory block is a name and its bytes
  in the system's memory; the time stamp is an argument.
\<close>

subsection \<open>Descriptors\<close>

definition ALIGN_SIZE :: nat where "ALIGN_SIZE = 128"

definition align_up :: "nat \<Rightarrow> nat \<Rightarrow> nat" where
  "align_up sz al = (sz + al - 1) div al * al"

record tensor_info =
  ti_shape :: "nat list"
  ti_dtype :: np_dtype
  ti_meta :: "string option"

definition get_byte_size :: "tensor_info \<Rightarrow> nat" where
  "get_byte_size i = prod_list (ti_shape i) * itemsize (ti_dtype i)"

definition get_aligned_byte_size :: "tensor_info \<Rightarrow> nat" where
  "get_aligned_byte_size i = align_up (get_byte_size i) ALIGN_SIZE"

record partial_info =
  pa_start :: nat
  pa_length :: nat

definition partial_aligned_size :: "partial_info \<Rightarrow> nat" where
  "partial_aligned_size p = align_up (pa_length p) ALIGN_SIZE"

record seg_desc =
  sd_info :: tensor_info
  sd_offset :: int
  sd_var_idx :: int
  sd_partial :: "partial_info option"

definition sd_is_partial :: "seg_desc \<Rightarrow> bool" where
  "sd_is_partial d = (case sd_partial d of None \<Rightarrow> False
     | Some p \<Rightarrow> pa_length p < get_aligned_byte_size (sd_info d))"

definition sd_partial_checked :: "seg_desc \<Rightarrow> partial_info res" where
  "sd_partial_checked d = of_opt AssertionError (sd_partial d)"

definition sd_partial_size :: "seg_desc \<Rightarrow> nat" where
  "sd_partial_size d = (case sd_partial d of None \<Rightarrow> get_byte_size (sd_info d) | Some p \<Rightarrow> pa_length p)"

definition sd_partial_size_aligned :: "seg_desc \<Rightarrow> nat" where
  "sd_partial_size_aligned d = (case sd_partial d of None \<Rightarrow> get_aligned_byte_size (sd_info d)
     | Some p \<Rightarrow> partial_aligned_size p)"

definition sd_offset_with_partial :: "seg_desc \<Rightarrow> int" where
  "sd_offset_with_partial d = (case sd_partial d of None \<Rightarrow> sd_offset d
     | Some p \<Rightarrow> sd_offset d + int (pa_start p))"

definition sd_is_last_partial :: "seg_desc \<Rightarrow> bool" where
  "sd_is_last_partial d = (case sd_partial d of None \<Rightarrow> True
     | Some p \<Rightarrow> pa_start p + pa_length p = get_aligned_byte_size (sd_info d))"

text \<open>The segments of one item and their message form; \<open>sg_shm\<close> names the shared memory.\<close>

record segments =
  sg_shm :: nat
  sg_descs :: "seg_desc list"

definition segs_aligned_size :: "seg_desc list \<Rightarrow> nat" where
  "segs_aligned_size ds = sum_list (map (get_aligned_byte_size \<circ> sd_info) ds)"

type_synonym shm_mem = "nat \<Rightarrow> bytes option"

text \<open>\<open>np.ndarray(shape, dtype, buffer=memview)\<close> needs a buffer of at least the array's size.\<close>

definition get_array_view :: "shm_mem \<Rightarrow> segments \<Rightarrow> nat \<Rightarrow> ndarray res" where
  "get_array_view mem sg i =
     (if i \<ge> length (sg_descs sg) then Inl IndexError
      else let d = sg_descs sg ! i; n = get_byte_size (sd_info d) in
        if sd_is_partial d then Inl AssertionError
        else case mem (sg_shm sg) of
          None \<Rightarrow> Inl ValueError
        | Some b \<Rightarrow>
            let view = pyslice b (sd_offset d) (sd_offset d + int n) in
            if length view < n then Inl TypeError
            else Inr \<lparr>nd_dtype = ti_dtype (sd_info d), nd_shape = ti_shape (sd_info d), nd_data = view,
              nd_contig = True, nd_last_contig = True\<rparr>)"

definition get_array_view_raw :: "shm_mem \<Rightarrow> segments \<Rightarrow> nat \<Rightarrow> bytes res" where
  "get_array_view_raw mem sg i =
     (if i \<ge> length (sg_descs sg) then Inl IndexError
      else let d = sg_descs sg ! i; n = sd_partial_size d in
        (case mem (sg_shm sg) of
          None \<Rightarrow> Inl ValueError
        | Some b \<Rightarrow>
            let view = pyslice b (sd_offset d) (sd_offset d + int n) in
            if length view < n then Inl TypeError else Inr view))"

subsection \<open>Outcomes of the asynchronous operations\<close>

datatype 'a outcome = Returns 'a | Raises pyerr | Blocks

type_synonym ('s, 'a) aop = "'s \<Rightarrow> 'a outcome \<times> 's"

definition obind :: "('s, 'a) aop \<Rightarrow> ('a \<Rightarrow> ('s, 'b) aop) \<Rightarrow> ('s, 'b) aop" where
  "obind m f s = (case m s of (Returns x, s') \<Rightarrow> f x s' | (Raises e, s') \<Rightarrow> (Raises e, s') | (Blocks, s') \<Rightarrow> (Blocks, s'))"

definition oret :: "'a \<Rightarrow> ('s, 'a) aop" where
  "oret x s = (Returns x, s)"

fun ofor :: "('x \<Rightarrow> ('s, unit) aop) \<Rightarrow> 'x list \<Rightarrow> ('s, unit) aop" where
  "ofor f [] s = (Returns (), s)"
| "ofor f (x # xs) s = obind (f x) (\<lambda>_. ofor f xs) s"

named_theorems aop_simps

lemmas [aop_simps] = obind_def oret_def

subsection \<open>\<open>KVStore\<close>\<close>

record ('d, 'm, 't) kv_item =
  it_mtime :: 't
  it_data :: 'd
  it_metadata :: "'m option"

type_synonym ('d, 'm, 't) kv_store = "(string, ('d, 'm, 't) kv_item) dict"

record ('d, 'm, 't) kvs =
  ks_store :: "('d, 'm, 't) kv_store"
  ks_events :: "('d, 'm, 't) kv_store list"

definition kvs_init :: "('d, 'm, 't) kvs" where
  "kvs_init = \<lparr>ks_store = [], ks_events = []\<rparr>"

definition kvs_emit :: "('d, 'm, 't) kvs \<Rightarrow> ('d, 'm, 't) kvs" where
  "kvs_emit s = s\<lparr>ks_events := ks_events s @ [ks_store s]\<rparr>"

definition kvs_set_item :: "'t \<Rightarrow> string \<Rightarrow> 'd \<Rightarrow> 'm option \<Rightarrow> ('d, 'm, 't) kvs \<Rightarrow> ('d, 'm, 't) kvs" where
  "kvs_set_item now key v md s = kvs_emit
     (s\<lparr>ks_store := dset key \<lparr>it_mtime = now, it_data = v, it_metadata = md\<rparr> (ks_store s)\<rparr>)"

definition kvs_has_item :: "string \<Rightarrow> ('d, 'm, 't) kvs \<Rightarrow> bool" where
  "kvs_has_item key s = dmem key (ks_store s)"

definition kvs_get_item :: "string \<Rightarrow> ('d, 'm, 't) kvs \<Rightarrow> 'd res" where
  "kvs_get_item key s = rbind (of_opt KeyError (dget (ks_store s) key)) (\<lambda>i. Inr (it_data i))"

definition kvs_get_all_keys :: "('d, 'm, 't) kvs \<Rightarrow> string list" where
  "kvs_get_all_keys s = dkeys (ks_store s)"

definition kvs_get_all_key_to_meta :: "('d, 'm, 't) kvs \<Rightarrow> (string, 'm option) dict" where
  "kvs_get_all_key_to_meta s = map (\<lambda>(k, i). (k, it_metadata i)) (ks_store s)"

definition kvs_get_item_metadata :: "string \<Rightarrow> ('d, 'm, 't) kvs \<Rightarrow> 'm option res" where
  "kvs_get_item_metadata key s = rbind (of_opt KeyError (dget (ks_store s) key)) (\<lambda>i. Inr (it_metadata i))"

definition kvs_remove_item :: "string \<Rightarrow> bool \<Rightarrow> ('d, 'm, 't) kvs \<Rightarrow> ('d, 'm, 't) kvs" where
  "kvs_remove_item key emit_event s =
     (if dmem key (ks_store s)
      then let s = s\<lparr>ks_store := ddel key (ks_store s)\<rparr> in if emit_event then kvs_emit s else s
      else s)"

definition kvs_remove_items :: "string list \<Rightarrow> ('d, 'm, 't) kvs \<Rightarrow> ('d, 'm, 't) kvs" where
  "kvs_remove_items keys s = kvs_emit (fold (\<lambda>k. kvs_remove_item k False) keys s)"

definition kvs_clear :: "('d, 'm, 't) kvs \<Rightarrow> ('d, 'm, 't) kvs" where
  "kvs_clear s = kvs_emit (s\<lparr>ks_store := []\<rparr>)"

subsection \<open>\<open>ShmKVStore\<close>\<close>

record ('m, 't) shm_store =
  ss_store :: "(pyval, 'm, 't) kv_store"
  ss_segments :: "(string, segments) dict"
  ss_locked :: bool
  ss_events :: "(pyval, 'm, 't) kv_store list"
  ss_mem :: shm_mem
  ss_next :: nat

definition shm_init :: "('m, 't) shm_store" where
  "shm_init = \<lparr>ss_store = [], ss_segments = [], ss_locked = False, ss_events = [], ss_mem = (\<lambda>_. None), ss_next = 0\<rparr>"

definition with_lock :: "(('m, 't) shm_store, 'a) aop \<Rightarrow> (('m, 't) shm_store, 'a) aop" where
  "with_lock m s =
     (if ss_locked s then (Blocks, s)
      else case m (s\<lparr>ss_locked := True\<rparr>) of
        (Blocks, s') \<Rightarrow> (Blocks, s')
      | (r, s') \<Rightarrow> (r, s'\<lparr>ss_locked := False\<rparr>))"

definition shm_emit :: "(('m, 't) shm_store, unit) aop" where
  "shm_emit s = (Returns (), s\<lparr>ss_events := ss_events s @ [ss_store s]\<rparr>)"

text \<open>\<open>shm.close(); shm.unlink()\<close>: the block is gone.\<close>

definition shm_unlink :: "nat \<Rightarrow> ('m, 't) shm_store \<Rightarrow> ('m, 't) shm_store" where
  "shm_unlink n s = s\<lparr>ss_mem := (ss_mem s)(n := None)\<rparr>"

definition shm_exit :: "('m, 't) shm_store \<Rightarrow> ('m, 't) shm_store" where
  "shm_exit s = (fold (\<lambda>(k, sg). shm_unlink (sg_shm sg)) (ss_segments s) s)\<lparr>ss_segments := []\<rparr>"

text \<open>\<open>_validate_arr_descs\<close>: the sizes in bytes of the arrays against the segments.\<close>

definition descs_match :: "tensor_info list \<Rightarrow> seg_desc list \<Rightarrow> bool" where
  "descs_match infos segs \<longleftrightarrow> length infos = length segs \<and>
     (\<forall>i<length infos. get_byte_size (infos ! i) = get_byte_size (sd_info (segs ! i)))"

definition shm_validate :: "string \<Rightarrow> tensor_info list \<Rightarrow> bool \<Rightarrow> ('m, 't) shm_store \<Rightarrow> bool res" where
  "shm_validate key arr_descs raise_exc s =
     rbind (of_opt KeyError (dget (ss_segments s) key)) (\<lambda>sg.
     if descs_match arr_descs (sg_descs sg) then Inr True
     else if raise_exc then Inl ValueError else Inr False)"

definition shm_rename_key :: "string \<Rightarrow> string \<Rightarrow> ('m, 't) shm_store \<Rightarrow> ('m, 't) shm_store" where
  "shm_rename_key old_key new_key s =
     (if old_key = new_key then s
      else let s = (case dget (ss_store s) old_key of None \<Rightarrow> s
               | Some i \<Rightarrow> s\<lparr>ss_store := ddel old_key (dset new_key i (ss_store s))\<rparr>)
        in (case dget (ss_segments s) old_key of None \<Rightarrow> s
               | Some sg \<Rightarrow> s\<lparr>ss_segments := ddel old_key (dset new_key sg (ss_segments s))\<rparr>))"

definition shm_remove_item :: "string \<Rightarrow> bool \<Rightarrow> (('m, 't) shm_store, unit) aop" where
  "shm_remove_item key emit_event = with_lock (\<lambda>s.
     if dmem key (ss_store s)
     then let s = s\<lparr>ss_store := ddel key (ss_store s)\<rparr> in
       (case dget (ss_segments s) key of
          None \<Rightarrow> (Raises KeyError, s)
        | Some sg \<Rightarrow>
            let s = shm_unlink (sg_shm sg) (s\<lparr>ss_segments := ddel key (ss_segments s)\<rparr>) in
            if emit_event then shm_emit s else (Returns (), s))
     else (Returns (), s))"

text \<open>The descriptors of a new item: the offsets are the running sums of the aligned sizes.\<close>

fun layout_descs :: "nat \<Rightarrow> tensor_info list \<Rightarrow> seg_desc list" where
  "layout_descs offset [] = []"
| "layout_descs offset (i # is) =
     \<lparr>sd_info = i, sd_offset = int offset, sd_var_idx = -1, sd_partial = None\<rparr>
       # layout_descs (offset + get_aligned_byte_size i) is"

text \<open>
  The reuse step: the first removed key (in the set's iteration order) with a matching layout is
  renamed; \<open>Some\<close> the key found.
\<close>

fun find_reuse :: "tensor_info list \<Rightarrow> string list \<Rightarrow> ('m, 't) shm_store \<Rightarrow> string option" where
  "find_reuse arr_descs [] s = None"
| "find_reuse arr_descs (k # ks) s =
     (case dget (ss_segments s) k of
        Some sg \<Rightarrow> if descs_match arr_descs (sg_descs sg) then Some k else find_reuse arr_descs ks s
      | None \<Rightarrow> find_reuse arr_descs ks s)"

text \<open>
  The loop \<open>for key in removed_keys_copy\<close> rebinds \<open>key\<close>: the rest of the function works on the last
  key it removed.
\<close>

definition reuse_removed :: "string \<Rightarrow> tensor_info list \<Rightarrow> string list \<Rightarrow> (('m, 't) shm_store, string) aop" where
  "reuse_removed key arr_descs removed s =
     (let reuse = find_reuse arr_descs removed s;
          s = (case reuse of None \<Rightarrow> s | Some k \<Rightarrow> shm_rename_key k key s);
          rest = (case reuse of None \<Rightarrow> removed | Some k \<Rightarrow> removeAll k removed);
          key' = (if rest = [] then key else last rest)
      in obind (ofor (\<lambda>k. shm_remove_item k False) rest) (\<lambda>_.
         obind (if reuse \<noteq> None \<or> rest \<noteq> [] then shm_emit else oret ()) (\<lambda>_. oret key')) s)"

definition create_segments :: "(nat \<Rightarrow> bytes) \<Rightarrow> string \<Rightarrow> tensor_info list \<Rightarrow> (('m, 't) shm_store, segments) aop" where
  "create_segments fresh key arr_descs s =
     (if dmem key (ss_segments s)
      then (case shm_validate key arr_descs True s of
          Inl e \<Rightarrow> (Raises e, s)
        | Inr _ \<Rightarrow> (case dget (ss_segments s) key of Some sg \<Rightarrow> (Returns sg, s) | None \<Rightarrow> (Raises KeyError, s)))
      else let descs = layout_descs 0 arr_descs; total = segs_aligned_size descs in
        if total = 0 then (Raises ValueError, s)
        else let n = ss_next s; sg = \<lparr>sg_shm = n, sg_descs = descs\<rparr> in
          (Returns sg, s\<lparr>ss_mem := (ss_mem s)(n \<mapsto> fresh total), ss_next := Suc n,
             ss_segments := dset key sg (ss_segments s)\<rparr>))"

definition get_or_create_segments :: "(nat \<Rightarrow> bytes) \<Rightarrow> string \<Rightarrow> tensor_info list \<Rightarrow> string list option \<Rightarrow>
    (('m, 't) shm_store, segments) aop" where
  "get_or_create_segments fresh key arr_descs removed_keys = with_lock
     (obind (case removed_keys of None \<Rightarrow> oret key | Some ks \<Rightarrow> reuse_removed key arr_descs ks)
       (\<lambda>key. create_segments fresh key arr_descs))"

definition set_item_treespec :: "'t \<Rightarrow> string \<Rightarrow> pyval \<Rightarrow> tensor_info list \<Rightarrow> 'm option \<Rightarrow>
    (('m, 't) shm_store, unit) aop" where
  "set_item_treespec now key treespec arr_descs md = with_lock (\<lambda>s.
     if \<not> dmem key (ss_segments s) then (Raises ValueError, s)
     else case shm_validate key arr_descs True s of
       Inl e \<Rightarrow> (Raises e, s)
     | Inr _ \<Rightarrow> shm_emit (s\<lparr>ss_store :=
         dset key \<lparr>it_mtime = now, it_data = treespec, it_metadata = md\<rparr> (ss_store s)\<rparr>))"

definition shm_has_item :: "string \<Rightarrow> ('m, 't) shm_store \<Rightarrow> bool" where
  "shm_has_item key s = dmem key (ss_store s)"

definition get_item_treespec :: "string \<Rightarrow> ('m, 't) shm_store \<Rightarrow> pyval res" where
  "get_item_treespec key s = rbind (of_opt KeyError (dget (ss_store s) key)) (\<lambda>i. Inr (it_data i))"

definition shm_get_item_metadata :: "string \<Rightarrow> ('m, 't) shm_store \<Rightarrow> 'm option res" where
  "shm_get_item_metadata key s = rbind (of_opt KeyError (dget (ss_store s) key)) (\<lambda>i. Inr (it_metadata i))"

definition get_item_segment_descs :: "string \<Rightarrow> ('m, 't) shm_store \<Rightarrow> segments res" where
  "get_item_segment_descs key s = of_opt KeyError (dget (ss_segments s) key)"

definition get_item_shm_size :: "string \<Rightarrow> ('m, 't) shm_store \<Rightarrow> nat res" where
  "get_item_shm_size key s = (case dget (ss_segments s) key of
       None \<Rightarrow> Inl ValueError
     | Some sg \<Rightarrow> (case ss_mem s (sg_shm sg) of None \<Rightarrow> Inl ValueError | Some b \<Rightarrow> Inr (length b)))"

definition shm_get_all_keys :: "('m, 't) shm_store \<Rightarrow> string list" where
  "shm_get_all_keys s = dkeys (ss_store s)"

definition shm_get_all_key_to_meta :: "('m, 't) shm_store \<Rightarrow> (string, 'm option) dict" where
  "shm_get_all_key_to_meta s = map (\<lambda>(k, i). (k, it_metadata i)) (ss_store s)"

definition shm_remove_items :: "string list \<Rightarrow> (('m, 't) shm_store, unit) aop" where
  "shm_remove_items keys = obind (ofor (\<lambda>k. shm_remove_item k False) keys) (\<lambda>_. shm_emit)"

definition shm_clear :: "(('m, 't) shm_store, unit) aop" where
  "shm_clear s = shm_remove_items (dkeys (ss_store s)) s"

subsection \<open>The client of \<open>ShmKVStore\<close>\<close>

fun is_ndarray :: "pyval \<Rightarrow> bool" where
  "is_ndarray (PBuf (NdArr a)) = True"
| "is_ndarray _ = False"

definition info_of :: "pyval \<Rightarrow> tensor_info" where
  "info_of v = (case v of
       PBuf (NdArr a) \<Rightarrow> \<lparr>ti_shape = nd_shape a, ti_dtype = nd_dtype a, ti_meta = None\<rparr>
     | _ \<Rightarrow> \<lparr>ti_shape = [], ti_dtype = native_dtype UInt8, ti_meta = None\<rparr>)"

text \<open>
  \<open>segments.get_array_view(i)[:] = a\<close>: for equal dtypes and shapes, the bytes of \<open>a\<close>; otherwise
  numpy converts and broadcasts (parameter \<open>conv\<close>, from the view and \<open>a\<close> to the bytes written).
  The view of a 0-d array cannot be sliced.
\<close>

definition write_view :: "(ndarray \<Rightarrow> ndarray \<Rightarrow> bytes res) \<Rightarrow> segments \<Rightarrow> nat \<Rightarrow> pyval \<Rightarrow> (shm_mem, unit) act" where
  "write_view conv sg i v mem =
     (case rbind (get_array_view mem sg i) (\<lambda>view. case v of
          PBuf (NdArr a) \<Rightarrow>
            if nd_shape view = [] then Inl IndexError
            else if nd_dtype view = nd_dtype a \<and> nd_shape view = nd_shape a then Inr (nd_data a)
            else conv view a
        | _ \<Rightarrow> Inl TypeError) of
        Inl e \<Rightarrow> (Inl e, mem)
      | Inr d \<Rightarrow> (Inr (), mem(sg_shm sg := map_option (\<lambda>b. blit b (nat (sd_offset (sg_descs sg ! i))) d) (mem (sg_shm sg)))))"

fun write_views :: "(ndarray \<Rightarrow> ndarray \<Rightarrow> bytes res) \<Rightarrow> segments \<Rightarrow> nat \<Rightarrow> pyval list \<Rightarrow> (shm_mem, unit) act" where
  "write_views conv sg i [] mem = (Inr (), mem)"
| "write_views conv sg i (v # vs) mem = abind (write_view conv sg i v) (\<lambda>_. write_views conv sg (Suc i) vs) mem"

definition store_array_tree :: "(ndarray \<Rightarrow> ndarray \<Rightarrow> bytes res) \<Rightarrow> (nat \<Rightarrow> bytes) \<Rightarrow> 't \<Rightarrow> string \<Rightarrow> pyval \<Rightarrow>
    'm option \<Rightarrow> (('m, 't) shm_store, unit) aop" where
  "store_array_tree conv fresh now key tree md s =
     (case extract_arrays_from_data no_optree tree is_ndarray [] False None of
        Inl e \<Rightarrow> (Raises e, s)
      | Inr (variables, treespec, _) \<Rightarrow>
          let arr_descs = map info_of variables in
          obind (get_or_create_segments fresh key arr_descs None) (\<lambda>sg s.
            case write_views conv sg 0 variables (ss_mem s) of
              (Inl e, mem) \<Rightarrow> (Raises e, s\<lparr>ss_mem := mem\<rparr>)
            | (Inr _, mem) \<Rightarrow> set_item_treespec now key treespec arr_descs md (s\<lparr>ss_mem := mem\<rparr>)) s)"

definition get_array_tree :: "string \<Rightarrow> ('m, 't) shm_store \<Rightarrow> pyval res" where
  "get_array_tree key s =
     rbind (get_item_treespec key s) (\<lambda>treespec.
     rbind (get_item_segment_descs key s) (\<lambda>sg.
     rbind (rmap_list (\<lambda>i. rbind (get_array_view (ss_mem s) sg i) (\<lambda>a. Inr (PBuf (NdArr a))))
              [0..<length (sg_descs sg)]) (\<lambda>variables.
     put_arrays variables json_index_key treespec)))"

text \<open>
  The tensor client writes its references under the key \<open>"__shm_jidx__"\<close>, but
  \<open>get_tensor_tree\<close> puts the tensors back with the default key.
\<close>

definition shm_jidx :: string where "shm_jidx = ''__shm_jidx__''"

definition tensor_treespec :: "(pyval \<Rightarrow> bool) \<Rightarrow> pyval \<Rightarrow> (pyval list \<times> pyval) res" where
  "tensor_treespec is_tensor tree =
     rbind (extract_arrays_from_data no_optree tree is_tensor shm_jidx False None) (\<lambda>(vs, spec, _). Inr (vs, spec))"

definition get_tensor_tree_result :: "pyval list \<Rightarrow> pyval \<Rightarrow> pyval res" where
  "get_tensor_tree_result variables treespec = put_arrays variables json_index_key treespec"

subsection \<open>The layout of the segments\<close>

lemma align_up_ge: "0 < al \<Longrightarrow> sz \<le> align_up sz al"
proof -
  assume "0 < al"
  then show ?thesis using div_up_bounds(1)[of al sz] by (simp add: align_up_def div_up_def)
qed

lemma align_up_dvd: "al dvd align_up sz al"
  by (simp add: align_up_def)

lemma align_up_same: "0 < al \<Longrightarrow> al dvd sz \<Longrightarrow> align_up sz al = sz"
proof -
  assume al: "0 < al" and "al dvd sz"
  then obtain k where k: "sz = k * al" by (metis dvdE mult.commute)
  have "(k * al + (al - 1)) div al = k"
    using div_mult_self1[of al "al - 1" k] al by (simp only: add.commute) simp
  moreover have "k * al + al - 1 = k * al + (al - 1)" using al by simp
  ultimately have "(k * al + al - 1) div al = k" by (simp only:)
  then show ?thesis by (simp only: align_up_def k)
qed

lemma byte_le_aligned: "get_byte_size i \<le> get_aligned_byte_size i"
  unfolding get_aligned_byte_size_def by (rule align_up_ge) (simp add: ALIGN_SIZE_def)

lemma length_layout [simp]: "length (layout_descs off is) = length is"
  by (induction off "is" rule: layout_descs.induct) auto

lemma layout_nth:
  "j < length is \<Longrightarrow> layout_descs off is ! j =
    \<lparr>sd_info = is ! j, sd_offset = int (off + sum_list (map get_aligned_byte_size (take j is))),
     sd_var_idx = -1, sd_partial = None\<rparr>"
proof (induction off "is" arbitrary: j rule: layout_descs.induct)
  case (2 off i "is")
  then show ?case by (cases j) (auto simp: add.assoc)
qed simp

lemma segs_size_layout: "segs_aligned_size (layout_descs off is) = sum_list (map get_aligned_byte_size is)"
  by (induction off "is" rule: layout_descs.induct) (auto simp: segs_aligned_size_def)

definition place :: "tensor_info list \<Rightarrow> nat \<Rightarrow> nat" where
  "place is j = sum_list (map get_aligned_byte_size (take j is))"

lemma place_Suc: "j < length is \<Longrightarrow> place is (Suc j) = place is j + get_aligned_byte_size (is ! j)"
  by (simp add: place_def take_Suc_conv_app_nth)

lemma place_mono: "j \<le> k \<Longrightarrow> place is j \<le> place is k"
  unfolding place_def by (metis le_add1 le_add_diff_inverse map_append sum_list_append take_add)

lemma place_total: "place is (length is) = sum_list (map get_aligned_byte_size is)"
  by (simp add: place_def)

lemma place_end: "j < length is \<Longrightarrow> place is j + get_byte_size (is ! j) \<le> sum_list (map get_aligned_byte_size is)"
  using place_Suc[of j "is"] place_mono[of "Suc j" "length is" "is"] byte_le_aligned[of "is ! j"]
  by (simp add: place_total)

lemma place_disjoint: "j < k \<Longrightarrow> k < length is \<Longrightarrow> place is j + get_byte_size (is ! j) \<le> place is k"
  using place_Suc[of j "is"] place_mono[of "Suc j" k "is"] byte_le_aligned[of "is ! j"] by simp

text \<open>Segments of the layout \<open>is\<close> in a block of the right size.\<close>

definition seg_ok :: "tensor_info list \<Rightarrow> shm_mem \<Rightarrow> segments \<Rightarrow> bool" where
  "seg_ok is mem sg \<longleftrightarrow> sg_descs sg = layout_descs 0 is \<and>
     (\<exists>b. mem (sg_shm sg) = Some b \<and> length b = sum_list (map get_aligned_byte_size is))"

lemma view_of_layout:
  assumes "seg_ok is mem sg" and "j < length is" and "mem (sg_shm sg) = Some b"
  shows "get_array_view mem sg j = Inr \<lparr>nd_dtype = ti_dtype (is ! j), nd_shape = ti_shape (is ! j),
    nd_data = slice b (place is j) (place is j + get_byte_size (is ! j)), nd_contig = True, nd_last_contig = True\<rparr>"
proof -
  have "pyslice b (int (place is j)) (int (place is j) + int (get_byte_size (is ! j))) =
      slice b (place is j) (place is j + get_byte_size (is ! j))"
    using pyslice_nat[of b "place is j" "place is j + get_byte_size (is ! j)"] by simp
  moreover have "length (slice b (place is j) (place is j + get_byte_size (is ! j))) = get_byte_size (is ! j)"
    using assms place_end[OF assms(2)] by (auto simp: seg_ok_def)
  ultimately show ?thesis
    using assms by (auto simp: get_array_view_def seg_ok_def layout_nth Let_def sd_is_partial_def place_def)
qed

lemma write_view_layout:
  assumes ok: "seg_ok is mem sg" and j: "j < length is" and b: "mem (sg_shm sg) = Some b"
    and v: "v = PBuf (NdArr a)" "info_of v = is ! j" "ndarray_ok a" "nd_shape a \<noteq> []"
  shows "write_view conv sg j v mem = (Inr (), mem(sg_shm sg \<mapsto> blit b (place is j) (nd_data a)))"
proof -
  have "sd_offset (sg_descs sg ! j) = int (place is j)"
    using ok j by (simp add: seg_ok_def layout_nth place_def)
  moreover have "nd_shape a = ti_shape (is ! j)" "nd_dtype a = ti_dtype (is ! j)"
    by (simp_all add: v(2)[symmetric] v(1) info_of_def)
  ultimately show ?thesis
    using v(4) by (auto simp: write_view_def view_of_layout[OF ok j b] v(1) b)
qed

lemma write_views_layout:
  assumes "seg_ok is mem sg" and "mem (sg_shm sg) = Some b" and "i + length vs = length is"
    and "\<And>v. v \<in> set vs \<Longrightarrow> \<exists>a. v = PBuf (NdArr a) \<and> ndarray_ok a \<and> nd_shape a \<noteq> []"
    and "map info_of vs = drop i is"
  shows "\<exists>b'. write_views conv sg i vs mem = (Inr (), mem(sg_shm sg \<mapsto> b')) \<and> length b' = length b \<and>
    (\<forall>j<i. slice b' (place is j) (place is j + get_byte_size (is ! j)) = slice b (place is j) (place is j + get_byte_size (is ! j))) \<and>
    (\<forall>j<length vs. \<exists>a. vs ! j = PBuf (NdArr a) \<and>
       slice b' (place is (i + j)) (place is (i + j) + get_byte_size (is ! (i + j))) = nd_data a)"
  using assms
proof (induction vs arbitrary: i mem b)
  case Nil
  then show ?case by (auto intro!: exI[of _ b] simp: fun_upd_idem)
next
  case (Cons v vs)
  obtain a where a: "v = PBuf (NdArr a)" "ndarray_ok a" "nd_shape a \<noteq> []" using Cons.prems(4)[of v] by auto
  have i: "i < length is" using Cons.prems(3) by simp
  have info: "info_of v = is ! i" "map info_of vs = drop (Suc i) is"
    using Cons.prems(5) i by (simp_all add: Cons_nth_drop_Suc[symmetric])
  have size: "length (nd_data a) = get_byte_size (is ! i)"
    using a(2) by (simp add: info(1)[symmetric] a(1) info_of_def get_byte_size_def ndarray_ok_def nd_nbytes_def)
  define b1 where "b1 = blit b (place is i) (nd_data a)"
  have blen: "length b = sum_list (map get_aligned_byte_size is)" using Cons.prems(1,2) by (auto simp: seg_ok_def)
  have fit: "place is i + length (nd_data a) \<le> length b" using place_end[OF i] by (simp add: size blen)
  have b1: "length b1 = length b" using fit by (simp add: b1_def)
  have w: "write_view conv sg i v mem = (Inr (), mem(sg_shm sg \<mapsto> b1))"
    unfolding b1_def by (rule write_view_layout[OF Cons.prems(1) i Cons.prems(2) a(1) info(1) a(2,3)])
  have ok1: "seg_ok is (mem(sg_shm sg \<mapsto> b1)) sg" using Cons.prems(1) b1 blen by (simp add: seg_ok_def)
  have "\<exists>b'. write_views conv sg (Suc i) vs (mem(sg_shm sg \<mapsto> b1)) =
      (Inr (), (mem(sg_shm sg \<mapsto> b1))(sg_shm sg \<mapsto> b')) \<and> length b' = length b1 \<and>
    (\<forall>j<Suc i. slice b' (place is j) (place is j + get_byte_size (is ! j)) = slice b1 (place is j) (place is j + get_byte_size (is ! j))) \<and>
    (\<forall>j<length vs. \<exists>a. vs ! j = PBuf (NdArr a) \<and>
       slice b' (place is (Suc i + j)) (place is (Suc i + j) + get_byte_size (is ! (Suc i + j))) = nd_data a)"
    using Cons.prems(3,4) info(2) by (intro Cons.IH[OF ok1]) auto
  then obtain b' where b': "write_views conv sg (Suc i) vs (mem(sg_shm sg \<mapsto> b1)) =
      (Inr (), (mem(sg_shm sg \<mapsto> b1))(sg_shm sg \<mapsto> b'))" "length b' = length b1"
    "\<forall>j<Suc i. slice b' (place is j) (place is j + get_byte_size (is ! j)) = slice b1 (place is j) (place is j + get_byte_size (is ! j))"
    "\<forall>j<length vs. \<exists>a. vs ! j = PBuf (NdArr a) \<and>
       slice b' (place is (Suc i + j)) (place is (Suc i + j) + get_byte_size (is ! (Suc i + j))) = nd_data a"
    by blast
  have here: "slice b' (place is i) (place is i + get_byte_size (is ! i)) = nd_data a"
    using b'(3) slice_blit_same[OF fit] by (simp add: b1_def size)
  have before: "slice b' (place is j) (place is j + get_byte_size (is ! j)) = slice b (place is j) (place is j + get_byte_size (is ! j))"
    if "j < i" for j
  proof -
    have "slice b1 (place is j) (place is j + get_byte_size (is ! j)) = slice b (place is j) (place is j + get_byte_size (is ! j))"
      unfolding b1_def using place_disjoint[OF that i] fit by (intro slice_blit_before) simp_all
    then show ?thesis using b'(3) that by simp
  qed
  have after: "\<exists>a'. (v # vs) ! j = PBuf (NdArr a') \<and>
      slice b' (place is (i + j)) (place is (i + j) + get_byte_size (is ! (i + j))) = nd_data a'" if "j < length (v # vs)" for j
  proof (cases j)
    case 0
    then show ?thesis using here a(1) by simp
  next
    case (Suc k)
    then show ?thesis using b'(4) that by simp
  qed
  show ?case
    using w b'(1,2) b1 before after
    by (intro exI[of _ b']) (simp add: act_simps fun_upd_upd del: fun_upd_apply)
qed

subsection \<open>The invariant of the shared-memory store\<close>

text \<open>
  Every stored key has segments; every segment list lies in a live block of its exact size, laid
  out without gaps or overlaps, and no two keys share a block.
\<close>

definition shm_inv :: "('m, 't) shm_store \<Rightarrow> bool" where
  "shm_inv s \<longleftrightarrow> dict_ok (ss_store s) \<and> dict_ok (ss_segments s) \<and>
     (\<forall>k. dmem k (ss_store s) \<longrightarrow> dmem k (ss_segments s)) \<and>
     (\<forall>k sg. dget (ss_segments s) k = Some sg \<longrightarrow>
        sg_shm sg < ss_next s \<and> seg_ok (map sd_info (sg_descs sg)) (ss_mem s) sg) \<and>
     (\<forall>k j sg tg. dget (ss_segments s) k = Some sg \<longrightarrow> dget (ss_segments s) j = Some tg \<longrightarrow> k \<noteq> j \<longrightarrow>
        sg_shm sg \<noteq> sg_shm tg)"

named_theorems okeeps_rules

definition okeeps :: "('s \<Rightarrow> bool) \<Rightarrow> ('s, 'a) aop \<Rightarrow> bool" where
  "okeeps P m \<longleftrightarrow> (\<forall>s. P s \<longrightarrow> P (snd (m s)))"

lemma okeepsI: "(\<And>s. P s \<Longrightarrow> P (snd (m s))) \<Longrightarrow> okeeps P m"
  by (simp add: okeeps_def)

lemma okeepsD: "okeeps P m \<Longrightarrow> P s \<Longrightarrow> P (snd (m s))"
  by (simp add: okeeps_def)

lemma okeeps_obind [okeeps_rules]:
  assumes "okeeps P m" and "\<And>x. okeeps P (f x)"
  shows "okeeps P (obind m f)"
proof (rule okeepsI)
  fix s
  assume "P s"
  then have "P (snd (m s))" by (rule okeepsD[OF assms(1)])
  then show "P (snd (obind m f s))"
    using assms(2) by (auto simp: obind_def okeeps_def split: prod.splits outcome.splits)
qed

lemma okeeps_oret [okeeps_rules]: "okeeps P (oret x)"
  by (simp add: okeeps_def oret_def)

lemma okeeps_ofor [okeeps_rules]:
  assumes "\<And>x. okeeps P (f x)"
  shows "okeeps P (ofor f xs)"
proof (rule okeepsI)
  fix s
  assume "P s"
  then show "P (snd (ofor f xs s))"
  proof (induction xs arbitrary: s)
    case (Cons x xs)
    have "P (snd (f x s))" using okeepsD[OF assms Cons.prems] .
    then show ?case using Cons.IH by (auto simp: obind_def split: prod.splits outcome.splits)
  qed simp
qed

lemma shm_inv_frame [simp]:
  "shm_inv (s\<lparr>ss_locked := b\<rparr>) = shm_inv s" "shm_inv (s\<lparr>ss_events := es\<rparr>) = shm_inv s"
  by (simp_all add: shm_inv_def)

lemma okeeps_with_lock [okeeps_rules]: "okeeps shm_inv m \<Longrightarrow> okeeps shm_inv (with_lock m)"
proof (rule okeepsI)
  fix s :: "('a, 'b) shm_store"
  assume m: "okeeps shm_inv m" and s: "shm_inv s"
  have "shm_inv (snd (m (s\<lparr>ss_locked := True\<rparr>)))" using okeepsD[OF m] s by simp
  then show "shm_inv (snd (with_lock m s))" using s by (auto simp: with_lock_def split: prod.splits outcome.splits)
qed

lemma okeeps_emit [okeeps_rules]: "okeeps shm_inv shm_emit"
  by (simp add: okeeps_def shm_emit_def)

lemma seg_ok_other: "n \<noteq> sg_shm sg \<Longrightarrow> seg_ok is (mem(n := b)) sg = seg_ok is mem sg"
  by (simp add: seg_ok_def)

lemma shm_inv_remove:
  assumes inv: "shm_inv s" and sg: "dget (ss_segments s) key = Some sg"
  shows "shm_inv (shm_unlink (sg_shm sg)
    (s\<lparr>ss_store := ddel key (ss_store s), ss_segments := ddel key (ss_segments s)\<rparr>))"
  using inv sg unfolding shm_inv_def shm_unlink_def
  by (auto simp: seg_ok_other split: if_splits)

lemma okeeps_remove_item [okeeps_rules]: "okeeps shm_inv (shm_remove_item key ev)"
  unfolding shm_remove_item_def
proof (rule okeeps_with_lock, rule okeepsI, goal_cases)
  case (1 s)
  show ?case
  proof (cases "dmem key (ss_store s)")
    case True
    then obtain sg where sg: "dget (ss_segments s) key = Some sg"
      using 1 by (auto simp: shm_inv_def dmem_dget)
    show ?thesis using True sg shm_inv_remove[OF 1 sg]
      by (auto simp: Let_def shm_emit_def shm_unlink_def)
  qed (use 1 in simp)
qed

lemma shm_inv_rename:
  assumes inv: "shm_inv s" and old: "dmem old (ss_segments s)"
  shows "shm_inv (shm_rename_key old new s)"
proof (cases "old = new")
  case False
  obtain sg where sg: "dget (ss_segments s) old = Some sg" using old by (auto simp: dmem_dget)
  show ?thesis
  proof (cases "dget (ss_store s) old")
    case None
    then show ?thesis using False sg inv unfolding shm_inv_def
      by (auto simp: shm_rename_key_def dmem_dget split: if_splits)
  next
    case (Some i)
    then show ?thesis using False sg inv unfolding shm_inv_def
      by (auto simp: shm_rename_key_def dmem_dget split: if_splits)
  qed
qed (simp add: shm_rename_key_def inv)

lemma find_reuse_mem: "find_reuse ds ks s = Some k \<Longrightarrow> k \<in> set ks \<and> dmem k (ss_segments s)"
  by (induction ds ks s rule: find_reuse.induct) (auto simp: dmem_dget split: option.splits if_splits)

lemma okeeps_reuse [okeeps_rules]: "okeeps shm_inv (reuse_removed key ds ks)"
proof (rule okeepsI)
  fix s :: "('a, 'b) shm_store"
  assume inv: "shm_inv s"
  define s1 where "s1 = (case find_reuse ds ks s of None \<Rightarrow> s | Some k \<Rightarrow> shm_rename_key k key s)"
  have s1: "shm_inv s1"
    using inv shm_inv_rename find_reuse_mem[of ds ks s] by (auto simp: s1_def split: option.splits)
  have "okeeps shm_inv (obind (ofor (\<lambda>k. shm_remove_item k False) xs) (\<lambda>_. obind (if b then shm_emit else oret ()) (\<lambda>_. oret k')))"
    for xs b k'
    by (intro okeeps_rules) (simp add: okeeps_rules)
  from okeepsD[OF this s1] show "shm_inv (snd (reuse_removed key ds ks s))"
    unfolding reuse_removed_def Let_def s1_def[symmetric] .
qed

lemma map_sd_info_layout [simp]:
  "map sd_info (layout_descs n is) = is" "map (f \<circ> sd_info) (layout_descs n is) = map f is"
  by (induction n "is" rule: layout_descs.induct) auto

lemma shm_inv_create:
  assumes inv: "shm_inv s" and fresh: "length (fresh (segs_aligned_size (layout_descs 0 is))) = segs_aligned_size (layout_descs 0 is)"
    and new: "dget (ss_segments s) key = None"
  shows "shm_inv (s\<lparr>ss_mem := (ss_mem s)(ss_next s \<mapsto> fresh (segs_aligned_size (layout_descs 0 is))), ss_next := Suc (ss_next s),
    ss_segments := dset key \<lparr>sg_shm = ss_next s, sg_descs = layout_descs 0 is\<rparr> (ss_segments s)\<rparr>)"
proof -
  have less: "sg_shm sg < ss_next s" if "dget (ss_segments s) k = Some sg" for k sg
    using inv that by (auto simp: shm_inv_def)
  show ?thesis
    using inv fresh new less unfolding shm_inv_def
    by (auto simp: seg_ok_def segs_size_layout less_Suc_eq dest: less split: if_splits)
qed

lemma okeeps_create [okeeps_rules]:
  assumes fresh: "\<And>n. length (fresh n) = n"
  shows "okeeps shm_inv (create_segments fresh key is)"
  by (rule okeepsI)
     (auto simp: create_segments_def Let_def dmem_dget fresh intro!: shm_inv_create split: sum.splits option.splits)

lemma okeeps_get_or_create [okeeps_rules]:
  assumes fresh: "\<And>n. length (fresh n) = n"
  shows "okeeps shm_inv (get_or_create_segments fresh key ds rk)"
  unfolding get_or_create_segments_def
  by (cases rk) (auto intro!: okeeps_rules fresh)

lemma okeeps_set_treespec [okeeps_rules]: "okeeps shm_inv (set_item_treespec now key spec ds md)"
  unfolding set_item_treespec_def
proof (rule okeeps_with_lock, rule okeepsI, goal_cases)
  case (1 s)
  then show ?case by (auto simp: shm_inv_def shm_emit_def split: sum.splits)
qed

lemma okeeps_remove_items [okeeps_rules]: "okeeps shm_inv (shm_remove_items ks)"
  unfolding shm_remove_items_def by (intro okeeps_rules)

lemma okeeps_clear [okeeps_rules]: "okeeps shm_inv shm_clear"
  by (rule okeepsI) (simp add: shm_clear_def okeepsD[OF okeeps_remove_items])

subsection \<open>Storing and reading a tree\<close>

lemma extract_ndarrays:
  "cls = is_ndarray \<Longrightarrow> (\<forall>b\<in>set (bufs d). is_ndarray b) \<Longrightarrow>
     extract_no_uid cls ji d ctx = extract_no_uid default_classes ji d ctx"
  "cls = is_ndarray \<Longrightarrow> (\<forall>b\<in>set (bufs_list es). is_ndarray b) \<Longrightarrow>
     extract_no_uid_list cls ji es ctx = extract_no_uid_list default_classes ji es ctx"
  "cls = is_ndarray \<Longrightarrow> (\<forall>b\<in>set (bufs_items m). is_ndarray b) \<Longrightarrow>
     extract_no_uid_items cls ji m ctx = extract_no_uid_items default_classes ji m ctx"
proof (induction cls ji d ctx and cls ji es ctx and cls ji m ctx
    rule: extract_no_uid_extract_no_uid_list_extract_no_uid_items.induct)
  case (7 cls ji e es ctx)
  have "is_ndarray e = default_classes e" using 7(4) by (cases e) auto
  then show ?case using 7 by (auto intro!: rbind_cong)
next
  case (9 cls ji k v m ctx)
  have "is_ndarray v = default_classes v" using 9(4) by (cases v) auto
  then show ?case using 9 by (auto intro!: rbind_cong)
qed auto

definition good_leaf :: "pyval \<Rightarrow> bool" where
  "good_leaf v \<longleftrightarrow> (case v of
       PBuf (NdArr a) \<Rightarrow> ndarray_ok a \<and> nd_shape a \<noteq> [] \<and> nd_contig a \<and> nd_last_contig a
     | _ \<Rightarrow> False)"

lemma good_leafE:
  assumes "good_leaf v"
  obtains a where "v = PBuf (NdArr a)" "ndarray_ok a" "nd_shape a \<noteq> []" "nd_contig a" "nd_last_contig a"
proof (cases v)
  case (PBuf b)
  show ?thesis
  proof (cases b)
    case (NdArr a)
    show ?thesis by (rule that[of a]) (use assms PBuf NdArr in \<open>auto simp: good_leaf_def\<close>)
  qed (use assms PBuf in \<open>auto simp: good_leaf_def\<close>)
qed (use assms in \<open>auto simp: good_leaf_def\<close>)

lemma extract_good_leaves:
  assumes "\<And>v. v \<in> set (bufs d) \<Longrightarrow> good_leaf v"
  shows "\<exists>c. extract_arrays_from_data no_optree d is_ndarray [] False None = Inr (bufs d, skel [] 0 d, c)"
proof -
  have "is_ndarray b" if "good_leaf b" for b using that by (elim good_leafE) simp
  then have "\<forall>b\<in>set (bufs d). is_ndarray b" using assms by blast
  then have "extract_no_uid is_ndarray [] d ctx = extract_no_uid default_classes [] d ctx" for ctx
    by (rule extract_ndarrays(1)[OF refl])
  then have "extract_arrays_from_data no_optree d is_ndarray [] False None =
      extract_arrays_from_data no_optree d default_classes [] False None"
    by (simp add: extract_arrays_from_data_def)
  then show ?thesis by (simp add: extract_arrays_eq sent_value_def)
qed

lemma views_read_back:
  assumes ok: "seg_ok (map info_of vs) mem sg" and leaves: "\<And>v. v \<in> set vs \<Longrightarrow> good_leaf v"
  shows "\<exists>b'. write_views conv sg 0 vs mem = (Inr (), mem(sg_shm sg \<mapsto> b')) \<and>
    seg_ok (map info_of vs) (mem(sg_shm sg \<mapsto> b')) sg \<and>
    rmap_list (\<lambda>i. rbind (get_array_view (mem(sg_shm sg \<mapsto> b')) sg i) (\<lambda>a. Inr (PBuf (NdArr a))))
      [0..<length (sg_descs sg)] = Inr vs"
proof -
  let ?is = "map info_of vs"
  obtain b where b: "mem (sg_shm sg) = Some b" "length b = sum_list (map get_aligned_byte_size ?is)"
    "sg_descs sg = layout_descs 0 ?is"
    using ok by (auto simp: seg_ok_def)
  have "\<exists>b'. write_views conv sg 0 vs mem = (Inr (), mem(sg_shm sg \<mapsto> b')) \<and> length b' = length b \<and>
    (\<forall>j<0. slice b' (place ?is j) (place ?is j + get_byte_size (?is ! j)) = slice b (place ?is j) (place ?is j + get_byte_size (?is ! j))) \<and>
    (\<forall>j<length vs. \<exists>a. vs ! j = PBuf (NdArr a) \<and>
       slice b' (place ?is (0 + j)) (place ?is (0 + j) + get_byte_size (?is ! (0 + j))) = nd_data a)"
    by (rule write_views_layout[OF ok b(1)]) (auto dest: leaves elim!: good_leafE)
  then obtain b' where b': "write_views conv sg 0 vs mem = (Inr (), mem(sg_shm sg \<mapsto> b'))" "length b' = length b"
    "\<And>j. j < length vs \<Longrightarrow> \<exists>a. vs ! j = PBuf (NdArr a) \<and>
       slice b' (place ?is j) (place ?is j + get_byte_size (?is ! j)) = nd_data a"
    by auto
  let ?mem = "mem(sg_shm sg \<mapsto> b')"
  have ok': "seg_ok ?is ?mem sg" using b b' by (simp add: seg_ok_def)
  have "rbind (get_array_view ?mem sg j) (\<lambda>a. Inr (PBuf (NdArr a))) = Inr (vs ! j)" if j: "j < length vs" for j
  proof -
    obtain a where a: "vs ! j = PBuf (NdArr a)" "slice b' (place ?is j) (place ?is j + get_byte_size (?is ! j)) = nd_data a"
      using b'(3)[OF j] by blast
    have "good_leaf (vs ! j)" using leaves j by simp
    then have "nd_contig a" "nd_last_contig a" by (auto simp: good_leaf_def a(1))
    moreover have "get_array_view ?mem sg j = Inr \<lparr>nd_dtype = ti_dtype (?is ! j), nd_shape = ti_shape (?is ! j),
        nd_data = slice b' (place ?is j) (place ?is j + get_byte_size (?is ! j)), nd_contig = True, nd_last_contig = True\<rparr>"
      by (rule view_of_layout[OF ok']) (use j in simp_all)
    moreover have "?is ! j = info_of (vs ! j)" using j by simp
    ultimately show ?thesis using a by (simp add: info_of_def)
  qed
  then have "rmap_list (\<lambda>i. rbind (get_array_view ?mem sg i) (\<lambda>a. Inr (PBuf (NdArr a)))) [0..<length vs] =
      Inr (map ((!) vs) [0..<length vs])"
    by (intro rmap_list_total) simp
  then show ?thesis using b'(1) ok' b(3) by (auto simp: map_nth)
qed

lemma segs_total_pos:
  assumes "v \<in> set vs" and "0 < get_byte_size (info_of v)"
  shows "0 < segs_aligned_size (layout_descs 0 (map info_of vs))"
proof -
  have "get_aligned_byte_size (info_of v) \<le> sum_list (map get_aligned_byte_size (map info_of vs))"
    by (rule member_le_sum_list) (use assms(1) in auto)
  then show ?thesis using assms(2) byte_le_aligned[of "info_of v"] by (simp add: segs_size_layout)
qed

lemma descs_match_same: "descs_match (map sd_info ds) ds"
  by (simp add: descs_match_def)

text \<open>Room for the tree: a fresh key and some bytes, or a key allocated for the same layout.\<close>

definition room_for :: "('m, 't) shm_store \<Rightarrow> string \<Rightarrow> tensor_info list \<Rightarrow> bool" where
  "room_for s key is \<longleftrightarrow> (case dget (ss_segments s) key of
       None \<Rightarrow> (\<exists>i\<in>set is. 0 < get_byte_size i)
     | Some sg \<Rightarrow> map sd_info (sg_descs sg) = is)"

lemma get_or_create_room:
  assumes inv: "shm_inv s" and lock: "\<not> ss_locked s" and room: "room_for s key is"
    and fresh: "\<And>n. length (fresh n) = n"
  shows "\<exists>sg s1. get_or_create_segments fresh key is None s = (Returns sg, s1) \<and> shm_inv s1 \<and> \<not> ss_locked s1 \<and>
    dget (ss_segments s1) key = Some sg \<and> map sd_info (sg_descs sg) = is \<and> ss_store s1 = ss_store s \<and>
    (\<forall>k. k \<noteq> key \<longrightarrow> dget (ss_segments s1) k = dget (ss_segments s) k) \<and>
    (\<forall>k tg. k \<noteq> key \<longrightarrow> dget (ss_segments s) k = Some tg \<longrightarrow> ss_mem s1 (sg_shm tg) = ss_mem s (sg_shm tg))"
proof -
  have keeps: "shm_inv (snd (get_or_create_segments fresh key is None s))"
    by (rule okeepsD[OF okeeps_get_or_create inv]) (rule fresh)
  show ?thesis
  proof (cases "dget (ss_segments s) key")
    case None
    then obtain i where "i \<in> set is" "0 < get_byte_size i" using room by (auto simp: room_for_def)
    then have pos: "0 < segs_aligned_size (layout_descs 0 is)"
      using byte_le_aligned[of i] member_le_sum_list[of "get_aligned_byte_size i" "map get_aligned_byte_size is"]
      by (simp add: segs_size_layout)
    have less: "sg_shm tg < ss_next s" if "dget (ss_segments s) k = Some tg" for k tg
      using inv that by (auto simp: shm_inv_def)
    show ?thesis using None pos lock keeps
      by (auto simp: get_or_create_segments_def with_lock_def aop_simps create_segments_def dmem_dget Let_def dest: less)
  next
    case (Some sg)
    then have "map sd_info (sg_descs sg) = is" using room by (simp add: room_for_def)
    moreover from this have "descs_match is (sg_descs sg)" using descs_match_same by metis
    ultimately show ?thesis using Some lock keeps
      by (auto simp: get_or_create_segments_def with_lock_def aop_simps create_segments_def dmem_dget Let_def shm_validate_def)
  qed
qed

lemma get_array_tree_frame:
  assumes "dget (ss_store s') k = dget (ss_store s) k" and "dget (ss_segments s') k = dget (ss_segments s) k"
    and "\<And>tg. dget (ss_segments s) k = Some tg \<Longrightarrow> ss_mem s' (sg_shm tg) = ss_mem s (sg_shm tg)"
  shows "get_array_tree k s' = get_array_tree k s"
proof -
  have "get_array_view (ss_mem s') tg i = get_array_view (ss_mem s) tg i" if "dget (ss_segments s) k = Some tg" for tg i
    unfolding get_array_view_def assms(3)[OF that] ..
  then show ?thesis using assms(1,2)
    by (auto simp: get_array_tree_def get_item_treespec_def get_item_segment_descs_def intro!: rbind_cong)
qed

subsection \<open>Properties\<close>

text \<open>
  C23: a tree of arrays stored under a key with room for it comes back unchanged, every other key's
  tree is what it was before, and the store's invariant and its free lock are kept.
\<close>

theorem array_tree_roundtrip:
  assumes inv: "shm_inv s" and lock: "\<not> ss_locked s" and fresh: "\<And>n. length (fresh n) = n"
    and plain: "plain json_index_key d" and leaves: "\<And>v. v \<in> set (bufs d) \<Longrightarrow> good_leaf v"
    and room: "room_for s key (map info_of (bufs d))"
  shows "\<exists>s'. store_array_tree conv fresh now key d md s = (Returns (), s') \<and>
    get_array_tree key s' = Inr d \<and> shm_inv s' \<and> \<not> ss_locked s' \<and>
    (\<forall>k. k \<noteq> key \<longrightarrow> get_array_tree k s' = get_array_tree k s)"
proof -
  let ?vs = "bufs d" let ?is = "map info_of ?vs"
  obtain c where ex: "extract_arrays_from_data no_optree d is_ndarray [] False None = Inr (?vs, skel [] 0 d, c)"
    using extract_good_leaves[OF leaves] by blast
  obtain sg s1 where s1: "get_or_create_segments fresh key ?is None s = (Returns sg, s1)" "shm_inv s1" "\<not> ss_locked s1"
    "dget (ss_segments s1) key = Some sg" "map sd_info (sg_descs sg) = ?is" "ss_store s1 = ss_store s"
    "\<And>k. k \<noteq> key \<Longrightarrow> dget (ss_segments s1) k = dget (ss_segments s) k"
    "\<And>k tg. k \<noteq> key \<Longrightarrow> dget (ss_segments s) k = Some tg \<Longrightarrow> ss_mem s1 (sg_shm tg) = ss_mem s (sg_shm tg)"
    using get_or_create_room[OF inv lock room fresh] by blast
  have ok: "seg_ok ?is (ss_mem s1) sg" using s1(2,4,5) unfolding shm_inv_def by metis
  obtain b' where b': "write_views conv sg 0 ?vs (ss_mem s1) = (Inr (), (ss_mem s1)(sg_shm sg \<mapsto> b'))"
    "seg_ok ?is ((ss_mem s1)(sg_shm sg \<mapsto> b')) sg"
    "rmap_list (\<lambda>i. rbind (get_array_view ((ss_mem s1)(sg_shm sg \<mapsto> b')) sg i) (\<lambda>a. Inr (PBuf (NdArr a))))
      [0..<length (sg_descs sg)] = Inr ?vs"
    using views_read_back[OF ok leaves] by blast
  define s2 where "s2 = s1\<lparr>ss_mem := (ss_mem s1)(sg_shm sg \<mapsto> b')\<rparr>"
  have apart: "sg_shm tg \<noteq> sg_shm sg" if "k \<noteq> key" "dget (ss_segments s1) k = Some tg" for k tg
    using that s1(2,4) unfolding shm_inv_def by metis
  have s2: "shm_inv s2" using s1(2,4,5) b'(2) apart unfolding shm_inv_def s2_def
    by (auto simp: seg_ok_other) (metis option.inject seg_ok_other)
  define s3 where "s3 = s2\<lparr>ss_store := dset key \<lparr>it_mtime = now, it_data = skel [] 0 d, it_metadata = md\<rparr> (ss_store s2),
    ss_events := ss_events s2 @ [dset key \<lparr>it_mtime = now, it_data = skel [] 0 d, it_metadata = md\<rparr> (ss_store s2)]\<rparr>"
  have match: "descs_match ?is (sg_descs sg)" using descs_match_same[of "sg_descs sg"] s1(5) by simp
  have set_item: "set_item_treespec now key (skel [] 0 d) ?is md s2 = (Returns (), s3)"
    using s1(3,4) match
    by (simp add: set_item_treespec_def with_lock_def s2_def s3_def dmem_dget shm_validate_def shm_emit_def)
  have run: "store_array_tree conv fresh now key d md s = (Returns (), s3)"
    unfolding store_array_tree_def Let_def ex sum.case prod.case obind_def s1(1) outcome.case b'(1)
    by (simp only: s2_def[symmetric] set_item)
  have "put_arrays ?vs json_index_key (skel [] 0 d) = Inr d"
    using put_arrays_extracted[of "[]" json_index_key d "\<lambda>x. x"] plain by (simp add: map_leaf_id)
  then have "get_array_tree key s3 = Inr d"
    using b'(3) s1(4) by (simp add: get_array_tree_def get_item_treespec_def get_item_segment_descs_def s3_def s2_def)
  moreover have "shm_inv s3"
    using okeepsD[OF okeeps_set_treespec s2, of now key "skel [] 0 d" ?is md] by (simp add: set_item)
  moreover have "get_array_tree k s3 = get_array_tree k s" if "k \<noteq> key" for k
    using that s1(6,7,8) apart
    by (intro get_array_tree_frame) (auto simp: s3_def s2_def)
  ultimately show ?thesis using run s1(3) by (auto simp: s3_def s2_def)
qed

definition shm_sample :: pyval where
  "shm_sample = PDict [(KStr ''x'', PBuf (NdArr \<lparr>nd_dtype = native_dtype UInt8, nd_shape = [2],
     nd_data = [7, 8], nd_contig = True, nd_last_contig = True\<rparr>)), (KStr ''n'', PInt 3)]"

theorem array_tree_roundtrip_witness:
  "\<exists>s'. store_array_tree (\<lambda>_ _. Inl TypeError) (\<lambda>n. replicate n 0) (0::nat) ''k'' shm_sample (None :: nat option) shm_init = (Returns (), s') \<and>
    get_array_tree ''k'' s' = Inr shm_sample"
proof -
  have "shm_inv (shm_init :: (nat, nat) shm_store)" "\<not> ss_locked (shm_init :: (nat, nat) shm_store)"
    by (simp_all add: shm_inv_def shm_init_def)
  moreover have "plain json_index_key shm_sample"
    by (simp add: shm_sample_def json_index_key_def dict_ok_def)
  moreover have "good_leaf v" if "v \<in> set (bufs shm_sample)" for v
    using that by (simp add: shm_sample_def good_leaf_def ndarray_ok_def nd_nbytes_def native_dtype_def itemsize_def)
  moreover have "room_for (shm_init :: (nat, nat) shm_store) ''k'' (map info_of (bufs shm_sample))"
    by (simp add: room_for_def shm_init_def shm_sample_def info_of_def get_byte_size_def native_dtype_def itemsize_def)
  ultimately show ?thesis
    using array_tree_roundtrip[of shm_init "\<lambda>n. replicate n 0" shm_sample "''k''" "\<lambda>_ _. Inl TypeError" 0 None]
    by auto
qed

text \<open>The operations of the server, as its clients call them.\<close>

datatype ('m, 't) shm_op =
    GetOrCreate string "tensor_info list" "string list option"
  | SetTreespec 't string pyval "tensor_info list" "'m option"
  | RemoveItem string bool
  | RemoveItems "string list"
  | ClearAll

fun shm_apply :: "(nat \<Rightarrow> bytes) \<Rightarrow> ('m, 't) shm_op \<Rightarrow> ('m, 't) shm_store \<Rightarrow> ('m, 't) shm_store" where
  "shm_apply fresh (GetOrCreate key infos removed) s = snd (get_or_create_segments fresh key infos removed s)"
| "shm_apply fresh (SetTreespec now key spec infos md) s = snd (set_item_treespec now key spec infos md s)"
| "shm_apply fresh (RemoveItem key emit_event) s = snd (shm_remove_item key emit_event s)"
| "shm_apply fresh (RemoveItems keys) s = snd (shm_remove_items keys s)"
| "shm_apply fresh ClearAll s = snd (shm_clear s)"

lemma shm_inv_init [simp]: "shm_inv shm_init"
  by (simp add: shm_inv_def shm_init_def)

lemma shm_apply_inv: "(\<And>n. length (fresh n) = n) \<Longrightarrow> shm_inv s \<Longrightarrow> shm_inv (shm_apply fresh op s)"
  by (cases op) (simp_all add: okeepsD okeeps_rules)

text \<open>
  C31: after any sequence of server operations, whatever errors or blocked calls occur on the way,
  every stored key has shared memory of its own, of the exact size and with the layout of its
  descriptors, and no two keys share a block.
\<close>

theorem shm_operations_safe:
  assumes "\<And>n. length (fresh n) = n"
  shows "shm_inv (fold (shm_apply fresh) ops shm_init)"
proof -
  have "shm_inv s \<Longrightarrow> shm_inv (fold (shm_apply fresh) ops s)" for s
    by (induction ops arbitrary: s) (simp_all add: shm_apply_inv assms)
  then show ?thesis using shm_inv_init by blast
qed

theorem shm_operations_safe_witness:
  "shm_inv (fold (shm_apply (\<lambda>n. replicate n 0))
     [GetOrCreate ''a'' [\<lparr>ti_shape = [3], ti_dtype = native_dtype UInt8, ti_meta = None\<rparr>] None,
      SetTreespec (0::nat) ''a'' PNone [\<lparr>ti_shape = [3], ti_dtype = native_dtype UInt8, ti_meta = None\<rparr>] (Some (1::nat)),
      RemoveItem ''a'' True, ClearAll] shm_init)"
  by (rule shm_operations_safe) simp

text \<open>
  C39: a call of \<open>get_or_create_shared_array_segments\<close> that names a removed key whose memory is not
  reused never returns, and neither does any later operation that takes the lock: \<open>remove_item\<close>
  waits for the lock its caller holds.
\<close>

theorem removed_key_deadlocks:
  assumes "\<not> ss_locked s" and "find_reuse infos removed s = None" and "removed \<noteq> []"
  shows "\<exists>s'. get_or_create_segments fresh key infos (Some removed) s = (Blocks, s') \<and> ss_locked s' \<and>
    (\<forall>k e. fst (shm_remove_item k e s') = Blocks) \<and> (\<forall>k is r. fst (get_or_create_segments fresh k is r s') = Blocks) \<and>
    (\<forall>now k spec is md. fst (set_item_treespec now k spec is md s') = Blocks)"
proof -
  have stuck: "ofor (\<lambda>k. shm_remove_item k False) removed t = (Blocks, t)" if "ss_locked t" for t :: "('a, 'b) shm_store"
    using assms(3) that by (cases removed) (simp_all add: aop_simps shm_remove_item_def with_lock_def)
  have "get_or_create_segments fresh key infos (Some removed) s = (Blocks, s\<lparr>ss_locked := True\<rparr>)"
  proof -
    have "find_reuse infos ks (s\<lparr>ss_locked := True\<rparr>) = find_reuse infos ks s" for ks
      by (induction ks) (auto split: option.splits)
    then show ?thesis using assms(1,2)
      by (simp add: get_or_create_segments_def with_lock_def aop_simps reuse_removed_def stuck)
  qed
  then show ?thesis
    by (auto simp: shm_remove_item_def get_or_create_segments_def set_item_treespec_def with_lock_def)
qed

theorem removed_key_deadlocks_witness:
  "\<exists>s'. get_or_create_segments (\<lambda>n. replicate n 0) ''new'' [] (Some [''gone'']) (shm_init :: (nat, nat) shm_store) = (Blocks, s')"
  using removed_key_deadlocks[of "shm_init :: (nat, nat) shm_store" "[]" "[''gone'']" "\<lambda>n. replicate n 0" "''new''"]
  by (auto simp: shm_init_def)

end
