(* ===== verification/ShmStream.thy ===== *)
theory ShmStream
  imports KVStore
begin

text \<open>
  \<open>ShmTrOnlyKVStore\<close> of \<open>apps/collections/serv/kvstore.py\<close> and its tensor client in
  \<open>apps/collections/shm_kvstore.py\<close>: tensors live in ordinary memory on the server and travel through
  two shared buffers per client, chunk by chunk, over a bidirectional stream.

  \<open>chunkize\<close> cuts the tensors into chunks; the two streams are step relations of the server, the
  client and the two message queues. Copies in the server's executor are not atomic: while one
  runs, the buffer it writes holds arbitrary bytes.
\<close>

subsection \<open>Cutting tensors into chunks\<close>

record chunk_state =
  cs_chunks :: "seg_desc list list"
  cs_cur :: "seg_desc list"
  cs_size :: nat

text \<open>
  The loop of \<open>_chunkize_arr_descs\<close> for one tensor. It has no bound of its own (a buffer of size 0
  makes it run forever), hence the fuel; \<open>None\<close> means that the fuel ran out.
\<close>

fun chunk_loop :: "nat \<Rightarrow> nat \<Rightarrow> seg_desc \<Rightarrow> nat \<Rightarrow> nat \<Rightarrow> chunk_state \<Rightarrow> chunk_state res option" where
  "chunk_loop fuel max_size info sz offset cs =
     (if sz = 0 then Some (Inr cs)
      else case fuel of
        0 \<Rightarrow> None
      | Suc n \<Rightarrow>
          if cs_size cs < max_size then
            let remain = max_size - cs_size cs;
                p = \<lparr>pa_start = offset, pa_length = min remain sz\<rparr>;
                al = partial_aligned_size p
            in if al \<le> remain
               then chunk_loop n max_size info (sz - al) (offset + al)
                 (cs\<lparr>cs_cur := cs_cur cs @ [info\<lparr>sd_partial := Some p\<rparr>], cs_size := cs_size cs + al\<rparr>)
               else Some (Inl AssertionError)
          else if cs_size cs = max_size then
            chunk_loop n max_size info sz offset
              (cs\<lparr>cs_chunks := cs_chunks cs @ [cs_cur cs], cs_cur := [], cs_size := 0\<rparr>)
          else Some (Inl AssertionError))"

declare chunk_loop.simps [simp del]

fun chunk_tensors :: "nat \<Rightarrow> nat \<Rightarrow> seg_desc list \<Rightarrow> chunk_state \<Rightarrow> chunk_state res option" where
  "chunk_tensors fuel max_size [] cs = Some (Inr cs)"
| "chunk_tensors fuel max_size (d # ds) cs =
     (case chunk_loop fuel max_size d (get_byte_size (sd_info d)) 0 cs of
        None \<Rightarrow> None
      | Some (Inl e) \<Rightarrow> Some (Inl e)
      | Some (Inr cs) \<Rightarrow> chunk_tensors fuel max_size ds cs)"

definition chunkize :: "nat \<Rightarrow> nat \<Rightarrow> seg_desc list \<Rightarrow> seg_desc list list res option" where
  "chunkize fuel max_size descs =
     (case chunk_tensors fuel max_size descs \<lparr>cs_chunks = [], cs_cur = [], cs_size = 0\<rparr> of
        None \<Rightarrow> None
      | Some (Inl e) \<Rightarrow> Some (Inl e)
      | Some (Inr cs) \<Rightarrow> Some (Inr (if cs_cur cs \<noteq> [] then cs_chunks cs @ [cs_cur cs] else cs_chunks cs)))"

subsection \<open>Copying chunks\<close>

text \<open>\<open>dst[a:b] = src\<close> for byte arrays: one source byte is repeated, other length mismatches raise.\<close>

definition u8_assign :: "pyerr \<Rightarrow> bytes \<Rightarrow> nat \<Rightarrow> nat \<Rightarrow> bytes \<Rightarrow> bytes res" where
  "u8_assign err dst a b src =
     (let n = length (slice dst a b) in
      if n = length src then Inr (if src = [] then dst else blit dst a src)
      else if length src = 1 then Inr (blit dst a (replicate n (src ! 0)))
      else Inl err)"

definition chunk_total :: "seg_desc list \<Rightarrow> nat" where
  "chunk_total chunk = sum_list (map sd_partial_size_aligned chunk)"

definition first_offset :: "seg_desc list \<Rightarrow> int res" where
  "first_offset chunk = rbind (pyindex chunk 0) (\<lambda>d. Inr (sd_offset_with_partial d))"

definition save_chunk :: "bytes \<Rightarrow> seg_desc list \<Rightarrow> bytes \<Rightarrow> bytes res" where
  "save_chunk shm chunk buffer =
     rbind (first_offset chunk) (\<lambda>off.
     u8_assign ValueError shm 0 (chunk_total chunk) (pyslice buffer off (off + int (chunk_total chunk))))"

definition load_chunk :: "bytes \<Rightarrow> seg_desc list \<Rightarrow> bytes \<Rightarrow> bytes res" where
  "load_chunk shm chunk buffer =
     rbind (first_offset chunk) (\<lambda>off.
     u8_assign ValueError buffer (clip_index (length buffer) off)
       (clip_index (length buffer) (off + int (chunk_total chunk))) (slice shm 0 (chunk_total chunk)))"

text \<open>The descriptors sent with a chunk: offsets are relative to the buffer.\<close>

definition rel_descs :: "seg_desc list \<Rightarrow> seg_desc list" where
  "rel_descs chunk = map (\<lambda>d. d\<lparr>sd_offset := sd_offset_with_partial d - sd_offset_with_partial (hd chunk)\<rparr>) chunk"

subsection \<open>What the client does with one piece\<close>

text \<open>\<open>load_tensor_tree\<close>: the bytes go into the given tensor with the piece's index.\<close>

definition load_piece :: "bytes \<Rightarrow> seg_desc \<Rightarrow> bytes list \<Rightarrow> bytes list res" where
  "load_piece raw d vs =
     rbind (pyindex vs (sd_var_idx d)) (\<lambda>v.
     rbind (sd_partial_checked d) (\<lambda>p.
     rbind (u8_assign RuntimeError v (pa_start p) (pa_start p + pa_length p) raw) (\<lambda>v'.
     Inr (vs[nat (if sd_var_idx d < 0 then sd_var_idx d + int (length vs) else sd_var_idx d) := v']))))"

text \<open>
  \<open>get_tensor_tree\<close>: the tensor being filled and the tensors finished so far. A new tensor is
  allocated with unspecified content (\<open>fresh\<close>).
\<close>

record get_state =
  gs_cur :: "bytes option"
  gs_vars :: "bytes list"

definition get_piece :: "(nat \<Rightarrow> bytes) \<Rightarrow> bytes \<Rightarrow> seg_desc \<Rightarrow> get_state \<Rightarrow> get_state res" where
  "get_piece fresh raw d g =
     rbind (sd_partial_checked d) (\<lambda>p.
     rbind (if pa_start p \<noteq> 0 then of_opt AssertionError (gs_cur g) else Inr (fresh (get_byte_size (sd_info d)))) (\<lambda>cur.
     rbind (u8_assign RuntimeError cur (pa_start p) (pa_start p + pa_length p) raw) (\<lambda>cur'.
     Inr (if sd_is_last_partial d then \<lparr>gs_cur = None, gs_vars = gs_vars g @ [cur']\<rparr>
          else g\<lparr>gs_cur := Some cur'\<rparr>))))"

text \<open>\<open>store_tensor_tree\<close>: the bytes the client copies into the buffer for a piece.\<close>

definition store_piece :: "bytes list \<Rightarrow> seg_desc \<Rightarrow> bytes res" where
  "store_piece vs d =
     rbind (pyindex vs (sd_var_idx d)) (\<lambda>v.
     rbind (sd_partial_checked d) (\<lambda>p.
     Inr (slice v (pa_start p) (pa_start p + pa_length p))))"

subsection \<open>What the chunks contain\<close>

fun pieces_from :: "nat \<Rightarrow> seg_desc list \<Rightarrow> bool" where
  "pieces_from pos [] = True"
| "pieces_from pos (d # ds) =
     (sd_partial d \<noteq> None \<and> sd_offset_with_partial d = int pos \<and> pieces_from (pos + sd_partial_size_aligned d) ds)"

lemma pieces_from_append:
  "pieces_from pos (xs @ ys) = (pieces_from pos xs \<and> pieces_from (pos + chunk_total xs) ys)"
  by (induction xs arbitrary: pos) (auto simp: chunk_total_def add.assoc)

lemma chunk_total_append [simp]: "chunk_total (xs @ ys) = chunk_total xs + chunk_total ys"
  by (simp add: chunk_total_def)

lemma chunk_total_simps [simp]:
  "chunk_total [] = 0" "chunk_total (d # ds) = sd_partial_size_aligned d + chunk_total ds"
  by (simp_all add: chunk_total_def)

text \<open>The pieces \<open>ps\<close> of a tensor cover its bytes from \<open>off\<close> to \<open>n\<close>, without gaps or overlaps.\<close>

fun covers :: "nat \<Rightarrow> nat \<Rightarrow> partial_info list \<Rightarrow> bool" where
  "covers off n [] = (n \<le> off)"
| "covers off n (p # ps) = (pa_start p = off \<and> 0 < pa_length p \<and> off + pa_length p \<le> n \<and>
     (128 dvd pa_length p \<or> off + pa_length p = n) \<and> covers (off + partial_aligned_size p) n ps)"

definition cs_inv :: "nat \<Rightarrow> chunk_state \<Rightarrow> bool" where
  "cs_inv m cs \<longleftrightarrow> cs_size cs \<le> m \<and> 128 dvd cs_size cs \<and> chunk_total (cs_cur cs) = cs_size cs \<and>
     pieces_from (m * length (cs_chunks cs)) (cs_cur cs) \<and> (cs_cur cs = [] \<longleftrightarrow> cs_size cs = 0) \<and>
     (\<forall>c<length (cs_chunks cs). cs_chunks cs ! c \<noteq> [] \<and> pieces_from (m * c) (cs_chunks cs ! c) \<and>
        chunk_total (cs_chunks cs ! c) = m)"

definition cs_pos :: "nat \<Rightarrow> chunk_state \<Rightarrow> nat" where
  "cs_pos m cs = m * length (cs_chunks cs) + cs_size cs"

definition cs_pieces :: "chunk_state \<Rightarrow> seg_desc list" where
  "cs_pieces cs = concat (cs_chunks cs) @ cs_cur cs"

definition part_of :: "seg_desc \<Rightarrow> partial_info \<Rightarrow> seg_desc" where
  "part_of d p = d\<lparr>sd_partial := Some p\<rparr>"

lemma part_of_simps [simp]:
  "sd_partial (part_of d p) = Some p" "sd_info (part_of d p) = sd_info d" "sd_offset (part_of d p) = sd_offset d"
  "sd_var_idx (part_of d p) = sd_var_idx d" "sd_partial_size (part_of d p) = pa_length p"
  "sd_partial_size_aligned (part_of d p) = partial_aligned_size p"
  "sd_offset_with_partial (part_of d p) = sd_offset d + int (pa_start p)"
  by (simp_all add: part_of_def sd_partial_size_def sd_partial_size_aligned_def sd_offset_with_partial_def)

lemma align_up_add: "128 dvd a \<Longrightarrow> align_up (a + b) 128 = a + align_up b 128"
proof -
  assume "128 dvd a"
  then obtain k where k: "a = 128 * k" by (auto elim: dvdE)
  have "(128 * k + b + 128 - 1) div 128 = k + (b + 128 - 1) div 128"
    using div_mult_self2[of 128 "b + 128 - 1" k] by (simp add: ac_simps)
  then show ?thesis by (simp add: align_up_def k add_mult_distrib)
qed

lemma align_up_le: "128 dvd r \<Longrightarrow> sz \<le> r \<Longrightarrow> align_up sz 128 \<le> r"
proof -
  assume "128 dvd r" and le: "sz \<le> r"
  then obtain k where k: "r = 128 * k" by (auto elim: dvdE)
  have "(sz + 128 - 1) div 128 \<le> (128 * k + 127) div 128" by (rule div_le_mono) (use le k in simp)
  then show ?thesis by (simp add: align_up_def k)
qed

lemma align_up_0 [simp]: "align_up 0 128 = 0"
  by (simp add: align_up_def)

lemma chunk_loop_correct:
  assumes "128 dvd m" "0 < m" "cs_inv m cs" "sd_offset d + int off = int (cs_pos m cs)" "128 dvd off"
    and "2 * (n - off) + (if cs_size cs = m then 1 else 0) \<le> fuel"
  shows "\<exists>cs' ps. chunk_loop fuel m d (n - off) off cs = Some (Inr cs') \<and> cs_inv m cs' \<and>
    cs_pos m cs' = cs_pos m cs + align_up (n - off) 128 \<and>
    cs_pieces cs' = cs_pieces cs @ map (part_of d) ps \<and> covers off n ps"
  using assms(3-)
proof (induction fuel arbitrary: cs off)
  case 0
  then have "n \<le> off" by simp
  with 0 show ?case by (intro exI[of _ cs] exI[of _ "[]"]) (simp add: chunk_loop.simps)
next
  case (Suc fuel)
  show ?case
  proof (cases "n \<le> off")
    case True
    with Suc.prems show ?thesis by (intro exI[of _ cs] exI[of _ "[]"]) (simp add: chunk_loop.simps)
  next
    case False
    show ?thesis
    proof (cases "cs_size cs = m")
      case True
      let ?cs = "cs\<lparr>cs_chunks := cs_chunks cs @ [cs_cur cs], cs_cur := [], cs_size := 0\<rparr>"
      have "cs_inv m ?cs" using Suc.prems(1) True assms(2) unfolding cs_inv_def
        by (auto simp: nth_append less_Suc_eq)
      moreover have "cs_pos m ?cs = cs_pos m cs" "cs_pieces ?cs = cs_pieces cs"
        using True by (simp_all add: cs_pos_def cs_pieces_def)
      ultimately show ?thesis
        using Suc.IH[of ?cs off] Suc.prems False True assms(2) by (simp add: chunk_loop.simps[of "Suc fuel"])
    next
      case ne: False
      then have less: "cs_size cs < m" using Suc.prems(1) by (simp add: cs_inv_def)
      define r where "r = m - cs_size cs"
      have r: "0 < r" "128 dvd r" using less Suc.prems(1) assms(1) by (auto simp: r_def cs_inv_def intro: dvd_diff_nat)
      define p where "p = \<lparr>pa_start = off, pa_length = min r (n - off)\<rparr>"
      define al where "al = partial_aligned_size p"
      have pl: "0 < pa_length p" "pa_length p \<le> r" "off + pa_length p \<le> n" using r False by (auto simp: p_def)
      have start: "pa_start p = off" by (simp add: p_def)
      have al: "al = (if r < n - off then r else align_up (n - off) 128)" "al \<le> r" "128 dvd al" "pa_length p \<le> al"
        using r align_up_same[of 128 r] align_up_le[OF r(2), of "n - off"] align_up_dvd[of 128] align_up_ge[of 128]
        by (auto simp: al_def p_def partial_aligned_size_def ALIGN_SIZE_def min_def)
      let ?cs = "cs\<lparr>cs_cur := cs_cur cs @ [part_of d p], cs_size := cs_size cs + al\<rparr>"
      have "cs_inv m ?cs"
        using Suc.prems(1,2) al pl less unfolding cs_inv_def
        by (auto simp: pieces_from_append r_def cs_pos_def al_def[symmetric]) (simp_all add: p_def)
      moreover have "sd_offset d + int (off + al) = int (cs_pos m ?cs)" using Suc.prems(2) by (simp add: cs_pos_def)
      moreover have "128 dvd off + al" using Suc.prems(3) al(3) by simp
      moreover have "2 * (n - (off + al)) + (if cs_size ?cs = m then 1 else 0) \<le> fuel"
        using Suc.prems(4) pl al(4) False ne by auto
      ultimately obtain cs' ps where *: "chunk_loop fuel m d (n - (off + al)) (off + al) ?cs = Some (Inr cs')"
        "cs_inv m cs'" "cs_pos m cs' = cs_pos m ?cs + align_up (n - (off + al)) 128"
        "cs_pieces cs' = cs_pieces ?cs @ map (part_of d) ps" "covers (off + al) n ps"
        using Suc.IH[of ?cs "off + al"] by blast
      have "al + align_up (n - (off + al)) 128 = align_up (n - off) 128"
      proof (cases "r < n - off")
        case True
        then show ?thesis using align_up_add[OF al(3), of "n - (off + al)"] al(1) by simp
      next
        case F: False
        then have "n - (off + al) = 0" using al(1) align_up_ge[of 128 "n - off"] by simp
        then show ?thesis using al(1) F by simp
      qed
      moreover have "chunk_loop (Suc fuel) m d (n - off) off cs = chunk_loop fuel m d (n - (off + al)) (off + al) ?cs"
        using False less al(2)
        by (subst chunk_loop.simps) (simp add: Let_def p_def[symmetric] r_def[symmetric] al_def[symmetric] part_of_def)
      moreover have "128 dvd pa_length p \<or> off + pa_length p = n" using r False by (auto simp: p_def min_def)
      ultimately show ?thesis
        using *(1-4) *(5) pl start
        by (intro exI[of _ cs'] exI[of _ "p # ps"]) (auto simp: cs_pos_def cs_pieces_def al_def[symmetric])
    qed
  qed
qed

text \<open>Descriptors laid out from \<open>pos\<close>, as the server lays them out for a new item.\<close>

fun placed :: "nat \<Rightarrow> seg_desc list \<Rightarrow> bool" where
  "placed pos [] = True"
| "placed pos (d # ds) = (sd_offset d = int pos \<and> placed (pos + get_aligned_byte_size (sd_info d)) ds)"

abbreviation tensor_size :: "seg_desc \<Rightarrow> nat" where
  "tensor_size d \<equiv> get_byte_size (sd_info d)"

lemma chunk_tensors_correct:
  assumes "128 dvd m" "0 < m" "cs_inv m cs" "placed (cs_pos m cs) ds"
    and "\<And>d. d \<in> set ds \<Longrightarrow> 2 * tensor_size d + 1 \<le> fuel"
  shows "\<exists>cs' pss. chunk_tensors fuel m ds cs = Some (Inr cs') \<and> cs_inv m cs' \<and>
    cs_pos m cs' = cs_pos m cs + segs_aligned_size ds \<and> length pss = length ds \<and>
    cs_pieces cs' = cs_pieces cs @ concat (map2 (\<lambda>d. map (part_of d)) ds pss) \<and>
    list_all2 (\<lambda>d. covers 0 (tensor_size d)) ds pss"
  using assms(3-)
proof (induction ds arbitrary: cs)
  case Nil
  then show ?case by (intro exI[of _ cs] exI[of _ "[]"]) (simp add: segs_aligned_size_def)
next
  case (Cons d ds)
  have "2 * (tensor_size d - 0) + (if cs_size cs = m then 1 else 0) \<le> fuel" "sd_offset d + int 0 = int (cs_pos m cs)"
    using Cons.prems(2) Cons.prems(3)[of d] by auto
  from chunk_loop_correct[OF assms(1,2) Cons.prems(1) this(2) _ this(1)]
  obtain cs1 ps where 1: "chunk_loop fuel m d (tensor_size d - 0) 0 cs = Some (Inr cs1)" "cs_inv m cs1"
    "cs_pos m cs1 = cs_pos m cs + align_up (tensor_size d - 0) 128"
    "cs_pieces cs1 = cs_pieces cs @ map (part_of d) ps" "covers 0 (tensor_size d) ps"
    by auto
  have pos: "cs_pos m cs1 = cs_pos m cs + get_aligned_byte_size (sd_info d)"
    using 1(3) by (simp add: get_aligned_byte_size_def ALIGN_SIZE_def)
  have "\<exists>cs' pss. chunk_tensors fuel m ds cs1 = Some (Inr cs') \<and> cs_inv m cs' \<and>
    cs_pos m cs' = cs_pos m cs1 + segs_aligned_size ds \<and> length pss = length ds \<and>
    cs_pieces cs' = cs_pieces cs1 @ concat (map2 (\<lambda>d. map (part_of d)) ds pss) \<and>
    list_all2 (\<lambda>d. covers 0 (tensor_size d)) ds pss"
    using Cons.prems(2,3) pos by (intro Cons.IH[OF 1(2)]) simp_all
  then obtain cs' pss where 2: "chunk_tensors fuel m ds cs1 = Some (Inr cs')" "cs_inv m cs'"
    "cs_pos m cs' = cs_pos m cs1 + segs_aligned_size ds" "length pss = length ds"
    "cs_pieces cs' = cs_pieces cs1 @ concat (map2 (\<lambda>d. map (part_of d)) ds pss)"
    "list_all2 (\<lambda>d. covers 0 (tensor_size d)) ds pss"
    by blast
  show ?case
    using 1 2 pos by (intro exI[of _ cs'] exI[of _ "ps # pss"]) (simp add: segs_aligned_size_def)
qed

text \<open>Chunks that fit the buffers and cut the stream of the item's bytes every \<open>m\<close> bytes.\<close>

definition chunks_ok :: "nat \<Rightarrow> nat \<Rightarrow> seg_desc list list \<Rightarrow> bool" where
  "chunks_ok m T chunks \<longleftrightarrow> (\<forall>c<length chunks. chunks ! c \<noteq> [] \<and> pieces_from (m * c) (chunks ! c) \<and>
     chunk_total (chunks ! c) \<le> m \<and> m * c + chunk_total (chunks ! c) \<le> T)"

lemma chunkize_result:
  assumes "128 dvd m" "0 < m" "placed 0 ds" and "\<And>d. d \<in> set ds \<Longrightarrow> 2 * tensor_size d + 1 \<le> fuel"
  shows "\<exists>chunks pss. chunkize fuel m ds = Some (Inr chunks) \<and> chunks_ok m (segs_aligned_size ds) chunks \<and>
    length pss = length ds \<and> concat chunks = concat (map2 (\<lambda>d. map (part_of d)) ds pss) \<and>
    list_all2 (\<lambda>d. covers 0 (tensor_size d)) ds pss"
proof -
  let ?cs0 = "\<lparr>cs_chunks = [], cs_cur = [], cs_size = 0\<rparr>"
  have "cs_inv m ?cs0" "cs_pos m ?cs0 = 0" "cs_pieces ?cs0 = []" by (simp_all add: cs_inv_def cs_pos_def cs_pieces_def)
  then obtain cs pss where cs: "chunk_tensors fuel m ds ?cs0 = Some (Inr cs)" "cs_inv m cs" "cs_pos m cs = segs_aligned_size ds"
    "length pss = length ds" "cs_pieces cs = concat (map2 (\<lambda>d. map (part_of d)) ds pss)"
    "list_all2 (\<lambda>d. covers 0 (tensor_size d)) ds pss"
    using chunk_tensors_correct[OF assms(1,2), of ?cs0 ds fuel] assms(3,4) by auto
  let ?chunks = "if cs_cur cs \<noteq> [] then cs_chunks cs @ [cs_cur cs] else cs_chunks cs"
  have earlier: "m * c + m \<le> segs_aligned_size ds" if "c < length (cs_chunks cs)" for c
  proof -
    have "m * c + m \<le> m * length (cs_chunks cs)" using that by (metis Suc_leI mult_Suc_right mult_le_mono2 add.commute)
    then show ?thesis using cs(3) by (simp add: cs_pos_def)
  qed
  have "chunks_ok m (segs_aligned_size ds) ?chunks"
    using cs(2,3) earlier unfolding chunks_ok_def cs_inv_def cs_pos_def
    by (auto simp: nth_append less_Suc_eq)
  moreover have "chunkize fuel m ds = Some (Inr ?chunks)" by (simp add: chunkize_def cs(1))
  moreover have "concat ?chunks = cs_pieces cs" by (simp add: cs_pieces_def)
  ultimately show ?thesis using cs(4-6) by metis
qed

text \<open>
  C32: with buffers of a positive multiple of 128 bytes the chunking loop ends, its two assertions
  never fail, the pieces of every tensor cover its bytes once and in order, and each chunk is a
  stretch of the item's buffer that starts at a multiple of the buffer size and fits the buffer.
\<close>

theorem chunkize_covers:
  assumes "128 dvd m" "0 < m" "placed 0 ds" and "\<And>d. d \<in> set ds \<Longrightarrow> 2 * tensor_size d + 1 \<le> fuel"
  shows "\<exists>chunks pss. chunkize fuel m ds = Some (Inr chunks) \<and> chunks_ok m (segs_aligned_size ds) chunks \<and>
    concat chunks = concat (map2 (\<lambda>d. map (part_of d)) ds pss) \<and>
    list_all2 (\<lambda>d. covers 0 (tensor_size d)) ds pss"
  using chunkize_result[OF assms] by blast

definition stream_descs :: "seg_desc list" where
  "stream_descs = layout_descs 0 [\<lparr>ti_shape = [300], ti_dtype = native_dtype UInt8, ti_meta = None\<rparr>,
     \<lparr>ti_shape = [100], ti_dtype = native_dtype UInt8, ti_meta = None\<rparr>]"

theorem chunkize_covers_witness:
  "\<exists>chunks. chunkize 1000 256 stream_descs = Some (Inr chunks) \<and> chunks_ok 256 512 chunks"
proof -
  have "placed 0 stream_descs" "segs_aligned_size stream_descs = 512"
    "\<And>d. d \<in> set stream_descs \<Longrightarrow> 2 * tensor_size d + 1 \<le> 1000"
    by (auto simp: stream_descs_def segs_aligned_size_def get_aligned_byte_size_def get_byte_size_def
        align_up_def ALIGN_SIZE_def native_dtype_def itemsize_def)
  then show ?thesis using chunkize_covers[of 256 stream_descs 1000] by auto
qed

end
