(* ===== verification/ShmProtocol.thy ===== *)
theory ShmProtocol
  imports ShmStream
begin

text \<open>
  The two stream protocols of \<open>ShmTrOnlyKVStore\<close> (\<open>apps/collections/serv/kvstore.py\<close>) with the client
  loops of \<open>apps/collections/shm_kvstore.py\<close>, as interleavings of a server, a client and the message
  queues between them.
\<close>

datatype chunk_msg = ChunkMsg nat "seg_desc list" nat | EndMsg

datatype ping = Ping | Close

datatype server_pc = SPing nat | SSave nat | SYield nat | SLoad nat | SEnd | SDone | SFail pyerr

datatype client_pc = CRecv | CRead nat "seg_desc list" nat | CDone | CFail pyerr

record 'g net =
  nt_bufs :: shm_mem
  nt_srv :: server_pc
  nt_cli :: client_pc
  nt_down :: "chunk_msg list"
  nt_up :: "ping list"
  nt_got :: 'g

subsection \<open>\<open>send_stream\<close>: the server sends an item\<close>

text \<open>
  The server's \<open>async for\<close> over the client's pings, one rule per point where it waits or hands
  over: the first ping saves chunk 0 into buffer 0; a message names the buffer of its chunk; the
  next chunk is then saved into the other buffer, before the next ping is read. The client
  (\<open>rd\<close>: what it does with one piece) handles the pieces of a message in order and then pings.
  \<open>CRead\<close> and the save steps overlap freely.
\<close>

inductive send_step :: "nat \<Rightarrow> seg_desc list list \<Rightarrow> bytes \<Rightarrow> (bytes \<Rightarrow> seg_desc \<Rightarrow> 'g \<Rightarrow> 'g res) \<Rightarrow>
    'g net \<Rightarrow> 'g net \<Rightarrow> bool" for m chunks buffer rd where
  ping_first: "\<lbrakk>nt_srv st = SPing 0; nt_up st = Ping # u; chunks \<noteq> []; length junk = m\<rbrakk> \<Longrightarrow>
    send_step m chunks buffer rd st (st\<lparr>nt_up := u, nt_srv := SSave 0, nt_bufs := (nt_bufs st)(0 \<mapsto> junk)\<rparr>)"
| ping_empty: "\<lbrakk>nt_srv st = SPing 0; nt_up st = Ping # u; chunks = []\<rbrakk> \<Longrightarrow>
    send_step m chunks buffer rd st (st\<lparr>nt_up := u, nt_srv := SFail IndexError\<rparr>)"
| saved: "\<lbrakk>nt_srv st = SSave c; nt_bufs st (c mod 2) = Some shm; save_chunk shm (chunks ! c) buffer = Inr shm'\<rbrakk> \<Longrightarrow>
    send_step m chunks buffer rd st
      (st\<lparr>nt_bufs := (nt_bufs st)(c mod 2 \<mapsto> shm'), nt_srv := (if c = 0 then SYield 0 else SPing c)\<rparr>)"
| save_failed: "\<lbrakk>nt_srv st = SSave c; nt_bufs st (c mod 2) = Some shm; save_chunk shm (chunks ! c) buffer = Inl e\<rbrakk> \<Longrightarrow>
    send_step m chunks buffer rd st (st\<lparr>nt_srv := SFail e\<rparr>)"
| ping_next: "\<lbrakk>nt_srv st = SPing (Suc c); nt_up st = Ping # u\<rbrakk> \<Longrightarrow>
    send_step m chunks buffer rd st (st\<lparr>nt_up := u, nt_srv := SYield (Suc c)\<rparr>)"
| closed: "\<lbrakk>nt_srv st = SPing c; nt_up st = Close # u\<rbrakk> \<Longrightarrow>
    send_step m chunks buffer rd st (st\<lparr>nt_up := u, nt_srv := SEnd\<rparr>)"
| yield_more: "\<lbrakk>nt_srv st = SYield c; Suc c < length chunks; length junk = m\<rbrakk> \<Longrightarrow>
    send_step m chunks buffer rd st
      (st\<lparr>nt_down := nt_down st @ [ChunkMsg (c mod 2) (rel_descs (chunks ! c)) (sum_list (map length (take c chunks)))],
          nt_srv := SSave (Suc c), nt_bufs := (nt_bufs st)(Suc c mod 2 \<mapsto> junk)\<rparr>)"
| yield_last: "\<lbrakk>nt_srv st = SYield c; \<not> Suc c < length chunks\<rbrakk> \<Longrightarrow>
    send_step m chunks buffer rd st
      (st\<lparr>nt_down := nt_down st @ [ChunkMsg (c mod 2) (rel_descs (chunks ! c)) (sum_list (map length (take c chunks)))],
          nt_srv := SEnd\<rparr>)"
| finish: "nt_srv st = SEnd \<Longrightarrow>
    send_step m chunks buffer rd st (st\<lparr>nt_down := nt_down st @ [EndMsg], nt_srv := SDone\<rparr>)"
| recv: "\<lbrakk>nt_cli st = CRecv; nt_down st = ChunkMsg b ds n # q\<rbrakk> \<Longrightarrow>
    send_step m chunks buffer rd st (st\<lparr>nt_down := q, nt_cli := CRead b ds 0\<rparr>)"
| recv_end: "\<lbrakk>nt_cli st = CRecv; nt_down st = EndMsg # q\<rbrakk> \<Longrightarrow>
    send_step m chunks buffer rd st (st\<lparr>nt_down := q, nt_cli := CDone, nt_up := nt_up st @ [Close]\<rparr>)"
| read: "\<lbrakk>nt_cli st = CRead b ds i; i < length ds;
      rbind (get_array_view_raw (nt_bufs st) \<lparr>sg_shm = b, sg_descs = ds\<rparr> i) (\<lambda>raw. rd raw (ds ! i) (nt_got st)) = Inr g\<rbrakk> \<Longrightarrow>
    send_step m chunks buffer rd st (st\<lparr>nt_got := g, nt_cli := CRead b ds (Suc i)\<rparr>)"
| read_failed: "\<lbrakk>nt_cli st = CRead b ds i; i < length ds;
      rbind (get_array_view_raw (nt_bufs st) \<lparr>sg_shm = b, sg_descs = ds\<rparr> i) (\<lambda>raw. rd raw (ds ! i) (nt_got st)) = Inl e\<rbrakk> \<Longrightarrow>
    send_step m chunks buffer rd st (st\<lparr>nt_cli := CFail e\<rparr>)"
| read_done: "\<lbrakk>nt_cli st = CRead b ds i; \<not> i < length ds\<rbrakk> \<Longrightarrow>
    send_step m chunks buffer rd st (st\<lparr>nt_cli := CRecv, nt_up := nt_up st @ [Ping]\<rparr>)"

text \<open>The client puts one ping before it opens the stream.\<close>

definition send_init :: "bytes \<Rightarrow> bytes \<Rightarrow> 'g \<Rightarrow> 'g net" where
  "send_init b0 b1 g0 = \<lparr>nt_bufs = [0 \<mapsto> b0, 1 \<mapsto> b1], nt_srv = SPing 0, nt_cli = CRecv, nt_down = [],
     nt_up = [Ping], nt_got = g0\<rparr>"

inductive send_reach :: "nat \<Rightarrow> seg_desc list list \<Rightarrow> bytes \<Rightarrow> (bytes \<Rightarrow> seg_desc \<Rightarrow> 'g \<Rightarrow> 'g res) \<Rightarrow>
    'g net \<Rightarrow> 'g net \<Rightarrow> bool" for m chunks buffer rd st0 where
  start: "send_reach m chunks buffer rd st0 st0"
| step: "send_reach m chunks buffer rd st0 st \<Longrightarrow> send_step m chunks buffer rd st st' \<Longrightarrow>
    send_reach m chunks buffer rd st0 st'"

subsection \<open>The bytes of a piece\<close>

text \<open>The bytes of the item a piece stands for, and the client's work on a list of pieces.\<close>

definition piece_bytes :: "bytes \<Rightarrow> seg_desc \<Rightarrow> bytes" where
  "piece_bytes buffer d = (let p = nat (sd_offset_with_partial d) in slice buffer p (p + sd_partial_size d))"

definition run_pieces :: "(bytes \<Rightarrow> seg_desc \<Rightarrow> 'g \<Rightarrow> 'g res) \<Rightarrow> bytes \<Rightarrow> seg_desc list \<Rightarrow> 'g \<Rightarrow> 'g res" where
  "run_pieces rd buffer ds = rfold (\<lambda>d. rd (piece_bytes buffer d) d) ds"

lemma run_pieces_append: "run_pieces rd buffer (xs @ ys) g = rbind (run_pieces rd buffer xs g) (run_pieces rd buffer ys)"
  by (simp add: run_pieces_def rfold_append)

lemma run_pieces_simps [simp]:
  "run_pieces rd buffer [] g = Inr g"
  "run_pieces rd buffer (d # ds) g = rbind (rd (piece_bytes buffer d) d g) (run_pieces rd buffer ds)"
  by (simp_all add: run_pieces_def)

text \<open>The client's work does not depend on where in the shared memory a piece was.\<close>

definition ignores_offset :: "(bytes \<Rightarrow> seg_desc \<Rightarrow> 'g \<Rightarrow> 'g res) \<Rightarrow> bool" where
  "ignores_offset rd \<longleftrightarrow> (\<forall>raw d x g. rd raw (d\<lparr>sd_offset := x\<rparr>) g = rd raw d g)"

lemma partial_le_aligned: "sd_partial_size d \<le> sd_partial_size_aligned d"
  by (simp add: sd_partial_size_def sd_partial_size_aligned_def partial_aligned_size_def byte_le_aligned align_up_ge
      ALIGN_SIZE_def split: option.splits)

lemma pieces_nth:
  assumes "pieces_from pos chunk" and "i < length chunk"
  shows "sd_partial (chunk ! i) \<noteq> None" "sd_offset_with_partial (chunk ! i) = int (pos + chunk_total (take i chunk))"
    "chunk_total (take i chunk) + sd_partial_size (chunk ! i) \<le> chunk_total chunk"
proof -
  have *: "chunk = take i chunk @ chunk ! i # drop (Suc i) chunk" using assms(2) by (rule id_take_nth_drop)
  have "pieces_from pos (take i chunk @ chunk ! i # drop (Suc i) chunk)" using assms(1) * by simp
  then show "sd_partial (chunk ! i) \<noteq> None" "sd_offset_with_partial (chunk ! i) = int (pos + chunk_total (take i chunk))"
    by (simp_all add: pieces_from_append)
  have "chunk_total chunk = chunk_total (take i chunk @ chunk ! i # drop (Suc i) chunk)" using * by simp
  then show "chunk_total (take i chunk) + sd_partial_size (chunk ! i) \<le> chunk_total chunk"
    using partial_le_aligned[of "chunk ! i"] by simp
qed

lemma rel_descs_nth:
  assumes "pieces_from pos chunk" and "i < length chunk"
  shows "rel_descs chunk ! i = (chunk ! i)\<lparr>sd_offset := int (chunk_total (take i chunk))\<rparr>"
proof -
  have "sd_offset_with_partial (hd chunk) = int pos"
    using assms by (cases chunk) auto
  then show ?thesis using pieces_nth(2)[OF assms] assms(2) by (simp add: rel_descs_def)
qed

lemma length_rel [simp]: "length (rel_descs chunk) = length chunk"
  by (simp add: rel_descs_def)

lemma partial_size_offset [simp]: "sd_partial_size (d\<lparr>sd_offset := x\<rparr>) = sd_partial_size d"
  by (simp add: sd_partial_size_def split: option.split)

lemma slice_slice: "j \<le> b - a \<Longrightarrow> slice (slice xs a b) i j = slice xs (a + i) (a + j)"
  by (simp add: slice_def drop_take min_def add.commute)

lemma slice_within:
  assumes "take n b = slice buffer p (p + n)" and "i + k \<le> n"
  shows "slice b i (i + k) = slice buffer (p + i) (p + i + k)"
proof -
  have "slice b i (i + k) = slice (take n b) i (i + k)" using assms(2) by (simp add: slice_take)
  then show ?thesis using assms by (simp add: slice_slice add.assoc)
qed

lemma read_piece:
  assumes ch: "pieces_from pos chunk" and i: "i < length chunk" and b: "mem k = Some b"
    and data: "take (chunk_total chunk) b = slice buffer pos (pos + chunk_total chunk)"
    and fits: "chunk_total chunk \<le> length b" "pos + chunk_total chunk \<le> length buffer"
  shows "get_array_view_raw mem \<lparr>sg_shm = k, sg_descs = rel_descs chunk\<rparr> i = Inr (piece_bytes buffer (chunk ! i))"
proof -
  let ?t = "chunk_total (take i chunk)" and ?n = "sd_partial_size (chunk ! i)"
  have n: "?t + ?n \<le> chunk_total chunk" by (rule pieces_nth(3)[OF ch i])
  have "pyslice b (int ?t) (int ?t + int ?n) = slice b ?t (?t + ?n)"
    using pyslice_nat[of b ?t "?t + ?n"] by simp
  also have "\<dots> = slice buffer (pos + ?t) (pos + ?t + ?n)" by (rule slice_within[OF data n])
  finally have "pyslice b (int ?t) (int ?t + int ?n) = piece_bytes buffer (chunk ! i)"
    by (simp add: piece_bytes_def pieces_nth(2)[OF ch i] Let_def nat_int_add)
  moreover have "length (piece_bytes buffer (chunk ! i)) = ?n"
    using n fits(2) by (simp add: piece_bytes_def pieces_nth(2)[OF ch i] Let_def nat_int_add)
  ultimately show ?thesis
    using i b by (simp add: get_array_view_raw_def rel_descs_nth[OF ch i] Let_def)
qed

lemma save_chunk_fits:
  assumes ch: "pieces_from pos chunk" "chunk \<noteq> []" and fits: "chunk_total chunk \<le> length shm" "pos + chunk_total chunk \<le> length buffer"
  shows "\<exists>shm'. save_chunk shm chunk buffer = Inr shm' \<and> length shm' = length shm \<and>
    take (chunk_total chunk) shm' = slice buffer pos (pos + chunk_total chunk)"
proof -
  let ?n = "chunk_total chunk"
  obtain d ds where c: "chunk = d # ds" using ch(2) by (cases chunk) auto
  have off: "first_offset chunk = Inr (int pos)" using ch(1) by (simp add: first_offset_def c)
  have src: "pyslice buffer (int pos) (int pos + int ?n) = slice buffer pos (pos + ?n)"
    using pyslice_nat[of buffer pos "pos + ?n"] by simp
  have len: "length (slice buffer pos (pos + ?n)) = ?n" "length (slice shm 0 ?n) = ?n" using fits by simp_all
  let ?shm' = "if slice buffer pos (pos + ?n) = [] then shm else blit shm 0 (slice buffer pos (pos + ?n))"
  have "save_chunk shm chunk buffer = Inr ?shm'"
    using len by (simp add: save_chunk_def off src u8_assign_def)
  moreover have "length ?shm' = length shm \<and> take ?n ?shm' = slice buffer pos (pos + ?n)"
  proof (cases "slice buffer pos (pos + ?n) = []")
    case True
    then have "?n = 0" using len(1) by (metis list.size(3))
    then show ?thesis by simp
  next
    case False
    then show ?thesis using len fits by (simp add: blit_def)
  qed
  ultimately show ?thesis by blast
qed

subsection \<open>The invariant of \<open>send_stream\<close>\<close>

definition send_ok :: "nat \<Rightarrow> seg_desc list list \<Rightarrow> bytes \<Rightarrow> (bytes \<Rightarrow> seg_desc \<Rightarrow> 'g \<Rightarrow> 'g res) \<Rightarrow> 'g \<Rightarrow> 'g \<Rightarrow> bool" where
  "send_ok m chunks buffer rd g0 gN \<longleftrightarrow> chunks_ok m (length buffer) chunks \<and> chunks \<noteq> [] \<and> ignores_offset rd \<and>
     run_pieces rd buffer (concat chunks) g0 = Inr gN"

text \<open>\<open>g\<close> is the client's state after \<open>c\<close> chunks and \<open>i\<close> pieces of the next one.\<close>

definition got :: "seg_desc list list \<Rightarrow> bytes \<Rightarrow> (bytes \<Rightarrow> seg_desc \<Rightarrow> 'g \<Rightarrow> 'g res) \<Rightarrow> 'g \<Rightarrow> nat \<Rightarrow> nat \<Rightarrow> 'g \<Rightarrow> bool" where
  "got chunks buffer rd g0 c i g \<longleftrightarrow>
     run_pieces rd buffer (concat (take c chunks) @ take i (chunks ! c)) g0 = Inr g"

definition holds :: "nat \<Rightarrow> seg_desc list list \<Rightarrow> bytes \<Rightarrow> nat \<Rightarrow> shm_mem \<Rightarrow> bool" where
  "holds m chunks buffer c mem \<longleftrightarrow> (\<exists>b. mem (c mod 2) = Some b \<and> length b = m \<and>
     take (chunk_total (chunks ! c)) b = slice buffer (m * c) (m * c + chunk_total (chunks ! c)))"

text \<open>Chunk \<open>c\<close> is under way: announced, being read, or read and acknowledged.\<close>

definition phase :: "nat \<Rightarrow> seg_desc list list \<Rightarrow> bytes \<Rightarrow> (bytes \<Rightarrow> seg_desc \<Rightarrow> 'g \<Rightarrow> 'g res) \<Rightarrow> 'g \<Rightarrow> nat \<Rightarrow>
    chunk_msg list \<Rightarrow> 'g net \<Rightarrow> bool" where
  "phase m chunks buffer rd g0 c tail st \<longleftrightarrow>
     (nt_cli st = CRecv \<and> (\<exists>n. nt_down st = ChunkMsg (c mod 2) (rel_descs (chunks ! c)) n # tail) \<and> nt_up st = [] \<and>
        got chunks buffer rd g0 c 0 (nt_got st) \<and> holds m chunks buffer c (nt_bufs st)) \<or>
     (\<exists>i \<le> length (chunks ! c). nt_cli st = CRead (c mod 2) (rel_descs (chunks ! c)) i \<and> nt_down st = tail \<and>
        nt_up st = [] \<and> got chunks buffer rd g0 c i (nt_got st) \<and> holds m chunks buffer c (nt_bufs st)) \<or>
     (nt_cli st = CRecv \<and> nt_down st = tail \<and> nt_up st = [Ping] \<and> got chunks buffer rd g0 (Suc c) 0 (nt_got st))"

definition idle :: "seg_desc list list \<Rightarrow> bytes \<Rightarrow> (bytes \<Rightarrow> seg_desc \<Rightarrow> 'g \<Rightarrow> 'g res) \<Rightarrow> 'g \<Rightarrow> ping list \<Rightarrow> nat \<Rightarrow>
    'g net \<Rightarrow> bool" where
  "idle chunks buffer rd g0 up c st \<longleftrightarrow> nt_cli st = CRecv \<and> nt_down st = [] \<and> nt_up st = up \<and>
     got chunks buffer rd g0 c 0 (nt_got st)"

definition bufs_ok :: "nat \<Rightarrow> shm_mem \<Rightarrow> bool" where
  "bufs_ok m mem \<longleftrightarrow> (\<forall>k<2. \<exists>b. mem k = Some b \<and> length b = m)"

definition send_inv :: "nat \<Rightarrow> seg_desc list list \<Rightarrow> bytes \<Rightarrow> (bytes \<Rightarrow> seg_desc \<Rightarrow> 'g \<Rightarrow> 'g res) \<Rightarrow> 'g \<Rightarrow> 'g net \<Rightarrow> bool" where
  "send_inv m chunks buffer rd g0 st \<longleftrightarrow> bufs_ok m (nt_bufs st) \<and>
     (case nt_srv st of
       SPing c \<Rightarrow> c < length chunks \<and> (case c of
           0 \<Rightarrow> idle chunks buffer rd g0 [Ping] 0 st
         | Suc k \<Rightarrow> phase m chunks buffer rd g0 k [] st \<and> holds m chunks buffer c (nt_bufs st))
     | SSave c \<Rightarrow> c < length chunks \<and> (case c of
           0 \<Rightarrow> idle chunks buffer rd g0 [] 0 st
         | Suc k \<Rightarrow> phase m chunks buffer rd g0 k [] st)
     | SYield c \<Rightarrow> c < length chunks \<and> idle chunks buffer rd g0 [] c st \<and> holds m chunks buffer c (nt_bufs st)
     | SLoad c \<Rightarrow> False
     | SEnd \<Rightarrow> phase m chunks buffer rd g0 (length chunks - 1) [] st
     | SDone \<Rightarrow> phase m chunks buffer rd g0 (length chunks - 1) [EndMsg] st \<or>
         nt_cli st = CDone \<and> got chunks buffer rd g0 (length chunks) 0 (nt_got st)
     | SFail e \<Rightarrow> False)"

lemma bufs_ok_upd: "bufs_ok m mem \<Longrightarrow> length b = m \<Longrightarrow> bufs_ok m (mem(k \<mapsto> b))"
  by (simp add: bufs_ok_def)

lemma bufs_okD: "bufs_ok m mem \<Longrightarrow> \<exists>b. mem (c mod 2) = Some b \<and> length b = m"
  by (simp add: bufs_ok_def)

lemma mod2_Suc: "Suc c mod 2 \<noteq> c mod 2"
  by presburger

lemma holds_upd: "holds m chunks buffer c mem \<Longrightarrow> k \<noteq> c mod 2 \<Longrightarrow> holds m chunks buffer c (mem(k := b))"
  by (simp add: holds_def)

lemma phase_server:
  assumes "phase m chunks buffer rd g0 c tail st" and "k \<noteq> c mod 2"
  shows "phase m chunks buffer rd g0 c tail (st\<lparr>nt_srv := s, nt_bufs := (nt_bufs st)(k := b)\<rparr>)"
  using assms by (auto simp: phase_def holds_upd)

lemma phase_srv [simp]:
  "phase m chunks buffer rd g0 c tail (st\<lparr>nt_srv := s\<rparr>) = phase m chunks buffer rd g0 c tail st"
  "idle chunks buffer rd g0 up c (st\<lparr>nt_srv := s\<rparr>) = idle chunks buffer rd g0 up c st"
  "idle chunks buffer rd g0 up c (st\<lparr>nt_bufs := mem\<rparr>) = idle chunks buffer rd g0 up c st"
  by (simp_all add: phase_def idle_def)

lemma phase_end:
  "phase m chunks buffer rd g0 c [] st \<Longrightarrow>
   phase m chunks buffer rd g0 c [EndMsg] (st\<lparr>nt_down := nt_down st @ [EndMsg], nt_srv := s\<rparr>)"
  by (auto simp: phase_def)

lemma got_read:
  assumes ok: "send_ok m chunks buffer rd g0 gN" and c: "c < length chunks" and i: "i < length (chunks ! c)"
    and g: "got chunks buffer rd g0 c i g"
  shows "\<exists>g'. rd (piece_bytes buffer (chunks ! c ! i)) (chunks ! c ! i) g = Inr g' \<and> got chunks buffer rd g0 c (Suc i) g'"
proof -
  let ?pre = "concat (take c chunks) @ take i (chunks ! c)"
  have "chunks = take c chunks @ chunks ! c # drop (Suc c) chunks" using c by (rule id_take_nth_drop)
  then have "concat chunks = concat (take c chunks) @ chunks ! c @ concat (drop (Suc c) chunks)"
    by (metis concat.simps(2) concat_append)
  moreover have "chunks ! c = take i (chunks ! c) @ chunks ! c ! i # drop (Suc i) (chunks ! c)" using i by (rule id_take_nth_drop)
  ultimately have "concat chunks = ?pre @ chunks ! c ! i # drop (Suc i) (chunks ! c) @ concat (drop (Suc c) chunks)"
    by (metis append.assoc append_Cons)
  moreover have "run_pieces rd buffer ?pre g0 = Inr g" using g by (simp add: got_def)
  ultimately obtain g' where g': "rd (piece_bytes buffer (chunks ! c ! i)) (chunks ! c ! i) g = Inr g'"
    using ok by (auto simp: send_ok_def run_pieces_append res_simps)
  have "run_pieces rd buffer (?pre @ [chunks ! c ! i]) g0 = Inr g'"
    unfolding run_pieces_append[of rd buffer ?pre] using g g' by (simp add: got_def)
  then have "got chunks buffer rd g0 c (Suc i) g'"
    using i by (simp add: got_def take_Suc_conv_app_nth)
  then show ?thesis using g' by blast
qed

lemma got_next: "c < length chunks \<Longrightarrow> got chunks buffer rd g0 c (length (chunks ! c)) g \<Longrightarrow> got chunks buffer rd g0 (Suc c) 0 g"
  by (simp add: got_def take_Suc_conv_app_nth)

lemma send_read:
  assumes ok: "send_ok m chunks buffer rd g0 gN" and c: "c < length chunks" and i: "i < length (chunks ! c)"
    and h: "holds m chunks buffer c mem"
  shows "rbind (get_array_view_raw mem \<lparr>sg_shm = c mod 2, sg_descs = rel_descs (chunks ! c)\<rparr> i)
      (\<lambda>raw. rd raw (rel_descs (chunks ! c) ! i) g) = rd (piece_bytes buffer (chunks ! c ! i)) (chunks ! c ! i) g"
proof -
  obtain b where b: "mem (c mod 2) = Some b" "length b = m"
    "take (chunk_total (chunks ! c)) b = slice buffer (m * c) (m * c + chunk_total (chunks ! c))"
    using h by (auto simp: holds_def)
  have ch: "pieces_from (m * c) (chunks ! c)" "chunk_total (chunks ! c) \<le> m" "m * c + chunk_total (chunks ! c) \<le> length buffer"
    using ok c by (auto simp: send_ok_def chunks_ok_def)
  have "rd raw (rel_descs (chunks ! c) ! i) g = rd raw (chunks ! c ! i) g" for raw
    using ok by (simp add: rel_descs_nth[OF ch(1) i] send_ok_def ignores_offset_def)
  then show ?thesis
    using read_piece[where pos = "m * c" and chunk = "chunks ! c" and buffer = buffer and mem = mem and k = "c mod 2" and b = b, OF ch(1) i b(1) b(3)] ch(2,3) b(2)
    by simp
qed

lemma send_save:
  assumes ok: "send_ok m chunks buffer rd g0 gN" and c: "c < length chunks" and shm: "length shm = m"
  shows "\<exists>shm'. save_chunk shm (chunks ! c) buffer = Inr shm' \<and> length shm' = m \<and>
    (\<forall>mem. holds m chunks buffer c (mem(c mod 2 \<mapsto> shm')))"
proof -
  have ch: "pieces_from (m * c) (chunks ! c)" "chunks ! c \<noteq> []" "chunk_total (chunks ! c) \<le> m"
    "m * c + chunk_total (chunks ! c) \<le> length buffer"
    using ok c by (auto simp: send_ok_def chunks_ok_def)
  then show ?thesis using save_chunk_fits[OF ch(1,2), of shm buffer] shm by (auto simp: holds_def)
qed

lemma phase_read:
  assumes ok: "send_ok m chunks buffer rd g0 gN" and c: "c < length chunks"
    and ph: "phase m chunks buffer rd g0 c tail st" and cli: "nt_cli st = CRead b ds i" "i < length ds"
  shows "\<exists>g. rbind (get_array_view_raw (nt_bufs st) \<lparr>sg_shm = b, sg_descs = ds\<rparr> i) (\<lambda>raw. rd raw (ds ! i) (nt_got st)) = Inr g \<and>
    phase m chunks buffer rd g0 c tail (st\<lparr>nt_got := g, nt_cli := CRead b ds (Suc i)\<rparr>)"
proof -
  have st: "b = c mod 2" "ds = rel_descs (chunks ! c)" "nt_down st = tail" "nt_up st = []"
    "got chunks buffer rd g0 c i (nt_got st)" "holds m chunks buffer c (nt_bufs st)" "i < length (chunks ! c)"
    using ph cli by (auto simp: phase_def)
  obtain g where g: "rd (piece_bytes buffer (chunks ! c ! i)) (chunks ! c ! i) (nt_got st) = Inr g"
    "got chunks buffer rd g0 c (Suc i) g"
    using got_read[OF ok c st(7,5)] by blast
  then show ?thesis using st send_read[OF ok c st(7,6), of "nt_got st"] by (auto simp: phase_def)
qed

lemma phase_client:
  assumes c: "c < length chunks" and ph: "phase m chunks buffer rd g0 c tail st"
  shows "nt_cli st = CRecv \<Longrightarrow> nt_down st = ChunkMsg b ds n # q \<Longrightarrow> tail = [] \<or> tail = [EndMsg] \<Longrightarrow>
      phase m chunks buffer rd g0 c tail (st\<lparr>nt_down := q, nt_cli := CRead b ds 0\<rparr>)"
    and "nt_cli st = CRead b ds i \<Longrightarrow> \<not> i < length ds \<Longrightarrow>
      phase m chunks buffer rd g0 c tail (st\<lparr>nt_cli := CRecv, nt_up := nt_up st @ [Ping]\<rparr>)"
proof -
  assume "nt_cli st = CRecv" "nt_down st = ChunkMsg b ds n # q" "tail = [] \<or> tail = [EndMsg]"
  then show "phase m chunks buffer rd g0 c tail (st\<lparr>nt_down := q, nt_cli := CRead b ds 0\<rparr>)"
    using ph by (auto simp: phase_def)
next
  assume cli: "nt_cli st = CRead b ds i" "\<not> i < length ds"
  then have "i = length (chunks ! c)" "nt_down st = tail" "nt_up st = []" "got chunks buffer rd g0 c i (nt_got st)"
    using ph by (auto simp: phase_def)
  then show "phase m chunks buffer rd g0 c tail (st\<lparr>nt_cli := CRecv, nt_up := nt_up st @ [Ping]\<rparr>)"
    using got_next[OF c] by (simp add: phase_def)
qed

lemma phase_end_msg:
  "phase m chunks buffer rd g0 c tail st \<Longrightarrow> nt_cli st = CRecv \<Longrightarrow> nt_down st = EndMsg # q \<Longrightarrow>
   tail = [] \<or> tail = [EndMsg] \<Longrightarrow> tail = [EndMsg] \<and> got chunks buffer rd g0 (Suc c) 0 (nt_got st)"
  by (auto simp: phase_def)

lemma phase_up:
  "phase m chunks buffer rd g0 c tail st \<Longrightarrow> nt_up st = Ping # u \<Longrightarrow> tail = [] \<Longrightarrow>
     u = [] \<and> nt_cli st = CRecv \<and> nt_down st = [] \<and> got chunks buffer rd g0 (Suc c) 0 (nt_got st)"
  "phase m chunks buffer rd g0 c tail st \<Longrightarrow> nt_up st \<noteq> Close # u"
  by (auto simp: phase_def)

text \<open>Where the client is busy with a message, whatever the server does.\<close>

lemma send_inv_phase:
  assumes "send_inv m chunks buffer rd g0 st" and "chunks \<noteq> []" and "nt_cli st \<noteq> CRecv \<or> nt_down st \<noteq> []"
    and "nt_cli st \<noteq> CDone"
  shows "\<exists>c tail. c < length chunks \<and> phase m chunks buffer rd g0 c tail st \<and> (tail = [] \<or> tail = [EndMsg]) \<and>
    (tail = [EndMsg] \<longrightarrow> nt_srv st = SDone) \<and>
    (\<forall>st'. phase m chunks buffer rd g0 c tail st' \<longrightarrow> nt_bufs st' = nt_bufs st \<longrightarrow> nt_srv st' = nt_srv st \<longrightarrow>
       send_inv m chunks buffer rd g0 st')"
proof -
  let ?l = "length chunks - 1"
  have l: "?l < length chunks" using assms(2) by (cases chunks) auto
  show ?thesis
  proof (cases "nt_srv st")
    case (SPing c)
    then obtain k where "c = Suc k" using assms by (cases c) (auto simp: send_inv_def idle_def)
    then show ?thesis using assms(1) SPing by (intro exI[of _ k] exI[of _ "[]"]) (simp add: send_inv_def)
  next
    case (SSave c)
    then obtain k where "c = Suc k" using assms by (cases c) (auto simp: send_inv_def idle_def)
    then show ?thesis using assms(1) SSave by (intro exI[of _ k] exI[of _ "[]"]) (simp add: send_inv_def)
  next
    case (SYield c)
    then show ?thesis using assms by (auto simp: send_inv_def idle_def)
  next
    case SEnd
    then show ?thesis using assms(1) l by (intro exI[of _ ?l] exI[of _ "[]"]) (simp add: send_inv_def)
  next
    case SDone
    then show ?thesis using assms(1,4) l by (intro exI[of _ ?l] exI[of _ "[EndMsg]"]) (simp add: send_inv_def)
  qed (use assms(1) in \<open>auto simp: send_inv_def\<close>)
qed

lemma send_step_inv:
  assumes ok: "send_ok m chunks buffer rd g0 gN" and step: "send_step m chunks buffer rd st st'"
    and inv: "send_inv m chunks buffer rd g0 st"
  shows "send_inv m chunks buffer rd g0 st'"
proof -
  have ne: "chunks \<noteq> []" using ok by (simp add: send_ok_def)
  have bufs: "bufs_ok m (nt_bufs st)" using inv by (simp add: send_inv_def)
  show ?thesis
    using step
  proof cases
    case (ping_first u junk)
    then show ?thesis using inv by (auto simp: send_inv_def idle_def bufs_ok_upd)
  next
    case (saved c shm shm')
    have c: "c < length chunks" using inv saved by (simp add: send_inv_def)
    have "length shm = m" using bufs_okD[OF bufs, of c] saved by auto
    then have sh: "length shm' = m" "\<And>mem. holds m chunks buffer c (mem(c mod 2 \<mapsto> shm'))"
      using send_save[OF ok c, of shm] saved by auto
    show ?thesis
    proof (cases c)
      case 0
      then show ?thesis using inv saved sh bufs sh(2)[of "nt_bufs st"] by (simp add: send_inv_def bufs_ok_upd idle_def)
    next
      case (Suc k)
      then have "phase m chunks buffer rd g0 k [] st" using inv saved by (simp add: send_inv_def)
      then have "phase m chunks buffer rd g0 k [] (st\<lparr>nt_srv := SPing c, nt_bufs := (nt_bufs st)(c mod 2 \<mapsto> shm')\<rparr>)"
        using mod2_Suc[of k] Suc by (intro phase_server) simp_all
      moreover have "st' = st\<lparr>nt_srv := SPing c, nt_bufs := (nt_bufs st)(c mod 2 \<mapsto> shm')\<rparr>" using saved Suc by simp
      ultimately show ?thesis using sh(2)[of "nt_bufs st"] c bufs sh(1) Suc by (simp add: send_inv_def bufs_ok_upd)
    qed
  next
    case (save_failed c shm e)
    have c: "c < length chunks" using inv save_failed by (simp add: send_inv_def)
    have "length shm = m" using bufs_okD[OF bufs, of c] save_failed by auto
    then show ?thesis using send_save[OF ok c, of shm] save_failed by auto
  next
    case (ping_next c u)
    then have ph: "phase m chunks buffer rd g0 c [] st" "holds m chunks buffer (Suc c) (nt_bufs st)" "Suc c < length chunks"
      using inv by (simp_all add: send_inv_def)
    then show ?thesis using phase_up(1)[OF ph(1) ping_next(3)] ping_next bufs by (simp add: send_inv_def idle_def)
  next
    case (closed c u)
    then show ?thesis using inv by (cases c) (auto simp: send_inv_def idle_def dest: phase_up(2))
  next
    case (yield_more c junk)
    then have id: "idle chunks buffer rd g0 [] c st" "holds m chunks buffer c (nt_bufs st)" using inv by (simp_all add: send_inv_def)
    have "holds m chunks buffer c ((nt_bufs st)(Suc c mod 2 \<mapsto> junk))" using id(2) mod2_Suc by (rule holds_upd)
    then show ?thesis using yield_more id bufs by (simp add: send_inv_def phase_def idle_def bufs_ok_upd)
  next
    case (yield_last c)
    then have id: "idle chunks buffer rd g0 [] c st" "holds m chunks buffer c (nt_bufs st)" "c < length chunks"
      using inv by (simp_all add: send_inv_def)
    moreover have "length chunks - 1 = c" using id(3) yield_last by simp
    ultimately show ?thesis using yield_last bufs by (simp add: send_inv_def phase_def idle_def)
  next
    case finish
    then show ?thesis using inv phase_end[of m chunks buffer rd g0 "length chunks - 1" st SDone] by (simp add: send_inv_def)
  next
    case (recv b ds n q)
    then obtain c tail where ph: "c < length chunks" "phase m chunks buffer rd g0 c tail st" "tail = [] \<or> tail = [EndMsg]"
      "\<And>st'. phase m chunks buffer rd g0 c tail st' \<Longrightarrow> nt_bufs st' = nt_bufs st \<Longrightarrow> nt_srv st' = nt_srv st \<Longrightarrow>
         send_inv m chunks buffer rd g0 st'"
      using send_inv_phase[OF inv ne] by auto
    show ?thesis using phase_client(1)[OF ph(1,2) recv(2,3) ph(3)] recv(1) by (intro ph(4)) simp_all
  next
    case (recv_end q)
    then obtain c tail where ph: "c < length chunks" "phase m chunks buffer rd g0 c tail st" "tail = [] \<or> tail = [EndMsg]"
      "tail = [EndMsg] \<longrightarrow> nt_srv st = SDone"
      using send_inv_phase[OF inv ne] by auto
    then have e: "got chunks buffer rd g0 (Suc c) 0 (nt_got st)" "tail = [EndMsg]" "nt_srv st = SDone"
      using phase_end_msg[OF ph(2) recv_end(2,3)] by auto
    then have "phase m chunks buffer rd g0 (length chunks - 1) [EndMsg] st" using inv recv_end by (simp add: send_inv_def)
    then have "got chunks buffer rd g0 (Suc (length chunks - 1)) 0 (nt_got st)"
      using phase_end_msg[OF _ recv_end(2,3)] by blast
    then show ?thesis using recv_end e(3) ne bufs by (simp add: send_inv_def)
  next
    case (read b ds i g)
    then obtain c tail where ph: "c < length chunks" "phase m chunks buffer rd g0 c tail st"
      "\<And>st'. phase m chunks buffer rd g0 c tail st' \<Longrightarrow> nt_bufs st' = nt_bufs st \<Longrightarrow> nt_srv st' = nt_srv st \<Longrightarrow>
         send_inv m chunks buffer rd g0 st'"
      using send_inv_phase[OF inv ne] by auto
    show ?thesis using phase_read[OF ok ph(1,2) read(2,3)] read(1,4) by (intro ph(3)) auto
  next
    case (read_failed b ds i e)
    then obtain c tail where ph: "c < length chunks" "phase m chunks buffer rd g0 c tail st"
      using send_inv_phase[OF inv ne] by auto
    show ?thesis using phase_read[OF ok ph read_failed(2,3)] read_failed(4) by auto
  next
    case (read_done b ds i)
    then obtain c tail where ph: "c < length chunks" "phase m chunks buffer rd g0 c tail st"
      "\<And>st'. phase m chunks buffer rd g0 c tail st' \<Longrightarrow> nt_bufs st' = nt_bufs st \<Longrightarrow> nt_srv st' = nt_srv st \<Longrightarrow>
         send_inv m chunks buffer rd g0 st'"
      using send_inv_phase[OF inv ne] by auto
    show ?thesis using phase_client(2)[OF ph(1,2) read_done(2,3)] read_done(1) by (intro ph(3)) simp_all
  qed (use ne in simp)
qed

lemma send_reach_inv:
  assumes ok: "send_ok m chunks buffer rd g0 gN" and "length b0 = m" "length b1 = m"
    and "send_reach m chunks buffer rd (send_init b0 b1 g0) st"
  shows "send_inv m chunks buffer rd g0 st"
  using assms(4)
proof induction
  case start
  then show ?case using assms(1-3)
    by (auto simp: send_inv_def send_init_def bufs_ok_def idle_def got_def send_ok_def less_2_cases_iff)
next
  case (step st st')
  then show ?case using send_step_inv[OF ok] by blast
qed

subsection \<open>Progress and termination of \<open>send_stream\<close>\<close>

lemma phase_progress:
  assumes ok: "send_ok m chunks buffer rd g0 gN" and c: "c < length chunks"
    and ph: "phase m chunks buffer rd g0 c tail st" and tail: "tail = [] \<or> tail = [EndMsg]"
  shows "(\<exists>st'. send_step m chunks buffer rd st st') \<or> tail = [] \<and> nt_up st = [Ping]"
proof (cases "nt_cli st")
  case CRecv
  show ?thesis
  proof (cases "nt_down st")
    case Nil
    then show ?thesis using ph CRecv tail by (auto simp: phase_def)
  next
    case (Cons x q)
    then show ?thesis using CRecv by (cases x) (blast intro: recv recv_end)+
  qed
next
  case (CRead b ds i)
  show ?thesis
  proof (cases "i < length ds")
    case True
    then show ?thesis using phase_read[OF ok c ph CRead] CRead by (blast intro: read)
  qed (use CRead in \<open>blast intro: read_done\<close>)
qed (use ph in \<open>auto simp: phase_def\<close>)

lemma send_progress:
  assumes ok: "send_ok m chunks buffer rd g0 gN" and inv: "send_inv m chunks buffer rd g0 st"
  shows "nt_srv st = SDone \<and> nt_cli st = CDone \<or> (\<exists>st'. send_step m chunks buffer rd st st')"
proof -
  have ne: "chunks \<noteq> []" "length chunks - 1 < length chunks" using ok by (auto simp: send_ok_def)
  have junk: "length (replicate m (0 :: 8 word)) = m" by simp
  show ?thesis
  proof (cases "nt_srv st")
    case (SPing c)
    show ?thesis
    proof (cases c)
      case 0
      then have "nt_up st = Ping # []" using inv SPing by (simp add: send_inv_def idle_def)
      then show ?thesis using SPing 0 ne(1) junk by (blast intro: ping_first)
    next
      case (Suc k)
      then have "phase m chunks buffer rd g0 k [] st" "k < length chunks" using inv SPing by (simp_all add: send_inv_def)
      then consider st' where "send_step m chunks buffer rd st st'" | "nt_up st = Ping # []"
        using phase_progress[OF ok, of k "[]" st] by auto
      then show ?thesis using SPing Suc by cases (blast intro: ping_next)+
    qed
  next
    case (SSave c)
    then have c: "c < length chunks" using inv by (simp add: send_inv_def)
    obtain shm where shm: "nt_bufs st (c mod 2) = Some shm" "length shm = m"
      using bufs_okD[of m "nt_bufs st" c] inv by (auto simp: send_inv_def)
    then show ?thesis using send_save[OF ok c shm(2)] SSave by (blast intro: saved)
  next
    case (SYield c)
    then show ?thesis using junk by (blast intro: yield_more yield_last)
  next
    case SEnd
    then show ?thesis by (blast intro: finish)
  next
    case SDone
    then show ?thesis using inv phase_progress[OF ok ne(2), of "[EndMsg]" st] by (auto simp: send_inv_def)
  qed (use inv in \<open>auto simp: send_inv_def\<close>)
qed

text \<open>The work left: steps of the server, each worth more than all pieces, and of the client.\<close>

fun server_left :: "nat \<Rightarrow> server_pc \<Rightarrow> nat" where
  "server_left n (SPing 0) = 3 * n + 4"
| "server_left n (SPing (Suc c)) = 3 * (n - Suc c) + 2"
| "server_left n (SSave c) = 3 * (n - c) + 3"
| "server_left n (SYield c) = 3 * (n - c) + 1"
| "server_left n SEnd = 1"
| "server_left n _ = 0"

fun msg_left :: "chunk_msg \<Rightarrow> nat" where
  "msg_left (ChunkMsg b ds n) = length ds + 2"
| "msg_left EndMsg = 1"

fun client_left :: "client_pc \<Rightarrow> nat" where
  "client_left (CRead b ds i) = length ds - i + 1"
| "client_left _ = 0"

definition send_left :: "seg_desc list list \<Rightarrow> 'g net \<Rightarrow> nat" where
  "send_left chunks st = (length (concat chunks) + 3) * server_left (length chunks) (nt_srv st) +
     sum_list (map msg_left (nt_down st)) + client_left (nt_cli st)"

lemma chunk_length_le: "c < length chunks \<Longrightarrow> length (chunks ! c) \<le> length (concat chunks)"
  by (simp add: length_concat elem_le_sum_list[of c "map length chunks", simplified])

lemma server_step_less:
  fixes b :: nat
  assumes "y < x" and "e + 1 \<le> b"
  shows "b * y + (d + e) + r < b * x + d + r"
proof -
  have "b * y + b \<le> b * x" using assms(1) by (metis Suc_leI mult_Suc_right mult_le_mono2 add.commute)
  then show ?thesis using assms(2) by simp
qed

lemma send_left_less:
  assumes inv: "send_inv m chunks buffer rd g0 st" and step: "send_step m chunks buffer rd st st'"
  shows "send_left chunks st' < send_left chunks st"
  using step
proof cases
  case (saved c shm shm')
  then have "c < length chunks" using inv by (simp add: send_inv_def)
  then show ?thesis using saved by (cases c) (simp_all add: send_left_def add_mult_distrib2)
next
  case (ping_next c u)
  then have "Suc c < length chunks" using inv by (simp add: send_inv_def)
  then show ?thesis using ping_next by (simp add: send_left_def)
next
  case (closed c u)
  then have "c < length chunks" using inv by (simp add: send_inv_def)
  then show ?thesis using closed by (cases c) (simp_all add: send_left_def)
next
  case (yield_more c junk)
  then have c: "c < length chunks" by simp
  show ?thesis using yield_more chunk_length_le[OF c]
      server_step_less[of "server_left (length chunks) (SSave (Suc c))" "server_left (length chunks) (SYield c)"
        "length (chunks ! c) + 2" "length (concat chunks) + 3"]
    by (simp add: send_left_def)
next
  case (yield_last c)
  then have c: "c < length chunks" using inv by (simp add: send_inv_def)
  show ?thesis using yield_last c chunk_length_le[OF c]
      server_step_less[of "server_left (length chunks) SEnd" "server_left (length chunks) (SYield c)"
        "length (chunks ! c) + 2" "length (concat chunks) + 3"]
    by (simp add: send_left_def)
qed (simp_all add: send_left_def)

subsection \<open>What the clients end up with\<close>

text \<open>The descriptors \<open>receive_stream\<close> creates for a new item: \<open>var_idx\<close> numbers the tensors.\<close>

fun layout_vars :: "nat \<Rightarrow> nat \<Rightarrow> tensor_info list \<Rightarrow> seg_desc list" where
  "layout_vars k offset [] = []"
| "layout_vars k offset (i # is) =
     \<lparr>sd_info = i, sd_offset = int offset, sd_var_idx = int k, sd_partial = None\<rparr>
       # layout_vars (Suc k) (offset + get_aligned_byte_size i) is"

lemma placed_layout: "placed offset (layout_vars k offset is)"
  by (induction "is" arbitrary: k offset) auto

lemma length_layout_vars [simp]: "length (layout_vars k offset is) = length is"
  by (induction "is" arbitrary: k offset) auto

lemma infos_layout_vars [simp]: "map sd_info (layout_vars k offset is) = is"
  by (induction "is" arbitrary: k offset) auto

lemma segs_size_layout_vars: "segs_aligned_size (layout_vars k offset is) = sum_list (map get_aligned_byte_size is)"
  by (induction "is" arbitrary: k offset) (auto simp: segs_aligned_size_def)

text \<open>The bytes of each tensor in the item's buffer.\<close>

fun tensor_bytes :: "nat \<Rightarrow> bytes \<Rightarrow> tensor_info list \<Rightarrow> bytes list" where
  "tensor_bytes pos buffer [] = []"
| "tensor_bytes pos buffer (i # is) =
     slice buffer pos (pos + get_byte_size i) # tensor_bytes (pos + get_aligned_byte_size i) buffer is"

lemma u8_assign_fits:
  "length src = b - a \<Longrightarrow> b \<le> length dst \<Longrightarrow> a < b \<Longrightarrow> u8_assign err dst a b src = Inr (blit dst a src)"
  by (auto simp: u8_assign_def Let_def)

lemma piece_bytes_part:
  assumes "sd_offset d = int base"
  shows "piece_bytes buffer (part_of d p) = slice buffer (base + pa_start p) (base + pa_start p + pa_length p)"
  by (simp add: piece_bytes_def assms Let_def nat_int_add)

lemma covers_step:
  assumes "covers off n (p # ps)"
  shows "pa_start p = off" "0 < pa_length p" "off + pa_length p \<le> n" "covers (off + partial_aligned_size p) n ps"
    "partial_aligned_size p = pa_length p \<or> off + pa_length p = n" "pa_length p \<le> partial_aligned_size p"
  using assms by (auto simp: partial_aligned_size_def ALIGN_SIZE_def align_up_same align_up_ge)

text \<open>Writing piece after piece: the bytes up to the offset are in place.\<close>

lemma blit_step:
  assumes "covers off n (p # ps)" and "length v = n" and "base + n \<le> length buffer"
  defines "raw \<equiv> slice buffer (base + off) (base + off + pa_length p)"
  shows "length raw = pa_length p" "length (blit v off raw) = n"
    "take (off + partial_aligned_size p) (blit v off raw) @
       slice buffer (base + (off + partial_aligned_size p)) (base + n) = take off v @ slice buffer (base + off) (base + n)"
proof -
  note c = covers_step[OF assms(1)]
  show raw: "length raw = pa_length p" using c assms(3) by (simp add: raw_def)
  show len: "length (blit v off raw) = n" using raw c assms(2) by simp
  have split: "slice buffer (base + off) (base + n) = raw @ slice buffer (base + off + pa_length p) (base + n)"
    using c(3) by (simp add: raw_def slice_join add.assoc)
  show "take (off + partial_aligned_size p) (blit v off raw) @
       slice buffer (base + (off + partial_aligned_size p)) (base + n) = take off v @ slice buffer (base + off) (base + n)"
  proof (cases "partial_aligned_size p = pa_length p")
    case True
    have "take (off + pa_length p) (blit v off raw) = take off v @ raw"
      using raw c(3) assms(2) by (simp add: blit_def)
    then show ?thesis using True split by (simp add: add.assoc)
  next
    case False
    then have "off + pa_length p = n" using c(5) by blast
    moreover from this have "blit v off raw = take off v @ raw" using raw assms(2) by (simp add: blit_def)
    moreover have "slice buffer (base + (off + partial_aligned_size p)) (base + n) = []"
      "slice buffer (base + off + pa_length p) (base + n) = []"
      using \<open>off + pa_length p = n\<close> c(6) by (simp_all add: slice_def)
    ultimately show ?thesis using split c(6) raw len by simp
  qed
qed

lemma load_pieces:
  assumes "covers off n ps" and "length (vs ! k) = n" and "k < length vs" and "base + n \<le> length buffer"
    and d: "sd_offset d = int base" "sd_var_idx d = int k"
  shows "run_pieces load_piece buffer (map (part_of d) ps) vs =
    Inr (vs[k := take off (vs ! k) @ slice buffer (base + off) (base + n)])"
  using assms(1-4)
proof (induction ps arbitrary: off vs)
  case Nil
  then show ?case by (simp add: slice_def)
next
  case (Cons p ps)
  let ?raw = "slice buffer (base + off) (base + off + pa_length p)"
  let ?vs = "vs[k := blit (vs ! k) off ?raw]"
  note c = covers_step[OF Cons.prems(1)] and b = blit_step[OF Cons.prems(1,2,4)]
  have "u8_assign RuntimeError (vs ! k) off (off + pa_length p) ?raw = Inr (blit (vs ! k) off ?raw)"
    using c(2,3) b(1) Cons.prems(2) by (intro u8_assign_fits) simp_all
  then have "load_piece (piece_bytes buffer (part_of d p)) (part_of d p) vs = Inr ?vs"
    using Cons.prems(3) c(1) by (simp add: load_piece_def piece_bytes_part[OF d(1)] d(2) sd_partial_checked_def)
  moreover have "run_pieces load_piece buffer (map (part_of d) ps) ?vs =
      Inr (?vs[k := take (off + partial_aligned_size p) (?vs ! k) @ slice buffer (base + (off + partial_aligned_size p)) (base + n)])"
    using c(4) b(2) Cons.prems(3,4) by (intro Cons.IH) simp_all
  ultimately show ?case using b(3) Cons.prems(3) by simp
qed

lemma load_tensors:
  assumes "list_all2 (\<lambda>d. covers 0 (tensor_size d)) (layout_vars k base is) pss" and "map length vs = map get_byte_size is"
    and "base + sum_list (map get_aligned_byte_size is) \<le> length buffer" and "length pre = k"
  shows "run_pieces load_piece buffer (concat (map2 (\<lambda>d. map (part_of d)) (layout_vars k base is) pss)) (pre @ vs) =
    Inr (pre @ tensor_bytes base buffer is)"
  using assms
proof (induction "is" arbitrary: k base pss vs pre)
  case Nil
  then show ?case by simp
next
  case (Cons i "is")
  obtain ps pss' where pss: "pss = ps # pss'" "covers 0 (get_byte_size i) ps"
    "list_all2 (\<lambda>d. covers 0 (tensor_size d)) (layout_vars (Suc k) (base + get_aligned_byte_size i) is) pss'"
    using Cons.prems(1) by (auto simp: list_all2_Cons1)
  obtain v vs' where vs: "vs = v # vs'" "length v = get_byte_size i" "map length vs' = map get_byte_size is"
    using Cons.prems(2) by auto
  let ?d = "\<lparr>sd_info = i, sd_offset = int base, sd_var_idx = int k, sd_partial = None\<rparr>"
  let ?w = "slice buffer base (base + get_byte_size i)"
  have "base + get_byte_size i \<le> length buffer" using byte_le_aligned[of i] Cons.prems(3) by simp
  then have "run_pieces load_piece buffer (map (part_of ?d) ps) (pre @ v # vs') = Inr ((pre @ [?w]) @ vs')"
    using load_pieces[OF pss(2), of "pre @ v # vs'" k base buffer ?d] vs(2) Cons.prems(4)
    by (simp add: nth_append list_update_append)
  moreover have "run_pieces load_piece buffer (concat (map2 (\<lambda>d. map (part_of d)) (layout_vars (Suc k) (base + get_aligned_byte_size i) is) pss'))
      ((pre @ [?w]) @ vs') = Inr ((pre @ [?w]) @ tensor_bytes (base + get_aligned_byte_size i) buffer is)"
    using pss(3) vs(3) Cons.prems(3,4) by (intro Cons.IH) simp_all
  ultimately show ?case by (simp add: pss(1) vs(1) run_pieces_append)
qed

lemma get_pieces:
  assumes "covers off n ps" and "off < n" and "base + n \<le> length buffer" and d: "sd_offset d = int base" "tensor_size d = n"
    and fresh: "\<And>k. length (fresh k) = k"
    and cur: "off \<noteq> 0 \<Longrightarrow> gs_cur g = Some v \<and> length v = n \<and> take off v = slice buffer base (base + off)"
  shows "\<exists>c. run_pieces (get_piece fresh) buffer (map (part_of d) ps) g =
    Inr (if 128 dvd n then \<lparr>gs_cur = None, gs_vars = gs_vars g @ [slice buffer base (base + n)]\<rparr> else g\<lparr>gs_cur := c\<rparr>)"
  using assms(1-3) cur
proof (induction ps arbitrary: off g v)
  case (Cons p ps)
  let ?raw = "slice buffer (base + off) (base + off + pa_length p)"
  note c = covers_step[OF Cons.prems(1)]
  define w where "w = (if off \<noteq> 0 then v else fresh n)"
  have w: "length w = n" "take off w = slice buffer base (base + off)" using Cons.prems(4) fresh by (auto simp: w_def)
  let ?w = "blit w off ?raw"
  note b = blit_step[OF Cons.prems(1) w(1) Cons.prems(3)]
  have assign: "u8_assign RuntimeError w off (off + pa_length p) ?raw = Inr ?w"
    using c(2,3) b(1) w(1) by (intro u8_assign_fits) simp_all
  have first: "(if off \<noteq> 0 then of_opt AssertionError (gs_cur g) else Inr (fresh n)) = Inr w"
    using Cons.prems(4) by (auto simp: w_def)
  have aligned: "get_aligned_byte_size (sd_info d) = align_up n 128"
    using d(2) by (simp add: get_aligned_byte_size_def ALIGN_SIZE_def)
  have one: "get_piece fresh (piece_bytes buffer (part_of d p)) (part_of d p) g =
      Inr (if off + pa_length p = align_up n 128 then \<lparr>gs_cur = None, gs_vars = gs_vars g @ [?w]\<rparr> else g\<lparr>gs_cur := Some ?w\<rparr>)"
    by (simp only: get_piece_def piece_bytes_part[OF d(1)] sd_partial_checked_def sd_is_last_partial_def part_of_simps
        of_opt.simps rbind.simps option.case c(1) d(2) first assign aligned)
  have whole: "take off w @ slice buffer (base + off) (base + n) = slice buffer base (base + n)"
    using Cons.prems(2) by (simp add: w(2) slice_join)
  show ?case
  proof (cases "off + pa_length p = n")
    case True
    then have "ps = []" using c(4,6) by (cases ps) auto
    moreover have "?w = slice buffer base (base + n)"
    proof -
      have e: "base + off + pa_length p = base + n" using True by simp
      have "?w = take off w @ ?raw" using True b(1) w(1) by (simp add: blit_def)
      then show ?thesis using whole by (simp only: e)
    qed
    moreover have "n = align_up n 128 \<longleftrightarrow> 128 dvd n" using align_up_dvd[of 128 n] align_up_same[of 128 n] by auto
    ultimately show ?thesis using one True by auto
  next
    case False
    have al: "partial_aligned_size p = pa_length p" using c(5) False by blast
    have "off + pa_length p < n" using c(3) False by simp
    moreover have "n \<le> align_up n 128" by (rule align_up_ge) simp
    moreover have "take (off + pa_length p) ?w = slice buffer base (base + (off + pa_length p))"
    proof -
      have "take (off + pa_length p) ?w = take off w @ ?raw" using b(1) w(1) Cons.prems(2) by (simp add: blit_def)
      then show ?thesis by (simp add: w(2) slice_join add.assoc)
    qed
    ultimately show ?thesis
      using one Cons.IH[of "off + pa_length p" "g\<lparr>gs_cur := Some ?w\<rparr>" ?w] c(4) al b(2) Cons.prems(3) by auto
  qed
qed auto

lemma get_tensors:
  assumes "list_all2 (\<lambda>d. covers 0 (tensor_size d)) (layout_vars k base is) pss"
    and "base + sum_list (map get_aligned_byte_size is) \<le> length buffer" and fresh: "\<And>k. length (fresh k) = k"
  shows "\<exists>c. run_pieces (get_piece fresh) buffer (concat (map2 (\<lambda>d. map (part_of d)) (layout_vars k base is) pss)) g =
    Inr (\<lparr>gs_cur = c, gs_vars = gs_vars g @ filter (\<lambda>b. b \<noteq> [] \<and> 128 dvd length b) (tensor_bytes base buffer is)\<rparr>)"
  using assms(1,2)
proof (induction "is" arbitrary: k base pss g)
  case Nil
  then show ?case by (intro exI[of _ "gs_cur g"]) simp
next
  case (Cons i "is")
  obtain ps pss' where pss: "pss = ps # pss'" "covers 0 (get_byte_size i) ps"
    "list_all2 (\<lambda>d. covers 0 (tensor_size d)) (layout_vars (Suc k) (base + get_aligned_byte_size i) is) pss'"
    using Cons.prems(1) by (auto simp: list_all2_Cons1)
  let ?d = "\<lparr>sd_info = i, sd_offset = int base, sd_var_idx = int k, sd_partial = None\<rparr>"
  let ?w = "slice buffer base (base + get_byte_size i)"
  have fit: "base + get_byte_size i \<le> length buffer" using byte_le_aligned[of i] Cons.prems(2) by simp
  have "\<exists>g'. run_pieces (get_piece fresh) buffer (map (part_of ?d) ps) g = Inr g' \<and>
      gs_vars g' = gs_vars g @ (if ?w \<noteq> [] \<and> 128 dvd length ?w then [?w] else [])"
  proof (cases "get_byte_size i = 0")
    case True
    then have "ps = []" using pss(2) by (cases ps) auto
    then show ?thesis using True by simp
  next
    case False
    then have "length ?w = get_byte_size i" "?w \<noteq> []" using fit by (auto simp: slice_def)
    then show ?thesis using get_pieces[OF pss(2) _ fit, of ?d fresh g] False fresh by fastforce
  qed
  then obtain g' where g': "run_pieces (get_piece fresh) buffer (map (part_of ?d) ps) g = Inr g'"
    "gs_vars g' = gs_vars g @ (if ?w \<noteq> [] \<and> 128 dvd length ?w then [?w] else [])" by blast
  have "\<exists>c. run_pieces (get_piece fresh) buffer (concat (map2 (\<lambda>d. map (part_of d)) (layout_vars (Suc k) (base + get_aligned_byte_size i) is) pss')) g' =
    Inr (\<lparr>gs_cur = c, gs_vars = gs_vars g' @ filter (\<lambda>b. b \<noteq> [] \<and> 128 dvd length b) (tensor_bytes (base + get_aligned_byte_size i) buffer is)\<rparr>)"
    using pss(3) Cons.prems(2) by (intro Cons.IH) simp_all
  then show ?case using g' by (auto simp: pss(1) run_pieces_append)
qed

lemma ignores_offset_clients:
  "ignores_offset load_piece" "ignores_offset (get_piece fresh)"
proof -
  have p: "sd_partial_checked (d\<lparr>sd_offset := x\<rparr>) = sd_partial_checked d"
    "sd_is_last_partial (d\<lparr>sd_offset := x\<rparr>) = sd_is_last_partial d" for d x
    by (simp_all add: sd_partial_checked_def sd_is_last_partial_def split: option.split)
  show "ignores_offset load_piece" by (simp add: ignores_offset_def load_piece_def p)
  show "ignores_offset (get_piece fresh)" by (simp add: ignores_offset_def get_piece_def p cong: if_cong)
qed

text \<open>An item as \<open>receive_stream\<close> creates it, cut into chunks for buffers of \<open>m\<close> bytes.\<close>

definition item_chunks :: "nat \<Rightarrow> nat \<Rightarrow> tensor_info list \<Rightarrow> seg_desc list list \<Rightarrow> bool" where
  "item_chunks fuel m is chunks \<longleftrightarrow> 128 dvd m \<and> 0 < m \<and> (\<forall>i\<in>set is. 2 * get_byte_size i + 1 \<le> fuel) \<and>
     chunkize fuel m (layout_vars 0 0 is) = Some (Inr chunks)"

lemma item_chunks_pieces:
  assumes "item_chunks fuel m is chunks"
  shows "\<exists>pss. chunks_ok m (sum_list (map get_aligned_byte_size is)) chunks \<and>
    concat chunks = concat (map2 (\<lambda>d. map (part_of d)) (layout_vars 0 0 is) pss) \<and>
    list_all2 (\<lambda>d. covers 0 (tensor_size d)) (layout_vars 0 0 is) pss"
proof -
  have fuel: "2 * tensor_size d + 1 \<le> fuel" if "d \<in> set (layout_vars 0 0 is)" for d
  proof -
    have "sd_info d \<in> set (map sd_info (layout_vars 0 0 is))" unfolding set_map using that by blast
    then show ?thesis using assms by (simp add: item_chunks_def)
  qed
  have m: "128 dvd m" "0 < m" "placed 0 (layout_vars 0 0 is)" using assms by (simp_all add: item_chunks_def placed_layout)
  obtain cs pss where "chunkize fuel m (layout_vars 0 0 is) = Some (Inr cs)"
    "chunks_ok m (segs_aligned_size (layout_vars 0 0 is)) cs"
    "concat cs = concat (map2 (\<lambda>d. map (part_of d)) (layout_vars 0 0 is) pss)"
    "list_all2 (\<lambda>d. covers 0 (tensor_size d)) (layout_vars 0 0 is) pss"
    using chunkize_result[OF m fuel] by blast
  then show ?thesis using assms by (auto simp: item_chunks_def segs_size_layout_vars)
qed

lemma load_send_ok:
  assumes ch: "item_chunks fuel m is chunks" "chunks \<noteq> []" and buf: "length buffer = sum_list (map get_aligned_byte_size is)"
    and vs: "map length vs = map get_byte_size is"
  shows "send_ok m chunks buffer load_piece vs (tensor_bytes 0 buffer is)"
proof -
  obtain pss where "chunks_ok m (sum_list (map get_aligned_byte_size is)) chunks"
    "concat chunks = concat (map2 (\<lambda>d. map (part_of d)) (layout_vars 0 0 is) pss)"
    "list_all2 (\<lambda>d. covers 0 (tensor_size d)) (layout_vars 0 0 is) pss"
    using item_chunks_pieces[OF ch(1)] by blast
  then show ?thesis
    using load_tensors[of 0 0 "is" pss vs buffer "[]"] ch(2) vs buf
    by (simp add: send_ok_def ignores_offset_clients)
qed

lemma send_inv_safe:
  assumes "send_ok m chunks buffer rd g0 gN" and "send_inv m chunks buffer rd g0 st"
  shows "(\<forall>e. nt_srv st \<noteq> SFail e \<and> nt_cli st \<noteq> CFail e) \<and> (nt_cli st = CDone \<longrightarrow> nt_got st = gN)"
  using assms
  by (auto simp: send_inv_def phase_def idle_def got_def send_ok_def split: server_pc.splits nat.splits)

lemma send_completes:
  assumes ok: "send_ok m chunks buffer rd g0 gN" and b: "length b0 = m" "length b1 = m"
    and "send_reach m chunks buffer rd (send_init b0 b1 g0) st"
  shows "\<exists>st'. send_reach m chunks buffer rd (send_init b0 b1 g0) st' \<and> nt_srv st' = SDone \<and> nt_cli st' = CDone"
  using assms(4)
proof (induction "send_left chunks st" arbitrary: st rule: less_induct)
  case less
  have inv: "send_inv m chunks buffer rd g0 st" by (rule send_reach_inv[OF ok b less.prems])
  from send_progress[OF ok inv] show ?case
  proof
    assume "\<exists>st'. send_step m chunks buffer rd st st'"
    then obtain st' where st': "send_step m chunks buffer rd st st'" by blast
    show ?thesis
      by (rule less.hyps[OF send_left_less[OF inv st'] send_reach.step[OF less.prems st']])
  qed (use less.prems in blast)
qed

subsection \<open>Properties of \<open>send_stream\<close>\<close>

text \<open>
  C2: \<open>load_tensor_tree\<close> over \<open>send_stream\<close>: in every interleaving of server and client neither side
  fails, the stream cannot get stuck, every step leaves less work, and a client that has finished
  holds exactly the stored bytes of every tensor. In particular no piece is ever read from a buffer
  the server is writing.
\<close>

theorem load_stream_correct:
  assumes "item_chunks fuel m is chunks" "chunks \<noteq> []" "length buffer = sum_list (map get_aligned_byte_size is)"
    and "map length vs = map get_byte_size is" "length b0 = m" "length b1 = m"
    and "send_reach m chunks buffer load_piece (send_init b0 b1 vs) st"
  shows "(\<forall>e. nt_srv st \<noteq> SFail e \<and> nt_cli st \<noteq> CFail e) \<and>
    (nt_cli st = CDone \<longrightarrow> nt_got st = tensor_bytes 0 buffer is) \<and>
    (nt_srv st = SDone \<and> nt_cli st = CDone \<or> (\<exists>st'. send_step m chunks buffer load_piece st st')) \<and>
    (\<forall>st'. send_step m chunks buffer load_piece st st' \<longrightarrow> send_left chunks st' < send_left chunks st)"
proof -
  have ok: "send_ok m chunks buffer load_piece vs (tensor_bytes 0 buffer is)" by (rule load_send_ok[OF assms(1-4)])
  have inv: "send_inv m chunks buffer load_piece vs st" by (rule send_reach_inv[OF ok assms(5-7)])
  then show ?thesis using send_inv_safe[OF ok inv] send_progress[OF ok inv] send_left_less[OF inv] by blast
qed

definition two_infos :: "tensor_info list" where
  "two_infos = [\<lparr>ti_shape = [200], ti_dtype = native_dtype UInt8, ti_meta = None\<rparr>,
     \<lparr>ti_shape = [128], ti_dtype = native_dtype UInt8, ti_meta = None\<rparr>]"

definition two_chunks :: "seg_desc list list" where
  "two_chunks = (case chunkize 1000 256 (layout_vars 0 0 two_infos) of Some (Inr c) \<Rightarrow> c | _ \<Rightarrow> [])"

lemma two_infos_sizes:
  "map get_byte_size two_infos = [200, 128]" "map get_aligned_byte_size two_infos = [256, 128]"
  by (simp_all add: two_infos_def get_aligned_byte_size_def get_byte_size_def align_up_def ALIGN_SIZE_def
      native_dtype_def itemsize_def)

lemma two_chunks_ok: "item_chunks 1000 256 two_infos two_chunks" "two_chunks \<noteq> []"
proof -
  have f: "2 * tensor_size d + 1 \<le> 1000" if "d \<in> set (layout_vars 0 0 two_infos)" for d
    using that two_infos_sizes(1) by (auto simp: two_infos_def)
  have "(128::nat) dvd 256" "(0::nat) < 256" "placed 0 (layout_vars 0 0 two_infos)" by (simp_all add: placed_layout)
  then obtain cs pss where cs: "chunkize 1000 256 (layout_vars 0 0 two_infos) = Some (Inr cs)"
    "concat cs = concat (map2 (\<lambda>d. map (part_of d)) (layout_vars 0 0 two_infos) pss)"
    "list_all2 (\<lambda>d. covers 0 (tensor_size d)) (layout_vars 0 0 two_infos) pss"
    using chunkize_result[of 256 "layout_vars 0 0 two_infos" 1000] f by blast
  show "item_chunks 1000 256 two_infos two_chunks"
    using cs(1) two_infos_sizes(1) by (auto simp: item_chunks_def two_chunks_def two_infos_def)
  have "pss \<noteq> []" "hd pss \<noteq> []" using cs(3) two_infos_sizes(1) by (auto simp: two_infos_def list_all2_Cons1)
  then have "concat cs \<noteq> []" using cs(2) by (cases pss) (auto simp: two_infos_def)
  then show "two_chunks \<noteq> []" using cs(1) by (auto simp: two_chunks_def)
qed

theorem load_stream_correct_witness:
  "nt_srv (send_init (replicate 256 0) (replicate 256 0) [replicate 200 0, replicate 128 (0 :: 8 word)]) \<noteq> SFail IndexError \<and>
   (\<exists>st'. send_step 256 two_chunks (replicate 384 7) load_piece
      (send_init (replicate 256 0) (replicate 256 0) [replicate 200 0, replicate 128 0]) st')"
proof -
  let ?st = "send_init (replicate 256 0) (replicate 256 0) [replicate 200 0, replicate 128 (0 :: 8 word)]"
  have "length (replicate 384 (7 :: 8 word)) = sum_list (map get_aligned_byte_size two_infos)"
    "map length [replicate 200 0, replicate 128 (0 :: 8 word)] = map get_byte_size two_infos"
    by (simp_all add: two_infos_sizes)
  from load_stream_correct[OF two_chunks_ok this _ _ send_reach.start, of "replicate 256 0" "replicate 256 0"]
  have "(\<forall>e. nt_srv ?st \<noteq> SFail e \<and> nt_cli ?st \<noteq> CFail e) \<and>
    (nt_srv ?st = SDone \<and> nt_cli ?st = CDone \<or> (\<exists>st'. send_step 256 two_chunks (replicate 384 7) load_piece ?st st'))"
    by simp
  moreover have "nt_srv ?st \<noteq> SDone" by (simp add: send_init_def)
  ultimately show ?thesis by blast
qed

text \<open>
  \<open>get_tensor_tree\<close> over the same stream loses tensors: it keeps a finished tensor only when
  \<open>is_last_partial\<close> holds, which compares the end of the last piece with the aligned size. Only
  the tensors whose byte size is a positive multiple of 128 are returned, in their order.
\<close>

lemma get_stream_keeps_aligned_only:
  assumes "item_chunks fuel m is chunks" "chunks \<noteq> []" "length buffer = sum_list (map get_aligned_byte_size is)"
    and "\<And>k. length (fresh k) = k" "length b0 = m" "length b1 = m"
    and "send_reach m chunks buffer (get_piece fresh) (send_init b0 b1 \<lparr>gs_cur = None, gs_vars = []\<rparr>) st"
    and "nt_cli st = CDone"
  shows "gs_vars (nt_got st) = filter (\<lambda>b. b \<noteq> [] \<and> 128 dvd length b) (tensor_bytes 0 buffer is)"
proof -
  let ?g0 = "\<lparr>gs_cur = None, gs_vars = []\<rparr>"
  obtain pss where p: "chunks_ok m (sum_list (map get_aligned_byte_size is)) chunks"
    "concat chunks = concat (map2 (\<lambda>d. map (part_of d)) (layout_vars 0 0 is) pss)"
    "list_all2 (\<lambda>d. covers 0 (tensor_size d)) (layout_vars 0 0 is) pss"
    using item_chunks_pieces[OF assms(1)] by blast
  obtain c where "run_pieces (get_piece fresh) buffer (concat chunks) ?g0 =
      Inr \<lparr>gs_cur = c, gs_vars = filter (\<lambda>b. b \<noteq> [] \<and> 128 dvd length b) (tensor_bytes 0 buffer is)\<rparr>"
    using get_tensors[OF p(3), of buffer fresh ?g0] assms(3,4) p(2) by auto
  then have ok: "send_ok m chunks buffer (get_piece fresh) ?g0
      \<lparr>gs_cur = c, gs_vars = filter (\<lambda>b. b \<noteq> [] \<and> 128 dvd length b) (tensor_bytes 0 buffer is)\<rparr>"
    using p(1) assms(2,3) by (simp add: send_ok_def ignores_offset_clients)
  show ?thesis using send_inv_safe[OF ok send_reach_inv[OF ok assms(5-7)]] assms(8) by simp
qed

lemma get_stream_keeps_aligned_only_witness:
  "\<exists>st. send_reach 256 two_chunks (replicate 384 7) (get_piece (\<lambda>k. replicate k 0))
      (send_init (replicate 256 0) (replicate 256 0) \<lparr>gs_cur = None, gs_vars = []\<rparr>) st \<and>
    nt_cli st = CDone \<and> gs_vars (nt_got st) = [replicate 128 7]"
proof -
  let ?fresh = "\<lambda>k. replicate k (0 :: 8 word)" and ?g0 = "\<lparr>gs_cur = None, gs_vars = []\<rparr>"
  have buf: "length (replicate 384 (7 :: 8 word)) = sum_list (map get_aligned_byte_size two_infos)"
    by (simp add: two_infos_sizes)
  obtain gN where "send_ok 256 two_chunks (replicate 384 7) (get_piece ?fresh) ?g0 gN"
  proof -
    obtain pss where p: "chunks_ok 256 (sum_list (map get_aligned_byte_size two_infos)) two_chunks"
      "concat two_chunks = concat (map2 (\<lambda>d. map (part_of d)) (layout_vars 0 0 two_infos) pss)"
      "list_all2 (\<lambda>d. covers 0 (tensor_size d)) (layout_vars 0 0 two_infos) pss"
      using item_chunks_pieces[OF two_chunks_ok(1)] by blast
    then obtain g where "run_pieces (get_piece ?fresh) (replicate 384 7) (concat two_chunks) ?g0 = Inr g"
      using get_tensors[OF p(3), of "replicate 384 7" ?fresh ?g0] buf by auto
    then show thesis using p(1) two_chunks_ok(2) by (intro that[of g]) (simp add: send_ok_def ignores_offset_clients two_infos_sizes)
  qed
  from send_completes[OF this _ _ send_reach.start, of "replicate 256 0" "replicate 256 0"]
  obtain st where st: "send_reach 256 two_chunks (replicate 384 7) (get_piece ?fresh)
      (send_init (replicate 256 0) (replicate 256 0) ?g0) st" "nt_cli st = CDone" by auto
  have "gs_vars (nt_got st) = filter (\<lambda>b. b \<noteq> [] \<and> 128 dvd length b) (tensor_bytes 0 (replicate 384 7) two_infos)"
    by (rule get_stream_keeps_aligned_only[OF two_chunks_ok buf _ _ _ st(1) st(2)]) simp_all
  moreover have "tensor_bytes 0 (replicate 384 7) two_infos = [replicate 200 7, replicate 128 7]"
    using two_infos_sizes by (auto simp: two_infos_def slice_def)
  ultimately show ?thesis using st by auto
qed

end
