(* ===== verification/ShmReceive.thy ===== *)
theory ShmReceive
  imports ShmProtocol
begin

text \<open>
  The receiving half of \<open>ShmTrOnlyKVStore\<close>: the pool of double buffers, the item operations, and
  \<open>receive_stream\<close> with the client's \<open>store_tensor_tree\<close> as an interleaving.
\<close>

subsection \<open>The pool of double buffers\<close>

text \<open>The semaphore's value and the flags \<open>_shm_state_is_idle\<close>; \<open>None\<close>: the caller has to wait.\<close>

record buffer_pool =
  bp_free :: nat
  bp_idle :: "bool list"

definition pool_start :: "nat \<Rightarrow> buffer_pool" where
  "pool_start n = \<lparr>bp_free = n, bp_idle = replicate n True\<rparr>"

text \<open>The loop of \<open>_acquire_shm_double_buffer\<close>: the first idle index, or -1.\<close>

fun first_idle :: "nat \<Rightarrow> bool list \<Rightarrow> int" where
  "first_idle i [] = -1"
| "first_idle i (b # bs) = (if b then int i else first_idle (Suc i) bs)"

definition acquire :: "buffer_pool \<Rightarrow> (int \<times> buffer_pool) option" where
  "acquire p =
     (if bp_free p = 0 then None
      else let i = first_idle 0 (bp_idle p) in
        Some (i, \<lparr>bp_free = bp_free p - 1, bp_idle = (if i < 0 then bp_idle p else (bp_idle p)[nat i := False])\<rparr>))"

definition release :: "nat \<Rightarrow> buffer_pool \<Rightarrow> buffer_pool" where
  "release i p = \<lparr>bp_free = bp_free p + 1, bp_idle = (bp_idle p)[i := True]\<rparr>"

text \<open>The indices held by clients: what the pool and its users agree on.\<close>

definition pool_ok :: "nat list \<Rightarrow> buffer_pool \<Rightarrow> bool" where
  "pool_ok held p \<longleftrightarrow> distinct held \<and> bp_free p + length held = length (bp_idle p) \<and>
     (\<forall>i<length (bp_idle p). bp_idle p ! i \<longleftrightarrow> i \<notin> set held) \<and> (\<forall>i\<in>set held. i < length (bp_idle p))"

datatype pool_event = Acquire | Release nat

fun pool_run :: "pool_event list \<Rightarrow> nat list \<times> buffer_pool \<Rightarrow> nat list \<times> buffer_pool" where
  "pool_run [] s = s"
| "pool_run (Acquire # es) (held, p) =
     (case acquire p of None \<Rightarrow> pool_run es (held, p) | Some (i, p') \<Rightarrow> pool_run es (nat i # held, p'))"
| "pool_run (Release i # es) (held, p) =
     (if i \<in> set held then pool_run es (remove1 i held, release i p) else pool_run es (held, p))"

lemma first_idle_neg: "first_idle k bs < 0 \<Longrightarrow> \<forall>b\<in>set bs. \<not> b"
  by (induction k bs rule: first_idle.induct) (auto split: if_splits)

lemma first_idle_Some: "0 \<le> first_idle k bs \<Longrightarrow> \<exists>i<length bs. first_idle k bs = int (k + i) \<and> bs ! i"
proof (induction k bs rule: first_idle.induct)
  case (2 i b bs)
  show ?case
  proof (cases b)
    case False
    then obtain j where "j < length bs" "first_idle (Suc i) bs = int (Suc i + j)" "bs ! j" using 2 by auto
    then show ?thesis using False by (intro exI[of _ "Suc j"]) simp
  qed (auto intro!: exI[of _ 0])
qed simp

lemma acquire_ok:
  assumes ok: "pool_ok held p" and acq: "acquire p = Some (i, p')"
  shows "0 \<le> i \<and> nat i < length (bp_idle p) \<and> nat i \<notin> set held \<and> pool_ok (nat i # held) p'"
proof -
  have i: "i = first_idle 0 (bp_idle p)" "0 < bp_free p" using acq by (auto simp: acquire_def Let_def split: if_splits)
  have "0 \<le> i"
  proof (rule ccontr)
    assume "\<not> 0 \<le> i"
    then have "first_idle 0 (bp_idle p) < 0" using i(1) by simp
    then have "\<forall>j<length (bp_idle p). \<not> bp_idle p ! j" using first_idle_neg nth_mem by blast
    then have "{..<length (bp_idle p)} \<subseteq> set held" using ok by (auto simp: pool_ok_def)
    then have "length (bp_idle p) \<le> card (set held)" using card_mono[of "set held" "{..<length (bp_idle p)}"] by simp
    then show False using ok i(2) distinct_card[of held] by (auto simp: pool_ok_def)
  qed
  then obtain j where j: "j < length (bp_idle p)" "i = int j" "bp_idle p ! j"
    using first_idle_Some[of 0 "bp_idle p"] i(1) by auto
  have p': "p' = \<lparr>bp_free = bp_free p - 1, bp_idle = (bp_idle p)[j := False]\<rparr>"
    using acq j(2) i(1) by (auto simp: acquire_def Let_def split: if_splits)
  show ?thesis using ok j i(2) unfolding pool_ok_def p' by (auto simp: nth_list_update)
qed

lemma release_ok:
  assumes ok: "pool_ok held p" and i: "i \<in> set held"
  shows "pool_ok (remove1 i held) (release i p)"
proof -
  obtain k where "length held = Suc k" using i by (cases held) auto
  moreover have "set (remove1 i held) = set held - {i}" using ok by (simp add: pool_ok_def set_remove1_eq)
  moreover have "length (remove1 i held) = length held - 1" using i by (simp add: length_remove1)
  ultimately show ?thesis using ok i by (simp add: pool_ok_def release_def nth_list_update)
qed

text \<open>
  C37: whatever the order in which clients acquire and release the double buffers, no two hold the
  same one, a client that gets one gets a valid index, and one waits only when all are taken.
\<close>

theorem buffers_exclusive:
  "case pool_run es ([], pool_start n) of (held, p) \<Rightarrow>
     distinct held \<and> (\<forall>i\<in>set held. i < n) \<and> (acquire p = None) = (length held = n) \<and>
     (case acquire p of None \<Rightarrow> True | Some (i, _) \<Rightarrow> 0 \<le> i \<and> i < int n \<and> nat i \<notin> set held)"
proof -
  have run: "pool_ok held p \<Longrightarrow> length (bp_idle p) = n \<Longrightarrow>
      (case pool_run es (held, p) of (held', p') \<Rightarrow> pool_ok held' p' \<and> length (bp_idle p') = n)" for held p
  proof (induction es "(held, p)" arbitrary: held p rule: pool_run.induct)
    case (2 es held p)
    show ?case
    proof (cases "acquire p")
      case None
      then show ?thesis using 2 by simp
    next
      case (Some a)
      obtain i p' where a: "a = (i, p')" by (cases a)
      have "pool_ok (nat i # held) p'" using acquire_ok[OF 2(3)] Some a by blast
      moreover have "length (bp_idle p') = n" using Some a 2(4) by (auto simp: acquire_def Let_def split: if_splits)
      ultimately show ?thesis using 2(2)[OF Some a[symmetric]] Some a by simp
    qed
  next
    case (3 i es held p)
    then show ?case using release_ok[of held p i] by (auto simp: release_def)
  qed auto
  have "pool_ok [] (pool_start n)" by (simp add: pool_ok_def pool_start_def)
  then obtain held p where hp: "pool_run es ([], pool_start n) = (held, p)" "pool_ok held p" "length (bp_idle p) = n"
    using run[of "[]" "pool_start n"] by (auto simp: pool_start_def split: prod.splits)
  have "(acquire p = None) = (length held = n)" using hp(2,3) by (auto simp: acquire_def pool_ok_def Let_def)
  then show ?thesis using hp acquire_ok[OF hp(2)]
    by (auto simp: pool_ok_def split: option.splits)
qed

theorem buffers_exclusive_witness:
  "case pool_run [Acquire, Acquire, Release 0] ([], pool_start 2) of (held, p) \<Rightarrow> held = [1] \<and> (\<forall>i\<in>set held. i < 2)"
  using buffers_exclusive[of 2 "[Acquire, Acquire, Release 0]"]
  by (simp add: acquire_def release_def pool_start_def Let_def eval_nat_numeral)

subsection \<open>The items of the store\<close>

record ('m, 't) tr_item =
  tr_mtime :: 't
  tr_data :: pyval
  tr_metadata :: "'m option"
  tr_buffer :: bytes
  tr_descs :: "seg_desc list"

type_synonym ('m, 't) tr_items = "(string, ('m, 't) tr_item) dict"

record ('m, 't) tr_store =
  tr_items :: "('m, 't) tr_items"
  tr_events :: "('m, 't) tr_items list"

definition tr_emit :: "('m, 't) tr_store \<Rightarrow> ('m, 't) tr_store" where
  "tr_emit s = s\<lparr>tr_events := tr_events s @ [tr_items s]\<rparr>"

definition tr_validate :: "seg_desc list \<Rightarrow> tensor_info list \<Rightarrow> bool \<Rightarrow> bool res" where
  "tr_validate segs infos raise_exc =
     (if descs_match infos segs then Inr True else if raise_exc then Inl ValueError else Inr False)"

definition tr_rename_key :: "string \<Rightarrow> string \<Rightarrow> ('m, 't) tr_store \<Rightarrow> ('m, 't) tr_store" where
  "tr_rename_key old_key new_key s =
     (if old_key = new_key then s
      else case dget (tr_items s) old_key of
        None \<Rightarrow> s
      | Some i \<Rightarrow> s\<lparr>tr_items := ddel old_key (dset new_key i (tr_items s))\<rparr>)"

definition tr_has_item :: "string \<Rightarrow> ('m, 't) tr_store \<Rightarrow> bool" where
  "tr_has_item key s = dmem key (tr_items s)"

definition tr_field :: "(('m, 't) tr_item \<Rightarrow> 'a) \<Rightarrow> string \<Rightarrow> ('m, 't) tr_store \<Rightarrow> 'a res" where
  "tr_field f key s = rbind (of_opt KeyError (dget (tr_items s) key)) (\<lambda>i. Inr (f i))"

definition tr_get_item_treespec :: "string \<Rightarrow> ('m, 't) tr_store \<Rightarrow> pyval res" where
  "tr_get_item_treespec = tr_field tr_data"

definition tr_get_item_arr_desc :: "string \<Rightarrow> ('m, 't) tr_store \<Rightarrow> seg_desc list res" where
  "tr_get_item_arr_desc = tr_field tr_descs"

definition tr_get_item_metadata :: "string \<Rightarrow> ('m, 't) tr_store \<Rightarrow> 'm option res" where
  "tr_get_item_metadata = tr_field tr_metadata"

definition tr_set_item_treespec :: "string \<Rightarrow> pyval \<Rightarrow> tensor_info list \<Rightarrow> ('m, 't) tr_store \<Rightarrow> unit res \<times> ('m, 't) tr_store" where
  "tr_set_item_treespec key treespec infos s =
     (case dget (tr_items s) key of
        None \<Rightarrow> (Inl ValueError, s)
      | Some i \<Rightarrow> (case tr_validate (tr_descs i) infos True of
            Inl e \<Rightarrow> (Inl e, s)
          | Inr _ \<Rightarrow> (Inr (), s\<lparr>tr_items := dset key (i\<lparr>tr_data := treespec\<rparr>) (tr_items s)\<rparr>)))"

definition tr_get_item_shm_size :: "string \<Rightarrow> ('m, 't) tr_store \<Rightarrow> nat res" where
  "tr_get_item_shm_size key s = (case dget (tr_items s) key of None \<Rightarrow> Inl ValueError | Some i \<Rightarrow> Inr (length (tr_buffer i)))"

definition tr_get_all_keys :: "('m, 't) tr_store \<Rightarrow> string list" where
  "tr_get_all_keys s = dkeys (tr_items s)"

definition tr_get_all_key_to_meta :: "('m, 't) tr_store \<Rightarrow> (string, 'm option) dict" where
  "tr_get_all_key_to_meta s = map (\<lambda>(k, i). (k, tr_metadata i)) (tr_items s)"

definition tr_remove_raw :: "string \<Rightarrow> ('m, 't) tr_store \<Rightarrow> ('m, 't) tr_store" where
  "tr_remove_raw key s = (if dmem key (tr_items s) then s\<lparr>tr_items := ddel key (tr_items s)\<rparr> else s)"

definition tr_remove_item :: "string \<Rightarrow> ('m, 't) tr_store \<Rightarrow> ('m, 't) tr_store" where
  "tr_remove_item key s =
     (if dmem key (tr_items s) then tr_emit (s\<lparr>tr_items := ddel key (tr_items s)\<rparr>) else s)"

definition tr_remove_items :: "string list \<Rightarrow> ('m, 't) tr_store \<Rightarrow> ('m, 't) tr_store" where
  "tr_remove_items keys s = tr_emit (fold tr_remove_raw keys s)"

definition tr_clear :: "('m, 't) tr_store \<Rightarrow> ('m, 't) tr_store" where
  "tr_clear s = tr_emit (fold tr_remove_raw (dkeys (tr_items s)) s)"

subsection \<open>\<open>receive_stream\<close>: before and after the stream\<close>

fun tr_find_reuse :: "tensor_info list \<Rightarrow> string list \<Rightarrow> ('m, 't) tr_store \<Rightarrow> string option" where
  "tr_find_reuse infos [] s = None"
| "tr_find_reuse infos (k # ks) s =
     (case dget (tr_items s) k of
        Some i \<Rightarrow> if descs_match infos (tr_descs i) then Some k else tr_find_reuse infos ks s
      | None \<Rightarrow> tr_find_reuse infos ks s)"

text \<open>
  The removed keys: one may be reused, the others are removed, and the loop leaves \<open>key\<close> bound to the
  last of them. The result is that key and whether the clients have to be told.
\<close>

definition tr_reuse :: "string \<Rightarrow> tensor_info list \<Rightarrow> string list option \<Rightarrow> ('m, 't) tr_store \<Rightarrow>
    string \<times> bool \<times> ('m, 't) tr_store" where
  "tr_reuse key infos removed s =
     (case removed of
        None \<Rightarrow> (key, False, s)
      | Some ks \<Rightarrow>
          (let reuse = tr_find_reuse infos ks s;
               s1 = (case reuse of None \<Rightarrow> s | Some k \<Rightarrow> tr_rename_key k key s);
               rest = (case reuse of None \<Rightarrow> ks | Some k \<Rightarrow> removeAll k ks)
           in (if rest = [] then key else last rest, reuse \<noteq> None \<or> rest \<noteq> [], fold tr_remove_raw rest s1)))"

definition tr_prepare :: "(nat \<Rightarrow> bytes) \<Rightarrow> 't \<Rightarrow> string \<Rightarrow> pyval \<Rightarrow> tensor_info list \<Rightarrow> 'm option \<Rightarrow> string list option \<Rightarrow>
    ('m, 't) tr_store \<Rightarrow> (string \<times> bool \<times> ('m, 't) tr_item) res \<times> ('m, 't) tr_store" where
  "tr_prepare np_empty now key treespec infos md removed s =
     (case tr_reuse key infos removed s of (key, need_update, s) \<Rightarrow>
        (case dget (tr_items s) key of
           Some i \<Rightarrow> (rbind (tr_validate (tr_descs i) infos True) (\<lambda>_. Inr (key, need_update, i)), s)
         | None \<Rightarrow>
             let ds = layout_vars 0 0 infos in
             (rbind (tr_validate ds infos True) (\<lambda>_. Inr (key, True,
                \<lparr>tr_mtime = now, tr_data = treespec, tr_metadata = md, tr_buffer = np_empty (segs_aligned_size ds),
                 tr_descs = ds\<rparr>)), s)))"

text \<open>After the stream: the item, whose buffer was filled in place, is stored under the key.\<close>

definition tr_commit :: "'t \<Rightarrow> string \<Rightarrow> bool \<Rightarrow> ('m, 't) tr_item \<Rightarrow> pyval \<Rightarrow> 'm option \<Rightarrow> ('m, 't) tr_store \<Rightarrow> ('m, 't) tr_store" where
  "tr_commit now key need_update item treespec md s =
     (let s = s\<lparr>tr_items := dset key (item\<lparr>tr_metadata := md, tr_mtime := now, tr_data := treespec\<rparr>) (tr_items s)\<rparr>
      in if need_update then tr_emit s else s)"

text \<open>
  When \<open>receive_stream\<close> is told about a removed key it cannot reuse, the item is not stored under
  the requested key but under the last removed one: the requested key stays as it was.
\<close>

lemma receive_stores_under_removed_key:
  assumes "tr_find_reuse infos ks s = None" and "ks \<noteq> []" and "key \<notin> set ks"
    and "tr_prepare np_empty now key treespec infos md (Some ks) s = (Inr (key', upd, item), s')"
  shows "key' = last ks \<and> dget (tr_items (tr_commit now key' upd item treespec md s')) key = dget (tr_items s) key \<and>
    tr_has_item (last ks) (tr_commit now key' upd item treespec md s')"
proof -
  have same: "dget (tr_items (fold tr_remove_raw xs t)) key = dget (tr_items t) key" if "key \<notin> set xs" for xs t
    using that by (induction xs arbitrary: t) (auto simp: tr_remove_raw_def)
  have "key' = last ks" "s' = fold tr_remove_raw ks s"
    using assms by (auto simp: tr_prepare_def tr_reuse_def Let_def res_simps split: option.splits)
  moreover have "last ks \<noteq> key" using assms(2,3) last_in_set by metis
  ultimately show ?thesis using same[OF assms(3), of s]
    by (auto simp: tr_commit_def tr_emit_def tr_has_item_def Let_def)
qed

lemma receive_stores_under_removed_key_witness:
  "dget (tr_items (tr_commit 0 ''old'' True
      \<lparr>tr_mtime = 0, tr_data = PNone, tr_metadata = None, tr_buffer = [], tr_descs = []\<rparr> PNone None
      (\<lparr>tr_items = [], tr_events = []\<rparr> :: (nat, nat) tr_store))) ''new'' = None"
  using receive_stores_under_removed_key[of "[]" "[''old'']" "\<lparr>tr_items = [], tr_events = []\<rparr> :: (nat, nat) tr_store" "''new''"
      "\<lambda>n. replicate n 0" 0 PNone None "''old''" True
      "\<lparr>tr_mtime = 0, tr_data = PNone, tr_metadata = None, tr_buffer = [], tr_descs = []\<rparr>" "\<lparr>tr_items = [], tr_events = []\<rparr>"]
  by (simp add: tr_prepare_def tr_reuse_def tr_remove_raw_def tr_validate_def descs_match_def segs_aligned_size_def Let_def)

end
