(* ===== verification/ShmUpload.thy ===== *)
theory ShmUpload
  imports ShmReceive
begin

text \<open>
  \<open>receive_stream\<close> of \<open>ShmTrOnlyKVStore\<close> with the client's \<open>store_tensor_tree\<close> loop
  (\<open>apps/collections/shm_kvstore.py\<close>): the client fills one buffer while the server loads the other.
\<close>

subsection \<open>The step relation\<close>

text \<open>The first message computes its offsets without the partial starts.\<close>

definition rel_descs0 :: "seg_desc list \<Rightarrow> seg_desc list" where
  "rel_descs0 chunk = map (\<lambda>d. d\<lparr>sd_offset := sd_offset d - sd_offset (hd chunk)\<rparr>) chunk"

definition chunk_msg_of :: "seg_desc list list \<Rightarrow> nat \<Rightarrow> chunk_msg" where
  "chunk_msg_of chunks c = ChunkMsg (c mod 2) (if c = 0 then rel_descs0 (chunks ! c) else rel_descs (chunks ! c))
     (sum_list (map length (take c chunks)))"

text \<open>The client copies the bytes of piece \<open>i\<close> of a message into the buffer \<open>b\<close>.\<close>

definition client_write :: "bytes list \<Rightarrow> shm_mem \<Rightarrow> nat \<Rightarrow> seg_desc list \<Rightarrow> nat \<Rightarrow> bytes res" where
  "client_write vs mem b ds i =
     rbind (store_piece vs (ds ! i)) (\<lambda>data.
     rbind (of_opt ValueError (mem b)) (\<lambda>buf.
     rbind (get_array_view_raw mem \<lparr>sg_shm = b, sg_descs = ds\<rparr> i) (\<lambda>view.
     rbind (u8_assign RuntimeError view 0 (length view) data) (\<lambda>w.
     Inr (blit buf (clip_index (length buf) (sd_offset (ds ! i))) w)))))"

text \<open>\<open>nt_got\<close> is the item's buffer on the server; \<open>SPing k\<close> and \<open>SLoad k\<close> have \<open>chunk_idx = k\<close>.\<close>

inductive recv_step :: "seg_desc list list \<Rightarrow> bytes list \<Rightarrow> bytes net \<Rightarrow> bytes net \<Rightarrow> bool" for chunks vs where
  first_msg: "\<lbrakk>nt_srv st = SYield 0; chunks \<noteq> []\<rbrakk> \<Longrightarrow>
    recv_step chunks vs st (st\<lparr>nt_down := nt_down st @ [chunk_msg_of chunks 0], nt_srv := SPing 1\<rparr>)"
| first_empty: "\<lbrakk>nt_srv st = SYield 0; chunks = []\<rbrakk> \<Longrightarrow> recv_step chunks vs st (st\<lparr>nt_srv := SFail IndexError\<rparr>)"
| ping_more: "\<lbrakk>nt_srv st = SPing k; nt_up st = Ping # u; k < length chunks\<rbrakk> \<Longrightarrow>
    recv_step chunks vs st (st\<lparr>nt_up := u, nt_down := nt_down st @ [chunk_msg_of chunks k], nt_srv := SLoad k\<rparr>)"
| ping_last: "\<lbrakk>nt_srv st = SPing k; nt_up st = Ping # u; \<not> k < length chunks\<rbrakk> \<Longrightarrow>
    recv_step chunks vs st (st\<lparr>nt_up := u, nt_srv := SLoad k\<rparr>)"
| load: "\<lbrakk>nt_srv st = SLoad k; nt_bufs st (Suc k mod 2) = Some shm;
      load_chunk shm (chunks ! (k - 1)) (nt_got st) = Inr buf\<rbrakk> \<Longrightarrow>
    recv_step chunks vs st (st\<lparr>nt_got := buf, nt_srv := (if k < length chunks then SPing (Suc k) else SEnd)\<rparr>)"
| load_failed: "\<lbrakk>nt_srv st = SLoad k; nt_bufs st (Suc k mod 2) = Some shm;
      load_chunk shm (chunks ! (k - 1)) (nt_got st) = Inl e\<rbrakk> \<Longrightarrow>
    recv_step chunks vs st (st\<lparr>nt_srv := SFail e\<rparr>)"
| closed: "\<lbrakk>nt_srv st = SPing k; nt_up st = Close # u\<rbrakk> \<Longrightarrow> recv_step chunks vs st (st\<lparr>nt_up := u, nt_srv := SEnd\<rparr>)"
| finish: "nt_srv st = SEnd \<Longrightarrow> recv_step chunks vs st (st\<lparr>nt_down := nt_down st @ [EndMsg], nt_srv := SDone\<rparr>)"
| recv: "\<lbrakk>nt_cli st = CRecv; nt_down st = ChunkMsg b ds n # q\<rbrakk> \<Longrightarrow>
    recv_step chunks vs st (st\<lparr>nt_down := q, nt_cli := CRead b ds 0\<rparr>)"
| recv_end: "\<lbrakk>nt_cli st = CRecv; nt_down st = EndMsg # q\<rbrakk> \<Longrightarrow>
    recv_step chunks vs st (st\<lparr>nt_down := q, nt_cli := CDone, nt_up := nt_up st @ [Close]\<rparr>)"
| copied: "\<lbrakk>nt_cli st = CRead b ds i; i < length ds; client_write vs (nt_bufs st) b ds i = Inr buf\<rbrakk> \<Longrightarrow>
    recv_step chunks vs st (st\<lparr>nt_bufs := (nt_bufs st)(b \<mapsto> buf), nt_cli := CRead b ds (Suc i)\<rparr>)"
| copy_failed: "\<lbrakk>nt_cli st = CRead b ds i; i < length ds; client_write vs (nt_bufs st) b ds i = Inl e\<rbrakk> \<Longrightarrow>
    recv_step chunks vs st (st\<lparr>nt_cli := CFail e\<rparr>)"
| copy_done: "\<lbrakk>nt_cli st = CRead b ds i; \<not> i < length ds\<rbrakk> \<Longrightarrow>
    recv_step chunks vs st (st\<lparr>nt_cli := CRecv, nt_up := nt_up st @ [Ping]\<rparr>)"

definition recv_init :: "bytes \<Rightarrow> bytes \<Rightarrow> bytes \<Rightarrow> bytes net" where
  "recv_init b0 b1 buffer = \<lparr>nt_bufs = [0 \<mapsto> b0, 1 \<mapsto> b1], nt_srv = SYield 0, nt_cli = CRecv, nt_down = [],
     nt_up = [], nt_got = buffer\<rparr>"

inductive recv_reach :: "seg_desc list list \<Rightarrow> bytes list \<Rightarrow> bytes net \<Rightarrow> bytes net \<Rightarrow> bool" for chunks vs st0 where
  start: "recv_reach chunks vs st0 st0"
| step: "recv_reach chunks vs st0 st \<Longrightarrow> recv_step chunks vs st st' \<Longrightarrow> recv_reach chunks vs st0 st'"

subsection \<open>Writing and loading one chunk\<close>

definition upload_ok :: "nat \<Rightarrow> nat \<Rightarrow> seg_desc list list \<Rightarrow> bytes list \<Rightarrow> bool" where
  "upload_ok m T chunks vs \<longleftrightarrow> chunks_ok m T chunks \<and> chunks \<noteq> [] \<and>
     (\<forall>d\<in>set (concat chunks). \<exists>bs. store_piece vs d = Inr bs \<and> length bs = sd_partial_size d) \<and>
     (\<forall>d\<in>set (chunks ! 0). \<forall>p. sd_partial d = Some p \<longrightarrow> pa_start p = 0)"

definition has_piece :: "bytes list \<Rightarrow> bytes \<Rightarrow> nat \<Rightarrow> seg_desc \<Rightarrow> bool" where
  "has_piece vs b off d \<longleftrightarrow> store_piece vs d = Inr (slice b off (off + sd_partial_size d))"

definition written :: "nat \<Rightarrow> seg_desc list list \<Rightarrow> bytes list \<Rightarrow> nat \<Rightarrow> nat \<Rightarrow> shm_mem \<Rightarrow> bool" where
  "written m chunks vs c i mem \<longleftrightarrow> (\<exists>b. mem (c mod 2) = Some b \<and> length b = m \<and>
     (\<forall>j<i. has_piece vs b (chunk_total (take j (chunks ! c))) (chunks ! c ! j)))"

definition loaded :: "nat \<Rightarrow> seg_desc list list \<Rightarrow> bytes list \<Rightarrow> nat \<Rightarrow> bytes \<Rightarrow> bool" where
  "loaded m chunks vs k buf \<longleftrightarrow> (\<forall>c<k. \<forall>j<length (chunks ! c).
     has_piece vs buf (m * c + chunk_total (take j (chunks ! c))) (chunks ! c ! j))"

lemma upload_chunk:
  assumes "upload_ok m T chunks vs" and "c < length chunks"
  shows "pieces_from (m * c) (chunks ! c)" "chunks ! c \<noteq> []" "chunk_total (chunks ! c) \<le> m"
    "m * c + chunk_total (chunks ! c) \<le> T"
  using assms by (auto simp: upload_ok_def chunks_ok_def)

lemma msg_descs:
  assumes ok: "upload_ok m T chunks vs" and c: "c < length chunks"
  shows "chunk_msg_of chunks c = ChunkMsg (c mod 2) (rel_descs (chunks ! c)) (sum_list (map length (take c chunks)))"
proof (cases "c = 0")
  case True
  have z: "sd_offset_with_partial d = sd_offset d" if "d \<in> set (chunks ! 0)" for d
    using ok that by (auto simp: upload_ok_def sd_offset_with_partial_def split: option.splits)
  moreover have "hd (chunks ! 0) \<in> set (chunks ! 0)" using upload_chunk(2)[OF ok c] True by simp
  ultimately have "rel_descs0 (chunks ! 0) = rel_descs (chunks ! 0)" by (simp add: rel_descs0_def rel_descs_def)
  then show ?thesis using True by (simp add: chunk_msg_of_def)
qed (simp add: chunk_msg_of_def)

lemma store_piece_offset: "store_piece vs (d\<lparr>sd_offset := x\<rparr>) = store_piece vs d"
  by (simp add: store_piece_def sd_partial_checked_def)

lemma chunk_total_mono: "j \<le> i \<Longrightarrow> chunk_total (take j ds) \<le> chunk_total (take i ds)"
  by (metis chunk_total_append le_add1 le_add_diff_inverse take_add)

lemma clip_index_nat: "k \<le> n \<Longrightarrow> clip_index n (int k) = k"
  by (simp add: clip_index_def)

lemma write_piece:
  assumes ok: "upload_ok m T chunks vs" and c: "c < length chunks" and i: "i < length (chunks ! c)"
    and w: "written m chunks vs c i mem"
  shows "\<exists>b'. client_write vs mem (c mod 2) (rel_descs (chunks ! c)) i = Inr b' \<and> length b' = m \<and>
    written m chunks vs c (Suc i) (mem(c mod 2 \<mapsto> b'))"
proof -
  let ?ds = "chunks ! c" and ?t = "chunk_total (take i (chunks ! c))" and ?n = "sd_partial_size (chunks ! c ! i)"
  note ch = upload_chunk[OF ok c]
  obtain b where b: "mem (c mod 2) = Some b" "length b = m" "\<And>j. j < i \<Longrightarrow> has_piece vs b (chunk_total (take j ?ds)) (?ds ! j)"
    using w by (auto simp: written_def)
  have "?ds ! i \<in> set (concat chunks)" using c i by (auto intro!: bexI[of _ ?ds])
  then obtain data where data: "store_piece vs (?ds ! i) = Inr data" "length data = ?n"
    using ok unfolding upload_ok_def by blast
  have n: "?t + ?n \<le> m" using pieces_nth(3)[OF ch(1) i] ch(3) by simp
  have rel: "rel_descs ?ds ! i = (?ds ! i)\<lparr>sd_offset := int ?t\<rparr>" by (rule rel_descs_nth[OF ch(1) i])
  have view: "get_array_view_raw mem \<lparr>sg_shm = c mod 2, sg_descs = rel_descs ?ds\<rparr> i = Inr (slice b ?t (?t + ?n))"
    using i b(1,2) n pyslice_nat[of b ?t "?t + ?n"] by (simp add: get_array_view_raw_def rel Let_def)
  have "length (slice b ?t (?t + ?n)) = ?n" using n b(2) by simp
  then have asg: "u8_assign RuntimeError (slice b ?t (?t + ?n)) 0 (length (slice b ?t (?t + ?n))) data = Inr data"
    using data(2) by (auto simp: u8_assign_def blit_def Let_def)
  let ?b' = "blit b ?t data"
  have "clip_index (length b) (int ?t) = ?t" using n b(2) by (simp add: clip_index_def)
  then have run: "client_write vs mem (c mod 2) (rel_descs ?ds) i = Inr ?b'"
    using b(1) data(1) view asg by (simp add: client_write_def rel store_piece_offset)
  have fit: "?t + length data \<le> length b" using n data(2) b(2) by simp
  have "has_piece vs ?b' (chunk_total (take j ?ds)) (?ds ! j)" if "j < Suc i" for j
  proof (cases "j = i")
    case True
    then show ?thesis using data slice_blit_same[OF fit] by (simp add: has_piece_def)
  next
    case False
    then have j: "j < i" using that by simp
    have "chunk_total (take j ?ds) + sd_partial_size (?ds ! j) \<le> ?t"
      using chunk_total_mono[of "Suc j" i ?ds] partial_le_aligned[of "?ds ! j"] j i
      by (simp add: take_Suc_conv_app_nth)
    then show ?thesis using b(3)[OF j] fit by (simp add: has_piece_def slice_blit_before)
  qed
  then show ?thesis using run fit b(2) by (auto simp: written_def)
qed

lemma load_written:
  assumes ok: "upload_ok m T chunks vs" and c: "c < length chunks" and w: "written m chunks vs c (length (chunks ! c)) mem"
    and shm: "mem (c mod 2) = Some shm" and l: "loaded m chunks vs c buf" and T: "length buf = T"
  shows "\<exists>buf'. load_chunk shm (chunks ! c) buf = Inr buf' \<and> length buf' = T \<and> loaded m chunks vs (Suc c) buf'"
proof -
  let ?ds = "chunks ! c" and ?n = "chunk_total (chunks ! c)"
  note ch = upload_chunk[OF ok c]
  have s: "length shm = m" "\<And>j. j < length ?ds \<Longrightarrow> has_piece vs shm (chunk_total (take j ?ds)) (?ds ! j)"
    using w shm by (auto simp: written_def)
  have off: "first_offset ?ds = Inr (int (m * c))" using ch(1,2) by (cases ?ds) (auto simp: first_offset_def)
  have clip: "clip_index (length buf) (int (m * c)) = m * c" "clip_index (length buf) (int (m * c) + int ?n) = m * c + ?n"
    using clip_index_nat[of "m * c" "length buf"] clip_index_nat[of "m * c + ?n" "length buf"] ch(4) T by simp_all
  have len: "length (slice shm 0 ?n) = ?n" "length (slice buf (m * c) (m * c + ?n)) = ?n" using ch(3,4) s(1) T by simp_all
  let ?b = "blit buf (m * c) (slice shm 0 ?n)"
  have eq: "(if slice shm 0 ?n = [] then buf else ?b) = ?b"
  proof (cases "slice shm 0 ?n = []")
    case True
    then have "?n = 0" using len(1) by (metis list.size(3))
    then show ?thesis by (simp add: blit_def)
  qed simp
  have run: "load_chunk shm ?ds buf = Inr ?b"
    unfolding load_chunk_def off rbind.simps clip u8_assign_def Let_def len using eq by simp
  have fit: "m * c + length (slice shm 0 ?n) \<le> length buf" using len(1) ch(4) T by simp
  have "has_piece vs ?b (m * c' + chunk_total (take j (chunks ! c'))) (chunks ! c' ! j)"
    if c': "c' < Suc c" and j: "j < length (chunks ! c')" for c' j
  proof (cases "c' = c")
    case True
    let ?t = "chunk_total (take j ?ds)" and ?k = "sd_partial_size (?ds ! j)"
    have jc: "j < length ?ds" using j True by simp
    have tk: "?t + ?k \<le> ?n" by (rule pieces_nth(3)[OF ch(1) jc])
    have whole: "slice ?b (m * c) (m * c + ?n) = slice shm 0 ?n" using slice_blit_same[OF fit] len(1) by simp
    have "slice ?b (m * c + ?t) (m * c + ?t + ?k) = slice (slice ?b (m * c) (m * c + ?n)) ?t (?t + ?k)"
      using tk by (simp add: slice_slice add.assoc)
    also have "\<dots> = slice shm ?t (?t + ?k)" unfolding whole using tk by (simp add: slice_slice)
    finally show ?thesis using s(2)[OF jc] True by (simp add: has_piece_def)
  next
    case False
    then have lt: "c' < c" using c' by simp
    have cl: "c' < length chunks" using lt c by simp
    note ch' = upload_chunk[OF ok cl]
    have "m * c' + m \<le> m * c" using lt by (metis Suc_leI mult_Suc_right mult_le_mono2 add.commute)
    then have "m * c' + chunk_total (take j (chunks ! c')) + sd_partial_size (chunks ! c' ! j) \<le> m * c"
      using pieces_nth(3)[OF ch'(1) j] ch'(3) by simp
    then show ?thesis using l lt j fit by (simp add: loaded_def has_piece_def slice_blit_before)
  qed
  then show ?thesis using run fit T by (auto simp: loaded_def)
qed

subsection \<open>The invariant\<close>

text \<open>Chunk \<open>c\<close> is with the client: announced, being filled, or filled and acknowledged.\<close>

definition filling :: "nat \<Rightarrow> seg_desc list list \<Rightarrow> bytes list \<Rightarrow> nat \<Rightarrow> bytes net \<Rightarrow> bool" where
  "filling m chunks vs c st \<longleftrightarrow>
     (nt_cli st = CRecv \<and> nt_down st = [chunk_msg_of chunks c] \<and> nt_up st = []) \<or>
     (\<exists>i \<le> length (chunks ! c). nt_cli st = CRead (c mod 2) (rel_descs (chunks ! c)) i \<and> nt_down st = [] \<and>
        nt_up st = [] \<and> written m chunks vs c i (nt_bufs st)) \<or>
     (nt_cli st = CRecv \<and> nt_down st = [] \<and> nt_up st = [Ping] \<and>
        written m chunks vs c (length (chunks ! c)) (nt_bufs st))"

definition quiet :: "chunk_msg list \<Rightarrow> bytes net \<Rightarrow> bool" where
  "quiet down st \<longleftrightarrow> nt_cli st = CRecv \<and> nt_down st = down \<and> nt_up st = []"

definition recv_inv :: "nat \<Rightarrow> nat \<Rightarrow> seg_desc list list \<Rightarrow> bytes list \<Rightarrow> bytes net \<Rightarrow> bool" where
  "recv_inv m T chunks vs st \<longleftrightarrow> bufs_ok m (nt_bufs st) \<and> length (nt_got st) = T \<and>
     (case nt_srv st of
       SYield c \<Rightarrow> c = 0 \<and> quiet [] st
     | SPing k \<Rightarrow> 0 < k \<and> k \<le> length chunks \<and> filling m chunks vs (k - 1) st \<and> loaded m chunks vs (k - 1) (nt_got st)
     | SLoad k \<Rightarrow> 0 < k \<and> k \<le> length chunks \<and> written m chunks vs (k - 1) (length (chunks ! (k - 1))) (nt_bufs st) \<and>
         loaded m chunks vs (k - 1) (nt_got st) \<and> (if k < length chunks then filling m chunks vs k st else quiet [] st)
     | SEnd \<Rightarrow> quiet [] st \<and> loaded m chunks vs (length chunks) (nt_got st)
     | SDone \<Rightarrow> (quiet [EndMsg] st \<or> nt_cli st = CDone) \<and> loaded m chunks vs (length chunks) (nt_got st)
     | SSave c \<Rightarrow> False
     | SFail e \<Rightarrow> False)"

lemma filling_srv [simp]:
  "filling m chunks vs c (st\<lparr>nt_srv := s\<rparr>) = filling m chunks vs c st"
  "filling m chunks vs c (st\<lparr>nt_got := g\<rparr>) = filling m chunks vs c st"
  "quiet d (st\<lparr>nt_srv := s\<rparr>) = quiet d st" "quiet d (st\<lparr>nt_got := g\<rparr>) = quiet d st"
  by (simp_all add: filling_def quiet_def)

lemma written_other: "written m chunks vs c i mem \<Longrightarrow> k \<noteq> c mod 2 \<Longrightarrow> written m chunks vs c i (mem(k := b))"
  by (simp add: written_def)

lemma written_0: "bufs_ok m mem \<Longrightarrow> written m chunks vs c 0 mem"
  using bufs_okD[of m mem c] by (auto simp: written_def)

lemma written_buf: "written m chunks vs c i mem \<Longrightarrow> \<exists>b. mem (c mod 2) = Some b \<and> length b = m"
  by (auto simp: written_def)

text \<open>Each step of a client that is filling chunk \<open>c\<close> keeps the phase; other buffers are not touched.\<close>

lemma filling_copy:
  assumes ok: "upload_ok m T chunks vs" and c: "c < length chunks" and f: "filling m chunks vs c st"
    and cli: "nt_cli st = CRead b ds i" "i < length ds"
  shows "\<exists>buf. client_write vs (nt_bufs st) b ds i = Inr buf \<and> length buf = m \<and> b = c mod 2 \<and>
    filling m chunks vs c (st\<lparr>nt_bufs := (nt_bufs st)(b \<mapsto> buf), nt_cli := CRead b ds (Suc i)\<rparr>)"
proof -
  have st: "b = c mod 2" "ds = rel_descs (chunks ! c)" "nt_down st = []" "nt_up st = []" "written m chunks vs c i (nt_bufs st)"
    using f cli(1) by (auto simp: filling_def)
  have i: "i < length (chunks ! c)" using cli(2) st(2) by simp
  show ?thesis using write_piece[OF ok c i st(5)] st i by (auto simp: filling_def)
qed

lemma filling_recv:
  assumes "upload_ok m T chunks vs" and "c < length chunks" and "filling m chunks vs c st" and "bufs_ok m (nt_bufs st)"
    and "nt_cli st = CRecv" "nt_down st = ChunkMsg b ds n # q"
  shows "filling m chunks vs c (st\<lparr>nt_down := q, nt_cli := CRead b ds 0\<rparr>)"
  using assms msg_descs[OF assms(1,2)] written_0[OF assms(4)] by (auto simp: filling_def)

lemma filling_copied:
  assumes "filling m chunks vs c st" and "nt_cli st = CRead b ds i" "\<not> i < length ds"
  shows "filling m chunks vs c (st\<lparr>nt_cli := CRecv, nt_up := nt_up st @ [Ping]\<rparr>)"
proof -
  have "i = length (chunks ! c)" "nt_down st = []" "nt_up st = []" "written m chunks vs c i (nt_bufs st)"
    using assms by (auto simp: filling_def)
  then show ?thesis by (simp add: filling_def)
qed

lemma filling_ping:
  "filling m chunks vs c st \<Longrightarrow> nt_up st = Ping # u \<Longrightarrow>
     u = [] \<and> nt_cli st = CRecv \<and> nt_down st = [] \<and> written m chunks vs c (length (chunks ! c)) (nt_bufs st)"
  "filling m chunks vs c st \<Longrightarrow> nt_up st \<noteq> Close # u"
  "filling m chunks vs c st \<Longrightarrow> nt_down st \<noteq> EndMsg # q"
  by (auto simp: filling_def chunk_msg_of_def)

lemma recv_inv_client:
  assumes inv: "recv_inv m T chunks vs st" and busy: "nt_cli st \<noteq> CRecv \<or> (\<exists>b ds n q. nt_down st = ChunkMsg b ds n # q)"
    and "nt_cli st \<noteq> CDone"
  shows "\<exists>c. c < length chunks \<and> filling m chunks vs c st \<and>
    (\<forall>st' buf. filling m chunks vs c st' \<longrightarrow> nt_srv st' = nt_srv st \<longrightarrow> nt_got st' = nt_got st \<longrightarrow>
       nt_bufs st' = nt_bufs st \<or> (nt_bufs st' = (nt_bufs st)(c mod 2 \<mapsto> buf) \<and> length buf = m) \<longrightarrow>
       recv_inv m T chunks vs st')"
proof (cases "nt_srv st")
  case (SPing k)
  then show ?thesis using inv by (intro exI[of _ "k - 1"]) (auto simp: recv_inv_def bufs_ok_upd)
next
  case (SLoad k)
  then have k: "0 < k" "k < length chunks" using inv busy assms(3) by (auto simp: recv_inv_def quiet_def split: if_splits)
  have "Suc (k - 1) mod 2 \<noteq> (k - 1) mod 2" by (rule mod2_Suc)
  then have "k mod 2 \<noteq> (k - 1) mod 2" using k(1) by simp
  then show ?thesis using inv SLoad k
    by (intro exI[of _ k]) (auto simp: recv_inv_def bufs_ok_upd written_other)
qed (use inv busy assms(3) in \<open>auto simp: recv_inv_def quiet_def\<close>)

lemma parity: "0 < k \<Longrightarrow> Suc k mod 2 = (k - 1) mod 2"
  by (cases k) simp_all

lemma recv_step_inv:
  assumes ok: "upload_ok m T chunks vs" and step: "recv_step chunks vs st st'" and inv: "recv_inv m T chunks vs st"
  shows "recv_inv m T chunks vs st'"
proof -
  have ne: "chunks \<noteq> []" using ok by (simp add: upload_ok_def)
  have bufs: "bufs_ok m (nt_bufs st)" using inv by (simp add: recv_inv_def)
  show ?thesis
    using step
  proof cases
    case first_msg
    have "0 < length chunks" using ne by simp
    then show ?thesis using first_msg inv by (simp add: recv_inv_def quiet_def filling_def loaded_def Suc_leI)
  next
    case (ping_more k u)
    then have k: "0 < k" "filling m chunks vs (k - 1) st" "loaded m chunks vs (k - 1) (nt_got st)" "length (nt_got st) = T"
      using inv by (simp_all add: recv_inv_def)
    show ?thesis using ping_more k filling_ping(1)[OF k(2) ping_more(3)] bufs
      by (simp add: recv_inv_def filling_def[of _ _ _ k])
  next
    case (ping_last k u)
    then have k: "0 < k" "k \<le> length chunks" "filling m chunks vs (k - 1) st" "loaded m chunks vs (k - 1) (nt_got st)"
      "length (nt_got st) = T"
      using inv by (auto simp: recv_inv_def)
    show ?thesis using ping_last k filling_ping(1)[OF k(3) ping_last(3)] bufs by (simp add: recv_inv_def quiet_def)
  next
    case (load k shm buf)
    then have k: "0 < k" "k \<le> length chunks" "written m chunks vs (k - 1) (length (chunks ! (k - 1))) (nt_bufs st)"
      "loaded m chunks vs (k - 1) (nt_got st)" "length (nt_got st) = T"
      "if k < length chunks then filling m chunks vs k st else quiet [] st"
      using inv by (simp_all add: recv_inv_def)
    have c: "k - 1 < length chunks" "Suc k mod 2 = (k - 1) mod 2" "Suc (k - 1) = k" using k(1,2) parity by simp_all
    have shm: "nt_bufs st ((k - 1) mod 2) = Some shm" using load(3) c(2) by simp
    obtain b' where "load_chunk shm (chunks ! (k - 1)) (nt_got st) = Inr b'" "length b' = T" "loaded m chunks vs (Suc (k - 1)) b'"
      using load_written[OF ok c(1) k(3) shm k(4,5)] by blast
    then have "length buf = T \<and> loaded m chunks vs k buf" using load(4) c(3) by simp
    then show ?thesis using load k bufs by (auto simp: recv_inv_def)
  next
    case (load_failed k shm e)
    then have k: "0 < k" "k \<le> length chunks" "written m chunks vs (k - 1) (length (chunks ! (k - 1))) (nt_bufs st)"
      "loaded m chunks vs (k - 1) (nt_got st)" "length (nt_got st) = T"
      using inv by (simp_all add: recv_inv_def)
    have c: "k - 1 < length chunks" "Suc k mod 2 = (k - 1) mod 2" using k(1,2) parity by simp_all
    have shm: "nt_bufs st ((k - 1) mod 2) = Some shm" using load_failed(3) c(2) by simp
    show ?thesis using load_written[OF ok c(1) k(3) shm k(4,5)] load_failed(4) by simp
  next
    case (closed k u)
    then show ?thesis using inv filling_ping(2) by (auto simp: recv_inv_def)
  next
    case finish
    then show ?thesis using inv by (simp add: recv_inv_def quiet_def)
  next
    case (recv b ds n q)
    then obtain c where c: "c < length chunks" "filling m chunks vs c st"
      "\<And>st'. filling m chunks vs c st' \<Longrightarrow> nt_srv st' = nt_srv st \<Longrightarrow> nt_got st' = nt_got st \<Longrightarrow>
         nt_bufs st' = nt_bufs st \<Longrightarrow> recv_inv m T chunks vs st'"
      using recv_inv_client[OF inv] by auto
    show ?thesis using filling_recv[OF ok c(1,2) bufs recv(2,3)] recv(1) by (intro c(3)) simp_all
  next
    case (recv_end q)
    then show ?thesis using inv filling_ping(3)
      by (auto simp: recv_inv_def quiet_def split: server_pc.splits if_splits)
  next
    case (copied b ds i buf)
    then obtain c where c: "c < length chunks" "filling m chunks vs c st"
      "\<And>st' buf. filling m chunks vs c st' \<Longrightarrow> nt_srv st' = nt_srv st \<Longrightarrow> nt_got st' = nt_got st \<Longrightarrow>
         nt_bufs st' = (nt_bufs st)(c mod 2 \<mapsto> buf) \<Longrightarrow> length buf = m \<Longrightarrow> recv_inv m T chunks vs st'"
      using recv_inv_client[OF inv] by auto
    show ?thesis using filling_copy[OF ok c(1,2) copied(2,3)] copied(1,4) by (intro c(3)[of _ buf]) auto
  next
    case (copy_failed b ds i e)
    then obtain c where c: "c < length chunks" "filling m chunks vs c st"
      using recv_inv_client[OF inv] by auto
    show ?thesis using filling_copy[OF ok c copy_failed(2,3)] copy_failed(4) by auto
  next
    case (copy_done b ds i)
    then obtain c where c: "c < length chunks" "filling m chunks vs c st"
      "\<And>st'. filling m chunks vs c st' \<Longrightarrow> nt_srv st' = nt_srv st \<Longrightarrow> nt_got st' = nt_got st \<Longrightarrow>
         nt_bufs st' = nt_bufs st \<Longrightarrow> recv_inv m T chunks vs st'"
      using recv_inv_client[OF inv] by auto
    show ?thesis using filling_copied[OF c(2) copy_done(2,3)] copy_done(1) by (intro c(3)) simp_all
  qed (use ne in simp)
qed

lemma recv_reach_inv:
  assumes ok: "upload_ok m T chunks vs" and "length b0 = m" "length b1 = m" "length buffer = T"
    and "recv_reach chunks vs (recv_init b0 b1 buffer) st"
  shows "recv_inv m T chunks vs st"
  using assms(5)
proof induction
  case start
  then show ?case using assms(1-4) by (auto simp: recv_inv_def recv_init_def bufs_ok_def quiet_def less_2_cases_iff)
next
  case (step st st')
  then show ?case using recv_step_inv[OF ok] by blast
qed

subsection \<open>Progress and termination\<close>

lemma filling_progress:
  assumes ok: "upload_ok m T chunks vs" and c: "c < length chunks" and f: "filling m chunks vs c st"
  shows "(\<exists>st'. recv_step chunks vs st st') \<or> nt_up st = [Ping]"
proof (cases "nt_cli st")
  case CRecv
  then show ?thesis using f by (auto simp: filling_def chunk_msg_of_def intro: recv)
next
  case (CRead b ds i)
  show ?thesis
  proof (cases "i < length ds")
    case True
    then show ?thesis using filling_copy[OF ok c f CRead] CRead by (blast intro: copied)
  qed (use CRead in \<open>blast intro: copy_done\<close>)
qed (use f in \<open>auto simp: filling_def\<close>)

lemma recv_progress:
  assumes ok: "upload_ok m T chunks vs" and inv: "recv_inv m T chunks vs st"
  shows "nt_srv st = SDone \<and> nt_cli st = CDone \<or> (\<exists>st'. recv_step chunks vs st st')"
proof (cases "nt_srv st")
  case (SPing k)
  then have k: "0 < k" "k \<le> length chunks" "filling m chunks vs (k - 1) st" using inv by (simp_all add: recv_inv_def)
  then consider st' where "recv_step chunks vs st st'" | "nt_up st = Ping # []"
    using filling_progress[OF ok _ k(3)] by fastforce
  then show ?thesis
  proof cases
    case 2
    then show ?thesis using SPing by (cases "k < length chunks") (blast intro: ping_more ping_last)+
  qed blast
next
  case (SLoad k)
  then have k: "0 < k" "k \<le> length chunks" "written m chunks vs (k - 1) (length (chunks ! (k - 1))) (nt_bufs st)"
    "loaded m chunks vs (k - 1) (nt_got st)" "length (nt_got st) = T"
    using inv by (simp_all add: recv_inv_def)
  have c: "k - 1 < length chunks" "Suc k mod 2 = (k - 1) mod 2" using k(1,2) parity by simp_all
  obtain shm where shm: "nt_bufs st ((k - 1) mod 2) = Some shm" using written_buf[OF k(3)] by blast
  then show ?thesis using load_written[OF ok c(1) k(3) shm k(4,5)] SLoad c(2) by (metis load)
next
  case (SYield c)
  then show ?thesis using inv first_msg[of st chunks vs] ok by (auto simp: recv_inv_def upload_ok_def)
next
  case SEnd
  then show ?thesis by (blast intro: finish)
next
  case SDone
  then show ?thesis using inv by (auto simp: recv_inv_def quiet_def intro: recv_end)
qed (use inv in \<open>auto simp: recv_inv_def\<close>)

fun upload_left :: "nat \<Rightarrow> server_pc \<Rightarrow> nat" where
  "upload_left n (SYield c) = 2 * n + 5"
| "upload_left n (SPing k) = 2 * (n - k) + 3"
| "upload_left n (SLoad k) = 2 * (n - k) + 2"
| "upload_left n SEnd = 1"
| "upload_left n _ = 0"

definition recv_left :: "seg_desc list list \<Rightarrow> 'g net \<Rightarrow> nat" where
  "recv_left chunks st = (length (concat chunks) + 3) * upload_left (length chunks) (nt_srv st) +
     sum_list (map msg_left (nt_down st)) + client_left (nt_cli st)"

lemma msg_left_chunk: "c < length chunks \<Longrightarrow> msg_left (chunk_msg_of chunks c) + 1 \<le> length (concat chunks) + 3"
  using chunk_length_le[of c chunks] by (cases "c = 0") (simp_all add: chunk_msg_of_def rel_descs0_def)

lemma recv_left_less:
  assumes inv: "recv_inv m T chunks vs st" and step: "recv_step chunks vs st st'"
  shows "recv_left chunks st' < recv_left chunks st"
  using step
proof cases
  case first_msg
  then have "0 < length chunks" by simp
  then show ?thesis using first_msg msg_left_chunk[of 0 chunks]
      server_step_less[of "upload_left (length chunks) (SPing 1)" "upload_left (length chunks) (SYield 0)"
        "msg_left (chunk_msg_of chunks 0)" "length (concat chunks) + 3"]
    by (simp add: recv_left_def)
next
  case (ping_more k u)
  then show ?thesis using msg_left_chunk[of k chunks]
      server_step_less[of "upload_left (length chunks) (SLoad k)" "upload_left (length chunks) (SPing k)"
        "msg_left (chunk_msg_of chunks k)" "length (concat chunks) + 3"]
    by (simp add: recv_left_def)
next
  case (load k shm buf)
  then show ?thesis
    using mult_less_mono2[of "upload_left (length chunks) (SPing (Suc k))" "upload_left (length chunks) (SLoad k)" "length (concat chunks) + 3"]
    by (cases "k < length chunks") (auto simp: recv_left_def)
qed (simp_all add: recv_left_def)

subsection \<open>The chunks of an item\<close>

text \<open>A piece that does not start its tensor begins a chunk, so the first chunk has none.\<close>

definition starts_only :: "seg_desc list \<Rightarrow> bool" where
  "starts_only ds \<longleftrightarrow> (\<forall>d\<in>set ds. \<forall>p. sd_partial d = Some p \<longrightarrow> pa_start p = 0)"

definition cs_first :: "chunk_state \<Rightarrow> seg_desc list" where
  "cs_first cs = (case cs_chunks cs of [] \<Rightarrow> cs_cur cs | c # _ \<Rightarrow> c)"

lemma chunk_loop_first:
  assumes "chunk_loop fuel m d sz off cs = Some (Inr cs')" and "starts_only (cs_first cs)"
    and "off = 0 \<or> cs_chunks cs \<noteq> [] \<or> cs_size cs = m \<or> sz = 0"
  shows "starts_only (cs_first cs')"
  using assms
proof (induction fuel m d sz off cs rule: chunk_loop.induct)
  case (1 fuel m info sz offset cs)
  show ?case
  proof (cases "sz = 0")
    case True
    then show ?thesis using "1.prems" by (simp add: chunk_loop.simps)
  next
    case sz: False
    then obtain n where n: "fuel = Suc n" using "1.prems"(1) by (cases fuel) (auto simp: chunk_loop.simps)
    show ?thesis
    proof (cases "cs_size cs < m")
      case True
      let ?r = "m - cs_size cs"
      let ?p = "\<lparr>pa_start = offset, pa_length = min ?r sz\<rparr>"
      let ?al = "partial_aligned_size ?p"
      let ?cs = "cs\<lparr>cs_cur := cs_cur cs @ [info\<lparr>sd_partial := Some ?p\<rparr>], cs_size := cs_size cs + ?al\<rparr>"
      have al: "?al \<le> ?r" "chunk_loop n m info (sz - ?al) (offset + ?al) ?cs = Some (Inr cs')"
        using "1.prems"(1) sz n True by (auto simp: chunk_loop.simps[of "Suc n"] Let_def split: if_splits)
      have "min ?r sz \<le> ?al" by (simp add: partial_aligned_size_def ALIGN_SIZE_def align_up_ge)
      then have "cs_size cs + ?al = m \<or> sz - ?al = 0" using al(1) True by auto
      moreover have "starts_only (cs_first ?cs)"
        using "1.prems"(2,3) True sz by (auto simp: cs_first_def starts_only_def split: list.splits)
      ultimately show ?thesis using "1.IH"(1)[OF sz n True refl refl refl al(1,2)] by auto
    next
      case False
      then have eq: "cs_size cs = m" using "1.prems"(1) sz n by (auto simp: chunk_loop.simps[of "Suc n"] split: if_splits)
      let ?cs = "cs\<lparr>cs_chunks := cs_chunks cs @ [cs_cur cs], cs_cur := [], cs_size := 0\<rparr>"
      have "chunk_loop n m info sz offset ?cs = Some (Inr cs')"
        using "1.prems"(1) sz n False eq by (simp add: chunk_loop.simps[of "Suc n"])
      moreover have "starts_only (cs_first ?cs)" using "1.prems"(2) by (simp add: cs_first_def split: list.splits)
      ultimately show ?thesis using "1.IH"(2)[OF sz n False eq] by auto
    qed
  qed
qed

lemma chunkize_first:
  assumes "chunkize fuel m ds = Some (Inr chunks)" and "chunks \<noteq> []"
  shows "starts_only (chunks ! 0)"
proof -
  have "starts_only (cs_first cs')"
    if "chunk_tensors fuel m ds cs = Some (Inr cs')" "starts_only (cs_first cs)" for cs cs'
    using that
  proof (induction ds arbitrary: cs)
    case (Cons d ds)
    then obtain cs1 where c: "chunk_loop fuel m d (tensor_size d) 0 cs = Some (Inr cs1)" "chunk_tensors fuel m ds cs1 = Some (Inr cs')"
      by (auto split: option.splits sum.splits)
    show ?case by (rule Cons.IH[OF c(2) chunk_loop_first[OF c(1) Cons.prems(2)]]) simp
  qed simp
  moreover obtain cs where cs: "chunk_tensors fuel m ds \<lparr>cs_chunks = [], cs_cur = [], cs_size = 0\<rparr> = Some (Inr cs)"
    "chunks = (if cs_cur cs \<noteq> [] then cs_chunks cs @ [cs_cur cs] else cs_chunks cs)"
    using assms(1) by (auto simp: chunkize_def split: option.splits sum.splits)
  ultimately have "starts_only (cs_first cs)" by (auto simp: cs_first_def starts_only_def)
  moreover have "chunks ! 0 = cs_first cs" using cs(2) assms(2) by (cases "cs_chunks cs") (auto simp: cs_first_def split: if_splits)
  ultimately show ?thesis by simp
qed

lemma pieces_storable:
  assumes "list_all2 (\<lambda>d. covers 0 (tensor_size d)) (layout_vars k base is) pss" and "map length vs = map get_byte_size is"
    and "length pre = k" and "d \<in> set (concat (map2 (\<lambda>d. map (part_of d)) (layout_vars k base is) pss))"
  shows "\<exists>bs. store_piece (pre @ vs) d = Inr bs \<and> length bs = sd_partial_size d"
  using assms
proof (induction "is" arbitrary: k base pss vs pre)
  case (Cons i "is")
  obtain ps pss' where pss: "pss = ps # pss'" "covers 0 (get_byte_size i) ps"
    "list_all2 (\<lambda>d. covers 0 (tensor_size d)) (layout_vars (Suc k) (base + get_aligned_byte_size i) is) pss'"
    using Cons.prems(1) by (auto simp: list_all2_Cons1)
  obtain v vs' where vs: "vs = v # vs'" "length v = get_byte_size i" "map length vs' = map get_byte_size is"
    using Cons.prems(2) by auto
  let ?d = "\<lparr>sd_info = i, sd_offset = int base, sd_var_idx = int k, sd_partial = None\<rparr>"
  consider p where "p \<in> set ps" "d = part_of ?d p"
    | "d \<in> set (concat (map2 (\<lambda>d. map (part_of d)) (layout_vars (Suc k) (base + get_aligned_byte_size i) is) pss'))"
    using Cons.prems(4) pss(1) by auto
  then show ?case
  proof cases
    case 1
    have inside: "covers off n qs \<Longrightarrow> q \<in> set qs \<Longrightarrow> pa_start q + pa_length q \<le> n" for off n q qs
      by (induction off n qs rule: covers.induct) auto
    have "pyindex (pre @ v # vs') (int k) = Inr v" using Cons.prems(3) pyindex_middle[of pre v vs'] by simp
    then show ?thesis using inside[OF pss(2) 1(1)] vs(1,2) 1(2) by (simp add: store_piece_def sd_partial_checked_def)
  next
    case 2
    have "length (pre @ [v]) = Suc k" using Cons.prems(3) by simp
    from Cons.IH[OF pss(3) vs(3) this 2] show ?thesis by (simp add: vs(1))
  qed
qed simp

lemma covers_bytes:
  assumes "covers off n ps" and "length v = n" and "base + n \<le> length buf"
    and "\<And>p. p \<in> set ps \<Longrightarrow> slice v (pa_start p) (pa_start p + pa_length p) =
       slice buf (base + pa_start p) (base + pa_start p + pa_length p)"
  shows "slice v off n = slice buf (base + off) (base + n)"
  using assms
proof (induction off n ps rule: covers.induct)
  case (1 off n)
  then show ?case by (simp add: slice_def)
next
  case (2 off n p ps)
  note c = covers_step[OF "2.prems"(1)]
  have here: "slice v off (off + pa_length p) = slice buf (base + off) (base + off + pa_length p)"
    using "2.prems"(4)[of p] c(1) by simp
  have rest: "slice v (off + partial_aligned_size p) n = slice buf (base + (off + partial_aligned_size p)) (base + n)"
    using "2.prems" c(4) by (intro "2.IH") auto
  have "slice v (off + pa_length p) n = slice buf (base + off + pa_length p) (base + n)"
  proof (cases "partial_aligned_size p = pa_length p")
    case True
    then show ?thesis using rest by (simp add: add.assoc)
  next
    case False
    then have "off + pa_length p = n" using c(5) by blast
    moreover from this have "base + off + pa_length p = base + n" by simp
    ultimately show ?thesis by (simp only: slice_empty)
  qed
  then show ?case
    using here c(3) slice_join[of off "off + pa_length p" n v] slice_join[of "base + off" "base + off + pa_length p" "base + n" buf]
    by simp
qed

lemma uploaded_bytes:
  assumes "list_all2 (\<lambda>d. covers 0 (tensor_size d)) (layout_vars k base is) pss" and "map length vs = map get_byte_size is"
    and "length pre = k" and "base + sum_list (map get_aligned_byte_size is) \<le> length buf"
    and "\<And>d. d \<in> set (concat (map2 (\<lambda>d. map (part_of d)) (layout_vars k base is) pss)) \<Longrightarrow>
       store_piece (pre @ vs) d = Inr (piece_bytes buf d)"
  shows "tensor_bytes base buf is = vs"
  using assms
proof (induction "is" arbitrary: k base pss vs pre)
  case (Cons i "is")
  obtain ps pss' where pss: "pss = ps # pss'" "covers 0 (get_byte_size i) ps"
    "list_all2 (\<lambda>d. covers 0 (tensor_size d)) (layout_vars (Suc k) (base + get_aligned_byte_size i) is) pss'"
    using Cons.prems(1) by (auto simp: list_all2_Cons1)
  obtain v vs' where vs: "vs = v # vs'" "length v = get_byte_size i" "map length vs' = map get_byte_size is"
    using Cons.prems(2) by auto
  let ?d = "\<lparr>sd_info = i, sd_offset = int base, sd_var_idx = int k, sd_partial = None\<rparr>"
  have at: "pyindex (pre @ v # vs') (int k) = Inr v" using Cons.prems(3) pyindex_middle[of pre v vs'] by simp
  have "slice v (pa_start p) (pa_start p + pa_length p) = slice buf (base + pa_start p) (base + pa_start p + pa_length p)"
    if "p \<in> set ps" for p
    using Cons.prems(5)[of "part_of ?d p"] that at pss(1) vs(1) piece_bytes_part[of ?d base buf p]
    by (simp add: store_piece_def sd_partial_checked_def)
  then have "slice v 0 (get_byte_size i) = slice buf (base + 0) (base + get_byte_size i)"
    using byte_le_aligned[of i] Cons.prems(4) vs(2) by (intro covers_bytes[OF pss(2)]) auto
  moreover have "tensor_bytes (base + get_aligned_byte_size i) buf is = vs'"
  proof (rule Cons.IH[OF pss(3) vs(3), of "pre @ [v]"])
    show "length (pre @ [v]) = Suc k" using Cons.prems(3) by simp
    show "base + get_aligned_byte_size i + sum_list (map get_aligned_byte_size is) \<le> length buf" using Cons.prems(4) by simp
    show "store_piece ((pre @ [v]) @ vs') d = Inr (piece_bytes buf d)"
      if "d \<in> set (concat (map2 (\<lambda>d. map (part_of d)) (layout_vars (Suc k) (base + get_aligned_byte_size i) is) pss'))" for d
      using Cons.prems(5)[of d] that pss(1) vs(1) by simp
  qed
  ultimately show ?case using vs(1,2) by simp
qed simp

lemma item_upload_ok:
  assumes ch: "item_chunks fuel m is chunks" "chunks \<noteq> []" and vs: "map length vs = map get_byte_size is"
  shows "upload_ok m (sum_list (map get_aligned_byte_size is)) chunks vs"
proof -
  obtain pss where p: "chunks_ok m (sum_list (map get_aligned_byte_size is)) chunks"
    "concat chunks = concat (map2 (\<lambda>d. map (part_of d)) (layout_vars 0 0 is) pss)"
    "list_all2 (\<lambda>d. covers 0 (tensor_size d)) (layout_vars 0 0 is) pss"
    using item_chunks_pieces[OF ch(1)] by blast
  have "starts_only (chunks ! 0)" using ch chunkize_first unfolding item_chunks_def by blast
  then show ?thesis
    using p(1) ch(2) pieces_storable[OF p(3) vs, of "[]"] p(2) unfolding upload_ok_def starts_only_def by simp
qed

lemma loaded_all:
  assumes ok: "upload_ok m T chunks vs" and l: "loaded m chunks vs (length chunks) buf" and d: "d \<in> set (concat chunks)"
  shows "store_piece vs d = Inr (piece_bytes buf d)"
proof -
  obtain c j where c: "c < length chunks" "j < length (chunks ! c)" "d = chunks ! c ! j"
    using d by (auto simp: in_set_conv_nth)
  have "has_piece vs buf (m * c + chunk_total (take j (chunks ! c))) d" using l c by (simp add: loaded_def)
  then show ?thesis using pieces_nth(2)[OF upload_chunk(1)[OF ok c(1)] c(2)] c(3)
    by (simp add: has_piece_def piece_bytes_def Let_def del: of_nat_add)
qed

text \<open>
  C3: \<open>store_tensor_tree\<close> over \<open>receive_stream\<close>: in every interleaving neither side fails, the stream
  cannot get stuck, every step leaves less work, and when the server is done the item's buffer
  holds exactly the client's bytes of every tensor. No chunk is loaded from a buffer that the client
  is still filling.
\<close>

theorem upload_stream_correct:
  assumes "item_chunks fuel m is chunks" "chunks \<noteq> []" "map length vs = map get_byte_size is"
    and "length buffer = sum_list (map get_aligned_byte_size is)" "length b0 = m" "length b1 = m"
    and "recv_reach chunks vs (recv_init b0 b1 buffer) st"
  shows "(\<forall>e. nt_srv st \<noteq> SFail e \<and> nt_cli st \<noteq> CFail e) \<and>
    (nt_srv st = SDone \<longrightarrow> tensor_bytes 0 (nt_got st) is = vs) \<and>
    (nt_srv st = SDone \<and> nt_cli st = CDone \<or> (\<exists>st'. recv_step chunks vs st st')) \<and>
    (\<forall>st'. recv_step chunks vs st st' \<longrightarrow> recv_left chunks st' < recv_left chunks st)"
proof -
  let ?T = "sum_list (map get_aligned_byte_size is)"
  have ok: "upload_ok m ?T chunks vs" by (rule item_upload_ok[OF assms(1-3)])
  have inv: "recv_inv m ?T chunks vs st" by (rule recv_reach_inv[OF ok assms(5,6,4,7)])
  have "tensor_bytes 0 (nt_got st) is = vs" if "nt_srv st = SDone"
  proof -
    obtain pss where p: "concat chunks = concat (map2 (\<lambda>d. map (part_of d)) (layout_vars 0 0 is) pss)"
      "list_all2 (\<lambda>d. covers 0 (tensor_size d)) (layout_vars 0 0 is) pss"
      using item_chunks_pieces[OF assms(1)] by blast
    have "loaded m chunks vs (length chunks) (nt_got st)" "length (nt_got st) = ?T" using inv that by (simp_all add: recv_inv_def)
    then show ?thesis using uploaded_bytes[OF p(2) assms(3), of "[]" "nt_got st"] loaded_all[OF ok] p(1) by simp
  qed
  moreover have "\<forall>e. nt_srv st \<noteq> SFail e \<and> nt_cli st \<noteq> CFail e"
    using inv by (auto simp: recv_inv_def filling_def quiet_def split: server_pc.splits if_splits)
  ultimately show ?thesis using recv_progress[OF ok inv] recv_left_less[OF inv] by blast
qed

theorem upload_stream_correct_witness:
  "\<exists>st'. recv_step two_chunks [replicate 200 7, replicate 128 9]
     (recv_init (replicate 256 0) (replicate 256 0) (replicate 384 0)) st'"
proof -
  let ?st = "recv_init (replicate 256 0) (replicate 256 0) (replicate 384 (0 :: 8 word))"
  have "map length [replicate 200 7, replicate 128 (9 :: 8 word)] = map get_byte_size two_infos"
    "length (replicate 384 (0 :: 8 word)) = sum_list (map get_aligned_byte_size two_infos)"
    by (simp_all add: two_infos_sizes)
  from upload_stream_correct[OF two_chunks_ok this _ _ recv_reach.start, of "replicate 256 0" "replicate 256 0"]
  have "nt_srv ?st = SDone \<and> nt_cli ?st = CDone \<or> (\<exists>st'. recv_step two_chunks [replicate 200 7, replicate 128 9] ?st st')"
    by simp
  then show ?thesis by (simp add: recv_init_def)
qed

end
