(* ===== verification/PyHeap.thy ===== *)
theory PyHeap
  imports Prelude
begin

text \<open>
  Python objects with identity, as the draft updates of \<open>core/datamodel\<close> act on them.

  \<^item> A value is a scalar, a tuple of values, a reference to a mutable object of the heap, or an opaque
    object (a function, a class) without operations of its own. The heap is the list of the mutable
    objects: lists, dicts and dataclass instances; an object's address is its position.
  \<^item> A dict key is a hashable value up to equality: \<open>True\<close> and \<open>1\<close> are the same key, and so is a
    float that equals an integer.
  \<^item> \<open>py_env\<close> holds what is not the language: float arithmetic and comparison of the machine, the
    \<open>printf\<close> formatting, attributes that are not dataclass fields (methods, class attributes), the
    declared fields of a class and the recursion limit that bounds comparisons of nested values.

  Every operation follows the order of the checks of the language and raises what it raises. An
  operation that changes the heap is an action of the prelude; one that only reads it returns a
  result. Dataclasses are taken with the equality generated for them and with no methods that
  overload operators or have the name of a list or dict method.
\<close>

subsection \<open>Values and the heap\<close>

datatype val =
    DNone
  | DBool bool
  | DInt int
  | DFloat "64 word"
  | DStr string
  | DTuple "val list"
  | DRef nat
  | DOther nat

datatype dkey = KNone | KInt int | KFloat "64 word" | KStr string | KTuple "dkey list" | KOther nat

datatype obj =
    OList "val list"
  | ODict "(dkey \<times> val) list"
  | OData string "(string \<times> val) list"

type_synonym heap = "obj list"

datatype num = NInt int | NFloat "64 word"

datatype arith = Add | Sub | Mul | Div | FloorDiv

datatype cmp = Lt | Le | Gt | Ge

record py_env =
  pe_attr :: "heap \<Rightarrow> val \<Rightarrow> string \<Rightarrow> val option"
  pe_fields :: "string \<Rightarrow> string list"
  pe_arith :: "arith \<Rightarrow> num \<Rightarrow> num \<Rightarrow> 64 word res"
  pe_num_eq :: "num \<Rightarrow> num \<Rightarrow> bool"
  pe_num_cmp :: "cmp \<Rightarrow> num \<Rightarrow> num \<Rightarrow> bool"
  pe_float_true :: "64 word \<Rightarrow> bool"
  pe_float_int :: "64 word \<Rightarrow> int option"
  pe_format :: "heap \<Rightarrow> string \<Rightarrow> val list \<Rightarrow> string res"
  pe_limit :: nat

definition hget :: "heap \<Rightarrow> nat \<Rightarrow> obj option" where
  "hget h a = (if a < length h then Some (h ! a) else None)"

definition alloc :: "obj \<Rightarrow> (heap, val) act" where
  "alloc ob h = (Inr (DRef (length h)), h @ [ob])"

definition store_obj :: "nat \<Rightarrow> obj \<Rightarrow> (heap, unit) act" where
  "store_obj a ob h = (Inr (), h[a := ob])"

definition aread :: "(heap \<Rightarrow> 'a res) \<Rightarrow> (heap, 'a) act" where
  "aread f h = (f h, h)"

fun aseq :: "('s, 'a) act list \<Rightarrow> ('s, 'a list) act" where
  "aseq [] = aret []"
| "aseq (m # ms) = abind m (\<lambda>x. abind (aseq ms) (\<lambda>xs. aret (x # xs)))"

fun as_list :: "heap \<Rightarrow> val \<Rightarrow> val list option" where
  "as_list h (DRef a) = (case hget h a of Some (OList xs) \<Rightarrow> Some xs | _ \<Rightarrow> None)"
| "as_list h _ = None"

fun as_dict :: "heap \<Rightarrow> val \<Rightarrow> (dkey \<times> val) list option" where
  "as_dict h (DRef a) = (case hget h a of Some (ODict m) \<Rightarrow> Some m | _ \<Rightarrow> None)"
| "as_dict h _ = None"

fun as_data :: "heap \<Rightarrow> val \<Rightarrow> (string \<times> (string \<times> val) list) option" where
  "as_data h (DRef a) = (case hget h a of Some (OData c fs) \<Rightarrow> Some (c, fs) | _ \<Rightarrow> None)"
| "as_data h _ = None"

fun as_int :: "val \<Rightarrow> int option" where
  "as_int (DInt i) = Some i"
| "as_int (DBool b) = Some (of_bool b)"
| "as_int _ = None"

fun as_num :: "val \<Rightarrow> num option" where
  "as_num (DFloat w) = Some (NFloat w)"
| "as_num v = (case as_int v of Some i \<Rightarrow> Some (NInt i) | None \<Rightarrow> None)"

text \<open>\<open>isinstance(x, (Sequence, Mapping))\<close> and \<open>dataclasses.is_dataclass\<close>.\<close>

definition is_seq_or_map :: "heap \<Rightarrow> val \<Rightarrow> bool" where
  "is_seq_or_map h v = (case v of DStr _ \<Rightarrow> True | DTuple _ \<Rightarrow> True
     | _ \<Rightarrow> as_list h v \<noteq> None \<or> as_dict h v \<noteq> None)"

definition is_dataclass :: "heap \<Rightarrow> val \<Rightarrow> bool" where
  "is_dataclass h v \<longleftrightarrow> as_data h v \<noteq> None"

subsection \<open>Truth, keys, attributes and items\<close>

definition truth :: "py_env \<Rightarrow> heap \<Rightarrow> val \<Rightarrow> bool" where
  "truth E h v = (case v of DNone \<Rightarrow> False | DBool b \<Rightarrow> b | DInt i \<Rightarrow> i \<noteq> 0 | DFloat w \<Rightarrow> pe_float_true E w
     | DStr s \<Rightarrow> s \<noteq> [] | DTuple xs \<Rightarrow> xs \<noteq> [] | DOther _ \<Rightarrow> True
     | DRef a \<Rightarrow> (case hget h a of Some (OList xs) \<Rightarrow> xs \<noteq> [] | Some (ODict m) \<Rightarrow> m \<noteq> [] | _ \<Rightarrow> True))"

fun to_key :: "py_env \<Rightarrow> val \<Rightarrow> dkey res" where
  "to_key E DNone = Inr KNone"
| "to_key E (DBool b) = Inr (KInt (of_bool b))"
| "to_key E (DInt i) = Inr (KInt i)"
| "to_key E (DFloat w) = Inr (case pe_float_int E w of Some i \<Rightarrow> KInt i | None \<Rightarrow> KFloat w)"
| "to_key E (DStr s) = Inr (KStr s)"
| "to_key E (DTuple xs) = rbind (rmap_list (to_key E) xs) (\<lambda>ks. Inr (KTuple ks))"
| "to_key E (DRef a) = Inl TypeError"
| "to_key E (DOther i) = Inr (KOther i)"

fun of_key :: "dkey \<Rightarrow> val" where
  "of_key KNone = DNone"
| "of_key (KInt i) = DInt i"
| "of_key (KFloat w) = DFloat w"
| "of_key (KStr s) = DStr s"
| "of_key (KTuple ks) = DTuple (map of_key ks)"
| "of_key (KOther i) = DOther i"

definition py_getattr :: "py_env \<Rightarrow> val \<Rightarrow> val \<Rightarrow> heap \<Rightarrow> val res" where
  "py_getattr E x name h = (case name of
     DStr s \<Rightarrow> (case (case as_data h x of Some (c, fs) \<Rightarrow> dget fs s | None \<Rightarrow> None) of
         Some v \<Rightarrow> Inr v
       | None \<Rightarrow> of_opt AttributeError (pe_attr E h x s))
   | _ \<Rightarrow> Inl TypeError)"

definition py_setattr :: "val \<Rightarrow> val \<Rightarrow> val \<Rightarrow> (heap, unit) act" where
  "py_setattr x name v h = (case name of
     DStr s \<Rightarrow> (case x of
         DRef a \<Rightarrow> (case hget h a of Some (OData c fs) \<Rightarrow> store_obj a (OData c (dset s v fs)) h | _ \<Rightarrow> araise AttributeError h)
       | _ \<Rightarrow> araise AttributeError h)
   | _ \<Rightarrow> araise TypeError h)"

definition index_of :: "nat \<Rightarrow> val \<Rightarrow> nat res" where
  "index_of n k = (case as_int k of
     None \<Rightarrow> Inl TypeError
   | Some i \<Rightarrow> let j = (if i < 0 then i + int n else i) in
       if 0 \<le> j \<and> j < int n then Inr (nat j) else Inl IndexError)"

definition py_getitem :: "py_env \<Rightarrow> val \<Rightarrow> val \<Rightarrow> heap \<Rightarrow> val res" where
  "py_getitem E x k h = (case x of
     DStr s \<Rightarrow> rbind (index_of (length s) k) (\<lambda>i. Inr (DStr [s ! i]))
   | DTuple xs \<Rightarrow> rbind (index_of (length xs) k) (\<lambda>i. Inr (xs ! i))
   | DRef a \<Rightarrow> (case hget h a of
         Some (OList xs) \<Rightarrow> rbind (index_of (length xs) k) (\<lambda>i. Inr (xs ! i))
       | Some (ODict m) \<Rightarrow> rbind (to_key E k) (\<lambda>key. of_opt KeyError (dget m key))
       | _ \<Rightarrow> Inl TypeError)
   | _ \<Rightarrow> Inl TypeError)"

definition py_setitem :: "py_env \<Rightarrow> val \<Rightarrow> val \<Rightarrow> val \<Rightarrow> (heap, unit) act" where
  "py_setitem E x k v h = (case x of
     DRef a \<Rightarrow> (case hget h a of
         Some (OList xs) \<Rightarrow> (case index_of (length xs) k of Inl e \<Rightarrow> (Inl e, h) | Inr i \<Rightarrow> store_obj a (OList (xs[i := v])) h)
       | Some (ODict m) \<Rightarrow> (case to_key E k of Inl e \<Rightarrow> (Inl e, h) | Inr key \<Rightarrow> store_obj a (ODict (dset key v m)) h)
       | _ \<Rightarrow> araise TypeError h)
   | _ \<Rightarrow> araise TypeError h)"

definition py_len :: "val \<Rightarrow> heap \<Rightarrow> val res" where
  "py_len x h = (case x of
     DStr s \<Rightarrow> Inr (DInt (int (length s))) | DTuple xs \<Rightarrow> Inr (DInt (int (length xs)))
   | DRef a \<Rightarrow> (case hget h a of
         Some (OList xs) \<Rightarrow> Inr (DInt (int (length xs))) | Some (ODict m) \<Rightarrow> Inr (DInt (int (length m)))
       | _ \<Rightarrow> Inl TypeError)
   | _ \<Rightarrow> Inl TypeError)"

text \<open>The values a \<open>for\<close> loop over \<open>x\<close> goes through.\<close>

definition py_iter :: "val \<Rightarrow> heap \<Rightarrow> val list res" where
  "py_iter x h = (case x of
     DStr s \<Rightarrow> Inr (map (\<lambda>c. DStr [c]) s) | DTuple xs \<Rightarrow> Inr xs
   | DRef a \<Rightarrow> (case hget h a of
         Some (OList xs) \<Rightarrow> Inr xs | Some (ODict m) \<Rightarrow> Inr (map (\<lambda>p. of_key (fst p)) m) | _ \<Rightarrow> Inl TypeError)
   | _ \<Rightarrow> Inl TypeError)"

subsection \<open>Comparison\<close>

fun num_eq :: "py_env \<Rightarrow> num \<Rightarrow> num \<Rightarrow> bool" where
  "num_eq E (NInt i) (NInt j) = (i = j)"
| "num_eq E x y = pe_num_eq E x y"

fun int_cmp :: "cmp \<Rightarrow> int \<Rightarrow> int \<Rightarrow> bool" where
  "int_cmp Lt i j = (i < j)" | "int_cmp Le i j = (i \<le> j)"
| "int_cmp Gt i j = (i > j)" | "int_cmp Ge i j = (i \<ge> j)"

fun num_cmp :: "py_env \<Rightarrow> cmp \<Rightarrow> num \<Rightarrow> num \<Rightarrow> bool" where
  "num_cmp E c (NInt i) (NInt j) = int_cmp c i j"
| "num_cmp E c x y = pe_num_cmp E c x y"

text \<open>Strings compare by code points.\<close>

fun str_cmp :: "cmp \<Rightarrow> string \<Rightarrow> string \<Rightarrow> bool" where
  "str_cmp c (x # xs) (y # ys) = (if x = y then str_cmp c xs ys else int_cmp c (of_char x) (of_char y))"
| "str_cmp c xs ys = int_cmp c (int (length xs)) (int (length ys))"

fun same_ref :: "val \<Rightarrow> val \<Rightarrow> bool" where
  "same_ref (DRef a) (DRef b) = (a = b)"
| "same_ref _ _ = False"

text \<open>Containers compare their elements by identity first, then by equality.\<close>

fun eq_list :: "(val \<Rightarrow> val \<Rightarrow> bool res) \<Rightarrow> val list \<Rightarrow> val list \<Rightarrow> bool res" where
  "eq_list r [] [] = Inr True"
| "eq_list r (x # xs) (y # ys) =
     (if same_ref x y then eq_list r xs ys
      else rbind (r x y) (\<lambda>b. if b then eq_list r xs ys else Inr False))"
| "eq_list r _ _ = Inr False"

fun eq_dict :: "(val \<Rightarrow> val \<Rightarrow> bool res) \<Rightarrow> (dkey \<times> val) list \<Rightarrow> (dkey \<times> val) list \<Rightarrow> bool res" where
  "eq_dict r [] n = Inr True"
| "eq_dict r ((k, v) # m) n = (case dget n k of
     None \<Rightarrow> Inr False
   | Some w \<Rightarrow> if same_ref v w then eq_dict r m n
       else rbind (r v w) (\<lambda>b. if b then eq_dict r m n else Inr False))"

definition field_vals :: "py_env \<Rightarrow> string \<Rightarrow> (string \<times> val) list \<Rightarrow> val list res" where
  "field_vals E c fs = rmap_list (\<lambda>n. of_opt AttributeError (dget fs n)) (pe_fields E c)"

definition eq_obj :: "py_env \<Rightarrow> (val \<Rightarrow> val \<Rightarrow> bool res) \<Rightarrow> obj \<Rightarrow> obj \<Rightarrow> bool res" where
  "eq_obj E r x y = (case (x, y) of
     (OList xs, OList ys) \<Rightarrow> if length xs = length ys then eq_list r xs ys else Inr False
   | (ODict m, ODict n) \<Rightarrow> if length m = length n then eq_dict r m n else Inr False
   | (OData c fs, OData d gs) \<Rightarrow> if c = d then rbind (field_vals E c fs) (\<lambda>xs. rbind (field_vals E d gs) (\<lambda>ys. eq_list r xs ys))
       else Inr False
   | _ \<Rightarrow> Inr False)"

definition eq_step :: "py_env \<Rightarrow> heap \<Rightarrow> (val \<Rightarrow> val \<Rightarrow> bool res) \<Rightarrow> val \<Rightarrow> val \<Rightarrow> bool res" where
  "eq_step E h r x y = (case (as_num x, as_num y) of
     (Some i, Some j) \<Rightarrow> Inr (num_eq E i j)
   | _ \<Rightarrow> (case (x, y) of
       (DTuple xs, DTuple ys) \<Rightarrow> eq_list r xs ys
     | (DRef a, DRef b) \<Rightarrow> (case (hget h a, hget h b) of
           (Some p, Some q) \<Rightarrow> eq_obj E r p q
         | _ \<Rightarrow> Inr (a = b))
     | _ \<Rightarrow> Inr (x = y)))"

primrec eq_fuel :: "py_env \<Rightarrow> heap \<Rightarrow> nat \<Rightarrow> val \<Rightarrow> val \<Rightarrow> bool res" where
  "eq_fuel E h 0 = (\<lambda>x y. Inl RecursionError)"
| "eq_fuel E h (Suc n) = eq_step E h (eq_fuel E h n)"

definition py_eq :: "py_env \<Rightarrow> val \<Rightarrow> val \<Rightarrow> heap \<Rightarrow> bool res" where
  "py_eq E x y h = eq_fuel E h (pe_limit E) x y"

fun cmp_list :: "(val \<Rightarrow> val \<Rightarrow> bool res) \<Rightarrow> (val \<Rightarrow> val \<Rightarrow> bool res) \<Rightarrow> cmp \<Rightarrow> val list \<Rightarrow> val list \<Rightarrow> bool res" where
  "cmp_list eqr r c (x # xs) (y # ys) =
     (if same_ref x y then cmp_list eqr r c xs ys
      else rbind (eqr x y) (\<lambda>b. if b then cmp_list eqr r c xs ys else r x y))"
| "cmp_list eqr r c xs ys = Inr (int_cmp c (int (length xs)) (int (length ys)))"

primrec cmp_fuel :: "py_env \<Rightarrow> heap \<Rightarrow> cmp \<Rightarrow> nat \<Rightarrow> val \<Rightarrow> val \<Rightarrow> bool res" where
  "cmp_fuel E h c 0 = (\<lambda>x y. Inl RecursionError)"
| "cmp_fuel E h c (Suc n) = (\<lambda>x y. case (as_num x, as_num y) of
     (Some i, Some j) \<Rightarrow> Inr (num_cmp E c i j)
   | _ \<Rightarrow> (case (x, y) of
       (DStr s, DStr t) \<Rightarrow> Inr (str_cmp c s t)
     | (DTuple xs, DTuple ys) \<Rightarrow> cmp_list (eq_fuel E h n) (cmp_fuel E h c n) c xs ys
     | _ \<Rightarrow> (case (as_list h x, as_list h y) of
           (Some xs, Some ys) \<Rightarrow> cmp_list (eq_fuel E h n) (cmp_fuel E h c n) c xs ys
         | _ \<Rightarrow> Inl TypeError)))"

definition py_cmp :: "py_env \<Rightarrow> cmp \<Rightarrow> val \<Rightarrow> val \<Rightarrow> heap \<Rightarrow> bool res" where
  "py_cmp E c x y h = cmp_fuel E h c (pe_limit E) x y"

subsection \<open>Arithmetic\<close>

definition num_arith :: "py_env \<Rightarrow> arith \<Rightarrow> num \<Rightarrow> num \<Rightarrow> val res" where
  "num_arith E f x y = (case (x, y) of
     (NInt i, NInt j) \<Rightarrow> (case f of
         Add \<Rightarrow> Inr (DInt (i + j)) | Sub \<Rightarrow> Inr (DInt (i - j)) | Mul \<Rightarrow> Inr (DInt (i * j))
       | FloorDiv \<Rightarrow> if j = 0 then Inl ZeroDivisionError else Inr (DInt (i div j))
       | Div \<Rightarrow> if j = 0 then Inl ZeroDivisionError else rbind (pe_arith E Div x y) (\<lambda>w. Inr (DFloat w)))
   | _ \<Rightarrow> rbind (pe_arith E f x y) (\<lambda>w. Inr (DFloat w)))"

definition times :: "int \<Rightarrow> 'a list \<Rightarrow> 'a list" where
  "times n xs = concat (replicate (nat n) xs)"

text \<open>\<open>x + y\<close>, \<open>x - y\<close>, \<open>x * y\<close>, \<open>x / y\<close>, \<open>x // y\<close>: the sequence cases make new objects.\<close>

definition seq_add :: "val \<Rightarrow> val \<Rightarrow> (heap, val) act" where
  "seq_add x y h = (case (x, y) of
     (DStr s, DStr t) \<Rightarrow> aret (DStr (s @ t)) h
   | (DTuple xs, DTuple ys) \<Rightarrow> aret (DTuple (xs @ ys)) h
   | _ \<Rightarrow> (case (as_list h x, as_list h y) of
         (Some xs, Some ys) \<Rightarrow> alloc (OList (xs @ ys)) h
       | _ \<Rightarrow> araise TypeError h))"

definition seq_times :: "val \<Rightarrow> int \<Rightarrow> (heap, val) act" where
  "seq_times x n h = (case x of
     DStr s \<Rightarrow> aret (DStr (times n s)) h
   | DTuple xs \<Rightarrow> aret (DTuple (times n xs)) h
   | _ \<Rightarrow> (case as_list h x of Some xs \<Rightarrow> alloc (OList (times n xs)) h | None \<Rightarrow> araise TypeError h))"

definition py_arith :: "py_env \<Rightarrow> arith \<Rightarrow> val \<Rightarrow> val \<Rightarrow> (heap, val) act" where
  "py_arith E f x y = (case (as_num x, as_num y) of
     (Some i, Some j) \<Rightarrow> aread (\<lambda>h. num_arith E f i j)
   | _ \<Rightarrow> (case f of
       Add \<Rightarrow> seq_add x y
     | Mul \<Rightarrow> (case (as_int x, as_int y) of (_, Some n) \<Rightarrow> seq_times x n | (Some n, _) \<Rightarrow> seq_times y n | _ \<Rightarrow> araise TypeError)
     | _ \<Rightarrow> araise TypeError))"

text \<open>
  \<open>x += y\<close> and so on give the value to store back; on a list, \<open>+=\<close> and \<open>*=\<close> change the list itself
  (\<open>+=\<close> takes anything that can be iterated).
\<close>

definition py_iarith :: "py_env \<Rightarrow> arith \<Rightarrow> val \<Rightarrow> val \<Rightarrow> (heap, val) act" where
  "py_iarith E f x y h = (case (x, as_list h x, f) of
     (DRef a, Some xs, Add) \<Rightarrow> abind (aread (py_iter y)) (\<lambda>ys. abind (store_obj a (OList (xs @ ys))) (\<lambda>_. aret x)) h
   | (DRef a, Some xs, Mul) \<Rightarrow> (case as_int y of
         Some n \<Rightarrow> abind (store_obj a (OList (times n xs))) (\<lambda>_. aret x) h
       | None \<Rightarrow> araise TypeError h)
   | _ \<Rightarrow> py_arith E f x y h)"

subsection \<open>Methods of lists and dicts\<close>

text \<open>Calling a method the value does not have: a dataclass field of that name is not callable.\<close>

definition no_method :: "val \<Rightarrow> string \<Rightarrow> (heap, 'a) act" where
  "no_method x name h = (case as_data h x of
     Some (c, fs) \<Rightarrow> araise (if dmem name fs then TypeError else AttributeError) h
   | None \<Rightarrow> araise AttributeError h)"

definition list_drop :: "nat \<Rightarrow> 'a list \<Rightarrow> 'a list" where
  "list_drop i xs = take i xs @ drop (Suc i) xs"

text \<open>\<open>x.pop(k)\<close> and \<open>x.pop()\<close>: the popped value is not used by the callers.\<close>

definition py_pop :: "py_env \<Rightarrow> val \<Rightarrow> val \<Rightarrow> (heap, unit) act" where
  "py_pop E x k h = (case x of
     DRef a \<Rightarrow> (case hget h a of
         Some (OList xs) \<Rightarrow> (case as_int k of None \<Rightarrow> araise TypeError h
           | Some _ \<Rightarrow> (case index_of (length xs) k of Inl e \<Rightarrow> araise e h | Inr i \<Rightarrow> store_obj a (OList (list_drop i xs)) h))
       | Some (ODict m) \<Rightarrow> (case to_key E k of Inl e \<Rightarrow> araise e h
           | Inr key \<Rightarrow> if dmem key m then store_obj a (ODict (ddel key m)) h else araise KeyError h)
       | _ \<Rightarrow> no_method x ''pop'' h)
   | _ \<Rightarrow> no_method x ''pop'' h)"

definition py_pop_last :: "val \<Rightarrow> (heap, unit) act" where
  "py_pop_last x h = (case x of
     DRef a \<Rightarrow> (case hget h a of
         Some (OList xs) \<Rightarrow> if xs = [] then araise IndexError h else store_obj a (OList (butlast xs)) h
       | Some (ODict m) \<Rightarrow> araise TypeError h
       | _ \<Rightarrow> no_method x ''pop'' h)
   | _ \<Rightarrow> no_method x ''pop'' h)"

definition on_list :: "string \<Rightarrow> val \<Rightarrow> (nat \<Rightarrow> val list \<Rightarrow> (heap, unit) act) \<Rightarrow> (heap, unit) act" where
  "on_list name x f h = (case x of
     DRef a \<Rightarrow> (case hget h a of Some (OList xs) \<Rightarrow> f a xs h | _ \<Rightarrow> no_method x name h)
   | _ \<Rightarrow> no_method x name h)"

definition py_extend :: "val \<Rightarrow> val \<Rightarrow> (heap, unit) act" where
  "py_extend x items = on_list ''extend'' x (\<lambda>a xs. abind (aread (py_iter items)) (\<lambda>ys. store_obj a (OList (xs @ ys))))"

definition py_insert :: "val \<Rightarrow> val \<Rightarrow> val \<Rightarrow> (heap, unit) act" where
  "py_insert x idx v = on_list ''insert'' x (\<lambda>a xs. case as_int idx of
     None \<Rightarrow> araise TypeError
   | Some i \<Rightarrow> let n = int (length xs); j = nat (if i < 0 then max 0 (i + n) else min i n) in
       store_obj a (OList (take j xs @ v # drop j xs)))"

fun find_eq :: "py_env \<Rightarrow> heap \<Rightarrow> val \<Rightarrow> nat \<Rightarrow> val list \<Rightarrow> nat option res" where
  "find_eq E h v i [] = Inr None"
| "find_eq E h v i (x # xs) =
     (if same_ref x v then Inr (Some i)
      else rbind (py_eq E x v h) (\<lambda>b. if b then Inr (Some i) else find_eq E h v (Suc i) xs))"

definition py_remove :: "py_env \<Rightarrow> val \<Rightarrow> val \<Rightarrow> (heap, unit) act" where
  "py_remove E x v = on_list ''remove'' x (\<lambda>a xs. abind (aread (\<lambda>h. find_eq E h v 0 xs)) (\<lambda>r.
     case r of None \<Rightarrow> araise ValueError | Some i \<Rightarrow> store_obj a (OList (list_drop i xs))))"

definition py_clear :: "val \<Rightarrow> (heap, unit) act" where
  "py_clear x h = (case x of
     DRef a \<Rightarrow> (case hget h a of
         Some (OList xs) \<Rightarrow> store_obj a (OList []) h
       | Some (ODict m) \<Rightarrow> store_obj a (ODict []) h
       | _ \<Rightarrow> no_method x ''clear'' h)
   | _ \<Rightarrow> no_method x ''clear'' h)"

definition py_mod :: "py_env \<Rightarrow> val \<Rightarrow> val list \<Rightarrow> heap \<Rightarrow> val res" where
  "py_mod E fmt args h = (case fmt of
     DStr s \<Rightarrow> rbind (pe_format E h s args) (\<lambda>r. Inr (DStr r))
   | _ \<Rightarrow> Inl TypeError)"

end
