(* ===== verification/DraftAst.thy ===== *)
theory DraftAst
  imports PyHeap
begin

text \<open>
  Draft expressions (\<open>core/datamodel/draftast.py\<close>): the tree of a path from the root of a document
  to one of its values, and its three evaluators.

  A node's children are evaluated by the node's own rule, in the rule's order and only as far as it
  goes, so each evaluator gives a rule the actions of the children: \<open>kid ks i\<close> runs the \<open>i\<close>-th, or
  raises \<open>IndexError\<close> when it is missing. \<open>eval_ast\<close> is \<open>evaluate_draft_ast\<close>, \<open>eval_trace\<close> the variant
  that records the objects on the way, \<open>eval_json\<close> the variant for documents of dicts and lists.
\<close>

subsection \<open>Nodes\<close>

datatype ast_type =
    GET_ATTR | ARRAY_GET_ITEM | DICT_GET_ITEM | FUNC_CALL | NAME | JSON_LITERAL | STRING_LITERAL
  | BINARY_OP | UNARY_OP

datatype draft_node =
  DraftASTNode (nd_type: ast_type) (nd_children: "draft_node list") (nd_value: val) (nd_userdata: val)
    (nd_field_id: "int option")

definition ROOT_NODE :: draft_node where
  "ROOT_NODE = DraftASTNode NAME [] (DStr []) DNone None"

fun iter_child_nodes :: "draft_node \<Rightarrow> draft_node list" where
  "iter_child_nodes (DraftASTNode t cs v u f) = concat (map (\<lambda>c. c # iter_child_nodes c) cs)"

fun walk :: "draft_node \<Rightarrow> draft_node list" where
  "walk (DraftASTNode t cs v u f) = DraftASTNode t cs v u f # concat (map walk cs)"

fun get_child_nodes_in_main_path :: "draft_node \<Rightarrow> draft_node list" where
  "get_child_nodes_in_main_path (DraftASTNode t cs v u f) =
     DraftASTNode t cs v u f # (case cs of [] \<Rightarrow> [] | c # _ \<Rightarrow> get_child_nodes_in_main_path c)"

fun to_userdata_removed :: "draft_node \<Rightarrow> draft_node" where
  "to_userdata_removed (DraftASTNode t cs v u f) = DraftASTNode t (map to_userdata_removed cs) v DNone None"

fun clone_tree_only :: "draft_node \<Rightarrow> draft_node" where
  "clone_tree_only (DraftASTNode t cs v u f) = DraftASTNode t (map clone_tree_only cs) v u f"

subsection \<open>Rules shared by the evaluators\<close>

definition kid :: "(heap, 'a) act list \<Rightarrow> nat \<Rightarrow> (heap, 'a) act" where
  "kid ks i = (if i < length ks then ks ! i else araise IndexError)"

definition bool_act :: "(heap \<Rightarrow> bool res) \<Rightarrow> (heap, val) act" where
  "bool_act f = aread (\<lambda>h. rbind (f h) (\<lambda>b. Inr (DBool b)))"

definition py_and :: "py_env \<Rightarrow> val \<Rightarrow> val \<Rightarrow> heap \<Rightarrow> val" where
  "py_and E x y h = (if truth E h x then y else x)"

definition py_or :: "py_env \<Rightarrow> val \<Rightarrow> val \<Rightarrow> heap \<Rightarrow> val" where
  "py_or E x y h = (if truth E h x then x else y)"

definition binary_op :: "py_env \<Rightarrow> val \<Rightarrow> val \<Rightarrow> val \<Rightarrow> (heap, val) act" where
  "binary_op E op x y =
     (if op = DStr ''=='' then bool_act (py_eq E x y)
      else if op = DStr ''!='' then bool_act (\<lambda>h. rbind (py_eq E x y h) (\<lambda>b. Inr (\<not> b)))
      else if op = DStr ''>'' then bool_act (py_cmp E Gt x y)
      else if op = DStr ''<'' then bool_act (py_cmp E Lt x y)
      else if op = DStr ''>='' then bool_act (py_cmp E Ge x y)
      else if op = DStr ''<='' then bool_act (py_cmp E Le x y)
      else if op = DStr ''&&'' then aread (\<lambda>h. Inr (py_and E x y h))
      else if op = DStr ''||'' then aread (\<lambda>h. Inr (py_or E x y h))
      else if op = DStr ''+'' then py_arith E Add x y
      else if op = DStr ''-'' then py_arith E Sub x y
      else if op = DStr ''*'' then py_arith E Mul x y
      else if op = DStr ''/'' then py_arith E Div x y
      else if op = DStr ''//'' then py_arith E FloorDiv x y
      else araise NotImplementedError)"

definition unary_op :: "py_env \<Rightarrow> val \<Rightarrow> val \<Rightarrow> (heap, val) act" where
  "unary_op E op x =
     (if op = DStr ''!'' then aread (\<lambda>h. Inr (DBool (\<not> truth E h x))) else araise NotImplementedError)"

text \<open>The loop of \<open>getItemPath\<close>, with the values it goes through.\<close>

fun walk_path :: "py_env \<Rightarrow> heap \<Rightarrow> val \<Rightarrow> val list \<Rightarrow> (val \<times> val list) res" where
  "walk_path E h cur [] = Inr (cur, [])"
| "walk_path E h cur (p # ps) =
     rbind (if is_seq_or_map h cur then py_getitem E cur p h
            else if is_dataclass h cur then py_getattr E cur p h
            else Inl AssertionError)
       (\<lambda>x. rbind (walk_path E h x ps) (\<lambda>(r, trace). Inr (r, x # trace)))"

definition get_item_path :: "py_env \<Rightarrow> val \<Rightarrow> val \<Rightarrow> heap \<Rightarrow> (val \<times> val list) res" where
  "get_item_path E target path h =
     (case as_list h path of None \<Rightarrow> Inl AssertionError | Some ps \<Rightarrow> walk_path E h target ps)"

fun first_not_null :: "(heap, val) act list \<Rightarrow> (heap, val) act" where
  "first_not_null [] = aret DNone"
| "first_not_null (m # ms) = abind m (\<lambda>r. if r \<noteq> DNone then aret r else first_not_null ms)"

definition where_op :: "py_env \<Rightarrow> val \<Rightarrow> val \<Rightarrow> val \<Rightarrow> heap \<Rightarrow> val" where
  "where_op E c x y h = (if truth E h c then x else y)"

fun sum_from :: "py_env \<Rightarrow> val \<Rightarrow> val list \<Rightarrow> (heap, val) act" where
  "sum_from E acc [] = aret acc"
| "sum_from E acc (x # xs) = abind (py_arith E Add acc x) (\<lambda>r. sum_from E r xs)"

text \<open>\<open>sum(xs, [])\<close>\<close>

definition py_sum_lists :: "py_env \<Rightarrow> val list \<Rightarrow> (heap, val) act" where
  "py_sum_lists E xs = abind (alloc (OList [])) (\<lambda>e. sum_from E e xs)"

subsection \<open>\<open>evaluate_draft_ast\<close>\<close>

definition call_func :: "py_env \<Rightarrow> val \<Rightarrow> (heap, val) act list \<Rightarrow> (heap, val) act" where
  "call_func E f ks =
     (if f = DStr ''getItem'' then
        abind (kid ks 1) (\<lambda>k. abind (kid ks 0) (\<lambda>x. aread (py_getitem E x k)))
      else if f = DStr ''getattr'' then
        abind (kid ks 0) (\<lambda>x. abind (kid ks 1) (\<lambda>k. aread (py_getattr E x k)))
      else if f = DStr ''cformat'' then
        abind (kid ks 0) (\<lambda>fmt. abind (aseq (drop 1 ks)) (\<lambda>args. aread (py_mod E fmt args)))
      else if f = DStr ''getItemPath'' then
        abind (kid ks 0) (\<lambda>x. abind (kid ks 1) (\<lambda>p.
          aread (\<lambda>h. rbind (get_item_path E x p h) (\<lambda>r. Inr (fst r)))))
      else if f = DStr ''not_null'' then first_not_null ks
      else if f = DStr ''where'' then
        abind (kid ks 0) (\<lambda>c. abind (kid ks 1) (\<lambda>x. abind (kid ks 2) (\<lambda>y.
          aread (\<lambda>h. Inr (where_op E c x y h)))))
      else if f = DStr ''array'' then abind (aseq ks) (\<lambda>xs. alloc (OList xs))
      else if f = DStr ''concat'' then abind (aseq ks) (py_sum_lists E)
      else if f = DStr ''len'' then abind (kid ks 0) (\<lambda>x. aread (py_len x))
      else araise NotImplementedError)"

definition eval_node :: "py_env \<Rightarrow> val \<Rightarrow> ast_type \<Rightarrow> val \<Rightarrow> (heap, val) act list \<Rightarrow> (heap, val) act" where
  "eval_node E obj t v ks = (case t of
     NAME \<Rightarrow> if v = DStr [] \<or> v = DStr ''$'' \<or> v = DStr ''getRoot()'' then aret obj
       else aread (py_getattr E obj v)
   | JSON_LITERAL \<Rightarrow> aret v
   | STRING_LITERAL \<Rightarrow> aret v
   | GET_ATTR \<Rightarrow> abind (kid ks 0) (\<lambda>x. aread (py_getattr E x v))
   | ARRAY_GET_ITEM \<Rightarrow> abind (kid ks 0) (\<lambda>x. aread (py_getitem E x v))
   | DICT_GET_ITEM \<Rightarrow> abind (kid ks 0) (\<lambda>x. aread (py_getitem E x v))
   | BINARY_OP \<Rightarrow> abind (kid ks 0) (\<lambda>x. abind (kid ks 1) (\<lambda>y. binary_op E v x y))
   | UNARY_OP \<Rightarrow> abind (kid ks 0) (\<lambda>x. unary_op E v x)
   | FUNC_CALL \<Rightarrow> call_func E v ks)"

primrec eval_ast :: "py_env \<Rightarrow> val \<Rightarrow> draft_node \<Rightarrow> (heap, val) act" where
  "eval_ast E obj (DraftASTNode t cs v u f) = eval_node E obj t v (map (eval_ast E obj) cs)"

definition eval_noexcept :: "py_env \<Rightarrow> val \<Rightarrow> draft_node \<Rightarrow> (heap, val) act" where
  "eval_noexcept E obj node h = (case eval_ast E obj node h of
     (Inl e, h') \<Rightarrow> if e = NotImplementedError \<or> \<not> is_exception e then (Inl e, h') else (Inr DNone, h')
   | (Inr v, h') \<Rightarrow> (Inr v, h'))"

subsection \<open>\<open>evaluate_draft_ast_with_obj_id_trace\<close>\<close>

text \<open>
  The trace holds the objects whose ids the code records, in its order. Here \<open>ks\<close> are the children
  under \<open>evaluate_draft_ast\<close> and \<open>ts\<close> the children under the tracing evaluator.
\<close>

definition untraced :: "(heap, val) act \<Rightarrow> (heap, val \<times> val list) act" where
  "untraced m = abind m (\<lambda>x. aret (x, []))"

definition step_traced :: "(val \<Rightarrow> heap \<Rightarrow> val res) \<Rightarrow> val \<times> val list \<Rightarrow> (heap, val \<times> val list) act" where
  "step_traced f xt = abind (aread (f (fst xt))) (\<lambda>r. aret (r, snd xt @ [r]))"

fun first_not_null_traced :: "(heap, val \<times> val list) act list \<Rightarrow> (heap, val \<times> val list) act" where
  "first_not_null_traced [] = aret (DNone, [])"
| "first_not_null_traced (m # ms) =
     abind m (\<lambda>r. if fst r \<noteq> DNone then aret r else first_not_null_traced ms)"

definition trace_func ::
  "py_env \<Rightarrow> val \<Rightarrow> (heap, val) act list \<Rightarrow> (heap, val \<times> val list) act list \<Rightarrow> (heap, val \<times> val list) act" where
  "trace_func E f ks ts =
     (if f = DStr ''getItem'' then
        abind (kid ts 0) (\<lambda>x. abind (kid ts 1) (\<lambda>k. step_traced (\<lambda>v. py_getitem E v (fst k)) x))
      else if f = DStr ''getattr'' then
        abind (kid ts 0) (\<lambda>x. abind (kid ts 1) (\<lambda>k. step_traced (\<lambda>v. py_getattr E v (fst k)) x))
      else if f = DStr ''cformat'' then
        untraced (abind (kid ks 0) (\<lambda>fmt. abind (aseq (drop 1 ks)) (\<lambda>args. aread (py_mod E fmt args))))
      else if f = DStr ''getItemPath'' then
        abind (kid ks 0) (\<lambda>x. abind (kid ks 1) (\<lambda>p. aread (get_item_path E x p)))
      else if f = DStr ''not_null'' then first_not_null_traced ts
      else if f = DStr ''where'' then
        untraced (abind (kid ks 0) (\<lambda>c. abind (kid ks 1) (\<lambda>x. abind (kid ks 2) (\<lambda>y.
          aread (\<lambda>h. Inr (where_op E c x y h))))))
      else if f = DStr ''array'' then untraced (abind (aseq ks) (\<lambda>xs. alloc (OList xs)))
      else if f = DStr ''concat'' then untraced (abind (aseq ks) (py_sum_lists E))
      else araise NotImplementedError)"

definition trace_node ::
  "py_env \<Rightarrow> val \<Rightarrow> ast_type \<Rightarrow> val \<Rightarrow> (heap, val) act list \<Rightarrow> (heap, val \<times> val list) act list \<Rightarrow>
   (heap, val \<times> val list) act" where
  "trace_node E obj t v ks ts = (case t of
     NAME \<Rightarrow> if v = DStr [] \<or> v = DStr ''$'' then aret (obj, [obj])
       else abind (aread (py_getattr E obj v)) (\<lambda>r. aret (r, [obj]))
   | JSON_LITERAL \<Rightarrow> aret (v, [])
   | STRING_LITERAL \<Rightarrow> aret (v, [])
   | GET_ATTR \<Rightarrow> abind (kid ts 0) (step_traced (\<lambda>x. py_getattr E x v))
   | ARRAY_GET_ITEM \<Rightarrow> abind (kid ts 0) (step_traced (\<lambda>x. py_getitem E x v))
   | DICT_GET_ITEM \<Rightarrow> abind (kid ts 0) (step_traced (\<lambda>x. py_getitem E x v))
   | BINARY_OP \<Rightarrow> untraced (abind (kid ks 0) (\<lambda>x. abind (kid ks 1) (\<lambda>y. binary_op E v x y)))
   | UNARY_OP \<Rightarrow> untraced (abind (kid ks 0) (\<lambda>x. unary_op E v x))
   | FUNC_CALL \<Rightarrow> trace_func E v ks ts)"

primrec eval_trace :: "py_env \<Rightarrow> val \<Rightarrow> draft_node \<Rightarrow> (heap, val \<times> val list) act" where
  "eval_trace E obj (DraftASTNode t cs v u f) =
     trace_node E obj t v (map (eval_ast E obj) cs) (map (eval_trace E obj) cs)"

subsection \<open>\<open>evaluate_draft_ast_json\<close>\<close>

text \<open>
  The code returns \<open>x and y, []\<close>, which is the pair of the value and a new empty list; likewise for
  the arithmetic operators and for \<open>not\<close>. The elements of \<open>array\<close> are evaluated as on objects.
\<close>

definition pair_with_list :: "(heap, val) act \<Rightarrow> (heap, val) act" where
  "pair_with_list m = abind m (\<lambda>r. abind (alloc (OList [])) (\<lambda>e. aret (DTuple [r, e])))"

definition json_binary_op :: "py_env \<Rightarrow> val \<Rightarrow> val \<Rightarrow> val \<Rightarrow> (heap, val) act" where
  "json_binary_op E op x y =
     (if op = DStr ''=='' then bool_act (py_eq E x y)
      else if op = DStr ''!='' then bool_act (\<lambda>h. rbind (py_eq E x y h) (\<lambda>b. Inr (\<not> b)))
      else if op = DStr ''>'' then bool_act (py_cmp E Gt x y)
      else if op = DStr ''<'' then bool_act (py_cmp E Lt x y)
      else if op = DStr ''>='' then bool_act (py_cmp E Ge x y)
      else if op = DStr ''<='' then bool_act (py_cmp E Le x y)
      else if op = DStr ''&&'' then pair_with_list (aread (\<lambda>h. Inr (py_and E x y h)))
      else if op = DStr ''||'' then pair_with_list (aread (\<lambda>h. Inr (py_or E x y h)))
      else if op = DStr ''+'' then pair_with_list (py_arith E Add x y)
      else if op = DStr ''-'' then pair_with_list (py_arith E Sub x y)
      else if op = DStr ''*'' then pair_with_list (py_arith E Mul x y)
      else if op = DStr ''/'' then pair_with_list (py_arith E Div x y)
      else if op = DStr ''//'' then pair_with_list (py_arith E FloorDiv x y)
      else araise NotImplementedError)"

definition json_func :: "py_env \<Rightarrow> val \<Rightarrow> (heap, val) act list \<Rightarrow> (heap, val) act list \<Rightarrow> (heap, val) act" where
  "json_func E f ks js =
     (if f = DStr ''getItem'' then
        abind (kid js 1) (\<lambda>k. abind (kid js 0) (\<lambda>x. aread (py_getitem E x k)))
      else if f = DStr ''getattr'' then
        abind (kid js 0) (\<lambda>x. abind (kid js 1) (\<lambda>k. aread (py_getitem E x k)))
      else if f = DStr ''cformat'' then
        abind (kid js 0) (\<lambda>fmt. abind (aseq (drop 1 js)) (\<lambda>args. aread (py_mod E fmt args)))
      else if f = DStr ''getItemPath'' then
        abind (kid js 0) (\<lambda>x. abind (kid js 1) (\<lambda>p.
          aread (\<lambda>h. rbind (get_item_path E x p h) (\<lambda>r. Inr (fst r)))))
      else if f = DStr ''not_null'' then first_not_null js
      else if f = DStr ''where'' then
        abind (kid js 0) (\<lambda>c. abind (kid js 1) (\<lambda>x. abind (kid js 2) (\<lambda>y.
          aread (\<lambda>h. Inr (where_op E c x y h)))))
      else if f = DStr ''array'' then abind (aseq ks) (\<lambda>xs. alloc (OList xs))
      else if f = DStr ''concat'' then abind (aseq js) (py_sum_lists E)
      else araise NotImplementedError)"

definition json_node ::
  "py_env \<Rightarrow> val \<Rightarrow> ast_type \<Rightarrow> val \<Rightarrow> (heap, val) act list \<Rightarrow> (heap, val) act list \<Rightarrow> (heap, val) act" where
  "json_node E obj t v ks js = (case t of
     NAME \<Rightarrow> if v = DStr [] \<or> v = DStr ''$'' then aret obj else aread (py_getitem E obj v)
   | JSON_LITERAL \<Rightarrow> aret v
   | STRING_LITERAL \<Rightarrow> aret v
   | GET_ATTR \<Rightarrow> abind (kid js 0) (\<lambda>x. aread (py_getitem E x v))
   | ARRAY_GET_ITEM \<Rightarrow> abind (kid js 0) (\<lambda>x. aread (py_getitem E x v))
   | DICT_GET_ITEM \<Rightarrow> abind (kid js 0) (\<lambda>x. aread (py_getitem E x v))
   | BINARY_OP \<Rightarrow> abind (kid js 0) (\<lambda>x. abind (kid js 1) (\<lambda>y. json_binary_op E v x y))
   | UNARY_OP \<Rightarrow> abind (kid js 0) (\<lambda>x. if v = DStr ''!'' then pair_with_list (unary_op E v x) else araise NotImplementedError)
   | FUNC_CALL \<Rightarrow> json_func E v ks js)"

primrec eval_json :: "py_env \<Rightarrow> val \<Rightarrow> draft_node \<Rightarrow> (heap, val) act" where
  "eval_json E obj (DraftASTNode t cs v u f) =
     json_node E obj t v (map (eval_ast E obj) cs) (map (eval_json E obj) cs)"

text \<open>The helpers of compiled expressions, which stop at \<open>None\<close>.\<close>

fun impl_get_itempath_loop :: "py_env \<Rightarrow> heap \<Rightarrow> val \<Rightarrow> val list \<Rightarrow> val res" where
  "impl_get_itempath_loop E h cur [] = Inr cur"
| "impl_get_itempath_loop E h cur (p # ps) =
     (if cur = DNone then Inr DNone
      else rbind (if is_seq_or_map h cur then py_getitem E cur p h
                  else if is_dataclass h cur then py_getattr E cur p h
                  else Inl AssertionError)
        (\<lambda>x. impl_get_itempath_loop E h x ps))"

definition impl_get_itempath :: "py_env \<Rightarrow> val \<Rightarrow> val \<Rightarrow> heap \<Rightarrow> val res" where
  "impl_get_itempath E target path h =
     (case as_list h path of None \<Rightarrow> Inl AssertionError | Some ps \<Rightarrow> impl_get_itempath_loop E h target ps)"

fun impl_not_null :: "val list \<Rightarrow> val" where
  "impl_not_null [] = DNone"
| "impl_not_null (x # xs) = (if x \<noteq> DNone then x else impl_not_null xs)"

subsection \<open>Evaluation only allocates\<close>

definition allocates :: "(heap, 'a) act \<Rightarrow> bool" where
  "allocates m \<longleftrightarrow> (\<forall>h. \<exists>new. snd (m h) = h @ new)"

named_theorems allocs

lemma allocates_basic [allocs]:
  "allocates (aret x)" "allocates (araise e)" "allocates (aread f)" "allocates (alloc ob)"
  by (simp_all add: allocates_def act_simps aread_def alloc_def)

lemma allocates_abind [allocs]:
  assumes "allocates m" "\<And>x. allocates (f x)"
  shows "allocates (abind m f)"
  unfolding allocates_def
proof
  fix h
  obtain r h1 where m: "m h = (r, h1)" by (cases "m h")
  obtain n1 where h1: "h1 = h @ n1" using assms(1) m unfolding allocates_def by (metis snd_conv)
  show "\<exists>new. snd (abind m f h) = h @ new"
  proof (cases r)
    case (Inr x)
    obtain n2 where "snd (f x h1) = h1 @ n2" using assms(2) unfolding allocates_def by metis
    then show ?thesis using m h1 Inr by (simp add: abind_def)
  qed (use m h1 in \<open>simp add: abind_def\<close>)
qed

lemma allocates_kid [allocs]: "(\<And>m. m \<in> set ks \<Longrightarrow> allocates m) \<Longrightarrow> allocates (kid ks i)"
  by (simp add: kid_def allocs)

lemma allocates_aseq [allocs]: "(\<And>m. m \<in> set ms \<Longrightarrow> allocates m) \<Longrightarrow> allocates (aseq ms)"
  by (induction ms) (auto intro!: allocs)

lemma allocates_first_not_null [allocs]:
  "(\<And>m. m \<in> set ms \<Longrightarrow> allocates m) \<Longrightarrow> allocates (first_not_null ms)"
  by (induction ms) (auto intro!: allocs split: if_splits)

lemma allocates_first_not_null_traced [allocs]:
  "(\<And>m. m \<in> set ms \<Longrightarrow> allocates m) \<Longrightarrow> allocates (first_not_null_traced ms)"
  by (induction ms) (auto intro!: allocs split: if_splits)

lemma allocates_fun:
  "(\<And>h. f h = g h h) \<Longrightarrow> (\<And>h. allocates (g h)) \<Longrightarrow> allocates f"
  by (simp add: allocates_def)

lemma allocates_if [allocs]: "allocates a \<Longrightarrow> allocates b \<Longrightarrow> allocates (if c then a else b)"
  by simp

lemma allocates_seq_add [allocs]: "allocates (seq_add x y)"
proof -
  have "allocates (\<lambda>h. case (as_list h x, as_list h y) of (Some xs, Some ys) \<Rightarrow> alloc (OList (xs @ ys)) h | _ \<Rightarrow> araise TypeError h)"
    by (auto simp: allocates_def alloc_def araise_def split: option.splits)
  then show ?thesis unfolding seq_add_def by (cases x; cases y) (simp_all add: allocates_def aret_def)
qed

lemma allocates_seq_times [allocs]: "allocates (seq_times x n)"
proof -
  have "allocates (\<lambda>h. case as_list h x of Some xs \<Rightarrow> alloc (OList (times n xs)) h | None \<Rightarrow> araise TypeError h)"
    by (auto simp: allocates_def alloc_def araise_def split: option.splits)
  then show ?thesis unfolding seq_times_def by (cases x) (simp_all add: allocates_def aret_def)
qed

lemma allocates_py_arith [allocs]: "allocates (py_arith E f x y)"
  by (auto simp: py_arith_def intro: allocs split: option.splits arith.splits)

lemma allocates_sum_from [allocs]: "allocates (sum_from E acc xs)"
  by (induction xs arbitrary: acc) (auto intro!: allocs)

lemma allocates_binary_op [allocs]: "allocates (binary_op E op x y)" "allocates (json_binary_op E op x y)"
  unfolding binary_op_def json_binary_op_def bool_act_def pair_with_list_def by (intro allocs)+

lemma allocates_unary_op [allocs]: "allocates (unary_op E op x)"
  by (auto simp: unary_op_def intro!: allocs)

lemma allocates_step_traced [allocs]: "allocates (step_traced f x)"
  by (auto simp: step_traced_def intro!: allocs)

lemma allocates_call_func [allocs]: "(\<And>m. m \<in> set ks \<Longrightarrow> allocates m) \<Longrightarrow> allocates (call_func E f ks)"
  unfolding call_func_def py_sum_lists_def by (intro allocs) (auto dest: in_set_dropD)

lemma allocates_trace_func [allocs]:
  "(\<And>m. m \<in> set ks \<Longrightarrow> allocates m) \<Longrightarrow> (\<And>m. m \<in> set ts \<Longrightarrow> allocates m) \<Longrightarrow> allocates (trace_func E f ks ts)"
  unfolding trace_func_def untraced_def py_sum_lists_def by (intro allocs) (auto dest: in_set_dropD)

lemma allocates_json_func [allocs]:
  "(\<And>m. m \<in> set ks \<Longrightarrow> allocates m) \<Longrightarrow> (\<And>m. m \<in> set js \<Longrightarrow> allocates m) \<Longrightarrow> allocates (json_func E f ks js)"
  unfolding json_func_def py_sum_lists_def by (intro allocs) (auto dest: in_set_dropD)

lemma allocates_eval_node [allocs]:
  "(\<And>m. m \<in> set ks \<Longrightarrow> allocates m) \<Longrightarrow> allocates (eval_node E obj t v ks)"
  unfolding eval_node_def by (cases t; simp only: ast_type.case; intro allocs; blast)

lemma allocates_eval_ast [allocs]: "allocates (eval_ast E obj node)"
  by (induction node) (auto intro!: allocates_eval_node)

lemma allocates_trace_node [allocs]:
  "(\<And>m. m \<in> set ks \<Longrightarrow> allocates m) \<Longrightarrow> (\<And>m. m \<in> set ts \<Longrightarrow> allocates m) \<Longrightarrow> allocates (trace_node E obj t v ks ts)"
  unfolding trace_node_def untraced_def by (cases t; simp only: ast_type.case; intro allocs; blast)

lemma allocates_json_node [allocs]:
  "(\<And>m. m \<in> set ks \<Longrightarrow> allocates m) \<Longrightarrow> (\<And>m. m \<in> set js \<Longrightarrow> allocates m) \<Longrightarrow> allocates (json_node E obj t v ks js)"
  unfolding json_node_def pair_with_list_def by (cases t; simp only: ast_type.case; intro allocs; blast)

lemma allocates_eval_trace [allocs]: "allocates (eval_trace E obj node)"
  by (induction node) (auto intro!: allocates_trace_node allocates_eval_ast)

lemma allocates_eval_json [allocs]: "allocates (eval_json E obj node)"
  by (induction node) (auto intro!: allocates_json_node allocates_eval_ast)

text \<open>
  Evaluating a draft expression, by any of the evaluators and with any outcome, changes no object
  that exists: it only makes new ones.
\<close>

lemma evaluation_is_pure:
  "(\<exists>new. snd (eval_ast E obj node h) = h @ new) \<and> (\<exists>new. snd (eval_noexcept E obj node h) = h @ new) \<and>
   (\<exists>new. snd (eval_trace E obj node h) = h @ new) \<and> (\<exists>new. snd (eval_json E obj node h) = h @ new)"
proof -
  have "\<exists>new. snd (eval_ast E obj node h) = h @ new" using allocates_eval_ast by (simp add: allocates_def)
  moreover from this have "\<exists>new. snd (eval_noexcept E obj node h) = h @ new"
    by (auto simp: eval_noexcept_def split: prod.splits sum.splits)
  moreover have "\<exists>new. snd (eval_trace E obj node h) = h @ new" "\<exists>new. snd (eval_json E obj node h) = h @ new"
    using allocates_eval_trace allocates_eval_json by (simp_all add: allocates_def)
  ultimately show ?thesis by simp
qed

subsection \<open>The trace follows the main path\<close>

text \<open>Nodes that make no object, and whose functions and names the tracing evaluator knows.\<close>

fun traceable :: "draft_node \<Rightarrow> bool" where
  "traceable (DraftASTNode t cs v u f) \<longleftrightarrow>
     (t = BINARY_OP \<longrightarrow> v \<notin> {DStr ''+'', DStr ''*''}) \<and>
     (t = FUNC_CALL \<longrightarrow> v \<notin> {DStr ''array'', DStr ''concat'', DStr ''len''}) \<and>
     (t = NAME \<longrightarrow> v \<noteq> DStr ''getRoot()'') \<and> (\<forall>c\<in>set cs. traceable c)"

fun main_path :: "draft_node \<Rightarrow> bool" where
  "main_path (DraftASTNode NAME [] v u f) \<longleftrightarrow> v = DStr [] \<or> v = DStr ''$''"
| "main_path (DraftASTNode GET_ATTR [c] v u f) \<longleftrightarrow> main_path c"
| "main_path (DraftASTNode ARRAY_GET_ITEM [c] v u f) \<longleftrightarrow> main_path c"
| "main_path (DraftASTNode DICT_GET_ITEM [c] v u f) \<longleftrightarrow> main_path c"
| "main_path (DraftASTNode FUNC_CALL [c, k] v u f) \<longleftrightarrow>
     (v = DStr ''getItem'' \<or> v = DStr ''getattr'') \<and> main_path c \<and> traceable k"
| "main_path _ \<longleftrightarrow> False"

definition quiet :: "(heap, 'a) act \<Rightarrow> bool" where
  "quiet m \<longleftrightarrow> (\<forall>h. snd (m h) = h)"

named_theorems quiets

lemma quiet_basic [quiets]: "quiet (aret x)" "quiet (araise e)" "quiet (aread f)"
  by (simp_all add: quiet_def act_simps aread_def)

lemma quiet_abind [quiets]:
  assumes "quiet m" "\<And>x. quiet (f x)"
  shows "quiet (abind m f)"
  unfolding quiet_def
proof
  fix h
  obtain r h1 where m: "m h = (r, h1)" by (cases "m h")
  then have "h1 = h" using assms(1) unfolding quiet_def by (metis snd_conv)
  then show "snd (abind m f h) = h"
    using m assms(2) by (cases r) (simp_all add: abind_def quiet_def)
qed

lemma quiet_if [quiets]: "quiet a \<Longrightarrow> quiet b \<Longrightarrow> quiet (if c then a else b)"
  by simp

lemma quiet_kid [quiets]: "(\<And>m. m \<in> set ks \<Longrightarrow> quiet m) \<Longrightarrow> quiet (kid ks i)"
  by (simp add: kid_def quiets)

lemma quiet_aseq [quiets]: "(\<And>m. m \<in> set ms \<Longrightarrow> quiet m) \<Longrightarrow> quiet (aseq ms)"
  by (induction ms) (auto intro!: quiets)

lemma quiet_first_not_null [quiets]: "(\<And>m. m \<in> set ms \<Longrightarrow> quiet m) \<Longrightarrow> quiet (first_not_null ms)"
  by (induction ms) (auto intro!: quiets split: if_splits)

lemma quiet_first_not_null_traced [quiets]:
  "(\<And>m. m \<in> set ms \<Longrightarrow> quiet m) \<Longrightarrow> quiet (first_not_null_traced ms)"
  by (induction ms) (auto intro!: quiets split: if_splits)

lemma quiet_step_traced [quiets]: "quiet (step_traced f x)"
  unfolding step_traced_def by (intro quiets)

lemma quiet_arith [quiets]: "f \<noteq> Add \<Longrightarrow> f \<noteq> Mul \<Longrightarrow> quiet (py_arith E f x y)"
  by (cases f) (auto simp: py_arith_def intro: quiets split: option.splits)

lemma quiet_binary_op: "op \<noteq> DStr ''+'' \<Longrightarrow> op \<noteq> DStr ''*'' \<Longrightarrow> quiet (binary_op E op x y)"
  unfolding binary_op_def bool_act_def by (simp only: if_False) (intro quiets; simp)

lemma quiet_unary_op [quiets]: "quiet (unary_op E op x)"
  unfolding unary_op_def by (intro quiets)

lemma quiet_Inr: "quiet m \<Longrightarrow> m h = (r, h') \<Longrightarrow> h' = h"
  unfolding quiet_def by (metis snd_conv)

lemma abind_quiet_Inr:
  assumes "quiet m"
  shows "fst (abind m f h) = Inr r \<longleftrightarrow> (\<exists>x. fst (m h) = Inr x \<and> fst (f x h) = Inr r)"
proof -
  obtain q h1 where m: "m h = (q, h1)" by (cases "m h")
  then have "h1 = h" by (rule quiet_Inr[OF assms])
  then show ?thesis using m by (cases q) (simp_all add: abind_def)
qed

lemma quiet_call_func:
  "(\<And>m. m \<in> set ks \<Longrightarrow> quiet m) \<Longrightarrow> f \<notin> {DStr ''array'', DStr ''concat''} \<Longrightarrow> quiet (call_func E f ks)"
  unfolding call_func_def by (simp only: insert_iff empty_iff simp_thms if_False de_Morgan_disj) (intro quiets; auto dest: in_set_dropD)

lemma quiet_trace_func:
  "(\<And>m. m \<in> set ks \<Longrightarrow> quiet m) \<Longrightarrow> (\<And>m. m \<in> set ts \<Longrightarrow> quiet m) \<Longrightarrow> f \<notin> {DStr ''array'', DStr ''concat''} \<Longrightarrow>
   quiet (trace_func E f ks ts)"
  unfolding trace_func_def untraced_def
  by (simp only: insert_iff empty_iff simp_thms if_False de_Morgan_disj) (intro quiets; auto dest: in_set_dropD)

lemma quiet_eval_ast: "traceable node \<Longrightarrow> quiet (eval_ast E obj node)"
proof (induction node)
  case (DraftASTNode t cs v u f)
  have ks: "\<And>m. m \<in> set (map (eval_ast E obj) cs) \<Longrightarrow> quiet m" using DraftASTNode by auto
  show ?case
  proof (cases t)
    case FUNC_CALL
    then have "v \<notin> {DStr ''array'', DStr ''concat''}" using DraftASTNode.prems by simp
    then have "quiet (call_func E v (map (eval_ast E obj) cs))" by (intro quiet_call_func ks)
    then show ?thesis using FUNC_CALL by (simp add: eval_node_def)
  next
    case BINARY_OP
    then have "v \<noteq> DStr ''+''" "v \<noteq> DStr ''*''" using DraftASTNode.prems by simp_all
    then show ?thesis using BINARY_OP quiet_binary_op ks
      by (simp only: eval_ast.simps eval_node_def ast_type.case) (intro quiets; blast)
  qed (simp_all only: eval_ast.simps eval_node_def ast_type.case, (intro quiets ks; assumption)+)
qed

lemma quiet_eval_trace: "traceable node \<Longrightarrow> quiet (eval_trace E obj node)"
proof (induction node)
  case (DraftASTNode t cs v u f)
  have ks: "\<And>m. m \<in> set (map (eval_ast E obj) cs) \<Longrightarrow> quiet m" using DraftASTNode.prems quiet_eval_ast by auto
  have ts: "\<And>m. m \<in> set (map (eval_trace E obj) cs) \<Longrightarrow> quiet m" using DraftASTNode by auto
  show ?case
  proof (cases t)
    case FUNC_CALL
    then have "v \<notin> {DStr ''array'', DStr ''concat''}" using DraftASTNode.prems by simp
    then have "quiet (trace_func E v (map (eval_ast E obj) cs) (map (eval_trace E obj) cs))"
      by (intro quiet_trace_func ks ts)
    then show ?thesis using FUNC_CALL by (simp add: trace_node_def)
  next
    case BINARY_OP
    then have "v \<noteq> DStr ''+''" "v \<noteq> DStr ''*''" using DraftASTNode.prems by simp_all
    then show ?thesis using BINARY_OP quiet_binary_op ks
      by (simp only: eval_trace.simps trace_node_def untraced_def ast_type.case) (intro quiets; blast)
  qed (simp_all only: eval_trace.simps trace_node_def untraced_def ast_type.case, (intro quiets ks ts; assumption)+)
qed

definition agree :: "(heap, val) act \<Rightarrow> (heap, val \<times> val list) act \<Rightarrow> bool" where
  "agree m t \<longleftrightarrow> quiet m \<and> quiet t \<and> (\<forall>h v. fst (m h) = Inr v \<longleftrightarrow> (\<exists>tr. fst (t h) = Inr (v, tr)))"

lemma fst_aread [simp]: "fst (aread f h) = f h" "fst (aret x h) = Inr x" "fst (araise e h) = Inl e"
  by (simp_all add: aread_def act_simps)

lemma untraced_Inr: "fst (untraced m h) = Inr (v, tr) \<longleftrightarrow> fst (m h) = Inr v \<and> tr = []"
  by (auto simp: untraced_def abind_def aret_def split: prod.splits sum.splits)

lemma untraced_quiet [quiets]: "quiet m \<Longrightarrow> quiet (untraced m)"
  unfolding untraced_def by (intro quiets)

lemma agree_untraced: "quiet m \<Longrightarrow> agree m (untraced m)"
  by (simp add: agree_def quiets untraced_Inr)

lemma agree_kid:
  "list_all2 agree ks ts \<Longrightarrow> agree (kid ks i) (kid ts i)"
  by (auto simp: kid_def agree_def list_all2_conv_all_nth quiets)

lemma step_traced_Inr:
  "fst (step_traced f xt h) = Inr (v, tr) \<longleftrightarrow> f (fst xt) h = Inr v \<and> tr = snd xt @ [v]"
  by (auto simp: step_traced_def abind_def aret_def aread_def split: prod.splits sum.splits)

lemma agreeD: "agree m t \<Longrightarrow> fst (m h) = Inr v \<longleftrightarrow> (\<exists>tr. fst (t h) = Inr (v, tr))"
  by (simp add: agree_def)

lemma agree_step:
  assumes "agree m t"
  shows "agree (abind m (\<lambda>x. aread (f x))) (abind t (step_traced f))"
proof -
  have q: "quiet m" "quiet t" using assms by (simp_all add: agree_def)
  have "quiet (abind m (\<lambda>x. aread (f x)))" "quiet (abind t (step_traced f))" using q by (intro quiets; simp)+
  moreover have "fst (abind m (\<lambda>x. aread (f x)) h) = Inr v \<longleftrightarrow> (\<exists>tr. fst (abind t (step_traced f) h) = Inr (v, tr))" for h v
    by (auto simp: abind_quiet_Inr[OF q(1)] abind_quiet_Inr[OF q(2)] step_traced_Inr agreeD[OF assms])
  ultimately show ?thesis by (simp add: agree_def)
qed

lemma agree_step2:
  assumes "agree m t" "agree n u"
  shows "agree (abind n (\<lambda>k. abind m (\<lambda>x. aread (f k x)))) (abind t (\<lambda>x. abind u (\<lambda>k. step_traced (f (fst k)) x)))"
    and "agree (abind m (\<lambda>x. abind n (\<lambda>k. aread (f k x)))) (abind t (\<lambda>x. abind u (\<lambda>k. step_traced (f (fst k)) x)))"
proof -
  have q: "quiet m" "quiet t" "quiet n" "quiet u" using assms by (simp_all add: agree_def)
  have qq: "quiet (abind n (\<lambda>k. abind m (\<lambda>x. aread (f k x))))" "quiet (abind m (\<lambda>x. abind n (\<lambda>k. aread (f k x))))"
    "quiet (abind t (\<lambda>x. abind u (\<lambda>k. step_traced (f (fst k)) x)))"
    using q by (intro quiets; simp)+
  have t: "fst (abind t (\<lambda>x. abind u (\<lambda>k. step_traced (f (fst k)) x)) h) = Inr (v, tr) \<longleftrightarrow>
      (\<exists>x xs k ks. fst (t h) = Inr (x, xs) \<and> fst (u h) = Inr (k, ks) \<and> f k x h = Inr v \<and> tr = xs @ [v])" for h v tr
    by (auto simp: abind_quiet_Inr q step_traced_Inr)
  have "fst (abind n (\<lambda>k. abind m (\<lambda>x. aread (f k x))) h) = Inr v \<longleftrightarrow>
      (\<exists>x k. fst (m h) = Inr x \<and> fst (n h) = Inr k \<and> f k x h = Inr v)"
    "fst (abind m (\<lambda>x. abind n (\<lambda>k. aread (f k x))) h) = Inr v \<longleftrightarrow>
      (\<exists>x k. fst (m h) = Inr x \<and> fst (n h) = Inr k \<and> f k x h = Inr v)" for h v
    by (auto simp: abind_quiet_Inr q)
  then show "agree (abind n (\<lambda>k. abind m (\<lambda>x. aread (f k x)))) (abind t (\<lambda>x. abind u (\<lambda>k. step_traced (f (fst k)) x)))"
    "agree (abind m (\<lambda>x. abind n (\<lambda>k. aread (f k x)))) (abind t (\<lambda>x. abind u (\<lambda>k. step_traced (f (fst k)) x)))"
    using qq by (simp_all add: agree_def t agreeD[OF assms(1)] agreeD[OF assms(2)]) blast+
qed

lemma agree_first_not_null: "list_all2 agree ks ts \<Longrightarrow> agree (first_not_null ks) (first_not_null_traced ts)"
proof (induction rule: list_all2_induct)
  case Nil
  then show ?case by (simp add: agree_def quiets)
next
  case (Cons m ms t ts)
  have q: "quiet m" "quiet t" "quiet (first_not_null ms)" "quiet (first_not_null_traced ts)"
    using Cons by (simp_all add: agree_def)
  have "quiet (first_not_null (m # ms))" "quiet (first_not_null_traced (t # ts))"
    unfolding first_not_null.simps first_not_null_traced.simps by (intro quiet_abind quiet_if quiet_basic q)+
  moreover have "fst (first_not_null (m # ms) h) = Inr v \<longleftrightarrow> (\<exists>tr. fst (first_not_null_traced (t # ts) h) = Inr (v, tr))" for h v
    using agreeD[OF Cons.hyps(1)] agreeD[OF Cons.IH] by (auto simp: abind_quiet_Inr q split: if_splits)
  ultimately show ?case by (simp add: agree_def)
qed

lemma agree_path:
  assumes "quiet m"
  shows "agree (abind m (\<lambda>x. aread (\<lambda>h. rbind (f x h) (\<lambda>r. Inr (fst r))))) (abind m (\<lambda>x. aread (f x)))"
proof -
  have "quiet (abind m (\<lambda>x. aread (\<lambda>h. rbind (f x h) (\<lambda>r. Inr (fst r)))))" "quiet (abind m (\<lambda>x. aread (f x)))"
    using assms by (intro quiets; simp)+
  then show ?thesis by (auto simp: agree_def abind_quiet_Inr assms res_simps)
qed

lemma abind_assoc: "abind (abind m f) g = abind m (\<lambda>x. abind (f x) g)"
  by (rule ext) (simp add: abind_def split: prod.split sum.split)

lemma abind_aret [simp]: "abind (aret x) f = f x"
  by (rule ext) (simp add: abind_def aret_def)

lemma agree_call:
  assumes ag: "list_all2 agree ks ts" and f: "f \<notin> {DStr ''array'', DStr ''concat'', DStr ''len''}"
  shows "agree (call_func E f ks) (trace_func E f ks ts)"
proof -
  have ks: "\<And>m. m \<in> set ks \<Longrightarrow> quiet m" using ag by (auto simp: agree_def list_all2_conv_all_nth in_set_conv_nth)
  have f': "f \<noteq> DStr ''array''" "f \<noteq> DStr ''concat''" "f \<noteq> DStr ''len''" using f by auto
  have a0: "agree (araise e) (araise e)" for e by (simp add: agree_def quiets)
  have ci: "(c \<Longrightarrow> agree a a') \<Longrightarrow> (\<not> c \<Longrightarrow> agree b b') \<Longrightarrow> agree (if c then a else b) (if c then a' else b')" for c a b a' b'
    by simp
  have q: "quiet (abind (kid ks 0) (\<lambda>fmt. abind (aseq (drop 1 ks)) (\<lambda>args. aread (g fmt args))))"
     "quiet (abind (kid ks 0) (\<lambda>c. abind (kid ks 1) (\<lambda>x. abind (kid ks 2) (\<lambda>y. aread (g' c x y)))))"
     "quiet (abind (kid ks 0) (\<lambda>x. abind (kid ks 1) (\<lambda>p. aret (x, p))))" for g g'
    by (intro quiets ks; auto dest: in_set_dropD)+
  have p: "agree (abind (kid ks 0) (\<lambda>x. abind (kid ks 1) (\<lambda>p. aread (\<lambda>h. rbind (get_item_path E x p h) (\<lambda>r. Inr (fst r))))))
      (abind (kid ks 0) (\<lambda>x. abind (kid ks 1) (\<lambda>p. aread (get_item_path E x p))))"
    using agree_path[OF q(3), of "\<lambda>(x, p). get_item_path E x p"] by (simp add: abind_assoc)
  show ?thesis
    unfolding call_func_def trace_func_def if_not_P[OF f'(1)] if_not_P[OF f'(2)] if_not_P[OF f'(3)]
    by (intro ci agree_step2 agree_kid[OF ag] agree_untraced q p agree_first_not_null[OF ag] a0)
qed

lemma traced_agrees: "traceable node \<Longrightarrow> agree (eval_ast E obj node) (eval_trace E obj node)"
proof (induction node)
  case (DraftASTNode t cs v u f)
  let ?ks = "map (eval_ast E obj) cs" and ?ts = "map (eval_trace E obj) cs"
  have ag: "list_all2 agree ?ks ?ts" using DraftASTNode by (auto simp: list_all2_conv_all_nth)
  have q: "quiet (eval_ast E obj (DraftASTNode t cs v u f))" by (rule quiet_eval_ast[OF DraftASTNode.prems])
  show ?case
  proof (cases t)
    case NAME
    then show ?thesis using DraftASTNode.prems by (auto simp: eval_node_def trace_node_def agree_def abind_quiet_Inr quiets)
  next
    case FUNC_CALL
    then show ?thesis using agree_call[OF ag, of v] DraftASTNode.prems by (simp add: eval_node_def trace_node_def)
  qed (use q agree_untraced[of "eval_ast E obj (DraftASTNode t cs v u f)"] agree_step[OF agree_kid[OF ag]] in
      \<open>simp_all add: eval_node_def trace_node_def agree_def quiets\<close>)
qed

lemma main_path_traceable: "main_path n \<Longrightarrow> traceable n"
  by (induction n rule: main_path.induct) auto

lemma main_path_agree: "main_path n \<Longrightarrow> agree (eval_ast E obj n) (eval_trace E obj n)"
  using traced_agrees main_path_traceable by blast

lemma main_path_quiet: "main_path n \<Longrightarrow> quiet (eval_ast E obj n) \<and> quiet (eval_trace E obj n)"
  using main_path_agree by (simp add: agree_def)

lemma main_path_values:
  "fst (eval_trace E obj n h) = Inr (v, tr) \<Longrightarrow> main_path n \<Longrightarrow>
   map Inr tr = map (\<lambda>n. fst (eval_ast E obj n h)) (rev (get_child_nodes_in_main_path n))"
proof (induction n arbitrary: v tr rule: main_path.induct)
  case (1 w u f)
  then show ?case by (auto simp: trace_node_def eval_node_def)
next
  case (2 c w u f)
  have "fst (eval_ast E obj (DraftASTNode GET_ATTR [c] w u f) h) = Inr v" using 2(2) main_path_agree[OF 2(3)] agreeD by blast
  then show ?case using 2 main_path_quiet[of c E obj] by (auto simp: trace_node_def kid_def abind_quiet_Inr step_traced_Inr)
next
  case (3 c w u f)
  have "fst (eval_ast E obj (DraftASTNode ARRAY_GET_ITEM [c] w u f) h) = Inr v" using 3(2) main_path_agree[OF 3(3)] agreeD by blast
  then show ?case using 3 main_path_quiet[of c E obj] by (auto simp: trace_node_def kid_def abind_quiet_Inr step_traced_Inr)
next
  case (4 c w u f)
  have "fst (eval_ast E obj (DraftASTNode DICT_GET_ITEM [c] w u f) h) = Inr v" using 4(2) main_path_agree[OF 4(3)] agreeD by blast
  then show ?case using 4 main_path_quiet[of c E obj] by (auto simp: trace_node_def kid_def abind_quiet_Inr step_traced_Inr)
next
  case (5 c k w u f)
  have e: "fst (eval_ast E obj (DraftASTNode FUNC_CALL [c, k] w u f) h) = Inr v" using 5(2) main_path_agree[OF 5(3)] agreeD by blast
  have "quiet (eval_trace E obj k)" "w = DStr ''getItem'' \<or> w = DStr ''getattr''" "main_path c"
    using 5(3) quiet_eval_trace by simp_all
  then show ?case using 5 main_path_quiet[of c E obj] e
    by (auto simp: trace_node_def trace_func_def kid_def abind_quiet_Inr step_traced_Inr)
qed simp_all

lemma main_path_trace:
  assumes "main_path n" "eval_trace E obj n h = (Inr (v, tr), h')"
  shows "h' = h" "eval_ast E obj n h = (Inr v, h)"
    "map Inr tr = map (\<lambda>n. fst (eval_ast E obj n h)) (rev (get_child_nodes_in_main_path n))"
proof -
  show "h' = h" using quiet_Inr main_path_quiet[OF assms(1)] assms(2) by blast
  have "fst (eval_ast E obj n h) = Inr v" using assms(2) agreeD[OF main_path_agree[OF assms(1)], of E obj h v] by auto
  then show "eval_ast E obj n h = (Inr v, h)" using main_path_quiet[OF assms(1)] by (simp add: quiet_def prod_eq_iff)
  show "map Inr tr = map (\<lambda>n. fst (eval_ast E obj n h)) (rev (get_child_nodes_in_main_path n))"
    using main_path_values[OF _ assms(1)] assms(2) by simp
qed

text \<open>
  C29: on the expressions a draft assigns through, the tracing evaluator returns the value of the plain
  one, changes nothing, and its trace is exactly the values of the nodes of the main path, from the
  root to the value itself; and it succeeds whenever the plain evaluator does.
\<close>

theorem trace_is_main_path:
  assumes "main_path node"
  shows "(\<forall>v tr h'. eval_trace E obj node h = (Inr (v, tr), h') \<longrightarrow> h' = h \<and> eval_ast E obj node h = (Inr v, h) \<and>
      map Inr tr = map (\<lambda>n. fst (eval_ast E obj n h)) (rev (get_child_nodes_in_main_path node))) \<and>
    (\<forall>v h'. eval_ast E obj node h = (Inr v, h') \<longrightarrow> (\<exists>tr. eval_trace E obj node h = (Inr (v, tr), h)))"
proof -
  have "\<exists>tr. eval_trace E obj node h = (Inr (v, tr), h)" if e: "eval_ast E obj node h = (Inr v, h')" for v h'
  proof -
    obtain tr where "fst (eval_trace E obj node h) = Inr (v, tr)"
      using e agreeD[OF main_path_agree[OF assms], of E obj h v] by auto
    then show ?thesis using main_path_quiet[OF assms] by (metis prod.collapse quiet_def)
  qed
  then show ?thesis using main_path_trace[OF assms] by blast
qed

definition int_env :: py_env where
  "int_env = \<lparr>pe_attr = (\<lambda>_ _ _. None), pe_fields = (\<lambda>_. []), pe_arith = (\<lambda>_ _ _. Inl OverflowError),
     pe_num_eq = (\<lambda>_ _. False), pe_num_cmp = (\<lambda>_ _ _. False), pe_float_true = (\<lambda>_. True),
     pe_float_int = (\<lambda>_. None), pe_format = (\<lambda>_ s _. Inr s), pe_limit = 100\<rparr>"

definition attr_node :: "draft_node \<Rightarrow> string \<Rightarrow> draft_node" where
  "attr_node c s = DraftASTNode GET_ATTR [c] (DStr s) DNone None"

definition item_node :: "draft_node \<Rightarrow> int \<Rightarrow> draft_node" where
  "item_node c i = DraftASTNode ARRAY_GET_ITEM [c] (DInt i) DNone None"

definition small_doc :: heap where
  "small_doc = [OData ''C'' [(''a'', DRef 1), (''n'', DInt 2)], OList [DInt 5, DInt 6]]"

theorem trace_is_main_path_witness:
  "eval_trace int_env (DRef 0) (item_node (attr_node ROOT_NODE ''a'') 1) small_doc =
     (Inr (DInt 6, [DRef 0, DRef 1, DInt 6]), small_doc)"
proof -
  let ?n = "item_node (attr_node ROOT_NODE ''a'') 1"
  have m: "main_path ?n" by (simp add: item_node_def attr_node_def ROOT_NODE_def)
  have e: "eval_ast int_env (DRef 0) ?n small_doc = (Inr (DInt 6), small_doc)"
    "map (\<lambda>n. fst (eval_ast int_env (DRef 0) n small_doc)) (rev (get_child_nodes_in_main_path ?n)) = map Inr [DRef 0, DRef 1, DInt 6]"
    by (simp_all add: item_node_def attr_node_def ROOT_NODE_def eval_node_def kid_def abind_def aread_def aret_def
        small_doc_def py_getattr_def py_getitem_def hget_def index_of_def)
  from trace_is_main_path[OF m, of int_env "DRef 0" small_doc] e(1)
  obtain tr where t: "eval_trace int_env (DRef 0) ?n small_doc = (Inr (DInt 6, tr), small_doc)" by blast
  from trace_is_main_path[OF m, of int_env "DRef 0" small_doc] t
  have "map Inr tr = map (\<lambda>n. fst (eval_ast int_env (DRef 0) n small_doc)) (rev (get_child_nodes_in_main_path ?n))" by blast
  then have "map (Inr :: val \<Rightarrow> val res) tr = map Inr [DRef 0, DRef 1, DInt 6]" using e(2) by (simp only:)
  then have "tr = [DRef 0, DRef 1, DInt 6]" by (metis inj_map_eq_map Inr_inject injI)
  then show ?thesis using t by simp
qed

end
