(* ===== verification/DraftJson.thy ===== *)
theory DraftJson
  imports DraftAst
begin

text \<open>
  Documents of dataclass objects and the documents of dicts they are stored as
  (\<open>evaluate_draft_ast_json\<close> against \<open>evaluate_draft_ast\<close>): \<open>json_heap\<close> replaces every dataclass
  object by the dict of its fields.
\<close>

subsection \<open>The stored form of a heap\<close>

fun json_obj :: "obj \<Rightarrow> obj" where
  "json_obj (OData c fs) = ODict (map (\<lambda>(k, v). (KStr k, v)) fs)"
| "json_obj ob = ob"

definition json_heap :: "heap \<Rightarrow> heap" where
  "json_heap h = map json_obj h"

definition no_attrs :: "py_env \<Rightarrow> bool" where
  "no_attrs E \<longleftrightarrow> (\<forall>h v s. pe_attr E h v s = None)"

lemma hget_json [simp]: "hget (json_heap h) a = map_option json_obj (hget h a)"
  by (simp add: hget_def json_heap_def)

lemma json_heap_append: "json_heap (h @ g) = json_heap h @ json_heap g"
  by (simp add: json_heap_def)

lemma json_heap_simps [simp]: "json_heap [] = []" "json_heap (ob # h) = json_obj ob # json_heap h"
  by (simp_all add: json_heap_def)

lemma length_json_heap [simp]: "length (json_heap h) = length h"
  by (simp add: json_heap_def)

lemma json_heap_update: "json_heap (h[a := ob]) = (json_heap h)[a := json_obj ob]"
  by (simp add: json_heap_def map_update)

lemma as_list_json [simp]: "as_list (json_heap h) v = as_list h v"
  by (cases v) (auto split: option.splits obj.splits)

lemma dget_str_keys: "dget (map (\<lambda>(k, v). (KStr k, v)) fs) (KStr s) = dget fs s"
  by (induction fs) auto

lemma dset_str_keys:
  "dset (KStr s) v (map (\<lambda>(k, v). (KStr k, v)) fs) = map (\<lambda>(k, v). (KStr k, v)) (dset s v fs)"
  by (induction s v fs rule: dset.induct) auto

lemma getattr_json:
  "no_attrs E \<Longrightarrow> py_getattr E x k h = Inr v \<Longrightarrow> py_getitem E x k (json_heap h) = Inr v"
  by (cases x; cases k)
    (auto simp: py_getattr_def py_getitem_def no_attrs_def dget_str_keys split: option.splits obj.splits)

lemma getitem_json: "py_getitem E x k h = Inr v \<Longrightarrow> py_getitem E x k (json_heap h) = Inr v"
  by (cases x) (auto simp: py_getitem_def split: option.splits obj.splits)

lemma seq_or_map_json: "is_seq_or_map h v \<Longrightarrow> is_seq_or_map (json_heap h) v"
  by (cases v) (auto simp: is_seq_or_map_def split: option.splits obj.splits)

lemma dataclass_json: "is_dataclass h v \<Longrightarrow> is_seq_or_map (json_heap h) v"
  by (cases v) (auto simp: is_seq_or_map_def is_dataclass_def split: option.splits obj.splits)

lemma walk_path_json:
  assumes "no_attrs E" "walk_path E h cur ps = Inr r"
  shows "walk_path E (json_heap h) cur ps = Inr r"
  using assms(2)
proof (induction ps arbitrary: cur r)
  case (Cons p ps)
  from Cons.prems obtain x q tr where x:
    "(if is_seq_or_map h cur then py_getitem E cur p h else if is_dataclass h cur then py_getattr E cur p h else Inl AssertionError) = Inr x"
    "walk_path E h x ps = Inr (q, tr)" "r = (q, x # tr)"
    by (auto simp: res_simps)
  have "is_seq_or_map (json_heap h) cur" "py_getitem E cur p (json_heap h) = Inr x"
    using x(1) seq_or_map_json dataclass_json getitem_json getattr_json[OF assms(1)] by (auto split: if_splits)
  then show ?case using Cons.IH[OF x(2)] x(3) by simp
qed simp

subsection \<open>Paths mean the same on both forms\<close>

text \<open>Paths: names, literals, attributes, items, dynamic items and item paths, and \<open>not_null\<close>.\<close>

fun path_only :: "draft_node \<Rightarrow> bool" where
  "path_only (DraftASTNode t cs v u f) \<longleftrightarrow> t \<noteq> BINARY_OP \<and> t \<noteq> UNARY_OP \<and> (t = NAME \<longrightarrow> v \<noteq> DStr ''getRoot()'') \<and>
     (t = FUNC_CALL \<longrightarrow> v \<in> {DStr ''getItem'', DStr ''getattr'', DStr ''getItemPath'', DStr ''not_null''}) \<and>
     (\<forall>c\<in>set cs. path_only c)"

definition refines :: "(heap, 'a) act \<Rightarrow> (heap, 'a) act \<Rightarrow> bool" where
  "refines m j \<longleftrightarrow> (\<forall>h h' x. m h = (Inr x, h') \<longrightarrow> j (json_heap h) = (Inr x, json_heap h'))"

named_theorems refs

lemma refines_basic [refs]: "refines (aret x) (aret x)" "refines (araise e) j"
  by (simp_all add: refines_def act_simps)

lemma refines_aread: "(\<And>h x. f h = Inr x \<Longrightarrow> g (json_heap h) = Inr x) \<Longrightarrow> refines (aread f) (aread g)"
  by (simp add: refines_def aread_def)

lemma refines_abind [refs]:
  assumes "refines m j" "\<And>x. refines (f x) (g x)"
  shows "refines (abind m f) (abind j g)"
  using assms unfolding refines_def abind_def by (fastforce split: prod.splits sum.splits)

lemma refines_if [refs]: "(c \<Longrightarrow> refines a a') \<Longrightarrow> (\<not> c \<Longrightarrow> refines b b') \<Longrightarrow> refines (if c then a else b) (if c then a' else b')"
  by simp

lemma refines_items [refs]:
  "refines (aread (py_getitem E x k)) (aread (py_getitem E x k))"
  "no_attrs E \<Longrightarrow> refines (aread (py_getattr E x k)) (aread (py_getitem E x k))"
  by (rule refines_aread; simp add: getitem_json getattr_json)+

lemma refines_path:
  "no_attrs E \<Longrightarrow> refines (aread (\<lambda>h. rbind (get_item_path E x p h) (\<lambda>r. Inr (fst r))))
     (aread (\<lambda>h. rbind (get_item_path E x p h) (\<lambda>r. Inr (fst r))))"
  by (rule refines_aread) (auto simp: get_item_path_def res_simps walk_path_json split: option.splits)

lemma refines_kid: "list_all2 refines ks js \<Longrightarrow> refines (kid ks i) (kid js i)"
  by (auto simp: kid_def list_all2_conv_all_nth refs)

lemma refines_first_not_null: "list_all2 refines ks js \<Longrightarrow> refines (first_not_null ks) (first_not_null js)"
  by (induction rule: list_all2_induct) (auto intro!: refs)

lemma refines_call:
  assumes "no_attrs E" "list_all2 refines ks js"
    and "f \<in> {DStr ''getItem'', DStr ''getattr'', DStr ''getItemPath'', DStr ''not_null''}"
  shows "refines (call_func E f ks) (json_func E f ks' js)"
proof -
  consider "f = DStr ''getItem''" | "f = DStr ''getattr''" | "f = DStr ''getItemPath''" | "f = DStr ''not_null''"
    using assms(3) by blast
  then show ?thesis
    by cases (simp_all add: call_func_def json_func_def, (intro refs refines_kid refines_path refines_first_not_null assms(1,2))+)
qed

lemma path_refines: "no_attrs E \<Longrightarrow> path_only node \<Longrightarrow> refines (eval_ast E obj node) (eval_json E obj node)"
proof (induction node)
  case (DraftASTNode t cs v u f)
  have ks: "list_all2 refines (map (eval_ast E obj) cs) (map (eval_json E obj) cs)"
    using DraftASTNode by (auto simp: list_all2_conv_all_nth)
  show ?case
  proof (cases t)
    case FUNC_CALL
    then show ?thesis using refines_call[OF DraftASTNode.prems(1) ks] DraftASTNode.prems(2) by (simp add: eval_node_def json_node_def)
  qed (use DraftASTNode.prems refines_kid[OF ks] in \<open>auto simp: eval_node_def json_node_def intro!: refs\<close>)
qed

text \<open>
  C30: on a path, whatever the object evaluator finds in a document of dataclass objects, the JSON
  evaluator finds in the stored form of the document.
\<close>

theorem json_path_refines:
  assumes "no_attrs E" "path_only node" "eval_ast E obj node h = (Inr v, h')"
  shows "eval_json E obj node (json_heap h) = (Inr v, json_heap h')"
  using path_refines[OF assms(1,2), of obj] assms(3) by (simp add: refines_def)

theorem json_path_refines_witness:
  "eval_json int_env (DRef 0) (item_node (attr_node ROOT_NODE ''a'') (-1)) (json_heap small_doc) = (Inr (DInt 6), json_heap small_doc)"
proof -
  have "eval_ast int_env (DRef 0) (item_node (attr_node ROOT_NODE ''a'') (-1)) small_doc = (Inr (DInt 6), small_doc)"
    by (simp add: item_node_def attr_node_def ROOT_NODE_def eval_node_def kid_def abind_def aread_def aret_def
        small_doc_def py_getattr_def py_getitem_def hget_def index_of_def)
  from json_path_refines[OF _ _ this] show ?thesis
    by (simp add: no_attrs_def int_env_def item_node_def attr_node_def ROOT_NODE_def)
qed

subsection \<open>Where the JSON evaluator departs\<close>

text \<open>
  The JSON evaluator returns a pair from its logical and arithmetic operators: a condition built
  with \<open>&&\<close>, \<open>||\<close> or \<open>!\<close> is always true, and arithmetic on an arithmetic result always fails.
\<close>

lemma json_operators_make_pairs:
  "(op \<in> {DStr ''&&'', DStr ''||''} \<and> eval_json E obj (DraftASTNode BINARY_OP cs op u f) h = (Inr c, h') \<longrightarrow>
      where_op E c x y g = x) \<and>
   (op \<in> {DStr ''+'', DStr ''-'', DStr ''*'', DStr ''/'', DStr ''//''} \<longrightarrow>
      fst (eval_json E obj (DraftASTNode BINARY_OP [DraftASTNode BINARY_OP cs op u f, n] (DStr ''-'') u' f') h) \<noteq> Inr r)"
proof -
  have pair: "\<exists>w e. c = DTuple [w, e]" if "fst (pair_with_list m h) = Inr c" for m h c
    using that by (auto simp: pair_with_list_def abind_def aret_def alloc_def split: prod.splits sum.splits)
  have jb: "\<exists>w e. c = DTuple [w, e]" if "fst (json_binary_op E op a b h) = Inr c"
    "op \<in> {DStr ''&&'', DStr ''||'', DStr ''+'', DStr ''-'', DStr ''*'', DStr ''/'', DStr ''//''}" for a b h c
    using that by (auto simp: json_binary_op_def dest!: pair)
  let ?n = "DraftASTNode BINARY_OP cs op u f"
  have l: "\<exists>w e. c = DTuple [w, e]" if r: "fst (eval_json E obj ?n h) = Inr c"
    and op: "op \<in> {DStr ''&&'', DStr ''||'', DStr ''+'', DStr ''-'', DStr ''*'', DStr ''/'', DStr ''//''}" for h c
  proof -
    obtain a b g where "fst (json_binary_op E op a b g) = Inr c"
      using r by (auto simp: json_node_def abind_def split: prod.splits sum.splits)
    then show ?thesis by (rule jb[OF _ op])
  qed
  have sub: "fst (json_binary_op E (DStr ''-'') (DTuple xs) y h) \<noteq> Inr r" for xs y h r
    by (auto simp: json_binary_op_def pair_with_list_def py_arith_def abind_def araise_def split: prod.splits sum.splits option.splits)
  have "fst (eval_json E obj (DraftASTNode BINARY_OP [?n, n] (DStr ''-'') u' f') h) \<noteq> Inr r"
    if op: "op \<in> {DStr ''+'', DStr ''-'', DStr ''*'', DStr ''/'', DStr ''//''}"
  proof
    assume "fst (eval_json E obj (DraftASTNode BINARY_OP [?n, n] (DStr ''-'') u' f') h) = Inr r"
    then have "fst (abind (eval_json E obj ?n) (\<lambda>x. abind (eval_json E obj n) (\<lambda>y. json_binary_op E (DStr ''-'') x y)) h) = Inr r"
      by (simp add: json_node_def kid_def)
    then obtain c g b g' where c: "eval_json E obj ?n h = (Inr c, g)" and b: "fst (json_binary_op E (DStr ''-'') c b g') = Inr r"
      by (auto simp: abind_def split: prod.splits sum.splits)
    have "fst (eval_json E obj ?n h) = Inr c" using c by simp
    moreover have "op \<in> {DStr ''&&'', DStr ''||'', DStr ''+'', DStr ''-'', DStr ''*'', DStr ''/'', DStr ''//''}" using op by blast
    ultimately obtain w e where "c = DTuple [w, e]" using l by blast
    then show False using sub b by blast
  qed
  moreover have "where_op E c x y g = x" if o: "op \<in> {DStr ''&&'', DStr ''||''}" and r: "eval_json E obj ?n h = (Inr c, h')"
  proof -
    have "op \<in> {DStr ''&&'', DStr ''||'', DStr ''+'', DStr ''-'', DStr ''*'', DStr ''/'', DStr ''//''}" using o by blast
    then obtain w e where "c = DTuple [w, e]" using l[of h c] r by fastforce
    then show ?thesis by (simp add: where_op_def truth_def)
  qed
  ultimately show ?thesis by blast
qed

lemma json_operators_make_pairs_witness:
  "let lit = \<lambda>b. DraftASTNode JSON_LITERAL [] (DBool b) DNone None;
       both = DraftASTNode BINARY_OP [lit False, lit True] (DStr ''&&'') DNone None;
       diff = DraftASTNode BINARY_OP [lit True, lit True] (DStr ''-'') DNone None in
   (\<exists>c h'. eval_json int_env (DRef 0) both small_doc = (Inr c, h') \<and> where_op int_env c (DInt 1) (DInt 2) h' = DInt 1) \<and>
   fst (eval_json int_env (DRef 0) (DraftASTNode BINARY_OP [diff, lit True] (DStr ''-'') DNone None) small_doc) \<noteq> Inr (DInt 0)"
proof -
  let ?lit = "\<lambda>b. DraftASTNode JSON_LITERAL [] (DBool b) DNone None"
  have "\<exists>c h'. eval_json int_env (DRef 0) (DraftASTNode BINARY_OP [?lit False, ?lit True] (DStr ''&&'') DNone None) small_doc = (Inr c, h')"
    by (simp add: json_node_def kid_def json_binary_op_def pair_with_list_def abind_def aret_def alloc_def aread_def py_and_def truth_def)
  then obtain c h' where c: "eval_json int_env (DRef 0) (DraftASTNode BINARY_OP [?lit False, ?lit True] (DStr ''&&'') DNone None) small_doc = (Inr c, h')"
    by blast
  have "where_op int_env c (DInt 1) (DInt 2) h' = DInt 1"
    by (rule json_operators_make_pairs[THEN conjunct1, THEN mp, OF conjI, OF _ c]) simp
  moreover have "fst (eval_json int_env (DRef 0) (DraftASTNode BINARY_OP
      [DraftASTNode BINARY_OP [?lit True, ?lit True] (DStr ''-'') DNone None, ?lit True] (DStr ''-'') DNone None) small_doc) \<noteq> Inr (DInt 0)"
    by (rule json_operators_make_pairs[THEN conjunct2, THEN mp]) simp
  ultimately show ?thesis unfolding Let_def using c by (intro conjI exI)
qed

end
