(* ===== verification/DraftApply.thy ===== *)
theory DraftApply
  imports DraftJson
begin

text \<open>
  Draft updates (\<open>core/datamodel/draft.py\<close>): an operation on the value a draft expression denotes,
  and the functions that apply lists of them to a document of objects (\<open>apply_ops\<close>), to its stored
  form (\<open>apply_ops_json\<close>), or to a stored document that may be replaced as a whole
  (\<open>apply_ops_json_root\<close>). An operation and its \<open>opData\<close> are one value: the constructor is the
  \<open>JMESPathOpType\<close> and its arguments are the entries of \<open>opData\<close> that the operation reads.
\<close>

subsection \<open>Operations\<close>

datatype inplace_op = IAdd | ISub | IMul | IDiv

fun inplace_arith :: "inplace_op \<Rightarrow> arith" where
  "inplace_arith IAdd = Add" | "inplace_arith ISub = Sub" | "inplace_arith IMul = Mul" | "inplace_arith IDiv = Div"

text \<open>\<open>ArrayPop\<close> holds \<open>opData.get("index", None)\<close>; \<open>SliceOp\<close> is \<open>JMESPathOpType.Slice\<close>.\<close>

datatype draft_op =
    RootAssign val
  | RootInplaceOp inplace_op val
  | SetAttr "(string \<times> val) list"
  | Delete "val list"
  | Extend val
  | SliceOp
  | ArraySet "(val \<times> val) list"
  | ArrayPop val
  | ArrayInsert val val
  | ArrayRemove val
  | ContainerClear
  | DictUpdate "(val \<times> val) list"
  | Assign val
  | ScalarInplaceOp inplace_op val val

record draft_update =
  du_op :: draft_op
  du_node :: draft_node
  du_userdata :: val
  du_nodes :: "draft_node list"
  du_field_id :: "int option"
  du_external :: bool
  du_store_external :: bool

text \<open>\<open>op.op >= 0\<close>\<close>

fun not_root_op :: "draft_op \<Rightarrow> bool" where
  "not_root_op (RootAssign _) = False"
| "not_root_op (RootInplaceOp _ _) = False"
| "not_root_op _ = True"

definition du_to_userdata_removed :: "draft_update \<Rightarrow> draft_update" where
  "du_to_userdata_removed u = u\<lparr>du_userdata := DNone, du_node := to_userdata_removed (du_node u)\<rparr>"

definition has_dynamic_node_in_main_path :: "draft_update \<Rightarrow> bool" where
  "has_dynamic_node_in_main_path u =
     list_ex (\<lambda>n. nd_type n = FUNC_CALL \<and> nd_value n \<in> {DStr ''getAttr'', DStr ''getItemPath'', DStr ''where''})
       (get_child_nodes_in_main_path (du_node u))"

subsection \<open>Applying one operation\<close>

text \<open>\<open>cur[key] op= value\<close>\<close>

definition item_inplace :: "py_env \<Rightarrow> inplace_op \<Rightarrow> val \<Rightarrow> val \<Rightarrow> val \<Rightarrow> (heap, unit) act" where
  "item_inplace E f cur key value =
     abind (aread (py_getitem E cur key)) (\<lambda>x.
       abind (py_iarith E (inplace_arith f) x value) (\<lambda>r. py_setitem E cur key r))"

definition attr_inplace :: "py_env \<Rightarrow> inplace_op \<Rightarrow> val \<Rightarrow> val \<Rightarrow> val \<Rightarrow> (heap, unit) act" where
  "attr_inplace E f cur key value =
     abind (aread (py_getattr E cur key)) (\<lambda>x.
       abind (py_arith E (inplace_arith f) x value) (\<lambda>r. py_setattr cur key r))"

text \<open>\<open>isinstance(cur_obj, (MutableSequence, MutableMapping))\<close>\<close>

definition is_mutable_container :: "heap \<Rightarrow> val \<Rightarrow> bool" where
  "is_mutable_container h v \<longleftrightarrow> as_list h v \<noteq> None \<or> as_dict h v \<noteq> None"

definition set_items :: "py_env \<Rightarrow> val \<Rightarrow> (val \<times> val) list \<Rightarrow> (heap, unit) act" where
  "set_items E cur items = afor (\<lambda>(k, v). py_setitem E cur k v) items"

definition pop_index :: "py_env \<Rightarrow> val \<Rightarrow> val \<Rightarrow> (heap, unit) act" where
  "pop_index E cur idx = (if idx = DNone then py_pop_last cur else py_pop E cur idx)"

definition apply_op :: "py_env \<Rightarrow> val \<Rightarrow> draft_op \<Rightarrow> val \<Rightarrow> (heap, unit) act" where
  "apply_op E cur op dynamic_key = (case op of
     SetAttr items \<Rightarrow> afor (\<lambda>(k, v). py_setattr cur (DStr k) v) items
   | Delete ks \<Rightarrow> afor (py_pop E cur) ks
   | Extend items \<Rightarrow> py_extend cur items
   | ArraySet items \<Rightarrow> set_items E cur items
   | ArrayPop idx \<Rightarrow> pop_index E cur idx
   | ArrayInsert idx item \<Rightarrow> py_insert cur idx item
   | ArrayRemove item \<Rightarrow> py_remove E cur item
   | ContainerClear \<Rightarrow> py_clear cur
   | DictUpdate items \<Rightarrow> set_items E cur items
   | Assign value \<Rightarrow> if dynamic_key = DNone then araise AssertionError else py_setitem E cur dynamic_key value
   | ScalarInplaceOp f key value \<Rightarrow>
       (\<lambda>h. if is_mutable_container h cur then item_inplace E f cur key value h else attr_inplace E f cur key value h)
   | _ \<Rightarrow> araise NotImplementedError)"

definition apply_op_json :: "py_env \<Rightarrow> val \<Rightarrow> draft_op \<Rightarrow> val \<Rightarrow> (heap, unit) act" where
  "apply_op_json E cur op dynamic_key = (case op of
     SetAttr items \<Rightarrow> set_items E cur (map (\<lambda>(k, v). (DStr k, v)) items)
   | Delete ks \<Rightarrow> afor (py_pop E cur) ks
   | Extend items \<Rightarrow> py_extend cur items
   | ArraySet items \<Rightarrow> set_items E cur items
   | ArrayPop idx \<Rightarrow> pop_index E cur idx
   | ArrayInsert idx item \<Rightarrow> py_insert cur idx item
   | ArrayRemove item \<Rightarrow> py_remove E cur item
   | ContainerClear \<Rightarrow> py_clear cur
   | DictUpdate items \<Rightarrow> set_items E cur items
   | Assign value \<Rightarrow> py_setitem E cur dynamic_key value
   | ScalarInplaceOp f key value \<Rightarrow> item_inplace E f cur key value
   | _ \<Rightarrow> araise NotImplementedError)"

subsection \<open>Applying a list of operations\<close>

text \<open>
  The key of an \<open>Assign\<close> is the value of the first additional node; other operations have none.
\<close>

definition dynamic_key :: "(draft_node \<Rightarrow> (heap, val) act) \<Rightarrow> draft_update \<Rightarrow> (heap, val) act" where
  "dynamic_key ev u = (case du_op u of
     Assign _ \<Rightarrow> (case du_nodes u of [] \<Rightarrow> araise IndexError | n # _ \<Rightarrow> ev n)
   | _ \<Rightarrow> aret DNone)"

definition apply_update :: "py_env \<Rightarrow> val \<Rightarrow> bool \<Rightarrow> draft_update \<Rightarrow> (heap, unit) act" where
  "apply_update E obj ignore_exc u h = (case eval_ast E obj (du_node u) h of
     (Inl e, h1) \<Rightarrow> if ignore_exc then (Inr (), h1) else (Inl e, h1)
   | (Inr cur, h1) \<Rightarrow> abind (dynamic_key (eval_ast E obj) u) (apply_op E cur (du_op u)) h1)"

definition check_no_root :: "draft_update list \<Rightarrow> (heap, unit) act" where
  "check_no_root ops = (if list_all (\<lambda>u. not_root_op (du_op u)) ops then aret () else araise AssertionError)"

definition apply_ops :: "py_env \<Rightarrow> val \<Rightarrow> draft_update list \<Rightarrow> bool \<Rightarrow> (heap, unit) act" where
  "apply_ops E obj ops ignore_exc = abind (check_no_root ops) (\<lambda>_. afor (apply_update E obj ignore_exc) ops)"

text \<open>The ids collected are those of the objects in these sets.\<close>

fun apply_ids_loop ::
  "py_env \<Rightarrow> val \<Rightarrow> bool \<Rightarrow> draft_update list \<Rightarrow> val set \<times> val set \<Rightarrow> (heap, val set \<times> val set) act" where
  "apply_ids_loop E obj ign [] ids = aret ids"
| "apply_ids_loop E obj ign (u # us) (parents, changed) =
     (\<lambda>h. case eval_trace E obj (du_node u) h of
        (Inl e, h1) \<Rightarrow> if ign then apply_ids_loop E obj ign us (parents, changed) h1 else (Inl e, h1)
      | (Inr (cur, trace), h1) \<Rightarrow>
          abind (dynamic_key (eval_ast E obj) u) (\<lambda>k.
            abind (apply_op E cur (du_op u) k) (\<lambda>_.
              apply_ids_loop E obj ign us (parents \<union> set trace,
                (case du_op u of ScalarInplaceOp _ _ _ \<Rightarrow> changed | _ \<Rightarrow> insert cur changed)))) h1)"

definition apply_ops_ids ::
  "py_env \<Rightarrow> val \<Rightarrow> draft_update list \<Rightarrow> bool \<Rightarrow> (heap, val set \<times> val set) act" where
  "apply_ops_ids E obj ops ign = abind (check_no_root ops) (\<lambda>_. apply_ids_loop E obj ign ops ({}, {}))"

definition apply_update_json :: "py_env \<Rightarrow> val \<Rightarrow> draft_update \<Rightarrow> (heap, unit) act" where
  "apply_update_json E obj u =
     abind (eval_json E obj (du_node u)) (\<lambda>cur.
       abind (dynamic_key (eval_json E obj) u) (apply_op_json E cur (du_op u)))"

definition apply_ops_json :: "py_env \<Rightarrow> val \<Rightarrow> draft_update list \<Rightarrow> (heap, unit) act" where
  "apply_ops_json E obj ops = abind (check_no_root ops) (\<lambda>_. afor (apply_update_json E obj) ops)"

fun json_root_loop :: "py_env \<Rightarrow> draft_update list \<Rightarrow> bool \<Rightarrow> val \<Rightarrow> (heap, bool \<times> val) act" where
  "json_root_loop E [] changed obj = aret (changed, obj)"
| "json_root_loop E (u # us) changed obj = (case du_op u of
     RootAssign v \<Rightarrow> json_root_loop E us True v
   | RootInplaceOp f v \<Rightarrow> abind (py_iarith E (inplace_arith f) obj v) (\<lambda>obj'. json_root_loop E us True obj')
   | _ \<Rightarrow> abind (apply_update_json E obj u) (\<lambda>_. json_root_loop E us changed obj))"

definition apply_ops_json_root :: "py_env \<Rightarrow> val \<Rightarrow> draft_update list \<Rightarrow> (heap, bool \<times> val) act" where
  "apply_ops_json_root E obj ops =
     (if obj = DNone then
        (case ops of [] \<Rightarrow> araise IndexError
         | u # _ \<Rightarrow> (case du_op u of RootAssign _ \<Rightarrow> json_root_loop E ops False obj | _ \<Rightarrow> araise AssertionError))
      else json_root_loop E ops False obj)"

subsection \<open>Updates run one after the other\<close>

lemma afor_append: "afor f (xs @ ys) h = abind (afor f xs) (\<lambda>_. afor f ys) h"
  by (induction xs arbitrary: h) (auto simp: abind_def split: sum.split prod.split)

text \<open>
  A root operation anywhere in the list refuses the whole list before anything is applied; without
  one, the updates are applied one by one, so an update that fails leaves the changes of those before
  it (there is no validation of the whole list first).
\<close>

lemma updates_are_sequential:
  "apply_ops E obj (xs @ ys) ign h =
     (if list_all (\<lambda>u. not_root_op (du_op u)) (xs @ ys)
      then abind (apply_ops E obj xs ign) (\<lambda>_. apply_ops E obj ys ign) h
      else (Inl AssertionError, h))"
proof (cases "list_all (\<lambda>u. not_root_op (du_op u)) (xs @ ys)")
  case True
  then show ?thesis by (simp add: apply_ops_def check_no_root_def afor_append abind_def)
next
  case False
  then show ?thesis by (simp only: apply_ops_def check_no_root_def if_False abind_def araise_def) simp
qed

subsection \<open>The stored document follows the live one\<close>

definition is_scalar :: "val \<Rightarrow> bool" where
  "is_scalar v \<longleftrightarrow> (case v of DTuple _ \<Rightarrow> False | DRef _ \<Rightarrow> False | _ \<Rightarrow> True)"

text \<open>
  Updates a scalar draft records: in-place operations with a number, and removal of a scalar. (An
  in-place product by an integer is left out: on a list held by a dataclass field it makes a new list,
  on the stored form it repeats the list in place.)
\<close>

fun plain_op :: "draft_op \<Rightarrow> bool" where
  "plain_op (ScalarInplaceOp f k v) \<longleftrightarrow> as_num v \<noteq> None \<and> (f = IMul \<longrightarrow> as_int v = None)"
| "plain_op (ArrayRemove v) \<longleftrightarrow> is_scalar v"
| "plain_op _ \<longleftrightarrow> True"

lemma refinesI: "(\<And>h h' x. m h = (Inr x, h') \<Longrightarrow> j (json_heap h) = (Inr x, json_heap h')) \<Longrightarrow> refines m j"
  by (simp add: refines_def)

lemma refinesD: "refines m j \<Longrightarrow> m h = (Inr x, h') \<Longrightarrow> j (json_heap h) = (Inr x, json_heap h')"
  by (simp add: refines_def)

lemma refines_afor [refs]:
  assumes "\<And>x. refines (f x) (g x)"
  shows "refines (afor f xs) (afor g xs)"
proof (rule refinesI)
  fix h h' :: heap and u :: unit
  assume "afor f xs h = (Inr u, h')"
  then show "afor g xs (json_heap h) = (Inr u, json_heap h')"
  proof (induction xs arbitrary: h)
    case (Cons x xs)
    then obtain h1 where "f x h = (Inr (), h1)" "afor f xs h1 = (Inr u, h')" by (auto split: prod.splits sum.splits)
    then show ?case using refinesD[OF assms] Cons.IH by simp
  qed simp
qed

lemma refines_setitem [refs]: "refines (py_setitem E x k v) (py_setitem E x k v)"
  by (rule refinesI, cases x)
    (auto simp: py_setitem_def act_simps store_obj_def json_heap_update split: option.splits obj.splits sum.splits)

lemma refines_setattr [refs]: "refines (py_setattr x k v) (py_setitem E x k v)"
  by (rule refinesI, cases x; cases k)
    (auto simp: py_setattr_def py_setitem_def act_simps store_obj_def json_heap_update dset_str_keys split: option.splits obj.splits)

lemma no_method_fails: "no_method x name h \<noteq> (Inr r, h')"
  by (auto simp: no_method_def araise_def split: option.splits)

lemma refines_pop [refs]: "refines (py_pop E x k) (py_pop E x k)"
  by (rule refinesI, cases x)
    (auto simp: py_pop_def act_simps no_method_fails store_obj_def json_heap_update split: option.splits obj.splits sum.splits if_splits)

lemma refines_pop_last [refs]: "refines (py_pop_last x) (py_pop_last x)"
  by (rule refinesI, cases x)
    (auto simp: py_pop_last_def act_simps no_method_fails store_obj_def json_heap_update split: option.splits obj.splits if_splits)

lemma refines_pop_index [refs]: "refines (pop_index E x k) (pop_index E x k)"
  unfolding pop_index_def by (intro refs)

lemma refines_clear [refs]: "refines (py_clear x) (py_clear x)"
  by (rule refinesI, cases x)
    (auto simp: py_clear_def act_simps no_method_fails store_obj_def json_heap_update split: option.splits obj.splits)

lemma refines_store_list [refs]: "refines (store_obj a (OList xs)) (store_obj a (OList xs))"
  by (rule refinesI) (auto simp: store_obj_def json_heap_update)

lemma refines_alloc_list [refs]: "refines (alloc (OList xs)) (alloc (OList xs))"
  by (rule refinesI) (auto simp: alloc_def json_heap_append json_heap_def)

lemma refines_on_list [refs]: "(\<And>a xs. refines (f a xs) (g a xs)) \<Longrightarrow> refines (on_list name x f) (on_list name x g)"
  by (rule refinesI, cases x)
    (auto simp: on_list_def no_method_fails dest: refinesD split: option.splits obj.splits)

lemma refines_iter [refs]: "refines (aread (py_iter v)) (aread (py_iter v))"
  by (rule refines_aread, cases v) (auto simp: py_iter_def split: option.splits obj.splits)

lemma refines_extend [refs]: "refines (py_extend x items) (py_extend x items)"
  unfolding py_extend_def by (intro refs)

lemma refines_option [refs]: "(\<And>x. refines (f x) (g x)) \<Longrightarrow> refines m k \<Longrightarrow>
   refines (case r of None \<Rightarrow> m | Some x \<Rightarrow> f x) (case r of None \<Rightarrow> k | Some x \<Rightarrow> g x)"
  by (cases r) auto

lemma refines_insert [refs]: "refines (py_insert x i v) (py_insert x i v)"
  unfolding py_insert_def Let_def by (intro refs)

lemma eq_scalar_json:
  assumes "is_scalar v" "eq_fuel E h n x v = Inr b"
  shows "eq_fuel E (json_heap h) n x v = Inr b"
  using assms by (cases n; cases x; cases v) (auto simp: eq_step_def is_scalar_def)

lemma find_eq_json: "is_scalar v \<Longrightarrow> find_eq E h v i xs = Inr r \<Longrightarrow> find_eq E (json_heap h) v i xs = Inr r"
proof (induction xs arbitrary: i)
  case (Cons x xs)
  show ?case
  proof (cases "same_ref x v")
    case False
    then obtain b where b: "eq_fuel E h (pe_limit E) x v = Inr b" "(if b then Inr (Some i) else find_eq E h v (Suc i) xs) = Inr r"
      using Cons.prems(2) by (auto simp: res_simps py_eq_def)
    have "eq_fuel E (json_heap h) (pe_limit E) x v = Inr b" by (rule eq_scalar_json[OF Cons.prems(1) b(1)])
    then show ?thesis using False b(2) Cons.IH[OF Cons.prems(1)] by (cases b) (simp_all add: py_eq_def)
  qed (use Cons.prems in simp)
qed simp

lemma refines_remove: "is_scalar v \<Longrightarrow> refines (py_remove E x v) (py_remove E x v)"
  unfolding py_remove_def by (intro refs refines_aread find_eq_json)

lemma refines_arith [refs]: "refines (py_arith E f x y) (py_arith E f x y)"
proof (rule refinesI)
  fix h h' r
  assume "py_arith E f x y h = (Inr r, h')"
  then show "py_arith E f x y (json_heap h) = (Inr r, json_heap h')"
    by (cases x; cases y; cases f)
      (auto simp: py_arith_def aread_def act_simps seq_add_def seq_times_def alloc_def json_heap_append
        split: option.splits obj.splits sum.splits)
qed

lemma refines_iarith [refs]: "refines (py_iarith E f x y) (py_iarith E f x y)"
proof (rule refinesI)
  fix h h' r
  assume a: "py_iarith E f x y h = (Inr r, h')"
  have add: "refines (abind (aread (py_iter y)) (\<lambda>ys. abind (store_obj a (OList (xs @ ys))) (\<lambda>_. aret x)))
     (abind (aread (py_iter y)) (\<lambda>ys. abind (store_obj a (OList (xs @ ys))) (\<lambda>_. aret x)))"
    "refines (abind (store_obj a (OList xs)) (\<lambda>_. aret x)) (abind (store_obj a (OList xs)) (\<lambda>_. aret x))" for a xs
    by (intro refs)+
  show "py_iarith E f x y (json_heap h) = (Inr r, json_heap h')"
    using a refinesD[OF add(1)] refinesD[OF add(2)] refinesD[OF refines_arith]
    by (cases x; cases "as_list h x"; cases f)
      (auto simp: py_iarith_def araise_def simp del: as_list.simps split: option.splits)
qed

lemma refines_item_inplace [refs]: "refines (item_inplace E f cur k v) (item_inplace E f cur k v)"
  unfolding item_inplace_def by (intro refs)

lemma arith_iarith:
  assumes "as_num v \<noteq> None" "f = Mul \<longrightarrow> as_int v = None" "py_arith E f x v h = (Inr r, h')"
  shows "py_iarith E f x v h = (Inr r, h')"
proof (cases "as_list h x")
  case None
  then show ?thesis using assms(3) by (cases x) (auto simp: py_iarith_def split: option.splits)
next
  case (Some xs)
  then obtain a where x: "x = DRef a" by (cases x) auto
  have "f \<noteq> Add" "f \<noteq> Mul"
    using assms x Some by (cases v; auto simp: py_arith_def seq_add_def araise_def split: option.splits)+
  then show ?thesis using assms(3) x Some by (cases f) (auto simp: py_iarith_def)
qed

lemma refines_attr_inplace:
  assumes "no_attrs E" "as_num v \<noteq> None" "f = IMul \<longrightarrow> as_int v = None"
  shows "refines (attr_inplace E f cur k v) (item_inplace E f cur k v)"
proof -
  have "refines (py_arith E (inplace_arith f) x v) (py_iarith E (inplace_arith f) x v)" for x
  proof (rule refinesI)
    fix h h' r
    assume "py_arith E (inplace_arith f) x v h = (Inr r, h')"
    from refinesD[OF refines_arith this] show "py_iarith E (inplace_arith f) x v (json_heap h) = (Inr r, json_heap h')"
      by (intro arith_iarith[OF assms(2)]) (use assms(3) in \<open>cases f; simp\<close>)+
  qed
  then show ?thesis unfolding attr_inplace_def item_inplace_def using assms(1) by (intro refs)
qed

lemma set_items_cases: "refines (set_items E cur xs) (set_items E cur xs)"
  unfolding set_items_def by (rule refines_afor) (auto intro: refs)

lemma afor_map: "afor f (map g xs) h = afor (\<lambda>x. f (g x)) xs h"
  by (induction xs arbitrary: h) (auto split: prod.split sum.split)

lemma set_attrs_refines:
  "refines (afor (\<lambda>(k, v). py_setattr cur (DStr k) v) items) (set_items E cur (map (\<lambda>(k, v). (DStr k, v)) items))"
proof -
  have "set_items E cur (map (\<lambda>(k, v). (DStr k, v)) items) = afor (\<lambda>(k, v). py_setitem E cur (DStr k) v) items"
    by (rule ext) (simp add: set_items_def afor_map split_def)
  moreover have "refines (afor (\<lambda>(k, v). py_setattr cur (DStr k) v) items) (afor (\<lambda>(k, v). py_setitem E cur (DStr k) v) items)"
    by (rule refines_afor) (auto intro: refs)
  ultimately show ?thesis by simp
qed

lemma apply_op_refines:
  assumes "no_attrs E" "plain_op op"
  shows "refines (apply_op E cur op k) (apply_op_json E cur op k)"
proof (cases op)
  case (ScalarInplaceOp f key v)
  have "refines (item_inplace E f cur key v) (item_inplace E f cur key v)" by (intro refs)
  moreover have "refines (attr_inplace E f cur key v) (item_inplace E f cur key v)"
    using refines_attr_inplace[OF assms(1)] assms(2) ScalarInplaceOp by simp
  ultimately show ?thesis using ScalarInplaceOp by (auto simp: apply_op_def apply_op_json_def refines_def split: if_splits)
qed (use assms(2) in \<open>auto simp: apply_op_def apply_op_json_def intro!: refs refines_remove set_items_cases set_attrs_refines\<close>)

definition plain_update :: "draft_update \<Rightarrow> bool" where
  "plain_update u \<longleftrightarrow> path_only (du_node u) \<and> list_all path_only (du_nodes u) \<and> plain_op (du_op u)"

lemma apply_update_refines:
  assumes "no_attrs E" "plain_update u"
  shows "refines (apply_update E obj False u) (apply_update_json E obj u)"
proof -
  have p: "path_only (du_node u)" "list_all path_only (du_nodes u)" "plain_op (du_op u)"
    using assms(2) by (auto simp: plain_update_def)
  have k: "refines (dynamic_key (eval_ast E obj) u) (dynamic_key (eval_json E obj) u)"
    using path_refines[OF assms(1), where obj = obj] p(2)
    by (auto simp: dynamic_key_def intro: refs split: draft_op.split list.split)
  have eq: "apply_update E obj False u =
      abind (eval_ast E obj (du_node u)) (\<lambda>cur. abind (dynamic_key (eval_ast E obj) u) (apply_op E cur (du_op u)))"
    by (rule ext) (simp add: apply_update_def abind_def split: prod.split sum.split)
  show ?thesis unfolding eq apply_update_json_def
    by (intro refines_abind path_refines assms(1) p k apply_op_refines)
qed


definition update_of :: "draft_op \<Rightarrow> draft_node \<Rightarrow> draft_node list \<Rightarrow> draft_update" where
  "update_of op n ns = \<lparr>du_op = op, du_node = n, du_userdata = DNone, du_nodes = ns, du_field_id = None,
     du_external = False, du_store_external = False\<rparr>"

text \<open>\<open>doc.n = 7; doc.a.append(1); doc.a[0] += 3\<close>\<close>

definition sample_updates :: "draft_update list" where
  "sample_updates =
     [update_of (SetAttr [(''n'', DInt 7)]) ROOT_NODE [],
      update_of (ArrayInsert (DInt 2) (DInt 1)) (attr_node ROOT_NODE ''a'') [],
      update_of (ScalarInplaceOp IAdd (DInt 0) (DInt 3)) (attr_node ROOT_NODE ''a'') []]"

definition updated_doc :: heap where
  "updated_doc = [OData ''C'' [(''a'', DRef 1), (''n'', DInt 7)], OList [DInt 8, DInt 6, DInt 1]]"

lemmas eval_defs = eval_node_def kid_def abind_def aread_def aret_def py_getattr_def py_getitem_def hget_def index_of_def

lemmas apply_defs = check_no_root_def apply_update_def dynamic_key_def apply_op_def py_setattr_def py_setitem_def store_obj_def
  on_list_def py_insert_def Let_def is_mutable_container_def item_inplace_def py_iarith_def py_arith_def num_arith_def

lemmas sample_defs = sample_updates_def update_of_def attr_node_def item_node_def ROOT_NODE_def small_doc_def updated_doc_def

lemma sample_applied: "apply_ops int_env (DRef 0) sample_updates False small_doc = (Inr (), updated_doc)"
  by (simp add: apply_ops_def sample_defs eval_defs apply_defs)


subsection \<open>The changed ids cover every change\<close>

definition touches :: "nat set \<Rightarrow> (heap, 'a) act \<Rightarrow> bool" where
  "touches S m \<longleftrightarrow> (\<forall>h. length h \<le> length (snd (m h)) \<and> (\<forall>a<length h. a \<notin> S \<longrightarrow> snd (m h) ! a = h ! a))"

named_theorems frames

lemma touches_mono: "touches S m \<Longrightarrow> S \<subseteq> T \<Longrightarrow> touches T m"
  unfolding touches_def by blast

lemma touches_allocates: "allocates m \<Longrightarrow> touches S m"
  unfolding allocates_def touches_def by (metis length_append le_add1 nth_append)

lemma touches_basic [frames]: "touches S (aret r)" "touches S (araise e)" "touches S (aread f)" "touches S (py_arith E g x y)"
  by (rule touches_allocates, rule allocs)+

lemma touches_store [frames]: "a \<in> S \<Longrightarrow> touches S (store_obj a ob)"
  by (auto simp: touches_def store_obj_def) (metis nth_list_update_neq)

lemma touches_abind [frames]:
  assumes "touches S m" "\<And>x. touches S (f x)"
  shows "touches S (abind m f)"
  unfolding touches_def
proof (intro allI)
  fix h
  obtain r h1 where m: "m h = (r, h1)" by (cases "m h")
  then have 1: "length h \<le> length h1" "\<forall>a<length h. a \<notin> S \<longrightarrow> h1 ! a = h ! a"
    using assms(1) unfolding touches_def by (metis snd_conv)+
  show "length h \<le> length (snd (abind m f h)) \<and> (\<forall>a<length h. a \<notin> S \<longrightarrow> snd (abind m f h) ! a = h ! a)"
  proof (cases r)
    case (Inr x)
    have "length h1 \<le> length (snd (f x h1)) \<and> (\<forall>a<length h1. a \<notin> S \<longrightarrow> snd (f x h1) ! a = h1 ! a)"
      using assms(2) unfolding touches_def by blast
    then show ?thesis using m 1 Inr by (auto simp: abind_def)
  qed (use m 1 in \<open>simp add: abind_def\<close>)
qed

lemma touches_afor [frames]:
  assumes "\<And>x. touches S (f x)"
  shows "touches S (afor f xs)"
proof (induction xs)
  case Nil
  then show ?case by (simp add: touches_def)
next
  case (Cons x xs)
  have "afor f (x # xs) = abind (f x) (\<lambda>_. afor f xs)"
    by (rule ext) (simp add: abind_def split: prod.split sum.split)
  then show ?case using touches_abind[OF assms Cons] by simp
qed

lemma touches_at:
  "(\<And>h. \<exists>n. (n :: (heap, 'a) act) h = m h \<and> touches S n) \<Longrightarrow> touches S m"
  unfolding touches_def by metis

definition at :: "val \<Rightarrow> nat set" where
  "at x = {a. x = DRef a}"

lemma touches_case_ref:
  assumes "\<And>a. x = DRef a \<Longrightarrow> touches S (f a)" "touches S m"
  shows "touches S (\<lambda>h. case x of DRef a \<Rightarrow> f a h | _ \<Rightarrow> m h)"
  using assms by (cases x) simp_all

lemma touches_no_method [frames]: "touches S (no_method x n)"
  by (auto simp: touches_def no_method_def araise_def split: option.splits)

lemma touches_setitem [frames]: "touches (at x) (py_setitem E x k v)"
  by (cases x) (auto simp: touches_def at_def py_setitem_def araise_def store_obj_def nth_list_update
      split: option.splits obj.splits sum.splits)

lemma touches_setattr [frames]: "touches (at x) (py_setattr x k v)"
  by (cases x; cases k) (auto simp: touches_def at_def py_setattr_def araise_def store_obj_def nth_list_update
      split: option.splits obj.splits sum.splits)

lemma no_method_heap [simp]: "snd (no_method x n h) = h"
  by (auto simp: no_method_def araise_def split: option.splits)

lemma touches_pop [frames]: "touches (at x) (py_pop E x k)" "touches (at x) (py_pop_last x)" "touches (at x) (py_clear x)"
  by (cases x; auto simp: touches_def at_def py_pop_def py_pop_last_def py_clear_def araise_def store_obj_def nth_list_update
      split: option.splits obj.splits sum.splits if_splits)+

lemma touches_on_list:
  assumes "\<And>a xs. touches {a} (f a xs)"
  shows "touches (at x) (on_list n x f)"
  using assms by (cases x) (auto simp: touches_def at_def on_list_def split: option.splits obj.splits)

lemma touches_option: "(\<And>x. touches S (f x)) \<Longrightarrow> touches S m \<Longrightarrow> touches S (case r of None \<Rightarrow> m | Some x \<Rightarrow> f x)"
  by (cases r) auto

lemma touches_list_methods [frames]:
  "touches (at x) (py_extend x v)" "touches (at x) (py_insert x i v)" "touches (at x) (py_remove E x v)"
  unfolding py_extend_def py_insert_def py_remove_def Let_def
  by (intro touches_on_list frames touches_option singletonI)+

lemma iarith_number:
  assumes "as_num v \<noteq> None" "f = Mul \<longrightarrow> as_int v = None"
  shows "touches S (py_iarith E f x v)"
proof -
  have "snd (py_iarith E f x v h) = snd (py_arith E f x v h) \<or> snd (py_iarith E f x v h) = h" for h
    using assms by (cases x; cases f; cases v)
      (auto simp: py_iarith_def py_iter_def abind_def aread_def araise_def split: option.splits)
  then show ?thesis using touches_basic(4)[of S E f x v] unfolding touches_def by (metis order_refl)
qed

lemma touches_inplace:
  assumes "as_num v \<noteq> None" "f = IMul \<longrightarrow> as_int v = None"
  shows "touches (at cur) (item_inplace E f cur k v)" "touches (at cur) (attr_inplace E f cur k v)"
proof -
  have m: "inplace_arith f = Mul \<longrightarrow> as_int v = None" using assms(2) by (cases f) auto
  show "touches (at cur) (item_inplace E f cur k v)"
    unfolding item_inplace_def by (intro touches_abind touches_basic iarith_number[OF assms(1) m] touches_setitem)
  show "touches (at cur) (attr_inplace E f cur k v)"
    unfolding attr_inplace_def by (intro touches_abind touches_basic touches_setattr)
qed

lemma touches_set_items [frames]: "touches (at cur) (set_items E cur xs)"
  unfolding set_items_def by (rule touches_afor) (auto intro: frames)

lemma apply_op_touches:
  assumes "plain_op op"
  shows "touches (at cur) (apply_op E cur op k)"
proof (cases op)
  case (ScalarInplaceOp f key v)
  then show ?thesis using touches_inplace[of v f cur E key] assms by (simp add: apply_op_def touches_def)
next
  case (SetAttr items)
  have "touches (at cur) (afor (\<lambda>(k, v). py_setattr cur (DStr k) v) items)"
    by (rule touches_afor) (auto intro: frames)
  then show ?thesis using SetAttr by (simp add: apply_op_def)
next
  case (Delete ks)
  have "touches (at cur) (afor (py_pop E cur) ks)" by (intro frames)
  then show ?thesis using Delete by (simp add: apply_op_def)
qed (simp_all add: apply_op_def pop_index_def frames)

lemma trace_ends_at_value:
  assumes "main_path n" "eval_trace E obj n h = (Inr (v, tr), h')"
  shows "v \<in> set tr"
proof -
  have "map Inr tr = map (\<lambda>n. fst (eval_ast E obj n h)) (rev (get_child_nodes_in_main_path n))" "eval_ast E obj n h = (Inr v, h)"
    using main_path_trace[OF assms] by simp_all
  then have "Inr v \<in> (Inr :: val \<Rightarrow> val res) ` set tr"
    by (cases n) (metis (no_types, lifting) fst_conv get_child_nodes_in_main_path.simps image_eqI list.set_intros(1) list.set_map set_rev)
  then show ?thesis by auto
qed

definition tracked_update :: "draft_update \<Rightarrow> bool" where
  "tracked_update u \<longleftrightarrow> main_path (du_node u) \<and> plain_op (du_op u)"

lemma ids_loop_frame:
  assumes "list_all tracked_update us" "apply_ids_loop E obj ign us (ps, cs) h = (Inr (ps', cs'), h')"
  shows "length h \<le> length h' \<and> ps \<subseteq> ps' \<and> (cs \<subseteq> ps \<longrightarrow> cs' \<subseteq> ps') \<and> (\<forall>a<length h. DRef a \<notin> ps' \<longrightarrow> h' ! a = h ! a)"
  using assms
proof (induction us arbitrary: ps cs h)
  case Nil
  then show ?case by (simp add: aret_def)
next
  case (Cons u us)
  have mp: "main_path (du_node u)" "plain_op (du_op u)" using Cons.prems(1) by (simp_all add: tracked_update_def)
  obtain r h1 where e: "eval_trace E obj (du_node u) h = (r, h1)" by (cases "eval_trace E obj (du_node u) h")
  have h1: "h1 = h" using quiet_Inr[OF quiet_eval_trace[OF main_path_traceable[OF mp(1)]] e] .
  show ?case
  proof (cases r)
    case (Inl err)
    then show ?thesis using Cons e h1 by (auto split: if_splits)
  next
    case (Inr vt)
    obtain cur tr where vt: "vt = (cur, tr)" by (cases vt)
    let ?cs = "case du_op u of ScalarInplaceOp _ _ _ \<Rightarrow> cs | _ \<Rightarrow> insert cur cs"
    obtain k h2 h3 where k: "dynamic_key (eval_ast E obj) u h = (Inr k, h2)" "apply_op E cur (du_op u) k h2 = (Inr (), h3)"
      "apply_ids_loop E obj ign us (ps \<union> set tr, ?cs) h3 = (Inr (ps', cs'), h')"
      using Cons.prems(2) e h1 Inr vt by (auto simp: abind_def split: prod.splits sum.splits)
    have cur: "cur \<in> set tr" using trace_ends_at_value[OF mp(1)] e Inr vt by blast
    have ih: "length h3 \<le> length h'" "ps \<union> set tr \<subseteq> ps'" "?cs \<subseteq> ps \<union> set tr \<longrightarrow> cs' \<subseteq> ps'"
      "\<forall>a<length h3. DRef a \<notin> ps' \<longrightarrow> h' ! a = h3 ! a"
      using Cons.IH[OF _ k(3)] Cons.prems(1) by simp_all
    have "touches {} (dynamic_key (eval_ast E obj) u)"
      by (rule touches_allocates) (auto simp: dynamic_key_def intro: allocs split: draft_op.split list.split)
    then have 2: "length h \<le> length h2" "\<forall>a<length h. h2 ! a = h ! a" using k(1) unfolding touches_def by (metis snd_conv empty_iff)+
    have 3: "length h2 \<le> length h3" "\<forall>a<length h2. a \<notin> at cur \<longrightarrow> h3 ! a = h2 ! a"
      using apply_op_touches[OF mp(2), of cur E k] k(2) unfolding touches_def by (metis snd_conv)+
    have "h' ! a = h ! a" if "a < length h" "DRef a \<notin> ps'" for a
    proof -
      have "a \<notin> at cur" using cur ih(2) that(2) by (auto simp: at_def)
      then show ?thesis using that 2 3 ih(1,4) by auto
    qed
    moreover have "cs \<subseteq> ps \<longrightarrow> ?cs \<subseteq> ps \<union> set tr" using cur by (auto split: draft_op.split)
    ultimately show ?thesis using ih 2(1) 3(1) by auto
  qed
qed


lemma sample_ids:
  "apply_ops_ids int_env (DRef 0) sample_updates False small_doc = (Inr ({DRef 0, DRef 1}, {DRef 0, DRef 1}), updated_doc)"
  by (simp add: apply_ops_ids_def sample_defs eval_defs apply_defs trace_node_def step_traced_def insert_commute)


end
