(* ===== verification/DraftEvents.thy ===== *)
theory DraftEvents
  imports DraftApply
begin

text \<open>
  Change events of draft expressions (\<open>core/datamodel/events.py\<close>): the values of the observed
  expressions are taken before and after a list of updates, and compared by identity, by the ids the
  updates changed, or by value.

  A handler evaluates its expressions through compiled Python functions. Compilation is the argument
  \<open>cmpl\<close>: it may fail, and what it returns is a callable of the model that may raise.
\<close>

datatype event_type =
    NoChange | ValueChange | ObjectIdChange | ValueChangeCustom | ObjectInplaceChange | ChildObjectChange
  | MountChange | UnmountChange

record change_event =
  ce_types :: "(string, event_type) dict"
  ce_old :: "(string, val) dict"
  ce_new :: "(string, val) dict"

definition is_item_changed :: "change_event \<Rightarrow> string \<Rightarrow> bool" where
  "is_item_changed ev k = (case dget (ce_types ev) k of None \<Rightarrow> False | Some t \<Rightarrow> t \<noteq> NoChange)"

definition is_changed :: "change_event \<Rightarrow> bool" where
  "is_changed ev = list_ex (\<lambda>t. t \<noteq> NoChange) (dvals (ce_types ev))"

fun only_value :: "(string, 'a) dict \<Rightarrow> 'a res" where
  "only_value [(k, v)] = Inr v"
| "only_value _ = Inl AssertionError"

definition event_type_of :: "change_event \<Rightarrow> event_type res" where
  "event_type_of ev = only_value (ce_types ev)"

definition event_new_value :: "change_event \<Rightarrow> val res" where
  "event_new_value ev = only_value (ce_new ev)"

definition event_old_value :: "change_event \<Rightarrow> val res" where
  "event_old_value ev = only_value (ce_old ev)"

type_synonym compiled = "val \<Rightarrow> (heap, val) act"

record event_handler =
  eh_exprs :: "(string, draft_node) dict"
  eh_equality :: "(val \<Rightarrow> val \<Rightarrow> heap \<Rightarrow> bool res) option"
  eh_child :: bool

definition create_draft_change_event_handler ::
  "draft_node \<Rightarrow> (val \<Rightarrow> val \<Rightarrow> heap \<Rightarrow> bool res) option \<Rightarrow> bool \<Rightarrow> event_handler" where
  "create_draft_change_event_handler node eqf child = \<lparr>eh_exprs = [([], node)], eh_equality = eqf, eh_child = child\<rparr>"

text \<open>Compilation is outside the \<open>try\<close>; whatever the compiled function raises gives \<open>None\<close>.\<close>

definition evaluate_draft_expr_noexcept :: "(draft_node \<Rightarrow> compiled res) \<Rightarrow> val \<Rightarrow> draft_node \<Rightarrow> (heap, val) act" where
  "evaluate_draft_expr_noexcept cmpl model node h = (case cmpl node of
     Inl e \<Rightarrow> (Inl e, h)
   | Inr f \<Rightarrow> (case f model h of (Inl e, h') \<Rightarrow> (Inr DNone, h') | (Inr v, h') \<Rightarrow> (Inr v, h')))"

definition is_plain :: "val \<Rightarrow> bool" where
  "is_plain v = (case v of DNone \<Rightarrow> True | DBool _ \<Rightarrow> True | DInt _ \<Rightarrow> True | DFloat _ \<Rightarrow> True | DStr _ \<Rightarrow> True | _ \<Rightarrow> False)"

definition key_event ::
  "py_env \<Rightarrow> event_handler \<Rightarrow> val set \<Rightarrow> val set \<Rightarrow> val \<Rightarrow> val \<Rightarrow> heap \<Rightarrow> event_type res" where
  "key_event E eh parents changed old new h = (case eh_equality eh of
     Some eqf \<Rightarrow> rbind (eqf old new h) (\<lambda>b. Inr (if b then NoChange else ValueChangeCustom))
   | None \<Rightarrow>
       if \<not> is_plain old then
         Inr (if old \<noteq> new then ObjectIdChange
              else if old \<in> changed then ObjectInplaceChange
              else if eh_child eh \<and> old \<in> parents then ChildObjectChange
              else NoChange)
       else rbind (py_eq E old new h) (\<lambda>b. Inr (if b then NoChange else ValueChange)))"

definition old_values :: "(draft_node \<Rightarrow> compiled res) \<Rightarrow> val \<Rightarrow> event_handler \<Rightarrow> (heap, val list) act" where
  "old_values cmpl model eh = aseq (map (\<lambda>(k, n). evaluate_draft_expr_noexcept cmpl model n) (eh_exprs eh))"

definition new_value_event ::
  "py_env \<Rightarrow> (draft_node \<Rightarrow> compiled res) \<Rightarrow> val \<Rightarrow> event_handler \<Rightarrow> val set \<Rightarrow> val set \<Rightarrow>
   (string \<times> draft_node) \<times> val \<Rightarrow> (heap, event_type \<times> val) act" where
  "new_value_event E cmpl model eh parents changed p =
     abind (evaluate_draft_expr_noexcept cmpl model (snd (fst p))) (\<lambda>new.
       abind (aread (key_event E eh parents changed (snd p) new)) (\<lambda>t. aret (t, new)))"

definition handler_event ::
  "py_env \<Rightarrow> (draft_node \<Rightarrow> compiled res) \<Rightarrow> val \<Rightarrow> val set \<Rightarrow> val set \<Rightarrow> event_handler \<times> val list \<Rightarrow> (heap, change_event) act" where
  "handler_event E cmpl model parents changed q =
     (let exprs = eh_exprs (fst q); ks = map fst exprs in
      abind (aseq (map (new_value_event E cmpl model (fst q) parents changed) (zip exprs (snd q)))) (\<lambda>tn.
        aret \<lparr>ce_types = zip ks (map fst tn), ce_old = zip ks (snd q), ce_new = zip ks (map snd tn)\<rparr>))"

definition update_model_with_change_event ::
  "py_env \<Rightarrow> (draft_node \<Rightarrow> compiled res) \<Rightarrow> val \<Rightarrow> draft_update list \<Rightarrow> event_handler list \<Rightarrow> (heap, change_event list) act" where
  "update_model_with_change_event E cmpl model ops handlers =
     abind (aseq (map (old_values cmpl model) handlers)) (\<lambda>olds.
       abind (apply_ops_ids E model ops True) (\<lambda>(parents, changed).
         aseq (map (handler_event E cmpl model parents changed) (zip handlers olds))))"

subsection \<open>What a handler is told\<close>

lemma aseq_nth:
  "aseq ms h = (Inr xs, h') \<Longrightarrow> length xs = length ms \<and> (\<forall>j<length ms. \<exists>g g'. (ms ! j) g = (Inr (xs ! j), g'))"
proof (induction ms arbitrary: h xs)
  case (Cons m ms)
  then obtain x g ys where x: "m h = (Inr x, g)" "aseq ms g = (Inr ys, h')" "xs = x # ys"
    by (auto simp: act_simps split: prod.splits sum.splits)
  then show ?case using Cons.IH[OF x(2)] by (auto simp: nth_Cons split: nat.split)
qed (simp add: aret_def)

lemma touches_aseq: "(\<And>m. m \<in> set ms \<Longrightarrow> touches S m) \<Longrightarrow> touches S (aseq ms)"
  by (induction ms) (auto intro!: frames)

definition compile_pure :: "(draft_node \<Rightarrow> compiled res) \<Rightarrow> bool" where
  "compile_pure cmpl \<longleftrightarrow> (\<forall>n f v. cmpl n = Inr f \<longrightarrow> allocates (f v))"

lemma eval_expr_touches: "compile_pure cmpl \<Longrightarrow> touches S (evaluate_draft_expr_noexcept cmpl model n)"
proof (rule touches_allocates, unfold allocates_def, intro allI)
  fix h assume "compile_pure cmpl"
  then show "\<exists>new. snd (evaluate_draft_expr_noexcept cmpl model n h) = h @ new"
    unfolding compile_pure_def allocates_def evaluate_draft_expr_noexcept_def
    by (cases "cmpl n") (auto split: prod.splits sum.splits, metis snd_conv, metis snd_conv)
qed

lemma old_values_touches: "compile_pure cmpl \<Longrightarrow> touches S (old_values cmpl model eh)"
  unfolding old_values_def by (rule touches_aseq) (auto intro: eval_expr_touches)

lemma handler_event_touches: "compile_pure cmpl \<Longrightarrow> touches S (handler_event E cmpl model p c q)"
  unfolding handler_event_def Let_def new_value_event_def
  by (intro touches_abind touches_aseq frames) (auto intro!: touches_abind frames eval_expr_touches)

lemma handler_event_nth:
  assumes "handler_event E cmpl model p c (eh, olds) g = (Inr ev, g')" "j < length (eh_exprs eh)" "length olds = length (eh_exprs eh)"
  shows "snd (ce_old ev ! j) = olds ! j \<and> (\<exists>h2. key_event E eh p c (olds ! j) (snd (ce_new ev ! j)) h2 = Inr (snd (ce_types ev ! j)))"
proof -
  let ?ms = "map (new_value_event E cmpl model eh p c) (zip (eh_exprs eh) olds)"
  obtain tn where tn: "aseq ?ms g = (Inr tn, g')"
    and ev: "ev = \<lparr>ce_types = zip (map fst (eh_exprs eh)) (map fst tn), ce_old = zip (map fst (eh_exprs eh)) olds,
       ce_new = zip (map fst (eh_exprs eh)) (map snd tn)\<rparr>"
    using assms(1) by (auto simp: handler_event_def Let_def act_simps split: prod.splits sum.splits)
  have len: "length tn = length (eh_exprs eh)" using aseq_nth[OF tn] assms(3) by simp
  obtain g1 g2 where "(?ms ! j) g1 = (Inr (tn ! j), g2)" using aseq_nth[OF tn] assms(2,3) by auto
  then have "\<exists>h2. key_event E eh p c (olds ! j) (snd (tn ! j)) h2 = Inr (fst (tn ! j))"
    using assms(2,3) by (cases "tn ! j") (auto simp: new_value_event_def abind_def aread_def aret_def split: prod.splits sum.splits)
  then show ?thesis using ev len assms(2,3) by simp
qed


text \<open>\<open>lambda obj: obj.a\<close> observed while \<open>sample_updates\<close> run.\<close>

definition plain_compile :: "draft_node \<Rightarrow> compiled res" where
  "plain_compile n = Inr (\<lambda>obj. eval_ast int_env obj n)"

definition list_observer :: event_handler where
  "list_observer = create_draft_change_event_handler (attr_node ROOT_NODE ''a'') None True"

text \<open>\<open>doc.n = 3\<close>\<close>

definition n_update :: "draft_update list" where
  "n_update = [update_of (SetAttr [(''n'', DInt 3)]) ROOT_NODE []]"

lemma list_not_changed:
  "update_model_with_change_event int_env plain_compile (DRef 0) n_update [list_observer] small_doc =
     (Inr [\<lparr>ce_types = [([], NoChange)], ce_old = [([], DRef 1)], ce_new = [([], DRef 1)]\<rparr>],
      [OData ''C'' [(''a'', DRef 1), (''n'', DInt 3)], OList [DInt 5, DInt 6]])"
  by (simp add: update_model_with_change_event_def old_values_def list_observer_def create_draft_change_event_handler_def
      evaluate_draft_expr_noexcept_def plain_compile_def n_update_def apply_ops_ids_def sample_defs eval_defs apply_defs
      trace_node_def step_traced_def handler_event_def new_value_event_def key_event_def is_plain_def)


end
