(* ===== verification/DraftPath.thy ===== *)
theory DraftPath
  imports DraftAst Containers
begin

text \<open>
  Draft expressions as text (\<open>core/datamodel/draftast.py\<close>): the JMES path sent to the front end
  (\<open>jmes_path\<close>), the PFL path (\<open>pfl_path\<close>), and the Python function an expression is compiled to
  (\<open>compile_lines\<close>, whose two passes share repeated subexpressions through variables).

  \<open>pr_env\<close> holds the texts the model does not compute: those of floats, of containers under \<open>str\<close> and
  \<open>repr\<close>, and \<open>str(json.loads(s))\<close>. \<open>json_dumps\<close> is \<open>json.dumps\<close> with its default arguments; a
  reference chain longer than the heap is a cycle, on which it raises \<open>ValueError\<close>.
\<close>

subsection \<open>Texts of values\<close>

record pr_env =
  pr_float :: "64 word \<Rightarrow> string"
  pr_json_float :: "64 word \<Rightarrow> string"
  pr_str :: "val \<Rightarrow> heap \<Rightarrow> string"
  pr_repr :: "val \<Rightarrow> heap \<Rightarrow> string"
  pr_reload :: "string \<Rightarrow> string"

definition py_str :: "pr_env \<Rightarrow> heap \<Rightarrow> val \<Rightarrow> string" where
  "py_str P h v = (case v of
     DStr s \<Rightarrow> s | DInt i \<Rightarrow> int_str i | DBool b \<Rightarrow> (if b then ''True'' else ''False'') | DNone \<Rightarrow> ''None''
   | DFloat w \<Rightarrow> pr_float P w | _ \<Rightarrow> pr_str P v h)"

definition hex_digit :: "nat \<Rightarrow> char" where
  "hex_digit d = (if d < 10 then char_of (48 + d) else char_of (87 + d))"

definition json_char :: "char \<Rightarrow> string" where
  "json_char c = (let n = of_char c :: nat in
     if n = 34 then [char_of (92 :: nat), char_of (34 :: nat)] else if n = 92 then [char_of (92 :: nat), char_of (92 :: nat)]
     else if n = 10 then [char_of (92 :: nat), CHR ''n''] else if n = 13 then [char_of (92 :: nat), CHR ''r'']
     else if n = 9 then [char_of (92 :: nat), CHR ''t''] else if n = 12 then [char_of (92 :: nat), CHR ''f'']
     else if n = 8 then [char_of (92 :: nat), CHR ''b'']
     else if 32 \<le> n \<and> n < 128 then [c]
     else [char_of (92 :: nat), CHR ''u'', CHR ''0'', CHR ''0'', hex_digit (n div 16), hex_digit (n mod 16)])"

definition json_str :: "string \<Rightarrow> string" where
  "json_str s = [char_of (34 :: nat)] @ concat (map json_char s) @ [char_of (34 :: nat)]"

fun json_key :: "pr_env \<Rightarrow> dkey \<Rightarrow> string res" where
  "json_key P (KStr s) = Inr (json_str s)"
| "json_key P (KInt i) = Inr (json_str (int_str i))"
| "json_key P (KFloat w) = Inr (json_str (pr_json_float P w))"
| "json_key P KNone = Inr (json_str ''null'')"
| "json_key P _ = Inl TypeError"

function json_dumps_from :: "pr_env \<Rightarrow> heap \<Rightarrow> nat \<Rightarrow> val \<Rightarrow> string res" where
  "json_dumps_from P h n DNone = Inr ''null''"
| "json_dumps_from P h n (DBool b) = Inr (if b then ''true'' else ''false'')"
| "json_dumps_from P h n (DInt i) = Inr (int_str i)"
| "json_dumps_from P h n (DFloat w) = Inr (pr_json_float P w)"
| "json_dumps_from P h n (DStr s) = Inr (json_str s)"
| "json_dumps_from P h n (DTuple xs) =
     rbind (rmap_list (json_dumps_from P h n) xs) (\<lambda>ss. Inr (''['' @ join '', '' ss @ '']''))"
| "json_dumps_from P h 0 (DRef a) = Inl ValueError"
| "json_dumps_from P h (Suc n) (DRef a) = (case hget h a of
     Some (OList xs) \<Rightarrow> rbind (rmap_list (json_dumps_from P h n) xs) (\<lambda>ss. Inr (''['' @ join '', '' ss @ '']''))
   | Some (ODict m) \<Rightarrow>
       rbind (rmap_list (\<lambda>(k, v). rbind (json_key P k) (\<lambda>ks. rbind (json_dumps_from P h n v) (\<lambda>vs. Inr (ks @ '': '' @ vs)))) m)
         (\<lambda>ss. Inr (''{'' @ join '', '' ss @ ''}''))
   | _ \<Rightarrow> Inl TypeError)"
| "json_dumps_from P h n (DOther i) = Inl TypeError"
  by pat_completeness auto
termination
  by (relation "measures [\<lambda>(P, h, n, v). n, \<lambda>(P, h, n, v). size v]") (auto simp: less_Suc_eq_le size_list_estimation')

definition json_dumps :: "pr_env \<Rightarrow> heap \<Rightarrow> val \<Rightarrow> string res" where
  "json_dumps P h v = json_dumps_from P h (length h) v"

subsection \<open>Paths\<close>

definition rkid :: "'a res list \<Rightarrow> nat \<Rightarrow> 'a res" where
  "rkid ks i = (if i < length ks then ks ! i else Inl IndexError)"

definition FRONTEND_SUPPORTED_FUNCS :: "string list" where
  "FRONTEND_SUPPORTED_FUNCS = [''getItem'', ''getAttr'', ''cformat'', ''getItemPath'', ''not_null'', ''where'', ''array'',
     ''concat'', ''colorFromSlice'', ''colorFromName'', ''npToList'', ''npGetSubArray'', ''npSliceFirstAxis'', ''join'', ''len'']"

definition supported_func :: "val \<Rightarrow> bool" where
  "supported_func v = (case v of DStr s \<Rightarrow> s \<in> set FRONTEND_SUPPORTED_FUNCS | _ \<Rightarrow> False)"

definition quoted :: "string \<Rightarrow> string" where
  "quoted s = [char_of (34 :: nat)] @ s @ [char_of (34 :: nat)]"

definition call_text :: "string \<Rightarrow> string res list \<Rightarrow> string res" where
  "call_text f ks = rbind (rmap_list id ks) (\<lambda>ss. Inr (f @ ''('' @ join '','' ss @ '')''))"

definition jmes_literal :: "pr_env \<Rightarrow> heap \<Rightarrow> val \<Rightarrow> string res" where
  "jmes_literal P h v = (case v of
     DBool b \<Rightarrow> Inr (''`'' @ (if b then ''true'' else ''false'') @ ''`'')
   | DInt i \<Rightarrow> Inr (''`'' @ py_str P h v @ ''`'')
   | DFloat w \<Rightarrow> Inr (''`'' @ py_str P h v @ ''`'')
   | _ \<Rightarrow> rbind (json_dumps P h v) (\<lambda>s. Inr (''`'' @ s @ ''`'')))"

definition jmes_node :: "pr_env \<Rightarrow> heap \<Rightarrow> ast_type \<Rightarrow> val \<Rightarrow> string res list \<Rightarrow> string res" where
  "jmes_node P h t v ks = (case t of
     NAME \<Rightarrow> Inr (if v = DStr [] then ''$'' else py_str P h v)
   | JSON_LITERAL \<Rightarrow> jmes_literal P h v
   | STRING_LITERAL \<Rightarrow> Inr ([char_of (39 :: nat)] @ py_str P h v @ [char_of (39 :: nat)])
   | GET_ATTR \<Rightarrow> rbind (rkid ks 0) (\<lambda>c. Inr (if c = [] \<or> c = ''$'' then py_str P h v else c @ ''.'' @ py_str P h v))
   | ARRAY_GET_ITEM \<Rightarrow> rbind (rkid ks 0) (\<lambda>c. Inr (c @ ''['' @ py_str P h v @ '']''))
   | DICT_GET_ITEM \<Rightarrow> rbind (rkid ks 0) (\<lambda>c. Inr (c @ ''.'' @ quoted (py_str P h v)))
   | FUNC_CALL \<Rightarrow> if supported_func v then call_text (py_str P h v) ks else Inl AssertionError
   | BINARY_OP \<Rightarrow> rbind (rkid ks 0) (\<lambda>x. rbind (rkid ks 1) (\<lambda>y. Inr (''('' @ x @ py_str P h v @ y @ '')'')))
   | UNARY_OP \<Rightarrow> rbind (rkid ks 0) (\<lambda>x. Inr (py_str P h v @ x)))"

primrec jmes_path_from :: "pr_env \<Rightarrow> heap \<Rightarrow> draft_node \<Rightarrow> string res" where
  "jmes_path_from P h (DraftASTNode t cs v u f) = jmes_node P h t v (map (jmes_path_from P h) cs)"

definition get_jmes_path :: "pr_env \<Rightarrow> heap \<Rightarrow> draft_node \<Rightarrow> string res" where
  "get_jmes_path P h n =
     (if nd_type n = NAME then Inr (if nd_value n \<noteq> DStr [] then py_str P h (nd_value n) else ''$'')
      else jmes_path_from P h n)"

definition pfl_literal :: "pr_env \<Rightarrow> heap \<Rightarrow> val \<Rightarrow> string res" where
  "pfl_literal P h v = (case v of
     DBool b \<Rightarrow> Inr (py_str P h v) | DInt i \<Rightarrow> Inr (py_str P h v) | DFloat w \<Rightarrow> Inr (py_str P h v)
   | _ \<Rightarrow> rbind (json_dumps P h v) (\<lambda>s. Inr (pr_reload P s)))"

definition pfl_where :: "string res list \<Rightarrow> string res" where
  "pfl_where ks = (if length ks = 3
     then rbind (rkid ks 0) (\<lambda>c. rbind (rkid ks 1) (\<lambda>x. rbind (rkid ks 2) (\<lambda>y.
       Inr (''(('' @ x @ '') if ('' @ c @ '') else ('' @ y @ ''))''))))
     else Inl AssertionError)"

definition pfl_op :: "pr_env \<Rightarrow> heap \<Rightarrow> val \<Rightarrow> string" where
  "pfl_op P h v = (if v = DStr ''&&'' then ''and'' else if v = DStr ''||'' then ''or'' else py_str P h v)"

definition pfl_node :: "pr_env \<Rightarrow> heap \<Rightarrow> ast_type \<Rightarrow> val \<Rightarrow> string res list \<Rightarrow> string res" where
  "pfl_node P h t v ks = (case t of
     NAME \<Rightarrow> Inr (if v = DStr [] then ''getRoot()'' else py_str P h v)
   | JSON_LITERAL \<Rightarrow> pfl_literal P h v
   | STRING_LITERAL \<Rightarrow> Inr ([char_of (39 :: nat)] @ py_str P h v @ [char_of (39 :: nat)])
   | GET_ATTR \<Rightarrow> rbind (rkid ks 0) (\<lambda>c. Inr (if c = [] \<or> c = ''getRoot()'' then py_str P h v else c @ ''.'' @ py_str P h v))
   | ARRAY_GET_ITEM \<Rightarrow> rbind (rkid ks 0) (\<lambda>c. Inr (c @ ''['' @ py_str P h v @ '']''))
   | DICT_GET_ITEM \<Rightarrow> rbind (rkid ks 0) (\<lambda>c. case v of
         DStr s \<Rightarrow> Inr (c @ ''['' @ [char_of (39 :: nat)] @ s @ [char_of (39 :: nat)] @ '']'') | _ \<Rightarrow> Inl AssertionError)
   | FUNC_CALL \<Rightarrow> if \<not> supported_func v then Inl AssertionError
       else if v = DStr ''where'' then pfl_where ks else call_text (py_str P h v) ks
   | BINARY_OP \<Rightarrow> rbind (rkid ks 0) (\<lambda>x. rbind (rkid ks 1) (\<lambda>y. Inr (''('' @ x @ '' '' @ pfl_op P h v @ '' '' @ y @ '')'')))
   | UNARY_OP \<Rightarrow> rbind (rkid ks 0) (\<lambda>x. Inr (py_str P h v @ x)))"

primrec pfl_path_from :: "pr_env \<Rightarrow> heap \<Rightarrow> draft_node \<Rightarrow> string res" where
  "pfl_path_from P h (DraftASTNode t cs v u f) = pfl_node P h t v (map (pfl_path_from P h) cs)"

definition get_pfl_path :: "pr_env \<Rightarrow> heap \<Rightarrow> draft_node \<Rightarrow> string res" where
  "get_pfl_path P h n = rbind (pfl_path_from P h n) (\<lambda>s. Inr (if s = [] then ''getRoot()'' else s))"

subsection \<open>Compilation to Python\<close>

definition py_repr :: "pr_env \<Rightarrow> heap \<Rightarrow> val \<Rightarrow> string" where
  "py_repr P h v = (case v of
     DInt i \<Rightarrow> int_str i | DBool b \<Rightarrow> (if b then ''True'' else ''False'') | DNone \<Rightarrow> ''None'' | DFloat w \<Rightarrow> pr_float P w
   | _ \<Rightarrow> pr_repr P v h)"

definition py_call_text :: "val \<Rightarrow> string res list \<Rightarrow> string res" where
  "py_call_text f ks =
     (if f = DStr ''getItem'' then rbind (rkid ks 0) (\<lambda>x. rbind (rkid ks 1) (\<lambda>k. Inr (x @ ''['' @ k @ '']'')))
      else if f = DStr ''getattr'' then rbind (rkid ks 0) (\<lambda>x. rbind (rkid ks 1) (\<lambda>k. Inr (x @ ''.'' @ k)))
      else if f = DStr ''cformat'' then
        rbind (rkid ks 0) (\<lambda>x. rbind (rmap_list id (drop 1 ks)) (\<lambda>as. Inr (''('' @ x @ '' % ('' @ join '','' as @ ''))'')))
      else if f = DStr ''getItemPath'' then
        rbind (rkid ks 0) (\<lambda>x. rbind (rkid ks 1) (\<lambda>p. Inr (''getItemPath('' @ x @ '', '' @ p @ '')'')))
      else if f = DStr ''not_null'' then call_text ''not_null'' ks
      else if f = DStr ''where'' then rbind (rkid ks 0) (\<lambda>c. rbind (rkid ks 1) (\<lambda>x. rbind (rkid ks 2) (\<lambda>y.
        Inr (''(('' @ x @ '') if ('' @ c @ '') else ('' @ y @ ''))''))))
      else if f = DStr ''array'' then rbind (rmap_list id ks) (\<lambda>as. Inr (''['' @ join '','' as @ '']''))
      else if f = DStr ''concat'' then rbind (rmap_list id ks) (\<lambda>as. Inr (''sum('' @ join '','' as @ '', [])''))
      else if f = DStr ''len'' then rbind (rkid ks 0) (\<lambda>x. Inr (''len('' @ x @ '')''))
      else if f = DStr ''join'' then rbind (rkid ks 0) (\<lambda>s. rbind (rkid ks 1) (\<lambda>a. Inr (''('' @ s @ '').join('' @ a @ '')'')))
      else Inl NotImplementedError)"

definition guarded :: "string \<Rightarrow> string \<Rightarrow> string" where
  "guarded x access = ''(('' @ x @ '')'' @ access @ '' if ('' @ x @ '') is not None else None)''"

definition py_node_text :: "pr_env \<Rightarrow> heap \<Rightarrow> ast_type \<Rightarrow> val \<Rightarrow> string res list \<Rightarrow> string res" where
  "py_node_text P h t v ks = (case t of
     NAME \<Rightarrow> Inr (if v = DStr [] \<or> v = DStr ''$'' then ''obj'' else ''obj.'' @ py_str P h v)
   | JSON_LITERAL \<Rightarrow> Inr (py_repr P h v)
   | STRING_LITERAL \<Rightarrow> Inr (py_repr P h v)
   | GET_ATTR \<Rightarrow> rbind (rkid ks 0) (\<lambda>x. Inr (guarded x (''.'' @ py_str P h v)))
   | ARRAY_GET_ITEM \<Rightarrow> rbind (rkid ks 0) (\<lambda>x. Inr (guarded x (''['' @ py_repr P h v @ '']'')))
   | DICT_GET_ITEM \<Rightarrow> rbind (rkid ks 0) (\<lambda>x. Inr (guarded x (''['' @ py_repr P h v @ '']'')))
   | BINARY_OP \<Rightarrow> rbind (rkid ks 0) (\<lambda>x. rbind (rkid ks 1) (\<lambda>y. Inr (''('' @ x @ '' '' @ pfl_op P h v @ '' '' @ y @ '')'')))
   | UNARY_OP \<Rightarrow> rbind (rkid ks 0) (\<lambda>x. Inr (''('' @ py_str P h v @ ''('' @ x @ ''))''))
   | FUNC_CALL \<Rightarrow> py_call_text v ks)"

text \<open>
  The first pass gives every node its text and counts how often each text occurs. The recursion
  visits only the children the node's rule reads, which are all children of a well-formed node.
\<close>

primrec first_pass :: "pr_env \<Rightarrow> heap \<Rightarrow> draft_node \<Rightarrow> string res" where
  "first_pass P h (DraftASTNode t cs v u f) = py_node_text P h t v (map (first_pass P h) cs)"

text \<open>The children a rule reads.\<close>

definition reads_count :: "ast_type \<Rightarrow> val \<Rightarrow> nat option" where
  "reads_count t v = (case t of
     NAME \<Rightarrow> Some 0 | JSON_LITERAL \<Rightarrow> Some 0 | STRING_LITERAL \<Rightarrow> Some 0
   | BINARY_OP \<Rightarrow> Some 2
   | FUNC_CALL \<Rightarrow>
       if v \<in> {DStr ''getItem'', DStr ''getattr'', DStr ''getItemPath'', DStr ''join''} then Some 2
       else if v = DStr ''where'' then Some 3
       else if v = DStr ''len'' then Some 1 else None
   | _ \<Rightarrow> Some 1)"

definition reads :: "ast_type \<Rightarrow> val \<Rightarrow> 'a list \<Rightarrow> 'a list" where
  "reads t v cs = (case reads_count t v of Some k \<Rightarrow> take k cs | None \<Rightarrow> cs)"

primrec visited_texts :: "pr_env \<Rightarrow> heap \<Rightarrow> draft_node \<Rightarrow> string res list" where
  "visited_texts P h (DraftASTNode t cs v u f) =
     concat (reads t v (map (visited_texts P h) cs)) @ [first_pass P h (DraftASTNode t cs v u f)]"

definition ref_count :: "pr_env \<Rightarrow> heap \<Rightarrow> draft_node \<Rightarrow> string \<Rightarrow> nat" where
  "ref_count P h n e = length (filter (\<lambda>r. r = Inr e) (visited_texts P h n))"

record compile_state =
  cs_vars :: "(string, string) dict"
  cs_decls :: "(string \<times> string) list"
  cs_names :: name_pool

definition upper_char :: "char \<Rightarrow> char" where
  "upper_char c = (let n = of_char c :: nat in if 97 \<le> n \<and> n \<le> 122 then char_of (n - 32) else c)"

definition type_name :: "ast_type \<Rightarrow> string" where
  "type_name t = (case t of GET_ATTR \<Rightarrow> ''GET_ATTR'' | ARRAY_GET_ITEM \<Rightarrow> ''ARRAY_GET_ITEM'' | DICT_GET_ITEM \<Rightarrow> ''DICT_GET_ITEM''
     | FUNC_CALL \<Rightarrow> ''FUNC_CALL'' | NAME \<Rightarrow> ''NAME'' | JSON_LITERAL \<Rightarrow> ''JSON_LITERAL'' | STRING_LITERAL \<Rightarrow> ''STRING_LITERAL''
     | BINARY_OP \<Rightarrow> ''BINARY_OP'' | UNARY_OP \<Rightarrow> ''UNARY_OP'')"

definition var_stem :: "ast_type \<Rightarrow> val \<Rightarrow> string res" where
  "var_stem t v = (if t = FUNC_CALL then (case v of DStr s \<Rightarrow> Inr (map upper_char s) | _ \<Rightarrow> Inl AttributeError)
     else Inr (type_name t))"

text \<open>A text that occurs more than once becomes a variable; later occurrences use the variable.\<close>

definition declare_shared :: "(string \<Rightarrow> nat) \<Rightarrow> ast_type \<Rightarrow> val \<Rightarrow> string \<Rightarrow> string \<Rightarrow> (compile_state, string) act" where
  "declare_shared cnt t v expr text st =
     (if cnt expr > 1 \<and> t \<noteq> NAME then
        (case rbind (var_stem t v) (\<lambda>stem. pool_call stem (cs_names st)) of
           Inl e \<Rightarrow> (Inl e, st)
         | Inr (x, names) \<Rightarrow> (Inr x, \<lparr>cs_vars = dset expr x (cs_vars st), cs_decls = cs_decls st @ [(x, text)], cs_names = names\<rparr>))
      else (Inr text, st))"

definition pass_node ::
  "pr_env \<Rightarrow> heap \<Rightarrow> (string \<Rightarrow> nat) \<Rightarrow> ast_type \<Rightarrow> val \<Rightarrow> string res \<Rightarrow> (compile_state, string) act list \<Rightarrow> (compile_state, string) act" where
  "pass_node P h cnt t v expr ks st = (case expr of
     Inl e \<Rightarrow> (Inl e, st)
   | Inr e \<Rightarrow> (case dget (cs_vars st) e of
       Some x \<Rightarrow> (Inr x, st)
     | None \<Rightarrow> abind (aseq (reads t v ks)) (\<lambda>ss. \<lambda>st.
         case py_node_text P h t v (map Inr ss) of Inl e' \<Rightarrow> (Inl e', st) | Inr text \<Rightarrow> declare_shared cnt t v e text st) st))"

primrec second_pass :: "pr_env \<Rightarrow> heap \<Rightarrow> (string \<Rightarrow> nat) \<Rightarrow> draft_node \<Rightarrow> (compile_state, string) act" where
  "second_pass P h cnt (DraftASTNode t cs v u f) =
     pass_node P h cnt t v (first_pass P h (DraftASTNode t cs v u f)) (map (second_pass P h cnt) cs)"

definition compile_start :: compile_state where
  "compile_start = \<lparr>cs_vars = [], cs_decls = [], cs_names = pool_init 10000 None\<rparr>"

definition decl_line :: "string \<times> string \<Rightarrow> string" where
  "decl_line d = fst d @ '' = '' @ snd d"

definition compile_lines :: "pr_env \<Rightarrow> heap \<Rightarrow> draft_node \<Rightarrow> string list res" where
  "compile_lines P h n = rbind (first_pass P h n) (\<lambda>_.
     case second_pass P h (ref_count P h n) n compile_start of
       (Inl e, st) \<Rightarrow> Inl e
     | (Inr expr, st) \<Rightarrow> Inr (map decl_line (cs_decls st) @ [''return '' @ expr]))"

subsection \<open>What the compiler emits\<close>

definition vars_ok :: "compile_state \<Rightarrow> bool" where
  "vars_ok st \<longleftrightarrow> distinct (map fst (cs_decls st)) \<and> set (map fst (cs_decls st)) \<subseteq> unique_set (cs_names st) \<and>
     set (dvals (cs_vars st)) \<subseteq> set (map fst (cs_decls st))"

lemma keeps_aseq: "(\<And>m. m \<in> set ms \<Longrightarrow> keeps Q m) \<Longrightarrow> keeps Q (aseq ms)"
  by (induction ms) (auto intro!: keeps_abind)

lemma reads_subset: "set (reads t v cs) \<subseteq> set cs"
  by (auto simp: reads_def dest: in_set_takeD split: option.splits)

lemma pool_call_new:
  assumes "pool_call n p = Inr (x, q)"
  shows "x \<notin> unique_set p \<and> unique_set q = insert x (unique_set p)"
proof -
  obtain y s where m: "make_unique_name (unique_set p) n (max_count p) = Inr (y, s)" "x = y" "unique_set q = s"
    using assms by (auto simp: pool_call_def res_simps)
  have "y \<notin> unique_set p \<and> s = insert y (unique_set p)"
  proof (cases "n \<in> unique_set p")
    case True
    obtain stem tail where "name_stem n = (stem, tail)" by (cases "name_stem n")
    then show ?thesis using m(1) True by (auto simp: make_unique_name_def find_Some_iff split: option.splits)
  qed (use m in \<open>auto simp: make_unique_name_def\<close>)
  then show ?thesis using m by simp
qed

lemma dvals_dset: "set (dvals (dset k v m)) \<subseteq> insert v (set (dvals m))"
  by (induction k v m rule: dset.induct) (auto simp: dvals_def)

lemma declare_shared_ok: "keeps vars_ok (declare_shared cnt t v e text)"
proof (rule keepsI)
  fix st
  assume ok: "vars_ok st"
  show "vars_ok (snd (declare_shared cnt t v e text st))"
  proof (cases "cnt e > 1 \<and> t \<noteq> NAME")
    case True
    show ?thesis
    proof (cases "rbind (var_stem t v) (\<lambda>stem. pool_call stem (cs_names st))")
      case (Inl err)
      then show ?thesis using ok True by (simp add: declare_shared_def)
    next
      case (Inr xn)
      obtain x names where xn: "xn = (x, names)" by (cases xn)
      then obtain stem where "pool_call stem (cs_names st) = Inr (x, names)" using Inr by (auto simp: res_simps)
      note new = pool_call_new[OF this]
      have "snd (declare_shared cnt t v e text st) =
          \<lparr>cs_vars = dset e x (cs_vars st), cs_decls = cs_decls st @ [(x, text)], cs_names = names\<rparr>"
        using True Inr xn by (simp add: declare_shared_def)
      then show ?thesis using new ok dvals_dset[of e x "cs_vars st"] by (auto simp: vars_ok_def)
    qed
  next
    case False
    then have "declare_shared cnt t v e text st = (Inr text, st)" by (simp only: declare_shared_def if_False)
    then show ?thesis using ok by simp
  qed
qed

lemma second_pass_ok: "keeps vars_ok (second_pass P h cnt n)"
proof (induction n)
  case (DraftASTNode t cs v u f)
  let ?ks = "map (second_pass P h cnt) cs"
  have "keeps vars_ok (aseq (reads t v ?ks))"
    by (rule keeps_aseq) (use reads_subset[of t v ?ks] DraftASTNode in auto)
  moreover have "keeps vars_ok (\<lambda>st. case py_node_text P h t v (map Inr ss) of Inl e' \<Rightarrow> (Inl e', st)
      | Inr text \<Rightarrow> declare_shared cnt t v e text st)" for ss e
    using declare_shared_ok by (auto simp: keeps_def split: sum.splits)
  ultimately have k: "keeps vars_ok (abind (aseq (reads t v ?ks)) (\<lambda>ss. \<lambda>st. case py_node_text P h t v (map Inr ss) of
      Inl e' \<Rightarrow> (Inl e', st) | Inr text \<Rightarrow> declare_shared cnt t v e text st))" for e
    by (rule keeps_abind)
  show ?case
    by (rule keepsI) (auto simp: pass_node_def keepsD[OF k] split: sum.splits option.splits)
qed

text \<open>No text occurs twice, so nothing is shared.\<close>

definition unshared :: "pr_env \<Rightarrow> heap \<Rightarrow> draft_node \<Rightarrow> bool" where
  "unshared P h n \<longleftrightarrow> (\<forall>e. ref_count P h n e \<le> 1)"

lemma rkid_Inr: "rkid ks i = Inr x \<longleftrightarrow> i < length ks \<and> ks ! i = Inr x"
  by (simp add: rkid_def)

lemma rkid_simps:
  "rkid (Inr x # ks) 0 = Inr x" "rkid (a # Inr y # ks) (Suc 0) = Inr y" "rkid (a # b # Inr z # ks) 2 = Inr z"
  by (simp_all add: rkid_def)

lemma rmap_id: "rmap_list id ks = Inr ss \<longleftrightarrow> ks = map Inr ss"
  by (induction ks arbitrary: ss) (auto simp: res_simps)

lemma take_Suc_kids:
  "rkid ks 0 = Inr x \<Longrightarrow> take 1 ks = [Inr x]"
  "rkid ks 0 = Inr x \<Longrightarrow> rkid ks 1 = Inr y \<Longrightarrow> take 2 ks = [Inr x, Inr y]"
  "rkid ks 0 = Inr x \<Longrightarrow> rkid ks 1 = Inr y \<Longrightarrow> rkid ks 2 = Inr z \<Longrightarrow> take 3 ks = [Inr x, Inr y, Inr z]"
  by (auto simp: rkid_def take_Suc_conv_app_nth numeral_eq_Suc split: if_splits)

lemma call_texts:
  "py_call_text (DStr ''getItem'') ks = rbind (rkid ks 0) (\<lambda>x. rbind (rkid ks 1) (\<lambda>k. Inr (x @ ''['' @ k @ '']'')))"
  "py_call_text (DStr ''getattr'') ks = rbind (rkid ks 0) (\<lambda>x. rbind (rkid ks 1) (\<lambda>k. Inr (x @ ''.'' @ k)))"
  "py_call_text (DStr ''cformat'') ks =
     rbind (rkid ks 0) (\<lambda>x. rbind (rmap_list id (drop 1 ks)) (\<lambda>as. Inr (''('' @ x @ '' % ('' @ join '','' as @ ''))'')))"
  "py_call_text (DStr ''getItemPath'') ks =
     rbind (rkid ks 0) (\<lambda>x. rbind (rkid ks 1) (\<lambda>p. Inr (''getItemPath('' @ x @ '', '' @ p @ '')'')))"
  "py_call_text (DStr ''not_null'') ks = call_text ''not_null'' ks"
  "py_call_text (DStr ''where'') ks = rbind (rkid ks 0) (\<lambda>c. rbind (rkid ks 1) (\<lambda>x. rbind (rkid ks 2) (\<lambda>y.
     Inr (''(('' @ x @ '') if ('' @ c @ '') else ('' @ y @ ''))''))))"
  "py_call_text (DStr ''array'') ks = rbind (rmap_list id ks) (\<lambda>as. Inr (''['' @ join '','' as @ '']''))"
  "py_call_text (DStr ''concat'') ks = rbind (rmap_list id ks) (\<lambda>as. Inr (''sum('' @ join '','' as @ '', [])''))"
  "py_call_text (DStr ''len'') ks = rbind (rkid ks 0) (\<lambda>x. Inr (''len('' @ x @ '')''))"
  "py_call_text (DStr ''join'') ks = rbind (rkid ks 0) (\<lambda>s. rbind (rkid ks 1) (\<lambda>a. Inr (''('' @ s @ '').join('' @ a @ '')'')))"
  by (simp_all add: py_call_text_def)

lemma call_counts:
  "reads_count FUNC_CALL (DStr ''getItem'') = Some 2" "reads_count FUNC_CALL (DStr ''getattr'') = Some 2"
  "reads_count FUNC_CALL (DStr ''cformat'') = None" "reads_count FUNC_CALL (DStr ''getItemPath'') = Some 2"
  "reads_count FUNC_CALL (DStr ''not_null'') = None" "reads_count FUNC_CALL (DStr ''where'') = Some 3"
  "reads_count FUNC_CALL (DStr ''array'') = None" "reads_count FUNC_CALL (DStr ''concat'') = None"
  "reads_count FUNC_CALL (DStr ''len'') = Some 1" "reads_count FUNC_CALL (DStr ''join'') = Some 2"
  by (simp_all add: reads_count_def)

lemma call_text_known:
  assumes "py_call_text v ks = Inr text"
  obtains "v = DStr ''getItem'' \<or> v = DStr ''getattr'' \<or> v = DStr ''getItemPath'' \<or> v = DStr ''join''"
  | "v = DStr ''where''" | "v = DStr ''len''" | "v = DStr ''cformat''"
  | "v = DStr ''not_null'' \<or> v = DStr ''array'' \<or> v = DStr ''concat''"
proof -
  have "py_call_text v ks = Inl NotImplementedError" if
    "v \<noteq> DStr ''getItem''" "v \<noteq> DStr ''getattr''" "v \<noteq> DStr ''getItemPath''" "v \<noteq> DStr ''join''" "v \<noteq> DStr ''where''"
    "v \<noteq> DStr ''len''" "v \<noteq> DStr ''cformat''" "v \<noteq> DStr ''not_null''" "v \<noteq> DStr ''array''" "v \<noteq> DStr ''concat''"
    unfolding py_call_text_def by (simp only: that if_False)
  then show thesis using assms that by (metis sum.distinct(1))
qed

lemma call_text_reads:
  assumes "py_call_text v ks = Inr text"
  shows "\<exists>ss. reads FUNC_CALL v ks = map Inr ss \<and> py_call_text v (map Inr ss) = Inr text"
  using assms
proof (cases rule: call_text_known)
  case 1
  then obtain x y where r: "rkid ks 0 = Inr x" "rkid ks 1 = Inr y" using assms by (auto simp: call_texts res_simps)
  have "py_call_text v (map Inr [x, y]) = Inr text" using 1 assms r by (auto simp: call_texts rkid_simps)
  moreover have "reads FUNC_CALL v ks = map Inr [x, y]" using 1 take_Suc_kids(2)[OF r] by (auto simp: reads_def call_counts)
  ultimately show ?thesis by blast
next
  case 2
  then obtain x y z where r: "rkid ks 0 = Inr x" "rkid ks 1 = Inr y" "rkid ks 2 = Inr z" using assms by (auto simp: call_texts res_simps)
  have "py_call_text v (map Inr [x, y, z]) = Inr text" using 2 assms r by (simp add: call_texts rkid_simps)
  moreover have "reads FUNC_CALL v ks = map Inr [x, y, z]" using 2 take_Suc_kids(3)[OF r] by (simp add: reads_def call_counts)
  ultimately show ?thesis by blast
next
  case 3
  then obtain x where r: "rkid ks 0 = Inr x" using assms by (auto simp: call_texts res_simps)
  have "py_call_text v (map Inr [x]) = Inr text" using 3 assms r by (simp add: call_texts rkid_simps)
  moreover have "reads FUNC_CALL v ks = map Inr [x]" using 3 take_Suc_kids(1)[OF r] by (simp add: reads_def call_counts)
  ultimately show ?thesis by blast
next
  case 4
  then obtain x as where x: "rkid ks 0 = Inr x" "drop 1 ks = map Inr as" using assms by (auto simp: call_texts res_simps rmap_id)
  then have "ks = Inr x # drop 1 ks" by (cases ks) (auto simp: rkid_def)
  then have "ks = map Inr (x # as)" using x(2) by simp
  then show ?thesis using assms 4 by (intro exI[of _ "x # as"]) (simp add: reads_def call_counts)
next
  case 5
  then obtain ss where "ks = map Inr ss" using assms by (auto simp: call_texts call_text_def res_simps rmap_id)
  then show ?thesis using assms 5 by (intro exI[of _ ss]) (auto simp: reads_def call_counts)
qed

lemma node_texts:
  "py_node_text P h NAME v ks = Inr (if v = DStr [] \<or> v = DStr ''$'' then ''obj'' else ''obj.'' @ py_str P h v)"
  "py_node_text P h JSON_LITERAL v ks = Inr (py_repr P h v)" "py_node_text P h STRING_LITERAL v ks = Inr (py_repr P h v)"
  "py_node_text P h GET_ATTR v ks = rbind (rkid ks 0) (\<lambda>x. Inr (guarded x (''.'' @ py_str P h v)))"
  "py_node_text P h ARRAY_GET_ITEM v ks = rbind (rkid ks 0) (\<lambda>x. Inr (guarded x (''['' @ py_repr P h v @ '']'')))"
  "py_node_text P h DICT_GET_ITEM v ks = rbind (rkid ks 0) (\<lambda>x. Inr (guarded x (''['' @ py_repr P h v @ '']'')))"
  "py_node_text P h BINARY_OP v ks =
     rbind (rkid ks 0) (\<lambda>x. rbind (rkid ks 1) (\<lambda>y. Inr (''('' @ x @ '' '' @ pfl_op P h v @ '' '' @ y @ '')'')))"
  "py_node_text P h UNARY_OP v ks = rbind (rkid ks 0) (\<lambda>x. Inr (''('' @ py_str P h v @ ''('' @ x @ ''))''))"
  "py_node_text P h FUNC_CALL v ks = py_call_text v ks"
  by (simp_all add: py_node_text_def)

lemma node_counts:
  "reads_count NAME v = Some 0" "reads_count JSON_LITERAL v = Some 0" "reads_count STRING_LITERAL v = Some 0"
  "reads_count GET_ATTR v = Some 1" "reads_count ARRAY_GET_ITEM v = Some 1" "reads_count DICT_GET_ITEM v = Some 1"
  "reads_count UNARY_OP v = Some 1" "reads_count BINARY_OP v = Some 2"
  by (simp_all add: reads_count_def)

lemma node_text_reads:
  assumes "py_node_text P h t v ks = Inr text"
  shows "\<exists>ss. reads t v ks = map Inr ss \<and> py_node_text P h t v (map Inr ss) = Inr text"
proof -
  have zero: ?thesis if "reads_count t v = Some 0" "py_node_text P h t v [] = py_node_text P h t v ks"
    using that assms by (intro exI[of _ "[]"]) (simp add: reads_def)
  have one: ?thesis if c: "reads_count t v = Some 1" and e: "\<And>ks. py_node_text P h t v ks = rbind (rkid ks 0) g" for g
  proof -
    obtain x where r: "rkid ks 0 = Inr x" using assms e by (auto simp: res_simps)
    have "reads t v ks = map Inr [x]" using take_Suc_kids(1)[OF r] c by (simp add: reads_def)
    moreover have "py_node_text P h t v (map Inr [x]) = Inr text" using assms r by (simp add: e rkid_simps)
    ultimately show ?thesis by blast
  qed
  show ?thesis
  proof (cases t)
    case BINARY_OP
    then obtain x y where r: "rkid ks 0 = Inr x" "rkid ks 1 = Inr y" using assms by (auto simp: node_texts res_simps)
    have "reads t v ks = map Inr [x, y]" using take_Suc_kids(2)[OF r] BINARY_OP by (simp add: reads_def node_counts)
    moreover have "py_node_text P h t v (map Inr [x, y]) = Inr text" using assms r BINARY_OP by (simp add: node_texts rkid_simps)
    ultimately show ?thesis by blast
  next
    case FUNC_CALL
    then show ?thesis using call_text_reads assms by (simp add: node_texts)
  next
    case GET_ATTR show ?thesis by (rule one; simp only: GET_ATTR node_texts node_counts)
  next
    case ARRAY_GET_ITEM show ?thesis by (rule one; simp only: ARRAY_GET_ITEM node_texts node_counts)
  next
    case DICT_GET_ITEM show ?thesis by (rule one; simp only: DICT_GET_ITEM node_texts node_counts)
  next
    case UNARY_OP show ?thesis by (rule one; simp only: UNARY_OP node_texts node_counts)
  qed (rule zero; simp only: node_texts node_counts)+
qed

lemma reads_map: "reads t v (map f cs) = map f (reads t v cs)"
  by (simp add: reads_def take_map split: option.split)

lemma aseq_const:
  "(\<And>x. x \<in> set xs \<Longrightarrow> m x st = (Inr (g x), st)) \<Longrightarrow> aseq (map m xs) st = (Inr (map g xs), st)"
  by (induction xs) (auto simp: act_simps)

lemma second_pass_unshared:
  assumes "\<forall>e. cnt e \<le> 1" "cs_vars st = []" "first_pass P h n = Inr e"
  shows "second_pass P h cnt n st = (Inr e, st)"
  using assms(3)
proof (induction n arbitrary: e)
  case (DraftASTNode t cs v u f)
  let ?fs = "map (first_pass P h) cs"
  obtain ss where ss: "reads t v ?fs = map Inr ss" "py_node_text P h t v (map Inr ss) = Inr e"
    using node_text_reads DraftASTNode.prems by fastforce
  let ?g = "\<lambda>c. case first_pass P h c of Inr s \<Rightarrow> s | Inl _ \<Rightarrow> []"
  have r: "map (first_pass P h) (reads t v cs) = map Inr ss" using ss(1) by (simp only: reads_map)
  have k: "second_pass P h cnt c st = (Inr (?g c), st)" if c: "c \<in> set (reads t v cs)" for c
  proof -
    have "first_pass P h c \<in> set (map Inr ss)" using c r by (metis image_eqI list.set_map)
    then obtain s where "first_pass P h c = Inr s" by auto
    moreover have "c \<in> set cs" using c reads_subset[of t v cs] by blast
    ultimately show ?thesis using DraftASTNode.IH by simp
  qed
  have "ss = map ?g (reads t v cs)"
  proof -
    have "map (\<lambda>q. case q of Inr s \<Rightarrow> s | Inl _ \<Rightarrow> []) (map (first_pass P h) (reads t v cs)) = ss"
      unfolding r by (simp add: comp_def)
    then show ?thesis by (simp add: comp_def)
  qed
  then have "aseq (map (second_pass P h cnt) (reads t v cs)) st = (Inr ss, st)" using aseq_const[of "reads t v cs" "second_pass P h cnt" st ?g] k by simp
  then have "aseq (reads t v (map (second_pass P h cnt) cs)) st = (Inr ss, st)" by (simp only: reads_map)
  moreover have "\<not> cnt e > 1" using assms(1) by (simp add: not_less)
  ultimately show ?case using DraftASTNode.prems ss(2) assms(2)
    by (simp add: pass_node_def abind_def declare_shared_def)
qed

text \<open>
  The lines of a compiled expression are declarations of variables with different names and one
  return; an expression in which no subexpression repeats compiles to the return of its text alone.
\<close>

lemma compiled_lines_shape:
  assumes "compile_lines P h n = Inr lines"
  shows "(\<exists>decls e. lines = map decl_line decls @ [''return '' @ e] \<and> distinct (map fst decls)) \<and>
    (unshared P h n \<longrightarrow> (\<exists>e. first_pass P h n = Inr e \<and> lines = [''return '' @ e]))"
proof -
  obtain e0 r st where e0: "first_pass P h n = Inr e0" and r: "second_pass P h (ref_count P h n) n compile_start = (r, st)"
    using assms by (cases "second_pass P h (ref_count P h n) n compile_start") (auto simp: compile_lines_def res_simps)
  then obtain e where e: "r = Inr e" "lines = map decl_line (cs_decls st) @ [''return '' @ e]"
    using assms by (cases r) (auto simp: compile_lines_def)
  have "vars_ok compile_start" by (simp add: vars_ok_def compile_start_def dvals_def)
  then have "vars_ok st" using keepsD[OF second_pass_ok] r by (metis snd_conv)
  then have "distinct (map fst (cs_decls st))" by (simp add: vars_ok_def)
  moreover have "\<exists>e. first_pass P h n = Inr e \<and> lines = [''return '' @ e]" if "unshared P h n"
  proof -
    have "second_pass P h (ref_count P h n) n compile_start = (Inr e0, compile_start)"
      using that e0 by (intro second_pass_unshared) (auto simp: unshared_def compile_start_def)
    then have "st = compile_start" "e = e0" using r e(1) by simp_all
    then show ?thesis using e0 e(2) by (simp add: compile_start_def)
  qed
  ultimately show ?thesis using e(2) by blast
qed

definition plain_print :: pr_env where
  "plain_print = \<lparr>pr_float = (\<lambda>_. ''nan''), pr_json_float = (\<lambda>_. ''NaN''), pr_str = (\<lambda>_ _. []), pr_repr = (\<lambda>_ _. []), pr_reload = id\<rparr>"

text \<open>\<open>obj.a + obj.a\<close>\<close>

definition a_plus_a :: draft_node where
  "a_plus_a = DraftASTNode BINARY_OP [attr_node ROOT_NODE ''a'', attr_node ROOT_NODE ''a''] (DStr ''+'') DNone None"

lemma a_plus_a_compiled:
  "compile_lines plain_print [] a_plus_a =
     Inr [''GET_ATTR = ((obj).a if (obj) is not None else None)'', ''return (GET_ATTR + GET_ATTR)'']"
  by code_simp

lemma compiled_lines_shape_witness:
  "\<exists>decls e. [''GET_ATTR = ((obj).a if (obj) is not None else None)'', ''return (GET_ATTR + GET_ATTR)''] =
     map decl_line decls @ [''return '' @ e] \<and> distinct (map fst decls)"
  using compiled_lines_shape[OF a_plus_a_compiled] by blast

definition op_node :: "ast_type \<Rightarrow> string \<Rightarrow> draft_node list \<Rightarrow> draft_node" where
  "op_node t f cs = DraftASTNode t cs (DStr f) DNone None"

text \<open>
  The compiler emits text that is not the Python of the expression: \<open>!\<close> is no operator, \<open>sum\<close> of
  two lists takes the second as the start and has a third argument, and a dynamic \<open>getattr\<close> becomes
  an attribute access on the text of a literal.
\<close>

lemma compiler_emits_invalid_python:
  "compile_lines P h (op_node UNARY_OP ''!'' [ROOT_NODE]) = Inr [''return (!(obj))''] \<and>
   compile_lines P h (op_node FUNC_CALL ''concat'' [attr_node ROOT_NODE ''a'', attr_node ROOT_NODE ''b'']) =
     Inr [''return sum(((obj).a if (obj) is not None else None),((obj).b if (obj) is not None else None), [])''] \<and>
   compile_lines P h (op_node FUNC_CALL ''getattr'' [ROOT_NODE, DraftASTNode JSON_LITERAL [] (DInt 1) DNone None]) =
     Inr [''return obj.1'']"
  by (simp add: compile_lines_def op_node_def attr_node_def ROOT_NODE_def node_texts call_texts rkid_def py_str_def guarded_def
      pass_node_def reads_def node_counts call_counts compile_start_def act_simps declare_shared_def ref_count_def py_repr_def
      int_str_def nat_str.simps digit_char_def char_of_def bit_iff_odd)

end
