(* ===== verification/Annolib.thy ===== *)
theory Annolib
  imports Prelude
begin

text \<open>
  Annotated types (\<open>core/annolib.py\<close>): a type expression (\<open>ty\<close>) is parsed by
  \<open>parse_type_may_optional_undefined\<close> into an annotated type (\<open>anno\<close>), which has the optional and undefined
  members of a union as flags. \<open>OgEllipsis\<close> is the object \<open>...\<close> in \<open>tuple[T, ...]\<close>, \<open>OgEllipsisType\<close> its class.
\<close>

subsection \<open>Annotated types\<close>

datatype origin =
    OgAny | OgNone | OgUndefined | OgBool | OgInt | OgFloat | OgStr | OgList | OgDictT | OgTuple | OgUnion | OgRange | OgSlice | OgEllipsis | OgEllipsisType | OgClass string | OgVar string

datatype meta = DraftFieldMeta bool bool | OtherMeta nat

datatype ty = Ty origin | TyGen origin "ty list" | TyAnnotated ty "meta list"

record anno =
  an_origin :: origin
  an_child :: "ty list"
  an_metas :: "meta list option"
  an_optional :: bool
  an_undefined :: bool
  an_homogeneous :: bool

definition anno_of :: "origin \<Rightarrow> anno" where
  "anno_of og = \<lparr>an_origin = og, an_child = [], an_metas = None, an_optional = False, an_undefined = False, an_homogeneous = False\<rparr>"

fun extract_meta :: "ty \<Rightarrow> ty \<times> meta list option" where
  "extract_meta (TyAnnotated t m) = (t, Some m)"
| "extract_meta t = (t, None)"

lemma extract_meta_size: "extract_meta t = (t', m) \<Longrightarrow> t' = t \<or> size t' < size t"
  by (cases t) auto

lemma filter_single_size:
  assumes "filter Q args = [x]"
  shows "size x < Suc (size_list size args)"
proof -
  have "x \<in> set (filter Q args)" using assms by simp
  then have "x \<in> set args" by simp
  then show ?thesis using size_list_estimation'[of x args "size x" size] by simp
qed

function parse_type_may_optional_undefined :: "ty \<Rightarrow> bool \<Rightarrow> bool \<Rightarrow> anno" where
  "parse_type_may_optional_undefined ann_type is_optional is_undefined =
     (case extract_meta ann_type of
        (TyGen OgUnion args, m) \<Rightarrow>
          let is_optional' = (is_optional \<or> Ty OgNone \<in> set args);
              is_undefined' = (is_undefined \<or> Ty OgUndefined \<in> set args)
          in (case filter (\<lambda>t. t \<noteq> Ty OgNone \<and> t \<noteq> Ty OgUndefined) args of
                [t] \<Rightarrow> (parse_type_may_optional_undefined t False False)
                  \<lparr>an_optional := is_optional', an_undefined := is_undefined', an_metas := m\<rparr>
              | args' \<Rightarrow> \<lparr>an_origin = OgUnion, an_child = args', an_metas = m, an_optional = is_optional', an_undefined = is_undefined', an_homogeneous = False\<rparr>)
      | (TyGen OgTuple [t, Ty OgEllipsis], m) \<Rightarrow>
          \<lparr>an_origin = OgTuple, an_child = [t], an_metas = m, an_optional = False, an_undefined = False, an_homogeneous = True\<rparr>
      | (TyGen og args, m) \<Rightarrow> \<lparr>an_origin = og, an_child = args, an_metas = m, an_optional = False, an_undefined = False, an_homogeneous = False\<rparr>
      | (Ty og, m) \<Rightarrow> \<lparr>an_origin = og, an_child = [], an_metas = m, an_optional = False, an_undefined = False, an_homogeneous = False\<rparr>
      | (TyAnnotated t m', m) \<Rightarrow> (parse_type_may_optional_undefined t is_optional is_undefined)\<lparr>an_metas := m\<rparr>)"
  by pat_completeness auto
termination
proof (relation "measure (\<lambda>(t, _). size t)", goal_cases)
  case (2 t io iu r m og args o' u' x xs)
  have "size x < Suc (size_list size args)" using filter_single_size 2 by simp
  moreover have "size (TyGen og args) \<le> size t" using extract_meta_size[of t "TyGen og args" m] 2 by auto
  ultimately show ?case by simp
next
  case (3 t io iu r m u m')
  have "size (TyAnnotated u m') \<le> size t" using extract_meta_size[of t "TyAnnotated u m'" m] 3 by auto
  then show ?case by simp
qed simp

declare parse_type_may_optional_undefined.simps [simp del]

definition is_sequence_type :: "anno \<Rightarrow> bool" where
  "is_sequence_type a \<longleftrightarrow> an_origin a = OgList"

definition is_mapping_type :: "anno \<Rightarrow> bool" where
  "is_mapping_type a \<longleftrightarrow> an_origin a = OgDictT"

definition is_bool_type :: "anno \<Rightarrow> bool" where
  "is_bool_type a \<longleftrightarrow> an_origin a = OgBool"

text \<open>The members of a union must be classes for \<open>issubclass\<close>.\<close>

fun all_numbers :: "ty list \<Rightarrow> bool res" where
  "all_numbers [] = Inr True"
| "all_numbers (Ty og # ts) = (if og \<in> {OgBool, OgInt, OgFloat} then all_numbers ts else Inr False)"
| "all_numbers (_ # ts) = Inl TypeError"

definition is_number_type :: "anno \<Rightarrow> bool res" where
  "is_number_type a =
     (if an_origin a \<in> {OgBool, OgInt, OgFloat} then Inr True
      else if an_origin a \<noteq> OgUnion then Inr False
      else all_numbers (an_child a))"

definition get_child_annotated_type :: "anno \<Rightarrow> nat \<Rightarrow> anno" where
  "get_child_annotated_type a i = parse_type_may_optional_undefined (an_child a ! i) (an_optional a) (an_undefined a)"

end
