(* ===== verification/DraftProxy.thy ===== *)
theory DraftProxy
  imports DraftApply DraftPath Annolib
begin

text \<open>
  Draft proxies (\<open>core/datamodel/draft.py\<close>, \<open>core/datamodel/funcs.py\<close>): objects that stand for a value
  of a document, build the draft expression of every access, and record every assignment or mutating
  call as an update in the current draft context.

  \<^item> Types are type expressions (\<open>ty\<close>) parsed by \<open>parse_type_may_optional_undefined\<close> of
    \<open>core/annolib.py\<close> into annotated types (\<open>anno\<close>). The dataclasses of the program are a class table.
  \<^item> A draft is type-only (its type is known, there is no object) or wraps a real object.
  \<^item> The context variables are explicit: \<open>gs_ctx\<close> is the current recording context, \<open>gs_proc\<close> the
    function every update goes through.

  The user data of nodes made by a proxy is an annotated type that only other tools read; it is
  \<open>DNone\<close> here. The text \<open>keyPath\<close> of a dynamic assignment is computed (it may fail) but not kept.
\<close>

record class_env =
  ce_fields :: "string \<Rightarrow> ty list \<Rightarrow> (string \<times> ty) list option"
  ce_field_id :: "string \<Rightarrow> string \<Rightarrow> int"
  ce_has_attr :: "origin \<Rightarrow> string \<Rightarrow> bool"

definition is_dataclass_type :: "class_env \<Rightarrow> anno \<Rightarrow> bool" where
  "is_dataclass_type CE a = (case an_origin a of OgClass c \<Rightarrow> ce_fields CE c [] \<noteq> None | _ \<Rightarrow> False)"

subsection \<open>Drafts\<close>

record anno_state =
  st_type_only :: bool
  st_anno :: "anno option"
  st_metas :: "meta list list"
  st_can_assign :: bool
  st_can_direct :: bool
  st_external :: bool
  st_store_external :: bool

datatype kind = DObject | DSequence | DDict | DMutableScalar | DString | DScalar | DAny

record draft =
  dr_kind :: kind
  dr_obj :: val
  dr_userdata :: val
  dr_node :: draft_node
  dr_state :: anno_state

definition is_comparable :: "draft \<Rightarrow> bool" where
  "is_comparable d \<longleftrightarrow> dr_kind d \<in> {DMutableScalar, DString}"

fun field_metas :: "meta list \<Rightarrow> (bool \<times> bool) option" where
  "field_metas [] = None"
| "field_metas (DraftFieldMeta e s # ms) = Some (e, s)"
| "field_metas (_ # ms) = field_metas ms"

definition extract_field_meta :: "anno \<Rightarrow> anno_state \<Rightarrow> bool \<times> bool" where
  "extract_field_meta a st =
     (let m = (case an_metas a of None \<Rightarrow> None | Some ms \<Rightarrow> field_metas ms) in
      (if st_external st then True else (case m of Some (e, _) \<Rightarrow> e | None \<Rightarrow> False),
       if st_store_external st then True else (case m of Some (_, s) \<Rightarrow> s | None \<Rightarrow> False)))"

definition path_metas :: "anno option \<Rightarrow> anno_state \<Rightarrow> meta list list" where
  "path_metas a st = st_metas st @ (case a of Some b \<Rightarrow> (case an_metas b of Some ms \<Rightarrow> [ms] | None \<Rightarrow> []) | None \<Rightarrow> [])"

definition kind_of_type :: "class_env \<Rightarrow> anno \<Rightarrow> kind res" where
  "kind_of_type CE a =
     (if is_dataclass_type CE a then Inr DObject
      else if is_sequence_type a then Inr DSequence
      else if is_mapping_type a then Inr DDict
      else rbind (is_number_type a) (\<lambda>n.
        if n then Inr DMutableScalar
        else if an_origin a = OgUnion then Inl NotImplementedError
        else if an_origin a = OgAny then Inr DAny
        else if an_origin a = OgStr then Inr DString
        else Inr DScalar))"

definition kind_of_value :: "heap \<Rightarrow> val \<Rightarrow> kind" where
  "kind_of_value h v =
     (if is_dataclass h v then DObject
      else case v of
        DTuple _ \<Rightarrow> DSequence
      | DInt _ \<Rightarrow> DMutableScalar | DBool _ \<Rightarrow> DMutableScalar | DFloat _ \<Rightarrow> DMutableScalar
      | DStr _ \<Rightarrow> DString
      | _ \<Rightarrow> if as_list h v \<noteq> None then DSequence else if as_dict h v \<noteq> None then DDict else DScalar)"

definition anno_dispatch :: "class_env \<Rightarrow> anno \<Rightarrow> draft_node \<Rightarrow> val \<Rightarrow> anno_state \<Rightarrow> draft res" where
  "anno_dispatch CE a node userdata prev =
     rbind (kind_of_type CE a) (\<lambda>k. Inr \<lparr>dr_kind = k, dr_obj = DNone, dr_userdata = userdata, dr_node = node,
       dr_state = prev\<lparr>st_anno := Some a, st_metas := path_metas (Some a) prev,
         st_external := fst (extract_field_meta a prev), st_store_external := snd (extract_field_meta a prev)\<rparr>\<rparr>)"

text \<open>\<open>DraftBase.__init__\<close> wants an object or a type.\<close>

definition obj_dispatch :: "heap \<Rightarrow> val \<Rightarrow> draft_node \<Rightarrow> val \<Rightarrow> anno_state \<Rightarrow> anno option \<Rightarrow> draft res" where
  "obj_dispatch h v node userdata prev a =
     (if v = DNone \<and> a = None then Inl AssertionError
      else Inr \<lparr>dr_kind = kind_of_value h v, dr_obj = v, dr_userdata = userdata, dr_node = node,
        dr_state = prev\<lparr>st_anno := a, st_metas := path_metas a prev\<rparr>\<rparr>)"

definition draft_dispatch :: "class_env \<Rightarrow> heap \<Rightarrow> draft \<Rightarrow> val res \<Rightarrow> draft_node \<Rightarrow> anno option \<Rightarrow> draft res" where
  "draft_dispatch CE h d new_obj node a =
     (if st_type_only (dr_state d) then
        (case a of None \<Rightarrow> Inl AssertionError | Some b \<Rightarrow> anno_dispatch CE b node (dr_userdata d) (dr_state d))
      else rbind new_obj (\<lambda>v. obj_dispatch h v node (dr_userdata d) (dr_state d) a))"

definition start_state :: "bool \<Rightarrow> anno option \<Rightarrow> bool \<Rightarrow> anno_state" where
  "start_state type_only a can_assign = \<lparr>st_type_only = type_only, st_anno = a, st_metas = [], st_can_assign = can_assign,
     st_can_direct = True, st_external = False, st_store_external = False\<rparr>"

text \<open>\<open>type(v)\<close>; the class of an opaque object is not a dataclass.\<close>

definition py_type :: "heap \<Rightarrow> val \<Rightarrow> ty" where
  "py_type h v = (case v of DNone \<Rightarrow> Ty OgNone | DBool _ \<Rightarrow> Ty OgBool | DInt _ \<Rightarrow> Ty OgInt | DFloat _ \<Rightarrow> Ty OgFloat | DStr _ \<Rightarrow> Ty OgStr
     | DTuple _ \<Rightarrow> Ty OgTuple | DOther _ \<Rightarrow> Ty (OgVar ''object'')
     | DRef a \<Rightarrow> (case hget h a of Some (OList _) \<Rightarrow> Ty OgList | Some (ODict _) \<Rightarrow> Ty OgDictT | Some (OData c _) \<Rightarrow> Ty (OgClass c)
         | None \<Rightarrow> Ty (OgVar ''object'')))"

definition create_draft :: "heap \<Rightarrow> val \<Rightarrow> val \<Rightarrow> ty option \<Rightarrow> draft res" where
  "create_draft h v userdata t =
     obj_dispatch h v ROOT_NODE userdata (start_state False None True)
       (Some (parse_type_may_optional_undefined (case t of Some t' \<Rightarrow> t' | None \<Rightarrow> py_type h v) False False))"

definition create_literal_draft :: "pr_env \<Rightarrow> heap \<Rightarrow> val \<Rightarrow> val \<Rightarrow> draft res" where
  "create_literal_draft P h v userdata =
     rbind (case v of DStr _ \<Rightarrow> Inr STRING_LITERAL | _ \<Rightarrow> rbind (json_dumps P h v) (\<lambda>_. Inr JSON_LITERAL)) (\<lambda>t.
       obj_dispatch h v (DraftASTNode t [] v DNone None) userdata (start_state False None False)
         (Some (parse_type_may_optional_undefined (py_type h v) False False)))"

definition create_draft_type_only :: "class_env \<Rightarrow> ty \<Rightarrow> val \<Rightarrow> draft res" where
  "create_draft_type_only CE t userdata =
     (let a = parse_type_may_optional_undefined t False False in
      if is_dataclass_type CE a then anno_dispatch CE a ROOT_NODE userdata (start_state True None True) else Inl AssertionError)"

subsection \<open>Reading through a draft\<close>

datatype arg = ArgVal val | ArgDraft draft

datatype attr_result = GotDraft draft | GotMethod string

definition object_fields :: "class_env \<Rightarrow> heap \<Rightarrow> draft \<Rightarrow> (string \<times> (string \<times> ty) list) option" where
  "object_fields CE h d =
     (if st_type_only (dr_state d) then
        (case st_anno (dr_state d) of
           Some a \<Rightarrow> (case an_origin a of OgClass c \<Rightarrow> map_option (Pair c) (ce_fields CE c (an_child a)) | _ \<Rightarrow> None)
         | None \<Rightarrow> None)
      else (case as_data h (dr_obj d) of Some (c, fs) \<Rightarrow> map_option (Pair c) (ce_fields CE c []) | None \<Rightarrow> None))"

definition object_getattr :: "py_env \<Rightarrow> class_env \<Rightarrow> heap \<Rightarrow> draft \<Rightarrow> string \<Rightarrow> attr_result res" where
  "object_getattr E CE h d name =
     (case object_fields CE h d of
        None \<Rightarrow> Inl AssertionError
      | Some (c, flds) \<Rightarrow> (case dget flds name of
            None \<Rightarrow> (case st_anno (dr_state d) of
                Some a \<Rightarrow> if ce_has_attr CE (an_origin a) name then Inr (GotMethod name) else Inl AttributeError
              | None \<Rightarrow> Inl AttributeError)
          | Some t \<Rightarrow>
              let typed = st_anno (dr_state d) \<noteq> None;
                  a = (if typed then Some (parse_type_may_optional_undefined t False False) else None);
                  node = DraftASTNode GET_ATTR [dr_node d] (DStr name) DNone (if typed then Some (ce_field_id CE c name) else None)
              in rbind (draft_dispatch CE h d (py_getattr E (dr_obj d) (DStr name) h) node a) (\<lambda>r. Inr (GotDraft r))))"

definition item_anno :: "draft \<Rightarrow> nat \<Rightarrow> bool \<Rightarrow> anno option" where
  "item_anno d i present = (case st_anno (dr_state d) of
     None \<Rightarrow> None
   | Some a \<Rightarrow> Some (if present then get_child_annotated_type a i else anno_of OgAny))"

definition seq_anno :: "draft \<Rightarrow> anno option" where
  "seq_anno d = item_anno d 0 (case st_anno (dr_state d) of Some a \<Rightarrow> an_child a \<noteq> [] | None \<Rightarrow> False)"

definition dict_anno :: "draft \<Rightarrow> anno option" where
  "dict_anno d = item_anno d 1 (case st_anno (dr_state d) of Some a \<Rightarrow> length (an_child a) = 2 | None \<Rightarrow> False)"

definition sequence_getitem :: "py_env \<Rightarrow> class_env \<Rightarrow> heap \<Rightarrow> draft \<Rightarrow> arg \<Rightarrow> draft res" where
  "sequence_getitem E CE h d idx = (case idx of
     ArgDraft i \<Rightarrow>
       draft_dispatch CE h d (py_getitem E (dr_obj d) (dr_obj i) h)
         (DraftASTNode FUNC_CALL [dr_node d, dr_node i] (DStr ''getItem'') DNone None)
         (if st_type_only (dr_state d) then seq_anno d else None)
   | ArgVal (DTuple _) \<Rightarrow> Inl NotImplementedError
   | ArgVal v \<Rightarrow>
       draft_dispatch CE h d (py_getitem E (dr_obj d) v h) (DraftASTNode ARRAY_GET_ITEM [dr_node d] v DNone None) (seq_anno d))"

definition dict_getitem :: "py_env \<Rightarrow> class_env \<Rightarrow> heap \<Rightarrow> draft \<Rightarrow> arg \<Rightarrow> draft res" where
  "dict_getitem E CE h d key = (case key of
     ArgDraft k \<Rightarrow>
       draft_dispatch CE h d (py_getitem E (dr_obj d) (dr_obj k) h)
         (DraftASTNode FUNC_CALL [dr_node d, dr_node k] (DStr ''getItem'') DNone None) (dict_anno d)
   | ArgVal v \<Rightarrow>
       draft_dispatch CE h d (py_getitem E (dr_obj d) v h) (DraftASTNode DICT_GET_ITEM [dr_node d] v DNone None) (dict_anno d))"

subsection \<open>Operators\<close>

definition binary_node :: "draft_node \<Rightarrow> draft_node \<Rightarrow> string \<Rightarrow> draft_node" where
  "binary_node x y op = DraftASTNode BINARY_OP [x, y] (DStr op) DNone None"

definition literal_node :: "pr_env \<Rightarrow> heap \<Rightarrow> val \<Rightarrow> draft_node res" where
  "literal_node P h v = (case v of
     DStr _ \<Rightarrow> Inr (DraftASTNode STRING_LITERAL [] v DNone None)
   | _ \<Rightarrow> rbind (json_dumps P h v) (\<lambda>_. Inr (DraftASTNode JSON_LITERAL [] v DNone None)))"

definition logic_op :: "class_env \<Rightarrow> heap \<Rightarrow> draft \<Rightarrow> arg \<Rightarrow> string \<Rightarrow> draft res" where
  "logic_op CE h d other op = (case other of
     ArgVal _ \<Rightarrow> Inl AssertionError
   | ArgDraft o' \<Rightarrow> draft_dispatch CE h d (Inr (dr_obj d)) (binary_node (dr_node d) (dr_node o') op) (Some (anno_of OgBool)))"

text \<open>\<open>issubclass(origin, float)\<close> wants a class.\<close>

definition is_float_type :: "anno option \<Rightarrow> bool res" where
  "is_float_type a = (case a of
     None \<Rightarrow> Inl AssertionError
   | Some b \<Rightarrow> (case an_origin b of OgFloat \<Rightarrow> Inr True | OgUnion \<Rightarrow> Inl TypeError | OgAny \<Rightarrow> Inl TypeError | OgVar _ \<Rightarrow> Inl TypeError
       | _ \<Rightarrow> Inr False))"

definition math_op :: "class_env \<Rightarrow> heap \<Rightarrow> draft \<Rightarrow> arg \<Rightarrow> string \<Rightarrow> draft res" where
  "math_op CE h d other op =
     (if dr_kind d \<noteq> DMutableScalar \<or> st_anno (dr_state d) = None then Inl AssertionError
      else rbind (case other of
          ArgDraft o' \<Rightarrow> if dr_kind o' \<noteq> DMutableScalar then Inl AssertionError
            else rbind (is_float_type (st_anno (dr_state o'))) (\<lambda>b. Inr (b, dr_node o'))
        | ArgVal v \<Rightarrow> if as_num v = None then Inl AssertionError else Inr (False, DraftASTNode JSON_LITERAL [] v DNone None))
        (\<lambda>(other_is_float, other_node).
          rbind (is_float_type (st_anno (dr_state d))) (\<lambda>self_is_float.
            draft_dispatch CE h d (Inr (dr_obj d)) (binary_node (dr_node d) other_node op)
              (Some (anno_of (if other_is_float \<or> self_is_float then OgFloat else OgInt))))))"

definition compare_op :: "pr_env \<Rightarrow> class_env \<Rightarrow> heap \<Rightarrow> draft \<Rightarrow> arg \<Rightarrow> string \<Rightarrow> draft res" where
  "compare_op P CE h d other op =
     rbind (case other of
         ArgDraft o' \<Rightarrow> if is_comparable o' then Inr (dr_node o') else Inl TypeError
       | ArgVal v \<Rightarrow> literal_node P h v)
       (\<lambda>n. draft_dispatch CE h d (Inr (dr_obj d)) (binary_node (dr_node d) n op) (Some (anno_of OgBool)))"

definition binary_op_draft :: "pr_env \<Rightarrow> class_env \<Rightarrow> heap \<Rightarrow> draft \<Rightarrow> arg \<Rightarrow> string \<Rightarrow> draft res" where
  "binary_op_draft P CE h d other op =
     (if op \<in> {''+'', ''-'', ''*'', ''/'', ''//''} then math_op CE h d other op
      else if op \<in> {''=='', ''!='', ''>'', ''<'', ''>='', ''<=''} then compare_op P CE h d other op
      else Inl NotImplementedError)"

text \<open>\<open>==\<close> and \<open>!=\<close> of a draft: only a comparable scalar accepts more than \<open>None\<close>.\<close>

definition draft_eq :: "pr_env \<Rightarrow> class_env \<Rightarrow> heap \<Rightarrow> draft \<Rightarrow> arg \<Rightarrow> string \<Rightarrow> draft res" where
  "draft_eq P CE h d other op =
     (if is_comparable d \<or> other = ArgVal DNone then binary_op_draft P CE h d other op else Inl AssertionError)"

definition func_node :: "string \<Rightarrow> draft_node list \<Rightarrow> draft_node" where
  "func_node f cs = DraftASTNode FUNC_CALL cs (DStr f) DNone None"

definition format_op :: "class_env \<Rightarrow> heap \<Rightarrow> draft \<Rightarrow> arg list \<Rightarrow> draft res" where
  "format_op CE h d args =
     rbind (rmap_list (\<lambda>a. case a of
         ArgDraft o' \<Rightarrow> Inr (dr_node o')
       | ArgVal (DStr s) \<Rightarrow> Inr (DraftASTNode STRING_LITERAL [] (DStr s) DNone None)
       | ArgVal v \<Rightarrow> if as_num v = None then Inl AssertionError else Inr (DraftASTNode JSON_LITERAL [] v DNone None)) args)
       (\<lambda>ns. draft_dispatch CE h d (Inr (dr_obj d)) (func_node ''cformat'' (dr_node d # ns)) (Some (anno_of OgStr)))"

definition join_op :: "class_env \<Rightarrow> heap \<Rightarrow> draft \<Rightarrow> arg \<Rightarrow> draft res" where
  "join_op CE h d other = (case other of
     ArgDraft o' \<Rightarrow> if dr_kind o' = DSequence
       then draft_dispatch CE h d (Inr (dr_obj d)) (func_node ''join'' [dr_node d, dr_node o']) (Some (anno_of OgStr))
       else Inl AssertionError
   | ArgVal _ \<Rightarrow> Inl AssertionError)"

definition seq_add_draft :: "pr_env \<Rightarrow> class_env \<Rightarrow> heap \<Rightarrow> draft \<Rightarrow> arg \<Rightarrow> bool \<Rightarrow> draft res" where
  "seq_add_draft P CE h d other is_reverse =
     rbind (case other of
         ArgDraft o' \<Rightarrow> if dr_kind o' = DSequence then Inr (dr_node o') else Inl AssertionError
       | ArgVal v \<Rightarrow> if as_list h v = None then Inl AssertionError
           else rbind (json_dumps P h v) (\<lambda>_. Inr (DraftASTNode JSON_LITERAL [] v DNone None)))
       (\<lambda>n. draft_dispatch CE h d (Inr (dr_obj d))
         (func_node ''concat'' (if is_reverse then [n, dr_node d] else [dr_node d, n])) (st_anno (dr_state d)))"

definition get_length :: "class_env \<Rightarrow> heap \<Rightarrow> draft \<Rightarrow> draft res" where
  "get_length CE h d = draft_dispatch CE h d (py_len (dr_obj d) h) (func_node ''len'' [dr_node d]) (Some (anno_of OgInt))"

subsection \<open>Functions on drafts\<close>

definition simple_expr_func :: "pr_env \<Rightarrow> class_env \<Rightarrow> heap \<Rightarrow> string \<Rightarrow> arg list \<Rightarrow> ty option \<Rightarrow> draft res" where
  "simple_expr_func P CE h f args return_type =
     rbind (rmap_list (\<lambda>a. case a of ArgDraft o' \<Rightarrow> Inr o' | ArgVal v \<Rightarrow> create_literal_draft P h v DNone) args) (\<lambda>ds.
       let userdata = (case filter (\<lambda>u. u \<noteq> DNone) (concat (map (\<lambda>a. case a of ArgDraft o' \<Rightarrow> [dr_userdata o'] | ArgVal _ \<Rightarrow> []) args)) of
             [] \<Rightarrow> DNone | u # _ \<Rightarrow> u);
           a = parse_type_may_optional_undefined (case return_type of None \<Rightarrow> Ty OgAny | Some t \<Rightarrow> t) False False
       in case ds of
            [] \<Rightarrow> Inl IndexError
          | d # _ \<Rightarrow> anno_dispatch CE a (func_node f (map dr_node ds)) userdata (dr_state d))"

definition not_null :: "pr_env \<Rightarrow> class_env \<Rightarrow> heap \<Rightarrow> arg list \<Rightarrow> draft res" where
  "not_null P CE h args = simple_expr_func P CE h ''not_null'' args None"

definition where_draft :: "pr_env \<Rightarrow> class_env \<Rightarrow> heap \<Rightarrow> arg \<Rightarrow> arg \<Rightarrow> arg \<Rightarrow> ty option \<Rightarrow> draft res" where
  "where_draft P CE h c x y return_type = simple_expr_func P CE h ''where'' [c, x, y] return_type"

definition array_draft :: "pr_env \<Rightarrow> class_env \<Rightarrow> heap \<Rightarrow> arg list \<Rightarrow> draft res" where
  "array_draft P CE h args = simple_expr_func P CE h ''array'' args (Some (TyGen OgList [Ty OgAny]))"

definition getitem_path_dynamic :: "class_env \<Rightarrow> draft \<Rightarrow> draft \<Rightarrow> ty \<Rightarrow> draft res" where
  "getitem_path_dynamic CE target path result_type =
     (if dr_kind path \<noteq> DSequence \<or> \<not> st_type_only (dr_state target) then Inl AssertionError
      else anno_dispatch CE (parse_type_may_optional_undefined result_type False False)
        (func_node ''getItemPath'' [dr_node target, dr_node path]) (dr_userdata target) (dr_state target))"

definition logical_op :: "class_env \<Rightarrow> heap \<Rightarrow> draft \<Rightarrow> draft \<Rightarrow> string \<Rightarrow> draft res" where
  "logical_op CE h x y op = (case (st_anno (dr_state x), st_anno (dr_state y)) of
     (Some a, Some b) \<Rightarrow> if is_bool_type a \<and> is_bool_type b then logic_op CE h x (ArgDraft y) op else Inl AssertionError
   | _ \<Rightarrow> Inl AssertionError)"

definition length_draft :: "class_env \<Rightarrow> heap \<Rightarrow> draft \<Rightarrow> draft res" where
  "length_draft CE h d = (if dr_kind d = DSequence then get_length CE h d else Inl AssertionError)"

definition dict_get_item :: "py_env \<Rightarrow> class_env \<Rightarrow> heap \<Rightarrow> draft \<Rightarrow> string \<Rightarrow> draft res" where
  "dict_get_item E CE h d attr = (if dr_kind d = DDict then dict_getitem E CE h d (ArgVal (DStr attr)) else Inl AssertionError)"

end
