(* ===== verification/DraftRecord.thy ===== *)
theory DraftRecord
  imports DraftProxy
begin

text \<open>
  Recording (\<open>core/datamodel/draft.py\<close>): the draft contexts and the assignments and mutating methods
  of the proxies, and the theorem that applying what was recorded does what the statement would have
  done to the document itself.

  Python runs \<open>d.x += v\<close> as three steps: read \<open>d.x\<close>, call \<open>__iadd__\<close> on the result, assign what it
  returns to \<open>d.x\<close>. The middle step records the update, so the assignment must recognise it and do
  nothing; it does so by comparing the key and the JMES path of the last update.

  \<open>append(v)\<close> records the one-element list \<open>[v]\<close>, a fresh object that nothing else can see; it is the
  tuple of \<open>v\<close> here.
\<close>

subsection \<open>Contexts\<close>

record draft_ctx =
  cx_ops :: "draft_update list"
  cx_prevent :: bool
  cx_jmes :: bool

record draft_globals =
  gs_ctx :: "draft_ctx option"
  gs_proc :: "(draft_update \<Rightarrow> draft_update) option"

type_synonym 'a rec_act = "(draft_globals, 'a) act"

definition lift_res :: "'a res \<Rightarrow> ('s, 'a) act" where
  "lift_res r s = (r, s)"

definition get_draft_update_context :: "draft_ctx rec_act" where
  "get_draft_update_context gs = (case gs_ctx gs of None \<Rightarrow> (Inl AssertionError, gs) | Some c \<Rightarrow> (Inr c, gs))"

definition add_op :: "draft_update \<Rightarrow> unit rec_act" where
  "add_op u gs = (case gs_ctx gs of
     None \<Rightarrow> (Inl AssertionError, gs)
   | Some c \<Rightarrow> if cx_prevent c then (Inl AssertionError, gs)
       else (Inr (), gs\<lparr>gs_ctx := Some (c\<lparr>cx_ops := cx_ops c @ [case gs_proc gs of None \<Rightarrow> u | Some f \<Rightarrow> f u]\<rparr>)\<rparr>))"

text \<open>The context managers restore the previous context whatever happens inside.\<close>

definition with_ctx :: "draft_ctx \<Rightarrow> 'a rec_act \<Rightarrow> ('a \<times> draft_update list) rec_act" where
  "with_ctx c body gs = (case body (gs\<lparr>gs_ctx := Some c\<rparr>) of
     (r, gs') \<Rightarrow> (rbind r (\<lambda>x. Inr (x, case gs_ctx gs' of Some c' \<Rightarrow> cx_ops c' | None \<Rightarrow> [])), gs'\<lparr>gs_ctx := gs_ctx gs\<rparr>))"

definition capture_draft_update :: "bool \<Rightarrow> bool \<Rightarrow> 'a rec_act \<Rightarrow> ('a \<times> draft_update list) rec_act" where
  "capture_draft_update allow_nested use_jmes body gs =
     (if gs_ctx gs \<noteq> None \<and> \<not> allow_nested then (Inl RuntimeError, gs)
      else with_ctx \<lparr>cx_ops = [], cx_prevent = False, cx_jmes = use_jmes\<rparr> body gs)"

definition prevent_draft_update :: "'a rec_act \<Rightarrow> ('a \<times> draft_update list) rec_act" where
  "prevent_draft_update body = with_ctx \<lparr>cx_ops = [], cx_prevent = True, cx_jmes = True\<rparr> body"

definition enter_op_process_ctx :: "(draft_update \<Rightarrow> draft_update) \<Rightarrow> 'a rec_act \<Rightarrow> 'a rec_act" where
  "enter_op_process_ctx f body gs = (case body (gs\<lparr>gs_proc := Some f\<rparr>) of (r, gs') \<Rightarrow> (r, gs'\<lparr>gs_proc := gs_proc gs\<rparr>))"

subsection \<open>Making updates\<close>

definition get_update_op ::
  "draft \<Rightarrow> draft_op \<Rightarrow> bool \<Rightarrow> draft_node list \<Rightarrow> int option \<Rightarrow> anno option \<Rightarrow> draft_update res" where
  "get_update_op d op drop_last addi_nodes field_id field_anno =
     rbind (if drop_last then (case nd_children (dr_node d) of [] \<Rightarrow> Inl IndexError | c # _ \<Rightarrow> Inr c) else Inr (dr_node d)) (\<lambda>node.
       let ext = (case field_anno of None \<Rightarrow> (st_external (dr_state d), st_store_external (dr_state d))
             | Some a \<Rightarrow> extract_field_meta a (dr_state d))
       in Inr \<lparr>du_op = op, du_node = node, du_userdata = dr_userdata d, du_nodes = addi_nodes, du_field_id = field_id,
            du_external = fst ext, du_store_external = snd ext\<rparr>)"

definition record_op :: "draft \<Rightarrow> draft_op \<Rightarrow> unit rec_act" where
  "record_op d op = abind get_draft_update_context (\<lambda>_. abind (lift_res (get_update_op d op False [] None None)) add_op)"

definition last_inplace :: "draft_ctx \<Rightarrow> (val \<times> draft_node) option" where
  "last_inplace c = (if cx_ops c = [] then None
     else case du_op (last (cx_ops c)) of ScalarInplaceOp f k v \<Rightarrow> Some (k, du_node (last (cx_ops c))) | _ \<Rightarrow> None)"

definition same_path :: "pr_env \<Rightarrow> heap \<Rightarrow> draft_node \<Rightarrow> draft_node \<Rightarrow> bool res" where
  "same_path P h m n = rbind (get_jmes_path P h m) (\<lambda>s. rbind (get_jmes_path P h n) (\<lambda>t. Inr (s = t)))"

text \<open>Is the assigned draft the result of the in-place operation just recorded?\<close>

definition after_inplace :: "pr_env \<Rightarrow> heap \<Rightarrow> draft \<Rightarrow> draft_ctx \<Rightarrow> (val \<Rightarrow> bool res) \<Rightarrow> bool res" where
  "after_inplace P h d c key_matches = (case last_inplace c of
     None \<Rightarrow> Inr False
   | Some (k, n) \<Rightarrow> rbind (key_matches k) (\<lambda>b. if b then same_path P h n (dr_node d) else Inr False))"

subsection \<open>Assignments\<close>

definition object_setattr :: "pr_env \<Rightarrow> class_env \<Rightarrow> heap \<Rightarrow> draft \<Rightarrow> string \<Rightarrow> arg \<Rightarrow> unit rec_act" where
  "object_setattr P CE h d name value = (case object_fields CE h d of
     None \<Rightarrow> araise AssertionError
   | Some (c, flds) \<Rightarrow> (case dget flds name of
       None \<Rightarrow> araise AttributeError
     | Some t \<Rightarrow> if \<not> st_can_assign (dr_state d) then araise AssertionError
         else abind get_draft_update_context (\<lambda>ctx. case value of
           ArgDraft _ \<Rightarrow> abind (lift_res (after_inplace P h d ctx (\<lambda>k. Inr (DStr name = k)))) (\<lambda>b.
             if b then aret () else araise AssertionError)
         | ArgVal v \<Rightarrow>
             let typed = st_anno (dr_state d) \<noteq> None in
             abind (lift_res (get_update_op d (SetAttr [(name, v)]) False []
               (if typed then Some (ce_field_id CE c name) else None)
               (if typed then Some (parse_type_may_optional_undefined t False False) else None))) add_op)))"

definition key_path :: "pr_env \<Rightarrow> heap \<Rightarrow> bool \<Rightarrow> draft \<Rightarrow> string res" where
  "key_path P h use_jmes k = (if use_jmes then get_jmes_path P h (dr_node k) else get_pfl_path P h (dr_node k))"

definition dynamic_assign :: "pr_env \<Rightarrow> heap \<Rightarrow> bool \<Rightarrow> draft \<Rightarrow> draft \<Rightarrow> val \<Rightarrow> unit rec_act" where
  "dynamic_assign P h use_jmes d k v =
     abind (lift_res (key_path P h use_jmes k)) (\<lambda>_.
       abind (lift_res (get_update_op d (Assign v) False [dr_node k] None None)) add_op)"

text \<open>Comparing a draft index with a key builds a draft, which is true.\<close>

definition sequence_setitem ::
  "pr_env \<Rightarrow> py_env \<Rightarrow> class_env \<Rightarrow> heap \<Rightarrow> draft \<Rightarrow> arg \<Rightarrow> arg \<Rightarrow> unit rec_act" where
  "sequence_setitem P E CE h d index value = abind get_draft_update_context (\<lambda>ctx. case value of
     ArgDraft _ \<Rightarrow>
       abind (lift_res (after_inplace P h d ctx (\<lambda>k. case index of
           ArgVal i \<Rightarrow> py_eq E i k h
         | ArgDraft i \<Rightarrow> rbind (draft_eq P CE h i (ArgVal k) ''=='') (\<lambda>_. Inr True)))) (\<lambda>b.
         if b then aret () else araise AssertionError)
   | ArgVal v \<Rightarrow> (case index of
       ArgDraft i \<Rightarrow> dynamic_assign P h (cx_jmes ctx) d i v
     | ArgVal i \<Rightarrow> abind (lift_res (get_update_op d (ArraySet [(i, v)]) False [] None None)) add_op))"

text \<open>Here \<open>key\<close> is rebound to the recorded key before it is compared with itself.\<close>

definition dict_setitem :: "pr_env \<Rightarrow> heap \<Rightarrow> draft \<Rightarrow> arg \<Rightarrow> arg \<Rightarrow> unit rec_act" where
  "dict_setitem P h d key value = abind get_draft_update_context (\<lambda>ctx. case value of
     ArgDraft _ \<Rightarrow> abind (lift_res (after_inplace P h d ctx (\<lambda>k. Inr True))) (\<lambda>b. if b then aret () else araise AssertionError)
   | ArgVal v \<Rightarrow> (case key of
       ArgDraft k \<Rightarrow> dynamic_assign P h True d k v
     | ArgVal k \<Rightarrow> abind (lift_res (get_update_op d (DictUpdate [(k, v)]) False [] None None)) add_op))"

subsection \<open>Methods\<close>

definition not_draft :: "arg \<Rightarrow> val res" where
  "not_draft a = (case a of ArgVal v \<Rightarrow> Inr v | ArgDraft _ \<Rightarrow> Inl AssertionError)"

definition record_with :: "draft \<Rightarrow> arg \<Rightarrow> (val \<Rightarrow> draft_op) \<Rightarrow> unit rec_act" where
  "record_with d a f = abind (lift_res (not_draft a)) (\<lambda>v. record_op d (f v))"

definition sequence_append :: "draft \<Rightarrow> arg \<Rightarrow> unit rec_act" where
  "sequence_append d a = record_with d a (\<lambda>v. Extend (DTuple [v]))"

definition sequence_extend :: "draft \<Rightarrow> arg \<Rightarrow> unit rec_act" where
  "sequence_extend d a = record_with d a Extend"

definition sequence_pop :: "draft \<Rightarrow> arg \<Rightarrow> unit rec_act" where
  "sequence_pop d a = record_with d a ArrayPop"

definition sequence_remove :: "draft \<Rightarrow> arg \<Rightarrow> unit rec_act" where
  "sequence_remove d a = record_with d a ArrayRemove"

definition draft_clear :: "draft \<Rightarrow> unit rec_act" where
  "draft_clear d = record_op d ContainerClear"

definition sequence_insert :: "draft \<Rightarrow> arg \<Rightarrow> arg \<Rightarrow> unit rec_act" where
  "sequence_insert d idx item = abind (lift_res (not_draft idx)) (\<lambda>i. abind (lift_res (not_draft item)) (\<lambda>v. record_op d (ArrayInsert i v)))"

definition dict_pop :: "draft \<Rightarrow> arg \<Rightarrow> unit rec_act" where
  "dict_pop d k = record_with d k (\<lambda>v. Delete [v])"

text \<open>\<open>__iadd__\<close>, \<open>__isub__\<close>, \<open>__imul__\<close>, \<open>__itruediv__\<close>; \<open>__ifloordiv__\<close> records the same division.\<close>

datatype inplace_method = IAddM | ISubM | IMulM | ITrueDivM | IFloorDivM

fun method_op :: "inplace_method \<Rightarrow> inplace_op" where
  "method_op IAddM = IAdd" | "method_op ISubM = ISub" | "method_op IMulM = IMul" | "method_op ITrueDivM = IDiv"
| "method_op IFloorDivM = IDiv"

definition scalar_inplace :: "draft \<Rightarrow> inplace_method \<Rightarrow> arg \<Rightarrow> draft rec_act" where
  "scalar_inplace d m other =
     abind (lift_res (not_draft other)) (\<lambda>v.
       abind get_draft_update_context (\<lambda>_.
         abind (lift_res (get_update_op d (ScalarInplaceOp (method_op m) (nd_value (dr_node d)) v) True []
             (nd_field_id (dr_node d)) None)) (\<lambda>u.
           abind (add_op u) (\<lambda>_. aret d))))"

definition insert_assign_draft_op :: "arg \<Rightarrow> draft \<Rightarrow> unit rec_act" where
  "insert_assign_draft_op value d =
     abind (lift_res (not_draft value)) (\<lambda>v. abind get_draft_update_context (\<lambda>_.
       case dr_node d of DraftASTNode t cs key u f \<Rightarrow>
         if t = NAME \<or> t = FUNC_CALL \<or> \<not> st_can_assign (dr_state d) \<or> \<not> st_can_direct (dr_state d) then araise AssertionError
         else (case cs of
             [] \<Rightarrow> araise IndexError
           | prev # _ \<Rightarrow>
               let mk = (\<lambda>op. add_op \<lparr>du_op = op, du_node = prev, du_userdata = dr_userdata d, du_nodes = [], du_field_id = None,
                     du_external = False, du_store_external = False\<rparr>)
               in case t of
                    GET_ATTR \<Rightarrow> (case key of DStr s \<Rightarrow> mk (SetAttr [(s, v)]) | _ \<Rightarrow> araise TypeError)
                  | ARRAY_GET_ITEM \<Rightarrow> mk (ArraySet [(key, v)])
                  | DICT_GET_ITEM \<Rightarrow> mk (DictUpdate [(key, v)])
                  | _ \<Rightarrow> araise NotImplementedError)))"

definition copy_draft :: "draft \<Rightarrow> draft" where
  "copy_draft d = d\<lparr>dr_node := clone_tree_only (dr_node d)\<rparr>"

definition get_assign_disabled_draft :: "draft \<Rightarrow> draft" where
  "get_assign_disabled_draft d = (copy_draft d)\<lparr>dr_state := (dr_state d)\<lparr>st_can_direct := False\<rparr>\<rparr>"

subsection \<open>Statements on drafts and on documents\<close>

datatype step = StepAttr string | StepItem val | StepKey val

definition draft_step :: "py_env \<Rightarrow> class_env \<Rightarrow> heap \<Rightarrow> draft \<Rightarrow> step \<Rightarrow> draft res" where
  "draft_step E CE h d st = (case st of
     StepAttr s \<Rightarrow> if dr_kind d \<noteq> DObject then Inl AttributeError
       else rbind (object_getattr E CE h d s) (\<lambda>r. case r of GotDraft d' \<Rightarrow> Inr d' | GotMethod _ \<Rightarrow> Inl TypeError)
   | StepItem i \<Rightarrow> if dr_kind d \<noteq> DSequence then Inl TypeError else sequence_getitem E CE h d (ArgVal i)
   | StepKey k \<Rightarrow> if dr_kind d \<noteq> DDict then Inl TypeError else dict_getitem E CE h d (ArgVal k))"

fun follow_draft :: "py_env \<Rightarrow> class_env \<Rightarrow> heap \<Rightarrow> draft \<Rightarrow> step list \<Rightarrow> draft res" where
  "follow_draft E CE h d [] = Inr d"
| "follow_draft E CE h d (s # ss) = rbind (draft_step E CE h d s) (\<lambda>d'. follow_draft E CE h d' ss)"

definition val_step :: "py_env \<Rightarrow> heap \<Rightarrow> val \<Rightarrow> step \<Rightarrow> val res" where
  "val_step E h x st = (case st of
     StepAttr s \<Rightarrow> py_getattr E x (DStr s) h | StepItem i \<Rightarrow> py_getitem E x i h | StepKey k \<Rightarrow> py_getitem E x k h)"

fun follow_val :: "py_env \<Rightarrow> heap \<Rightarrow> val \<Rightarrow> step list \<Rightarrow> val res" where
  "follow_val E h x [] = Inr x"
| "follow_val E h x (s # ss) = rbind (val_step E h x s) (\<lambda>y. follow_val E h y ss)"

datatype stmt =
    AssignAttr string val | AssignItem val val | AssignKey val val
  | AppendTo val | ExtendBy val | PopAt val | RemoveFrom val | InsertAt val val | ClearIt | PopKey val
  | AugAttr string inplace_method val | AugItem val inplace_method val | AugKey val inplace_method val

definition aug_step :: "draft res \<Rightarrow> inplace_method \<Rightarrow> val \<Rightarrow> (arg \<Rightarrow> unit rec_act) \<Rightarrow> unit rec_act" where
  "aug_step r m v assign = abind (lift_res r) (\<lambda>x.
     if dr_kind x \<noteq> DMutableScalar then araise TypeError
     else abind (scalar_inplace x m (ArgVal v)) (\<lambda>y. assign (ArgDraft y)))"

definition record_stmt :: "pr_env \<Rightarrow> py_env \<Rightarrow> class_env \<Rightarrow> heap \<Rightarrow> draft \<Rightarrow> stmt \<Rightarrow> unit rec_act" where
  "record_stmt P E CE h d s = (case s of
     AssignAttr n v \<Rightarrow> object_setattr P CE h d n (ArgVal v)
   | AssignItem i v \<Rightarrow> sequence_setitem P E CE h d (ArgVal i) (ArgVal v)
   | AssignKey k v \<Rightarrow> dict_setitem P h d (ArgVal k) (ArgVal v)
   | AppendTo v \<Rightarrow> sequence_append d (ArgVal v)
   | ExtendBy v \<Rightarrow> sequence_extend d (ArgVal v)
   | PopAt i \<Rightarrow> sequence_pop d (ArgVal i)
   | RemoveFrom v \<Rightarrow> sequence_remove d (ArgVal v)
   | InsertAt i v \<Rightarrow> sequence_insert d (ArgVal i) (ArgVal v)
   | ClearIt \<Rightarrow> draft_clear d
   | PopKey k \<Rightarrow> dict_pop d (ArgVal k)
   | AugAttr n m v \<Rightarrow> aug_step (draft_step E CE h d (StepAttr n)) m v (object_setattr P CE h d n)
   | AugItem i m v \<Rightarrow> aug_step (draft_step E CE h d (StepItem i)) m v (sequence_setitem P E CE h d (ArgVal i))
   | AugKey k m v \<Rightarrow> aug_step (draft_step E CE h d (StepKey k)) m v (dict_setitem P h d (ArgVal k)))"

text \<open>The statement on the value itself; \<open>x //= v\<close> is not what \<open>__ifloordiv__\<close> records, see below.\<close>

fun method_arith :: "inplace_method \<Rightarrow> arith" where
  "method_arith IAddM = Add" | "method_arith ISubM = Sub" | "method_arith IMulM = Mul" | "method_arith ITrueDivM = Div"
| "method_arith IFloorDivM = FloorDiv"

definition aug_attr :: "py_env \<Rightarrow> val \<Rightarrow> string \<Rightarrow> inplace_method \<Rightarrow> val \<Rightarrow> (heap, unit) act" where
  "aug_attr E x n m v = abind (aread (py_getattr E x (DStr n))) (\<lambda>y. abind (py_iarith E (method_arith m) y v) (py_setattr x (DStr n)))"

definition aug_item :: "py_env \<Rightarrow> val \<Rightarrow> val \<Rightarrow> inplace_method \<Rightarrow> val \<Rightarrow> (heap, unit) act" where
  "aug_item E x k m v = abind (aread (py_getitem E x k)) (\<lambda>y. abind (py_iarith E (method_arith m) y v) (py_setitem E x k))"

definition run_stmt :: "py_env \<Rightarrow> val \<Rightarrow> stmt \<Rightarrow> (heap, unit) act" where
  "run_stmt E x s = (case s of
     AssignAttr n v \<Rightarrow> py_setattr x (DStr n) v
   | AssignItem i v \<Rightarrow> py_setitem E x i v
   | AssignKey k v \<Rightarrow> py_setitem E x k v
   | AppendTo v \<Rightarrow> py_extend x (DTuple [v])
   | ExtendBy v \<Rightarrow> py_extend x v
   | PopAt i \<Rightarrow> pop_index E x i
   | RemoveFrom v \<Rightarrow> py_remove E x v
   | InsertAt i v \<Rightarrow> py_insert x i v
   | ClearIt \<Rightarrow> py_clear x
   | PopKey k \<Rightarrow> py_pop E x k
   | AugAttr n m v \<Rightarrow> aug_attr E x n m v
   | AugItem i m v \<Rightarrow> aug_item E x i m v
   | AugKey k m v \<Rightarrow> aug_item E x k m v)"

subsection \<open>Drafts build the expression of the access\<close>

lemma draft_dispatch_node: "draft_dispatch CE h d r n a = Inr d' \<Longrightarrow> dr_node d' = n"
  by (auto simp: draft_dispatch_def anno_dispatch_def obj_dispatch_def res_simps split: if_splits option.splits)

lemma object_getattr_node:
  assumes "object_getattr E CE h d n = Inr (GotDraft d')"
  shows "\<exists>f. dr_node d' = DraftASTNode GET_ATTR [dr_node d] (DStr n) DNone f"
proof -
  obtain c flds where f: "object_fields CE h d = Some (c, flds)"
    using assms by (auto simp: object_getattr_def split: option.splits)
  obtain t where t: "dget flds n = Some t"
    using assms f by (auto simp: object_getattr_def split: option.splits if_splits)
  show ?thesis using assms f t by (auto simp: object_getattr_def Let_def res_simps dest!: draft_dispatch_node)
qed

lemma draft_step_node:
  assumes "draft_step E CE h d s = Inr d'"
  shows "\<exists>f. dr_node d' = (case s of StepAttr n \<Rightarrow> DraftASTNode GET_ATTR [dr_node d] (DStr n) DNone f
     | StepItem i \<Rightarrow> DraftASTNode ARRAY_GET_ITEM [dr_node d] i DNone f | StepKey k \<Rightarrow> DraftASTNode DICT_GET_ITEM [dr_node d] k DNone f)"
proof (cases s)
  case (StepAttr n)
  then obtain r where r: "object_getattr E CE h d n = Inr r" "(case r of GotDraft d' \<Rightarrow> Inr d' | GotMethod _ \<Rightarrow> Inl TypeError) = Inr d'"
    using assms by (auto simp: draft_step_def res_simps split: if_splits)
  then have "object_getattr E CE h d n = Inr (GotDraft d')" by (cases r) auto
  then show ?thesis using object_getattr_node StepAttr by simp
next
  case (StepItem i)
  then show ?thesis using assms
    by (cases i) (auto simp: draft_step_def sequence_getitem_def dest: draft_dispatch_node split: if_splits)
next
  case (StepKey k)
  then show ?thesis using assms by (auto simp: draft_step_def dict_getitem_def dest: draft_dispatch_node split: if_splits)
qed

lemma draft_step_eval:
  assumes "draft_step E CE h0 d s = Inr d'"
  shows "eval_ast E' obj (dr_node d') = abind (eval_ast E' obj (dr_node d)) (\<lambda>x. aread (\<lambda>h. val_step E' h x s))"
  using draft_step_node[OF assms] by (cases s) (auto simp: eval_node_def kid_def val_step_def)

lemma follow_draft_eval:
  "follow_draft E CE h0 d ss = Inr d' \<Longrightarrow>
   eval_ast E' obj (dr_node d') = abind (eval_ast E' obj (dr_node d)) (\<lambda>x. aread (\<lambda>h. follow_val E' h x ss))"
proof (induction ss arbitrary: d)
  case Nil
  then have "d' = d" by simp
  then show ?case by (auto simp: fun_eq_iff abind_def aread_def split: prod.split sum.split)
next
  case (Cons s ss)
  then obtain d1 where d1: "draft_step E CE h0 d s = Inr d1" "follow_draft E CE h0 d1 ss = Inr d'" by (auto simp: res_simps)
  have "abind (aread (\<lambda>h. val_step E' h x s)) (\<lambda>y. aread (\<lambda>h. follow_val E' h y ss)) = aread (\<lambda>h. follow_val E' h x (s # ss))" for x
    by (rule ext) (auto simp: abind_def aread_def split: sum.split)
  then show ?case by (simp add: Cons.IH[OF d1(2)] draft_step_eval[OF d1(1)] abind_assoc)
qed

text \<open>The JMES path of such an expression exists.\<close>

fun static_path :: "draft_node \<Rightarrow> bool" where
  "static_path (DraftASTNode t cs v u f) \<longleftrightarrow> t = NAME \<and> cs = [] \<or>
     (t = GET_ATTR \<or> t = ARRAY_GET_ITEM \<or> t = DICT_GET_ITEM) \<and> length cs = 1 \<and> (\<forall>c\<in>set cs. static_path c)"

lemma static_path_jmes: "static_path n \<Longrightarrow> \<exists>s. jmes_path_from P h n = Inr s"
proof (induction n)
  case (DraftASTNode t cs v u f)
  show ?case
  proof (cases "t = NAME")
    case False
    then obtain c where c: "cs = [c]" "static_path c" "t = GET_ATTR \<or> t = ARRAY_GET_ITEM \<or> t = DICT_GET_ITEM"
      using DraftASTNode.prems by (auto simp: length_Suc_conv)
    then obtain s where "jmes_path_from P h c = Inr s" using DraftASTNode.IH by auto
    then show ?thesis using c by (auto simp: jmes_node_def rkid_def)
  qed (simp add: jmes_node_def)
qed

lemma static_same_path: "static_path n \<Longrightarrow> same_path P h n n = Inr True"
  using static_path_jmes[of n P h] by (auto simp: same_path_def get_jmes_path_def)

lemma draft_step_static: "draft_step E CE h d s = Inr d' \<Longrightarrow> static_path (dr_node d) \<Longrightarrow> static_path (dr_node d')"
  using draft_step_node by (cases s) fastforce+

lemma follow_draft_static: "follow_draft E CE h d ss = Inr d' \<Longrightarrow> static_path (dr_node d) \<Longrightarrow> static_path (dr_node d')"
  by (induction ss arbitrary: d) (auto simp: res_simps dest: draft_step_static)

subsection \<open>What a statement records\<close>

definition recording :: "draft_ctx \<Rightarrow> draft_globals \<Rightarrow> bool" where
  "recording c gs \<longleftrightarrow> gs_ctx gs = Some c \<and> \<not> cx_prevent c \<and> gs_proc gs = None"

definition recorded :: "draft_update \<Rightarrow> draft_globals \<Rightarrow> draft_globals" where
  "recorded u gs = gs\<lparr>gs_ctx := map_option (\<lambda>c. c\<lparr>cx_ops := cx_ops c @ [u]\<rparr>) (gs_ctx gs)\<rparr>"

lemma add_op_recording: "recording c gs \<Longrightarrow> add_op u gs = (Inr (), recorded u gs)"
  by (simp add: add_op_def recording_def recorded_def)

lemma get_ctx_recording: "recording c gs \<Longrightarrow> get_draft_update_context gs = (Inr c, gs)"
  by (simp add: get_draft_update_context_def recording_def)

definition made_from :: "draft_update \<Rightarrow> draft_node \<Rightarrow> draft_op \<Rightarrow> bool" where
  "made_from u n op \<longleftrightarrow> du_node u = n \<and> du_op u = op \<and> du_nodes u = []"

lemma get_update_op_plain:
  "\<exists>u. get_update_op d op False [] f a = Inr u \<and> made_from u (dr_node d) op"
  by (simp add: get_update_op_def made_from_def Let_def)

lemma get_update_op_last:
  "nd_children (dr_node d) = c # cs \<Longrightarrow> \<exists>u. get_update_op d op True [] f a = Inr u \<and> made_from u c op"
  by (simp add: get_update_op_def made_from_def Let_def)

lemma record_op_recording:
  assumes "recording c gs"
  shows "\<exists>u. record_op d op gs = (Inr (), recorded u gs) \<and> made_from u (dr_node d) op"
  using get_update_op_plain[of d op None None] assms
  by (auto simp: record_op_def abind_def get_ctx_recording lift_res_def add_op_recording)

lemma scalar_inplace_recording:
  assumes "recording c gs" "nd_children (dr_node d) = n # ns"
  shows "\<exists>u. scalar_inplace d m (ArgVal v) gs = (Inr d, recorded u gs) \<and>
     made_from u n (ScalarInplaceOp (method_op m) (nd_value (dr_node d)) v)"
  using get_update_op_last[OF assms(2), of "ScalarInplaceOp (method_op m) (nd_value (dr_node d)) v" "nd_field_id (dr_node d)" None] assms(1)
  by (auto simp: scalar_inplace_def not_draft_def abind_def aret_def get_ctx_recording lift_res_def add_op_recording)

lemma recorded_recording:
  "recording c gs \<Longrightarrow> recording (c\<lparr>cx_ops := cx_ops c @ [u]\<rparr>) (recorded u gs)"
  by (simp add: recording_def recorded_def)

text \<open>The update a statement stands for.\<close>

definition stmt_op :: "stmt \<Rightarrow> draft_op" where
  "stmt_op s = (case s of
     AssignAttr n v \<Rightarrow> SetAttr [(n, v)] | AssignItem i v \<Rightarrow> ArraySet [(i, v)] | AssignKey k v \<Rightarrow> DictUpdate [(k, v)]
   | AppendTo v \<Rightarrow> Extend (DTuple [v]) | ExtendBy v \<Rightarrow> Extend v | PopAt i \<Rightarrow> ArrayPop i | RemoveFrom v \<Rightarrow> ArrayRemove v
   | InsertAt i v \<Rightarrow> ArrayInsert i v | ClearIt \<Rightarrow> ContainerClear | PopKey k \<Rightarrow> Delete [k]
   | AugAttr n m v \<Rightarrow> ScalarInplaceOp (method_op m) (DStr n) v
   | AugItem i m v \<Rightarrow> ScalarInplaceOp (method_op m) i v | AugKey k m v \<Rightarrow> ScalarInplaceOp (method_op m) k v)"

text \<open>The assignment that ends an augmented assignment adds nothing.\<close>

lemma aug_step_recording:
  assumes "aug_step (draft_step E CE h d st) m v assign gs = (Inr (), gs')" "recording c gs"
    and "\<And>x. draft_step E CE h d st = Inr x \<Longrightarrow> nd_children (dr_node x) = [dr_node d]"
    and "\<And>x g r. assign (ArgDraft x) g = (Inr (), r) \<Longrightarrow> r = g"
  shows "\<exists>x u. draft_step E CE h d st = Inr x \<and> gs' = recorded u gs \<and>
     made_from u (dr_node d) (ScalarInplaceOp (method_op m) (nd_value (dr_node x)) v)"
proof -
  obtain x where x: "draft_step E CE h d st = Inr x"
    and a: "abind (scalar_inplace x m (ArgVal v)) (\<lambda>y. assign (ArgDraft y)) gs = (Inr (), gs')"
    using assms(1) by (auto simp: aug_step_def abind_def lift_res_def araise_def split: sum.splits if_splits)
  obtain u where u: "scalar_inplace x m (ArgVal v) gs = (Inr x, recorded u gs)"
    "made_from u (dr_node d) (ScalarInplaceOp (method_op m) (nd_value (dr_node x)) v)"
    using scalar_inplace_recording[OF assms(2) assms(3)[OF x]] by blast
  have "assign (ArgDraft x) (recorded u gs) = (Inr (), gs')" using a u(1) by (simp add: abind_def)
  then show ?thesis using assms(4) x u(2) by blast
qed

lemma object_setattr_draft: "object_setattr P CE h d n (ArgDraft x) g = (Inr (), r) \<Longrightarrow> r = g"
  by (auto simp: object_setattr_def act_simps lift_res_def get_draft_update_context_def
      split: option.splits if_splits sum.splits prod.splits)

lemma sequence_setitem_draft: "sequence_setitem P E CE h d i (ArgDraft x) g = (Inr (), r) \<Longrightarrow> r = g"
  by (auto simp: sequence_setitem_def act_simps lift_res_def get_draft_update_context_def
      split: option.splits if_splits sum.splits prod.splits)

lemma dict_setitem_draft: "dict_setitem P h d k (ArgDraft x) g = (Inr (), r) \<Longrightarrow> r = g"
  by (auto simp: dict_setitem_def act_simps lift_res_def get_draft_update_context_def
      split: option.splits if_splits sum.splits prod.splits)

lemma record_stmt_recording:
  assumes "record_stmt P E CE h d s gs = (Inr (), gs')" "recording c gs"
  shows "\<exists>u. gs' = recorded u gs \<and> made_from u (dr_node d) (stmt_op s)"
proof -
  have kids: "nd_children (dr_node x) = [dr_node d]" if "draft_step E CE h d st = Inr x" for st x
    using draft_step_node[OF that] by (cases st) auto
  have plain: "\<exists>u. g = recorded u gs \<and> made_from u (dr_node d) op" if "record_op d op gs = (Inr (), g)" for op g
    using record_op_recording[OF assms(2), of d op] that by auto
  note rec = record_with_def sequence_append_def sequence_extend_def sequence_pop_def sequence_remove_def dict_pop_def
    draft_clear_def sequence_insert_def not_draft_def abind_def lift_res_def
  show ?thesis
  proof (cases s)
    case (AssignAttr n v)
    then obtain cn flds t where f: "object_fields CE h d = Some (cn, flds)" "dget flds n = Some t" "st_can_assign (dr_state d)"
      using assms(1) by (auto simp: record_stmt_def object_setattr_def araise_def split: option.splits if_splits)
    let ?f = "if st_anno (dr_state d) \<noteq> None then Some (ce_field_id CE cn n) else None"
    let ?a = "if st_anno (dr_state d) \<noteq> None then Some (parse_type_may_optional_undefined t False False) else None"
    obtain u where "get_update_op d (SetAttr [(n, v)]) False [] ?f ?a = Inr u" "made_from u (dr_node d) (SetAttr [(n, v)])"
      using get_update_op_plain by blast
    then show ?thesis using assms f AssignAttr
      by (auto simp: record_stmt_def object_setattr_def stmt_op_def abind_def get_ctx_recording lift_res_def add_op_recording Let_def)
  next
    case (AssignItem i v)
    obtain u where "get_update_op d (ArraySet [(i, v)]) False [] None None = Inr u" "made_from u (dr_node d) (ArraySet [(i, v)])"
      using get_update_op_plain by blast
    then show ?thesis using assms AssignItem
      by (auto simp: record_stmt_def sequence_setitem_def stmt_op_def abind_def get_ctx_recording lift_res_def add_op_recording)
  next
    case (AssignKey k v)
    obtain u where "get_update_op d (DictUpdate [(k, v)]) False [] None None = Inr u" "made_from u (dr_node d) (DictUpdate [(k, v)])"
      using get_update_op_plain by blast
    then show ?thesis using assms AssignKey
      by (auto simp: record_stmt_def dict_setitem_def stmt_op_def abind_def get_ctx_recording lift_res_def add_op_recording)
  next
    case (AugAttr n m v)
    then have "aug_step (draft_step E CE h d (StepAttr n)) m v (object_setattr P CE h d n) gs = (Inr (), gs')"
      using assms(1) by (simp add: record_stmt_def)
    then have "\<exists>x u. draft_step E CE h d (StepAttr n) = Inr x \<and> gs' = recorded u gs \<and>
        made_from u (dr_node d) (ScalarInplaceOp (method_op m) (nd_value (dr_node x)) v)"
      by (rule aug_step_recording[OF _ assms(2)]) (erule kids, erule object_setattr_draft)
    then obtain x u where "draft_step E CE h d (StepAttr n) = Inr x" "gs' = recorded u gs"
      "made_from u (dr_node d) (ScalarInplaceOp (method_op m) (nd_value (dr_node x)) v)" by blast
    then show ?thesis using draft_step_node[of E CE h d "StepAttr n" x] AugAttr by (auto simp: stmt_op_def)
  next
    case (AugItem n m v)
    then have "aug_step (draft_step E CE h d (StepItem n)) m v (sequence_setitem P E CE h d (ArgVal n)) gs = (Inr (), gs')"
      using assms(1) by (simp add: record_stmt_def)
    then have "\<exists>x u. draft_step E CE h d (StepItem n) = Inr x \<and> gs' = recorded u gs \<and>
        made_from u (dr_node d) (ScalarInplaceOp (method_op m) (nd_value (dr_node x)) v)"
      by (rule aug_step_recording[OF _ assms(2)]) (erule kids, erule sequence_setitem_draft)
    then obtain x u where "draft_step E CE h d (StepItem n) = Inr x" "gs' = recorded u gs"
      "made_from u (dr_node d) (ScalarInplaceOp (method_op m) (nd_value (dr_node x)) v)" by blast
    then show ?thesis using draft_step_node[of E CE h d "StepItem n" x] AugItem by (auto simp: stmt_op_def)
  next
    case (AugKey n m v)
    then have "aug_step (draft_step E CE h d (StepKey n)) m v (dict_setitem P h d (ArgVal n)) gs = (Inr (), gs')"
      using assms(1) by (simp add: record_stmt_def)
    then have "\<exists>x u. draft_step E CE h d (StepKey n) = Inr x \<and> gs' = recorded u gs \<and>
        made_from u (dr_node d) (ScalarInplaceOp (method_op m) (nd_value (dr_node x)) v)"
      by (rule aug_step_recording[OF _ assms(2)]) (erule kids, erule dict_setitem_draft)
    then obtain x u where "draft_step E CE h d (StepKey n) = Inr x" "gs' = recorded u gs"
      "made_from u (dr_node d) (ScalarInplaceOp (method_op m) (nd_value (dr_node x)) v)" by blast
    then show ?thesis using draft_step_node[of E CE h d "StepKey n" x] AugKey by (auto simp: stmt_op_def)
  qed (use assms(1) plain in \<open>simp add: record_stmt_def stmt_op_def rec; blast\<close>)+
qed

subsection \<open>Replaying a recorded statement\<close>

text \<open>
  What the type of the draft promises about the value the statement meets: an augmented assignment to
  an attribute meets a dataclass object whose field does not hold a list, one to an item meets a list
  or a dict; and it is not \<open>//=\<close>.
\<close>

fun fits :: "py_env \<Rightarrow> heap \<Rightarrow> val \<Rightarrow> stmt \<Rightarrow> bool" where
  "fits E h x (AugAttr n m v) \<longleftrightarrow> m \<noteq> IFloorDivM \<and> is_dataclass h x \<and>
     (\<forall>y. py_getattr E x (DStr n) h = Inr y \<longrightarrow> as_list h y = None)"
| "fits E h x (AugItem k m v) \<longleftrightarrow> m \<noteq> IFloorDivM \<and> is_mutable_container h x"
| "fits E h x (AugKey k m v) \<longleftrightarrow> m \<noteq> IFloorDivM \<and> is_mutable_container h x"
| "fits E h x _ \<longleftrightarrow> True"

lemma afor_single: "afor f [x] h = f x h"
  by (cases "f x h") (auto split: sum.split)

lemma method_arith_op: "m \<noteq> IFloorDivM \<Longrightarrow> inplace_arith (method_op m) = method_arith m"
  by (cases m) auto

lemma iarith_not_list: "as_list h y = None \<Longrightarrow> py_iarith E f y v h = py_arith E f y v h"
  by (cases y) (auto simp: py_iarith_def split: option.splits)

lemma dataclass_not_container: "is_dataclass h x \<Longrightarrow> \<not> is_mutable_container h x"
  by (cases x) (auto simp: is_dataclass_def is_mutable_container_def split: option.splits obj.splits)

lemma apply_stmt_op:
  assumes "fits E h x s"
  shows "apply_op E x (stmt_op s) DNone h = run_stmt E x s h"
proof (cases s)
  case (AugAttr n m v)
  then have m: "m \<noteq> IFloorDivM" and d: "is_dataclass h x"
    and l: "\<And>y. py_getattr E x (DStr n) h = Inr y \<Longrightarrow> as_list h y = None"
    using assms by auto
  have "attr_inplace E (method_op m) x (DStr n) v h = aug_attr E x n m v h"
    using l by (cases "py_getattr E x (DStr n) h")
      (auto simp: attr_inplace_def aug_attr_def abind_def aread_def method_arith_op[OF m] iarith_not_list)
  then show ?thesis using AugAttr dataclass_not_container[OF d] by (simp add: stmt_op_def apply_op_def run_stmt_def)
next
  case (AugItem k m v)
  then show ?thesis using assms
    by (simp add: stmt_op_def apply_op_def run_stmt_def item_inplace_def aug_item_def method_arith_op)
next
  case (AugKey k m v)
  then show ?thesis using assms
    by (simp add: stmt_op_def apply_op_def run_stmt_def item_inplace_def aug_item_def method_arith_op)
qed (simp_all add: stmt_op_def apply_op_def run_stmt_def set_items_def afor_single del: afor.simps)

lemma stmt_op_not_assign: "made_from u n (stmt_op s) \<Longrightarrow> dynamic_key ev u = aret DNone \<and> not_root_op (du_op u)"
  by (cases s) (auto simp: made_from_def stmt_op_def dynamic_key_def)


subsection \<open>A sample class and its drafts\<close>

text \<open>\<open>class C: a: list[int]; n: int\<close>\<close>

definition sample_classes :: class_env where
  "sample_classes = \<lparr>ce_fields = (\<lambda>c ts. if c = ''C'' then Some [(''a'', TyGen OgList [Ty OgInt]), (''n'', Ty OgInt)] else None),
     ce_field_id = (\<lambda>_ _. 0), ce_has_attr = (\<lambda>_ _. False)\<rparr>"

definition no_globals :: draft_globals where
  "no_globals = \<lparr>gs_ctx = None, gs_proc = None\<rparr>"

text \<open>\<open>create_draft_type_only(C)\<close>, and \<open>d.n += 5\<close>\<close>

definition sample_draft :: draft where
  "sample_draft = \<lparr>dr_kind = DObject, dr_obj = DNone, dr_userdata = DNone, dr_node = ROOT_NODE,
     dr_state = (start_state True None True)\<lparr>st_anno := Some (anno_of (OgClass ''C''))\<rparr>\<rparr>"

lemma sample_draft_created: "create_draft_type_only sample_classes (Ty (OgClass ''C'')) DNone = Inr sample_draft"
  by (simp add: create_draft_type_only_def parse_type_may_optional_undefined.simps is_dataclass_type_def anno_dispatch_def
      kind_of_type_def sample_classes_def sample_draft_def anno_of_def path_metas_def extract_field_meta_def start_state_def Let_def)

lemma sample_recorded:
  "capture_draft_update True True (record_stmt plain_print int_env sample_classes [] sample_draft (AugAttr ''n'' IAddM (DInt 5))) no_globals =
     (Inr ((), [update_of (ScalarInplaceOp IAdd (DStr ''n'') (DInt 5)) ROOT_NODE []\<lparr>du_field_id := Some 0\<rparr>]), no_globals)"
  by (simp add: capture_draft_update_def with_ctx_def no_globals_def record_stmt_def aug_step_def draft_step_def object_getattr_def
      object_fields_def sample_draft_def sample_classes_def start_state_def anno_of_def parse_type_may_optional_undefined.simps
      draft_dispatch_def anno_dispatch_def kind_of_type_def is_dataclass_type_def is_sequence_type_def is_mapping_type_def
      is_number_type_def path_metas_def extract_field_meta_def Let_def scalar_inplace_def not_draft_def lift_res_def act_simps
      get_draft_update_context_def get_update_op_def add_op_def object_setattr_def after_inplace_def last_inplace_def
      same_path_def get_jmes_path_def ROOT_NODE_def update_of_def)


subsection \<open>Where recording departs from Python\<close>

text \<open>
  \<open>d[i] += v\<close> with a draft index \<open>i\<close> records an update whose key is the name \<open>getItem\<close>, which raises
  \<open>TypeError\<close> on every list; and \<open>//=\<close> records exactly what \<open>/=\<close> records.
\<close>

lemma dynamic_inplace_key_wrong:
  assumes "sequence_getitem E CE h d (ArgDraft i) = Inr x" "recording c gs"
  shows "(\<exists>u. scalar_inplace x m (ArgVal v) gs = (Inr x, recorded u gs) \<and> du_node u = dr_node d \<and>
      du_op u = ScalarInplaceOp (method_op m) (DStr ''getItem'') v) \<and>
    (\<forall>a xs g k. hget g a = Some (OList xs) \<longrightarrow>
      apply_op E' (DRef a) (ScalarInplaceOp (method_op m) (DStr ''getItem'') v) k g = (Inl TypeError, g)) \<and>
    scalar_inplace x IFloorDivM (ArgVal v) gs = scalar_inplace x ITrueDivM (ArgVal v) gs"
proof -
  have n: "dr_node x = DraftASTNode FUNC_CALL [dr_node d, dr_node i] (DStr ''getItem'') DNone None"
    using assms(1) by (auto simp: sequence_getitem_def dest: draft_dispatch_node)
  then have "\<exists>u. scalar_inplace x m (ArgVal v) gs = (Inr x, recorded u gs) \<and>
      made_from u (dr_node d) (ScalarInplaceOp (method_op m) (DStr ''getItem'') v)"
    using scalar_inplace_recording[OF assms(2), of x "dr_node d" "[dr_node i]" m v] by simp
  moreover have "apply_op E' (DRef a) (ScalarInplaceOp (method_op m) (DStr ''getItem'') v) k g = (Inl TypeError, g)"
    if "hget g a = Some (OList xs)" for a xs g k
    using that by (simp add: apply_op_def is_mutable_container_def item_inplace_def abind_def aread_def py_getitem_def index_of_def)
  moreover have "scalar_inplace x IFloorDivM (ArgVal v) gs = scalar_inplace x ITrueDivM (ArgVal v) gs"
    by (simp add: scalar_inplace_def)
  ultimately show ?thesis by (auto simp: made_from_def)
qed

text \<open>\<open>d.a[d.n]\<close>\<close>

definition list_draft :: draft where
  "list_draft = sample_draft\<lparr>dr_kind := DSequence, dr_node := attr_node ROOT_NODE ''a'',
     dr_state := (dr_state sample_draft)\<lparr>st_anno := Some ((anno_of OgList)\<lparr>an_child := [Ty OgInt]\<rparr>)\<rparr>\<rparr>"

definition index_draft :: draft where
  "index_draft = sample_draft\<lparr>dr_kind := DMutableScalar, dr_node := attr_node ROOT_NODE ''n''\<rparr>"

lemma dynamic_inplace_key_wrong_witness:
  "apply_op int_env (DRef 1) (ScalarInplaceOp IAdd (DStr ''getItem'') (DInt 1)) DNone small_doc = (Inl TypeError, small_doc)"
proof -
  obtain x where x: "sequence_getitem int_env sample_classes [] list_draft (ArgDraft index_draft) = Inr x"
    by (simp add: sequence_getitem_def list_draft_def sample_draft_def start_state_def draft_dispatch_def seq_anno_def item_anno_def
        anno_of_def get_child_annotated_type_def parse_type_may_optional_undefined.simps anno_dispatch_def kind_of_type_def
        is_dataclass_type_def is_sequence_type_def is_mapping_type_def is_number_type_def)
  have "recording \<lparr>cx_ops = [], cx_prevent = False, cx_jmes = True\<rparr>
      \<lparr>gs_ctx = Some \<lparr>cx_ops = [], cx_prevent = False, cx_jmes = True\<rparr>, gs_proc = None\<rparr>"
    by (simp add: recording_def)
  from dynamic_inplace_key_wrong[OF x this, of IAddM "DInt 1" int_env]
  have "hget small_doc 1 = Some (OList [DInt 5, DInt 6]) \<longrightarrow>
      apply_op int_env (DRef 1) (ScalarInplaceOp IAdd (DStr ''getItem'') (DInt 1)) DNone small_doc = (Inl TypeError, small_doc)"
    by simp
  then show ?thesis by (simp add: small_doc_def hget_def)
qed

end
