(* ===== verification/DraftStabilize.thy ===== *)
theory DraftStabilize
  imports DraftRecord
begin

text \<open>
  Stabilisation (\<open>_rebuild_draft_expr_recursive\<close> and its callers in \<open>core/datamodel/draft.py\<close>): a draft
  expression with dynamic accesses is rebuilt, by running it on the proxies, into one whose keys are
  the values they have in a given model.

  A rebuilt expression is a draft, a plain value (literals are not wrapped) or a method of the
  draft's class. Attributes of the proxy objects themselves are left out: reading an attribute of a
  draft that is no object raises \<open>AttributeError\<close>.
\<close>

subsection \<open>Rebuilding\<close>

datatype rebuilt = RDraft draft | RVal val | RMethod string

definition rebuilt_getattr :: "py_env \<Rightarrow> class_env \<Rightarrow> rebuilt \<Rightarrow> val \<Rightarrow> heap \<Rightarrow> rebuilt res" where
  "rebuilt_getattr E CE r name h = (case name of
     DStr s \<Rightarrow> (case r of
         RDraft d \<Rightarrow> if dr_kind d \<noteq> DObject then Inl AttributeError
           else rbind (object_getattr E CE h d s) (\<lambda>g. Inr (case g of GotDraft d' \<Rightarrow> RDraft d' | GotMethod m \<Rightarrow> RMethod m))
       | RVal v \<Rightarrow> rbind (py_getattr E v name h) (\<lambda>w. Inr (RVal w))
       | RMethod _ \<Rightarrow> Inl AttributeError)
   | _ \<Rightarrow> Inl TypeError)"

text \<open>\<open>assert isinstance(target, (DraftSequence, DraftDict)); target[key]\<close>\<close>

definition rebuilt_getitem :: "py_env \<Rightarrow> class_env \<Rightarrow> rebuilt \<Rightarrow> val \<Rightarrow> heap \<Rightarrow> rebuilt res" where
  "rebuilt_getitem E CE r k h = (case r of
     RDraft d \<Rightarrow> (case dr_kind d of
         DSequence \<Rightarrow> rbind (sequence_getitem E CE h d (ArgVal k)) (\<lambda>d'. Inr (RDraft d'))
       | DDict \<Rightarrow> rbind (dict_getitem E CE h d (ArgVal k)) (\<lambda>d'. Inr (RDraft d'))
       | _ \<Rightarrow> Inl AssertionError)
   | _ \<Rightarrow> Inl AssertionError)"

definition rebuilt_compare :: "pr_env \<Rightarrow> class_env \<Rightarrow> val \<Rightarrow> rebuilt \<Rightarrow> rebuilt \<Rightarrow> heap \<Rightarrow> rebuilt res" where
  "rebuilt_compare P CE op x y h = (case (x, y) of
     (RDraft d, RDraft e) \<Rightarrow>
       if \<not> is_comparable d \<or> \<not> is_comparable e then Inl AssertionError
       else (case op of
           DStr s \<Rightarrow> if s \<in> {''=='', ''!='', ''>'', ''<'', ''>='', ''<=''}
             then rbind (binary_op_draft P CE h d (ArgDraft e) s) (\<lambda>r. Inr (RDraft r)) else Inl NotImplementedError
         | _ \<Rightarrow> Inl NotImplementedError)
   | _ \<Rightarrow> Inl AssertionError)"

fun rebuilt_path :: "py_env \<Rightarrow> class_env \<Rightarrow> heap \<Rightarrow> rebuilt \<Rightarrow> val list \<Rightarrow> rebuilt res" where
  "rebuilt_path E CE h r [] = Inr r"
| "rebuilt_path E CE h r (p # ps) =
     rbind (case r of
         RDraft d \<Rightarrow>
           if dr_kind d = DObject then (case p of DStr _ \<Rightarrow> rebuilt_getattr E CE r p h | _ \<Rightarrow> Inl AssertionError)
           else if dr_kind d = DSequence \<or> dr_kind d = DDict then rebuilt_getitem E CE r p h
           else Inl NotImplementedError
       | _ \<Rightarrow> Inl NotImplementedError)
       (\<lambda>r'. rebuilt_path E CE h r' ps)"

definition rebuilt_arg :: "rebuilt \<Rightarrow> arg res" where
  "rebuilt_arg r = (case r of RDraft d \<Rightarrow> Inr (ArgDraft d) | RVal v \<Rightarrow> Inr (ArgVal v) | RMethod _ \<Rightarrow> Inl AssertionError)"

definition rebuilt_format :: "class_env \<Rightarrow> rebuilt \<Rightarrow> rebuilt list \<Rightarrow> heap \<Rightarrow> rebuilt res" where
  "rebuilt_format CE fmt args h = (case fmt of
     RDraft d \<Rightarrow> if dr_kind d \<noteq> DString then Inl AssertionError
       else rbind (rmap_list rebuilt_arg args) (\<lambda>as. rbind (format_op CE h d as) (\<lambda>r. Inr (RDraft r)))
   | _ \<Rightarrow> Inl AssertionError)"

text \<open>\<open>not_null\<close> keeps the draft of the first argument with type \<open>Any\<close>; a literal argument has no node.\<close>

definition rebuilt_not_null :: "rebuilt list \<Rightarrow> rebuilt res" where
  "rebuilt_not_null rs =
     rbind (rmap_list (\<lambda>r. case r of RDraft d \<Rightarrow> Inr d | _ \<Rightarrow> Inl AttributeError) rs) (\<lambda>ds. case ds of
       [] \<Rightarrow> Inl IndexError
     | d # _ \<Rightarrow> Inr (RDraft \<lparr>dr_kind = DScalar, dr_obj = DNone, dr_userdata = dr_userdata d,
         dr_node = func_node ''not_null'' (map dr_node ds), dr_state = (dr_state d)\<lparr>st_anno := Some (anno_of OgAny)\<rparr>\<rparr>))"

definition rebuild_call ::
  "pr_env \<Rightarrow> py_env \<Rightarrow> class_env \<Rightarrow> val \<Rightarrow> (heap, val) act list \<Rightarrow> (heap, rebuilt) act list \<Rightarrow> (heap, rebuilt) act" where
  "rebuild_call P E CE f ks rs =
     (if f = DStr ''getItem'' then
        abind (kid ks 1) (\<lambda>k. abind (kid rs 0) (\<lambda>x. aread (rebuilt_getitem E CE x k)))
      else if f = DStr ''getattr'' then
        abind (kid rs 0) (\<lambda>x. abind (kid ks 1) (\<lambda>k. aread (rebuilt_getattr E CE x k)))
      else if f = DStr ''cformat'' then
        abind (kid rs 0) (\<lambda>fmt. abind (aseq (drop 1 rs)) (\<lambda>args. aread (rebuilt_format CE fmt args)))
      else if f = DStr ''getItemPath'' then
        abind (kid rs 0) (\<lambda>x. abind (kid ks 1) (\<lambda>p. aread (\<lambda>h. rbind (py_iter p h) (rebuilt_path E CE h x))))
      else if f = DStr ''not_null'' then abind (aseq rs) (\<lambda>xs. aread (\<lambda>h. rebuilt_not_null xs))
      else if f = DStr ''where'' then
        abind (kid ks 0) (\<lambda>c h. if truth E h c then kid rs 1 h else kid rs 2 h)
      else araise NotImplementedError)"

definition rebuild_node ::
  "pr_env \<Rightarrow> py_env \<Rightarrow> class_env \<Rightarrow> draft \<Rightarrow> ast_type \<Rightarrow> val \<Rightarrow> (heap, val) act list \<Rightarrow> (heap, rebuilt) act list \<Rightarrow> (heap, rebuilt) act" where
  "rebuild_node P E CE root t v ks rs = (case t of
     NAME \<Rightarrow> if v = DStr [] \<or> v = DStr ''$'' then aret (RDraft root) else aread (rebuilt_getattr E CE (RDraft root) v)
   | JSON_LITERAL \<Rightarrow> aret (RVal v)
   | STRING_LITERAL \<Rightarrow> aret (RVal v)
   | GET_ATTR \<Rightarrow> abind (kid rs 0) (\<lambda>x. aread (rebuilt_getattr E CE x v))
   | ARRAY_GET_ITEM \<Rightarrow> abind (kid rs 0) (\<lambda>x. aread (rebuilt_getitem E CE x v))
   | DICT_GET_ITEM \<Rightarrow> abind (kid rs 0) (\<lambda>x. aread (rebuilt_getitem E CE x v))
   | BINARY_OP \<Rightarrow> abind (kid rs 0) (\<lambda>x. abind (kid rs 1) (\<lambda>y. aread (rebuilt_compare P CE v x y)))
   | UNARY_OP \<Rightarrow> araise NotImplementedError
   | FUNC_CALL \<Rightarrow> rebuild_call P E CE v ks rs)"

primrec rebuild :: "pr_env \<Rightarrow> py_env \<Rightarrow> class_env \<Rightarrow> draft \<Rightarrow> val \<Rightarrow> draft_node \<Rightarrow> (heap, rebuilt) act" where
  "rebuild P E CE root model (DraftASTNode t cs v u f) =
     rebuild_node P E CE root t v (map (eval_ast E model) cs) (map (rebuild P E CE root model) cs)"

definition rebuild_and_stabilize :: "pr_env \<Rightarrow> py_env \<Rightarrow> class_env \<Rightarrow> draft \<Rightarrow> val \<Rightarrow> draft_node \<Rightarrow> (heap, rebuilt) act" where
  "rebuild_and_stabilize P E CE root model node h =
     (if \<not> st_type_only (dr_state root) \<or> \<not> is_dataclass h model then (Inl AssertionError, h)
      else rebuild P E CE root model node h)"

definition stabilize_update :: "pr_env \<Rightarrow> py_env \<Rightarrow> class_env \<Rightarrow> draft \<Rightarrow> val \<Rightarrow> draft_update \<Rightarrow> (heap, draft_update) act" where
  "stabilize_update P E CE root model u = abind (rebuild_and_stabilize P E CE root model (du_node u)) (\<lambda>r. case r of
     RDraft d \<Rightarrow> aret (u\<lparr>du_node := dr_node d\<rparr>)
   | _ \<Rightarrow> araise AttributeError)"

subsection \<open>The stabilised expression is static and means the same\<close>

text \<open>Paths with dynamic keys, item paths and conditions, where what is evaluated makes no objects.\<close>

fun dynamic_path :: "draft_node \<Rightarrow> bool" where
  "dynamic_path (DraftASTNode NAME [] v u f) \<longleftrightarrow> v = DStr [] \<or> v = DStr ''$''"
| "dynamic_path (DraftASTNode GET_ATTR [c] v u f) \<longleftrightarrow> dynamic_path c"
| "dynamic_path (DraftASTNode ARRAY_GET_ITEM [c] v u f) \<longleftrightarrow> dynamic_path c"
| "dynamic_path (DraftASTNode DICT_GET_ITEM [c] v u f) \<longleftrightarrow> dynamic_path c"
| "dynamic_path (DraftASTNode FUNC_CALL [c, k] v u f) \<longleftrightarrow>
     (v = DStr ''getItem'' \<or> v = DStr ''getattr'' \<or> v = DStr ''getItemPath'') \<and> dynamic_path c \<and> traceable k"
| "dynamic_path (DraftASTNode FUNC_CALL [b, x, y] v u f) \<longleftrightarrow>
     v = DStr ''where'' \<and> traceable b \<and> dynamic_path x \<and> dynamic_path y"
| "dynamic_path _ \<longleftrightarrow> False"

definition rebuilt_ok :: "py_env \<Rightarrow> val \<Rightarrow> heap \<Rightarrow> (val \<Rightarrow> bool) \<Rightarrow> rebuilt \<Rightarrow> bool" where
  "rebuilt_ok E obj h Q r \<longleftrightarrow> (case r of
     RDraft d \<Rightarrow> static_path (dr_node d) \<and> (\<forall>v w. Q v \<longrightarrow> fst (eval_ast E obj (dr_node d) h) = Inr w \<longrightarrow> w = v)
   | _ \<Rightarrow> True)"

lemma rebuilt_ok_mono: "rebuilt_ok E obj h Q r \<Longrightarrow> (\<And>v. Q' v \<Longrightarrow> Q v) \<Longrightarrow> rebuilt_ok E obj h Q' r"
  unfolding rebuilt_ok_def by (cases r) auto

lemma static_path_quiet: "static_path n \<Longrightarrow> quiet (eval_ast E obj n)"
proof (induction n)
  case (DraftASTNode t cs v u f)
  have ks: "\<And>m. m \<in> set (map (eval_ast E obj) cs) \<Longrightarrow> quiet m" using DraftASTNode by auto
  have q: "quiet (kid (map (eval_ast E obj) cs) 0)" by (rule quiet_kid) (rule ks)
  show ?case
  proof (cases "t = NAME")
    case False
    then have "t = GET_ATTR \<or> t = ARRAY_GET_ITEM \<or> t = DICT_GET_ITEM" using DraftASTNode.prems by simp
    then show ?thesis by (auto simp: eval_node_def intro!: quiets q)
  qed (simp add: eval_node_def quiets)
qed

lemma rebuilt_step:
  assumes "rebuilt_ok E obj h Q (RDraft d)" "draft_step E CE h d st = Inr d'"
    and "\<And>v x. Q' v \<Longrightarrow> fst (eval_ast E obj (dr_node d) h) = Inr x \<Longrightarrow> \<exists>y. Q y \<and> (\<forall>w. y = x \<longrightarrow> val_step E h x st = Inr w \<longrightarrow> w = v)"
  shows "rebuilt_ok E obj h Q' (RDraft d')"
proof -
  have s: "static_path (dr_node d)" using assms(1) by (simp add: rebuilt_ok_def)
  have "w = v" if Q: "Q' v" and e: "fst (eval_ast E obj (dr_node d') h) = Inr w" for v w
  proof -
    obtain x where x: "fst (eval_ast E obj (dr_node d) h) = Inr x" "val_step E h x st = Inr w"
      using e static_path_quiet[OF s] by (auto simp: draft_step_eval[OF assms(2)] abind_quiet_Inr)
    obtain y where y: "Q y" "\<forall>w. y = x \<longrightarrow> val_step E h x st = Inr w \<longrightarrow> w = v" using assms(3)[OF Q x(1)] by blast
    moreover have "x = y" using assms(1) y(1) x(1) by (simp add: rebuilt_ok_def)
    ultimately show ?thesis using x(2) by blast
  qed
  then show ?thesis using draft_step_static[OF assms(2) s] by (simp add: rebuilt_ok_def)
qed

lemma rebuilt_getattr_step:
  assumes "rebuilt_getattr E CE (RDraft d) k h = Inr (RDraft d')"
  shows "\<exists>s. k = DStr s \<and> draft_step E CE h d (StepAttr s) = Inr d'"
proof -
  obtain s where k: "k = DStr s" using assms by (auto simp: rebuilt_getattr_def split: val.splits)
  then have o: "dr_kind d = DObject" using assms by (auto simp: rebuilt_getattr_def split: if_splits)
  then obtain g where g: "object_getattr E CE h d s = Inr g" "(case g of GotDraft d' \<Rightarrow> RDraft d' | GotMethod m \<Rightarrow> RMethod m) = RDraft d'"
    using assms k by (auto simp: rebuilt_getattr_def res_simps)
  then have "g = GotDraft d'" by (cases g) auto
  then show ?thesis using k o g(1) by (simp add: draft_step_def)
qed

lemma rebuilt_getitem_step:
  assumes "rebuilt_getitem E CE r k h = Inr r'"
  shows "\<exists>d d'. r = RDraft d \<and> r' = RDraft d' \<and>
    (draft_step E CE h d (StepItem k) = Inr d' \<or> draft_step E CE h d (StepKey k) = Inr d')"
  using assms by (auto simp: rebuilt_getitem_def draft_step_def res_simps split: rebuilt.splits kind.splits)

lemma rebuilt_getattr_ok:
  assumes "rebuilt_ok E obj h Q r" "rebuilt_getattr E CE r k h = Inr r'"
    and "\<And>v. Q' v \<Longrightarrow> \<exists>x. Q x \<and> (\<forall>w. py_getattr E x k h = Inr w \<longrightarrow> w = v)"
  shows "rebuilt_ok E obj h Q' r'"
proof (cases r')
  case (RDraft d')
  then obtain d where d: "r = RDraft d" using assms(2) by (cases r) (auto simp: rebuilt_getattr_def res_simps split: val.splits)
  obtain s where s: "k = DStr s" "draft_step E CE h d (StepAttr s) = Inr d'"
    using rebuilt_getattr_step assms(2) d RDraft by blast
  have "rebuilt_ok E obj h Q' (RDraft d')"
    by (rule rebuilt_step[OF assms(1)[unfolded d] s(2)]) (use assms(3) s(1) in \<open>auto simp: val_step_def\<close>)
  then show ?thesis using RDraft by simp
qed (simp_all add: rebuilt_ok_def)

lemma rebuilt_getitem_ok:
  assumes "rebuilt_ok E obj h Q r" "rebuilt_getitem E CE r k h = Inr r'"
    and "\<And>v. Q' v \<Longrightarrow> \<exists>x. Q x \<and> (\<forall>w. py_getitem E x k h = Inr w \<longrightarrow> w = v)"
  shows "rebuilt_ok E obj h Q' r'"
proof -
  obtain d d' where d: "r = RDraft d" "r' = RDraft d'"
    and s: "draft_step E CE h d (StepItem k) = Inr d' \<or> draft_step E CE h d (StepKey k) = Inr d'"
    using rebuilt_getitem_step[OF assms(2)] by blast
  have "rebuilt_ok E obj h Q' (RDraft d')" if "draft_step E CE h d st = Inr d'" "st = StepItem k \<or> st = StepKey k" for st
  proof (rule rebuilt_step[OF assms(1)[unfolded d(1)] that(1)])
    fix v x
    assume "Q' v"
    then obtain y where "Q y" "\<forall>w. py_getitem E y k h = Inr w \<longrightarrow> w = v" using assms(3) by blast
    then show "\<exists>y. Q y \<and> (\<forall>w. y = x \<longrightarrow> val_step E h x st = Inr w \<longrightarrow> w = v)"
      using that(2) by (intro exI[of _ y]) (auto simp: val_step_def)
  qed
  then show ?thesis using s d(2) by blast
qed

definition walk_step :: "py_env \<Rightarrow> heap \<Rightarrow> val \<Rightarrow> val \<Rightarrow> val res" where
  "walk_step E h x p = (if is_seq_or_map h x then py_getitem E x p h
     else if is_dataclass h x then py_getattr E x p h else Inl AssertionError)"

lemma getattr_walk:
  assumes "no_attrs E" "py_getattr E x (DStr s) h = Inr w"
  shows "walk_step E h x (DStr s) = Inr w"
proof -
  have "is_dataclass h x" using assms
    by (auto simp: py_getattr_def no_attrs_def is_dataclass_def split: option.splits)
  moreover have "\<not> is_seq_or_map h x" using calculation
    by (cases x) (auto simp: is_seq_or_map_def is_dataclass_def split: option.splits obj.splits)
  ultimately show ?thesis using assms(2) by (simp add: walk_step_def)
qed

lemma getitem_walk: "py_getitem E x p h = Inr w \<Longrightarrow> walk_step E h x p = Inr w"
  by (cases x) (auto simp: walk_step_def py_getitem_def is_seq_or_map_def split: option.splits obj.splits)

lemma rebuilt_path_ok:
  assumes "no_attrs E" "rebuilt_ok E obj h Q r" "rebuilt_path E CE h r ps = Inr r'"
  shows "rebuilt_ok E obj h (\<lambda>v. \<exists>x tr. Q x \<and> walk_path E h x ps = Inr (v, tr)) r'"
  using assms(2,3)
proof (induction ps arbitrary: Q r)
  case Nil
  then show ?case by (auto simp: rebuilt_ok_def split: rebuilt.splits)
next
  case (Cons p ps)
  obtain d where d: "r = RDraft d" using Cons.prems(2) by (auto simp: res_simps split: rebuilt.splits)
  obtain r1 where r1: "rebuilt_path E CE h r1 ps = Inr r'" and
    s: "(\<exists>t. p = DStr t) \<and> rebuilt_getattr E CE r p h = Inr r1 \<or> rebuilt_getitem E CE r p h = Inr r1"
    using Cons.prems(2) d by (auto simp: res_simps split: if_splits val.splits)
  let ?Q = "\<lambda>v. \<exists>x. Q x \<and> walk_step E h x p = Inr v"
  have ok1: "rebuilt_ok E obj h ?Q r1"
    using s
  proof
    assume a: "(\<exists>t. p = DStr t) \<and> rebuilt_getattr E CE r p h = Inr r1"
    then obtain t where t: "p = DStr t" by blast
    show ?thesis
      by (rule rebuilt_getattr_ok[OF Cons.prems(1), where k = p and CE = CE])
        (use a t getattr_walk[OF assms(1)] in fastforce)+
  next
    assume a: "rebuilt_getitem E CE r p h = Inr r1"
    show ?thesis
      by (rule rebuilt_getitem_ok[OF Cons.prems(1) a]) (use getitem_walk in fastforce)
  qed
  have "walk_path E h x (p # ps) = Inr (v, tr) \<Longrightarrow> \<exists>y tr'. walk_step E h x p = Inr y \<and> walk_path E h y ps = Inr (v, tr')" for x v tr
    by (auto simp: walk_step_def[symmetric] res_simps)
  note split_path = this
  show ?case by (rule rebuilt_ok_mono[OF Cons.IH[OF ok1 r1]]) (use split_path in blast)
qed

lemma abind_quiet_run:
  assumes "quiet m" "abind m f h = (Inr r, h')"
  shows "\<exists>x. fst (m h) = Inr x \<and> f x h = (Inr r, h')"
proof -
  obtain q h1 where m: "m h = (q, h1)" by (cases "m h")
  then have "h1 = h" by (rule quiet_Inr[OF assms(1)])
  then show ?thesis using m assms(2) by (cases q) (simp_all add: abind_def)
qed

lemma kid_simps [simp]: "kid (m # ms) 0 = m" "kid (a # m # ms) (Suc 0) = m" "kid (a # m # ms) 1 = m" "kid (a # b # m # ms) 2 = m"
  by (simp_all add: kid_def)

lemma rebuild_quiet: "dynamic_path n \<Longrightarrow> quiet (rebuild P E CE root obj n)"
proof (induction n rule: dynamic_path.induct)
  case (5 c k v u f)
  then have "quiet (rebuild P E CE root obj c)" "quiet (eval_ast E obj k)" using quiet_eval_ast by auto
  then show ?case using 5(2) by (auto simp: rebuild_node_def rebuild_call_def intro!: quiets)
next
  case (6 b x y v u f)
  then have q: "quiet (eval_ast E obj b)" "quiet (rebuild P E CE root obj x)" "quiet (rebuild P E CE root obj y)" "v = DStr ''where''"
    using quiet_eval_ast by auto
  have "quiet (\<lambda>h. if truth E h c then rebuild P E CE root obj x h else rebuild P E CE root obj y h)" for c
    using q(2,3) by (simp add: quiet_def)
  then have "quiet (abind (eval_ast E obj b) (\<lambda>c h. if truth E h c then rebuild P E CE root obj x h else rebuild P E CE root obj y h))"
    using q(1) by (intro quiet_abind)
  then show ?case using q(4) by (simp add: rebuild_node_def rebuild_call_def cong: if_cong)
qed (auto simp: rebuild_node_def intro!: quiets)

lemma dynamic_path_quiet: "dynamic_path n \<Longrightarrow> quiet (eval_ast E obj n)"
  by (rule quiet_eval_ast, induction n rule: dynamic_path.induct) auto

lemma rebuild_ok:
  assumes "no_attrs E" "dr_node root = ROOT_NODE"
  shows "dynamic_path n \<Longrightarrow> rebuild P E CE root obj n h = (Inr r, h') \<Longrightarrow>
    rebuilt_ok E obj h (\<lambda>v. fst (eval_ast E obj n h) = Inr v) r"
proof (induction n arbitrary: r h' rule: dynamic_path.induct)
  case (1 v u f)
  then have "r = RDraft root" by (auto simp: rebuild_node_def aret_def)
  then show ?case using 1 assms(2) by (auto simp: rebuilt_ok_def ROOT_NODE_def eval_node_def)
next
  case (2 c v u f)
  have "abind (rebuild P E CE root obj c) (\<lambda>x. aread (rebuilt_getattr E CE x v)) h = (Inr r, h')"
    using 2(3) by (simp add: rebuild_node_def)
  then obtain x where x: "fst (rebuild P E CE root obj c h) = Inr x" "rebuilt_getattr E CE x v h = Inr r"
    using abind_quiet_run[OF rebuild_quiet] 2(2) by (fastforce simp: aread_def)
  have ok: "rebuilt_ok E obj h (\<lambda>v. fst (eval_ast E obj c h) = Inr v) x"
    using 2(1)[of x "snd (rebuild P E CE root obj c h)"] 2(2) x(1) by (simp add: prod_eq_iff)
  show ?case
    by (rule rebuilt_getattr_ok[OF ok x(2)])
      (use dynamic_path_quiet[of c E obj] 2(2) in \<open>auto simp: eval_node_def abind_quiet_Inr\<close>)
next
  case (3 c v u f)
  have "abind (rebuild P E CE root obj c) (\<lambda>x. aread (rebuilt_getitem E CE x v)) h = (Inr r, h')"
    using 3(3) by (simp add: rebuild_node_def)
  then obtain x where x: "fst (rebuild P E CE root obj c h) = Inr x" "rebuilt_getitem E CE x v h = Inr r"
    using abind_quiet_run[OF rebuild_quiet] 3(2) by (fastforce simp: aread_def)
  have ok: "rebuilt_ok E obj h (\<lambda>v. fst (eval_ast E obj c h) = Inr v) x"
    using 3(1)[of x "snd (rebuild P E CE root obj c h)"] 3(2) x(1) by (simp add: prod_eq_iff)
  show ?case
    by (rule rebuilt_getitem_ok[OF ok x(2)])
      (use dynamic_path_quiet[of c E obj] 3(2) in \<open>auto simp: eval_node_def abind_quiet_Inr\<close>)
next
  case (4 c v u f)
  have "abind (rebuild P E CE root obj c) (\<lambda>x. aread (rebuilt_getitem E CE x v)) h = (Inr r, h')"
    using 4(3) by (simp add: rebuild_node_def)
  then obtain x where x: "fst (rebuild P E CE root obj c h) = Inr x" "rebuilt_getitem E CE x v h = Inr r"
    using abind_quiet_run[OF rebuild_quiet] 4(2) by (fastforce simp: aread_def)
  have ok: "rebuilt_ok E obj h (\<lambda>v. fst (eval_ast E obj c h) = Inr v) x"
    using 4(1)[of x "snd (rebuild P E CE root obj c h)"] 4(2) x(1) by (simp add: prod_eq_iff)
  show ?case
    by (rule rebuilt_getitem_ok[OF ok x(2)])
      (use dynamic_path_quiet[of c E obj] 4(2) in \<open>auto simp: eval_node_def abind_quiet_Inr\<close>)
next
  case (5 c k v u f)
  have q: "quiet (rebuild P E CE root obj c)" "quiet (eval_ast E obj k)" "quiet (eval_ast E obj c)"
    using 5(2) rebuild_quiet quiet_eval_ast dynamic_path_quiet by auto
  have v: "v = DStr ''getItem'' \<or> v = DStr ''getattr'' \<or> v = DStr ''getItemPath''" using 5(2) by simp
  obtain x key where x: "fst (rebuild P E CE root obj c h) = Inr x" and k: "fst (eval_ast E obj k h) = Inr key"
    and r: "v = DStr ''getItem'' \<Longrightarrow> rebuilt_getitem E CE x key h = Inr r" "v = DStr ''getattr'' \<Longrightarrow> rebuilt_getattr E CE x key h = Inr r"
      "v = DStr ''getItemPath'' \<Longrightarrow> rbind (py_iter key h) (rebuilt_path E CE h x) = Inr r"
  proof -
    have "fst (rebuild P E CE root obj (DraftASTNode FUNC_CALL [c, k] v u f) h) = Inr r" using 5(3) by simp
    then show thesis using v that by (auto simp: rebuild_node_def rebuild_call_def abind_quiet_Inr q)
  qed
  have ok: "rebuilt_ok E obj h (\<lambda>v. fst (eval_ast E obj c h) = Inr v) x"
    using 5(1)[of x "snd (rebuild P E CE root obj c h)"] 5(2) x by (simp add: prod_eq_iff)
  consider "v = DStr ''getItem''" | "v = DStr ''getattr''" | "v = DStr ''getItemPath''" using v by blast
  then show ?case
  proof cases
    case 1
    show ?thesis
      by (rule rebuilt_getitem_ok[OF ok r(1)[OF 1]]) (use 1 k in \<open>auto simp: eval_node_def call_func_def abind_quiet_Inr q\<close>)
  next
    case 2
    show ?thesis
      by (rule rebuilt_getattr_ok[OF ok r(2)[OF 2]]) (use 2 k in \<open>auto simp: eval_node_def call_func_def abind_quiet_Inr q\<close>)
  next
    case 3
    obtain ps where ps: "py_iter key h = Inr ps" "rebuilt_path E CE h x ps = Inr r" using r(3)[OF 3] by (auto simp: res_simps)
    have "as_list h key = Some qs \<Longrightarrow> qs = ps" for qs
      using ps(1) by (cases key) (auto simp: py_iter_def split: option.splits obj.splits)
    then show ?thesis
      by (intro rebuilt_ok_mono[OF rebuilt_path_ok[OF assms(1) ok ps(2)]])
        (use 3 k in \<open>auto simp: eval_node_def call_func_def abind_quiet_Inr q get_item_path_def res_simps split: option.splits\<close>)
  qed
next
  case (6 b x y v u f)
  have q: "quiet (eval_ast E obj b)" "quiet (eval_ast E obj x)" "quiet (eval_ast E obj y)" and v: "v = DStr ''where''"
    using 6(3) quiet_eval_ast dynamic_path_quiet by auto
  have "abind (eval_ast E obj b) (\<lambda>c h. if truth E h c then rebuild P E CE root obj x h else rebuild P E CE root obj y h) h = (Inr r, h')"
    using 6(4) v by (simp add: rebuild_node_def rebuild_call_def cong: if_cong)
  from abind_quiet_run[OF q(1) this] obtain c where c: "fst (eval_ast E obj b h) = Inr c"
    "(if truth E h c then rebuild P E CE root obj x h else rebuild P E CE root obj y h) = (Inr r, h')" by blast
  have e: "fst (eval_ast E obj (DraftASTNode FUNC_CALL [b, x, y] v u f) h) = Inr w \<Longrightarrow>
      fst (eval_ast E obj (if truth E h c then x else y) h) = Inr w" for w
    using c(1) v by (auto simp: eval_node_def call_func_def abind_quiet_Inr q where_op_def)
  have "rebuilt_ok E obj h (\<lambda>w. fst (eval_ast E obj (if truth E h c then x else y) h) = Inr w) r"
    using c(2) 6(1,2,3) by (auto split: if_splits)
  then show ?case by (rule rebuilt_ok_mono) (rule e)
qed simp_all


text \<open>\<open>d.a[k].append(..)\<close> with \<open>k = 1\<close> computed\<close>

definition dynamic_update :: draft_update where
  "dynamic_update = update_of ContainerClear (func_node ''getItem'' [attr_node ROOT_NODE ''a'', DraftASTNode JSON_LITERAL [] (DInt 1) DNone None]) []"

lemma dynamic_update_stabilized:
  "stabilize_update plain_print int_env sample_classes sample_draft (DRef 0) dynamic_update small_doc =
     (Inr (dynamic_update\<lparr>du_node := DraftASTNode ARRAY_GET_ITEM [DraftASTNode GET_ATTR [ROOT_NODE] (DStr ''a'') DNone (Some 0)] (DInt 1) DNone None\<rparr>), small_doc)"
  by (simp add: stabilize_update_def rebuild_and_stabilize_def dynamic_update_def update_of_def func_node_def attr_node_def ROOT_NODE_def
      rebuild_node_def rebuild_call_def act_simps aread_def sample_draft_def start_state_def small_doc_def is_dataclass_def hget_def
      eval_node_def rebuilt_getattr_def object_getattr_def object_fields_def sample_classes_def anno_of_def
      parse_type_may_optional_undefined.simps draft_dispatch_def anno_dispatch_def kind_of_type_def is_dataclass_type_def
      is_sequence_type_def is_mapping_type_def is_number_type_def path_metas_def extract_field_meta_def Let_def
      rebuilt_getitem_def sequence_getitem_def seq_anno_def item_anno_def get_child_annotated_type_def)


end
