(* ===== verification/FTGroup.thy ===== *)
theory FTGroup
  imports TreeId
begin

text \<open>
  The fault-tolerant group of \<open>core/distributed/ftgroup.py\<close>: a master (rank 0) and its workers watch
  each other through periodic health checks and a registration call, and report restarts and
  disconnections as events.

  \<^item> A remote manager is its URL. \<open>self.state\<close> is the object at index 0 of \<open>client_states\<close> and stays so:
    only entries of other ranks are replaced. It is read as \<open>gr_state\<close>.
  \<^item> \<open>_disconnect_retry_count\<close> is not set by the constructor: \<open>gr_retry\<close> is \<open>None\<close> until an assignment, and
    reading it before raises \<open>AttributeError\<close>.
  \<^item> The network, the files, the discovery function and the event handlers act on a world \<open>'w\<close> that is
    a parameter (\<open>ft_env\<close>). A call returns a value or a failure: a gRPC error, or any other exception.
  \<^item> Every handler runs under the lock of its process, so a handler is one action.
\<close>

subsection \<open>Data\<close>

datatype ft_status = FT_OK | MASTER_DISCONNECTED | WORKER_DISCONNECTED | FT_UNKNOWN

record ft_state =
  fs_rank :: int
  fs_ip :: string
  fs_port :: nat
  fs_is_master :: bool
  fs_cur_cmd :: "string option"
  fs_status :: ft_status
  fs_uuid :: string
  fs_master_uuid :: string
  fs_master_ip :: string

record ft_config =
  cf_sync_folder :: "string option"
  cf_discovery_fn :: bool
  cf_total_retry :: int

definition default_config :: ft_config where
  "default_config = \<lparr>cf_sync_folder = None, cf_discovery_fn = False, cf_total_retry = 120\<rparr>"

record ftgroup =
  gr_rank :: int
  gr_world_size :: nat
  gr_dist_urls :: "string list option"
  gr_port :: nat
  gr_is_master :: bool
  gr_client_robjs :: "(int, string) dict"
  gr_master_robj :: "string option"
  gr_client_states :: "ft_state list"
  gr_cfg :: ft_config
  gr_client_ranks :: "int list"
  gr_retry :: "int option"

datatype rpc_fail = AioRpcError nat | OtherExc pyerr

datatype ft_event =
    HEARTBEAT_OK_TO_DISCONNECT | HEARTBEAT_DISCONNECT_TO_OK | HEARTBEAT_STEP_END | HEARTBEAT_START
  | RESTART | GROUP_EXIT | MASTER_UPDATE_CLIENT_STATE ft_state

record 'w ft_env =
  en_health :: "string \<Rightarrow> 'w \<Rightarrow> (rpc_fail + unit) \<times> 'w"
  en_set_state :: "string \<Rightarrow> ft_state \<Rightarrow> 'w \<Rightarrow> (rpc_fail + ft_state) \<times> 'w"
  en_close :: "string \<Rightarrow> 'w \<Rightarrow> 'w"
  en_discover :: "'w \<Rightarrow> (string \<times> string) option res \<times> 'w"
  en_master_file :: "'w \<Rightarrow> (string \<times> nat option) option res \<times> 'w"
  en_write_file :: "int \<Rightarrow> string \<Rightarrow> nat \<Rightarrow> string \<Rightarrow> 'w \<Rightarrow> unit res \<times> 'w"
  en_emit :: "ft_event \<Rightarrow> 'w \<Rightarrow> unit res \<times> 'w"
  en_set_shutdown :: "'w \<Rightarrow> 'w"
  en_shutdown_server :: "string \<Rightarrow> 'w \<Rightarrow> (rpc_fail + unit) \<times> 'w"

type_synonym ('w, 'a) group_act = "(ftgroup \<times> 'w, 'a) act"

definition gread :: "(ftgroup \<Rightarrow> 'a res) \<Rightarrow> ('w, 'a) group_act" where
  "gread f s = (f (fst s), s)"

definition gset :: "(ftgroup \<Rightarrow> ftgroup) \<Rightarrow> ('w, unit) group_act" where
  "gset f s = (Inr (), (f (fst s), snd s))"

definition on_world :: "('w \<Rightarrow> 'a res \<times> 'w) \<Rightarrow> ('w, 'a) group_act" where
  "on_world m s = (case m (snd s) of (r, w) \<Rightarrow> (r, (fst s, w)))"

text \<open>A call whose failure the caller looks at.\<close>

definition remote :: "('w \<Rightarrow> 'a \<times> 'w) \<Rightarrow> ('w, 'a) group_act" where
  "remote m s = (case m (snd s) of (r, w) \<Rightarrow> (Inr r, (fst s, w)))"

definition emit_event :: "'w ft_env \<Rightarrow> ft_event \<Rightarrow> ('w, unit) group_act" where
  "emit_event E ev = on_world (en_emit E ev)"

subsection \<open>Construction\<close>

definition url_of :: "string \<Rightarrow> nat \<Rightarrow> string" where
  "url_of ip port = ip @ '':'' @ nat_str port"

definition own_state :: "int \<Rightarrow> string \<Rightarrow> string \<Rightarrow> nat \<Rightarrow> ft_state" where
  "own_state rank uuid url port = \<lparr>fs_rank = rank, fs_ip = url, fs_port = port, fs_is_master = (rank = 0),
     fs_cur_cmd = None, fs_status = FT_OK, fs_uuid = uuid,
     fs_master_uuid = (if rank = 0 then uuid else []), fs_master_ip = url\<rparr>"

definition absent_state :: "int \<Rightarrow> ft_state" where
  "absent_state j = \<lparr>fs_rank = j, fs_ip = [], fs_port = 0, fs_is_master = False, fs_cur_cmd = None,
     fs_status = WORKER_DISCONNECTED, fs_uuid = [], fs_master_uuid = [], fs_master_ip = []\<rparr>"

definition make_group ::
  "int \<Rightarrow> nat \<Rightarrow> string \<Rightarrow> nat \<Rightarrow> string list option \<Rightarrow> ft_config option \<Rightarrow> bool \<Rightarrow> string \<Rightarrow> ftgroup res" where
  "make_group rank world_size url port dist_urls cfg_opt folder_exists uuid =
     (let cfg = (case cfg_opt of None \<Rightarrow> default_config | Some c \<Rightarrow> c) in
      rbind (rassert (cf_sync_folder cfg = None \<longrightarrow> (case dist_urls of None \<Rightarrow> False | Some us \<Rightarrow> length us = world_size))) (\<lambda>_.
      rbind (rassert (cf_sync_folder cfg \<noteq> None \<longrightarrow> folder_exists)) (\<lambda>_.
      if world_size = 0 then Inl KeyError
      else Inr \<lparr>gr_rank = rank, gr_world_size = world_size, gr_dist_urls = dist_urls, gr_port = port,
        gr_is_master = (rank = 0), gr_client_robjs = [], gr_master_robj = None,
        gr_client_states = own_state rank uuid url port # map (absent_state \<circ> int) [1..<world_size],
        gr_cfg = cfg, gr_client_ranks = map int [1..<world_size], gr_retry = None\<rparr>)))"

definition gr_state :: "ftgroup \<Rightarrow> ft_state" where
  "gr_state g = hd (gr_client_states g)"

definition upd_state :: "(ft_state \<Rightarrow> ft_state) \<Rightarrow> ftgroup \<Rightarrow> ftgroup" where
  "upd_state f g = g\<lparr>gr_client_states := (case gr_client_states g of [] \<Rightarrow> [] | s # ss \<Rightarrow> f s # ss)\<rparr>"

definition set_own_status :: "ft_status \<Rightarrow> ('w, unit) group_act" where
  "set_own_status st = gset (upd_state (fs_status_update (\<lambda>_. st)))"

definition has_discovery :: "ftgroup \<Rightarrow> bool" where
  "has_discovery g \<longleftrightarrow> cf_discovery_fn (gr_cfg g) \<or> cf_sync_folder (gr_cfg g) \<noteq> None"

definition num_client_robj_is_valid :: "ftgroup \<Rightarrow> bool" where
  "num_client_robj_is_valid g =
     (if gr_is_master g then int (length (gr_client_robjs g)) = int (gr_world_size g) - 1 else gr_master_robj g \<noteq> None)"

text \<open>\<open>init\<close>, before it starts the heartbeat.\<close>

definition group_init :: "'w ft_env \<Rightarrow> ('w, unit) group_act" where
  "group_init E s = (let g = fst s in
     if gr_dist_urls g \<noteq> None then (Inr (), s)
     else if cf_sync_folder (gr_cfg g) \<noteq> None then
       on_world (en_write_file E (gr_rank g) (fs_ip (gr_state g)) (gr_port g) (fs_uuid (gr_state g))) s
     else if \<not> has_discovery g then (Inl AssertionError, s)
     else (Inr (), s))"

text \<open>Errors of \<open>close\<close> are printed and dropped.\<close>

definition close_all :: "'w ft_env \<Rightarrow> ('w, unit) group_act" where
  "close_all E s = (let g = fst s in
     (Inr (), (g, if fs_is_master (gr_state g) then fold (en_close E) (dvals (gr_client_robjs g)) (snd s)
                  else case gr_master_robj g of None \<Rightarrow> snd s | Some u \<Rightarrow> en_close E u (snd s))))"

subsection \<open>Calling all workers\<close>

definition pyset_index :: "int \<Rightarrow> ('a \<Rightarrow> 'a) \<Rightarrow> 'a list \<Rightarrow> 'a list res" where
  "pyset_index i f xs = (let n = int (length xs); j = (if i < 0 then i + n else i)
     in if 0 \<le> j \<and> j < n then Inr (xs[nat j := f (xs ! nat j)]) else Inl IndexError)"

definition set_client_status :: "int \<Rightarrow> ft_status \<Rightarrow> ('w, unit) group_act" where
  "set_client_status rank st s = (case pyset_index rank (fs_status_update (\<lambda>_. st)) (gr_client_states (fst s)) of
     Inl e \<Rightarrow> (Inl e, s)
   | Inr ss \<Rightarrow> (Inr (), (fst s)\<lparr>gr_client_states := ss\<rparr>, snd s))"

text \<open>\<open>asyncio.gather\<close> over the calls to the given workers.\<close>

fun gather :: "(string \<Rightarrow> 'w \<Rightarrow> (rpc_fail + 'r) \<times> 'w) \<Rightarrow> (int \<times> string) list \<Rightarrow> 'w \<Rightarrow> (int \<times> (rpc_fail + 'r)) list \<times> 'w" where
  "gather call [] w = ([], w)"
| "gather call ((rank, u) # rs) w = (case call u w of (r, w1) \<Rightarrow>
     case gather call rs w1 of (xs, w2) \<Rightarrow> ((rank, r) # xs, w2))"

type_synonym 'r call_results = "(int, 'r) dict \<times> (int, rpc_fail) dict"

text \<open>One worker's result: a failed worker is dropped and its connection closed.\<close>

definition drop_or_keep :: "'w ft_env \<Rightarrow> int \<times> (rpc_fail + 'r) \<Rightarrow> 'r call_results \<Rightarrow> ('w, 'r call_results) group_act" where
  "drop_or_keep E p acc = (case p of
     (rank, Inl e) \<Rightarrow> abind (set_client_status rank WORKER_DISCONNECTED) (\<lambda>_ s.
       case dget (gr_client_robjs (fst s)) rank of
         None \<Rightarrow> (Inl KeyError, s)
       | Some u \<Rightarrow> (Inr (fst acc, dset rank e (snd acc)),
           ((fst s)\<lparr>gr_client_robjs := ddel rank (gr_client_robjs (fst s))\<rparr>, en_close E u (snd s))))
   | (rank, Inr r) \<Rightarrow> abind (set_client_status rank FT_OK) (\<lambda>_. aret (dset rank r (fst acc), snd acc)))"

fun afold :: "('x \<Rightarrow> 'b \<Rightarrow> ('s, 'b) act) \<Rightarrow> 'x list \<Rightarrow> 'b \<Rightarrow> ('s, 'b) act" where
  "afold f [] b = aret b"
| "afold f (x # xs) b = abind (f x b) (afold f xs)"

definition call_async ::
  "'w ft_env \<Rightarrow> (string \<Rightarrow> 'w \<Rightarrow> (rpc_fail + 'r) \<times> 'w) \<Rightarrow> int set \<Rightarrow> ('w, 'r call_results \<times> bool) group_act" where
  "call_async E call exclude s =
     (let valid = num_client_robj_is_valid (fst s);
          targets = filter (\<lambda>(rank, u). rank \<notin> exclude) (gr_client_robjs (fst s)) in
      case gather call targets (snd s) of (results, w) \<Rightarrow>
        abind (afold (drop_or_keep E) results ([], [])) (\<lambda>acc.
          abind (if \<not> valid \<or> snd acc \<noteq> [] then set_own_status WORKER_DISCONNECTED else aret ())
            (\<lambda>_. aret (acc, valid \<and> snd acc = []))) (fst s, w))"

text \<open>
  The variant for synchronous groups retries. A round returns the retries left, the results so far,
  this round's failures and the workers to call again. A gRPC error ends the retries; every other
  failure is retried. The calls of the next round are made at its start here, though the code
  creates the tasks before it checks the retries (and cancels them when it gives up).
\<close>

fun sync_results ::
  "(int \<times> (rpc_fail + 'r)) list \<Rightarrow> int \<Rightarrow> 'r call_results \<Rightarrow> int list \<Rightarrow> ('w, int \<times> 'r call_results \<times> int list) group_act" where
  "sync_results [] retry acc again = aret (retry, acc, again)"
| "sync_results ((rank, Inl (AioRpcError c)) # rs) retry acc again =
     sync_results rs 0 (fst acc, dset rank (AioRpcError c) (snd acc)) again"
| "sync_results ((rank, Inl (OtherExc x)) # rs) retry acc again =
     abind (set_client_status rank WORKER_DISCONNECTED) (\<lambda>_ s.
       case dget (gr_client_robjs (fst s)) rank of
         None \<Rightarrow> (Inl KeyError, s)
       | Some u \<Rightarrow> sync_results rs retry (fst acc, dset rank (OtherExc x) (snd acc)) (again @ [rank]) s)"
| "sync_results ((rank, Inr r) # rs) retry acc again =
     abind (set_client_status rank FT_OK) (\<lambda>_. sync_results rs retry (dset rank r (fst acc), snd acc) again)"

text \<open>Giving up: stop this server and every other one; only gRPC errors are ignored.\<close>

fun shutdown_all :: "'w ft_env \<Rightarrow> string list \<Rightarrow> ('w, unit) group_act" where
  "shutdown_all E [] = aret ()"
| "shutdown_all E (u # us) = abind (remote (en_shutdown_server E u)) (\<lambda>r.
     case r of Inl (OtherExc x) \<Rightarrow> araise x | _ \<Rightarrow> shutdown_all E us)"

definition give_up :: "'w ft_env \<Rightarrow> ('w, unit) group_act" where
  "give_up E s = (case gr_dist_urls (fst s) of
     None \<Rightarrow> (Inl TypeError, s)
   | Some us \<Rightarrow> shutdown_all E (tl us) (fst s, en_set_shutdown E (snd s)))"

definition targets_of :: "ftgroup \<Rightarrow> int list \<Rightarrow> (int \<times> string) list" where
  "targets_of g ranks = concat (map (\<lambda>r. case dget (gr_client_robjs g) r of None \<Rightarrow> [] | Some u \<Rightarrow> [(r, u)]) ranks)"

function sync_loop ::
  "'w ft_env \<Rightarrow> (string \<Rightarrow> 'w \<Rightarrow> (rpc_fail + 'r) \<times> 'w) \<Rightarrow> int \<Rightarrow> (int, 'r) dict \<Rightarrow> (int, rpc_fail) dict \<Rightarrow> int list \<Rightarrow>
   ('w, 'r call_results \<times> bool) group_act" where
  "sync_loop E call retry res exc ranks s =
     (if ranks = [] then (Inr ((res, exc), False), s)
      else case gather call (targets_of (fst s) ranks) (snd s) of (results, w) \<Rightarrow>
        case sync_results results retry (res, []) [] (fst s, w) of
          (Inl e, s') \<Rightarrow> (Inl e, s')
        | (Inr (retry', (res', exc'), again), s') \<Rightarrow>
            if retry' \<le> 0 \<and> exc' \<noteq> [] then abind (give_up E) (\<lambda>_. aret ((res', exc'), True)) s'
            else sync_loop E call (retry' - 1) res' exc' again s')"
  by pat_completeness auto

lemma dset_not_Nil [simp]: "dset k v m \<noteq> []"
  by (cases "(k, v, m)" rule: dset.cases) auto

lemma sync_results_progress:
  "sync_results results retry acc again s = (Inr (retry', acc', again'), s') \<Longrightarrow>
   retry' \<le> max retry 0 \<and> (snd acc' = [] \<longrightarrow> again' = again \<and> snd acc = [] \<and> retry' = retry)"
proof (induction results arbitrary: retry acc again s)
  case Nil
  then show ?case by (auto simp: act_simps)
next
  case (Cons p rs)
  obtain rank r where p: "p = (rank, r)" by (cases p)
  show ?case
  proof (cases r)
    case (Inl e)
    show ?thesis
    proof (cases e)
      case (AioRpcError c)
      have "sync_results rs 0 (fst acc, dset rank (AioRpcError c) (snd acc)) again s = (Inr (retry', acc', again'), s')"
        using Cons.prems p Inl AioRpcError by simp
      from Cons.IH[OF this] show ?thesis by auto
    next
      case (OtherExc x)
      obtain s1 where "sync_results rs retry (fst acc, dset rank (OtherExc x) (snd acc)) (again @ [rank]) s1 =
          (Inr (retry', acc', again'), s')"
        using Cons.prems p Inl OtherExc by (auto simp: abind_def split: prod.splits sum.splits option.splits)
      from Cons.IH[OF this] show ?thesis by auto
    qed
  next
    case (Inr v)
    obtain s1 where "sync_results rs retry (dset rank v (fst acc), snd acc) again s1 = (Inr (retry', acc', again'), s')"
      using Cons.prems p Inr by (auto simp: abind_def split: prod.splits sum.splits)
    from Cons.IH[OF this] show ?thesis by auto
  qed
qed

lemma sync_results_measure:
  assumes "sync_results results retry (res, []) [] s = (Inr (retry', (res', exc'), again), s')"
    and "ranks \<noteq> []" "\<not> (retry' \<le> 0 \<and> exc' \<noteq> [])"
  shows "nat (retry' - 1) + of_bool (again \<noteq> []) < nat retry + of_bool (ranks \<noteq> [])"
  using sync_results_progress[OF assms(1)] assms(2,3) by (cases "exc' = []") auto

termination sync_loop
  apply (relation "measure (\<lambda>(E, call, retry, res, exc, ranks, s). nat retry + of_bool (ranks \<noteq> []))")
   apply simp
  apply (clarsimp simp del: of_bool_eq_iff)
  subgoal using sync_results_measure[OF sym] by fastforce
  done

declare sync_loop.simps [simp del]

definition call_sync ::
  "'w ft_env \<Rightarrow> (string \<Rightarrow> 'w \<Rightarrow> (rpc_fail + 'r) \<times> 'w) \<Rightarrow> int set \<Rightarrow> ('w, 'r call_results \<times> bool) group_act" where
  "call_sync E call exclude s =
     (if \<not> num_client_robj_is_valid (fst s) \<or> exclude \<noteq> {} then (Inl AssertionError, s)
      else sync_loop E call (max 1 (cf_total_retry (gr_cfg (fst s)))) [] [] (dkeys (gr_client_robjs (fst s))) s)"

definition master_call_all_client ::
  "'w ft_env \<Rightarrow> (string \<Rightarrow> 'w \<Rightarrow> (rpc_fail + 'r) \<times> 'w) \<Rightarrow> int set \<Rightarrow> bool \<Rightarrow> ('w, 'r call_results \<times> bool) group_act" where
  "master_call_all_client E call exclude is_health_check s =
     (if \<not> gr_is_master (fst s) then (Inl AssertionError, s)
      else if \<not> is_health_check \<and> gr_dist_urls (fst s) \<noteq> None then call_sync E call exclude s
      else call_async E call exclude s)"

subsection \<open>Finding the master\<close>

text \<open>A health check: a gRPC error of any code means that the peer is not there.\<close>

definition check_health :: "'w ft_env \<Rightarrow> string \<Rightarrow> ('w, bool) group_act" where
  "check_health E url = abind (remote (en_health E url)) (\<lambda>r.
     case r of Inr _ \<Rightarrow> aret True | Inl (AioRpcError c) \<Rightarrow> aret False | Inl (OtherExc x) \<Rightarrow> araise x)"

definition healthy_or_none :: "'w ft_env \<Rightarrow> string \<Rightarrow> ('w, string option) group_act" where
  "healthy_or_none E url = abind (check_health E url) (\<lambda>ok. aret (if ok then Some url else None))"

definition query_master_robj :: "'w ft_env \<Rightarrow> ('w, string option) group_act" where
  "query_master_robj E s = (let g = fst s in
     if cf_discovery_fn (gr_cfg g) then
       abind (on_world (en_discover E)) (\<lambda>r. case r of
         None \<Rightarrow> aret None
       | Some (ip, port) \<Rightarrow> healthy_or_none E (ip @ '':'' @ port)) s
     else if cf_sync_folder (gr_cfg g) \<noteq> None then
       abind (on_world (en_master_file E)) (\<lambda>r. case r of
         None \<Rightarrow> aret None
       | Some (ip, p) \<Rightarrow> healthy_or_none E (url_of ip (case p of None \<Rightarrow> gr_port g | Some n \<Rightarrow> n))) s
     else (case gr_dist_urls g of
         None \<Rightarrow> (Inl AssertionError, s)
       | Some [] \<Rightarrow> (Inl IndexError, s)
       | Some (u # _) \<Rightarrow> healthy_or_none E u s))"

subsection \<open>Registration\<close>

text \<open>
  The worker's side. Every exception inside the \<open>try\<close>, of the call or of a handler of the restart
  event, counts as a lost master.
\<close>

definition client_set_worker_state :: "'w ft_env \<Rightarrow> bool \<Rightarrow> ('w, unit) group_act" where
  "client_set_worker_state E handle_restart s = (case gr_master_robj (fst s) of
     None \<Rightarrow> (Inl AssertionError, s)
   | Some url \<Rightarrow>
       (case abind (remote (en_set_state E url (gr_state (fst s)))) (\<lambda>r. case r of
              Inl _ \<Rightarrow> araise RemoteException
            | Inr m \<Rightarrow> abind (\<lambda>s. if handle_restart \<and> fs_master_uuid (gr_state (fst s)) \<noteq> [] \<and>
                                    fs_master_uuid (gr_state (fst s)) \<noteq> fs_master_uuid m
                                 then emit_event E RESTART s else (Inr (), s))
                (\<lambda>_. gset (upd_state (\<lambda>st. st\<lparr>fs_master_uuid := fs_master_uuid m, fs_master_ip := fs_master_ip m\<rparr>)))) s of
          (Inr _, s') \<Rightarrow> (Inr (), s')
        | (Inl _, s') \<Rightarrow>
            abind (gset (\<lambda>g. upd_state (fs_status_update (\<lambda>_. MASTER_DISCONNECTED)) (g\<lparr>gr_master_robj := None\<rparr>)))
              (\<lambda>_. emit_event E HEARTBEAT_OK_TO_DISCONNECT) s'))"

definition all_connected :: "ftgroup \<Rightarrow> bool" where
  "all_connected g \<longleftrightarrow> int (length (gr_client_robjs g)) = int (gr_world_size g) - 1"

definition master_state_check_is_ok :: "'w ft_env \<Rightarrow> ('w, unit) group_act" where
  "master_state_check_is_ok E s =
     (if all_connected (fst s) then
        abind (set_client_status 0 FT_OK) (\<lambda>_. abind (emit_event E HEARTBEAT_DISCONNECT_TO_OK)
          (\<lambda>_. gset (gr_retry_update (\<lambda>_. Some 0)))) s
      else (Inr (), s))"

text \<open>The connection to a worker: kept, replaced after a restart, or new.\<close>

definition connect_worker :: "'w ft_env \<Rightarrow> ft_state \<Rightarrow> bool \<Rightarrow> ('w, unit) group_act" where
  "connect_worker E st restarted s = (let g = fst s; url = url_of (fs_ip st) (fs_port st); r = fs_rank st in
     case dget (gr_client_robjs g) r of
       Some u \<Rightarrow> if restarted
         then (Inr (), (g\<lparr>gr_client_robjs := dset r url (ddel r (gr_client_robjs g))\<rparr>, en_close E u (snd s)))
         else (Inr (), s)
     | None \<Rightarrow> (Inr (), (g\<lparr>gr_client_robjs := dset r url (gr_client_robjs g)\<rparr>, snd s)))"

definition client_is_restart :: "ft_state \<Rightarrow> ft_state \<Rightarrow> bool" where
  "client_is_restart prev st \<longleftrightarrow> fs_uuid prev \<noteq> fs_uuid st \<and> fs_uuid prev \<noteq> []"

definition master_is_restart :: "ft_state \<Rightarrow> ft_state \<Rightarrow> bool" where
  "master_is_restart own st \<longleftrightarrow> fs_uuid own \<noteq> fs_master_uuid st \<and> fs_master_uuid st \<noteq> []"

definition set_worker_state :: "'w ft_env \<Rightarrow> ft_state \<Rightarrow> ('w, ft_state) group_act" where
  "set_worker_state E st s =
     (if fs_rank st = 0 \<or> \<not> fs_is_master (gr_state (fst s)) then (Inl AssertionError, s)
      else (case pyindex (gr_client_states (fst s)) (fs_rank st) of
          Inl e \<Rightarrow> (Inl e, s)
        | Inr prev \<Rightarrow>
            abind (if client_is_restart prev st \<or> master_is_restart (gr_state (fst s)) st then emit_event E RESTART else aret ()) (\<lambda>_.
            abind (emit_event E (MASTER_UPDATE_CLIENT_STATE st)) (\<lambda>_.
            abind (\<lambda>s. case pyset_index (fs_rank st) (\<lambda>_. st) (gr_client_states (fst s)) of
                Inl e \<Rightarrow> (Inl e, s) | Inr ss \<Rightarrow> (Inr (), (fst s)\<lparr>gr_client_states := ss\<rparr>, snd s)) (\<lambda>_.
            abind (connect_worker E st (client_is_restart prev st)) (\<lambda>_.
            abind (master_state_check_is_ok E) (\<lambda>_.
            gread (\<lambda>g. Inr (gr_state g))))))) s))"

subsection \<open>Heartbeats\<close>

text \<open>\<open>self._disconnect_retry_count += 1\<close>, then the test against the limit.\<close>

definition count_retry :: "('w, bool) group_act" where
  "count_retry s = (case gr_retry (fst s) of
     None \<Rightarrow> (Inl AttributeError, s)
   | Some n \<Rightarrow> (Inr (n + 1 > cf_total_retry (gr_cfg (fst s))), (fst s)\<lparr>gr_retry := Some (n + 1)\<rparr>, snd s))"

definition back_to_ok :: "'w ft_env \<Rightarrow> ('w, unit) group_act" where
  "back_to_ok E = abind (gset (\<lambda>g. upd_state (fs_status_update (\<lambda>_. FT_OK)) (g\<lparr>gr_retry := Some 0\<rparr>)))
     (\<lambda>_. emit_event E HEARTBEAT_DISCONNECT_TO_OK)"

definition disconnected_ranks :: "ftgroup \<Rightarrow> int list" where
  "disconnected_ranks g = filter (\<lambda>r. \<not> dmem r (gr_client_robjs g)) (gr_client_ranks g)"

definition reconnect :: "'w ft_env \<Rightarrow> string list \<Rightarrow> int \<Rightarrow> ('w, unit) group_act" where
  "reconnect E urls rank = abind (gread (\<lambda>_. pyindex urls rank)) (\<lambda>url.
     abind (check_health E url) (\<lambda>ok.
       if ok then abind (gset (\<lambda>g. g\<lparr>gr_client_robjs := dset rank url (gr_client_robjs g)\<rparr>))
         (\<lambda>_. set_client_status rank FT_OK)
       else aret ()))"

definition master_check_workers :: "'w ft_env \<Rightarrow> ('w, bool) group_act" where
  "master_check_workers E s =
     (if fs_status (gr_state (fst s)) = FT_OK then
        abind (master_call_all_client E (en_health E) {} True) (\<lambda>(_, ok).
          abind (if ok then aret () else emit_event E HEARTBEAT_OK_TO_DISCONNECT) (\<lambda>_. aret False)) s
      else
        abind (if has_discovery (fst s) then aret ()
               else case gr_dist_urls (fst s) of
                   None \<Rightarrow> araise AssertionError
                 | Some us \<Rightarrow> afor (reconnect E us) (disconnected_ranks (fst s)))
          (\<lambda>_ s. if \<not> all_connected (fst s) then count_retry s
                else abind (back_to_ok E) (\<lambda>_. aret False) s) s)"

definition client_check_master :: "'w ft_env \<Rightarrow> ('w, bool) group_act" where
  "client_check_master E s =
     (if fs_status (gr_state (fst s)) = FT_OK then
        (case gr_master_robj (fst s) of
           Some _ \<Rightarrow> abind (client_set_worker_state E True) (\<lambda>_. aret False) s
         | None \<Rightarrow> abind (query_master_robj E) (\<lambda>r. case r of
               None \<Rightarrow> abind (set_own_status MASTER_DISCONNECTED) (\<lambda>_.
                 abind (emit_event E HEARTBEAT_OK_TO_DISCONNECT) (\<lambda>_. aret False))
             | Some u \<Rightarrow> abind (gset (gr_master_robj_update (\<lambda>_. Some u)))
                 (\<lambda>_. abind (client_set_worker_state E True) (\<lambda>_. aret False))) s)
      else abind (query_master_robj E) (\<lambda>r. case r of
          None \<Rightarrow> count_retry
        | Some u \<Rightarrow> abind (gset (gr_master_robj_update (\<lambda>_. Some u)))
            (\<lambda>_. abind (back_to_ok E) (\<lambda>_. aret False))) s)"

definition check_connection :: "'w ft_env \<Rightarrow> ('w, bool) group_act" where
  "check_connection E s = (if gr_is_master (fst s) then master_check_workers E s else client_check_master E s)"

text \<open>
  The heartbeat loop over the wakeups it gets: \<open>True\<close> is a tick, \<open>False\<close> the shutdown event. The
  loop's own result is whether it has ended.
\<close>

definition heartbeat_exit :: "'w ft_env \<Rightarrow> bool \<Rightarrow> ('w, unit) group_act" where
  "heartbeat_exit E master = (if master then (\<lambda>s. (Inr (), (fst s, en_set_shutdown E (snd s)))) else emit_event E GROUP_EXIT)"

fun heartbeat_steps :: "'w ft_env \<Rightarrow> bool list \<Rightarrow> ('w, bool) group_act" where
  "heartbeat_steps E [] = aret False"
| "heartbeat_steps E (False # ws) = aret True"
| "heartbeat_steps E (True # ws) = (\<lambda>s. let master = fs_is_master (gr_state (fst s)) in
     abind (if master then master_check_workers E else client_check_master E) (\<lambda>should_exit.
       if should_exit then abind (heartbeat_exit E master) (\<lambda>_. aret True)
       else abind (emit_event E HEARTBEAT_STEP_END) (\<lambda>_. heartbeat_steps E ws)) s)"

definition heartbeat_loop :: "'w ft_env \<Rightarrow> bool list \<Rightarrow> ('w, bool) group_act" where
  "heartbeat_loop E ws = abind (emit_event E HEARTBEAT_START) (\<lambda>_. heartbeat_steps E ws)"

subsection \<open>What the retrying call returns\<close>

lemma set_client_status_robjs:
  "set_client_status r st s = (x, s') \<Longrightarrow> gr_client_robjs (fst s') = gr_client_robjs (fst s)"
  by (auto simp: set_client_status_def split: sum.splits)

lemma sync_results_cover:
  "sync_results rs retry acc again s = (Inr (retry', acc', again'), s') \<Longrightarrow>
   gr_client_robjs (fst s') = gr_client_robjs (fst s) \<and> (\<forall>r. dmem r (fst acc) \<longrightarrow> dmem r (fst acc')) \<and>
   set again \<subseteq> set again' \<and> set again' \<subseteq> set again \<union> fst ` set rs \<and> (retry \<le> 0 \<longrightarrow> retry' \<le> 0) \<and>
   (0 < retry' \<longrightarrow> (\<forall>r. dmem r (snd acc') \<longrightarrow> dmem r (snd acc) \<or> r \<in> set again')) \<and>
   (0 < retry' \<or> snd acc' = [] \<longrightarrow> (\<forall>p\<in>set rs. dmem (fst p) (fst acc') \<or> fst p \<in> set again'))"
proof (induction rs arbitrary: retry acc again s)
  case Nil
  then show ?case by (auto simp: act_simps)
next
  case (Cons p rs)
  obtain rank r where p: "p = (rank, r)" by (cases p)
  consider (rpc) c where "r = Inl (AioRpcError c)" | (other) x where "r = Inl (OtherExc x)" | (got) v where "r = Inr v"
    by (metis rpc_fail.exhaust sum.exhaust)
  then show ?case
  proof cases
    case rpc
    then have "sync_results rs 0 (fst acc, dset rank (AioRpcError c) (snd acc)) again s = (Inr (retry', acc', again'), s')"
      using Cons.prems p by simp
    from Cons.IH[OF this] sync_results_progress[OF this] show ?thesis by auto
  next
    case other
    obtain s1 where s1: "sync_results rs retry (fst acc, dset rank (OtherExc x) (snd acc)) (again @ [rank]) s1 = (Inr (retry', acc', again'), s')"
      "gr_client_robjs (fst s1) = gr_client_robjs (fst s)"
      using Cons.prems p other by (auto simp: abind_def dest: set_client_status_robjs split: prod.splits sum.splits option.splits)
    from Cons.IH[OF s1(1)] s1(2) p show ?thesis by auto
  next
    case got
    obtain s1 where s1: "sync_results rs retry (dset rank v (fst acc), snd acc) again s1 = (Inr (retry', acc', again'), s')"
      "gr_client_robjs (fst s1) = gr_client_robjs (fst s)"
      using Cons.prems p got by (auto simp: abind_def dest: set_client_status_robjs split: prod.splits sum.splits)
    from Cons.IH[OF s1(1)] s1(2) p show ?thesis by auto
  qed
qed

lemma gather_ranks: "gather call ts w = (xs, w') \<Longrightarrow> map fst xs = map fst ts"
  by (induction ts arbitrary: w xs w') (auto split: prod.splits)

lemma targets_of_ranks: "(\<And>r. r \<in> set ranks \<Longrightarrow> dmem r (gr_client_robjs g)) \<Longrightarrow> map fst (targets_of g ranks) = ranks"
  by (induction ranks) (auto simp: targets_of_def dmem_dget split: option.splits)

lemma sync_loop_complete:
  assumes "sync_loop E call retry res exc ranks s = (Inr ((res', exc'), failed), s')"
    and "\<And>r. r \<in> set ranks \<Longrightarrow> dmem r (gr_client_robjs (fst s))"
    and "ranks = [] \<Longrightarrow> exc = []"
  shows "(\<forall>r. dmem r res \<longrightarrow> dmem r res') \<and> (failed \<longleftrightarrow> exc' \<noteq> []) \<and> (\<not> failed \<longrightarrow> (\<forall>r\<in>set ranks. dmem r res'))"
  using assms
proof (induction E call retry res exc ranks s rule: sync_loop.induct)
  case (1 E call retry res exc ranks s)
  show ?case
  proof (cases "ranks = []")
    case True
    then show ?thesis using 1(2,4) by (simp add: sync_loop.simps)
  next
    case False
    obtain xs w where g: "gather call (targets_of (fst s) ranks) (snd s) = (xs, w)" by (metis prod.exhaust)
    have xs: "map fst xs = ranks" using gather_ranks[OF g] targets_of_ranks[of ranks "fst s"] 1(3) by simp
    obtain retry1 res1 exc1 again s1 where r: "sync_results xs retry (res, []) [] (fst s, w) = (Inr (retry1, (res1, exc1), again), s1)"
      using 1(2) False g by (subst (asm) sync_loop.simps) (auto split: prod.splits sum.splits)
    note cov = sync_results_cover[OF r]
    have rs: "\<And>r. r \<in> set ranks \<Longrightarrow> \<exists>p\<in>set xs. fst p = r" using xs by force
    show ?thesis
    proof (cases "retry1 \<le> 0 \<and> exc1 \<noteq> []")
      case True
      then have "abind (give_up E) (\<lambda>_. aret ((res1, exc1), True)) s1 = (Inr ((res', exc'), failed), s')"
        using 1(2) False g r by (subst (asm) sync_loop.simps) simp
      then show ?thesis using True cov by (auto simp: abind_def aret_def split: prod.splits sum.splits)
    next
      case go: False
      then have l: "sync_loop E call (retry1 - 1) res1 exc1 again s1 = (Inr ((res', exc'), failed), s')"
        using 1(2) False g r by (subst (asm) sync_loop.simps) auto
      have "fst ` set xs = set ranks" using xs by (metis image_set)
      then have "\<And>r. r \<in> set again \<Longrightarrow> dmem r (gr_client_robjs (fst s1))" using cov 1(3) by auto
      moreover have "again = [] \<Longrightarrow> exc1 = []" using cov go by (cases exc1) auto
      ultimately have ih: "(\<forall>r. dmem r res1 \<longrightarrow> dmem r res') \<and> (failed \<longleftrightarrow> exc' \<noteq> []) \<and> (\<not> failed \<longrightarrow> (\<forall>r\<in>set again. dmem r res'))"
        using 1(1)[OF False g[symmetric] r[symmetric] refl refl refl refl go l] by auto
      have "\<forall>p\<in>set xs. dmem (fst p) res1 \<or> fst p \<in> set again" using cov go by auto
      then show ?thesis using ih cov rs by (metis fst_conv)
    qed
  qed
qed

text \<open>
  When the retrying call of a synchronous group returns, it reports failure exactly when some worker
  failed in the last round, and success only with a result of every worker.
\<close>

lemma call_sync_complete:
  assumes "call_sync E call {} s = (Inr ((res, exc), failed), s')"
  shows "(failed \<longleftrightarrow> exc \<noteq> []) \<and> (\<not> failed \<longrightarrow> (\<forall>r. dmem r (gr_client_robjs (fst s)) \<longrightarrow> dmem r res))"
proof -
  have "sync_loop E call (max 1 (cf_total_retry (gr_cfg (fst s)))) [] [] (dkeys (gr_client_robjs (fst s))) s = (Inr ((res, exc), failed), s')"
    using assms by (auto simp: call_sync_def split: if_splits)
  from sync_loop_complete[OF this] show ?thesis by (simp add: dmem_def)
qed

end
