(* ===== verification/FTSystem.thy ===== *)
theory FTSystem
  imports FTGroup
begin

text \<open>
  A whole group (\<open>core/distributed/ftgroup.py\<close>): one master and its workers, each with its heartbeat,
  over a network that may lose a call or its reply, with processes that die and start again.

  \<^item> The log records the events each process emits and each start of a process, newest first.
  \<^item> A worker's beat runs the master's handler of the registration call inside it: both sides hold
    their locks, so nothing else can change either state between the call and the reply.
  \<^item> Event handlers do not raise here (the program registers none); \<open>quiet_env\<close> is that contract.
\<close>

subsection \<open>The network\<close>

datatype entry = Ev int ft_event | Boot int string

datatype call_outcome = Delivered | RequestLost rpc_fail | ReplyLost rpc_fail

record outcome =
  oc_health :: "string \<Rightarrow> rpc_fail + unit"
  oc_call :: call_outcome
  oc_discover :: "(string \<times> string) option res"
  oc_file :: "(string \<times> nat option) option res"

definition log_env :: "int \<Rightarrow> outcome \<Rightarrow> entry list ft_env" where
  "log_env j oc = \<lparr>en_health = \<lambda>u l. (oc_health oc u, l),
     en_set_state = \<lambda>u st l. (Inl (AioRpcError 12), l),
     en_close = \<lambda>u l. l, en_discover = \<lambda>l. (oc_discover oc, l), en_master_file = \<lambda>l. (oc_file oc, l),
     en_write_file = \<lambda>r ip p u l. (Inr (), l), en_emit = \<lambda>ev l. (Inr (), Ev j ev # l),
     en_set_shutdown = \<lambda>l. l, en_shutdown_server = \<lambda>u l. (Inr (), l)\<rparr>"

text \<open>The worker's world is the master and the log.\<close>

definition worker_env :: "int \<Rightarrow> outcome \<Rightarrow> (ftgroup \<times> entry list) ft_env" where
  "worker_env j oc = \<lparr>en_health = \<lambda>u w. (oc_health oc u, w),
     en_set_state = \<lambda>u st w. (case oc_call oc of
         RequestLost f \<Rightarrow> (Inl f, w)
       | ReplyLost f \<Rightarrow> (Inl f, snd (set_worker_state (log_env 0 oc) st w))
       | Delivered \<Rightarrow> (case set_worker_state (log_env 0 oc) st w of
             (Inl e, w') \<Rightarrow> (Inl (OtherExc RemoteException), w') | (Inr m, w') \<Rightarrow> (Inr m, w'))),
     en_close = \<lambda>u w. w, en_discover = \<lambda>w. (oc_discover oc, w), en_master_file = \<lambda>w. (oc_file oc, w),
     en_write_file = \<lambda>r ip p u w. (Inr (), w), en_emit = \<lambda>ev w. (Inr (), (fst w, Ev j ev # snd w)),
     en_set_shutdown = \<lambda>w. w, en_shutdown_server = \<lambda>u w. (Inr (), w)\<rparr>"

lemmas env_simps = log_env_def worker_env_def

text \<open>The contract of an environment whose handlers return: emitting an event only changes the world.\<close>

locale quiet_env =
  fixes E :: "'w ft_env" and logged :: "ft_event \<Rightarrow> 'w \<Rightarrow> 'w"
  assumes emit_returns: "en_emit E ev w = (Inr (), logged ev w)"
begin

lemma emit_event_eq [simp]: "emit_event E ev s = (Inr (), (fst s, logged ev (snd s)))"
  by (simp add: emit_event_def on_world_def emit_returns)

lemma back_to_ok_logged [simp]:
  "back_to_ok E s = (Inr (), (upd_state (fs_status_update (\<lambda>_. FT_OK)) ((fst s)\<lparr>gr_retry := Some 0\<rparr>),
     logged HEARTBEAT_DISCONNECT_TO_OK (snd s)))"
  by (simp add: back_to_ok_def abind_def gset_def)

end

interpretation log: quiet_env "log_env j oc" "\<lambda>ev l. Ev j ev # l" for j oc
  by unfold_locales (simp add: log_env_def)

interpretation worker: quiet_env "worker_env j oc" "\<lambda>ev w. (fst w, Ev j ev # snd w)" for j oc
  by unfold_locales (simp add: worker_env_def)

subsection \<open>The system\<close>

record group_sys =
  sy_master :: ftgroup
  sy_workers :: "int \<Rightarrow> ftgroup"
  sy_log :: "entry list"
  sy_stopped :: "int set"

text \<open>\<open>mk j u\<close> is the constructor call of rank \<open>j\<close> whose \<open>uuid4\<close> is \<open>u\<close>.\<close>

definition used_uuids :: "entry list \<Rightarrow> string set" where
  "used_uuids l = {u. \<exists>j. Boot j u \<in> set l}"

definition after_beat :: "int \<Rightarrow> bool res \<Rightarrow> int set \<Rightarrow> int set" where
  "after_beat j r st = (if r = Inr False then st else insert j st)"

inductive sys_step :: "(int \<Rightarrow> string \<Rightarrow> ftgroup res) \<Rightarrow> nat \<Rightarrow> group_sys \<Rightarrow> group_sys \<Rightarrow> bool" for mk n where
  worker_beat: "\<lbrakk>1 \<le> j; j < int n; j \<notin> sy_stopped s;
      heartbeat_steps (worker_env j oc) [True] (sy_workers s j, (sy_master s, sy_log s)) = (r, (g, (m, l)))\<rbrakk> \<Longrightarrow>
    sys_step mk n s (s\<lparr>sy_workers := (sy_workers s)(j := g), sy_master := m, sy_log := l,
      sy_stopped := after_beat j r (sy_stopped s)\<rparr>)"
| master_beat: "\<lbrakk>0 \<notin> sy_stopped s;
      heartbeat_steps (log_env 0 oc) [True] (sy_master s, sy_log s) = (r, (m, l))\<rbrakk> \<Longrightarrow>
    sys_step mk n s (s\<lparr>sy_master := m, sy_log := l, sy_stopped := after_beat 0 r (sy_stopped s)\<rparr>)"
| worker_restart: "\<lbrakk>1 \<le> j; j < int n; u \<noteq> []; u \<notin> used_uuids (sy_log s); mk j u = Inr g\<rbrakk> \<Longrightarrow>
    sys_step mk n s (s\<lparr>sy_workers := (sy_workers s)(j := g), sy_log := Boot j u # sy_log s,
      sy_stopped := sy_stopped s - {j}\<rparr>)"
| master_restart: "\<lbrakk>u \<noteq> []; u \<notin> used_uuids (sy_log s); mk 0 u = Inr m\<rbrakk> \<Longrightarrow>
    sys_step mk n s (s\<lparr>sy_master := m, sy_log := Boot 0 u # sy_log s, sy_stopped := sy_stopped s - {0}\<rparr>)"

definition sys_start :: "(int \<Rightarrow> string \<Rightarrow> ftgroup res) \<Rightarrow> nat \<Rightarrow> (int \<Rightarrow> string) \<Rightarrow> group_sys \<Rightarrow> bool" where
  "sys_start mk n us s \<longleftrightarrow> inj_on us {0..<int n} \<and> (\<forall>j\<in>{0..<int n}. us j \<noteq> []) \<and>
     mk 0 (us 0) = Inr (sy_master s) \<and> (\<forall>j\<in>{1..<int n}. mk j (us j) = Inr (sy_workers s j)) \<and>
     sy_log s = map (\<lambda>j. Boot (int j) (us (int j))) (rev [0..<n]) \<and> sy_stopped s = {}"

inductive sys_reach :: "(int \<Rightarrow> string \<Rightarrow> ftgroup res) \<Rightarrow> nat \<Rightarrow> group_sys \<Rightarrow> bool" for mk n where
  start: "sys_start mk n us s \<Longrightarrow> sys_reach mk n s"
| step: "\<lbrakk>sys_reach mk n s; sys_step mk n s s'\<rbrakk> \<Longrightarrow> sys_reach mk n s'"

definition maker :: "nat \<Rightarrow> (int \<Rightarrow> string \<times> nat) \<Rightarrow> string list option \<Rightarrow> ft_config \<Rightarrow> int \<Rightarrow> string \<Rightarrow> ftgroup res" where
  "maker n addr urls cfg j u = make_group j n (fst (addr j)) (snd (addr j)) urls (Some cfg) True u"

subsection \<open>What the log says\<close>

text \<open>The last registration of rank \<open>j\<close> with the running master, and whether \<open>j\<close> has started again since.\<close>

fun last_update :: "int \<Rightarrow> entry list \<Rightarrow> ft_state option" where
  "last_update j [] = None"
| "last_update j (Boot i u # l) = (if i = 0 then None else last_update j l)"
| "last_update j (Ev i ev # l) = (case ev of
     MASTER_UPDATE_CLIENT_STATE st \<Rightarrow> if i = 0 \<and> fs_rank st = j then Some st else last_update j l
   | _ \<Rightarrow> last_update j l)"

fun rejoining :: "int \<Rightarrow> entry list \<Rightarrow> bool" where
  "rejoining j [] = False"
| "rejoining j (Boot i u # l) = (if i = 0 then False else if i = j then last_update j l \<noteq> None else rejoining j l)"
| "rejoining j (Ev i ev # l) = (case ev of
     MASTER_UPDATE_CLIENT_STATE st \<Rightarrow> if i = 0 \<and> fs_rank st = j then False else rejoining j l
   | _ \<Rightarrow> rejoining j l)"

fun running_master :: "entry list \<Rightarrow> string" where
  "running_master [] = []"
| "running_master (Boot i u # l) = (if i = 0 then u else running_master l)"
| "running_master (Ev i ev # l) = running_master l"

definition restart_before :: "entry list \<Rightarrow> bool" where
  "restart_before l \<longleftrightarrow> (\<exists>l'. l = Ev 0 RESTART # l')"

text \<open>Every registration in the log is preceded by a restart event exactly when there was a restart.\<close>

fun restarts_noticed :: "entry list \<Rightarrow> bool" where
  "restarts_noticed [] = True"
| "restarts_noticed (e # l) = (restarts_noticed l \<and> (case e of
     Ev i (MASTER_UPDATE_CLIENT_STATE st) \<Rightarrow> i = 0 \<longrightarrow>
       restart_before l = (rejoining (fs_rank st) l \<or> fs_master_uuid st \<notin> {[], running_master l})
   | _ \<Rightarrow> True))"

subsection \<open>The master's tables\<close>

definition table_ok :: "nat \<Rightarrow> ft_state list \<Rightarrow> (int, string) dict \<Rightarrow> bool" where
  "table_ok n cs robjs \<longleftrightarrow> length cs = n \<and> 0 < n \<and> dict_ok robjs \<and> set (dkeys robjs) \<subseteq> {1..<int n} \<and>
     (\<forall>j. 1 \<le> j \<and> j < n \<longrightarrow> fs_rank (cs ! j) = int j \<and> (fs_status (cs ! j) = FT_OK \<longleftrightarrow> dmem (int j) robjs))"

definition log_ok :: "nat \<Rightarrow> string list \<Rightarrow> entry list \<Rightarrow> bool" where
  "log_ok n us l \<longleftrightarrow> us ! 0 = running_master l \<and> restarts_noticed l \<and> \<not> restart_before l \<and>
     (\<forall>j. 1 \<le> j \<and> j < n \<longrightarrow> (case last_update (int j) l of None \<Rightarrow> us ! j = []
        | Some st \<Rightarrow> us ! j = fs_uuid st \<and> fs_uuid st \<noteq> []))"

definition minv :: "nat \<Rightarrow> ftgroup \<times> entry list \<Rightarrow> bool" where
  "minv n s \<longleftrightarrow> gr_world_size (fst s) = n \<and> gr_is_master (fst s) \<and> fs_is_master (gr_client_states (fst s) ! 0) \<and>
     gr_client_ranks (fst s) = map int [1..<n] \<and> table_ok n (gr_client_states (fst s)) (gr_client_robjs (fst s)) \<and>
     log_ok n (map fs_uuid (gr_client_states (fst s))) (snd s)"

lemma gr_state_nth: "table_ok n (gr_client_states g) r \<Longrightarrow> gr_state g = gr_client_states g ! 0"
  by (cases "gr_client_states g") (auto simp: table_ok_def gr_state_def)

lemma minv_state: "minv n s \<Longrightarrow> gr_state (fst s) = gr_client_states (fst s) ! 0"
  by (auto simp: minv_def intro: gr_state_nth)

definition plain_event :: "int \<Rightarrow> ft_event \<Rightarrow> bool" where
  "plain_event i ev \<longleftrightarrow> i \<noteq> 0 \<or> (case ev of RESTART \<Rightarrow> False | MASTER_UPDATE_CLIENT_STATE _ \<Rightarrow> False | _ \<Rightarrow> True)"

lemma log_ok_event: "log_ok n us l \<Longrightarrow> plain_event i ev \<Longrightarrow> log_ok n us (Ev i ev # l)"
  by (cases ev) (auto simp: log_ok_def plain_event_def restart_before_def)

lemma minv_event: "minv n (g, l) \<Longrightarrow> plain_event i ev \<Longrightarrow> minv n (g, Ev i ev # l)"
  by (simp add: minv_def log_ok_event)

lemma upd_state_robjs [simp]:
  "gr_client_robjs (upd_state f g) = gr_client_robjs g" "gr_world_size (upd_state f g) = gr_world_size g"
  "gr_is_master (upd_state f g) = gr_is_master g" "gr_client_ranks (upd_state f g) = gr_client_ranks g"
  "gr_cfg (upd_state f g) = gr_cfg g" "gr_retry (upd_state f g) = gr_retry g" "gr_dist_urls (upd_state f g) = gr_dist_urls g"
  "gr_master_robj (upd_state f g) = gr_master_robj g" "length (gr_client_states (upd_state f g)) = length (gr_client_states g)"
  by (simp_all add: upd_state_def split: list.split)

lemma upd_state_nth:
  "j < length (gr_client_states g) \<Longrightarrow>
   gr_client_states (upd_state f g) ! j = (if j = 0 then f (gr_client_states g ! 0) else gr_client_states g ! j)"
  by (cases "gr_client_states g"; cases j) (simp_all add: upd_state_def)

lemma table_ok_upd_state [simp]:
  "table_ok n (gr_client_states (upd_state f g)) r = table_ok n (gr_client_states g) r"
  by (auto simp: table_ok_def upd_state_nth)

lemma upd_status_uuids [simp]:
  "map fs_uuid (gr_client_states (upd_state (fs_status_update f) g)) = map fs_uuid (gr_client_states g)"
  by (simp add: upd_state_def split: list.split)

lemma minv_upd_status: "minv n (g, l) \<Longrightarrow> minv n (upd_state (fs_status_update f) g, l)"
  by (auto simp: minv_def upd_state_nth table_ok_def)

lemma minv_retry: "minv n (g, l) \<Longrightarrow> minv n (g\<lparr>gr_retry := x\<rparr>, l)"
  by (simp add: minv_def)

text \<open>Replacing an entry of the table without touching its identity.\<close>

lemma update_uuids:
  "fs_uuid s = fs_uuid (cs ! j) \<Longrightarrow> map fs_uuid (cs[j := s]) = map fs_uuid cs"
  by (cases "j < length cs") (simp_all add: map_update list_update_same_conv list_update_beyond)

lemma table_ok_status:
  assumes "table_ok n cs robjs" "1 \<le> j" "j < n" "dict_ok robjs'" "set (dkeys robjs') \<subseteq> {1..<int n}"
    and "fs_rank s = int j" "fs_status s = FT_OK \<longleftrightarrow> dmem (int j) robjs'" "\<And>i. i \<noteq> int j \<Longrightarrow> dmem i robjs' = dmem i robjs"
  shows "table_ok n (cs[j := s]) robjs'"
  using assms by (auto simp: table_ok_def nth_list_update)

lemma pyset_index_nat: "j < length xs \<Longrightarrow> pyset_index (int j) f xs = Inr (xs[j := f (xs ! j)])"
  by (simp add: pyset_index_def)

lemma set_client_status_eq:
  "j < length (gr_client_states (fst s)) \<Longrightarrow> set_client_status (int j) st s =
   (Inr (), (fst s)\<lparr>gr_client_states := (gr_client_states (fst s))[j := (gr_client_states (fst s) ! j)\<lparr>fs_status := st\<rparr>]\<rparr>, snd s)"
  by (simp add: set_client_status_def pyset_index_nat)

lemma minv_set_worker:
  assumes "minv n (g, l)" "1 \<le> j" "j < n" "dict_ok robjs'" "set (dkeys robjs') \<subseteq> {1..<int n}"
    and "st = FT_OK \<longleftrightarrow> dmem (int j) robjs'" "\<And>i. i \<noteq> int j \<Longrightarrow> dmem i robjs' = dmem i (gr_client_robjs g)"
  shows "minv n (g\<lparr>gr_client_states := (gr_client_states g)[j := (gr_client_states g ! j)\<lparr>fs_status := st\<rparr>], gr_client_robjs := robjs'\<rparr>, l)"
proof -
  let ?s = "(gr_client_states g ! j)\<lparr>fs_status := st\<rparr>"
  have t: "table_ok n (gr_client_states g) (gr_client_robjs g)" and lo: "log_ok n (map fs_uuid (gr_client_states g)) l"
    using assms(1) by (simp_all add: minv_def)
  have "fs_rank ?s = int j" using t assms(2,3) by (simp add: table_ok_def)
  then have "table_ok n ((gr_client_states g)[j := ?s]) robjs'"
    using table_ok_status[OF t assms(2,3,4,5)] assms(6,7) by simp
  moreover have "log_ok n (map fs_uuid ((gr_client_states g)[j := ?s])) l"
    using lo by (subst update_uuids) simp_all
  ultimately show ?thesis using assms(1,2) by (simp add: minv_def)
qed

subsection \<open>The master's beat\<close>

lemma gather_log: "gather (en_health (log_env i oc)) ts l = (map (\<lambda>(r, u). (r, oc_health oc u)) ts, l)"
  by (induction ts) (auto simp: log_env_def)

lemma ddel_dkeys_sub: "set (dkeys (ddel k m)) = set (dkeys m) - {k}"
  by (auto simp: dict_simps)

lemma dmem_set: "dmem k m \<longleftrightarrow> k \<in> set (dkeys m)"
  by (simp add: dmem_def)

text \<open>What a step of the master leaves alone.\<close>

definition same_setup :: "ftgroup \<Rightarrow> ftgroup \<Rightarrow> bool" where
  "same_setup g g' \<longleftrightarrow> gr_cfg g' = gr_cfg g \<and> gr_dist_urls g' = gr_dist_urls g \<and> gr_retry g' = gr_retry g \<and>
     map fs_uuid (gr_client_states g') = map fs_uuid (gr_client_states g)"

text \<open>One result of the health check, for a worker that is connected.\<close>

lemma minv_drop_or_keep:
  assumes "minv n (g, l)" "dmem r (gr_client_robjs g)"
  obtains acc' g' where "drop_or_keep (log_env i oc) (r, x) acc (g, l) = (Inr acc', (g', l))" "minv n (g', l)"
    and "same_setup g g'"
    and "gr_client_robjs g' = (case x of Inl _ \<Rightarrow> ddel r (gr_client_robjs g) | Inr _ \<Rightarrow> gr_client_robjs g)"
    and "snd acc' = [] \<longleftrightarrow> snd acc = [] \<and> (\<exists>v. x = Inr v)" "fs_status (gr_state g') = fs_status (gr_state g)"
proof -
  have t: "table_ok n (gr_client_states g) (gr_client_robjs g)" using assms(1) by (simp add: minv_def)
  then have "r \<in> {1..<int n}" using assms(2) by (auto simp: table_ok_def dmem_set)
  then obtain j where j: "r = int j" "1 \<le> j" "j < n" using zero_le_imp_eq_int[of r] by auto
  have len: "j < length (gr_client_states g)" using t j by (simp add: table_ok_def)
  have d: "dict_ok (gr_client_robjs g)" "set (dkeys (gr_client_robjs g)) \<subseteq> {1..<int n}" using t by (simp_all add: table_ok_def)
  have hd: "gr_state (g\<lparr>gr_client_states := (gr_client_states g)[j := s], gr_client_robjs := rs\<rparr>) = gr_state g" for s rs
    using j(2) len by (cases "gr_client_states g"; cases j) (auto simp: gr_state_def)
  have hd1: "gr_state (g\<lparr>gr_client_states := (gr_client_states g)[j := s]\<rparr>) = gr_state g" for s
    using j(2) len by (cases "gr_client_states g"; cases j) (auto simp: gr_state_def)
  obtain u where u: "dget (gr_client_robjs g) r = Some u" using assms(2) by (auto simp: dmem_dget)
  show thesis
  proof (cases x)
    case (Inl e)
    let ?g = "g\<lparr>gr_client_states := (gr_client_states g)[j := (gr_client_states g ! j)\<lparr>fs_status := WORKER_DISCONNECTED\<rparr>],
        gr_client_robjs := ddel r (gr_client_robjs g)\<rparr>"
    have "drop_or_keep (log_env i oc) (r, x) acc (g, l) = (Inr (fst acc, dset r e (snd acc)), (?g, l))"
      using len u by (simp add: drop_or_keep_def Inl abind_def set_client_status_eq j(1) log_env_def)
    moreover have "minv n (?g, l)"
      using minv_set_worker[OF assms(1) j(2,3), of "ddel r (gr_client_robjs g)" WORKER_DISCONNECTED] d j(1)
      by (auto simp: ddel_dkeys_sub)
    ultimately show thesis using that[of "(fst acc, dset r e (snd acc))" ?g] hd Inl by (simp add: same_setup_def update_uuids)
  next
    case (Inr v)
    let ?g = "g\<lparr>gr_client_states := (gr_client_states g)[j := (gr_client_states g ! j)\<lparr>fs_status := FT_OK\<rparr>],
        gr_client_robjs := gr_client_robjs g\<rparr>"
    have "drop_or_keep (log_env i oc) (r, x) acc (g, l) = (Inr (dset r v (fst acc), snd acc), (?g, l))"
      using len by (simp add: drop_or_keep_def Inr abind_def aret_def set_client_status_eq j(1))
    moreover have "minv n (?g, l)"
      using minv_set_worker[OF assms(1) j(2,3), of "gr_client_robjs g" FT_OK] d j(1) assms(2) by auto
    ultimately show thesis using that[of "(dset r v (fst acc), snd acc)" ?g] hd1 Inr by (simp add: same_setup_def update_uuids)
  qed
qed

lemma minv_afold:
  assumes "minv n (g, l)" "distinct (map fst rs)" "\<And>r. r \<in> fst ` set rs \<Longrightarrow> dmem r (gr_client_robjs g)"
  shows "\<exists>acc' g'. afold (drop_or_keep (log_env i oc)) rs acc (g, l) = (Inr acc', (g', l)) \<and> minv n (g', l) \<and> same_setup g g' \<and>
    fs_status (gr_state g') = fs_status (gr_state g) \<and>
    (snd acc' = [] \<longrightarrow> snd acc = [] \<and> gr_client_robjs g' = gr_client_robjs g)"
  using assms
proof (induction rs arbitrary: g acc)
  case Nil
  then show ?case by (simp add: aret_def same_setup_def)
next
  case (Cons p rs)
  obtain r x where p: "p = (r, x)" by (cases p)
  obtain acc1 g1 where 1: "drop_or_keep (log_env i oc) p acc (g, l) = (Inr acc1, (g1, l))" "minv n (g1, l)"
    "same_setup g g1" "gr_client_robjs g1 = (case x of Inl _ \<Rightarrow> ddel r (gr_client_robjs g) | Inr _ \<Rightarrow> gr_client_robjs g)"
    "snd acc1 = [] \<longleftrightarrow> snd acc = [] \<and> (\<exists>v. x = Inr v)" "fs_status (gr_state g1) = fs_status (gr_state g)"
    unfolding p by (rule minv_drop_or_keep[OF Cons.prems(1), of r i oc x acc]) (use Cons.prems(3)[of r] p in auto)
  have "\<And>q. q \<in> fst ` set rs \<Longrightarrow> dmem q (gr_client_robjs g1)"
    using Cons.prems(2,3) p 1(4) by (auto split: sum.splits)
  then obtain acc' g' where 2: "afold (drop_or_keep (log_env i oc)) rs acc1 (g1, l) = (Inr acc', (g', l))" "minv n (g', l)"
    "same_setup g1 g'" "fs_status (gr_state g') = fs_status (gr_state g1)"
    "snd acc' = [] \<longrightarrow> snd acc1 = [] \<and> gr_client_robjs g' = gr_client_robjs g1"
    using Cons.IH[OF 1(2), of acc1] Cons.prems(2) by auto
  have "afold (drop_or_keep (log_env i oc)) (p # rs) acc (g, l) = (Inr acc', (g', l))"
    using 1(1) 2(1) by (simp add: abind_def)
  moreover have "same_setup g g'" using 1(3) 2(3) by (simp add: same_setup_def)
  ultimately show ?case using 2 1(4-6) by (auto split: sum.splits)
qed

lemma set_own_status_eq: "set_own_status st s = (Inr (), (upd_state (fs_status_update (\<lambda>_. st)) (fst s), snd s))"
  by (simp add: set_own_status_def gset_def)

lemma status_upd_state: "gr_client_states g \<noteq> [] \<Longrightarrow> gr_state (upd_state f g) = f (gr_state g)"
  by (cases "gr_client_states g") (simp_all add: gr_state_def upd_state_def)

lemma minv_states: "minv n (g, l) \<Longrightarrow> gr_client_states g \<noteq> []"
  by (auto simp: minv_def table_ok_def)

lemma health_round:
  assumes "minv n (g, l)"
  shows "\<exists>acc ok g'. master_call_all_client (log_env i oc) (en_health (log_env i oc)) {} True (g, l) = (Inr (acc, ok), (g', l)) \<and>
    minv n (g', l) \<and> same_setup g g' \<and> (ok \<longrightarrow> all_connected g' \<and> fs_status (gr_state g') = fs_status (gr_state g)) \<and>
    (\<not> ok \<longrightarrow> fs_status (gr_state g') = WORKER_DISCONNECTED)"
proof -
  let ?rs = "map (\<lambda>(r, u). (r, oc_health oc u)) (gr_client_robjs g)"
  let ?valid = "num_client_robj_is_valid g"
  have m: "gr_is_master g" "gr_world_size g = n" and d: "dict_ok (gr_client_robjs g)"
    using assms by (auto simp: minv_def table_ok_def)
  have f: "map fst ?rs = dkeys (gr_client_robjs g)" by (auto simp: dkeys_def)
  have "\<And>r. r \<in> fst ` set ?rs \<Longrightarrow> dmem r (gr_client_robjs g)" by (force simp: dmem_def dkeys_def)
  then obtain acc g1 where a: "afold (drop_or_keep (log_env i oc)) ?rs ([], []) (g, l) = (Inr acc, (g1, l))" "minv n (g1, l)"
    "same_setup g g1" "fs_status (gr_state g1) = fs_status (gr_state g)" "snd acc = [] \<longrightarrow> gr_client_robjs g1 = gr_client_robjs g"
    using minv_afold[OF assms, of ?rs i oc "([], [])"] d f by (auto simp: dict_ok_def)
  have valid: "?valid \<longleftrightarrow> all_connected g" using m by (simp add: num_client_robj_is_valid_def all_connected_def)
  have w: "gr_world_size g1 = n" using a(2) by (simp add: minv_def)
  have all: "filter (\<lambda>(rank, u). rank \<notin> {}) (gr_client_robjs g) = gr_client_robjs g" by (simp add: case_prod_beta)
  show ?thesis
  proof (cases "?valid \<and> snd acc = []")
    case True
    then have "master_call_all_client (log_env i oc) (en_health (log_env i oc)) {} True (g, l) = (Inr (acc, True), (g1, l))"
      using m a(1) by (simp add: master_call_all_client_def call_async_def Let_def all gather_log abind_def aret_def case_prod_beta)
    moreover have "all_connected g1" using True a(5) valid w m by (simp add: all_connected_def)
    ultimately show ?thesis using a(2-4) by auto
  next
    case False
    let ?g = "upd_state (fs_status_update (\<lambda>_. WORKER_DISCONNECTED)) g1"
    have "master_call_all_client (log_env i oc) (en_health (log_env i oc)) {} True (g, l) = (Inr (acc, False), (?g, l))"
      using m a(1) False by (auto simp: master_call_all_client_def call_async_def Let_def all gather_log abind_def aret_def
          case_prod_beta set_own_status_eq)
    moreover have "minv n (?g, l)" by (rule minv_upd_status[OF a(2)])
    moreover have "fs_status (gr_state ?g) = WORKER_DISCONNECTED" by (simp add: status_upd_state[OF minv_states[OF a(2)]])
    ultimately show ?thesis using a(3) by (auto simp: same_setup_def)
  qed
qed

lemma afor_inv:
  assumes "P s" "\<And>x s. x \<in> set xs \<Longrightarrow> P s \<Longrightarrow> P (snd (f x s))"
  shows "P (snd (afor f xs s))"
  using assms
proof (induction xs arbitrary: s)
  case (Cons x xs)
  have "P (snd (f x s))" using Cons.prems by simp
  then show ?case using Cons.IH Cons.prems(2) by (auto split: sum.splits prod.splits)
qed simp

lemma check_health_log: "check_health (log_env i oc) u s =
  ((case oc_health oc u of Inr _ \<Rightarrow> Inr True | Inl (AioRpcError c) \<Rightarrow> Inr False | Inl (OtherExc x) \<Rightarrow> Inl x), s)"
  by (auto simp: check_health_def remote_def abind_def log_env_def aret_def araise_def split: sum.split rpc_fail.split)

lemma minv_reconnect:
  assumes "minv n (g, l)" "r \<in> {1..<int n}"
  obtains g' where "snd (reconnect (log_env i oc) us r (g, l)) = (g', l)" "minv n (g', l)" "same_setup g g'"
    "gr_state g' = gr_state g"
proof -
  have t: "table_ok n (gr_client_states g) (gr_client_robjs g)" using assms(1) by (simp add: minv_def)
  obtain j where j: "r = int j" "1 \<le> j" "j < n" using assms(2) zero_le_imp_eq_int[of r] by auto
  have len: "j < length (gr_client_states g)" using t j by (simp add: table_ok_def)
  consider u where "pyindex us r = Inr u" "oc_health oc u = Inr ()" | "snd (reconnect (log_env i oc) us r (g, l)) = (g, l)"
  proof (cases "\<exists>u. pyindex us r = Inr u \<and> oc_health oc u = Inr ()")
    case False
    then have "snd (reconnect (log_env i oc) us r (g, l)) = (g, l)"
      by (auto simp: reconnect_def abind_def gread_def check_health_log aret_def araise_def split: sum.splits rpc_fail.splits)
    then show thesis using that by blast
  qed (use that in blast)
  then show thesis
  proof cases
    case (1 u)
    let ?g = "g\<lparr>gr_client_states := (gr_client_states g)[j := (gr_client_states g ! j)\<lparr>fs_status := FT_OK\<rparr>],
        gr_client_robjs := dset r u (gr_client_robjs g)\<rparr>"
    have "snd (reconnect (log_env i oc) us r (g, l)) = (?g, l)"
      using 1 len by (simp add: reconnect_def abind_def gread_def check_health_log gset_def j(1) set_client_status_eq)
    moreover have "minv n (?g, l)"
      using t j by (intro minv_set_worker[OF assms(1)]) (auto simp: table_ok_def dict_simps)
    moreover have "gr_state ?g = gr_state g"
      using j(2) len by (cases "gr_client_states g"; cases j) (auto simp: gr_state_def)
    ultimately show thesis using that[of ?g] by (simp add: same_setup_def update_uuids)
  qed (use that[of g] assms(1) in \<open>simp add: same_setup_def\<close>)
qed

lemma minv_reconnects:
  assumes "minv n (g, l)" "set rs \<subseteq> {1..<int n}"
  obtains g' where "snd (afor (reconnect (log_env i oc) us) rs (g, l)) = (g', l)" "minv n (g', l)" "same_setup g g'"
    "gr_state g' = gr_state g"
proof -
  let ?P = "\<lambda>s. snd s = l \<and> minv n s \<and> same_setup g (fst s) \<and> gr_state (fst s) = gr_state g"
  have "?P (snd (afor (reconnect (log_env i oc) us) rs (g, l)))"
  proof (rule afor_inv)
    fix x s
    assume x: "x \<in> set rs" and s: "?P s"
    obtain k where k: "s = (k, l)" using s by (cases s) auto
    obtain g' where "snd (reconnect (log_env i oc) us x (k, l)) = (g', l)" "minv n (g', l)" "same_setup k g'"
      "gr_state g' = gr_state k"
      by (rule minv_reconnect[of n k l x i oc us]) (use x s assms(2) k in auto)
    then show "?P (snd (reconnect (log_env i oc) us x s))" using s k by (simp add: same_setup_def)
  qed (use assms(1) in \<open>simp add: same_setup_def\<close>)
  then show thesis by (cases "snd (afor (reconnect (log_env i oc) us) rs (g, l))") (auto intro: that)
qed

definition retry_ok :: "ftgroup \<Rightarrow> bool" where
  "retry_ok g \<longleftrightarrow> (\<forall>k. gr_retry g = Some k \<longrightarrow> 0 \<le> k \<and> k \<le> max 0 (cf_total_retry (gr_cfg g)))"

definition only_events :: "entry list \<Rightarrow> entry list \<Rightarrow> bool" where
  "only_events l l' \<longleftrightarrow> (\<exists>evs. l' = map (Ev 0) evs @ l \<and> list_all (plain_event 0) evs)"

lemma only_events_refl [simp]: "only_events l l"
  by (simp add: only_events_def)

lemma only_events_step: "only_events l l' \<Longrightarrow> plain_event 0 ev \<Longrightarrow> only_events l (Ev 0 ev # l')"
  by (force simp: only_events_def intro: exI[of _ "ev # _"])

text \<open>What holds after a step of the master that started in \<open>(g, l)\<close> with the outcome \<open>r\<close>.\<close>

definition after_check :: "nat \<Rightarrow> ftgroup \<times> entry list \<Rightarrow> bool res \<times> ftgroup \<times> entry list \<Rightarrow> bool" where
  "after_check n s rs \<longleftrightarrow> (case rs of (r, s') \<Rightarrow> minv n s' \<and> gr_cfg (fst s') = gr_cfg (fst s) \<and>
     map fs_uuid (gr_client_states (fst s')) = map fs_uuid (gr_client_states (fst s)) \<and> only_events (snd s) (snd s') \<and>
     (r = Inr False \<longrightarrow> (retry_ok (fst s) \<longrightarrow> retry_ok (fst s')) \<and>
        (fs_status (gr_state (fst s')) = FT_OK \<longrightarrow> all_connected (fst s'))))"

lemma all_connected_upd [simp]: "all_connected (upd_state f g) = all_connected g"
  by (simp add: all_connected_def)

lemma plain_events [simp]:
  "plain_event i HEARTBEAT_OK_TO_DISCONNECT" "plain_event i HEARTBEAT_DISCONNECT_TO_OK" "plain_event i HEARTBEAT_STEP_END"
  "plain_event i HEARTBEAT_START" "plain_event i GROUP_EXIT"
  by (simp_all add: plain_event_def)

lemma after_check_ok:
  assumes "minv n (g, l)" "fs_status (gr_state g) = FT_OK"
  shows "after_check n (g, l) (master_check_workers (log_env 0 oc) (g, l))"
proof -
  obtain acc ok g' where h: "master_call_all_client (log_env 0 oc) (en_health (log_env 0 oc)) {} True (g, l) = (Inr (acc, ok), (g', l))"
    "minv n (g', l)" "same_setup g g'" "ok \<longrightarrow> all_connected g' \<and> fs_status (gr_state g') = fs_status (gr_state g)"
    "\<not> ok \<longrightarrow> fs_status (gr_state g') = WORKER_DISCONNECTED"
    using health_round[OF assms(1)] by blast
  have "minv n (g', Ev 0 HEARTBEAT_OK_TO_DISCONNECT # l)" by (rule minv_event[OF h(2)]) simp
  then show ?thesis using assms(2) h
    by (cases ok) (auto simp: after_check_def master_check_workers_def abind_def aret_def same_setup_def retry_ok_def
        intro: only_events_step)
qed

lemma after_count:
  assumes "minv n (g', l)" "same_setup g g'" "fs_status (gr_state g') \<noteq> FT_OK"
  shows "after_check n (g, l) (count_retry (g', l))"
  using assms minv_retry[OF assms(1)]
  by (auto simp: after_check_def count_retry_def retry_ok_def gr_state_def same_setup_def split: option.split)

lemma after_check_not_ok:
  assumes "minv n (g, l)" "fs_status (gr_state g) \<noteq> FT_OK"
  shows "after_check n (g, l) (master_check_workers (log_env 0 oc) (g, l))"
proof -
  let ?rec = "if has_discovery g then aret ()
      else case gr_dist_urls g of None \<Rightarrow> araise AssertionError | Some us \<Rightarrow> afor (reconnect (log_env 0 oc) us) (disconnected_ranks g)"
  have ranks: "set (disconnected_ranks g) \<subseteq> {1..<int n}" using assms(1) by (auto simp: disconnected_ranks_def minv_def)
  obtain x g' where r: "?rec (g, l) = (x, (g', l))" and g': "minv n (g', l)" "same_setup g g'" "gr_state g' = gr_state g"
  proof (cases "has_discovery g \<or> gr_dist_urls g = None")
    case True
    then show thesis using that[of "if has_discovery g then Inr () else Inl AssertionError" g] assms(1)
      by (auto simp: aret_def araise_def same_setup_def)
  next
    case False
    then obtain us where us: "gr_dist_urls g = Some us" by auto
    obtain g' where "snd (afor (reconnect (log_env 0 oc) us) (disconnected_ranks g) (g, l)) = (g', l)" "minv n (g', l)"
      "same_setup g g'" "gr_state g' = gr_state g"
      using minv_reconnects[OF assms(1) ranks] by blast
    then show thesis using that[of "fst (afor (reconnect (log_env 0 oc) us) (disconnected_ranks g) (g, l))" g'] False us
      by (simp add: prod_eq_iff)
  qed
  have ne: "gr_client_states g' \<noteq> []" using minv_states[OF g'(1)] .
  have ok: "minv n (upd_state (fs_status_update (\<lambda>_. FT_OK)) (g'\<lparr>gr_retry := Some 0\<rparr>), Ev 0 HEARTBEAT_DISCONNECT_TO_OK # l)"
    by (rule minv_event[OF minv_upd_status[OF minv_retry[OF g'(1)]]]) simp
  have eq: "master_check_workers (log_env 0 oc) (g, l) = (case x of Inl e \<Rightarrow> (Inl e, (g', l))
      | Inr _ \<Rightarrow> if \<not> all_connected g' then count_retry (g', l) else abind (back_to_ok (log_env 0 oc)) (\<lambda>_. aret False) (g', l))"
    by (simp only: master_check_workers_def assms(2) if_False fst_conv abind_def r prod.case)
  show ?thesis
  proof (cases "\<exists>u. x = Inr u \<and> \<not> all_connected g'")
    case True
    then show ?thesis unfolding eq using after_count[of n g' l g] g' assms(2) by auto
  next
    case False
    then show ?thesis unfolding eq using g' ok
      by (auto simp: after_check_def abind_def aret_def same_setup_def retry_ok_def all_connected_def
          intro: only_events_step split: sum.split)
  qed
qed

lemma after_check_master: "minv n (g, l) \<Longrightarrow> after_check n (g, l) (master_check_workers (log_env 0 oc) (g, l))"
  using after_check_ok after_check_not_ok by blast

lemma after_check_event:
  "after_check n s (r, (g, l)) \<Longrightarrow> plain_event 0 ev \<Longrightarrow> after_check n s (r, (g, Ev 0 ev # l))"
  by (auto simp: after_check_def minv_event intro: only_events_step)

lemma after_master_beat:
  assumes "minv n (g, l)"
  shows "after_check n (g, l) (heartbeat_steps (log_env 0 oc) [True] (g, l))"
proof -
  have m: "fs_is_master (gr_state g)" using assms minv_state[OF assms] by (simp add: minv_def)
  obtain r g' l' where c: "master_check_workers (log_env 0 oc) (g, l) = (r, (g', l'))"
    by (cases "master_check_workers (log_env 0 oc) (g, l)") auto
  have a: "after_check n (g, l) (r, (g', l'))" using after_check_master[OF assms, of oc] c by simp
  then have e: "after_check n (g, l) (r, (g', Ev 0 HEARTBEAT_STEP_END # l'))" by (rule after_check_event) simp
  have "en_set_shutdown (log_env 0 oc) l' = l'" by (simp add: log_env_def)
  then show ?thesis using m c a e
    by (cases r) (auto simp: abind_def aret_def Let_def heartbeat_exit_def)
qed

subsection \<open>Registration\<close>

lemma connected_mem:
  assumes "table_ok n cs robjs" "length robjs = n - 1" "1 \<le> j" "j < int n"
  shows "dmem j robjs"
proof -
  have "card (set (dkeys robjs)) = n - 1" using assms(1,2) distinct_card[of "dkeys robjs"] by (simp add: table_ok_def dict_ok_def dkeys_def)
  moreover have "card {1..<int n} = n - 1" by simp
  moreover have "set (dkeys robjs) \<subseteq> {1..<int n}" using assms(1) by (simp add: table_ok_def)
  ultimately have "set (dkeys robjs) = {1..<int n}" by (metis card_subset_eq finite_atLeastLessThan_int)
  then show ?thesis using assms(3,4) by (simp add: dmem_set)
qed

lemma all_connected_length: "0 < gr_world_size g \<Longrightarrow> all_connected g \<longleftrightarrow> length (gr_client_robjs g) = gr_world_size g - 1"
  by (auto simp: all_connected_def of_nat_diff)

lemma length_dset: "length (dset k v m) = (if dmem k m then length m else Suc (length m))"
  by (induction k v m rule: dset.induct) auto

lemma length_ddel: "dict_ok m \<Longrightarrow> length (ddel k m) = (if dmem k m then length m - 1 else length m)"
proof (induction m)
  case (Cons p m)
  obtain k' v where p: "p = (k', v)" by (cases p)
  have "dict_ok m" "k' \<notin> set (dkeys m)" using Cons.prems p by (simp_all add: dict_ok_def)
  moreover have "dmem k m \<Longrightarrow> 0 < length m" by (cases m) auto
  ultimately show ?case using Cons.IH p by (cases "k = k'") (auto simp: ddel_def dmem_def)
qed (simp add: ddel_def)

text \<open>The connections after a registration.\<close>

definition new_robjs :: "ft_state \<Rightarrow> bool \<Rightarrow> (int, string) dict \<Rightarrow> (int, string) dict" where
  "new_robjs st restarted m = (let url = url_of (fs_ip st) (fs_port st) in
     case dget m (fs_rank st) of Some u \<Rightarrow> if restarted then dset (fs_rank st) url (ddel (fs_rank st) m) else m
     | None \<Rightarrow> dset (fs_rank st) url m)"

lemma connect_worker_log:
  "connect_worker (log_env i oc) st b (g, l) = (Inr (), (g\<lparr>gr_client_robjs := new_robjs st b (gr_client_robjs g)\<rparr>, l))"
  by (auto simp: connect_worker_def new_robjs_def Let_def log_env_def split: option.split)

lemma dmem_new_robjs: "dmem i (new_robjs st b m) \<longleftrightarrow> i = fs_rank st \<or> dmem i m"
  by (auto simp: new_robjs_def Let_def dmem_dget split: option.splits)

lemma dkeys_new_robjs: "set (dkeys (new_robjs st b m)) = insert (fs_rank st) (set (dkeys m))"
  using dmem_new_robjs[of _ st b m] by (auto simp: dmem_set)

lemma dict_ok_new_robjs: "dict_ok m \<Longrightarrow> dict_ok (new_robjs st b m)"
  by (simp add: new_robjs_def Let_def split: option.split)

lemma length_new_robjs: "dict_ok m \<Longrightarrow> dmem (fs_rank st) m \<Longrightarrow> length (new_robjs st b m) = length m"
  by (cases m) (auto simp: new_robjs_def Let_def length_dset length_ddel dmem_dget split: option.split)

definition registered :: "ft_state \<Rightarrow> bool \<Rightarrow> ftgroup \<Rightarrow> ftgroup" where
  "registered st restarted g = g\<lparr>gr_client_states := (gr_client_states g)[nat (fs_rank st) := st],
     gr_client_robjs := new_robjs st restarted (gr_client_robjs g)\<rparr>"

definition all_back :: "ftgroup \<Rightarrow> ftgroup" where
  "all_back g = (if all_connected g then upd_state (fs_status_update (\<lambda>_. FT_OK)) g\<lparr>gr_retry := Some 0\<rparr> else g)"

definition noticed :: "ftgroup \<Rightarrow> ft_state \<Rightarrow> bool" where
  "noticed g st \<longleftrightarrow> client_is_restart (gr_client_states g ! nat (fs_rank st)) st \<or> master_is_restart (gr_state g) st"

lemma check_is_ok_log:
  assumes "gr_client_states g \<noteq> []"
  shows "master_state_check_is_ok (log_env i oc) (g, l) =
    (Inr (), (all_back g, if all_connected g then Ev i HEARTBEAT_DISCONNECT_TO_OK # l else l))"
  using assms set_client_status_eq[of 0 "(g, l)" FT_OK]
  by (cases "gr_client_states g")
    (simp_all add: master_state_check_is_ok_def abind_def all_back_def gset_def upd_state_def)

lemma set_worker_state_log:
  assumes "minv n (g, l)" "fs_rank st = int j" "1 \<le> j" "j < n"
  shows "set_worker_state (log_env 0 oc) st (g, l) =
    (let g' = registered st (client_is_restart (gr_client_states g ! j) st) g;
         l' = Ev 0 (MASTER_UPDATE_CLIENT_STATE st) # (if noticed g st then [Ev 0 RESTART] else []) @ l in
     (Inr (gr_state (all_back g')), (all_back g', if all_connected g' then Ev 0 HEARTBEAT_DISCONNECT_TO_OK # l' else l')))"
proof -
  have t: "table_ok n (gr_client_states g) (gr_client_robjs g)" and m: "fs_is_master (gr_state g)"
    using assms(1) minv_state[OF assms(1)] by (simp_all add: minv_def)
  have len: "j < length (gr_client_states g)" using t assms(4) by (simp add: table_ok_def)
  then have ne: "gr_client_states g \<noteq> []" by auto
  show ?thesis
    using assms(2,3) m len ne
    by (simp add: set_worker_state_def pyset_index_nat connect_worker_log check_is_ok_log noticed_def abind_def gread_def Let_def
        aret_def registered_def)
qed

text \<open>What the master knows of a worker agrees with the log.\<close>

definition linked :: "ftgroup \<Rightarrow> entry list \<Rightarrow> nat \<Rightarrow> string \<Rightarrow> bool" where
  "linked g l j u \<longleftrightarrow> rejoining (int j) l = (last_update (int j) l \<noteq> None \<and> fs_uuid (gr_client_states g ! j) \<noteq> u)"

lemma noticed_iff:
  assumes "minv n (g, l)" "fs_rank st = int j" "1 \<le> j" "j < n" "linked g l j (fs_uuid st)"
  shows "noticed g st \<longleftrightarrow> rejoining (int j) l \<or> fs_master_uuid st \<notin> {[], running_master l}"
proof -
  have len: "length (gr_client_states g) = n" "0 < n" using assms(1) by (auto simp: minv_def table_ok_def)
  have lo: "log_ok n (map fs_uuid (gr_client_states g)) l" using assms(1) by (simp add: minv_def)
  then have "fs_uuid (gr_state g) = running_master l" using len minv_state[OF assms(1)] by (simp add: log_ok_def)
  moreover have "fs_uuid (gr_client_states g ! j) \<noteq> [] \<longleftrightarrow> last_update (int j) l \<noteq> None"
    using lo assms(3,4) len by (auto simp: log_ok_def split: option.splits)
  ultimately show ?thesis using assms(2,5) by (auto simp: noticed_def client_is_restart_def master_is_restart_def linked_def)
qed

lemma minv_all_back: "minv n (g, l) \<Longrightarrow> minv n (all_back g, l)"
  using minv_retry[OF minv_upd_status] by (simp add: all_back_def)

lemma minv_registered:
  assumes "minv n (g, l)" "fs_rank st = int j" "1 \<le> j" "j < n" "fs_status st = FT_OK" "fs_uuid st \<noteq> []" "linked g l j (fs_uuid st)"
  shows "minv n (registered st b g, Ev 0 (MASTER_UPDATE_CLIENT_STATE st) # (if noticed g st then [Ev 0 RESTART] else []) @ l)"
proof -
  have t: "table_ok n (gr_client_states g) (gr_client_robjs g)" and lo: "log_ok n (map fs_uuid (gr_client_states g)) l"
    using assms(1) by (simp_all add: minv_def)
  have len: "length (gr_client_states g) = n" using t by (simp add: table_ok_def)
  let ?l = "Ev 0 (MASTER_UPDATE_CLIENT_STATE st) # (if noticed g st then [Ev 0 RESTART] else []) @ l"
  have "table_ok n ((gr_client_states g)[j := st]) (new_robjs st b (gr_client_robjs g))"
    using t assms(2-5) by (intro table_ok_status[OF t assms(3,4)])
      (auto simp: table_ok_def dict_ok_new_robjs dkeys_new_robjs dmem_new_robjs)
  moreover have "log_ok n (map fs_uuid ((gr_client_states g)[j := st])) ?l"
    unfolding log_ok_def
  proof (intro conjI allI impI)
    show "map fs_uuid ((gr_client_states g)[j := st]) ! 0 = running_master ?l"
      using lo assms(3,4) len by (auto simp: log_ok_def)
    have "restart_before l = False" "restarts_noticed l" using lo by (simp_all add: log_ok_def)
    then show "restarts_noticed ?l" using noticed_iff[OF assms(1-4,7)] assms(2)
      by (auto simp: restart_before_def)
    show "\<not> restart_before ?l" by (simp add: restart_before_def)
    fix i assume i: "1 \<le> i \<and> i < n"
    have "map fs_uuid ((gr_client_states g)[j := st]) ! i = (if i = j then fs_uuid st else map fs_uuid (gr_client_states g) ! i)"
      using i len by (simp add: nth_list_update)
    then show "case last_update (int i) ?l of None \<Rightarrow> map fs_uuid ((gr_client_states g)[j := st]) ! i = []
        | Some st' \<Rightarrow> map fs_uuid ((gr_client_states g)[j := st]) ! i = fs_uuid st' \<and> fs_uuid st' \<noteq> []"
      using lo assms(2,6) i by (cases "i = j") (auto simp: log_ok_def cong: option.case_cong)
  qed
  ultimately show ?thesis using assms(1,2,3) by (simp add: minv_def registered_def)
qed

lemma registered_connected:
  assumes "minv n (g, l)" "fs_rank st = int j" "1 \<le> j" "j < n" "all_connected g"
  shows "all_connected (registered st b g)"
proof -
  have t: "table_ok n (gr_client_states g) (gr_client_robjs g)" "gr_world_size g = n" "0 < n"
    using assms(1) by (auto simp: minv_def table_ok_def)
  then have "length (gr_client_robjs g) = n - 1" using assms(5) by (simp add: all_connected_length)
  then have "dmem (fs_rank st) (gr_client_robjs g)" using connected_mem[OF t(1)] assms(2-4) by simp
  then have "length (new_robjs st b (gr_client_robjs g)) = length (gr_client_robjs g)"
    using length_new_robjs t(1) by (simp add: table_ok_def)
  then show ?thesis using assms(5) by (simp add: all_connected_def registered_def)
qed

text \<open>The registration call as a whole.\<close>

lemma registration:
  assumes "minv n (g, l)" "fs_rank st = int j" "1 \<le> j" "j < n" "fs_status st = FT_OK" "fs_uuid st \<noteq> []" "linked g l j (fs_uuid st)"
  obtains g' d r where
    "set_worker_state (log_env 0 oc) st (g, l) = (Inr (gr_state g'), (g', d @ Ev 0 (MASTER_UPDATE_CLIENT_STATE st) # r @ l))"
    "minv n (g', d @ Ev 0 (MASTER_UPDATE_CLIENT_STATE st) # r @ l)" "d \<in> {[], [Ev 0 HEARTBEAT_DISCONNECT_TO_OK]}" "r \<in> {[], [Ev 0 RESTART]}"
    "gr_cfg g' = gr_cfg g" "retry_ok g \<longrightarrow> retry_ok g'" "all_connected g \<longrightarrow> all_connected g'"
    "fs_status (gr_state g') = FT_OK \<longrightarrow> fs_status (gr_state g) = FT_OK \<or> all_connected g'"
    "gr_client_states g' ! j = st" "dmem (int j) (gr_client_robjs g')" "fs_uuid (gr_state g') = fs_uuid (gr_state g)"
    "fs_master_uuid (gr_state g') = fs_master_uuid (gr_state g)" "all_connected g' \<longrightarrow> fs_status (gr_state g') = FT_OK"
    "\<And>i. dmem i (gr_client_robjs g) \<Longrightarrow> dmem i (gr_client_robjs g')"
    "\<And>i. i \<noteq> j \<Longrightarrow> 1 \<le> i \<Longrightarrow> i < n \<Longrightarrow> fs_uuid (gr_client_states g' ! i) = fs_uuid (gr_client_states g ! i)"
proof -
  let ?b = "client_is_restart (gr_client_states g ! j) st"
  let ?r = "if noticed g st then [Ev 0 RESTART] else []"
  let ?g1 = "registered st ?b g" and ?l1 = "Ev 0 (MASTER_UPDATE_CLIENT_STATE st) # ?r @ l"
  let ?d = "if all_connected ?g1 then [Ev 0 HEARTBEAT_DISCONNECT_TO_OK] else []"
  let ?g = "all_back ?g1"
  have len: "length (gr_client_states g) = n" using assms(1) by (auto simp: minv_def table_ok_def)
  have m1: "minv n (?g1, ?l1)" by (rule minv_registered[OF assms])
  have ne: "gr_client_states ?g1 \<noteq> []" by (rule minv_states[OF m1])
  have "minv n (?g, ?d @ ?l1)" using minv_all_back[OF m1] minv_event[OF minv_all_back[OF m1]] by simp
  moreover have "set_worker_state (log_env 0 oc) st (g, l) = (Inr (gr_state ?g), (?g, ?d @ ?l1))"
    using set_worker_state_log[OF assms(1-4), of oc] by (simp add: Let_def)
  moreover have st1: "gr_state ?g1 = gr_state g"
    using assms(3,4) len unfolding registered_def assms(2) nat_int
    by (cases "gr_client_states g"; cases j) (auto simp: gr_state_def)
  moreover have "gr_state (upd_state f ?g1\<lparr>gr_retry := x\<rparr>) = f (gr_state g)" for f x
    using status_upd_state[OF ne, of f] st1 by (simp add: gr_state_def)
  moreover have "gr_client_states ?g ! i = gr_client_states ?g1 ! i" if "1 \<le> i" "i < n" for i
    using that upd_state_nth[of i ?g1] len by (simp add: all_back_def registered_def)
  moreover have "all_connected ?g = all_connected ?g1" by (simp add: all_back_def all_connected_def)
  ultimately show thesis
    using registered_connected[OF assms(1-4), of ?b] assms(2,3,4) len
    by (intro that[of ?g ?d ?r]) (auto simp: all_back_def retry_ok_def registered_def dmem_new_robjs nth_list_update)
qed

subsection \<open>The worker's beat\<close>

definition worker_ok :: "nat \<Rightarrow> ftgroup \<Rightarrow> bool" where
  "worker_ok j g \<longleftrightarrow> gr_client_states g \<noteq> [] \<and> fs_rank (gr_state g) = int j \<and> \<not> fs_is_master (gr_state g) \<and> fs_uuid (gr_state g) \<noteq> []"

text \<open>The master and the log as a call of the worker, if there was one, left them.\<close>

definition called :: "ftgroup \<Rightarrow> ftgroup \<times> entry list \<Rightarrow> ftgroup \<times> entry list \<Rightarrow> bool" where
  "called g w w' \<longleftrightarrow> w' = w \<or> fs_status (gr_state g) = FT_OK \<and> (\<exists>oc. w' = snd (set_worker_state (log_env 0 oc) (gr_state g) w))"

definition worker_step :: "nat \<Rightarrow> ftgroup \<times> ftgroup \<times> entry list \<Rightarrow> ftgroup \<times> ftgroup \<times> entry list \<Rightarrow> bool" where
  "worker_step j s s' \<longleftrightarrow> worker_ok j (fst s') \<and> fs_uuid (gr_state (fst s')) = fs_uuid (gr_state (fst s)) \<and>
     gr_cfg (fst s') = gr_cfg (fst s) \<and> gr_dist_urls (fst s') = gr_dist_urls (fst s) \<and>
     (\<exists>evs w. snd s' = (fst w, map (Ev (int j)) evs @ snd w) \<and> called (fst s) (snd s) w \<and>
        (fs_master_uuid (gr_state (fst s')) = fs_master_uuid (gr_state (fst s)) \<or>
         fs_master_uuid (gr_state (fst s)) = [] \<or> RESTART \<in> set evs))"

lemma worker_step_refl: "worker_ok j g \<Longrightarrow> worker_step j (g, (m, l)) (g, (m, l))"
  by (auto simp: worker_step_def called_def intro: exI[of _ "[]"])

lemma worker_step_event:
  assumes "worker_step j s (g, (m, l))"
  shows "worker_step j s (g, (m, Ev (int j) ev # l))"
proof -
  obtain evs w where "(m, l) = (fst w, map (Ev (int j)) evs @ snd w)" "called (fst s) (snd s) w"
    "fs_master_uuid (gr_state g) = fs_master_uuid (gr_state (fst s)) \<or> fs_master_uuid (gr_state (fst s)) = [] \<or> RESTART \<in> set evs"
    using assms by (auto simp: worker_step_def)
  then show ?thesis using assms unfolding worker_step_def
    by (intro conjI exI[of _ "ev # evs"] exI[of _ w]) auto
qed

text \<open>Changes of the worker that keep who it is.\<close>

lemma worker_step_update:
  assumes "worker_step j s (g, w)" "gr_cfg g' = gr_cfg g" "gr_dist_urls g' = gr_dist_urls g" "gr_client_states g' \<noteq> []"
    and "fs_rank (gr_state g') = fs_rank (gr_state g)" "fs_is_master (gr_state g') = fs_is_master (gr_state g)"
    and "fs_uuid (gr_state g') = fs_uuid (gr_state g)" "fs_master_uuid (gr_state g') = fs_master_uuid (gr_state g)"
  shows "worker_step j s (g', w)"
  using assms by (auto simp: worker_step_def worker_ok_def)

lemma gr_state_robj [simp]: "gr_state (g\<lparr>gr_master_robj := x\<rparr>) = gr_state g" "gr_state (g\<lparr>gr_retry := y\<rparr>) = gr_state g"
  by (simp_all add: gr_state_def)

lemma worker_step_status:
  assumes "worker_step j s (g, w)"
  shows "worker_step j s (upd_state (fs_status_update f) (g\<lparr>gr_master_robj := y, gr_retry := x\<rparr>), w)"
proof -
  have ne: "gr_client_states (g\<lparr>gr_master_robj := y, gr_retry := x\<rparr>) \<noteq> []" using assms by (simp add: worker_step_def worker_ok_def)
  have "gr_client_states (upd_state (fs_status_update f) (g\<lparr>gr_master_robj := y, gr_retry := x\<rparr>)) \<noteq> []"
    using ne by (simp add: upd_state_def split: list.split)
  then show ?thesis by (intro worker_step_update[OF assms]) (simp_all add: status_upd_state[OF ne])
qed

lemma query_world: "\<exists>q. query_master_robj (worker_env j oc) s = (q, s)"
proof -
  have h: "\<exists>q. healthy_or_none (worker_env j oc) u s = (q, s)" for u
    by (auto simp: healthy_or_none_def check_health_def remote_def abind_def aret_def araise_def worker_env_def
        split: sum.split rpc_fail.split)
  show ?thesis
    using h by (auto simp: query_master_robj_def Let_def abind_def on_world_def aret_def worker_env_def
        split: sum.split option.split list.split)
qed

text \<open>The call itself: what comes back, and the world after it.\<close>

lemma call_world:
  assumes "fs_status (gr_state g) = FT_OK"
  shows "called g w (snd (en_set_state (worker_env j oc) u (gr_state g) w))"
proof (cases "oc_call oc")
  case Delivered
  obtain r w' where h: "set_worker_state (log_env 0 oc) (gr_state g) w = (r, w')"
    by (cases "set_worker_state (log_env 0 oc) (gr_state g) w")
  have "called g w w'" unfolding called_def using h assms by (metis snd_conv)
  then show ?thesis using h Delivered by (cases r) (simp_all add: worker_env_def)
next
  case (RequestLost f)
  then show ?thesis by (simp add: worker_env_def called_def)
next
  case (ReplyLost f)
  then show ?thesis using assms by (auto simp: worker_env_def called_def)
qed

lemma client_set_step:
  assumes "worker_ok j g" "gr_master_robj g = Some u" "fs_status (gr_state g) = FT_OK"
  shows "\<exists>g' w'. client_set_worker_state (worker_env (int j) oc) True (g, w) = (Inr (), (g', w')) \<and>
    worker_step j (g, w) (g', w') \<and> gr_retry g' = gr_retry g"
proof -
  have ne: "gr_client_states g \<noteq> []" using assms(1) by (simp add: worker_ok_def)
  obtain r w1 where c: "en_set_state (worker_env (int j) oc) u (gr_state g) w = (r, w1)"
    by (cases "en_set_state (worker_env (int j) oc) u (gr_state g) w")
  have cd: "called g w w1" using call_world[OF assms(3), of w "int j" oc u] c by simp
  show ?thesis
  proof (cases r)
    case (Inl f)
    let ?g = "upd_state (fs_status_update (\<lambda>_. MASTER_DISCONNECTED)) (g\<lparr>gr_master_robj := None\<rparr>)"
    have "client_set_worker_state (worker_env (int j) oc) True (g, w) =
        (Inr (), (?g, (fst w1, Ev (int j) HEARTBEAT_OK_TO_DISCONNECT # snd w1)))"
      using assms(2) c Inl by (simp add: client_set_worker_state_def remote_def abind_def araise_def gset_def)
    moreover have "worker_step j (g, w) (g, w1)"
      unfolding worker_step_def by (intro conjI exI[of _ "[]"] exI[of _ w1]) (use assms(1) cd in auto)
    then have "worker_step j (g, w) (?g, w1)"
      using worker_step_status[of j "(g, w)" g w1, where x = "gr_retry g" and y = None] by simp
    then have "worker_step j (g, w) (?g, (fst w1, Ev (int j) HEARTBEAT_OK_TO_DISCONNECT # snd w1))"
      by (intro worker_step_event) simp
    ultimately show ?thesis by auto
  next
    case (Inr m)
    let ?b = "fs_master_uuid (gr_state g) \<noteq> [] \<and> fs_master_uuid (gr_state g) \<noteq> fs_master_uuid m"
    let ?f = "\<lambda>st. st\<lparr>fs_master_uuid := fs_master_uuid m, fs_master_ip := fs_master_ip m\<rparr>"
    let ?evs = "if ?b then [RESTART] else []"
    have st: "gr_state (upd_state ?f g) = ?f (gr_state g)" by (rule status_upd_state[OF ne])
    have "client_set_worker_state (worker_env (int j) oc) True (g, w) =
        (Inr (), (upd_state ?f g, (fst w1, map (Ev (int j)) ?evs @ snd w1)))"
      using assms(2) c Inr by (simp add: client_set_worker_state_def remote_def abind_def gset_def)
    moreover have "worker_step j (g, w) (upd_state ?f g, (fst w1, map (Ev (int j)) ?evs @ snd w1))"
      unfolding worker_step_def
    proof (intro conjI exI[of _ ?evs] exI[of _ w1])
      show "worker_ok j (fst (upd_state ?f g, (fst w1, map (Ev (int j)) ?evs @ snd w1)))"
        using assms(1) st by (simp add: worker_ok_def upd_state_def split: list.split)
    qed (use st cd in auto)
    ultimately show ?thesis by auto
  qed
qed

lemma worker_step_start: "worker_ok j g \<Longrightarrow> worker_step j (g, w) (g, w)"
  by (cases w) (simp add: worker_step_refl)

lemma count_retry_step:
  assumes "worker_ok j g" "count_retry (g, w) = (r, (g', w'))"
  shows "worker_step j (g, w) (g', w')" "r = Inr False \<Longrightarrow> retry_ok g \<Longrightarrow> retry_ok g'"
proof -
  have "worker_step j (g, w) (g\<lparr>gr_retry := x\<rparr>, w)" for x
    by (rule worker_step_update[OF worker_step_start[OF assms(1)]]) (use assms(1) in \<open>simp_all add: worker_ok_def\<close>)
  moreover have "worker_step j (g, w) (g, w)" by (rule worker_step_start[OF assms(1)])
  ultimately show "worker_step j (g, w) (g', w')" using assms(2) by (auto simp: count_retry_def split: option.splits)
  show "r = Inr False \<Longrightarrow> retry_ok g \<Longrightarrow> retry_ok g'"
    using assms(2) by (auto simp: count_retry_def retry_ok_def split: option.splits)
qed

lemma client_check_step:
  assumes "worker_ok j g" "client_check_master (worker_env (int j) oc) (g, w) = (r, (g', w'))"
  shows "worker_step j (g, w) (g', w') \<and> (r = Inr False \<longrightarrow> retry_ok g \<longrightarrow> retry_ok g')"
proof -
  obtain q where q: "query_master_robj (worker_env (int j) oc) (g, w) = (q, (g, w))" using query_world by blast
  have ne: "gr_client_states g \<noteq> []" using assms(1) by (simp add: worker_ok_def)
  have keep: "worker_ok j (g\<lparr>gr_master_robj := x\<rparr>)" for x using assms(1) by (simp add: worker_ok_def)
  have same: "gr_master_robj_update (\<lambda>_. x) g = g\<lparr>gr_master_robj := x\<rparr>" for x by simp
  have lift: "worker_step j (g\<lparr>gr_master_robj := x\<rparr>, w) s \<Longrightarrow> worker_step j (g, w) s" for x s
    by (simp add: worker_step_def called_def)
  have st: "worker_step j (g, w) (upd_state (fs_status_update f) (g\<lparr>gr_master_robj := y, gr_retry := x\<rparr>), w)" for f x y
    by (rule worker_step_status[OF worker_step_start[OF assms(1)]])
  show ?thesis
  proof (cases "fs_status (gr_state g) = FT_OK")
    case True
    have set: "\<exists>g' w'. abind (client_set_worker_state (worker_env (int j) oc) True) (\<lambda>_. aret False) (k, w) = (Inr False, (g', w')) \<and>
        worker_step j (g, w) (g', w') \<and> gr_retry g' = gr_retry g" if k: "k = g\<lparr>gr_master_robj := Some u\<rparr>" for k u
    proof -
      have "worker_ok j k" "gr_master_robj k = Some u" "fs_status (gr_state k) = FT_OK" "gr_retry k = gr_retry g"
        using k keep True by simp_all
      from client_set_step[OF this(1-3), of oc w] this(4) k lift show ?thesis by (fastforce simp: abind_def aret_def)
    qed
    show ?thesis
    proof (cases "gr_master_robj g")
      case (Some u)
      then have "g = g\<lparr>gr_master_robj := Some u\<rparr>" by simp
      from set[OF this] assms(2) True Some show ?thesis
        by (auto simp: client_check_master_def retry_ok_def worker_step_def)
    next
      case None
      show ?thesis
      proof (cases q)
        case (Inl e)
        then show ?thesis using assms q True None worker_step_start by (auto simp: client_check_master_def abind_def)
      next
        case (Inr v)
        show ?thesis
        proof (cases v)
          case None
          have "worker_step j (g, w) (upd_state (fs_status_update (\<lambda>_. MASTER_DISCONNECTED)) g, w)"
            using st[where f = "\<lambda>_. MASTER_DISCONNECTED" and x = "gr_retry g" and y = "gr_master_robj g"] by simp
          then have "worker_step j (g, w) (upd_state (fs_status_update (\<lambda>_. MASTER_DISCONNECTED)) g, (fst w, Ev (int j) HEARTBEAT_OK_TO_DISCONNECT # snd w))"
            by (intro worker_step_event) simp
          then show ?thesis using assms(2) q True \<open>gr_master_robj g = None\<close> None Inr
            by (auto simp: client_check_master_def abind_def aret_def set_own_status_eq retry_ok_def)
        next
          case (Some u)
          from set[OF refl, of u] assms(2) q True \<open>gr_master_robj g = None\<close> Some Inr show ?thesis
            by (auto simp: client_check_master_def abind_def gset_def retry_ok_def worker_step_def)
        qed
      qed
    qed
  next
    case False
    show ?thesis
    proof (cases q)
      case (Inl e)
      then show ?thesis using assms q False worker_step_start by (auto simp: client_check_master_def abind_def)
    next
      case (Inr v)
      show ?thesis
      proof (cases v)
        case None
        then have "count_retry (g, w) = (r, (g', w'))" using assms(2) q False Inr by (simp add: client_check_master_def abind_def)
        then show ?thesis using count_retry_step[OF assms(1)] by blast
      next
        case (Some u)
        have "worker_step j (g, w) (upd_state (fs_status_update (\<lambda>_. FT_OK)) (g\<lparr>gr_master_robj := Some u, gr_retry := Some 0\<rparr>),
            (fst w, Ev (int j) HEARTBEAT_DISCONNECT_TO_OK # snd w))"
          by (rule worker_step_event) (use st in simp)
        then show ?thesis using assms(2) q False Inr Some
          by (auto simp: client_check_master_def abind_def aret_def gset_def retry_ok_def)
      qed
    qed
  qed
qed

lemma worker_beat_step:
  assumes "worker_ok j g" "heartbeat_steps (worker_env (int j) oc) [True] (g, w) = (r, (g', w'))"
  shows "worker_step j (g, w) (g', w') \<and> (r = Inr False \<longrightarrow> retry_ok g \<longrightarrow> retry_ok g')"
proof -
  have m: "\<not> fs_is_master (gr_state g)" using assms(1) by (simp add: worker_ok_def)
  obtain x g1 w1 where c: "client_check_master (worker_env (int j) oc) (g, w) = (x, (g1, w1))"
    by (cases "client_check_master (worker_env (int j) oc) (g, w)") auto
  have step: "worker_step j (g, w) (g1, w1)" "x = Inr False \<longrightarrow> retry_ok g \<longrightarrow> retry_ok g1"
    using client_check_step[OF assms(1) c] by auto
  then have "worker_step j (g, w) (g1, (fst w1, Ev (int j) ev # snd w1))" for ev by (intro worker_step_event) simp
  then show ?thesis using assms(2) c step m
    by (cases x) (auto simp: abind_def aret_def Let_def heartbeat_exit_def split: if_splits)
qed

subsection \<open>The whole group\<close>

text \<open>The running master has completed a heartbeat.\<close>

fun beaten :: "entry list \<Rightarrow> bool" where
  "beaten [] = False"
| "beaten (Boot i u # l) = (if i = 0 then False else beaten l)"
| "beaten (Ev i ev # l) = (if i = 0 \<and> ev = HEARTBEAT_STEP_END then True else beaten l)"

definition master_good :: "group_sys \<Rightarrow> bool" where
  "master_good s \<longleftrightarrow> 0 \<notin> sy_stopped s \<longrightarrow> retry_ok (sy_master s) \<and>
     (beaten (sy_log s) \<longrightarrow> fs_status (gr_state (sy_master s)) = FT_OK \<longrightarrow> all_connected (sy_master s))"

definition worker_good :: "group_sys \<Rightarrow> nat \<Rightarrow> bool" where
  "worker_good s j \<longleftrightarrow> (let g = sy_workers s (int j); l = sy_log s; u = fs_uuid (gr_client_states (sy_master s) ! j) in
     worker_ok j g \<and> linked (sy_master s) l j (fs_uuid (gr_state g)) \<and> fs_uuid (gr_state g) \<in> used_uuids l \<and>
     u \<in> insert [] (used_uuids l) \<and> (int j \<notin> sy_stopped s \<longrightarrow> retry_ok g))"

definition sys_inv :: "nat \<Rightarrow> group_sys \<Rightarrow> bool" where
  "sys_inv n s \<longleftrightarrow> minv n (sy_master s, sy_log s) \<and> master_good s \<and> (\<forall>j. 1 \<le> j \<longrightarrow> j < n \<longrightarrow> worker_good s j)"

lemma plain_log [simp]:
  assumes "plain_event i ev"
  shows "last_update j (Ev i ev # l) = last_update j l" "rejoining j (Ev i ev # l) = rejoining j l"
  using assms by (cases ev; simp add: plain_event_def)+

lemma events_log:
  assumes "list_all (plain_event i) evs"
  shows "last_update j (map (Ev i) evs @ l) = last_update j l" "rejoining j (map (Ev i) evs @ l) = rejoining j l"
    "used_uuids (map (Ev i) evs @ l) = used_uuids l"
proof -
  show "last_update j (map (Ev i) evs @ l) = last_update j l" "rejoining j (map (Ev i) evs @ l) = rejoining j l"
    using assms by (induction evs) (simp_all del: last_update.simps rejoining.simps)
  show "used_uuids (map (Ev i) evs @ l) = used_uuids l" by (auto simp: used_uuids_def)
qed

lemma minv_events: "minv n (g, l) \<Longrightarrow> list_all (plain_event i) evs \<Longrightarrow> minv n (g, map (Ev i) evs @ l)"
  by (induction evs) (simp_all add: minv_event)

lemma worker_plain: "i \<noteq> 0 \<Longrightarrow> list_all (plain_event i) evs"
  by (induction evs) (simp_all add: plain_event_def)

lemma worker_events_beaten: "i \<noteq> 0 \<Longrightarrow> beaten (map (Ev i) evs @ l) = beaten l"
  by (induction evs) simp_all

lemma linked_events: "list_all (plain_event i) evs \<Longrightarrow> linked g (map (Ev i) evs @ l) j u = linked g l j u"
  by (simp add: linked_def events_log)

lemma sys_inv_master_beat:
  assumes "sys_inv n s" "0 \<notin> sy_stopped s"
    and "heartbeat_steps (log_env 0 oc) [True] (sy_master s, sy_log s) = (r, (m, l))"
  shows "sys_inv n (s\<lparr>sy_master := m, sy_log := l, sy_stopped := after_beat 0 r (sy_stopped s)\<rparr>)"
proof -
  have a: "minv n (m, l)" "gr_cfg m = gr_cfg (sy_master s)" "only_events (sy_log s) l"
    "r = Inr False \<longrightarrow> (retry_ok (sy_master s) \<longrightarrow> retry_ok m) \<and> (fs_status (gr_state m) = FT_OK \<longrightarrow> all_connected m)"
    using after_master_beat[of n "sy_master s" "sy_log s" oc] assms(1,3) by (simp_all add: sys_inv_def after_check_def)
  obtain evs where l: "l = map (Ev 0) evs @ sy_log s" "list_all (plain_event 0) evs" using a(3) by (auto simp: only_events_def)
  have len: "length (gr_client_states m) = n" "length (gr_client_states (sy_master s)) = n"
    using a(1) assms(1) by (auto simp: minv_def table_ok_def sys_inv_def)
  have "map fs_uuid (gr_client_states m) = map fs_uuid (gr_client_states (sy_master s))"
    using after_master_beat[of n "sy_master s" "sy_log s" oc] assms(1,3) by (simp add: sys_inv_def after_check_def)
  then have uuids: "fs_uuid (gr_client_states m ! j) = fs_uuid (gr_client_states (sy_master s) ! j)" if "j < n" for j
    using that len by (metis nth_map)
  let ?s = "s\<lparr>sy_master := m, sy_log := l, sy_stopped := after_beat 0 r (sy_stopped s)\<rparr>"
  have "master_good ?s" using a(4) assms(1,2) by (auto simp: master_good_def sys_inv_def after_beat_def)
  moreover have "worker_good ?s j" if "1 \<le> j" "j < n" for j
  proof -
    have "worker_good s j" using assms(1) that by (simp add: sys_inv_def)
    then show ?thesis using l that uuids
      by (auto simp: worker_good_def Let_def linked_def events_log after_beat_def)
  qed
  ultimately show ?thesis using a(1) by (simp add: sys_inv_def)
qed

text \<open>Registration keeps everything the workers rely on.\<close>

lemma uuids_registration: "used_uuids (d @ Ev 0 ev # r @ l) = used_uuids l"
  if "d \<in> {[], [Ev 0 HEARTBEAT_DISCONNECT_TO_OK]}" "r \<in> {[], [Ev 0 RESTART]}"
  using that by (auto simp: used_uuids_def)

lemma sys_inv_called:
  assumes "sys_inv n s" "1 \<le> j" "j < n" "called (sy_workers s (int j)) (sy_master s, sy_log s) w"
  shows "sys_inv n (s\<lparr>sy_master := fst w, sy_log := snd w\<rparr>)"
proof -
  let ?g = "sy_workers s (int j)"
  have wj: "worker_good s j" using assms(1-3) by (simp add: sys_inv_def)
  show ?thesis
  proof (cases "w = (sy_master s, sy_log s)")
    case True
    then show ?thesis using assms(1) by simp
  next
    case False
    then obtain oc where ok: "fs_status (gr_state ?g) = FT_OK" and w: "w = snd (set_worker_state (log_env 0 oc) (gr_state ?g) (sy_master s, sy_log s))"
      using assms(4) by (auto simp: called_def)
    have pre: "minv n (sy_master s, sy_log s)" "fs_rank (gr_state ?g) = int j" "fs_uuid (gr_state ?g) \<noteq> []"
      "linked (sy_master s) (sy_log s) j (fs_uuid (gr_state ?g))"
      using assms(1) wj by (auto simp: sys_inv_def worker_good_def worker_ok_def Let_def)
    obtain m d r where reg:
      "set_worker_state (log_env 0 oc) (gr_state ?g) (sy_master s, sy_log s) =
         (Inr (gr_state m), (m, d @ Ev 0 (MASTER_UPDATE_CLIENT_STATE (gr_state ?g)) # r @ sy_log s))"
      "minv n (m, d @ Ev 0 (MASTER_UPDATE_CLIENT_STATE (gr_state ?g)) # r @ sy_log s)"
      and dr: "d \<in> {[], [Ev 0 HEARTBEAT_DISCONNECT_TO_OK]}" "r \<in> {[], [Ev 0 RESTART]}"
      and m: "gr_cfg m = gr_cfg (sy_master s)" "retry_ok (sy_master s) \<longrightarrow> retry_ok m" "all_connected (sy_master s) \<longrightarrow> all_connected m"
        "fs_status (gr_state m) = FT_OK \<longrightarrow> fs_status (gr_state (sy_master s)) = FT_OK \<or> all_connected m"
        "gr_client_states m ! j = gr_state ?g" "dmem (int j) (gr_client_robjs m)"
        "fs_uuid (gr_state m) = fs_uuid (gr_state (sy_master s))"
      and others: "\<And>i. i \<noteq> j \<Longrightarrow> 1 \<le> i \<Longrightarrow> i < n \<Longrightarrow> fs_uuid (gr_client_states m ! i) = fs_uuid (gr_client_states (sy_master s) ! i)"
      by (rule registration[OF pre(1,2) assms(2,3) ok pre(3,4), of oc]) blast
    let ?l = "d @ Ev 0 (MASTER_UPDATE_CLIENT_STATE (gr_state ?g)) # r @ sy_log s"
    have w': "w = (m, ?l)" using w reg(1) by simp
    have b: "beaten ?l = beaten (sy_log s)" and lu: "last_update i ?l = (if i = int j then Some (gr_state ?g) else last_update i (sy_log s))"
      and rj: "rejoining i ?l = (if i = int j then False else rejoining i (sy_log s))" for i
      using dr pre(2) by auto
    have "master_good (s\<lparr>sy_master := m, sy_log := ?l\<rparr>)"
      using assms(1) m b by (auto simp: sys_inv_def master_good_def)
    moreover have "worker_good (s\<lparr>sy_master := m, sy_log := ?l\<rparr>) i" if i: "1 \<le> i" "i < n" for i
    proof -
      have "worker_good s i" using assms(1) i by (simp add: sys_inv_def)
      then show ?thesis using lu rj m(5) others[OF _ i] wj uuids_registration[OF dr]
        by (cases "i = j") (auto simp: worker_good_def Let_def linked_def)
    qed
    ultimately show ?thesis using reg(2) w' by (simp add: sys_inv_def)
  qed
qed

lemma sys_inv_worker_beat:
  assumes "sys_inv n s" "1 \<le> j" "j < n" "int j \<notin> sy_stopped s"
    and "heartbeat_steps (worker_env (int j) oc) [True] (sy_workers s (int j), (sy_master s, sy_log s)) = (r, (g, (m, l)))"
  shows "sys_inv n (s\<lparr>sy_workers := (sy_workers s)(int j := g), sy_master := m, sy_log := l,
    sy_stopped := after_beat (int j) r (sy_stopped s)\<rparr>)"
proof -
  have wj: "worker_good s j" using assms(1-3) by (simp add: sys_inv_def)
  then have step: "worker_step j (sy_workers s (int j), (sy_master s, sy_log s)) (g, (m, l))"
    and retry: "r = Inr False \<longrightarrow> retry_ok (sy_workers s (int j)) \<longrightarrow> retry_ok g"
    using worker_beat_step[OF _ assms(5)] by (auto simp: worker_good_def Let_def)
  obtain evs w where w: "(m, l) = (fst w, map (Ev (int j)) evs @ snd w)" "called (sy_workers s (int j)) (sy_master s, sy_log s) w"
    using step by (auto simp: worker_step_def)
  let ?t = "s\<lparr>sy_master := fst w, sy_log := snd w\<rparr>"
  let ?s = "s\<lparr>sy_workers := (sy_workers s)(int j := g), sy_master := m, sy_log := l,
    sy_stopped := after_beat (int j) r (sy_stopped s)\<rparr>"
  have t: "sys_inv n ?t" by (rule sys_inv_called[OF assms(1-3) w(2)])
  have pl: "list_all (plain_event (int j)) evs" using assms(2) by (intro worker_plain) simp
  have "minv n (m, l)" using minv_events[OF _ pl, of n "fst w" "snd w"] t w(1) by (simp add: sys_inv_def)
  moreover have "master_good ?s"
    using t w(1) assms(2) by (auto simp: sys_inv_def master_good_def worker_events_beaten after_beat_def)
  moreover have "worker_good ?s i" if i: "1 \<le> i" "i < n" for i
  proof -
    have "worker_good ?t i" using t i by (simp add: sys_inv_def)
    then show ?thesis using w(1) pl step retry assms(4)
      by (cases "i = j") (auto simp: worker_good_def Let_def linked_events events_log worker_step_def after_beat_def)
  qed
  ultimately show ?thesis by (simp add: sys_inv_def)
qed

lemma made:
  assumes "maker n addr urls cfg j u = Inr g"
  shows "0 < n" "gr_client_states g = own_state j u (fst (addr j)) (snd (addr j)) # map (absent_state \<circ> int) [1..<n]"
    "gr_world_size g = n" "gr_client_ranks g = map int [1..<n]" "gr_client_robjs g = []" "gr_retry g = None" "gr_cfg g = cfg"
    "gr_is_master g = (j = 0)" "gr_master_robj g = None" "gr_dist_urls g = urls"
  using assms by (auto simp: maker_def make_group_def Let_def res_simps split: if_splits)

lemma made_state: "maker n addr urls cfg j u = Inr g \<Longrightarrow> gr_state g = own_state j u (fst (addr j)) (snd (addr j))"
  by (simp add: gr_state_def made)

lemma worker_ok_made: "maker n addr urls cfg (int j) u = Inr g \<Longrightarrow> 1 \<le> j \<Longrightarrow> u \<noteq> [] \<Longrightarrow> worker_ok j g"
  by (simp add: worker_ok_def made made_state) (simp add: own_state_def)

lemma minv_made:
  assumes "maker n addr urls cfg 0 u = Inr g" "running_master l = u" "restarts_noticed l" "\<not> restart_before l"
    and "\<And>j. 1 \<le> j \<Longrightarrow> j < n \<Longrightarrow> last_update (int j) l = None"
  shows "minv n (g, l)"
proof -
  have len: "length (gr_client_states g) = n" using made[OF assms(1)] by simp
  have nth: "gr_client_states g ! j = absent_state (int j)" if "1 \<le> j" "j < n" for j
    using that made(2)[OF assms(1)] by (cases j) (simp_all add: o_def)
  have "table_ok n (gr_client_states g) []"
    using made(1)[OF assms(1)] len nth by (auto simp: table_ok_def absent_state_def)
  moreover have "log_ok n (map fs_uuid (gr_client_states g)) l"
    using assms(2-5) len nth made(2)[OF assms(1)] by (auto simp: log_ok_def own_state_def absent_state_def)
  ultimately show ?thesis using made[OF assms(1)] by (simp add: minv_def own_state_def)
qed

lemma sys_inv_worker_restart:
  assumes "sys_inv n s" "1 \<le> j" "j < n" "u \<noteq> []" "u \<notin> used_uuids (sy_log s)" "maker n addr urls cfg (int j) u = Inr g"
  shows "sys_inv n (s\<lparr>sy_workers := (sy_workers s)(int j := g), sy_log := Boot (int j) u # sy_log s,
    sy_stopped := sy_stopped s - {int j}\<rparr>)"
proof -
  let ?l = "Boot (int j) u # sy_log s"
  let ?s = "s\<lparr>sy_workers := (sy_workers s)(int j := g), sy_log := ?l, sy_stopped := sy_stopped s - {int j}\<rparr>"
  have used: "used_uuids ?l = insert u (used_uuids (sy_log s))" by (auto simp: used_uuids_def)
  have "minv n (sy_master s, ?l)" using assms(1,2) by (auto simp: sys_inv_def minv_def log_ok_def restart_before_def)
  moreover have "master_good ?s" using assms(1,2) by (auto simp: sys_inv_def master_good_def)
  moreover have "worker_good ?s i" if i: "1 \<le> i" "i < n" for i
  proof (cases "i = j")
    case True
    have "fs_uuid (gr_client_states (sy_master s) ! j) \<noteq> u" "fs_uuid (gr_client_states (sy_master s) ! j) \<in> insert [] (used_uuids (sy_log s))"
      using assms(1-5) by (auto simp: sys_inv_def worker_good_def Let_def)
    moreover have "fs_uuid (gr_state g) = u" using made_state[OF assms(6)] by (simp add: own_state_def)
    ultimately show ?thesis
      using True used assms(2) worker_ok_made[OF assms(6,2,4)] made(6)[OF assms(6)]
      by (auto simp: worker_good_def Let_def linked_def retry_ok_def)
  next
    case False
    have "worker_good s i" using assms(1) i by (simp add: sys_inv_def)
    then show ?thesis using False used assms(2) by (auto simp: worker_good_def Let_def linked_def)
  qed
  ultimately show ?thesis by (simp add: sys_inv_def)
qed

lemma sys_inv_master_restart:
  assumes "sys_inv n s" "u \<noteq> []" "maker n addr urls cfg 0 u = Inr m"
  shows "sys_inv n (s\<lparr>sy_master := m, sy_log := Boot 0 u # sy_log s, sy_stopped := sy_stopped s - {0}\<rparr>)"
proof -
  let ?l = "Boot 0 u # sy_log s"
  let ?s = "s\<lparr>sy_master := m, sy_log := ?l, sy_stopped := sy_stopped s - {0}\<rparr>"
  have used: "used_uuids ?l = insert u (used_uuids (sy_log s))" by (auto simp: used_uuids_def)
  have "minv n (m, ?l)"
    using assms(1) by (intro minv_made[OF assms(3)]) (auto simp: sys_inv_def minv_def log_ok_def restart_before_def)
  moreover have "master_good ?s" using made(6)[OF assms(3)] by (simp add: master_good_def retry_ok_def)
  moreover have "worker_good ?s i" if i: "1 \<le> i" "i < n" for i
  proof -
    have "gr_client_states m ! i = absent_state (int i)" using i made(2)[OF assms(3)] by (cases i) (simp_all add: o_def)
    moreover have "worker_good s i" using assms(1) i by (simp add: sys_inv_def)
    ultimately show ?thesis using used i by (auto simp: worker_good_def Let_def linked_def absent_state_def)
  qed
  ultimately show ?thesis by (simp add: sys_inv_def)
qed

lemma boots_log:
  assumes "l = map (\<lambda>j. Boot (int j) (us (int j))) js" "0 < length js"
  shows "last_update j l = None" "rejoining j l = False" "restarts_noticed l" "\<not> restart_before l" "beaten l = False"
proof -
  show "last_update j l = None" unfolding assms(1) by (induction js) simp_all
  moreover show "rejoining j l = False" unfolding assms(1)
  proof (induction js)
    case (Cons i js)
    have "last_update j (map (\<lambda>j. Boot (int j) (us (int j))) js) = None" by (induction js) simp_all
    then show ?case using Cons by simp
  qed simp
  moreover show "restarts_noticed l" "beaten l = False" unfolding assms(1) by (induction js) simp_all
  ultimately show "\<not> restart_before l" using assms by (cases js) (auto simp: restart_before_def)
qed

lemma sys_inv_start:
  assumes "sys_start (maker n addr urls cfg) n us s"
  shows "sys_inv n s"
proof -
  have m: "maker n addr urls cfg 0 (us 0) = Inr (sy_master s)"
    and w: "\<And>j. 1 \<le> j \<Longrightarrow> j < n \<Longrightarrow> maker n addr urls cfg (int j) (us (int j)) = Inr (sy_workers s (int j))"
    and ne: "\<And>j. j < n \<Longrightarrow> us (int j) \<noteq> []"
    and l: "sy_log s = map (\<lambda>j. Boot (int j) (us (int j))) (rev [0..<n])"
    using assms by (auto simp: sys_start_def)
  have n: "0 < n" using made(1)[OF m] .
  have "running_master (map (\<lambda>j. Boot (int j) (us (int j))) (rev [0..<k])) = us 0" if "0 < k" for k
    using that by (induction k) auto
  then have rm: "running_master (sy_log s) = us 0" using l n by simp
  note bl = boots_log[OF l, simplified, OF n]
  have used: "us (int j) \<in> used_uuids (sy_log s)" if "j < n" for j using that unfolding used_uuids_def l by (auto intro!: exI[of _ "int j"] image_eqI[of _ _ j])
  have "minv n (sy_master s, sy_log s)" by (rule minv_made[OF m rm]) (simp_all add: bl)
  moreover have "master_good s" using made(6)[OF m] by (simp add: master_good_def retry_ok_def bl)
  moreover have "worker_good s j" if j: "1 \<le> j" "j < n" for j
  proof -
    have "gr_client_states (sy_master s) ! j = absent_state (int j)" using j made(2)[OF m] by (cases j) (simp_all add: o_def)
    moreover have "fs_uuid (gr_state (sy_workers s (int j))) = us (int j)"
      using made_state[OF w[OF j]] by (simp add: own_state_def)
    ultimately show ?thesis
      using worker_ok_made[OF w[OF j] j(1) ne[OF j(2)]] made(6)[OF w[OF j]] used[OF j(2)]
      by (simp add: worker_good_def Let_def linked_def bl absent_state_def retry_ok_def)
  qed
  ultimately show ?thesis by (simp add: sys_inv_def)
qed

lemma sys_inv_step:
  assumes "sys_step (maker n addr urls cfg) n s s'" "sys_inv n s"
  shows "sys_inv n s'"
  using assms
proof (induction rule: sys_step.induct)
  case (worker_beat j s oc r g m l)
  then obtain i where "j = int i" "1 \<le> i" "i < n" using zero_le_imp_eq_int[of j] by auto
  then show ?case using sys_inv_worker_beat worker_beat by blast
next
  case (master_beat s oc r m l)
  then show ?case using sys_inv_master_beat by blast
next
  case (worker_restart j u s g)
  then obtain i where "j = int i" "1 \<le> i" "i < n" using zero_le_imp_eq_int[of j] by auto
  then show ?case using sys_inv_worker_restart worker_restart by blast
next
  case (master_restart u s m)
  then show ?case using sys_inv_master_restart by blast
qed

lemma sys_inv_reach: "sys_reach (maker n addr urls cfg) n s \<Longrightarrow> sys_inv n s"
  by (induction rule: sys_reach.induct) (auto intro: sys_inv_start sys_inv_step)

subsection \<open>Properties of the group\<close>

lemma restarts_noticed_at: "restarts_noticed (l' @ Ev 0 (MASTER_UPDATE_CLIENT_STATE st) # l) \<Longrightarrow>
  restart_before l = (rejoining (fs_rank st) l \<or> fs_master_uuid st \<notin> {[], running_master l})"
  by (induction l') simp_all

text \<open>
  C6: in every run of a group, whatever is lost and whichever processes die and start again, the master
  signals a restart right before it takes a registration exactly when the worker has started again
  since its last registration with this master, or last heard from another master process.
\<close>

theorem restart_event_exact:
  assumes "sys_reach (maker n addr urls cfg) n s" "sy_log s = l' @ Ev 0 (MASTER_UPDATE_CLIENT_STATE st) # l"
  shows "restart_before l \<longleftrightarrow> rejoining (fs_rank st) l \<or> fs_master_uuid st \<notin> {[], running_master l}"
proof -
  have "restarts_noticed (sy_log s)" using sys_inv_reach[OF assms(1)] by (simp add: sys_inv_def minv_def log_ok_def)
  then show ?thesis using restarts_noticed_at assms(2) by simp
qed


text \<open>
  As long as a process's heartbeat runs, its retry counter is either unset or between 0 and the limit.
\<close>

lemma retry_count_bounded:
  assumes "sys_reach (maker n addr urls cfg) n s" "1 \<le> j" "j < n"
  shows "(0 \<notin> sy_stopped s \<longrightarrow> retry_ok (sy_master s)) \<and> (int j \<notin> sy_stopped s \<longrightarrow> retry_ok (sy_workers s (int j)))"
  using sys_inv_reach[OF assms(1)] assms(2,3) by (auto simp: sys_inv_def master_good_def worker_good_def Let_def)

end
