(* ===== verification/FTLive.thy ===== *)
theory FTLive
  imports FTSystem
begin

text \<open>
  What a group does when the network answers and when it does not
  (\<open>core/distributed/ftgroup.py\<close>): how it forms, how long a process waits for a lost peer, and how
  its heartbeat dies when the peer is lost before it was ever found.
\<close>

subsection \<open>Answers\<close>

definition answers :: "outcome \<Rightarrow> bool" where
  "answers oc \<longleftrightarrow> (\<forall>u. oc_health oc u = Inr ()) \<and> oc_call oc = Delivered \<and>
     (\<exists>a. oc_discover oc = Inr (Some a)) \<and> (\<exists>a. oc_file oc = Inr (Some a))"

definition silent :: "outcome \<Rightarrow> bool" where
  "silent oc \<longleftrightarrow> (\<forall>u. \<exists>c. oc_health oc u = Inl (AioRpcError c)) \<and> (\<exists>a. oc_discover oc = Inr a) \<and> (\<exists>a. oc_file oc = Inr a)"

text \<open>What the constructor guarantees about the place of the master.\<close>

definition can_find :: "ftgroup \<Rightarrow> bool" where
  "can_find g \<longleftrightarrow> has_discovery g \<or> (\<exists>u us. gr_dist_urls g = Some (u # us))"

lemma query_answers:
  assumes "answers oc" "can_find g"
  shows "\<exists>u. query_master_robj (worker_env j oc) (g, w) = (Inr (Some u), (g, w))"
  using assms
  by (auto simp: query_master_robj_def can_find_def answers_def has_discovery_def Let_def abind_def on_world_def aret_def
      worker_env_def healthy_or_none_def check_health_def remote_def)

lemma query_silent:
  assumes "silent oc" "can_find g"
  shows "query_master_robj (worker_env j oc) (g, w) = (Inr None, (g, w))"
proof -
  have h: "healthy_or_none (worker_env j oc) u (g, w) = (Inr None, (g, w))" for u
  proof -
    obtain c where "oc_health oc u = Inl (AioRpcError c)" using assms(1) by (auto simp: silent_def)
    then show ?thesis by (simp add: healthy_or_none_def check_health_def remote_def abind_def aret_def worker_env_def)
  qed
  obtain d f where "oc_discover oc = Inr d" "oc_file oc = Inr f" using assms(1) by (auto simp: silent_def)
  then have "en_discover (worker_env j oc) w = (Inr d, w)" "en_master_file (worker_env j oc) w = (Inr f, w)"
    by (simp_all add: worker_env_def)
  then show ?thesis
    using h assms(2)
    by (auto simp: query_master_robj_def can_find_def has_discovery_def Let_def abind_def on_world_def aret_def
        split: option.splits)
qed

lemma can_find_made:
  assumes "maker n addr urls cfg j u = Inr g"
  shows "can_find g"
proof -
  have "cf_sync_folder cfg = None \<Longrightarrow> \<exists>us. urls = Some us \<and> length us = n"
    using assms by (auto simp: maker_def make_group_def Let_def res_simps split: option.splits)
  then have "has_discovery g \<or> (\<exists>us. gr_dist_urls g = Some us \<and> us \<noteq> [])"
    using made(1)[OF assms] made(7,10)[OF assms] by (cases "cf_sync_folder cfg") (auto simp: has_discovery_def)
  then show ?thesis by (auto simp: can_find_def neq_Nil_conv)
qed

lemma can_find_cong: "gr_cfg g' = gr_cfg g \<Longrightarrow> gr_dist_urls g' = gr_dist_urls g \<Longrightarrow> can_find g' = can_find g"
  by (simp add: can_find_def has_discovery_def)

lemma can_find_reach:
  "sys_reach (maker n addr urls cfg) n s \<Longrightarrow> 1 \<le> j \<Longrightarrow> j < n \<Longrightarrow> can_find (sy_workers s (int j))"
proof (induction rule: sys_reach.induct)
  case (start us s)
  then have "maker n addr urls cfg (int j) (us (int j)) = Inr (sy_workers s (int j))" by (auto simp: sys_start_def)
  then show ?case by (rule can_find_made)
next
  case (step s s')
  have i: "sys_inv n s" by (rule sys_inv_reach[OF step.hyps(1)])
  have ih: "can_find (sy_workers s (int j))" using step.IH step.prems by blast
  from step.hyps(2) show ?case
  proof cases
    case (worker_beat k oc r g m l)
    obtain i where i': "k = int i" "1 \<le> i" "i < n" using worker_beat(2,3) zero_le_imp_eq_int[of k] by auto
    have "worker_good s i" using i i' by (simp add: sys_inv_def)
    then have "worker_ok i (sy_workers s (int i))" by (simp add: worker_good_def Let_def)
    then have "worker_step i (sy_workers s (int i), (sy_master s, sy_log s)) (g, (m, l))"
      using worker_beat_step worker_beat(5) i'(1) by blast
    then have "can_find g = can_find (sy_workers s (int i))" by (intro can_find_cong) (simp_all add: worker_step_def)
    then show ?thesis using worker_beat(1) ih i'(1) by auto
  next
    case (worker_restart k u g)
    then show ?thesis using ih can_find_made by auto
  qed (use ih in auto)
qed

subsection \<open>Forming the group\<close>

text \<open>One beat of worker \<open>j\<close> as a function of the system.\<close>

definition beat :: "nat \<Rightarrow> outcome \<Rightarrow> group_sys \<Rightarrow> group_sys" where
  "beat j oc s = (case heartbeat_steps (worker_env (int j) oc) [True] (sy_workers s (int j), (sy_master s, sy_log s)) of
     (r, (g, (m, l))) \<Rightarrow> s\<lparr>sy_workers := (sy_workers s)(int j := g), sy_master := m, sy_log := l,
       sy_stopped := after_beat (int j) r (sy_stopped s)\<rparr>)"

lemma beat_step:
  assumes "1 \<le> j" "j < n" "int j \<notin> sy_stopped s"
  shows "sys_step mk n s (beat j oc s)"
proof -
  obtain r g m l where h: "heartbeat_steps (worker_env (int j) oc) [True] (sy_workers s (int j), (sy_master s, sy_log s)) = (r, (g, (m, l)))"
    by (metis prod.exhaust)
  have "sys_step mk n s (s\<lparr>sy_workers := (sy_workers s)(int j := g), sy_master := m, sy_log := l,
      sy_stopped := after_beat (int j) r (sy_stopped s)\<rparr>)"
    by (rule sys_step.worker_beat[OF _ _ assms(3) h]) (use assms(1,2) in simp_all)
  then show ?thesis unfolding beat_def h by simp
qed

text \<open>Worker \<open>j\<close> and the master know each other.\<close>

definition joined :: "group_sys \<Rightarrow> nat \<Rightarrow> bool" where
  "joined s j \<longleftrightarrow> (let g = sy_workers s (int j); m = sy_master s in
     fs_status (gr_state g) = FT_OK \<and> fs_master_uuid (gr_state g) = fs_master_uuid (gr_state m) \<and>
     fs_uuid (gr_client_states m ! j) = fs_uuid (gr_state g) \<and> dmem (int j) (gr_client_robjs m))"

lemma answered_call:
  assumes "answers oc" "worker_ok j g" "fs_status (gr_state g) = FT_OK" "gr_master_robj g = Some u"
    and "set_worker_state (log_env 0 oc) (gr_state g) w = (Inr mst, w1)"
  shows "\<exists>g' l. client_set_worker_state (worker_env (int j) oc) True (g, w) = (Inr (), (g', (fst w1, l))) \<and>
    fs_status (gr_state g') = FT_OK \<and> fs_master_uuid (gr_state g') = fs_master_uuid mst \<and> fs_uuid (gr_state g') = fs_uuid (gr_state g)"
proof -
  have ne: "gr_client_states g \<noteq> []" using assms(2) by (simp add: worker_ok_def)
  have "en_set_state (worker_env (int j) oc) u (gr_state g) w = (Inr mst, w1)"
    using assms(1,5) by (simp add: worker_env_def answers_def)
  then show ?thesis
    using assms(3,4) status_upd_state[OF ne]
    by (cases w1) (auto simp: client_set_worker_state_def remote_def abind_def gset_def)
qed

lemma answered_beat:
  assumes "answers oc" "worker_ok j g" "can_find g" "fs_status (gr_state g) = FT_OK"
    and "set_worker_state (log_env 0 oc) (gr_state g) w = (Inr mst, w1)"
  shows "\<exists>g' l. heartbeat_steps (worker_env (int j) oc) [True] (g, w) = (Inr False, (g', (fst w1, l))) \<and>
    fs_status (gr_state g') = FT_OK \<and> fs_master_uuid (gr_state g') = fs_master_uuid mst \<and> fs_uuid (gr_state g') = fs_uuid (gr_state g)"
proof -
  obtain u k where q: "client_check_master (worker_env (int j) oc) (g, w) =
      abind (client_set_worker_state (worker_env (int j) oc) True) (\<lambda>_. aret False) (k, w)"
    "k = g\<lparr>gr_master_robj := Some u\<rparr>"
  proof (cases "gr_master_robj g")
    case (Some u)
    then have "g = g\<lparr>gr_master_robj := Some u\<rparr>" by simp
    moreover have "client_check_master (worker_env (int j) oc) (g, w) =
        abind (client_set_worker_state (worker_env (int j) oc) True) (\<lambda>_. aret False) (g, w)"
      using assms(4) Some by (simp add: client_check_master_def)
    ultimately show thesis using that by blast
  next
    case None
    obtain u where "query_master_robj (worker_env (int j) oc) (g, w) = (Inr (Some u), (g, w))"
      using query_answers[OF assms(1,3)] by blast
    then show thesis using that[of "g\<lparr>gr_master_robj := Some u\<rparr>" u] assms(4) None
      by (simp add: client_check_master_def abind_def gset_def)
  qed
  have "worker_ok j k" "fs_status (gr_state k) = FT_OK" "gr_master_robj k = Some u" "gr_state k = gr_state g"
    using q(2) assms(2,4) by (simp_all add: worker_ok_def)
  from answered_call[OF assms(1) this(1-3), of w mst w1] assms(5) this(4)
  obtain g' l where "client_set_worker_state (worker_env (int j) oc) True (k, w) = (Inr (), (g', (fst w1, l)))"
    "fs_status (gr_state g') = FT_OK" "fs_master_uuid (gr_state g') = fs_master_uuid mst" "fs_uuid (gr_state g') = fs_uuid (gr_state g)"
    by auto
  moreover have "\<not> fs_is_master (gr_state g)" using assms(2) by (simp add: worker_ok_def)
  ultimately show ?thesis using q(1) by (auto simp: abind_def aret_def Let_def)
qed

lemma found_beat:
  assumes "answers oc" "worker_ok j g" "can_find g" "fs_status (gr_state g) \<noteq> FT_OK"
  shows "\<exists>g' l. heartbeat_steps (worker_env (int j) oc) [True] (g, w) = (Inr False, (g', (fst w, l))) \<and>
    fs_status (gr_state g') = FT_OK \<and> l = map (Ev (int j)) [HEARTBEAT_STEP_END, HEARTBEAT_DISCONNECT_TO_OK] @ snd w"
proof -
  obtain u where q: "query_master_robj (worker_env (int j) oc) (g, w) = (Inr (Some u), (g, w))"
    using query_answers[OF assms(1,3)] by blast
  have ne: "gr_client_states (g\<lparr>gr_master_robj := Some u, gr_retry := Some 0\<rparr>) \<noteq> []" using assms(2) by (simp add: worker_ok_def)
  have "\<not> fs_is_master (gr_state g)" using assms(2) by (simp add: worker_ok_def)
  then show ?thesis using q assms(4) status_upd_state[OF ne]
    by (auto simp: client_check_master_def abind_def gset_def aret_def Let_def)
qed

text \<open>Everything a beat with an answering network does to the group.\<close>

lemma beat_answers:
  assumes "answers oc" "sys_inv n s" "1 \<le> j" "j < n" "can_find (sy_workers s (int j))" "int j \<notin> sy_stopped s"
  shows "sy_stopped (beat j oc s) = sy_stopped s \<and>
    fs_status (gr_state (sy_workers (beat j oc s) (int j))) = FT_OK \<and>
    (fs_status (gr_state (sy_workers s (int j))) = FT_OK \<longrightarrow> joined (beat j oc s) j \<and>
      (all_connected (sy_master (beat j oc s)) \<longrightarrow> fs_status (gr_state (sy_master (beat j oc s))) = FT_OK)) \<and>
    (\<forall>i. i \<noteq> j \<longrightarrow> 1 \<le> i \<longrightarrow> i < n \<longrightarrow> sy_workers (beat j oc s) (int i) = sy_workers s (int i) \<and> (joined s i \<longrightarrow> joined (beat j oc s) i))"
proof -
  let ?g = "sy_workers s (int j)" and ?w = "(sy_master s, sy_log s)"
  have wj: "worker_good s j" using assms(2-4) by (simp add: sys_inv_def)
  then have ok: "worker_ok j ?g" and ln: "linked (sy_master s) (sy_log s) j (fs_uuid (gr_state ?g))"
    by (simp_all add: worker_good_def Let_def)
  have pre: "minv n ?w" "fs_rank (gr_state ?g) = int j" "fs_uuid (gr_state ?g) \<noteq> []"
    using assms(2) ok by (simp_all add: sys_inv_def worker_ok_def)
  show ?thesis
  proof (cases "fs_status (gr_state ?g) = FT_OK")
    case False
    obtain g' l where h: "heartbeat_steps (worker_env (int j) oc) [True] (?g, ?w) = (Inr False, (g', (sy_master s, l)))"
      "fs_status (gr_state g') = FT_OK"
      using found_beat[OF assms(1) ok assms(5) False, of ?w] by auto
    then show ?thesis using False by (auto simp: beat_def after_beat_def joined_def Let_def)
  next
    case True
    obtain m d r where reg: "set_worker_state (log_env 0 oc) (gr_state ?g) ?w = (Inr (gr_state m), (m, d @ Ev 0 (MASTER_UPDATE_CLIENT_STATE (gr_state ?g)) # r @ sy_log s))"
      and m: "gr_client_states m ! j = gr_state ?g" "dmem (int j) (gr_client_robjs m)"
        "fs_master_uuid (gr_state m) = fs_master_uuid (gr_state (sy_master s))" "all_connected m \<longrightarrow> fs_status (gr_state m) = FT_OK"
      and mem: "\<And>i. dmem i (gr_client_robjs (sy_master s)) \<Longrightarrow> dmem i (gr_client_robjs m)"
      and others: "\<And>i. i \<noteq> j \<Longrightarrow> 1 \<le> i \<Longrightarrow> i < n \<Longrightarrow> fs_uuid (gr_client_states m ! i) = fs_uuid (gr_client_states (sy_master s) ! i)"
      by (rule registration[OF pre(1,2) assms(3,4) True pre(3) ln, of oc]) blast
    obtain g' l where h: "heartbeat_steps (worker_env (int j) oc) [True] (?g, ?w) = (Inr False, (g', (m, l)))"
      "fs_status (gr_state g') = FT_OK" "fs_master_uuid (gr_state g') = fs_master_uuid (gr_state m)"
      "fs_uuid (gr_state g') = fs_uuid (gr_state ?g)"
      using answered_beat[OF assms(1) ok assms(5) True reg] by auto
    then show ?thesis using m mem others by (auto simp: beat_def after_beat_def joined_def Let_def)
  qed
qed

definition join_beats :: "outcome \<Rightarrow> nat \<Rightarrow> group_sys \<Rightarrow> group_sys" where
  "join_beats oc j s = beat j oc (beat j oc s)"

lemma join_beats_ok:
  assumes "answers oc" "sys_reach (maker n addr urls cfg) n s" "1 \<le> j" "j < n" "int j \<notin> sy_stopped s"
  shows "sys_reach (maker n addr urls cfg) n (join_beats oc j s) \<and> sy_stopped (join_beats oc j s) = sy_stopped s \<and>
    joined (join_beats oc j s) j \<and>
    (all_connected (sy_master (join_beats oc j s)) \<longrightarrow> fs_status (gr_state (sy_master (join_beats oc j s))) = FT_OK) \<and>
    (\<forall>i. i \<noteq> j \<longrightarrow> 1 \<le> i \<longrightarrow> i < n \<longrightarrow> joined s i \<longrightarrow> joined (join_beats oc j s) i)"
proof -
  note b1 = beat_answers[OF assms(1) sys_inv_reach[OF assms(2)] assms(3,4) can_find_reach[OF assms(2-4)] assms(5)]
  have r1: "sys_reach (maker n addr urls cfg) n (beat j oc s)"
    by (rule sys_reach.step[OF assms(2) beat_step[OF assms(3,4,5)]])
  have s1: "int j \<notin> sy_stopped (beat j oc s)" using b1 assms(5) by simp
  note b2 = beat_answers[OF assms(1) sys_inv_reach[OF r1] assms(3,4) can_find_reach[OF r1 assms(3,4)] s1]
  have r2: "sys_reach (maker n addr urls cfg) n (join_beats oc j s)"
    unfolding join_beats_def by (rule sys_reach.step[OF r1 beat_step[OF assms(3,4) s1]])
  then show ?thesis using b1 b2 by (auto simp: join_beats_def)
qed

lemma group_joins:
  assumes "answers oc" "sys_reach (maker n addr urls cfg) n s" "set js \<subseteq> {1..<n}" "\<forall>j\<in>set js. int j \<notin> sy_stopped s"
  shows "sys_reach (maker n addr urls cfg) n (fold (join_beats oc) js s) \<and> (\<forall>j\<in>set js. joined (fold (join_beats oc) js s) j) \<and>
    sy_stopped (fold (join_beats oc) js s) = sy_stopped s"
  using assms(3,4)
proof (induction js rule: rev_induct)
  case (snoc j js)
  let ?t = "fold (join_beats oc) js s"
  have t: "sys_reach (maker n addr urls cfg) n ?t" "\<forall>i\<in>set js. joined ?t i" "sy_stopped ?t = sy_stopped s"
    using snoc by auto
  have j: "1 \<le> j" "j < n" "int j \<notin> sy_stopped ?t" using snoc.prems t(3) by auto
  note b = join_beats_ok[OF assms(1) t(1) j]
  have "joined (join_beats oc j ?t) i" if "i \<in> set js" for i
    using b t(2) that snoc.prems(1) by (cases "i = j") auto
  then show ?case using b t(3) by auto
qed (use assms(2) in simp)

text \<open>
  C7: from any reachable state, two beats of every worker with a network that answers bring the whole
  group together: every worker is OK, is known to the master under its present identity and knows the
  master's, and the master is OK with a connection to each.
\<close>

theorem group_forms:
  assumes "answers oc" "sys_reach (maker n addr urls cfg) n s" "1 < n" "\<forall>j. 1 \<le> j \<and> j < n \<longrightarrow> int j \<notin> sy_stopped s"
  shows "let t = fold (join_beats oc) [1..<n] s in
    (\<forall>j. 1 \<le> j \<and> j < n \<longrightarrow> joined t j) \<and> all_connected (sy_master t) \<and> fs_status (gr_state (sy_master t)) = FT_OK"
proof -
  let ?t = "fold (join_beats oc) [1..<n] s"
  have "\<forall>j\<in>set [1..<n]. int j \<notin> sy_stopped s" using assms(4) by auto
  from group_joins[OF assms(1,2) _ this]
  have t: "sys_reach (maker n addr urls cfg) n ?t" "\<forall>j\<in>{1..<n}. joined ?t j" by auto
  obtain k where k: "n = Suc k" "1 \<le> k" using assms(3) by (cases n) auto
  let ?u = "fold (join_beats oc) [1..<k] s"
  have "\<forall>j\<in>set [1..<k]. int j \<notin> sy_stopped s" using assms(4) k by auto
  from group_joins[OF assms(1,2) _ this] k
  have u: "sys_reach (maker n addr urls cfg) n ?u" "int k \<notin> sy_stopped ?u" using assms(4) by auto
  have tu: "?t = join_beats oc k ?u" using k by simp
  have ac: "all_connected (sy_master ?t)"
  proof -
    have m: "table_ok n (gr_client_states (sy_master ?t)) (gr_client_robjs (sy_master ?t))" "gr_world_size (sy_master ?t) = n"
      using sys_inv_reach[OF t(1)] by (simp_all add: sys_inv_def minv_def)
    have "{1..<int n} \<subseteq> set (dkeys (gr_client_robjs (sy_master ?t)))"
    proof
      fix x assume "x \<in> {1..<int n}"
      then obtain j where "x = int j" "j \<in> {1..<n}" using zero_le_imp_eq_int[of x] by auto
      then show "x \<in> set (dkeys (gr_client_robjs (sy_master ?t)))"
        using t(2) by (auto simp: joined_def Let_def dmem_set)
    qed
    then have "set (dkeys (gr_client_robjs (sy_master ?t))) = {1..<int n}" using m(1) by (auto simp: table_ok_def)
    then have "length (gr_client_robjs (sy_master ?t)) = n - 1"
      using m(1) distinct_card[of "dkeys (gr_client_robjs (sy_master ?t))"] by (simp add: table_ok_def dict_ok_def dkeys_def)
    then show ?thesis using m(2) assms(3) by (simp add: all_connected_length)
  qed
  moreover have "fs_status (gr_state (sy_master ?t)) = FT_OK"
    using join_beats_ok[OF assms(1) u(1) _ _ u(2)] k ac tu by auto
  ultimately show ?thesis using t(2) by (auto simp: Let_def)
qed

subsection \<open>Losing the master\<close>

text \<open>A beat of a worker that finds no master.\<close>

lemma silent_beat:
  assumes "silent oc" "worker_ok j g" "can_find g" "fs_status (gr_state g) \<noteq> FT_OK"
  shows "heartbeat_steps (worker_env (int j) oc) (True # ws) (g, w) =
    (case gr_retry g of None \<Rightarrow> (Inl AttributeError, (g, w))
     | Some k \<Rightarrow> if k + 1 > cf_total_retry (gr_cfg g)
         then (Inr True, (g\<lparr>gr_retry := Some (k + 1)\<rparr>, (fst w, Ev (int j) GROUP_EXIT # snd w)))
         else heartbeat_steps (worker_env (int j) oc) ws (g\<lparr>gr_retry := Some (k + 1)\<rparr>, (fst w, Ev (int j) HEARTBEAT_STEP_END # snd w)))"
  using assms(2,4) query_silent[OF assms(1,3)]
  by (auto simp: worker_ok_def client_check_master_def count_retry_def abind_def aret_def Let_def heartbeat_exit_def
      split: option.split)

lemma first_silent_beat:
  assumes "silent oc" "worker_ok j g" "can_find g" "fs_status (gr_state g) = FT_OK" "gr_master_robj g = None"
  shows "heartbeat_steps (worker_env (int j) oc) (True # ws) (g, w) =
    heartbeat_steps (worker_env (int j) oc) ws (upd_state (fs_status_update (\<lambda>_. MASTER_DISCONNECTED)) g,
      (fst w, map (Ev (int j)) [HEARTBEAT_STEP_END, HEARTBEAT_OK_TO_DISCONNECT] @ snd w))"
  using assms(2,4,5) query_silent[OF assms(1,3)]
  by (simp add: worker_ok_def client_check_master_def abind_def aret_def Let_def set_own_status_eq)

lemma silent_beats:
  assumes "silent oc" "worker_ok j g" "can_find g" "fs_status (gr_state g) \<noteq> FT_OK" "gr_retry g = Some k"
    and "k + int i \<le> cf_total_retry (gr_cfg g)"
  shows "\<exists>l. heartbeat_steps (worker_env (int j) oc) (replicate i True @ ws) (g, w) =
    heartbeat_steps (worker_env (int j) oc) ws (g\<lparr>gr_retry := Some (k + int i)\<rparr>, (fst w, l))"
  using assms
proof (induction i arbitrary: g k w)
  case 0
  have "g\<lparr>gr_retry := Some k\<rparr> = g" using "0.prems"(5) by (cases g) simp
  then show ?case by (intro exI[of _ "snd w"]) simp
next
  case (Suc i)
  let ?g = "g\<lparr>gr_retry := Some (k + 1)\<rparr>" and ?w = "(fst w, Ev (int j) HEARTBEAT_STEP_END # snd w)"
  have "worker_ok j ?g" "can_find ?g" "fs_status (gr_state ?g) \<noteq> FT_OK" "gr_retry ?g = Some (k + 1)"
    "k + 1 + int i \<le> cf_total_retry (gr_cfg ?g)"
    using Suc.prems(2-4,6) can_find_cong[of ?g g] by (simp_all add: worker_ok_def)
  from Suc.IH[OF Suc.prems(1) this, of ?w] Suc.prems show ?case
    using silent_beat[OF Suc.prems(1-4), of "replicate i True @ ws" w] by (simp add: algebra_simps)
qed


text \<open>
  C38: a process that has just started and does not reach the other side within its first two
  heartbeats loses its heartbeat to an \<open>AttributeError\<close>, since the retry counter is only set once the
  group has been complete: a worker without a master, and (with a discovery function or a sync
  folder) a master whose workers have not all registered.
\<close>

theorem unset_counter_kills_heartbeat:
  assumes "1 \<le> j" "u \<noteq> []" "maker n addr urls cfg (int j) u = Inr g" "silent oc"
    and "1 < n" "maker n addr urls cfg 0 v = Inr m" "has_discovery m"
  shows "fst (heartbeat_steps (worker_env (int j) oc) [True, True] (g, w)) = Inl AttributeError \<and>
    fst (heartbeat_steps (log_env 0 oc') [True, True] (m, l)) = Inl AttributeError"
proof
  let ?g = "upd_state (fs_status_update (\<lambda>_. MASTER_DISCONNECTED)) g"
  have w: "worker_ok j g" by (rule worker_ok_made[OF assms(3,1,2)])
  have f: "can_find g" by (rule can_find_made[OF assms(3)])
  have ne: "gr_client_states g \<noteq> []" using w by (simp add: worker_ok_def)
  have st: "fs_status (gr_state g) = FT_OK" "gr_master_robj g = None" "gr_retry g = None"
    using made_state[OF assms(3)] made[OF assms(3)] by (simp_all add: own_state_def)
  have "worker_ok j ?g" "can_find ?g" "fs_status (gr_state ?g) \<noteq> FT_OK" "gr_retry ?g = None"
    using w st can_find_cong[of ?g g] f status_upd_state[OF ne] ne
    by (simp_all add: worker_ok_def upd_state_def split: list.split)
  then show "fst (heartbeat_steps (worker_env (int j) oc) [True, True] (g, w)) = Inl AttributeError"
    using first_silent_beat[OF assms(4) w f st(1,2)] silent_beat[OF assms(4), of j ?g "[]"] by simp
next
  let ?m = "upd_state (fs_status_update (\<lambda>_. WORKER_DISCONNECTED)) m"
  have ne: "gr_client_states m \<noteq> []" using made(2)[OF assms(6)] by simp
  have st: "fs_status (gr_state m) = FT_OK" "gr_retry m = None" "gr_is_master m" "fs_is_master (gr_state m)" "gr_client_robjs m = []"
    "gr_world_size m = n"
    using made_state[OF assms(6)] made[OF assms(6)] by (simp_all add: own_state_def)
  have "has_discovery ?m" using assms(7) by (simp add: has_discovery_def)
  then show "fst (heartbeat_steps (log_env 0 oc') [True, True] (m, l)) = Inl AttributeError"
    using st assms(5) status_upd_state[OF ne]
    by (simp add: Let_def master_check_workers_def master_call_all_client_def call_async_def num_client_robj_is_valid_def
        abind_def aret_def set_own_status_eq all_connected_def count_retry_def)
qed

subsection \<open>A group of two\<close>

definition two_config :: ft_config where
  "two_config = \<lparr>cf_sync_folder = None, cf_discovery_fn = True, cf_total_retry = 2\<rparr>"

abbreviation two_maker :: "int \<Rightarrow> string \<Rightarrow> ftgroup res" where
  "two_maker \<equiv> maker 2 (\<lambda>j. (if j = 0 then ''a'' else ''b'', 1)) (Some [''a:1'', ''b:1'']) two_config"

definition two_master :: ftgroup where
  "two_master = (case two_maker 0 ''m'' of Inr g \<Rightarrow> g)"

definition two_worker :: ftgroup where
  "two_worker = (case two_maker 1 ''w'' of Inr g \<Rightarrow> g)"

definition two_start :: group_sys where
  "two_start = \<lparr>sy_master = two_master, sy_workers = \<lambda>_. two_worker, sy_log = [Boot 1 ''w'', Boot 0 ''m''], sy_stopped = {}\<rparr>"

definition all_well :: outcome where
  "all_well = \<lparr>oc_health = \<lambda>_. Inr (), oc_call = Delivered, oc_discover = Inr (Some (''a'', ''1'')), oc_file = Inr (Some (''a'', None))\<rparr>"

definition nobody :: outcome where
  "nobody = \<lparr>oc_health = \<lambda>_. Inl (AioRpcError 14), oc_call = Delivered, oc_discover = Inr None, oc_file = Inr None\<rparr>"

lemma two_made: "two_maker 0 ''m'' = Inr two_master" "two_maker 1 ''w'' = Inr two_worker"
  by (simp_all add: two_master_def two_worker_def maker_def make_group_def two_config_def)

lemma two_reach: "sys_reach two_maker 2 two_start"
proof (rule sys_reach.start)
  show "sys_start two_maker 2 (\<lambda>j. if j = 0 then ''m'' else ''w'') two_start"
  proof -
    have "{0..<int 2} = {0, 1}" "{1..<int 2} = {1}" by auto
    then show ?thesis using two_made by (simp add: sys_start_def two_start_def eval_nat_numeral)
  qed
qed

lemma two_outcomes: "answers all_well" "silent nobody"
  by (auto simp: answers_def silent_def all_well_def nobody_def)

theorem group_forms_witness:
  "joined (join_beats all_well 1 two_start) 1 \<and> fs_status (gr_state (sy_master (join_beats all_well 1 two_start))) = FT_OK"
  using group_forms[OF two_outcomes(1) two_reach] by (simp add: two_start_def eval_nat_numeral Let_def)

lemma two_beat_log:
  "sy_log (beat 1 all_well two_start) = [Ev 1 HEARTBEAT_STEP_END, Ev 0 HEARTBEAT_DISCONNECT_TO_OK,
     Ev 0 (MASTER_UPDATE_CLIENT_STATE (gr_state two_worker)), Boot 1 ''w'', Boot 0 ''m'']"
  by code_simp

lemma two_beat_reach: "sys_reach two_maker 2 (beat 1 all_well two_start)"
  by (rule sys_reach.step[OF two_reach beat_step]) (simp_all add: two_start_def)

theorem restart_event_exact_witness:
  "restart_before [Boot 1 ''w'', Boot 0 ''m''] \<longleftrightarrow>
     rejoining (fs_rank (gr_state two_worker)) [Boot 1 ''w'', Boot 0 ''m''] \<or> fs_master_uuid (gr_state two_worker) \<notin> {[], ''m''}"
  using restart_event_exact[OF two_beat_reach, of "[Ev 1 HEARTBEAT_STEP_END, Ev 0 HEARTBEAT_DISCONNECT_TO_OK]"
      "gr_state two_worker" "[Boot 1 ''w'', Boot 0 ''m'']"] two_beat_log by simp


definition lost_worker :: ftgroup where
  "lost_worker = (upd_state (fs_status_update (\<lambda>_. MASTER_DISCONNECTED)) two_worker)\<lparr>gr_retry := Some 0\<rparr>"


theorem unset_counter_kills_heartbeat_witness:
  "fst (heartbeat_steps (worker_env 1 nobody) [True, True] (two_worker, (two_master, []))) = Inl AttributeError \<and>
   fst (heartbeat_steps (log_env 0 nobody) [True, True] (two_master, [])) = Inl AttributeError"
proof -
  have "has_discovery two_master" using made(7)[OF two_made(1)] by (simp add: has_discovery_def two_config_def)
  then show ?thesis
    using unset_counter_kills_heartbeat[of 1 "''w''" 2 _ _ _ two_worker nobody "''m''" two_master] two_made two_outcomes(2)
    by fastforce
qed

end
