(* ===== verification/FlowGraph.thy ===== *)
theory FlowGraph
  imports Containers "HOL-Library.Multiset"
begin

text \<open>
  The graph of a compute flow: \<open>FlowInternals\<close> of \<open>dock/components/flowui.py\<close>. It keeps the nodes and
  edges by id, and four tables derived from the edges: the sources and targets of every node, and its
  edges by input and by output handle. An operation that raises keeps the changes it made before; it
  is an action on the record. Nodes are records of an id and the data of the client, edges are the
  dataclass \<open>EdgeBase\<close>, whose \<open>==\<close> compares all fields. The lemmas: the tables agree with the edges
  (\<open>core_wf\<close>, \<open>inp_wf\<close>) after building and through the operations, and the two graph searches return
  exactly the ancestors and the connected component.
\<close>

subsection \<open>Data\<close>

record 'd flow_node =
  node_id :: string
  node_data :: 'd

record flow_edge =
  edge_id :: string
  edge_source :: string
  edge_target :: string
  source_handle :: "string option"
  target_handle :: "string option"

type_synonym link = "string \<times> string option \<times> string option"

record 'd internals =
  id_to_node :: "(string, 'd flow_node) dict"
  id_to_edge :: "(string, flow_edge) dict"
  node_id_to_sources :: "(string, link list) dict"
  node_id_to_targets :: "(string, link list) dict"
  node_id_to_inp_handle_to_edges :: "(string, (string option, flow_edge list) dict) dict"
  node_id_to_out_handle_to_edges :: "(string, (string option, flow_edge list) dict) dict"
  unique_name_pool_node :: name_pool
  unique_name_pool_edge :: name_pool

definition new_internals :: "'d internals" where
  "new_internals = \<lparr>id_to_node = [], id_to_edge = [], node_id_to_sources = [], node_id_to_targets = [],
     node_id_to_inp_handle_to_edges = [], node_id_to_out_handle_to_edges = [],
     unique_name_pool_node = pool_init 10000 None, unique_name_pool_edge = pool_init 10000 None\<rparr>"

text \<open>The entries an edge contributes to the tables of its two ends.\<close>

definition target_link :: "flow_edge \<Rightarrow> link" where
  "target_link e = (edge_target e, source_handle e, target_handle e)"

definition source_link :: "flow_edge \<Rightarrow> link" where
  "source_link e = (edge_source e, source_handle e, target_handle e)"

subsection \<open>Reading the graph\<close>

definition flow_nodes :: "'d internals \<Rightarrow> 'd flow_node list" where
  "flow_nodes g = dvals (id_to_node g)"

definition flow_edges :: "'d internals \<Rightarrow> flow_edge list" where
  "flow_edges g = dvals (id_to_edge g)"

definition lookup :: "('k, 'v) dict \<Rightarrow> 'k \<Rightarrow> 'v res" where
  "lookup d k = of_opt KeyError (dget d k)"

definition get_source_nodes :: "'d internals \<Rightarrow> string \<Rightarrow> 'd flow_node list res" where
  "get_source_nodes g n = rbind (lookup (node_id_to_sources g) n)
     (rmap_list (\<lambda>idh. lookup (id_to_node g) (fst idh)))"

definition get_target_nodes :: "'d internals \<Rightarrow> string \<Rightarrow> 'd flow_node list res" where
  "get_target_nodes g n = rbind (lookup (node_id_to_targets g) n)
     (rmap_list (\<lambda>idh. lookup (id_to_node g) (fst idh)))"

definition get_source_node_and_handles ::
  "'d internals \<Rightarrow> string \<Rightarrow> ('d flow_node \<times> string option \<times> string option) list res" where
  "get_source_node_and_handles g n = rbind (lookup (node_id_to_sources g) n)
     (rmap_list (\<lambda>idh. rbind (lookup (id_to_node g) (fst idh)) (\<lambda>m. Inr (m, snd idh))))"

definition get_target_node_and_handles ::
  "'d internals \<Rightarrow> string \<Rightarrow> ('d flow_node \<times> string option \<times> string option) list res" where
  "get_target_node_and_handles g n = rbind (lookup (node_id_to_targets g) n)
     (rmap_list (\<lambda>idh. rbind (lookup (id_to_node g) (fst idh)) (\<lambda>m. Inr (m, snd idh))))"

text \<open>One pass of the \<open>while\<close> loop of \<open>get_all_parent_nodes\<close>, then the loop.\<close>

fun parents_round ::
  "'d internals \<Rightarrow> string set \<Rightarrow> 'd flow_node list \<Rightarrow> 'd flow_node list
   \<Rightarrow> (string set \<times> 'd flow_node list) res" where
  "parents_round g accessed [] new = Inr (accessed, new)"
| "parents_round g accessed (p # ps) new =
     (if node_id p \<in> accessed then parents_round g accessed ps new
      else rbind (get_source_nodes g (node_id p))
        (\<lambda>s. parents_round g (insert (node_id p) accessed) ps (new @ s)))"

lemma lookup_Inr [simp]: "lookup d k = Inr v \<longleftrightarrow> dget d k = Some v"
  by (simp add: lookup_def)

lemma lookup_Some: "dget d k = Some v \<Longrightarrow> lookup d k = Inr v"
  by simp

lemma get_source_nodes_key: "get_source_nodes g n = Inr s \<Longrightarrow> n \<in> set (dkeys (node_id_to_sources g))"
  by (auto simp: get_source_nodes_def res_simps dest: dget_Some_mem)

lemma parents_round_progress:
  "parents_round g acc ps new = Inr (acc', new') \<Longrightarrow>
   acc \<subseteq> acc' \<and> acc' - acc \<subseteq> set (dkeys (node_id_to_sources g)) \<and> (acc' = acc \<longrightarrow> new' = new)"
proof (induction g acc ps new arbitrary: acc' new' rule: parents_round.induct)
  case (2 g acc p ps new)
  show ?case
  proof (cases "node_id p \<in> acc")
    case True
    then show ?thesis using "2.IH"(1)[OF True] "2.prems" by simp
  next
    case False
    with "2.prems" obtain s where s: "get_source_nodes g (node_id p) = Inr s"
      and rest: "parents_round g (insert (node_id p) acc) ps (new @ s) = Inr (acc', new')"
      by (auto simp: res_simps)
    from "2.IH"(2)[OF False s rest] get_source_nodes_key[OF s] False show ?thesis
      by blast
  qed
qed simp

function parents_loop ::
  "'d internals \<Rightarrow> string set \<Rightarrow> 'd flow_node list \<Rightarrow> 'd flow_node list \<Rightarrow> 'd flow_node list res" where
  "parents_loop g accessed res cur =
     (if cur = [] then Inr res
      else rbind (parents_round g accessed cur [])
        (\<lambda>(accessed', new). parents_loop g accessed' (res @ cur) new))"
  by pat_completeness auto
termination
proof (relation "measures [\<lambda>(g, acc, res, cur). card (set (dkeys (node_id_to_sources g)) - acc),
    \<lambda>(g, acc, res, cur). length cur]")
  fix g :: "'d internals" and acc :: "string set" and res cur :: "'d flow_node list" and x acc' new
  assume cur: "cur \<noteq> []" and x: "parents_round g acc cur [] = Inr x" and p: "(acc', new) = x"
  let ?K = "set (dkeys (node_id_to_sources g))"
  from x p have pr: "acc \<subseteq> acc'" "acc' - acc \<subseteq> ?K" "acc' = acc \<longrightarrow> new = []"
    using parents_round_progress[of g acc cur "[]" acc' new] by simp_all
  show "((g, acc', res @ cur, new), g, acc, res, cur) \<in> measures
    [\<lambda>(g, acc, res, cur). card (set (dkeys (node_id_to_sources g)) - acc), \<lambda>(g, acc, res, cur). length cur]"
  proof (cases "acc' = acc")
    case True
    with pr cur show ?thesis by simp
  next
    case False
    with pr have "?K - acc' \<subset> ?K - acc" by blast
    then have "card (?K - acc') < card (?K - acc)" by (intro psubset_card_mono) auto
    then show ?thesis by simp
  qed
qed simp

declare parents_loop.simps [simp del]

definition get_all_parent_nodes :: "'d internals \<Rightarrow> string \<Rightarrow> 'd flow_node list res" where
  "get_all_parent_nodes g n = rbind (get_source_nodes g n) (parents_loop g {} [])"

text \<open>The stack of \<open>get_all_nodes_in_connected_graph\<close> is a Python list: its top is the last element.\<close>

function connected_loop ::
  "'d internals \<Rightarrow> string set \<Rightarrow> 'd flow_node list \<Rightarrow> 'd flow_node list \<Rightarrow> 'd flow_node list res" where
  "connected_loop g visited stack res =
     (if stack = [] then Inr res
      else let cur = last stack; rest = butlast stack in
        if node_id cur \<in> visited then connected_loop g visited rest res
        else rbind (get_source_nodes g (node_id cur)) (\<lambda>s.
          rbind (get_target_nodes g (node_id cur)) (\<lambda>t.
            connected_loop g (insert (node_id cur) visited) (rest @ (s @ t)) (res @ [cur]))))"
  by pat_completeness auto
termination
proof (relation "measures [\<lambda>(g, vis, stack, res). card (set (dkeys (node_id_to_sources g)) - vis),
    \<lambda>(g, vis, stack, res). length stack]", goal_cases)
  case (3 g vis stack res cur rest s t)
  let ?K = "set (dkeys (node_id_to_sources g))"
  from 3 have "node_id cur \<in> ?K" "node_id cur \<notin> vis"
    using get_source_nodes_key by auto
  then have "?K - insert (node_id cur) vis \<subset> ?K - vis" by blast
  then have "card (?K - insert (node_id cur) vis) < card (?K - vis)"
    by (intro psubset_card_mono) auto
  then show ?case by simp
qed (auto simp: Let_def)

declare connected_loop.simps [simp del]

definition get_all_nodes_in_connected_graph :: "'d internals \<Rightarrow> 'd flow_node \<Rightarrow> 'd flow_node list res" where
  "get_all_nodes_in_connected_graph g n = connected_loop g {} [n] []"

subsection \<open>Changing the graph\<close>

type_synonym 'd graph_act = "('d internals, unit) act"

text \<open>\<open>table[key].append(value)\<close> on a dict of lists.\<close>

definition append_at :: "'k \<Rightarrow> 'v \<Rightarrow> ('k, 'v list) dict \<Rightarrow> ('k, 'v list) dict option" where
  "append_at k v d = map_option (\<lambda>l. dset k (l @ [v]) d) (dget d k)"

text \<open>\<open>table[key].remove(value)\<close>: a missing key and a missing value raise.\<close>

definition remove_at :: "'k \<Rightarrow> 'v \<Rightarrow> ('k, 'v list) dict \<Rightarrow> ('k, 'v list) dict res" where
  "remove_at k v d = rbind (lookup d k) (\<lambda>l. if v \<in> set l then Inr (dset k (remove1 v l) d) else Inl ValueError)"

text \<open>Appending to the edges of a handle, whose list is created when it is missing.\<close>

definition handle_append :: "string option \<Rightarrow> flow_edge \<Rightarrow> (string option, flow_edge list) dict
    \<Rightarrow> (string option, flow_edge list) dict" where
  "handle_append h e d = (case dget d h of None \<Rightarrow> dset h [e] d | Some es \<Rightarrow> dset h (es @ [e]) d)"

definition update_table :: "('d internals \<Rightarrow> 't res) \<Rightarrow> ('t \<Rightarrow> 'd internals \<Rightarrow> 'd internals) \<Rightarrow> 'd graph_act" where
  "update_table f upd g = (case f g of Inl e \<Rightarrow> (Inl e, g) | Inr t \<Rightarrow> (Inr (), upd t g))"

definition link_target :: "flow_edge \<Rightarrow> 'd graph_act" where
  "link_target e = update_table
     (\<lambda>g. of_opt KeyError (append_at (edge_source e) (target_link e) (node_id_to_targets g)))
     (\<lambda>t g. g\<lparr>node_id_to_targets := t\<rparr>)"

definition link_source :: "flow_edge \<Rightarrow> 'd graph_act" where
  "link_source e = update_table
     (\<lambda>g. of_opt KeyError (append_at (edge_target e) (source_link e) (node_id_to_sources g)))
     (\<lambda>t g. g\<lparr>node_id_to_sources := t\<rparr>)"

definition link_out :: "flow_edge \<Rightarrow> 'd graph_act" where
  "link_out e = update_table
     (\<lambda>g. rbind (lookup (node_id_to_out_handle_to_edges g) (edge_source e)) (\<lambda>d.
        Inr (dset (edge_source e) (handle_append (source_handle e) e d) (node_id_to_out_handle_to_edges g))))
     (\<lambda>t g. g\<lparr>node_id_to_out_handle_to_edges := t\<rparr>)"

definition link_inp :: "flow_edge \<Rightarrow> 'd graph_act" where
  "link_inp e = update_table
     (\<lambda>g. rbind (lookup (node_id_to_inp_handle_to_edges g) (edge_target e)) (\<lambda>d.
        Inr (dset (edge_target e) (handle_append (target_handle e) e d) (node_id_to_inp_handle_to_edges g))))
     (\<lambda>t g. g\<lparr>node_id_to_inp_handle_to_edges := t\<rparr>)"

definition unlink_target :: "flow_edge \<Rightarrow> 'd graph_act" where
  "unlink_target e = update_table
     (\<lambda>g. remove_at (edge_source e) (target_link e) (node_id_to_targets g))
     (\<lambda>t g. g\<lparr>node_id_to_targets := t\<rparr>)"

definition unlink_source :: "flow_edge \<Rightarrow> 'd graph_act" where
  "unlink_source e = update_table
     (\<lambda>g. remove_at (edge_target e) (source_link e) (node_id_to_sources g))
     (\<lambda>t g. g\<lparr>node_id_to_sources := t\<rparr>)"

definition unlink_out :: "flow_edge \<Rightarrow> 'd graph_act" where
  "unlink_out e = update_table
     (\<lambda>g. rbind (lookup (node_id_to_out_handle_to_edges g) (edge_source e)) (\<lambda>d.
        rbind (remove_at (source_handle e) e d) (\<lambda>d'.
          Inr (dset (edge_source e) d' (node_id_to_out_handle_to_edges g)))))
     (\<lambda>t g. g\<lparr>node_id_to_out_handle_to_edges := t\<rparr>)"

text \<open>\<open>add_edge\<close>: the edge is stored before its ends are checked, and the table of input handles is left alone.\<close>

definition check_end :: "string \<Rightarrow> 'd graph_act" where
  "check_end n g = (if dmem n (id_to_node g) then Inr () else Inl ValueError, g)"

definition reserve_edge_name :: "string \<Rightarrow> 'd graph_act" where
  "reserve_edge_name n = update_table (\<lambda>g. pool_call n (unique_name_pool_edge g))
     (\<lambda>(_, p) g. g\<lparr>unique_name_pool_edge := p\<rparr>)"

definition store_edge :: "flow_edge \<Rightarrow> 'd graph_act" where
  "store_edge e g = (if dmem (edge_id e) (id_to_edge g) then (Inl AssertionError, g)
     else (Inr (), g\<lparr>id_to_edge := dset (edge_id e) e (id_to_edge g)\<rparr>))"

definition add_edge :: "flow_edge \<Rightarrow> 'd graph_act" where
  "add_edge e = abind (store_edge e) (\<lambda>_. abind (check_end (edge_source e)) (\<lambda>_.
     abind (check_end (edge_target e)) (\<lambda>_. abind (link_target e) (\<lambda>_. abind (link_source e) (\<lambda>_.
     abind (link_out e) (\<lambda>_. reserve_edge_name (edge_id e)))))))"

definition forget_edge :: "string \<Rightarrow> 'd graph_act" where
  "forget_edge i g = (Inr (), g\<lparr>id_to_edge := ddel i (id_to_edge g)\<rparr>)"

definition free_edge_name :: "string \<Rightarrow> 'd graph_act" where
  "free_edge_name i g = (Inr (), g\<lparr>unique_name_pool_edge := pool_pop_if_exists i (unique_name_pool_edge g)\<rparr>)"

definition remove_edge :: "string \<Rightarrow> 'd graph_act" where
  "remove_edge i g = (case dget (id_to_edge g) i of
       None \<Rightarrow> (Inl KeyError, g)
     | Some e \<Rightarrow> abind (forget_edge i) (\<lambda>_. abind (unlink_target e) (\<lambda>_. abind (unlink_source e) (\<lambda>_.
         abind (unlink_out e) (\<lambda>_. free_edge_name i)))) g)"

text \<open>\<open>dict.pop(key)\<close> on one of the tables.\<close>

definition pop_key :: "('d internals \<Rightarrow> (string, 'v) dict) \<Rightarrow>
    ((string, 'v) dict \<Rightarrow> 'd internals \<Rightarrow> 'd internals) \<Rightarrow> string \<Rightarrow> 'd graph_act" where
  "pop_key tab upd n g = (if dmem n (tab g) then (Inr (), upd (ddel n (tab g)) g) else (Inl KeyError, g))"

definition pop_node :: "string \<Rightarrow> 'd graph_act" where
  "pop_node n =
     abind (pop_key id_to_node (\<lambda>t g. g\<lparr>id_to_node := t\<rparr>) n) (\<lambda>_.
     abind (pop_key node_id_to_targets (\<lambda>t g. g\<lparr>node_id_to_targets := t\<rparr>) n) (\<lambda>_.
     abind (pop_key node_id_to_sources (\<lambda>t g. g\<lparr>node_id_to_sources := t\<rparr>) n) (\<lambda>_.
     abind (pop_key node_id_to_inp_handle_to_edges (\<lambda>t g. g\<lparr>node_id_to_inp_handle_to_edges := t\<rparr>) n) (\<lambda>_.
     abind (pop_key node_id_to_out_handle_to_edges (\<lambda>t g. g\<lparr>node_id_to_out_handle_to_edges := t\<rparr>) n) (\<lambda>_.
     (\<lambda>g. (Inr (), g\<lparr>unique_name_pool_node := pool_pop_if_exists n (unique_name_pool_node g)\<rparr>)))))))"

definition remove_touching :: "string set \<Rightarrow> flow_edge \<Rightarrow> 'd graph_act" where
  "remove_touching ids e g =
     (if edge_source e \<in> ids \<or> edge_target e \<in> ids then remove_edge (edge_id e) g else (Inr (), g))"

definition remove_nodes :: "string list \<Rightarrow> 'd graph_act" where
  "remove_nodes ids g =
     abind (afor (remove_touching (set ids)) (flow_edges g)) (\<lambda>_. afor pop_node ids) g"

text \<open>
  \<open>change_node_handles\<close>. The old handles are a Python set, whose order of iteration is not specified:
  \<open>ord\<close> is the order of this run.
\<close>

definition dropped_edges :: "(string option list \<Rightarrow> string option list) \<Rightarrow> (string option, flow_edge list) dict
    \<Rightarrow> string option list \<Rightarrow> string list" where
  "dropped_edges ord d new =
     concat (map (\<lambda>h. map edge_id (the (dget d h))) (filter (\<lambda>h. h \<notin> set new) (ord (dkeys d))))"

definition change_node_handles :: "(string option list \<Rightarrow> string option list) \<Rightarrow> string \<Rightarrow> string option list
    \<Rightarrow> string option list \<Rightarrow> ('d internals, string list) act" where
  "change_node_handles ord n new_inp new_out g =
     (case lookup (node_id_to_inp_handle_to_edges g) n of Inl e \<Rightarrow> (Inl e, g) | Inr inp \<Rightarrow>
     (case lookup (node_id_to_out_handle_to_edges g) n of Inl e \<Rightarrow> (Inl e, g) | Inr out \<Rightarrow>
       (let ids = dropped_edges ord inp new_inp @ dropped_edges ord out new_out
        in abind (afor remove_edge ids) (\<lambda>_. aret ids) g)))"

text \<open>A dict comprehension over a list: a later element replaces an earlier one in its position.\<close>

definition dict_by :: "('v \<Rightarrow> 'k) \<Rightarrow> ('v \<Rightarrow> 'w) \<Rightarrow> 'v list \<Rightarrow> ('k, 'w) dict" where
  "dict_by key val xs = dupdate [] (map (\<lambda>x. (key x, val x)) xs)"

definition link_edge :: "flow_edge \<Rightarrow> 'd graph_act" where
  "link_edge e = abind (link_target e) (\<lambda>_. abind (link_source e) (\<lambda>_. abind (link_out e) (\<lambda>_. link_inp e)))"

definition reset_nodes :: "'d flow_node list \<Rightarrow> 'd graph_act" where
  "reset_nodes nodes g = (let d = dict_by node_id (\<lambda>n. n) nodes in
     (if length d = length nodes then Inr () else Inl AssertionError, g\<lparr>id_to_node := d\<rparr>))"

definition reset_edges :: "flow_edge list \<Rightarrow> 'd graph_act" where
  "reset_edges edges g = (let d = dict_by edge_id (\<lambda>e. e) edges in
     (if length d = length edges then Inr () else Inl AssertionError, g\<lparr>id_to_edge := d\<rparr>))"

definition reset_tables :: "'d flow_node list \<Rightarrow> 'd graph_act" where
  "reset_tables nodes g = (Inr (), g\<lparr>
     node_id_to_sources := dict_by node_id (\<lambda>_. []) nodes,
     node_id_to_targets := dict_by node_id (\<lambda>_. []) nodes,
     node_id_to_inp_handle_to_edges := dict_by node_id (\<lambda>_. []) nodes,
     node_id_to_out_handle_to_edges := dict_by node_id (\<lambda>_. []) nodes\<rparr>)"

text \<open>Both pools are filled with the ids of the nodes.\<close>

definition reset_pools :: "'d graph_act" where
  "reset_pools g = (let ids = set (dkeys (id_to_node g)) in
     (Inr (), g\<lparr>unique_name_pool_node := pool_init 10000 (Some ids),
        unique_name_pool_edge := pool_init 10000 (Some ids)\<rparr>))"

definition set_from_nodes_edges :: "'d flow_node list \<Rightarrow> flow_edge list \<Rightarrow> 'd graph_act" where
  "set_from_nodes_edges nodes edges =
     abind (reset_nodes nodes) (\<lambda>_. abind (reset_edges edges) (\<lambda>_. abind (reset_tables nodes) (\<lambda>_.
     abind (afor link_edge edges) (\<lambda>_. reset_pools))))"

text \<open>\<open>create_internals_with_none_handle\<close>: the same graph with every edge on the default handles.\<close>

definition create_internals_with_none_handle :: "'d internals \<Rightarrow> 'd internals res" where
  "create_internals_with_none_handle g =
     (case set_from_nodes_edges (flow_nodes g)
        (map (\<lambda>e. e\<lparr>source_handle := None, target_handle := None\<rparr>) (flow_edges g)) new_internals of
        (Inl e, _) \<Rightarrow> Inl e | (Inr _, r) \<Rightarrow> Inr r)"

subsection \<open>Tables that agree with the edges\<close>

text \<open>
  \<open>link_table key link K M t\<close>: the table has the keys \<open>K\<close>, and at each of them the links of the edges of
  \<open>M\<close> with that key, in some order. \<open>handle_table\<close> says the same of a table of edges by handle.
\<close>

definition link_table :: "(flow_edge \<Rightarrow> string) \<Rightarrow> (flow_edge \<Rightarrow> link) \<Rightarrow> string set \<Rightarrow> flow_edge multiset
    \<Rightarrow> (string, link list) dict \<Rightarrow> bool" where
  "link_table key lk K M t \<longleftrightarrow> dict_ok t \<and> set (dkeys t) = K \<and>
     (\<forall>n l. dget t n = Some l \<longrightarrow> mset l = image_mset lk (filter_mset (\<lambda>e. key e = n) M))"

definition handle_edges :: "(string option, flow_edge list) dict \<Rightarrow> string option \<Rightarrow> flow_edge list" where
  "handle_edges d h = (case dget d h of None \<Rightarrow> [] | Some es \<Rightarrow> es)"

definition handle_table :: "(flow_edge \<Rightarrow> string) \<Rightarrow> (flow_edge \<Rightarrow> string option) \<Rightarrow> string set \<Rightarrow> flow_edge multiset
    \<Rightarrow> (string, (string option, flow_edge list) dict) dict \<Rightarrow> bool" where
  "handle_table key hnd K M t \<longleftrightarrow> dict_ok t \<and> set (dkeys t) = K \<and>
     (\<forall>n d. dget t n = Some d \<longrightarrow> dict_ok d \<and>
       (\<forall>h. mset (handle_edges d h) = filter_mset (\<lambda>e. key e = n \<and> hnd e = h) M))"

definition node_keys :: "'d internals \<Rightarrow> string set" where
  "node_keys g = set (dkeys (id_to_node g))"

definition edge_bag :: "'d internals \<Rightarrow> flow_edge multiset" where
  "edge_bag g = mset (flow_edges g)"

definition tables_ok :: "string set \<Rightarrow> flow_edge multiset \<Rightarrow> 'd internals \<Rightarrow> bool" where
  "tables_ok K M g \<longleftrightarrow>
     link_table edge_source target_link K M (node_id_to_targets g) \<and>
     link_table edge_target source_link K M (node_id_to_sources g) \<and>
     handle_table edge_source source_handle K M (node_id_to_out_handle_to_edges g) \<and>
     dict_ok (node_id_to_inp_handle_to_edges g) \<and> set (dkeys (node_id_to_inp_handle_to_edges g)) = K"

definition inp_ok :: "string set \<Rightarrow> flow_edge multiset \<Rightarrow> 'd internals \<Rightarrow> bool" where
  "inp_ok K M g \<longleftrightarrow> handle_table edge_target target_handle K M (node_id_to_inp_handle_to_edges g)"

definition keyed :: "('v \<Rightarrow> 'k) \<Rightarrow> ('k, 'v) dict \<Rightarrow> bool" where
  "keyed f d \<longleftrightarrow> dict_ok d \<and> (\<forall>k v. dget d k = Some v \<longrightarrow> f v = k)"

definition core_wf :: "'d internals \<Rightarrow> bool" where
  "core_wf g \<longleftrightarrow> keyed node_id (id_to_node g) \<and> keyed edge_id (id_to_edge g) \<and>
     (\<forall>e \<in># edge_bag g. edge_source e \<in> node_keys g \<and> edge_target e \<in> node_keys g) \<and>
     tables_ok (node_keys g) (edge_bag g) g"

definition inp_wf :: "'d internals \<Rightarrow> bool" where
  "inp_wf g \<longleftrightarrow> inp_ok (node_keys g) (edge_bag g) g"

subsubsection \<open>Values of a dict as a multiset\<close>

lemma dvals_Nil [simp]: "dvals [] = []" and dvals_Cons [simp]: "dvals ((k, v) # m) = v # dvals m"
  by (simp_all add: dvals_def)

lemma ddel_not_mem: "k \<notin> set (dkeys m) \<Longrightarrow> ddel k m = m"
  by (induction m) (auto simp: ddel_def)

lemma ddel_Cons: "ddel k ((j, v) # m) = (if j = k then ddel k m else (j, v) # ddel k m)"
  by (simp add: ddel_def)

lemma mset_dvals_dset:
  "k \<notin> set (dkeys m) \<Longrightarrow> mset (dvals (dset k v m)) = add_mset v (mset (dvals m))"
  by (simp add: dset_not_mem dvals_def)

lemma mset_dvals_ddel:
  "dict_ok m \<Longrightarrow> dget m k = Some v \<Longrightarrow> mset (dvals m) = add_mset v (mset (dvals (ddel k m)))"
  by (induction m) (auto simp: dict_ok_def ddel_Cons ddel_not_mem split: if_splits)

lemma dget_in_dvals: "dget m k = Some v \<Longrightarrow> v \<in> set (dvals m)"
  by (induction m) (auto split: if_splits)

lemma dvals_dget: "dict_ok m \<Longrightarrow> v \<in> set (dvals m) \<Longrightarrow> \<exists>k. dget m k = Some v"
  by (auto simp: dvals_def dget_def dict_ok_def dkeys_def intro: map_of_is_SomeI)

lemma keyed_dget: "keyed f d \<Longrightarrow> v \<in> set (dvals d) \<Longrightarrow> dget d (f v) = Some v"
  using dvals_dget[of d v] by (auto simp: keyed_def)

lemma keyed_dset: "keyed f d \<Longrightarrow> f v = k \<Longrightarrow> keyed f (dset k v d)"
  by (auto simp: keyed_def)

lemma keyed_ddel: "keyed f d \<Longrightarrow> keyed f (ddel k d)"
  by (auto simp: keyed_def)

subsubsection \<open>Single tables\<close>

lemma link_table_get: "link_table key lk K M t \<Longrightarrow> n \<in> K \<Longrightarrow> \<exists>l. dget t n = Some l"
  by (metis dget_None_iff link_table_def not_Some_eq)

lemma handle_table_get: "handle_table key hnd K M t \<Longrightarrow> n \<in> K \<Longrightarrow> \<exists>d. dget t n = Some d"
  by (metis dget_None_iff handle_table_def not_Some_eq)

lemma link_table_append:
  assumes "link_table key lk K M t" and "key e \<in> K"
  shows "\<exists>t'. append_at (key e) (lk e) t = Some t' \<and> link_table key lk K (add_mset e M) t'"
proof -
  from link_table_get[OF assms] obtain l where l: "dget t (key e) = Some l" by blast
  have "link_table key lk K (add_mset e M) (dset (key e) (l @ [lk e]) t)"
    using assms l by (auto simp: link_table_def dict_simps)
  with l show ?thesis by (simp add: append_at_def)
qed

lemma link_table_remove:
  assumes "link_table key lk K (add_mset e M) t" and "key e \<in> K"
  shows "\<exists>t'. remove_at (key e) (lk e) t = Inr t' \<and> link_table key lk K M t'"
proof -
  from link_table_get[OF assms] obtain l where l: "dget t (key e) = Some l" by blast
  with assms have m: "mset l = add_mset (lk e) (image_mset lk (filter_mset (\<lambda>e'. key e' = key e) M))"
    by (simp add: link_table_def)
  then have mem: "lk e \<in> set l" by (metis set_mset_mset union_single_eq_member)
  have "link_table key lk K M (dset (key e) (remove1 (lk e) l) t)"
    using assms l m by (auto simp: link_table_def dict_simps)
  with l mem show ?thesis by (simp add: remove_at_def lookup_def)
qed

lemma handle_edges_dset: "handle_edges (dset h es d) j = (if j = h then es else handle_edges d j)"
  by (simp add: handle_edges_def)

lemma handle_edges_append: "handle_edges (handle_append h e d) j = handle_edges d j @ (if j = h then [e] else [])"
  by (auto simp: handle_append_def handle_edges_def split: option.splits)

lemma dict_ok_handle_append [simp]: "dict_ok d \<Longrightarrow> dict_ok (handle_append h e d)"
  by (simp add: handle_append_def split: option.split)

lemma handle_table_append:
  assumes "handle_table key hnd K M t" and "key e \<in> K"
  shows "\<exists>d. dget t (key e) = Some d \<and>
    handle_table key hnd K (add_mset e M) (dset (key e) (handle_append (hnd e) e d) t)"
proof -
  from handle_table_get[OF assms] obtain d where d: "dget t (key e) = Some d" by blast
  have "handle_table key hnd K (add_mset e M) (dset (key e) (handle_append (hnd e) e d) t)"
    using assms d by (auto simp: handle_table_def dict_simps handle_edges_append)
  with d show ?thesis by simp
qed

lemma handle_table_remove:
  assumes "handle_table key hnd K (add_mset e M) t" and "key e \<in> K"
  shows "\<exists>d d'. dget t (key e) = Some d \<and> remove_at (hnd e) e d = Inr d' \<and>
    handle_table key hnd K M (dset (key e) d' t)"
proof -
  from handle_table_get[OF assms] obtain d where d: "dget t (key e) = Some d" by blast
  with assms have m: "mset (handle_edges d (hnd e)) =
      add_mset e (filter_mset (\<lambda>e'. key e' = key e \<and> hnd e' = hnd e) M)"
    by (simp add: handle_table_def)
  then have mem: "e \<in> set (handle_edges d (hnd e))" by (metis set_mset_mset union_single_eq_member)
  then obtain es where es: "dget d (hnd e) = Some es"
    by (cases "dget d (hnd e)") (auto simp: handle_edges_def)
  with m have es': "mset es = add_mset e (filter_mset (\<lambda>e'. key e' = key e \<and> hnd e' = hnd e) M)"
    by (simp add: handle_edges_def)
  have "handle_table key hnd K M (dset (key e) (dset (hnd e) (remove1 e es) d) t)"
    using assms d es' by (auto simp: handle_table_def dict_simps handle_edges_dset)
  with d es mem show ?thesis by (simp add: remove_at_def lookup_def handle_edges_def)
qed

lemma link_table_drop_key:
  "link_table key lk K M t \<Longrightarrow> link_table key lk (K - {n}) M (ddel n t)"
  by (auto simp: link_table_def dict_simps)

lemma handle_table_drop_key:
  "handle_table key hnd K M t \<Longrightarrow> handle_table key hnd (K - {n}) M (ddel n t)"
  by (auto simp: handle_table_def dict_simps)

subsection \<open>The operations keep the tables right\<close>

lemmas table_acts = link_target_def link_source_def link_out_def link_inp_def
  unlink_target_def unlink_source_def unlink_out_def update_table_def

lemma update_table_Inr:
  "update_table f upd g = (Inr u, g') \<longleftrightarrow> (\<exists>t. f g = Inr t \<and> g' = upd t g)"
  by (auto simp: update_table_def split: sum.splits)

lemma link_tables:
  fixes g :: "'d internals"
  assumes "tables_ok K M g" and "edge_source e \<in> K" and "edge_target e \<in> K"
  obtains t s r where
    "\<And>g0 :: 'd internals. node_id_to_targets g0 = node_id_to_targets g \<Longrightarrow> link_target e g0 = (Inr (), g0\<lparr>node_id_to_targets := t\<rparr>)"
    "\<And>g0 :: 'd internals. node_id_to_sources g0 = node_id_to_sources g \<Longrightarrow> link_source e g0 = (Inr (), g0\<lparr>node_id_to_sources := s\<rparr>)"
    "\<And>g0 :: 'd internals. node_id_to_out_handle_to_edges g0 = node_id_to_out_handle_to_edges g \<Longrightarrow>
      link_out e g0 = (Inr (), g0\<lparr>node_id_to_out_handle_to_edges := r\<rparr>)"
    "tables_ok K (add_mset e M) (g\<lparr>node_id_to_targets := t, node_id_to_sources := s,
      node_id_to_out_handle_to_edges := r\<rparr>)"
proof -
  from assms obtain t where t: "append_at (edge_source e) (target_link e) (node_id_to_targets g) = Some t"
    "link_table edge_source target_link K (add_mset e M) t"
    using link_table_append[of edge_source target_link K M _ e] unfolding tables_ok_def by blast
  from assms obtain s where s: "append_at (edge_target e) (source_link e) (node_id_to_sources g) = Some s"
    "link_table edge_target source_link K (add_mset e M) s"
    using link_table_append[of edge_target source_link K M _ e] unfolding tables_ok_def by blast
  from assms obtain d where d: "dget (node_id_to_out_handle_to_edges g) (edge_source e) = Some d"
    "handle_table edge_source source_handle K (add_mset e M)
      (dset (edge_source e) (handle_append (source_handle e) e d) (node_id_to_out_handle_to_edges g))"
    using handle_table_append[of edge_source source_handle K M _ e] unfolding tables_ok_def by blast
  show thesis
    by (rule that[of t s "dset (edge_source e) (handle_append (source_handle e) e d)
        (node_id_to_out_handle_to_edges g)"])
      (use t s d assms(1) in \<open>simp_all add: table_acts lookup_def tables_ok_def\<close>)
qed

lemma unlink_tables:
  fixes g :: "'d internals"
  assumes "tables_ok K (add_mset e M) g" and "edge_source e \<in> K" and "edge_target e \<in> K"
  obtains t s r where
    "\<And>g0 :: 'd internals. node_id_to_targets g0 = node_id_to_targets g \<Longrightarrow> unlink_target e g0 = (Inr (), g0\<lparr>node_id_to_targets := t\<rparr>)"
    "\<And>g0 :: 'd internals. node_id_to_sources g0 = node_id_to_sources g \<Longrightarrow> unlink_source e g0 = (Inr (), g0\<lparr>node_id_to_sources := s\<rparr>)"
    "\<And>g0 :: 'd internals. node_id_to_out_handle_to_edges g0 = node_id_to_out_handle_to_edges g \<Longrightarrow>
      unlink_out e g0 = (Inr (), g0\<lparr>node_id_to_out_handle_to_edges := r\<rparr>)"
    "tables_ok K M (g\<lparr>node_id_to_targets := t, node_id_to_sources := s,
      node_id_to_out_handle_to_edges := r\<rparr>)"
proof -
  from assms obtain t where t: "remove_at (edge_source e) (target_link e) (node_id_to_targets g) = Inr t"
    "link_table edge_source target_link K M t"
    using link_table_remove[of edge_source target_link K e M] unfolding tables_ok_def by blast
  from assms obtain s where s: "remove_at (edge_target e) (source_link e) (node_id_to_sources g) = Inr s"
    "link_table edge_target source_link K M s"
    using link_table_remove[of edge_target source_link K e M] unfolding tables_ok_def by blast
  from assms obtain d d' where d: "dget (node_id_to_out_handle_to_edges g) (edge_source e) = Some d"
    "remove_at (source_handle e) e d = Inr d'"
    "handle_table edge_source source_handle K M (dset (edge_source e) d' (node_id_to_out_handle_to_edges g))"
    using handle_table_remove[of edge_source source_handle K e M] unfolding tables_ok_def by blast
  show thesis
    by (rule that[of t s "dset (edge_source e) d' (node_id_to_out_handle_to_edges g)"])
      (use t s d assms(1) in \<open>simp_all add: table_acts lookup_def tables_ok_def\<close>)
qed

lemma tables_ok_cong:
  assumes "node_id_to_targets g' = node_id_to_targets g" and "node_id_to_sources g' = node_id_to_sources g"
    and "node_id_to_out_handle_to_edges g' = node_id_to_out_handle_to_edges g"
    and "node_id_to_inp_handle_to_edges g' = node_id_to_inp_handle_to_edges g"
  shows "tables_ok K M g' \<longleftrightarrow> tables_ok K M g"
  using assms by (simp add: tables_ok_def)

lemma edge_bag_dset:
  "\<not> dmem (edge_id e) (id_to_edge g) \<Longrightarrow>
   mset (dvals (dset (edge_id e) e (id_to_edge g))) = add_mset e (edge_bag g)"
  by (simp add: edge_bag_def flow_edges_def dmem_def mset_dvals_dset)

lemma add_edge_outcome:
  assumes "core_wf g" and "\<not> dmem (edge_id e) (id_to_edge g)"
    and "edge_source e \<in> node_keys g" and "edge_target e \<in> node_keys g"
  obtains g1 where "add_edge e g = reserve_edge_name (edge_id e) g1" and "core_wf g1"
    and "id_to_edge g1 = dset (edge_id e) e (id_to_edge g)" and "id_to_node g1 = id_to_node g"
    and "unique_name_pool_edge g1 = unique_name_pool_edge g"
    and "node_id_to_inp_handle_to_edges g1 = node_id_to_inp_handle_to_edges g"
proof -
  let ?g0 = "g\<lparr>id_to_edge := dset (edge_id e) e (id_to_edge g)\<rparr>"
  have "tables_ok (node_keys g) (edge_bag g) g" using assms(1) by (simp add: core_wf_def)
  from this assms(3,4) show thesis
  proof (rule link_tables, goal_cases)
    case (1 t s r)
    let ?g1 = "?g0\<lparr>node_id_to_targets := t, node_id_to_sources := s, node_id_to_out_handle_to_edges := r\<rparr>"
    have ends: "dmem (edge_source e) (id_to_node g)" "dmem (edge_target e) (id_to_node g)"
      using assms(3,4) by (simp_all add: dmem_def node_keys_def)
    have eq: "add_edge e g = reserve_edge_name (edge_id e) ?g1"
      using assms(2) ends 1(1-3) by (simp add: add_edge_def store_edge_def check_end_def abind_def)
    have bag: "edge_bag ?g1 = add_mset e (edge_bag g)" and keys: "node_keys ?g1 = node_keys g"
      using edge_bag_dset[OF assms(2)] by (simp_all add: edge_bag_def flow_edges_def node_keys_def)
    have "core_wf ?g1"
      using assms 1(4) keyed_dset[of edge_id "id_to_edge g" e] unfolding core_wf_def bag keys
      by (simp add: tables_ok_def)
    with eq show thesis by (intro that[of ?g1]) simp_all
  qed
qed

lemma edge_bag_ddel:
  assumes "core_wf g" and "dget (id_to_edge g) i = Some e"
  shows "edge_bag g = add_mset e (mset (dvals (ddel i (id_to_edge g))))"
  using assms mset_dvals_ddel[of "id_to_edge g" i e]
  by (simp add: core_wf_def keyed_def edge_bag_def flow_edges_def)

lemma remove_edge_outcome:
  assumes wf: "core_wf g" and e: "dget (id_to_edge g) i = Some e"
  obtains g' where "remove_edge i g = (Inr (), g')" and "core_wf g'"
    and "id_to_edge g' = ddel i (id_to_edge g)" and "id_to_node g' = id_to_node g"
    and "node_id_to_inp_handle_to_edges g' = node_id_to_inp_handle_to_edges g"
    and "unique_name_pool_node g' = unique_name_pool_node g"
proof -
  let ?E = "mset (dvals (ddel i (id_to_edge g)))"
  have bag: "edge_bag g = add_mset e ?E" using edge_bag_ddel[OF wf e] .
  then have ends: "edge_source e \<in> node_keys g" "edge_target e \<in> node_keys g"
    using wf by (auto simp: core_wf_def)
  have "tables_ok (node_keys g) (add_mset e ?E) g" using wf bag by (simp add: core_wf_def)
  from this ends show thesis
  proof (rule unlink_tables, goal_cases)
    case (1 t s r)
    let ?g0 = "g\<lparr>id_to_edge := ddel i (id_to_edge g)\<rparr>"
    let ?g1 = "?g0\<lparr>node_id_to_targets := t, node_id_to_sources := s, node_id_to_out_handle_to_edges := r,
      unique_name_pool_edge := pool_pop_if_exists i (unique_name_pool_edge g)\<rparr>"
    have eq: "remove_edge i g = (Inr (), ?g1)"
      using e 1(1-3) by (simp add: remove_edge_def forget_edge_def free_edge_name_def abind_def)
    have bag': "edge_bag ?g1 = ?E" and keys: "node_keys ?g1 = node_keys g"
      by (simp_all add: edge_bag_def flow_edges_def node_keys_def)
    have "\<forall>e' \<in># ?E. edge_source e' \<in> node_keys g \<and> edge_target e' \<in> node_keys g"
      using wf bag by (auto simp: core_wf_def)
    then have "core_wf ?g1"
      using wf 1(4) keyed_ddel[of edge_id "id_to_edge g" i] unfolding core_wf_def bag' keys
      by (simp add: tables_ok_def)
    with eq show thesis by (intro that[of ?g1]) simp_all
  qed
qed

lemma reserve_edge_name_keeps:
  "reserve_edge_name i g = (r, g') \<Longrightarrow> \<exists>p. g' = g\<lparr>unique_name_pool_edge := p\<rparr>"
  by (auto simp: reserve_edge_name_def update_table_def split: sum.splits prod.splits intro: exI[of _ "unique_name_pool_edge g"])

lemma core_wf_pool [simp]:
  "core_wf (g\<lparr>unique_name_pool_edge := p\<rparr>) \<longleftrightarrow> core_wf g"
  "core_wf (g\<lparr>unique_name_pool_node := q\<rparr>) \<longleftrightarrow> core_wf g"
  by (simp_all add: core_wf_def node_keys_def edge_bag_def flow_edges_def tables_ok_def)

lemma add_edge_keeps:
  assumes "core_wf g" and "add_edge e g = (Inr u, g')"
  shows "core_wf g'"
proof -
  from assms(2) have c: "\<not> dmem (edge_id e) (id_to_edge g)" "edge_source e \<in> node_keys g" "edge_target e \<in> node_keys g"
    by (auto simp: add_edge_def abind_Inr store_edge_def check_end_def node_keys_def dmem_def split: if_splits)
  from assms(1) c show ?thesis
  proof (rule add_edge_outcome)
    fix g1
    assume "add_edge e g = reserve_edge_name (edge_id e) g1" and w: "core_wf g1"
    with assms(2) obtain p where "g' = g1\<lparr>unique_name_pool_edge := p\<rparr>"
      using reserve_edge_name_keeps[of "edge_id e" g1 "Inr u" g'] by auto
    with w show ?thesis by simp
  qed
qed

lemma remove_edge_keeps:
  assumes "core_wf g" and "remove_edge i g = (Inr u, g')"
  shows "core_wf g' \<and> id_to_node g' = id_to_node g \<and> id_to_edge g' = ddel i (id_to_edge g)"
proof (cases "dget (id_to_edge g) i")
  case None
  then show ?thesis using assms(2) by (simp add: remove_edge_def)
next
  case (Some e)
  from assms(1) Some show ?thesis
  proof (rule remove_edge_outcome)
    fix g1
    assume "remove_edge i g = (Inr (), g1)" "core_wf g1" "id_to_edge g1 = ddel i (id_to_edge g)" "id_to_node g1 = id_to_node g"
    then show ?thesis using assms(2) by simp
  qed
qed

subsubsection \<open>Building a graph\<close>

lemma dupdate_simps [simp]: "dupdate m [] = m" "dupdate m ((k, v) # n) = dupdate (dset k v m) n"
  by (simp_all add: dupdate_def)

lemma dupdate_keys: "set (dkeys (dupdate m n)) = set (dkeys m) \<union> set (dkeys n)"
  by (induction n arbitrary: m) (auto simp: dict_simps split: if_splits)

lemma dupdate_ok: "dict_ok m \<Longrightarrow> dict_ok (dupdate m n)"
  by (induction n arbitrary: m) auto

lemma dupdate_fresh:
  "distinct (dkeys n) \<Longrightarrow> set (dkeys m) \<inter> set (dkeys n) = {} \<Longrightarrow> dupdate m n = m @ n"
proof (induction n arbitrary: m)
  case (Cons p n)
  obtain k v where p: "p = (k, v)" by (cases p)
  from Cons.prems p have "dset k v m = m @ [(k, v)]" by (intro dset_not_mem) auto
  moreover have "set (dkeys (m @ [(k, v)])) \<inter> set (dkeys n) = {}"
    using Cons.prems p by (auto simp: dkeys_def)
  ultimately show ?case using Cons p by (simp add: dkeys_def)
qed simp

lemma dkeys_map [simp]: "dkeys (map (\<lambda>x. (f x, h x)) xs) = map f xs"
  by (induction xs) auto

lemma dict_by_ok: "dict_ok (dict_by key val xs)"
  by (simp add: dict_by_def dupdate_ok)

lemma dict_by_keys [simp]: "set (dkeys (dict_by key val xs)) = key ` set xs"
  by (simp add: dict_by_def dupdate_keys)

lemma dict_by_distinct: "distinct (map key xs) \<Longrightarrow> dict_by key val xs = map (\<lambda>x. (key x, val x)) xs"
  by (simp add: dict_by_def dupdate_fresh)

lemma dict_by_length_iff: "length (dict_by key val xs) = length xs \<longleftrightarrow> distinct (map key xs)"
proof
  assume l: "length (dict_by key val xs) = length xs"
  have "length (dict_by key val xs) = card (set (dkeys (dict_by key val xs)))"
    using dict_by_ok[of key val xs] distinct_card[of "dkeys (dict_by key val xs)"]
    by (simp add: dict_ok_def del: dict_by_keys) (simp add: dkeys_def)
  with l have "card (set (map key xs)) = length (map key xs)" by simp
  then show "distinct (map key xs)" by (rule card_distinct)
qed (simp add: dict_by_distinct)

lemma dvals_map [simp]: "dvals (map (\<lambda>x. (f x, h x)) xs) = map h xs"
  by (induction xs) auto

lemma dget_map_key: "distinct (map key xs) \<Longrightarrow> dget (map (\<lambda>x. (key x, x)) xs) k = Some v \<Longrightarrow> key v = k \<and> v \<in> set xs"
  by (induction xs) (auto split: if_splits)

lemma dget_const: "dget (dict_by key (\<lambda>_. c) xs) k = (if k \<in> key ` set xs then Some c else None)"
proof -
  have "dget (dupdate m (map (\<lambda>x. (key x, c)) xs)) k = (if k \<in> key ` set xs then Some c else dget m k)" for m
    by (induction xs arbitrary: m) auto
  then show ?thesis by (simp add: dict_by_def)
qed

lemma empty_tables:
  "tables_ok (node_id ` set nodes) {#} (snd (reset_tables nodes g))"
  "inp_ok (node_id ` set nodes) {#} (snd (reset_tables nodes g))"
  by (auto simp: reset_tables_def tables_ok_def inp_ok_def link_table_def handle_table_def handle_edges_def
      dict_by_ok dget_const split: if_splits)

lemma link_edge_outcome:
  fixes g :: "'d internals"
  assumes "tables_ok K M g" and "inp_ok K M g"
  shows "case link_edge e g of
      (Inl x, g') \<Rightarrow> x = KeyError \<and> \<not> (edge_source e \<in> K \<and> edge_target e \<in> K)
    | (Inr u, g') \<Rightarrow> edge_source e \<in> K \<and> edge_target e \<in> K \<and> tables_ok K (add_mset e M) g' \<and>
        inp_ok K (add_mset e M) g' \<and> id_to_node g' = id_to_node g \<and> id_to_edge g' = id_to_edge g"
proof (cases "edge_source e \<in> K \<and> edge_target e \<in> K")
  case True
  then have ends: "edge_source e \<in> K" "edge_target e \<in> K" by simp_all
  from assms(2) ends(2) obtain d where d: "dget (node_id_to_inp_handle_to_edges g) (edge_target e) = Some d"
    "handle_table edge_target target_handle K (add_mset e M)
      (dset (edge_target e) (handle_append (target_handle e) e d) (node_id_to_inp_handle_to_edges g))"
    using handle_table_append[of edge_target target_handle K M _ e] unfolding inp_ok_def by blast
  from assms(1) ends show ?thesis
  proof (rule link_tables, goal_cases)
    case (1 t s r)
    have "tables_ok K (add_mset e M) (g\<lparr>node_id_to_targets := t, node_id_to_sources := s,
        node_id_to_out_handle_to_edges := r, node_id_to_inp_handle_to_edges :=
        dset (edge_target e) (handle_append (target_handle e) e d) (node_id_to_inp_handle_to_edges g)\<rparr>)"
      using 1(4) d(2) by (simp add: tables_ok_def handle_table_def)
    with 1(1-3) d ends show ?case
      by (simp add: link_edge_def abind_def link_inp_def update_table_def lookup_def inp_ok_def)
  qed
next
  case False
  have t: "append_at k v d = None \<longleftrightarrow> k \<notin> set (dkeys d)" for k v and d :: "(string, link list) dict"
    by (simp add: append_at_def dget_None_iff)
  show ?thesis
  proof (cases "edge_source e \<in> K")
    case True
    with False have nt: "edge_target e \<notin> K" by simp
    have "append_at (edge_target e) (source_link e) (node_id_to_sources g) = None"
      using assms(1) nt by (simp add: t tables_ok_def link_table_def)
    moreover obtain x where "append_at (edge_source e) (target_link e) (node_id_to_targets g) = Some x"
      using assms(1) True t[of "edge_source e" "target_link e" "node_id_to_targets g"]
      by (auto simp: tables_ok_def link_table_def)
    ultimately show ?thesis
      using nt by (simp add: link_edge_def abind_def link_target_def link_source_def update_table_def)
  next
    case ns: False
    have "append_at (edge_source e) (target_link e) (node_id_to_targets g) = None"
      using assms(1) ns by (simp add: t tables_ok_def link_table_def)
    then show ?thesis using ns by (simp add: link_edge_def abind_def link_target_def update_table_def)
  qed
qed

lemma link_edges_outcome:
  fixes g :: "'d internals"
  assumes "tables_ok K M g" and "inp_ok K M g"
  shows "case afor link_edge es g of
      (Inl x, g') \<Rightarrow> x = KeyError \<and> \<not> (\<forall>e \<in> set es. edge_source e \<in> K \<and> edge_target e \<in> K)
    | (Inr u, g') \<Rightarrow> (\<forall>e \<in> set es. edge_source e \<in> K \<and> edge_target e \<in> K) \<and> tables_ok K (M + mset es) g' \<and>
        inp_ok K (M + mset es) g' \<and> id_to_node g' = id_to_node g \<and> id_to_edge g' = id_to_edge g"
  using assms
proof (induction es arbitrary: g M)
  case (Cons e es)
  note o = link_edge_outcome[OF Cons.prems, of e]
  obtain r g1 where r: "link_edge e g = (r, g1)" by (cases "link_edge e g")
  show ?case
  proof (cases r)
    case (Inl x)
    with o r show ?thesis by auto
  next
    case (Inr u)
    with o r have g1: "edge_source e \<in> K" "edge_target e \<in> K" "tables_ok K (add_mset e M) g1"
      "inp_ok K (add_mset e M) g1" "id_to_node g1 = id_to_node g" "id_to_edge g1 = id_to_edge g"
      by auto
    from Cons.IH[OF g1(3,4)] g1 r Inr show ?thesis by (auto split: prod.splits sum.splits)
  qed
qed simp

definition graph_input_ok :: "'d flow_node list \<Rightarrow> flow_edge list \<Rightarrow> bool" where
  "graph_input_ok nodes edges \<longleftrightarrow> distinct (map node_id nodes) \<and> distinct (map edge_id edges) \<and>
     (\<forall>e \<in> set edges. edge_source e \<in> node_id ` set nodes \<and> edge_target e \<in> node_id ` set nodes)"

lemma set_from_outcome:
  fixes g :: "'d internals"
  shows "case set_from_nodes_edges nodes edges g of
      (Inl x, g') \<Rightarrow> \<not> graph_input_ok nodes edges
    | (Inr u, g') \<Rightarrow> graph_input_ok nodes edges \<and> core_wf g' \<and> inp_wf g' \<and>
        flow_nodes g' = nodes \<and> flow_edges g' = edges"
proof (cases "distinct (map node_id nodes) \<and> distinct (map edge_id edges)")
  case False
  then show ?thesis
    by (auto simp: set_from_nodes_edges_def abind_def reset_nodes_def reset_edges_def Let_def
        graph_input_ok_def dict_by_length_iff)
next
  case True
  then have dn: "distinct (map node_id nodes)" and de: "distinct (map edge_id edges)" by simp_all
  let ?K = "node_id ` set nodes"
  let ?g1 = "g\<lparr>id_to_node := dict_by node_id (\<lambda>n. n) nodes, id_to_edge := dict_by edge_id (\<lambda>e. e) edges\<rparr>"
  let ?g2 = "snd (reset_tables nodes ?g1)"
  have e2: "tables_ok ?K {#} ?g2" "inp_ok ?K {#} ?g2" by (rule empty_tables)+
  have r2: "reset_tables nodes ?g1 = (Inr (), ?g2)" by (simp add: reset_tables_def)
  have n2: "id_to_node ?g2 = map (\<lambda>n. (node_id n, n)) nodes" "id_to_edge ?g2 = map (\<lambda>e. (edge_id e, e)) edges"
    using dn de by (simp_all add: reset_tables_def dict_by_distinct)
  have start: "set_from_nodes_edges nodes edges g = abind (afor link_edge edges) (\<lambda>_. reset_pools) ?g2"
  proof -
    have a: "reset_nodes nodes g = (Inr (), g\<lparr>id_to_node := dict_by node_id (\<lambda>n. n) nodes\<rparr>)"
      using dn by (simp add: reset_nodes_def Let_def dict_by_length_iff)
    have b: "reset_edges edges (g\<lparr>id_to_node := dict_by node_id (\<lambda>n. n) nodes\<rparr>) = (Inr (), ?g1)"
      using de by (simp add: reset_edges_def Let_def dict_by_length_iff)
    show ?thesis
      unfolding set_from_nodes_edges_def by (simp only: abind_step[where m = "reset_nodes nodes", OF a]
          abind_step[where m = "reset_edges edges", OF b] abind_step[where m = "reset_tables nodes", OF r2])
  qed
  obtain r g3 where r: "afor link_edge edges ?g2 = (r, g3)" by (cases "afor link_edge edges ?g2")
  show ?thesis
  proof (cases r)
    case (Inl x)
    with r link_edges_outcome[OF e2, of edges] show ?thesis
      unfolding start by (auto simp: abind_def graph_input_ok_def)
  next
    case (Inr u)
    with r link_edges_outcome[OF e2, of edges]
    have o: "\<forall>e \<in> set edges. edge_source e \<in> ?K \<and> edge_target e \<in> ?K" "tables_ok ?K (mset edges) g3"
      "inp_ok ?K (mset edges) g3" "id_to_node g3 = id_to_node ?g2" "id_to_edge g3 = id_to_edge ?g2"
      by auto
    obtain g4 where g4: "reset_pools g3 = (Inr (), g4)" and g4': "core_wf g4 = core_wf g3" "inp_wf g4 = inp_wf g3"
      "flow_nodes g4 = flow_nodes g3" "flow_edges g4 = flow_edges g3"
      by (simp add: reset_pools_def Let_def inp_wf_def inp_ok_def node_keys_def edge_bag_def flow_nodes_def flow_edges_def)
    have ns: "flow_nodes g3 = nodes" "flow_edges g3 = edges" "node_keys g3 = ?K" "edge_bag g3 = mset edges"
      using o(4,5) n2 by (simp_all add: flow_nodes_def flow_edges_def node_keys_def edge_bag_def)
    have kd: "keyed node_id (id_to_node g3)" "keyed edge_id (id_to_edge g3)"
      using dn de dget_map_key[of node_id nodes] dget_map_key[of edge_id edges]
      unfolding o(4,5) n2 keyed_def by (auto simp: dict_ok_def)
    have "core_wf g3" "inp_wf g3"
      using kd o(1-3) by (simp_all add: core_wf_def inp_wf_def ns)
    then show ?thesis
      unfolding start using r Inr g4 g4' ns o(1) dn de by (simp add: abind_def graph_input_ok_def)
  qed
qed

subsubsection \<open>Removing nodes and changing handles\<close>

lemma remove_touching_keeps:
  assumes "core_wf g" and "remove_touching ids e g = (Inr u, g')"
  shows "core_wf g' \<and> id_to_node g' = id_to_node g \<and>
    id_to_edge g' = (if edge_source e \<in> ids \<or> edge_target e \<in> ids then ddel (edge_id e) (id_to_edge g) else id_to_edge g)"
  using assms remove_edge_keeps[of g "edge_id e" u g'] by (auto simp: remove_touching_def split: if_splits)

lemma ddel_ddel_id: "dict_ok d \<Longrightarrow> ddel k d = filter (\<lambda>p. fst p \<noteq> k) d"
  by (simp add: ddel_def)

lemma remove_touching_loop:
  fixes g :: "'d internals"
  assumes "core_wf g" and "distinct (map edge_id es)" and "set es \<subseteq> set (flow_edges g)"
  obtains g' where "afor (remove_touching ids) es g = (Inr (), g')" and "core_wf g'"
    and "id_to_node g' = id_to_node g"
    and "id_to_edge g' = filter (\<lambda>p. fst p \<notin> edge_id ` {e \<in> set es. edge_source e \<in> ids \<or> edge_target e \<in> ids}) (id_to_edge g)"
proof -
  from assms have "\<exists>g'. afor (remove_touching ids) es g = (Inr (), g') \<and> core_wf g' \<and> id_to_node g' = id_to_node g \<and>
    id_to_edge g' = filter (\<lambda>p. fst p \<notin> edge_id ` {e \<in> set es. edge_source e \<in> ids \<or> edge_target e \<in> ids}) (id_to_edge g)"
  proof (induction es arbitrary: g)
    case (Cons e es)
    have kd: "keyed edge_id (id_to_edge g)" using Cons.prems(1) by (simp add: core_wf_def)
    show ?case
    proof (cases "edge_source e \<in> ids \<or> edge_target e \<in> ids")
      case False
      with Cons.IH[OF Cons.prems(1)] Cons.prems(2,3) show ?thesis
        by (simp add: remove_touching_def conj_disj_distribR Collect_disj_eq cong: conj_cong)
    next
      case True
      have get: "dget (id_to_edge g) (edge_id e) = Some e"
        using keyed_dget[OF kd, of e] Cons.prems(3) by (simp add: flow_edges_def)
      from Cons.prems(1) get obtain g1 where g1: "remove_edge (edge_id e) g = (Inr (), g1)" "core_wf g1"
        "id_to_edge g1 = ddel (edge_id e) (id_to_edge g)" "id_to_node g1 = id_to_node g"
        by (rule remove_edge_outcome)
      have sub: "set es \<subseteq> set (flow_edges g1)"
      proof
        fix f assume f: "f \<in> set es"
        with Cons.prems(2) have "edge_id f \<noteq> edge_id e" by (metis distinct.simps(2) image_eqI list.map(2) list.set_map)
        moreover have "dget (id_to_edge g) (edge_id f) = Some f"
          using keyed_dget[OF kd, of f] f Cons.prems(3) by (auto simp: flow_edges_def)
        ultimately have "dget (id_to_edge g1) (edge_id f) = Some f" by (simp add: g1)
        then show "f \<in> set (flow_edges g1)" unfolding flow_edges_def by (rule dget_in_dvals)
      qed
      from Cons.IH[OF g1(2) _ sub] Cons.prems(2) obtain g' where g': "afor (remove_touching ids) es g1 = (Inr (), g')"
        "core_wf g'" "id_to_node g' = id_to_node g1"
        "id_to_edge g' = filter (\<lambda>p. fst p \<notin> edge_id ` {e \<in> set es. edge_source e \<in> ids \<or> edge_target e \<in> ids}) (id_to_edge g1)"
        by auto
      have "id_to_edge g' = filter (\<lambda>p. fst p \<notin> edge_id ` {f \<in> set (e # es). edge_source f \<in> ids \<or> edge_target f \<in> ids}) (id_to_edge g)"
        unfolding g'(4) g1(3) ddel_def filter_filter using True by (intro filter_cong) auto
      moreover have "afor (remove_touching ids) (e # es) g = (Inr (), g')"
        using True g1(1) g'(1) by (simp add: remove_touching_def[of ids e g])
      ultimately show ?thesis using g'(2,3) g1(4) by (intro exI[of _ g']) simp
    qed
  qed simp
  then show thesis using that by blast
qed

lemma pop_key_act:
  "dmem n (tab g) \<Longrightarrow> pop_key tab upd n g = (Inr (), upd (ddel n (tab g)) g)"
  "\<not> dmem n (tab g) \<Longrightarrow> pop_key tab upd n g = (Inl KeyError, g)"
  by (simp_all add: pop_key_def)

definition drop_node :: "string \<Rightarrow> 'd internals \<Rightarrow> 'd internals" where
  "drop_node n g = g\<lparr>id_to_node := ddel n (id_to_node g), node_id_to_targets := ddel n (node_id_to_targets g),
     node_id_to_sources := ddel n (node_id_to_sources g),
     node_id_to_inp_handle_to_edges := ddel n (node_id_to_inp_handle_to_edges g),
     node_id_to_out_handle_to_edges := ddel n (node_id_to_out_handle_to_edges g),
     unique_name_pool_node := pool_pop_if_exists n (unique_name_pool_node g)\<rparr>"

lemma pop_node_ok:
  assumes "core_wf g" and "n \<in> node_keys g"
  shows "pop_node n g = (Inr (), drop_node n g)"
proof -
  from assms have "dmem n (id_to_node g)" "dmem n (node_id_to_targets g)" "dmem n (node_id_to_sources g)"
    "dmem n (node_id_to_inp_handle_to_edges g)" "dmem n (node_id_to_out_handle_to_edges g)"
    by (auto simp: core_wf_def tables_ok_def link_table_def handle_table_def dmem_def node_keys_def)
  then show ?thesis by (simp add: pop_node_def abind_def pop_key_act drop_node_def)
qed

lemma pop_node_missing: "n \<notin> node_keys g \<Longrightarrow> pop_node n g = (Inl KeyError, g)"
  by (simp add: pop_node_def abind_def pop_key_act dmem_def node_keys_def)

lemma drop_node_keeps:
  assumes "core_wf g" and "\<forall>e \<in># edge_bag g. edge_source e \<noteq> n \<and> edge_target e \<noteq> n"
  shows "core_wf (drop_node n g)" and "node_keys (drop_node n g) = node_keys g - {n}"
    and "edge_bag (drop_node n g) = edge_bag g"
    and "id_to_node (drop_node n g) = ddel n (id_to_node g)" and "id_to_edge (drop_node n g) = id_to_edge g"
proof -
  show k: "node_keys (drop_node n g) = node_keys g - {n}" and b: "edge_bag (drop_node n g) = edge_bag g"
    and "id_to_node (drop_node n g) = ddel n (id_to_node g)" and "id_to_edge (drop_node n g) = id_to_edge g"
    by (auto simp: drop_node_def node_keys_def edge_bag_def flow_edges_def dict_simps)
  from assms show "core_wf (drop_node n g)"
    unfolding core_wf_def k b
    by (auto simp: drop_node_def keyed_ddel tables_ok_def dict_simps intro: link_table_drop_key handle_table_drop_key)
qed

lemma pop_nodes_outcome:
  fixes g :: "'d internals"
  assumes "core_wf g" and "\<forall>e \<in># edge_bag g. edge_source e \<notin> set ids \<and> edge_target e \<notin> set ids"
  shows "case afor pop_node ids g of
      (Inl x, g') \<Rightarrow> x = KeyError \<and> \<not> (distinct ids \<and> set ids \<subseteq> node_keys g)
    | (Inr u, g') \<Rightarrow> distinct ids \<and> set ids \<subseteq> node_keys g \<and> core_wf g' \<and> id_to_edge g' = id_to_edge g \<and>
        id_to_node g' = filter (\<lambda>p. fst p \<notin> set ids) (id_to_node g)"
  using assms
proof (induction ids arbitrary: g)
  case (Cons n ids)
  show ?case
  proof (cases "n \<in> node_keys g")
    case False
    then show ?thesis by (simp add: pop_node_missing)
  next
    case True
    have nt: "\<forall>e \<in># edge_bag g. edge_source e \<noteq> n \<and> edge_target e \<noteq> n" using Cons.prems(2) by auto
    note k = drop_node_keeps[OF Cons.prems(1) nt]
    have ih: "case afor pop_node ids (drop_node n g) of
        (Inl x, g') \<Rightarrow> x = KeyError \<and> \<not> (distinct ids \<and> set ids \<subseteq> node_keys g - {n})
      | (Inr u, g') \<Rightarrow> distinct ids \<and> set ids \<subseteq> node_keys g - {n} \<and> core_wf g' \<and> id_to_edge g' = id_to_edge g \<and>
          id_to_node g' = filter (\<lambda>p. fst p \<notin> set ids) (ddel n (id_to_node g))"
      using Cons.IH[OF k(1)] Cons.prems(2) unfolding k by simp
    have e: "afor pop_node (n # ids) g = afor pop_node ids (drop_node n g)"
      using pop_node_ok[OF Cons.prems(1) True] by simp
    have f: "filter (\<lambda>p. fst p \<notin> set ids) (ddel n (id_to_node g)) = filter (\<lambda>p. fst p \<notin> set (n # ids)) (id_to_node g)"
      unfolding ddel_def filter_filter by (intro filter_cong) auto
    show ?thesis
      unfolding e using ih True unfolding f by (auto split: prod.splits sum.splits)
  qed
qed simp

lemma dvals_filter_keyed:
  assumes "keyed f d"
  shows "dvals (filter (\<lambda>p. P (fst p)) d) = filter (\<lambda>v. P (f v)) (dvals d)"
proof -
  have "\<And>k v. (k, v) \<in> set d \<Longrightarrow> f v = k"
    using assms by (auto simp: keyed_def dict_ok_def dget_def dkeys_def)
  then have "(\<forall>p \<in> set d. f (snd p) = fst p)" by auto
  then show ?thesis
    by (induction d) (auto simp: dvals_def)
qed

lemma remove_nodes_outcome:
  fixes g :: "'d internals"
  assumes wf: "core_wf g"
  shows "case remove_nodes ids g of
      (Inl x, g') \<Rightarrow> x = KeyError \<and> \<not> (distinct ids \<and> set ids \<subseteq> node_keys g)
    | (Inr u, g') \<Rightarrow> distinct ids \<and> set ids \<subseteq> node_keys g \<and> core_wf g' \<and>
        flow_nodes g' = filter (\<lambda>n. node_id n \<notin> set ids) (flow_nodes g) \<and>
        flow_edges g' = filter (\<lambda>e. edge_source e \<notin> set ids \<and> edge_target e \<notin> set ids) (flow_edges g)"
proof -
  have kd: "keyed edge_id (id_to_edge g)" "keyed node_id (id_to_node g)" using wf by (simp_all add: core_wf_def)
  have inj: "\<And>e f. e \<in> set (flow_edges g) \<Longrightarrow> f \<in> set (flow_edges g) \<Longrightarrow> edge_id e = edge_id f \<Longrightarrow> e = f"
    using keyed_dget[OF kd(1)] unfolding flow_edges_def by (metis option.inject)
  have dist: "distinct (map edge_id (flow_edges g))"
  proof -
    have "map edge_id (flow_edges g) = dkeys (id_to_edge g)"
      using kd(1) by (auto simp: keyed_def dict_ok_def dget_def dkeys_def flow_edges_def dvals_def)
    then show ?thesis using kd(1) by (simp add: keyed_def dict_ok_def)
  qed
  from wf dist subset_refl show ?thesis
  proof (rule remove_touching_loop[where ids = "set ids"])
    fix g1 :: "'d internals"
    assume g1: "afor (remove_touching (set ids)) (flow_edges g) g = (Inr (), g1)" "core_wf g1"
      "id_to_node g1 = id_to_node g"
      "id_to_edge g1 = filter (\<lambda>p. fst p \<notin> edge_id ` {e \<in> set (flow_edges g). edge_source e \<in> set ids \<or> edge_target e \<in> set ids}) (id_to_edge g)"
    have fe: "flow_edges g1 = filter (\<lambda>e. edge_source e \<notin> set ids \<and> edge_target e \<notin> set ids) (flow_edges g)"
      unfolding flow_edges_def g1(4)
      unfolding dvals_filter_keyed[OF kd(1), of "\<lambda>k. k \<notin> _"]
      using inj by (intro filter_cong) (auto simp: flow_edges_def image_iff)
    have nt: "\<forall>e \<in># edge_bag g1. edge_source e \<notin> set ids \<and> edge_target e \<notin> set ids"
      by (simp add: edge_bag_def fe)
    have k: "node_keys g1 = node_keys g" by (simp add: node_keys_def g1(3))
    have e: "remove_nodes ids g = afor pop_node ids g1"
      unfolding remove_nodes_def using g1(1) by (simp add: abind_def)
    show ?thesis
      unfolding e using pop_nodes_outcome[OF g1(2) nt] unfolding k
      by (auto split: prod.splits sum.splits simp: flow_nodes_def g1(3) fe[unfolded flow_edges_def]
          dvals_filter_keyed[OF kd(2), of "\<lambda>k. k \<notin> set ids"] flow_edges_def)
  qed
qed

lemma remove_edges_keep:
  "core_wf g \<Longrightarrow> afor remove_edge ids g = (Inr u, g') \<Longrightarrow> core_wf g'"
  by (rule afor_invariant[where P = core_wf and f = remove_edge]) (auto dest: remove_edge_keeps)

lemma change_node_handles_keeps:
  assumes "core_wf g" and "change_node_handles ord n inp out g = (Inr ids, g')"
  shows "core_wf g'"
  using assms remove_edges_keep[OF assms(1)]
  by (auto simp: change_node_handles_def abind_Inr aret_def Let_def split: sum.splits)

subsection \<open>The searches are exact\<close>

definition flow_rel :: "'d internals \<Rightarrow> (string \<times> string) set" where
  "flow_rel g = (\<lambda>e. (edge_source e, edge_target e)) ` set (flow_edges g)"

abbreviation id_set :: "'d flow_node list \<Rightarrow> string set" where
  "id_set ns \<equiv> node_id ` set ns"

lemma fetch_nodes:
  fixes ls :: "(string \<times> 'x) list"
  assumes "keyed node_id (id_to_node g)" and "fst ` set ls \<subseteq> node_keys g"
  shows "\<exists>ns. rmap_list (\<lambda>idh. lookup (id_to_node g) (fst idh)) ls = Inr ns \<and> id_set ns = fst ` set ls \<and>
    set ns \<subseteq> set (flow_nodes g)"
  using assms(2)
proof (induction ls)
  case (Cons l ls)
  then obtain n where n: "dget (id_to_node g) (fst l) = Some n"
    by (cases "dget (id_to_node g) (fst l)") (auto simp: node_keys_def dget_None_iff)
  then have n': "lookup (id_to_node g) (fst l) = Inr n" "node_id n = fst l" "n \<in> set (flow_nodes g)"
    using assms(1) dget_in_dvals[OF n] by (auto simp: keyed_def flow_nodes_def)
  from Cons obtain ns where "rmap_list (\<lambda>idh. lookup (id_to_node g) (fst idh)) ls = Inr ns"
    "id_set ns = fst ` set ls" "set ns \<subseteq> set (flow_nodes g)" by auto
  with n' show ?case by (auto simp: lookup_Some)
qed simp

lemma link_table_ends:
  assumes "link_table key lk K M t" and "n \<in> K"
  shows "\<exists>l. dget t n = Some l \<and> set l = lk ` {e \<in> set_mset M. key e = n}"
proof -
  from link_table_get[OF assms] obtain l where l: "dget t n = Some l" by blast
  with assms(1) have "mset l = image_mset lk (filter_mset (\<lambda>e. key e = n) M)" by (simp add: link_table_def)
  then have "set_mset (mset l) = set_mset (image_mset lk (filter_mset (\<lambda>e. key e = n) M))" by simp
  with l show ?thesis by auto
qed

lemma source_nodes_ok:
  assumes "core_wf g" and "n \<in> node_keys g"
  shows "\<exists>ns. get_source_nodes g n = Inr ns \<and> id_set ns = {m. (m, n) \<in> flow_rel g} \<and> set ns \<subseteq> set (flow_nodes g)"
proof -
  from assms obtain l where l: "dget (node_id_to_sources g) n = Some l"
    "set l = source_link ` {e \<in> set_mset (edge_bag g). edge_target e = n}"
    using link_table_ends[of edge_target source_link "node_keys g" "edge_bag g" "node_id_to_sources g" n]
    by (auto simp: core_wf_def tables_ok_def)
  then have f: "fst ` set l = {m. (m, n) \<in> flow_rel g}"
    by (force simp: flow_rel_def edge_bag_def source_link_def image_iff)
  have "fst ` set l \<subseteq> node_keys g" using assms(1) l(2) by (auto simp: core_wf_def source_link_def)
  from fetch_nodes[OF _ this] assms(1) l f show ?thesis
    by (auto simp: get_source_nodes_def lookup_def core_wf_def)
qed

lemma target_nodes_ok:
  assumes "core_wf g" and "n \<in> node_keys g"
  shows "\<exists>ns. get_target_nodes g n = Inr ns \<and> id_set ns = {m. (n, m) \<in> flow_rel g} \<and> set ns \<subseteq> set (flow_nodes g)"
proof -
  from assms obtain l where l: "dget (node_id_to_targets g) n = Some l"
    "set l = target_link ` {e \<in> set_mset (edge_bag g). edge_source e = n}"
    using link_table_ends[of edge_source target_link "node_keys g" "edge_bag g" "node_id_to_targets g" n]
    by (auto simp: core_wf_def tables_ok_def)
  then have f: "fst ` set l = {m. (n, m) \<in> flow_rel g}"
    by (force simp: flow_rel_def edge_bag_def target_link_def image_iff)
  have "fst ` set l \<subseteq> node_keys g" using assms(1) l(2) by (auto simp: core_wf_def target_link_def)
  from fetch_nodes[OF _ this] assms(1) l f show ?thesis
    by (auto simp: get_target_nodes_def lookup_def core_wf_def)
qed

lemma nodes_are_keys: "core_wf g \<Longrightarrow> n \<in> set (flow_nodes g) \<Longrightarrow> node_id n \<in> node_keys g"
  using keyed_dget[of node_id "id_to_node g" n] dget_Some_mem[of "id_to_node g" "node_id n"]
  by (auto simp: core_wf_def node_keys_def flow_nodes_def)

lemma ex_insert_diff:
  "a \<notin> A \<Longrightarrow> {m. \<exists>n \<in> insert a B - A. P m n} = {m. P m a} \<union> {m. \<exists>n \<in> B - insert a A. P m n}"
  by auto

lemma parents_round_spec:
  assumes "core_wf g" and "set ps \<subseteq> set (flow_nodes g)" and "set new \<subseteq> set (flow_nodes g)"
  shows "\<exists>new'. parents_round g acc ps new = Inr (acc \<union> id_set ps, new') \<and> set new' \<subseteq> set (flow_nodes g) \<and>
    id_set new' = id_set new \<union> {m. \<exists>n \<in> id_set ps - acc. (m, n) \<in> flow_rel g}"
  using assms(2,3)
proof (induction ps arbitrary: acc new)
  case (Cons p ps)
  show ?case
  proof (cases "node_id p \<in> acc")
    case True
    with Cons.IH[of new acc] Cons.prems show ?thesis by (auto simp: insert_absorb)
  next
    case False
    have "node_id p \<in> node_keys g" using nodes_are_keys[OF assms(1)] Cons.prems(1) by simp
    then obtain s where s: "get_source_nodes g (node_id p) = Inr s" "id_set s = {m. (m, node_id p) \<in> flow_rel g}"
      "set s \<subseteq> set (flow_nodes g)"
      using source_nodes_ok[OF assms(1)] by blast
    have "set (new @ s) \<subseteq> set (flow_nodes g)" using s(3) Cons.prems(2) by simp
    with Cons.IH[of "new @ s" "insert (node_id p) acc"] Cons.prems obtain new' where n:
      "parents_round g (insert (node_id p) acc) ps (new @ s) = Inr (insert (node_id p) acc \<union> id_set ps, new')"
      "set new' \<subseteq> set (flow_nodes g)"
      "id_set new' = id_set (new @ s) \<union> {m. \<exists>n \<in> id_set ps - insert (node_id p) acc. (m, n) \<in> flow_rel g}"
      by auto
    have "id_set new' = id_set new \<union> {m. \<exists>n \<in> id_set (p # ps) - acc. (m, n) \<in> flow_rel g}"
      unfolding n(3) set_append image_Un list.set(2) image_insert s(2)
      by (simp only: ex_insert_diff[OF False] Un_assoc)
    moreover have "parents_round g acc (p # ps) new = Inr (acc \<union> id_set (p # ps), new')"
      using n(1) False s(1) by simp
    ultimately show ?thesis using n(2) by blast
  qed
qed simp

lemma subset_step: "R \<subseteq> (A \<union> C) \<union> N \<Longrightarrow> N \<subseteq> P \<Longrightarrow> C \<subseteq> P \<Longrightarrow> R \<subseteq> A \<union> P"
  by blast

lemma pred_widen: "{m. \<exists>n \<in> {m. \<exists>n \<in> C - A. (m, n) \<in> R}. (m, n) \<in> R\<^sup>*} \<subseteq> {m. \<exists>n \<in> C. (m, n) \<in> R\<^sup>*}"
  by (auto intro: rtrancl_into_rtrancl)

lemma parents_loop_spec:
  fixes g :: "'d internals"
  assumes "core_wf g" and "set cur \<subseteq> set (flow_nodes g)" and "acc = id_set res"
    and "\<forall>n \<in> acc. \<forall>m. (m, n) \<in> flow_rel g \<longrightarrow> m \<in> id_set res \<union> id_set cur"
  shows "\<exists>out. parents_loop g acc res cur = Inr out \<and> id_set res \<union> id_set cur \<subseteq> id_set out \<and>
    (\<forall>m n. n \<in> id_set out \<longrightarrow> (m, n) \<in> flow_rel g \<longrightarrow> m \<in> id_set out) \<and>
    id_set out \<subseteq> id_set res \<union> {m. \<exists>n \<in> id_set cur. (m, n) \<in> (flow_rel g)\<^sup>*}"
  using assms
proof (induction g acc res cur rule: parents_loop.induct)
  case (1 g acc res cur)
  show ?case
  proof (cases "cur = []")
    case True
    then have "parents_loop g acc res cur = Inr res" by (subst parents_loop.simps) simp
    with True show ?thesis using "1.prems"(3,4) by (auto simp del: imageE)
  next
    case False
    from parents_round_spec[OF "1.prems"(1,2), of "[]" acc] obtain new where new:
      "parents_round g acc cur [] = Inr (acc \<union> id_set cur, new)" "set new \<subseteq> set (flow_nodes g)"
      "id_set new = {m. \<exists>n \<in> id_set cur - acc. (m, n) \<in> flow_rel g}"
      by auto
    have acc': "acc \<union> id_set cur = id_set (res @ cur)" using "1.prems"(3) by auto
    have inv: "\<forall>n \<in> acc \<union> id_set cur. \<forall>m. (m, n) \<in> flow_rel g \<longrightarrow> m \<in> id_set (res @ cur) \<union> id_set new"
    proof (intro ballI allI impI)
      fix n m
      assume n: "n \<in> acc \<union> id_set cur" "(m, n) \<in> flow_rel g"
      show "m \<in> id_set (res @ cur) \<union> id_set new"
      proof (cases "n \<in> acc")
        case True
        with n(2) "1.prems"(4) show ?thesis by (simp add: image_Un)
      next
        case False
        with n(1) have "n \<in> id_set cur - acc" by blast
        with n(2) new(3) show ?thesis by blast
      qed
    qed
    from "1.IH"[OF False new(1) refl "1.prems"(1) new(2) acc' inv] obtain out where
      out: "parents_loop g (acc \<union> id_set cur) (res @ cur) new = Inr out" "id_set (res @ cur) \<union> id_set new \<subseteq> id_set out"
      "\<forall>m n. n \<in> id_set out \<longrightarrow> (m, n) \<in> flow_rel g \<longrightarrow> m \<in> id_set out"
      "id_set out \<subseteq> id_set (res @ cur) \<union> {m. \<exists>n \<in> id_set new. (m, n) \<in> (flow_rel g)\<^sup>*}"
      by (elim exE conjE) (rule that; assumption)
    have a: "{m. \<exists>n \<in> id_set new. (m, n) \<in> (flow_rel g)\<^sup>*} \<subseteq> {m. \<exists>n \<in> id_set cur. (m, n) \<in> (flow_rel g)\<^sup>*}"
      unfolding new(3) by (rule pred_widen)
    have b: "id_set cur \<subseteq> {m. \<exists>n \<in> id_set cur. (m, n) \<in> (flow_rel g)\<^sup>*}" by auto
    have sub: "id_set out \<subseteq> id_set res \<union> {m. \<exists>n \<in> id_set cur. (m, n) \<in> (flow_rel g)\<^sup>*}"
      by (rule subset_step[OF out(4)[unfolded set_append image_Un] a b])
    have run: "parents_loop g acc res cur = Inr out"
      using False new(1) out(1) by (subst parents_loop.simps) simp
    have "id_set res \<union> id_set cur \<subseteq> id_set out" using out(2) unfolding set_append image_Un by simp
    with run sub out(3) show ?thesis by (intro exI[of _ out] conjI)
  qed
qed

definition link_rel :: "'d internals \<Rightarrow> (string \<times> string) set" where
  "link_rel g = flow_rel g \<union> (flow_rel g)\<inverse>"

lemma reach_widen: "{m. \<exists>n \<in> B \<union> {m. (c, m) \<in> R}. (n, m) \<in> R\<^sup>*} \<subseteq> {m. \<exists>n \<in> insert c B. (n, m) \<in> R\<^sup>*}"
  by (auto intro: converse_rtrancl_into_rtrancl)

lemma subset_step_insert: "S \<subseteq> insert c V \<union> N \<Longrightarrow> N \<subseteq> P \<Longrightarrow> c \<in> P \<Longrightarrow> S \<subseteq> V \<union> P"
  by blast

lemma subset_insert_step: "insert c V \<union> (B \<union> D) \<subseteq> S \<Longrightarrow> V \<union> insert c B \<subseteq> S"
  by blast

lemma connected_loop_spec:
  fixes g :: "'d internals"
  assumes "core_wf g" and "set stack \<subseteq> set (flow_nodes g)" and "set res \<subseteq> set (flow_nodes g)"
    and "vis = id_set res" and "distinct (map node_id res)"
    and "\<forall>n \<in> vis. \<forall>m. (n, m) \<in> link_rel g \<longrightarrow> m \<in> vis \<union> id_set stack"
  shows "\<exists>out. connected_loop g vis stack res = Inr out \<and> distinct (map node_id out) \<and>
    set out \<subseteq> set (flow_nodes g) \<and> vis \<union> id_set stack \<subseteq> id_set out \<and>
    (\<forall>n \<in> id_set out. \<forall>m. (n, m) \<in> link_rel g \<longrightarrow> m \<in> id_set out) \<and>
    id_set out \<subseteq> vis \<union> {m. \<exists>n \<in> id_set stack. (n, m) \<in> (link_rel g)\<^sup>*}"
  using assms
proof (induction g vis stack res rule: connected_loop.induct)
  case (1 g vis stack res)
  note simps = connected_loop.simps[of g vis stack res]
  show ?case
  proof (cases "stack = []")
    case True
    have "connected_loop g vis stack res = Inr res" by (subst simps) (simp add: True)
    with "1.prems"(3-6) True show ?thesis by (intro exI[of _ res]) auto
  next
    case False
    define cur where "cur = last stack"
    define rest where "rest = butlast stack"
    have st: "stack = rest @ [cur]" using False by (simp add: cur_def rest_def)
    then have ist: "id_set stack = insert (node_id cur) (id_set rest)" by auto
    show ?thesis
    proof (cases "node_id cur \<in> vis")
      case True
      have sub: "set rest \<subseteq> set (flow_nodes g)" using "1.prems"(2) st by auto
      have inv: "\<forall>n \<in> vis. \<forall>m. (n, m) \<in> link_rel g \<longrightarrow> m \<in> vis \<union> id_set rest"
        using "1.prems"(6) True unfolding ist by blast
      have e: "connected_loop g vis stack res = connected_loop g vis rest res"
        using False True by (subst simps) (simp add: Let_def flip: cur_def rest_def)
      from "1.IH"(1)[OF False cur_def rest_def True "1.prems"(1) sub "1.prems"(3-5) inv] obtain out where out:
        "connected_loop g vis rest res = Inr out" "distinct (map node_id out)" "set out \<subseteq> set (flow_nodes g)"
        "vis \<union> id_set rest \<subseteq> id_set out" "\<forall>n \<in> id_set out. \<forall>m. (n, m) \<in> link_rel g \<longrightarrow> m \<in> id_set out"
        "id_set out \<subseteq> vis \<union> {m. \<exists>n \<in> id_set rest. (n, m) \<in> (link_rel g)\<^sup>*}"
        by (elim exE conjE) (rule that; assumption)
      have "vis \<union> id_set stack \<subseteq> id_set out" using out(4) True unfolding ist by blast
      moreover have "id_set out \<subseteq> vis \<union> {m. \<exists>n \<in> id_set stack. (n, m) \<in> (link_rel g)\<^sup>*}"
        using out(6) unfolding ist by blast
      ultimately show ?thesis unfolding e using out(1-3,5) by (intro exI[of _ out] conjI)
    next
      case new: False
      have cn: "cur \<in> set (flow_nodes g)" using "1.prems"(2) st by auto
      then have ck: "node_id cur \<in> node_keys g" by (rule nodes_are_keys[OF "1.prems"(1)])
      obtain s where s: "get_source_nodes g (node_id cur) = Inr s" "id_set s = {m. (m, node_id cur) \<in> flow_rel g}"
        "set s \<subseteq> set (flow_nodes g)"
        using source_nodes_ok[OF "1.prems"(1) ck] by blast
      obtain t where t: "get_target_nodes g (node_id cur) = Inr t" "id_set t = {m. (node_id cur, m) \<in> flow_rel g}"
        "set t \<subseteq> set (flow_nodes g)"
        using target_nodes_ok[OF "1.prems"(1) ck] by blast
      let ?vis = "insert (node_id cur) vis" and ?stack = "rest @ (s @ t)"
      have nb: "id_set ?stack = id_set rest \<union> {m. (node_id cur, m) \<in> link_rel g}"
        unfolding set_append image_Un s(2) t(2) by (auto simp: link_rel_def)
      have e: "connected_loop g vis stack res = connected_loop g ?vis ?stack (res @ [cur])"
        using False new s(1) t(1) by (subst simps) (simp add: Let_def flip: cur_def rest_def)
      have p: "set ?stack \<subseteq> set (flow_nodes g)" "set (res @ [cur]) \<subseteq> set (flow_nodes g)"
        "?vis = id_set (res @ [cur])" "distinct (map node_id (res @ [cur]))"
        using "1.prems"(2-5) s(3) t(3) cn st new by auto
      have inv: "\<forall>n \<in> ?vis. \<forall>m. (n, m) \<in> link_rel g \<longrightarrow> m \<in> ?vis \<union> id_set ?stack"
        using "1.prems"(6) unfolding nb ist by blast
      from "1.IH"(2)[OF False cur_def rest_def new s(1) t(1) "1.prems"(1) p inv] obtain out where out:
        "connected_loop g ?vis ?stack (res @ [cur]) = Inr out" "distinct (map node_id out)"
        "set out \<subseteq> set (flow_nodes g)" "?vis \<union> id_set ?stack \<subseteq> id_set out"
        "\<forall>n \<in> id_set out. \<forall>m. (n, m) \<in> link_rel g \<longrightarrow> m \<in> id_set out"
        "id_set out \<subseteq> ?vis \<union> {m. \<exists>n \<in> id_set ?stack. (n, m) \<in> (link_rel g)\<^sup>*}"
        by (elim exE conjE) (rule that; assumption)
      have "node_id cur \<in> {m. \<exists>n \<in> insert (node_id cur) (id_set rest). (n, m) \<in> (link_rel g)\<^sup>*}" by simp
      from subset_step_insert[OF out(6)[unfolded nb] reach_widen this]
      have "id_set out \<subseteq> vis \<union> {m. \<exists>n \<in> id_set stack. (n, m) \<in> (link_rel g)\<^sup>*}" unfolding ist .
      moreover have "vis \<union> id_set stack \<subseteq> id_set out"
        using out(4) unfolding nb ist by (rule subset_insert_step)
      ultimately show ?thesis unfolding e using out(1-3,5) by (intro exI[of _ out] conjI)
    qed
  qed
qed

lemma rtrancl_closed: "(a, b) \<in> r\<^sup>* \<Longrightarrow> a \<in> S \<Longrightarrow> (\<And>x y. x \<in> S \<Longrightarrow> (x, y) \<in> r \<Longrightarrow> y \<in> S) \<Longrightarrow> b \<in> S"
  by (induction rule: rtrancl_induct) auto

text \<open>
  C19: both searches of a well-formed graph end and are exact: \<open>get_all_parent_nodes\<close> returns the nodes
  from which the given node can be reached by at least one edge, also on cycles, and
  \<open>get_all_nodes_in_connected_graph\<close> the nodes connected to it by edges in either direction, each once.
\<close>

theorem searches_exact:
  assumes "core_wf g" and "n \<in> set (flow_nodes g)"
  shows "\<exists>parents component. get_all_parent_nodes g (node_id n) = Inr parents \<and>
    id_set parents = {m. (m, node_id n) \<in> (flow_rel g)\<^sup>+} \<and>
    get_all_nodes_in_connected_graph g n = Inr component \<and> distinct (map node_id component) \<and>
    id_set component = {m. (node_id n, m) \<in> (flow_rel g \<union> (flow_rel g)\<inverse>)\<^sup>*}"
proof -
  have k: "node_id n \<in> node_keys g" by (rule nodes_are_keys[OF assms])
  obtain s where s: "get_source_nodes g (node_id n) = Inr s" "id_set s = {m. (m, node_id n) \<in> flow_rel g}"
    "set s \<subseteq> set (flow_nodes g)"
    using source_nodes_ok[OF assms(1) k] by blast
  from parents_loop_spec[OF assms(1) s(3), of "{}" "[]"] obtain out where
    out: "parents_loop g {} [] s = Inr out" "id_set s \<subseteq> id_set out"
    "\<forall>m n. n \<in> id_set out \<longrightarrow> (m, n) \<in> flow_rel g \<longrightarrow> m \<in> id_set out"
    "id_set out \<subseteq> {m. \<exists>n \<in> id_set s. (m, n) \<in> (flow_rel g)\<^sup>*}"
    by auto
  have up: "m \<in> id_set out" if "(m, node_id n) \<in> (flow_rel g)\<^sup>+" for m
    using that
  proof (induction rule: converse_trancl_induct)
    case (base y)
    then show ?case using out(2) s(2) by blast
  next
    case (step y z)
    then show ?case using out(3) by blast
  qed
  have "id_set out \<subseteq> {m. (m, node_id n) \<in> (flow_rel g)\<^sup>+}"
    using out(4) unfolding s(2) by (auto intro: rtrancl_into_trancl1)
  with up have parents: "id_set out = {m. (m, node_id n) \<in> (flow_rel g)\<^sup>+}" by blast
  from connected_loop_spec[OF assms(1), of "[n]" "[]" "{}"] assms(2) obtain c where
    c: "connected_loop g {} [n] [] = Inr c" "distinct (map node_id c)" "node_id n \<in> id_set c"
    "\<forall>n \<in> id_set c. \<forall>m. (n, m) \<in> link_rel g \<longrightarrow> m \<in> id_set c"
    "id_set c \<subseteq> {m. (node_id n, m) \<in> (link_rel g)\<^sup>*}"
    by auto
  have "{m. (node_id n, m) \<in> (link_rel g)\<^sup>*} \<subseteq> id_set c"
    using c(3,4) by (blast intro: rtrancl_closed[of _ _ "link_rel g" "id_set c"])
  with c(5) have "id_set c = {m. (node_id n, m) \<in> (flow_rel g \<union> (flow_rel g)\<inverse>)\<^sup>*}"
    unfolding link_rel_def by blast
  with c(1,2) out(1) s(1) parents show ?thesis
    by (simp add: get_all_parent_nodes_def get_all_nodes_in_connected_graph_def)
qed

text \<open>A concrete graph: a diamond with a cycle behind it and a node of its own.\<close>

definition ex_nodes :: "unit flow_node list" where
  "ex_nodes = map (\<lambda>n. \<lparr>node_id = n, node_data = ()\<rparr>) [''a'', ''b'', ''c'', ''d'', ''e'']"

definition ex_edge :: "string \<Rightarrow> string \<Rightarrow> string \<Rightarrow> flow_edge" where
  "ex_edge i a b = \<lparr>edge_id = i, edge_source = a, edge_target = b,
     source_handle = Some ''out-x'', target_handle = Some (''inp-'' @ a)\<rparr>"

definition ex_edges :: "flow_edge list" where
  "ex_edges = [ex_edge ''1'' ''a'' ''b'', ex_edge ''2'' ''a'' ''c'', ex_edge ''3'' ''b'' ''d'',
     ex_edge ''4'' ''c'' ''d'', ex_edge ''5'' ''d'' ''c'']"

definition ex_graph :: "unit internals" where
  "ex_graph = snd (set_from_nodes_edges ex_nodes ex_edges new_internals)"

lemma ex_graph_ok:
  "core_wf ex_graph \<and> inp_wf ex_graph \<and> flow_nodes ex_graph = ex_nodes \<and> flow_edges ex_graph = ex_edges"
proof -
  have "graph_input_ok ex_nodes ex_edges" by (simp add: graph_input_ok_def ex_nodes_def ex_edges_def ex_edge_def)
  with set_from_outcome[of ex_nodes ex_edges new_internals] show ?thesis
    by (auto simp: ex_graph_def split: prod.splits sum.splits)
qed

theorem searches_exact_witness:
  "\<exists>parents component. get_all_parent_nodes ex_graph ''c'' = Inr parents \<and>
     id_set parents = {m. (m, ''c'') \<in> (flow_rel ex_graph)\<^sup>+} \<and>
     get_all_nodes_in_connected_graph ex_graph \<lparr>node_id = ''c'', node_data = ()\<rparr> = Inr component \<and>
     distinct (map node_id component) \<and>
     id_set component = {m. (''c'', m) \<in> (flow_rel ex_graph \<union> (flow_rel ex_graph)\<inverse>)\<^sup>*}"
  using searches_exact[of ex_graph "\<lparr>node_id = ''c'', node_data = ()\<rparr>"] ex_graph_ok
  by (simp add: ex_nodes_def)

subsection \<open>Sequences of operations\<close>

datatype 'd graph_op =
    Set_graph "'d flow_node list" "flow_edge list"
  | Add_edge flow_edge
  | Remove_edge string
  | Remove_nodes "string list"
  | Change_handles string "string option list" "string option list"

fun run_graph_op :: "(string option list \<Rightarrow> string option list) \<Rightarrow> 'd graph_op \<Rightarrow> 'd graph_act" where
  "run_graph_op ord (Set_graph ns es) = set_from_nodes_edges ns es"
| "run_graph_op ord (Add_edge e) = add_edge e"
| "run_graph_op ord (Remove_edge i) = remove_edge i"
| "run_graph_op ord (Remove_nodes ids) = remove_nodes ids"
| "run_graph_op ord (Change_handles n inp out) = abind (change_node_handles ord n inp out) (\<lambda>_. aret ())"

lemma new_internals_wf: "core_wf new_internals"
  by (simp add: core_wf_def new_internals_def keyed_def node_keys_def edge_bag_def flow_edges_def tables_ok_def
      link_table_def handle_table_def)

lemma run_graph_op_keeps:
  assumes "core_wf g" and "run_graph_op ord oper g = (Inr u, g')"
  shows "core_wf g'"
proof (cases oper)
  case (Set_graph ns es)
  with assms(2) set_from_outcome[of ns es g] show ?thesis by simp
next
  case (Remove_nodes ids)
  with assms(2) remove_nodes_outcome[OF assms(1), of ids] show ?thesis by simp
next
  case (Change_handles n inp out)
  with assms change_node_handles_keeps[OF assms(1)] show ?thesis by (auto simp: abind_Inr aret_def)
qed (use assms in \<open>auto dest: add_edge_keeps remove_edge_keeps\<close>)

text \<open>
  C20: after any sequence of operations that returned, on a new graph and in any order of the sets the
  code iterates over, the tables of sources, targets and output handles hold exactly the edges of the
  graph, every edge joins two of its nodes, and every key of a table is a node.
\<close>

theorem graph_tables_exact:
  assumes "afor (run_graph_op ord) ops (new_internals :: 'd internals) = (Inr (), g)"
  shows "keyed node_id (id_to_node g) \<and> keyed edge_id (id_to_edge g) \<and>
    (\<forall>e \<in> set (flow_edges g). edge_source e \<in> node_keys g \<and> edge_target e \<in> node_keys g) \<and>
    link_table edge_source target_link (node_keys g) (mset (flow_edges g)) (node_id_to_targets g) \<and>
    link_table edge_target source_link (node_keys g) (mset (flow_edges g)) (node_id_to_sources g) \<and>
    handle_table edge_source source_handle (node_keys g) (mset (flow_edges g)) (node_id_to_out_handle_to_edges g)"
proof -
  have "core_wf g"
    using assms new_internals_wf run_graph_op_keeps by (rule afor_invariant)
  then show ?thesis by (simp add: core_wf_def tables_ok_def edge_bag_def)
qed

definition ex_ops :: "unit graph_op list" where
  "ex_ops = [Set_graph ex_nodes ex_edges, Remove_edge ''5'', Add_edge (ex_edge ''6'' ''c'' ''e''),
     Change_handles ''d'' [Some ''inp-b'', Some ''inp-c''] [], Remove_nodes [''b'', ''a'']]"

theorem graph_tables_exact_witness:
  "\<exists>g. afor (run_graph_op (\<lambda>xs. xs)) ex_ops new_internals = (Inr (), g) \<and>
     map edge_id (flow_edges g) = [''4'', ''6''] \<and>
     link_table edge_source target_link (node_keys g) (mset (flow_edges g)) (node_id_to_targets g)"
proof -
  obtain r g where run: "afor (run_graph_op (\<lambda>xs. xs)) ex_ops new_internals = (r, g)"
    by (cases "afor (run_graph_op (\<lambda>xs. xs)) ex_ops new_internals")
  have v: "r = Inr () \<and> map edge_id (flow_edges g) = [''4'', ''6'']"
    using arg_cong[OF run, of "\<lambda>(r, g). (r, map edge_id (flow_edges g))"]
    by code_simp (simp add: flow_edges_def dvals_def)
  show ?thesis using graph_tables_exact[of "\<lambda>xs. xs" ex_ops g] run v by auto
qed

subsection \<open>Where the graph goes wrong\<close>

text \<open>\<open>create_unique_edge_id\<close> of \<open>Flow\<close>: the pool of edge names was filled with the ids of the nodes, so it
  hands out the id of an edge that exists, and \<open>add_edge\<close> refuses it.\<close>

definition create_unique_edge_id :: "string \<Rightarrow> 'd internals \<Rightarrow> string res" where
  "create_unique_edge_id i g = rbind (pool_call i (unique_name_pool_edge g)) (\<lambda>(n, _). Inr n)"

definition create_unique_node_id :: "string \<Rightarrow> 'd internals \<Rightarrow> string res" where
  "create_unique_node_id i g = rbind (pool_call i (unique_name_pool_node g)) (\<lambda>(n, _). Inr n)"

lemma edge_id_given_twice:
  assumes "set_from_nodes_edges nodes edges g = (Inr (), g')" and "e \<in> set edges" and "edge_id e \<notin> node_id ` set nodes"
  shows "create_unique_edge_id (edge_id e) g' = Inr (edge_id e)"
    and "fst (add_edge f g') = Inl AssertionError \<or> edge_id f \<noteq> edge_id e"
proof -
  have o: "core_wf g'" "flow_nodes g' = nodes" "flow_edges g' = edges"
    using set_from_outcome[of nodes edges g] assms(1) by auto
  from assms(1) have "\<exists>g0. reset_pools g0 = (Inr (), g')" by (auto simp: set_from_nodes_edges_def abind_Inr)
  then have p: "unique_name_pool_edge g' = pool_init 10000 (Some (node_keys g'))"
    by (auto simp: reset_pools_def Let_def node_keys_def)
  have k: "node_keys g' = node_id ` set nodes"
  proof -
    have "keyed node_id (id_to_node g')" using o(1) by (simp add: core_wf_def)
    then have "map node_id (flow_nodes g') = dkeys (id_to_node g')"
      by (auto simp: keyed_def dict_ok_def dget_def dkeys_def flow_nodes_def dvals_def)
    then show ?thesis using o(2) by (metis node_keys_def list.set_map)
  qed
  show "create_unique_edge_id (edge_id e) g' = Inr (edge_id e)"
    using assms(3) by (simp add: create_unique_edge_id_def p k pool_call_def make_unique_name_def pool_init_def)
  have "dget (id_to_edge g') (edge_id e) = Some e"
    using keyed_dget[of edge_id "id_to_edge g'" e] o assms(2) by (simp add: core_wf_def flow_edges_def)
  then show "fst (add_edge f g') = Inl AssertionError \<or> edge_id f \<noteq> edge_id e"
    by (auto simp: add_edge_def abind_def store_edge_def dmem_dget)
qed

text \<open>\<open>add_edge\<close> stores an edge before it checks the ends: a refused edge stays in the graph.\<close>

lemma add_edge_keeps_refused:
  assumes "\<not> dmem (edge_id e) (id_to_edge g)" and "edge_source e \<notin> node_keys g \<or> edge_target e \<notin> node_keys g"
  shows "add_edge e g = (Inl ValueError, g\<lparr>id_to_edge := dset (edge_id e) e (id_to_edge g)\<rparr>)"
  using assms by (auto simp: add_edge_def abind_def store_edge_def check_end_def node_keys_def dmem_def)

lemma remove_edges_missing:
  fixes g :: "'d internals"
  assumes "core_wf g" and "i \<in> set ks" and "\<not> dmem i (id_to_edge g)"
  shows "fst (afor remove_edge ks g) = Inl KeyError"
  using assms
proof (induction ks arbitrary: g)
  case (Cons k ks)
  show ?case
  proof (cases "dget (id_to_edge g) k")
    case None
    then show ?thesis by (simp add: remove_edge_def)
  next
    case (Some e)
    with Cons.prems(2,3) have i: "i \<in> set ks" by (auto simp: dmem_dget)
    from Cons.prems(1) Some obtain g1 where g1: "remove_edge k g = (Inr (), g1)" "core_wf g1"
      "id_to_edge g1 = ddel k (id_to_edge g)"
      by (rule remove_edge_outcome)
    have "\<not> dmem i (id_to_edge g1)" using Cons.prems(3) by (simp add: g1(3))
    from Cons.IH[OF g1(2) i this] g1(1) show ?thesis by simp
  qed
qed simp

lemma remove_edges_others:
  fixes g :: "'d internals"
  assumes "core_wf g" and "dget (id_to_edge g) i = Some f" and "i \<notin> set ks"
  shows "dget (id_to_edge (snd (afor remove_edge ks g))) i = Some f"
  using assms
proof (induction ks arbitrary: g)
  case (Cons k ks)
  show ?case
  proof (cases "dget (id_to_edge g) k")
    case None
    then show ?thesis using Cons.prems(2) by (simp add: remove_edge_def)
  next
    case (Some e)
    from Cons.prems(1) Some obtain g1 where g1: "remove_edge k g = (Inr (), g1)" "core_wf g1"
      "id_to_edge g1 = ddel k (id_to_edge g)"
      by (rule remove_edge_outcome)
    have "dget (id_to_edge g1) i = Some f" using Cons.prems(2,3) by (auto simp: g1(3))
    from Cons.IH[OF g1(2) this] Cons.prems(3) g1(1) show ?thesis by simp
  qed
qed simp

lemma dropped_edges_set:
  assumes "\<And>xs. set (ord xs) = set xs"
  shows "set (dropped_edges ord d new) = {i. \<exists>h e. h \<notin> set new \<and> e \<in> set (handle_edges d h) \<and> i = edge_id e}"
proof -
  have "handle_edges d h = the (dget d h)" if "h \<in> set (dkeys d)" for h
    using that dget_None_iff[of d h] by (auto simp: handle_edges_def split: option.splits)
  moreover have "h \<in> set (dkeys d)" if "e \<in> set (handle_edges d h)" for e h
    using that dget_None_iff[of d h] by (cases "dget d h") (auto simp: handle_edges_def dest: dget_Some_mem)
  ultimately show ?thesis using assms by (auto simp: dropped_edges_def) (metis, metis image_eqI)
qed

lemma handle_table_edges:
  "handle_table key hnd K M t \<Longrightarrow> dget t n = Some d \<Longrightarrow> e \<in> set (handle_edges d h) \<longleftrightarrow> e \<in># M \<and> key e = n \<and> hnd e = h"
  unfolding handle_table_def by (metis (mono_tags, lifting) mem_Collect_eq set_mset_filter set_mset_mset)

lemma change_node_handles_run:
  assumes "dget (node_id_to_inp_handle_to_edges g) n = Some di" and "dget (node_id_to_out_handle_to_edges g) n = Some do"
  shows "change_node_handles ord n inp out g =
    (let ks = dropped_edges ord di inp @ dropped_edges ord do out in
     case afor remove_edge ks g of (Inl x, g') \<Rightarrow> (Inl x, g') | (Inr _, g') \<Rightarrow> (Inr ks, g'))"
  using assms by (auto simp: change_node_handles_def lookup_def abind_def aret_def Let_def split: prod.splits sum.splits)

lemma out_handles_get: "core_wf g \<Longrightarrow> n \<in> node_keys g \<Longrightarrow> \<exists>d. dget (node_id_to_out_handle_to_edges g) n = Some d"
  unfolding core_wf_def tables_ok_def by (blast intro: handle_table_get)

lemma removed_edge_stale:
  fixes g :: "'d internals"
  assumes wf: "core_wf g" "inp_wf g" and ord: "\<And>xs. set (ord xs) = set xs"
    and e: "e \<in> set (flow_edges g)" "target_handle e \<notin> set inp"
  shows "\<exists>g1 g2. remove_edge (edge_id e) g = (Inr (), g1) \<and>
    change_node_handles ord (edge_target e) inp out g1 = (Inl KeyError, g2)"
proof -
  have get: "dget (id_to_edge g) (edge_id e) = Some e"
    using wf(1) e(1) keyed_dget[of edge_id "id_to_edge g" e] by (simp add: core_wf_def flow_edges_def)
  have k: "edge_target e \<in> node_keys g" using wf(1) e(1) by (auto simp: core_wf_def edge_bag_def)
  from wf(1) get obtain g1 where g1: "remove_edge (edge_id e) g = (Inr (), g1)" "core_wf g1"
    "id_to_edge g1 = ddel (edge_id e) (id_to_edge g)" "id_to_node g1 = id_to_node g"
    "node_id_to_inp_handle_to_edges g1 = node_id_to_inp_handle_to_edges g"
    by (rule remove_edge_outcome)
  have k1: "edge_target e \<in> node_keys g1" using k by (simp add: node_keys_def g1(4))
  obtain di where di: "dget (node_id_to_inp_handle_to_edges g) (edge_target e) = Some di"
    using handle_table_get[OF wf(2)[unfolded inp_wf_def inp_ok_def] k] by blast
  obtain d' where d': "dget (node_id_to_out_handle_to_edges g1) (edge_target e) = Some d'"
    using out_handles_get[OF g1(2) k1] by blast
  have "e \<in> set (handle_edges di (target_handle e))"
    using handle_table_edges[OF wf(2)[unfolded inp_wf_def inp_ok_def] di] e(1) by (simp add: edge_bag_def)
  then have "edge_id e \<in> set (dropped_edges ord di inp)"
    unfolding dropped_edges_set[OF ord] using e(2) by blast
  then have "fst (afor remove_edge (dropped_edges ord di inp @ dropped_edges ord d' out) g1) = Inl KeyError"
    by (intro remove_edges_missing[OF g1(2), of "edge_id e"]) (simp_all add: g1(3))
  with g1(1) di d' show ?thesis
    by (auto simp: change_node_handles_run g1(5) Let_def split: prod.splits)
qed

lemma added_edge_unseen:
  fixes g :: "'d internals"
  assumes wf: "core_wf g" "inp_wf g" and ord: "\<And>xs. set (ord xs) = set xs"
    and f: "\<not> dmem (edge_id f) (id_to_edge g)" "edge_source f \<in> node_keys g" "edge_target f \<in> node_keys g"
    and n: "edge_id f \<notin> unique_set (unique_name_pool_edge g)" "edge_source f \<noteq> edge_target f"
  shows "\<exists>g1. add_edge f g = (Inr (), g1) \<and>
    (\<forall>inp out. f \<in> set (flow_edges (snd (change_node_handles ord (edge_target f) inp out g1))))"
proof -
  from wf(1) f obtain g0 where g0: "add_edge f g = reserve_edge_name (edge_id f) g0" "core_wf g0"
    "id_to_edge g0 = dset (edge_id f) f (id_to_edge g)" "id_to_node g0 = id_to_node g"
    "unique_name_pool_edge g0 = unique_name_pool_edge g"
    "node_id_to_inp_handle_to_edges g0 = node_id_to_inp_handle_to_edges g"
    by (rule add_edge_outcome)
  obtain p where p: "reserve_edge_name (edge_id f) g0 = (Inr (), g0\<lparr>unique_name_pool_edge := p\<rparr>)"
    using n(1) by (auto simp: reserve_edge_name_def update_table_def pool_call_def make_unique_name_def g0(5))
  define g1 where "g1 = g0\<lparr>unique_name_pool_edge := p\<rparr>"
  have w1: "core_wf g1" using g0(2) by (simp add: g1_def)
  have same: "id_to_edge g1 = dset (edge_id f) f (id_to_edge g)" "node_keys g1 = node_keys g"
    "node_id_to_inp_handle_to_edges g1 = node_id_to_inp_handle_to_edges g"
    by (simp_all add: g1_def g0 node_keys_def)
  obtain di where di: "dget (node_id_to_inp_handle_to_edges g1) (edge_target f) = Some di"
    using handle_table_get[OF wf(2)[unfolded inp_wf_def inp_ok_def] f(3)] by (auto simp: same)
  obtain d' where d': "dget (node_id_to_out_handle_to_edges g1) (edge_target f) = Some d'"
    using out_handles_get[OF w1] f(3) by (auto simp: same)
  have old: "edge_id e \<noteq> edge_id f" if "e \<in> set (flow_edges g)" for e
    using wf(1) that keyed_dget[of edge_id "id_to_edge g" e] f(1) by (auto simp: core_wf_def flow_edges_def dmem_dget)
  have bag: "edge_bag g1 = add_mset f (edge_bag g)"
    using f(1) by (simp add: edge_bag_def flow_edges_def same(1) mset_dvals_dset dmem_def)
  have i1: "edge_id e \<noteq> edge_id f" if "e \<in> set (handle_edges di h)" for e h
    using handle_table_edges[OF wf(2)[unfolded inp_wf_def inp_ok_def], of "edge_target f" di e h] that di old
    by (simp add: same edge_bag_def)
  have t: "handle_table edge_source source_handle (node_keys g1) (edge_bag g1) (node_id_to_out_handle_to_edges g1)"
    using w1 by (simp add: core_wf_def tables_ok_def)
  have i2: "edge_id e \<noteq> edge_id f" if "e \<in> set (handle_edges d' h)" for e h
  proof -
    have "e \<in># edge_bag g1" "edge_source e = edge_target f" using handle_table_edges[OF t d'] that by simp_all
    with n(2) have "e \<in> set (flow_edges g)" by (auto simp: bag) (simp add: edge_bag_def)
    then show ?thesis by (rule old)
  qed
  have "f \<in> set (flow_edges (snd (change_node_handles ord (edge_target f) inp out g1)))" for inp out
  proof -
    have "edge_id f \<notin> set (dropped_edges ord di inp @ dropped_edges ord d' out)"
      unfolding set_append dropped_edges_set[OF ord] using i1 i2 by force
    from remove_edges_others[OF w1 _ this, of f] have
      "dget (id_to_edge (snd (afor remove_edge (dropped_edges ord di inp @ dropped_edges ord d' out) g1))) (edge_id f) = Some f"
      by (simp add: same)
    moreover have "snd (change_node_handles ord (edge_target f) inp out g1) =
        snd (afor remove_edge (dropped_edges ord di inp @ dropped_edges ord d' out) g1)"
      by (auto simp: change_node_handles_run[OF di d'] Let_def split: prod.splits sum.splits)
    ultimately show ?thesis by (simp add: flow_edges_def dget_in_dvals)
  qed
  with g0(1) p show ?thesis by (auto simp: g1_def)
qed

text \<open>
  The table of input handles is written only when a graph is built. After an edge is removed, a
  change of its target's handles that drops the handle of the edge raises \<open>KeyError\<close>; and an edge that
  is added stays in the graph whichever handles of its target are dropped.
\<close>

lemma input_handles_go_stale:
  fixes g :: "'d internals"
  assumes "core_wf g" and "inp_wf g" and "\<And>xs. set (ord xs) = set xs"
    and "e \<in> set (flow_edges g)" and "target_handle e \<notin> set inp"
    and "\<not> dmem (edge_id f) (id_to_edge g)" and "edge_source f \<in> node_keys g" and "edge_target f \<in> node_keys g"
    and "edge_id f \<notin> unique_set (unique_name_pool_edge g)" and "edge_source f \<noteq> edge_target f"
  shows "(\<exists>g1 g2. remove_edge (edge_id e) g = (Inr (), g1) \<and>
      change_node_handles ord (edge_target e) inp out g1 = (Inl KeyError, g2)) \<and>
    (\<exists>g1. add_edge f g = (Inr (), g1) \<and>
      (\<forall>inp out. f \<in> set (flow_edges (snd (change_node_handles ord (edge_target f) inp out g1)))))"
  using removed_edge_stale[OF assms(1-5)] added_edge_unseen[OF assms(1-3) assms(6-10)] by blast

lemma input_handles_go_stale_witness:
  "(\<exists>g1 g2. remove_edge ''3'' ex_graph = (Inr (), g1) \<and>
      change_node_handles (\<lambda>xs. xs) ''d'' [] [] g1 = (Inl KeyError, g2)) \<and>
    (\<exists>g1. add_edge (ex_edge ''6'' ''c'' ''e'') ex_graph = (Inr (), g1) \<and>
      (\<forall>inp out. ex_edge ''6'' ''c'' ''e'' \<in> set (flow_edges (snd (change_node_handles (\<lambda>xs. xs) ''e'' inp out g1)))))"
proof -
  have f: "\<not> dmem ''6'' (id_to_edge ex_graph)" "node_keys ex_graph = {''a'', ''b'', ''c'', ''d'', ''e''}"
    "''6'' \<notin> unique_set (unique_name_pool_edge ex_graph)"
    by code_simp+
  have e: "ex_edge ''3'' ''b'' ''d'' \<in> set (flow_edges ex_graph)" using ex_graph_ok by (simp add: ex_edges_def)
  show ?thesis
    using input_handles_go_stale[of ex_graph "\<lambda>xs. xs" "ex_edge ''3'' ''b'' ''d''" "[]" "ex_edge ''6'' ''c'' ''e''" "[]"]
      ex_graph_ok f e by (simp add: ex_edge_def)
qed

end
