(* ===== verification/FlowMerge.thy ===== *)
theory FlowMerge
  imports FlowGraph
begin

text \<open>
  Merging groups of nodes and cutting out sub flows: \<open>FlowInternals.merge_nodes_with_data\<close>,
  \<open>merge_nodes\<close> and \<open>create_sub_flow\<close> of \<open>dock/components/flowui.py\<close>, with the tables of the edges that
  cross the border of a group (\<open>_calculate_node_group_meta\<close>) and the order corrections. The operations
  read the graph and build a new one; a merge gives the merged nodes new ids in place, so the renamed
  list is part of the result. The lemmas: a merge builds the quotient of the graph by its groups, and
  raises only when an id of a new edge is taken or a pool of 10000 names is used up; a sub flow keeps
  the edges inside the group and ties every crossing edge to a copy of its outer end.
\<close>

subsection \<open>Edges that cross the border of a group\<close>

type_synonym port = "string \<times> string option"

record group_meta =
  inside_out :: "(port, flow_edge list) dict"
  outside_out :: "(port, flow_edge list) dict"
  inside_inp :: "(port, flow_edge list) dict"
  outside_inp :: "(port, flow_edge list) dict"

definition empty_meta :: group_meta where
  "empty_meta = \<lparr>inside_out = [], outside_out = [], inside_inp = [], outside_inp = []\<rparr>"

definition source_port :: "flow_edge \<Rightarrow> port" where
  "source_port e = (edge_source e, source_handle e)"

definition target_port :: "flow_edge \<Rightarrow> port" where
  "target_port e = (edge_target e, target_handle e)"

text \<open>\<open>if key not in d: d[key] = []\<close>, then \<open>d[key].append(value)\<close>.\<close>

definition collect :: "'k \<Rightarrow> 'v \<Rightarrow> ('k, 'v list) dict \<Rightarrow> ('k, 'v list) dict" where
  "collect k v d = (case dget d k of None \<Rightarrow> dset k [v] d | Some l \<Rightarrow> dset k (l @ [v]) d)"

definition note_input :: "string set \<Rightarrow> flow_edge \<Rightarrow> group_meta \<Rightarrow> group_meta" where
  "note_input ids e m =
     (if edge_source e \<in> ids then m
      else m\<lparr>outside_out := collect (source_port e) e (outside_out m),
             inside_inp := collect (target_port e) e (inside_inp m)\<rparr>)"

text \<open>An output also records, for a merge, that its port belongs to the group \<open>gid\<close>.\<close>

definition own_port :: "string option \<Rightarrow> port \<Rightarrow> (port, string) dict \<Rightarrow> (port, string) dict" where
  "own_port gid p om =
     (case gid of None \<Rightarrow> om | Some i \<Rightarrow> if dmem p om then om else dset p i om)"

definition note_output :: "string set \<Rightarrow> string option \<Rightarrow> string option \<Rightarrow> flow_edge
    \<Rightarrow> group_meta \<times> (port, string) dict \<Rightarrow> group_meta \<times> (port, string) dict" where
  "note_output ids gid h e s =
     (if edge_target e \<in> ids then s
      else ((fst s)\<lparr>inside_out := collect (edge_source e, h) e (inside_out (fst s)),
              outside_inp := collect (target_port e) e (outside_inp (fst s))\<rparr>,
            own_port gid (edge_source e, h) (snd s)))"

definition group_node :: "'d internals \<Rightarrow> string set \<Rightarrow> string option \<Rightarrow> string
    \<Rightarrow> group_meta \<times> (port, string) dict \<Rightarrow> (group_meta \<times> (port, string) dict) res" where
  "group_node g ids gid n s =
     rbind (lookup (node_id_to_inp_handle_to_edges g) n) (\<lambda>inp.
     rbind (lookup (node_id_to_out_handle_to_edges g) n) (\<lambda>out.
       Inr (fold (\<lambda>(h, es). fold (note_output ids gid h) es) out
         (fold (\<lambda>(h, es). fold (note_input ids) es) inp (fst s), snd s))))"

definition calculate_node_group_meta :: "'d internals \<Rightarrow> string list \<Rightarrow> string option
    \<Rightarrow> (port, string) dict \<Rightarrow> (group_meta \<times> (port, string) dict) res" where
  "calculate_node_group_meta g ids gid om = rfold (group_node g (set ids) gid) ids (empty_meta, om)"

text \<open>
  \<open>_get_order_corrected_outside_out\<close> and \<open>_get_order_corrected_inside_out\<close> are the same code: the
  entries of the first table in the order in which their ports occur in the second.
\<close>

definition order_step :: "(port, flow_edge list) dict \<Rightarrow> flow_edge
    \<Rightarrow> port set \<times> (port, flow_edge list) dict \<Rightarrow> (port set \<times> (port, flow_edge list) dict) res" where
  "order_step d e s = (case s of (visited, new) \<Rightarrow>
     if source_port e \<in> visited then Inr s
     else rbind (lookup d (source_port e)) (\<lambda>es. Inr (insert (source_port e) visited, dset (source_port e) es new)))"

definition get_order_corrected :: "(port, flow_edge list) dict \<Rightarrow> (port, flow_edge list) dict
    \<Rightarrow> (port, flow_edge list) dict res" where
  "get_order_corrected d other =
     rbind (rfold (\<lambda>(_, es). rfold (order_step d) es) other ({}, [])) (\<lambda>s. Inr (snd s))"

subsection \<open>Merging\<close>

text \<open>A list of merged nodes, each with the ids of the nodes it replaces.\<close>

type_synonym 'd merge_list = "('d flow_node \<times> string list) list"

definition check_merge_id :: "'d internals \<Rightarrow> string \<Rightarrow> string set \<Rightarrow> string set res" where
  "check_merge_id g i seen =
     (if dmem i (id_to_node g) \<and> i \<notin> seen then Inr (insert i seen) else Inl AssertionError)"

definition check_merge_list :: "'d internals \<Rightarrow> 'd merge_list \<Rightarrow> string set res" where
  "check_merge_list g ml = rfold (\<lambda>(_, ids). rfold (check_merge_id g) ids) ml {}"

fun name_merged :: "'d merge_list \<Rightarrow> name_pool \<Rightarrow> 'd merge_list res" where
  "name_merged [] p = Inr []"
| "name_merged ((n, ids) # ml) p =
     rbind (pool_call (node_id n) p) (\<lambda>(i, p'). rbind (name_merged ml p') (\<lambda>ml'.
       Inr ((n\<lparr>node_id := i\<rparr>, ids) # ml')))"

definition merged_ids :: "'d merge_list \<Rightarrow> (string, string) dict" where
  "merged_ids ml = fold (\<lambda>(n, ids). fold (\<lambda>i. dset i (node_id n)) ids) ml []"

text \<open>
  The new handles: \<open>outside_handle\<close> is \<open>outside_out_to_merged_handle\<close>, keyed by an outer port and a merged
  node, \<open>inside_handle\<close> is \<open>inside_out_to_merged_handle\<close>.
\<close>

record merge_ctx =
  metas :: "(string, group_meta) dict"
  merged_out :: "(port, string) dict"
  outside_handle :: "(port \<times> string, string option) dict"
  inside_handle :: "(port, string option) dict"

definition new_ctx :: merge_ctx where
  "new_ctx = \<lparr>metas = [], merged_out = [], outside_handle = [], inside_handle = []\<rparr>"

definition name_outside :: "string \<Rightarrow> port \<times> flow_edge list \<Rightarrow> merge_ctx \<times> name_pool
    \<Rightarrow> (merge_ctx \<times> name_pool) res" where
  "name_outside mid = (\<lambda>((n, h), es) (c, p).
     case es of [] \<Rightarrow> Inl IndexError
     | e # _ \<Rightarrow> (case h of
         None \<Rightarrow> Inr (c\<lparr>outside_handle := dset ((n, h), mid) None (outside_handle c)\<rparr>, p)
       | Some hs \<Rightarrow> rbind (pool_call (case target_handle e of Some t \<Rightarrow> t | None \<Rightarrow> hs) p) (\<lambda>(i, p').
           Inr (c\<lparr>outside_handle := dset ((n, h), mid) (Some i) (outside_handle c)\<rparr>, p'))))"

definition name_inside :: "port \<times> flow_edge list \<Rightarrow> merge_ctx \<times> name_pool \<Rightarrow> (merge_ctx \<times> name_pool) res" where
  "name_inside = (\<lambda>((n, h), es) (c, p).
     case h of
       None \<Rightarrow> Inr (c\<lparr>inside_handle := dset (n, h) None (inside_handle c)\<rparr>, p)
     | Some hs \<Rightarrow> rbind (pool_call hs p) (\<lambda>(i, p').
         Inr (c\<lparr>inside_handle := dset (n, h) (Some i) (inside_handle c)\<rparr>, p')))"

definition name_group :: "'d internals \<Rightarrow> 'd flow_node \<times> string list \<Rightarrow> merge_ctx \<Rightarrow> merge_ctx res" where
  "name_group g = (\<lambda>(n, ids) c.
     rbind (calculate_node_group_meta g ids (Some (node_id n)) (merged_out c)) (\<lambda>(m, om).
     rbind (rfold (name_outside (node_id n)) (outside_out m)
         (c\<lparr>metas := dset (node_id n) m (metas c), merged_out := om\<rparr>, pool_init 10000 None)) (\<lambda>s.
     rbind (rfold name_inside (inside_out m) s) (\<lambda>s. Inr (fst s)))))"

text \<open>
  The edges built so far. \<open>origin\<close> is \<open>new_edge_id_to_edges\<close>, \<open>pairs\<close> is \<open>node_id_handle_pair_set\<close> and
  \<open>kept\<close> is \<open>non_merge_edge_id_set\<close>.
\<close>

type_synonym edge_ends = "string \<times> string \<times> string option \<times> string option"

record edge_acc =
  new_edges :: "flow_edge list"
  edge_pool :: name_pool
  origin :: "(string, flow_edge list) dict"
  pairs :: "edge_ends set"
  kept :: "string set"

definition edge_of :: "string \<Rightarrow> edge_ends \<Rightarrow> flow_edge" where
  "edge_of i k = (case k of (s, t, sh, th) \<Rightarrow>
     \<lparr>edge_id = i, edge_source = s, edge_target = t, source_handle = sh, target_handle = th\<rparr>)"

text \<open>One new edge, unless its ends are known. Only some branches of the code record the ends (\<open>mark\<close>).\<close>

definition add_merged :: "bool \<Rightarrow> edge_ends \<Rightarrow> flow_edge list \<Rightarrow> edge_acc \<Rightarrow> edge_acc res" where
  "add_merged mark k prevs a =
     (if k \<in> pairs a then Inr a
      else rbind (pool_call (fst k @ ''-'' @ fst (snd k)) (edge_pool a)) (\<lambda>(i, p).
        Inr (a\<lparr>new_edges := new_edges a @ [edge_of i k], edge_pool := p, origin := dset i prevs (origin a),
          pairs := (if mark then insert k (pairs a) else pairs a)\<rparr>)))"

definition keep_edge :: "flow_edge \<Rightarrow> edge_acc \<Rightarrow> edge_acc" where
  "keep_edge e a = (if edge_id e \<in> kept a then a
     else a\<lparr>kept := insert (edge_id e) (kept a), new_edges := new_edges a @ [e]\<rparr>)"

text \<open>The inputs, then the outputs, of a node that is not merged (with \<open>correct_inp_edge_order\<close>).\<close>

definition plain_input :: "(string, string) dict \<Rightarrow> merge_ctx \<Rightarrow> string \<Rightarrow> flow_edge \<Rightarrow> edge_acc \<Rightarrow> edge_acc res" where
  "plain_input mi c n e a =
     (case dget mi (edge_source e) of
       Some m \<Rightarrow> rbind (lookup (inside_handle c) (source_port e)) (\<lambda>sh.
         add_merged True (m, n, sh, target_handle e) [e] a)
     | None \<Rightarrow> Inr (keep_edge e a))"

definition plain_output :: "(string, string) dict \<Rightarrow> flow_edge \<Rightarrow> edge_acc \<Rightarrow> edge_acc res" where
  "plain_output mi e a = Inr (if dmem (edge_target e) mi then a else keep_edge e a)"

definition plain_edges :: "((string, (string option, flow_edge list) dict) dict) \<Rightarrow> (string \<Rightarrow> flow_edge \<Rightarrow> edge_acc \<Rightarrow> edge_acc res)
    \<Rightarrow> 'd flow_node \<Rightarrow> edge_acc \<Rightarrow> edge_acc res" where
  "plain_edges tab f n a = rbind (lookup tab (node_id n)) (\<lambda>d. rfold (\<lambda>(_, es). rfold (f (node_id n)) es) d a)"

text \<open>The inputs and the outputs of a merged node.\<close>

definition merged_input :: "merge_ctx \<Rightarrow> string \<Rightarrow> port \<times> flow_edge list \<Rightarrow> edge_acc \<Rightarrow> edge_acc res" where
  "merged_input c mid = (\<lambda>(p, es) a.
     rbind (lookup (outside_handle c) (p, mid)) (\<lambda>th.
       case dget (merged_out c) p of
         Some m \<Rightarrow> rbind (lookup (inside_handle c) p) (\<lambda>sh. add_merged True (m, mid, sh, th) es a)
       | None \<Rightarrow> (case es of [] \<Rightarrow> Inl IndexError
           | e # _ \<Rightarrow> add_merged False (edge_source e, mid, source_handle e, th) es a)))"

definition merged_output_edge :: "(string, string) dict \<Rightarrow> merge_ctx \<Rightarrow> string \<Rightarrow> port \<Rightarrow> string option
    \<Rightarrow> flow_edge list \<Rightarrow> flow_edge \<Rightarrow> edge_acc \<Rightarrow> edge_acc res" where
  "merged_output_edge mi c mid p sh es e a =
     (case dget mi (edge_target e) of
       Some m \<Rightarrow> rbind (lookup (outside_handle c) (p, m)) (\<lambda>th. add_merged True (mid, m, sh, th) es a)
     | None \<Rightarrow> add_merged False (mid, edge_target e, sh, target_handle e) es a)"

definition merged_output :: "(string, string) dict \<Rightarrow> merge_ctx \<Rightarrow> string \<Rightarrow> port \<times> flow_edge list
    \<Rightarrow> edge_acc \<Rightarrow> edge_acc res" where
  "merged_output mi c mid = (\<lambda>(p, es) a.
     rbind (lookup (inside_handle c) p) (\<lambda>sh. rfold (merged_output_edge mi c mid p sh es) es a))"

definition merged_edges :: "bool \<Rightarrow> (string, string) dict \<Rightarrow> merge_ctx \<Rightarrow> 'd flow_node \<times> string list
    \<Rightarrow> edge_acc \<Rightarrow> edge_acc res" where
  "merged_edges correct mi c = (\<lambda>(n, _) a.
     rbind (lookup (metas c) (node_id n)) (\<lambda>m.
     rbind (if correct then get_order_corrected (outside_out m) (inside_inp m) else Inr (outside_out m)) (\<lambda>oo.
     rbind (if correct then get_order_corrected (inside_out m) (outside_inp m) else Inr (inside_out m)) (\<lambda>io.
     rbind (rfold (merged_input c (node_id n)) oo a) (rfold (merged_output mi c (node_id n)) io)))))"

text \<open>The data of nodes and edges that follow the graph.\<close>

definition merge_node_data :: "'d merge_list \<Rightarrow> 'x list option \<Rightarrow> (string, 'x) dict option \<Rightarrow> 'd internals
    \<Rightarrow> (string, 'x) dict option res" where
  "merge_node_data ml md nd r = (case nd of None \<Rightarrow> Inr None | Some d \<Rightarrow>
     (case md of None \<Rightarrow> Inl AssertionError | Some xs \<Rightarrow>
       if length xs = length ml
       then Inr (Some (fold (\<lambda>((n, _), x). dset (node_id n) x) (zip ml xs)
              (filter (\<lambda>p. dmem (fst p) (id_to_node r)) d)))
       else Inl AssertionError))"

definition copy_edge_data :: "(string, 'y) dict \<Rightarrow> string \<times> flow_edge list \<Rightarrow> (string, 'y) dict
    \<Rightarrow> (string, 'y) dict res" where
  "copy_edge_data d = (\<lambda>(i, prevs) new. case prevs of [] \<Rightarrow> Inl IndexError
     | e # _ \<Rightarrow> Inr (case dget d (edge_id e) of None \<Rightarrow> new | Some y \<Rightarrow> dset i y new))"

definition merge_edge_data :: "(string, flow_edge list) dict \<Rightarrow> (string, 'y) dict option \<Rightarrow> 'd internals
    \<Rightarrow> (string, 'y) dict option res" where
  "merge_edge_data org ed r = (case ed of None \<Rightarrow> Inr None | Some d \<Rightarrow>
     rbind (rfold (copy_edge_data d) org (filter (\<lambda>p. dmem (fst p) (id_to_edge r)) d)) (\<lambda>d'. Inr (Some d')))"

definition new_acc :: "flow_edge list \<Rightarrow> edge_acc" where
  "new_acc es = \<lparr>new_edges = es, edge_pool = pool_init 10000 (Some (edge_id ` set es)), origin = [],
     pairs = {}, kept = {}\<rparr>"

definition build_merged_edges :: "'d internals \<Rightarrow> bool \<Rightarrow> 'd merge_list \<Rightarrow> (string, string) dict \<Rightarrow> merge_ctx
    \<Rightarrow> 'd flow_node list \<Rightarrow> edge_acc res" where
  "build_merged_edges g correct ml mi c plain =
     rbind (if correct
       then rbind (rfold (plain_edges (node_id_to_inp_handle_to_edges g) (plain_input mi c)) plain (new_acc []))
         (rfold (plain_edges (node_id_to_out_handle_to_edges g) (\<lambda>_. plain_output mi)) plain)
       else Inr (new_acc (filter (\<lambda>e. \<not> dmem (edge_source e) mi \<and> \<not> dmem (edge_target e) mi) (flow_edges g))))
       (rfold (merged_edges correct mi c) ml)"

record ('d, 'x, 'y) merge_result =
  merged_list :: "'d merge_list"
  merged_graph :: "'d internals"
  edge_origin :: "(string, flow_edge list) dict"
  new_node_data :: "(string, 'x) dict option"
  new_edge_data :: "(string, 'y) dict option"

definition fresh_graph :: "'d flow_node list \<Rightarrow> flow_edge list \<Rightarrow> 'd internals res" where
  "fresh_graph ns es = (case set_from_nodes_edges ns es new_internals of
     (Inl e, _) \<Rightarrow> Inl e | (Inr _, r) \<Rightarrow> Inr r)"

definition merge_nodes_with_data :: "'d internals \<Rightarrow> 'd merge_list \<Rightarrow> 'x list option \<Rightarrow> (string, 'x) dict option
    \<Rightarrow> (string, 'y) dict option \<Rightarrow> bool \<Rightarrow> ('d, 'x, 'y) merge_result res" where
  "merge_nodes_with_data g ml0 md nd ed correct =
     rbind (check_merge_list g ml0) (\<lambda>gone.
     rbind (name_merged ml0 (pool_init 10000 (Some (set (dkeys (id_to_node g)) - gone)))) (\<lambda>ml.
     let mi = merged_ids ml; plain = filter (\<lambda>n. node_id n \<notin> gone) (flow_nodes g) in
     rbind (rfold (name_group g) ml new_ctx) (\<lambda>c.
     rbind (build_merged_edges g correct ml mi c plain) (\<lambda>a.
     rbind (fresh_graph (map fst ml @ plain) (new_edges a)) (\<lambda>r.
     rbind (merge_node_data ml md nd r) (\<lambda>nd'.
     rbind (merge_edge_data (origin a) ed r) (\<lambda>ed'.
       Inr \<lparr>merged_list = ml, merged_graph = r, edge_origin = origin a, new_node_data = nd', new_edge_data = ed'\<rparr>)))))))"

definition merge_nodes :: "'d internals \<Rightarrow> 'd merge_list \<Rightarrow> ('d internals \<times> (string, flow_edge list) dict) res" where
  "merge_nodes g ml =
     rbind (merge_nodes_with_data g ml (None :: unit list option) None (None :: (string, unit) dict option) True)
       (\<lambda>r. Inr (merged_graph r, edge_origin r))"

subsection \<open>Sub flows\<close>

text \<open>The data of \<open>Node\<close> a sub flow touches: its type and, unless it is undefined, the ids of its handles.\<close>

record 'd flow_node_data =
  source_handle_ids :: "string option list option"
  target_handle_ids :: "string option list option"
  rest_data :: 'd

record 'd ui_node =
  node_type :: "string option"
  ui_data :: "'d flow_node_data option"

definition as_input :: "string \<Rightarrow> string \<Rightarrow> 'd ui_node flow_node \<Rightarrow> 'd ui_node flow_node" where
  "as_input ty i n = n\<lparr>node_id := i, node_data := (node_data n)\<lparr>node_type := Some ty,
     ui_data := map_option (\<lambda>d. d\<lparr>target_handle_ids := None\<rparr>) (ui_data (node_data n))\<rparr>\<rparr>"

definition as_output :: "string \<Rightarrow> string \<Rightarrow> 'd ui_node flow_node \<Rightarrow> 'd ui_node flow_node" where
  "as_output ty i n = n\<lparr>node_id := i, node_data := (node_data n)\<lparr>node_type := Some ty,
     ui_data := map_option (\<lambda>d. d\<lparr>target_handle_ids := source_handle_ids d, source_handle_ids := None\<rparr>)
       (ui_data (node_data n))\<rparr>\<rparr>"

record 'd sub_acc =
  sub_pool :: name_pool
  sub_pairs :: "('d ui_node flow_node \<times> flow_edge list) list"

text \<open>One new border node and the edges that end at it.\<close>

definition border_node :: "'d ui_node internals \<Rightarrow> (string \<Rightarrow> 'd ui_node flow_node \<Rightarrow> 'd ui_node flow_node)
    \<Rightarrow> (string \<Rightarrow> string option \<Rightarrow> flow_edge \<Rightarrow> flow_edge) \<Rightarrow> port \<times> flow_edge list \<Rightarrow> 'd sub_acc \<Rightarrow> 'd sub_acc res" where
  "border_node g mk tie = (\<lambda>((n, h), es) a.
     rbind (lookup (id_to_node g) n) (\<lambda>orig. rbind (pool_call n (sub_pool a)) (\<lambda>(i, p).
       Inr (a\<lparr>sub_pool := p, sub_pairs := sub_pairs a @ [(mk i orig, map (tie i h) es)]\<rparr>))))"

definition tie_source :: "string \<Rightarrow> string option \<Rightarrow> flow_edge \<Rightarrow> flow_edge" where
  "tie_source i h e = e\<lparr>edge_source := i, source_handle := h\<rparr>"

definition tie_target :: "string \<Rightarrow> string option \<Rightarrow> flow_edge \<Rightarrow> flow_edge" where
  "tie_target i h e = e\<lparr>edge_target := i, target_handle := h\<rparr>"

definition create_sub_flow :: "'d ui_node internals \<Rightarrow> string list \<Rightarrow> string \<Rightarrow> string
    \<Rightarrow> ('d ui_node internals \<times> ('d ui_node flow_node \<times> flow_edge list) list
        \<times> ('d ui_node flow_node \<times> flow_edge list) list) res" where
  "create_sub_flow g ids input_type output_type =
     (if \<not> distinct ids \<or> (\<exists>i \<in> set ids. \<not> dmem i (id_to_node g)) then Inl AssertionError else
      rbind (calculate_node_group_meta g ids None []) (\<lambda>(m, _).
      rbind (rmap_list (lookup (id_to_node g)) ids) (\<lambda>inner.
      rbind (rfold (border_node g (as_input input_type) tie_source) (outside_out m)
          \<lparr>sub_pool = pool_init 10000 (Some (set ids)), sub_pairs = []\<rparr>) (\<lambda>a.
      rbind (rfold (border_node g (as_output output_type) tie_target) (inside_out m)
          \<lparr>sub_pool = sub_pool a, sub_pairs = []\<rparr>) (\<lambda>b.
      rbind (fresh_graph (inner @ map fst (sub_pairs a) @ map fst (sub_pairs b))
          (filter (\<lambda>e. edge_source e \<in> set ids \<and> edge_target e \<in> set ids) (flow_edges g)
            @ concat (map snd (sub_pairs a)) @ concat (map snd (sub_pairs b)))) (\<lambda>r.
        Inr (r, sub_pairs a, sub_pairs b)))))))"

subsection \<open>Tables of crossing edges\<close>

definition groups :: "('v \<Rightarrow> 'k) \<Rightarrow> 'v list \<Rightarrow> ('k, 'v list) dict" where
  "groups key xs = fold (\<lambda>x. collect (key x) x) xs []"

lemma groups_Nil [simp]: "groups key [] = []"
  by (simp add: groups_def)

lemma groups_snoc: "groups key (xs @ [x]) = collect (key x) x (groups key xs)"
  by (simp add: groups_def)

lemma dict_ok_groups [simp]: "dict_ok (groups key xs)"
  by (induction xs rule: rev_induct) (simp_all add: groups_snoc collect_def split: option.split)

lemma dget_groups:
  "dget (groups key xs) k = (if k \<in> key ` set xs then Some (filter (\<lambda>x. key x = k) xs) else None)"
proof (induction xs rule: rev_induct)
  case (snoc x xs)
  then show ?case
    by (cases "key x = k") (auto simp: groups_snoc collect_def image_iff filter_empty_conv split: option.split)
qed simp

lemma length_dset_le: "length (dset k v d) \<le> Suc (length d)"
  by (induction d) auto

lemma length_groups: "length (groups key xs) \<le> length xs"
proof (induction xs rule: rev_induct)
  case (snoc x xs)
  have "length (collect (key x) x (groups key xs)) \<le> Suc (length (groups key xs))"
    by (simp add: collect_def length_dset_le split: option.split)
  with snoc show ?case by (simp add: groups_snoc)
qed simp

lemma groups_items:
  "(k, es) \<in> set (groups key xs) \<longleftrightarrow> k \<in> key ` set xs \<and> es = filter (\<lambda>x. key x = k) xs"
  by (auto simp: dict_items dget_groups)

definition meta_of :: "flow_edge list \<Rightarrow> flow_edge list \<Rightarrow> group_meta" where
  "meta_of Ls Os = \<lparr>inside_out = groups source_port Os, outside_out = groups source_port Ls,
     inside_inp = groups target_port Ls, outside_inp = groups target_port Os\<rparr>"

lemma fold_items: "fold (\<lambda>(h, es). fold f es) d s = fold f (concat (map snd d)) s"
  by (induction d arbitrary: s) auto

lemma fold_note_input:
  "fold (note_input ids) es (meta_of Ls Os) = meta_of (Ls @ filter (\<lambda>e. edge_source e \<notin> ids) es) Os"
  by (induction es arbitrary: Ls) (simp_all add: note_input_def meta_of_def groups_snoc[symmetric])

lemma fold_note_output:
  "fold (\<lambda>e. note_output ids gid (source_handle e) e) es (meta_of Ls Os, om) =
   (meta_of Ls (Os @ filter (\<lambda>e. edge_target e \<notin> ids) es),
    fold (own_port gid) (map source_port (filter (\<lambda>e. edge_target e \<notin> ids) es)) om)"
  by (induction es arbitrary: Os om)
    (simp_all add: note_output_def meta_of_def source_port_def[symmetric] groups_snoc[symmetric])

lemma note_output_items:
  "\<forall>(h, es) \<in> set d. \<forall>e \<in> set es. source_handle e = h \<Longrightarrow>
   fold (\<lambda>(h, es). fold (note_output ids gid h) es) d s =
   fold (\<lambda>e. note_output ids gid (source_handle e) e) (concat (map snd d)) s"
proof (induction d arbitrary: s)
  case (Cons p d)
  obtain h es where p: "p = (h, es)" by (cases p)
  have "fold (note_output ids gid h) es s = fold (\<lambda>e. note_output ids gid (source_handle e) e) es s"
    using Cons.prems by (intro fold_cong) (auto simp: p)
  with Cons show ?case by (simp add: p)
qed simp

lemma dget_own_ports:
  "dget (fold (own_port gid) ps om) p =
   (case dget om p of Some m \<Rightarrow> Some m | None \<Rightarrow> if p \<in> set ps then gid else None)"
  by (induction ps arbitrary: om) (auto simp: own_port_def dmem_dget split: option.splits)

lemma count_items:
  "dict_ok d \<Longrightarrow> \<forall>(h, es) \<in> set d. \<forall>e \<in> set es. hnd e = h \<Longrightarrow>
   count (mset (concat (map snd d))) e = count (mset (handle_edges d (hnd e))) e"
proof (induction d)
  case (Cons p d)
  obtain h es where p: "p = (h, es)" by (cases p)
  have ih: "count (mset (concat (map snd d))) e = count (mset (handle_edges d (hnd e))) e" and h: "h \<notin> set (dkeys d)"
    using Cons by (auto simp: p dict_ok_def)
  have z: "count (mset es) e = 0" if "hnd e \<noteq> h"
  proof -
    have "e \<notin> set es" using that Cons.prems(2) by (auto simp: p)
    then show ?thesis by (simp add: count_mset_0_iff)
  qed
  show ?case
    using ih h z by (cases "hnd e = h") (auto simp: p handle_edges_def dget_None_iff[THEN iffD2])
qed (simp add: handle_edges_def)

lemma handle_items:
  assumes t: "handle_table key hnd K M t" and d: "dget t n = Some d"
  shows "mset (concat (map snd d)) = {#e \<in># M. key e = n#}"
    and "\<forall>(h, es) \<in> set d. \<forall>e \<in> set es. hnd e = h"
proof -
  have ok: "dict_ok d" and m: "\<And>h. mset (handle_edges d h) = {#e \<in># M. key e = n \<and> hnd e = h#}"
    using t d by (auto simp: handle_table_def)
  show h: "\<forall>(h, es) \<in> set d. \<forall>e \<in> set es. hnd e = h"
  proof safe
    fix h es e
    assume "(h, es) \<in> set d" "e \<in> set es"
    then have "e \<in># mset (handle_edges d h)" using ok by (simp add: handle_edges_def dict_items)
    then show "hnd e = h" unfolding m by simp
  qed
  show "mset (concat (map snd d)) = {#e \<in># M. key e = n#}"
    by (rule multiset_eqI, unfold count_items[OF ok h] m) simp
qed

lemma group_node_outcome:
  assumes "core_wf g" and "inp_wf g" and "n \<in> node_keys g"
  obtains Ls' Os' where
    "group_node g S gid n (meta_of Ls Os, om) = Inr (meta_of (Ls @ Ls') (Os @ Os'), fold (own_port gid) (map source_port Os') om)"
    "mset Ls' = {#e \<in># edge_bag g. edge_target e = n \<and> edge_source e \<notin> S#}"
    "mset Os' = {#e \<in># edge_bag g. edge_source e = n \<and> edge_target e \<notin> S#}"
proof -
  have ti: "handle_table edge_target target_handle (node_keys g) (edge_bag g) (node_id_to_inp_handle_to_edges g)"
    and to: "handle_table edge_source source_handle (node_keys g) (edge_bag g) (node_id_to_out_handle_to_edges g)"
    using assms by (simp_all add: core_wf_def tables_ok_def inp_wf_def inp_ok_def)
  from handle_table_get[OF ti assms(3)] obtain inp where inp: "dget (node_id_to_inp_handle_to_edges g) n = Some inp" ..
  from handle_table_get[OF to assms(3)] obtain out where out: "dget (node_id_to_out_handle_to_edges g) n = Some out" ..
  let ?Ls = "filter (\<lambda>e. edge_source e \<notin> S) (concat (map snd inp))"
  let ?Os = "filter (\<lambda>e. edge_target e \<notin> S) (concat (map snd out))"
  note oi = note_output_items[OF handle_items(2)[OF to out]]
  have "group_node g S gid n (meta_of Ls Os, om) = Inr (meta_of (Ls @ ?Ls) (Os @ ?Os), fold (own_port gid) (map source_port ?Os) om)"
    by (simp add: group_node_def lookup_Some[OF inp] lookup_Some[OF out] fold_items oi fold_note_input fold_note_output)
  moreover have "mset ?Ls = {#e \<in># edge_bag g. edge_target e = n \<and> edge_source e \<notin> S#}"
    unfolding mset_filter handle_items(1)[OF ti inp] by (simp add: filter_filter_mset conj_commute)
  moreover have "mset ?Os = {#e \<in># edge_bag g. edge_source e = n \<and> edge_target e \<notin> S#}"
    unfolding mset_filter handle_items(1)[OF to out] by (simp add: filter_filter_mset conj_commute)
  ultimately show thesis by (rule that)
qed

lemma filter_mset_split:
  "n \<notin> ns \<Longrightarrow> {#e \<in># M. k e \<in> insert n ns \<and> P e#} = {#e \<in># M. k e = n \<and> P e#} + {#e \<in># M. k e \<in> ns \<and> P e#}"
  by (rule multiset_eqI) auto

lemma group_nodes_outcome:
  assumes "core_wf g" and "inp_wf g" and "set ns \<subseteq> node_keys g" and "distinct ns"
  shows "\<exists>Ls' Os'. rfold (group_node g S gid) ns (meta_of Ls Os, om) =
      Inr (meta_of (Ls @ Ls') (Os @ Os'), fold (own_port gid) (map source_port Os') om) \<and>
    mset Ls' = {#e \<in># edge_bag g. edge_target e \<in> set ns \<and> edge_source e \<notin> S#} \<and>
    mset Os' = {#e \<in># edge_bag g. edge_source e \<in> set ns \<and> edge_target e \<notin> S#}"
  using assms(3,4)
proof (induction ns arbitrary: Ls Os om)
  case (Cons n ns)
  then have "n \<in> node_keys g" by simp
  from assms(1,2) this obtain Ls1 Os1 where 1:
    "group_node g S gid n (meta_of Ls Os, om) = Inr (meta_of (Ls @ Ls1) (Os @ Os1), fold (own_port gid) (map source_port Os1) om)"
    "mset Ls1 = {#e \<in># edge_bag g. edge_target e = n \<and> edge_source e \<notin> S#}"
    "mset Os1 = {#e \<in># edge_bag g. edge_source e = n \<and> edge_target e \<notin> S#}"
    by (rule group_node_outcome)
  from Cons.IH[of "Ls @ Ls1" "Os @ Os1" "fold (own_port gid) (map source_port Os1) om"] Cons.prems
  obtain Ls2 Os2 where 2: "rfold (group_node g S gid) ns (meta_of (Ls @ Ls1) (Os @ Os1), fold (own_port gid) (map source_port Os1) om) =
      Inr (meta_of ((Ls @ Ls1) @ Ls2) ((Os @ Os1) @ Os2), fold (own_port gid) (map source_port Os2) (fold (own_port gid) (map source_port Os1) om))"
    "mset Ls2 = {#e \<in># edge_bag g. edge_target e \<in> set ns \<and> edge_source e \<notin> S#}"
    "mset Os2 = {#e \<in># edge_bag g. edge_source e \<in> set ns \<and> edge_target e \<notin> S#}" by auto
  show ?case
    using 1 2 Cons.prems filter_mset_split[of n "set ns" edge_target "\<lambda>e. edge_source e \<notin> S" "edge_bag g"]
      filter_mset_split[of n "set ns" edge_source "\<lambda>e. edge_target e \<notin> S" "edge_bag g"]
    by - (rule exI[of _ "Ls1 @ Ls2"], rule exI[of _ "Os1 @ Os2"], simp)
qed simp

lemma group_meta_outcome:
  assumes "core_wf g" and "inp_wf g" and "set ids \<subseteq> node_keys g" and "distinct ids"
  obtains Ls Os where
    "calculate_node_group_meta g ids gid om = Inr (meta_of Ls Os, fold (own_port gid) (map source_port Os) om)"
    "mset Ls = {#e \<in># edge_bag g. edge_target e \<in> set ids \<and> edge_source e \<notin> set ids#}"
    "mset Os = {#e \<in># edge_bag g. edge_source e \<in> set ids \<and> edge_target e \<notin> set ids#}"
proof -
  have "empty_meta = meta_of [] []" by (simp add: empty_meta_def meta_of_def)
  with group_nodes_outcome[OF assms, of "set ids" gid "[]" "[]" om] that show thesis
    by (auto simp: calculate_node_group_meta_def)
qed

subsection \<open>Correcting the order\<close>

lemma order_steps:
  assumes "\<forall>e \<in> set es. dget d (source_port e) \<noteq> None"
  shows "\<exists>new'. rfold (order_step d) es (V, new) = Inr (V \<union> source_port ` set es, new') \<and>
    (\<forall>p. dget new' p = (if p \<in> source_port ` set es - V then dget d p else dget new p)) \<and>
    (dict_ok new \<longrightarrow> dict_ok new')"
  using assms
proof (induction es arbitrary: V new)
  case (Cons e es)
  show ?case
  proof (cases "source_port e \<in> V")
    case True
    with Cons.IH[of V new] Cons.prems show ?thesis
      by (auto simp: order_step_def insert_absorb)
  next
    case False
    from Cons.prems obtain x where x: "dget d (source_port e) = Some x" by auto
    with Cons.IH[of "insert (source_port e) V" "dset (source_port e) x new"] Cons.prems False
    show ?thesis by (auto simp: order_step_def lookup_Some)
  qed
qed simp

lemma concat_groups: "mset (concat (map snd (groups key xs))) = mset xs"
proof (induction xs rule: rev_induct)
  case (snoc x xs)
  have "mset (concat (map snd (collect k x d))) = add_mset x (mset (concat (map snd d)))" if "dict_ok d" for k and d :: "('b, 'a list) dict"
    using that
  proof (induction d)
    case (Cons p d)
    obtain j l where p: "p = (j, l)" by (cases p)
    show ?case
    proof (cases "j = k")
      case True
      then show ?thesis by (simp add: p collect_def)
    next
      case False
      then have "collect k x (p # d) = p # collect k x d"
        by (simp add: p collect_def split: option.split)
      moreover have "dict_ok d" using Cons.prems by (simp add: p dict_ok_def)
      ultimately show ?thesis using Cons.IH by (simp add: p)
    qed
  qed (simp add: collect_def)
  with snoc show ?case by (simp add: groups_snoc)
qed simp

lemma order_corrected:
  "\<exists>d. get_order_corrected (groups source_port L) (groups target_port L) = Inr d \<and> dict_ok d \<and>
     (\<forall>p. dget d p = dget (groups source_port L) p)"
proof -
  let ?es = "concat (map snd (groups target_port L))"
  have s: "set ?es = set L" using concat_groups[of target_port L] by (metis set_mset_mset)
  have "\<forall>e \<in> set ?es. dget (groups source_port L) (source_port e) \<noteq> None"
    unfolding s by (simp add: dget_groups)
  from order_steps[OF this, of "{}" "[]"] obtain new where n:
    "rfold (order_step (groups source_port L)) ?es ({}, []) = Inr (source_port ` set ?es, new)" "dict_ok new"
    "\<forall>p. dget new p = (if p \<in> source_port ` set ?es then dget (groups source_port L) p else None)" by auto
  have "\<forall>p. dget new p = dget (groups source_port L) p" using n(3) unfolding s by (simp add: dget_groups)
  with n(1,2) show ?thesis by (intro exI[of _ new]) (simp add: get_order_corrected_def rfold_items)
qed

subsection \<open>Names\<close>

lemma check_merge_ids:
  "case rfold (check_merge_id g) ids seen of
     Inl e \<Rightarrow> e = AssertionError \<and> \<not> (distinct ids \<and> set ids \<inter> seen = {} \<and> set ids \<subseteq> node_keys g)
   | Inr s \<Rightarrow> distinct ids \<and> set ids \<inter> seen = {} \<and> set ids \<subseteq> node_keys g \<and> s = seen \<union> set ids"
proof (induction ids arbitrary: seen)
  case (Cons i ids)
  from Cons.IH[of "insert i seen"] show ?case
    by (auto simp: check_merge_id_def node_keys_def dmem_def split: sum.splits)
qed simp

lemma check_merge_list_ok:
  assumes "distinct (concat (map snd ml))" and "set (concat (map snd ml)) \<subseteq> node_keys g"
  shows "check_merge_list g ml = Inr (set (concat (map snd ml)))"
  using check_merge_ids[where g = g and ids = "concat (map snd ml)" and seen = "{}"] assms
  by (simp add: check_merge_list_def rfold_items split: sum.splits)

lemma name_merged_outcome:
  assumes "finite (unique_set p)" and "0 < max_count p"
  shows "case name_merged ml p of
      Inl e \<Rightarrow> e = ValueError \<and> max_count p < int (card (unique_set p) + length ml)
    | Inr ml' \<Rightarrow> map snd ml' = map snd ml \<and> map (node_data \<circ> fst) ml' = map (node_data \<circ> fst) ml \<and>
        distinct (map (node_id \<circ> fst) ml') \<and> (node_id \<circ> fst) ` set ml' \<inter> unique_set p = {}"
  using assms
proof (induction ml p rule: name_merged.induct)
  case (2 n ids ml p)
  from pool_call_outcome[OF "2.prems", of "node_id n"] show ?case
  proof (elim disjE exE conjE)
    fix i p'
    assume c: "pool_call (node_id n) p = Inr (i, p')" "i \<notin> unique_set p" "unique_set p' = insert i (unique_set p)"
      "max_count p' = max_count p"
    have "finite (unique_set p')" "0 < max_count p'" using c "2.prems" by simp_all
    from "2.IH"[OF c(1) refl this] show ?thesis
      using c "2.prems"(1) by (auto simp: comp_def split: sum.splits)
  qed simp
qed simp

lemma dget_fold_dset: "dget (fold (\<lambda>i. dset i v) is d) i = (if i \<in> set is then Some v else dget d i)"
  by (induction "is" arbitrary: d) auto

lemma merged_ids_get:
  assumes "distinct (concat (map snd ml))"
  shows "dget (merged_ids ml) i = Some m \<longleftrightarrow> (\<exists>n ids. (n, ids) \<in> set ml \<and> i \<in> set ids \<and> node_id n = m)"
proof -
  have "dget (fold (\<lambda>(n, ids). fold (\<lambda>i. dset i (node_id n)) ids) ml d) i = Some m \<longleftrightarrow>
      (\<exists>n ids. (n, ids) \<in> set ml \<and> i \<in> set ids \<and> node_id n = m) \<or> (i \<notin> set (concat (map snd ml)) \<and> dget d i = Some m)" for d
    using assms
  proof (induction ml arbitrary: d)
    case (Cons x ml)
    obtain n ids where x: "x = (n, ids)" by (cases x)
    show ?case
      unfolding x fold.simps o_apply case_prod_conv
      using Cons by (auto simp: x dget_fold_dset)
  qed simp
  then show ?thesis by (simp add: merged_ids_def)
qed

subsection \<open>Naming the handles of the groups\<close>

text \<open>
  The handle a group gives to an outer port (\<open>Inl\<close>) or to one of its own ports (\<open>Inr\<close>). \<open>named H S\<close>: the
  named handles are in \<open>S\<close>, different ports have different names, and the default handle keeps no name.
\<close>

definition handle_at :: "merge_ctx \<Rightarrow> string \<Rightarrow> string list \<Rightarrow> port + port \<Rightarrow> string option option" where
  "handle_at c mid ids x = (case x of Inl p \<Rightarrow> dget (outside_handle c) (p, mid)
     | Inr p \<Rightarrow> if fst p \<in> set ids then dget (inside_handle c) p else None)"

definition port_of :: "port + port \<Rightarrow> port" where
  "port_of x = (case x of Inl p \<Rightarrow> p | Inr p \<Rightarrow> p)"

definition named :: "(port + port \<Rightarrow> string option option) \<Rightarrow> string set \<Rightarrow> bool" where
  "named H S \<longleftrightarrow> (\<forall>x v. H x = Some v \<longrightarrow> (v = None \<longleftrightarrow> snd (port_of x) = None) \<and>
     (\<forall>i. v = Some i \<longrightarrow> i \<in> S \<and> (\<forall>y. H y = Some (Some i) \<longrightarrow> y = x)))"

lemma named_None: "named H S \<Longrightarrow> snd (port_of x) = None \<Longrightarrow> named (H(x \<mapsto> None)) S"
  by (auto simp: named_def)

lemma named_Some:
  "named H S \<Longrightarrow> snd (port_of x) \<noteq> None \<Longrightarrow> i \<notin> S \<Longrightarrow> named (H(x \<mapsto> Some i)) (insert i S)"
  unfolding named_def by (auto split: if_splits)

lemma handle_at_outside:
  "handle_at (c\<lparr>outside_handle := dset (p, mid) v (outside_handle c)\<rparr>) mid ids = (handle_at c mid ids)(Inl p \<mapsto> v)"
  by (rule ext) (simp add: handle_at_def split: sum.split)

lemma handle_at_inside:
  "fst p \<in> set ids \<Longrightarrow>
   handle_at (c\<lparr>inside_handle := dset p v (inside_handle c)\<rparr>) mid ids = (handle_at c mid ids)(Inr p \<mapsto> v)"
  by (rule ext) (auto simp: handle_at_def split: sum.split)

definition ctx_grows :: "string \<Rightarrow> string list \<Rightarrow> merge_ctx \<Rightarrow> merge_ctx \<Rightarrow> bool" where
  "ctx_grows mid ids c c' \<longleftrightarrow> metas c' = metas c \<and> merged_out c' = merged_out c \<and>
     (\<forall>k. snd k \<noteq> mid \<longrightarrow> dget (outside_handle c') k = dget (outside_handle c) k) \<and>
     (\<forall>p. fst p \<notin> set ids \<longrightarrow> dget (inside_handle c') p = dget (inside_handle c) p) \<and>
     (\<forall>x. handle_at c mid ids x \<noteq> None \<longrightarrow> handle_at c' mid ids x \<noteq> None)"

lemma ctx_grows_refl: "ctx_grows mid ids c c"
  by (simp add: ctx_grows_def)

lemma ctx_grows_trans: "ctx_grows mid ids a b \<Longrightarrow> ctx_grows mid ids b c \<Longrightarrow> ctx_grows mid ids a c"
  by (simp add: ctx_grows_def)

lemma grows_outside:
  "ctx_grows mid ids c (c\<lparr>outside_handle := dset (p, mid) v (outside_handle c)\<rparr>)"
  by (auto simp: ctx_grows_def handle_at_outside)

lemma grows_inside:
  "fst p \<in> set ids \<Longrightarrow> ctx_grows mid ids c (c\<lparr>inside_handle := dset p v (inside_handle c)\<rparr>)"
  by (auto simp: ctx_grows_def handle_at_inside)

text \<open>What holds while the handles of a group are named, after at most \<open>k\<close> names were taken.\<close>

definition naming :: "string \<Rightarrow> string list \<Rightarrow> nat \<Rightarrow> merge_ctx \<times> name_pool \<Rightarrow> bool" where
  "naming mid ids k = (\<lambda>(c, p). named (handle_at c mid ids) (unique_set p) \<and> finite (unique_set p) \<and>
     max_count p = 10000 \<and> card (unique_set p) \<le> k)"

lemma name_outside_step:
  assumes "naming mid ids k (c, p)" and "es \<noteq> []"
  shows "(\<exists>c' p'. name_outside mid ((n, h), es) (c, p) = Inr (c', p') \<and> naming mid ids (Suc k) (c', p') \<and>
      dget (outside_handle c') ((n, h), mid) \<noteq> None \<and> ctx_grows mid ids c c') \<or>
    (name_outside mid ((n, h), es) (c, p) = Inl ValueError \<and> 10000 \<le> k)"
proof -
  from assms(2) obtain e es' where es: "es = e # es'" by (cases es) auto
  show ?thesis
  proof (cases h)
    case None
    then show ?thesis
      using assms(1) named_None[of "handle_at c mid ids" "unique_set p" "Inl (n, h)"]
      by (auto simp: name_outside_def es naming_def handle_at_outside port_of_def grows_outside)
  next
    case (Some hs)
    let ?s = "case target_handle e of Some t \<Rightarrow> t | None \<Rightarrow> hs"
    have "finite (unique_set p)" "max_count p = 10000" using assms(1) by (simp_all add: naming_def)
    then show ?thesis
    proof (cases rule: pool_call_cases[of p ?s])
      case (1 i p')
      have "named ((handle_at c mid ids)(Inl (n, Some hs) \<mapsto> Some i)) (insert i (unique_set p))"
        using assms(1) 1(2) by (intro named_Some) (simp_all add: naming_def port_of_def)
      then show ?thesis
        using assms(1) 1 by (simp add: name_outside_def es Some naming_def handle_at_outside grows_outside)
    next
      case 2
      then show ?thesis using assms(1) by (simp add: name_outside_def es Some naming_def)
    qed
  qed
qed

lemma name_inside_step:
  assumes "naming mid ids k (c, p)" and "n \<in> set ids"
  shows "(\<exists>c' p'. name_inside ((n, h), es) (c, p) = Inr (c', p') \<and> naming mid ids (Suc k) (c', p') \<and>
      dget (inside_handle c') (n, h) \<noteq> None \<and> ctx_grows mid ids c c') \<or>
    (name_inside ((n, h), es) (c, p) = Inl ValueError \<and> 10000 \<le> k)"
proof (cases h)
  case None
  then show ?thesis
    using assms named_None[of "handle_at c mid ids" "unique_set p" "Inr (n, h)"]
    by (auto simp: name_inside_def naming_def handle_at_inside port_of_def grows_inside)
next
  case (Some hs)
  have "finite (unique_set p)" "max_count p = 10000" using assms(1) by (simp_all add: naming_def)
  then show ?thesis
  proof (cases rule: pool_call_cases[of p hs])
    case (1 i p')
    have "named ((handle_at c mid ids)(Inr (n, Some hs) \<mapsto> Some i)) (insert i (unique_set p))"
      using assms(1) 1(2) by (intro named_Some) (simp_all add: naming_def port_of_def)
    then show ?thesis
      using assms 1 by (simp add: name_inside_def Some naming_def handle_at_inside grows_inside)
  next
    case 2
    then show ?thesis using assms(1) by (simp add: name_inside_def Some naming_def)
  qed
qed

lemma name_outside_loop:
  assumes "naming mid ids k s" and "\<forall>(q, es) \<in> set xs. es \<noteq> []"
  shows "(\<exists>s'. rfold (name_outside mid) xs s = Inr s' \<and> naming mid ids (k + length xs) s' \<and>
      (\<forall>x \<in> set xs. handle_at (fst s') mid ids (Inl (fst x)) \<noteq> None) \<and> ctx_grows mid ids (fst s) (fst s')) \<or>
    (rfold (name_outside mid) xs s = Inl ValueError \<and> 10000 \<le> k + length xs)"
proof (rule rfold_counted[where R = "\<lambda>s t. ctx_grows mid ids (fst s) (fst t)"])
  fix x s n assume "x \<in> set xs" "naming mid ids n s"
  moreover obtain a h es c p where "x = ((a, h), es)" "s = (c, p)" by (metis prod.exhaust)
  ultimately show "(\<exists>s'. name_outside mid x s = Inr s' \<and> naming mid ids (Suc n) s' \<and>
      handle_at (fst s') mid ids (Inl (fst x)) \<noteq> None \<and> ctx_grows mid ids (fst s) (fst s')) \<or>
    (name_outside mid x s = Inl ValueError \<and> 10000 \<le> n)"
    using name_outside_step[of mid ids n c p es a h] assms(2) by (fastforce simp: handle_at_def)
qed (use assms(1) in \<open>auto simp: ctx_grows_refl ctx_grows_def\<close>)

lemma name_inside_loop:
  assumes "naming mid ids k s" and "\<forall>(q, es) \<in> set xs. fst q \<in> set ids"
  shows "(\<exists>s'. rfold name_inside xs s = Inr s' \<and> naming mid ids (k + length xs) s' \<and>
      (\<forall>x \<in> set xs. handle_at (fst s') mid ids (Inr (fst x)) \<noteq> None) \<and> ctx_grows mid ids (fst s) (fst s')) \<or>
    (rfold name_inside xs s = Inl ValueError \<and> 10000 \<le> k + length xs)"
proof (rule rfold_counted[where R = "\<lambda>s t. ctx_grows mid ids (fst s) (fst t)"])
  fix x s n assume x: "x \<in> set xs" "naming mid ids n s"
  moreover obtain a h es c p where e: "x = ((a, h), es)" "s = (c, p)" by (metis prod.exhaust)
  moreover have "a \<in> set ids" using assms(2) x(1) e(1) by fastforce
  ultimately show "(\<exists>s'. name_inside x s = Inr s' \<and> naming mid ids (Suc n) s' \<and>
      handle_at (fst s') mid ids (Inr (fst x)) \<noteq> None \<and> ctx_grows mid ids (fst s) (fst s')) \<or>
    (name_inside x s = Inl ValueError \<and> 10000 \<le> n)"
    using name_inside_step[of mid ids n c p a h es] by (fastforce simp: handle_at_def)
qed (use assms(1) in \<open>auto simp: ctx_grows_refl ctx_grows_def\<close>)

definition crossing_in :: "'d internals \<Rightarrow> string list \<Rightarrow> flow_edge multiset" where
  "crossing_in g ids = {#e \<in># edge_bag g. edge_target e \<in> set ids \<and> edge_source e \<notin> set ids#}"

definition crossing_out :: "'d internals \<Rightarrow> string list \<Rightarrow> flow_edge multiset" where
  "crossing_out g ids = {#e \<in># edge_bag g. edge_source e \<in> set ids \<and> edge_target e \<notin> set ids#}"

definition group_ok :: "'d internals \<Rightarrow> merge_ctx \<Rightarrow> string \<Rightarrow> string list \<Rightarrow> bool" where
  "group_ok g c mid ids \<longleftrightarrow>
     (\<exists>Ls Os. dget (metas c) mid = Some (meta_of Ls Os) \<and> mset Ls = crossing_in g ids \<and> mset Os = crossing_out g ids) \<and>
     (\<exists>S. named (handle_at c mid ids) S) \<and>
     (\<forall>e \<in># crossing_in g ids. handle_at c mid ids (Inl (source_port e)) \<noteq> None) \<and>
     (\<forall>e \<in># crossing_out g ids. handle_at c mid ids (Inr (source_port e)) \<noteq> None)"

definition ctx_ok :: "'d internals \<Rightarrow> 'd merge_list \<Rightarrow> merge_ctx \<Rightarrow> bool" where
  "ctx_ok g P c \<longleftrightarrow> (\<forall>(n, ids) \<in> set P. group_ok g c (node_id n) ids) \<and>
     (\<forall>p m. dget (merged_out c) p = Some m \<longleftrightarrow>
        (\<exists>(n, ids) \<in> set P. m = node_id n \<and> p \<in> source_port ` set_mset (crossing_out g ids))) \<and>
     (\<forall>p m. dget (outside_handle c) (p, m) \<noteq> None \<longrightarrow> m \<in> node_id ` fst ` set P) \<and>
     (\<forall>p. dget (inside_handle c) p \<noteq> None \<longrightarrow> fst p \<in> set (concat (map snd P)))"

definition apart :: "'d merge_list \<Rightarrow> bool" where
  "apart ml \<longleftrightarrow> distinct (map (node_id \<circ> fst) ml) \<and> distinct (concat (map snd ml))"

lemma meta_of_sel [simp]:
  "inside_out (meta_of Ls Os) = groups source_port Os" "outside_out (meta_of Ls Os) = groups source_port Ls"
  "inside_inp (meta_of Ls Os) = groups target_port Ls" "outside_inp (meta_of Ls Os) = groups target_port Os"
  by (simp_all add: meta_of_def)

lemma size_crossing: "mset xs = {#e \<in># M. P e#} \<Longrightarrow> length xs \<le> size M"
  by (metis size_filter_mset_lesseq size_mset)

lemma group_ok_cong:
  assumes "dget (metas c') mid = dget (metas c) mid" and "handle_at c' mid ids = handle_at c mid ids"
  shows "group_ok g c' mid ids = group_ok g c mid ids"
  using assms by (simp add: group_ok_def)

lemma handle_at_grows:
  assumes "ctx_grows mid ids c c'" and "mid' \<noteq> mid" and "set ids' \<inter> set ids = {}"
  shows "handle_at c' mid' ids' = handle_at c mid' ids'"
proof (rule ext)
  fix x
  show "handle_at c' mid' ids' x = handle_at c mid' ids' x"
    using assms by (cases x) (auto simp: handle_at_def ctx_grows_def disjoint_iff)
qed

lemma ctx_okD:
  assumes "ctx_ok g P c"
  shows "(n, ids) \<in> set P \<Longrightarrow> group_ok g c (node_id n) ids"
    and "dget (merged_out c) p = Some m \<longleftrightarrow>
      (\<exists>(n, ids) \<in> set P. m = node_id n \<and> p \<in> source_port ` set_mset (crossing_out g ids))"
    and "m \<notin> node_id ` fst ` set P \<Longrightarrow> dget (outside_handle c) (p, m) = None"
    and "fst p \<notin> set (concat (map snd P)) \<Longrightarrow> dget (inside_handle c) p = None"
  using assms unfolding ctx_ok_def by blast+

lemma ctx_growsD:
  assumes "ctx_grows mid ids c c'"
  shows "m \<noteq> mid \<Longrightarrow> dget (outside_handle c') (p, m) = dget (outside_handle c) (p, m)"
    and "fst p \<notin> set ids \<Longrightarrow> dget (inside_handle c') p = dget (inside_handle c) p"
  using assms unfolding ctx_grows_def by (metis snd_conv, blast)

lemma named_start:
  assumes "ctx_ok g P c" and "mid \<notin> node_id ` fst ` set P" and "set ids \<inter> set (concat (map snd P)) = {}"
  shows "handle_at c mid ids x = None"
proof (cases x)
  case (Inl p)
  then show ?thesis using ctx_okD(3)[OF assms(1,2)] by (simp add: handle_at_def)
next
  case (Inr p)
  have "fst p \<in> set ids \<Longrightarrow> fst p \<notin> set (concat (map snd P))" using assms(3) by blast
  with Inr ctx_okD(4)[OF assms(1)] show ?thesis by (auto simp: handle_at_def)
qed

lemma ports_of_group:
  "x \<in> set (groups source_port L) \<Longrightarrow> \<exists>e \<in> set L. fst x = source_port e \<and> snd x \<noteq> [] "
  by (cases x) (auto simp: groups_items filter_empty_conv)

lemma fst_groups: "fst ` set (groups key L) = key ` set L"
proof (rule set_eqI)
  fix k
  have "k \<in> fst ` set (groups key L) \<longleftrightarrow> dget (groups key L) k \<noteq> None"
    by (simp add: dget_None_iff dkeys_def)
  then show "k \<in> fst ` set (groups key L) \<longleftrightarrow> k \<in> key ` set L" by (simp add: dget_groups)
qed

lemma all_ports: "(\<forall>x \<in> set (groups key L). P (fst x)) \<longleftrightarrow> (\<forall>e \<in> set L. P (key e))"
  using fst_groups[of key L] by (metis (mono_tags, lifting) image_iff)

lemma name_handles:
  assumes "\<And>x. handle_at c mid ids x = None" and "set_mset (mset Os) = set_mset (crossing_out g ids)"
  shows "(\<exists>s c'. rfold (name_outside mid) (groups source_port Ls) (c, pool_init 10000 None) = Inr s \<and>
      (\<exists>p. rfold name_inside (groups source_port Os) s = Inr (c', p)) \<and> ctx_grows mid ids c c' \<and>
      (\<exists>S. named (handle_at c' mid ids) S) \<and>
      (\<forall>e \<in> set Ls. handle_at c' mid ids (Inl (source_port e)) \<noteq> None) \<and>
      (\<forall>e \<in> set Os. handle_at c' mid ids (Inr (source_port e)) \<noteq> None)) \<or>
    (rbind (rfold (name_outside mid) (groups source_port Ls) (c, pool_init 10000 None))
        (rfold name_inside (groups source_port Os)) = Inl ValueError \<and> 10000 \<le> length Ls + length Os)"
proof -
  let ?A = "groups source_port Ls" let ?B = "groups source_port Os"
  have la: "length ?A \<le> length Ls" "length ?B \<le> length Os" by (simp_all add: length_groups)
  have st: "naming mid ids 0 (c, pool_init 10000 None)"
    using assms(1) by (simp add: naming_def named_def pool_init_def)
  have a: "\<forall>(q, es) \<in> set ?A. es \<noteq> []" using ports_of_group by fastforce
  have b: "\<forall>(q, es) \<in> set ?B. fst q \<in> set ids"
  proof safe
    fix n h es assume "((n, h), es) \<in> set ?B"
    then obtain e where "e \<in> set Os" "(n, h) = source_port e" using ports_of_group[of "((n, h), es)" Os] by auto
    moreover from this have "e \<in># crossing_out g ids" using assms(2) by auto
    ultimately show "fst (n, h) \<in> set ids" by (simp add: crossing_out_def source_port_def)
  qed
  from name_outside_loop[OF st a] show ?thesis
  proof (elim disjE exE conjE)
    fix s assume s: "rfold (name_outside mid) ?A (c, pool_init 10000 None) = Inr s"
      "naming mid ids (0 + length ?A) s" "\<forall>x \<in> set ?A. handle_at (fst s) mid ids (Inl (fst x)) \<noteq> None"
      "ctx_grows mid ids (fst (c, pool_init 10000 None)) (fst s)"
    from name_inside_loop[OF s(2) b] show ?thesis
    proof (elim disjE exE conjE)
      fix s' assume s': "rfold name_inside ?B s = Inr s'" "naming mid ids (0 + length ?A + length ?B) s'"
        "\<forall>x \<in> set ?B. handle_at (fst s') mid ids (Inr (fst x)) \<noteq> None" "ctx_grows mid ids (fst s) (fst s')"
      obtain c' p' where e: "s' = (c', p')" by (cases s')
      have "ctx_grows mid ids c c'" using s(4) s'(4) ctx_grows_trans by (auto simp: e)
      moreover have "\<exists>S. named (handle_at c' mid ids) S" using s'(2) by (auto simp: naming_def e)
      moreover have "\<forall>e \<in> set Ls. handle_at c' mid ids (Inl (source_port e)) \<noteq> None"
        using s(3)[unfolded all_ports[where P = "\<lambda>q. handle_at (fst s) mid ids (Inl q) \<noteq> None"]] s'(4) by (simp add: ctx_grows_def e)
      moreover have "\<forall>e \<in> set Os. handle_at c' mid ids (Inr (source_port e)) \<noteq> None"
        using s'(3)[unfolded all_ports[where P = "\<lambda>q. handle_at (fst s') mid ids (Inr q) \<noteq> None"]] by (simp add: e)
      ultimately show ?thesis using s(1) s'(1) e by blast
    next
      assume "rfold name_inside ?B s = Inl ValueError" "10000 \<le> 0 + length ?A + length ?B"
      then show ?thesis using s(1) la by simp
    qed
  qed (use la in simp)
qed

lemma name_group_step:
  assumes wf: "core_wf g" "inp_wf g" and ok: "ctx_ok g P c" and new: "apart (P @ [(n, ids)])"
    and keys: "set ids \<subseteq> node_keys g"
  shows "(\<exists>c'. name_group g (n, ids) c = Inr c' \<and> ctx_ok g (P @ [(n, ids)]) c') \<or>
    (name_group g (n, ids) c = Inl ValueError \<and> 10000 \<le> 2 * size (edge_bag g))"
proof -
  let ?m = "node_id n"
  have nm: "?m \<notin> node_id ` fst ` set P" and dj: "set ids \<inter> set (concat (map snd P)) = {}" and di: "distinct ids"
    using new by (force simp: apart_def)+
  from wf keys di obtain Ls Os where meta:
    "calculate_node_group_meta g ids (Some ?m) (merged_out c) = Inr (meta_of Ls Os, fold (own_port (Some ?m)) (map source_port Os) (merged_out c))"
    "mset Ls = crossing_in g ids" "mset Os = crossing_out g ids"
    unfolding crossing_in_def crossing_out_def by (rule group_meta_outcome)
  have len: "length Ls + length Os \<le> 2 * size (edge_bag g)"
    using size_crossing meta(2,3) unfolding crossing_in_def crossing_out_def by (smt (verit) add_mono mult_2)
  have sets: "set_mset (crossing_in g ids) = set Ls" "set_mset (crossing_out g ids) = set Os"
    by (metis meta(2) set_mset_mset) (metis meta(3) set_mset_mset)
  let ?om = "fold (own_port (Some ?m)) (map source_port Os) (merged_out c)"
  let ?c0 = "c\<lparr>metas := dset ?m (meta_of Ls Os) (metas c), merged_out := ?om\<rparr>"
  have h0: "handle_at ?c0 mid' ids' = handle_at c mid' ids'" for mid' ids'
    by (rule ext) (simp add: handle_at_def split: sum.split)
  have start: "handle_at ?c0 ?m ids x = None" for x unfolding h0 by (rule named_start[OF ok nm dj])
  have mo: "set_mset (mset Os) = set_mset (crossing_out g ids)" using sets(2) by simp
  from name_handles[where c = "?c0" and mid = ?m and ids = ids and Ls = Ls and Os = Os and g = g, OF start mo] show ?thesis
  proof (elim disjE exE conjE)
    fix s c' p S
    assume s: "rfold (name_outside ?m) (groups source_port Ls) (?c0, pool_init 10000 None) = Inr s"
      "rfold name_inside (groups source_port Os) s = Inr (c', p)" and gr: "ctx_grows ?m ids ?c0 c'"
      and nmd: "named (handle_at c' ?m ids) S"
      and cin: "\<forall>e \<in> set Ls. handle_at c' ?m ids (Inl (source_port e)) \<noteq> None"
      and cout: "\<forall>e \<in> set Os. handle_at c' ?m ids (Inr (source_port e)) \<noteq> None"
    have run: "name_group g (n, ids) c = Inr c'" using meta(1) s by (simp add: name_group_def)
    have g1: "group_ok g c' ?m ids"
      unfolding group_ok_def sets using gr nmd cin cout meta(2,3) by (auto simp: ctx_grows_def)
    have g2: "group_ok g c' (node_id n') ids'" if "(n', ids') \<in> set P" for n' ids'
    proof -
      have "node_id n' \<in> node_id ` fst ` set P" "set ids' \<subseteq> set (concat (map snd P))" using that by force+
      then have d: "node_id n' \<noteq> ?m" "set ids' \<inter> set ids = {}" using nm dj by (metis, blast)
      have "handle_at c' (node_id n') ids' = handle_at c (node_id n') ids'"
        using handle_at_grows[OF gr d] h0 by simp
      moreover have "dget (metas c') (node_id n') = dget (metas c) (node_id n')"
        using gr d by (simp add: ctx_grows_def)
      ultimately have "group_ok g c' (node_id n') ids' = group_ok g c (node_id n') ids'" by (rule group_ok_cong[rotated])
      then show ?thesis using ctx_okD(1)[OF ok that] by simp
    qed
    have old: "dget (merged_out c) p = None" if "p \<in> source_port ` set Os" for p
    proof (rule ccontr)
      assume "dget (merged_out c) p \<noteq> None"
      then obtain n' ids' where "(n', ids') \<in> set P" "p \<in> source_port ` set_mset (crossing_out g ids')"
        using ctx_okD(2)[OF ok] by fast
      then have "fst p \<in> set (concat (map snd P))" by (force simp: crossing_out_def source_port_def)
      moreover have "fst p \<in> set ids" using that sets(2)[symmetric] by (auto simp: crossing_out_def source_port_def)
      ultimately show False using dj by blast
    qed
    have om: "dget (merged_out c') p = Some m \<longleftrightarrow> (\<exists>(n, ids) \<in> set (P @ [(n, ids)]). m = node_id n \<and>
        p \<in> source_port ` set_mset (crossing_out g ids))" for p m
    proof -
      have "dget (merged_out c') p = Some m \<longleftrightarrow> dget (merged_out c) p = Some m \<or> (p \<in> source_port ` set Os \<and> m = ?m)"
        using gr old[of p] by (auto simp: ctx_grows_def dget_own_ports split: option.splits)
      then show ?thesis unfolding ctx_okD(2)[OF ok] using sets(2) by auto
    qed
    have oh: "m \<in> node_id ` fst ` set (P @ [(n, ids)])" if "dget (outside_handle c') (p, m) \<noteq> None" for p m
    proof (cases "m = ?m")
      case False
      have "dget (outside_handle c) (p, m) \<noteq> None" using that ctx_growsD(1)[OF gr False, of p] by simp
      then have "m \<in> node_id ` fst ` set P" using ctx_okD(3)[OF ok, of m p] by metis
      then show ?thesis by auto
    qed simp
    have ih: "fst p \<in> set (concat (map snd (P @ [(n, ids)])))" if "dget (inside_handle c') p \<noteq> None" for p
    proof (cases "fst p \<in> set ids")
      case False
      have "dget (inside_handle c) p \<noteq> None" using that ctx_growsD(2)[OF gr False] by simp
      then have "fst p \<in> set (concat (map snd P))" using ctx_okD(4)[OF ok, of p] by metis
      then show ?thesis by simp
    qed simp
    have "ctx_ok g (P @ [(n, ids)]) c'"
      unfolding ctx_ok_def using oh ih om by (intro conjI) (use g1 g2 in auto)
    with run show ?thesis by blast
  next
    assume "rbind (rfold (name_outside ?m) (groups source_port Ls) (?c0, pool_init 10000 None))
        (rfold name_inside (groups source_port Os)) = Inl ValueError" "10000 \<le> length Ls + length Os"
    then show ?thesis using meta(1) len by (auto simp: name_group_def res_simps)
  qed
qed

end
