(* ===== verification/FlowQuotient.thy ===== *)
theory FlowQuotient
  imports FlowMerge
begin

text \<open>
  \<open>FlowInternals.merge_nodes_with_data\<close> builds the quotient of a flow graph by the merged groups: the
  loops that build the edges, phase by phase, the ids and handles they give, and when a merge raises.
\<close>

lemma new_ctx_ok: "ctx_ok g [] new_ctx"
  by (simp add: ctx_ok_def new_ctx_def)

lemma name_groups:
  assumes wf: "core_wf g" "inp_wf g"
  shows "ctx_ok g P c \<Longrightarrow> apart (P @ ml) \<Longrightarrow> set (concat (map snd ml)) \<subseteq> node_keys g \<Longrightarrow>
    (\<exists>c'. rfold (name_group g) ml c = Inr c' \<and> ctx_ok g (P @ ml) c') \<or>
    (rfold (name_group g) ml c = Inl ValueError \<and> 10000 \<le> 2 * size (edge_bag g))"
proof (induction ml arbitrary: P c)
  case (Cons x ml)
  obtain n ids where x: "x = (n, ids)" by (cases x)
  have a: "apart (P @ [(n, ids)])" and k: "set ids \<subseteq> node_keys g"
    using Cons.prems(2,3) by (auto simp: x apart_def)
  from name_group_step[OF wf Cons.prems(1) a k] show ?case
  proof (elim disjE exE conjE)
    fix c' assume c': "name_group g (n, ids) c = Inr c'" "ctx_ok g (P @ [(n, ids)]) c'"
    from Cons.IH[OF c'(2)] Cons.prems(2,3) show ?thesis by (simp add: x c'(1))
  qed (simp add: x)
qed simp

subsection \<open>Building the edges\<close>

definition quotient_id :: "(string, string) dict \<Rightarrow> string \<Rightarrow> string" where
  "quotient_id mi n = (case dget mi n of None \<Rightarrow> n | Some m \<Rightarrow> m)"

definition inner_edge :: "(string, string) dict \<Rightarrow> flow_edge \<Rightarrow> bool" where
  "inner_edge mi e \<longleftrightarrow> dmem (edge_source e) mi \<and> dget mi (edge_source e) = dget mi (edge_target e)"

definition plain_edge :: "(string, string) dict \<Rightarrow> flow_edge \<Rightarrow> bool" where
  "plain_edge mi e \<longleftrightarrow> \<not> dmem (edge_source e) mi \<and> \<not> dmem (edge_target e) mi"

definition ends :: "flow_edge \<Rightarrow> edge_ends" where
  "ends e = (edge_source e, edge_target e, source_handle e, target_handle e)"

text \<open>The ends of the edge that replaces \<open>e\<close>, with the handles the groups gave to its source port.\<close>

definition quotient_ends :: "(string, string) dict \<Rightarrow> (port \<Rightarrow> string option) \<Rightarrow> (port \<Rightarrow> string \<Rightarrow> string option)
    \<Rightarrow> flow_edge \<Rightarrow> edge_ends" where
  "quotient_ends mi ho hi e = (quotient_id mi (edge_source e), quotient_id mi (edge_target e),
     (if dmem (edge_source e) mi then ho (source_port e) else source_handle e),
     (if dmem (edge_target e) mi then hi (source_port e) (quotient_id mi (edge_target e)) else target_handle e))"

definition out_handle :: "merge_ctx \<Rightarrow> port \<Rightarrow> string option" where
  "out_handle c p = the (dget (inside_handle c) p)"

definition in_handle :: "merge_ctx \<Rightarrow> port \<Rightarrow> string \<Rightarrow> string option" where
  "in_handle c p m = the (dget (outside_handle c) (p, m))"

abbreviation q_ends :: "(string, string) dict \<Rightarrow> merge_ctx \<Rightarrow> flow_edge \<Rightarrow> edge_ends" where
  "q_ends mi c \<equiv> quotient_ends mi (out_handle c) (in_handle c)"

lemma ends_edge_of [simp]: "ends (edge_of i k) = k" "edge_id (edge_of i k) = i"
  by (simp_all add: ends_def edge_of_def split: prod.splits)

lemma quotient_plain: "plain_edge mi e \<Longrightarrow> quotient_ends mi ho hi e = ends e"
  by (simp add: plain_edge_def quotient_ends_def ends_def quotient_id_def dmem_dget)

text \<open>
  What holds of the edges built after \<open>k\<close> names: \<open>K\<close> are the edges kept from the graph, \<open>B\<close> the names
  the pool started with, and \<open>C\<close> the ends that new edges may have.
\<close>

definition edges_ok :: "string set \<Rightarrow> edge_ends set \<Rightarrow> flow_edge list \<Rightarrow> nat \<Rightarrow> edge_acc \<Rightarrow> bool" where
  "edges_ok B C K k a \<longleftrightarrow>
     mset (map edge_id (new_edges a)) = mset (dkeys (origin a)) + mset (map edge_id K) \<and>
     dict_ok (origin a) \<and> set (dkeys (origin a)) \<subseteq> unique_set (edge_pool a) \<and>
     set (dkeys (origin a)) \<inter> B = {} \<and> B \<subseteq> unique_set (edge_pool a) \<and>
     finite (unique_set (edge_pool a)) \<and> max_count (edge_pool a) = 10000 \<and>
     card (unique_set (edge_pool a)) \<le> k \<and> pairs a \<subseteq> ends ` set (new_edges a) \<and>
     set K \<subseteq> set (new_edges a) \<and> ends ` set (new_edges a) \<subseteq> ends ` set K \<union> C"

definition acc_grows :: "edge_acc \<Rightarrow> edge_acc \<Rightarrow> bool" where
  "acc_grows a b \<longleftrightarrow> set (new_edges a) \<subseteq> set (new_edges b) \<and> kept a \<subseteq> kept b"

lemma acc_grows_refl: "acc_grows a a"
  by (simp add: acc_grows_def)

lemma acc_grows_trans: "acc_grows a b \<Longrightarrow> acc_grows b c \<Longrightarrow> acc_grows a c"
  by (auto simp: acc_grows_def)

lemma acc_grows_ends: "x \<in> ends ` set (new_edges a) \<Longrightarrow> acc_grows a b \<Longrightarrow> x \<in> ends ` set (new_edges b)"
  by (auto simp: acc_grows_def)

lemma add_merged_step:
  assumes ok: "edges_ok B C K k a" and key: "x \<in> C"
  shows "(\<exists>a'. add_merged mark x prevs a = Inr a' \<and> edges_ok B C K (Suc k) a' \<and> x \<in> ends ` set (new_edges a') \<and>
      acc_grows a a' \<and> kept a' = kept a) \<or> (add_merged mark x prevs a = Inl ValueError \<and> 10000 \<le> k)"
proof (cases "x \<in> pairs a")
  case True
  with ok show ?thesis by (auto simp: add_merged_def edges_ok_def acc_grows_refl)
next
  case False
  have "finite (unique_set (edge_pool a))" "max_count (edge_pool a) = 10000" using ok by (simp_all add: edges_ok_def)
  then show ?thesis
  proof (cases rule: pool_call_cases[of "edge_pool a" "fst x @ ''-'' @ fst (snd x)"])
    case (1 i p')
    have new: "i \<notin> set (dkeys (origin a))" "i \<notin> B" using ok 1(2) by (auto simp: edges_ok_def)
    let ?a = "a\<lparr>new_edges := new_edges a @ [edge_of i x], edge_pool := p', origin := dset i prevs (origin a),
      pairs := (if mark then insert x (pairs a) else pairs a)\<rparr>"
    have "edges_ok B C K (Suc k) ?a"
      using ok key new 1(3-6) by (auto simp: edges_ok_def dict_simps)
    moreover have "add_merged mark x prevs a = Inr ?a" using False 1(1) by (simp add: add_merged_def)
    ultimately show ?thesis by (auto simp: acc_grows_def)
  next
    case 2
    then show ?thesis using ok False by (simp add: add_merged_def edges_ok_def)
  qed
qed

lemma edges_ok_more: "edges_ok B C K k a \<Longrightarrow> k \<le> k' \<Longrightarrow> edges_ok B C K k' a"
  by (simp add: edges_ok_def)

definition merge_ready :: "'d internals \<Rightarrow> 'd merge_list \<Rightarrow> merge_ctx \<Rightarrow> bool" where
  "merge_ready g ml c \<longleftrightarrow> core_wf g \<and> inp_wf g \<and> apart ml \<and> set (concat (map snd ml)) \<subseteq> node_keys g \<and> ctx_ok g ml c"

definition crossing_edge :: "(string, string) dict \<Rightarrow> flow_edge \<Rightarrow> bool" where
  "crossing_edge mi e \<longleftrightarrow> \<not> inner_edge mi e \<and> \<not> plain_edge mi e"

definition cross_ends :: "'d internals \<Rightarrow> (string, string) dict \<Rightarrow> merge_ctx \<Rightarrow> edge_ends set" where
  "cross_ends g mi c = q_ends mi c ` {e \<in> set (flow_edges g). crossing_edge mi e}"

lemma distinct_fst_inj:
  "distinct (map f xs) \<Longrightarrow> x \<in> set xs \<Longrightarrow> y \<in> set xs \<Longrightarrow> f x = f y \<Longrightarrow> x = y"
  by (simp add: distinct_map inj_on_def)

lemma group_member:
  assumes "apart ml" and "(n, ids) \<in> set ml"
  shows "dget (merged_ids ml) i = Some (node_id n) \<longleftrightarrow> i \<in> set ids"
proof -
  have d: "distinct (concat (map snd ml))" "distinct (map (node_id \<circ> fst) ml)" using assms(1) by (simp_all add: apart_def)
  have "(n', ids') = (n, ids)" if "(n', ids') \<in> set ml" "node_id n' = node_id n" for n' ids'
    using distinct_fst_inj[OF d(2) that(1) assms(2)] that(2) by simp
  with assms(2) show ?thesis unfolding merged_ids_get[OF d(1)] by blast
qed

lemma member_group:
  assumes "apart ml" and "dget (merged_ids ml) i = Some m"
  obtains n ids where "(n, ids) \<in> set ml" and "i \<in> set ids" and "m = node_id n"
  using assms merged_ids_get[of ml i m] by (auto simp: apart_def)

lemma out_port:
  assumes r: "merge_ready g ml c" and e: "e \<in># edge_bag g"
    and s: "dget (merged_ids ml) (edge_source e) = Some m" and t: "dget (merged_ids ml) (edge_target e) \<noteq> Some m"
  shows "dget (inside_handle c) (source_port e) = Some (out_handle c (source_port e))"
    and "dget (merged_out c) (source_port e) = Some m"
proof -
  have ap: "apart ml" and ok: "ctx_ok g ml c" using r by (simp_all add: merge_ready_def)
  from ap s obtain n ids where g: "(n, ids) \<in> set ml" "edge_source e \<in> set ids" "m = node_id n"
    by (rule member_group)
  have c: "e \<in># crossing_out g ids" using e g t group_member[OF ap g(1)] by (simp add: crossing_out_def)
  then have "handle_at c (node_id n) ids (Inr (source_port e)) \<noteq> None"
    using ctx_okD(1)[OF ok g(1)] by (simp add: group_ok_def)
  then show "dget (inside_handle c) (source_port e) = Some (out_handle c (source_port e))"
    by (simp add: handle_at_def out_handle_def source_port_def split: if_splits)
  show "dget (merged_out c) (source_port e) = Some m"
    unfolding ctx_okD(2)[OF ok] using g c by force
qed

lemma in_port:
  assumes r: "merge_ready g ml c" and e: "e \<in># edge_bag g"
    and s: "dget (merged_ids ml) (edge_target e) = Some m" and t: "dget (merged_ids ml) (edge_source e) \<noteq> Some m"
  shows "dget (outside_handle c) (source_port e, m) = Some (in_handle c (source_port e) m)"
proof -
  have ap: "apart ml" and ok: "ctx_ok g ml c" using r by (simp_all add: merge_ready_def)
  from ap s obtain n ids where g: "(n, ids) \<in> set ml" "edge_target e \<in> set ids" "m = node_id n"
    by (rule member_group)
  have "e \<in># crossing_in g ids" using e g t group_member[OF ap g(1)] by (simp add: crossing_in_def)
  then have "handle_at c (node_id n) ids (Inl (source_port e)) \<noteq> None"
    using ctx_okD(1)[OF ok g(1)] by (simp add: group_ok_def)
  then show ?thesis using g by (simp add: handle_at_def in_handle_def)
qed

lemma not_owned:
  assumes r: "merge_ready g ml c" and s: "dget (merged_ids ml) (fst p) = None"
  shows "dget (merged_out c) p = None"
proof (rule ccontr)
  have ap: "apart ml" and ok: "ctx_ok g ml c" using r by (simp_all add: merge_ready_def)
  assume "dget (merged_out c) p \<noteq> None"
  then obtain n ids where g: "(n, ids) \<in> set ml" "p \<in> source_port ` set_mset (crossing_out g ids)"
    using ctx_okD(2)[OF ok, of p] by auto
  then have "fst p \<in> set ids" by (auto simp: crossing_out_def source_port_def)
  with s group_member[OF ap g(1), of "fst p"] show False by simp
qed

subsubsection \<open>Nodes that are not merged\<close>

definition plain_ok :: "'d internals \<Rightarrow> (string, string) dict \<Rightarrow> merge_ctx \<Rightarrow> nat \<Rightarrow> edge_acc \<Rightarrow> bool" where
  "plain_ok g mi c k a \<longleftrightarrow> (\<exists>K. edges_ok {} (cross_ends g mi c) K k a \<and> kept a = edge_id ` set K \<and>
     distinct (map edge_id K) \<and> set K \<subseteq> {e \<in> set (flow_edges g). plain_edge mi e})"

definition covered :: "(string, string) dict \<Rightarrow> merge_ctx \<Rightarrow> flow_edge \<Rightarrow> edge_acc \<Rightarrow> bool" where
  "covered mi c e a \<longleftrightarrow> (if plain_edge mi e then edge_id e \<in> kept a
     else if crossing_edge mi e then q_ends mi c e \<in> ends ` set (new_edges a) else True)"

lemma covered_grows: "covered mi c e a \<Longrightarrow> acc_grows a b \<Longrightarrow> covered mi c e b"
  by (auto simp: covered_def acc_grows_def split: if_splits)

lemma plain_ok_more: "plain_ok g mi c k a \<Longrightarrow> k \<le> k' \<Longrightarrow> plain_ok g mi c k' a"
  unfolding plain_ok_def by (elim exE conjE) (intro exI conjI, erule (1) edges_ok_more, assumption+)

lemma keep_edge_step:
  assumes "plain_ok g mi c k a" and "e \<in> set (flow_edges g)" and "plain_edge mi e"
  shows "plain_ok g mi c (Suc k) (keep_edge e a) \<and> covered mi c e (keep_edge e a) \<and> acc_grows a (keep_edge e a)"
proof (cases "edge_id e \<in> kept a")
  case True
  with assms plain_ok_more[OF assms(1), of "Suc k"] show ?thesis
    by (simp add: keep_edge_def covered_def acc_grows_refl)
next
  case False
  from assms(1) obtain K where K: "edges_ok {} (cross_ends g mi c) K k a" "kept a = edge_id ` set K"
    "distinct (map edge_id K)" "set K \<subseteq> {e \<in> set (flow_edges g). plain_edge mi e}"
    by (auto simp: plain_ok_def)
  have "edges_ok {} (cross_ends g mi c) (K @ [e]) (Suc k) (keep_edge e a)"
    using K(1) False by (auto simp: edges_ok_def keep_edge_def)
  moreover have "distinct (map edge_id (K @ [e]))" using K(2,3) False by auto
  ultimately have "plain_ok g mi c (Suc k) (keep_edge e a)"
    using K assms(2,3) False unfolding plain_ok_def by (intro exI[of _ "K @ [e]"]) (auto simp: keep_edge_def)
  with False assms(3) show ?thesis by (auto simp: keep_edge_def covered_def acc_grows_def)
qed

lemma plain_ok_add:
  assumes "plain_ok g mi c k a" and "x \<in> cross_ends g mi c"
  shows "(\<exists>a'. add_merged mark x prevs a = Inr a' \<and> plain_ok g mi c (Suc k) a' \<and> x \<in> ends ` set (new_edges a') \<and>
      acc_grows a a') \<or> (add_merged mark x prevs a = Inl ValueError \<and> 10000 \<le> k)"
proof -
  from assms(1) obtain K where K: "edges_ok {} (cross_ends g mi c) K k a" "kept a = edge_id ` set K"
    "distinct (map edge_id K)" "set K \<subseteq> {e \<in> set (flow_edges g). plain_edge mi e}"
    by (auto simp: plain_ok_def)
  from add_merged_step[OF K(1) assms(2), of mark prevs] show ?thesis
  proof (elim disjE exE conjE)
    fix a' assume a': "add_merged mark x prevs a = Inr a'" "edges_ok {} (cross_ends g mi c) K (Suc k) a'"
      "x \<in> ends ` set (new_edges a')" "acc_grows a a'" "kept a' = kept a"
    then have "plain_ok g mi c (Suc k) a'" unfolding plain_ok_def using K(2-4) by (intro exI[of _ K]) simp
    with a' show ?thesis by blast
  qed blast
qed

lemma plain_input_step:
  assumes r: "merge_ready g ml c" and e: "e \<in># edge_bag g" and mi: "mi = merged_ids ml"
    and t: "\<not> dmem (edge_target e) mi" and ok: "plain_ok g mi c k a"
  shows "(\<exists>a'. plain_input mi c (edge_target e) e a = Inr a' \<and> plain_ok g mi c (Suc k) a' \<and> covered mi c e a' \<and>
      acc_grows a a') \<or> (plain_input mi c (edge_target e) e a = Inl ValueError \<and> 10000 \<le> k)"
proof (cases "dget mi (edge_source e)")
  case None
  then have "plain_edge mi e" using t by (simp add: plain_edge_def dmem_dget)
  with keep_edge_step[OF ok _ this] e None show ?thesis by (simp add: plain_input_def edge_bag_def)
next
  case (Some m)
  have tn: "dget mi (edge_target e) = None" using t by (simp add: dmem_dget)
  have p: "\<not> plain_edge mi e" and x: "crossing_edge mi e"
    using Some tn by (simp_all add: plain_edge_def crossing_edge_def inner_edge_def dmem_dget)
  have h: "dget (inside_handle c) (source_port e) = Some (out_handle c (source_port e))"
    using out_port(1)[OF r e] Some tn by (simp add: mi)
  have q: "q_ends mi c e = (m, edge_target e, out_handle c (source_port e), target_handle e)"
    using Some tn by (simp add: quotient_ends_def quotient_id_def dmem_dget)
  have "(m, edge_target e, out_handle c (source_port e), target_handle e) \<in> cross_ends g mi c"
    unfolding q[symmetric] cross_ends_def using e x by (simp add: edge_bag_def)
  from plain_ok_add[OF ok this, of True "[e]"] p x show ?thesis
    by (simp add: plain_input_def Some lookup_Some[OF h] covered_def q)
qed

lemma plain_output_step:
  assumes e: "e \<in># edge_bag g" and s: "\<not> dmem (edge_source e) mi" and ok: "plain_ok g mi c k a"
  shows "\<exists>a'. plain_output mi e a = Inr a' \<and> plain_ok g mi c (Suc k) a' \<and> (plain_edge mi e \<longrightarrow> covered mi c e a') \<and>
      acc_grows a a'"
proof (cases "dmem (edge_target e) mi")
  case True
  moreover have "plain_ok g mi c (Suc k) a" using plain_ok_more[OF ok] by simp
  ultimately show ?thesis by (simp add: plain_output_def plain_edge_def acc_grows_refl)
next
  case False
  with s have "plain_edge mi e" by (simp add: plain_edge_def)
  with keep_edge_step[OF ok _ this] e False show ?thesis by (simp add: plain_output_def edge_bag_def)
qed

lemma key_sizes:
  assumes "distinct ks"
  shows "sum_list (map (\<lambda>k. size {#e \<in># M. key e = k#}) ks) \<le> size M"
proof -
  have "sum_list (map (\<lambda>k. size {#e \<in># M. key e = k#}) ks) = size {#e \<in># M. key e \<in> set ks#}"
    using assms
  proof (induction ks)
    case (Cons k ks)
    have "{#e \<in># M. key e \<in> set (k # ks)#} = {#e \<in># M. key e = k#} + {#e \<in># M. key e \<in> set ks#}"
      using Cons.prems by (intro multiset_eqI) auto
    with Cons show ?case by simp
  qed simp
  then show ?thesis by (simp add: size_filter_mset_lesseq)
qed

lemma plain_loop:
  fixes g :: "'d internals" and ns :: "'d flow_node list"
  assumes tab: "handle_table key hnd (node_keys g) (edge_bag g) tab"
    and ns: "distinct (map node_id ns)" "node_id ` set ns \<subseteq> node_keys g"
    and step: "\<And>e k a. e \<in># edge_bag g \<Longrightarrow> key e \<in> node_id ` set ns \<Longrightarrow> P k a \<Longrightarrow>
      (\<exists>a'. f (key e) e a = Inr a' \<and> P (Suc k) a' \<and> Q e a' \<and> acc_grows a a') \<or> (f (key e) e a = Inl ValueError \<and> 10000 \<le> k)"
    and stable: "\<And>e a b. Q e a \<Longrightarrow> acc_grows a b \<Longrightarrow> Q e b"
    and mono: "\<And>k k' a. P k a \<Longrightarrow> k \<le> k' \<Longrightarrow> P k' a" and start: "P k a"
  shows "(\<exists>a'. rfold (plain_edges tab f) ns a = Inr a' \<and> P (k + size (edge_bag g)) a' \<and>
      (\<forall>e \<in># edge_bag g. key e \<in> node_id ` set ns \<longrightarrow> Q e a') \<and> acc_grows a a') \<or>
    (rfold (plain_edges tab f) ns a = Inl ValueError \<and> 10000 \<le> k + size (edge_bag g))"
proof -
  let ?w = "\<lambda>n. size {#e \<in># edge_bag g. key e = node_id n#}"
  have w: "sum_list (map ?w ns) \<le> size (edge_bag g)"
    using key_sizes[OF ns(1), of key "edge_bag g"] by (simp add: comp_def)
  have node: "(\<exists>a'. plain_edges tab f n a = Inr a' \<and> P (k + ?w n) a' \<and>
      (\<forall>e \<in># edge_bag g. key e = node_id n \<longrightarrow> Q e a') \<and> acc_grows a a') \<or>
    (plain_edges tab f n a = Inl ValueError \<and> 10000 \<le> k + ?w n)" if n: "n \<in> set ns" and p: "P k a" for n :: "'d flow_node" and k a
  proof -
    from n ns(2) have "node_id n \<in> node_keys g" by blast
    from handle_table_get[OF tab this] obtain d where d: "dget tab (node_id n) = Some d" ..
    let ?es = "concat (map snd d)"
    have m: "mset ?es = {#e \<in># edge_bag g. key e = node_id n#}" using handle_items(1)[OF tab d] .
    from arg_cong[OF m, of set_mset] have s: "set ?es = {e. e \<in># edge_bag g \<and> key e = node_id n}"
      unfolding set_mset_mset by simp
    from arg_cong[OF m, of size] have l: "length ?es = ?w n" unfolding size_mset .
    have one: "(\<exists>a'. f (node_id n) e a = Inr a' \<and> P (Suc k) a' \<and> Q e a' \<and> acc_grows a a') \<or>
        (f (node_id n) e a = Inl ValueError \<and> 10000 \<le> k)" if "e \<in> set ?es" "P k a" for e k a
      using step[of e k a] that n unfolding s by auto
    have "(\<exists>a'. rfold (f (node_id n)) ?es a = Inr a' \<and> P (k + length ?es) a' \<and> (\<forall>e \<in> set ?es. Q e a') \<and> acc_grows a a') \<or>
        (rfold (f (node_id n)) ?es a = Inl ValueError \<and> 10000 \<le> k + length ?es)"
      by (rule rfold_counted[where Q = Q and R = acc_grows])
        (assumption | rule one acc_grows_refl p | erule (1) acc_grows_trans | erule (1) stable)+
    then show ?thesis unfolding l s by (auto simp: plain_edges_def lookup_Some[OF d] rfold_items)
  qed
  have "(\<exists>a'. rfold (plain_edges tab f) ns a = Inr a' \<and> P (k + sum_list (map ?w ns)) a' \<and>
      (\<forall>n \<in> set ns. \<forall>e \<in># edge_bag g. key e = node_id n \<longrightarrow> Q e a') \<and> acc_grows a a') \<or>
    (rfold (plain_edges tab f) ns a = Inl ValueError \<and> 10000 \<le> k + sum_list (map ?w ns))"
    by (rule rfold_weighted[where Q = "\<lambda>n a. \<forall>e \<in># edge_bag g. key e = node_id n \<longrightarrow> Q e a" and R = acc_grows])
      (assumption | rule node acc_grows_refl start | erule (1) acc_grows_trans | use stable in blast)+
  then show ?thesis using w mono[of "k + sum_list (map ?w ns)" _ "k + size (edge_bag g)"] by fastforce
qed

subsubsection \<open>Merged nodes\<close>

lemma crossing_in_facts:
  assumes r: "merge_ready g ml c" and g: "(n, ids) \<in> set ml" and e: "e \<in># crossing_in g ids"
  shows "dget (merged_ids ml) (edge_target e) = Some (node_id n)"
    and "dget (merged_ids ml) (edge_source e) \<noteq> Some (node_id n)"
    and "e \<in># edge_bag g" and "crossing_edge (merged_ids ml) e"
    and "q_ends (merged_ids ml) c e = (quotient_id (merged_ids ml) (edge_source e), node_id n,
      (if dmem (edge_source e) (merged_ids ml) then out_handle c (source_port e) else source_handle e),
      in_handle c (source_port e) (node_id n))"
proof -
  have ap: "apart ml" using r by (simp add: merge_ready_def)
  show t: "dget (merged_ids ml) (edge_target e) = Some (node_id n)"
    and s: "dget (merged_ids ml) (edge_source e) \<noteq> Some (node_id n)" and "e \<in># edge_bag g"
    using e group_member[OF ap g] by (simp_all add: crossing_in_def)
  show "crossing_edge (merged_ids ml) e"
    using t s by (simp add: crossing_edge_def inner_edge_def plain_edge_def dmem_dget)
  show "q_ends (merged_ids ml) c e = (quotient_id (merged_ids ml) (edge_source e), node_id n,
      (if dmem (edge_source e) (merged_ids ml) then out_handle c (source_port e) else source_handle e),
      in_handle c (source_port e) (node_id n))"
    using t by (simp add: quotient_ends_def quotient_id_def dmem_dget)
qed

lemma crossing_out_facts:
  assumes r: "merge_ready g ml c" and g: "(n, ids) \<in> set ml" and e: "e \<in># crossing_out g ids"
  shows "dget (merged_ids ml) (edge_source e) = Some (node_id n)"
    and "dget (merged_ids ml) (edge_target e) \<noteq> Some (node_id n)"
    and "e \<in># edge_bag g" and "crossing_edge (merged_ids ml) e"
    and "q_ends (merged_ids ml) c e = (node_id n, quotient_id (merged_ids ml) (edge_target e), out_handle c (source_port e),
      (if dmem (edge_target e) (merged_ids ml)
       then in_handle c (source_port e) (quotient_id (merged_ids ml) (edge_target e)) else target_handle e))"
proof -
  have ap: "apart ml" using r by (simp add: merge_ready_def)
  show s: "dget (merged_ids ml) (edge_source e) = Some (node_id n)"
    and t: "dget (merged_ids ml) (edge_target e) \<noteq> Some (node_id n)" and "e \<in># edge_bag g"
    using e group_member[OF ap g] by (simp_all add: crossing_out_def)
  show "crossing_edge (merged_ids ml) e"
    using t s by (auto simp: crossing_edge_def inner_edge_def plain_edge_def dmem_dget)
  show "q_ends (merged_ids ml) c e = (node_id n, quotient_id (merged_ids ml) (edge_target e), out_handle c (source_port e),
      (if dmem (edge_target e) (merged_ids ml)
       then in_handle c (source_port e) (quotient_id (merged_ids ml) (edge_target e)) else target_handle e))"
    using s by (simp add: quotient_ends_def quotient_id_def dmem_dget)
qed

lemma in_cross_ends: "e \<in># edge_bag g \<Longrightarrow> crossing_edge mi e \<Longrightarrow> q_ends mi c e \<in> cross_ends g mi c"
  by (auto simp: cross_ends_def edge_bag_def)

lemma merged_input_step:
  assumes r: "merge_ready g ml c" and g: "(n, ids) \<in> set ml" and mi: "mi = merged_ids ml"
    and es: "es \<noteq> []" "\<forall>e \<in> set es. e \<in># crossing_in g ids \<and> source_port e = p"
    and ok: "edges_ok B (cross_ends g mi c) K k a"
  shows "(\<exists>a'. merged_input c (node_id n) (p, es) a = Inr a' \<and> edges_ok B (cross_ends g mi c) K (Suc k) a' \<and>
      (\<forall>e \<in> set es. q_ends mi c e \<in> ends ` set (new_edges a')) \<and> acc_grows a a') \<or>
    (merged_input c (node_id n) (p, es) a = Inl ValueError \<and> 10000 \<le> k)"
proof -
  from es obtain e es' where e: "es = e # es'" "e \<in># crossing_in g ids" "source_port e = p" by (cases es) auto
  note f = crossing_in_facts[OF r g e(2), folded mi]
  let ?x = "q_ends mi c e"
  have same: "q_ends mi c e' = ?x" if "e' \<in> set es" for e'
  proof -
    have e': "e' \<in># crossing_in g ids" "source_port e' = source_port e" using that es(2) e(3) by auto
    then have "edge_source e' = edge_source e" "source_handle e' = source_handle e" by (simp_all add: source_port_def)
    then show ?thesis
      unfolding f(5) crossing_in_facts(5)[OF r g e'(1), folded mi] using e'(2) by simp
  qed
  have h: "dget (outside_handle c) (p, node_id n) = Some (in_handle c p (node_id n))"
    using in_port[OF r f(3), of "node_id n"] f(1,2) e(3) by (simp add: mi)
  have run: "\<exists>mark. merged_input c (node_id n) (p, es) a = add_merged mark ?x es a"
  proof (cases "dget mi (edge_source e)")
    case None
    then have "dget (merged_out c) p = None"
      using not_owned[OF r, of p] e(3) by (auto simp: mi source_port_def)
    then have "merged_input c (node_id n) (p, es) a = add_merged False ?x es a"
      using None e(3) unfolding f(5) by (simp add: merged_input_def e(1) quotient_id_def dmem_dget lookup_Some[OF h])
    then show ?thesis by blast
  next
    case (Some m)
    have "dget (inside_handle c) p = Some (out_handle c p)" "dget (merged_out c) p = Some m"
      using out_port[OF r f(3), of m] Some f(1,2) e(3) by (simp_all add: mi)
    then have "merged_input c (node_id n) (p, es) a = add_merged True ?x es a"
      using Some e(3) unfolding f(5) by (simp add: merged_input_def quotient_id_def dmem_dget lookup_Some h)
    then show ?thesis by blast
  qed
  then obtain mark where run: "merged_input c (node_id n) (p, es) a = add_merged mark ?x es a" by blast
  from add_merged_step[OF ok in_cross_ends[OF f(3,4)], of mark es] show ?thesis
    unfolding run using same by auto
qed

lemma merged_output_edge_step:
  assumes r: "merge_ready g ml c" and g: "(n, ids) \<in> set ml" and mi: "mi = merged_ids ml"
    and e: "e \<in># crossing_out g ids" "source_port e = p" and ok: "edges_ok B (cross_ends g mi c) K k a"
  shows "(\<exists>a'. merged_output_edge mi c (node_id n) p (out_handle c p) es e a = Inr a' \<and>
      edges_ok B (cross_ends g mi c) K (Suc k) a' \<and> q_ends mi c e \<in> ends ` set (new_edges a') \<and> acc_grows a a') \<or>
    (merged_output_edge mi c (node_id n) p (out_handle c p) es e a = Inl ValueError \<and> 10000 \<le> k)"
proof -
  note f = crossing_out_facts[OF r g e(1), folded mi]
  have run: "\<exists>mark. merged_output_edge mi c (node_id n) p (out_handle c p) es e a = add_merged mark (q_ends mi c e) es a"
  proof (cases "dget mi (edge_target e)")
    case None
    then have "merged_output_edge mi c (node_id n) p (out_handle c p) es e a = add_merged False (q_ends mi c e) es a"
      unfolding f(5) using e(2) by (simp add: merged_output_edge_def quotient_id_def dmem_dget)
    then show ?thesis by blast
  next
    case (Some m)
    have "dget (outside_handle c) (p, m) = Some (in_handle c p m)"
      using in_port[OF r f(3), of m] Some f(1,2) e(2) by (simp add: mi)
    then have "merged_output_edge mi c (node_id n) p (out_handle c p) es e a = add_merged True (q_ends mi c e) es a"
      unfolding f(5) using Some e(2) by (simp add: merged_output_edge_def quotient_id_def dmem_dget lookup_Some)
    then show ?thesis by blast
  qed
  then obtain mark where run: "merged_output_edge mi c (node_id n) p (out_handle c p) es e a = add_merged mark (q_ends mi c e) es a" ..
  from add_merged_step[OF ok in_cross_ends[OF f(3,4)], of mark es] show ?thesis unfolding run by blast
qed

lemma merged_output_step:
  assumes r: "merge_ready g ml c" and g: "(n, ids) \<in> set ml" and mi: "mi = merged_ids ml"
    and es: "es \<noteq> []" "\<forall>e \<in> set es. e \<in># crossing_out g ids \<and> source_port e = p"
    and ok: "edges_ok B (cross_ends g mi c) K k a"
  shows "(\<exists>a'. merged_output mi c (node_id n) (p, es) a = Inr a' \<and> edges_ok B (cross_ends g mi c) K (k + length es) a' \<and>
      (\<forall>e \<in> set es. q_ends mi c e \<in> ends ` set (new_edges a')) \<and> acc_grows a a') \<or>
    (merged_output mi c (node_id n) (p, es) a = Inl ValueError \<and> 10000 \<le> k + length es)"
proof -
  from es obtain e es' where e: "es = e # es'" "e \<in># crossing_out g ids" "source_port e = p" by (cases es) auto
  note f = crossing_out_facts[OF r g e(2), folded mi]
  have h: "lookup (inside_handle c) p = Inr (out_handle c p)"
    using out_port(1)[OF r f(3), of "node_id n"] f(1,2) e(3) by (simp add: mi lookup_Some)
  have one: "(\<exists>a'. merged_output_edge mi c (node_id n) p (out_handle c p) es e a = Inr a' \<and>
      edges_ok B (cross_ends g mi c) K (Suc k) a' \<and> q_ends mi c e \<in> ends ` set (new_edges a') \<and> acc_grows a a') \<or>
    (merged_output_edge mi c (node_id n) p (out_handle c p) es e a = Inl ValueError \<and> 10000 \<le> k)"
    if "e \<in> set es" "edges_ok B (cross_ends g mi c) K k a" for e k a
    using merged_output_edge_step[OF r g mi _ _ that(2), of e p es] es(2) that(1) by blast
  have "(\<exists>a'. rfold (merged_output_edge mi c (node_id n) p (out_handle c p) es) es a = Inr a' \<and>
      edges_ok B (cross_ends g mi c) K (k + length es) a' \<and> (\<forall>e \<in> set es. q_ends mi c e \<in> ends ` set (new_edges a')) \<and>
      acc_grows a a') \<or>
    (rfold (merged_output_edge mi c (node_id n) p (out_handle c p) es) es a = Inl ValueError \<and> 10000 \<le> k + length es)"
    by (rule rfold_counted[where Q = "\<lambda>e a. q_ends mi c e \<in> ends ` set (new_edges a)" and R = acc_grows])
      (assumption | rule one acc_grows_refl ok | erule (1) acc_grows_trans | erule (1) acc_grows_ends)+
  then show ?thesis by (simp add: merged_output_def h)
qed

lemma dict_mset: "dict_ok d \<Longrightarrow> dict_ok d' \<Longrightarrow> (\<And>k. dget d k = dget d' k) \<Longrightarrow> mset d = mset d'"
proof -
  assume ok: "dict_ok d" "dict_ok d'" and eq: "\<And>k. dget d k = dget d' k"
  have "set d = set d'" using dict_items[OF ok(1)] dict_items[OF ok(2)] eq by auto
  moreover have "distinct d" "distinct d'" using ok by (simp_all add: dict_ok_def dkeys_def distinct_map)
  ultimately show ?thesis by (simp add: set_eq_iff_mset_eq_distinct)
qed

lemma corrected:
  "\<exists>d. (if correct then get_order_corrected (groups source_port L) (groups target_port L) else Inr (groups source_port L)) = Inr d \<and>
     mset d = mset (groups source_port L)"
proof (cases correct)
  case True
  from order_corrected[of L] obtain d where d: "get_order_corrected (groups source_port L) (groups target_port L) = Inr d"
    "dict_ok d" "\<forall>p. dget d p = dget (groups source_port L) p" by blast
  from d(3) have "mset d = mset (groups source_port L)" by (intro dict_mset[OF d(2) dict_ok_groups]) blast
  with d(1) True show ?thesis by simp
qed simp

lemma group_item:
  assumes "(p, es) \<in> set (groups source_port L)" and "mset L = M"
  shows "es \<noteq> [] \<and> (\<forall>e \<in> set es. e \<in># M \<and> source_port e = p)"
  using assms by (auto simp: groups_items filter_empty_conv)

lemma all_items:
  assumes "\<forall>x \<in> set (groups source_port L). \<forall>e \<in> set (snd x). Q e"
  shows "\<forall>e \<in> set L. Q e"
proof
  fix e assume "e \<in> set L"
  then have "(source_port e, filter (\<lambda>x. source_port x = source_port e) L) \<in> set (groups source_port L)"
    by (simp add: groups_items)
  with assms \<open>e \<in> set L\<close> show "Q e" by fastforce
qed

lemma merged_edges_step:
  assumes r: "merge_ready g ml c" and g: "(n, ids) \<in> set ml" and mi: "mi = merged_ids ml"
    and ok: "edges_ok B (cross_ends g mi c) K k a"
  shows "(\<exists>a'. merged_edges correct mi c (n, ids) a = Inr a' \<and>
      edges_ok B (cross_ends g mi c) K (k + 2 * size (edge_bag g)) a' \<and>
      (\<forall>e \<in># crossing_in g ids + crossing_out g ids. q_ends mi c e \<in> ends ` set (new_edges a')) \<and> acc_grows a a') \<or>
    (merged_edges correct mi c (n, ids) a = Inl ValueError \<and> 10000 \<le> k + 2 * size (edge_bag g))"
proof -
  let ?C = "cross_ends g mi c"
  from r g have "group_ok g c (node_id n) ids" using ctx_okD(1) by (auto simp: merge_ready_def)
  then obtain Ls Os where m: "dget (metas c) (node_id n) = Some (meta_of Ls Os)"
    "mset Ls = crossing_in g ids" "mset Os = crossing_out g ids" by (auto simp: group_ok_def)
  obtain oo where oo: "(if correct then get_order_corrected (groups source_port Ls) (groups target_port Ls)
      else Inr (groups source_port Ls)) = Inr oo" "mset oo = mset (groups source_port Ls)" using corrected by blast
  obtain io where io: "(if correct then get_order_corrected (groups source_port Os) (groups target_port Os)
      else Inr (groups source_port Os)) = Inr io" "mset io = mset (groups source_port Os)" using corrected by blast
  have run: "merged_edges correct mi c (n, ids) a =
      rbind (rfold (merged_input c (node_id n)) oo a) (rfold (merged_output mi c (node_id n)) io)"
    unfolding merged_edges_def using oo(1) io(1) by (simp only: case_prod_conv lookup_Some[OF m(1)] rbind.simps meta_of_sel)
  have lo: "length oo \<le> size (edge_bag g)"
    using length_groups[of source_port Ls] size_crossing m(2) arg_cong[OF oo(2), of size]
    unfolding crossing_in_def size_mset by (metis le_trans)
  have li: "sum_list (map (length \<circ> snd) io) \<le> size (edge_bag g)"
  proof -
    have "sum_list (map (length \<circ> snd) io) = sum_list (map (length \<circ> snd) (groups source_port Os))"
      using io(2) by (metis mset_map sum_mset_sum_list)
    also have "\<dots> = length (concat (map snd (groups source_port Os)))" by (simp add: length_concat)
    also have "\<dots> = length Os" using concat_groups by (metis size_mset)
    finally show ?thesis using size_crossing m(3) unfolding crossing_out_def by metis
  qed
  have so: "set oo = set (groups source_port Ls)" "set io = set (groups source_port Os)"
    using oo(2) io(2) by (metis set_mset_mset)+
  have one: "(\<exists>a'. merged_input c (node_id n) x a = Inr a' \<and> edges_ok B ?C K (Suc k) a' \<and>
      (\<forall>e \<in> set (snd x). q_ends mi c e \<in> ends ` set (new_edges a')) \<and> acc_grows a a') \<or>
    (merged_input c (node_id n) x a = Inl ValueError \<and> 10000 \<le> k)" if "x \<in> set oo" "edges_ok B ?C K k a" for x k a
    using merged_input_step[OF r g mi _ _ that(2), of "snd x" "fst x"] group_item[of "fst x" "snd x" Ls, OF _ m(2)] that(1)
    unfolding so by simp
  have "(\<exists>a'. rfold (merged_input c (node_id n)) oo a = Inr a' \<and> edges_ok B ?C K (k + length oo) a' \<and>
      (\<forall>x \<in> set oo. \<forall>e \<in> set (snd x). q_ends mi c e \<in> ends ` set (new_edges a')) \<and> acc_grows a a') \<or>
    (rfold (merged_input c (node_id n)) oo a = Inl ValueError \<and> 10000 \<le> k + length oo)"
    by (rule rfold_counted[where Q = "\<lambda>x a. \<forall>e \<in> set (snd x). q_ends mi c e \<in> ends ` set (new_edges a)" and R = acc_grows])
      (assumption | rule one acc_grows_refl ok | erule (1) acc_grows_trans | blast intro: acc_grows_ends)+
  then show ?thesis
  proof (elim disjE exE conjE)
    fix a1 assume a1: "rfold (merged_input c (node_id n)) oo a = Inr a1" "edges_ok B ?C K (k + length oo) a1"
      "\<forall>x \<in> set oo. \<forall>e \<in> set (snd x). q_ends mi c e \<in> ends ` set (new_edges a1)" "acc_grows a a1"
    have two: "(\<exists>a'. merged_output mi c (node_id n) x a = Inr a' \<and> edges_ok B ?C K (k + (length \<circ> snd) x) a' \<and>
        (\<forall>e \<in> set (snd x). q_ends mi c e \<in> ends ` set (new_edges a')) \<and> acc_grows a a') \<or>
      (merged_output mi c (node_id n) x a = Inl ValueError \<and> 10000 \<le> k + (length \<circ> snd) x)"
      if "x \<in> set io" "edges_ok B ?C K k a" for x k a
      using merged_output_step[OF r g mi _ _ that(2), of "snd x" "fst x"] group_item[of "fst x" "snd x" Os, OF _ m(3)] that(1)
      unfolding so by simp
    have "(\<exists>a'. rfold (merged_output mi c (node_id n)) io a1 = Inr a' \<and>
        edges_ok B ?C K (k + length oo + sum_list (map (length \<circ> snd) io)) a' \<and>
        (\<forall>x \<in> set io. \<forall>e \<in> set (snd x). q_ends mi c e \<in> ends ` set (new_edges a')) \<and> acc_grows a1 a') \<or>
      (rfold (merged_output mi c (node_id n)) io a1 = Inl ValueError \<and>
        10000 \<le> k + length oo + sum_list (map (length \<circ> snd) io))"
      by (rule rfold_weighted[where Q = "\<lambda>x a. \<forall>e \<in> set (snd x). q_ends mi c e \<in> ends ` set (new_edges a)" and R = acc_grows])
        (assumption | rule two acc_grows_refl a1(2) | erule (1) acc_grows_trans | blast intro: acc_grows_ends)+
    then show ?thesis
    proof (elim disjE exE conjE)
      fix a2 assume a2: "rfold (merged_output mi c (node_id n)) io a1 = Inr a2"
        "edges_ok B ?C K (k + length oo + sum_list (map (length \<circ> snd) io)) a2"
        "\<forall>x \<in> set io. \<forall>e \<in> set (snd x). q_ends mi c e \<in> ends ` set (new_edges a2)" "acc_grows a1 a2"
      have "edges_ok B ?C K (k + 2 * size (edge_bag g)) a2" by (rule edges_ok_more[OF a2(2)]) (use lo li in simp)
      moreover have "\<forall>e \<in> set Ls. q_ends mi c e \<in> ends ` set (new_edges a2)"
        using all_items[OF a1(3)[unfolded so]] acc_grows_ends[OF _ a2(4)] by blast
      moreover have "\<forall>e \<in> set Os. q_ends mi c e \<in> ends ` set (new_edges a2)"
        by (rule all_items[OF a2(3)[unfolded so]])
      ultimately show ?thesis
        using run a1(1) a2(1) acc_grows_trans[OF a1(4) a2(4)] unfolding m(2,3)[symmetric] by auto
    next
      assume "rfold (merged_output mi c (node_id n)) io a1 = Inl ValueError"
        "10000 \<le> k + length oo + sum_list (map (length \<circ> snd) io)"
      then show ?thesis using run a1(1) lo li by simp
    qed
  next
    assume "rfold (merged_input c (node_id n)) oo a = Inl ValueError" "10000 \<le> k + length oo"
    then show ?thesis using run lo by simp
  qed
qed

lemma keyed_map: "keyed f d \<Longrightarrow> map f (dvals d) = dkeys d"
  by (auto simp: keyed_def dict_ok_def dget_def dkeys_def dvals_def)

lemma merged_dom: "apart ml \<Longrightarrow> dmem i (merged_ids ml) \<longleftrightarrow> i \<in> set (concat (map snd ml))"
  using merged_ids_get[of ml i] by (force simp: dmem_dget apart_def)

text \<open>The plain edges of a graph, all of them and nothing else, are in \<open>K\<close>.\<close>

definition built :: "'d internals \<Rightarrow> (string, string) dict \<Rightarrow> merge_ctx \<Rightarrow> bool \<Rightarrow> string set \<Rightarrow> flow_edge list
    \<Rightarrow> nat \<Rightarrow> edge_acc \<Rightarrow> bool" where
  "built g mi c correct B K k a \<longleftrightarrow> edges_ok B (cross_ends g mi c) K k a \<and> distinct (map edge_id K) \<and>
     set K = {e \<in> set (flow_edges g). plain_edge mi e} \<and> (\<not> correct \<longrightarrow> B = edge_id ` set K)"

lemma edge_ids_inj:
  assumes "core_wf g" and "e \<in> set (flow_edges g)" and "f \<in> set (flow_edges g)" and "edge_id e = edge_id f"
  shows "e = f"
  using assms keyed_dget[of edge_id "id_to_edge g"] by (metis core_wf_def flow_edges_def option.inject)

lemma plain_phase:
  assumes r: "merge_ready g ml c" and mi: "mi = merged_ids ml"
    and pl: "plain = filter (\<lambda>n. node_id n \<notin> set (concat (map snd ml))) (flow_nodes g)"
  shows "(\<exists>a K. rbind (rfold (plain_edges (node_id_to_inp_handle_to_edges g) (plain_input mi c)) plain (new_acc []))
        (rfold (plain_edges (node_id_to_out_handle_to_edges g) (\<lambda>_. plain_output mi)) plain) = Inr a \<and>
      built g mi c True {} K (2 * size (edge_bag g)) a) \<or>
    (rbind (rfold (plain_edges (node_id_to_inp_handle_to_edges g) (plain_input mi c)) plain (new_acc []))
        (rfold (plain_edges (node_id_to_out_handle_to_edges g) (\<lambda>_. plain_output mi)) plain) = Inl ValueError \<and>
      10000 \<le> 2 * size (edge_bag g))"
proof -
  have wf: "core_wf g" "inp_wf g" and ap: "apart ml" using r by (simp_all add: merge_ready_def)
  have ti: "handle_table edge_target target_handle (node_keys g) (edge_bag g) (node_id_to_inp_handle_to_edges g)"
    and to: "handle_table edge_source source_handle (node_keys g) (edge_bag g) (node_id_to_out_handle_to_edges g)"
    using wf by (simp_all add: core_wf_def tables_ok_def inp_wf_def inp_ok_def)
  have km: "map node_id (flow_nodes g) = dkeys (id_to_node g)" and dk: "distinct (dkeys (id_to_node g))"
    using wf(1) keyed_map[of node_id "id_to_node g"] by (simp_all add: core_wf_def keyed_def dict_ok_def flow_nodes_def)
  have ns: "distinct (map node_id plain)"
    unfolding pl using km dk by (intro distinct_map_filter) simp
  have ids: "node_id ` set plain = node_keys g - set (concat (map snd ml))"
  proof -
    have "node_id ` set plain = node_id ` set (flow_nodes g) - set (concat (map snd ml))" unfolding pl by auto
    with arg_cong[OF km, of set] show ?thesis unfolding node_keys_def set_map by (simp only:)
  qed
  have sub: "node_id ` set plain \<subseteq> node_keys g" unfolding ids by blast
  have gone: "i \<in> node_id ` set plain \<Longrightarrow> \<not> dmem i mi" for i unfolding ids mi merged_dom[OF ap] by blast
  have start: "plain_ok g mi c 0 (new_acc [])"
    by (auto simp: plain_ok_def edges_ok_def new_acc_def pool_init_def intro!: exI[of _ "[]"])
  have s1: "(\<exists>a'. plain_input mi c (edge_target e) e a = Inr a' \<and> plain_ok g mi c (Suc k) a' \<and> covered mi c e a' \<and> acc_grows a a') \<or>
      (plain_input mi c (edge_target e) e a = Inl ValueError \<and> 10000 \<le> k)"
    if "e \<in># edge_bag g" "edge_target e \<in> node_id ` set plain" "plain_ok g mi c k a" for e k a
    by (rule plain_input_step[OF r that(1) mi gone[OF that(2)] that(3)])
  let ?i = "rfold (plain_edges (node_id_to_inp_handle_to_edges g) (plain_input mi c)) plain (new_acc [])"
  have "(\<exists>a'. ?i = Inr a' \<and> plain_ok g mi c (0 + size (edge_bag g)) a' \<and>
      (\<forall>e \<in># edge_bag g. edge_target e \<in> node_id ` set plain \<longrightarrow> covered mi c e a') \<and> acc_grows (new_acc []) a') \<or>
    (?i = Inl ValueError \<and> 10000 \<le> 0 + size (edge_bag g))"
    by (rule plain_loop[OF ti ns sub, where f = "plain_input mi c" and P = "plain_ok g mi c" and Q = "covered mi c"])
      (assumption | rule s1 start | erule (1) covered_grows | erule (1) plain_ok_more)+
  then show ?thesis
  proof (elim disjE exE conjE)
    fix a1 assume a1: "rfold (plain_edges (node_id_to_inp_handle_to_edges g) (plain_input mi c)) plain (new_acc []) = Inr a1"
      "plain_ok g mi c (0 + size (edge_bag g)) a1"
      "\<forall>e \<in># edge_bag g. edge_target e \<in> node_id ` set plain \<longrightarrow> covered mi c e a1"
    let ?Q = "\<lambda>e a. plain_edge mi e \<longrightarrow> covered mi c e a"
    have s2: "(\<exists>a'. plain_output mi e a = Inr a' \<and> plain_ok g mi c (Suc k) a' \<and> ?Q e a' \<and> acc_grows a a') \<or>
        (plain_output mi e a = Inl ValueError \<and> 10000 \<le> k)"
      if "e \<in># edge_bag g" "edge_source e \<in> node_id ` set plain" "plain_ok g mi c k a" for e k a
      using plain_output_step[OF that(1) gone[OF that(2)] that(3)] by blast
    have s3: "?Q e a \<Longrightarrow> acc_grows a b \<Longrightarrow> ?Q e b" for e a b using covered_grows by blast
    let ?o = "rfold (plain_edges (node_id_to_out_handle_to_edges g) (\<lambda>_. plain_output mi)) plain a1"
    have "(\<exists>a'. ?o = Inr a' \<and> plain_ok g mi c (0 + size (edge_bag g) + size (edge_bag g)) a' \<and>
        (\<forall>e \<in># edge_bag g. edge_source e \<in> node_id ` set plain \<longrightarrow> ?Q e a') \<and> acc_grows a1 a') \<or>
      (?o = Inl ValueError \<and> 10000 \<le> 0 + size (edge_bag g) + size (edge_bag g))"
      by (rule plain_loop[OF to ns sub, where f = "\<lambda>_. plain_output mi" and P = "plain_ok g mi c" and Q = ?Q])
        (assumption | rule s2 a1(2) | erule (1) s3 | erule (1) plain_ok_more)+
    then show ?thesis
    proof (elim disjE exE conjE)
      fix a2 assume a2: "rfold (plain_edges (node_id_to_out_handle_to_edges g) (\<lambda>_. plain_output mi)) plain a1 = Inr a2"
        "plain_ok g mi c (0 + size (edge_bag g) + size (edge_bag g)) a2" "acc_grows a1 a2"
      from a2(2) obtain K where K: "edges_ok {} (cross_ends g mi c) K (0 + size (edge_bag g) + size (edge_bag g)) a2"
        "kept a2 = edge_id ` set K" "distinct (map edge_id K)" "set K \<subseteq> {e \<in> set (flow_edges g). plain_edge mi e}"
        by (auto simp: plain_ok_def)
      have "e \<in> set K" if e: "e \<in> set (flow_edges g)" "plain_edge mi e" for e
      proof -
        have "edge_target e \<in> node_keys g" using e(1) wf(1) by (auto simp: core_wf_def edge_bag_def)
        then have "edge_target e \<in> node_id ` set plain"
          using e(2) merged_dom[OF ap] unfolding ids plain_edge_def mi by blast
        then have "covered mi c e a1" using a1(3) e(1) by (simp add: edge_bag_def)
        then have "edge_id e \<in> kept a2" using e(2) a2(3) by (auto simp: covered_def acc_grows_def)
        then obtain f where f: "f \<in> set K" "edge_id e = edge_id f" unfolding K(2) by blast
        then have "e = f" using edge_ids_inj[OF wf(1) e(1)] K(4) by blast
        with f show ?thesis by simp
      qed
      with K(4) have "set K = {e \<in> set (flow_edges g). plain_edge mi e}" by blast
      then have "built g mi c True {} K (2 * size (edge_bag g)) a2" using K(1,3) by (simp add: built_def mult_2)
      with a1(1) a2(1) show ?thesis by auto
    qed (use a1(1) in simp)
  qed simp
qed

lemma build_outcome:
  assumes r: "merge_ready g ml c" and mi: "mi = merged_ids ml"
    and pl: "plain = filter (\<lambda>n. node_id n \<notin> set (concat (map snd ml))) (flow_nodes g)"
    and N: "N = size (edge_bag g) * (2 * length ml + 2)"
  shows "(\<exists>a B K. build_merged_edges g correct ml mi c plain = Inr a \<and> built g mi c correct B K N a \<and>
      (\<forall>e \<in> set (flow_edges g). crossing_edge mi e \<longrightarrow> q_ends mi c e \<in> ends ` set (new_edges a))) \<or>
    (build_merged_edges g correct ml mi c plain = Inl ValueError \<and> 10000 \<le> N)"
proof -
  let ?C = "cross_ends g mi c" let ?s = "size (edge_bag g)"
  have wf: "core_wf g" and ap: "apart ml" using r by (simp_all add: merge_ready_def)
  have ids: "distinct (map edge_id (flow_edges g))"
    using wf keyed_map[of edge_id "id_to_edge g"] by (simp add: core_wf_def keyed_def dict_ok_def flow_edges_def)
  let ?first = "if correct
       then rbind (rfold (plain_edges (node_id_to_inp_handle_to_edges g) (plain_input mi c)) plain (new_acc []))
         (rfold (plain_edges (node_id_to_out_handle_to_edges g) (\<lambda>_. plain_output mi)) plain)
       else Inr (new_acc (filter (\<lambda>e. \<not> dmem (edge_source e) mi \<and> \<not> dmem (edge_target e) mi) (flow_edges g)))"
  have first: "(\<exists>a B K. ?first = Inr a \<and> built g mi c correct B K (2 * ?s) a) \<or> (?first = Inl ValueError \<and> 10000 \<le> 2 * ?s)"
  proof (cases correct)
    case True
    with plain_phase[OF r mi pl] show ?thesis by auto
  next
    case False
    let ?K = "filter (\<lambda>e. \<not> dmem (edge_source e) mi \<and> \<not> dmem (edge_target e) mi) (flow_edges g)"
    have "card (edge_id ` set ?K) \<le> length ?K" using card_image_le[of "set ?K" edge_id] card_length[of ?K] by simp
    also have "\<dots> \<le> 2 * ?s" by (rule order_trans[OF length_filter_le]) (simp add: edge_bag_def)
    finally have "edges_ok (edge_id ` set ?K) ?C ?K (2 * ?s) (new_acc ?K)"
      by (simp add: edges_ok_def new_acc_def pool_init_def)
    moreover have "distinct (map edge_id ?K)" by (rule distinct_map_filter[OF ids])
    ultimately have "built g mi c correct (edge_id ` set ?K) ?K (2 * ?s) (new_acc ?K)"
      by (simp add: built_def plain_edge_def)
    with False show ?thesis by auto
  qed
  then show ?thesis
  proof (elim disjE exE conjE)
    fix a B K assume a: "?first = Inr a" "built g mi c correct B K (2 * ?s) a"
    then have ok: "edges_ok B ?C K (2 * ?s) a" by (simp add: built_def)
    let ?Q = "\<lambda>x a. \<forall>e \<in># crossing_in g (snd x) + crossing_out g (snd x). q_ends mi c e \<in> ends ` set (new_edges a)"
    have one: "(\<exists>a'. merged_edges correct mi c x a = Inr a' \<and> edges_ok B ?C K (k + 2 * ?s) a' \<and> ?Q x a' \<and> acc_grows a a') \<or>
        (merged_edges correct mi c x a = Inl ValueError \<and> 10000 \<le> k + 2 * ?s)"
      if "x \<in> set ml" "edges_ok B ?C K k a" for x k a
      using merged_edges_step[OF r _ mi that(2), of "fst x" "snd x" correct] that(1) by simp
    have stable: "?Q x a \<Longrightarrow> acc_grows a b \<Longrightarrow> ?Q x b" for x a b using acc_grows_ends by blast
    have sum: "sum_list (map (\<lambda>_. 2 * ?s) ml) = length ml * (2 * ?s)" by (simp add: sum_list_triv)
    have "(\<exists>a'. rfold (merged_edges correct mi c) ml a = Inr a' \<and> edges_ok B ?C K (2 * ?s + sum_list (map (\<lambda>_. 2 * ?s) ml)) a' \<and>
        (\<forall>x \<in> set ml. ?Q x a') \<and> acc_grows a a') \<or>
      (rfold (merged_edges correct mi c) ml a = Inl ValueError \<and> 10000 \<le> 2 * ?s + sum_list (map (\<lambda>_. 2 * ?s) ml))"
      by (rule rfold_weighted[where R = acc_grows and Q = ?Q])
        (assumption | rule one acc_grows_refl ok | erule (1) acc_grows_trans | erule (1) stable)+
    moreover have n: "2 * ?s + length ml * (2 * ?s) = N" by (simp add: N algebra_simps)
    ultimately show ?thesis unfolding sum n
    proof (elim disjE exE conjE)
      fix b assume b: "rfold (merged_edges correct mi c) ml a = Inr b" "edges_ok B ?C K N b" "\<forall>x \<in> set ml. ?Q x b"
      have "q_ends mi c e \<in> ends ` set (new_edges b)" if e: "e \<in> set (flow_edges g)" "crossing_edge mi e" for e
      proof -
        have eb: "e \<in># edge_bag g" using e(1) by (simp add: edge_bag_def)
        from e(2) have "(\<exists>m. dget mi (edge_target e) = Some m \<and> dget mi (edge_source e) \<noteq> Some m) \<or>
            (\<exists>m. dget mi (edge_source e) = Some m \<and> dget mi (edge_target e) \<noteq> Some m)"
          by (auto simp: crossing_edge_def inner_edge_def plain_edge_def dmem_dget)
        then show ?thesis
        proof (elim disjE exE conjE)
          fix m assume m: "dget mi (edge_target e) = Some m" "dget mi (edge_source e) \<noteq> Some m"
          from ap m(1)[unfolded mi] obtain n ids where x: "(n, ids) \<in> set ml" "edge_target e \<in> set ids" "m = node_id n"
            by (rule member_group)
          then have "e \<in># crossing_in g ids" using eb m(2) group_member[OF ap x(1)] by (simp add: crossing_in_def mi)
          with b(3) x(1) show ?thesis by fastforce
        next
          fix m assume m: "dget mi (edge_source e) = Some m" "dget mi (edge_target e) \<noteq> Some m"
          from ap m(1)[unfolded mi] obtain n ids where x: "(n, ids) \<in> set ml" "edge_source e \<in> set ids" "m = node_id n"
            by (rule member_group)
          then have "e \<in># crossing_out g ids" using eb m(2) group_member[OF ap x(1)] by (simp add: crossing_out_def mi)
          with b(3) x(1) show ?thesis by fastforce
        qed
      qed
      moreover have "built g mi c correct B K N b" using a(2) b(2) by (simp add: built_def)
      moreover have "build_merged_edges g correct ml mi c plain = Inr b"
        unfolding build_merged_edges_def using a(1) b(1) by simp
      ultimately show ?thesis by blast
    next
      assume "rfold (merged_edges correct mi c) ml a = Inl ValueError" "10000 \<le> N"
      then show ?thesis unfolding build_merged_edges_def using a(1) by simp
    qed
  next
    assume "?first = Inl ValueError" "10000 \<le> 2 * ?s"
    then show ?thesis unfolding build_merged_edges_def by (simp add: N)
  qed
qed

lemma edge_ids_clash:
  assumes "built g mi c correct B K N a"
  shows "distinct (map edge_id (new_edges a)) \<or> correct"
proof (cases correct)
  case False
  from assms have e: "edges_ok B (cross_ends g mi c) K N a" "distinct (map edge_id K)" and b: "B = edge_id ` set K"
    using False unfolding built_def by blast+
  have "distinct (dkeys (origin a) @ map edge_id K)"
    using e b by (auto simp: edges_ok_def dict_ok_def)
  moreover have "mset (map edge_id (new_edges a)) = mset (dkeys (origin a) @ map edge_id K)" using e by (simp add: edges_ok_def)
  ultimately show ?thesis by (metis mset_eq_imp_distinct_iff)
qed simp

lemma built_ends:
  assumes "built g mi c correct B K N a"
    and "\<forall>e \<in> set (flow_edges g). crossing_edge mi e \<longrightarrow> q_ends mi c e \<in> ends ` set (new_edges a)"
  shows "ends ` set (new_edges a) = q_ends mi c ` {e \<in> set (flow_edges g). \<not> inner_edge mi e}"
    and "{e \<in> set (flow_edges g). plain_edge mi e} \<subseteq> set (new_edges a)"
proof -
  have k: "set K = {e \<in> set (flow_edges g). plain_edge mi e}" and s: "set K \<subseteq> set (new_edges a)"
    and up: "ends ` set (new_edges a) \<subseteq> ends ` set K \<union> cross_ends g mi c"
    using assms(1) unfolding built_def edges_ok_def by blast+
  show "{e \<in> set (flow_edges g). plain_edge mi e} \<subseteq> set (new_edges a)" using k s by simp
  have ek: "ends ` set K = q_ends mi c ` {e \<in> set (flow_edges g). plain_edge mi e}"
    unfolding k by (intro image_cong) (simp_all add: quotient_plain)
  have "{e \<in> set (flow_edges g). \<not> inner_edge mi e} =
      {e \<in> set (flow_edges g). plain_edge mi e} \<union> {e \<in> set (flow_edges g). crossing_edge mi e}"
    by (auto simp: crossing_edge_def plain_edge_def inner_edge_def)
  then have split: "q_ends mi c ` {e \<in> set (flow_edges g). \<not> inner_edge mi e} = ends ` set K \<union> cross_ends g mi c"
    by (simp add: ek cross_ends_def image_Un)
  have "cross_ends g mi c \<subseteq> ends ` set (new_edges a)" using assms(2) by (auto simp: cross_ends_def)
  with up s show "ends ` set (new_edges a) = q_ends mi c ` {e \<in> set (flow_edges g). \<not> inner_edge mi e}"
    unfolding split by blast
qed

text \<open>The handles of a group: an outer port and a port of the group get different names, and no port
  without a handle gets one.\<close>

definition group_apart :: "(port \<Rightarrow> string option) \<Rightarrow> (port \<Rightarrow> string option) \<Rightarrow> port set \<Rightarrow> port set \<Rightarrow> bool" where
  "group_apart ho h I Q \<longleftrightarrow>
     (\<forall>p \<in> I. h p = None \<longleftrightarrow> snd p = None) \<and> (\<forall>p \<in> Q. ho p = None \<longleftrightarrow> snd p = None) \<and>
     (\<forall>p \<in> I. \<forall>q \<in> I. h p = h q \<and> h p \<noteq> None \<longrightarrow> p = q) \<and> (\<forall>p \<in> Q. \<forall>q \<in> Q. ho p = ho q \<and> ho p \<noteq> None \<longrightarrow> p = q) \<and>
     (\<forall>p \<in> I. \<forall>q \<in> Q. h p = ho q \<longrightarrow> h p = None)"

definition handles_apart :: "'d internals \<Rightarrow> 'd merge_list \<Rightarrow> (port \<Rightarrow> string option) \<Rightarrow> (port \<Rightarrow> string \<Rightarrow> string option) \<Rightarrow> bool" where
  "handles_apart g ml ho hi \<longleftrightarrow> (\<forall>(n, ids) \<in> set ml.
     group_apart ho (\<lambda>p. hi p (node_id n)) (source_port ` set_mset (crossing_in g ids)) (source_port ` set_mset (crossing_out g ids)))"

lemma namedD:
  "named H S \<Longrightarrow> H x = Some v \<Longrightarrow> v = None \<longleftrightarrow> snd (port_of x) = None"
  "named H S \<Longrightarrow> H x = Some (Some i) \<Longrightarrow> H y = Some (Some i) \<Longrightarrow> y = x"
  by (auto simp: named_def)

lemma handles_are_apart:
  assumes "ctx_ok g ml c"
  shows "handles_apart g ml (out_handle c) (in_handle c)"
proof -
  have "group_apart (out_handle c) (\<lambda>p. in_handle c p (node_id n))
      (source_port ` set_mset (crossing_in g ids)) (source_port ` set_mset (crossing_out g ids))" if g: "(n, ids) \<in> set ml" for n ids
  proof -
    let ?H = "handle_at c (node_id n) ids"
    from ctx_okD(1)[OF assms g] obtain S where S: "named ?H S" by (auto simp: group_ok_def)
    have i: "?H (Inl p) = Some (in_handle c p (node_id n))" if "p \<in> source_port ` set_mset (crossing_in g ids)" for p
    proof -
      have "?H (Inl p) \<noteq> None" using that ctx_okD(1)[OF assms g] by (auto simp: group_ok_def)
      then show ?thesis by (auto simp: handle_at_def in_handle_def)
    qed
    have o: "?H (Inr p) = Some (out_handle c p)" if "p \<in> source_port ` set_mset (crossing_out g ids)" for p
    proof -
      have "?H (Inr p) \<noteq> None" using that ctx_okD(1)[OF assms g] by (auto simp: group_ok_def)
      then show ?thesis by (auto simp: handle_at_def out_handle_def split: if_splits)
    qed
    have n: "?H x = Some v \<Longrightarrow> v = None \<longleftrightarrow> snd (port_of x) = None" for x v using namedD(1)[OF S] .
    have inj: "?H x = Some v \<Longrightarrow> ?H y = Some w \<Longrightarrow> v = w \<Longrightarrow> v \<noteq> None \<Longrightarrow> y = x" for x y v w
      using namedD(2)[OF S] by blast
    show ?thesis
      unfolding group_apart_def
    proof (intro conjI ballI impI; (elim conjE)?)
      fix p q assume "p \<in> source_port ` set_mset (crossing_in g ids)" "q \<in> source_port ` set_mset (crossing_out g ids)"
        "in_handle c p (node_id n) = out_handle c q"
      then show "in_handle c p (node_id n) = None" using inj[OF i o] by blast
    next
      fix p assume "p \<in> source_port ` set_mset (crossing_in g ids)"
      from n[OF i[OF this]] show "in_handle c p (node_id n) = None \<longleftrightarrow> snd p = None" by (simp add: port_of_def)
    next
      fix p assume "p \<in> source_port ` set_mset (crossing_out g ids)"
      from n[OF o[OF this]] show "out_handle c p = None \<longleftrightarrow> snd p = None" by (simp add: port_of_def)
    next
      fix p q assume "p \<in> source_port ` set_mset (crossing_in g ids)" "q \<in> source_port ` set_mset (crossing_in g ids)"
        "in_handle c p (node_id n) = in_handle c q (node_id n)" "in_handle c p (node_id n) \<noteq> None"
      with inj[OF i i] show "p = q" by (metis sum.inject(1))
    next
      fix p q assume "p \<in> source_port ` set_mset (crossing_out g ids)" "q \<in> source_port ` set_mset (crossing_out g ids)"
        "out_handle c p = out_handle c q" "out_handle c p \<noteq> None"
      with inj[OF o o] show "p = q" by (metis sum.inject(2))
    qed
  qed
  then show ?thesis by (auto simp: handles_apart_def)
qed

subsection \<open>A merge builds the quotient graph\<close>

lemma fresh_graph_ok:
  assumes "distinct (map node_id ns)" and "\<forall>e \<in> set es. edge_source e \<in> node_id ` set ns \<and> edge_target e \<in> node_id ` set ns"
  shows "if distinct (map edge_id es)
    then \<exists>r. fresh_graph ns es = Inr r \<and> core_wf r \<and> inp_wf r \<and> flow_nodes r = ns \<and> flow_edges r = es
    else fresh_graph ns es = Inl AssertionError"
proof (cases "distinct (map edge_id es)")
  case True
  then have ok: "graph_input_ok ns es" using assms by (auto simp: graph_input_ok_def)
  obtain v r where v: "set_from_nodes_edges ns es (new_internals :: 'a internals) = (v, r)"
    by (cases "set_from_nodes_edges ns es (new_internals :: 'a internals)")
  with set_from_outcome[of ns es "new_internals :: 'a internals"] ok True show ?thesis
    by (cases v) (auto simp: fresh_graph_def)
next
  case False
  then show ?thesis using assms(1)
    by (simp add: fresh_graph_def set_from_nodes_edges_def abind_def reset_nodes_def reset_edges_def Let_def dict_by_length_iff)
qed

lemma quotient_id_in:
  assumes ap: "apart ml" and i: "i \<in> node_keys g"
    and pl: "node_id ` set plain = node_keys g - set (concat (map snd ml))"
  shows "quotient_id (merged_ids ml) i \<in> node_id ` set (map fst ml @ plain)"
proof (cases "dget (merged_ids ml) i")
  case None
  then have "i \<notin> set (concat (map snd ml))" using merged_dom[OF ap, of i] by (simp add: dmem_dget)
  then have "i \<in> node_id ` set plain" using i pl by blast
  with None show ?thesis by (auto simp: quotient_id_def)
next
  case (Some m)
  with ap obtain n ids where "(n, ids) \<in> set ml" "m = node_id n" by (rule member_group)
  with Some show ?thesis by (force simp: quotient_id_def)
qed

definition merge_bound :: "'d internals \<Rightarrow> 'd merge_list \<Rightarrow> nat" where
  "merge_bound g ml = length (flow_nodes g) + length ml + length (flow_edges g) * (2 * length ml + 2)"

definition quotient_of :: "'d internals \<Rightarrow> 'd merge_list \<Rightarrow> 'd internals \<Rightarrow> bool" where
  "quotient_of g ml r \<longleftrightarrow> core_wf r \<and> inp_wf r \<and>
     flow_nodes r = map fst ml @ filter (\<lambda>n. node_id n \<notin> set (concat (map snd ml))) (flow_nodes g) \<and>
     {e \<in> set (flow_edges g). plain_edge (merged_ids ml) e} \<subseteq> set (flow_edges r) \<and>
     (\<exists>ho hi. handles_apart g ml ho hi \<and>
        ends ` set (flow_edges r) = quotient_ends (merged_ids ml) ho hi ` {e \<in> set (flow_edges g). \<not> inner_edge (merged_ids ml) e})"

lemma edges_in_quotient:
  assumes ap: "apart ml" and wf: "core_wf g" and pl: "node_id ` set plain = node_keys g - set (concat (map snd ml))"
    and e: "ends ` set es \<subseteq> quotient_ends (merged_ids ml) ho hi ` set (flow_edges g)" and x: "x \<in> set es"
  shows "edge_source x \<in> node_id ` set (map fst ml @ plain) \<and> edge_target x \<in> node_id ` set (map fst ml @ plain)"
proof -
  from e x obtain f where f: "f \<in> set (flow_edges g)" "ends x = quotient_ends (merged_ids ml) ho hi f" by blast
  then have "edge_source f \<in> node_keys g" "edge_target f \<in> node_keys g" using wf by (auto simp: core_wf_def edge_bag_def)
  then show ?thesis using quotient_id_in[OF ap _ pl] f(2) by (auto simp: ends_def quotient_ends_def)
qed

lemma merge_outcome:
  fixes g :: "'d internals" and md :: "'x list option"
  assumes wf: "core_wf g" "inp_wf g" and ml: "distinct (concat (map snd ml))" "set (concat (map snd ml)) \<subseteq> node_keys g"
  shows "case merge_nodes_with_data g ml md None (None :: (string, 'y) dict option) correct of
      Inl e \<Rightarrow> (e = AssertionError \<and> correct) \<or> (e = ValueError \<and> 10000 \<le> merge_bound g ml)
    | Inr r \<Rightarrow> map snd (merged_list r) = map snd ml \<and> quotient_of g (merged_list r) (merged_graph r)"
proof -
  define gone where "gone = set (concat (map snd ml))"
  let ?p = "pool_init 10000 (Some (set (dkeys (id_to_node g)) - gone))"
  let ?plain = "filter (\<lambda>n. node_id n \<notin> gone) (flow_nodes g)"
  have km: "map node_id (flow_nodes g) = dkeys (id_to_node g)" and dk: "distinct (dkeys (id_to_node g))"
    using wf(1) keyed_map[of node_id "id_to_node g"] by (simp_all add: core_wf_def keyed_def dict_ok_def flow_nodes_def)
  have pids: "node_id ` set ?plain = node_keys g - gone" and pd: "distinct (map node_id ?plain)"
  proof -
    have "node_id ` set ?plain = node_id ` set (flow_nodes g) - gone" by auto
    with arg_cong[OF km, of set] show "node_id ` set ?plain = node_keys g - gone" unfolding node_keys_def set_map by (simp only:)
    show "distinct (map node_id ?plain)" using km dk by (intro distinct_map_filter) simp
  qed
  have card: "card (unique_set ?p) \<le> length (flow_nodes g)"
    using card_mono[of "set (dkeys (id_to_node g))" "set (dkeys (id_to_node g)) - gone"] card_length[of "dkeys (id_to_node g)"]
      arg_cong[OF km, of length] by (simp add: pool_init_def)
  have fp: "finite (unique_set ?p)" "0 < max_count ?p" by (simp_all add: pool_init_def)
  have es: "size (edge_bag g) = length (flow_edges g)" by (simp add: edge_bag_def)
  note run = check_merge_list_ok[OF ml, folded gone_def]
  show ?thesis
  proof (cases "name_merged ml ?p")
    case (Inl e)
    with name_merged_outcome[OF fp, of ml] card have "e = ValueError \<and> 10000 \<le> merge_bound g ml"
      by (simp add: pool_init_def merge_bound_def)
    then show ?thesis by (simp add: merge_nodes_with_data_def run Inl)
  next
    case (Inr ml')
    with name_merged_outcome[OF fp, of ml] have ms: "map snd ml' = map snd ml"
      and dn: "distinct (map (node_id \<circ> fst) ml')" and fresh: "(node_id \<circ> fst) ` set ml' \<inter> (node_keys g - gone) = {}"
      by (simp_all add: pool_init_def node_keys_def)
    have gm: "set (concat (map snd ml')) = gone" using ms by (simp add: gone_def)
    have ap: "apart ml'" using dn ml(1) ms by (simp add: apart_def)
    have ll: "length ml' = length ml" using arg_cong[OF ms, of length] by simp
    have step1: "merge_nodes_with_data g ml md None (None :: (string, 'y) dict option) correct =
        rbind (rfold (name_group g) ml' new_ctx) (\<lambda>c.
        rbind (build_merged_edges g correct ml' (merged_ids ml') c ?plain) (\<lambda>a.
        rbind (fresh_graph (map fst ml' @ ?plain) (new_edges a)) (\<lambda>r.
          Inr \<lparr>merged_list = ml', merged_graph = r, edge_origin = origin a, new_node_data = None, new_edge_data = None\<rparr>)))"
      by (simp add: merge_nodes_with_data_def run Inr merge_node_data_def merge_edge_data_def Let_def)
    have sub: "set (concat (map snd ml')) \<subseteq> node_keys g" and ap': "apart ([] @ ml')"
      using ml(2) ap unfolding gm by (simp_all add: gone_def)
    from name_groups[OF wf new_ctx_ok ap' sub]
    have "(\<exists>c. rfold (name_group g) ml' new_ctx = Inr c \<and> ctx_ok g ml' c) \<or>
      (rfold (name_group g) ml' new_ctx = Inl ValueError \<and> 10000 \<le> 2 * size (edge_bag g))" by simp
    then show ?thesis
    proof (elim disjE exE conjE)
      assume "rfold (name_group g) ml' new_ctx = Inl ValueError" "10000 \<le> 2 * size (edge_bag g)"
      then show ?thesis unfolding step1 by (simp add: merge_bound_def es)
    next
      fix c assume c: "rfold (name_group g) ml' new_ctx = Inr c" "ctx_ok g ml' c"
      have r: "merge_ready g ml' c" using wf ap c(2) sub by (simp add: merge_ready_def)
      have pl: "?plain = filter (\<lambda>n. node_id n \<notin> set (concat (map snd ml'))) (flow_nodes g)" by (simp only: gm)
      from build_outcome[OF r refl pl refl, of correct] show ?thesis
      proof (elim disjE exE conjE)
        assume "build_merged_edges g correct ml' (merged_ids ml') c ?plain = Inl ValueError"
          "10000 \<le> size (edge_bag g) * (2 * length ml' + 2)"
        then show ?thesis unfolding step1 c(1) by (simp add: merge_bound_def es ll)
      next
        fix a B K
        assume a: "build_merged_edges g correct ml' (merged_ids ml') c ?plain = Inr a"
          "built g (merged_ids ml') c correct B K (size (edge_bag g) * (2 * length ml' + 2)) a"
          "\<forall>e \<in> set (flow_edges g). crossing_edge (merged_ids ml') e \<longrightarrow> q_ends (merged_ids ml') c e \<in> ends ` set (new_edges a)"
        note q = built_ends[OF a(2,3)]
        have d: "distinct (map node_id (map fst ml' @ ?plain))"
        proof -
          have "(node_id \<circ> fst) ` set ml' \<inter> node_id ` set ?plain = {}" using fresh unfolding pids .
          with dn pd show ?thesis by (simp add: comp_def)
        qed
        have pids': "node_id ` set ?plain = node_keys g - set (concat (map snd ml'))" unfolding gm by (rule pids)
        have "ends ` set (new_edges a) \<subseteq> q_ends (merged_ids ml') c ` set (flow_edges g)" unfolding q(1) by blast
        from edges_in_quotient[OF ap wf(1) pids' this] have e: "\<forall>e \<in> set (new_edges a).
            edge_source e \<in> node_id ` set (map fst ml' @ ?plain) \<and> edge_target e \<in> node_id ` set (map fst ml' @ ?plain)" by blast
        from fresh_graph_ok[OF d e] show ?thesis
        proof (cases "distinct (map edge_id (new_edges a))")
          case True
          with fresh_graph_ok[OF d e] obtain r where r: "fresh_graph (map fst ml' @ ?plain) (new_edges a) = Inr r"
            "core_wf r" "inp_wf r" "flow_nodes r = map fst ml' @ ?plain" "flow_edges r = new_edges a" by auto
          have "quotient_of g ml' r"
            unfolding quotient_of_def gm r(4,5) using r(2,3) q handles_are_apart[OF c(2)] by blast
          then show ?thesis unfolding step1 c(1) using a(1) r(1) ms by simp
        next
          case False
          with fresh_graph_ok[OF d e] have "fresh_graph (map fst ml' @ ?plain) (new_edges a) = Inl AssertionError" by simp
          then show ?thesis unfolding step1 c(1) using a(1) edge_ids_clash[OF a(2)] False by simp
        qed
      qed
    qed
  qed
qed

subsection \<open>Properties\<close>


definition merge_edge :: "string \<Rightarrow> string \<Rightarrow> string \<Rightarrow> flow_edge" where
  "merge_edge i s t = \<lparr>edge_id = i, edge_source = s, edge_target = t, source_handle = Some ''o'', target_handle = Some ''i''\<rparr>"

definition merge_node :: "string \<Rightarrow> unit flow_node" where
  "merge_node i = \<lparr>node_id = i, node_data = ()\<rparr>"

definition merge_ex_nodes :: "unit flow_node list" where
  "merge_ex_nodes = map merge_node [''a'', ''b'', ''c'', ''d'']"

definition merge_ex_edges :: "flow_edge list" where
  "merge_ex_edges = [merge_edge ''ac'' ''a'' ''c'', merge_edge ''ab'' ''a'' ''b'', merge_edge ''A-d'' ''d'' ''d'']"

definition merge_ex :: "unit internals" where
  "merge_ex = snd (set_from_nodes_edges merge_ex_nodes merge_ex_edges new_internals)"

lemma merge_ex_ok:
  "core_wf merge_ex \<and> inp_wf merge_ex \<and> flow_nodes merge_ex = merge_ex_nodes \<and> flow_edges merge_ex = merge_ex_edges"
proof -
  obtain r g where r: "set_from_nodes_edges merge_ex_nodes merge_ex_edges new_internals = (r, g)"
    by (cases "set_from_nodes_edges merge_ex_nodes merge_ex_edges new_internals")
  have "graph_input_ok merge_ex_nodes merge_ex_edges" by code_simp
  with r set_from_outcome[of merge_ex_nodes merge_ex_edges new_internals] show ?thesis
    by (cases r) (auto simp: merge_ex_def)
qed

definition merge_ex_list :: "unit merge_list" where
  "merge_ex_list = [(merge_node ''A'', [''a'']), (merge_node ''C'', [''c'']), (merge_node ''B'', [''b''])]"

lemma merge_ex_keys: "node_keys merge_ex = {''a'', ''b'', ''c'', ''d''}"
proof -
  have "core_wf merge_ex" "flow_nodes merge_ex = merge_ex_nodes" using merge_ex_ok by simp_all
  then have "dkeys (id_to_node merge_ex) = map node_id merge_ex_nodes"
    using keyed_map[of node_id "id_to_node merge_ex"] by (simp add: core_wf_def flow_nodes_def)
  then show ?thesis by (simp add: node_keys_def merge_ex_nodes_def merge_node_def)
qed


text \<open>Where a merge goes wrong: the id of a new edge is only compared with other new ids, and an edge that
  leaves a group gets the data of the first edge of its port.\<close>

lemma merge_edge_ids_clash:
  "merge_nodes merge_ex [(merge_node ''A'', [''a'']), (merge_node ''d-'', [''c''])] \<noteq> Inl AssertionError \<and>
   merge_nodes (snd (set_from_nodes_edges merge_ex_nodes [merge_edge ''A-d'' ''b'' ''c'', merge_edge ''ad'' ''a'' ''d''] new_internals))
     [(merge_node ''A'', [''a''])] = Inl AssertionError"
  by code_simp

lemma merge_edge_data_crossed:
  "rbind (merge_nodes_with_data merge_ex merge_ex_list (None :: unit list option) None
       (Some [(''ac'', 1), (''ab'', 2 :: nat)]) True) (\<lambda>r. Inr (new_edge_data r)) =
   Inr (Some [(''A-C'', 1), (''A-B'', 1)])"
  by code_simp

end
