(* ===== verification/FlowSub.thy ===== *)
theory FlowSub
  imports FlowQuotient
begin

text \<open>
  \<open>FlowInternals.create_sub_flow\<close>: the border nodes, the edges tied to them, and the graph they make.
\<close>

subsection \<open>A sub flow keeps the inner edges and ties the crossing ones\<close>

definition border_pair :: "'d ui_node internals \<Rightarrow> (string \<Rightarrow> 'd ui_node flow_node \<Rightarrow> 'd ui_node flow_node)
    \<Rightarrow> (string \<Rightarrow> string option \<Rightarrow> flow_edge \<Rightarrow> flow_edge) \<Rightarrow> (port \<Rightarrow> string) \<Rightarrow> port \<times> flow_edge list
    \<Rightarrow> 'd ui_node flow_node \<times> flow_edge list" where
  "border_pair g mk tie nm x = (mk (nm (fst x)) (the (dget (id_to_node g) (fst (fst x)))),
     map (tie (nm (fst x)) (snd (fst x))) (snd x))"

lemma border_loop:
  assumes "\<forall>x \<in> set xs. fst (fst x) \<in> node_keys g" and "distinct (map fst xs)"
    and "finite (unique_set (sub_pool a))" and "max_count (sub_pool a) = 10000"
  shows "(\<exists>nm a'. rfold (border_node g mk tie) xs a = Inr a' \<and> inj_on nm (fst ` set xs) \<and>
      nm ` fst ` set xs \<inter> unique_set (sub_pool a) = {} \<and> sub_pairs a' = sub_pairs a @ map (border_pair g mk tie nm) xs \<and>
      unique_set (sub_pool a') = unique_set (sub_pool a) \<union> nm ` fst ` set xs \<and> max_count (sub_pool a') = 10000) \<or>
    (rfold (border_node g mk tie) xs a = Inl ValueError \<and> 10000 \<le> card (unique_set (sub_pool a)) + length xs)"
  using assms
proof (induction xs arbitrary: a)
  case (Cons x xs)
  obtain n h es where x: "x = ((n, h), es)" by (metis prod.exhaust)
  from Cons.prems(1) obtain orig where orig: "dget (id_to_node g) n = Some orig"
    by (cases "dget (id_to_node g) n") (auto simp: x node_keys_def dget_None_iff)
  from Cons.prems(3,4) show ?case
  proof (cases rule: pool_call_cases[of "sub_pool a" n])
    case (1 i p')
    let ?a = "a\<lparr>sub_pool := p', sub_pairs := sub_pairs a @ [(mk i orig, map (tie i h) es)]\<rparr>"
    have s: "border_node g mk tie x a = Inr ?a" by (simp add: border_node_def x lookup_Some[OF orig] 1(1))
    have "(\<exists>nm a'. rfold (border_node g mk tie) xs ?a = Inr a' \<and> inj_on nm (fst ` set xs) \<and>
      nm ` fst ` set xs \<inter> unique_set p' = {} \<and> sub_pairs a' = sub_pairs ?a @ map (border_pair g mk tie nm) xs \<and>
      unique_set (sub_pool a') = unique_set p' \<union> nm ` fst ` set xs \<and> max_count (sub_pool a') = 10000) \<or>
    (rfold (border_node g mk tie) xs ?a = Inl ValueError \<and> 10000 \<le> card (unique_set p') + length xs)"
      using Cons.IH[of ?a] Cons.prems 1 by simp
    then show ?thesis
    proof (elim disjE exE conjE)
      fix nm a'
      assume ih: "rfold (border_node g mk tie) xs ?a = Inr a'" "inj_on nm (fst ` set xs)"
        "nm ` fst ` set xs \<inter> unique_set p' = {}" "sub_pairs a' = sub_pairs ?a @ map (border_pair g mk tie nm) xs"
        "unique_set (sub_pool a') = unique_set p' \<union> nm ` fst ` set xs" "max_count (sub_pool a') = 10000"
      define nm' where "nm' = nm((n, h) := i)"
      have new: "(n, h) \<notin> fst ` set xs" using Cons.prems(2) by (simp add: x)
      have at: "nm' (n, h) = i" "\<And>k. k \<in> fst ` set xs \<Longrightarrow> nm' k = nm k" using new by (auto simp: nm'_def)
      then have same: "nm' ` fst ` set xs = nm ` fst ` set xs" by (intro image_cong) auto
      have img: "nm' ` fst ` set (x # xs) = insert i (nm ` fst ` set xs)"
        by (simp only: x list.set image_insert fst_conv same at(1))
      have "map (border_pair g mk tie nm') xs = map (border_pair g mk tie nm) xs"
        by (intro map_cong refl) (simp add: border_pair_def at(2))
      then have "sub_pairs a' = sub_pairs a @ map (border_pair g mk tie nm') (x # xs)"
        using ih(4) orig at(1) by (simp add: x border_pair_def)
      moreover have "inj_on nm' (fst ` set (x # xs))"
      proof -
        have "inj_on nm' (fst ` set xs)" using ih(2) at(2) by (simp add: inj_on_def)
        moreover have "i \<notin> nm' ` fst ` set xs" unfolding same using ih(3) 1(3) by blast
        ultimately show ?thesis using new at(1) by (simp add: x)
      qed
      moreover have "nm' ` fst ` set (x # xs) \<inter> unique_set (sub_pool a) = {}"
        unfolding img using ih(3) 1(2,3) by blast
      moreover have "unique_set (sub_pool a') = unique_set (sub_pool a) \<union> nm' ` fst ` set (x # xs)"
        unfolding img using ih(5) 1(3) by blast
      ultimately show ?thesis using s ih(1,6) by (intro disjI1 exI[of _ nm'] exI[of _ a'] conjI) simp_all
    next
      assume "rfold (border_node g mk tie) xs ?a = Inl ValueError" "10000 \<le> card (unique_set p') + length xs"
      then show ?thesis using s 1(6) by simp
    qed
  next
    case 2
    then show ?thesis by (simp add: border_node_def x lookup_Some[OF orig])
  qed
qed auto

lemma set_group_edges:
  "set (concat (map (\<lambda>x. map (f (fst x)) (snd x)) (groups source_port L))) = (\<lambda>e. f (source_port e) e) ` set L"
proof -
  have "x \<in> (\<lambda>e. f (source_port e) e) ` set L" if "x \<in> set (concat (map (\<lambda>x. map (f (fst x)) (snd x)) (groups source_port L)))" for x
    using that by (auto simp: groups_items) (metis (mono_tags, lifting) image_eqI)
  moreover have "f (source_port e) e \<in> set (concat (map (\<lambda>x. map (f (fst x)) (snd x)) (groups source_port L)))" if e: "e \<in> set L" for e
  proof -
    have "(source_port e, filter (\<lambda>x. source_port x = source_port e) L) \<in> set (groups source_port L)"
      using e by (simp add: groups_items)
    then show ?thesis using e by (force simp del: groups_items)
  qed
  ultimately show ?thesis by blast
qed

lemma mset_group_ids:
  assumes "\<And>p e. edge_id (f p e) = edge_id e"
  shows "mset (map edge_id (concat (map (\<lambda>x. map (f (fst x)) (snd x)) (groups source_port L)))) = mset (map edge_id L)"
proof -
  have "map edge_id (concat (map (\<lambda>x. map (f (fst x)) (snd x)) d)) = map edge_id (concat (map snd d))"
    for d :: "(port, flow_edge list) dict"
    using assms by (induction d) (simp_all add: comp_def)
  then show ?thesis by (metis concat_groups mset_map)
qed

lemma tie_ids: "edge_id (tie_source i h e) = edge_id e" "edge_id (tie_target i h e) = edge_id e"
  by (simp_all add: tie_source_def tie_target_def)

lemma mk_ids: "node_id (as_input ty i n) = i" "node_id (as_output ty i n) = i"
  by (simp_all add: as_input_def as_output_def)

definition inner_edges :: "'d internals \<Rightarrow> string list \<Rightarrow> flow_edge set" where
  "inner_edges g ids = {e \<in> set (flow_edges g). edge_source e \<in> set ids \<and> edge_target e \<in> set ids}"

text \<open>
  \<open>sub_flow_of\<close>: the graph \<open>r\<close> is the group with its inner edges, one input node \<open>ni p\<close> for every outer port
  and one output node \<open>no p\<close> for every port of the group that leads out of it.
\<close>

definition sub_flow_of :: "'d ui_node internals \<Rightarrow> string list \<Rightarrow> string \<Rightarrow> string \<Rightarrow> (port \<Rightarrow> string) \<Rightarrow> (port \<Rightarrow> string)
    \<Rightarrow> 'd ui_node internals \<Rightarrow> bool" where
  "sub_flow_of g ids ity oty ni no r \<longleftrightarrow>
     (let I = set_mset (crossing_in g ids); Q = set_mset (crossing_out g ids);
          node = (\<lambda>p. the (dget (id_to_node g) (fst p))) in
     core_wf r \<and> inp_wf r \<and> inj_on ni (source_port ` I) \<and> inj_on no (source_port ` Q) \<and>
     ni ` source_port ` I \<inter> set ids = {} \<and> no ` source_port ` Q \<inter> (set ids \<union> ni ` source_port ` I) = {} \<and>
     set (flow_nodes r) = {n \<in> set (flow_nodes g). node_id n \<in> set ids} \<union>
       (\<lambda>p. as_input ity (ni p) (node p)) ` source_port ` I \<union> (\<lambda>p. as_output oty (no p) (node p)) ` source_port ` Q \<and>
     set (flow_edges r) = inner_edges g ids \<union> (\<lambda>e. e\<lparr>edge_source := ni (source_port e)\<rparr>) ` I \<union>
       (\<lambda>e. e\<lparr>edge_target := no (source_port e), target_handle := source_handle e\<rparr>) ` Q)"

lemma fetch_ids:
  assumes "core_wf g" and "set ids \<subseteq> node_keys g"
  shows "\<exists>ns. rmap_list (lookup (id_to_node g)) ids = Inr ns \<and> map node_id ns = ids \<and>
    set ns = {n \<in> set (flow_nodes g). node_id n \<in> set ids}"
proof -
  have k: "keyed node_id (id_to_node g)" using assms(1) by (simp add: core_wf_def)
  have "\<exists>ns. rmap_list (lookup (id_to_node g)) ids = Inr ns \<and> map node_id ns = ids \<and> set ns \<subseteq> set (flow_nodes g)"
    using assms(2)
  proof (induction ids)
    case (Cons i ids)
    then obtain n where n: "dget (id_to_node g) i = Some n"
      by (cases "dget (id_to_node g) i") (auto simp: node_keys_def dget_None_iff)
    with k have "node_id n = i" "n \<in> set (flow_nodes g)" using dget_in_dvals[OF n] by (auto simp: keyed_def flow_nodes_def)
    with Cons n show ?case by (auto simp: lookup_Some)
  qed simp
  then obtain ns where ns: "rmap_list (lookup (id_to_node g)) ids = Inr ns" "map node_id ns = ids" "set ns \<subseteq> set (flow_nodes g)" by blast
  have "n \<in> set ns" if "n \<in> set (flow_nodes g)" "node_id n \<in> set ids" for n
  proof -
    from that(2) obtain m where m: "m \<in> set ns" "node_id m = node_id n" using ns(2) by (metis image_iff list.set_map)
    then have "m = n" using that(1) ns(3) keyed_dget[OF k] unfolding flow_nodes_def by (metis option.inject subsetD)
    with m show ?thesis by simp
  qed
  with ns show ?thesis by force
qed

lemma crossing_ids_distinct:
  assumes "core_wf g" and "mset A = {#e \<in># edge_bag g. edge_source e \<in> S \<and> edge_target e \<in> S#}"
    and "mset B = {#e \<in># edge_bag g. edge_target e \<in> S \<and> edge_source e \<notin> S#}"
    and "mset C = {#e \<in># edge_bag g. edge_source e \<in> S \<and> edge_target e \<notin> S#}"
    and "mset xs = mset (map edge_id A) + mset (map edge_id B) + mset (map edge_id C)"
  shows "distinct xs"
proof -
  have "distinct (map edge_id (flow_edges g))"
    using assms(1) keyed_map[of edge_id "id_to_edge g"] by (simp add: core_wf_def keyed_def dict_ok_def flow_edges_def)
  then have d: "distinct (map edge_id (filter (\<lambda>e. edge_source e \<in> S \<or> edge_target e \<in> S) (flow_edges g)))"
    by (rule distinct_map_filter)
  have "mset A + mset B + mset C = mset (filter (\<lambda>e. edge_source e \<in> S \<or> edge_target e \<in> S) (flow_edges g))"
    unfolding assms(2-4) edge_bag_def mset_filter by (rule multiset_eqI) auto
  then have "mset xs = mset (map edge_id (filter (\<lambda>e. edge_source e \<in> S \<or> edge_target e \<in> S) (flow_edges g)))"
    unfolding assms(5) mset_map by (metis image_mset_union)
  with d show ?thesis by (metis mset_eq_imp_distinct_iff)
qed

lemma border_in: "edge_source (tie_source i h e) = i" "edge_target (tie_source i h e) = edge_target e"
  and border_out: "edge_source (tie_target i h e) = edge_source e" "edge_target (tie_target i h e) = i"
  by (simp_all add: tie_source_def tie_target_def)

lemma distinct_append3:
  "distinct xs \<Longrightarrow> distinct ys \<Longrightarrow> distinct zs \<Longrightarrow> set ys \<inter> set xs = {} \<Longrightarrow> set zs \<inter> (set xs \<union> set ys) = {} \<Longrightarrow>
   distinct (xs @ ys @ zs)"
  by auto

lemma border_fst: "map node_id (map fst (map (border_pair g (as_input ty) tie nm) d)) = map nm (map fst d)"
  "map node_id (map fst (map (border_pair g (as_output ty) tie nm) d)) = map nm (map fst d)"
  by (simp_all add: border_pair_def mk_ids)

lemma border_snd: "concat (map snd (map (border_pair g mk tie nm) d)) =
    concat (map (\<lambda>x. map ((\<lambda>p. tie (nm p) (snd p)) (fst x)) (snd x)) d)"
  by (simp add: border_pair_def comp_def)

lemma border_nodes: "set (map fst (map (border_pair g mk tie nm) (groups source_port L))) =
    (\<lambda>p. mk (nm p) (the (dget (id_to_node g) (fst p)))) ` source_port ` set L"
proof -
  have "set (map fst (map (border_pair g mk tie nm) d)) = (\<lambda>p. mk (nm p) (the (dget (id_to_node g) (fst p)))) ` fst ` set d" for d
    by (force simp: border_pair_def)
  then show ?thesis by (simp add: fst_groups)
qed

text \<open>The last step of \<open>create_sub_flow\<close>: the graph of the collected nodes and edges.\<close>

lemma sub_flow_graph:
  fixes g :: "'d ui_node internals"
  assumes wf: "core_wf g" and ids: "distinct ids"
    and inner: "map node_id inner = ids" "set inner = {n \<in> set (flow_nodes g). node_id n \<in> set ids}"
    and L: "mset Ls = crossing_in g ids" "mset Os = crossing_out g ids"
    and ni: "inj_on ni (source_port ` set Ls)" "ni ` source_port ` set Ls \<inter> set ids = {}"
    and no: "inj_on no (source_port ` set Os)" "no ` source_port ` set Os \<inter> (set ids \<union> ni ` source_port ` set Ls) = {}"
    and A: "A = map (border_pair g (as_input ity) tie_source ni) (groups source_port Ls)"
    and B: "B = map (border_pair g (as_output oty) tie_target no) (groups source_port Os)"
    and E: "E = filter (\<lambda>e. edge_source e \<in> set ids \<and> edge_target e \<in> set ids) (flow_edges g) @ concat (map snd A) @ concat (map snd B)"
  obtains r where "fresh_graph (inner @ map fst A @ map fst B) E = Inr r" and "sub_flow_of g ids ity oty ni no r"
proof -
  let ?N = "inner @ map fst A @ map fst B"
  let ?f = "\<lambda>p. tie_source (ni p) (snd p)" let ?h = "\<lambda>p. tie_target (no p) (snd p)"
  have sets: "set_mset (crossing_in g ids) = set Ls" "set_mset (crossing_out g ids) = set Os"
    unfolding L[symmetric] by simp_all
  have d: "distinct (map fst (groups source_port L))" for L :: "flow_edge list"
    using dict_ok_groups by (simp add: dict_ok_def dkeys_def)
  have nid: "map node_id ?N = ids @ map ni (map fst (groups source_port Ls)) @ map no (map fst (groups source_port Os))"
    unfolding map_append A B border_fst inner(1) ..
  have dn: "distinct (map node_id ?N)"
  proof -
    have k: "set (map fst (groups source_port L)) = source_port ` set L" for L :: "flow_edge list"
      by (simp only: set_map fst_groups)
    have dd: "distinct (map ni (map fst (groups source_port Ls)))" "distinct (map no (map fst (groups source_port Os)))"
      unfolding distinct_map[of ni] distinct_map[of no] k using d ni(1) no(1) by simp_all
    have ss: "set (map ni (map fst (groups source_port Ls))) = ni ` source_port ` set Ls"
      "set (map no (map fst (groups source_port Os))) = no ` source_port ` set Os"
      unfolding set_map[of ni] set_map[of no] k by (rule refl)+
    show ?thesis unfolding nid by (rule distinct_append3[OF ids dd]) (unfold ss, rule ni(2), rule no(2))
  qed
  have se: "set E = inner_edges g ids \<union> (\<lambda>e. ?f (source_port e) e) ` set Ls \<union> (\<lambda>e. ?h (source_port e) e) ` set Os"
    unfolding E A B border_snd set_append set_group_edges[of ?f Ls] set_group_edges[of ?h Os]
    by (simp add: inner_edges_def Un_assoc)
  have de: "distinct (map edge_id E)"
  proof (rule crossing_ids_distinct[OF wf _ L[unfolded crossing_in_def crossing_out_def]])
    show "mset (filter (\<lambda>e. edge_source e \<in> set ids \<and> edge_target e \<in> set ids) (flow_edges g)) =
      {#e \<in># edge_bag g. edge_source e \<in> set ids \<and> edge_target e \<in> set ids#}" by (simp add: edge_bag_def)
    show "mset (map edge_id E) = mset (map edge_id (filter (\<lambda>e. edge_source e \<in> set ids \<and> edge_target e \<in> set ids) (flow_edges g))) +
        mset (map edge_id Ls) + mset (map edge_id Os)"
      unfolding E A B border_snd map_append mset_append
      by (simp only: mset_group_ids[of ?f Ls, OF tie_ids(1)] mset_group_ids[of ?h Os, OF tie_ids(2)] add.assoc)
  qed
  have nn: "node_id ` set ?N = set ids \<union> ni ` source_port ` set Ls \<union> no ` source_port ` set Os"
    using arg_cong[OF nid, of set] unfolding set_append set_map fst_groups image_Un Un_assoc .
  have ends: "\<forall>e \<in> set E. edge_source e \<in> node_id ` set ?N \<and> edge_target e \<in> node_id ` set ?N"
  proof -
    have "edge_target e \<in> set ids" if "e \<in> set Ls" for e using that sets(1) by (auto simp: crossing_in_def)
    moreover have "edge_source e \<in> set ids" if "e \<in> set Os" for e using that sets(2) by (auto simp: crossing_out_def)
    ultimately show ?thesis unfolding se nn by (auto simp: inner_edges_def border_in border_out)
  qed
  from fresh_graph_ok[OF dn ends] de obtain r where r: "fresh_graph ?N E = Inr r" "core_wf r" "inp_wf r"
    "flow_nodes r = ?N" "flow_edges r = E" by auto
  have i1: "(\<lambda>e. ?f (source_port e) e) ` set Ls = (\<lambda>e. e\<lparr>edge_source := ni (source_port e)\<rparr>) ` set Ls"
    by (intro image_cong) (simp_all add: tie_source_def source_port_def)
  have i2: "(\<lambda>e. ?h (source_port e) e) ` set Os = (\<lambda>e. e\<lparr>edge_target := no (source_port e), target_handle := source_handle e\<rparr>) ` set Os"
    by (intro image_cong) (simp_all add: tie_target_def source_port_def)
  have "sub_flow_of g ids ity oty ni no r"
    unfolding sub_flow_of_def Let_def sets r(4,5) se i1 i2 set_append A B border_nodes inner(2)
    using r(2,3) ni no by (simp add: Un_assoc)
  with r(1) show thesis by (rule that)
qed

lemma sub_flow_outcome:
  fixes g :: "'d ui_node internals"
  assumes wf: "core_wf g" "inp_wf g" and ids: "distinct ids" "set ids \<subseteq> node_keys g"
  shows "case create_sub_flow g ids ity oty of
      Inl e \<Rightarrow> e = ValueError \<and> 10000 \<le> length ids + 2 * length (flow_edges g)
    | Inr (r, ins, outs) \<Rightarrow> \<exists>ni no. sub_flow_of g ids ity oty ni no r \<and>
        node_id ` fst ` set ins = ni ` source_port ` set_mset (crossing_in g ids) \<and>
        node_id ` fst ` set outs = no ` source_port ` set_mset (crossing_out g ids)"
proof -
  from wf ids(2,1) obtain Ls Os where meta:
    "calculate_node_group_meta g ids None [] = Inr (meta_of Ls Os, fold (own_port None) (map source_port Os) [])"
    "mset Ls = {#e \<in># edge_bag g. edge_target e \<in> set ids \<and> edge_source e \<notin> set ids#}"
    "mset Os = {#e \<in># edge_bag g. edge_source e \<in> set ids \<and> edge_target e \<notin> set ids#}"
    by (rule group_meta_outcome)
  have sets: "set_mset (crossing_in g ids) = set Ls" "set_mset (crossing_out g ids) = set Os"
    unfolding crossing_in_def crossing_out_def meta(2,3)[symmetric] by simp_all
  obtain inner where inner: "rmap_list (lookup (id_to_node g)) ids = Inr inner" "map node_id inner = ids"
    "set inner = {n \<in> set (flow_nodes g). node_id n \<in> set ids}" using fetch_ids[OF wf(1) ids(2)] by blast
  have valid: "\<not> (\<not> distinct ids \<or> (\<exists>i \<in> set ids. \<not> dmem i (id_to_node g)))"
    using ids by (auto simp: node_keys_def dmem_def)
  let ?A = "groups source_port Ls" let ?B = "groups source_port Os"
  let ?a0 = "\<lparr>sub_pool = pool_init 10000 (Some (set ids)), sub_pairs = []\<rparr> :: 'd sub_acc"
  have la: "length ?A \<le> length (flow_edges g)" "length ?B \<le> length (flow_edges g)"
    using length_groups[of source_port Ls] length_groups[of source_port Os] size_crossing[OF meta(2)] size_crossing[OF meta(3)]
    by (simp_all add: edge_bag_def)
  have ends_in: "edge_source e \<in> node_keys g" if "e \<in> set Ls \<union> set Os" for e
    using that wf(1) sets by (auto simp: core_wf_def crossing_in_def crossing_out_def)
  have ka: "\<forall>x \<in> set ?A. fst (fst x) \<in> node_keys g" and kb: "\<forall>x \<in> set ?B. fst (fst x) \<in> node_keys g"
    using ends_in by (auto simp: groups_items source_port_def)
  have da: "distinct (map fst ?A)" "distinct (map fst ?B)" using dict_ok_groups by (simp_all add: dict_ok_def dkeys_def)
  have ci: "card (set ids) = length ids" using ids(1) by (rule distinct_card)
  let ?first = "rfold (border_node g (as_input ity) tie_source) ?A ?a0"
  have cre: "create_sub_flow g ids ity oty = rbind ?first (\<lambda>a.
      rbind (rfold (border_node g (as_output oty) tie_target) ?B \<lparr>sub_pool = sub_pool a, sub_pairs = []\<rparr>) (\<lambda>b.
      rbind (fresh_graph (inner @ map fst (sub_pairs a) @ map fst (sub_pairs b))
          (filter (\<lambda>e. edge_source e \<in> set ids \<and> edge_target e \<in> set ids) (flow_edges g)
            @ concat (map snd (sub_pairs a)) @ concat (map snd (sub_pairs b)))) (\<lambda>r.
        Inr (r, sub_pairs a, sub_pairs b))))"
    unfolding create_sub_flow_def using valid by (simp add: meta(1) inner(1))
  have s0: "finite (unique_set (sub_pool ?a0))" "max_count (sub_pool ?a0) = 10000" "unique_set (sub_pool ?a0) = set ids"
    by (simp_all add: pool_init_def)
  have fa: "fst ` set ?A = source_port ` set Ls" "fst ` set ?B = source_port ` set Os" by (simp_all add: fst_groups)
  from border_loop[OF ka da(1) s0(1,2), of "as_input ity" tie_source] show ?thesis
  proof (elim disjE exE conjE)
    assume "?first = Inl ValueError" "10000 \<le> card (unique_set (sub_pool ?a0)) + length ?A"
    then show ?thesis unfolding cre using la(1) ci s0(3) by simp
  next
    fix ni a
    assume "?first = Inr a" "inj_on ni (fst ` set ?A)" "ni ` fst ` set ?A \<inter> unique_set (sub_pool ?a0) = {}"
      "sub_pairs a = sub_pairs ?a0 @ map (border_pair g (as_input ity) tie_source ni) ?A"
      "unique_set (sub_pool a) = unique_set (sub_pool ?a0) \<union> ni ` fst ` set ?A" "max_count (sub_pool a) = 10000"
    note a = this[unfolded fa s0(3)]
    let ?b0 = "\<lparr>sub_pool = sub_pool a, sub_pairs = []\<rparr> :: 'd sub_acc"
    have s1: "finite (unique_set (sub_pool ?b0))" "max_count (sub_pool ?b0) = 10000" using a(5,6) by simp_all
    have cb: "card (unique_set (sub_pool ?b0)) \<le> length ids + length (flow_edges g)"
    proof -
      have "card (ni ` fst ` set ?A) \<le> length ?A" by (metis card_image_le card_length finite_imageI finite_set image_image le_trans)
      then show ?thesis using card_Un_le[of "set ids" "ni ` source_port ` set Ls"] la(1) ci a(5) fa by simp
    qed
    from border_loop[OF kb da(2) s1, of "as_output oty" tie_target] show ?thesis
    proof (elim disjE exE conjE)
      assume "rfold (border_node g (as_output oty) tie_target) ?B ?b0 = Inl ValueError"
        "10000 \<le> card (unique_set (sub_pool ?b0)) + length ?B"
      then show ?thesis unfolding cre a(1) using la(2) cb by simp
    next
      fix no b
      assume "rfold (border_node g (as_output oty) tie_target) ?B ?b0 = Inr b" "inj_on no (fst ` set ?B)"
        "no ` fst ` set ?B \<inter> unique_set (sub_pool ?b0) = {}"
        "sub_pairs b = sub_pairs ?b0 @ map (border_pair g (as_output oty) tie_target no) ?B"
      note b = this[unfolded fa]
      have pa: "sub_pairs a = map (border_pair g (as_input ity) tie_source ni) ?A"
        and pb: "sub_pairs b = map (border_pair g (as_output oty) tie_target no) ?B" using a(4) b(4) by simp_all
      have ub: "no ` source_port ` set Os \<inter> (set ids \<union> ni ` source_port ` set Ls) = {}"
        using b(3) a(5) by simp
      obtain r where r: "fresh_graph (inner @ map fst (sub_pairs a) @ map fst (sub_pairs b))
          (filter (\<lambda>e. edge_source e \<in> set ids \<and> edge_target e \<in> set ids) (flow_edges g)
            @ concat (map snd (sub_pairs a)) @ concat (map snd (sub_pairs b))) = Inr r" "sub_flow_of g ids ity oty ni no r"
        using sub_flow_graph[OF wf(1) ids(1) inner(2,3) meta(2)[folded crossing_in_def] meta(3)[folded crossing_out_def]
            a(2,3) b(2) ub pa pb refl] .
      have "node_id ` fst ` set (sub_pairs a) = ni ` source_port ` set Ls" "node_id ` fst ` set (sub_pairs b) = no ` source_port ` set Os"
        using arg_cong[OF border_fst(1)[of g ity tie_source ni ?A], of set] arg_cong[OF border_fst(2)[of g oty tie_target no ?B], of set]
        unfolding pa pb set_map fa by simp_all
      then show ?thesis unfolding cre a(1) using b(1) r sets by auto
    qed
  qed
qed

subsection \<open>Properties\<close>

text \<open>
  C11: cutting out a sub flow keeps exactly the edges inside the group, gives every outer port that feeds
  the group one input node and every port of the group that leads out one output node, under ids that are
  new and different, and ties each crossing edge to the node of its port; it fails only when the pool of
  10000 names is used up.
\<close>

theorem sub_flow_exact:
  fixes g :: "'d ui_node internals"
  assumes "core_wf g" and "inp_wf g" and "distinct ids" and "set ids \<subseteq> node_keys g"
  shows "case create_sub_flow g ids ity oty of
      Inl e \<Rightarrow> e = ValueError \<and> 10000 \<le> length ids + 2 * length (flow_edges g)
    | Inr (r, ins, outs) \<Rightarrow> \<exists>ni no. sub_flow_of g ids ity oty ni no r \<and>
        node_id ` fst ` set ins = ni ` source_port ` set_mset (crossing_in g ids) \<and>
        node_id ` fst ` set outs = no ` source_port ` set_mset (crossing_out g ids)"
  by (rule sub_flow_outcome[OF assms])

definition sub_node :: "string \<Rightarrow> unit ui_node flow_node" where
  "sub_node i = \<lparr>node_id = i, node_data = \<lparr>node_type = None, ui_data = Some
     \<lparr>source_handle_ids = Some [Some ''o''], target_handle_ids = Some [Some ''i''], rest_data = ()\<rparr>\<rparr>\<rparr>"

definition sub_ex :: "unit ui_node internals" where
  "sub_ex = snd (set_from_nodes_edges (map sub_node [''a'', ''b'', ''c''])
     [merge_edge ''1'' ''a'' ''b'', merge_edge ''2'' ''b'' ''c'', merge_edge ''3'' ''b'' ''b''] new_internals)"

lemma sub_ex_ok: "core_wf sub_ex \<and> inp_wf sub_ex \<and> node_keys sub_ex = {''a'', ''b'', ''c''}"
proof -
  let ?ns = "map sub_node [''a'', ''b'', ''c'']"
  let ?es = "[merge_edge ''1'' ''a'' ''b'', merge_edge ''2'' ''b'' ''c'', merge_edge ''3'' ''b'' ''b'']"
  obtain r g where r: "set_from_nodes_edges ?ns ?es new_internals = (r, g)"
    by (cases "set_from_nodes_edges ?ns ?es new_internals")
  have "graph_input_ok ?ns ?es" by code_simp
  with r set_from_outcome[of ?ns ?es new_internals] have w: "core_wf sub_ex" "inp_wf sub_ex" "flow_nodes sub_ex = ?ns"
    by (cases r; auto simp: sub_ex_def)+
  then have "dkeys (id_to_node sub_ex) = map node_id ?ns"
    using keyed_map[of node_id "id_to_node sub_ex"] by (simp add: core_wf_def flow_nodes_def)
  with w show ?thesis by (simp add: node_keys_def sub_node_def)
qed

theorem sub_flow_exact_witness:
  "\<exists>r ins outs ni no. create_sub_flow sub_ex [''c''] ''input'' ''output'' = Inr (r, ins, outs) \<and>
     sub_flow_of sub_ex [''c''] ''input'' ''output'' ni no r \<and>
     map ends (flow_edges r) = [(''b'', ''c'', Some ''o'', Some ''i'')]"
proof -
  let ?c = "create_sub_flow sub_ex [''c''] ''input'' ''output''"
  have v: "case ?c of Inl _ \<Rightarrow> False | Inr (r, _) \<Rightarrow> map ends (flow_edges r) = [(''b'', ''c'', Some ''o'', Some ''i'')]"
    by code_simp
  have w: "core_wf sub_ex" "inp_wf sub_ex" "distinct [''c'']" "set [''c''] \<subseteq> node_keys sub_ex" using sub_ex_ok by simp_all
  show ?thesis
  proof (cases ?c)
    case (Inr x)
    obtain r ins outs where x: "x = (r, ins, outs)" by (cases x)
    from sub_flow_exact[OF w, of "''input''" "''output''"] obtain ni no
      where "sub_flow_of sub_ex [''c''] ''input'' ''output'' ni no r" by (auto simp only: Inr x sum.case prod.case)
    moreover from v have "map ends (flow_edges r) = [(''b'', ''c'', Some ''o'', Some ''i'')]"
      by (simp only: Inr x sum.case prod.case)
    ultimately show ?thesis unfolding Inr x by (intro exI[of _ r] exI[of _ ins] exI[of _ outs] exI[of _ ni] exI[of _ no]) simp
  qed (use v in simp)
qed

end
