(* ===== verification/FlowHandles.thy ===== *)
theory FlowHandles
  imports FlowGraph
begin

text \<open>
  The data handles of a running flow: \<open>DataHandle\<close> of \<open>apps/cflow/executors/base.py\<close> and
  \<open>DataHandleManager\<close> of \<open>executors/handlemgr.py\<close>. A handle is a Python object with an id, shared by the
  inputs of several nodes; its data may be on another process. \<open>h_ref\<close> is the identity of the object, and
  the store holds the mutable data of the objects. The manager keeps the input handles of the nodes that
  are waiting or running, and releases the handles that are no longer an input of any node. The lemmas:
  no operation releases a handle whose id is still in the table, and which operations release all others.
\<close>

subsection \<open>Handles and their store\<close>

text \<open>\<open>h_remote\<close> marks a \<open>RemoteGrpcDataHandle\<close>, whose \<open>release\<close> without data is a remote call.\<close>

record handle =
  h_ref :: nat
  h_id :: string
  h_remote :: bool

text \<open>The data of a handle: \<open>undefined\<close>, a value, or the dict of handles of a special input.\<close>

datatype 'v hdata = Undefined_data | Value_data 'v | Dict_data "(string, handle) dict"

text \<open>\<open>uuid n\<close> stands for the \<open>n\<close>-th call of \<open>uuid.uuid4().hex\<close>; \<open>rpc\<close> for the outcome of the remote release.\<close>

record 'v store =
  h_data :: "nat \<Rightarrow> 'v hdata"
  next_ref :: nat
  remote_released :: "string list"

text \<open>What a node is given: any value, or a handle. A dict of handles is a value of its own kind.\<close>

datatype 'v input = Raw 'v | Handle_input handle | Dict_input "(string, handle) dict"

type_synonym 'v node_inputs = "(string, (string, 'v input) dict) dict"
type_synonym handle_table = "(string, (string, handle) dict) dict"

definition has_data :: "'v store \<Rightarrow> handle \<Rightarrow> bool" where
  "has_data s h \<longleftrightarrow> (case h_data s (h_ref h) of Undefined_data \<Rightarrow> False | _ \<Rightarrow> True)"

text \<open>\<open>get_data_from_remote\<close>: only a remote handle without data makes a call, here answered by \<open>fetch\<close>.\<close>

definition get_data_from_remote :: "(string \<Rightarrow> 'v hdata res) \<Rightarrow> 'v store \<Rightarrow> handle \<Rightarrow> 'v hdata res" where
  "get_data_from_remote fetch s h =
     (if has_data s h then Inr (h_data s (h_ref h))
      else if h_remote h then fetch (h_id h) else Inl NotImplementedError)"

definition release_handle :: "(string \<Rightarrow> unit res) \<Rightarrow> handle \<Rightarrow> ('v store, unit) act" where
  "release_handle rpc h s =
     (if has_data s h then (Inr (), s\<lparr>h_data := (h_data s)(h_ref h := Undefined_data)\<rparr>)
      else if h_remote h then (rpc (h_id h), s\<lparr>remote_released := remote_released s @ [h_id h]\<rparr>)
      else (Inr (), s))"

subsection \<open>The manager\<close>

record 'v manager =
  input_handles :: handle_table
  mstore :: "'v store"

definition get_current_node_ids :: "'v manager \<Rightarrow> string list" where
  "get_current_node_ids m = dkeys (input_handles m)"

definition has_node_inputs :: "'v manager \<Rightarrow> string \<Rightarrow> bool" where
  "has_node_inputs m n \<longleftrightarrow> dmem n (input_handles m)"

definition get_node_inputs :: "'v manager \<Rightarrow> string \<Rightarrow> (string, handle) dict \<Rightarrow> (string, handle) dict" where
  "get_node_inputs m n dflt = (case dget (input_handles m) n of None \<Rightarrow> dflt | Some d \<Rightarrow> d)"

text \<open>A value becomes the data of a fresh handle; a handle is kept.\<close>

definition new_handle :: "(nat \<Rightarrow> string) \<Rightarrow> string \<Rightarrow> 'v hdata \<Rightarrow> 'v store \<Rightarrow> handle \<times> 'v store" where
  "new_handle uuid n d s =
     (\<lparr>h_ref = next_ref s, h_id = n @ ''-'' @ uuid (next_ref s), h_remote = False\<rparr>,
      s\<lparr>h_data := (h_data s)(next_ref s := d), next_ref := Suc (next_ref s)\<rparr>)"

definition input_to_handle :: "(nat \<Rightarrow> string) \<Rightarrow> string \<Rightarrow> 'v input \<Rightarrow> 'v store \<Rightarrow> handle \<times> 'v store" where
  "input_to_handle uuid n v s = (case v of
       Raw x \<Rightarrow> new_handle uuid n (Value_data x) s
     | Dict_input d \<Rightarrow> new_handle uuid n (Dict_data d) s
     | Handle_input h \<Rightarrow> (h, s))"

fun inputs_to_handles :: "(nat \<Rightarrow> string) \<Rightarrow> string \<Rightarrow> (string, 'v input) dict \<Rightarrow> 'v store
    \<Rightarrow> (string, handle) dict \<times> 'v store" where
  "inputs_to_handles uuid n [] s = ([], s)"
| "inputs_to_handles uuid n ((k, v) # d) s =
     (let (h, s') = input_to_handle uuid n v s; (hs, s'') = inputs_to_handles uuid n d s' in ((k, h) # hs, s''))"

fun node_inputs_to_handle :: "(nat \<Rightarrow> string) \<Rightarrow> 'v node_inputs \<Rightarrow> 'v store \<Rightarrow> handle_table \<times> 'v store" where
  "node_inputs_to_handle uuid [] s = ([], s)"
| "node_inputs_to_handle uuid ((n, d) # ds) s =
     (let (hs, s') = inputs_to_handles uuid n d s; (t, s'') = node_inputs_to_handle uuid ds s' in ((n, hs) # t, s''))"

definition manager_init :: "(nat \<Rightarrow> string) \<Rightarrow> 'v node_inputs \<Rightarrow> 'v store \<Rightarrow> 'v manager" where
  "manager_init uuid inputs s = (case node_inputs_to_handle uuid inputs s of (t, s') \<Rightarrow>
     \<lparr>input_handles = t, mstore = s'\<rparr>)"

definition table_handles :: "handle_table \<Rightarrow> handle list" where
  "table_handles t = concat (map (\<lambda>d. dvals d) (dvals t))"

definition on_store :: "('v store, 'a) act \<Rightarrow> ('v manager, 'a) act" where
  "on_store f m = (case f (mstore m) of (r, s) \<Rightarrow> (r, m\<lparr>mstore := s\<rparr>))"

text \<open>
  \<open>_release_handles\<close>: the ids in the table are computed before the loop. The set \<open>handle_released\<close> of
  the code stays empty, so a handle that is listed twice is released twice.
\<close>

definition release_unused :: "(string \<Rightarrow> unit res) \<Rightarrow> handle list \<Rightarrow> ('v manager, unit) act" where
  "release_unused rpc hs m =
     (let used = h_id ` set (table_handles (input_handles m)) in
      afor (\<lambda>h m. if h_id h \<in> used then (Inr (), m) else on_store (release_handle rpc h) m) hs m)"

fun merge_shallow_loop :: "handle_table \<Rightarrow> handle_table \<Rightarrow> handle list \<Rightarrow> handle_table \<times> handle list" where
  "merge_shallow_loop [] t rel = (t, rel)"
| "merge_shallow_loop ((n, d) # ds) t rel =
     merge_shallow_loop ds (dset n d t) (rel @ (case dget t n of None \<Rightarrow> [] | Some prev \<Rightarrow> dvals prev))"

definition merge_new_inputs_shallow :: "(string \<Rightarrow> unit res) \<Rightarrow> (nat \<Rightarrow> string) \<Rightarrow> 'v node_inputs
    \<Rightarrow> ('v manager, unit) act" where
  "merge_new_inputs_shallow rpc uuid inputs m =
     (case node_inputs_to_handle uuid inputs (mstore m) of (new, s) \<Rightarrow>
      case merge_shallow_loop new (input_handles m) [] of (t, rel) \<Rightarrow>
        release_unused rpc rel (m\<lparr>input_handles := t, mstore := s\<rparr>))"

definition set_new_inputs :: "(string \<Rightarrow> unit res) \<Rightarrow> (nat \<Rightarrow> string) \<Rightarrow> 'v node_inputs \<Rightarrow> ('v manager, unit) act" where
  "set_new_inputs rpc uuid inputs m =
     (case node_inputs_to_handle uuid inputs (mstore m) of (new, s) \<Rightarrow>
        release_unused rpc (table_handles (input_handles m)) (m\<lparr>input_handles := new, mstore := s\<rparr>))"

fun merge_loop :: "handle_table \<Rightarrow> handle_table \<Rightarrow> handle list \<Rightarrow> handle_table \<times> handle list" where
  "merge_loop [] t rel = (t, rel)"
| "merge_loop ((n, d) # ds) t rel = (case dget t n of
       None \<Rightarrow> merge_loop ds (dset n d t) rel
     | Some prev \<Rightarrow> merge_loop ds (dset n (dupdate prev d) t)
         (rel @ List.map_filter (\<lambda>k. dget prev k) (dkeys d)))"

definition merge_new_inputs :: "(string \<Rightarrow> unit res) \<Rightarrow> (nat \<Rightarrow> string) \<Rightarrow> 'v node_inputs \<Rightarrow> handle list
    \<Rightarrow> ('v manager, unit) act" where
  "merge_new_inputs rpc uuid inputs rel0 m =
     (case node_inputs_to_handle uuid inputs (mstore m) of (new, s) \<Rightarrow>
      case merge_loop new (input_handles m) rel0 of (t, rel) \<Rightarrow>
        release_unused rpc rel (m\<lparr>input_handles := t, mstore := s\<rparr>))"

fun remove_nodes_loop :: "string list \<Rightarrow> handle list \<Rightarrow> ('v manager, handle list) act" where
  "remove_nodes_loop [] rel m = (Inr rel, m)"
| "remove_nodes_loop (n # ns) rel m = (case dget (input_handles m) n of
       None \<Rightarrow> (Inl AssertionError, m)
     | Some d \<Rightarrow> remove_nodes_loop ns (rel @ dvals d) (m\<lparr>input_handles := ddel n (input_handles m)\<rparr>))"

definition remove_and_merge :: "(string \<Rightarrow> unit res) \<Rightarrow> (nat \<Rightarrow> string) \<Rightarrow> string list \<Rightarrow> 'v node_inputs
    \<Rightarrow> ('v manager, unit) act" where
  "remove_and_merge rpc uuid ids inputs =
     abind (remove_nodes_loop ids []) (\<lambda>rel. merge_new_inputs rpc uuid inputs rel)"

fun force_loop :: "handle_table \<Rightarrow> ('v manager, unit) act" where
  "force_loop [] m = (Inr (), m)"
| "force_loop ((n, d) # ds) m =
     (if dmem n (input_handles m) then (Inl AssertionError, m)
      else force_loop ds (m\<lparr>input_handles := dset n d (input_handles m)\<rparr>))"

definition force_add_new_inputs :: "(nat \<Rightarrow> string) \<Rightarrow> 'v node_inputs \<Rightarrow> ('v manager, unit) act" where
  "force_add_new_inputs uuid inputs m =
     (case node_inputs_to_handle uuid inputs (mstore m) of (new, s) \<Rightarrow> force_loop new (m\<lparr>mstore := s\<rparr>))"

definition release_all_handles :: "(string \<Rightarrow> unit res) \<Rightarrow> ('v manager, unit) act" where
  "release_all_handles rpc =
     abind (\<lambda>m. release_unused rpc (table_handles (input_handles m)) m)
       (\<lambda>_ m. (Inr (), m\<lparr>input_handles := []\<rparr>))"

subsection \<open>Running a node in the local executor\<close>

datatype 'v resolved = Plain "'v hdata" | Special "(string, 'v hdata) dict"

definition resolve_handle :: "(string \<Rightarrow> 'v hdata res) \<Rightarrow> 'v store \<Rightarrow> handle \<Rightarrow> 'v hdata res" where
  "resolve_handle fetch s h = (if has_data s h then Inr (h_data s (h_ref h)) else get_data_from_remote fetch s h)"

text \<open>
  \<open>LocalNodeExecutor.run_node\<close> up to the call of the function. \<open>htype\<close> is the dict of the node's input
  handles by name, here their types. The values of a special dict are handles (a fact the code asserts);
  \<open>raw_items\<close> is what the loop over the items of any other value gives, an exception unless it is an empty dict.
\<close>

definition resolve_dict :: "(string \<Rightarrow> 'v hdata res) \<Rightarrow> 'v store \<Rightarrow> (string, handle) dict \<Rightarrow> (string, 'v hdata) dict res" where
  "resolve_dict fetch s d = rmap_list (\<lambda>(k2, v2). rbind (resolve_handle fetch s v2) (\<lambda>v. Inr (k2, v))) d"

definition resolve_input :: "('v \<Rightarrow> (string, 'v hdata) dict res) \<Rightarrow> (string \<Rightarrow> 'v hdata res) \<Rightarrow> (string, string) dict \<Rightarrow> 'v store \<Rightarrow> string \<times> handle
    \<Rightarrow> (string \<times> 'v resolved) res" where
  "resolve_input raw_items fetch htype s kv = (case kv of (k, inp) \<Rightarrow>
     rbind (lookup htype k) (\<lambda>ty.
       if ty = ''handledictsource'' then
         (case h_data s (h_ref inp) of
            Undefined_data \<Rightarrow> Inl AssertionError
          | Value_data v \<Rightarrow> rbind (raw_items v) (\<lambda>vs. Inr (k, Special vs))
          | Dict_data d \<Rightarrow> rbind (resolve_dict fetch s d) (\<lambda>vs. Inr (k, Special vs)))
       else rbind (resolve_handle fetch s inp) (\<lambda>v. Inr (k, Plain v))))"

definition resolve_inputs :: "('v \<Rightarrow> (string, 'v hdata) dict res) \<Rightarrow> (string \<Rightarrow> 'v hdata res) \<Rightarrow> (string, string) dict \<Rightarrow> 'v store \<Rightarrow> (string, handle) dict
    \<Rightarrow> (string, 'v resolved) dict res" where
  "resolve_inputs raw_items fetch htype s inputs = rmap_list (resolve_input raw_items fetch htype s) inputs"

text \<open>What the compute function returns: \<open>None\<close>, a dict of values, or anything else.\<close>

datatype 'v returned = Returned_none | Returned_dict "(string, 'v) dict" | Returned_other

fun output_handles :: "(nat \<Rightarrow> string) \<Rightarrow> string \<Rightarrow> (string, 'v) dict \<Rightarrow> 'v store \<Rightarrow> (string, handle) dict \<times> 'v store" where
  "output_handles uuid ex [] s = ([], s)"
| "output_handles uuid ex ((k, v) # d) s =
     (let h = \<lparr>h_ref = next_ref s, h_id = ex @ ''-'' @ uuid (next_ref s) @ ''-'' @ k, h_remote = False\<rparr>;
          s' = s\<lparr>h_data := (h_data s)(next_ref s := Value_data v), next_ref := Suc (next_ref s)\<rparr>;
          (hs, s'') = output_handles uuid ex d s'
      in ((k, h) # hs, s''))"

definition local_run_node :: "('v \<Rightarrow> (string, 'v hdata) dict res) \<Rightarrow> (string \<Rightarrow> 'v hdata res) \<Rightarrow> (nat \<Rightarrow> string) \<Rightarrow> string \<Rightarrow> (string, string) dict
    \<Rightarrow> ((string, 'v resolved) dict \<Rightarrow> 'v returned res) \<Rightarrow> (string, handle) dict
    \<Rightarrow> ('v store, (string, handle) dict option) act" where
  "local_run_node raw_items fetch uuid ex htype compute_func inputs s =
     (case rbind (resolve_inputs raw_items fetch htype s inputs) compute_func of
        Inl e \<Rightarrow> (Inl e, s)
      | Inr Returned_none \<Rightarrow> (Inr None, s)
      | Inr Returned_other \<Rightarrow> (Inl AssertionError, s)
      | Inr (Returned_dict d) \<Rightarrow> (case output_handles uuid ex d s of (hs, s') \<Rightarrow> (Inr (Some hs), s')))"

subsection \<open>What is released\<close>

definition refs_ok :: "handle set \<Rightarrow> bool" where
  "refs_ok H \<longleftrightarrow> (\<forall>a \<in> H. \<forall>b \<in> H. h_ref a = h_ref b \<longrightarrow> h_id a = h_id b)"

lemma release_handle_outcome:
  assumes "release_handle rpc h s = (r, s')"
  shows "\<And>x. x \<noteq> h_ref h \<Longrightarrow> h_data s' x = h_data s x" and "\<not> has_data s' h" and "next_ref s' = next_ref s"
    and "\<And>g. \<not> has_data s g \<Longrightarrow> \<not> has_data s' g"
  using assms by (auto simp: release_handle_def has_data_def split: if_splits hdata.splits)

definition release_loop :: "(string \<Rightarrow> unit res) \<Rightarrow> string set \<Rightarrow> handle list \<Rightarrow> ('v manager, unit) act" where
  "release_loop rpc used = afor (\<lambda>h m. if h_id h \<in> used then (Inr (), m) else on_store (release_handle rpc h) m)"

lemma release_unused_loop:
  "release_unused rpc hs m = release_loop rpc (h_id ` set (table_handles (input_handles m))) hs m"
  by (simp add: release_unused_def release_loop_def Let_def)

lemma release_loop_outcome:
  assumes "release_loop rpc used hs m = (r, m')"
  shows "input_handles m' = input_handles m \<and> next_ref (mstore m') = next_ref (mstore m) \<and>
    (\<forall>x. (\<forall>h \<in> set hs. h_id h \<notin> used \<longrightarrow> h_ref h \<noteq> x) \<longrightarrow> h_data (mstore m') x = h_data (mstore m) x) \<and>
    (\<forall>g. \<not> has_data (mstore m) g \<longrightarrow> \<not> has_data (mstore m') g) \<and>
    (r = Inr () \<longrightarrow> (\<forall>h \<in> set hs. h_id h \<notin> used \<longrightarrow> \<not> has_data (mstore m') h))"
  using assms
proof (induction hs arbitrary: m)
  case Nil
  then show ?case by (simp add: release_loop_def)
next
  case (Cons h hs)
  show ?case
  proof (cases "h_id h \<in> used")
    case True
    then have "release_loop rpc used hs m = (r, m')" using Cons.prems by (simp add: release_loop_def)
    from Cons.IH[OF this] True show ?thesis by auto
  next
    case False
    obtain r1 s1 where s1: "release_handle rpc h (mstore m) = (r1, s1)" by (cases "release_handle rpc h (mstore m)")
    note o = release_handle_outcome[OF s1]
    show ?thesis
    proof (cases r1)
      case (Inl e)
      with False s1 Cons.prems have "r = Inl e" "m' = m\<lparr>mstore := s1\<rparr>"
        by (simp_all add: release_loop_def on_store_def)
      with o False show ?thesis by auto
    next
      case (Inr u)
      then have rest: "release_loop rpc used hs (m\<lparr>mstore := s1\<rparr>) = (r, m')"
        using False s1 Cons.prems by (simp add: release_loop_def on_store_def)
      note ih = Cons.IH[OF rest]
      have "\<not> has_data (mstore m') h" using ih o(2) by simp
      with ih o False show ?thesis by (auto simp del: not_None_eq)
    qed
  qed
qed

subsubsection \<open>Handles of new inputs\<close>

definition given_handles :: "'v node_inputs \<Rightarrow> handle set" where
  "given_handles inputs = {h. \<exists>d \<in> set (dvals inputs). Handle_input h \<in> set (dvals d)}"

text \<open>Converting inputs keeps the data of every object that exists.\<close>

lemma inputs_to_handles_outcome:
  "inputs_to_handles uuid n d s = (hs, s') \<Longrightarrow>
   next_ref s \<le> next_ref s' \<and> (\<forall>x < next_ref s. h_data s' x = h_data s x) \<and> dkeys hs = dkeys d \<and>
   (\<forall>h \<in> set (dvals hs). Handle_input h \<in> set (dvals d) \<or> next_ref s \<le> h_ref h)"
proof (induction d arbitrary: s hs s')
  case (Cons p d)
  obtain k v where p: "p = (k, v)" by (cases p)
  obtain h s1 where h: "input_to_handle uuid n v s = (h, s1)" by (cases "input_to_handle uuid n v s")
  obtain hs2 s2 where r: "inputs_to_handles uuid n d s1 = (hs2, s2)" by (cases "inputs_to_handles uuid n d s1")
  have e: "hs = (k, h) # hs2" "s' = s2" using Cons.prems by (simp_all add: p h r)
  have h': "next_ref s \<le> next_ref s1 \<and> (\<forall>x < next_ref s. h_data s1 x = h_data s x) \<and>
      (v = Handle_input h \<or> next_ref s \<le> h_ref h)"
    using h by (auto simp: input_to_handle_def new_handle_def split: input.splits)
  from Cons.IH[OF r] h' show ?case unfolding e p by fastforce
qed simp

lemma node_inputs_to_handle_outcome:
  "node_inputs_to_handle uuid inputs s = (t, s') \<Longrightarrow>
   next_ref s \<le> next_ref s' \<and> (\<forall>x < next_ref s. h_data s' x = h_data s x) \<and> dkeys t = dkeys inputs \<and>
   (\<forall>h \<in> set (table_handles t). h \<in> given_handles inputs \<or> next_ref s \<le> h_ref h)"
proof (induction inputs arbitrary: s t s')
  case Nil
  then show ?case by (simp add: table_handles_def)
next
  case (Cons p ds)
  obtain n d where p: "p = (n, d)" by (cases p)
  obtain hs s1 where h: "inputs_to_handles uuid n d s = (hs, s1)" by (cases "inputs_to_handles uuid n d s")
  obtain t2 s2 where r: "node_inputs_to_handle uuid ds s1 = (t2, s2)" by (cases "node_inputs_to_handle uuid ds s1")
  have e: "t = (n, hs) # t2" "s' = s2" using Cons.prems by (simp_all add: p h r)
  have g: "given_handles ((n, d) # ds) = {h. Handle_input h \<in> set (dvals d)} \<union> given_handles ds"
    by (auto simp: given_handles_def)
  have t: "set (table_handles t) = set (dvals hs) \<union> set (table_handles t2)" by (simp add: e table_handles_def)
  from Cons.IH[OF r] inputs_to_handles_outcome[OF h] show ?case
    unfolding t g p e(2) by (simp add: e(1)) (blast intro: le_trans less_le_trans)
qed

lemma node_inputs_to_handle_ok:
  "node_inputs_to_handle uuid inputs s = (t, s') \<Longrightarrow> \<forall>d \<in> set (dvals inputs). dict_ok d \<Longrightarrow>
   \<forall>d \<in> set (dvals t). dict_ok d"
proof (induction inputs arbitrary: s t s')
  case (Cons p ds)
  obtain n d where p: "p = (n, d)" by (cases p)
  obtain hs s1 where h: "inputs_to_handles uuid n d s = (hs, s1)" by (cases "inputs_to_handles uuid n d s")
  obtain t2 s2 where r: "node_inputs_to_handle uuid ds s1 = (t2, s2)" by (cases "node_inputs_to_handle uuid ds s1")
  have "dict_ok hs" using inputs_to_handles_outcome[OF h] Cons.prems(2) by (simp add: p dict_ok_def)
  with Cons.IH[OF r] Cons.prems h r show ?case by (auto simp: p)
qed simp

subsubsection \<open>Merging\<close>

abbreviation handles_of :: "handle_table \<Rightarrow> handle set" where
  "handles_of t \<equiv> set (table_handles t)"

lemma table_handles_simps [simp]:
  "table_handles [] = []" "table_handles ((n, d) # t) = dvals d @ table_handles t"
  by (simp_all add: table_handles_def)

lemma handles_dset:
  "handles_of (dset n d t) \<subseteq> set (dvals d) \<union> handles_of t"
  "dget t n = Some prev \<Longrightarrow> handles_of t \<subseteq> set (dvals prev) \<union> handles_of (dset n d t)"
  "dget t n = None \<Longrightarrow> handles_of (dset n d t) = set (dvals d) \<union> handles_of t"
  by (induction n d t rule: dset.induct) (auto split: if_splits)

lemma handles_ddel:
  assumes "dict_ok t" and "dget t n = Some d"
  shows "handles_of t = set (dvals d) \<union> handles_of (ddel n t)"
  using assms by (induction t) (auto simp: ddel_Cons dict_ok_def ddel_not_mem dest: dget_Some_mem split: if_splits)

lemma dvals_dset_mem: "set (dvals (dset k v d)) \<subseteq> insert v (set (dvals d))"
  "h \<in> set (dvals d) \<Longrightarrow> h \<in> set (dvals (dset k v d)) \<or> dget d k = Some h"
  by (induction k v d rule: dset.induct) auto

lemma dvals_dupdate_sub: "set (dvals (dupdate p d)) \<subseteq> set (dvals p) \<union> set (dvals d)"
proof (induction d arbitrary: p)
  case (Cons q d)
  obtain k v where q: "q = (k, v)" by (cases q)
  from Cons.IH[of "dset k v p"] dvals_dset_mem(1)[of k v p] show ?case unfolding q by auto
qed simp

lemma dvals_dupdate_lost:
  "dict_ok d \<Longrightarrow> h \<in> set (dvals p) \<Longrightarrow> h \<in> set (dvals (dupdate p d)) \<or> (\<exists>k \<in> set (dkeys d). dget p k = Some h)"
proof (induction d arbitrary: p)
  case (Cons q d)
  obtain k v where q: "q = (k, v)" by (cases q)
  from Cons.prems(1) have d: "dict_ok d" "k \<notin> set (dkeys d)" by (simp_all add: q dict_ok_def)
  from dvals_dset_mem(2)[OF Cons.prems(2), of k v] show ?case
  proof
    assume "h \<in> set (dvals (dset k v p))"
    from Cons.IH[OF d(1) this] d(2) show ?thesis by (auto simp: q split: if_splits)
  qed (simp add: q)
qed simp

lemma merge_loop_outcome:
  assumes "merge_loop new t rel = (t', rel')" and "\<forall>d \<in> set (dvals new). dict_ok d"
  shows "handles_of t' \<subseteq> handles_of t \<union> handles_of new \<and> set rel \<subseteq> set rel' \<and>
    set rel' \<subseteq> set rel \<union> handles_of t \<union> handles_of new \<and> handles_of t \<subseteq> handles_of t' \<union> set rel'"
  using assms
proof (induction new t rel rule: merge_loop.induct)
  case (2 n d ds t rel)
  show ?case
  proof (cases "dget t n")
    case None
    with "2.prems" have r: "merge_loop ds (dset n d t) rel = (t', rel')" by simp
    from "2.IH"(1)[OF None r] "2.prems"(2) handles_dset(3)[OF None, of d] show ?thesis by auto
  next
    case (Some prev)
    let ?rel = "rel @ List.map_filter (\<lambda>k. dget prev k) (dkeys d)"
    from Some "2.prems" have r: "merge_loop ds (dset n (dupdate prev d) t) ?rel = (t', rel')" by simp
    from "2.prems"(2) have d: "dict_ok d" "\<forall>d \<in> set (dvals ds). dict_ok d" by simp_all
    note ih = "2.IH"(2)[OF Some r d(2)]
    have mf: "set (List.map_filter (\<lambda>k. dget prev k) (dkeys d)) = {h. \<exists>k \<in> set (dkeys d). dget prev k = Some h}"
      by (force simp: List.map_filter_def image_iff)
    have pv: "set (dvals prev) \<subseteq> handles_of t"
      using dget_in_dvals[OF Some] by (auto simp: table_handles_def)
    have rel: "set ?rel \<subseteq> set rel \<union> handles_of t"
      using pv by (auto simp: mf dest: dget_in_dvals)
    have sub: "handles_of (dset n (dupdate prev d) t) \<subseteq> handles_of t \<union> set (dvals d)"
      using handles_dset(1)[of n "dupdate prev d" t] dvals_dupdate_sub[of prev d] pv by blast
    have "set (dvals prev) \<subseteq> set (dvals (dupdate prev d)) \<union> set ?rel"
      using dvals_dupdate_lost[OF d(1), of _ prev] by (auto simp: mf)
    moreover have "set (dvals (dupdate prev d)) \<subseteq> handles_of (dset n (dupdate prev d) t)"
      using dget_in_dvals[of "dset n (dupdate prev d) t" n "dupdate prev d"] by (auto simp: table_handles_def)
    ultimately have lost: "handles_of t \<subseteq> handles_of (dset n (dupdate prev d) t) \<union> set ?rel"
      using handles_dset(2)[OF Some, of "dupdate prev d"] by blast
    show ?thesis
    proof (intro conjI)
      show "handles_of t' \<subseteq> handles_of t \<union> handles_of ((n, d) # ds)" using ih sub by auto
      show "set rel \<subseteq> set rel'" using ih by auto
      show "set rel' \<subseteq> set rel \<union> handles_of t \<union> handles_of ((n, d) # ds)" using ih sub rel by auto
      show "handles_of t \<subseteq> handles_of t' \<union> set rel'" using ih lost by blast
    qed
  qed
qed simp

lemma remove_nodes_loop_outcome:
  assumes "remove_nodes_loop ns rel m = (Inr rel', m')" and "dict_ok (input_handles m)"
  shows "mstore m' = mstore m \<and> dict_ok (input_handles m') \<and> set rel \<subseteq> set rel' \<and>
    set rel' \<subseteq> set rel \<union> handles_of (input_handles m) \<and>
    handles_of (input_handles m) \<subseteq> handles_of (input_handles m') \<union> set rel' \<and>
    handles_of (input_handles m') \<subseteq> handles_of (input_handles m) \<and>
    dkeys (input_handles m') = filter (\<lambda>n. n \<notin> set ns) (dkeys (input_handles m))"
  using assms
proof (induction ns rel m rule: remove_nodes_loop.induct)
  case (2 n ns rel m)
  then obtain d where d: "dget (input_handles m) n = Some d" by (cases "dget (input_handles m) n") auto
  let ?m = "m\<lparr>input_handles := ddel n (input_handles m)\<rparr>"
  have r: "remove_nodes_loop ns (rel @ dvals d) ?m = (Inr rel', m')" using "2.prems"(1) d by simp
  have ok: "dict_ok (input_handles ?m)" using "2.prems"(2) by simp
  have f: "filter (\<lambda>k. k \<notin> set ns) (dkeys (ddel n (input_handles m))) =
      filter (\<lambda>k. k \<notin> set (n # ns)) (dkeys (input_handles m))"
    by (simp add: dict_simps)
  from "2.IH"[OF d r ok] handles_ddel[OF "2.prems"(2) d] f show ?case by auto
qed simp

text \<open>The core: releasing the unused handles of \<open>rel\<close> leaves the used ones alone and frees the others.\<close>

lemma release_unused_exact:
  assumes run: "release_unused rpc rel m = (Inr (), m')" and H: "refs_ok H"
    and old: "\<forall>h \<in> H. h_ref h < n" and rel: "\<forall>h \<in> set rel. h \<in> H \<or> n \<le> h_ref h"
    and h: "h \<in> H" "h \<in> handles_of (input_handles m) \<union> set rel"
  shows "if h_id h \<in> h_id ` handles_of (input_handles m')
    then h_data (mstore m') (h_ref h) = h_data (mstore m) (h_ref h) else \<not> has_data (mstore m') h"
proof -
  let ?used = "h_id ` handles_of (input_handles m)"
  have o: "input_handles m' = input_handles m"
    "\<forall>x. (\<forall>g \<in> set rel. h_id g \<notin> ?used \<longrightarrow> h_ref g \<noteq> x) \<longrightarrow> h_data (mstore m') x = h_data (mstore m) x"
    "\<forall>g \<in> set rel. h_id g \<notin> ?used \<longrightarrow> \<not> has_data (mstore m') g"
    using release_loop_outcome[OF run[unfolded release_unused_loop]] by auto
  show ?thesis
  proof (cases "h_id h \<in> ?used")
    case True
    have "\<forall>g \<in> set rel. h_id g \<notin> ?used \<longrightarrow> h_ref g \<noteq> h_ref h"
      using rel H h(1) old True unfolding refs_ok_def by (metis not_le)
    with o(1,2) True show ?thesis by simp
  next
    case False
    then have "h \<in> set rel" using h(2) by blast
    with o(1,3) False show ?thesis by simp
  qed
qed


text \<open>Nodes \<open>b\<close> and \<open>c\<close> share a handle, \<open>b\<close> has a second one; \<open>b\<close> ran and its output goes to \<open>d\<close>.\<close>

definition ex_handle :: "nat \<Rightarrow> string \<Rightarrow> handle" where
  "ex_handle r i = \<lparr>h_ref = r, h_id = i, h_remote = False\<rparr>"

definition ex_manager :: "nat manager" where
  "ex_manager = \<lparr>input_handles =
     [(''b'', [(''x'', ex_handle 0 ''h0''), (''y'', ex_handle 1 ''h1'')]), (''c'', [(''x'', ex_handle 0 ''h0'')])],
     mstore = \<lparr>h_data = (\<lambda>r. if r < 3 then Value_data r else Undefined_data), next_ref = 3, remote_released = []\<rparr>\<rparr>"

definition ex_new_inputs :: "nat node_inputs" where
  "ex_new_inputs = [(''d'', [(''z'', Handle_input (ex_handle 2 ''h2''))])]"

definition ex_merged :: "nat manager" where
  "ex_merged = snd (remove_and_merge (\<lambda>_. Inr ()) (\<lambda>n. ''u'') [''b''] ex_new_inputs ex_manager)"


text \<open>The same holds for the other two ways to give a manager new inputs.\<close>

lemma set_new_inputs_exact:
  assumes "set_new_inputs rpc uuid inputs m = (Inr (), m')"
    and "refs_ok (handles_of (input_handles m) \<union> given_handles inputs)"
    and "\<forall>h \<in> handles_of (input_handles m) \<union> given_handles inputs. h_ref h < next_ref (mstore m)"
    and "h \<in> handles_of (input_handles m)"
  shows "if h_id h \<in> h_id ` handles_of (input_handles m')
    then h_data (mstore m') (h_ref h) = h_data (mstore m) (h_ref h) else \<not> has_data (mstore m') h"
proof -
  obtain new s where new: "node_inputs_to_handle uuid inputs (mstore m) = (new, s)"
    by (cases "node_inputs_to_handle uuid inputs (mstore m)")
  note n = node_inputs_to_handle_outcome[OF new]
  have run: "release_unused rpc (table_handles (input_handles m)) (m\<lparr>input_handles := new, mstore := s\<rparr>) = (Inr (), m')"
    using assms(1) new by (simp add: set_new_inputs_def)
  have "h_data s (h_ref h) = h_data (mstore m) (h_ref h)" using n assms(3,4) by auto
  with release_unused_exact[OF run assms(2,3), of h] assms(4) show ?thesis by simp
qed

subsection \<open>Where handles leak and where they go too early\<close>

lemma release_loop_all_used: "\<forall>h \<in> set hs. h_id h \<in> used \<Longrightarrow> release_loop rpc used hs m = (Inr (), m)"
  by (induction hs) (simp_all add: release_loop_def)

text \<open>\<open>release_all_handles\<close> releases before it empties the table, so every handle is still in use: none is released.\<close>

lemma release_all_keeps_all: "release_all_handles rpc m = (Inr (), m\<lparr>input_handles := []\<rparr>)"
proof -
  have "release_unused rpc (table_handles (input_handles m)) m = (Inr (), m)"
    unfolding release_unused_loop by (rule release_loop_all_used) simp
  then show ?thesis by (simp add: release_all_handles_def abind_def)
qed

text \<open>
  the handles inside a special dict input are not counted as inputs, and the end of a flow releases
  nothing. When a node ends while another waits with the same local handle inside its dict, the data of
  the handle is released and the waiting node can only fail with \<open>NotImplementedError\<close>; and whatever the
  table holds, \<open>release_all_handles\<close> leaves the store as it is.
\<close>

lemma dict_input_released_early:
  assumes "remove_and_merge rpc uuid [b] [] m = (Inr (), m')" and "dict_ok (input_handles m)"
    and "dget (input_handles m) b = Some db" and "h \<in> set (dvals db)" and "\<not> h_remote h"
    and "dget (input_handles m) c = Some [(k, hc)]" and "c \<noteq> b"
    and "h_data (mstore m) (h_ref hc) = Dict_data [(k2, h)]"
    and "h_id h \<notin> h_id ` set (table_handles (ddel b (input_handles m)))"
    and "\<forall>g \<in> set (dvals db). h_ref g \<noteq> h_ref hc"
  shows "get_node_inputs m' c [] = [(k, hc)] \<and>
    resolve_inputs raw_items fetch [(k, ''handledictsource'')] (mstore m') (get_node_inputs m' c []) = Inl NotImplementedError \<and>
    release_all_handles rpc m = (Inr (), m\<lparr>input_handles := []\<rparr>)"
proof -
  let ?m1 = "m\<lparr>input_handles := ddel b (input_handles m)\<rparr>"
  have "remove_nodes_loop [b] [] m = (Inr (dvals db), ?m1)" using assms(3) by simp
  then have run: "release_unused rpc (dvals db) ?m1 = (Inr (), m')"
    using assms(1) by (simp add: remove_and_merge_def abind_def merge_new_inputs_def)
  note o = release_loop_outcome[OF run[unfolded release_unused_loop]]
  have t: "get_node_inputs m' c [] = [(k, hc)]"
    using o assms(6,7) by (simp add: get_node_inputs_def)
  have gone: "\<not> has_data (mstore m') h" using o assms(4,9) by simp
  have kept: "h_data (mstore m') (h_ref hc) = Dict_data [(k2, h)]" using o assms(8,10) by simp
  have "resolve_inputs raw_items fetch [(k, ''handledictsource'')] (mstore m') [(k, hc)] = Inl NotImplementedError"
    using gone kept assms(5)
    by (simp add: resolve_inputs_def resolve_input_def resolve_dict_def resolve_handle_def get_data_from_remote_def lookup_def)
  with t show ?thesis by (simp add: release_all_keeps_all)
qed

definition ex_dict_manager :: "nat manager" where
  "ex_dict_manager = \<lparr>input_handles = [(''b'', [(''x'', ex_handle 0 ''h0'')]), (''c'', [(''d'', ex_handle 1 ''h1'')])],
     mstore = \<lparr>h_data = (\<lambda>r. if r = 0 then Value_data 7 else Dict_data [(''x'', ex_handle 0 ''h0'')]),
       next_ref = 2, remote_released = []\<rparr>\<rparr>"

lemma dict_input_released_early_witness:
  "\<exists>m'. remove_and_merge (\<lambda>_. Inr ()) (\<lambda>n. ''u'') [''b''] [] ex_dict_manager = (Inr (), m') \<and>
     resolve_inputs (\<lambda>_. Inl AttributeError) (\<lambda>_. Inl RemoteException) [(''d'', ''handledictsource'')] (mstore m')
       (get_node_inputs m' ''c'' []) = Inl NotImplementedError"
proof -
  obtain r m' where run: "remove_and_merge (\<lambda>_. Inr ()) (\<lambda>n. ''u'') [''b''] [] ex_dict_manager = (r, m')"
    by (cases "remove_and_merge (\<lambda>_. Inr ()) (\<lambda>n. ''u'') [''b''] [] ex_dict_manager")
  have "fst (remove_and_merge (\<lambda>_. Inr ()) (\<lambda>n. ''u'') [''b''] [] ex_dict_manager) = Inr ()" by code_simp
  with run have r: "r = Inr ()" by simp
  have "get_node_inputs m' ''c'' [] = [(''d'', ex_handle 1 ''h1'')] \<and>
    resolve_inputs (\<lambda>_. Inl AttributeError) (\<lambda>_. Inl RemoteException) [(''d'', ''handledictsource'')] (mstore m')
      (get_node_inputs m' ''c'' []) = Inl NotImplementedError \<and>
    release_all_handles (\<lambda>_. Inr ()) ex_dict_manager = (Inr (), ex_dict_manager\<lparr>input_handles := []\<rparr>)"
    by (rule dict_input_released_early[OF run[unfolded r], where db = "[(''x'', ex_handle 0 ''h0'')]" and
          h = "ex_handle 0 ''h0''" and ?k2.0 = "''x''"])
      (simp_all add: ex_dict_manager_def ex_handle_def dict_ok_def ddel_def)
  with run r show ?thesis by blast
qed

end
