(* ===== verification/FlowExec.thy ===== *)
theory FlowExec
  imports FlowHandles "HOL-Library.Product_Lexorder"
begin

text \<open>
  Resources and executors of the compute flow: \<open>ResourceDesc\<close> of \<open>apps/cflow/coremodel.py\<close>,
  \<open>NodeExecutorBase.request_resource\<close> of \<open>executors/base.py\<close>, the data of a node
  (\<open>ComputeNodeModel\<close> of \<open>model.py\<close> with the parts of its runtime the scheduler reads) and
  \<open>SimpleScheduler.assign_node_executor\<close> with \<open>filter_node_cant_schedule\<close> of \<open>schedulers/simple.py\<close>.
  An executor is known by its position in the list the scheduler is given; its resources are those it
  has at that moment. The lemmas: what tasks hold and what is left add up to what the executor has when
  every request is explicit, requests of \<open>-1\<close> break this, and what an assignment guarantees.
\<close>

subsection \<open>Resources\<close>

record resource =
  rc_CPU :: int
  rc_Mem :: int
  rc_GPU :: int
  rc_GPUMem :: int

definition default_resource :: resource where
  "default_resource = \<lparr>rc_CPU = - 1, rc_Mem = - 1, rc_GPU = 0, rc_GPUMem = - 1\<rparr>"

definition validate_resource :: "resource \<Rightarrow> unit res" where
  "validate_resource r = rassert (0 \<le> rc_GPU r)"

text \<open>The three operations treat each field alike; \<open>-1\<close> in the executor means that it is not limited.\<close>

definition enough :: "int \<Rightarrow> int \<Rightarrow> bool" where
  "enough a r \<longleftrightarrow> \<not> (a \<noteq> - 1 \<and> a < r)"

definition remain :: "int \<Rightarrow> int \<Rightarrow> int" where
  "remain a r = (if a \<noteq> - 1 then a - r else - 1)"

definition give_back :: "int \<Rightarrow> int \<Rightarrow> int" where
  "give_back a r = (if a \<noteq> - 1 then a + r else - 1)"

definition is_request_sufficient :: "resource \<Rightarrow> resource \<Rightarrow> bool" where
  "is_request_sufficient a r \<longleftrightarrow> enough (rc_CPU a) (rc_CPU r) \<and> enough (rc_Mem a) (rc_Mem r) \<and>
     enough (rc_GPU a) (rc_GPU r) \<and> enough (rc_GPUMem a) (rc_GPUMem r)"

definition get_request_remain_rc :: "resource \<Rightarrow> resource \<Rightarrow> resource" where
  "get_request_remain_rc a r = \<lparr>rc_CPU = remain (rc_CPU a) (rc_CPU r), rc_Mem = remain (rc_Mem a) (rc_Mem r),
     rc_GPU = remain (rc_GPU a) (rc_GPU r), rc_GPUMem = remain (rc_GPUMem a) (rc_GPUMem r)\<rparr>"

definition add_request_rc :: "resource \<Rightarrow> resource \<Rightarrow> resource" where
  "add_request_rc a r = \<lparr>rc_CPU = give_back (rc_CPU a) (rc_CPU r), rc_Mem = give_back (rc_Mem a) (rc_Mem r),
     rc_GPU = give_back (rc_GPU a) (rc_GPU r), rc_GPUMem = give_back (rc_GPUMem a) (rc_GPUMem r)\<rparr>"

text \<open>
  The context manager \<open>request_resource\<close>: entering asserts and takes, leaving gives back. The tasks of an
  executor enter and leave in any order; \<open>rc_held\<close> lists the requests of the tasks inside.
\<close>

record rc_state =
  rc_current :: resource
  rc_held :: "resource list"

datatype rc_event = Enter resource | Leave resource

definition request_enter :: "resource \<Rightarrow> rc_state \<Rightarrow> rc_state res" where
  "request_enter r s = (if is_request_sufficient (rc_current s) r
     then Inr \<lparr>rc_current = get_request_remain_rc (rc_current s) r, rc_held = r # rc_held s\<rparr>
     else Inl AssertionError)"

definition request_leave :: "resource \<Rightarrow> rc_state \<Rightarrow> rc_state" where
  "request_leave r s = \<lparr>rc_current = add_request_rc (rc_current s) r, rc_held = remove1 r (rc_held s)\<rparr>"

text \<open>A request that is refused raises in its task, the others go on; only a task inside can leave.\<close>

definition rc_step :: "rc_event \<Rightarrow> rc_state \<Rightarrow> rc_state" where
  "rc_step ev s = (case ev of
       Enter r \<Rightarrow> (case request_enter r s of Inl _ \<Rightarrow> s | Inr s' \<Rightarrow> s')
     | Leave r \<Rightarrow> if r \<in> set (rc_held s) then request_leave r s else s)"

definition rc_run :: "rc_event list \<Rightarrow> resource \<Rightarrow> rc_state" where
  "rc_run evs cap = fold rc_step evs \<lparr>rc_current = cap, rc_held = []\<rparr>"

definition rc_fields :: "(resource \<Rightarrow> int) list" where
  "rc_fields = [rc_CPU, rc_Mem, rc_GPU, rc_GPUMem]"

definition explicit_request :: "resource \<Rightarrow> bool" where
  "explicit_request r \<longleftrightarrow> (\<forall>f \<in> set rc_fields. 0 \<le> f r)"

definition accounted :: "(resource \<Rightarrow> int) \<Rightarrow> resource \<Rightarrow> rc_state \<Rightarrow> bool" where
  "accounted f cap s \<longleftrightarrow> (if f cap = - 1 then f (rc_current s) = - 1
     else 0 \<le> f (rc_current s) \<and> f (rc_current s) = f cap - sum_list (map f (rc_held s)))"

lemma field_ops:
  assumes "f \<in> set rc_fields"
  shows "f (get_request_remain_rc a r) = remain (f a) (f r)" and "f (add_request_rc a r) = give_back (f a) (f r)"
    and "is_request_sufficient a r \<Longrightarrow> enough (f a) (f r)"
  using assms by (auto simp: rc_fields_def get_request_remain_rc_def add_request_rc_def is_request_sufficient_def)

lemma sum_list_remove1:
  "r \<in> set rs \<Longrightarrow> sum_list (map f (remove1 r rs)) = sum_list (map f rs) - (f r :: int)"
  by (induction rs) auto

lemma rc_step_accounted:
  assumes f: "f \<in> set rc_fields" and cap: "- 1 \<le> f cap" and acc: "accounted f cap s"
    and ev: "\<forall>r. ev = Enter r \<longrightarrow> explicit_request r" and held: "\<forall>r \<in> set (rc_held s). explicit_request r"
  shows "accounted f cap (rc_step ev s) \<and> (\<forall>r \<in> set (rc_held (rc_step ev s)). explicit_request r)"
proof (cases ev)
  case (Enter r)
  show ?thesis
  proof (cases "is_request_sufficient (rc_current s) r")
    case True
    have "enough (f (rc_current s)) (f r)" using field_ops(3)[OF f True] .
    with Enter True acc ev held show ?thesis
      by (auto simp: rc_step_def request_enter_def accounted_def field_ops[OF f] enough_def remain_def split: if_splits)
  qed (use Enter acc held in \<open>simp add: rc_step_def request_enter_def\<close>)
next
  case (Leave r)
  show ?thesis
  proof (cases "r \<in> set (rc_held s)")
    case True
    have pos: "0 \<le> f r" using held True f by (auto simp: explicit_request_def)
    have "\<forall>r \<in> set (remove1 r (rc_held s)). explicit_request r" using held set_remove1_subset by fastforce
    with Leave True acc pos show ?thesis
      by (auto simp: rc_step_def request_leave_def accounted_def field_ops[OF f] give_back_def sum_list_remove1 split: if_splits)
  qed (use Leave acc held in \<open>simp add: rc_step_def\<close>)
qed

text \<open>
  C34: when every request names all its resources, then in every order of tasks entering and leaving an
  executor each limited resource is what the executor had less what the tasks inside requested, it never
  becomes negative, so the tasks inside never hold more than the executor has; unlimited resources stay
  unlimited; and when all tasks have left, the executor has what it had.
\<close>

theorem resources_accounted:
  assumes "\<forall>f \<in> set rc_fields. - 1 \<le> f cap" and "\<forall>r. Enter r \<in> set evs \<longrightarrow> explicit_request r"
  shows "(\<forall>f \<in> set rc_fields. if f cap = - 1 then f (rc_current (rc_run evs cap)) = - 1
      else 0 \<le> f (rc_current (rc_run evs cap)) \<and>
        f (rc_current (rc_run evs cap)) + sum_list (map f (rc_held (rc_run evs cap))) = f cap) \<and>
    (rc_held (rc_run evs cap) = [] \<longrightarrow> rc_current (rc_run evs cap) = cap)"
proof -
  have acc: "accounted f cap (rc_run evs cap)" if f: "f \<in> set rc_fields" for f
  proof -
    have "accounted f cap (fold rc_step evs s)" if "accounted f cap s" "\<forall>r \<in> set (rc_held s). explicit_request r"
      "\<forall>r. Enter r \<in> set evs \<longrightarrow> explicit_request r" for s
      using that
    proof (induction evs arbitrary: s)
      case (Cons ev evs)
      have "accounted f cap (rc_step ev s) \<and> (\<forall>r \<in> set (rc_held (rc_step ev s)). explicit_request r)"
        using Cons.prems assms(1) f by (intro rc_step_accounted) auto
      with Cons show ?case by simp
    qed simp
    moreover have "accounted f cap \<lparr>rc_current = cap, rc_held = []\<rparr>" using assms(1) f by (auto simp: accounted_def)
    ultimately show ?thesis using assms(2) by (simp add: rc_run_def)
  qed
  have restored: "rc_current (rc_run evs cap) = cap" if held: "rc_held (rc_run evs cap) = []"
  proof -
    have "f (rc_current (rc_run evs cap)) = f cap" if "f \<in> set rc_fields" for f
      using acc[OF that] held by (auto simp: accounted_def split: if_splits)
    then show ?thesis by (intro resource.equality) (simp_all add: rc_fields_def)
  qed
  show ?thesis
  proof (intro conjI ballI impI)
    fix f
    assume "f \<in> set rc_fields"
    from acc[OF this] show "if f cap = - 1 then f (rc_current (rc_run evs cap)) = - 1
      else 0 \<le> f (rc_current (rc_run evs cap)) \<and>
        f (rc_current (rc_run evs cap)) + sum_list (map f (rc_held (rc_run evs cap))) = f cap"
      by (simp add: accounted_def split: if_splits)
  qed (rule restored)
qed

definition rc_example :: "int \<Rightarrow> int \<Rightarrow> resource" where
  "rc_example c g = \<lparr>rc_CPU = c, rc_Mem = 0, rc_GPU = g, rc_GPUMem = 0\<rparr>"

theorem resources_accounted_witness:
  "rc_CPU (rc_current (rc_run [Enter (rc_example 3 1), Enter (rc_example 2 0), Enter (rc_example 4 0), Leave (rc_example 3 1)]
     (rc_example 6 1))) + 2 = 6"
  using resources_accounted[of "rc_example 6 1"
      "[Enter (rc_example 3 1), Enter (rc_example 2 0), Enter (rc_example 4 0), Leave (rc_example 3 1)]"]
  by (simp add: rc_fields_def explicit_request_def rc_example_def rc_run_def rc_step_def request_enter_def
      request_leave_def is_request_sufficient_def enough_def get_request_remain_rc_def add_request_rc_def remain_def
      give_back_def)

text \<open>
  A request of \<open>-1\<close>, the default of a node, is subtracted like a number. While such a task runs the
  executor has one CPU more than it has; another task may then take all of them, and when the first one
  leaves the counter is \<open>-1\<close>, which means unlimited, for ever: every later request for CPUs succeeds.
\<close>

lemma default_request_unlimits:
  assumes "0 \<le> c"
  shows "let s = rc_run [Enter default_resource, Enter (rc_example (c + 1) 0), Leave default_resource,
      Leave (rc_example (c + 1) 0)] \<lparr>rc_CPU = c, rc_Mem = - 1, rc_GPU = 0, rc_GPUMem = - 1\<rparr>
    in rc_held s = [] \<and> rc_CPU (rc_current s) = - 1 \<and> (\<forall>n. is_request_sufficient (rc_current s) (rc_example n 0))"
  using assms
  by (auto simp: rc_run_def rc_step_def request_enter_def request_leave_def is_request_sufficient_def enough_def
      default_resource_def rc_example_def get_request_remain_rc_def add_request_rc_def remain_def give_back_def Let_def)

lemma default_request_unlimits_witness:
  "rc_CPU (rc_current (rc_run [Enter default_resource, Enter (rc_example 9 0), Leave default_resource,
      Leave (rc_example 9 0)] \<lparr>rc_CPU = 8, rc_Mem = - 1, rc_GPU = 0, rc_GPUMem = - 1\<rparr>)) = - 1"
  using default_request_unlimits[of 8] by (simp add: Let_def)

subsection \<open>Nodes\<close>

datatype compute_node_type = COMPUTE | MARKDOWN | VIRTUAL_RESOURCE | SUBFLOW | SUBFLOW_INP_HANDLE | SUBFLOW_OUT_HANDLE

record anno_handle =
  handle_type :: string
  handle_name :: string
  handle_optional :: bool

text \<open>
  The fields the scheduler reads. The runtime of a node is computed once from its code and is part of
  the data: its handles, whether it creates an executor of its own, its flag \<open>EXEC_ALWAYS_LOCAL\<close> and the
  resources its registration names.
\<close>

record compute_data =
  nType :: compute_node_type
  vExecId :: string
  vResource :: resource
  inp_handles :: "anno_handle list"
  out_handles :: "anno_handle list"
  temp_executor_creator :: bool
  exec_always_local :: bool
  resource_desp :: "resource option"

type_synonym compute_node = "compute_data flow_node"

definition get_request_resource_desp :: "compute_node \<Rightarrow> resource" where
  "get_request_resource_desp n = vResource (node_data n)"

definition node_resource :: "compute_node \<Rightarrow> resource" where
  "node_resource n = (case resource_desp (node_data n) of None \<Rightarrow> vResource (node_data n) | Some r \<Rightarrow> r)"

definition inputs_complete :: "compute_node \<Rightarrow> string list \<Rightarrow> bool" where
  "inputs_complete n given \<longleftrightarrow>
     (\<forall>h \<in> set (inp_handles (node_data n)). handle_optional h \<or> handle_name h \<in> set given)"

text \<open>\<open>filter_node_cant_schedule\<close>: the nodes that have their inputs, and the others.\<close>

definition filter_node_cant_schedule :: "compute_node list \<Rightarrow> (string, (string, 'h) dict) dict
    \<Rightarrow> compute_node list \<times> compute_node list" where
  "filter_node_cant_schedule nodes node_inputs =
     (let given = (\<lambda>n. case dget node_inputs (node_id n) of None \<Rightarrow> [] | Some d \<Rightarrow> dkeys d)
      in (filter (\<lambda>n. inputs_complete n (given n)) nodes, filter (\<lambda>n. \<not> inputs_complete n (given n)) nodes))"

subsection \<open>Assigning executors\<close>

record executor =
  ex_id :: string
  ex_rc :: resource
  ex_is_local :: bool

text \<open>What a node is assigned: the executor at a position of the list, or one of its own.\<close>

datatype assigned = On_executor nat | Own_executor

type_synonym node_group = "(compute_node \<times> resource) list"

definition first_index :: "('a \<Rightarrow> bool) \<Rightarrow> 'a list \<Rightarrow> nat option" where
  "first_index P xs = find (\<lambda>i. P (xs ! i)) [0..<length xs]"

fun group_nodes :: "executor list \<Rightarrow> compute_node list \<Rightarrow> (string, assigned) dict \<Rightarrow> (string, node_group) dict
    \<Rightarrow> ((string, assigned) dict \<times> (string, node_group) dict) res" where
  "group_nodes exs [] out groups = Inr (out, groups)"
| "group_nodes exs (n # ns) out groups =
     (if temp_executor_creator (node_data n) then group_nodes exs ns (dset (node_id n) Own_executor out) groups
      else if exec_always_local (node_data n) then
        (case first_index ex_is_local exs of
           None \<Rightarrow> Inl AssertionError
         | Some i \<Rightarrow> group_nodes exs ns (dset (node_id n) (On_executor i) out) groups)
      else let g = vExecId (node_data n); old = (case dget groups g of None \<Rightarrow> [] | Some l \<Rightarrow> l)
        in group_nodes exs ns out (dset g (old @ [(n, node_resource n)]) groups))"

text \<open>\<open>node_group.sort(key, reverse=True)\<close> is stable: equal elements keep their order.\<close>

definition sort_key_of :: "compute_node \<times> resource \<Rightarrow> int \<times> int \<times> int \<times> int" where
  "sort_key_of p = (let r = snd p in (rc_GPU r, rc_GPUMem r, rc_CPU r, rc_Mem r))"

definition sort_group :: "node_group \<Rightarrow> node_group" where
  "sort_group g = rev (sort_key sort_key_of (rev g))"

text \<open>The loop tests the largest request of the group for every node, not the node's own.\<close>

fun assign_all :: "nat \<Rightarrow> resource \<Rightarrow> node_group \<Rightarrow> resource \<Rightarrow> (string, assigned) dict \<Rightarrow> (string, assigned) dict" where
  "assign_all i mx [] rc out = out"
| "assign_all i mx ((n, nrc) # g) rc out =
     (if is_request_sufficient rc mx
      then assign_all i mx g (get_request_remain_rc rc nrc) (dset (node_id n) (On_executor i) out)
      else assign_all i mx g rc out)"

definition group_executor :: "executor list \<Rightarrow> string \<Rightarrow> resource \<Rightarrow> nat option" where
  "group_executor exs eid mx =
     (case first_index (\<lambda>e. ex_id e = eid) exs of
        Some i \<Rightarrow> if is_request_sufficient (ex_rc (exs ! i)) mx then Some i
          else first_index (\<lambda>e. is_request_sufficient (ex_rc e) mx) exs
      | None \<Rightarrow> first_index (\<lambda>e. is_request_sufficient (ex_rc e) mx) exs)"

definition assign_group :: "executor list \<Rightarrow> string \<times> node_group \<Rightarrow> (string, assigned) dict \<Rightarrow> (string, assigned) dict" where
  "assign_group exs eg out = (case eg of (eid, g) \<Rightarrow> (case sort_group g of
       [] \<Rightarrow> out
     | (n, mx) # rest \<Rightarrow> (case group_executor exs eid mx of
         None \<Rightarrow> out
       | Some i \<Rightarrow> assign_all i mx ((n, mx) # rest) (ex_rc (exs ! i)) out)))"

definition assign_node_executor :: "compute_node list \<Rightarrow> executor list \<Rightarrow> (string, assigned) dict res" where
  "assign_node_executor nodes exs =
     (if nodes = [] then Inr []
      else rbind (group_nodes exs nodes [] []) (\<lambda>(out, groups).
        let out' = fold (assign_group exs) groups out
        in rbind (rassert (out' \<noteq> [])) (\<lambda>_. Inr out')))"

text \<open>\<open>_get_nodes_can_schedule\<close>: the nodes that have their inputs and an executor.\<close>

definition get_nodes_can_schedule :: "compute_node list \<Rightarrow> (string, (string, 'h) dict) dict \<Rightarrow> executor list
    \<Rightarrow> ((string, compute_node) dict \<times> (string, assigned) dict) res" where
  "get_nodes_can_schedule nodes node_inputs exs =
     (let valid = fst (filter_node_cant_schedule nodes node_inputs)
      in rbind (assign_node_executor valid exs) (\<lambda>a.
        Inr (dict_by node_id (\<lambda>n. n) (filter (\<lambda>n. dmem (node_id n) a) valid), a)))"

subsubsection \<open>What an assignment guarantees\<close>

lemma first_index_Some: "first_index P xs = Some i \<Longrightarrow> i < length xs \<and> P (xs ! i)"
  by (auto simp: first_index_def find_Some_iff)

lemma first_index_None: "first_index P xs = None \<longleftrightarrow> (\<forall>x \<in> set xs. \<not> P x)"
  by (auto simp: first_index_def find_None_iff all_set_conv_all_nth)

lemma set_sort_group [simp]: "set (sort_group g) = set g"
  by (simp add: sort_group_def)

lemma sort_group_max:
  assumes "sort_group g = p # rest" and "q \<in> set g"
  shows "sort_key_of q \<le> sort_key_of p"
proof -
  have "sorted (map sort_key_of (rev (p # rest)))"
    using assms(1) by (metis sort_group_def rev_rev_ident sorted_sort_key)
  then have "\<forall>x \<in> set rest. sort_key_of x \<le> sort_key_of p" by (simp add: sorted_append)
  moreover have "q \<in> set (p # rest)" using assms by (metis set_sort_group)
  ultimately show ?thesis by auto
qed

lemma assign_all_get:
  "dget (assign_all i mx g rc out) k = Some a \<Longrightarrow>
   dget out k = Some a \<or> (a = On_executor i \<and> k \<in> (\<lambda>p. node_id (fst p)) ` set g)"
  by (induction i mx g rc out rule: assign_all.induct) (auto split: if_splits)

text \<open>\<open>may_run exs n mx i\<close>: position \<open>i\<close> of the list can take a request of size \<open>mx\<close>, at least that of node \<open>n\<close> in
  the order of the code.\<close>

definition fits :: "executor list \<Rightarrow> compute_node \<Rightarrow> nat \<Rightarrow> bool" where
  "fits exs n i \<longleftrightarrow> i < length exs \<and> (\<exists>mx. is_request_sufficient (ex_rc (exs ! i)) mx \<and>
     sort_key_of (n, node_resource n) \<le> sort_key_of (n, mx))"

definition assignment_ok :: "executor list \<Rightarrow> compute_node list \<Rightarrow> (string, assigned) dict \<Rightarrow> bool" where
  "assignment_ok exs nodes out \<longleftrightarrow> (\<forall>k a. dget out k = Some a \<longrightarrow> (\<exists>n \<in> set nodes. node_id n = k \<and>
     (case a of
        Own_executor \<Rightarrow> temp_executor_creator (node_data n)
      | On_executor i \<Rightarrow> (exec_always_local (node_data n) \<and> i < length exs \<and> ex_is_local (exs ! i)) \<or>
          (\<not> temp_executor_creator (node_data n) \<and> \<not> exec_always_local (node_data n) \<and> fits exs n i))))"

definition group_ok :: "compute_node list \<Rightarrow> node_group \<Rightarrow> bool" where
  "group_ok nodes g \<longleftrightarrow> (\<forall>(n, r) \<in> set g. n \<in> set nodes \<and> r = node_resource n \<and>
     \<not> temp_executor_creator (node_data n) \<and> \<not> exec_always_local (node_data n))"

definition groups_ok :: "compute_node list \<Rightarrow> (string, node_group) dict \<Rightarrow> bool" where
  "groups_ok nodes groups \<longleftrightarrow> (\<forall>g \<in> set (dvals groups). group_ok nodes g)"

lemma group_executor_Some:
  "group_executor exs eid mx = Some i \<Longrightarrow> i < length exs \<and> is_request_sufficient (ex_rc (exs ! i)) mx"
  by (auto simp: group_executor_def split: option.splits if_splits dest: first_index_Some)

lemma dvals_set_dset: "set (dvals (dset k v d)) \<subseteq> insert v (set (dvals d))"
  by (induction k v d rule: dset.induct) auto

lemma group_nodes_ok:
  assumes "group_nodes exs ns out groups = Inr (out', groups')" and "set ns \<subseteq> set nodes"
    and "assignment_ok exs nodes out" and "groups_ok nodes groups"
  shows "assignment_ok exs nodes out' \<and> groups_ok nodes groups'"
  using assms
proof (induction exs ns out groups rule: group_nodes.induct)
  case (2 exs n ns out groups)
  have sub: "set ns \<subseteq> set nodes" and n: "n \<in> set nodes" using "2.prems"(2) by simp_all
  consider (temp) "temp_executor_creator (node_data n)"
    | (loc) "\<not> temp_executor_creator (node_data n)" "exec_always_local (node_data n)"
    | (grp) "\<not> temp_executor_creator (node_data n)" "\<not> exec_always_local (node_data n)" by blast
  then show ?case
  proof cases
    case temp
    have "assignment_ok exs nodes (dset (node_id n) Own_executor out)"
      using "2.prems"(3) n temp by (auto simp: assignment_ok_def)
    with "2.IH"(1)[OF temp _ sub] "2.prems"(1,4) temp show ?thesis by simp
  next
    case loc
    then obtain i where i: "first_index ex_is_local exs = Some i"
      using "2.prems"(1) by (cases "first_index ex_is_local exs") auto
    have "assignment_ok exs nodes (dset (node_id n) (On_executor i) out)"
      using "2.prems"(3) n loc first_index_Some[OF i] by (auto simp: assignment_ok_def)
    with "2.IH"(2)[OF loc i _ sub] "2.prems"(1,4) loc i show ?thesis by simp
  next
    case grp
    let ?g = "vExecId (node_data n)" and ?old = "case dget groups (vExecId (node_data n)) of None \<Rightarrow> [] | Some l \<Rightarrow> l"
    have "group_ok nodes ?old"
      using "2.prems"(4) by (cases "dget groups ?g") (auto simp: groups_ok_def group_ok_def dest: dget_in_dvals)
    then have new: "group_ok nodes (?old @ [(n, node_resource n)])" using n grp by (simp add: group_ok_def)
    have "groups_ok nodes (dset ?g (?old @ [(n, node_resource n)]) groups)"
      unfolding groups_ok_def
    proof
      fix g
      assume "g \<in> set (dvals (dset ?g (?old @ [(n, node_resource n)]) groups))"
      then have "g = ?old @ [(n, node_resource n)] \<or> g \<in> set (dvals groups)" using dvals_set_dset by fast
      with new "2.prems"(4) show "group_ok nodes g" unfolding groups_ok_def by metis
    qed
    with "2.IH"(3)[OF grp refl refl _ sub "2.prems"(3)] "2.prems"(1) grp show ?thesis by (simp add: Let_def)
  qed
qed simp

lemma assign_group_ok:
  assumes "assignment_ok exs nodes out" and "groups_ok nodes [(eid, g)]"
  shows "assignment_ok exs nodes (assign_group exs (eid, g) out)"
proof (cases "sort_group g")
  case Nil
  with assms(1) show ?thesis by (simp add: assign_group_def)
next
  case (Cons p rest)
  obtain n0 mx where p: "p = (n0, mx)" by (cases p)
  show ?thesis
  proof (cases "group_executor exs eid mx")
    case None
    with Cons p assms(1) show ?thesis by (simp add: assign_group_def)
  next
    case (Some i)
    note i = group_executor_Some[OF Some]
    have e: "assign_group exs (eid, g) out = assign_all i mx (sort_group g) (ex_rc (exs ! i)) out"
      using Cons p Some by (simp add: assign_group_def)
    show ?thesis
      unfolding assignment_ok_def
    proof (intro allI impI)
      fix k a
      assume "dget (assign_group exs (eid, g) out) k = Some a"
      with e have "dget out k = Some a \<or> (a = On_executor i \<and> k \<in> (\<lambda>p. node_id (fst p)) ` set (sort_group g))"
        using assign_all_get by metis
      then show "\<exists>n \<in> set nodes. node_id n = k \<and> (case a of
          Own_executor \<Rightarrow> temp_executor_creator (node_data n)
        | On_executor i \<Rightarrow> (exec_always_local (node_data n) \<and> i < length exs \<and> ex_is_local (exs ! i)) \<or>
            (\<not> temp_executor_creator (node_data n) \<and> \<not> exec_always_local (node_data n) \<and> fits exs n i))"
      proof
        assume "dget out k = Some a"
        with assms(1) show ?thesis by (simp add: assignment_ok_def)
      next
        assume a: "a = On_executor i \<and> k \<in> (\<lambda>p. node_id (fst p)) ` set (sort_group g)"
        then obtain n r where nr: "(n, r) \<in> set g" "node_id n = k" by auto
        with assms(2) have n: "n \<in> set nodes" "r = node_resource n" "\<not> temp_executor_creator (node_data n)"
          "\<not> exec_always_local (node_data n)" by (auto simp: groups_ok_def group_ok_def)
        have "sort_key_of (n, r) \<le> sort_key_of p" by (rule sort_group_max[OF Cons nr(1)])
        then have "sort_key_of (n, node_resource n) \<le> sort_key_of (n, mx)" by (simp add: n p sort_key_of_def Let_def)
        with i have "fits exs n i" by (auto simp: fits_def)
        with a n nr(2) show ?thesis by auto
      qed
    qed
  qed
qed

lemma assign_groups_ok:
  "assignment_ok exs nodes out \<Longrightarrow> groups_ok nodes groups \<Longrightarrow> assignment_ok exs nodes (fold (assign_group exs) groups out)"
proof (induction groups arbitrary: out)
  case (Cons eg groups)
  obtain eid g where eg: "eg = (eid, g)" by (cases eg)
  from Cons.prems(2) have "groups_ok nodes [(eid, g)]" "groups_ok nodes groups" by (simp_all add: eg groups_ok_def)
  with Cons.IH assign_group_ok[OF Cons.prems(1)] show ?case by (simp add: eg)
qed simp

lemma assign_node_executor_ok:
  assumes "assign_node_executor nodes exs = Inr a"
  shows "assignment_ok exs nodes a"
proof (cases "nodes = []")
  case True
  with assms show ?thesis by (simp add: assign_node_executor_def assignment_ok_def)
next
  case False
  with assms obtain out groups where g: "group_nodes exs nodes [] [] = Inr (out, groups)"
    "a = fold (assign_group exs) groups out"
    by (auto simp: assign_node_executor_def res_simps Let_def)
  have "assignment_ok exs nodes out \<and> groups_ok nodes groups"
    by (rule group_nodes_ok[OF g(1)]) (simp_all add: assignment_ok_def groups_ok_def)
  with assign_groups_ok g(2) show ?thesis by blast
qed

lemma dget_dict_by_Some: "dget (dict_by node_id (\<lambda>n. n) ns) k = Some n \<Longrightarrow> n \<in> set ns \<and> node_id n = k"
proof -
  have "dget (dupdate m (map (\<lambda>x. (node_id x, x)) ns)) k = Some n \<Longrightarrow> dget m k = Some n \<or> n \<in> set ns \<and> node_id n = k" for m
  proof (induction ns arbitrary: m)
    case (Cons x ns)
    from Cons.IH[of "dset (node_id x) x m"] Cons.prems show ?case by (auto split: if_splits)
  qed simp
  from this[of "[]"] show "dget (dict_by node_id (\<lambda>n. n) ns) k = Some n \<Longrightarrow> n \<in> set ns \<and> node_id n = k"
    by (simp add: dict_by_def)
qed

lemma filter_node_simps [simp]:
  "set (fst (filter_node_cant_schedule nodes inp)) = {n \<in> set nodes.
     inputs_complete n (case dget inp (node_id n) of None \<Rightarrow> [] | Some d \<Rightarrow> dkeys d)}"
  by (simp add: filter_node_cant_schedule_def Let_def)

lemma get_nodes_can_schedule_ok:
  assumes "get_nodes_can_schedule nodes inp exs = Inr (can, a)"
  shows "dict_ok can" and "k \<in> set (dkeys can) \<Longrightarrow> \<exists>n \<in> set nodes. dget can k = Some n \<and> node_id n = k \<and>
    inputs_complete n (case dget inp k of None \<Rightarrow> [] | Some d \<Rightarrow> dkeys d) \<and> dmem k a"
    and "assignment_ok exs nodes a"
proof -
  from assms have a: "assign_node_executor (fst (filter_node_cant_schedule nodes inp)) exs = Inr a"
    and c: "can = dict_by node_id (\<lambda>n. n) (filter (\<lambda>n. dmem (node_id n) a) (fst (filter_node_cant_schedule nodes inp)))"
    by (auto simp: get_nodes_can_schedule_def res_simps Let_def)
  show "dict_ok can" by (simp add: c dict_by_ok)
  show "\<exists>n \<in> set nodes. dget can k = Some n \<and> node_id n = k \<and>
    inputs_complete n (case dget inp k of None \<Rightarrow> [] | Some d \<Rightarrow> dkeys d) \<and> dmem k a" if k: "k \<in> set (dkeys can)"
  proof -
    obtain n where n: "dget can k = Some n" using k dget_None_iff[of can k] by auto
    with dget_dict_by_Some[OF n[unfolded c]] show ?thesis by auto
  qed
  show "assignment_ok exs nodes a"
    using assign_node_executor_ok[OF a] by (fastforce simp: assignment_ok_def)
qed

text \<open>
  Nodes that only fit an executor whose resources are taken are not left waiting: when no node can be
  placed the assignment raises.
\<close>

lemma assign_raises_when_busy:
  assumes "nodes \<noteq> []" and "\<forall>n \<in> set nodes. \<not> temp_executor_creator (node_data n) \<and> \<not> exec_always_local (node_data n)"
    and "\<forall>n \<in> set nodes. \<forall>e \<in> set exs. \<not> is_request_sufficient (ex_rc e) (node_resource n)"
  shows "assign_node_executor nodes exs = Inl AssertionError"
proof -
  have "\<exists>groups'. group_nodes exs ns [] groups = Inr ([], groups')" if "set ns \<subseteq> set nodes" for ns groups
    using that
  proof (induction ns arbitrary: groups)
    case (Cons n ns)
    have "\<not> temp_executor_creator (node_data n)" "\<not> exec_always_local (node_data n)" using Cons.prems assms(2) by auto
    with Cons show ?case by (simp add: Let_def)
  qed simp
  then obtain groups where g: "group_nodes exs nodes [] [] = Inr ([], groups)" by blast
  have ok: "groups_ok nodes groups"
    using group_nodes_ok[OF g, of nodes] by (simp add: assignment_ok_def groups_ok_def)
  have none: "assign_group exs eg [] = []" if "eg \<in> set groups" for eg
  proof (cases "sort_group (snd eg)")
    case Nil
    then show ?thesis by (cases eg) (simp add: assign_group_def)
  next
    case (Cons p rest)
    obtain n0 mx where p: "p = (n0, mx)" by (cases p)
    have "(n0, mx) \<in> set (snd eg)" using Cons p by (metis list.set_intros(1) set_sort_group)
    moreover have "snd eg \<in> set (dvals groups)" using that by (auto simp: dvals_def)
    ultimately have "n0 \<in> set nodes" "mx = node_resource n0" using ok by (auto simp: groups_ok_def group_ok_def)
    with assms(3) have ns: "\<forall>e \<in> set exs. \<not> is_request_sufficient (ex_rc e) mx" by auto
    have "group_executor exs (fst eg) mx = None"
    proof (cases "group_executor exs (fst eg) mx")
      case (Some i)
      with group_executor_Some[OF Some] ns show ?thesis by auto
    qed
    with Cons p show ?thesis by (cases eg) (simp add: assign_group_def)
  qed
  have "fold (assign_group exs) groups [] = []" using none by (induction groups) auto
  with assms(1) g show ?thesis by (simp add: assign_node_executor_def)
qed

end
