(* ===== verification/FlowSched.thy ===== *)
theory FlowSched
  imports FlowExec
begin

text \<open>
  The scheduler of the compute flow: \<open>SimpleScheduler\<close> of \<open>apps/cflow/schedulers/simple.py\<close>. A run is the
  coroutine \<open>_schedule\<close>, cut at its only wait: \<open>run_start\<close> is the code up to the loop, and \<open>run_round\<close> one
  iteration, given the tasks that \<open>asyncio.wait\<close> reports as done (in the order of its set), their results,
  and the resources the executors have at that moment. The lemmas: every node that is started has its
  required inputs, no node runs twice at the same time and the assertions of the handle manager never
  fire, whatever the results; and what the loop does to a task that is not done in the round in which
  its neighbours are.
\<close>

subsection \<open>Flows and inputs of the next nodes\<close>

record flow_model =
  fm_nodes :: "(string, compute_node) dict"
  fm_runtime :: "compute_data internals"

text \<open>\<open>handle.split("-")[1]\<close>\<close>

definition handle_suffix :: "string \<Rightarrow> string res" where
  "handle_suffix h = (case split_on (CHR ''-'') h of (_ # b # _) \<Rightarrow> Inr b | _ \<Rightarrow> Inl IndexError)"

definition inp_handle_by_name :: "compute_node \<Rightarrow> string \<Rightarrow> anno_handle res" where
  "inp_handle_by_name n k = lookup (dict_by handle_name (\<lambda>h. h) (inp_handles (node_data n))) k"

text \<open>The inputs collected for a node so far; an entry of a special handle is always a dict.\<close>

definition dict_entry :: "'v input option \<Rightarrow> (string, handle) dict" where
  "dict_entry v = (case v of Some (Dict_input d) \<Rightarrow> d | _ \<Rightarrow> [])"

definition next_input :: "anno_handle \<Rightarrow> string \<Rightarrow> handle \<Rightarrow> string \<Rightarrow> (string, 'v input) dict \<Rightarrow> 'v input" where
  "next_input h sname out tname cur =
     (if handle_type h = ''handledictsource'' then Dict_input (dset sname out (dict_entry (dget cur tname)))
      else Handle_input out)"

definition inputs_so_far :: "'v node_inputs \<Rightarrow> string \<Rightarrow> (string, 'v input) dict" where
  "inputs_so_far acc n = (case dget acc n of None \<Rightarrow> [] | Some d \<Rightarrow> d)"

definition add_next_input :: "(string, handle) dict \<Rightarrow> compute_node \<times> string option \<times> string option
    \<Rightarrow> 'v node_inputs \<Rightarrow> 'v node_inputs res" where
  "add_next_input output t acc = (case t of (n, sh, th) \<Rightarrow>
     (case (sh, th) of
        (Some s, Some t) \<Rightarrow>
          rbind (handle_suffix s) (\<lambda>sname. rbind (handle_suffix t) (\<lambda>tname.
            (case dget output sname of
               None \<Rightarrow> Inr acc
             | Some out \<Rightarrow>
                 rbind (inp_handle_by_name n tname) (\<lambda>h.
                   let cur = inputs_so_far acc (node_id n)
                   in Inr (dset (node_id n) (dset tname (next_input h sname out tname cur) cur) acc)))))
      | _ \<Rightarrow> Inl AssertionError))"

definition get_next_node_inputs :: "flow_model \<Rightarrow> (string, (string, handle) dict) dict \<Rightarrow> 'v node_inputs res" where
  "get_next_node_inputs flow outputs =
     rfold (\<lambda>(n, output) acc. rbind (get_target_node_and_handles (fm_runtime flow) n)
       (\<lambda>ts. rfold (add_next_input output) ts acc)) outputs []"

text \<open>\<open>get_node_inputs_sched_in_future\<close>: of the nodes that cannot be started, those behind the next ones.\<close>

definition sched_in_future :: "flow_model \<Rightarrow> string set \<Rightarrow> (string, (string, handle) dict) dict \<Rightarrow> compute_node
    \<Rightarrow> (string, (string, handle) dict) dict \<Rightarrow> (string, (string, handle) dict) dict res" where
  "sched_in_future flow next_ids node_inputs n acc =
     rbind (get_all_parent_nodes (fm_runtime flow) (node_id n)) (\<lambda>ps.
       Inr (if \<exists>p \<in> set ps. node_id p \<in> next_ids
            then dset (node_id n) (case dget node_inputs (node_id n) of None \<Rightarrow> [] | Some d \<Rightarrow> d) acc else acc))"

definition get_node_inputs_sched_in_future :: "flow_model \<Rightarrow> string list \<Rightarrow> compute_node list
    \<Rightarrow> (string, (string, handle) dict) dict \<Rightarrow> (string, (string, handle) dict) dict res" where
  "get_node_inputs_sched_in_future flow next_ids wont node_inputs =
     rfold (sched_in_future flow (set next_ids) node_inputs) wont []"

subsection \<open>A run\<close>

text \<open>
  What a task of \<open>_schedule_node\<close> ends with: the outputs of its node, a failure that was reported, or an
  exception from the reporting itself.
\<close>

datatype task_result = Success "(string, handle) dict option" | Failure | Crash pyerr

text \<open>
  \<open>tasks\<close>: the nodes whose tasks are in the list the loop waits for; \<open>can\<close>: the local variable
  \<open>nodes_can_schedule\<close>; \<open>waiting\<close>: \<open>state.wait_node_inputs\<close>; \<open>starts\<close>: every task that was created, with the
  inputs it was given.
\<close>

record 'v run =
  mgr :: "'v manager"
  tasks :: "string list"
  can :: "(string, compute_node) dict"
  waiting :: "'v node_inputs"
  starts :: "(string \<times> (string, handle) dict) list"

definition fetch_nodes_of :: "flow_model \<Rightarrow> string list \<Rightarrow> compute_node list res" where
  "fetch_nodes_of flow ids = rmap_list (lookup (fm_nodes flow)) ids"

text \<open>Creating the tasks of the nodes that can be started, in their order.\<close>

definition start_tasks :: "(string, compute_node) dict \<Rightarrow> 'v run \<Rightarrow> 'v run" where
  "start_tasks cs r = r\<lparr>tasks := tasks r @ dkeys cs, can := cs,
     starts := starts r @ map (\<lambda>n. (n, get_node_inputs (mgr r) n [])) (dkeys cs)\<rparr>"

text \<open>
  The code before the loop; \<open>w\<close> are the inputs that were queued before the task ran for the first time.
  \<open>None\<close>: no node can be scheduled and the run is over.
\<close>

definition run_start :: "(nat \<Rightarrow> string) \<Rightarrow> flow_model \<Rightarrow> executor list \<Rightarrow> 'v node_inputs \<Rightarrow> 'v node_inputs
    \<Rightarrow> 'v store \<Rightarrow> 'v run option res" where
  "run_start uuid flow exs inputs w s =
     rbind (fetch_nodes_of flow (dkeys inputs)) (\<lambda>nodes.
       let r = \<lparr>mgr = manager_init uuid inputs s, tasks = [], can = [], waiting = w, starts = []\<rparr>
       in rbind (get_nodes_can_schedule nodes inputs exs) (\<lambda>(cs, _).
         Inr (if cs = [] then None else Some (start_tasks cs r))))"

text \<open>The outputs of the tasks that are done: the exceptions of tasks, the lookup of the node, and its required outputs.\<close>

definition outputs_complete :: "compute_node \<Rightarrow> string list \<Rightarrow> bool" where
  "outputs_complete n given \<longleftrightarrow>
     (\<forall>h \<in> set (out_handles (node_data n)). handle_optional h \<or> handle_name h \<in> set given)"

definition collect_output :: "(string, compute_node) dict \<Rightarrow> string \<times> task_result
    \<Rightarrow> (string, (string, handle) dict) dict \<Rightarrow> (string, (string, handle) dict) dict res" where
  "collect_output cs d outs = (case d of (n, result) \<Rightarrow> (case result of
       Crash e \<Rightarrow> Inl e
     | Failure \<Rightarrow> Inr outs
     | Success out \<Rightarrow>
         let o' = (case out of None \<Rightarrow> [] | Some x \<Rightarrow> x)
         in rbind (lookup cs n) (\<lambda>node.
           Inr (if outputs_complete node (dkeys o') then dset n o' outs else outs))))"

definition collect_outputs :: "(string, compute_node) dict \<Rightarrow> (string \<times> task_result) list
    \<Rightarrow> (string, (string, handle) dict) dict res" where
  "collect_outputs cs finished = rfold (collect_output cs) finished []"

text \<open>
  The inputs that arrived meanwhile. Removing an entry that is also in the table from the dict that is
  being iterated makes the next step of the iteration raise.
\<close>

definition take_waiting :: "(nat \<Rightarrow> string) \<Rightarrow> ('v run, unit) act" where
  "take_waiting uuid r =
     (let w = waiting r; r' = r\<lparr>waiting := []\<rparr> in
      if \<exists>n \<in> set (dkeys w). has_node_inputs (mgr r') n then (Inl RuntimeError, r')
      else (case force_add_new_inputs uuid w (mgr r') of (x, m) \<Rightarrow> (x, r'\<lparr>mgr := m\<rparr>)))"

definition on_mgr :: "('v manager, 'a) act \<Rightarrow> ('v run, 'a) act" where
  "on_mgr f r = (case f (mgr r) of (x, m) \<Rightarrow> (x, r\<lparr>mgr := m\<rparr>))"

text \<open>The second half of an iteration: start what can be started. The result says whether the loop goes on.\<close>

definition schedule_next_nodes :: "flow_model \<Rightarrow> executor list \<Rightarrow> string list \<Rightarrow> ('v run, bool) act" where
  "schedule_next_nodes flow exs pending r =
     (case rbind (fetch_nodes_of flow (filter (\<lambda>n. n \<notin> set pending) (get_current_node_ids (mgr r))))
        (\<lambda>nodes. get_nodes_can_schedule nodes (input_handles (mgr r)) exs) of
        Inl e \<Rightarrow> (Inl e, r)
      | Inr (cs, _) \<Rightarrow>
          if cs = [] then (Inr False, r\<lparr>can := [], tasks := pending\<rparr>)
          else (Inr True, start_tasks cs (r\<lparr>tasks := pending\<rparr>)))"

definition pending_of :: "(string \<times> task_result) list \<Rightarrow> 'v run \<Rightarrow> string list" where
  "pending_of finished r = filter (\<lambda>n. n \<notin> fst ` set finished) (tasks r)"

definition run_round :: "(string \<Rightarrow> unit res) \<Rightarrow> (nat \<Rightarrow> string) \<Rightarrow> flow_model \<Rightarrow> executor list
    \<Rightarrow> (string \<times> task_result) list \<Rightarrow> ('v run, bool) act" where
  "run_round rpc uuid flow exs finished r =
     (case rbind (collect_outputs (can r) finished) (get_next_node_inputs flow) of
        Inl e \<Rightarrow> (Inl e, r)
      | Inr new \<Rightarrow>
          abind (on_mgr (remove_and_merge rpc uuid (map fst finished) new)) (\<lambda>_.
          abind (take_waiting uuid) (\<lambda>_.
            schedule_next_nodes flow exs (pending_of finished r))) r)"

text \<open>After the loop every handle is released, as far as \<open>release_all_handles\<close> does.\<close>

definition run_end :: "(string \<Rightarrow> unit res) \<Rightarrow> ('v run, unit) act" where
  "run_end rpc = on_mgr (release_all_handles rpc)"

text \<open>A shutdown is seen before any result: the pending tasks are cancelled and the loop ends.\<close>

definition run_shutdown :: "(string \<Rightarrow> unit res) \<Rightarrow> ('v run, unit) act" where
  "run_shutdown rpc r = run_end rpc (r\<lparr>tasks := []\<rparr>)"

subsubsection \<open>One task\<close>

text \<open>
  \<open>_schedule_node\<close>: the task enters its executor with the resources of the node, runs, and leaves.
  \<open>report\<close> is the outcome of telling the front end about an exception; every exception before it, also of
  entering, is caught.
\<close>

definition task_enter :: "assigned \<Rightarrow> compute_node \<Rightarrow> rc_state list \<Rightarrow> rc_state list res" where
  "task_enter a n ss = (case a of
       Own_executor \<Rightarrow> Inr ss
     | On_executor i \<Rightarrow> rbind (request_enter (get_request_resource_desp n) (ss ! i)) (\<lambda>s. Inr (ss[i := s])))"

definition task_leave :: "assigned \<Rightarrow> compute_node \<Rightarrow> rc_state list \<Rightarrow> rc_state list" where
  "task_leave a n ss = (case a of
       Own_executor \<Rightarrow> ss
     | On_executor i \<Rightarrow> ss[i := request_leave (get_request_resource_desp n) (ss ! i)])"

definition task_result_of :: "unit res \<Rightarrow> (string, handle) dict option res \<Rightarrow> task_result" where
  "task_result_of report outcome = (case outcome of
       Inr out \<Rightarrow> Success out
     | Inl _ \<Rightarrow> (case report of Inl e \<Rightarrow> Crash e | Inr _ \<Rightarrow> Failure))"

definition schedule_node_task :: "unit res \<Rightarrow> assigned \<Rightarrow> compute_node \<Rightarrow> (string, handle) dict option res
    \<Rightarrow> rc_state list \<Rightarrow> task_result \<times> rc_state list" where
  "schedule_node_task report a n outcome ss = (case task_enter a n ss of
       Inl e \<Rightarrow> (task_result_of report (Inl e), ss)
     | Inr ss' \<Rightarrow> (task_result_of report outcome, task_leave a n ss'))"

subsubsection \<open>The scheduler object\<close>

text \<open>
  \<open>sched_state\<close> is \<open>self._state\<close>, here the inputs queued in it; \<open>created\<close> the inputs of the tasks of
  \<open>_schedule\<close> that were created and have not run; \<open>running\<close> the runs in their loop. The first step of a
  task clears \<open>self._state\<close> in its \<open>finally\<close>, whether or not it goes on.
\<close>

record 'v scheduler =
  sched_state :: "'v node_inputs option"
  created :: "'v node_inputs list"
  running :: "'v run list"

definition schedule :: "'v node_inputs \<Rightarrow> 'v scheduler \<Rightarrow> 'v scheduler" where
  "schedule inputs sc = (case sched_state sc of
       Some w \<Rightarrow> sc\<lparr>sched_state := Some (dupdate w inputs)\<rparr>
     | None \<Rightarrow> sc\<lparr>sched_state := Some [], created := created sc @ [inputs]\<rparr>)"

definition check_compute :: "flow_model \<Rightarrow> string \<Rightarrow> unit res" where
  "check_compute flow n = rbind (rassert (dmem n (fm_nodes flow)))
     (\<lambda>_. rbind (lookup (fm_nodes flow) n) (\<lambda>node. rassert (nType (node_data node) = COMPUTE)))"

definition schedule_nodes :: "flow_model \<Rightarrow> 'v node_inputs \<Rightarrow> 'v scheduler \<Rightarrow> 'v scheduler res" where
  "schedule_nodes flow inputs sc =
     rbind (rmap_list (check_compute flow) (dkeys inputs)) (\<lambda>_. Inr (schedule inputs sc))"

definition schedule_node :: "flow_model \<Rightarrow> string \<Rightarrow> (string, 'v input) dict \<Rightarrow> 'v scheduler \<Rightarrow> 'v scheduler res" where
  "schedule_node flow n inputs = schedule_nodes flow [(n, inputs)]"

text \<open>\<open>schedule_next\<close> passes the outputs it is given on as the outputs by node.\<close>

definition schedule_next :: "flow_model \<Rightarrow> string \<Rightarrow> (string, (string, handle) dict) dict \<Rightarrow> 'v scheduler
    \<Rightarrow> 'v scheduler res" where
  "schedule_next flow n outputs sc =
     rbind (lookup (fm_nodes flow) n) (\<lambda>node. rbind (rassert (nType (node_data node) = COMPUTE)) (\<lambda>_.
       rbind (get_next_node_inputs flow outputs) (\<lambda>inputs. Inr (schedule inputs sc))))"

text \<open>\<open>run_sub_graph\<close>: the nodes of the connected graph without sources start, with no inputs.\<close>

definition root_inputs :: "flow_model \<Rightarrow> compute_node list \<Rightarrow> 'v node_inputs res" where
  "root_inputs flow nodes = rfold (\<lambda>n acc. rbind (get_source_node_and_handles (fm_runtime flow) (node_id n))
     (\<lambda>ss. Inr (if ss = [] then dset (node_id n) [] acc else acc))) nodes []"

definition run_sub_graph :: "flow_model \<Rightarrow> string \<Rightarrow> 'v scheduler \<Rightarrow> 'v scheduler res" where
  "run_sub_graph flow n sc =
     rbind (lookup (fm_nodes flow) n) (\<lambda>node. rbind (rassert (nType (node_data node) = COMPUTE)) (\<lambda>_.
       rbind (get_all_nodes_in_connected_graph (fm_runtime flow) node) (\<lambda>all.
         rbind (root_inputs flow all) (\<lambda>inputs. Inr (schedule inputs sc)))))"

definition task_first_step :: "(nat \<Rightarrow> string) \<Rightarrow> flow_model \<Rightarrow> executor list \<Rightarrow> 'v store \<Rightarrow> 'v scheduler \<Rightarrow> 'v scheduler" where
  "task_first_step uuid flow exs s sc = (case created sc of
       [] \<Rightarrow> sc
     | inputs # rest \<Rightarrow>
         sc\<lparr>sched_state := None, created := rest,
            running := running sc @ (case sched_state sc of
               None \<Rightarrow> []
             | Some w \<Rightarrow> (case run_start uuid flow exs inputs w s of Inr (Some r) \<Rightarrow> [r] | _ \<Rightarrow> []))\<rparr>)"

text \<open>The end of a run clears \<open>self._state\<close> too, whose ever it is.\<close>

definition run_finished :: "nat \<Rightarrow> 'v scheduler \<Rightarrow> 'v scheduler" where
  "run_finished i sc = sc\<lparr>sched_state := None, running := take i (running sc) @ drop (Suc i) (running sc)\<rparr>"

text \<open>
  So inputs that are scheduled in the moment before another run ends are lost: the assertion that there
  is a state fails in the new task.
\<close>

lemma schedule_before_end_lost:
  assumes "sched_state sc = None" and "created sc = []"
  shows "task_first_step uuid flow exs s (run_finished i (schedule inputs sc)) =
    sc\<lparr>sched_state := None, created := [], running := take i (running sc) @ drop (Suc i) (running sc)\<rparr>"
  using assms by (simp add: schedule_def run_finished_def task_first_step_def)

text \<open>A call while a run is in its loop is not queued for that run: it starts another one beside it.\<close>

lemma schedule_during_run:
  assumes "created sc = [inputs]" and "sched_state sc = Some w"
    and "run_start uuid flow exs inputs w s = Inr (Some r)"
  shows "schedule later (task_first_step uuid flow exs s sc) =
    \<lparr>sched_state = Some [], created = [later], running = running sc @ [r]\<rparr>"
  using assms by (simp add: schedule_def task_first_step_def)

subsection \<open>Invariants of a run\<close>

subsubsection \<open>The keys of the handle table\<close>

lemma merge_loop_keys:
  "merge_loop new t rel = (t', rel') \<Longrightarrow>
   set (dkeys t') = set (dkeys t) \<union> set (dkeys new) \<and> (dict_ok t \<longrightarrow> dict_ok t')"
proof (induction new t rel rule: merge_loop.induct)
  case (2 n d ds t rel)
  then show ?case by (cases "dget t n") (auto simp: dict_simps split: if_splits)
qed simp

lemma release_unused_table: "release_unused rpc hs m = (x, m') \<Longrightarrow> input_handles m' = input_handles m"
  using release_loop_outcome[of rpc "h_id ` set (table_handles (input_handles m))" hs m x m']
  by (simp add: release_unused_loop)

lemma remove_and_merge_keys:
  assumes "remove_and_merge rpc uuid ids inputs m = (Inr u, m')" and "dict_ok (input_handles m)"
  shows "set (dkeys (input_handles m')) = (set (dkeys (input_handles m)) - set ids) \<union> set (dkeys inputs) \<and>
    dict_ok (input_handles m')"
proof -
  from assms(1) obtain rel m1 where rel: "remove_nodes_loop ids [] m = (Inr rel, m1)"
    and merge: "merge_new_inputs rpc uuid inputs rel m1 = (Inr u, m')"
    by (auto simp: remove_and_merge_def abind_Inr)
  note r = remove_nodes_loop_outcome[OF rel assms(2)]
  obtain new s where new: "node_inputs_to_handle uuid inputs (mstore m1) = (new, s)"
    by (cases "node_inputs_to_handle uuid inputs (mstore m1)")
  obtain t rel' where t: "merge_loop new (input_handles m1) rel = (t, rel')"
    by (cases "merge_loop new (input_handles m1) rel")
  have "input_handles m' = t"
    using merge new t release_unused_table[of rpc rel' "m1\<lparr>input_handles := t, mstore := s\<rparr>" "Inr u" m']
    by (simp add: merge_new_inputs_def)
  with merge_loop_keys[OF t] node_inputs_to_handle_outcome[OF new] r show ?thesis by auto
qed

lemma force_loop_keys:
  "force_loop ds m = (Inr u, m') \<Longrightarrow> set (dkeys (input_handles m')) = set (dkeys (input_handles m)) \<union> set (dkeys ds) \<and>
   (dict_ok (input_handles m) \<longrightarrow> dict_ok (input_handles m'))"
proof (induction ds m rule: force_loop.induct)
  case (2 n d ds m)
  then show ?case by (auto simp: dict_simps dmem_def split: if_splits)
qed simp

lemma take_waiting_keys:
  assumes "take_waiting uuid r = (Inr u, r')" and "dict_ok (input_handles (mgr r))"
  shows "set (dkeys (input_handles (mgr r))) \<subseteq> set (dkeys (input_handles (mgr r'))) \<and>
    dict_ok (input_handles (mgr r')) \<and> tasks r' = tasks r \<and> starts r' = starts r"
proof -
  obtain new s where new: "node_inputs_to_handle uuid (waiting r) (mstore (mgr r)) = (new, s)"
    by (cases "node_inputs_to_handle uuid (waiting r) (mstore (mgr r))")
  from assms(1) new obtain m where m: "force_loop new ((mgr r)\<lparr>mstore := s\<rparr>) = (Inr u, m)"
    and r': "r' = r\<lparr>waiting := [], mgr := m\<rparr>"
    by (auto simp: take_waiting_def Let_def force_add_new_inputs_def split: if_splits prod.splits)
  from force_loop_keys[OF m] assms(2) show ?thesis by (simp add: r')
qed

lemma remove_nodes_loop_ok:
  "distinct ids \<Longrightarrow> set ids \<subseteq> set (dkeys (input_handles m)) \<Longrightarrow> \<exists>rel' m'. remove_nodes_loop ids rel m = (Inr rel', m')"
proof (induction ids rel m rule: remove_nodes_loop.induct)
  case (2 n ns rel m)
  then obtain d where "dget (input_handles m) n = Some d"
    by (cases "dget (input_handles m) n") (auto simp: dget_None_iff)
  with 2 show ?case by (auto simp: dict_simps)
qed simp

subsubsection \<open>What is started\<close>

definition starts_ok :: "flow_model \<Rightarrow> 'v run \<Rightarrow> bool" where
  "starts_ok flow r \<longleftrightarrow> (\<forall>(n, d) \<in> set (starts r). \<exists>node. dget (fm_nodes flow) n = Some node \<and> inputs_complete node (dkeys d))"

definition run_ok :: "flow_model \<Rightarrow> 'v run \<Rightarrow> bool" where
  "run_ok flow r \<longleftrightarrow> dict_ok (input_handles (mgr r)) \<and> distinct (tasks r) \<and>
     set (tasks r) \<subseteq> set (dkeys (input_handles (mgr r))) \<and> starts_ok flow r"

lemma fetch_nodes_of_Inr:
  assumes "fetch_nodes_of flow ids = Inr nodes"
  shows "\<forall>n \<in> set nodes. \<exists>i \<in> set ids. dget (fm_nodes flow) i = Some n"
proof -
  have "length nodes = length ids" using assms by (simp add: fetch_nodes_of_def rmap_list_length)
  moreover have "i < length ids \<Longrightarrow> dget (fm_nodes flow) (ids ! i) = Some (nodes ! i)" for i
    using rmap_list_nth[of "lookup (fm_nodes flow)" ids nodes i] assms by (simp add: fetch_nodes_of_def)
  ultimately show ?thesis by (metis in_set_conv_nth nth_mem)
qed

text \<open>The nodes that can be started are nodes of the flow that were asked for and have their inputs.\<close>

lemma can_schedule_nodes:
  assumes "fetch_nodes_of flow ids = Inr nodes" and "get_nodes_can_schedule nodes inp exs = Inr (cs, a)"
    and "keyed node_id (fm_nodes flow)" and "k \<in> set (dkeys cs)"
  shows "k \<in> set ids \<and> (\<exists>node. dget (fm_nodes flow) k = Some node \<and> dget cs k = Some node \<and>
    inputs_complete node (case dget inp k of None \<Rightarrow> [] | Some d \<Rightarrow> dkeys d))"
proof -
  obtain n where n: "n \<in> set nodes" "dget cs k = Some n" "node_id n = k"
    "inputs_complete n (case dget inp k of None \<Rightarrow> [] | Some d \<Rightarrow> dkeys d)"
    using get_nodes_can_schedule_ok(2)[OF assms(2,4)] by blast
  from fetch_nodes_of_Inr[OF assms(1)] n(1) obtain i where i: "i \<in> set ids" "dget (fm_nodes flow) i = Some n" by blast
  with assms(3) n(3) have "i = k" by (auto simp: keyed_def)
  with i n show ?thesis by auto
qed

lemma start_tasks_ok:
  assumes "dict_ok (input_handles (mgr r))" and "distinct (tasks r)" and "set (tasks r) \<subseteq> set (dkeys (input_handles (mgr r)))"
    and "starts_ok flow r" and "dict_ok cs" and "set (dkeys cs) \<inter> set (tasks r) = {}"
    and "\<And>k. k \<in> set (dkeys cs) \<Longrightarrow> k \<in> set (dkeys (input_handles (mgr r))) \<and>
      (\<exists>node. dget (fm_nodes flow) k = Some node \<and> inputs_complete node (dkeys (get_node_inputs (mgr r) k [])))"
  shows "run_ok flow (start_tasks cs r)"
  using assms by (auto simp: run_ok_def start_tasks_def starts_ok_def dict_ok_def)

text \<open>The runs that occur: any inputs, any executors, any tasks done in any order with any results.\<close>

definition report_ok :: "(string \<times> task_result) list \<Rightarrow> 'v run \<Rightarrow> bool" where
  "report_ok finished r \<longleftrightarrow> distinct (map fst finished) \<and> fst ` set finished \<subseteq> set (tasks r)"

inductive flow_reach :: "(string \<Rightarrow> unit res) \<Rightarrow> (nat \<Rightarrow> string) \<Rightarrow> flow_model \<Rightarrow> 'v run \<Rightarrow> bool"
  for rpc uuid flow where
  start: "dict_ok inputs \<Longrightarrow> run_start uuid flow exs inputs w s = Inr (Some r) \<Longrightarrow> flow_reach rpc uuid flow r"
| round: "flow_reach rpc uuid flow r \<Longrightarrow> report_ok finished r \<Longrightarrow>
    run_round rpc uuid flow exs finished r = (Inr True, r') \<Longrightarrow> flow_reach rpc uuid flow r'"

lemma run_start_ok:
  assumes "dict_ok inputs" and "run_start uuid flow exs inputs w s = Inr (Some r)" and "keyed node_id (fm_nodes flow)"
  shows "run_ok flow r"
proof -
  let ?r = "\<lparr>mgr = manager_init uuid inputs s, tasks = [], can = [], waiting = w, starts = []\<rparr>"
  from assms(2) obtain nodes cs a where f: "fetch_nodes_of flow (dkeys inputs) = Inr nodes"
    and c: "get_nodes_can_schedule nodes inputs exs = Inr (cs, a)" and r: "r = start_tasks cs ?r"
    by (auto simp: run_start_def res_simps Let_def split: if_splits)
  obtain t s' where t: "node_inputs_to_handle uuid inputs s = (t, s')" by (cases "node_inputs_to_handle uuid inputs s")
  have m: "input_handles (manager_init uuid inputs s) = t" by (simp add: manager_init_def t)
  have keys: "dkeys t = dkeys inputs" using node_inputs_to_handle_outcome[OF t] by simp
  have inner: "dget t k = Some hs \<Longrightarrow> \<exists>d. dget inputs k = Some d \<and> dkeys hs = dkeys d" for k hs
    using t
  proof (induction inputs arbitrary: s t s')
    case (Cons p ds)
    obtain n d where p: "p = (n, d)" by (cases p)
    obtain hs1 s1 where h: "inputs_to_handles uuid n d s = (hs1, s1)" by (cases "inputs_to_handles uuid n d s")
    obtain t2 s2 where r2: "node_inputs_to_handle uuid ds s1 = (t2, s2)" by (cases "node_inputs_to_handle uuid ds s1")
    from Cons.prems p h r2 have t: "t = (n, hs1) # t2" by simp
    from Cons.IH[OF _ r2] Cons.prems(1) inputs_to_handles_outcome[OF h] show ?case by (auto simp: p t split: if_splits)
  qed simp
  show ?thesis
    unfolding r
  proof (rule start_tasks_ok)
    show "dict_ok cs" by (rule get_nodes_can_schedule_ok(1)[OF c])
    fix k assume k: "k \<in> set (dkeys cs)"
    from can_schedule_nodes[OF f c assms(3) k] obtain node where n: "k \<in> set (dkeys inputs)"
      "dget (fm_nodes flow) k = Some node" "inputs_complete node (case dget inputs k of None \<Rightarrow> [] | Some d \<Rightarrow> dkeys d)"
      by auto
    from n(1) keys obtain hs where hs: "dget t k = Some hs" using dget_None_iff[of t k] by auto
    from inner[OF hs] n hs keys show "k \<in> set (dkeys (input_handles (mgr ?r))) \<and>
      (\<exists>node. dget (fm_nodes flow) k = Some node \<and> inputs_complete node (dkeys (get_node_inputs (mgr ?r) k [])))"
      by (auto simp: m get_node_inputs_def)
  qed (use assms(1) keys in \<open>auto simp: m starts_ok_def dict_ok_def\<close>)
qed

lemma run_round_parts:
  assumes "run_round rpc uuid flow exs finished r = (Inr go, r')"
  obtains new m1 r2 where "rbind (collect_outputs (can r) finished) (get_next_node_inputs flow) = Inr new"
    and "remove_and_merge rpc uuid (map fst finished) new (mgr r) = (Inr (), m1)"
    and "take_waiting uuid (r\<lparr>mgr := m1\<rparr>) = (Inr (), r2)"
    and "schedule_next_nodes flow exs (pending_of finished r) r2 = (Inr go, r')"
  using assms by (auto simp: run_round_def abind_Inr on_mgr_def split: sum.splits prod.splits)

lemma schedule_next_nodes_parts:
  assumes "schedule_next_nodes flow exs pending r = (Inr go, r')"
  obtains nodes cs a where "fetch_nodes_of flow (filter (\<lambda>n. n \<notin> set pending) (get_current_node_ids (mgr r))) = Inr nodes"
    and "get_nodes_can_schedule nodes (input_handles (mgr r)) exs = Inr (cs, a)" and "go = (cs \<noteq> [])"
    and "r' = (if cs = [] then r\<lparr>can := [], tasks := pending\<rparr> else start_tasks cs (r\<lparr>tasks := pending\<rparr>))"
  using assms by (auto simp: schedule_next_nodes_def res_simps split: sum.splits prod.splits if_splits)

lemma run_round_ok:
  assumes ok: "run_ok flow r" and rep: "report_ok finished r" and kd: "keyed node_id (fm_nodes flow)"
    and run: "run_round rpc uuid flow exs finished r = (Inr True, r')"
  shows "run_ok flow r'"
  using run
proof (rule run_round_parts)
  fix new m1 r2
  assume m1: "remove_and_merge rpc uuid (map fst finished) new (mgr r) = (Inr (), m1)"
    and w: "take_waiting uuid (r\<lparr>mgr := m1\<rparr>) = (Inr (), r2)"
    and n: "schedule_next_nodes flow exs (pending_of finished r) r2 = (Inr True, r')"
  have d: "dict_ok (input_handles (mgr r))" using ok by (simp add: run_ok_def)
  note k1 = remove_and_merge_keys[OF m1 d]
  have k2: "set (dkeys (input_handles m1)) \<subseteq> set (dkeys (input_handles (mgr r2)))" "dict_ok (input_handles (mgr r2))"
    "starts r2 = starts r" using take_waiting_keys[OF w] k1 by simp_all
  have pend: "set (pending_of finished r) \<subseteq> set (dkeys (input_handles (mgr r2)))" "distinct (pending_of finished r)"
    using ok k1 k2(1) by (auto simp: run_ok_def pending_of_def)
  from n show ?thesis
  proof (rule schedule_next_nodes_parts)
    fix nodes cs a
    assume f: "fetch_nodes_of flow (filter (\<lambda>n. n \<notin> set (pending_of finished r)) (get_current_node_ids (mgr r2))) = Inr nodes"
      and c: "get_nodes_can_schedule nodes (input_handles (mgr r2)) exs = Inr (cs, a)" and go: "True = (cs \<noteq> [])"
      and r': "r' = (if cs = [] then r2\<lparr>can := [], tasks := pending_of finished r\<rparr>
        else start_tasks cs (r2\<lparr>tasks := pending_of finished r\<rparr>))"
    have r'': "r' = start_tasks cs (r2\<lparr>tasks := pending_of finished r\<rparr>)" using r' go by simp
    note cn = can_schedule_nodes[OF f c kd]
    show ?thesis
      unfolding r''
    proof (rule start_tasks_ok)
      show "dict_ok cs" by (rule get_nodes_can_schedule_ok(1)[OF c])
      show "set (dkeys cs) \<inter> set (tasks (r2\<lparr>tasks := pending_of finished r\<rparr>)) = {}" using cn by auto
      show "starts_ok flow (r2\<lparr>tasks := pending_of finished r\<rparr>)" using ok k2(3) by (simp add: run_ok_def starts_ok_def)
      fix k assume k: "k \<in> set (dkeys cs)"
      from cn[OF k] obtain node where nd: "k \<in> set (get_current_node_ids (mgr r2))" "dget (fm_nodes flow) k = Some node"
        "inputs_complete node (case dget (input_handles (mgr r2)) k of None \<Rightarrow> [] | Some d \<Rightarrow> dkeys d)"
        by auto
      then show "k \<in> set (dkeys (input_handles (mgr (r2\<lparr>tasks := pending_of finished r\<rparr>)))) \<and>
        (\<exists>node. dget (fm_nodes flow) k = Some node \<and>
          inputs_complete node (dkeys (get_node_inputs (mgr (r2\<lparr>tasks := pending_of finished r\<rparr>)) k [])))"
        by (cases "dget (input_handles (mgr r2)) k") (auto simp: get_current_node_ids_def get_node_inputs_def)
    qed (use k2 pend in auto)
  qed
qed

lemma flow_reach_ok: "flow_reach rpc uuid flow r \<Longrightarrow> keyed node_id (fm_nodes flow) \<Longrightarrow> run_ok flow r"
  by (induction rule: flow_reach.induct) (auto intro: run_start_ok run_round_ok)


subsection \<open>Tasks that end later than their neighbours\<close>

lemma collect_outputs_missing:
  assumes "(p, Success out) \<in> set finished" and "p \<notin> set (dkeys cs)" and "\<forall>n e. (n, Crash e) \<notin> set finished"
  shows "rfold (collect_output cs) finished outs = Inl KeyError"
  using assms
proof (induction finished arbitrary: outs)
  case (Cons d finished)
  obtain n x where d: "d = (n, x)" by (cases d)
  show ?case
  proof (cases "d = (p, Success out)")
    case True
    have "dget cs p = None" using Cons.prems(2) by (simp add: dget_None_iff)
    with True show ?thesis by (simp add: collect_output_def Let_def lookup_def)
  next
    case False
    with Cons have ih: "rfold (collect_output cs) finished o' = Inl KeyError" for o' by auto
    have "collect_output cs d outs = Inl KeyError \<or> (\<exists>o'. collect_output cs d outs = Inr o')"
      using Cons.prems(3) d
      by (cases x; cases "dget cs n") (auto simp: collect_output_def Let_def lookup_def)
    then show ?thesis using ih by auto
  qed
qed simp

lemma schedule_next_excludes:
  assumes "schedule_next_nodes flow exs pending r = (Inr go, r')" and "keyed node_id (fm_nodes flow)" and "p \<in> set pending"
  shows "p \<in> set (tasks r') \<and> p \<notin> set (dkeys (can r'))"
  using assms(1)
proof (rule schedule_next_nodes_parts)
  fix nodes cs a
  assume f: "fetch_nodes_of flow (filter (\<lambda>n. n \<notin> set pending) (get_current_node_ids (mgr r))) = Inr nodes"
    and c: "get_nodes_can_schedule nodes (input_handles (mgr r)) exs = Inr (cs, a)"
    and r': "r' = (if cs = [] then r\<lparr>can := [], tasks := pending\<rparr> else start_tasks cs (r\<lparr>tasks := pending\<rparr>))"
  have "p \<notin> set (dkeys cs)" using can_schedule_nodes[OF f c assms(2), of p] assms(3) by auto
  with assms(3) show ?thesis by (simp add: r' start_tasks_def)
qed

text \<open>
  C40: a task that is still running when another task of its run ends is lost. After that round its node
  is not among \<open>nodes_can_schedule\<close>; the loop may end while it is still running, and when it goes on the
  success of the task raises \<open>KeyError\<close> in the scheduler, so its outputs never reach another node.
\<close>

theorem parallel_results_lost:
  assumes "flow_reach rpc uuid flow r" and "keyed node_id (fm_nodes flow)"
    and "p \<in> set (tasks r)" and "p \<notin> fst ` set finished"
    and "run_round rpc uuid flow exs finished r = (Inr go, r')"
    and "(p, Success out) \<in> set finished'" and "\<forall>n e. (n, Crash e) \<notin> set finished'"
  shows "p \<in> set (tasks r') \<and> p \<notin> set (dkeys (can r')) \<and>
    run_round rpc uuid flow exs' finished' r' = (Inl KeyError, r')"
  using assms(5)
proof (rule run_round_parts)
  fix new m1 r2
  assume n: "schedule_next_nodes flow exs (pending_of finished r) r2 = (Inr go, r')"
  have "p \<in> set (pending_of finished r)" using assms(3,4) by (simp add: pending_of_def)
  from schedule_next_excludes[OF n assms(2) this] have p: "p \<in> set (tasks r')" "p \<notin> set (dkeys (can r'))" by simp_all
  have "collect_outputs (can r') finished' = Inl KeyError"
    unfolding collect_outputs_def by (rule collect_outputs_missing[OF assms(6) p(2) assms(7)])
  with p show ?thesis by (simp add: run_round_def)
qed

text \<open>
  A flow: \<open>a\<close> feeds \<open>b\<close> and \<open>c\<close>, which both feed the join \<open>d\<close>; \<open>b\<close> also feeds \<open>e\<close>. In \<open>join_flow\<close> the node \<open>e\<close>
  is missing.
\<close>

definition ex_node :: "string \<Rightarrow> string list \<Rightarrow> compute_node" where
  "ex_node n inps = \<lparr>node_id = n, node_data = \<lparr>nType = COMPUTE, vExecId = ''local'',
     vResource = \<lparr>rc_CPU = 1, rc_Mem = 0, rc_GPU = 0, rc_GPUMem = 0\<rparr>,
     inp_handles = map (\<lambda>k. \<lparr>handle_type = ''source'', handle_name = k, handle_optional = False\<rparr>) inps,
     out_handles = [\<lparr>handle_type = ''target'', handle_name = ''o'', handle_optional = False\<rparr>],
     temp_executor_creator = False, exec_always_local = False, resource_desp = None\<rparr>\<rparr>"

definition ex_link :: "string \<Rightarrow> string \<Rightarrow> string \<Rightarrow> flow_edge" where
  "ex_link a b k = \<lparr>edge_id = a @ ''-'' @ b, edge_source = a, edge_target = b,
     source_handle = Some ''out-o'', target_handle = Some (''inp-'' @ k)\<rparr>"

definition make_flow :: "compute_node list \<Rightarrow> flow_edge list \<Rightarrow> flow_model" where
  "make_flow ns es = \<lparr>fm_nodes = dict_by node_id (\<lambda>n. n) ns, fm_runtime = snd (set_from_nodes_edges ns es new_internals)\<rparr>"

definition join_flow :: flow_model where
  "join_flow = make_flow [ex_node ''a'' [], ex_node ''b'' [''x''], ex_node ''c'' [''x''], ex_node ''d'' [''x'', ''y'']]
     [ex_link ''a'' ''b'' ''x'', ex_link ''a'' ''c'' ''x'', ex_link ''b'' ''d'' ''x'', ex_link ''c'' ''d'' ''y'']"

definition fork_flow :: flow_model where
  "fork_flow = make_flow [ex_node ''a'' [], ex_node ''b'' [''x''], ex_node ''c'' [''x''], ex_node ''d'' [''x'', ''y''],
      ex_node ''e'' [''x'']]
     [ex_link ''a'' ''b'' ''x'', ex_link ''a'' ''c'' ''x'', ex_link ''b'' ''d'' ''x'', ex_link ''c'' ''d'' ''y'',
      ex_link ''b'' ''e'' ''x'']"

definition ex_executors :: "executor list" where
  "ex_executors = [\<lparr>ex_id = ''local'', ex_rc = \<lparr>rc_CPU = 8, rc_Mem = - 1, rc_GPU = 0, rc_GPUMem = - 1\<rparr>, ex_is_local = True\<rparr>]"

definition empty_store :: "nat store" where
  "empty_store = \<lparr>h_data = (\<lambda>_. Value_data 0), next_ref = 0, remote_released = []\<rparr>"

definition success :: "nat \<Rightarrow> task_result" where
  "success r = Success (Some [(''o'', \<lparr>h_ref = r, h_id = nat_str r, h_remote = False\<rparr>)])"

definition start_run :: "flow_model \<Rightarrow> nat run option" where
  "start_run flow = (case run_start (\<lambda>_. ''u'') flow ex_executors [(''a'', [])] [] empty_store of
     Inr (Some r) \<Rightarrow> Some r | _ \<Rightarrow> None)"

definition next_round :: "flow_model \<Rightarrow> (string \<times> task_result) list \<Rightarrow> nat run \<Rightarrow> bool res \<times> nat run" where
  "next_round flow finished r = run_round (\<lambda>_. Inr ()) (\<lambda>_. ''u'') flow ex_executors finished r"

definition fork_run :: "nat run" where
  "fork_run = snd (next_round fork_flow [(''a'', success 0)] (the (start_run fork_flow)))"

lemma fork_run_reached:
  "flow_reach (\<lambda>_. Inr ()) (\<lambda>_. ''u'') fork_flow fork_run \<and> keyed node_id (fm_nodes fork_flow)"
proof
  have "start_run fork_flow \<noteq> None" by code_simp
  then obtain r where r: "start_run fork_flow = Some r" by blast
  then have "run_start (\<lambda>_. ''u'') fork_flow ex_executors [(''a'', [])] [] empty_store = Inr (Some r)"
    by (auto simp: start_run_def split: sum.splits option.splits)
  then have reach: "flow_reach (\<lambda>_. Inr ()) (\<lambda>_. ''u'') fork_flow r" by (rule flow_reach.start[rotated]) simp
  have go: "fst (next_round fork_flow [(''a'', success 0)] (the (start_run fork_flow))) = Inr True" by code_simp
  have t: "tasks (the (start_run fork_flow)) = [''a'']" by code_simp
  from reach show "flow_reach (\<lambda>_. Inr ()) (\<lambda>_. ''u'') fork_flow fork_run"
  proof (rule flow_reach.round)
    show "report_ok [(''a'', success 0)] r" using t r by (simp add: report_ok_def)
    show "run_round (\<lambda>_. Inr ()) (\<lambda>_. ''u'') fork_flow ex_executors [(''a'', success 0)] r = (Inr True, fork_run)"
      using go r by (simp add: fork_run_def next_round_def prod_eq_iff)
  qed
  show "keyed node_id (fm_nodes fork_flow)"
    by (auto simp: fork_flow_def make_flow_def keyed_def dict_by_ok dest: dget_dict_by_Some)
qed


theorem parallel_results_lost_witness:
  "\<exists>r'. next_round fork_flow [(''b'', success 1)] fork_run = (Inr True, r') \<and>
     next_round fork_flow [(''c'', success 2)] r' = (Inl KeyError, r')"
proof -
  obtain x r' where run: "next_round fork_flow [(''b'', success 1)] fork_run = (x, r')"
    by (cases "next_round fork_flow [(''b'', success 1)] fork_run")
  have "fst (next_round fork_flow [(''b'', success 1)] fork_run) = Inr True" by code_simp
  with run have x: "x = Inr True" by simp
  have t: "''c'' \<in> set (tasks fork_run)" by code_simp
  have "run_round (\<lambda>_. Inr ()) (\<lambda>_. ''u'') fork_flow ex_executors [(''c'', success 2)] r' = (Inl KeyError, r')"
    using parallel_results_lost[OF conjunct1[OF fork_run_reached] conjunct2[OF fork_run_reached] t, of "[(''b'', success 1)]"
        ex_executors True r' _ "[(''c'', success 2)]" ex_executors] run x
    by (simp add: next_round_def success_def)
  with run x show ?thesis by (simp add: next_round_def)
qed

text \<open>In the flow without \<open>e\<close> the run ends as soon as \<open>b\<close> is done: the join \<open>d\<close> never runs, \<open>c\<close> is still running.\<close>

lemma join_never_runs:
  "let r = next_round join_flow [(''b'', success 1)] (snd (next_round join_flow [(''a'', success 0)] (the (start_run join_flow))))
   in fst r = Inr False \<and> tasks (snd r) = [''c''] \<and> ''d'' \<notin> fst ` set (starts (snd r))"
  by code_simp

subsection \<open>Inputs follow the edges\<close>

lemma target_handles_edges:
  assumes wf: "core_wf g" and ts: "get_target_node_and_handles g n = Inr ts"
  shows "(m, sh, th) \<in> set ts \<Longrightarrow> \<exists>e \<in> set (flow_edges g). edge_source e = n \<and> edge_target e = node_id m \<and>
      source_handle e = sh \<and> target_handle e = th"
    and "e \<in> set (flow_edges g) \<Longrightarrow> edge_source e = n \<Longrightarrow>
      \<exists>m. (m, source_handle e, target_handle e) \<in> set ts \<and> node_id m = edge_target e"
proof -
  from ts obtain l where l: "dget (node_id_to_targets g) n = Some l"
    and r: "rmap_list (\<lambda>idh. rbind (lookup (id_to_node g) (fst idh)) (\<lambda>m. Inr (m, snd idh))) l = Inr ts"
    by (auto simp: get_target_node_and_handles_def res_simps)
  have "n \<in> node_keys g" using wf l by (auto simp: core_wf_def tables_ok_def link_table_def dest: dget_Some_mem)
  then have sl: "set l = target_link ` {e \<in> set (flow_edges g). edge_source e = n}"
    using link_table_ends[of edge_source target_link "node_keys g" "edge_bag g" "node_id_to_targets g" n] wf l
    by (auto simp: core_wf_def tables_ok_def edge_bag_def)
  have len: "length ts = length l" using rmap_list_length[OF r] .
  have nth: "\<exists>m. dget (id_to_node g) (fst (l ! i)) = Some m \<and> ts ! i = (m, snd (l ! i))" if "i < length l" for i
    using rmap_list_nth[OF r that] by (auto simp: res_simps)
  have kd: "keyed node_id (id_to_node g)" using wf by (simp add: core_wf_def)
  show "\<exists>e \<in> set (flow_edges g). edge_source e = n \<and> edge_target e = node_id m \<and> source_handle e = sh \<and> target_handle e = th"
    if "(m, sh, th) \<in> set ts"
  proof -
    from that obtain i where i: "i < length l" "ts ! i = (m, sh, th)" using len by (metis in_set_conv_nth)
    with nth[OF i(1)] have "dget (id_to_node g) (fst (l ! i)) = Some m" "snd (l ! i) = (sh, th)" by auto
    moreover have "l ! i \<in> set l" using i(1) by simp
    ultimately show ?thesis using sl kd by (auto simp: target_link_def keyed_def)
  qed
  show "\<exists>m. (m, source_handle e, target_handle e) \<in> set ts \<and> node_id m = edge_target e"
    if "e \<in> set (flow_edges g)" "edge_source e = n"
  proof -
    have "target_link e \<in> set l" using that sl by blast
    then obtain i where i: "i < length l" "l ! i = target_link e" by (metis in_set_conv_nth)
    from nth[OF i(1)] obtain m where m: "dget (id_to_node g) (edge_target e) = Some m"
      "ts ! i = (m, source_handle e, target_handle e)" by (auto simp: i(2) target_link_def)
    then have "(m, source_handle e, target_handle e) \<in> set ts" using i(1) len by (metis nth_mem)
    with m(1) kd show ?thesis by (auto simp: keyed_def)
  qed
qed

text \<open>\<open>via_edge flow outputs n k s h\<close>: an edge leads to handle \<open>k\<close> of \<open>n\<close> from the output \<open>s\<close> of a node that produced \<open>h\<close> there.\<close>

definition via_edge :: "flow_model \<Rightarrow> (string, (string, handle) dict) dict \<Rightarrow> string \<Rightarrow> string \<Rightarrow> string \<Rightarrow> handle \<Rightarrow> bool" where
  "via_edge flow outputs n k s h \<longleftrightarrow> (\<exists>e \<in> set (flow_edges (fm_runtime flow)). \<exists>sh th out.
     edge_target e = n \<and> source_handle e = Some sh \<and> target_handle e = Some th \<and>
     handle_suffix sh = Inr s \<and> handle_suffix th = Inr k \<and>
     (edge_source e, out) \<in> set outputs \<and> dget out s = Some h)"

definition input_via :: "flow_model \<Rightarrow> (string, (string, handle) dict) dict \<Rightarrow> string \<Rightarrow> string \<Rightarrow> 'v input \<Rightarrow> bool" where
  "input_via flow outputs n k v = (case v of
       Handle_input h \<Rightarrow> \<exists>s. via_edge flow outputs n k s h
     | Dict_input d \<Rightarrow> \<forall>s h. dget d s = Some h \<longrightarrow> via_edge flow outputs n k s h
     | Raw x \<Rightarrow> False)"

definition inputs_via :: "flow_model \<Rightarrow> (string, (string, handle) dict) dict \<Rightarrow> 'v node_inputs \<Rightarrow> bool" where
  "inputs_via flow outputs acc \<longleftrightarrow> (\<forall>n d k v. dget acc n = Some d \<longrightarrow> dget d k = Some v \<longrightarrow> input_via flow outputs n k v)"

lemma add_next_input_via:
  assumes via: "inputs_via flow outputs acc" and add: "add_next_input out t acc = Inr acc'"
    and out: "(src, out) \<in> set outputs"
    and t: "t = (n, sh, th)" "e \<in> set (flow_edges (fm_runtime flow))" "edge_source e = src" "edge_target e = node_id n"
      "source_handle e = sh" "target_handle e = th"
  shows "inputs_via flow outputs acc'"
proof -
  from add t(1) obtain s' t' sn tn where h: "sh = Some s'" "th = Some t'" "handle_suffix s' = Inr sn" "handle_suffix t' = Inr tn"
    by (auto simp: add_next_input_def res_simps split: option.splits)
  show ?thesis
  proof (cases "dget out sn")
    case None
    with add t(1) h have "acc' = acc" by (simp add: add_next_input_def)
    with via show ?thesis by simp
  next
    case (Some v)
    have ve: "via_edge flow outputs (node_id n) tn sn v"
      unfolding via_edge_def using t h out Some by blast
    let ?cur = "inputs_so_far acc (node_id n)"
    from add t(1) h Some obtain ha where ha:
      "acc' = dset (node_id n) (dset tn (next_input ha sn v tn ?cur) ?cur) acc"
      by (auto simp: add_next_input_def res_simps Let_def)
    have cur: "input_via flow outputs (node_id n) k w" if "dget ?cur k = Some w" for k w
      using via that by (cases "dget acc (node_id n)") (auto simp: inputs_via_def inputs_so_far_def)
    have entry: "via_edge flow outputs (node_id n) tn s h" if "dget (dict_entry (dget ?cur tn)) s = Some h" for s h
    proof (cases "dget ?cur tn")
      case (Some w)
      with cur[OF Some] that show ?thesis by (auto simp: dict_entry_def input_via_def split: input.splits)
    qed (use that in \<open>simp add: dict_entry_def\<close>)
    have "input_via flow outputs (node_id n) tn (next_input ha sn v tn ?cur)"
      using ve entry by (auto simp: input_via_def next_input_def)
    with via cur show ?thesis unfolding ha inputs_via_def by (auto split: if_splits)
  qed
qed

lemma add_next_input_keeps:
  "add_next_input out t acc = Inr acc' \<Longrightarrow> dget acc m = Some d \<Longrightarrow> dmem k d \<Longrightarrow> \<exists>d'. dget acc' m = Some d' \<and> dmem k d'"
  by (cases t; cases "fst (snd t)"; cases "snd (snd t)")
    (auto simp: add_next_input_def res_simps Let_def inputs_so_far_def split: option.splits if_splits)

lemma add_next_input_adds:
  assumes "add_next_input out (n, Some sh, Some th) acc = Inr acc'" and "handle_suffix sh = Inr s" and "handle_suffix th = Inr k"
    and "dget out s \<noteq> None"
  shows "\<exists>d. dget acc' (node_id n) = Some d \<and> dmem k d"
  using assms by (auto simp: add_next_input_def res_simps Let_def)

definition next_input_step :: "flow_model \<Rightarrow> string \<times> (string, handle) dict \<Rightarrow> 'v node_inputs \<Rightarrow> 'v node_inputs res" where
  "next_input_step flow = (\<lambda>(n, output) acc. rbind (get_target_node_and_handles (fm_runtime flow) n)
       (\<lambda>ts. rfold (add_next_input output) ts acc))"

lemma get_next_step: "get_next_node_inputs flow outputs = rfold (next_input_step flow) outputs []"
  by (simp add: get_next_node_inputs_def next_input_step_def)

lemma next_inputs_sound:
  assumes wf: "core_wf (fm_runtime flow)" and run: "get_next_node_inputs flow outputs = Inr (new :: 'v node_inputs)"
  shows "inputs_via flow outputs new"
  using run[unfolded get_next_step]
proof (rule rfold_invariant)
  show "inputs_via flow outputs ([] :: 'v node_inputs)" by (simp add: inputs_via_def)
  fix x and acc acc' :: "'v node_inputs"
  assume x: "x \<in> set outputs" and via: "inputs_via flow outputs acc" and st: "next_input_step flow x acc = Inr acc'"
  obtain n out where xo: "x = (n, out)" by (cases x)
  with st obtain ts where ts: "get_target_node_and_handles (fm_runtime flow) n = Inr ts"
    and fold: "rfold (add_next_input out) ts acc = Inr acc'" by (auto simp: next_input_step_def res_simps)
  from fold via show "inputs_via flow outputs acc'"
  proof (rule rfold_invariant)
    fix t and a a' :: "'v node_inputs"
    assume t: "t \<in> set ts" and a: "inputs_via flow outputs a" "add_next_input out t a = Inr a'"
    obtain m sh th where tt: "t = (m, sh, th)" by (cases t)
    from target_handles_edges(1)[OF wf ts, of m sh th] t tt obtain e where
      "e \<in> set (flow_edges (fm_runtime flow))" "edge_source e = n" "edge_target e = node_id m"
      "source_handle e = sh" "target_handle e = th" by blast
    then show "inputs_via flow outputs a'"
      using add_next_input_via[OF a(1,2), of n m sh th e] x xo tt by simp
  qed
qed

lemma next_input_step_keeps:
  assumes "dget acc m = Some d" and "dmem k d" and "next_input_step flow x acc = Inr acc'"
  shows "\<exists>d'. dget acc' m = Some d' \<and> dmem k d'"
proof -
  from assms(3) obtain ts where "rfold (add_next_input (snd x)) ts acc = Inr acc'"
    by (cases x) (auto simp: next_input_step_def res_simps)
  then show ?thesis
    by (rule rfold_invariant[where P = "\<lambda>acc. \<exists>d. dget acc m = Some d \<and> dmem k d"])
      (use assms(1,2) in \<open>auto dest: add_next_input_keeps\<close>)
qed

lemma next_inputs_complete:
  assumes wf: "core_wf (fm_runtime flow)" and run: "get_next_node_inputs flow outputs = Inr (new :: 'v node_inputs)"
    and e: "e \<in> set (flow_edges (fm_runtime flow))" and o: "dget outputs (edge_source e) = Some out"
    and h: "source_handle e = Some sh" "target_handle e = Some th" "handle_suffix sh = Inr s" "handle_suffix th = Inr k"
      "dget out s \<noteq> None"
  shows "\<exists>d. dget new (edge_target e) = Some d \<and> dmem k d"
proof -
  let ?P = "\<lambda>acc :: 'v node_inputs. \<exists>d. dget acc (edge_target e) = Some d \<and> dmem k d"
  have mem: "(edge_source e, out) \<in> set outputs" using o by (simp add: dget_def map_of_SomeD)
  from run[unfolded get_next_step] mem show "?P new"
  proof (rule rfold_establishes)
    fix acc acc' :: "'v node_inputs"
    assume "next_input_step flow (edge_source e, out) acc = Inr acc'"
    then obtain ts where ts: "get_target_node_and_handles (fm_runtime flow) (edge_source e) = Inr ts"
      and fold: "rfold (add_next_input out) ts acc = Inr acc'" by (auto simp: next_input_step_def res_simps)
    from target_handles_edges(2)[OF wf ts e refl] h(1,2) obtain m where
      m: "(m, Some sh, Some th) \<in> set ts" "node_id m = edge_target e" by auto
    from fold m(1) show "?P acc'"
    proof (rule rfold_establishes)
      fix a a' :: "'v node_inputs"
      assume "add_next_input out (m, Some sh, Some th) a = Inr a'"
      from add_next_input_adds[OF this h(3-5)] m(2) show "?P a'" by simp
    qed (auto dest: add_next_input_keeps)
  qed (auto dest: next_input_step_keeps)
qed



end
