(* ===== verification/PflTypes.thy ===== *)
theory PflTypes
  imports Annolib PyHeap
begin

text \<open>
  Static types of PFL, the restricted Python of \<open>core/pfl\<close>.

  \<^item> \<open>info\<close> is \<open>PFLExprInfo\<close>: the kind of type, the types of the items, the optional and undefined flags
    and the annotated type. An object of the class is shared between nodes and scopes, and the parser
    stores a constant into it (\<open>_constexpr_data\<close>) after it has been shared: \<open>cell\<close> is the identity of the object, and
    the constants of all objects are in the parser's state (\<open>ps_const\<close>). The other attributes are not
    changed once an object exists. Functions, user classes with operators of their own and the
    metadata of libraries are left out; \<open>outside\<close> marks the branches that consult a user class.
\<close>

subsection \<open>Types\<close>

datatype pfl_type =
    UNKNOWN | NUMBER | BOOL | STRING | ARRAY | OBJECT | NDARRAY | FUNCTION | NONE_TYPE | UNDEFINED_TYPE
  | DATACLASS_TYPE | ANY | DATACLASS_OBJECT | RANGE | UNION | TUPLE | SLICE | ELLIPSIS | GENERIC_TYPE
  | GENERIC_PARAM_SPEC | GENERIC_PARAM_ARGS

datatype info = Info
  (itype: pfl_type) (childs: "info list") (has_optional: bool) (has_undefined: bool)
  (annotype: "anno option") (cell: nat)

datatype bool_op_type = AND | OR

datatype bin_op_type = ADD | SUB | MULT | DIV | MOD | POW | LSHIFT | RSHIFT | BIT_OR | BIT_XOR | BIT_AND | FLOOR_DIV | MATMUL

datatype unary_op_type = INVERT | NOT | UADD | USUB

datatype compare_type = EQUAL | NOT_EQUAL | LESS | LESS_EQUAL | GREATER | GREATER_EQUAL | IS | IS_NOT | IN | NOT_IN

record pst =
  ps_heap :: heap
  ps_const :: "val option list"

text \<open>An operand's class would have to be asked: user classes are not modelled.\<close>

definition outside :: pyerr where
  "outside = UserException 0"

definition in_heap :: "(heap, 'a) act \<Rightarrow> (pst, 'a) act" where
  "in_heap m s = (case m (ps_heap s) of (r, h) \<Rightarrow> (r, s\<lparr>ps_heap := h\<rparr>))"

definition rlift :: "'a res \<Rightarrow> ('s, 'a) act" where
  "rlift r s = (r, s)"

definition new_info :: "pfl_type \<Rightarrow> info list \<Rightarrow> anno option \<Rightarrow> (pst, info) act" where
  "new_info t cs a s =
     (Inr (Info t cs False False a (length (ps_const s))), s\<lparr>ps_const := ps_const s @ [None]\<rparr>)"

definition get_const :: "info \<Rightarrow> (pst, val option) act" where
  "get_const i s = (Inr (if cell i < length (ps_const s) then ps_const s ! cell i else None), s)"

definition set_const :: "info \<Rightarrow> val \<Rightarrow> (pst, unit) act" where
  "set_const i v s = (Inr (), s\<lparr>ps_const := (ps_const s)[cell i := Some v]\<rparr>)"

text \<open>\<open>dataclasses.replace(i, ...)\<close>: a new object with the attributes of \<open>j\<close> and the constant of \<open>i\<close>.\<close>

definition replace_info :: "info \<Rightarrow> info \<Rightarrow> (pst, info) act" where
  "replace_info i j = abind (get_const i) (\<lambda>c s.
     (Inr (Info (itype j) (childs j) (has_optional j) (has_undefined j) (annotype j) (length (ps_const s))),
      s\<lparr>ps_const := ps_const s @ [c]\<rparr>))"

definition copy_info :: "info \<Rightarrow> (pst, info) act" where
  "copy_info i = replace_info i i"

fun amap :: "('a \<Rightarrow> ('s, 'b) act) \<Rightarrow> 'a list \<Rightarrow> ('s, 'b list) act" where
  "amap f [] = aret []"
| "amap f (x # xs) = abind (f x) (\<lambda>y. abind (amap f xs) (\<lambda>ys. aret (y # ys)))"

lemma abind_cong [fundef_cong]:
  "m s = m' s' \<Longrightarrow> s = s' \<Longrightarrow> (\<And>x t. m' s' = (Inr x, t) \<Longrightarrow> f x t = g x t) \<Longrightarrow> abind m f s = abind m' g s'"
  by (auto simp: abind_def split: prod.splits sum.splits)

lemma amap_cong [fundef_cong]:
  "xs = ys \<Longrightarrow> s = t \<Longrightarrow> (\<And>x u. x \<in> set ys \<Longrightarrow> f x u = g x u) \<Longrightarrow> amap f xs s = amap g ys t"
proof (induction xs arbitrary: ys s t)
  case (Cons x xs)
  then show ?case by (auto simp: abind_def split: prod.splits sum.splits)
qed simp

subsection \<open>Questions about types\<close>

fun rall :: "('a \<Rightarrow> bool res) \<Rightarrow> 'a list \<Rightarrow> bool res" where
  "rall f [] = Inr True"
| "rall f (x # xs) = rbind (f x) (\<lambda>b. if b then rall f xs else Inr False)"

lemma rall_cong [fundef_cong]:
  "xs = ys \<Longrightarrow> (\<And>x. x \<in> set ys \<Longrightarrow> f x = g x) \<Longrightarrow> rall f xs = rall g ys"
proof (induction xs arbitrary: ys)
  case (Cons x xs)
  then show ?case by (cases "g x") auto
qed simp

fun rall2 :: "('a \<Rightarrow> 'b \<Rightarrow> bool res) \<Rightarrow> 'a list \<Rightarrow> 'b list \<Rightarrow> bool res" where
  "rall2 f (x # xs) (y # ys) = rbind (f x y) (\<lambda>b. if b then rall2 f xs ys else Inr False)"
| "rall2 f _ _ = Inr True"

lemma rall2_cong [fundef_cong]:
  "xs = xs' \<Longrightarrow> ys = ys' \<Longrightarrow> (\<And>x y. x \<in> set xs' \<Longrightarrow> y \<in> set ys' \<Longrightarrow> f x y = g x y) \<Longrightarrow> rall2 f xs ys = rall2 g xs' ys'"
proof (induction xs arbitrary: ys xs' ys')
  case Nil
  then show ?case by (auto split: list.splits)
next
  case (Cons x xs)
  show ?case
  proof (cases ys)
    case (Cons y ys'')
    have "rall2 f xs ys'' = rall2 g xs ys''" using Cons.IH[OF refl refl] Cons.prems Cons by auto
    moreover have "f x y = g x y" using Cons.prems Cons by auto
    ultimately show ?thesis using Cons.prems(1,2) Cons by (cases "g x y") auto
  qed (use Cons.prems in auto)
qed

definition get_origin_type_checked :: "info \<Rightarrow> origin res" where
  "get_origin_type_checked i = (case annotype i of None \<Rightarrow> Inl AssertionError | Some a \<Rightarrow> Inr (an_origin a))"

lemma child_size [termination_simp]: "c \<in> set (childs i) \<Longrightarrow> size c < size i"
  using size_list_estimation'[of c "childs i" "size c" size] by (cases i) auto

fun is_equal_type :: "info \<Rightarrow> info \<Rightarrow> bool \<Rightarrow> bool res" where
  "is_equal_type i j check_nested =
     (if itype i \<noteq> itype j then Inr False
      else if itype i = NUMBER then
        (if annotype i \<noteq> None \<and> annotype j \<noteq> None
         then rbind (get_origin_type_checked i) (\<lambda>a. rbind (get_origin_type_checked j) (\<lambda>b. Inr (a = b)))
         else Inr False)
      else if itype i = DATACLASS_OBJECT then
        rbind (get_origin_type_checked i) (\<lambda>a. rbind (get_origin_type_checked j) (\<lambda>b. Inr (a = b)))
      else if length (childs i) \<noteq> length (childs j) then Inr False
      else if check_nested then rall2 (\<lambda>x y. is_equal_type x y True) (childs i) (childs j)
      else Inr True)"

declare is_equal_type.simps [simp del]

definition type_can_cast_to_bool :: "pfl_type set" where
  "type_can_cast_to_bool = {NUMBER, BOOL, STRING, ARRAY, OBJECT, DATACLASS_OBJECT}"

definition type_support_binary_op :: "pfl_type set" where
  "type_support_binary_op = {NUMBER, BOOL}"

definition can_cast_to_bool :: "info \<Rightarrow> bool" where
  "can_cast_to_bool i \<longleftrightarrow> itype i \<in> type_can_cast_to_bool"

definition is_opt :: "info \<Rightarrow> bool" where
  "is_opt i \<longleftrightarrow> has_optional i \<or> has_undefined i"

definition support_bool_op :: "info \<Rightarrow> bool res" where
  "support_bool_op i = (if itype i = DATACLASS_OBJECT then Inl outside else Inr (itype i \<in> type_support_binary_op))"

definition support_binary_op :: "info \<Rightarrow> bool" where
  "support_binary_op i \<longleftrightarrow> itype i \<in> type_support_binary_op \<and> \<not> is_opt i"

definition check_support_compare_op :: "compare_type \<Rightarrow> info \<Rightarrow> info \<Rightarrow> unit res" where
  "check_support_compare_op op i j =
     (if itype i = STRING \<and> itype j = STRING then rassert (op = EQUAL \<or> op = NOT_EQUAL)
      else rassert (support_binary_op i \<and> support_binary_op j))"

definition check_support_binary_op :: "bin_op_type \<Rightarrow> info \<Rightarrow> info \<Rightarrow> unit res" where
  "check_support_binary_op op i j =
     (if itype i = STRING \<and> itype j = STRING then rassert (op = ADD)
      else rassert (support_binary_op i \<and> support_binary_op j))"

definition check_support_unary_op :: "info \<Rightarrow> unit res" where
  "check_support_unary_op i = rassert (support_binary_op i)"

definition is_all_child_same :: "info \<Rightarrow> bool res" where
  "is_all_child_same i = (case childs i of [] \<Rightarrow> Inr False | c # cs \<Rightarrow> rall (\<lambda>d. is_equal_type d c True) cs)"

text \<open>\<open>sub\<close> is \<open>issubclass\<close> of the running program.\<close>

definition get_base_number_type_priority :: "(origin \<Rightarrow> origin \<Rightarrow> bool) \<Rightarrow> origin \<Rightarrow> nat res" where
  "get_base_number_type_priority sub t =
     (if sub t OgBool then Inr 0 else if sub t OgInt then Inr 1 else if sub t OgFloat then Inr 2
      else Inl NotImplementedError)"

definition anno_priority :: "(origin \<Rightarrow> origin \<Rightarrow> bool) \<Rightarrow> anno \<Rightarrow> nat res" where
  "anno_priority sub a = get_base_number_type_priority sub (if an_origin a \<noteq> OgUnion then an_origin a else OgFloat)"

definition check_support_binary_op_and_promotion ::
    "(origin \<Rightarrow> origin \<Rightarrow> bool) \<Rightarrow> bin_op_type \<Rightarrow> info \<Rightarrow> info \<Rightarrow> anno option res" where
  "check_support_binary_op_and_promotion sub op i j =
     rbind (check_support_binary_op op i j) (\<lambda>_.
       if itype i \<in> {NUMBER, BOOL} \<and> itype j \<in> {NUMBER, BOOL} then
         (case (annotype i, annotype j) of
            (Some a, Some b) \<Rightarrow> rbind (anno_priority sub a) (\<lambda>p. rbind (anno_priority sub b) (\<lambda>q.
               Inr (Some (if p \<ge> q then a else b))))
          | _ \<Rightarrow> Inr None)
       else Inr None)"

definition try_merge_two_info :: "(origin \<Rightarrow> origin \<Rightarrow> bool) \<Rightarrow> info \<Rightarrow> info \<Rightarrow> (pst, info) act" where
  "try_merge_two_info sub i j =
     (let equal_types = abind (rlift (is_equal_type i j True)) (\<lambda>b. abind (rlift (rassert b)) (\<lambda>_. copy_info i)) in
      if itype i \<in> {NUMBER, BOOL} \<and> itype j \<in> {NUMBER, BOOL} then
        (case (annotype i, annotype j) of
           (Some a, Some b) \<Rightarrow> abind (rlift (anno_priority sub a)) (\<lambda>p. abind (rlift (anno_priority sub b)) (\<lambda>q.
              copy_info (if p \<ge> q then i else j)))
         | _ \<Rightarrow> equal_types)
      else equal_types)"

definition support_aug_assign :: "info \<Rightarrow> bool" where
  "support_aug_assign i \<longleftrightarrow> itype i \<in> type_support_binary_op"

definition first_child :: "info \<Rightarrow> info res" where
  "first_child i = (case childs i of [] \<Rightarrow> Inl IndexError | c # _ \<Rightarrow> Inr c)"

lemma first_child_size [termination_simp]: "first_child i = Inr c \<Longrightarrow> size c < size i"
  by (rule child_size) (auto simp: first_child_def split: list.splits)

function is_convertable :: "(origin \<Rightarrow> origin \<Rightarrow> bool) \<Rightarrow> info \<Rightarrow> info \<Rightarrow> bool res" where
  "is_convertable sub i tgt =
     rbind (rassert (itype i \<noteq> UNKNOWN)) (\<lambda>_. rbind (rassert (itype tgt \<noteq> UNKNOWN)) (\<lambda>_.
       if itype tgt = ANY then Inr True
       else if \<not> is_opt tgt \<and> is_opt i then Inr False
       else if itype tgt = TUPLE \<and> itype i = TUPLE \<and> annotype tgt \<noteq> None then
         (if an_homogeneous (the (annotype tgt))
          then rall (\<lambda>c. rbind (first_child tgt) (\<lambda>d. is_convertable sub c d)) (childs i)
          else if length (childs tgt) \<noteq> length (childs i) then Inr False
          else rall2 (\<lambda>c d. is_convertable sub c d) (childs i) (childs tgt))
       else if itype tgt = NUMBER \<or> itype tgt = BOOL then Inr (itype i = NUMBER \<or> itype i = BOOL)
       else if itype tgt = ARRAY \<or> itype tgt = OBJECT then
         (if itype tgt = itype i
          then rbind (first_child i) (\<lambda>c. rbind (first_child tgt) (\<lambda>d. is_convertable sub c d))
          else Inr False)
       else if itype tgt = UNION then
         rbind (rmap_list (\<lambda>d. is_convertable sub i d) (childs tgt)) (\<lambda>bs. Inr (True \<in> set bs))
       else if itype i = DATACLASS_OBJECT \<and> itype tgt = DATACLASS_OBJECT then
         rbind (get_origin_type_checked i) (\<lambda>a. rbind (get_origin_type_checked tgt) (\<lambda>b. Inr (sub a b)))
       else is_equal_type i tgt True))"
  by pat_completeness auto
termination
  by (relation "measure (\<lambda>(_, i, t). size i + size t)") (auto dest!: child_size first_child_size)

declare is_convertable.simps [simp del]

definition check_convertable :: "(origin \<Rightarrow> origin \<Rightarrow> bool) \<Rightarrow> info \<Rightarrow> info \<Rightarrow> unit res" where
  "check_convertable sub i tgt = rbind (is_convertable sub i tgt) (\<lambda>b. if b then Inr () else Inl ValueError)"

definition is_unknown_or_any :: "info \<Rightarrow> bool" where
  "is_unknown_or_any i \<longleftrightarrow> itype i = UNKNOWN \<or> itype i = ANY"

function check_equal_type_with_unk_any :: "info \<Rightarrow> info \<Rightarrow> (pst, info) act" where
  "check_equal_type_with_unk_any i j s =
     (if is_unknown_or_any i then aret j s
      else if is_unknown_or_any j then aret i s
      else abind (rlift (is_equal_type i j False)) (\<lambda>b. abind (rlift (rassert b)) (\<lambda>_.
        abind (amap (\<lambda>(c, d). check_equal_type_with_unk_any c d) (zip (childs i) (childs j))) (\<lambda>cs.
          replace_info i (Info (itype i) cs (has_optional i) (has_undefined i) (annotype i) (cell i))))) s)"
  by pat_completeness auto
termination
  by (relation "measure (\<lambda>(i, _, _). size i)") (auto dest!: set_zip_leftD child_size)

declare check_equal_type_with_unk_any.simps [simp del]

definition remove_optional :: "info \<Rightarrow> (pst, info) act" where
  "remove_optional i =
     (if has_optional i
      then replace_info i (Info (itype i) (childs i) False (has_undefined i)
             (map_option (\<lambda>a. a\<lparr>an_optional := False\<rparr>) (annotype i)) (cell i))
      else aret i)"

end
