(* ===== verification/PflOps.thy ===== *)
theory PflOps
  imports PflTypes "HOL-Library.Sublist"
begin

text \<open>
  The operators that the nodes of a PFL program run (the \<open>run\<close> methods of \<open>core/pfl/pfl_ast.py\<close>), on the values
  and objects of the language. What is not the language's is in \<open>pfl_env\<close>: the float operators that are
  not in \<open>py_env\<close>, the range objects among the opaque values, and whether two equal immutable values are one
  object (\<open>is\<close>).
\<close>

record pfl_env =
  pf_py :: py_env
  pf_float_op :: "bin_op_type \<Rightarrow> num \<Rightarrow> num \<Rightarrow> val res"
  pf_same :: "val \<Rightarrow> val \<Rightarrow> bool"
  pf_range :: "nat \<Rightarrow> (int \<times> int \<times> int) option"

subsection \<open>Ranges\<close>

definition range_len :: "int \<times> int \<times> int \<Rightarrow> nat" where
  "range_len r = (case r of (a, b, s) \<Rightarrow>
     if s > 0 then nat ((b - a + s - 1) div s) else nat ((a - b - s - 1) div (- s)))"

definition range_items :: "int \<times> int \<times> int \<Rightarrow> int list" where
  "range_items r = (case r of (a, b, s) \<Rightarrow> map (\<lambda>k. a + int k * s) [0..<range_len r])"

definition as_range :: "pfl_env \<Rightarrow> val \<Rightarrow> (int \<times> int \<times> int) option" where
  "as_range E v = (case v of DOther n \<Rightarrow> pf_range E n | _ \<Rightarrow> None)"

subsection \<open>Binary operators\<close>

definition mod_op :: "pfl_env \<Rightarrow> val \<Rightarrow> val \<Rightarrow> heap \<Rightarrow> val res" where
  "mod_op E x y h = (case (as_num x, as_num y) of
     (Some (NInt i), Some (NInt j)) \<Rightarrow> if j = 0 then Inl ZeroDivisionError else Inr (DInt (i mod j))
   | (Some p, Some q) \<Rightarrow> pf_float_op E MOD p q
   | _ \<Rightarrow> (case x of DStr _ \<Rightarrow> py_mod (pf_py E) x (case y of DTuple ys \<Rightarrow> ys | _ \<Rightarrow> [y]) h | _ \<Rightarrow> Inl TypeError))"

definition pow_op :: "pfl_env \<Rightarrow> val \<Rightarrow> val \<Rightarrow> val res" where
  "pow_op E x y = (case (as_num x, as_num y) of
     (Some (NInt i), Some (NInt j)) \<Rightarrow>
       if 0 \<le> j then Inr (DInt (i ^ nat j)) else if i = 0 then Inl ZeroDivisionError
       else pf_float_op E POW (NInt i) (NInt j)
   | (Some p, Some q) \<Rightarrow> pf_float_op E POW p q
   | _ \<Rightarrow> Inl TypeError)"

definition shift_op :: "(nat \<Rightarrow> int \<Rightarrow> int) \<Rightarrow> val \<Rightarrow> val \<Rightarrow> val res" where
  "shift_op f x y = (case (as_int x, as_int y) of
     (Some i, Some j) \<Rightarrow> if j < 0 then Inl ValueError else Inr (DInt (f (nat j) i))
   | _ \<Rightarrow> Inl TypeError)"

definition bit_op :: "(bool \<Rightarrow> bool \<Rightarrow> bool) \<Rightarrow> (int \<Rightarrow> int \<Rightarrow> int) \<Rightarrow> val \<Rightarrow> val \<Rightarrow> val res" where
  "bit_op fb fi x y = (case (x, y) of
     (DBool a, DBool b) \<Rightarrow> Inr (DBool (fb a b))
   | _ \<Rightarrow> (case (as_int x, as_int y) of (Some i, Some j) \<Rightarrow> Inr (DInt (fi i j)) | _ \<Rightarrow> Inl TypeError))"

text \<open>\<open>x | y\<close> of two dicts is a new dict.\<close>

definition or_op :: "val \<Rightarrow> val \<Rightarrow> (heap, val) act" where
  "or_op x y h = (case (as_dict h x, as_dict h y) of
     (Some m, Some n) \<Rightarrow> alloc (ODict (dupdate m n)) h
   | _ \<Rightarrow> (bit_op (\<or>) semiring_bit_operations_class.or x y, h))"

definition binop_run :: "pfl_env \<Rightarrow> bin_op_type \<Rightarrow> val \<Rightarrow> val \<Rightarrow> (heap, val) act" where
  "binop_run E op x y = (case op of
     ADD \<Rightarrow> py_arith (pf_py E) Add x y
   | SUB \<Rightarrow> py_arith (pf_py E) Sub x y
   | MULT \<Rightarrow> py_arith (pf_py E) Mul x y
   | DIV \<Rightarrow> py_arith (pf_py E) Div x y
   | FLOOR_DIV \<Rightarrow> py_arith (pf_py E) FloorDiv x y
   | MOD \<Rightarrow> aread (mod_op E x y)
   | POW \<Rightarrow> rlift (pow_op E x y)
   | LSHIFT \<Rightarrow> rlift (shift_op push_bit x y)
   | RSHIFT \<Rightarrow> rlift (shift_op drop_bit x y)
   | BIT_OR \<Rightarrow> or_op x y
   | BIT_XOR \<Rightarrow> rlift (bit_op (\<noteq>) semiring_bit_operations_class.xor x y)
   | BIT_AND \<Rightarrow> rlift (bit_op (\<and>) semiring_bit_operations_class.and x y)
   | MATMUL \<Rightarrow> araise TypeError)"

subsection \<open>In-place operators\<close>

text \<open>Lists change under \<open>+=\<close> and \<open>*=\<close>, dicts under \<open>|=\<close>, which takes what \<open>dict.update\<close> takes.\<close>

fun pairs_of :: "py_env \<Rightarrow> heap \<Rightarrow> val list \<Rightarrow> (dkey \<times> val) list res" where
  "pairs_of E h [] = Inr []"
| "pairs_of E h (x # xs) = rbind (py_iter x h) (\<lambda>kv. case kv of
       [k, v] \<Rightarrow> rbind (to_key E k) (\<lambda>key. rbind (pairs_of E h xs) (\<lambda>ps. Inr ((key, v) # ps)))
     | _ \<Rightarrow> Inl ValueError)"

definition update_items :: "py_env \<Rightarrow> val \<Rightarrow> heap \<Rightarrow> (dkey \<times> val) list res" where
  "update_items E v h = (case as_dict h v of
     Some n \<Rightarrow> Inr n
   | None \<Rightarrow> rbind (py_iter v h) (pairs_of E h))"

definition augassign_run :: "pfl_env \<Rightarrow> bin_op_type \<Rightarrow> val \<Rightarrow> val \<Rightarrow> (heap, val) act" where
  "augassign_run E op x y = (case op of
     ADD \<Rightarrow> py_iarith (pf_py E) Add x y
   | SUB \<Rightarrow> py_iarith (pf_py E) Sub x y
   | MULT \<Rightarrow> py_iarith (pf_py E) Mul x y
   | DIV \<Rightarrow> py_iarith (pf_py E) Div x y
   | FLOOR_DIV \<Rightarrow> py_iarith (pf_py E) FloorDiv x y
   | BIT_OR \<Rightarrow> (\<lambda>h. case (x, as_dict h x) of
         (DRef a, Some m) \<Rightarrow> abind (aread (update_items (pf_py E) y)) (\<lambda>n.
            abind (store_obj a (ODict (dupdate m n))) (\<lambda>_. aret x)) h
       | _ \<Rightarrow> or_op x y h)
   | MATMUL \<Rightarrow> araise NotImplementedError
   | _ \<Rightarrow> binop_run E op x y)"

subsection \<open>Unary operators, comparisons and boolean operators\<close>

text \<open>Negation of a float flips its sign bit.\<close>

definition unaryop_run :: "pfl_env \<Rightarrow> unary_op_type \<Rightarrow> val \<Rightarrow> heap \<Rightarrow> val res" where
  "unaryop_run E op x h = (case op of
     INVERT \<Rightarrow> (case as_int x of Some i \<Rightarrow> Inr (DInt (- i - 1)) | None \<Rightarrow> Inl TypeError)
   | NOT \<Rightarrow> Inr (DBool (\<not> truth (pf_py E) h x))
   | UADD \<Rightarrow> (case as_num x of Some (NInt i) \<Rightarrow> Inr (DInt i) | Some (NFloat w) \<Rightarrow> Inr (DFloat w) | None \<Rightarrow> Inl TypeError)
   | USUB \<Rightarrow> (case as_num x of Some (NInt i) \<Rightarrow> Inr (DInt (- i))
       | Some (NFloat w) \<Rightarrow> Inr (DFloat (semiring_bit_operations_class.xor w (push_bit 63 1))) | None \<Rightarrow> Inl TypeError))"

definition py_is :: "pfl_env \<Rightarrow> val \<Rightarrow> val \<Rightarrow> bool" where
  "py_is E x y = (case (x, y) of
     (DNone, _) \<Rightarrow> y = DNone | (_, DNone) \<Rightarrow> False
   | (DBool a, DBool b) \<Rightarrow> a = b
   | (DRef a, DRef b) \<Rightarrow> a = b
   | (DOther a, DOther b) \<Rightarrow> a = b
   | _ \<Rightarrow> x = y \<and> pf_same E x y)"

definition py_contains :: "pfl_env \<Rightarrow> val \<Rightarrow> val \<Rightarrow> heap \<Rightarrow> bool res" where
  "py_contains E x y h = (case y of
     DStr t \<Rightarrow> (case x of DStr s \<Rightarrow> Inr (sublist s t) | _ \<Rightarrow> Inl TypeError)
   | DTuple ys \<Rightarrow> rbind (find_eq (pf_py E) h x 0 ys) (\<lambda>r. Inr (r \<noteq> None))
   | DRef a \<Rightarrow> (case hget h a of
         Some (OList ys) \<Rightarrow> rbind (find_eq (pf_py E) h x 0 ys) (\<lambda>r. Inr (r \<noteq> None))
       | Some (ODict m) \<Rightarrow> rbind (to_key (pf_py E) x) (\<lambda>k. Inr (dmem k m))
       | _ \<Rightarrow> Inl TypeError)
   | DOther n \<Rightarrow> (case pf_range E n of
         Some r \<Rightarrow> Inr (case as_num x of
             Some q \<Rightarrow> list_ex (\<lambda>i. num_eq (pf_py E) q (NInt i)) (range_items r) | None \<Rightarrow> False)
       | None \<Rightarrow> Inl TypeError)
   | _ \<Rightarrow> Inl TypeError)"

definition compare_run :: "pfl_env \<Rightarrow> compare_type \<Rightarrow> val \<Rightarrow> val \<Rightarrow> heap \<Rightarrow> val res" where
  "compare_run E op x y h = (
     let ret = (\<lambda>r. rbind r (\<lambda>b. Inr (DBool b))); inv = (\<lambda>r. rbind r (\<lambda>b. Inr (DBool (\<not> b)))) in
     case op of
       EQUAL \<Rightarrow> ret (py_eq (pf_py E) x y h)
     | NOT_EQUAL \<Rightarrow> inv (py_eq (pf_py E) x y h)
     | LESS \<Rightarrow> ret (py_cmp (pf_py E) Lt x y h)
     | LESS_EQUAL \<Rightarrow> ret (py_cmp (pf_py E) Le x y h)
     | GREATER \<Rightarrow> ret (py_cmp (pf_py E) Gt x y h)
     | GREATER_EQUAL \<Rightarrow> ret (py_cmp (pf_py E) Ge x y h)
     | IS \<Rightarrow> Inr (DBool (py_is E x y))
     | IS_NOT \<Rightarrow> Inr (DBool (\<not> py_is E x y))
     | IN \<Rightarrow> ret (py_contains E x y h)
     | NOT_IN \<Rightarrow> inv (py_contains E x y h))"

definition boolop_run :: "pfl_env \<Rightarrow> heap \<Rightarrow> bool_op_type \<Rightarrow> val list \<Rightarrow> val" where
  "boolop_run E h op vs = DBool (case op of
     AND \<Rightarrow> list_all (truth (pf_py E) h) vs
   | OR \<Rightarrow> list_ex (truth (pf_py E) h) vs)"

end
