(* ===== verification/PflRun.thy ===== *)
theory PflRun
  imports PflOps
begin

text \<open>
  The AST of PFL (\<open>core/pfl/pfl_ast.py\<close>) without calls, attributes, slices and nested functions, and the evaluator
  \<open>PFLAsyncThread\<close> of \<open>core/pfl/evaluator.py\<close> with its breakpoints, control points of loops and observed expressions.

  \<^item> A step of the evaluator is an action on the thread's state that ends in a value or in \<open>pstop\<close>: an
    exception of the program, the stop by the user, a pause the user never ends, or the end of the fuel.
  \<^item> The user answers each pause with one entry of \<open>rs_script\<close>: changes of breakpoints and control points, then the
    call that releases the pause. Events are appended to \<open>rs_events\<close>; their handlers are not modelled.
  \<^item> A loop is identified by its place in the source, which stands for \<open>id(stmt)\<close>. The scope of a block is passed in and
    returned; \<open>rs_frame\<close> is the scope of the top frame that the debugger shows.
  \<^item> Fuel bounds the nesting of blocks and the iterations of a \<open>while\<close> loop, which the code does not bound.
\<close>

subsection \<open>Programs\<close>

type_synonym loc = "int \<times> int \<times> int option \<times> int option"

datatype pexpr =
    PName loc (st: info) string
  | PConst loc (st: info) val
  | PSubscript loc (st: info) pexpr pexpr bool
  | PArray loc (st: info) "pexpr list"
  | PTuple loc (st: info) "pexpr list"
  | PDict loc (st: info) "(pexpr option \<times> pexpr) list"
  | PBoolOp loc (st: info) bool_op_type "pexpr list"
  | PUnaryOp loc (st: info) unary_op_type pexpr
  | PBinOp loc (st: info) bin_op_type pexpr pexpr
  | PCompare loc (st: info) compare_type pexpr pexpr
  | PIfExp loc (st: info) pexpr pexpr pexpr

fun source_loc :: "pexpr \<Rightarrow> loc" where
  "source_loc (PName l _ _) = l"
| "source_loc (PConst l _ _) = l"
| "source_loc (PSubscript l _ _ _ _) = l"
| "source_loc (PArray l _ _) = l"
| "source_loc (PTuple l _ _) = l"
| "source_loc (PDict l _ _) = l"
| "source_loc (PBoolOp l _ _ _) = l"
| "source_loc (PUnaryOp l _ _ _) = l"
| "source_loc (PBinOp l _ _ _ _) = l"
| "source_loc (PCompare l _ _ _ _) = l"
| "source_loc (PIfExp l _ _ _ _) = l"

datatype pstmt =
    PAssign loc pexpr pexpr
  | PAnnAssign loc pexpr ty "pexpr option"
  | PAugAssign loc pexpr bin_op_type pexpr
  | PIf loc pexpr "pstmt list" "pstmt list" "(string \<times> info) list option"
  | PFor loc pexpr pexpr "pstmt list"
  | PWhile loc pexpr "pstmt list"
  | PExprStmt loc pexpr
  | PReturn loc "pexpr option"
  | PBreak loc
  | PContinue loc

fun stmt_loc :: "pstmt \<Rightarrow> loc" where
  "stmt_loc (PAssign l _ _) = l"
| "stmt_loc (PAnnAssign l _ _ _) = l"
| "stmt_loc (PAugAssign l _ _ _) = l"
| "stmt_loc (PIf l _ _ _ _) = l"
| "stmt_loc (PFor l _ _ _) = l"
| "stmt_loc (PWhile l _ _) = l"
| "stmt_loc (PExprStmt l _) = l"
| "stmt_loc (PReturn l _) = l"
| "stmt_loc (PBreak l) = l"
| "stmt_loc (PContinue l) = l"

text \<open>The tests and bodies of an \<open>if\<close> with its \<open>elif\<close>s; the last one has no test.\<close>

fun flatten_else :: "pstmt list \<Rightarrow> (pexpr option \<times> pstmt list) list" where
  "flatten_else [PIf l test body orelse new] = (Some test, body) # flatten_else orelse"
| "flatten_else orelse = [(None, orelse)]"

definition get_flatten_test_body :: "pexpr \<Rightarrow> pstmt list \<Rightarrow> pstmt list \<Rightarrow> (pexpr option \<times> pstmt list) list" where
  "get_flatten_test_body test body orelse = (Some test, body) # flatten_else orelse"

subsection \<open>The state of a thread\<close>

type_synonym scope = "(string, val) dict"

datatype run_kind = IDLE | RUNNING | DURING_RUNNING_TO | PAUSE | NEED_STOP

record ctrl =
  ct_should_pause :: bool
  ct_enabled :: bool
  ct_step :: int
  ct_range :: "int \<times> int \<times> int"

datatype event =
    EnterBkpt loc scope
  | LeaveBkpt loc scope
  | NewCtrl loc ctrl
  | DeleteCtrl loc ctrl
  | CtrlChange loc ctrl
  | ExprHit loc "(loc \<times> int \<times> int \<times> int) list" val
  | RunStart
  | RunStop

datatype cmd =
    AddBreakpoint string int bool bool
  | RemoveBreakpoint int
  | AddTempBreakpoint string int
  | SetCtrl loc int

datatype resume = Release bool | ContinueUntil string int | ContinueNextLine

record rstate =
  rs_heap :: heap
  rs_type :: run_kind
  rs_path :: string
  rs_frame :: scope
  rs_ctrl :: "(loc, ctrl) dict"
  rs_next :: bool
  rs_temp :: "string \<times> int"
  rs_bkpts :: "(string \<times> int, bool \<times> bool) dict"
  rs_observed :: "loc list"
  rs_events :: "event list"
  rs_script :: "(cmd list \<times> resume) list"

datatype pstop = PErr pyerr | PStop | PBlocked | PFuel

type_synonym 'a run = "rstate \<Rightarrow> (pstop + 'a) \<times> rstate"

definition xret :: "'a \<Rightarrow> 'a run" where
  "xret x s = (Inr x, s)"

definition xstop :: "pstop \<Rightarrow> 'a run" where
  "xstop e s = (Inl e, s)"

definition xbind :: "'a run \<Rightarrow> ('a \<Rightarrow> 'b run) \<Rightarrow> 'b run" where
  "xbind m f s = (case m s of (Inl e, s') \<Rightarrow> (Inl e, s') | (Inr x, s') \<Rightarrow> f x s')"

lemma xbind_cong [fundef_cong]:
  "m s = m' s' \<Longrightarrow> s = s' \<Longrightarrow> (\<And>x t. m' s' = (Inr x, t) \<Longrightarrow> f x t = g x t) \<Longrightarrow> xbind m f s = xbind m' g s'"
  by (auto simp: xbind_def split: prod.splits sum.splits)

definition xmod :: "(rstate \<Rightarrow> rstate) \<Rightarrow> unit run" where
  "xmod f s = (Inr (), f s)"

definition xget :: "(rstate \<Rightarrow> 'a run) \<Rightarrow> 'a run" where
  "xget f s = f s s"

definition xheap :: "(heap, 'a) act \<Rightarrow> 'a run" where
  "xheap m s = (case m (rs_heap s) of
     (Inl e, h) \<Rightarrow> (Inl (PErr e), s\<lparr>rs_heap := h\<rparr>)
   | (Inr x, h) \<Rightarrow> (Inr x, s\<lparr>rs_heap := h\<rparr>))"

definition xassert :: "bool \<Rightarrow> unit run" where
  "xassert b = (if b then xret () else xstop (PErr AssertionError))"

definition emit_run_event :: "event \<Rightarrow> unit run" where
  "emit_run_event ev = xmod (\<lambda>s. s\<lparr>rs_events := rs_events s @ [ev]\<rparr>)"

subsection \<open>Pauses\<close>

text \<open>
  \<open>remove_breakpoint\<close> looks for a line number among keys that are pairs of a path and a line, and never finds it.
  Moving the slider of a loop sets the step of its control point.
\<close>

definition remove_breakpoint :: "int \<Rightarrow> rstate \<Rightarrow> rstate" where
  "remove_breakpoint lineno s = s"

fun user_cmd :: "cmd \<Rightarrow> rstate \<Rightarrow> rstate" where
  "user_cmd (AddBreakpoint p l enabled one_shot) s = s\<lparr>rs_bkpts := dset (p, l) (enabled, one_shot) (rs_bkpts s)\<rparr>"
| "user_cmd (RemoveBreakpoint l) s = remove_breakpoint l s"
| "user_cmd (AddTempBreakpoint p l) s = s\<lparr>rs_temp := (p, l)\<rparr>"
| "user_cmd (SetCtrl k step) s = (case dget (rs_ctrl s) k of
     Some c \<Rightarrow> s\<lparr>rs_ctrl := dset k (c\<lparr>ct_step := step, ct_should_pause := False\<rparr>) (rs_ctrl s)\<rparr>
   | None \<Rightarrow> s)"

fun user_resume :: "resume \<Rightarrow> rstate \<Rightarrow> rstate" where
  "user_resume (Release stop) s = (if stop then s\<lparr>rs_type := NEED_STOP\<rparr> else s)"
| "user_resume (ContinueUntil p l) s = s\<lparr>rs_temp := (p, l)\<rparr>"
| "user_resume ContinueNextLine s = s\<lparr>rs_next := True\<rparr>"

definition wait_release :: "unit run" where
  "wait_release s = (case rs_script s of
     [] \<Rightarrow> (Inl PBlocked, s)
   | (cmds, r) # script \<Rightarrow> (Inr (), user_resume r (fold user_cmd cmds (s\<lparr>rs_script := script\<rparr>))))"

definition enter_breakpoint :: "loc \<Rightarrow> scope \<Rightarrow> unit run" where
  "enter_breakpoint node sc =
     xbind (xmod (\<lambda>s. s\<lparr>rs_type := PAUSE\<rparr>)) (\<lambda>_.
     xbind (emit_run_event (EnterBkpt node sc)) (\<lambda>_.
     xbind wait_release (\<lambda>_.
     xget (\<lambda>s.
       if rs_type s = NEED_STOP then
         xbind (xmod (\<lambda>s. s\<lparr>rs_type := IDLE,
                  rs_events := rs_events s @ map (\<lambda>(k, c). DeleteCtrl k c) (rs_ctrl s), rs_ctrl := []\<rparr>)) (\<lambda>_.
         xstop PStop)
       else
         xbind (xmod (\<lambda>s. s\<lparr>rs_type := RUNNING\<rparr>)) (\<lambda>_. emit_run_event (LeaveBkpt node sc))))))"

definition all_should_pause :: "rstate \<Rightarrow> bool" where
  "all_should_pause s \<longleftrightarrow> list_all (\<lambda>(k, c). ct_should_pause c) (rs_ctrl s)"

definition check_enter_breakpoint :: "loc \<Rightarrow> scope \<Rightarrow> unit run" where
  "check_enter_breakpoint node sc = xget (\<lambda>s.
     let cur_loc = (rs_path s, fst node);
         pause = xget (\<lambda>s. if all_should_pause s then enter_breakpoint node sc else xret ())
     in if rs_next s then xbind (xmod (\<lambda>s. s\<lparr>rs_next := False\<rparr>)) (\<lambda>_. pause)
        else if rs_temp s = cur_loc then xbind (xmod (\<lambda>s. s\<lparr>rs_temp := ('''', -1)\<rparr>)) (\<lambda>_. pause)
        else if dmem cur_loc (rs_bkpts s) then pause
        else xret ())"

definition may_break :: "pstmt \<Rightarrow> scope \<Rightarrow> unit run" where
  "may_break stmt sc = xget (\<lambda>s.
     if rs_bkpts s \<noteq> [] \<or> rs_next s \<or> snd (rs_temp s) \<noteq> -1
     then check_enter_breakpoint (stmt_loc stmt) sc else xret ())"

definition get_for_stack :: "rstate \<Rightarrow> (loc \<times> int \<times> int \<times> int) list" where
  "get_for_stack s = map (\<lambda>(k, c). (k, ct_step c, fst (ct_range c), fst (snd (ct_range c)))) (rs_ctrl s)"

definition expr_hit :: "loc \<Rightarrow> val \<Rightarrow> unit run" where
  "expr_hit l v = xget (\<lambda>s.
     if rs_observed s \<noteq> [] \<and> l \<in> set (rs_observed s) then emit_run_event (ExprHit l (get_for_stack s) v) else xret ())"

subsection \<open>Expressions\<close>

definition observe :: "loc \<Rightarrow> val run \<Rightarrow> val run" where
  "observe l m = xbind m (\<lambda>v. xbind (expr_hit l v) (\<lambda>_. xret v))"

definition read_name :: "scope \<Rightarrow> string \<Rightarrow> val run" where
  "read_name sc x = (case dget sc x of Some v \<Rightarrow> xret v | None \<Rightarrow> xstop (PErr KeyError))"

definition finish_bools :: "pfl_env \<Rightarrow> bool_op_type \<Rightarrow> val list \<Rightarrow> val run" where
  "finish_bools E op res_arr = xget (\<lambda>s. xret (boolop_run E (rs_heap s) op res_arr))"

fun run_expr :: "pfl_env \<Rightarrow> scope \<Rightarrow> pexpr \<Rightarrow> val run"
  and run_exprs :: "pfl_env \<Rightarrow> scope \<Rightarrow> pexpr list \<Rightarrow> val list run"
  and run_items :: "pfl_env \<Rightarrow> scope \<Rightarrow> (pexpr option \<times> pexpr) list \<Rightarrow> (dkey \<times> val) list \<Rightarrow> (dkey \<times> val) list run"
  and run_bools :: "pfl_env \<Rightarrow> scope \<Rightarrow> bool_op_type \<Rightarrow> pexpr list \<Rightarrow> val list \<Rightarrow> val run"
where
  "run_expr E sc (PName l _ x) = observe l (read_name sc x)"
| "run_expr E sc (PConst l _ v) = observe l (xret v)"
| "run_expr E sc (PSubscript l _ a i store) = observe l
     (xbind (run_expr E sc a) (\<lambda>tgt. xbind (run_expr E sc i) (\<lambda>k. xheap (aread (py_getitem (pf_py E) tgt k)))))"
| "run_expr E sc (PArray l _ es) = observe l (xbind (run_exprs E sc es) (\<lambda>vs. xheap (alloc (OList vs))))"
| "run_expr E sc (PTuple l _ es) = observe l (xbind (run_exprs E sc es) (\<lambda>vs. xret (DTuple vs)))"
| "run_expr E sc (PDict l _ kvs) = observe l (xbind (run_items E sc kvs []) (\<lambda>m. xheap (alloc (ODict m))))"
| "run_expr E sc (PBoolOp l _ op es) = observe l (run_bools E sc op es [])"
| "run_expr E sc (PUnaryOp l _ op e) = observe l
     (xbind (run_expr E sc e) (\<lambda>x. xheap (aread (unaryop_run E op x))))"
| "run_expr E sc (PBinOp l _ op e f) = observe l
     (xbind (run_expr E sc e) (\<lambda>x. xbind (run_expr E sc f) (\<lambda>y. xheap (binop_run E op x y))))"
| "run_expr E sc (PCompare l _ op e f) = observe l
     (xbind (run_expr E sc e) (\<lambda>x. xbind (run_expr E sc f) (\<lambda>y. xheap (aread (compare_run E op x y)))))"
| "run_expr E sc (PIfExp l _ t e f) = observe l
     (xbind (run_expr E sc t) (\<lambda>b. xget (\<lambda>s.
        if truth (pf_py E) (rs_heap s) b then run_expr E sc e else run_expr E sc f)))"
| "run_exprs E sc [] = xret []"
| "run_exprs E sc (e # es) = xbind (run_expr E sc e) (\<lambda>v. xbind (run_exprs E sc es) (\<lambda>vs. xret (v # vs)))"
| "run_items E sc [] m = xret m"
| "run_items E sc ((k, e) # kvs) m = xbind (run_expr E sc e) (\<lambda>vv. case k of
       None \<Rightarrow> xbind (xheap (aread (update_items (pf_py E) vv))) (\<lambda>n. run_items E sc kvs (dupdate m n))
     | Some _ \<Rightarrow> xbind (run_expr E sc e) (\<lambda>kk.
         xbind (xheap (rlift (to_key (pf_py E) kk))) (\<lambda>key. run_items E sc kvs (dset key vv m))))"
| "run_bools E sc op [] res_arr = finish_bools E op (rev res_arr)"
| "run_bools E sc op (e # es) res_arr = xbind (run_expr E sc e) (\<lambda>v. xget (\<lambda>s.
     if truth (pf_py E) (rs_heap s) v = (op = OR) then xret (DBool (op = OR))
     else run_bools E sc op es (v # res_arr)))"

subsection \<open>Statements\<close>

datatype run_result = RNone | RBreak | RContinue | RReturn val

definition get_subscript_target_slice :: "pfl_env \<Rightarrow> scope \<Rightarrow> pexpr \<Rightarrow> pexpr \<Rightarrow> (val \<times> val) run" where
  "get_subscript_target_slice E sc a i =
     xbind (run_expr E sc a) (\<lambda>tgt. xbind (run_expr E sc i) (\<lambda>k. xret (tgt, k)))"

fun assign_names :: "pfl_env \<Rightarrow> val \<Rightarrow> nat \<Rightarrow> pexpr list \<Rightarrow> scope \<Rightarrow> scope run" where
  "assign_names E v i [] sc = xret sc"
| "assign_names E v i (PName l _ x # es) sc =
     xbind (xheap (aread (py_getitem (pf_py E) v (DInt (int i))))) (\<lambda>w. assign_names E v (Suc i) es (dset x w sc))"
| "assign_names E v i (e # es) sc = xstop (PErr AssertionError)"

fun assign_target :: "pfl_env \<Rightarrow> scope \<Rightarrow> pexpr \<Rightarrow> val \<Rightarrow> scope run" where
  "assign_target E sc (PSubscript l _ a i store) v =
     xbind (xassert store) (\<lambda>_.
     xbind (run_expr E sc a) (\<lambda>deep_val.
     xbind (get_subscript_target_slice E sc a i) (\<lambda>(tgt, k).
     xbind (xheap (py_setitem (pf_py E) tgt k v)) (\<lambda>_. xret sc))))"
| "assign_target E sc (PTuple l _ es) v = assign_names E v 0 es sc"
| "assign_target E sc (PName l _ x) v = xret (dset x v sc)"
| "assign_target E sc _ v = xstop (PErr AssertionError)"

fun aug_assign :: "pfl_env \<Rightarrow> scope \<Rightarrow> pexpr \<Rightarrow> bin_op_type \<Rightarrow> val \<Rightarrow> scope run" where
  "aug_assign E sc (PSubscript l _ a i store) op v =
     xbind (xassert store) (\<lambda>_.
     xbind (run_expr E sc a) (\<lambda>deep_val.
     xbind (get_subscript_target_slice E sc a i) (\<lambda>(tgt, k).
     xbind (xheap (aread (py_getitem (pf_py E) tgt k))) (\<lambda>w.
     xbind (xheap (augassign_run E op w v)) (\<lambda>new_val.
     xbind (xheap (py_setitem (pf_py E) tgt k new_val)) (\<lambda>_. xret sc))))))"
| "aug_assign E sc (PName l _ x) op v =
     xbind (read_name sc x) (\<lambda>w. xbind (xheap (augassign_run E op w v)) (\<lambda>new_val. xret (dset x new_val sc)))"
| "aug_assign E sc _ op v = xstop (PErr AssertionError)"

text \<open>\<open>for k in ks: scope[k] = private_scope[k]\<close>\<close>

fun copy_back :: "string list \<Rightarrow> scope \<Rightarrow> scope \<Rightarrow> scope run" where
  "copy_back [] priv sc = xret sc"
| "copy_back (k # ks) priv sc = xbind (read_name priv k) (\<lambda>v. copy_back ks priv (dset k v sc))"

fun run_if :: "pfl_env \<Rightarrow> (pstmt list \<Rightarrow> scope \<Rightarrow> (run_result \<times> scope) run) \<Rightarrow> (string \<times> info) list option \<Rightarrow>
    scope \<Rightarrow> (pexpr option \<times> pstmt list) list \<Rightarrow> scope run" where
  "run_if E rb new sc [] = xret sc"
| "run_if E rb new sc ((test, body) # tbs) =
     xbind (case test of None \<Rightarrow> xret (DBool True) | Some t \<Rightarrow> run_expr E sc t) (\<lambda>test_val. xget (\<lambda>s.
       if truth (pf_py E) (rs_heap s) test_val then
         xbind (rb body sc) (\<lambda>(r, priv).
         xbind (case new of None \<Rightarrow> xret sc | Some nv \<Rightarrow> copy_back (map fst nv) priv sc) (\<lambda>sc'.
         copy_back (dkeys sc') priv sc'))
       else run_if E rb new sc tbs))"

definition step_ctrl :: "loc \<Rightarrow> int \<Rightarrow> unit run" where
  "step_ctrl k i = xget (\<lambda>s. case dget (rs_ctrl s) k of
     None \<Rightarrow> xret ()
   | Some c \<Rightarrow>
       if ct_enabled c then
         xbind (if ct_step c < i then
             (let c' = c\<lparr>ct_step := i\<rparr> in
              xbind (xmod (\<lambda>s. s\<lparr>rs_ctrl := dset k c' (rs_ctrl s)\<rparr>)) (\<lambda>_. emit_run_event (CtrlChange k c')))
           else xret ()) (\<lambda>_.
         xmod (\<lambda>s. s\<lparr>rs_ctrl := dset k (c\<lparr>ct_step := max (ct_step c) i, ct_should_pause := (i \<ge> ct_step c)\<rparr>) (rs_ctrl s)\<rparr>))
       else xret ())"

text \<open>The items of a loop: each is given to the loop variable of the private scope. \<open>Some\<close> leaves the function.\<close>

fun for_range :: "(pstmt list \<Rightarrow> scope \<Rightarrow> (run_result \<times> scope) run) \<Rightarrow> loc \<Rightarrow> string \<Rightarrow> pstmt list \<Rightarrow> int list \<Rightarrow> scope \<Rightarrow>
    (run_result option \<times> scope) run" where
  "for_range rb stmt_id x body [] priv = xret (None, priv)"
| "for_range rb stmt_id x body (i # is) priv =
     xbind (step_ctrl stmt_id i) (\<lambda>_. xbind (rb body (dset x (DInt i) priv)) (\<lambda>(r, priv').
       case r of RBreak \<Rightarrow> xret (None, priv')
       | RReturn v \<Rightarrow> xret (Some (RReturn v), priv')
       | _ \<Rightarrow> for_range rb stmt_id x body is priv'))"

text \<open>A loop over a list reads it anew at every step, so it sees what its body changes.\<close>

primrec for_list :: "nat \<Rightarrow> (pstmt list \<Rightarrow> scope \<Rightarrow> (run_result \<times> scope) run) \<Rightarrow> string \<Rightarrow> pstmt list \<Rightarrow> val \<Rightarrow> nat \<Rightarrow> scope \<Rightarrow>
    (run_result option \<times> scope) run" where
  "for_list 0 rb x body xs i priv = xstop PFuel"
| "for_list (Suc n) rb x body xs i priv = xget (\<lambda>s. case as_list (rs_heap s) xs of
     Some vs \<Rightarrow>
       if i < length vs then
         xbind (rb body (dset x (vs ! i) priv)) (\<lambda>(r, priv').
           case r of RBreak \<Rightarrow> xret (None, priv')
           | RReturn v \<Rightarrow> xret (Some (RReturn v), priv')
           | _ \<Rightarrow> for_list n rb x body xs (Suc i) priv')
       else xret (None, priv)
   | None \<Rightarrow> xret (None, priv))"

definition range_loop :: "(pstmt list \<Rightarrow> scope \<Rightarrow> (run_result \<times> scope) run) \<Rightarrow> loc \<Rightarrow> bool \<Rightarrow> string \<Rightarrow> pstmt list \<Rightarrow>
    int \<times> int \<times> int \<Rightarrow> scope \<Rightarrow> (run_result option \<times> scope) run" where
  "range_loop rb stmt_id is_range x body r sc =
     (let ctrl = \<lparr>ct_should_pause = False, ct_enabled = True, ct_step = fst r, ct_range = r\<rparr> in
      xbind (xassert is_range) (\<lambda>_.
      xbind (xmod (\<lambda>s. s\<lparr>rs_ctrl := dset stmt_id ctrl (rs_ctrl s)\<rparr>)) (\<lambda>_.
      xbind (emit_run_event (NewCtrl stmt_id ctrl)) (\<lambda>_.
      xbind (for_range rb stmt_id x body (range_items r) sc) (\<lambda>(q, priv).
        case q of Some v \<Rightarrow> xret (Some v, sc)
        | None \<Rightarrow> xbind (copy_back (dkeys sc) priv sc) (\<lambda>sc'. xget (\<lambda>s.
            case dget (rs_ctrl s) stmt_id of
              None \<Rightarrow> xstop (PErr KeyError)
            | Some c \<Rightarrow> xbind (xmod (\<lambda>s. s\<lparr>rs_ctrl := ddel stmt_id (rs_ctrl s)\<rparr>)) (\<lambda>_.
                xbind (emit_run_event (DeleteCtrl stmt_id c)) (\<lambda>_. xret (None, sc'))))))))))"

definition list_loop :: "nat \<Rightarrow> (pstmt list \<Rightarrow> scope \<Rightarrow> (run_result \<times> scope) run) \<Rightarrow> string \<Rightarrow> pstmt list \<Rightarrow> val \<Rightarrow> scope \<Rightarrow>
    (run_result option \<times> scope) run" where
  "list_loop n rb x body xs sc =
     xbind (for_list n rb x body xs 0 sc) (\<lambda>(q, priv).
       case q of Some v \<Rightarrow> xret (Some v, sc)
       | None \<Rightarrow> xbind (copy_back (dkeys sc) priv sc) (\<lambda>sc'. xret (None, sc')))"

definition run_for :: "nat \<Rightarrow> pfl_env \<Rightarrow> (pstmt list \<Rightarrow> scope \<Rightarrow> (run_result \<times> scope) run) \<Rightarrow> loc \<Rightarrow> pexpr \<Rightarrow> pexpr \<Rightarrow>
    pstmt list \<Rightarrow> scope \<Rightarrow> (run_result option \<times> scope) run" where
  "run_for n E rb stmt_id tgt iter body sc =
     xbind (run_expr E sc iter) (\<lambda>iter_obj.
     case tgt of
       PName _ _ x \<Rightarrow> (case as_range E iter_obj of
         Some r \<Rightarrow> range_loop rb stmt_id (itype (st iter) = RANGE) x body r sc
       | None \<Rightarrow> xget (\<lambda>s.
           if as_list (rs_heap s) iter_obj \<noteq> None then list_loop n rb x body iter_obj sc
           else xstop (PErr NotImplementedError)))
     | _ \<Rightarrow> xstop (PErr AssertionError))"

primrec run_while :: "nat \<Rightarrow> pfl_env \<Rightarrow> (pstmt list \<Rightarrow> scope \<Rightarrow> (run_result \<times> scope) run) \<Rightarrow> pexpr \<Rightarrow> pstmt list \<Rightarrow>
    scope \<Rightarrow> (run_result option \<times> scope) run" where
  "run_while 0 E rb test body priv = xstop PFuel"
| "run_while (Suc n) E rb test body priv =
     xbind (run_expr E priv test) (\<lambda>t. xget (\<lambda>s.
       if truth (pf_py E) (rs_heap s) t then
         xbind (rb body priv) (\<lambda>(r, priv').
           case r of RBreak \<Rightarrow> xret (None, priv')
           | RReturn v \<Rightarrow> xret (Some (RReturn v), priv')
           | _ \<Rightarrow> run_while n E rb test body priv')
       else xret (None, priv)))"

text \<open>One statement: \<open>Some r\<close> ends the block with the result \<open>r\<close>.\<close>

fun exec_stmt :: "nat \<Rightarrow> pfl_env \<Rightarrow> (pstmt list \<Rightarrow> scope \<Rightarrow> (run_result \<times> scope) run) \<Rightarrow> pstmt \<Rightarrow> scope \<Rightarrow>
    (run_result option \<times> scope) run" where
  "exec_stmt n E rb (PAssign l tgt e) sc =
     xbind (run_expr E sc e) (\<lambda>v. xbind (expr_hit (source_loc tgt) v) (\<lambda>_.
     xbind (assign_target E sc tgt v) (\<lambda>sc'. xret (None, sc'))))"
| "exec_stmt n E rb (PAnnAssign l tgt a None) sc = xret (None, sc)"
| "exec_stmt n E rb (PAnnAssign l tgt a (Some e)) sc =
     xbind (run_expr E sc e) (\<lambda>v. xbind (expr_hit (source_loc tgt) v) (\<lambda>_.
     xbind (assign_target E sc tgt v) (\<lambda>sc'. xret (None, sc'))))"
| "exec_stmt n E rb (PAugAssign l tgt op e) sc =
     xbind (run_expr E sc e) (\<lambda>v. xbind (aug_assign E sc tgt op v) (\<lambda>sc'. xret (None, sc')))"
| "exec_stmt n E rb (PIf l test body orelse new) sc =
     xbind (run_if E rb new sc (get_flatten_test_body test body orelse)) (\<lambda>sc'. xret (None, sc'))"
| "exec_stmt n E rb (PFor l tgt iter body) sc = run_for n E rb l tgt iter body sc"
| "exec_stmt n E rb (PWhile l test body) sc =
     xbind (run_while n E rb test body sc) (\<lambda>(r, priv).
       case r of Some q \<Rightarrow> xret (Some q, sc)
       | None \<Rightarrow> xbind (copy_back (dkeys sc) priv sc) (\<lambda>sc'. xret (None, sc')))"
| "exec_stmt n E rb (PExprStmt l e) sc = xbind (run_expr E sc e) (\<lambda>_. xret (None, sc))"
| "exec_stmt n E rb (PReturn l None) sc = xret (Some RNone, sc)"
| "exec_stmt n E rb (PReturn l (Some e)) sc = xbind (run_expr E sc e) (\<lambda>v. xret (Some (RReturn v), sc))"
| "exec_stmt n E rb (PBreak l) sc = xret (Some RBreak, sc)"
| "exec_stmt n E rb (PContinue l) sc = xret (Some RContinue, sc)"

fun run_block :: "nat \<Rightarrow> pfl_env \<Rightarrow> (pstmt list \<Rightarrow> scope \<Rightarrow> (run_result \<times> scope) run) \<Rightarrow> pstmt list \<Rightarrow> scope \<Rightarrow>
    (run_result \<times> scope) run" where
  "run_block n E rb [] sc = xret (RNone, sc)"
| "run_block n E rb (stmt # stmts) sc =
     xbind (may_break stmt sc) (\<lambda>_. xbind (exec_stmt n E rb stmt sc) (\<lambda>(r, sc').
       case r of Some q \<Rightarrow> xret (q, sc') | None \<Rightarrow> run_block n E rb stmts sc'))"

definition in_frame :: "scope \<Rightarrow> 'a run \<Rightarrow> 'a run" where
  "in_frame sc m s = (case m (s\<lparr>rs_frame := sc\<rparr>) of (r, t) \<Rightarrow> (r, t\<lparr>rs_frame := rs_frame s\<rparr>))"

primrec run_body :: "nat \<Rightarrow> pfl_env \<Rightarrow> pstmt list \<Rightarrow> scope \<Rightarrow> (run_result \<times> scope) run" where
  "run_body 0 E block_body sc = xstop PFuel"
| "run_body (Suc n) E block_body sc = in_frame sc (run_block n E (run_body n E) block_body sc)"

definition run_func :: "nat \<Rightarrow> pfl_env \<Rightarrow> scope \<Rightarrow> pstmt list \<Rightarrow> scope \<Rightarrow> val run" where
  "run_func n E std_scope body sc =
     (let fn_scope = dupdate sc std_scope in
      in_frame fn_scope (xbind (run_body n E body fn_scope) (\<lambda>(r, _).
        xret (case r of RReturn v \<Rightarrow> v | _ \<Rightarrow> DNone))))"

definition run_finally :: "'a run \<Rightarrow> event \<Rightarrow> 'a run" where
  "run_finally m ev s = (case m s of (r, t) \<Rightarrow> (r, t\<lparr>rs_events := rs_events t @ [ev]\<rparr>))"

definition entry_point :: "nat \<Rightarrow> pfl_env \<Rightarrow> scope \<Rightarrow> pstmt list \<Rightarrow> scope \<Rightarrow> val run" where
  "entry_point n E std_scope body sc =
     run_finally (\<lambda>s. case xbind (emit_run_event RunStart) (\<lambda>_. run_func n E std_scope body sc) s of
       (Inl PStop, t) \<Rightarrow> (Inr DNone, t)
     | q \<Rightarrow> q) RunStop"

end
