(* ===== verification/PflAgree.thy ===== *)
theory PflAgree
  imports PflRun
begin

text \<open>
  Two runs of the evaluator that agree. \<open>agrees R m\<close>: from two related states \<open>m\<close> has the same outcome and ends in
  related states, unless the user ended the first run. The locale \<open>run_relation\<close> states what a relation must offer:
  related states have the same objects, and they stay related when the objects change in the same way, when the frame changes
  and when an observed expression is reported. Everything that evaluates expressions and assigns targets then agrees; the
  relations of the debugger and of the comparison with Python are its instances.
\<close>

definition user_ended :: "pstop + 'a \<Rightarrow> bool" where
  "user_ended r \<longleftrightarrow> r = Inl PStop \<or> r = Inl PBlocked"

definition agrees :: "(rstate \<Rightarrow> rstate \<Rightarrow> bool) \<Rightarrow> 'a run \<Rightarrow> bool" where
  "agrees R m \<longleftrightarrow> (\<forall>s t. R s t \<longrightarrow>
     user_ended (fst (m s)) \<or> fst (m s) = fst (m t) \<and> R (snd (m s)) (snd (m t)))"

definition quiet_state :: "rstate \<Rightarrow> bool" where
  "quiet_state s \<longleftrightarrow> rs_bkpts s = [] \<and> \<not> rs_next s \<and> snd (rs_temp s) = -1 \<and> rs_observed s = []"

named_theorems agree

lemma agrees_xret [agree]: "agrees R (xret x)"
  by (simp add: agrees_def xret_def)

lemma agrees_xstop [agree]: "agrees R (xstop e)"
  by (simp add: agrees_def xstop_def)

lemma agrees_xbind [agree]:
  assumes "agrees R m" and "\<And>x. agrees R (f x)"
  shows "agrees R (xbind m f)"
  unfolding agrees_def
proof (intro allI impI)
  fix s t
  assume st: "R s t"
  have m: "user_ended (fst (m s)) \<or> fst (m s) = fst (m t) \<and> R (snd (m s)) (snd (m t))"
    using assms(1) st by (auto simp: agrees_def)
  obtain r s' where ms: "m s = (r, s')" by (cases "m s")
  obtain r' t' where mt: "m t = (r', t')" by (cases "m t")
  show "user_ended (fst (xbind m f s)) \<or> fst (xbind m f s) = fst (xbind m f t) \<and> R (snd (xbind m f s)) (snd (xbind m f t))"
  proof (cases r)
    case (Inl e)
    then show ?thesis using m ms mt by (auto simp: xbind_def user_ended_def split: sum.splits)
  next
    case (Inr x)
    then have "r' = Inr x" "R s' t'" using m ms mt by (auto simp: user_ended_def)
    moreover from this have "user_ended (fst (f x s')) \<or> fst (f x s') = fst (f x t') \<and> R (snd (f x s')) (snd (f x t'))"
      using assms(2)[of x] by (auto simp: agrees_def)
    ultimately show ?thesis using Inr ms mt by (simp add: xbind_def)
  qed
qed

lemma agrees_xget:
  assumes "\<And>s. agrees R (f s)" and "\<And>s t. R s t \<Longrightarrow> f s = f t"
  shows "agrees R (xget f)"
  unfolding agrees_def xget_def using assms by (metis agrees_def)

lemma agrees_xassert [agree]: "agrees R (xassert b)"
  by (simp add: xassert_def agree)

lemma agrees_read_name [agree]: "agrees R (read_name sc x)"
  by (auto simp: read_name_def agree split: option.splits)

lemma agrees_copy_back [agree]: "agrees R (copy_back ks priv sc)"
  by (induction ks priv sc rule: copy_back.induct) (auto intro!: agree)

locale run_relation =
  fixes R :: "rstate \<Rightarrow> rstate \<Rightarrow> bool"
  assumes same_heap: "R s t \<Longrightarrow> rs_heap s = rs_heap t"
    and set_heap: "R s t \<Longrightarrow> R (s\<lparr>rs_heap := h\<rparr>) (t\<lparr>rs_heap := h\<rparr>)"
    and set_frame: "R s t \<Longrightarrow> R (s\<lparr>rs_frame := f\<rparr>) (t\<lparr>rs_frame := g\<rparr>)"
    and hit: "agrees R (expr_hit l v)"
begin

lemma agrees_xheap [agree]: "agrees R (xheap m)"
  unfolding agrees_def
proof (intro allI impI)
  fix s t
  assume st: "R s t"
  obtain r h where m: "m (rs_heap s) = (r, h)" by (cases "m (rs_heap s)")
  then have "m (rs_heap t) = (r, h)" using same_heap[OF st] by simp
  then show "user_ended (fst (xheap m s)) \<or> fst (xheap m s) = fst (xheap m t) \<and> R (snd (xheap m s)) (snd (xheap m t))"
    using m set_heap[OF st] by (cases r) (simp_all add: xheap_def)
qed

lemma agrees_in_frame [agree]:
  assumes "agrees R m"
  shows "agrees R (in_frame sc m)"
  unfolding agrees_def
proof (intro allI impI)
  fix s t
  assume "R s t"
  then have "R (s\<lparr>rs_frame := sc\<rparr>) (t\<lparr>rs_frame := sc\<rparr>)" by (rule set_frame)
  then have "user_ended (fst (m (s\<lparr>rs_frame := sc\<rparr>))) \<or>
     fst (m (s\<lparr>rs_frame := sc\<rparr>)) = fst (m (t\<lparr>rs_frame := sc\<rparr>)) \<and>
     R (snd (m (s\<lparr>rs_frame := sc\<rparr>))) (snd (m (t\<lparr>rs_frame := sc\<rparr>)))"
    using assms by (auto simp: agrees_def)
  then show "user_ended (fst (in_frame sc m s)) \<or> fst (in_frame sc m s) = fst (in_frame sc m t) \<and>
     R (snd (in_frame sc m s)) (snd (in_frame sc m t))"
    by (auto simp: in_frame_def split: prod.splits intro: set_frame)
qed

lemma agrees_truth [agree]:
  assumes "\<And>s::rstate. P (rs_heap s) \<Longrightarrow> agrees R m" "\<And>s::rstate. \<not> P (rs_heap s) \<Longrightarrow> agrees R m'"
  shows "agrees R (xget (\<lambda>s. if P (rs_heap s) then m else m'))"
  unfolding agrees_def xget_def
proof (intro allI impI)
  fix s t :: rstate
  assume st: "R s t"
  let ?m = "if P (rs_heap s) then m else m'"
  have "agrees R ?m" using assms[of s] by simp
  moreover have "(if P (rs_heap t) then m else m') = ?m" using same_heap[OF st] by simp
  ultimately show "user_ended (fst (?m s)) \<or>
     fst (?m s) = fst ((if P (rs_heap t) then m else m') t) \<and> R (snd (?m s)) (snd ((if P (rs_heap t) then m else m') t))"
    using st unfolding agrees_def by auto
qed

lemma agrees_observe [agree]: "agrees R m \<Longrightarrow> agrees R (observe l m)"
  by (auto simp: observe_def intro!: agree hit)

lemma agrees_finish [agree]: "agrees R (finish_bools E op vs)"
  unfolding finish_bools_def by (rule agrees_xget) (auto simp: agree dest: same_heap)

lemma agrees_expr [agree]:
  "agrees R (run_expr E sc e)"
  "agrees R (run_exprs E sc es)"
  "agrees R (run_items E sc kvs m)"
  "agrees R (run_bools E sc op es vs)"
proof (induction E sc e and E sc es and E sc kvs m and E sc op es vs
    rule: run_expr_run_exprs_run_items_run_bools.induct)
  case (15 E sc k e kvs m)
  then show ?case by (cases k) (auto intro!: agree)
qed (auto intro!: agree)

lemma agrees_assign_names [agree]: "agrees R (assign_names E v i es sc)"
  by (induction E v i es sc rule: assign_names.induct) (auto intro!: agree)

lemma agrees_target [agree]:
  "agrees R (assign_target E sc tgt v)" "agrees R (aug_assign E sc tgt op v)"
  by (cases tgt; auto simp: get_subscript_target_slice_def intro!: agree split: prod.splits)+

lemma agrees_hit [agree]: "agrees R (expr_hit l v)"
  by (rule hit)

end

end
