(* ===== verification/PflDebug.thy ===== *)
theory PflDebug
  imports PflAgree
begin

text \<open>
  Debugging a PFL program does not change what it computes: a run under the debugger and one from a quiet state (no
  breakpoints, nothing observed) with the same objects and loops agree, unless the user stops the run or never ends a
  pause.
\<close>

definition same_objects :: "rstate \<Rightarrow> rstate \<Rightarrow> bool" where
  "same_objects s t \<longleftrightarrow> rs_heap s = rs_heap t \<and> dkeys (rs_ctrl s) = dkeys (rs_ctrl t)"

definition debug_rel :: "rstate \<Rightarrow> rstate \<Rightarrow> bool" where
  "debug_rel s t \<longleftrightarrow> same_objects s t \<and> quiet_state t"

text \<open>Actions of the debugger alone: they leave the objects alone and do nothing in a quiet state.\<close>

definition silent_run :: "unit run \<Rightarrow> bool" where
  "silent_run m \<longleftrightarrow> (\<forall>s. user_ended (fst (m s)) \<or> fst (m s) = Inr () \<and> same_objects s (snd (m s))
     \<and> (quiet_state s \<longrightarrow> quiet_state (snd (m s)))) \<and> (\<forall>s. quiet_state s \<longrightarrow> fst (m s) = Inr ())"

lemma same_objects_refl [simp]: "same_objects s s"
  by (simp add: same_objects_def)

lemma silent_agrees:
  assumes "silent_run m"
  shows "agrees debug_rel m"
  unfolding agrees_def debug_rel_def
proof (intro allI impI)
  fix s t
  assume st: "same_objects s t \<and> quiet_state t"
  have s: "user_ended (fst (m s)) \<or> fst (m s) = Inr () \<and> same_objects s (snd (m s))"
    using assms by (auto simp: silent_run_def)
  have "fst (m t) = Inr ()" using assms st by (auto simp: silent_run_def)
  then have t: "fst (m t) = Inr ()" "same_objects t (snd (m t))" "quiet_state (snd (m t))"
    using assms st unfolding silent_run_def user_ended_def by (metis Inl_Inr_False)+
  show "user_ended (fst (m s)) \<or>
     fst (m s) = fst (m t) \<and> same_objects (snd (m s)) (snd (m t)) \<and> quiet_state (snd (m t))"
    using s t st by (auto simp: same_objects_def)
qed

subsection \<open>The actions of the debugger\<close>

lemma dkeys_dset_mem: "dget m k = Some v \<Longrightarrow> dkeys (dset k w m) = dkeys m"
  by (induction m) (auto split: if_splits)

lemma silent_emit: "silent_run (emit_run_event ev)"
  by (simp add: silent_run_def emit_run_event_def xmod_def same_objects_def quiet_state_def)

lemma user_cmd_keeps: "same_objects s (user_cmd c s)"
  by (cases c) (auto simp: same_objects_def remove_breakpoint_def dkeys_dset_mem split: option.splits)

lemma user_cmds_keep: "same_objects s (fold user_cmd cs s)"
proof (induction cs arbitrary: s)
  case (Cons c cs)
  show ?case using user_cmd_keeps[of s c] Cons.IH[of "user_cmd c s"] by (simp add: same_objects_def)
qed simp

lemma user_resume_keeps: "same_objects s (user_resume r s)"
  by (cases r) (auto simp: same_objects_def)

lemma wait_release_keeps:
  "user_ended (fst (wait_release s)) \<or> fst (wait_release s) = Inr () \<and> same_objects s (snd (wait_release s))"
  using user_cmds_keep user_resume_keeps
  by (fastforce simp: wait_release_def user_ended_def same_objects_def split: list.splits)

lemma enter_breakpoint_keeps:
  "user_ended (fst (enter_breakpoint node sc s)) \<or>
     fst (enter_breakpoint node sc s) = Inr () \<and> same_objects s (snd (enter_breakpoint node sc s))"
proof -
  let ?s = "s\<lparr>rs_type := PAUSE, rs_events := rs_events s @ [EnterBkpt node sc]\<rparr>"
  have w: "user_ended (fst (wait_release ?s)) \<or> fst (wait_release ?s) = Inr () \<and> same_objects ?s (snd (wait_release ?s))"
    by (rule wait_release_keeps)
  obtain r t where wt: "wait_release ?s = (r, t)" by (cases "wait_release ?s")
  show ?thesis using w wt
    by (auto simp: enter_breakpoint_def xbind_def xmod_def emit_run_event_def xget_def xstop_def same_objects_def
        user_ended_def split: sum.splits)
qed

lemma check_enter_breakpoint_keeps:
  "user_ended (fst (check_enter_breakpoint node sc s)) \<or>
     fst (check_enter_breakpoint node sc s) = Inr () \<and> same_objects s (snd (check_enter_breakpoint node sc s))"
  using enter_breakpoint_keeps[of node sc s] enter_breakpoint_keeps[of node sc "s\<lparr>rs_next := False\<rparr>"]
    enter_breakpoint_keeps[of node sc "s\<lparr>rs_temp := ('''', -1)\<rparr>"]
  by (auto simp: check_enter_breakpoint_def xget_def xbind_def xmod_def xret_def same_objects_def Let_def)

lemma silent_may_break: "silent_run (may_break stmt sc)"
  using check_enter_breakpoint_keeps[of "stmt_loc stmt" sc]
  by (auto simp: silent_run_def may_break_def xget_def xret_def quiet_state_def)

lemma silent_expr_hit: "silent_run (expr_hit l v)"
  by (auto simp: silent_run_def expr_hit_def xget_def xret_def quiet_state_def emit_run_event_def xmod_def same_objects_def)

lemma silent_step_ctrl: "silent_run (step_ctrl k i)"
  by (auto simp: silent_run_def step_ctrl_def xget_def xret_def quiet_state_def emit_run_event_def xmod_def same_objects_def
      xbind_def dkeys_dset_mem Let_def split: option.splits)

interpretation debugging: run_relation debug_rel
  by unfold_locales
    (auto simp: debug_rel_def same_objects_def quiet_state_def intro: silent_agrees silent_expr_hit)

lemma agrees_ctrl_keys:
  "agrees debug_rel (xmod (\<lambda>s. s\<lparr>rs_ctrl := dset k c (rs_ctrl s)\<rparr>))"
  by (auto simp: agrees_def debug_rel_def xmod_def same_objects_def quiet_state_def dict_simps)

lemmas [agree] = silent_emit[THEN silent_agrees] silent_may_break[THEN silent_agrees]
  silent_step_ctrl[THEN silent_agrees] agrees_ctrl_keys

subsection \<open>The evaluator\<close>

definition transparent_body :: "(pstmt list \<Rightarrow> scope \<Rightarrow> (run_result \<times> scope) run) \<Rightarrow> bool" where
  "transparent_body rb \<longleftrightarrow> (\<forall>b sc. agrees debug_rel (rb b sc))"

lemma transparent_bodyD: "transparent_body rb \<Longrightarrow> agrees debug_rel (rb b sc)"
  by (simp add: transparent_body_def)

lemma transparent_if [agree]:
  assumes "transparent_body rb"
  shows "agrees debug_rel (run_if E rb new sc tbs)"
proof (induction tbs)
  case (Cons tb tbs)
  then show ?case
    by (cases tb) (auto intro!: agree transparent_bodyD[OF assms] split: option.splits prod.splits)
qed (auto intro!: agree)

lemma transparent_for_range [agree]:
  assumes "transparent_body rb"
  shows "agrees debug_rel (for_range rb k x body is priv)"
proof (induction "is" arbitrary: priv)
  case (Cons i "is")
  then show ?case by (auto intro!: agree transparent_bodyD[OF assms] split: prod.splits run_result.splits)
qed (auto intro!: agree)

lemma transparent_for_list [agree]:
  assumes "transparent_body rb"
  shows "agrees debug_rel (for_list n rb x body xs i priv)"
proof (induction n arbitrary: i priv)
  case (Suc n)
  have "agrees debug_rel (case vs of Some vs \<Rightarrow>
       if i < length vs then xbind (rb body (dset x (vs ! i) priv)) (\<lambda>(r, priv').
           case r of RBreak \<Rightarrow> xret (None, priv') | RReturn v \<Rightarrow> xret (Some (RReturn v), priv')
           | _ \<Rightarrow> for_list n rb x body xs (Suc i) priv')
       else xret (None, priv)
     | None \<Rightarrow> xret (None, priv))" for vs
    using Suc by (auto intro!: agree transparent_bodyD[OF assms] split: prod.splits run_result.splits option.splits)
  then show ?case unfolding for_list.simps by (intro agrees_xget) (auto dest: debugging.same_heap)
qed (auto intro!: agree)

lemma transparent_while [agree]:
  assumes "transparent_body rb"
  shows "agrees debug_rel (run_while n E rb test body priv)"
proof (induction n arbitrary: priv)
  case (Suc n)
  then show ?case by (auto intro!: agree transparent_bodyD[OF assms] split: prod.splits run_result.splits)
qed (auto intro!: agree)

lemma transparent_list_loop [agree]: "transparent_body rb \<Longrightarrow> agrees debug_rel (list_loop n rb x body xs sc)"
  unfolding list_loop_def by (auto intro!: agree split: prod.splits option.splits)

definition end_ctrl :: "loc \<Rightarrow> 'a \<Rightarrow> 'a run" where
  "end_ctrl k q = xget (\<lambda>s. case dget (rs_ctrl s) k of
     None \<Rightarrow> xstop (PErr KeyError)
   | Some c \<Rightarrow> xbind (xmod (\<lambda>s. s\<lparr>rs_ctrl := ddel k (rs_ctrl s)\<rparr>)) (\<lambda>_. xbind (emit_run_event (DeleteCtrl k c)) (\<lambda>_. xret q)))"

lemma end_ctrl_step:
  "end_ctrl k q s = (case dget (rs_ctrl s) k of None \<Rightarrow> (Inl (PErr KeyError), s)
     | Some c \<Rightarrow> (Inr q, s\<lparr>rs_ctrl := ddel k (rs_ctrl s), rs_events := rs_events s @ [DeleteCtrl k c]\<rparr>))"
  by (simp add: end_ctrl_def xget_def xstop_def xbind_def xmod_def emit_run_event_def xret_def split: option.splits)

lemma transparent_ctrl_end: "agrees debug_rel (end_ctrl k q)"
  unfolding agrees_def
proof (intro allI impI)
  fix s t
  assume st: "debug_rel s t"
  have "dget (rs_ctrl s) k = None \<longleftrightarrow> dget (rs_ctrl t) k = None"
    using st by (simp add: dget_None_iff debug_rel_def same_objects_def)
  then show "user_ended (fst (end_ctrl k q s)) \<or>
     fst (end_ctrl k q s) = fst (end_ctrl k q t) \<and> debug_rel (snd (end_ctrl k q s)) (snd (end_ctrl k q t))"
    using st by (cases "dget (rs_ctrl s) k"; cases "dget (rs_ctrl t) k")
      (simp_all add: end_ctrl_step debug_rel_def same_objects_def quiet_state_def dict_simps)
qed

lemma transparent_range_loop [agree]: "transparent_body rb \<Longrightarrow> agrees debug_rel (range_loop rb k is_range x body r sc)"
  unfolding range_loop_def Let_def end_ctrl_def[symmetric] by (auto intro!: agree transparent_ctrl_end split: prod.splits option.splits)

lemma transparent_for [agree]:
  assumes "transparent_body rb"
  shows "agrees debug_rel (run_for n E rb k tgt iter body sc)"
  unfolding run_for_def using assms
  by (auto intro!: agree agrees_xget split: pexpr.splits option.splits simp: debug_rel_def same_objects_def)

lemma transparent_stmt [agree]:
  assumes "transparent_body rb"
  shows "agrees debug_rel (exec_stmt n E rb stmt sc)"
  using assms
  by (cases "(n, E, rb, stmt, sc)" rule: exec_stmt.cases) (auto intro!: agree split: prod.splits option.splits)

lemma transparent_block [agree]:
  assumes "transparent_body rb"
  shows "agrees debug_rel (run_block n E rb stmts sc)"
proof (induction stmts arbitrary: sc)
  case (Cons stmt stmts)
  then show ?case using assms by (auto intro!: agree split: prod.splits option.splits)
qed (auto intro!: agree)

lemma transparent_run_body: "transparent_body (run_body n E)"
proof (induction n)
  case (Suc n)
  show ?case using debugging.agrees_in_frame[OF transparent_block[OF Suc]] by (simp add: transparent_body_def)
qed (simp add: transparent_body_def agree)

lemma transparent_run_func: "agrees debug_rel (run_func n E std_scope body sc)"
  unfolding run_func_def Let_def
  by (auto intro!: agree transparent_bodyD[OF transparent_run_body] split: prod.splits)

text \<open>
  C13: debugging does not change the result of a function. Whatever the breakpoints, observed expressions, control points and
  commands of the user, a run that is not stopped ends with the result, the exception and the objects of the same run without
  the debugger.
\<close>

theorem debugging_transparent:
  assumes "rs_heap q = rs_heap s" and "dkeys (rs_ctrl q) = dkeys (rs_ctrl s)" and "quiet_state q"
    and "run_func n E std_scope body sc s = (r, t)" and "\<not> user_ended r"
  shows "\<exists>t'. run_func n E std_scope body sc q = (r, t') \<and> rs_heap t' = rs_heap t"
proof -
  have "debug_rel s q" using assms(1-3) by (simp add: debug_rel_def same_objects_def)
  then have "user_ended r \<or> r = fst (run_func n E std_scope body sc q) \<and> debug_rel t (snd (run_func n E std_scope body sc q))"
    using transparent_run_func[of n E std_scope body sc] assms(4) by (fastforce simp: agrees_def)
  then show ?thesis
    using assms(5) by (cases "run_func n E std_scope body sc q") (auto simp: debug_rel_def same_objects_def)
qed

text \<open>A loop with a breakpoint in its body: the user moves the slider of the loop, then goes on to the end.\<close>

definition plain_env :: pfl_env where
  "plain_env = \<lparr>
     pf_py = \<lparr>pe_attr = (\<lambda>_ _ _. None), pe_fields = (\<lambda>_. []), pe_arith = (\<lambda>_ _ _. Inr 0), pe_num_eq = (\<lambda>_ _. False),
       pe_num_cmp = (\<lambda>_ _ _. False), pe_float_true = (\<lambda>w. w \<noteq> 0), pe_float_int = (\<lambda>_. None),
       pe_format = (\<lambda>_ _ _. Inr []), pe_limit = 10\<rparr>,
     pf_float_op = (\<lambda>_ _ _. Inr (DFloat 0)), pf_same = (\<lambda>_ _. True),
     pf_range = (\<lambda>n. if n = 0 then Some (0, 3, 1) else None)\<rparr>"

definition plain_info :: "pfl_type \<Rightarrow> info" where
  "plain_info t = Info t [] False False None 0"

definition at_line :: "int \<Rightarrow> loc" where
  "at_line l = (l, 0, None, None)"

definition name_at :: "int \<Rightarrow> string \<Rightarrow> pexpr" where
  "name_at l x = PName (at_line l) (plain_info NUMBER) x"

definition sum_prog :: "pstmt list" where
  "sum_prog =
    [PFor (at_line 1) (name_at 1 ''i'') (PName (at_line 1) (plain_info RANGE) ''r'')
       [PAugAssign (at_line 2) (name_at 2 ''x'') ADD (name_at 2 ''i'')],
     PReturn (at_line 3) (Some (name_at 3 ''x''))]"

definition idle_state :: rstate where
  "idle_state = \<lparr>rs_heap = [], rs_type = IDLE, rs_path = ''f'', rs_frame = [], rs_ctrl = [], rs_next = False,
     rs_temp = ('''', -1), rs_bkpts = [], rs_observed = [], rs_events = [], rs_script = []\<rparr>"

definition debugged_state :: rstate where
  "debugged_state = idle_state\<lparr>rs_bkpts := [((''f'', 2), (True, False))], rs_observed := [at_line 3],
     rs_script := [([SetCtrl (at_line 1) 2], Release False), ([], ContinueNextLine), ([], Release False)]\<rparr>"

definition sum_scope :: scope where
  "sum_scope = [(''x'', DInt 10), (''r'', DOther 0)]"

lemmas prog_simps = plain_env_def plain_info_def at_line_def name_at_def sum_prog_def idle_state_def debugged_state_def
  sum_scope_def

lemma debugged_run:
  "fst (run_func 5 plain_env [] sum_prog sum_scope debugged_state) = Inr (DInt 13)"
  "length (rs_events (snd (run_func 5 plain_env [] sum_prog sum_scope debugged_state))) = 9"
  by code_simp+

theorem debugging_transparent_witness:
  "\<exists>t'. run_func 5 plain_env [] sum_prog sum_scope idle_state = (Inr (DInt 13), t') \<and>
     rs_heap t' = rs_heap (snd (run_func 5 plain_env [] sum_prog sum_scope debugged_state))"
proof (rule debugging_transparent[where s = debugged_state])
  show "run_func 5 plain_env [] sum_prog sum_scope debugged_state =
      (Inr (DInt 13), snd (run_func 5 plain_env [] sum_prog sum_scope debugged_state))"
    using debugged_run(1) by (metis prod.collapse)
qed (simp_all add: idle_state_def debugged_state_def quiet_state_def user_ended_def)

end
