(* ===== verification/PflPython.thy ===== *)
theory PflPython
  imports PflDebug
begin

text \<open>
  The evaluator against the language. \<open>py_block\<close> gives the statements of a PFL program the meaning they have in Python: one scope
  for the whole function, \<open>break\<close>, \<open>continue\<close> and \<open>return\<close> that leave every statement around them. (Expressions are those of the
  evaluator.) \<open>PFLAsyncThread\<close> runs every block in a private copy of the scope and drops the result of an \<open>if\<close>. On programs that have no
  \<open>break\<close>, \<open>continue\<close> or \<open>return\<close> under an \<open>if\<close> and no bare \<open>return\<close> (\<open>control_safe\<close>) it computes what Python computes; the examples at the end
  show what it does on the others.
\<close>

subsection \<open>Reference semantics\<close>

type_synonym py_run = "scope \<Rightarrow> (run_result \<times> scope) run"

fun py_for_range :: "py_run \<Rightarrow> string \<Rightarrow> int list \<Rightarrow> py_run" where
  "py_for_range body x [] sc = xret (RNone, sc)"
| "py_for_range body x (i # is) sc = xbind (body (dset x (DInt i) sc)) (\<lambda>(r, sc').
     case r of RBreak \<Rightarrow> xret (RNone, sc') | RReturn v \<Rightarrow> xret (RReturn v, sc') | _ \<Rightarrow> py_for_range body x is sc')"

primrec py_for_list :: "nat \<Rightarrow> py_run \<Rightarrow> string \<Rightarrow> val \<Rightarrow> nat \<Rightarrow> py_run" where
  "py_for_list 0 body x xs i sc = xstop PFuel"
| "py_for_list (Suc n) body x xs i sc = xget (\<lambda>s. case as_list (rs_heap s) xs of
     Some vs \<Rightarrow>
       if i < length vs then xbind (body (dset x (vs ! i) sc)) (\<lambda>(r, sc').
         case r of RBreak \<Rightarrow> xret (RNone, sc') | RReturn v \<Rightarrow> xret (RReturn v, sc')
         | _ \<Rightarrow> py_for_list n body x xs (Suc i) sc')
       else xret (RNone, sc)
   | None \<Rightarrow> xret (RNone, sc))"

primrec py_while :: "nat \<Rightarrow> pfl_env \<Rightarrow> pexpr \<Rightarrow> py_run \<Rightarrow> py_run" where
  "py_while 0 E test body sc = xstop PFuel"
| "py_while (Suc n) E test body sc = xbind (run_expr E sc test) (\<lambda>t. xget (\<lambda>s.
     if truth (pf_py E) (rs_heap s) t then xbind (body sc) (\<lambda>(r, sc').
       case r of RBreak \<Rightarrow> xret (RNone, sc') | RReturn v \<Rightarrow> xret (RReturn v, sc')
       | _ \<Rightarrow> py_while n E test body sc')
     else xret (RNone, sc)))"

fun py_stmt :: "nat \<Rightarrow> pfl_env \<Rightarrow> pstmt \<Rightarrow> py_run"
  and py_block :: "nat \<Rightarrow> pfl_env \<Rightarrow> pstmt list \<Rightarrow> py_run"
where
  "py_stmt n E (PAssign l tgt e) sc =
     xbind (run_expr E sc e) (\<lambda>v. xbind (assign_target E sc tgt v) (\<lambda>sc'. xret (RNone, sc')))"
| "py_stmt n E (PAnnAssign l tgt a None) sc = xret (RNone, sc)"
| "py_stmt n E (PAnnAssign l tgt a (Some e)) sc =
     xbind (run_expr E sc e) (\<lambda>v. xbind (assign_target E sc tgt v) (\<lambda>sc'. xret (RNone, sc')))"
| "py_stmt n E (PAugAssign l tgt op e) sc =
     xbind (run_expr E sc e) (\<lambda>v. xbind (aug_assign E sc tgt op v) (\<lambda>sc'. xret (RNone, sc')))"
| "py_stmt n E (PIf l test body orelse new) sc =
     xbind (run_expr E sc test) (\<lambda>t. xget (\<lambda>s.
       if truth (pf_py E) (rs_heap s) t then py_block n E body sc else py_block n E orelse sc))"
| "py_stmt n E (PFor l tgt iter body) sc = xbind (run_expr E sc iter) (\<lambda>iter_obj.
     case tgt of
       PName _ _ x \<Rightarrow> (case as_range E iter_obj of
         Some r \<Rightarrow> py_for_range (py_block n E body) x (range_items r) sc
       | None \<Rightarrow> xget (\<lambda>s. if as_list (rs_heap s) iter_obj \<noteq> None
           then py_for_list n (py_block n E body) x iter_obj 0 sc else xstop (PErr NotImplementedError)))
     | _ \<Rightarrow> xstop (PErr AssertionError))"
| "py_stmt n E (PWhile l test body) sc = py_while n E test (py_block n E body) sc"
| "py_stmt n E (PExprStmt l e) sc = xbind (run_expr E sc e) (\<lambda>_. xret (RNone, sc))"
| "py_stmt n E (PReturn l None) sc = xret (RReturn DNone, sc)"
| "py_stmt n E (PReturn l (Some e)) sc = xbind (run_expr E sc e) (\<lambda>v. xret (RReturn v, sc))"
| "py_stmt n E (PBreak l) sc = xret (RBreak, sc)"
| "py_stmt n E (PContinue l) sc = xret (RContinue, sc)"
| "py_block n E [] sc = xret (RNone, sc)"
| "py_block n E (stmt # stmts) sc = xbind (py_stmt n E stmt sc) (\<lambda>(r, sc').
     if r = RNone then py_block n E stmts sc' else xret (r, sc'))"

definition py_func :: "nat \<Rightarrow> pfl_env \<Rightarrow> scope \<Rightarrow> pstmt list \<Rightarrow> scope \<Rightarrow> val run" where
  "py_func n E std_scope body sc = xbind (py_block n E body (dupdate sc std_scope)) (\<lambda>(r, _).
     xret (case r of RReturn v \<Rightarrow> v | _ \<Rightarrow> DNone))"

text \<open>
  \<open>leaves b s\<close>: a statement that can end the block around it; \<open>b\<close> tells whether a \<open>break\<close> or \<open>continue\<close> counts (not inside a loop of its own).
\<close>

fun leaves :: "bool \<Rightarrow> pstmt \<Rightarrow> bool" where
  "leaves b (PReturn l e) = True"
| "leaves b (PBreak l) = b"
| "leaves b (PContinue l) = b"
| "leaves b (PIf l test body orelse new) = (list_ex (leaves b) body \<or> list_ex (leaves b) orelse)"
| "leaves b (PFor l tgt iter body) = list_ex (leaves False) body"
| "leaves b (PWhile l test body) = list_ex (leaves False) body"
| "leaves b _ = False"

fun control_safe :: "pstmt \<Rightarrow> bool" where
  "control_safe (PReturn l e) = (e \<noteq> None)"
| "control_safe (PIf l test body orelse new) =
     (\<not> list_ex (leaves True) body \<and> \<not> list_ex (leaves True) orelse \<and>
      list_all control_safe body \<and> list_all control_safe orelse)"
| "control_safe (PFor l tgt iter body) = list_all control_safe body"
| "control_safe (PWhile l test body) = list_all control_safe body"
| "control_safe _ = True"


subsection \<open>Simulation\<close>

definition py_rel :: "rstate \<Rightarrow> rstate \<Rightarrow> bool" where
  "py_rel s t \<longleftrightarrow> rs_heap s = rs_heap t \<and> quiet_state s \<and> quiet_state t"

lemma quiet_hit: "quiet_state s \<Longrightarrow> expr_hit l v s = (Inr (), s)"
  by (simp add: expr_hit_def xget_def xret_def quiet_state_def)

interpretation python: run_relation py_rel
  by unfold_locales (auto simp: py_rel_def quiet_state_def agrees_def quiet_hit[unfolded quiet_state_def])

definition sims :: "('a \<Rightarrow> 'b \<Rightarrow> bool) \<Rightarrow> 'a run \<Rightarrow> 'b run \<Rightarrow> bool" where
  "sims Q m m' \<longleftrightarrow> (\<forall>s t x s'. py_rel s t \<longrightarrow> m s = (Inr x, s') \<longrightarrow>
     (\<exists>y t'. m' t = (Inr y, t') \<and> py_rel s' t' \<and> Q x y))"

lemma simsD:
  "sims Q m m' \<Longrightarrow> py_rel s t \<Longrightarrow> m s = (Inr x, s') \<Longrightarrow> \<exists>y t'. m' t = (Inr y, t') \<and> py_rel s' t' \<and> Q x y"
  unfolding sims_def by blast

named_theorems sim

lemma sims_agrees: "agrees py_rel m \<Longrightarrow> sims (=) m m"
  unfolding agrees_def sims_def user_ended_def by (metis fst_conv snd_conv prod.collapse Inl_Inr_False)

lemma sims_ret [sim]: "Q x y \<Longrightarrow> sims Q (xret x) (xret y)"
  by (simp add: sims_def xret_def)

lemma sims_stop [sim]: "sims Q (xstop e) m"
  by (simp add: sims_def xstop_def)

lemma sims_bind [sim]:
  assumes "sims Q m m'" and "\<And>x y. Q x y \<Longrightarrow> sims P (f x) (g y)"
  shows "sims P (xbind m f) (xbind m' g)"
  unfolding sims_def
proof (intro allI impI)
  fix s t z u
  assume st: "py_rel s t" and z: "xbind m f s = (Inr z, u)"
  obtain x s' where m: "m s = (Inr x, s')" and f: "f x s' = (Inr z, u)"
    using z by (auto simp: xbind_def split: prod.splits sum.splits)
  obtain y t' where "m' t = (Inr y, t')" "py_rel s' t'" "Q x y" using simsD[OF assms(1) st m] by blast
  then show "\<exists>y t'. xbind m' g t = (Inr y, t') \<and> py_rel u t' \<and> P z y"
    using simsD[OF assms(2) _ f] by (auto simp: xbind_def)
qed

lemma sims_weaken: "sims Q m m' \<Longrightarrow> (\<And>x y. Q x y \<Longrightarrow> P x y) \<Longrightarrow> sims P m m'"
  unfolding sims_def by blast

text \<open>An action of the evaluator alone, which leaves the objects alone.\<close>

definition idle_run :: "'a run \<Rightarrow> bool" where
  "idle_run m \<longleftrightarrow> (\<forall>s. quiet_state s \<longrightarrow> quiet_state (snd (m s)) \<and> rs_heap (snd (m s)) = rs_heap s)"

lemma sims_idle:
  assumes "idle_run m" and "\<And>x s u. m s = (Inr x, u) \<Longrightarrow> sims P (f x) m'"
  shows "sims P (xbind m f) m'"
  unfolding sims_def
proof (intro allI impI)
  fix s t z u
  assume st: "py_rel s t" and z: "xbind m f s = (Inr z, u)"
  obtain x s' where m: "m s = (Inr x, s')" and f: "f x s' = (Inr z, u)"
    using z by (auto simp: xbind_def split: prod.splits sum.splits)
  have "py_rel s' t" using assms(1) st m unfolding idle_run_def py_rel_def by (metis snd_conv)
  then show "\<exists>y t'. m' t = (Inr y, t') \<and> py_rel u t' \<and> P z y" using simsD[OF assms(2)[OF m] _ f] by blast
qed

lemma sims_frame:
  assumes "sims Q m m'"
  shows "sims Q (in_frame sc m) m'"
  unfolding sims_def
proof (intro allI impI)
  fix s t z u
  assume st: "py_rel s t" and z: "in_frame sc m s = (Inr z, u)"
  obtain s' where m: "m (s\<lparr>rs_frame := sc\<rparr>) = (Inr z, s')" and u: "u = s'\<lparr>rs_frame := rs_frame s\<rparr>"
    using z by (auto simp: in_frame_def split: prod.splits)
  have "py_rel (s\<lparr>rs_frame := sc\<rparr>) t" using st by (simp add: py_rel_def quiet_state_def)
  from simsD[OF assms this m] show "\<exists>y t'. m' t = (Inr y, t') \<and> py_rel u t' \<and> Q z y"
    using u by (auto simp: py_rel_def quiet_state_def)
qed

lemma sims_heap [sim]: "sims (=) (xheap m) (xheap m)"
  by (rule sims_agrees) (rule python.agrees_xheap)

lemma sims_hit [sim]: "sims (=) (expr_hit l v) (expr_hit l v)"
  by (rule sims_agrees) (rule python.hit)

lemma sims_truth [sim]:
  assumes "\<And>s::rstate. P (rs_heap s) \<Longrightarrow> sims Q a a'" and "\<And>s::rstate. \<not> P (rs_heap s) \<Longrightarrow> sims Q b b'"
  shows "sims Q (xget (\<lambda>s. if P (rs_heap s) then a else b)) (xget (\<lambda>s. if P (rs_heap s) then a' else b'))"
  unfolding sims_def xget_def
proof (intro allI impI)
  fix s t x u
  assume st: "py_rel s t" and x: "(if P (rs_heap s) then a else b) s = (Inr x, u)"
  have t: "rs_heap t = rs_heap s" using st by (simp add: py_rel_def)
  show "\<exists>y t'. (if P (rs_heap t) then a' else b') t = (Inr y, t') \<and> py_rel u t' \<and> Q x y"
    using assms[of s] simsD[OF _ st] x t by (cases "P (rs_heap s)") auto
qed

lemma sims_option:
  assumes "\<And>v. sims Q (a v) (a' v)" and "sims Q b b'"
  shows "sims Q (xget (\<lambda>s. case f (rs_heap s) of Some v \<Rightarrow> a v | None \<Rightarrow> b))
    (xget (\<lambda>s. case f (rs_heap s) of Some v \<Rightarrow> a' v | None \<Rightarrow> b'))"
  unfolding sims_def xget_def
proof (intro allI impI)
  fix s t x u
  assume st: "py_rel s t" and x: "(case f (rs_heap s) of Some v \<Rightarrow> a v | None \<Rightarrow> b) s = (Inr x, u)"
  have t: "rs_heap t = rs_heap s" using st by (simp add: py_rel_def)
  show "\<exists>y t'. (case f (rs_heap t) of Some v \<Rightarrow> a' v | None \<Rightarrow> b') t = (Inr y, t') \<and> py_rel u t' \<and> Q x y"
    using simsD[OF assms(1) st] simsD[OF assms(2) st] x t by (cases "f (rs_heap s)") auto
qed

lemma sims_assert [sim]: "sims (=) (xassert b) (xassert b)"
  by (simp add: xassert_def sim)

subsection \<open>Scopes\<close>

definition sub_scope :: "scope \<Rightarrow> scope \<Rightarrow> bool" where
  "sub_scope sc sc' \<longleftrightarrow> (\<forall>k v. dget sc k = Some v \<longrightarrow> dget sc' k = Some v)"

lemma sub_refl [simp]: "sub_scope sc sc"
  by (simp add: sub_scope_def)

lemma sub_dset: "sub_scope sc sc' \<Longrightarrow> sub_scope (dset x v sc) (dset x v sc')"
  by (simp add: sub_scope_def)

lemma sub_trans: "sub_scope a b \<Longrightarrow> sub_scope b c \<Longrightarrow> sub_scope a c"
  by (simp add: sub_scope_def)

lemma sims_read_name [sim]: "sub_scope sc sc' \<Longrightarrow> sims (=) (read_name sc x) (read_name sc' x)"
  by (auto simp: read_name_def sub_scope_def sim split: option.splits)

lemma copy_back_result:
  "copy_back ks priv sc s = (Inr r, t) \<Longrightarrow> t = s \<and> set (dkeys r) \<subseteq> set (dkeys sc) \<union> set ks \<and> (\<forall>k \<in> set ks. dget r k = dget priv k)
     \<and> (\<forall>k. k \<notin> set ks \<longrightarrow> dget r k = dget sc k)"
proof (induction ks priv sc arbitrary: s rule: copy_back.induct)
  case (2 k ks priv sc)
  from "2.prems" obtain v where v: "dget priv k = Some v" "copy_back ks priv (dset k v sc) s = (Inr r, t)"
    by (auto simp: xbind_def read_name_def xret_def xstop_def split: option.splits)
  have IH: "t = s" "set (dkeys r) \<subseteq> set (dkeys (dset k v sc)) \<union> set ks" "\<forall>k \<in> set ks. dget r k = dget priv k"
    "\<And>j. j \<notin> set ks \<Longrightarrow> dget r j = dget (dset k v sc) j"
    using "2.IH"[OF v(2)] by auto
  have "dget r k = dget priv k" using IH(3) IH(4)[of k] v(1) by (cases "k \<in> set ks") auto
  then show ?case using IH by (auto simp: dict_simps split: if_splits)
qed (simp add: xret_def)

lemma copy_back_sub:
  assumes "copy_back (dkeys sc) priv sc s = (Inr r, t)"
  shows "sub_scope r priv"
proof -
  have r: "set (dkeys r) \<subseteq> set (dkeys sc)" "\<forall>k \<in> set (dkeys sc). dget r k = dget priv k"
    using copy_back_result[OF assms] by auto
  show ?thesis unfolding sub_scope_def
  proof (intro allI impI)
    fix k v
    assume k: "dget r k = Some v"
    then have "k \<in> set (dkeys r)" by (rule dget_Some_mem)
    then show "dget priv k = Some v" using r k by auto
  qed
qed

lemma idle_copy_back: "idle_run (copy_back ks priv sc)"
proof (induction ks priv sc rule: copy_back.induct)
  case (2 k ks priv sc)
  show ?case using 2 by (cases "dget priv k") (auto simp: idle_run_def xbind_def read_name_def xret_def xstop_def)
qed (simp add: idle_run_def xret_def)

lemma sims_observe [sim]: "sims (=) m m' \<Longrightarrow> sims (=) (observe l m) (observe l m')"
  by (auto simp: observe_def intro!: sim)

lemma sims_finish [sim]: "sims (=) (finish_bools E op vs) (finish_bools E op vs)"
  by (rule sims_agrees) (rule python.agrees_finish)

lemma sims_expr [sim]:
  "sub_scope sc sc' \<Longrightarrow> sims (=) (run_expr E sc e) (run_expr E sc' e)"
  "sub_scope sc sc' \<Longrightarrow> sims (=) (run_exprs E sc es) (run_exprs E sc' es)"
  "sub_scope sc sc' \<Longrightarrow> sims (=) (run_items E sc kvs m) (run_items E sc' kvs m)"
  "sub_scope sc sc' \<Longrightarrow> sims (=) (run_bools E sc op es vs) (run_bools E sc' op es vs)"
proof (induction E sc e and E sc es and E sc kvs m and E sc op es vs
    rule: run_expr_run_exprs_run_items_run_bools.induct)
  case (15 E sc k e kvs m)
  then show ?case by (cases k) (auto intro!: sim)
next
  case (17 E sc op e es res_arr)
  have "sims (=) (xget (\<lambda>s. if truth (pf_py E) (rs_heap s) v = (op = OR) then xret (DBool (op = OR))
       else run_bools E sc op es (v # res_arr)))
     (xget (\<lambda>s. if truth (pf_py E) (rs_heap s) v = (op = OR) then xret (DBool (op = OR))
       else run_bools E sc' op es (v # res_arr)))" for v
    by (rule sims_truth, rule sims_ret, simp, rule "17.IH"(2)[OF _ "17.prems"], simp)
  then show ?case using "17.IH"(1)[OF "17.prems"] by (auto intro!: sims_bind)
qed (auto intro!: sim)

lemma sims_assign_names [sim]:
  "sub_scope sc sc' \<Longrightarrow> sims sub_scope (assign_names E v i es sc) (assign_names E v i es sc')"
  by (induction E v i es sc arbitrary: sc' rule: assign_names.induct) (auto intro!: sim sub_dset)

lemma sims_subscript_target [sim]:
  "sub_scope sc sc' \<Longrightarrow> sims (=) (get_subscript_target_slice E sc a i) (get_subscript_target_slice E sc' a i)"
  unfolding get_subscript_target_slice_def by (rule sims_bind sims_expr(1) sims_ret | assumption | simp)+

lemma sims_assign_target [sim]:
  assumes "sub_scope sc sc'"
  shows "sims sub_scope (assign_target E sc tgt v) (assign_target E sc' tgt v)"
proof (cases tgt)
  case (PSubscript l i a k store)
  have "sims sub_scope (case p of (tgt, k) \<Rightarrow> xbind (xheap (py_setitem (pf_py E) tgt k v)) (\<lambda>_. xret sc))
     (case p of (tgt, k) \<Rightarrow> xbind (xheap (py_setitem (pf_py E) tgt k v)) (\<lambda>_. xret sc'))" for p
    using assms by (cases p) (auto intro: sims_bind[OF sims_heap] sims_ret)
  then show ?thesis
    using assms unfolding PSubscript assign_target.simps
    by (intro sims_bind[OF sims_assert] sims_bind[OF sims_expr(1)] sims_bind[OF sims_subscript_target]) auto
qed (use assms in \<open>auto intro!: sim sub_dset\<close>)

lemma sims_aug_assign [sim]:
  assumes "sub_scope sc sc'"
  shows "sims sub_scope (aug_assign E sc tgt op v) (aug_assign E sc' tgt op v)"
proof (cases tgt)
  case (PSubscript l i a k store)
  have "sims sub_scope
     (case p of (tgt, k) \<Rightarrow> xbind (xheap (aread (py_getitem (pf_py E) tgt k))) (\<lambda>w.
        xbind (xheap (augassign_run E op w v)) (\<lambda>new_val. xbind (xheap (py_setitem (pf_py E) tgt k new_val)) (\<lambda>_. xret sc))))
     (case p of (tgt, k) \<Rightarrow> xbind (xheap (aread (py_getitem (pf_py E) tgt k))) (\<lambda>w.
        xbind (xheap (augassign_run E op w v)) (\<lambda>new_val. xbind (xheap (py_setitem (pf_py E) tgt k new_val)) (\<lambda>_. xret sc'))))" for p
    using assms by (cases p) (auto intro!: sims_bind[OF sims_heap] sims_ret)
  then show ?thesis
    using assms unfolding PSubscript aug_assign.simps
    by (intro sims_bind[OF sims_assert] sims_bind[OF sims_expr(1)] sims_bind[OF sims_subscript_target]) auto
next
  case (PName l i x)
  then show ?thesis
    using assms by (auto intro!: sims_bind[OF sims_read_name] sims_bind[OF sims_heap] sims_ret sub_dset)
qed (use assms in \<open>auto intro!: sim\<close>)

subsection \<open>Leaving a block\<close>

lemma xbind_Inr: "xbind m f s = (Inr z, u) \<longleftrightarrow> (\<exists>x s'. m s = (Inr x, s') \<and> f x s' = (Inr z, u))"
  by (auto simp: xbind_def split: prod.splits sum.splits)

definition stays :: "bool \<Rightarrow> run_result \<Rightarrow> bool" where
  "stays b r \<longleftrightarrow> r = RNone \<or> \<not> b \<and> (r = RBreak \<or> r = RContinue)"

definition stays_in :: "bool \<Rightarrow> (run_result \<times> scope) run \<Rightarrow> bool" where
  "stays_in b m \<longleftrightarrow> (\<forall>s r sc t. m s = (Inr (r, sc), t) \<longrightarrow> stays b r)"

lemma stays_inD: "stays_in b m \<Longrightarrow> m s = (Inr (r, sc), t) \<Longrightarrow> stays b r"
  unfolding stays_in_def by blast

lemma stays_in_get: "(\<And>s. stays_in b (f s)) \<Longrightarrow> stays_in b (xget f)"
  unfolding stays_in_def xget_def by blast

lemma stays_in_bind: "(\<And>x. stays_in b (f x)) \<Longrightarrow> stays_in b (xbind m f)"
  unfolding stays_in_def xbind_Inr by blast

lemma stays_in_stop [simp]: "stays_in b (xstop e)"
  by (simp add: stays_in_def xstop_def)

lemma stays_in_next:
  assumes "stays_in False m" and "\<And>sc. stays_in b (go sc)"
  shows "stays_in b (xbind m (\<lambda>(r, sc'). case r of RBreak \<Rightarrow> xret (RNone, sc')
     | RReturn v \<Rightarrow> xret (RReturn v, sc') | _ \<Rightarrow> go sc'))"
  unfolding stays_in_def
proof (intro allI impI)
  fix s r sc t
  assume "xbind m (\<lambda>(r, sc'). case r of RBreak \<Rightarrow> xret (RNone, sc')
     | RReturn v \<Rightarrow> xret (RReturn v, sc') | _ \<Rightarrow> go sc') s = (Inr (r, sc), t)"
  then obtain q sc1 s1 where m: "m s = (Inr (q, sc1), s1)" and q: "(case q of RBreak \<Rightarrow> xret (RNone, sc1)
     | RReturn v \<Rightarrow> xret (RReturn v, sc1) | _ \<Rightarrow> go sc1) s1 = (Inr (r, sc), t)"
    by (auto simp: xbind_Inr)
  have "stays False q" by (rule stays_inD[OF assms(1) m])
  then show "stays b r" using q stays_inD[OF assms(2)] by (cases q) (auto simp: xret_def stays_def)
qed

lemma stays_in_loops:
  assumes "\<And>sc. stays_in False (body sc)"
  shows "stays_in b (py_for_range body x is sc)" "stays_in b (py_for_list n body x xs i sc)" "stays_in b (py_while n E test body sc)"
proof -
  have ret: "stays_in b (xret (RNone, sc))" for sc by (simp add: stays_in_def xret_def stays_def)
  note go = stays_in_next[OF assms]
  show "stays_in b (py_for_range body x is sc)"
    by (induction "is" arbitrary: sc) (simp_all add: ret go)
  show "stays_in b (py_for_list n body x xs i sc)"
    by (induction n arbitrary: i sc) (auto intro!: stays_in_get ret go split: option.splits)
  show "stays_in b (py_while n E test body sc)"
    by (induction n arbitrary: sc) (auto intro!: stays_in_get stays_in_bind[of _ _ "run_expr _ _ _"] ret go)
qed

lemma leaves_stays:
  "\<not> leaves b stmt \<Longrightarrow> stays_in b (py_stmt n E stmt sc)"
  "\<not> list_ex (leaves b) stmts \<Longrightarrow> stays_in b (py_block n E stmts sc)"
proof (induction n E stmt sc and n E stmts sc arbitrary: b and b rule: py_stmt_py_block.induct)
  case (5 n E l test body orelse new sc)
  then show ?case by (fastforce simp: stays_in_def xbind_Inr xget_def split: if_splits)
next
  case (6 n E l tgt iter body sc)
  show ?case unfolding stays_in_def
  proof (intro allI impI)
    fix s r sc' t
    assume run: "py_stmt n E (PFor l tgt iter body) sc s = (Inr (r, sc'), t)"
    show "stays b r"
    proof (cases tgt)
      case (PName k i x)
      obtain v s1 where v: "(case as_range E v of
           Some q \<Rightarrow> py_for_range (py_block n E body) x (range_items q) sc
         | None \<Rightarrow> xget (\<lambda>s. if as_list (rs_heap s) v \<noteq> None then py_for_list n (py_block n E body) x v 0 sc
             else xstop (PErr NotImplementedError))) s1 = (Inr (r, sc'), t)"
        using run PName by (auto simp: xbind_Inr)
      show ?thesis
      proof (cases "as_range E v")
        case None
        have l: "as_list (rs_heap s1) v \<noteq> None" "py_for_list n (py_block n E body) x v 0 sc s1 = (Inr (r, sc'), t)"
          using v None by (auto simp: xget_def xstop_def split: if_splits)
        have "stays_in False (py_block n E body sc)" for sc
          using "6.IH"(1)[OF PName None l(1)] "6.prems" by simp
        from stays_inD[OF stays_in_loops(2)[OF this] l(2)] show ?thesis .
      next
        case (Some q)
        have "stays_in False (py_block n E body sc)" for sc
          using "6.IH"(2)[OF PName Some] "6.prems" by simp
        from stays_inD[OF stays_in_loops(1)[OF this]] v Some show ?thesis by simp
      qed
    qed (use run in \<open>auto simp: xbind_Inr xstop_def\<close>)
  qed
next
  case (7 n E l test body sc)
  have "stays_in False (py_block n E body sc)" for sc using 7 by auto
  from stays_in_loops(3)[OF this] show ?case by simp
next
  case (14 n E stmt stmts sc)
  then show ?case by (fastforce simp: stays_in_def xbind_Inr xret_def split: if_splits)
qed (auto simp: stays_in_def xbind_Inr xret_def stays_def)

subsection \<open>The evaluator follows the reference\<close>

definition same_end :: "run_result \<times> scope \<Rightarrow> run_result \<times> scope \<Rightarrow> bool" where
  "same_end p q \<longleftrightarrow> fst p = fst q \<and> ((\<forall>v. fst p \<noteq> RReturn v) \<longrightarrow> sub_scope (snd p) (snd q))"

definition loop_end :: "run_result option \<times> scope \<Rightarrow> run_result \<times> scope \<Rightarrow> bool" where
  "loop_end p q \<longleftrightarrow> (case fst p of None \<Rightarrow> fst q = RNone \<and> sub_scope (snd p) (snd q) | Some r \<Rightarrow> fst q = r \<and> (\<exists>v. r = RReturn v))"

definition stmt_end :: "run_result option \<times> scope \<Rightarrow> run_result \<times> scope \<Rightarrow> bool" where
  "stmt_end p q \<longleftrightarrow> (case fst p of None \<Rightarrow> fst q = RNone \<and> sub_scope (snd p) (snd q) | Some r \<Rightarrow> r \<noteq> RNone \<and> same_end (r, snd p) q)"

lemma loop_stmt_end: "loop_end p q \<Longrightarrow> stmt_end p q"
  by (auto simp: loop_end_def stmt_end_def same_end_def split: option.splits)

definition body_sims :: "(pstmt list \<Rightarrow> scope \<Rightarrow> (run_result \<times> scope) run) \<Rightarrow> (pstmt list \<Rightarrow> py_run) \<Rightarrow> bool" where
  "body_sims rb pb \<longleftrightarrow> (\<forall>b sc sc'. list_all control_safe b \<longrightarrow> sub_scope sc sc' \<longrightarrow> sims same_end (rb b sc) (pb b sc'))"

lemma body_simsD: "body_sims rb pb \<Longrightarrow> list_all control_safe b \<Longrightarrow> sub_scope sc sc' \<Longrightarrow> sims same_end (rb b sc) (pb b sc')"
  by (simp add: body_sims_def)

lemma sims_next:
  assumes "sims same_end m m'" and "\<And>sc sc'. sub_scope sc sc' \<Longrightarrow> sims loop_end (go sc) (go' sc')"
  shows "sims loop_end
    (xbind m (\<lambda>(r, priv). case r of RBreak \<Rightarrow> xret (None, priv) | RReturn v \<Rightarrow> xret (Some (RReturn v), priv) | _ \<Rightarrow> go priv))
    (xbind m' (\<lambda>(r, sc). case r of RBreak \<Rightarrow> xret (RNone, sc) | RReturn v \<Rightarrow> xret (RReturn v, sc) | _ \<Rightarrow> go' sc))"
proof (rule sims_bind[OF assms(1)])
  fix p q
  assume "same_end p q"
  then obtain r sc sc' where pq: "p = (r, sc)" "q = (r, sc')" "(\<forall>v. r \<noteq> RReturn v) \<longrightarrow> sub_scope sc sc'"
    by (cases p; cases q) (auto simp: same_end_def)
  show "sims loop_end (case p of (r, priv) \<Rightarrow> case r of RBreak \<Rightarrow> xret (None, priv)
       | RReturn v \<Rightarrow> xret (Some (RReturn v), priv) | _ \<Rightarrow> go priv)
     (case q of (r, sc) \<Rightarrow> case r of RBreak \<Rightarrow> xret (RNone, sc) | RReturn v \<Rightarrow> xret (RReturn v, sc) | _ \<Rightarrow> go' sc)"
    using pq assms(2)[of sc sc'] by (cases r) (auto simp: loop_end_def intro: sims_ret)
qed

lemma idle_ctrl:
  "idle_run (xmod (\<lambda>s. s\<lparr>rs_ctrl := f s\<rparr>))" "idle_run (emit_run_event ev)" "idle_run (xassert b)" "idle_run (step_ctrl k i)" "idle_run (end_ctrl k q)"
  by (auto simp: idle_run_def xmod_def emit_run_event_def xassert_def xret_def xstop_def quiet_state_def step_ctrl_def xget_def xbind_def
      Let_def end_ctrl_step split: option.splits)

lemma idle_may_break: "idle_run (may_break stmt sc)"
  by (auto simp: idle_run_def may_break_def xget_def xret_def quiet_state_def)

lemma sims_for_range:
  assumes "body_sims rb pb" and "list_all control_safe body"
  shows "sub_scope priv sc \<Longrightarrow> sims loop_end (for_range rb k x body is priv) (py_for_range (pb body) x is sc)"
proof (induction "is" arbitrary: priv sc)
  case (Cons i "is")
  show ?case unfolding for_range.simps py_for_range.simps
    by (rule sims_idle[OF idle_ctrl(4)], rule sims_next, rule body_simsD[OF assms], rule sub_dset[OF Cons.prems], rule Cons.IH)
qed (simp add: sims_ret loop_end_def)

lemma sims_for_list:
  assumes "body_sims rb pb" and "list_all control_safe body"
  shows "m \<le> n \<Longrightarrow> sub_scope priv sc \<Longrightarrow> sims loop_end (for_list m rb x body xs i priv) (py_for_list n (pb body) x xs i sc)"
proof (induction m arbitrary: n i priv sc)
  case (Suc m)
  then obtain n' where n: "n = Suc n'" "m \<le> n'" by (cases n) auto
  have go: "sims loop_end (xbind (rb body (dset x v priv)) (\<lambda>(r, priv').
       case r of RBreak \<Rightarrow> xret (None, priv') | RReturn v \<Rightarrow> xret (Some (RReturn v), priv') | _ \<Rightarrow> for_list m rb x body xs (Suc i) priv'))
     (xbind (pb body (dset x v sc)) (\<lambda>(r, sc').
       case r of RBreak \<Rightarrow> xret (RNone, sc') | RReturn v \<Rightarrow> xret (RReturn v, sc') | _ \<Rightarrow> py_for_list n' (pb body) x xs (Suc i) sc'))" for v
    by (rule sims_next, rule body_simsD[OF assms], rule sub_dset[OF Suc.prems(2)], rule Suc.IH[OF n(2)])
  have ret: "sims loop_end (xret (None, priv)) (xret (RNone, sc))" using Suc.prems by (simp add: sims_ret loop_end_def)
  show ?case unfolding n(1) for_list.simps py_for_list.simps
    by (rule sims_option) (use go ret in \<open>simp_all split: if_splits\<close>)
qed (simp add: sim)

lemma sims_while:
  assumes "body_sims rb pb" and "list_all control_safe body"
  shows "m \<le> n \<Longrightarrow> sub_scope priv sc \<Longrightarrow> sims loop_end (run_while m E rb test body priv) (py_while n E test (pb body) sc)"
proof (induction m arbitrary: n priv sc)
  case (Suc m)
  then obtain n' where n: "n = Suc n'" "m \<le> n'" by (cases n) auto
  show ?case unfolding n(1) run_while.simps py_while.simps
  proof (rule sims_bind[OF sims_expr(1)[OF Suc.prems(2)]], simp, rule sims_truth)
    show "sims loop_end (xret (None, priv)) (xret (RNone, sc))" using Suc.prems by (simp add: sims_ret loop_end_def)
  qed (rule sims_next, rule body_simsD[OF assms], rule Suc.prems(2), rule Suc.IH[OF n(2)])
qed (simp add: sim)

text \<open>A loop ends by copying its private scope back.\<close>

lemma sims_close:
  assumes "sims loop_end m m'" and "\<And>sc'. idle_run (fin sc')" and "\<And>sc' s x u. fin sc' s = (Inr x, u) \<Longrightarrow> x = (None, sc')"
  shows "sims loop_end (xbind m (\<lambda>(q, priv). case q of Some v \<Rightarrow> xret (Some v, sc)
     | None \<Rightarrow> xbind (copy_back (dkeys sc) priv sc) fin)) m'"
  unfolding sims_def
proof (intro allI impI)
  fix s t z u
  assume st: "py_rel s t" and z: "xbind m (\<lambda>(q, priv). case q of Some v \<Rightarrow> xret (Some v, sc)
     | None \<Rightarrow> xbind (copy_back (dkeys sc) priv sc) fin) s = (Inr z, u)"
  obtain q priv s1 where m: "m s = (Inr (q, priv), s1)"
    and q: "(case q of Some v \<Rightarrow> xret (Some v, sc) | None \<Rightarrow> xbind (copy_back (dkeys sc) priv sc) fin) s1 = (Inr z, u)"
    using z by (auto simp: xbind_Inr)
  obtain y t' where y: "m' t = (Inr y, t')" "py_rel s1 t'" "loop_end (q, priv) y" using simsD[OF assms(1) st m] by blast
  have "py_rel u t' \<and> loop_end z y"
  proof (cases q)
    case None
    obtain sc' s2 where cb: "copy_back (dkeys sc) priv sc s1 = (Inr sc', s2)" and f: "fin sc' s2 = (Inr z, u)"
      using q None by (auto simp: xbind_Inr)
    have s2: "s2 = s1" "sub_scope sc' priv" using copy_back_result[OF cb] copy_back_sub[OF cb] by auto
    have "py_rel u t'" using assms(2)[of sc'] f y(2) s2(1) unfolding idle_run_def py_rel_def by (metis snd_conv)
    moreover have "z = (None, sc')" by (rule assms(3)[OF f])
    ultimately show ?thesis using y(3) None s2(2) sub_trans by (auto simp: loop_end_def)
  next
    case (Some v)
    then show ?thesis using q y by (auto simp: xret_def loop_end_def)
  qed
  then show "\<exists>y t'. m' t = (Inr y, t') \<and> py_rel u t' \<and> loop_end z y" using y(1) by blast
qed

lemma end_ctrl_result: "end_ctrl k q s = (Inr x, u) \<Longrightarrow> x = q"
  by (auto simp: end_ctrl_step split: option.splits)

lemma sims_for:
  assumes "body_sims rb (py_block n E)" and "list_all control_safe body" and "m \<le> n" and "sub_scope sc sc'"
  shows "sims loop_end (run_for m E rb k tgt iter body sc) (py_stmt n E (PFor l tgt iter body) sc')"
  unfolding run_for_def py_stmt.simps
proof (rule sims_bind[OF sims_expr(1)[OF assms(4)]])
  fix v w :: val
  assume "v = w"
  have range: "sims loop_end (range_loop rb k b x body r sc) (py_for_range (py_block n E body) x (range_items r) sc')" for b x r
    unfolding range_loop_def Let_def end_ctrl_def[symmetric]
    by (rule sims_idle[OF idle_ctrl(3)], rule sims_idle[OF idle_ctrl(1)], rule sims_idle[OF idle_ctrl(2)], rule sims_close,
        rule sims_for_range[OF assms(1,2,4)], rule idle_ctrl(5), rule end_ctrl_result)
  have list: "sims loop_end (list_loop m rb x body v sc) (py_for_list n (py_block n E body) x v 0 sc')" for x v
    unfolding list_loop_def
    by (rule sims_close, rule sims_for_list[OF assms(1,2,3,4)]) (auto simp: idle_run_def xret_def)
  show "sims loop_end
      (case tgt of PName _ _ x \<Rightarrow> (case as_range E v of
           Some r \<Rightarrow> range_loop rb k (itype (st iter) = RANGE) x body r sc
         | None \<Rightarrow> xget (\<lambda>s. if as_list (rs_heap s) v \<noteq> None then list_loop m rb x body v sc else xstop (PErr NotImplementedError)))
       | _ \<Rightarrow> xstop (PErr AssertionError))
      (case tgt of PName _ _ x \<Rightarrow> (case as_range E w of
           Some r \<Rightarrow> py_for_range (py_block n E body) x (range_items r) sc'
         | None \<Rightarrow> xget (\<lambda>s. if as_list (rs_heap s) w \<noteq> None then py_for_list n (py_block n E body) x w 0 sc'
             else xstop (PErr NotImplementedError)))
       | _ \<Rightarrow> xstop (PErr AssertionError))"
    using range list \<open>v = w\<close> by (auto split: pexpr.splits option.splits intro!: sims_stop sims_truth)
qed

subsection \<open>Branches and blocks\<close>

definition branch_end :: "scope \<Rightarrow> run_result \<times> scope \<Rightarrow> bool" where
  "branch_end sc q \<longleftrightarrow> fst q = RNone \<and> sub_scope sc (snd q)"

definition copy_new :: "(string \<times> info) list option \<Rightarrow> scope \<Rightarrow> scope \<Rightarrow> scope run" where
  "copy_new new sc priv = xbind (case new of None \<Rightarrow> xret sc | Some nv \<Rightarrow> copy_back (map fst nv) priv sc) (\<lambda>sc'.
     copy_back (dkeys sc') priv sc')"

lemma copy_new_result: "copy_new new sc priv s = (Inr r, t) \<Longrightarrow> t = s \<and> sub_scope r priv"
proof -
  assume "copy_new new sc priv s = (Inr r, t)"
  then obtain sc' u where 1: "(case new of None \<Rightarrow> xret sc | Some nv \<Rightarrow> copy_back (map fst nv) priv sc) s = (Inr sc', u)"
    and 2: "copy_back (dkeys sc') priv sc' u = (Inr r, t)"
    by (auto simp: copy_new_def xbind_Inr)
  have "u = s" using 1 copy_back_result by (cases new) (auto simp: xret_def)
  then show ?thesis using copy_back_result[OF 2] copy_back_sub[OF 2] by simp
qed

lemma sims_branch:
  assumes rb: "body_sims rb (py_block n E)" and b: "list_all control_safe body" "\<not> list_ex (leaves True) body" and sc: "sub_scope sc sc'"
  shows "sims branch_end (xbind (rb body sc) (\<lambda>(r, priv). copy_new new sc priv)) (py_block n E body sc')"
  unfolding sims_def
proof (intro allI impI)
  fix s t z u
  assume st: "py_rel s t" and z: "xbind (rb body sc) (\<lambda>(r, priv). copy_new new sc priv) s = (Inr z, u)"
  obtain r priv s1 where m: "rb body sc s = (Inr (r, priv), s1)" and c: "copy_new new sc priv s1 = (Inr z, u)"
    using z by (auto simp: xbind_Inr)
  obtain q scq t' where y: "py_block n E body sc' t = (Inr (q, scq), t')" "py_rel s1 t'" "same_end (r, priv) (q, scq)"
    using simsD[OF body_simsD[OF rb b(1) sc] st m] by (metis surj_pair)
  have "q = RNone" using stays_inD[OF leaves_stays(2)[OF b(2)] y(1)] by (simp add: stays_def)
  moreover have "u = s1" "sub_scope z priv" using copy_new_result[OF c] by auto
  ultimately show "\<exists>y t'. py_block n E body sc' t = (Inr y, t') \<and> py_rel u t' \<and> branch_end z y"
    using y sub_trans by (fastforce simp: same_end_def branch_end_def)
qed

lemma xbind_xret: "xbind m (\<lambda>(r, sc). if r = RNone then xret (RNone, sc) else xret (r, sc)) = m"
  by (rule ext) (auto simp: xbind_def xret_def split: prod.splits sum.splits)

lemma py_block_single: "py_block n E [stmt] sc = py_stmt n E stmt sc"
  unfolding py_block.simps by (rule xbind_xret)

lemma xbind_ret_id: "xbind m xret = m"
  by (rule ext) (auto simp: xbind_def xret_def split: prod.splits sum.splits)

lemma run_if_none: "run_if E rb new sc [(None, b)] = xbind (rb b sc) (\<lambda>(r, priv). copy_new new sc priv)"
  by (rule ext) (simp add: xbind_def xret_def xget_def truth_def copy_new_def)

lemma sims_else:
  assumes rb: "body_sims rb (py_block n E)"
  shows "list_all control_safe orelse \<Longrightarrow> \<not> list_ex (leaves True) orelse \<Longrightarrow> sub_scope sc sc' \<Longrightarrow>
    sims branch_end (run_if E rb new sc (flatten_else orelse)) (py_block n E orelse sc')"
proof (induction orelse rule: flatten_else.induct)
  case (1 l test body orelse new')
  then have p: "list_all control_safe body" "\<not> list_ex (leaves True) body" "list_all control_safe orelse"
    "\<not> list_ex (leaves True) orelse" by auto
  show ?case unfolding py_block_single flatten_else.simps run_if.simps py_stmt.simps option.case copy_new_def[symmetric]
    by (rule sims_bind[OF sims_expr(1)[OF "1.prems"(3)]], simp, rule sims_truth, rule sims_branch[OF rb p(1,2) "1.prems"(3)],
        rule "1.IH"[OF p(3,4) "1.prems"(3)])
qed (simp_all only: flatten_else.simps run_if_none, (rule sims_branch[OF rb]; assumption)+)

lemma sims_if:
  assumes rb: "body_sims rb (py_block n E)" and safe: "control_safe (PIf l test body orelse new)" and sc: "sub_scope sc sc'"
  shows "sims branch_end (run_if E rb new sc (get_flatten_test_body test body orelse)) (py_stmt n E (PIf l test body orelse new) sc')"
proof -
  have "list_all control_safe [PIf l test body orelse new]" "\<not> list_ex (leaves True) [PIf l test body orelse new]"
    using safe by simp_all
  from sims_else[OF rb this sc, of new] show ?thesis
    unfolding py_block_single get_flatten_test_body_def flatten_else.simps .
qed

lemma sims_stmt:
  assumes rb: "body_sims rb (py_block n E)" and safe: "control_safe stmt" and mn: "m \<le> n" and sc: "sub_scope sc sc'"
  shows "sims stmt_end (exec_stmt m E rb stmt sc) (py_stmt n E stmt sc')"
proof -
  have ret: "sub_scope a b \<Longrightarrow> sims stmt_end (xret (None, a)) (xret (RNone, b))" for a b
    by (rule sims_ret) (simp add: stmt_end_def)
  have hit: "idle_run (expr_hit l v)" for l v by (simp add: idle_run_def quiet_hit)
  show ?thesis
  proof (cases stmt)
    case (PAssign l tgt e)
    show ?thesis unfolding PAssign exec_stmt.simps py_stmt.simps
      by (rule sims_bind[OF sims_expr(1)[OF sc]], simp, rule sims_idle[OF hit], rule sims_bind[OF sims_assign_target[OF sc]], erule ret)
  next
    case (PAnnAssign l tgt a eo)
    show ?thesis
    proof (cases eo)
      case (Some e)
      show ?thesis unfolding PAnnAssign Some exec_stmt.simps py_stmt.simps
        by (rule sims_bind[OF sims_expr(1)[OF sc]], simp, rule sims_idle[OF hit], rule sims_bind[OF sims_assign_target[OF sc]], erule ret)
    qed (use PAnnAssign sc ret in simp)
  next
    case (PAugAssign l tgt op e)
    show ?thesis unfolding PAugAssign exec_stmt.simps py_stmt.simps
      by (rule sims_bind[OF sims_expr(1)[OF sc]], simp, rule sims_bind[OF sims_aug_assign[OF sc]], erule ret)
  next
    case (PIf l test body orelse new)
    have "sims branch_end (run_if E rb new sc (get_flatten_test_body test body orelse)) (py_stmt n E stmt sc')"
      using sims_if[OF rb _ sc] safe unfolding PIf by blast
    from sims_bind[OF this, of stmt_end "\<lambda>sc'. xret (None, sc')" xret]
    have "sims stmt_end (exec_stmt m E rb stmt sc) (xbind (py_stmt n E stmt sc') xret)"
      unfolding PIf exec_stmt.simps by (auto simp: sims_ret stmt_end_def branch_end_def)
    then show ?thesis by (simp only: xbind_ret_id)
  next
    case (PFor l tgt iter body)
    then show ?thesis using sims_weaken[OF sims_for[OF rb _ mn sc] loop_stmt_end] safe by simp
  next
    case (PWhile l test body)
    have w: "sims loop_end (run_while m E rb test body sc) (py_while n E test (py_block n E body) sc')"
      using sims_while[OF rb _ mn sc] safe PWhile by simp
    have "sims loop_end (exec_stmt m E rb stmt sc) (py_stmt n E stmt sc')"
      unfolding PWhile exec_stmt.simps py_stmt.simps by (rule sims_close[OF w]) (auto simp: idle_run_def xret_def)
    then show ?thesis by (rule sims_weaken) (rule loop_stmt_end)
  next
    case (PExprStmt l e)
    show ?thesis unfolding PExprStmt exec_stmt.simps py_stmt.simps
      by (rule sims_bind[OF sims_expr(1)[OF sc]], rule ret[OF sc])
  next
    case (PReturn l eo)
    then obtain e where e: "eo = Some e" using safe by auto
    show ?thesis unfolding PReturn e exec_stmt.simps py_stmt.simps
      by (rule sims_bind[OF sims_expr(1)[OF sc]], rule sims_ret) (simp add: stmt_end_def same_end_def)
  qed (use sc in \<open>auto intro!: sims_ret simp: stmt_end_def same_end_def\<close>)
qed

lemma sims_block:
  assumes rb: "body_sims rb (py_block n E)" and mn: "m \<le> n"
  shows "list_all control_safe stmts \<Longrightarrow> sub_scope sc sc' \<Longrightarrow> sims same_end (run_block m E rb stmts sc) (py_block n E stmts sc')"
proof (induction stmts arbitrary: sc sc')
  case (Cons stmt stmts)
  have s: "sims stmt_end (exec_stmt m E rb stmt sc) (py_stmt n E stmt sc')" using sims_stmt[OF rb _ mn] Cons.prems by simp
  show ?case unfolding run_block.simps py_block.simps
  proof (rule sims_idle[OF idle_may_break], rule sims_bind[OF s])
    fix p q
    assume pq: "stmt_end p q"
    show "sims same_end (case p of (r, sc') \<Rightarrow> case r of Some q \<Rightarrow> xret (q, sc') | None \<Rightarrow> run_block m E rb stmts sc')
       (case q of (r, sc') \<Rightarrow> if r = RNone then py_block n E stmts sc' else xret (r, sc'))"
    proof (cases "fst p")
      case None
      then obtain a b where "p = (None, a)" "q = (RNone, b)" "sub_scope a b"
        using pq by (cases p; cases q) (auto simp: stmt_end_def)
      then show ?thesis using Cons.IH[of a b] Cons.prems(1) by simp
    next
      case (Some r)
      then show ?thesis using pq
        by (cases p; cases q) (auto simp: stmt_end_def same_end_def intro!: sims_ret)
    qed
  qed
qed (simp add: sims_ret same_end_def)

lemma run_body_sims: "m \<le> n \<Longrightarrow> body_sims (run_body m E) (py_block n E)"
proof (induction m)
  case (Suc m)
  then have "body_sims (run_body m E) (py_block n E)" by simp
  from sims_block[OF this, of m] Suc.prems show ?case
    by (simp add: body_sims_def sims_frame)
qed (simp add: body_sims_def sims_stop)


subsection \<open>Examples\<close>

text \<open>
  A function over a range and a list, with an \<open>elif\<close>, a \<open>while\<close> loop and a \<open>break\<close> outside every \<open>if\<close>:
  \<open>x = 10; for i in r: if i == 0: x += 5 elif i == 1: x += 7 else: xs[0] += x; while x: x = 0; break; return x + xs[0]\<close>.
\<close>

definition int_const :: "int \<Rightarrow> int \<Rightarrow> pexpr" where
  "int_const l i = PConst (at_line l) (plain_info NUMBER) (DInt i)"

definition eq_const :: "int \<Rightarrow> string \<Rightarrow> int \<Rightarrow> pexpr" where
  "eq_const l x i = PCompare (at_line l) (plain_info BOOL) EQUAL (name_at l x) (int_const l i)"

definition head_of :: "int \<Rightarrow> bool \<Rightarrow> pexpr" where
  "head_of l store = PSubscript (at_line l) (plain_info NUMBER) (PName (at_line l) (plain_info ARRAY) ''xs'') (int_const l 0) store"

definition safe_prog :: "pstmt list" where
  "safe_prog =
    [PAssign (at_line 1) (name_at 1 ''x'') (int_const 1 10),
     PFor (at_line 2) (name_at 2 ''i'') (PName (at_line 2) (plain_info RANGE) ''r'')
       [PIf (at_line 3) (eq_const 3 ''i'' 0)
          [PAugAssign (at_line 4) (name_at 4 ''x'') ADD (int_const 4 5)]
          [PIf (at_line 5) (eq_const 5 ''i'' 1)
             [PAugAssign (at_line 6) (name_at 6 ''x'') ADD (int_const 6 7)]
             [PAugAssign (at_line 7) (head_of 7 True) ADD (name_at 7 ''x'')] (Some [])] (Some [])],
     PWhile (at_line 8) (name_at 8 ''x'') [PAssign (at_line 9) (name_at 9 ''x'') (int_const 9 0), PBreak (at_line 10)],
     PReturn (at_line 11) (Some (PBinOp (at_line 11) (plain_info NUMBER) ADD (name_at 11 ''x'') (head_of 11 False)))]"

definition safe_scope :: scope where
  "safe_scope = [(''r'', DOther 0), (''xs'', DRef 0)]"

definition one_list :: rstate where
  "one_list = idle_state\<lparr>rs_heap := [OList [DInt 1]]\<rparr>"

lemma safe_run: "fst (run_func 6 plain_env [] safe_prog safe_scope one_list) = Inr (DInt 23)"
  by code_simp

lemma safe_prog_safe: "list_all control_safe safe_prog"
  by code_simp


subsection \<open>What the evaluator does not keep\<close>

text \<open>\<open>if x: return 1\<close> does not return: the function goes on to \<open>return 2\<close>.\<close>

definition early_return :: "pstmt list" where
  "early_return =
    [PIf (at_line 1) (name_at 1 ''x'') [PReturn (at_line 2) (Some (int_const 2 1))] [] (Some []),
     PReturn (at_line 3) (Some (int_const 3 2))]"

lemma return_in_if_lost:
  "fst (run_func 4 plain_env [] early_return [(''x'', DInt 1)] idle_state) = Inr (DInt 2)"
  "fst (py_func 4 plain_env [] early_return [(''x'', DInt 1)] idle_state) = Inr (DInt 1)"
  by code_simp+

text \<open>\<open>while x: if x: break\<close> ends in Python and never ends here.\<close>

definition guarded_break :: "pstmt list" where
  "guarded_break = [PWhile (at_line 1) (name_at 1 ''x'')
     [PIf (at_line 2) (name_at 2 ''x'') [PBreak (at_line 3)] [] (Some [])]]"

lemma guarded_break_python: "fst (py_func 2 plain_env [] guarded_break [(''x'', DBool True)] idle_state) = Inr DNone"
  by code_simp

lemma quiet_name: "quiet_state s \<Longrightarrow> dget sc x = Some v \<Longrightarrow> run_expr E sc (name_at l x) s = (Inr v, s)"
  by (simp add: name_at_def observe_def read_name_def xbind_def xret_def quiet_hit)

lemma quiet_frame: "quiet_state (s\<lparr>rs_frame := f\<rparr>) = quiet_state s"
  by (simp add: quiet_state_def)

lemma quiet_may_break: "quiet_state s \<Longrightarrow> may_break stmt sc s = (Inr (), s)"
  by (simp add: may_break_def xget_def xret_def quiet_state_def)

lemma guarded_break_body:
  assumes "quiet_state s"
  shows "run_body (Suc n) E [PIf (at_line 2) (name_at 2 ''x'') [PBreak (at_line 3)] [] (Some [])] [(''x'', DBool True)] s =
    (if n = 0 then (Inl PFuel, s) else (Inr (RNone, [(''x'', DBool True)]), s))"
  using assms
  by (cases n) (simp_all add: in_frame_def xbind_def quiet_may_break quiet_frame get_flatten_test_body_def quiet_name xget_def
      truth_def xret_def xstop_def read_name_def)

lemma guarded_break_loop:
  "quiet_state s \<Longrightarrow> fst (run_while k E (run_body n E) (name_at 1 ''x'')
     [PIf (at_line 2) (name_at 2 ''x'') [PBreak (at_line 3)] [] (Some [])] [(''x'', DBool True)] s) = Inl PFuel"
proof (induction k)
  case (Suc k)
  show ?case
  proof (cases n)
    case 0
    then show ?thesis using Suc.prems by (simp add: xbind_def quiet_name xget_def truth_def xstop_def)
  next
    case (Suc m)
    note body = guarded_break_body[OF Suc.prems, of m E]
    show ?thesis
      using Suc.IH[OF Suc.prems] unfolding run_while.simps Suc xbind_def
      by (simp add: quiet_name[OF Suc.prems] xget_def truth_def body del: run_body.simps)
  qed
qed (simp add: xstop_def)

lemma guarded_break_never_ends:
  assumes "quiet_state s"
  shows "fst (run_func n E [] guarded_break [(''x'', DBool True)] s) = Inl PFuel"
proof (cases n)
  case 0
  then show ?thesis by (simp add: run_func_def in_frame_def xbind_def xstop_def)
next
  case (Suc m)
  have q: "quiet_state (s\<lparr>rs_frame := f\<rparr>)" for f using assms by (simp add: quiet_frame)
  obtain t where "run_while m E (run_body m E) (name_at 1 ''x'')
     [PIf (at_line 2) (name_at 2 ''x'') [PBreak (at_line 3)] [] (Some [])] [(''x'', DBool True)]
     (s\<lparr>rs_frame := [(''x'', DBool True)]\<rparr>) = (Inl PFuel, t)"
    using guarded_break_loop[OF q, where k = m and n = m and E = E] by (metis prod.collapse)
  then show ?thesis
    by (simp add: Suc run_func_def in_frame_def guarded_break_def xbind_def quiet_may_break[OF q] dupdate_def Let_def)
qed

text \<open>A bare \<open>return\<close> in a loop does not end the loop, and a \<open>return\<close> from a loop over a range leaves its control point behind.\<close>

definition range_return :: "pexpr option \<Rightarrow> pstmt list" where
  "range_return e =
    [PFor (at_line 1) (name_at 1 ''i'') (PName (at_line 1) (plain_info RANGE) ''r'')
       [PAugAssign (at_line 2) (name_at 2 ''x'') ADD (int_const 2 1), PReturn (at_line 3) e],
     PReturn (at_line 4) (Some (name_at 4 ''x''))]"

lemma bare_return_ignored:
  "fst (run_func 4 plain_env [] (range_return None) sum_scope idle_state) = Inr (DInt 13)"
  "fst (py_func 4 plain_env [] (range_return None) sum_scope idle_state) = Inr DNone"
  by code_simp+

lemma return_leaks_control_point:
  "fst (run_func 4 plain_env [] (range_return (Some (int_const 3 7))) sum_scope idle_state) = Inr (DInt 7)"
  "dkeys (rs_ctrl (snd (run_func 4 plain_env [] (range_return (Some (int_const 3 7))) sum_scope idle_state))) = [at_line 1]"
  by code_simp+

text \<open>A dict literal gets its values as keys: \<open>{'a': 1, 'b': 2}\<close> is \<open>{1: 1, 2: 2}\<close>.\<close>

definition dict_literal :: pexpr where
  "dict_literal = PDict (at_line 1) (plain_info OBJECT)
    [(Some (PConst (at_line 1) (plain_info STRING) (DStr ''a'')), int_const 1 1),
     (Some (PConst (at_line 1) (plain_info STRING) (DStr ''b'')), int_const 1 2)]"

lemma dict_literal_loses_keys:
  "run_expr plain_env [] dict_literal idle_state =
     (Inr (DRef 0), idle_state\<lparr>rs_heap := [ODict [(KInt 1, DInt 1), (KInt 2, DInt 2)]]\<rparr>)"
  by code_simp

text \<open>\<open>remove_breakpoint\<close> removes nothing, and a disabled breakpoint still stops the run.\<close>

lemma remove_breakpoint_ignored:
  "rs_bkpts (user_cmd (RemoveBreakpoint l) s) = rs_bkpts s"
  by (simp add: remove_breakpoint_def)

lemma disabled_breakpoint_stops:
  "fst (run_func 5 plain_env [] sum_prog sum_scope (idle_state\<lparr>rs_bkpts := [((''f'', 2), (False, False))]\<rparr>)) = Inl PBlocked"
  by code_simp

end
