(* ===== verification/Spec2Isabelle.thy ===== *)
theory Spec2Isabelle
  imports Prelude TreeId EventEmitter Containers CoreIO_Data CoreIO_Tree CoreIO_Pb CoreIO_Stream
    CoreIO_Socket KVStore ShmStream ShmProtocol ShmReceive ShmUpload PyHeap DraftAst DraftJson
    DraftApply DraftEvents DraftPath Annolib DraftProxy DraftRecord DraftStabilize FTGroup FTSystem FTLive
    FlowGraph FlowMerge FlowQuotient FlowSub FlowHandles FlowExec FlowSched PflTypes PflOps PflRun
    PflAgree PflDebug PflPython
begin

text \<open>
  Verification library of tensorpc, a Python RPC framework for numerical programs.

  \<^bold>\<open>The program.\<close> A tensorpc server exposes Python services; clients call them with nested values
  that hold numpy arrays. \<open>core/core_io.py\<close> is the heart of the transport: it splits a value into its
  arrays and a skeleton, packs both for protobuf messages, chunked streams, websocket frames or
  shared memory, and restores the value on the other side. On top of it sit the shared-memory
  key-value stores of \<open>apps/collections\<close>, which let processes of a node exchange trees of arrays and
  tensors. Servers and applications signal changes through event emitters
  (\<open>core/event_emitter\<close>), and name the parts of their interface by tree identifiers
  (\<open>core/tree_id.py\<close>) and unique names (\<open>utils/uniquename.py\<close>). The state of an application is a
  document of dataclass objects (\<open>core/datamodel\<close>): code changes it through draft proxies, which record
  every statement as an update on a draft expression; the updates are applied to the document, to its
  stored form and in the front end, and observers of expressions receive change events. The processes
  of a distributed application form a group (\<open>core/distributed/ftgroup.py\<close>) whose master and workers
  watch each other. A compute flow (\<open>apps/cflow\<close>) is a graph of nodes that a scheduler runs on executors,
  passing data handles along the edges. PFL (\<open>core/pfl\<close>) is a restricted Python that is parsed, typed and run statement by
  statement under a debugger.

  \<^bold>\<open>Theories.\<close>
  \<^item> \<open>Prelude\<close>: exceptions as values, state with exceptions, Python slices and buffers,
    insertion-ordered dicts (the locale \<open>odict\<close>, interpreted on association lists).
  \<^item> \<open>TreeId\<close>: \<open>UniqueTreeId\<close> and its two subclasses.
  \<^item> \<open>EventEmitter\<close>: the registry of \<open>base.py\<close>, the asyncio emitter of \<open>aio.py\<close>, the emitters of
    \<open>single.py\<close> and \<open>call_server.py\<close>. Callbacks act on an explicit world and may change the registry.
  \<^item> \<open>Containers\<close>: \<open>UniqueNamePool\<close> and \<open>DictProxy\<close>.
  \<^item> \<open>CoreIO_Data\<close>, \<open>CoreIO_Tree\<close>, \<open>CoreIO_Pb\<close>, \<open>CoreIO_Stream\<close>, \<open>CoreIO_Socket\<close>: \<open>core_io.py\<close> from its
    dtype tables to its websocket frames, with the sender and receiver helpers of \<open>client.py\<close> and
    \<open>server_core.py\<close>.
  \<^item> \<open>KVStore\<close>: \<open>KVStore\<close>, \<open>ShmKVStore\<close> and the numpy client. \<open>ShmStream\<close>, \<open>ShmProtocol\<close>,
    \<open>ShmReceive\<close>, \<open>ShmUpload\<close>: \<open>ShmTrOnlyKVStore\<close>, its chunks, its buffer pool and items, and its two
    stream protocols (reading and storing) as interleavings of server and client.
  \<^item> \<open>PyHeap\<close>: Python values and objects with identity, and the operations of the language that draft
    updates use. \<open>DraftAst\<close>, \<open>DraftJson\<close>, \<open>DraftPath\<close>: \<open>draftast.py\<close>, its evaluators (on objects, with a
    trace, on stored documents), its printers and its compiler. \<open>DraftApply\<close>: the update operations of
    \<open>draft.py\<close> and the functions that apply them. \<open>DraftEvents\<close>: \<open>events.py\<close>. \<open>DraftProxy\<close>,
    \<open>DraftRecord\<close>, \<open>DraftStabilize\<close>: the proxies of \<open>draft.py\<close> with \<open>funcs.py\<close> and the annotated types of
    \<open>annolib.py\<close> (theory \<open>Annolib\<close>), what they record, and how dynamic expressions are rebuilt.
  \<^item> \<open>FTGroup\<close>: \<open>FaultToleranceRPCGroup\<close>, each handler an action on the group and its environment.
    \<open>FTSystem\<close> composes a master and its workers over a network that loses calls and replies, with
    processes that die and start again; \<open>FTLive\<close> shows how a group forms and how long it waits.
  \<^item> \<open>FlowGraph\<close>: the graph \<open>FlowInternals\<close> of \<open>dock/components/flowui.py\<close>, its tables and its searches.
    \<open>FlowMerge\<close>: its merging of nodes into groups and its sub flows, \<open>FlowQuotient\<close> and \<open>FlowSub\<close> what they keep
    of the graph. \<open>FlowHandles\<close>: data handles, \<open>DataHandleManager\<close> and the local executor. \<open>FlowExec\<close>: resources, nodes and
    their assignment to executors. \<open>FlowSched\<close>: \<open>SimpleScheduler\<close>, each iteration of its loop an action on the
    run, given the tasks that are done.
  \<^item> \<open>PflTypes\<close>: the static types of PFL, the restricted Python of \<open>core/pfl\<close>, in which kernels are written and
    simulated. \<open>PflOps\<close>, \<open>PflRun\<close>: its operators, its AST and its evaluator with the debugger. \<open>PflAgree\<close>, \<open>PflDebug\<close>,
    \<open>PflPython\<close>: runs that agree, the debugger that changes nothing, and the evaluator against Python.

  \<^bold>\<open>What the theorems show.\<close> Round trips of every packing; exact characterisations of when a
  buffer is large enough; the invariants of the emitters, the name pool and the shared-memory store
  over arbitrary sequences of operations; freedom from races, deadlock and failure of the
  double-buffered tensor stream in every interleaving, with termination; that a recorded draft
  statement replays to what the statement means, that the stored form of a document follows the
  document, that no change of an observed object escapes its change event; that the master of a group
  signals every restart and no other, and that a group forms when the network answers; that the tables of a
  flow graph hold its edges and its searches are exact, that merging builds the quotient of the graph and a
  sub flow its restriction, that a run starts only nodes with their inputs, that
  inputs follow the edges and handles are released exactly when no node uses them; that
  debugging a PFL program does not change its result, which is Python's when no control statement is under an \<open>if\<close>; and, where the code does
  not do what it means to, the exact behaviour as a theorem.

  \<^bold>\<open>Parameters.\<close> json, msgpack, pickle, the protobuf wire format, optree, numpy's conversions
  between dtypes and uninitialised memory are arguments of the definitions that use them; what is
  required of them is a hypothesis (the codec inverts itself on the value sent, fresh memory has the
  requested length). For the drafts: float arithmetic, \<open>%\<close>-formatting, attributes that are not
  dataclass fields, the class table, the recursion limit, and compiled expressions. For the
  groups: the outcome of every remote call, the files and the handlers of the events. For the flows: what
  the compute functions and remote calls return, fresh ids, and which tasks are done at each wait. For PFL: float operators, range objects,
  identity of immutable values and the commands of the user.

  \<^bold>\<open>Bounds and fuel.\<close> The chunking loop of \<open>ShmStream\<close> has no bound in the code; it runs on fuel and
  \<open>2 * n + 1\<close> units are enough for a tensor of \<open>n\<close> bytes. The
  evaluator of PFL runs on fuel because a \<open>while\<close> loop may not end. All other loops are structural recursions or
  have a termination proof.

  \<^bold>\<open>Not modelled.\<close> Of the drafts: the file stores, JMES searches, \<open>DraftDict.update\<close> with a whole dict and
  the helpers that freeze or materialise values. The gRPC and HTTP servers (I/O around the modelled packing), reflection on Python
  objects and source code (\<open>core/astex\<close>, tracers, functions and classes of PFL), and the user interface, debugger, kernel
  simulator and ssh tools, which are glue over front ends and external processes.
\<close>

end
